(* ===== verification/Prelude.thy ===== *)
theory Prelude
  imports Main "HOL-Library.Word"
begin

text \<open>
  The vocabulary every component shares: bytes and machine words, the \<open>Result\<close> type of the
  source as a sum (\<open>Inl\<close> the error), the slice operations of Rust's standard library the code
  calls (\<open>iter().position\<close>, range indexing, \<open>ptr::copy\<close>, \<open>trim_ascii\<close>), and the lemma
  collections the component proofs use.

  Sizes and offsets (\<open>usize\<close>) are \<open>nat\<close> wherever the code only ever holds lengths and offsets
  of buffers that exist; where the code wraps on purpose (the ring buffer's cursors, the bitmask
  kernels) the width is kept.
\<close>

unbundle bit_operations_syntax

type_synonym byte = "8 word"
type_synonym u16 = "16 word"
type_synonym u64 = "64 word"

named_theorems result_simps \<open>equations of the Result combinators\<close>
named_theorems slice_simps \<open>lengths and elements of slices and moved buffers\<close>

section \<open>Results\<close>

text \<open>The \<open>?\<close> operator: go on with the value, or return the error.\<close>

fun try_bind :: "'e + 'a \<Rightarrow> ('a \<Rightarrow> 'e + 'b) \<Rightarrow> 'e + 'b" where
  "try_bind (Inl e) k = Inl e"
| "try_bind (Inr a) k = k a"

text \<open>\<open>Result::map_err\<close> and \<open>Result::is_ok\<close>.\<close>

fun map_err :: "('e \<Rightarrow> 'f) \<Rightarrow> 'e + 'a \<Rightarrow> 'f + 'a" where
  "map_err f (Inl e) = Inl (f e)"
| "map_err f (Inr a) = Inr a"

fun is_ok :: "'e + 'a \<Rightarrow> bool" where
  "is_ok (Inl e) = False"
| "is_ok (Inr a) = True"

lemma try_bind_Inr_iff [result_simps]:
  "try_bind r k = Inr b \<longleftrightarrow> (\<exists>a. r = Inr a \<and> k a = Inr b)"
  by (cases r) auto

lemma try_bind_Inl_iff [result_simps]:
  "try_bind r k = Inl e \<longleftrightarrow> r = Inl e \<or> (\<exists>a. r = Inr a \<and> k a = Inl e)"
  by (cases r) auto

lemma map_err_Inr_iff [result_simps, simp]: "map_err f r = Inr a \<longleftrightarrow> r = Inr a"
  by (cases r) auto

lemma map_err_Inl_iff [result_simps]: "map_err f r = Inl e \<longleftrightarrow> (\<exists>e'. r = Inl e' \<and> e = f e')"
  by (cases r) auto

lemma is_ok_map_err [result_simps, simp]: "is_ok (map_err f r) = is_ok r"
  by (cases r) auto

lemma is_ok_iff: "is_ok r \<longleftrightarrow> (\<exists>a. r = Inr a)"
  by (cases r) auto

section \<open>Slices\<close>

text \<open>\<open>xs[a..b]\<close> for \<open>a \<le> b \<le> xs.len()\<close>.\<close>

definition subslice :: "'a list \<Rightarrow> nat \<Rightarrow> nat \<Rightarrow> 'a list" where
  "subslice xs a b = take (b - a) (drop a xs)"

text \<open>\<open>iter().position(p)\<close>: the index of the first element satisfying \<open>p\<close>.\<close>

fun position :: "('a \<Rightarrow> bool) \<Rightarrow> 'a list \<Rightarrow> nat option" where
  "position p [] = None"
| "position p (x # xs) = (if p x then Some 0 else map_option Suc (position p xs))"

text \<open>\<open>ptr::copy(base + src, base + dst, len)\<close> on the buffer at \<open>base\<close>: a memmove.\<close>

definition memmove :: "'a list \<Rightarrow> nat \<Rightarrow> nat \<Rightarrow> nat \<Rightarrow> 'a list" where
  "memmove buf src dst len = take dst buf @ subslice buf src (src + len) @ drop (dst + len) buf"

lemma length_slice [slice_simps, simp]: "length (subslice xs a b) = min (b - a) (length xs - a)"
  by (simp add: subslice_def)

lemma slice_nth [slice_simps]: "a + i < b \<Longrightarrow> b \<le> length xs \<Longrightarrow> subslice xs a b ! i = xs ! (a + i)"
  by (simp add: subslice_def)

lemma slice_empty [simp]: "b \<le> a \<Longrightarrow> subslice xs a b = []"
  by (simp add: subslice_def)

lemma slice_snoc: "a \<le> b \<Longrightarrow> b < length xs \<Longrightarrow> subslice xs a (Suc b) = subslice xs a b @ [xs ! b]"
  by (simp add: subslice_def Suc_diff_le take_Suc_conv_app_nth)

lemma slice_append_slice: "a \<le> b \<Longrightarrow> b \<le> c \<Longrightarrow> c \<le> length xs \<Longrightarrow> subslice xs a b @ subslice xs b c = subslice xs a c"
proof -
  assume h: "a \<le> b" "b \<le> c" "c \<le> length xs"
  then have "c - a = (b - a) + (c - b)" by simp
  then have "subslice xs a c = take (b - a) (drop a xs) @ take (c - b) (drop (b - a) (drop a xs))"
    unfolding subslice_def by (simp only: take_add)
  with h show ?thesis by (simp add: subslice_def)
qed

lemma slice_append_drop: "a \<le> b \<Longrightarrow> subslice xs a b @ drop b xs = drop a xs"
  unfolding subslice_def by (metis append_take_drop_id drop_drop le_add_diff_inverse2)

lemma slice_cong:
  assumes "\<And>i. a \<le> i \<Longrightarrow> i < b \<Longrightarrow> xs ! i = ys ! i" and "b \<le> length xs" and "b \<le> length ys"
  shows "subslice xs a b = subslice ys a b"
  using assms by (intro nth_equalityI) (auto simp: subslice_def)

lemma slice_drop: "n \<le> a \<Longrightarrow> subslice (drop n xs) (a - n) (b - n) = subslice xs a b"
  by (cases "a \<le> b") (auto simp: subslice_def)

lemma slice_append_left: "b \<le> length xs \<Longrightarrow> subslice (xs @ ys) a b = subslice xs a b"
  by (cases "a \<le> b") (auto simp: subslice_def)

lemma length_memmove [slice_simps, simp]:
  "dst \<le> src \<Longrightarrow> src + len \<le> length buf \<Longrightarrow> length (memmove buf src dst len) = length buf"
  by (simp add: memmove_def)

lemma nth_memmove:
  assumes "dst \<le> src" and "src + len \<le> length buf" and "i < length buf"
  shows "memmove buf src dst len ! i =
    (if i < dst then buf ! i else if i < dst + len then buf ! (src + (i - dst)) else buf ! i)"
proof -
  have "length (subslice buf src (src + len)) = len"
    using assms(2) by simp
  with assms show ?thesis
    by (auto simp: memmove_def nth_append subslice_def)
qed

lemma memmove_same: "src + len \<le> length buf \<Longrightarrow> memmove buf src src len = buf"
  by (simp add: memmove_def subslice_def flip: drop_drop append_assoc)
    (metis add.commute append_assoc append_take_drop_id drop_drop take_add)

lemma position_None_iff: "position p xs = None \<longleftrightarrow> (\<forall>x\<in>set xs. \<not> p x)"
  by (induction xs) auto

lemma position_Some_iff:
  "position p xs = Some i \<longleftrightarrow> i < length xs \<and> p (xs ! i) \<and> (\<forall>j<i. \<not> p (xs ! j))"
proof (induction xs arbitrary: i)
  case Nil
  then show ?case by simp
next
  case (Cons x xs)
  show ?case
  proof (cases i)
    case 0
    then show ?thesis by auto
  next
    case (Suc k)
    then show ?thesis using Cons.IH[of k] by (auto simp: less_Suc_eq_0_disj nth_Cons')
  qed
qed

lemma position_append:
  "position p (xs @ ys) =
    (case position p xs of Some i \<Rightarrow> Some i | None \<Rightarrow> map_option (\<lambda>i. length xs + i) (position p ys))"
  by (induction xs) (auto split: option.splits simp: map_option_case)

section \<open>ASCII\<close>

abbreviation "LF \<equiv> (10 :: byte)"
abbreviation "CR \<equiv> (13 :: byte)"

text \<open>\<open>u8::is_ascii\<close> and \<open>u8::is_ascii_whitespace\<close>: tab, line feed, form feed, carriage return
  and space. The standard library does not count the vertical tab.\<close>

definition is_ascii :: "byte \<Rightarrow> bool" where
  "is_ascii b \<longleftrightarrow> b < 128"

definition is_ascii_whitespace :: "byte \<Rightarrow> bool" where
  "is_ascii_whitespace b \<longleftrightarrow> b = 9 \<or> b = 10 \<or> b = 12 \<or> b = 13 \<or> b = 32"

text \<open>\<open><[u8]>::trim_ascii\<close>: the number of leading bytes dropped and what remains.\<close>

definition trim_ascii :: "byte list \<Rightarrow> nat \<times> byte list" where
  "trim_ascii s =
     (let start = dropWhile is_ascii_whitespace s
      in (length s - length start, rev (dropWhile is_ascii_whitespace (rev start))))"

lemma trim_ascii_bounds:
  "fst (trim_ascii s) + length (snd (trim_ascii s)) \<le> length s"
proof -
  have "length (dropWhile is_ascii_whitespace s) \<le> length s" by (rule length_dropWhile_le)
  moreover have "length (dropWhile is_ascii_whitespace (rev (dropWhile is_ascii_whitespace s)))
      \<le> length (dropWhile is_ascii_whitespace s)"
    by (metis length_dropWhile_le length_rev)
  ultimately show ?thesis by (simp add: trim_ascii_def Let_def)
qed

lemma trim_ascii_slice:
  "take (length (snd (trim_ascii s))) (drop (fst (trim_ascii s)) s) = snd (trim_ascii s)"
proof -
  let ?st = "dropWhile is_ascii_whitespace s"
  have st: "drop (length s - length ?st) s = ?st"
    by (metis append_eq_conv_conj diff_diff_cancel length_append length_dropWhile_le
        takeWhile_dropWhile_id add_diff_cancel_right')
  have "\<exists>zs. ?st = rev (dropWhile is_ascii_whitespace (rev ?st)) @ zs"
    by (metis rev_append rev_rev_ident takeWhile_dropWhile_id)
  then obtain zs where "?st = rev (dropWhile is_ascii_whitespace (rev ?st)) @ zs" ..
  then have "take (length (rev (dropWhile is_ascii_whitespace (rev ?st)))) ?st
      = rev (dropWhile is_ascii_whitespace (rev ?st))"
    by (metis append_eq_conv_conj)
  with st show ?thesis by (simp add: trim_ascii_def Let_def)
qed

lemma distinct_singleton_filter: "distinct xs \<Longrightarrow> x \<in> set xs \<Longrightarrow> filter (\<lambda>y. y = x) xs = [x]"
  by (induction xs) (auto simp: filter_empty_conv)

end
