(* ===== verification/Errors.thy ===== *)
theory Errors
  imports Prelude
begin

text \<open>
  src/src/error.rs: the crate's error type, the chunk-to-file rebasing of its positions and the
  unwrapping of accumulator errors. The user's boxed error is a type parameter \<open>'u\<close>; the
  operating-system errors the crate itself raises or forwards are the constructors of
  \<open>io_error\<close>. The \<open>Display\<close> rendering is not modelled.
\<close>

record Position =
  byte_offset :: nat

text \<open>\<open>std::io::Error\<close>: the two limit errors of the ring buffer (src/src/io/ringbuf/buf/mod.rs),
  the spawn failure of the scheduler, and whatever the operating system or a reader reports.\<close>

datatype io_error =
    CapacityExceedsLimit nat nat nat
  | GrowthExceedsLimit nat nat
  | SpawnFailed nat nat
  | Unsupported string
  | OsError string

datatype 'u Error =
    IO io_error
  | InvalidConfig string
  | NumberOfFields nat nat Position
  | Utf8 Position
  | InvalidQuote Position
  | UnclosedQuote Position
  | User 'u

text \<open>\<open>Position::shift\<close>\<close>

definition shift :: "Position \<Rightarrow> nat \<Rightarrow> Position" where
  "shift p delta = p\<lparr>byte_offset := byte_offset p + delta\<rparr>"

text \<open>\<open>Error::position\<close>\<close>

fun error_position :: "'u Error \<Rightarrow> Position option" where
  "error_position (Utf8 p) = Some p"
| "error_position (InvalidQuote p) = Some p"
| "error_position (UnclosedQuote p) = Some p"
| "error_position (NumberOfFields expected found p) = Some p"
| "error_position _ = None"

text \<open>\<open>Error::with_base\<close>\<close>

fun with_base :: "nat \<Rightarrow> 'u Error \<Rightarrow> 'u Error" where
  "with_base base (Utf8 p) = Utf8 (shift p base)"
| "with_base base (InvalidQuote p) = InvalidQuote (shift p base)"
| "with_base base (UnclosedQuote p) = UnclosedQuote (shift p base)"
| "with_base base (NumberOfFields expected found p) = NumberOfFields expected found (shift p base)"
| "with_base base other = other"

text \<open>What an accumulator may return as its boxed error: one of the crate's own errors, which
  \<open>from_user\<close> unnests, or any other.\<close>

datatype 'u boxed_error = Crate "'u Error" | Other 'u

text \<open>\<open>Error::from_user\<close>: \<open>err.downcast::<Error>()\<close>\<close>

fun from_user :: "'u boxed_error \<Rightarrow> 'u Error" where
  "from_user (Crate inner) = inner"
| "from_user (Other err) = User err"

abbreviation at_byte :: "nat \<Rightarrow> Position" where
  "at_byte n \<equiv> \<lparr>byte_offset = n\<rparr>"

lemma shift_at_byte [simp]: "shift (at_byte n) d = at_byte (n + d)"
  by (simp add: shift_def)

lemma shift_shift [simp]: "shift (shift p a) b = shift p (a + b)"
  by (simp add: shift_def)

lemma with_base_add: "with_base a (with_base b e) = with_base (b + a) e"
  by (cases e) auto

lemma with_base_0 [simp]: "with_base 0 e = e"
  by (cases e) (auto simp: shift_def)

lemma error_position_with_base: "error_position (with_base b e) = map_option (\<lambda>p. shift p b) (error_position e)"
  by (cases e) auto

end
