(* ===== verification/Config.thy ===== *)
theory Config
  imports Errors
begin

text \<open>
  src/src/config.rs, src/src/io/ringbuf/settings.rs and src/src/sys.rs: the dialect and execution
  settings, their validation, and the host facts the code asks the operating system for.
\<close>

section \<open>Host facts\<close>

text \<open>
  What src/src/sys.rs obtains from the operating system, and the compile-time facts
  (\<open>target_endian\<close>, \<open>target_vendor\<close>, \<open>unix\<close>) the code branches on. They are parameters of the model:
  no definition fixes them.
\<close>

record Host =
  little_endian :: bool
  target_apple :: bool
  target_unix :: bool
  allocation_granularity :: nat
  available_parallelism :: nat
  total_ram :: "nat option"

section \<open>Settings\<close>

datatype RecordTerminator = Byte byte | CRLF

text \<open>\<open>RecordTerminator::bytes\<close>: a maximal run over this set is one record boundary.\<close>

fun terminator_bytes :: "RecordTerminator \<Rightarrow> byte \<times> byte option" where
  "terminator_bytes (Byte b) = (b, None)"
| "terminator_bytes CRLF = (LF, Some CR)"

definition is_terminator :: "RecordTerminator \<Rightarrow> byte \<Rightarrow> bool" where
  "is_terminator t b = (case t of CRLF \<Rightarrow> b = CR \<or> b = LF | Byte t' \<Rightarrow> b = t')"

record RingBufSettings =
  buffer_size :: nat
  buffer_limit :: "nat option"

definition default_ring_settings :: RingBufSettings where
  "default_ring_settings = \<lparr>buffer_size = 0, buffer_limit = Some 0\<rparr>"

datatype IoBackend = IoAuto | Mmap | RingBuf RingBufSettings | InMemory

datatype QuoteHandling = Toggle | Strict | Literal

datatype ParserBackend = ParserAuto | Dfa_Backend | Simd_Backend

record Config =
  delimiter :: byte
  terminator :: RecordTerminator
  quote :: "byte option"
  escape :: "byte option"
  comment :: "byte option"
  has_headers :: bool
  concurrency :: nat
  chunk_size :: nat
  io_buffer_limit :: "nat option"
  quote_handling :: QuoteHandling
  flexible :: bool
  field_count :: "nat option"
  trim :: bool
  io_backend :: IoBackend
  parser_backend :: ParserBackend

text \<open>\<open>Config::default\<close>\<close>

definition default_config :: Config where
  "default_config = \<lparr>
     delimiter = 44, terminator = CRLF, quote = Some 34, escape = Some 34, comment = None,
     has_headers = True, concurrency = 0, chunk_size = 0, io_buffer_limit = Some 0,
     quote_handling = Toggle, flexible = False, field_count = None, trim = False,
     io_backend = IoAuto, parser_backend = ParserAuto\<rparr>"

section \<open>Validation\<close>

text \<open>The list of control bytes that must be distinct, with the labels \<open>validate\<close> compares.\<close>

definition control_bytes :: "Config \<Rightarrow> (string \<times> byte option) list" where
  "control_bytes c = (let (term_a, term_b) = terminator_bytes (terminator c) in
     [(''delimiter'', Some (delimiter c)), (''terminator'', Some term_a), (''terminator'', term_b),
      (''quote'', quote c), (''escape'', escape c), (''comment'', comment c)])"

text \<open>The body of the nested loop at one pair \<open>i < j\<close>: a clash, unless it is quote against escape.\<close>

definition clashing :: "string \<times> byte option \<Rightarrow> string \<times> byte option \<Rightarrow> bool" where
  "clashing x y = (case (snd x, snd y) of
       (Some a, Some b) \<Rightarrow> a = b \<and> \<not> (fst x = ''quote'' \<and> fst y = ''escape'')
     | _ \<Rightarrow> False)"

fun any_clash :: "(string \<times> byte option) list \<Rightarrow> bool" where
  "any_clash [] = False"
| "any_clash (x # ys) = (list_ex (clashing x) ys \<or> any_clash ys)"

text \<open>\<open>limit != 0 && ring.buffer_size > limit\<close>\<close>

definition over_limit :: "nat option \<Rightarrow> nat \<Rightarrow> bool" where
  "over_limit l sz = (case l of Some limit \<Rightarrow> limit \<noteq> 0 \<and> sz > limit | None \<Rightarrow> False)"

text \<open>The ring-buffer checks at the start of \<open>validate\<close>, which only a named ring buffer gets.\<close>

definition validate_ring :: "Config \<Rightarrow> 'u Error + unit" where
  "validate_ring c = (case io_backend c of
       RingBuf ring \<Rightarrow>
         (if over_limit (buffer_limit ring) (buffer_size ring)
          then Inl (InvalidConfig ''ring buffer buffer_size must be <= its buffer_limit'')
          else if over_limit (io_buffer_limit c) (buffer_size ring)
          then Inl (InvalidConfig ''io_buffer_limit is a total across threads and must leave room for at least one ring buffer'')
          else Inr ())
     | _ \<Rightarrow> Inr ())"

definition validate :: "Config \<Rightarrow> 'u Error + unit" where
  "validate c = try_bind (validate_ring c) (\<lambda>_.
     if any_clash (control_bytes c)
     then Inl (InvalidConfig ''delimiter, terminator, quote, escape, and comment must be distinct'')
     else if escape c \<noteq> None \<and> quote c = None
     then Inl (InvalidConfig ''quote must be set when escape is set'')
     else Inr ())"

text \<open>\<open>bytes.iter().flatten().any(|b| !b.is_ascii())\<close>\<close>

definition validate_ascii_control_bytes :: "Config \<Rightarrow> 'u Error + unit" where
  "validate_ascii_control_bytes c =
     (if list_ex (\<lambda>(_, ob). case ob of Some b \<Rightarrow> \<not> is_ascii b | None \<Rightarrow> False) (control_bytes c)
      then Inl (InvalidConfig ''delimiter, terminator, quote, escape, and comment must be ASCII in text mode; use `ParserBuilder::bytes` for non-UTF-8 encodings'')
      else Inr ())"

section \<open>What validation guarantees\<close>

text \<open>Two optional control bytes are apart when they are not the same byte.\<close>

definition apart :: "byte option \<Rightarrow> byte option \<Rightarrow> bool" where
  "apart x y \<longleftrightarrow> x = None \<or> x \<noteq> y"

lemma apart_None [simp]: "apart None y" "apart x None"
  by (auto simp: apart_def)

lemma apart_Some [simp]: "apart (Some a) (Some b) \<longleftrightarrow> a \<noteq> b"
  by (auto simp: apart_def)

text \<open>The dialect the parsers may rely on: every pair of control bytes is apart, except that the
  quote may be its own escape.\<close>

definition dialect_ok :: "Config \<Rightarrow> bool" where
  "dialect_ok c \<longleftrightarrow>
     \<not> is_terminator (terminator c) (delimiter c) \<and>
     apart (quote c) (Some (delimiter c)) \<and> apart (escape c) (Some (delimiter c)) \<and>
     apart (comment c) (Some (delimiter c)) \<and> apart (comment c) (quote c) \<and>
     apart (comment c) (escape c) \<and>
     (\<forall>x \<in> {quote c, escape c, comment c}. \<forall>b. x = Some b \<longrightarrow> \<not> is_terminator (terminator c) b)"

definition ring_ok :: "Config \<Rightarrow> bool" where
  "ring_ok c \<longleftrightarrow> (case io_backend c of
       RingBuf ring \<Rightarrow> \<not> over_limit (buffer_limit ring) (buffer_size ring) \<and>
                       \<not> over_limit (io_buffer_limit c) (buffer_size ring)
     | _ \<Rightarrow> True)"

lemma validate_ring_iff: "validate_ring c = Inr () \<longleftrightarrow> ring_ok c"
  by (auto simp: validate_ring_def ring_ok_def split: IoBackend.splits)

lemma any_clash_control_bytes: "\<not> any_clash (control_bytes c) \<longleftrightarrow> dialect_ok c"
  by (cases "terminator c"; cases "quote c"; cases "escape c"; cases "comment c")
    (auto simp: control_bytes_def clashing_def dialect_ok_def is_terminator_def)

lemma validate_iff:
  "validate c = Inr () \<longleftrightarrow> ring_ok c \<and> dialect_ok c \<and> (quote c = None \<longrightarrow> escape c = None)"
  using validate_ring_iff[of c] any_clash_control_bytes[of c]
  by (auto simp: validate_def result_simps)

lemma terminator_bytes_iff:
  "is_terminator t b \<longleftrightarrow> b = fst (terminator_bytes t) \<or> snd (terminator_bytes t) = Some b"
  by (cases t) (auto simp: is_terminator_def)

lemma default_config_valid: "validate default_config = Inr ()"
  by (simp add: validate_iff ring_ok_def dialect_ok_def default_config_def is_terminator_def)

end
