(* ===== verification/Bits.thy ===== *)
theory Bits
  imports Prelude
begin

text \<open>
  The integer intrinsics of Rust's \<open>u64\<close> the parsers use: \<open>trailing_zeros\<close>, \<open>leading_zeros\<close>,
  \<open>count_ones\<close> and \<open>from_ne_bytes\<close>, and the arithmetic of a word read as eight byte lanes.
\<close>

unbundle bit_operations_syntax

definition trailing_zeros :: "u64 \<Rightarrow> nat" where
  "trailing_zeros w = (case position (bit w) [0..<64] of Some i \<Rightarrow> i | None \<Rightarrow> 64)"

definition leading_zeros :: "u64 \<Rightarrow> nat" where
  "leading_zeros w = (case position (\<lambda>i. bit w (63 - i)) [0..<64] of Some i \<Rightarrow> i | None \<Rightarrow> 64)"

definition count_ones :: "u64 \<Rightarrow> nat" where
  "count_ones w = length (filter (bit w) [0..<64])"

lemma bit_u64_bound: "bit (w :: u64) i \<Longrightarrow> i < 64"
  using bit_imp_le_length[of w i] by simp

lemma u64_eqI: "(\<And>i. i < 64 \<Longrightarrow> bit v i = bit w i) \<Longrightarrow> v = (w :: u64)"
  by (rule bit_word_eqI) simp

lemma u64_eq_0_iff: "(w :: u64) = 0 \<longleftrightarrow> (\<forall>i<64. \<not> bit w i)"
  by (auto intro!: u64_eqI)

lemma trailing_zeros_eq_iff:
  assumes "w \<noteq> 0"
  shows "trailing_zeros w = i \<longleftrightarrow> bit w i \<and> (\<forall>j<i. \<not> bit w j)"
proof -
  have "\<exists>k. position (bit w) [0..<64] = Some k"
    using assms u64_eq_0_iff[of w] position_None_iff[of "bit w" "[0..<64]"]
    by (cases "position (bit w) [0..<64]") auto
  then obtain k where k: "position (bit w) [0..<64] = Some k" ..
  then have pk: "bit w k" "\<forall>j<k. \<not> bit w j"
    by (auto simp: position_Some_iff)
  have "trailing_zeros w = k"
    using k by (simp add: trailing_zeros_def)
  with pk show ?thesis
    by (metis linorder_neqE_nat)
qed

lemma leading_zeros_eq_iff:
  assumes "w \<noteq> 0"
  shows "leading_zeros w = i \<longleftrightarrow> i < 64 \<and> bit w (63 - i) \<and> (\<forall>j<i. \<not> bit w (63 - j))"
proof -
  have "\<exists>k. position (\<lambda>i. bit w (63 - i)) [0..<64] = Some k"
  proof (rule ccontr)
    assume "\<not> ?thesis"
    then have "\<forall>j<64. \<not> bit w (63 - j)"
      using position_None_iff[of "\<lambda>i. bit w (63 - i)" "[0..<64]"]
      by (cases "position (\<lambda>i. bit w (63 - i)) [0..<64]") auto
    then have "\<not> bit w j" if "j < 64" for j
      using that by (auto dest: spec[of _ "63 - j"])
    with assms show False by (simp add: u64_eq_0_iff)
  qed
  then obtain k where k: "position (\<lambda>i. bit w (63 - i)) [0..<64] = Some k" ..
  then have pk: "k < 64" "bit w (63 - k)" "\<forall>j<k. \<not> bit w (63 - j)"
    by (auto simp: position_Some_iff)
  have "leading_zeros w = k"
    using k by (simp add: leading_zeros_def)
  with pk show ?thesis
    by (metis linorder_neqE_nat)
qed

section \<open>Byte lanes\<close>

text \<open>The value of a byte sequence, least significant byte first.\<close>

fun le_int :: "byte list \<Rightarrow> int" where
  "le_int [] = 0"
| "le_int (b # bs) = uint b + 256 * le_int bs"

text \<open>\<open>u64::from_ne_bytes\<close> on a little- or big-endian target.\<close>

definition from_ne_bytes :: "bool \<Rightarrow> byte list \<Rightarrow> u64" where
  "from_ne_bytes le bs = word_of_int (le_int (if le then bs else rev bs))"

lemma bit_lane_step:
  assumes "0 \<le> r" and "r < 256"
  shows "bit (r + 256 * q :: int) i = (if i < 8 then bit r i else bit q (i - 8))"
proof -
  have "take_bit 8 r = r"
    using assms by (simp add: take_bit_int_eq_self)
  then have "r + 256 * q = concat_bit 8 r q"
    by (simp add: concat_bit_eq push_bit_eq_mult)
  then show ?thesis
    by (auto simp: bit_concat_bit_iff)
qed

lemma bit_7_iff:
  assumes "0 \<le> x" and "x < 256"
  shows "bit (x :: int) 7 \<longleftrightarrow> 128 \<le> x"
proof (cases "x < 128")
  case True
  with assms show ?thesis by (simp add: bit_iff_odd div_pos_pos_trivial)
next
  case False
  then have "x div 128 = 1"
    using assms by (simp add: div_pos_geq div_pos_pos_trivial)
  with False show ?thesis by (simp add: bit_iff_odd)
qed

lemma uint_byte_bounds: "0 \<le> uint (b :: byte)" "uint (b :: byte) < 256"
  using uint_bounded[of b] by auto

lemma bit_le_int:
  "bit (le_int bs) i \<longleftrightarrow> i div 8 < length bs \<and> bit (bs ! (i div 8)) (i mod 8)"
proof (induction bs arbitrary: i)
  case Nil
  then show ?case by simp
next
  case (Cons b bs)
  show ?case
  proof (cases "i < 8")
    case True
    then show ?thesis
      by (simp add: bit_lane_step uint_byte_bounds bit_uint_iff)
  next
    case False
    then obtain m where m: "i = m + 8"
      by (metis le_add_diff_inverse2 not_less)
    have "i div 8 = Suc ((i - 8) div 8)" "i mod 8 = (i - 8) mod 8"
      by (simp_all add: m)
    with False Cons.IH[of "i - 8"] show ?thesis
      by (simp add: bit_lane_step uint_byte_bounds)
  qed
qed

lemma bit_from_ne_bytes:
  assumes "length bs = 8"
  shows "bit (from_ne_bytes le bs) i \<longleftrightarrow>
    i < 64 \<and> bit ((if le then bs else rev bs) ! (i div 8)) (i mod 8)"
  using assms by (auto simp: from_ne_bytes_def bit_simps bit_le_int)

text \<open>Subtracting one from every lane (and an incoming borrow \<open>c\<close> from the lowest): bit 7 of a
  zero lane always comes out set, and while every lower lane is non-zero it is the only way the
  tag of a lane can be set.\<close>

lemma zero_lane_borrows:
  assumes "k < length cs" and "cs ! k = 0" and "c = 0 \<or> c = 1"
  shows "bit (le_int cs - le_int (replicate (length cs) 1) - c) (8 * k + 7)"
  using assms
proof (induction cs arbitrary: k c)
  case Nil
  then show ?case by simp
next
  case (Cons b cs)
  let ?q = "le_int cs - le_int (replicate (length cs) 1)"
  let ?d = "if uint b - 1 - c < 0 then 1 else 0 :: int"
  let ?r = "uint b - 1 - c + 256 * ?d"
  have eq: "le_int (b # cs) - le_int (replicate (length (b # cs)) 1) - c = ?r + 256 * (?q - ?d)"
    by (simp add: algebra_simps)
  have r: "0 \<le> ?r" "?r < 256"
    using Cons.prems(3) uint_byte_bounds[of b] by auto
  show ?case
  proof (cases k)
    case 0
    with Cons.prems(2) have "uint b = 0" by simp
    with Cons.prems(3) have "bit ?r 7" by auto
    with 0 show ?thesis
      unfolding eq bit_lane_step[OF r] by simp
  next
    case (Suc j)
    have "bit (?q - ?d) (8 * j + 7)"
      by (rule Cons.IH) (use Cons.prems Suc in auto)
    with Suc show ?thesis
      unfolding eq bit_lane_step[OF r] by (simp add: algebra_simps)
  qed
qed

lemma lane_tag_iff:
  assumes "k < length cs" and "\<forall>j<k. cs ! j \<noteq> 0"
  shows "bit (le_int cs - le_int (replicate (length cs) 1)) (8 * k + 7) \<and> \<not> bit (cs ! k) 7
    \<longleftrightarrow> cs ! k = 0"
  using assms
proof (induction cs arbitrary: k)
  case Nil
  then show ?case by simp
next
  case (Cons b cs)
  let ?q = "le_int cs - le_int (replicate (length cs) 1)"
  have eq: "le_int (b # cs) - le_int (replicate (length (b # cs)) 1) = (uint b - 1) + 256 * ?q"
    by (simp add: algebra_simps)
  show ?case
  proof (cases "b = 0")
    case True
    with Cons.prems(2) have "k = 0" by (cases k) auto
    with True zero_lane_borrows[of 0 "b # cs" 0] show ?thesis by simp
  next
    case False
    then have "uint b \<noteq> 0" by (simp add: uint_0_iff)
    with uint_byte_bounds[of b] have r: "0 \<le> uint b - 1" "uint b - 1 < 256" by linarith+
    show ?thesis
    proof (cases k)
      case 0
      have "\<not> (bit (uint b - 1) 7 \<and> \<not> bit (uint b) 7)"
      proof -
        have "bit (uint b - 1) 7 \<longleftrightarrow> 128 \<le> uint b - 1" "bit (uint b) 7 \<longleftrightarrow> 128 \<le> uint b"
          using bit_7_iff[OF r] bit_7_iff[OF uint_byte_bounds] by simp_all
        then show ?thesis by auto
      qed
      with 0 False show ?thesis
        unfolding eq bit_lane_step[OF r] by (auto simp: bit_uint_iff)
    next
      case (Suc j)
      have "bit ?q (8 * j + 7) \<and> \<not> bit (cs ! j) 7 \<longleftrightarrow> cs ! j = 0"
        by (rule Cons.IH) (use Cons.prems Suc in auto)
      with Suc show ?thesis
        unfolding eq bit_lane_step[OF r] by (simp add: algebra_simps)
    qed
  qed
qed

end
