(* ===== verification/Table.thy ===== *)
theory Table
  imports Config Bits
begin

text \<open>
  src/src/parser/dfa/table.rs: the packed transitions, the structural needles with their SWAR scan,
  and the construction of the transition table from a configuration. The lemmas show that a packed
  transition decodes to what it was built from, that the scan finds the first structural byte, and
  which cells the strict-error flag marks.
\<close>

unbundle bit_operations_syntax

section \<open>States and transitions\<close>

datatype State =
    InField | InQuotedField | RecordStart | FieldStart | AfterClosingQuote | InEscapedQuote | InComment
  | FieldEnd | RecordEnd | Error

text \<open>The discriminants of \<open>#[repr(u8)]\<close>.\<close>

fun state_u8 :: "State \<Rightarrow> byte" where
  "state_u8 InField = 0"
| "state_u8 InQuotedField = 1"
| "state_u8 RecordStart = 2"
| "state_u8 FieldStart = 3"
| "state_u8 AfterClosingQuote = 4"
| "state_u8 InEscapedQuote = 5"
| "state_u8 InComment = 6"
| "state_u8 FieldEnd = 7"
| "state_u8 RecordEnd = 8"
| "state_u8 Error = 9"

definition FIRST_ACTION :: byte where "FIRST_ACTION = state_u8 FieldEnd"
definition RECORD_END_STATE :: byte where "RECORD_END_STATE = state_u8 RecordEnd"
definition ERROR_STATE :: byte where "ERROR_STATE = state_u8 Error"

text \<open>\<open>transmute::<u8, State>\<close>. Only bytes 0 to 9 are discriminants; every table entry holds one
  (lemma \<open>next_state_new\<close>), so the last branch is never taken.\<close>

definition state_of_u8 :: "byte \<Rightarrow> State" where
  "state_of_u8 b =
     (if b = 0 then InField else if b = 1 then InQuotedField else if b = 2 then RecordStart
      else if b = 3 then FieldStart else if b = 4 then AfterClosingQuote
      else if b = 5 then InEscapedQuote else if b = 6 then InComment else if b = 7 then FieldEnd
      else if b = 8 then RecordEnd else Error)"

type_synonym Transition = u16

definition HAS_OUTPUT :: u16 where "HAS_OUTPUT = push_bit 8 1"
definition STRICT_ERROR :: u16 where "STRICT_ERROR = push_bit 9 1"

definition transition_new :: "State \<Rightarrow> bool \<Rightarrow> Transition" where
  "transition_new next has_out = ucast (state_u8 next) OR (if has_out then HAS_OUTPUT else 0)"

definition with_strict_error :: "Transition \<Rightarrow> Transition" where
  "with_strict_error t = t OR STRICT_ERROR"

definition next_raw :: "Transition \<Rightarrow> byte" where
  "next_raw t = ucast t"

definition has_output :: "Transition \<Rightarrow> bool" where
  "has_output t \<longleftrightarrow> t AND HAS_OUTPUT \<noteq> 0"

definition is_strict_error :: "Transition \<Rightarrow> bool" where
  "is_strict_error t \<longleftrightarrow> t AND STRICT_ERROR \<noteq> 0"

definition next_state :: "Transition \<Rightarrow> State" where
  "next_state t = state_of_u8 (next_raw t)"

lemmas transition_defs =
  transition_new_def with_strict_error_def next_raw_def has_output_def is_strict_error_def
  HAS_OUTPUT_def STRICT_ERROR_def

lemma state_of_u8_inverse [simp]: "state_of_u8 (state_u8 s) = s"
  by (cases s) (simp_all add: state_of_u8_def)

lemma next_raw_new [simp]: "next_raw (transition_new s out) = state_u8 s"
  by (cases s; cases out) (simp_all add: transition_defs)

lemma next_raw_strict [simp]: "next_raw (with_strict_error (transition_new s out)) = state_u8 s"
  by (cases s; cases out) (simp_all add: transition_defs)

lemma has_output_new [simp]: "has_output (transition_new s out) = out"
  by (cases s; cases out) (simp_all add: transition_defs)

lemma has_output_strict [simp]: "has_output (with_strict_error (transition_new s out)) = out"
  by (cases s; cases out) (simp_all add: transition_defs)

lemma is_strict_error_new [simp]: "\<not> is_strict_error (transition_new s out)"
  by (cases s; cases out) (simp_all add: transition_defs)

lemma is_strict_error_strict [simp]: "is_strict_error (with_strict_error (transition_new s out))"
  by (cases s; cases out) (simp_all add: transition_defs)

lemma next_state_new [simp]:
  "next_state (transition_new s out) = s" "next_state (with_strict_error (transition_new s out)) = s"
  by (simp_all add: next_state_def)

text \<open>Interior states are the ones below \<open>FIRST_ACTION\<close>.\<close>

definition interior :: "State \<Rightarrow> bool" where
  "interior s \<longleftrightarrow> s \<noteq> FieldEnd \<and> s \<noteq> RecordEnd \<and> s \<noteq> Error"

lemma below_first_action: "state_u8 s < FIRST_ACTION \<longleftrightarrow> interior s"
  by (cases s) (simp_all add: FIRST_ACTION_def interior_def)

lemma state_u8_eq [simp]:
  "state_u8 s = ERROR_STATE \<longleftrightarrow> s = Error" "state_u8 s = RECORD_END_STATE \<longleftrightarrow> s = RecordEnd"
  by (cases s; simp add: ERROR_STATE_def RECORD_END_STATE_def)+

section \<open>Structural needles\<close>

record StructuralNeedles =
  needle_bytes :: "byte list"
  lanes :: "u64 list"
  count :: nat

definition SWAR_LO :: "bool \<Rightarrow> u64" where
  "SWAR_LO le = from_ne_bytes le (replicate 8 0x01)"
definition SWAR_HI :: "bool \<Rightarrow> u64" where
  "SWAR_HI le = from_ne_bytes le (replicate 8 0x80)"

definition all_bytes :: "byte list" where
  "all_bytes = map word_of_nat [0..<256]"

text \<open>One iteration of the collecting loop of \<open>from_mask\<close>.\<close>

definition collect_needle :: "(byte \<Rightarrow> bool) \<Rightarrow> byte \<Rightarrow> byte list \<times> nat \<Rightarrow> byte list \<times> nat" where
  "collect_needle m b = (\<lambda>(bytes, cnt).
     if m b \<and> cnt < length bytes then (bytes[cnt := b], cnt + 1) else (bytes, cnt))"

definition broadcast :: "bool \<Rightarrow> byte \<Rightarrow> u64" where
  "broadcast le b = from_ne_bytes le (replicate 8 b)"

definition from_mask :: "bool \<Rightarrow> (byte \<Rightarrow> bool) \<Rightarrow> StructuralNeedles" where
  "from_mask le m =
     (let (bytes, cnt) = fold (collect_needle m) all_bytes (replicate 4 0, 0);
          lns = fold (\<lambda>i ls. ls[i := broadcast le (bytes ! i)]) [0..<cnt]
                  (replicate 4 (broadcast le (bytes ! 0)))
      in \<lparr>needle_bytes = bytes, lanes = lns, count = cnt\<rparr>)"

text \<open>The tag of every lane of \<open>x\<close> that is zero, \<open>haszero(x)\<close>.\<close>

definition zero_tags :: "bool \<Rightarrow> u64 \<Rightarrow> u64" where
  "zero_tags le x = (x - SWAR_LO le) AND NOT x AND SWAR_HI le"

definition match_lanes :: "bool \<Rightarrow> StructuralNeedles \<Rightarrow> nat \<Rightarrow> u64 \<Rightarrow> nat option" where
  "match_lanes le nd n word =
     (let hits = fold (\<lambda>lane hits. hits OR zero_tags le (word XOR lane)) (take n (lanes nd)) 0
      in if hits = 0 then None
         else Some (if le then trailing_zeros hits div 8 else leading_zeros hits div 8))"

text \<open>\<open>find_n::<N>\<close> from word offset \<open>pos\<close>: whole words, then one overlapping word for the tail, or a
  byte loop when the haystack is shorter than a word.\<close>

function find_n :: "bool \<Rightarrow> StructuralNeedles \<Rightarrow> nat \<Rightarrow> byte list \<Rightarrow> nat \<Rightarrow> nat option" where
  "find_n le nd n hay pos =
     (if pos + 8 \<le> length hay then
        (case match_lanes le nd n (from_ne_bytes le (subslice hay pos (pos + 8))) of
           Some off \<Rightarrow> Some (pos + off)
         | None \<Rightarrow> find_n le nd n hay (pos + 8))
      else if pos < length hay then
        (if length hay \<ge> 8 then
           (let start = length hay - 8
            in case match_lanes le nd n (from_ne_bytes le (subslice hay start (start + 8))) of
                 Some off \<Rightarrow> Some (start + off)
               | None \<Rightarrow> None)
         else position (\<lambda>b. b \<in> set (take n (needle_bytes nd))) hay)
      else None)"
  by pat_completeness auto
termination by (relation "measure (\<lambda>(le, nd, n, hay, pos). length hay - pos)") auto

declare find_n.simps [simp del]

definition needles_find :: "bool \<Rightarrow> StructuralNeedles \<Rightarrow> byte list \<Rightarrow> nat option" where
  "needles_find le nd hay =
     (if count nd = 1 then find_n le nd 1 hay 0
      else if count nd = 2 then find_n le nd 2 hay 0
      else if count nd = 3 then find_n le nd 3 hay 0
      else if count nd = 4 then find_n le nd 4 hay 0
      else None)"

section \<open>The table\<close>

record Dfa =
  table :: "State \<Rightarrow> byte \<Rightarrow> Transition"
  record_start_structural :: "byte \<Rightarrow> bool"
  in_field_needles :: StructuralNeedles
  in_quoted_needles :: StructuralNeedles

definition doubled_quotes :: "Config \<Rightarrow> bool" where
  "doubled_quotes c = (case (quote c, escape c) of (Some q, Some e) \<Rightarrow> q = e | _ \<Rightarrow> False)"

definition field_start_cell :: "Config \<Rightarrow> byte \<Rightarrow> Transition" where
  "field_start_cell c b =
     (if quote c = Some b then transition_new InQuotedField False
      else if b = delimiter c then transition_new FieldEnd False
      else if is_terminator (terminator c) b then transition_new RecordEnd False
      else transition_new InField True)"

text \<open>The \<open>InField\<close> cell together with its structural flag.\<close>

definition in_field_cell :: "Config \<Rightarrow> byte \<Rightarrow> Transition \<times> bool" where
  "in_field_cell c b =
     (if b = delimiter c then (transition_new FieldEnd False, True)
      else if is_terminator (terminator c) b then (transition_new RecordEnd False, True)
      else if quote c = Some b then
        (case quote_handling c of
           Toggle \<Rightarrow> with_strict_error (transition_new InQuotedField False)
         | Literal \<Rightarrow> with_strict_error (transition_new InField True)
         | Strict \<Rightarrow> transition_new Error False,
         quote_handling c \<noteq> Literal)
      else (transition_new InField True, False))"

definition in_quoted_cell :: "Config \<Rightarrow> byte \<Rightarrow> Transition \<times> bool" where
  "in_quoted_cell c b =
     (if escape c = Some b \<and> \<not> doubled_quotes c then (transition_new InEscapedQuote False, True)
      else if quote c = Some b then (transition_new AfterClosingQuote False, True)
      else (transition_new InQuotedField True, False))"

definition after_closing_cell :: "Config \<Rightarrow> byte \<Rightarrow> Transition" where
  "after_closing_cell c b =
     (if doubled_quotes c \<and> quote c = Some b then transition_new InQuotedField True
      else if b = delimiter c then transition_new FieldEnd False
      else if is_terminator (terminator c) b then transition_new RecordEnd False
      else if quote_handling c = Strict then transition_new Error False
      else if quote_handling c = Toggle \<and> quote c = Some b
      then with_strict_error (transition_new InQuotedField False)
      else with_strict_error (transition_new InField True))"

definition in_comment_cell :: "Config \<Rightarrow> byte \<Rightarrow> Transition" where
  "in_comment_cell c b =
     (if b = LF \<or> (terminator c = CRLF \<and> b = CR) then transition_new RecordStart False
      else transition_new InComment False)"

definition record_start_cell :: "Config \<Rightarrow> byte \<Rightarrow> Transition" where
  "record_start_cell c b =
     (if is_terminator (terminator c) b then transition_new RecordStart False
      else if comment c = Some b then transition_new InComment False
      else field_start_cell c b)"

text \<open>\<open>Dfa::new\<close>: the rows of the action states keep the initial \<open>Error\<close> entries.\<close>

definition dfa_new :: "bool \<Rightarrow> Config \<Rightarrow> Dfa" where
  "dfa_new le c = \<lparr>
     table = (\<lambda>s b. case s of
         FieldStart \<Rightarrow> field_start_cell c b
       | InField \<Rightarrow> fst (in_field_cell c b)
       | InQuotedField \<Rightarrow> fst (in_quoted_cell c b)
       | AfterClosingQuote \<Rightarrow> after_closing_cell c b
       | InEscapedQuote \<Rightarrow> transition_new InQuotedField True
       | InComment \<Rightarrow> in_comment_cell c b
       | RecordStart \<Rightarrow> record_start_cell c b
       | _ \<Rightarrow> transition_new Error False),
     record_start_structural = (\<lambda>b. \<not> is_terminator (terminator c) b),
     in_field_needles = from_mask le (\<lambda>b. snd (in_field_cell c b)),
     in_quoted_needles = from_mask le (\<lambda>b. snd (in_quoted_cell c b))\<rparr>"

definition transition :: "Dfa \<Rightarrow> State \<Rightarrow> byte \<Rightarrow> Transition" where
  "transition d s b = table d s b"

section \<open>The needles hold the mask\<close>

lemma set_all_bytes: "set all_bytes = UNIV"
proof -
  have "b \<in> word_of_nat ` {0..<256}" for b :: byte
    using unsigned_less[of b] by (intro image_eqI[of _ _ "unat b"]) auto
  then show ?thesis by (auto simp: all_bytes_def)
qed

lemma distinct_all_bytes: "distinct all_bytes"
proof -
  have "i = j" if "word_of_nat i = (word_of_nat j :: byte)" "i < 256" "j < 256" for i j
    using arg_cong[OF that(1), of unat] that(2,3) by (simp add: unat_of_nat)
  then show ?thesis by (auto simp: all_bytes_def distinct_map inj_on_def)
qed

text \<open>The loop keeps the first \<open>count\<close> slots filled with the bytes of the mask seen so far, in
  order, and never loses one while four slots suffice.\<close>

lemma collect_needles:
  assumes "length (filter m bs) + cnt \<le> length bytes"
  shows "fold (collect_needle m) bs (bytes, cnt) =
    (take cnt bytes @ filter m bs @ drop (cnt + length (filter m bs)) bytes,
     cnt + length (filter m bs))"
  using assms
proof (induction bs arbitrary: bytes cnt)
  case Nil
  then show ?case by simp
next
  case (Cons b bs)
  show ?case
  proof (cases "m b")
    case True
    with Cons.prems have "cnt < length bytes" by simp
    moreover from this have "take (Suc cnt) (bytes[cnt := b]) = take cnt bytes @ [b]"
      by (simp add: take_Suc_conv_app_nth)
    moreover have "drop (Suc (cnt + k)) (bytes[cnt := b]) = drop (Suc (cnt + k)) bytes" for k
      by simp
    ultimately show ?thesis
      using True Cons.prems Cons.IH[where bytes = "bytes[cnt := b]" and cnt = "Suc cnt"]
      by (simp add: collect_needle_def)
  next
    case False
    with Cons show ?thesis by (simp add: collect_needle_def)
  qed
qed

lemma fill_lanes:
  "n \<le> length ls \<Longrightarrow> fold (\<lambda>i ls. ls[i := f i]) [0..<n] ls = map f [0..<n] @ drop n ls"
proof (induction n)
  case 0
  then show ?case by simp
next
  case (Suc n)
  then have "drop n ls = ls ! n # drop (Suc n) ls"
    by (simp add: Cons_nth_drop_Suc)
  with Suc show ?case by (simp add: list_update_append)
qed

text \<open>At most four structural bytes is what the fixed-size array has room for.\<close>

definition fits :: "(byte \<Rightarrow> bool) \<Rightarrow> bool" where
  "fits m \<longleftrightarrow> length (filter m all_bytes) \<le> 4"

lemma from_mask_fits:
  assumes "fits m"
  shows "count (from_mask le m) = length (filter m all_bytes)"
    and "take (count (from_mask le m)) (needle_bytes (from_mask le m)) = filter m all_bytes"
    and "take (count (from_mask le m)) (lanes (from_mask le m)) = map (broadcast le) (filter m all_bytes)"
proof -
  let ?fs = "filter m all_bytes"
  let ?bytes = "?fs @ drop (length ?fs) (replicate 4 0)"
  have fold_eq: "fold (collect_needle m) all_bytes (replicate 4 0, 0) = (?bytes, length ?fs)"
    using assms collect_needles[of m all_bytes 0 "replicate 4 0"] by (simp add: fits_def)
  have lns: "fold (\<lambda>i ls. ls[i := broadcast le (?bytes ! i)]) [0..<length ?fs]
      (replicate 4 (broadcast le (?bytes ! 0)))
    = map (\<lambda>i. broadcast le (?bytes ! i)) [0..<length ?fs] @
      drop (length ?fs) (replicate 4 (broadcast le (?bytes ! 0)))"
    using assms by (intro fill_lanes) (simp add: fits_def)
  have "map (\<lambda>i. broadcast le (?bytes ! i)) [0..<length ?fs] = map (broadcast le) ?fs"
    by (auto intro!: nth_equalityI simp: nth_append)
  with fold_eq lns show
    "count (from_mask le m) = length ?fs"
    "take (count (from_mask le m)) (needle_bytes (from_mask le m)) = ?fs"
    "take (count (from_mask le m)) (lanes (from_mask le m)) = map (broadcast le) ?fs"
    by (simp_all add: from_mask_def)
qed

lemma fits_subset:
  assumes "{b. m b} \<subseteq> S" and "finite S" and "card S \<le> 4"
  shows "fits m"
proof -
  have d: "distinct all_bytes"
    unfolding all_bytes_def distinct_map
    by (auto simp: inj_on_def word_of_nat_eq_iff take_bit_nat_eq_self)
  have "length (filter m all_bytes) = card {b. m b}"
    using distinct_card[of "filter m all_bytes"] d by (simp add: set_all_bytes)
  also have "\<dots> \<le> card S"
    using assms by (intro card_mono) auto
  finally show ?thesis using assms(3) by (simp add: fits_def)
qed

section \<open>The SWAR scan finds the first structural byte\<close>

lemma SWAR_HI_bit: "bit (SWAR_HI le) i \<longleftrightarrow> i < 64 \<and> i mod 8 = 7"
proof -
  have "bit (0x80 :: byte) (i mod 8) \<longleftrightarrow> i mod 8 = 7"
  proof -
    have "i mod 8 < 8" by simp
    then consider "i mod 8 = 0" | "i mod 8 = 1" | "i mod 8 = 2" | "i mod 8 = 3" | "i mod 8 = 4"
      | "i mod 8 = 5" | "i mod 8 = 6" | "i mod 8 = 7" by linarith
    then show ?thesis by cases simp_all
  qed
  then show ?thesis
    by (auto simp: SWAR_HI_def bit_from_ne_bytes)
qed

text \<open>The lanes of \<open>word ^ broadcast\<close>, in order of significance.\<close>

definition lane_diff :: "bool \<Rightarrow> byte list \<Rightarrow> byte \<Rightarrow> byte list" where
  "lane_diff le bs b = map (\<lambda>c. c XOR b) (if le then bs else rev bs)"

lemma from_ne_bytes_xor:
  assumes "length bs = 8"
  shows "from_ne_bytes le bs XOR broadcast le b = word_of_int (le_int (lane_diff le bs b))"
proof (rule u64_eqI)
  fix i :: nat
  assume i: "i < 64"
  then have "i div 8 < 8" by simp
  with i assms show "bit (from_ne_bytes le bs XOR broadcast le b) i
      \<longleftrightarrow> bit (word_of_int (le_int (lane_diff le bs b)) :: u64) i"
    by (simp add: bit_xor_iff bit_from_ne_bytes broadcast_def bit_simps bit_le_int lane_diff_def)
qed

lemma zero_tags_bit:
  assumes "length cs = 8"
  shows "bit (zero_tags le (word_of_int (le_int cs))) i \<longleftrightarrow>
    i < 64 \<and> i mod 8 = 7 \<and> bit (le_int cs - le_int (replicate (length cs) 1)) i \<and>
    \<not> bit (cs ! (i div 8)) 7"
proof (cases "i < 64")
  case True
  have lo: "SWAR_LO le = word_of_int (le_int (replicate (length cs) 1))"
    by (simp add: SWAR_LO_def from_ne_bytes_def assms)
  have "word_of_int (le_int cs) - SWAR_LO le
      = word_of_int (le_int cs - le_int (replicate (length cs) 1))"
    unfolding lo by simp
  then have "bit (word_of_int (le_int cs) - SWAR_LO le) i
      \<longleftrightarrow> bit (le_int cs - le_int (replicate (length cs) 1)) i"
    using True by (simp only: bit_word_of_int_iff) simp
  moreover have "i mod 8 = 7 \<Longrightarrow> bit (NOT (word_of_int (le_int cs) :: u64)) i \<longleftrightarrow> \<not> bit (cs ! (i div 8)) 7"
    using True assms by (simp add: bit_simps bit_le_int less_mult_imp_div_less)
  ultimately show ?thesis
    using True by (auto simp: zero_tags_def bit_and_iff SWAR_HI_bit)
next
  case False
  then show ?thesis by (auto dest: bit_u64_bound)
qed

lemma zero_lane_tagged:
  assumes "length cs = 8" and "k < 8" and "cs ! k = 0"
  shows "bit (zero_tags le (word_of_int (le_int cs))) (8 * k + 7)"
proof -
  have "(8 * k + 7) div 8 = k" by linarith
  with assms zero_lane_borrows[of k cs 0] show ?thesis
    by (simp add: zero_tags_bit)
qed

lemma tagged_has_zero_below:
  assumes "length cs = 8" and "bit (zero_tags le (word_of_int (le_int cs))) i"
  shows "\<exists>j\<le>i div 8. cs ! j = 0"
proof (rule ccontr)
  assume none: "\<not> ?thesis"
  from assms have i: "i < 64" "i mod 8 = 7"
    and b: "bit (le_int cs - le_int (replicate (length cs) 1)) i" "\<not> bit (cs ! (i div 8)) 7"
    by (auto simp: zero_tags_bit)
  define k where "k = i div 8"
  have k: "k < length cs"
    using i(1) assms(1) by (simp add: k_def)
  have "8 * (i div 8) + i mod 8 = i"
    by (rule mult_div_mod_eq)
  then have ik: "i = 8 * k + 7"
    unfolding i(2) k_def by (rule sym)
  have "cs ! k = 0"
    using lane_tag_iff[OF k] b none unfolding ik[symmetric] k_def[symmetric] by fastforce
  with none show False by (auto simp: k_def)
qed

lemma xor_eq_0_iff: "(c :: byte) XOR b = 0 \<longleftrightarrow> c = b"
proof
  assume "c XOR b = 0"
  then have "bit c i = bit b i" for i
    using bit_xor_iff[of c b i] by simp
  then show "c = b" by (intro bit_eqI) auto
qed simp

text \<open>The lane of significance \<open>k\<close> holds the byte at memory offset \<open>k\<close> or \<open>7 - k\<close>.\<close>

definition mem_of_lane :: "bool \<Rightarrow> nat \<Rightarrow> nat" where
  "mem_of_lane le k = (if le then k else 7 - k)"

lemma lane_diff_zero:
  "length bs = 8 \<Longrightarrow> k < 8 \<Longrightarrow> lane_diff le bs b ! k = 0 \<longleftrightarrow> bs ! mem_of_lane le k = b"
  by (simp add: lane_diff_def xor_eq_0_iff mem_of_lane_def rev_nth)

lemma bit_hits:
  "bit (fold (\<lambda>lane hits. hits OR f lane) ls h) i \<longleftrightarrow> bit h i \<or> (\<exists>lane\<in>set ls. bit (f lane :: u64) i)"
  by (induction ls arbitrary: h) (auto simp: bit_or_iff)

text \<open>A tagged lane has a matching byte at or below its own significance, and every matching byte
  tags its lane.\<close>

lemma match_tags:
  fixes le :: bool and bs ns :: "byte list"
  assumes "length bs = 8"
  defines "hits \<equiv> fold (\<lambda>lane hits. hits OR zero_tags le (from_ne_bytes le bs XOR lane))
    (map (broadcast le) ns) 0"
  shows "k < 8 \<Longrightarrow> bs ! mem_of_lane le k \<in> set ns \<Longrightarrow> bit hits (8 * k + 7)"
    and "bit hits i \<Longrightarrow> \<exists>j\<le>i div 8. bs ! mem_of_lane le j \<in> set ns"
proof -
  have len: "length (lane_diff le bs b) = 8" for b
    using assms(1) by (simp add: lane_diff_def)
  note tag = from_ne_bytes_xor[OF assms(1)]
  have bits: "bit hits i \<longleftrightarrow>
      (\<exists>b\<in>set ns. bit (zero_tags le (word_of_int (le_int (lane_diff le bs b)))) i)" for i
    by (simp add: hits_def bit_hits tag)
  show "bit hits (8 * k + 7)" if "k < 8" "bs ! mem_of_lane le k \<in> set ns"
  proof -
    from that assms(1) have "lane_diff le bs (bs ! mem_of_lane le k) ! k = 0"
      by (simp add: lane_diff_zero)
    with that zero_lane_tagged[OF len] show ?thesis
      unfolding bits by blast
  qed
  show "\<exists>j\<le>i div 8. bs ! mem_of_lane le j \<in> set ns" if "bit hits i"
  proof -
    from that obtain b where b: "b \<in> set ns"
      and t: "bit (zero_tags le (word_of_int (le_int (lane_diff le bs b)))) i"
      unfolding bits by blast
    from tagged_has_zero_below[OF len t] obtain j where j: "j \<le> i div 8" "lane_diff le bs b ! j = 0"
      by blast
    from bit_u64_bound[OF t] have "i div 8 < 8" by (simp add: less_mult_imp_div_less)
    with j assms(1) b show ?thesis
      using lane_diff_zero[of bs j le b] by auto
  qed
qed

text \<open>What one word test promises: never past a match, exactly at it on a little-endian target.\<close>

lemma match_lanes_spec:
  assumes "length bs = 8" and "take n (lanes nd) = map (broadcast le) ns"
  shows "match_lanes le nd n (from_ne_bytes le bs) = None \<Longrightarrow> \<forall>i<8. bs ! i \<notin> set ns"
    and "match_lanes le nd n (from_ne_bytes le bs) = Some off \<Longrightarrow>
      off < 8 \<and> (\<forall>i<off. bs ! i \<notin> set ns) \<and> (le \<longrightarrow> bs ! off \<in> set ns) \<and> (\<exists>i<8. bs ! i \<in> set ns)"
proof -
  define hits where "hits = fold (\<lambda>lane hits. hits OR zero_tags le (from_ne_bytes le bs XOR lane))
    (map (broadcast le) ns) 0"
  note tags = match_tags[OF assms(1), where le = le and ns = ns, folded hits_def]
  have ml: "match_lanes le nd n (from_ne_bytes le bs) =
      (if hits = 0 then None
       else Some (if le then trailing_zeros hits div 8 else leading_zeros hits div 8))"
    by (simp add: match_lanes_def assms(2) hits_def)
  have mem: "mem_of_lane le (mem_of_lane le i) = i \<and> mem_of_lane le i < 8" if "i < 8" for i
    using that by (auto simp: mem_of_lane_def)
  have found: "bit hits (8 * mem_of_lane le i + 7)" if "i < 8" "bs ! i \<in> set ns" for i
    using tags(1)[of "mem_of_lane le i"] that mem by auto
  show "\<forall>i<8. bs ! i \<notin> set ns" if "match_lanes le nd n (from_ne_bytes le bs) = None"
    using that found by (auto simp: ml split: if_splits)
  show "off < 8 \<and> (\<forall>i<off. bs ! i \<notin> set ns) \<and> (le \<longrightarrow> bs ! off \<in> set ns) \<and> (\<exists>i<8. bs ! i \<in> set ns)"
    if "match_lanes le nd n (from_ne_bytes le bs) = Some off"
  proof -
    from that have nz: "hits \<noteq> 0" by (auto simp: ml split: if_splits)
    then obtain i where i: "bit hits i" by (auto simp: u64_eq_0_iff)
    from bit_u64_bound[OF i] have "i div 8 < 8" by (simp add: less_mult_imp_div_less)
    with tags(2)[OF i] obtain j where "j < 8" "bs ! mem_of_lane le j \<in> set ns"
      by (meson le_less_trans)
    then have some: "\<exists>i<8. bs ! i \<in> set ns" using mem by blast
    show ?thesis
    proof (cases le)
      case True
      define z where "z = trailing_zeros hits"
      from nz have z: "bit hits z" "\<forall>j<z. \<not> bit hits j"
        unfolding z_def by (metis trailing_zeros_eq_iff)+
      have off: "off = z div 8" using that[unfolded ml] nz True by (simp add: z_def)
      have none: "bs ! i \<notin> set ns" if "i < off" for i
      proof -
        from that off bit_u64_bound[OF z(1)] have "i < 8" "8 * i + 7 < z" by linarith+
        with found[of i] z(2) True show ?thesis by (auto simp: mem_of_lane_def)
      qed
      from tags(2)[OF z(1)] True none off have "bs ! off \<in> set ns"
        by (metis mem_of_lane_def linorder_neqE_nat order.strict_iff_not nat_less_le)
      with none some off bit_u64_bound[OF z(1)] show ?thesis
        by (simp add: less_mult_imp_div_less)
    next
      case False
      define z where "z = leading_zeros hits"
      from nz have z: "z < 64" "\<forall>j<z. \<not> bit hits (63 - j)"
        unfolding z_def by (metis leading_zeros_eq_iff)+
      have off: "off = z div 8" using that[unfolded ml] nz False by (simp add: z_def)
      have none: "bs ! i \<notin> set ns" if "i < off" for i
      proof
        assume "bs ! i \<in> set ns"
        moreover have "i < 8" "8 * i < z" using that off z(1) by linarith+
        ultimately have "bit hits (8 * (7 - i) + 7)"
          using found[of i] False by (simp add: mem_of_lane_def)
        moreover have "8 * (7 - i) + 7 = 63 - 8 * i" using \<open>i < 8\<close> by simp
        ultimately show False using z(2) \<open>8 * i < z\<close> by metis
      qed
      with some off z(1) False show ?thesis
        by (simp add: less_mult_imp_div_less)
    qed
  qed
qed

text \<open>What the whole scan promises on any target: it stops at or before the first structural byte,
  and it reports none only when there is none.\<close>

definition scan_sound :: "(byte \<Rightarrow> bool) \<Rightarrow> byte list \<Rightarrow> nat option \<Rightarrow> bool" where
  "scan_sound m hay r = (case r of
     None \<Rightarrow> \<forall>i<length hay. \<not> m (hay ! i)
   | Some off \<Rightarrow> off < length hay \<and> (\<forall>i<off. \<not> m (hay ! i)))"

lemma position_SomeI:
  "i < length xs \<Longrightarrow> P (xs ! i) \<Longrightarrow> (\<And>j. j < i \<Longrightarrow> \<not> P (xs ! j)) \<Longrightarrow> Some i = position P xs"
  by (metis position_Some_iff)

lemma position_NoneI: "(\<And>j. j < length xs \<Longrightarrow> \<not> P (xs ! j)) \<Longrightarrow> None = position P xs"
  by (metis in_set_conv_nth position_None_iff)

lemma find_n_spec:
  assumes "take n (lanes nd) = map (broadcast le) ns" and "take n (needle_bytes nd) = ns"
    and "\<forall>i<pos. i < length hay \<longrightarrow> hay ! i \<notin> set ns" and "m = (\<lambda>b. b \<in> set ns)"
  shows "scan_sound m hay (find_n le nd n hay pos) \<and>
    (le \<longrightarrow> find_n le nd n hay pos = position m hay)"
  using assms(3)
proof (induction "length hay - pos" arbitrary: pos rule: less_induct)
  case less
  note simps = find_n.simps[of le nd n hay pos]
  show ?case
  proof (cases "pos + 8 \<le> length hay")
    case True
    let ?bs = "subslice hay pos (pos + 8)"
    have len: "length ?bs = 8" using True by simp
    have nth: "?bs ! i = hay ! (pos + i)" if "i < 8" for i
      using that True by (simp add: slice_nth)
    note spec = match_lanes_spec[OF len assms(1)]
    show ?thesis
    proof (cases "match_lanes le nd n (from_ne_bytes le ?bs)")
      case None
      have "\<forall>i<pos + 8. i < length hay \<longrightarrow> hay ! i \<notin> set ns"
      proof (intro allI impI)
        fix i assume "i < pos + 8" "i < length hay"
        then show "hay ! i \<notin> set ns"
          using less.prems spec(1)[OF None, rule_format, of "i - pos"] nth[of "i - pos"]
          by (cases "i < pos") auto
      qed
      then have IH: "scan_sound m hay (find_n le nd n hay (pos + 8)) \<and>
          (le \<longrightarrow> find_n le nd n hay (pos + 8) = position m hay)"
        using True by (intro less.hyps) simp_all
      have e: "find_n le nd n hay pos = find_n le nd n hay (pos + 8)"
        using True None simps by simp
      from IH show ?thesis unfolding e .
    next
      case (Some off)
      note s = spec(2)[OF Some]
      have before: "hay ! i \<notin> set ns" if "i < pos + off" for i
      proof (cases "i < pos")
        case i: True
        with that s True less.prems show ?thesis by simp
      next
        case i: False
        then have d: "i - pos < off" "i - pos < 8" using that s by linarith+
        with s nth[OF d(2)] i show ?thesis by force
      qed
      show ?thesis
        using Some True simps s before nth[of off] assms(4)
        by (auto simp: scan_sound_def intro!: position_SomeI)
    qed
  next
    case False
    show ?thesis
    proof (cases "pos < length hay \<and> 8 \<le> length hay")
      case True
      define start where "start = length hay - 8"
      let ?bs = "subslice hay start (start + 8)"
      have len: "length ?bs = 8" using True by (simp add: start_def)
      have nth: "?bs ! i = hay ! (start + i)" if "i < 8" for i
        using that True start_def by (intro slice_nth) linarith+
      note spec = match_lanes_spec[OF len assms(1)]
      have eq: "find_n le nd n hay pos = (case match_lanes le nd n (from_ne_bytes le ?bs) of
          Some off \<Rightarrow> Some (start + off) | None \<Rightarrow> None)"
        using simps False True unfolding start_def Let_def by simp
      show ?thesis
      proof (cases "match_lanes le nd n (from_ne_bytes le ?bs)")
        case None
        have "hay ! i \<notin> set ns" if "i < length hay" for i
          using less.prems spec(1)[OF None, rule_format, of "i - start"] nth[of "i - start"] that False
          by (cases "i < pos") (auto simp: start_def)
        with None eq assms(4) show ?thesis
          by (auto simp: scan_sound_def intro!: position_NoneI)
      next
        case (Some off)
        note s = spec(2)[OF Some]
        have before: "hay ! i \<notin> set ns" if "i < start + off" for i
        proof (cases "i < pos")
          case i: True
          with True less.prems show ?thesis by simp
        next
          case i: False
          then have ge: "start \<le> i" using False by (simp add: start_def)
          then have d: "i - start < off" "i - start < 8" using that s by linarith+
          with s nth[OF d(2)] ge show ?thesis by force
        qed
        show ?thesis
          using Some eq s before nth[of off] assms(4) True
          by (auto simp: scan_sound_def start_def intro!: position_SomeI)
      qed
    next
      case False2: False
      show ?thesis
      proof (cases "pos < length hay")
        case True
        with False False2 simps assms(2,4) have "find_n le nd n hay pos = position m hay"
          by simp
        then show ?thesis
          by (auto simp: scan_sound_def position_None_iff position_Some_iff split: option.splits)
      next
        case no: False
        with less.prems assms(4) have none: "\<forall>i<length hay. \<not> m (hay ! i)" by auto
        then have "position m hay = None"
          by (auto simp: position_None_iff in_set_conv_nth)
        moreover from no False simps have "find_n le nd n hay pos = None" by simp
        ultimately show ?thesis using none by (simp only: scan_sound_def option.case simp_thms)
      qed
    qed
  qed
qed

lemma needles_find_spec:
  assumes "fits m"
  shows "scan_sound m hay (needles_find le (from_mask le m) hay) \<and>
    (le \<longrightarrow> needles_find le (from_mask le m) hay = position m hay)"
proof -
  let ?nd = "from_mask le m" and ?ns = "filter m all_bytes"
  have m: "m = (\<lambda>b. b \<in> set ?ns)" by (auto simp: set_all_bytes)
  have c: "count ?nd \<le> 4" using assms from_mask_fits(1)[OF assms] by (simp add: fits_def)
  have eq: "needles_find le ?nd hay = find_n le ?nd (count ?nd) hay 0" if "count ?nd \<noteq> 0"
  proof -
    from that c have "count ?nd = 1 \<or> count ?nd = 2 \<or> count ?nd = 3 \<or> count ?nd = 4" by linarith
    then show ?thesis by (auto simp: needles_find_def)
  qed
  show ?thesis
  proof (cases "count ?nd = 0")
    case True
    then have "\<not> m b" for b
      using from_mask_fits(1)[OF assms] m by (metis length_0_conv list.set(1) empty_iff)
    with True show ?thesis
      by (auto simp: needles_find_def scan_sound_def intro!: position_NoneI)
  next
    case False
    show ?thesis
      unfolding eq[OF False]
      by (rule find_n_spec[OF from_mask_fits(3,2)[OF assms] _ m]) simp
  qed
qed

section \<open>The cells\<close>

text \<open>Every dialect's structural masks fit the four slots.\<close>

lemma in_field_fits: "fits (\<lambda>b. snd (in_field_cell c b))"
proof (cases "terminator c")
  case (Byte t)
  then show ?thesis
    by (intro fits_subset[where S = "{delimiter c, t} \<union> set_option (quote c)"])
      (cases "quote c"; auto simp: in_field_cell_def is_terminator_def card_insert_if split: if_splits)+
next
  case CRLF
  then show ?thesis
    by (intro fits_subset[where S = "{delimiter c, CR, LF} \<union> set_option (quote c)"])
      (cases "quote c"; auto simp: in_field_cell_def is_terminator_def card_insert_if split: if_splits)+
qed

lemma in_quoted_fits: "fits (\<lambda>b. snd (in_quoted_cell c b))"
  by (intro fits_subset[where S = "set_option (quote c) \<union> set_option (escape c)"])
    (cases "quote c"; cases "escape c"; auto simp: in_quoted_cell_def card_insert_if split: if_splits)+

lemma in_field_needles_sound:
  "scan_sound (\<lambda>b. snd (in_field_cell c b)) hay (needles_find le (in_field_needles (dfa_new le c)) hay)"
  using needles_find_spec[OF in_field_fits] by (simp add: dfa_new_def)

lemma in_quoted_needles_sound:
  "scan_sound (\<lambda>b. snd (in_quoted_cell c b)) hay (needles_find le (in_quoted_needles (dfa_new le c)) hay)"
  using needles_find_spec[OF in_quoted_fits] by (simp add: dfa_new_def)

text \<open>A byte that is not structural keeps the machine in its state; the two content states copy it.\<close>

lemma in_field_self:
  "\<not> snd (in_field_cell c b) \<Longrightarrow>
    next_state (transition (dfa_new le c) InField b) = InField \<and>
    next_raw (transition (dfa_new le c) InField b) = state_u8 InField \<and>
    has_output (transition (dfa_new le c) InField b)"
  by (auto simp: in_field_cell_def transition_def dfa_new_def split: if_splits QuoteHandling.splits)

lemma in_quoted_self:
  "\<not> snd (in_quoted_cell c b) \<Longrightarrow>
    next_state (transition (dfa_new le c) InQuotedField b) = InQuotedField \<and>
    next_raw (transition (dfa_new le c) InQuotedField b) = state_u8 InQuotedField \<and>
    has_output (transition (dfa_new le c) InQuotedField b)"
  by (auto simp: in_quoted_cell_def transition_def dfa_new_def split: if_splits)

lemma record_start_self:
  "\<not> record_start_structural (dfa_new le c) b \<Longrightarrow>
    transition (dfa_new le c) RecordStart b = transition_new RecordStart False"
  by (auto simp: record_start_cell_def transition_def dfa_new_def)

text \<open>Every entry is packed from a state and an output flag, so \<open>next_raw\<close> and \<open>next_state\<close> agree.\<close>

lemma next_raw_table: "next_raw (transition (dfa_new le c) s b) = state_u8 (next_state (transition (dfa_new le c) s b))"
  by (cases s) (auto simp: transition_def dfa_new_def field_start_cell_def in_field_cell_def
      in_quoted_cell_def after_closing_cell_def in_comment_cell_def record_start_cell_def
      split: QuoteHandling.splits)

text \<open>The endianness of the target does not show in the table.\<close>

lemma transition_le: "transition (dfa_new le c) s b = transition (dfa_new True c) s b"
  by (simp add: transition_def dfa_new_def)

text \<open>Exactness of the strict-error flag: the tags of a lenient table mark the cells where the table
  of the same dialect under \<open>Strict\<close> goes to \<open>Error\<close>, and the two tables agree elsewhere.\<close>

lemma strict_flag_exact:
  fixes le :: bool and c :: Config and s :: State and b :: byte
  assumes "interior s" and "quote_handling c \<noteq> Strict"
  defines "t \<equiv> transition (dfa_new le c) s b"
    and "ts \<equiv> transition (dfa_new le (c\<lparr>quote_handling := Strict\<rparr>)) s b"
  shows "is_strict_error t = (next_state ts = Error) \<and> (next_state ts \<noteq> Error \<longrightarrow> t = ts)"
  using assms(1,2) unfolding t_def ts_def
  by (cases s) (auto simp: interior_def transition_def dfa_new_def field_start_cell_def in_field_cell_def
      in_quoted_cell_def after_closing_cell_def in_comment_cell_def record_start_cell_def
      doubled_quotes_def split: QuoteHandling.splits)

section \<open>Types\<close>

text \<open>The raw byte of a cell is a discriminant of \<open>State\<close>, which is what the \<open>transmute\<close> needs, and the needle
  arrays never drop a byte.\<close>

lemma cell_typed:
  "next_raw (transition (dfa_new le c) s b) = state_u8 (next_state (transition (dfa_new le c) s b))"
  "has_output (transition (dfa_new le c) s b) \<Longrightarrow> next_state (transition (dfa_new le c) s b) \<in> {InField, InQuotedField}"
  by (cases s; auto simp: transition_def dfa_new_def field_start_cell_def in_field_cell_def in_quoted_cell_def after_closing_cell_def
    in_comment_cell_def record_start_cell_def split: QuoteHandling.splits if_splits)+

lemma needle_bytes_exact:
  "set (take (count (in_field_needles (dfa_new le c))) (needle_bytes (in_field_needles (dfa_new le c)))) = {b. snd (in_field_cell c b)}"
  "set (take (count (in_quoted_needles (dfa_new le c))) (needle_bytes (in_quoted_needles (dfa_new le c)))) = {b. snd (in_quoted_cell c b)}"
  using from_mask_fits(2)[OF in_field_fits, of le c] from_mask_fits(2)[OF in_quoted_fits, of le c]
  by (simp_all add: dfa_new_def set_all_bytes)

end
