(* ===== verification/Output.thy ===== *)
theory Output
  imports Errors
begin

text \<open>
  src/src/parser/output.rs: the field output types. \<open>output_ops\<close> is the trait \<open>Output\<close>; \<open>text_output\<close>
  is its implementation for \<open>str\<close>, through the UTF-8 validation of the standard library
  (\<open>core::str::from_utf8\<close>: how far the input is valid, and whether the error is only that the input
  ends inside a sequence), and \<open>bytes_output\<close> the one for \<open>[u8]\<close>. The locale \<open>validator\<close> is what the driver
  needs of a validator that is run incrementally over windows of a stream.
\<close>

section \<open>UTF-8 sequences\<close>

text \<open>The first sequence of a non-empty input: its length, malformed, or cut off by the end.\<close>

datatype utf8_head = Seq nat | Malformed | Truncated

definition in_range :: "byte \<Rightarrow> byte \<Rightarrow> byte \<Rightarrow> bool" where
  "in_range lo hi b \<longleftrightarrow> lo \<le> b \<and> b \<le> hi"

abbreviation continuation :: "byte \<Rightarrow> bool" where
  "continuation \<equiv> in_range 0x80 0xBF"

text \<open>The range of the second byte, and the number of bytes, by the first byte.\<close>

definition utf8_second :: "byte \<Rightarrow> byte \<times> byte" where
  "utf8_second b =
     (if b = 0xE0 then (0xA0, 0xBF) else if b = 0xED then (0x80, 0x9F)
      else if b = 0xF0 then (0x90, 0xBF) else if b = 0xF4 then (0x80, 0x8F) else (0x80, 0xBF))"

definition utf8_width :: "byte \<Rightarrow> nat" where
  "utf8_width b =
     (if b < 0x80 then 1 else if in_range 0xC2 0xDF b then 2 else if in_range 0xE0 0xEF b then 3
      else if in_range 0xF0 0xF4 b then 4 else 0)"

text \<open>The continuation bytes still missing, \<open>n\<close> of them.\<close>

fun utf8_tail :: "nat \<Rightarrow> byte list \<Rightarrow> nat \<Rightarrow> utf8_head" where
  "utf8_tail k bs 0 = Seq k"
| "utf8_tail k [] (Suc n) = Truncated"
| "utf8_tail k (b # bs) (Suc n) = (if continuation b then utf8_tail k bs n else Malformed)"

fun utf8_first :: "byte list \<Rightarrow> utf8_head" where
  "utf8_first [] = Truncated"
| "utf8_first (b # bs) =
     (let w = utf8_width b
      in if w = 0 then Malformed
         else if w = 1 then Seq 1
         else (case bs of
             [] \<Rightarrow> Truncated
           | b2 # bs' \<Rightarrow>
               if in_range (fst (utf8_second b)) (snd (utf8_second b)) b2
               then utf8_tail w bs' (w - 2) else Malformed))"

lemma utf8_tail_len: "utf8_tail k bs n = Seq j \<Longrightarrow> j = k \<and> n \<le> length bs"
  by (induction k bs n rule: utf8_tail.induct) (auto split: if_splits)

lemma utf8_tail_app: "utf8_tail k bs n \<noteq> Truncated \<Longrightarrow> utf8_tail k (bs @ cs) n = utf8_tail k bs n"
  by (induction k bs n rule: utf8_tail.induct) auto

lemma utf8_tail_take: "utf8_tail k bs n = Seq j \<Longrightarrow> utf8_tail k (take n bs @ cs) n = Seq j"
  by (induction k bs n rule: utf8_tail.induct) (auto split: if_splits)

lemma utf8_tail_short: "utf8_tail k bs n = Truncated \<Longrightarrow> length bs < n"
  by (induction k bs n rule: utf8_tail.induct) (auto split: if_splits)

lemma utf8_width_le: "utf8_width b \<le> 4"
  by (simp add: utf8_width_def)

lemma utf8_first_len: "utf8_first bs = Seq k \<Longrightarrow> 0 < k \<and> k \<le> length bs"
  by (cases bs) (auto simp: Let_def split: if_splits list.splits dest!: utf8_tail_len)

lemma utf8_first_app: "utf8_first bs \<noteq> Truncated \<Longrightarrow> utf8_first (bs @ cs) = utf8_first bs"
  by (cases bs) (auto simp: Let_def utf8_tail_app split: if_splits list.splits)

lemma utf8_first_take:
  assumes k: "utf8_first bs = Seq k"
  shows "utf8_first (take k bs @ cs) = Seq k"
proof (cases bs)
  case (Cons b bs')
  let ?w = "utf8_width b"
  consider (one) "?w = 1" "k = 1" | (more) b2 rest where "1 < ?w" "bs' = b2 # rest"
    "in_range (fst (utf8_second b)) (snd (utf8_second b)) b2" "utf8_tail ?w rest (?w - 2) = Seq k"
    using k Cons by (auto simp: Let_def split: if_splits list.splits)
  then show ?thesis
  proof cases
    case more
    then have "?w = Suc (Suc (?w - 2))" by simp
    with utf8_tail_len[OF more(4)] more(2) have "take k bs = b # b2 # take (?w - 2) rest"
      by (metis Cons take_Suc_Cons)
    with utf8_tail_take[OF more(4)] more show ?thesis by (simp add: Let_def)
  qed (simp add: Cons)
qed (use k in simp)

lemma utf8_first_short: "utf8_first bs = Truncated \<Longrightarrow> length bs < 4"
  using utf8_width_le[of "hd bs"]
  by (cases bs) (auto simp: Let_def split: if_splits list.splits dest!: utf8_tail_short)

section \<open>Validation\<close>

text \<open>\<open>core::str::from_utf8\<close>: \<open>valid_up_to\<close> and, when not everything is valid, whether
  \<open>error_len\<close> is \<open>None\<close>.\<close>

function from_utf8 :: "byte list \<Rightarrow> nat \<times> utf8_head option" where
  "from_utf8 bs =
     (if bs = [] then (0, None)
      else (case utf8_first bs of
          Seq k \<Rightarrow> (let (n, err) = from_utf8 (drop k bs) in (k + n, err))
        | err \<Rightarrow> (0, Some err)))"
  by pat_completeness auto
termination
  by (relation "measure length") (auto dest: utf8_first_len)

declare from_utf8.simps [simp del]

definition validate_str :: "byte list \<Rightarrow> nat + nat" where
  "validate_str bs = (case from_utf8 bs of
       (n, None) \<Rightarrow> Inr (length bs)
     | (n, Some Truncated) \<Rightarrow> Inr n
     | (n, Some _) \<Rightarrow> Inl n)"

definition validate_bytes :: "byte list \<Rightarrow> nat + nat" where
  "validate_bytes bs = Inr (length bs)"

record output_ops =
  requires_ascii_control_bytes :: bool
  validate_chunk :: "byte list \<Rightarrow> nat + nat"

definition text_output :: output_ops where
  "text_output = \<lparr>requires_ascii_control_bytes = True, validate_chunk = validate_str\<rparr>"

definition bytes_output :: output_ops where
  "bytes_output = \<lparr>requires_ascii_control_bytes = False, validate_chunk = validate_bytes\<rparr>"

text \<open>How many bytes of a stream are valid from its start on.\<close>

definition utf8_valid_len :: "byte list \<Rightarrow> nat" where
  "utf8_valid_len bs = fst (from_utf8 bs)"

section \<open>Incremental validation\<close>

text \<open>\<open>vlen\<close> is the length of the valid part of a whole stream. A validator sees only a prefix of the stream;
  what it accepts must be exactly what a validation of the whole stream would accept so far, it must accept
  something of any four bytes that do not start with an error, and an error it reports is the
  stream's own first error.\<close>

locale validator =
  fixes V :: "byte list \<Rightarrow> nat + nat" and vlen :: "byte list \<Rightarrow> nat"
  assumes vlen_le: "vlen xs \<le> length xs"
    and accepts: "V p = Inr n \<Longrightarrow>
      n \<le> length p \<and> n \<le> vlen (p @ rest) \<and> vlen (drop n (p @ rest)) = vlen (p @ rest) - n \<and>
      (4 \<le> length p \<longrightarrow> 0 < n) \<and> (rest = [] \<longrightarrow> n = vlen p)"
    and rejects: "V p = Inl n \<Longrightarrow> vlen (p @ rest) = n \<and> n < length p"
    and vlen_take: "vlen (take (vlen xs) xs) = vlen xs"

interpretation bytes_out: validator validate_bytes length
  by unfold_locales (auto simp: validate_bytes_def)

lemma from_utf8_cases:
  "from_utf8 bs = (n, err) \<Longrightarrow>
    n \<le> length bs \<and> err \<noteq> Some (Seq k) \<and> (err = None \<longrightarrow> n = length bs) \<and>
    (err \<noteq> None \<longrightarrow> n < length bs) \<and>
    (err = Some Truncated \<longrightarrow> length bs - n < 4)"
proof (induction bs arbitrary: n rule: from_utf8.induct)
  case (1 bs)
  show ?case
  proof (cases "bs = []")
    case True
    with 1(2) show ?thesis by (simp add: from_utf8.simps)
  next
    case ne: False
    show ?thesis
    proof (cases "utf8_first bs")
      case (Seq k')
      obtain n' where rec: "from_utf8 (drop k' bs) = (n', err)" and n: "n = k' + n'"
        using 1(2) ne Seq by (auto simp: from_utf8.simps[of bs] split: prod.splits)
      from 1(1)[OF ne Seq rec] utf8_first_len[OF Seq] show ?thesis
        unfolding n by auto
    next
      case Malformed
      with 1(2) ne show ?thesis by (auto simp: from_utf8.simps[of bs])
    next
      case Truncated
      with 1(2) ne utf8_first_short[of bs] show ?thesis by (auto simp: from_utf8.simps[of bs])
    qed
  qed
qed

lemma from_utf8_app:
  "from_utf8 p = (n, err) \<Longrightarrow>
    (err = Some Malformed \<longrightarrow> utf8_valid_len (p @ rest) = n) \<and>
    utf8_valid_len (p @ rest) = n + utf8_valid_len (drop n (p @ rest))"
proof (induction p arbitrary: n rule: from_utf8.induct)
  case (1 p)
  show ?case
  proof (cases "p = []")
    case True
    with 1(2) show ?thesis by (simp add: from_utf8.simps)
  next
    case ne: False
    show ?thesis
    proof (cases "utf8_first p")
      case (Seq k)
      obtain n' where rec: "from_utf8 (drop k p) = (n', err)" and n: "n = k + n'"
        using 1(2) ne Seq by (auto simp: from_utf8.simps[of p] split: prod.splits)
      from utf8_first_len[OF Seq] have k: "k \<le> length p" by simp
      have "utf8_first (p @ rest) = Seq k" using utf8_first_app[of p rest] Seq by simp
      then have "utf8_valid_len (p @ rest) = k + utf8_valid_len (drop k (p @ rest))"
        using ne by (simp add: utf8_valid_len_def from_utf8.simps[of "p @ rest"] split: prod.splits)
      then have e: "utf8_valid_len (p @ rest) = k + utf8_valid_len (drop k p @ rest)"
        using k by simp
      have d: "drop n (p @ rest) = drop n' (drop k p @ rest)"
        using k by (simp add: n add.commute)
      from 1(1)[OF ne Seq rec] show ?thesis
        unfolding e d unfolding n by (intro conjI impI; linarith)
    next
      case Malformed
      then have "utf8_first (p @ rest) = Malformed" using utf8_first_app[of p rest] by simp
      with 1(2) ne Malformed show ?thesis
        by (auto simp: utf8_valid_len_def from_utf8.simps[of p] from_utf8.simps[of "p @ rest"])
    next
      case Truncated
      with 1(2) ne show ?thesis by (auto simp: from_utf8.simps[of p])
    qed
  qed
qed

lemma utf8_valid_len_step:
  "bs \<noteq> [] \<Longrightarrow> utf8_first bs = Seq k \<Longrightarrow> utf8_valid_len bs = k + utf8_valid_len (drop k bs)"
  by (simp add: utf8_valid_len_def from_utf8.simps[of bs] split: prod.splits)

lemma utf8_valid_len_take: "utf8_valid_len (take (utf8_valid_len bs) bs) = utf8_valid_len bs"
proof (induction bs rule: from_utf8.induct)
  case (1 bs)
  show ?case
  proof (cases "\<exists>k. bs \<noteq> [] \<and> utf8_first bs = Seq k")
    case True
    then obtain k where ne: "bs \<noteq> []" and k: "utf8_first bs = Seq k" by blast
    let ?n = "utf8_valid_len (drop k bs)"
    note vl = utf8_valid_len_step[OF ne k]
    have tk: "take (k + ?n) bs = take k bs @ take ?n (drop k bs)" by (simp add: take_add)
    have "take (k + ?n) bs \<noteq> []" using utf8_first_len[OF k] ne by auto
    moreover have "drop k (take (k + ?n) bs) = take ?n (drop k bs)" by (simp add: drop_take)
    moreover have "utf8_first (take (k + ?n) bs) = Seq k" unfolding tk by (rule utf8_first_take[OF k])
    ultimately have "utf8_valid_len (take (k + ?n) bs) = k + utf8_valid_len (take ?n (drop k bs))"
      using utf8_valid_len_step[of "take (k + ?n) bs" k] by simp
    with 1[OF ne k] vl show ?thesis by simp
  next
    case False
    then have "utf8_valid_len bs = 0"
      by (cases "utf8_first bs") (auto simp: utf8_valid_len_def from_utf8.simps[of bs])
    then show ?thesis by (simp add: utf8_valid_len_def from_utf8.simps[of "[]"])
  qed
qed

interpretation text_out: validator validate_str utf8_valid_len
proof unfold_locales
  fix p rest :: "byte list" and n
  show "utf8_valid_len (take (utf8_valid_len p) p) = utf8_valid_len p" by (rule utf8_valid_len_take)
  show "utf8_valid_len p \<le> length p"
    using from_utf8_cases[of p "fst (from_utf8 p)" "snd (from_utf8 p)"]
    by (simp add: utf8_valid_len_def)
  obtain k err where f: "from_utf8 p = (k, err)" by fastforce
  note c = from_utf8_cases[OF f] and a = from_utf8_app[OF f]
  { assume "validate_str p = Inr n"
    then have n: "n = k" and ok: "err = None \<or> err = Some Truncated"
      using f c by (auto simp: validate_str_def split: option.splits utf8_head.splits)
    from ok c have pos: "4 \<le> length p \<longrightarrow> 0 < k" by auto
    show "n \<le> length p \<and> n \<le> utf8_valid_len (p @ rest) \<and>
        utf8_valid_len (drop n (p @ rest)) = utf8_valid_len (p @ rest) - n \<and>
        (4 \<le> length p \<longrightarrow> 0 < n) \<and> (rest = [] \<longrightarrow> n = utf8_valid_len p)"
      using c a[of rest] pos f unfolding n by (auto simp: utf8_valid_len_def) }
  { assume "validate_str p = Inl n"
    then have n: "n = k" and ok: "err = Some Malformed"
      using f c by (auto simp: validate_str_def split: option.splits utf8_head.splits)
    show "utf8_valid_len (p @ rest) = n \<and> n < length p"
      using c a[of rest] ok unfolding n by auto }
qed

end
