(* ===== verification/Reference.thy ===== *)
theory Reference
  imports Table Output
begin

text \<open>
  The abstract specification of a chunk parse: a machine that reads the input one byte at a time, with no
  buffer, no window, no fast path and no suspension. It says which records a parse hands to the
  accumulator, with which bytes, at which offset it stops and with which error. The driver and the
  stepper are shown to implement it in theory \<open>Stepper\<close>.
\<close>

section \<open>The machine\<close>

type_synonym ('s, 'u) accumulator = "'s \<Rightarrow> byte list list \<Rightarrow> 'u boxed_error + 's"

text \<open>\<open>m_fields\<close> are the finished fields of the record in flight, \<open>m_cur\<close> the bytes of the open field,
  \<open>m_rec_start\<close> and \<open>m_fld_start\<close> the input offsets errors are reported at.\<close>

record 's machine =
  m_state :: State
  m_fields :: "byte list list"
  m_cur :: "byte list"
  m_rec_start :: nat
  m_fld_start :: nat
  m_last_end :: "nat option"
  m_acc :: 's

datatype ('s, 'u) outcome = Running "'s machine" | Finished nat 's | Failed "'u Error"

definition trimmed :: "Config \<Rightarrow> byte list \<Rightarrow> byte list" where
  "trimmed c bs = (if trim c then snd (trim_ascii bs) else bs)"

text \<open>The fields of the record once the open field is closed, and what the accumulator makes of them.\<close>

definition closed_fields :: "Config \<Rightarrow> 's machine \<Rightarrow> byte list list" where
  "closed_fields c m = m_fields m @ [trimmed c (m_cur m)]"

definition hand_over ::
    "Config \<Rightarrow> ('s, 'u) accumulator \<Rightarrow> 's machine \<Rightarrow> 'u Error + 's" where
  "hand_over c acc m =
     (let fs = closed_fields c m
      in case field_count c of
           Some expected \<Rightarrow>
             if length fs \<noteq> expected
             then Inl (NumberOfFields expected (length fs) (at_byte (m_rec_start m)))
             else map_err from_user (acc (m_acc m) fs)
         | None \<Rightarrow> map_err from_user (acc (m_acc m) fs))"

text \<open>A record starts at the first byte that is no bare terminator.\<close>

definition mark_start :: "Config \<Rightarrow> nat \<Rightarrow> byte \<Rightarrow> 's machine \<Rightarrow> 's machine" where
  "mark_start c p b m =
     (if m_state m = RecordStart \<and> \<not> is_terminator (terminator c) b
      then m\<lparr>m_rec_start := p, m_fld_start := p\<rparr> else m)"

definition copy_byte :: "Transition \<Rightarrow> byte \<Rightarrow> 's machine \<Rightarrow> 's machine" where
  "copy_byte t b m = (if has_output t then m\<lparr>m_cur := m_cur m @ [b]\<rparr> else m)"

text \<open>The effect of entering state \<open>s\<close> on the byte at offset \<open>p\<close>, when the chunk ends at \<open>L\<close>. A record
  whose terminator lies at or past \<open>L\<close> is the chunk's last.\<close>

definition enter ::
    "Config \<Rightarrow> ('s, 'u) accumulator \<Rightarrow> nat \<Rightarrow> nat \<Rightarrow> State \<Rightarrow> 's machine \<Rightarrow> ('s, 'u) outcome" where
  "enter c acc L p s m = (case s of
       Error \<Rightarrow> Failed (InvalidQuote (at_byte p))
     | FieldEnd \<Rightarrow>
         Running (m\<lparr>m_fields := closed_fields c m, m_cur := [], m_fld_start := p + 1,
                    m_state := FieldStart\<rparr>)
     | RecordEnd \<Rightarrow>
         (case hand_over c acc m of
            Inl e \<Rightarrow> Failed e
          | Inr s' \<Rightarrow>
              if L \<le> p then Finished p s'
              else Running (m\<lparr>m_fields := [], m_cur := [], m_fld_start := p + 1,
                              m_last_end := Some p, m_acc := s', m_state := RecordStart\<rparr>))
     | _ \<Rightarrow> Running (m\<lparr>m_state := s\<rparr>))"

definition spec_byte ::
    "Config \<Rightarrow> ('s, 'u) accumulator \<Rightarrow> nat \<Rightarrow> nat \<Rightarrow> byte \<Rightarrow> 's machine \<Rightarrow> ('s, 'u) outcome" where
  "spec_byte c acc L p b m =
     (if m_state m = RecordStart \<and> is_terminator (terminator c) b \<and> L \<le> p
      then Finished p (m_acc m)
      else (let t = transition (dfa_new True c) (m_state m) b
            in enter c acc L p (next_state t) (copy_byte t b (mark_start c p b m))))"

fun spec_run ::
    "Config \<Rightarrow> ('s, 'u) accumulator \<Rightarrow> nat \<Rightarrow> nat \<Rightarrow> byte list \<Rightarrow> 's machine \<Rightarrow> ('s, 'u) outcome" where
  "spec_run c acc L p [] m = Running m"
| "spec_run c acc L p (b # bs) m =
     (case spec_byte c acc L p b m of
        Running m' \<Rightarrow> spec_run c acc L (p + 1) bs m'
      | out \<Rightarrow> out)"

text \<open>The end of the input at offset \<open>p\<close>.\<close>

definition spec_finish ::
    "Config \<Rightarrow> ('s, 'u) accumulator \<Rightarrow> nat \<Rightarrow> 's machine \<Rightarrow> 'u Error + nat option \<times> 's" where
  "spec_finish c acc p m =
     (if m_state m \<in> {InQuotedField, InEscapedQuote}
      then Inl (UnclosedQuote (at_byte (m_fld_start m)))
      else if m_state m \<in> {FieldStart, InField, AfterClosingQuote}
      then try_bind (hand_over c acc m) (\<lambda>s. Inr (Some p, s))
      else Inr (m_last_end m, m_acc m))"

text \<open>What is left of a parse: the rest \<open>bs\<close> of the input from offset \<open>p\<close> on, in state \<open>m\<close>.\<close>

definition spec_rest ::
    "Config \<Rightarrow> ('s, 'u) accumulator \<Rightarrow> nat \<Rightarrow> nat \<Rightarrow> byte list \<Rightarrow> 's machine
      \<Rightarrow> 'u Error + nat option \<times> 's" where
  "spec_rest c acc L p bs m = (case spec_run c acc L p bs m of
       Running m' \<Rightarrow> spec_finish c acc (p + length bs) m'
     | Finished e s \<Rightarrow> Inr (Some e, s)
     | Failed e \<Rightarrow> Inl e)"

definition spec_init :: "nat \<Rightarrow> 's \<Rightarrow> 's machine" where
  "spec_init base s =
     \<lparr>m_state = RecordStart, m_fields = [], m_cur = [], m_rec_start = base, m_fld_start = base,
      m_last_end = None, m_acc = s\<rparr>"

definition spec_parse ::
    "Config \<Rightarrow> ('s, 'u) accumulator \<Rightarrow> nat \<Rightarrow> nat \<Rightarrow> byte list \<Rightarrow> 's \<Rightarrow> 'u Error + nat option \<times> 's" where
  "spec_parse c acc L base bs s = spec_rest c acc L base bs (spec_init base s)"

text \<open>Two accumulators no valid input can tell apart.\<close>

definition interchangeable ::
    "(byte list \<Rightarrow> nat) \<Rightarrow> Config \<Rightarrow> ('s, 'u) accumulator \<Rightarrow> ('s, 'u) accumulator \<Rightarrow> bool" where
  "interchangeable vlen c acc acc' \<longleftrightarrow> (\<forall>L p bs s. vlen bs = length bs \<longrightarrow>
     spec_run c acc L p bs (spec_init p s) = spec_run c acc' L p bs (spec_init p s) \<and>
     spec_parse c acc L p bs s = spec_parse c acc' L p bs s)"

lemma interchangeable_refl [simp]: "interchangeable vlen c acc acc"
  by (simp add: interchangeable_def)

section \<open>Runs\<close>

lemma spec_run_append:
  "spec_run c acc L p (xs @ ys) m = (case spec_run c acc L p xs m of
     Running m' \<Rightarrow> spec_run c acc L (p + length xs) ys m' | out \<Rightarrow> out)"
  by (induction xs arbitrary: p m) (auto split: outcome.splits)

lemma spec_rest_append:
  "spec_run c acc L p xs m = Running m' \<Longrightarrow>
    spec_rest c acc L p (xs @ ys) m = spec_rest c acc L (p + length xs) ys m'"
  by (cases "spec_run c acc L (p + length xs) ys m'") (simp_all add: spec_rest_def spec_run_append add.assoc)

lemma spec_rest_Nil [simp]: "spec_rest c acc L p [] m = spec_finish c acc p m"
  by (simp add: spec_rest_def)

text \<open>The machine never rests in an action state.\<close>

lemma enter_Running: "enter c acc L p s m = Running m' \<Longrightarrow> interior (m_state m')"
  by (cases s) (auto simp: enter_def interior_def split: sum.splits if_splits)

lemma spec_byte_interior: "spec_byte c acc L p b m = Running m' \<Longrightarrow> interior (m_state m')"
  by (auto simp: spec_byte_def Let_def dest: enter_Running split: if_splits)

lemma spec_run_interior:
  "interior (m_state m) \<Longrightarrow> spec_run c acc L p bs m = Running m' \<Longrightarrow> interior (m_state m')"
  by (induction bs arbitrary: p m) (auto dest: spec_byte_interior split: outcome.splits)

text \<open>Runs of content: the two content states copy every byte that is not structural.\<close>

lemma spec_run_in_field:
  assumes "m_state m = InField" and "\<forall>b\<in>set bs. \<not> snd (in_field_cell c b)"
  shows "spec_run c acc L p bs m = Running (m\<lparr>m_cur := m_cur m @ bs\<rparr>)"
  using assms
proof (induction bs arbitrary: p m)
  case Nil
  then show ?case by simp
next
  case (Cons b bs)
  then have "spec_byte c acc L p b m = Running (m\<lparr>m_cur := m_cur m @ [b]\<rparr>)"
    using in_field_self[of c b True]
    by (simp add: spec_byte_def enter_def copy_byte_def mark_start_def)
  with Cons.IH[of "m\<lparr>m_cur := m_cur m @ [b]\<rparr>"] Cons.prems show ?case by simp
qed

lemma spec_run_in_quoted:
  assumes "m_state m = InQuotedField" and "\<forall>b\<in>set bs. \<not> snd (in_quoted_cell c b)"
  shows "spec_run c acc L p bs m = Running (m\<lparr>m_cur := m_cur m @ bs\<rparr>)"
  using assms
proof (induction bs arbitrary: p m)
  case Nil
  then show ?case by simp
next
  case (Cons b bs)
  then have "spec_byte c acc L p b m = Running (m\<lparr>m_cur := m_cur m @ [b]\<rparr>)"
    using in_quoted_self[of c b True]
    by (simp add: spec_byte_def enter_def copy_byte_def mark_start_def)
  with Cons.IH[of "m\<lparr>m_cur := m_cur m @ [b]\<rparr>"] Cons.prems show ?case by simp
qed

text \<open>A run of bare terminators is skipped, up to the end of the chunk.\<close>

lemma spec_run_terminators:
  assumes "m_state m = RecordStart" and "\<forall>b\<in>set bs. is_terminator (terminator c) b"
  shows "spec_run c acc L p bs m =
    (if L < p + length bs \<and> bs \<noteq> [] then Finished (max L p) (m_acc m) else Running m)"
  using assms
proof (induction bs arbitrary: p)
  case Nil
  then show ?case by simp
next
  case (Cons b bs)
  show ?case
  proof (cases "L \<le> p")
    case True
    with Cons.prems show ?thesis by (auto simp: spec_byte_def max_def)
  next
    case False
    have "transition (dfa_new True c) RecordStart b = transition_new RecordStart False"
      using Cons.prems(2) record_start_self[of True c b] by (simp add: dfa_new_def)
    with False Cons.prems have "spec_byte c acc L p b m = Running m"
      by (simp add: spec_byte_def enter_def copy_byte_def mark_start_def)
    with Cons False show ?thesis by (cases bs) auto
  qed
qed

end
