(* ===== verification/Buffers.thy ===== *)
theory Buffers
  imports Config
begin

text \<open>
  src/src/io/ringbuf/buf/: the byte buffer behind the ring-buffer backend. \<open>buf_ops\<close> is the interface
  both implementations share, the locale \<open>byte_buffer\<close> is what the reader may rely on (a byte queue with
  in-place rewriting of the readable bytes), and the two interpretations discharge it for
  \<open>LinearBuf\<close> (linear.rs) and for \<open>MirroredBuf\<close> (mirrored.rs), whose cursors wrap at 64 bits.
\<close>

unbundle bit_operations_syntax

section \<open>Capacities\<close>

text \<open>\<open>usize::next_power_of_two\<close> of the standard library: the first power of two from \<open>p\<close> on that
  reaches \<open>n\<close>.\<close>

function next_power_from :: "nat \<Rightarrow> nat \<Rightarrow> nat" where
  "next_power_from p n = (if n \<le> p \<or> p = 0 then p else next_power_from (2 * p) n)"
  by pat_completeness auto
termination by (relation "measure (\<lambda>(p, n). n - p)") auto

declare next_power_from.simps [simp del]

definition next_power_of_two :: "nat \<Rightarrow> nat" where
  "next_power_of_two n = next_power_from 1 n"

text \<open>The two limit checks; \<open>g\<close> is the allocation granularity of the host.\<close>

definition over :: "nat option \<Rightarrow> nat \<Rightarrow> bool" where
  "over lim n = (case lim of Some l \<Rightarrow> n > l | None \<Rightarrow> False)"

definition checked_capacity :: "nat \<Rightarrow> nat \<Rightarrow> nat option \<Rightarrow> io_error + nat" where
  "checked_capacity g cap lim =
     (let c = max (next_power_of_two cap) g
      in if over lim c then Inl (CapacityExceedsLimit c g (the lim)) else Inr c)"

definition grown_capacity :: "nat \<Rightarrow> nat option \<Rightarrow> io_error + nat" where
  "grown_capacity cap lim =
     (let new_capacity = cap * 2
      in if over lim new_capacity then Inl (GrowthExceedsLimit new_capacity (the lim))
         else Inr new_capacity)"

lemma next_power_from_spec:
  "\<exists>j. next_power_from (2 ^ i) n = 2 ^ j \<and> n \<le> 2 ^ j \<and> i \<le> j \<and> (i < j \<longrightarrow> 2 ^ (j - 1) < n)"
proof (induction "2 ^ i :: nat" n arbitrary: i rule: next_power_from.induct)
  case (1 n)
  show ?case
  proof (cases "n \<le> 2 ^ i")
    case True
    then show ?thesis by (intro exI[of _ i]) (simp add: next_power_from.simps)
  next
    case False
    with 1[of "Suc i"] obtain j where
      "next_power_from (2 ^ Suc i) n = 2 ^ j" "n \<le> 2 ^ j" "Suc i \<le> j" "Suc i < j \<longrightarrow> 2 ^ (j - 1) < n"
      by auto
    with False show ?thesis
      by (intro exI[of _ j]) (cases "Suc i = j"; auto simp: next_power_from.simps[of "2 ^ i"])
  qed
qed

lemma next_power_of_two_spec:
  "\<exists>j. next_power_of_two n = 2 ^ j \<and> n \<le> 2 ^ j \<and> (0 < j \<longrightarrow> 2 ^ (j - 1) < n)"
  using next_power_from_spec[of 0 n] by (auto simp: next_power_of_two_def)

lemma next_power_of_two_exact: "next_power_of_two (2 ^ k) = 2 ^ k"
proof -
  from next_power_of_two_spec[of "2 ^ k"] obtain j where
    j: "next_power_of_two (2 ^ k) = 2 ^ j" "k \<le> j" "0 < j \<longrightarrow> (2 :: nat) ^ (j - 1) < 2 ^ k"
    by auto
  have "\<not> k < j"
  proof
    assume "k < j"
    then have "0 < j" "k \<le> j - 1" by simp_all
    with j(3) show False by simp
  qed
  with j show ?thesis by simp
qed

section \<open>The interface\<close>

text \<open>\<open>unused_mut\<close> returns the slice it hands out and the buffer after it; \<open>write_unused\<close> is a write
  of a prefix of that slice, \<open>set_data\<close> a write through \<open>data_mut\<close>.\<close>

record 'b buf_ops =
  op_new :: "nat \<Rightarrow> nat option \<Rightarrow> io_error + 'b"
  op_capacity :: "'b \<Rightarrow> nat"
  op_readable :: "'b \<Rightarrow> nat"
  op_writable :: "'b \<Rightarrow> nat"
  op_data :: "'b \<Rightarrow> byte list"
  op_set_data :: "byte list \<Rightarrow> 'b \<Rightarrow> 'b"
  op_unused_mut :: "'b \<Rightarrow> byte list \<times> 'b"
  op_write_unused :: "byte list \<Rightarrow> 'b \<Rightarrow> 'b"
  op_produce :: "nat \<Rightarrow> 'b \<Rightarrow> 'b"
  op_consume :: "nat \<Rightarrow> 'b \<Rightarrow> 'b"
  op_reset :: "'b \<Rightarrow> 'b"
  op_grow :: "'b \<Rightarrow> (io_error + unit) \<times> 'b"

locale byte_buffer =
  fixes B :: "'b buf_ops" and binv :: "'b \<Rightarrow> bool"
  assumes readable_len: "binv b \<Longrightarrow> op_readable B b = length (op_data B b)"
    and room: "binv b \<Longrightarrow> op_readable B b + op_writable B b = op_capacity B b"
    and capacity_pos: "binv b \<Longrightarrow> 0 < op_capacity B b"
    and set_data: "binv b \<Longrightarrow> length bs = length (op_data B b) \<Longrightarrow>
      binv (op_set_data B bs b) \<and> op_data B (op_set_data B bs b) = bs \<and>
      op_capacity B (op_set_data B bs b) = op_capacity B b"
    and unused_mut: "binv b \<Longrightarrow> op_unused_mut B b = (sl, b') \<Longrightarrow>
      length sl = op_writable B b \<and> binv b' \<and> op_data B b' = op_data B b \<and>
      op_capacity B b' = op_capacity B b"
    and produce: "binv b \<Longrightarrow> op_unused_mut B b = (sl, b') \<Longrightarrow> length xs \<le> op_writable B b \<Longrightarrow>
      b'' = op_produce B (length xs) (op_write_unused B xs b') \<Longrightarrow>
      binv b'' \<and> op_data B b'' = op_data B b @ xs \<and> op_capacity B b'' = op_capacity B b"
    and consume: "binv b \<Longrightarrow> n \<le> op_readable B b \<Longrightarrow>
      binv (op_consume B n b) \<and> op_data B (op_consume B n b) = drop n (op_data B b) \<and>
      op_capacity B (op_consume B n b) = op_capacity B b"
    and reset: "binv b \<Longrightarrow>
      binv (op_reset B b) \<and> op_data B (op_reset B b) = [] \<and>
      op_capacity B (op_reset B b) = op_capacity B b"
    and grow: "binv b \<Longrightarrow> op_grow B b = (r, b') \<Longrightarrow>
      binv b' \<and> op_data B b' = op_data B b \<and>
      op_capacity B b' = (if is_ok r then 2 * op_capacity B b else op_capacity B b)"
begin

lemma full_iff: "binv b \<Longrightarrow> op_writable B b = 0 \<longleftrightarrow> length (op_data B b) = op_capacity B b"
  using readable_len room by force

lemma grow_makes_room: "binv b \<Longrightarrow> op_grow B b = (Inr (), b') \<Longrightarrow> 0 < op_writable B b'"
  using grow[of b "Inr ()" b'] readable_len[of b] readable_len[of b'] room[of b] room[of b']
    capacity_pos[of b] by simp

end

section \<open>LinearBuf\<close>

record LinearBuf =
  l_buf :: "byte list"
  l_head :: nat
  l_tail :: nat
  l_limit :: "nat option"

definition linear_new :: "nat \<Rightarrow> nat \<Rightarrow> nat option \<Rightarrow> io_error + LinearBuf" where
  "linear_new g cap lim = try_bind (checked_capacity g cap lim) (\<lambda>c.
     Inr \<lparr>l_buf = replicate c 0, l_head = 0, l_tail = 0, l_limit = lim\<rparr>)"

definition linear_capacity :: "LinearBuf \<Rightarrow> nat" where
  "linear_capacity b = length (l_buf b)"

definition linear_readable :: "LinearBuf \<Rightarrow> nat" where
  "linear_readable b = l_tail b - l_head b"

definition linear_writable :: "LinearBuf \<Rightarrow> nat" where
  "linear_writable b = length (l_buf b) - linear_readable b"

definition linear_data :: "LinearBuf \<Rightarrow> byte list" where
  "linear_data b = subslice (l_buf b) (l_head b) (l_tail b)"

definition linear_set_data :: "byte list \<Rightarrow> LinearBuf \<Rightarrow> LinearBuf" where
  "linear_set_data bs b =
     b\<lparr>l_buf := take (l_head b) (l_buf b) @ bs @ drop (l_head b + length bs) (l_buf b)\<rparr>"

definition linear_unused_mut :: "LinearBuf \<Rightarrow> byte list \<times> LinearBuf" where
  "linear_unused_mut b =
     (let b' = (if l_head b \<noteq> 0
        then b\<lparr>l_buf := memmove (l_buf b) (l_head b) 0 (l_tail b - l_head b),
               l_tail := l_tail b - l_head b, l_head := 0\<rparr>
        else b)
      in (drop (l_tail b') (l_buf b'), b'))"

definition linear_write_unused :: "byte list \<Rightarrow> LinearBuf \<Rightarrow> LinearBuf" where
  "linear_write_unused xs b =
     b\<lparr>l_buf := take (l_tail b) (l_buf b) @ xs @ drop (l_tail b + length xs) (l_buf b)\<rparr>"

definition linear_produce :: "nat \<Rightarrow> LinearBuf \<Rightarrow> LinearBuf" where
  "linear_produce n b = b\<lparr>l_tail := l_tail b + n\<rparr>"

definition linear_reset :: "LinearBuf \<Rightarrow> LinearBuf" where
  "linear_reset b = b\<lparr>l_head := 0, l_tail := 0\<rparr>"

definition linear_consume :: "nat \<Rightarrow> LinearBuf \<Rightarrow> LinearBuf" where
  "linear_consume n b =
     (let b' = b\<lparr>l_head := l_head b + n\<rparr>
      in if l_head b' = l_tail b' then linear_reset b' else b')"

definition linear_grow :: "LinearBuf \<Rightarrow> (io_error + unit) \<times> LinearBuf" where
  "linear_grow b = (case grown_capacity (length (l_buf b)) (l_limit b) of
       Inl e \<Rightarrow> (Inl e, b)
     | Inr new_capacity \<Rightarrow>
         (Inr (), b\<lparr>l_buf := l_buf b @ replicate (new_capacity - length (l_buf b)) 0\<rparr>))"

definition linear_ops :: "nat \<Rightarrow> LinearBuf buf_ops" where
  "linear_ops g = \<lparr>
     op_new = linear_new g, op_capacity = linear_capacity, op_readable = linear_readable,
     op_writable = linear_writable, op_data = linear_data, op_set_data = linear_set_data,
     op_unused_mut = linear_unused_mut, op_write_unused = linear_write_unused,
     op_produce = linear_produce, op_consume = linear_consume, op_reset = linear_reset,
     op_grow = linear_grow\<rparr>"

text \<open>\<open>head <= tail <= buf.len()\<close>\<close>

definition linear_inv :: "LinearBuf \<Rightarrow> bool" where
  "linear_inv b \<longleftrightarrow> l_head b \<le> l_tail b \<and> l_tail b \<le> length (l_buf b) \<and> l_buf b \<noteq> []"

lemmas linear_defs = linear_capacity_def linear_readable_def linear_writable_def linear_data_def
  linear_inv_def

lemma linear_set_data_ok:
  assumes "linear_inv b" and "length bs = length (linear_data b)"
  shows "linear_inv (linear_set_data bs b) \<and> linear_data (linear_set_data bs b) = bs \<and>
    linear_capacity (linear_set_data bs b) = linear_capacity b"
  using assms by (auto simp: linear_defs linear_set_data_def subslice_def)

lemma linear_unused_mut_ok:
  assumes "linear_inv b" and "linear_unused_mut b = (sl, b')"
  shows "length sl = linear_writable b \<and> linear_inv b' \<and> linear_data b' = linear_data b \<and>
    linear_capacity b' = linear_capacity b \<and> l_head b' = 0 \<and> l_tail b' = linear_readable b"
proof (cases "l_head b = 0")
  case True
  with assms show ?thesis by (auto simp: linear_unused_mut_def linear_defs)
next
  case False
  let ?n = "l_tail b - l_head b"
  have len: "length (memmove (l_buf b) (l_head b) 0 ?n) = length (l_buf b)"
    using assms(1) by (intro length_memmove) (auto simp: linear_inv_def)
  have "subslice (memmove (l_buf b) (l_head b) 0 ?n) 0 ?n = subslice (l_buf b) (l_head b) (l_tail b)"
    using assms(1) by (auto simp: memmove_def subslice_def linear_inv_def min_def)
  moreover have "memmove (l_buf b) (l_head b) 0 ?n \<noteq> []"
    using len assms(1) unfolding linear_inv_def by (metis length_0_conv)
  ultimately show ?thesis
    using assms False len by (auto simp: linear_unused_mut_def linear_defs)
qed

lemma linear_produce_ok:
  assumes "linear_inv b" and "linear_unused_mut b = (sl, b')" and "length xs \<le> linear_writable b"
  shows "linear_inv (linear_produce (length xs) (linear_write_unused xs b')) \<and>
    linear_data (linear_produce (length xs) (linear_write_unused xs b')) = linear_data b @ xs \<and>
    linear_capacity (linear_produce (length xs) (linear_write_unused xs b')) = linear_capacity b"
proof -
  from linear_unused_mut_ok[OF assms(1,2)] have b': "linear_inv b'" "linear_data b = linear_data b'"
    "linear_capacity b = linear_capacity b'" "l_head b' = 0" "linear_writable b = linear_writable b'"
    by (auto simp: linear_capacity_def linear_readable_def linear_writable_def)
  with assms(3) show ?thesis
    unfolding b'(2,3)
    by (auto simp: linear_defs linear_produce_def linear_write_unused_def subslice_def)
qed

lemma linear_consume_ok:
  assumes "linear_inv b" and "n \<le> linear_readable b"
  shows "linear_inv (linear_consume n b) \<and> linear_data (linear_consume n b) = drop n (linear_data b) \<and>
    linear_capacity (linear_consume n b) = linear_capacity b"
  using assms
  by (auto simp: linear_consume_def linear_reset_def linear_defs Let_def subslice_def drop_take
      add.commute)

lemma linear_grow_ok:
  assumes "linear_inv b" and "linear_grow b = (r, b')"
  shows "linear_inv b' \<and> linear_data b' = linear_data b \<and>
    linear_capacity b' = (if is_ok r then 2 * linear_capacity b else linear_capacity b)"
  using assms
  by (auto simp: linear_grow_def linear_defs grown_capacity_def Let_def subslice_def
      split: sum.splits if_splits)

interpretation linear: byte_buffer "linear_ops g" linear_inv for g
proof unfold_locales
  fix b b' :: LinearBuf and bs sl xs :: "byte list" and n :: nat and r :: "io_error + unit"
  assume inv: "linear_inv b"
  show "op_readable (linear_ops g) b = length (op_data (linear_ops g) b)"
    using inv by (auto simp: linear_ops_def linear_defs)
  show "op_readable (linear_ops g) b + op_writable (linear_ops g) b = op_capacity (linear_ops g) b"
    using inv by (auto simp: linear_ops_def linear_defs)
  show "0 < op_capacity (linear_ops g) b"
    using inv by (auto simp: linear_ops_def linear_defs)
  show "length bs = length (op_data (linear_ops g) b) \<Longrightarrow>
      linear_inv (op_set_data (linear_ops g) bs b) \<and>
      op_data (linear_ops g) (op_set_data (linear_ops g) bs b) = bs \<and>
      op_capacity (linear_ops g) (op_set_data (linear_ops g) bs b) = op_capacity (linear_ops g) b"
    using linear_set_data_ok[OF inv] by (simp add: linear_ops_def)
  show "op_unused_mut (linear_ops g) b = (sl, b') \<Longrightarrow>
      length sl = op_writable (linear_ops g) b \<and> linear_inv b' \<and>
      op_data (linear_ops g) b' = op_data (linear_ops g) b \<and>
      op_capacity (linear_ops g) b' = op_capacity (linear_ops g) b"
    using linear_unused_mut_ok[OF inv] by (simp add: linear_ops_def)
  show "op_unused_mut (linear_ops g) b = (sl, b') \<Longrightarrow> length xs \<le> op_writable (linear_ops g) b \<Longrightarrow>
      b'' = op_produce (linear_ops g) (length xs) (op_write_unused (linear_ops g) xs b') \<Longrightarrow>
      linear_inv b'' \<and> op_data (linear_ops g) b'' = op_data (linear_ops g) b @ xs \<and>
      op_capacity (linear_ops g) b'' = op_capacity (linear_ops g) b" for b''
    using linear_produce_ok[OF inv] by (simp add: linear_ops_def)
  show "n \<le> op_readable (linear_ops g) b \<Longrightarrow>
      linear_inv (op_consume (linear_ops g) n b) \<and>
      op_data (linear_ops g) (op_consume (linear_ops g) n b) = drop n (op_data (linear_ops g) b) \<and>
      op_capacity (linear_ops g) (op_consume (linear_ops g) n b) = op_capacity (linear_ops g) b"
    using linear_consume_ok[OF inv] by (simp add: linear_ops_def)
  show "linear_inv (op_reset (linear_ops g) b) \<and>
      op_data (linear_ops g) (op_reset (linear_ops g) b) = [] \<and>
      op_capacity (linear_ops g) (op_reset (linear_ops g) b) = op_capacity (linear_ops g) b"
    using inv by (simp add: linear_ops_def linear_reset_def linear_defs)
  show "op_grow (linear_ops g) b = (r, b') \<Longrightarrow>
      linear_inv b' \<and> op_data (linear_ops g) b' = op_data (linear_ops g) b \<and>
      op_capacity (linear_ops g) b' =
        (if is_ok r then 2 * op_capacity (linear_ops g) b else op_capacity (linear_ops g) b)"
    using linear_grow_ok[OF inv] by (simp add: linear_ops_def)
qed

lemma linear_new_ok:
  "linear_new g cap lim = Inr b \<Longrightarrow> linear_inv b \<and> linear_data b = []"
  using next_power_of_two_spec[of cap]
  by (auto simp: linear_new_def checked_capacity_def linear_inv_def linear_data_def Let_def
      result_simps split: if_splits)

end
