(* ===== verification/Mirrored.thy ===== *)
theory Mirrored
  imports Buffers
begin

text \<open>
  src/src/io/ringbuf/buf/mirrored.rs: the ring buffer whose memory is mapped twice back to back. The
  memory is a list of \<open>capacity\<close> bytes read through addresses modulo \<open>capacity\<close>; the cursors
  are 64-bit words that wrap, and the offsets are computed with the mask \<open>capacity - 1\<close>. The lemmas show
  that the buffer is a byte queue whatever the cursors are, wrapped or not.
\<close>

unbundle bit_operations_syntax

section \<open>The buffer\<close>

record MirroredBuf =
  m_mem :: "byte list"
  m_capacity :: nat
  m_limit :: "nat option"
  producer :: u64
  consumer :: u64

text \<open>\<open>MemFile::new\<close> and \<open>map_double\<close>: \<open>os\<close> is what the operating system answers when asked
  for the file and the reservation of \<open>capacity * 2\<close> bytes (a 64-bit product); an empty reservation is
  refused (\<open>mmap\<close> fails with \<open>EINVAL\<close>).\<close>

definition map_double :: "(u64 \<Rightarrow> io_error + unit) \<Rightarrow> nat \<Rightarrow> io_error + unit" where
  "map_double os capacity =
     (let len = word_of_nat capacity * 2
      in if len = 0 then Inl (OsError ''EINVAL'') else os len)"

definition mirrored_new ::
    "nat \<Rightarrow> (u64 \<Rightarrow> io_error + unit) \<Rightarrow> nat \<Rightarrow> nat option \<Rightarrow> io_error + MirroredBuf" where
  "mirrored_new g os cap lim = try_bind (checked_capacity g cap lim) (\<lambda>c.
     try_bind (map_double os c) (\<lambda>_.
       Inr \<lparr>m_mem = replicate c 0, m_capacity = c, m_limit = lim, producer = 0, consumer = 0\<rparr>))"

text \<open>The byte at address \<open>ptr + a\<close> of the double mapping, and a write to it.\<close>

definition mapped :: "MirroredBuf \<Rightarrow> nat \<Rightarrow> nat \<Rightarrow> byte list" where
  "mapped m off len = map (\<lambda>i. m_mem m ! ((off + i) mod m_capacity m)) [0..<len]"

definition store_mapped :: "nat \<Rightarrow> byte list \<Rightarrow> MirroredBuf \<Rightarrow> MirroredBuf" where
  "store_mapped off xs m =
     m\<lparr>m_mem := fold (\<lambda>i mem. mem[(off + i) mod m_capacity m := xs ! i]) [0..<length xs] (m_mem m)\<rparr>"

definition masked :: "MirroredBuf \<Rightarrow> u64 \<Rightarrow> nat" where
  "masked m cursor = unat (cursor AND (word_of_nat (m_capacity m) - 1))"

definition mirrored_readable :: "MirroredBuf \<Rightarrow> nat" where
  "mirrored_readable m = unat (producer m - consumer m)"

definition mirrored_writable :: "MirroredBuf \<Rightarrow> nat" where
  "mirrored_writable m = m_capacity m - mirrored_readable m"

definition mirrored_data :: "MirroredBuf \<Rightarrow> byte list" where
  "mirrored_data m = mapped m (masked m (consumer m)) (mirrored_readable m)"

definition mirrored_set_data :: "byte list \<Rightarrow> MirroredBuf \<Rightarrow> MirroredBuf" where
  "mirrored_set_data bs m = store_mapped (masked m (consumer m)) bs m"

definition mirrored_unused_mut :: "MirroredBuf \<Rightarrow> byte list \<times> MirroredBuf" where
  "mirrored_unused_mut m = (mapped m (masked m (producer m)) (mirrored_writable m), m)"

definition mirrored_write_unused :: "byte list \<Rightarrow> MirroredBuf \<Rightarrow> MirroredBuf" where
  "mirrored_write_unused xs m = store_mapped (masked m (producer m)) xs m"

definition mirrored_produce :: "nat \<Rightarrow> MirroredBuf \<Rightarrow> MirroredBuf" where
  "mirrored_produce n m = m\<lparr>producer := producer m + word_of_nat n\<rparr>"

definition mirrored_consume :: "nat \<Rightarrow> MirroredBuf \<Rightarrow> MirroredBuf" where
  "mirrored_consume n m = m\<lparr>consumer := consumer m + word_of_nat n\<rparr>"

definition mirrored_reset :: "MirroredBuf \<Rightarrow> MirroredBuf" where
  "mirrored_reset m = m\<lparr>producer := 0, consumer := 0\<rparr>"

definition mirrored_grow ::
    "nat \<Rightarrow> (u64 \<Rightarrow> io_error + unit) \<Rightarrow> MirroredBuf \<Rightarrow> (io_error + unit) \<times> MirroredBuf" where
  "mirrored_grow g os m =
     (case grown_capacity (m_capacity m) (m_limit m) of
        Inl e \<Rightarrow> (Inl e, m)
      | Inr new_capacity \<Rightarrow>
          (case mirrored_new g os new_capacity (m_limit m) of
             Inl e \<Rightarrow> (Inl e, m)
           | Inr new \<Rightarrow>
               (let readable = mirrored_readable m
                in (Inr (), if readable > 0
                      then mirrored_produce readable (mirrored_write_unused (mirrored_data m) new)
                      else new))))"

definition mirrored_ops :: "nat \<Rightarrow> (u64 \<Rightarrow> io_error + unit) \<Rightarrow> MirroredBuf buf_ops" where
  "mirrored_ops g os = \<lparr>
     op_new = mirrored_new g os, op_capacity = m_capacity, op_readable = mirrored_readable,
     op_writable = mirrored_writable, op_data = mirrored_data, op_set_data = mirrored_set_data,
     op_unused_mut = mirrored_unused_mut, op_write_unused = mirrored_write_unused,
     op_produce = mirrored_produce, op_consume = mirrored_consume, op_reset = mirrored_reset,
     op_grow = mirrored_grow g os\<rparr>"

text \<open>The capacity is a power of two that the cursors can count, and no more is readable than fits.\<close>

definition mirrored_inv :: "nat \<Rightarrow> MirroredBuf \<Rightarrow> bool" where
  "mirrored_inv g m \<longleftrightarrow> (\<exists>k<63. m_capacity m = 2 ^ k) \<and> g \<le> m_capacity m \<and>
     length (m_mem m) = m_capacity m \<and> mirrored_readable m \<le> m_capacity m"

section \<open>Offsets\<close>

lemma unat_small: "n < 2 ^ 64 \<Longrightarrow> unat (word_of_nat n :: u64) = n"
  by (simp add: unat_of_nat)

text \<open>The reservation of twice a power of two wraps to nothing from \<open>2 ^ 63\<close> on.\<close>

lemma reservation_empty: "(word_of_nat (2 ^ k) :: u64) * 2 = 0 \<longleftrightarrow> 63 \<le> k"
proof -
  have "(word_of_nat (2 ^ k) :: u64) * 2 = 2 ^ Suc k" by simp
  also have "(2 ^ Suc k = (0 :: u64)) \<longleftrightarrow> 64 \<le> Suc k"
    unfolding exp_eq_zero_iff by simp
  finally show ?thesis by auto
qed

lemma masked_mod:
  assumes "m_capacity m = 2 ^ k" and "k < 64"
  shows "masked m w = unat w mod m_capacity m"
proof -
  have "(word_of_nat (2 ^ k) :: u64) - 1 = mask k"
    by (simp add: mask_eq_exp_minus_1)
  then have "masked m w = unat (take_bit k w)"
    by (simp add: masked_def assms(1) take_bit_eq_mask)
  also have "\<dots> = unat w mod 2 ^ k"
    by (simp only: unsigned_take_bit_eq take_bit_nat_def)
  finally show ?thesis by (simp add: assms(1))
qed

lemma mod_power_dvd: "k \<le> 64 \<Longrightarrow> (x mod 2 ^ 64) mod 2 ^ k = (x :: nat) mod 2 ^ k"
  by (rule mod_mod_cancel, rule le_imp_power_dvd)

text \<open>Advancing a cursor advances its offset, through the wrap at 64 bits.\<close>

lemma masked_add:
  assumes "m_capacity m = 2 ^ k" and "k < 64"
  shows "masked m (w + word_of_nat n) = (masked m w + n) mod m_capacity m"
proof -
  have "unat (w + word_of_nat n) = (unat w + n) mod 2 ^ 64"
    by (simp add: unat_word_ariths unat_of_nat mod_simps)
  then have "masked m (w + word_of_nat n) = ((unat w + n) mod 2 ^ 64) mod 2 ^ k"
    using assms by (simp add: masked_mod)
  also have "\<dots> = (unat w + n) mod 2 ^ k"
    using assms(2) by (intro mod_power_dvd) simp
  finally show ?thesis
    using assms by (simp add: masked_mod mod_simps)
qed

lemma masked_update:
  assumes "m_capacity m' = m_capacity m"
  shows "masked m' w = masked m w"
  using assms by (simp add: masked_def)

text \<open>The producer's offset is the consumer's plus what is readable.\<close>

lemma masked_producer:
  assumes "m_capacity m = 2 ^ k" and "k < 64"
  shows "masked m (producer m) = (masked m (consumer m) + mirrored_readable m) mod m_capacity m"
proof -
  have "producer m = consumer m + word_of_nat (mirrored_readable m)"
    by (simp add: mirrored_readable_def)
  then show ?thesis using masked_add[OF assms] by metis
qed

section \<open>Reading and writing through the mapping\<close>

lemma length_mapped [simp]: "length (mapped m off len) = len"
  by (simp add: mapped_def)

lemma capacity_store [simp]: "m_capacity (store_mapped off xs m) = m_capacity m"
  "producer (store_mapped off xs m) = producer m" "consumer (store_mapped off xs m) = consumer m"
  "m_limit (store_mapped off xs m) = m_limit m"
  by (simp_all add: store_mapped_def)

lemma fold_store:
  assumes "n \<le> c" and "length mem = c"
  shows "length (fold (\<lambda>i mem. mem[(off + i) mod c := xs ! i]) [0..<n] mem) = c \<and>
    (\<forall>j<c. fold (\<lambda>i mem. mem[(off + i) mod c := xs ! i]) [0..<n] mem ! ((off + j) mod c)
        = (if j < n then xs ! j else mem ! ((off + j) mod c)))"
  using assms(1)
proof (induction n)
  case 0
  then show ?case using assms(2) by simp
next
  case (Suc n)
  have inj: "(off + j) mod c = (off + n) mod c \<longleftrightarrow> j = n" if "j < c" for j
  proof
    assume "(off + j) mod c = (off + n) mod c"
    then have "c dvd (off + j) - (off + n)" "c dvd (off + n) - (off + j)"
      by (metis mod_eq_dvd_iff_nat nat_le_linear diff_is_0_eq dvd_0_right)+
    then have "c dvd j - n" "c dvd n - j" by simp_all
    then have "j - n = 0" "n - j = 0"
      using that Suc.prems by (auto intro: dvd_imp_le dest!: dvd_imp_le)
    then show "j = n" by simp
  qed simp
  let ?st = "\<lambda>n. fold (\<lambda>i mem. mem[(off + i) mod c := xs ! i]) [0..<n] mem"
  from Suc have IH: "length (?st n) = c"
    "\<And>j. j < c \<Longrightarrow> ?st n ! ((off + j) mod c) = (if j < n then xs ! j else mem ! ((off + j) mod c))"
    by simp_all
  have step: "?st (Suc n) = (?st n)[(off + n) mod c := xs ! n]" by simp
  have "?st (Suc n) ! ((off + j) mod c) = (if j < Suc n then xs ! j else mem ! ((off + j) mod c))"
    if "j < c" for j
  proof (cases "j = n")
    case True
    have "(off + n) mod c < c" using Suc.prems by simp
    then show ?thesis unfolding step using True IH(1) by simp
  next
    case False
    with inj[OF that] have "(off + n) mod c \<noteq> (off + j) mod c" by metis
    then show ?thesis unfolding step using IH(2)[OF that] False by simp
  qed
  then show ?case unfolding step using IH(1) by simp
qed

lemma nth_mapped: "i < len \<Longrightarrow> mapped m off len ! i = m_mem m ! ((off + i) mod m_capacity m)"
  by (simp add: mapped_def)

lemma length_store:
  "length (m_mem m) = m_capacity m \<Longrightarrow> length xs \<le> m_capacity m \<Longrightarrow>
    length (m_mem (store_mapped off xs m)) = m_capacity m"
  using fold_store[of "length xs" "m_capacity m" "m_mem m"] by (simp add: store_mapped_def)

lemma nth_store:
  "length (m_mem m) = m_capacity m \<Longrightarrow> length xs \<le> m_capacity m \<Longrightarrow> j < m_capacity m \<Longrightarrow>
    m_mem (store_mapped off xs m) ! ((off + j) mod m_capacity m) =
      (if j < length xs then xs ! j else m_mem m ! ((off + j) mod m_capacity m))"
  using fold_store[of "length xs" "m_capacity m" "m_mem m"] by (simp add: store_mapped_def)

text \<open>A write of \<open>xs\<close> at distance \<open>d\<close> from \<open>off\<close> replaces exactly those bytes of the window.\<close>

lemma mapped_store:
  assumes "length (m_mem m) = m_capacity m" and "d + length xs \<le> m_capacity m"
  shows "mapped (store_mapped ((off + d) mod m_capacity m) xs m) off (d + length xs) =
    mapped m off d @ xs"
proof (rule nth_equalityI)
  fix i assume i: "i < length (mapped (store_mapped ((off + d) mod m_capacity m) xs m) off (d + length xs))"
  let ?c = "m_capacity m" and ?s = "store_mapped ((off + d) mod m_capacity m) xs m"
  have lhs: "mapped ?s off (d + length xs) ! i = m_mem ?s ! ((off + i) mod ?c)"
    using i by (simp add: nth_mapped)
  show "mapped ?s off (d + length xs) ! i = (mapped m off d @ xs) ! i"
  proof (cases "i < d")
    case True
    let ?j = "?c - d + i"
    have "((off + d) mod ?c + ?j) mod ?c = (off + i) mod ?c"
    proof -
      have "(off + d + ?j) mod ?c = (off + i + ?c) mod ?c"
        using assms(2) True by (simp add: algebra_simps)
      then show ?thesis by (simp add: mod_simps)
    qed
    moreover have "?j < ?c" "\<not> ?j < length xs" using assms(2) True by linarith+
    ultimately show ?thesis
      using nth_store[OF assms(1), of xs ?j "(off + d) mod ?c"] assms(2) True
      by (simp add: lhs nth_append nth_mapped)
  next
    case False
    let ?j = "i - d"
    have "((off + d) mod ?c + ?j) mod ?c = (off + i) mod ?c"
      using False mod_add_left_eq[of "off + d" ?c ?j] by simp
    moreover have "?j < ?c" "?j < length xs" using assms(2) False i by auto
    ultimately show ?thesis
      using nth_store[OF assms(1), of xs ?j "(off + d) mod ?c"] assms(2) False
      by (simp add: lhs nth_append)
  qed
qed simp

section \<open>The queue laws\<close>

lemma mirrored_inv_cases:
  assumes "mirrored_inv g m"
  obtains k where "m_capacity m = 2 ^ k" "k < 63" "g \<le> m_capacity m"
    "length (m_mem m) = m_capacity m" "mirrored_readable m \<le> m_capacity m"
  using assms by (auto simp: mirrored_inv_def)

lemma readable_store [simp]: "mirrored_readable (store_mapped off xs m) = mirrored_readable m"
  by (simp add: mirrored_readable_def)

lemma masked_store [simp]: "masked (store_mapped off xs m) w = masked m w"
  by (simp add: masked_def)

lemma mirrored_set_data_ok:
  assumes inv: "mirrored_inv g m" and len: "length bs = length (mirrored_data m)"
  shows "mirrored_inv g (mirrored_set_data bs m) \<and> mirrored_data (mirrored_set_data bs m) = bs \<and>
    m_capacity (mirrored_set_data bs m) = m_capacity m"
proof -
  from inv obtain k where k: "m_capacity m = 2 ^ k" "k < 63" "g \<le> m_capacity m"
    "length (m_mem m) = m_capacity m" "mirrored_readable m \<le> m_capacity m"
    by (rule mirrored_inv_cases)
  have l: "length bs = mirrored_readable m" using len by (simp add: mirrored_data_def)
  have "masked m (consumer m) mod m_capacity m = masked m (consumer m)"
    using k by (simp add: masked_mod)
  with mapped_store[of m 0 bs "masked m (consumer m)"] k l
  have "mirrored_data (mirrored_set_data bs m) = bs"
    by (simp add: mirrored_data_def mirrored_set_data_def mapped_def)
  moreover have "length (m_mem (mirrored_set_data bs m)) = m_capacity m"
    using k l by (simp add: mirrored_set_data_def length_store)
  ultimately show ?thesis
    using k by (auto simp: mirrored_inv_def mirrored_set_data_def)
qed

text \<open>What a write at the producer and \<open>produce\<close> do, for any amount that fits.\<close>

lemma mirrored_append:
  assumes inv: "mirrored_inv g m" and len: "length xs \<le> mirrored_writable m"
  defines "m' \<equiv> mirrored_produce (length xs) (mirrored_write_unused xs m)"
  shows "mirrored_inv g m' \<and> mirrored_data m' = mirrored_data m @ xs \<and> m_capacity m' = m_capacity m"
proof -
  from inv obtain k where k: "m_capacity m = 2 ^ k" "k < 63" "g \<le> m_capacity m"
    "length (m_mem m) = m_capacity m" "mirrored_readable m \<le> m_capacity m"
    by (rule mirrored_inv_cases)
  have fits: "mirrored_readable m + length xs \<le> m_capacity m"
    using len k(5) by (simp add: mirrored_writable_def)
  have "(2 :: nat) ^ k < 2 ^ 63" using k(2) by (intro power_strict_increasing) auto
  then have small: "mirrored_readable m + length xs < 2 ^ 64" using fits k(1) by simp
  have r: "mirrored_readable m' = mirrored_readable m + length xs"
  proof -
    have "producer m' - consumer m' = word_of_nat (mirrored_readable m + length xs)"
      by (simp add: m'_def mirrored_produce_def mirrored_write_unused_def mirrored_readable_def)
    then show ?thesis unfolding mirrored_readable_def[of m'] by (simp only: unat_small[OF small])
  qed
  have cap: "m_capacity m' = m_capacity m"
    by (simp add: m'_def mirrored_produce_def mirrored_write_unused_def)
  have "mirrored_data m' =
      mapped (store_mapped (masked m (producer m)) xs m) (masked m (consumer m))
        (mirrored_readable m + length xs)"
    unfolding mirrored_data_def r
    by (simp add: m'_def mirrored_produce_def mirrored_write_unused_def mapped_def masked_def)
  also have "\<dots> = mirrored_data m @ xs"
    using mapped_store[OF k(4) fits, of "masked m (consumer m)"] k
    by (simp add: masked_producer mirrored_data_def)
  finally have "mirrored_data m' = mirrored_data m @ xs" .
  moreover have "length (m_mem m') = m_capacity m"
    using k fits by (simp add: m'_def mirrored_produce_def mirrored_write_unused_def length_store)
  ultimately show ?thesis
    using k r fits cap by (auto simp: mirrored_inv_def)
qed

lemma mirrored_consume_ok:
  assumes inv: "mirrored_inv g m" and le: "n \<le> mirrored_readable m"
  shows "mirrored_inv g (mirrored_consume n m) \<and>
    mirrored_data (mirrored_consume n m) = drop n (mirrored_data m) \<and>
    m_capacity (mirrored_consume n m) = m_capacity m"
proof -
  from inv obtain k where k: "m_capacity m = 2 ^ k" "k < 63" "g \<le> m_capacity m"
    "length (m_mem m) = m_capacity m" "mirrored_readable m \<le> m_capacity m"
    by (rule mirrored_inv_cases)
  have r: "mirrored_readable (mirrored_consume n m) = mirrored_readable m - n"
  proof -
    have "n < 2 ^ 64"
    proof -
      have "unat (producer m - consumer m) < 2 ^ LENGTH(64)" by (rule unsigned_less)
      with le show ?thesis by (simp add: mirrored_readable_def)
    qed
    then have n: "unat (word_of_nat n :: u64) = n" by (rule unat_small)
    with le have "(word_of_nat n :: u64) \<le> producer m - consumer m"
      by (simp add: word_le_nat_alt mirrored_readable_def)
    then have "unat (producer m - consumer m - word_of_nat n) = mirrored_readable m - n"
      by (simp add: unat_sub n mirrored_readable_def)
    then show ?thesis
      by (simp add: mirrored_readable_def mirrored_consume_def diff_diff_eq)
  qed
  have off: "masked (mirrored_consume n m) (consumer (mirrored_consume n m)) =
      (masked m (consumer m) + n) mod m_capacity m"
    using masked_add[OF k(1)] k(2) by (simp add: mirrored_consume_def masked_def)
  have "mirrored_data (mirrored_consume n m) = drop n (mirrored_data m)"
    unfolding mirrored_data_def r off
    using le by (intro nth_equalityI) (auto simp: mirrored_consume_def nth_mapped mod_simps add.assoc)
  with k r show ?thesis
    by (auto simp: mirrored_inv_def mirrored_consume_def)
qed

lemma mirrored_new_ok:
  assumes "mirrored_new g os cap lim = Inr m" and "g = 2 ^ j"
  shows "mirrored_inv g m \<and> mirrored_data m = []"
proof -
  from assms(1) have m: "m = \<lparr>m_mem = replicate (m_capacity m) 0, m_capacity = m_capacity m, m_limit = lim,
      producer = 0, consumer = 0\<rparr>" and c: "checked_capacity g cap lim = Inr (m_capacity m)"
    and d: "map_double os (m_capacity m) = Inr ()"
    by (auto simp: mirrored_new_def result_simps)
  from next_power_of_two_spec[of cap] obtain i where i: "next_power_of_two cap = 2 ^ i" by blast
  from c have "m_capacity m = max (2 ^ i) (2 ^ j)"
    by (auto simp: checked_capacity_def Let_def i assms(2) split: if_splits)
  then obtain k where k: "m_capacity m = 2 ^ k" by (auto simp: max_def split: if_splits)
  have "k < 63"
    using d reservation_empty[of k] by (auto simp: map_double_def k Let_def split: if_splits)
  moreover have "g \<le> m_capacity m"
    using c by (auto simp: checked_capacity_def Let_def split: if_splits)
  moreover have "length (m_mem m) = m_capacity m" "mirrored_readable m = 0"
    by (subst m, simp add: mirrored_readable_def)+
  ultimately show ?thesis
    using k by (auto simp: mirrored_inv_def mirrored_data_def mapped_def)
qed

lemma mirrored_grow_ok:
  assumes inv: "mirrored_inv g m" and res: "mirrored_grow g os m = (r, m')"
  shows "mirrored_inv g m' \<and> mirrored_data m' = mirrored_data m \<and>
    m_capacity m' = (if is_ok r then 2 * m_capacity m else m_capacity m)"
proof (cases r)
  case (Inl e)
  with res have "m' = m"
    by (auto simp: mirrored_grow_def Let_def split: sum.splits)
  with Inl inv show ?thesis by simp
next
  case (Inr u)
  from inv obtain k where k: "m_capacity m = 2 ^ k" "k < 63" "g \<le> m_capacity m"
    "length (m_mem m) = m_capacity m" "mirrored_readable m \<le> m_capacity m"
    by (rule mirrored_inv_cases)
  from res Inr obtain new where new: "mirrored_new g os (2 * m_capacity m) (m_limit m) = Inr new"
    and m': "m' = (if mirrored_readable m > 0
      then mirrored_produce (mirrored_readable m) (mirrored_write_unused (mirrored_data m) new) else new)"
    by (auto simp: mirrored_grow_def grown_capacity_def Let_def mult.commute split: sum.splits if_splits)
  have cap: "m_capacity new = 2 ^ Suc k"
  proof -
    from new have "checked_capacity g (2 * m_capacity m) (m_limit m) = Inr (m_capacity new)"
      by (auto simp: mirrored_new_def result_simps)
    then have "m_capacity new = max (next_power_of_two (2 ^ Suc k)) g"
      by (auto simp: checked_capacity_def Let_def k(1) split: if_splits)
    also have "\<dots> = 2 ^ Suc k"
      using k(1,3) unfolding next_power_of_two_exact by simp
    finally show ?thesis .
  qed
  have "Suc k < 63"
  proof -
    from new have "map_double os (m_capacity new) = Inr ()"
      by (auto simp: mirrored_new_def result_simps)
    then show ?thesis
      using reservation_empty[of "Suc k"] unfolding cap map_double_def Let_def
      by (auto split: if_splits)
  qed
  moreover from new have e: "m_mem new = replicate (m_capacity new) 0" "mirrored_readable new = 0"
    by (auto simp: mirrored_new_def result_simps mirrored_readable_def)
  ultimately have inv_new: "mirrored_inv g new"
    using cap k(1,3) unfolding mirrored_inv_def by (intro conjI exI[of _ "Suc k"]) auto
  have fits: "length (mirrored_data m) \<le> mirrored_writable new"
    using k e cap by (simp add: mirrored_data_def mirrored_writable_def)
  have empty: "mirrored_data new = []" by (simp add: mirrored_data_def e mapped_def)
  show ?thesis
  proof (cases "mirrored_readable m > 0")
    case True
    have "length (mirrored_data m) = mirrored_readable m" by (simp add: mirrored_data_def)
    with mirrored_append[OF inv_new fits] m' True empty cap k(1) Inr show ?thesis by simp
  next
    case False
    then have "mirrored_data m = []" by (simp add: mirrored_data_def mapped_def)
    with False m' empty inv_new cap k(1) Inr show ?thesis by simp
  qed
qed

lemma mirrored_reset_ok:
  "mirrored_inv g m \<Longrightarrow> mirrored_inv g (mirrored_reset m) \<and> mirrored_data (mirrored_reset m) = []"
  by (auto simp: mirrored_inv_def mirrored_reset_def mirrored_data_def mirrored_readable_def mapped_def)

interpretation mirrored: byte_buffer "mirrored_ops g os" "mirrored_inv g" for g os
proof unfold_locales
  fix b b' :: MirroredBuf and bs sl xs :: "byte list" and n :: nat and r :: "io_error + unit"
  assume inv: "mirrored_inv g b"
  let ?B = "mirrored_ops g os"
  show "op_readable ?B b = length (op_data ?B b)"
    by (simp add: mirrored_ops_def mirrored_data_def)
  show "op_readable ?B b + op_writable ?B b = op_capacity ?B b"
    using inv by (simp add: mirrored_ops_def mirrored_writable_def mirrored_inv_def)
  show "0 < op_capacity ?B b"
    using inv by (auto simp: mirrored_ops_def mirrored_inv_def)
  show "length bs = length (op_data ?B b) \<Longrightarrow>
      mirrored_inv g (op_set_data ?B bs b) \<and> op_data ?B (op_set_data ?B bs b) = bs \<and>
      op_capacity ?B (op_set_data ?B bs b) = op_capacity ?B b"
    using mirrored_set_data_ok[OF inv] by (simp add: mirrored_ops_def)
  show "op_unused_mut ?B b = (sl, b') \<Longrightarrow>
      length sl = op_writable ?B b \<and> mirrored_inv g b' \<and> op_data ?B b' = op_data ?B b \<and>
      op_capacity ?B b' = op_capacity ?B b"
    using inv by (auto simp: mirrored_ops_def mirrored_unused_mut_def)
  show "op_unused_mut ?B b = (sl, b') \<Longrightarrow> length xs \<le> op_writable ?B b \<Longrightarrow>
      b'' = op_produce ?B (length xs) (op_write_unused ?B xs b') \<Longrightarrow>
      mirrored_inv g b'' \<and> op_data ?B b'' = op_data ?B b @ xs \<and>
      op_capacity ?B b'' = op_capacity ?B b" for b''
    using mirrored_append[OF inv] by (auto simp: mirrored_ops_def mirrored_unused_mut_def)
  show "n \<le> op_readable ?B b \<Longrightarrow>
      mirrored_inv g (op_consume ?B n b) \<and> op_data ?B (op_consume ?B n b) = drop n (op_data ?B b) \<and>
      op_capacity ?B (op_consume ?B n b) = op_capacity ?B b"
    using mirrored_consume_ok[OF inv] by (simp add: mirrored_ops_def)
  show "mirrored_inv g (op_reset ?B b) \<and> op_data ?B (op_reset ?B b) = [] \<and>
      op_capacity ?B (op_reset ?B b) = op_capacity ?B b"
    using mirrored_reset_ok[OF inv] by (simp add: mirrored_ops_def mirrored_reset_def)
  show "op_grow ?B b = (r, b') \<Longrightarrow>
      mirrored_inv g b' \<and> op_data ?B b' = op_data ?B b \<and>
      op_capacity ?B b' = (if is_ok r then 2 * op_capacity ?B b else op_capacity ?B b)"
    using mirrored_grow_ok[OF inv] by (simp add: mirrored_ops_def)
qed

end
