(* ===== verification/Readers.thy ===== *)
theory Readers
  imports Mirrored
begin

text \<open>
  src/src/io/: the chunk readers the parsers run over. \<open>reader_ops\<close> is the trait \<open>ChunkReader\<close>; the locale
  \<open>chunk_reader\<close> states its contract (io/mod.rs): \<open>fill\<close> only appends what the input holds and returns
  short only at the end of the input, \<open>consume\<close> drops a prefix, and \<open>remaining_in_chunk\<close> counts
  down to zero. \<open>memory_reader\<close> adds that \<open>fill\<close> cannot fail. The interpretations are the in-memory reader
  (io/memory), the mapped reader (io/mmap) and the ring-buffer reader (io/ringbuf) over any lawful
  buffer and any lawful byte source, the slice cursor of io/slice.rs among them.
\<close>

section \<open>The interface\<close>

record 'r reader_ops =
  r_buffer :: "'r \<Rightarrow> byte list"
  r_set_buffer :: "byte list \<Rightarrow> 'r \<Rightarrow> 'r"
  r_fill :: "nat \<Rightarrow> 'r \<Rightarrow> (io_error + unit) \<times> 'r"
  r_consume :: "nat \<Rightarrow> 'r \<Rightarrow> 'r"
  r_remaining :: "'r \<Rightarrow> nat"

locale chunk_reader =
  fixes R :: "'r reader_ops" and rinv :: "'r \<Rightarrow> bool" and unread :: "'r \<Rightarrow> byte list"
  assumes fill: "rinv r \<Longrightarrow> r_fill R n r = (res, r') \<Longrightarrow>
      rinv r' \<and> r_remaining R r' = r_remaining R r \<and>
      (\<exists>more. r_buffer R r' = r_buffer R r @ more \<and> unread r = more @ unread r')"
    and fill_enough: "rinv r \<Longrightarrow> r_fill R n r = (Inr (), r') \<Longrightarrow>
      n \<le> length (r_buffer R r') \<or> unread r' = []"
    and set_buffer: "rinv r \<Longrightarrow> length bs = length (r_buffer R r) \<Longrightarrow>
      rinv (r_set_buffer R bs r) \<and> r_buffer R (r_set_buffer R bs r) = bs \<and>
      unread (r_set_buffer R bs r) = unread r \<and>
      r_remaining R (r_set_buffer R bs r) = r_remaining R r"
    and consume: "rinv r \<Longrightarrow> n \<le> length (r_buffer R r) \<Longrightarrow>
      rinv (r_consume R n r) \<and> r_buffer R (r_consume R n r) = drop n (r_buffer R r) \<and>
      unread (r_consume R n r) = unread r \<and>
      r_remaining R (r_consume R n r) = r_remaining R r - n"
begin

text \<open>What is still to come, filled or not.\<close>

definition stream :: "'r \<Rightarrow> byte list" where
  "stream r = r_buffer R r @ unread r"

lemma fill_stream: "rinv r \<Longrightarrow> r_fill R n r = (res, r') \<Longrightarrow> stream r' = stream r"
  using fill[of r n res r'] by (auto simp: stream_def)

lemma consume_stream:
  "rinv r \<Longrightarrow> n \<le> length (r_buffer R r) \<Longrightarrow> stream (r_consume R n r) = drop n (stream r)"
  using consume[of r n] by (simp add: stream_def)

lemma empty_after_fill:
  "rinv r \<Longrightarrow> r_fill R n r = (Inr (), r') \<Longrightarrow> 0 < n \<Longrightarrow> r_buffer R r' = [] \<longleftrightarrow> stream r = []"
  using fill_enough[of r n r'] fill_stream[of r n "Inr ()" r'] by (auto simp: stream_def)

text \<open>An error of the reader, as the parsers report it.\<close>

definition fill_failed :: "'u Error \<Rightarrow> bool" where
  "fill_failed err \<longleftrightarrow> (\<exists>e r n. rinv r \<and> fst (r_fill R n r) = Inl e \<and> err = IO e)"

lemma fill_failedI: "rinv r \<Longrightarrow> r_fill R n r = (Inl e, r') \<Longrightarrow> fill_failed (IO e)"
  unfolding fill_failed_def by (metis fst_conv)

end

text \<open>The result of an operation that gave up because a \<open>fill\<close> of the reader failed.\<close>

definition read_failed :: "'r reader_ops \<Rightarrow> ('r \<Rightarrow> bool) \<Rightarrow> 'u Error + 'a \<Rightarrow> bool" where
  "read_failed R rinv res \<longleftrightarrow> (\<exists>e r n. rinv r \<and> fst (r_fill R n r) = Inl e \<and> res = Inl (IO e))"

lemma read_failed_IO: "read_failed R rinv res \<Longrightarrow> \<exists>e. res = Inl (IO e)"
  by (auto simp: read_failed_def)

context chunk_reader
begin

lemma read_failed_iff: "(\<exists>err. res = Inl err \<and> fill_failed err) \<longleftrightarrow> read_failed R rinv res"
  by (auto simp: read_failed_def fill_failed_def)

end

locale memory_reader = chunk_reader +
  assumes fill_total: "rinv r \<Longrightarrow> fst (r_fill R n r) = Inr ()"
begin

lemma never_fails: "\<not> fill_failed err"
  unfolding fill_failed_def using fill_total by (metis sum.distinct(1))

end

section \<open>The in-memory reader\<close>

record InMemoryChunkReader =
  im_data :: "byte list"
  im_pos :: nat
  im_chunk_len :: nat

definition in_memory_new :: "byte list \<Rightarrow> nat \<Rightarrow> InMemoryChunkReader" where
  "in_memory_new data chunk_len = \<lparr>im_data = data, im_pos = 0, im_chunk_len = chunk_len\<rparr>"

definition im_buffer :: "InMemoryChunkReader \<Rightarrow> byte list" where
  "im_buffer r = drop (im_pos r) (im_data r)"

definition im_set_buffer :: "byte list \<Rightarrow> InMemoryChunkReader \<Rightarrow> InMemoryChunkReader" where
  "im_set_buffer bs r = r\<lparr>im_data := take (im_pos r) (im_data r) @ bs\<rparr>"

definition im_fill :: "nat \<Rightarrow> InMemoryChunkReader \<Rightarrow> (io_error + unit) \<times> InMemoryChunkReader" where
  "im_fill n r = (Inr (), r)"

definition im_consume :: "nat \<Rightarrow> InMemoryChunkReader \<Rightarrow> InMemoryChunkReader" where
  "im_consume n r = r\<lparr>im_pos := im_pos r + n\<rparr>"

definition im_remaining :: "InMemoryChunkReader \<Rightarrow> nat" where
  "im_remaining r = im_chunk_len r - im_pos r"

definition in_memory_ops :: "InMemoryChunkReader reader_ops" where
  "in_memory_ops = \<lparr>r_buffer = im_buffer, r_set_buffer = im_set_buffer, r_fill = im_fill,
     r_consume = im_consume, r_remaining = im_remaining\<rparr>"

definition im_inv :: "InMemoryChunkReader \<Rightarrow> bool" where
  "im_inv r \<longleftrightarrow> im_pos r \<le> length (im_data r)"

lemmas im_defs = in_memory_ops_def im_buffer_def im_set_buffer_def im_fill_def im_consume_def
  im_remaining_def im_inv_def

interpretation in_memory: memory_reader in_memory_ops im_inv "\<lambda>_. []"
  by unfold_locales (auto simp: im_defs add.commute)

section \<open>The mapped reader\<close>

record MmapChunkReader =
  mm_data :: "byte list"
  mm_pos :: nat
  mm_chunk_end :: nat

definition mmap_reader_new :: "byte list \<Rightarrow> nat \<Rightarrow> nat \<Rightarrow> MmapChunkReader" where
  "mmap_reader_new data chunk_start chunk_end =
     \<lparr>mm_data = data, mm_pos = chunk_start, mm_chunk_end = chunk_end\<rparr>"

definition mm_buffer :: "MmapChunkReader \<Rightarrow> byte list" where
  "mm_buffer r = drop (mm_pos r) (mm_data r)"

definition mm_set_buffer :: "byte list \<Rightarrow> MmapChunkReader \<Rightarrow> MmapChunkReader" where
  "mm_set_buffer bs r = r\<lparr>mm_data := take (mm_pos r) (mm_data r) @ bs\<rparr>"

definition mm_fill :: "nat \<Rightarrow> MmapChunkReader \<Rightarrow> (io_error + unit) \<times> MmapChunkReader" where
  "mm_fill n r = (Inr (), r)"

definition mm_consume :: "nat \<Rightarrow> MmapChunkReader \<Rightarrow> MmapChunkReader" where
  "mm_consume n r = r\<lparr>mm_pos := mm_pos r + n\<rparr>"

definition mm_remaining :: "MmapChunkReader \<Rightarrow> nat" where
  "mm_remaining r = mm_chunk_end r - mm_pos r"

definition mmap_reader_ops :: "MmapChunkReader reader_ops" where
  "mmap_reader_ops = \<lparr>r_buffer = mm_buffer, r_set_buffer = mm_set_buffer, r_fill = mm_fill,
     r_consume = mm_consume, r_remaining = mm_remaining\<rparr>"

definition mm_inv :: "MmapChunkReader \<Rightarrow> bool" where
  "mm_inv r \<longleftrightarrow> mm_pos r \<le> length (mm_data r)"

lemmas mm_defs = mmap_reader_ops_def mm_buffer_def mm_set_buffer_def mm_fill_def mm_consume_def
  mm_remaining_def mm_inv_def

interpretation mmap: memory_reader mmap_reader_ops mm_inv "\<lambda>_. []"
  by unfold_locales (auto simp: mm_defs add.commute)

section \<open>Byte sources\<close>

text \<open>\<open>std::io::Read\<close>: \<open>rd n s\<close> asks for at most \<open>n\<close> bytes. The laws are the documented ones:
  what is read is what the source holds next, nothing is read with an error, and an empty read of a
  non-empty request means the end of the source.\<close>

type_synonym 's read_fn = "nat \<Rightarrow> 's \<Rightarrow> (io_error + byte list) \<times> 's"

locale byte_source =
  fixes rd :: "'s read_fn" and content :: "'s \<Rightarrow> byte list" and sinv :: "'s \<Rightarrow> bool"
  assumes read_ok: "sinv s \<Longrightarrow> rd n s = (Inr bs, s') \<Longrightarrow>
      sinv s' \<and> content s = bs @ content s' \<and> length bs \<le> n \<and> (bs = [] \<longrightarrow> n = 0 \<or> content s = [])"
    and read_err: "sinv s \<Longrightarrow> rd n s = (Inl e, s') \<Longrightarrow> sinv s' \<and> content s' = content s"

text \<open>\<open>Cursor<&[u8]>\<close> of the standard library, the source of io/slice.rs.\<close>

record Cursor =
  cur_data :: "byte list"
  cur_pos :: nat

definition cursor_read :: "Cursor read_fn" where
  "cursor_read n c =
     (let bs = take n (drop (cur_pos c) (cur_data c))
      in (Inr bs, c\<lparr>cur_pos := cur_pos c + length bs\<rparr>))"

definition cursor_content :: "Cursor \<Rightarrow> byte list" where
  "cursor_content c = drop (cur_pos c) (cur_data c)"

interpretation cursor: byte_source cursor_read cursor_content "\<lambda>c. cur_data c = data" for data
proof unfold_locales
  fix n and s s' :: Cursor and bs e
  assume "cur_data s = data"
  show "cursor_read n s = (Inr bs, s') \<Longrightarrow> cur_data s' = data \<and>
      cursor_content s = bs @ cursor_content s' \<and> length bs \<le> n \<and>
      (bs = [] \<longrightarrow> n = 0 \<or> cursor_content s = [])"
    using \<open>cur_data s = data\<close> append_take_drop_id[of n "drop (cur_pos s) data"]
    by (auto simp: cursor_read_def cursor_content_def Let_def min_def add.commute)
  show "cursor_read n s = (Inl e, s') \<Longrightarrow> cur_data s' = data \<and> cursor_content s' = cursor_content s"
    by (simp add: cursor_read_def Let_def)
qed

section \<open>The ring-buffer reader\<close>

record ('b, 's) RingBufChunkReader =
  rb_buf :: 'b
  rb_src :: 's
  rb_file_remaining :: "nat option"
  rb_chunk_remaining :: nat
  rb_read_cap :: nat

definition ring_reader_new ::
    "'b \<Rightarrow> 's \<Rightarrow> nat option \<Rightarrow> nat \<Rightarrow> nat \<Rightarrow> ('b, 's) RingBufChunkReader" where
  "ring_reader_new buf src file_remaining chunk_remaining read_cap =
     \<lparr>rb_buf = buf, rb_src = src, rb_file_remaining = file_remaining,
      rb_chunk_remaining = chunk_remaining, rb_read_cap = read_cap\<rparr>"

definition read_into_buf ::
    "'b buf_ops \<Rightarrow> 's read_fn \<Rightarrow> ('b, 's) RingBufChunkReader
      \<Rightarrow> (io_error + nat) \<times> ('b, 's) RingBufChunkReader" where
  "read_into_buf B rd r =
     (let (writable, b) = op_unused_mut B (rb_buf r);
          cap = min (length writable) (rb_read_cap r);
          to_read = (case rb_file_remaining r of Some rem \<Rightarrow> min cap rem | None \<Rightarrow> cap)
      in if to_read = 0 then (Inr 0, r\<lparr>rb_buf := b\<rparr>)
         else (case rd to_read (rb_src r) of
             (Inl e, src) \<Rightarrow> (Inl e, r\<lparr>rb_buf := b, rb_src := src\<rparr>)
           | (Inr bs, src) \<Rightarrow>
               (Inr (length bs),
                r\<lparr>rb_buf := op_produce B (length bs) (op_write_unused B bs b), rb_src := src,
                  rb_file_remaining := map_option (\<lambda>rem. rem - length bs) (rb_file_remaining r)\<rparr>)))"

text \<open>\<open>if self.buf.writable() == 0 { self.buf.grow()?; }\<close>\<close>

definition grow_if_full ::
    "'b buf_ops \<Rightarrow> ('b, 's) RingBufChunkReader \<Rightarrow> (io_error + unit) \<times> ('b, 's) RingBufChunkReader" where
  "grow_if_full B r =
     (if op_writable B (rb_buf r) = 0
      then (let (res, b) = op_grow B (rb_buf r) in (res, r\<lparr>rb_buf := b\<rparr>))
      else (Inr (), r))"

text \<open>The loop of \<open>fill\<close>. Every round that goes on has read at least one byte, so \<open>n\<close> rounds
  are enough for a request of \<open>n\<close> (lemma \<open>fill_loop_ok\<close>).\<close>

fun fill_loop ::
    "'b buf_ops \<Rightarrow> 's read_fn \<Rightarrow> nat \<Rightarrow> nat \<Rightarrow> ('b, 's) RingBufChunkReader
      \<Rightarrow> (io_error + unit) \<times> ('b, 's) RingBufChunkReader" where
  "fill_loop B rd 0 n r = (Inr (), r)"
| "fill_loop B rd (Suc fuel) n r =
     (if op_readable B (rb_buf r) < n \<and> (case rb_file_remaining r of None \<Rightarrow> True | Some k \<Rightarrow> 0 < k)
      then (case grow_if_full B r of
          (Inl e, r1) \<Rightarrow> (Inl e, r1)
        | (Inr _, r1) \<Rightarrow> (case read_into_buf B rd r1 of
              (Inl e, r2) \<Rightarrow> (Inl e, r2)
            | (Inr k, r2) \<Rightarrow> if k = 0 then (Inr (), r2) else fill_loop B rd fuel n r2))
      else (Inr (), r))"

definition ring_fill ::
    "'b buf_ops \<Rightarrow> 's read_fn \<Rightarrow> nat \<Rightarrow> ('b, 's) RingBufChunkReader
      \<Rightarrow> (io_error + unit) \<times> ('b, 's) RingBufChunkReader" where
  "ring_fill B rd n r = fill_loop B rd n n r"

definition ring_consume :: "'b buf_ops \<Rightarrow> nat \<Rightarrow> ('b, 's) RingBufChunkReader \<Rightarrow> ('b, 's) RingBufChunkReader" where
  "ring_consume B n r =
     r\<lparr>rb_chunk_remaining := rb_chunk_remaining r - n, rb_buf := op_consume B n (rb_buf r)\<rparr>"

definition ring_reader_ops ::
    "'b buf_ops \<Rightarrow> 's read_fn \<Rightarrow> ('b, 's) RingBufChunkReader reader_ops" where
  "ring_reader_ops B rd = \<lparr>
     r_buffer = (\<lambda>r. op_data B (rb_buf r)),
     r_set_buffer = (\<lambda>bs r. r\<lparr>rb_buf := op_set_data B bs (rb_buf r)\<rparr>),
     r_fill = ring_fill B rd,
     r_consume = ring_consume B,
     r_remaining = rb_chunk_remaining\<rparr>"

definition ring_inv :: "('b \<Rightarrow> bool) \<Rightarrow> ('s \<Rightarrow> bool) \<Rightarrow> ('b, 's) RingBufChunkReader \<Rightarrow> bool" where
  "ring_inv binv sinv r \<longleftrightarrow> binv (rb_buf r) \<and> sinv (rb_src r) \<and> 0 < rb_read_cap r"

definition ring_unread :: "('s \<Rightarrow> byte list) \<Rightarrow> ('b, 's) RingBufChunkReader \<Rightarrow> byte list" where
  "ring_unread content r = (case rb_file_remaining r of
       None \<Rightarrow> content (rb_src r) | Some k \<Rightarrow> take k (content (rb_src r)))"

lemma ring_unread_cong:
  "rb_file_remaining r' = rb_file_remaining r \<Longrightarrow> content (rb_src r') = content (rb_src r) \<Longrightarrow>
    ring_unread content r' = ring_unread content r"
  by (cases "rb_file_remaining r") (simp_all add: ring_unread_def)

lemma ring_unread_buf [simp]: "ring_unread content (r\<lparr>rb_buf := b\<rparr>) = ring_unread content r"
  by (rule ring_unread_cong) simp_all

locale ring_reader = byte_buffer B binv + byte_source rd content sinv
  for B :: "'b buf_ops" and binv and rd :: "'s read_fn" and content and sinv
begin

lemma read_into_buf_ok:
  assumes inv: "ring_inv binv sinv r" and res: "read_into_buf B rd r = (out, r')"
  shows "ring_inv binv sinv r' \<and> rb_chunk_remaining r' = rb_chunk_remaining r \<and>
    (\<exists>more. op_data B (rb_buf r') = op_data B (rb_buf r) @ more \<and>
      ring_unread content r = more @ ring_unread content r' \<and>
      (\<forall>k. out = Inr k \<longrightarrow> k = length more \<and>
        (k = 0 \<longrightarrow> op_writable B (rb_buf r) = 0 \<or> ring_unread content r' = [])))"
proof -
  obtain sl b where u: "op_unused_mut B (rb_buf r) = (sl, b)" by fastforce
  define cap where "cap = min (length sl) (rb_read_cap r)"
  define to_read where
    "to_read = (case rb_file_remaining r of Some rem \<Rightarrow> min cap rem | None \<Rightarrow> cap)"
  from inv have b: "binv (rb_buf r)" and s: "sinv (rb_src r)" and c: "0 < rb_read_cap r"
    by (auto simp: ring_inv_def)
  note um = unused_mut[OF b u]
  have res': "read_into_buf B rd r = (if to_read = 0 then (Inr 0, r\<lparr>rb_buf := b\<rparr>)
      else (case rd to_read (rb_src r) of
          (Inl e, src) \<Rightarrow> (Inl e, r\<lparr>rb_buf := b, rb_src := src\<rparr>)
        | (Inr bs, src) \<Rightarrow>
            (Inr (length bs),
             r\<lparr>rb_buf := op_produce B (length bs) (op_write_unused B bs b), rb_src := src,
               rb_file_remaining := map_option (\<lambda>rem. rem - length bs) (rb_file_remaining r)\<rparr>)))"
    unfolding read_into_buf_def u to_read_def cap_def Let_def prod.case ..
  show ?thesis
  proof (cases "to_read = 0")
    case True
    then have "op_writable B (rb_buf r) = 0 \<or> ring_unread content r = []"
      using um c by (auto simp: to_read_def cap_def ring_unread_def min_def split: option.splits if_splits)
    with True res res' um s c show ?thesis
      by (intro conjI exI[of _ "[]"]) (auto simp: ring_inv_def)
  next
    case False
    obtain o2 src where rd: "rd to_read (rb_src r) = (o2, src)" by fastforce
    show ?thesis
    proof (cases o2)
      case (Inl e)
      with False res res' um rd c read_err[OF s rd[unfolded Inl]] show ?thesis
        by (intro conjI exI[of _ "[]"]) (auto simp: ring_inv_def intro!: ring_unread_cong)
    next
      case (Inr bs)
      note ro = read_ok[OF s rd[unfolded Inr]]
      have fit: "length bs \<le> op_writable B (rb_buf r)" "\<forall>k. rb_file_remaining r = Some k \<longrightarrow> length bs \<le> k"
        using ro um by (auto simp: to_read_def cap_def split: option.splits)
      note pr = produce[OF b u fit(1) refl]
      have "ring_unread content r = bs @ ring_unread content r'"
        using False res res' rd Inr ro fit(2)
        by (auto simp: ring_unread_def split: option.splits)
      with False res res' rd Inr ro pr c show ?thesis
        by (intro conjI exI[of _ bs]) (auto simp: ring_inv_def ring_unread_def split: option.splits)
    qed
  qed
qed

lemma grow_if_full_ok:
  assumes inv: "ring_inv binv sinv r" and res: "grow_if_full B r = (out, r')"
  shows "ring_inv binv sinv r' \<and> rb_chunk_remaining r' = rb_chunk_remaining r \<and>
    op_data B (rb_buf r') = op_data B (rb_buf r) \<and> ring_unread content r' = ring_unread content r \<and>
    rb_file_remaining r' = rb_file_remaining r \<and> (out = Inr () \<longrightarrow> 0 < op_writable B (rb_buf r'))"
proof (cases "op_writable B (rb_buf r) = 0")
  case True
  obtain g b where g: "op_grow B (rb_buf r) = (g, b)" by fastforce
  from inv have b: "binv (rb_buf r)" by (simp add: ring_inv_def)
  show ?thesis
    using True res inv grow[OF b g] grow_makes_room[OF b] g
    by (auto simp: grow_if_full_def ring_inv_def)
next
  case False
  with res inv show ?thesis by (auto simp: grow_if_full_def)
qed

text \<open>The postcondition of \<open>fill\<close>, for any fuel; with the fuel \<open>ring_fill\<close> passes, the request is met
  or the source is exhausted.\<close>

lemma fill_loop_ok:
  assumes "ring_inv binv sinv r" and "fill_loop B rd fuel n r = (out, r')"
  shows "ring_inv binv sinv r' \<and> rb_chunk_remaining r' = rb_chunk_remaining r \<and>
    (\<exists>more. op_data B (rb_buf r') = op_data B (rb_buf r) @ more \<and>
      ring_unread content r = more @ ring_unread content r') \<and>
    (out = Inr () \<longrightarrow> n \<le> length (op_data B (rb_buf r)) + fuel \<longrightarrow>
      n \<le> length (op_data B (rb_buf r')) \<or> ring_unread content r' = [])"
  using assms
proof (induction fuel arbitrary: r)
  case 0
  then show ?case by auto
next
  case (Suc fuel)
  from Suc.prems(1) have b: "binv (rb_buf r)" by (simp add: ring_inv_def)
  show ?case
  proof (cases "op_readable B (rb_buf r) < n \<and> (case rb_file_remaining r of None \<Rightarrow> True | Some k \<Rightarrow> 0 < k)")
    case False
    then have "n \<le> length (op_data B (rb_buf r)) \<or> ring_unread content r = []"
      using readable_len[OF b] by (auto simp: ring_unread_def split: option.splits)
    with False Suc.prems show ?thesis by auto
  next
    case go: True
    obtain o1 r1 where g: "grow_if_full B r = (o1, r1)" by fastforce
    note g_ok = grow_if_full_ok[OF Suc.prems(1) g]
    show ?thesis
    proof (cases o1)
      case (Inl e)
      with go g g_ok Suc.prems(2) show ?thesis by auto
    next
      case (Inr u)
      obtain o2 r2 where rd: "read_into_buf B rd r1 = (o2, r2)" by fastforce
      note rd_ok = read_into_buf_ok[OF g_ok[THEN conjunct1] rd]
      then obtain more where more: "op_data B (rb_buf r2) = op_data B (rb_buf r) @ more"
        "ring_unread content r = more @ ring_unread content r2"
        "\<And>k. o2 = Inr k \<Longrightarrow> k = length more \<and> (k = 0 \<longrightarrow> op_writable B (rb_buf r1) = 0 \<or> ring_unread content r2 = [])"
        using g_ok by auto
      show ?thesis
      proof (cases o2)
        case (Inl e)
        with go g Inr rd rd_ok g_ok more Suc.prems(2) show ?thesis by auto
      next
        case o2: (Inr k)
        show ?thesis
        proof (cases "k = 0")
          case True
          with go g Inr rd rd_ok g_ok more o2 Suc.prems(2) show ?thesis by auto
        next
          case False
          with go g Inr rd o2 Suc.prems(2) have rest: "fill_loop B rd fuel n r2 = (out, r')" by simp
          from more(3)[OF o2] False have "n \<le> length (op_data B (rb_buf r)) + Suc fuel \<Longrightarrow>
              n \<le> length (op_data B (rb_buf r2)) + fuel"
            unfolding more(1) by (cases "length more") auto
          with Suc.IH[OF rd_ok[THEN conjunct1] rest] rd_ok g_ok more(1,2) show ?thesis by auto
        qed
      qed
    qed
  qed
qed

lemma ring_fill_ok:
  assumes "ring_inv binv sinv r" and "ring_fill B rd n r = (out, r')"
  shows "ring_inv binv sinv r' \<and> rb_chunk_remaining r' = rb_chunk_remaining r \<and>
    (\<exists>more. op_data B (rb_buf r') = op_data B (rb_buf r) @ more \<and>
      ring_unread content r = more @ ring_unread content r') \<and>
    (out = Inr () \<longrightarrow> n \<le> length (op_data B (rb_buf r')) \<or> ring_unread content r' = [])"
  using fill_loop_ok[OF assms(1) assms(2)[unfolded ring_fill_def]] by auto

end

sublocale ring_reader \<subseteq> reader: chunk_reader "ring_reader_ops B rd" "ring_inv binv sinv" "ring_unread content"
proof unfold_locales
  fix r r' n res bs
  assume inv: "ring_inv binv sinv r"
  then have b: "binv (rb_buf r)" by (simp add: ring_inv_def)
  show "r_fill (ring_reader_ops B rd) n r = (res, r') \<Longrightarrow>
      ring_inv binv sinv r' \<and>
      r_remaining (ring_reader_ops B rd) r' = r_remaining (ring_reader_ops B rd) r \<and>
      (\<exists>more. r_buffer (ring_reader_ops B rd) r' = r_buffer (ring_reader_ops B rd) r @ more \<and>
        ring_unread content r = more @ ring_unread content r')"
    using ring_fill_ok[OF inv] by (simp add: ring_reader_ops_def)
  show "r_fill (ring_reader_ops B rd) n r = (Inr (), r') \<Longrightarrow>
      n \<le> length (r_buffer (ring_reader_ops B rd) r') \<or> ring_unread content r' = []"
    using ring_fill_ok[OF inv] by (simp add: ring_reader_ops_def)
  show "length bs = length (r_buffer (ring_reader_ops B rd) r) \<Longrightarrow>
      ring_inv binv sinv (r_set_buffer (ring_reader_ops B rd) bs r) \<and>
      r_buffer (ring_reader_ops B rd) (r_set_buffer (ring_reader_ops B rd) bs r) = bs \<and>
      ring_unread content (r_set_buffer (ring_reader_ops B rd) bs r) = ring_unread content r \<and>
      r_remaining (ring_reader_ops B rd) (r_set_buffer (ring_reader_ops B rd) bs r) =
        r_remaining (ring_reader_ops B rd) r"
    using set_data[OF b] inv by (auto simp: ring_reader_ops_def ring_inv_def)
  show "n \<le> length (r_buffer (ring_reader_ops B rd) r) \<Longrightarrow>
      ring_inv binv sinv (r_consume (ring_reader_ops B rd) n r) \<and>
      r_buffer (ring_reader_ops B rd) (r_consume (ring_reader_ops B rd) n r) =
        drop n (r_buffer (ring_reader_ops B rd) r) \<and>
      ring_unread content (r_consume (ring_reader_ops B rd) n r) = ring_unread content r \<and>
      r_remaining (ring_reader_ops B rd) (r_consume (ring_reader_ops B rd) n r) =
        r_remaining (ring_reader_ops B rd) r - n"
    using consume[OF b] readable_len[OF b] inv
    by (auto simp: ring_reader_ops_def ring_inv_def ring_consume_def intro!: ring_unread_cong)
qed

text \<open>Slices through either buffer (io/slice.rs).\<close>

interpretation mirrored_slice: ring_reader "mirrored_ops g os" "mirrored_inv g" cursor_read cursor_content
    "\<lambda>c. cur_data c = data" for g os data
  by unfold_locales

interpretation linear_slice: ring_reader "linear_ops g" linear_inv cursor_read cursor_content
    "\<lambda>c. cur_data c = data" for g data
  by unfold_locales

end
