(* ===== verification/IoContexts.thy ===== *)
theory IoContexts
  imports Readers
begin

text \<open>
  The per-thread I/O contexts of src/src/io/: \<open>io_ops\<close> is the trait \<open>IoContext\<close> (the reader of a chunk
  and, when its borrow ends, the context it leaves behind), the locale \<open>io_context\<close> what the scheduler
  relies on: a reader opened at \<open>chunk_start\<close> sees the unmodified input from there to its end,
  whatever an earlier pass rewrote in place. The contexts are \<open>MmapIo\<close>, \<open>InMemoryIo\<close>,
  \<open>RingBufIo\<close> and \<open>SliceIo\<close>.
\<close>

section \<open>The interface\<close>

text \<open>\<open>io_open\<close> is \<open>chunk_reader\<close>; \<open>None\<close> is a panic (a failed assertion).\<close>

record ('c, 'r) io_ops =
  io_reader :: "'r reader_ops"
  io_open :: "nat \<Rightarrow> nat \<Rightarrow> 'c \<Rightarrow> (io_error + 'r) option"
  io_release :: "'c \<Rightarrow> 'r \<Rightarrow> 'c"

locale io_context = chunk_reader "io_reader X" rinv unread
  for X :: "('c, 'r) io_ops" and rinv and unread +
  fixes cinv :: "'c \<Rightarrow> bool" and input :: "byte list"
  assumes open_ok: "cinv c \<Longrightarrow> s \<le> e \<Longrightarrow> e \<le> length input \<Longrightarrow> io_open X s e c = Some (Inr r) \<Longrightarrow>
      rinv r \<and> r_buffer (io_reader X) r @ unread r = drop s input \<and> r_remaining (io_reader X) r = e - s"
    and open_safe: "cinv c \<Longrightarrow> s \<le> e \<Longrightarrow> e \<le> length input \<Longrightarrow> io_open X s e c \<noteq> None"
    and release_ok: "cinv c \<Longrightarrow> rinv r \<Longrightarrow> cinv (io_release X c r)"
begin

text \<open>However the reader of one pass was used, the next pass opens on the same bytes.\<close>

lemma reopen_fresh:
  assumes "cinv c" and "rinv r" and "s \<le> e" and "e \<le> length input"
    and "io_open X s e (io_release X c r) = Some (Inr r')"
  shows "stream r' = drop s input \<and> r_remaining (io_reader X) r' = e - s"
  using open_ok[OF release_ok[OF assms(1,2)] assms(3-5)] by (simp add: stream_def)

end

section \<open>Memory-mapped files\<close>

text \<open>\<open>MmapFile\<close>: what the file holds and what the private mapping shows. \<open>madvise\<close> (or the re-map
  elsewhere) is the answer of the operating system; on success the mapping shows the file again.\<close>

record MmapFile =
  mf_file :: "byte list"
  mf_view :: "byte list"

definition mmap_open :: "(nat \<Rightarrow> io_error + unit) \<Rightarrow> byte list \<Rightarrow> io_error + MmapFile" where
  "mmap_open os input =
     (if length input = 0 then Inr \<lparr>mf_file = [], mf_view = []\<rparr>
      else try_bind (os (length input)) (\<lambda>_. Inr \<lparr>mf_file = input, mf_view = input\<rparr>))"

definition mmap_reset :: "io_error + unit \<Rightarrow> MmapFile \<Rightarrow> io_error + MmapFile" where
  "mmap_reset madvise m =
     (if mf_file m = [] then Inr m
      else try_bind madvise (\<lambda>_. Inr (m\<lparr>mf_view := mf_file m\<rparr>)))"

definition mmap_chunk_reader :: "nat \<Rightarrow> nat \<Rightarrow> MmapFile \<Rightarrow> MmapChunkReader option" where
  "mmap_chunk_reader chunk_start chunk_end m =
     (if chunk_start \<le> chunk_end \<and> chunk_end \<le> length (mf_file m)
      then Some (mmap_reader_new (mf_view m) chunk_start chunk_end) else None)"

definition mmap_io_open ::
    "io_error + unit \<Rightarrow> nat \<Rightarrow> nat \<Rightarrow> MmapFile \<Rightarrow> (io_error + MmapChunkReader) option" where
  "mmap_io_open madvise s e m = (case mmap_reset madvise m of
       Inl err \<Rightarrow> Some (Inl err)
     | Inr m' \<Rightarrow> map_option Inr (mmap_chunk_reader s e m'))"

text \<open>The mapping's view is the reader's data: its writes stay behind in the private pages.\<close>

definition mmap_io_ops :: "io_error + unit \<Rightarrow> (MmapFile, MmapChunkReader) io_ops" where
  "mmap_io_ops madvise = \<lparr>
     io_reader = mmap_reader_ops,
     io_open = mmap_io_open madvise,
     io_release = (\<lambda>m r. m\<lparr>mf_view := (if mf_file m = [] then [] else mm_data r)\<rparr>)\<rparr>"

definition mmap_inv :: "byte list \<Rightarrow> MmapFile \<Rightarrow> bool" where
  "mmap_inv input m \<longleftrightarrow> mf_file m = input \<and> (input = [] \<longrightarrow> mf_view m = [])"

interpretation mmap_io: io_context "mmap_io_ops madvise" mm_inv "\<lambda>_. []" "mmap_inv input" input
  for madvise input
proof -
  have reader: "chunk_reader (io_reader (mmap_io_ops madvise)) mm_inv (\<lambda>_. [])"
    using mmap.chunk_reader_axioms by (simp add: mmap_io_ops_def)
  show "io_context (mmap_io_ops madvise) mm_inv (\<lambda>_. []) (mmap_inv input) input"
    by (intro io_context.intro reader io_context_axioms.intro)
      (auto simp: mmap_io_ops_def mmap_io_open_def mmap_reset_def mmap_chunk_reader_def mmap_inv_def
        mmap_reader_new_def mm_defs result_simps split: sum.splits if_splits option.splits)
qed

section \<open>Seekable sources\<close>

text \<open>\<open>std::io::Seek\<close> to an absolute position, for a file whose content does not change.\<close>

locale seekable_source = byte_source rd content sinv
  for rd :: "'s read_fn" and content and sinv +
  fixes seek :: "nat \<Rightarrow> 's \<Rightarrow> io_error + 's" and input :: "byte list"
  assumes seek_ok: "sinv s \<Longrightarrow> seek p s = Inr s' \<Longrightarrow> sinv s' \<and> content s' = drop p input"

definition cursor_seek :: "nat \<Rightarrow> Cursor \<Rightarrow> io_error + Cursor" where
  "cursor_seek p c = Inr (c\<lparr>cur_pos := p\<rparr>)"

interpretation cursor_seekable: seekable_source cursor_read cursor_content "\<lambda>c. cur_data c = data"
    cursor_seek data for data
  by unfold_locales (auto simp: cursor_seek_def cursor_content_def)

section \<open>Ring-buffer contexts\<close>

text \<open>\<open>RingBufIo\<close> over a file and \<open>SliceIo\<close> over a \<open>Cursor\<close>: reset the buffer, seek, and hand out
  a reader of the rest of the input.\<close>

record ('b, 's) RingBufIo =
  ri_buf :: 'b
  ri_src :: 's
  ri_file_size :: nat
  ri_read_cap :: nat

definition ring_io_new ::
    "'b buf_ops \<Rightarrow> 's \<Rightarrow> nat \<Rightarrow> RingBufSettings \<Rightarrow> io_error + ('b, 's) RingBufIo" where
  "ring_io_new B src file_size settings =
     try_bind (op_new B (buffer_size settings) (buffer_limit settings)) (\<lambda>buf.
       Inr \<lparr>ri_buf = buf, ri_src = src, ri_file_size = file_size,
            ri_read_cap = buffer_size settings\<rparr>)"

definition ring_io_open ::
    "'b buf_ops \<Rightarrow> (nat \<Rightarrow> 's \<Rightarrow> io_error + 's) \<Rightarrow> nat \<Rightarrow> nat \<Rightarrow> ('b, 's) RingBufIo
      \<Rightarrow> (io_error + ('b, 's) RingBufChunkReader) option" where
  "ring_io_open B seek s e c =
     Some (try_bind (seek s (ri_src c)) (\<lambda>src.
       Inr (ring_reader_new (op_reset B (ri_buf c)) src (Some (ri_file_size c - s)) (e - s)
              (ri_read_cap c))))"

definition ring_io_ops ::
    "'b buf_ops \<Rightarrow> 's read_fn \<Rightarrow> (nat \<Rightarrow> 's \<Rightarrow> io_error + 's)
      \<Rightarrow> (('b, 's) RingBufIo, ('b, 's) RingBufChunkReader) io_ops" where
  "ring_io_ops B rd seek = \<lparr>
     io_reader = ring_reader_ops B rd,
     io_open = ring_io_open B seek,
     io_release = (\<lambda>c r. c\<lparr>ri_buf := rb_buf r, ri_src := rb_src r\<rparr>)\<rparr>"

definition ring_io_inv ::
    "('b \<Rightarrow> bool) \<Rightarrow> ('s \<Rightarrow> bool) \<Rightarrow> byte list \<Rightarrow> ('b, 's) RingBufIo \<Rightarrow> bool" where
  "ring_io_inv binv sinv input c \<longleftrightarrow>
     binv (ri_buf c) \<and> sinv (ri_src c) \<and> ri_file_size c = length input \<and> 0 < ri_read_cap c"

locale ring_io = ring_reader B binv rd content sinv + seekable_source rd content sinv seek input
  for B :: "'b buf_ops" and binv and rd :: "'s read_fn" and content and sinv and seek and input

sublocale ring_io \<subseteq> io: io_context "ring_io_ops B rd seek" "ring_inv binv sinv" "ring_unread content"
    "ring_io_inv binv sinv input" input
proof -
  have reader: "chunk_reader (io_reader (ring_io_ops B rd seek)) (ring_inv binv sinv) (ring_unread content)"
    using reader.chunk_reader_axioms by (simp add: ring_io_ops_def)
  show "io_context (ring_io_ops B rd seek) (ring_inv binv sinv) (ring_unread content)
      (ring_io_inv binv sinv input) input"
  proof (intro io_context.intro reader io_context_axioms.intro)
    fix c s e r
    assume inv: "ring_io_inv binv sinv input c"
    show "io_open (ring_io_ops B rd seek) s e c \<noteq> None"
      by (simp add: ring_io_ops_def ring_io_open_def)
    show "ring_io_inv binv sinv input (io_release (ring_io_ops B rd seek) c r)"
      if "ring_inv binv sinv r"
      using inv that by (simp add: ring_io_ops_def ring_io_inv_def ring_inv_def)
    assume se: "s \<le> e" "e \<le> length input" and o: "io_open (ring_io_ops B rd seek) s e c = Some (Inr r)"
    from o obtain src where src: "seek s (ri_src c) = Inr src"
      and r: "r = ring_reader_new (op_reset B (ri_buf c)) src (Some (ri_file_size c - s)) (e - s)
        (ri_read_cap c)"
      by (auto simp: ring_io_ops_def ring_io_open_def result_simps)
    from inv have b: "binv (ri_buf c)" and s: "sinv (ri_src c)" by (auto simp: ring_io_inv_def)
    from reset[OF b] seek_ok[OF s src] inv se show
      "ring_inv binv sinv r \<and>
        r_buffer (io_reader (ring_io_ops B rd seek)) r @ ring_unread content r = drop s input \<and>
        r_remaining (io_reader (ring_io_ops B rd seek)) r = e - s"
      by (simp add: r ring_reader_new_def ring_inv_def ring_io_inv_def ring_io_ops_def
          ring_reader_ops_def ring_unread_def)
  qed
qed

text \<open>\<open>SliceIo\<close>: the cursor's \<open>set_position\<close> cannot fail.\<close>

definition slice_io_new ::
    "'b buf_ops \<Rightarrow> byte list \<Rightarrow> RingBufSettings \<Rightarrow> io_error + ('b, Cursor) RingBufIo" where
  "slice_io_new B data settings =
     ring_io_new B \<lparr>cur_data = data, cur_pos = 0\<rparr> (length data) settings"

definition slice_io_ops :: "'b buf_ops \<Rightarrow> (('b, Cursor) RingBufIo, ('b, Cursor) RingBufChunkReader) io_ops" where
  "slice_io_ops B = ring_io_ops B cursor_read cursor_seek"

interpretation mirrored_slice_io: ring_io "mirrored_ops g os" "mirrored_inv g" cursor_read cursor_content
    "\<lambda>c. cur_data c = data" cursor_seek data for g os data
  by unfold_locales

interpretation linear_slice_io: ring_io "linear_ops g" linear_inv cursor_read cursor_content
    "\<lambda>c. cur_data c = data" cursor_seek data for g data
  by unfold_locales

section \<open>The in-memory context\<close>

text \<open>\<open>take(limit).read_to_end\<close> of the standard library: read until the limit or the end of the source.
  Every round but the last reads a byte, so \<open>limit\<close> rounds are enough.\<close>

fun read_to_end :: "'s read_fn \<Rightarrow> nat \<Rightarrow> nat \<Rightarrow> 's \<Rightarrow> (io_error + byte list) \<times> 's" where
  "read_to_end rd 0 limit s = (Inr [], s)"
| "read_to_end rd (Suc fuel) limit s =
     (if limit = 0 then (Inr [], s)
      else (case rd limit s of
          (Inl e, s') \<Rightarrow> (Inl e, s')
        | (Inr bs, s') \<Rightarrow>
            if bs = [] then (Inr [], s')
            else (case read_to_end rd fuel (limit - length bs) s' of
                (Inl e, s'') \<Rightarrow> (Inl e, s'')
              | (Inr rest, s'') \<Rightarrow> (Inr (bs @ rest), s''))))"

record 's InMemoryIo =
  mi_src :: 's
  mi_file_size :: nat
  mi_data :: "byte list"

definition in_memory_io_new :: "'s \<Rightarrow> nat \<Rightarrow> 's InMemoryIo" where
  "in_memory_io_new src file_size = \<lparr>mi_src = src, mi_file_size = file_size, mi_data = []\<rparr>"

definition in_memory_io_open ::
    "'s read_fn \<Rightarrow> (nat \<Rightarrow> 's \<Rightarrow> io_error + 's) \<Rightarrow> nat \<Rightarrow> nat \<Rightarrow> 's InMemoryIo
      \<Rightarrow> (io_error + InMemoryChunkReader) option" where
  "in_memory_io_open rd seek s e c =
     Some (try_bind (seek s (mi_src c)) (\<lambda>src.
       (let tail = mi_file_size c - s
        in try_bind (fst (read_to_end rd tail tail src)) (\<lambda>data.
             Inr (in_memory_new data (min (e - s) (length data)))))))"

text \<open>The source's position is left behind too, but every reader seeks first, so only the data is
  put back.\<close>

definition in_memory_io_ops ::
    "'s read_fn \<Rightarrow> (nat \<Rightarrow> 's \<Rightarrow> io_error + 's) \<Rightarrow> ('s InMemoryIo, InMemoryChunkReader) io_ops" where
  "in_memory_io_ops rd seek = \<lparr>
     io_reader = in_memory_ops,
     io_open = in_memory_io_open rd seek,
     io_release = (\<lambda>c r. c\<lparr>mi_data := im_data r\<rparr>)\<rparr>"

definition in_memory_io_inv :: "('s \<Rightarrow> bool) \<Rightarrow> byte list \<Rightarrow> 's InMemoryIo \<Rightarrow> bool" where
  "in_memory_io_inv sinv input c \<longleftrightarrow> sinv (mi_src c) \<and> mi_file_size c = length input"

context byte_source
begin

lemma read_to_end_ok:
  "sinv s \<Longrightarrow> limit \<le> fuel \<Longrightarrow> read_to_end rd fuel limit s = (Inr bs, s') \<Longrightarrow>
    bs = take limit (content s)"
proof (induction fuel arbitrary: limit s bs)
  case 0
  then show ?case by simp
next
  case (Suc fuel)
  show ?case
  proof (cases "limit = 0")
    case True
    with Suc.prems show ?thesis by simp
  next
    case False
    with Suc.prems(3) obtain xs s1 where rd: "rd limit s = (Inr xs, s1)"
      by (auto split: prod.splits sum.splits)
    note ro = read_ok[OF Suc.prems(1) rd]
    show ?thesis
    proof (cases "xs = []")
      case True
      with False ro rd Suc.prems(3) show ?thesis by auto
    next
      case xs: False
      with False rd Suc.prems(3) obtain rest where
        rest: "read_to_end rd fuel (limit - length xs) s1 = (Inr rest, s')" and bs: "bs = xs @ rest"
        by (auto split: prod.splits sum.splits)
      from xs have "0 < length xs" by simp
      with Suc.prems(2) ro have "limit - length xs \<le> fuel" by linarith
      with Suc.IH[OF _ this rest] ro show ?thesis by (simp add: bs)
    qed
  qed
qed

end

sublocale seekable_source \<subseteq> memory_io: io_context "in_memory_io_ops rd seek" im_inv "\<lambda>_. []"
    "in_memory_io_inv sinv input" input
proof -
  have reader: "chunk_reader (io_reader (in_memory_io_ops rd seek)) im_inv (\<lambda>_. [])"
    using in_memory.chunk_reader_axioms by (simp add: in_memory_io_ops_def)
  show "io_context (in_memory_io_ops rd seek) im_inv (\<lambda>_. []) (in_memory_io_inv sinv input) input"
  proof (intro io_context.intro reader io_context_axioms.intro)
    fix c s e r
    assume inv: "in_memory_io_inv sinv input c"
    show "io_open (in_memory_io_ops rd seek) s e c \<noteq> None"
      by (simp add: in_memory_io_ops_def in_memory_io_open_def)
    show "in_memory_io_inv sinv input (io_release (in_memory_io_ops rd seek) c r)"
      using inv by (simp add: in_memory_io_ops_def in_memory_io_inv_def)
    assume se: "s \<le> e" "e \<le> length input"
      and o: "io_open (in_memory_io_ops rd seek) s e c = Some (Inr r)"
    let ?tail = "length input - s"
    from o inv obtain src data where src: "seek s (mi_src c) = Inr src"
      and d': "fst (read_to_end rd ?tail ?tail src) = Inr data"
      and r: "r = in_memory_new data (min (e - s) (length data))"
      by (auto simp: in_memory_io_ops_def in_memory_io_open_def in_memory_io_inv_def Let_def result_simps)
    from d' obtain s' where d: "read_to_end rd ?tail ?tail src = (Inr data, s')"
      by (metis prod.collapse)
    from inv have "sinv (mi_src c)" by (simp add: in_memory_io_inv_def)
    from seek_ok[OF this src] read_to_end_ok[OF _ _ d] have "data = drop s input" by simp
    with se show "im_inv r \<and> r_buffer (io_reader (in_memory_io_ops rd seek)) r @ [] = drop s input \<and>
        r_remaining (io_reader (in_memory_io_ops rd seek)) r = e - s"
      by (simp add: r in_memory_new_def in_memory_io_ops_def im_defs)
  qed
qed

end
