(* ===== verification/Driver.thy ===== *)
theory Driver
  imports Reference IoContexts
begin

text \<open>
  src/src/parser/driver.rs: the buffer-management loop shared by all chunk parsers. It is generic in the
  reader, the output type and the stepper. The locale \<open>chunk_stepper\<close> states the trait
  \<open>ChunkStepper\<close> as a simulation of the reference machine, and \<open>lagging_stepper\<close> a weaker form of it for
  steppers that hold back what they have scanned; inside \<open>lagging_driver\<close> the loop is shown
  to return, whatever windows the reader and the validator cut the input into, what the reference machine
  returns on the whole input.
\<close>

section \<open>The stepper interface\<close>

record StepCtx =
  ctx_buf :: "byte list"
  scan_start :: nat
  scan_end :: nat
  remaining_in_chunk :: nat
  total_consumed :: nat

datatype 'u StepResult =
    Suspended nat nat "nat option"
  | Done nat
  | StepError "'u Error"

text \<open>\<open>step\<close> returns its result with the rewritten buffer, the accumulator's state and itself.\<close>

record ('st, 's, 'u) stepper_ops =
  st_step :: "('s, 'u) accumulator \<Rightarrow> StepCtx \<Rightarrow> 's \<Rightarrow> 'st
    \<Rightarrow> 'u StepResult \<times> byte list \<times> 's \<times> 'st"
  st_consume :: "nat \<Rightarrow> 'st \<Rightarrow> 'st"
  st_finalize :: "('s, 'u) accumulator \<Rightarrow> StepCtx \<Rightarrow> 's \<Rightarrow> 'st \<Rightarrow> 'u Error + nat option \<times> 's"

section \<open>The driver\<close>

definition VALIDATE_WINDOW :: nat where
  "VALIDATE_WINDOW = 128 * 1024"

record DriverState =
  validated :: nat
  resume_at :: nat
  d_total_consumed :: nat

definition driver_new :: "nat \<Rightarrow> DriverState" where
  "driver_new start_offset = \<lparr>validated = 0, resume_at = 0, d_total_consumed = start_offset\<rparr>"

definition validate_fresh ::
    "(byte list \<Rightarrow> nat + nat) \<Rightarrow> byte list \<Rightarrow> DriverState \<Rightarrow> 'u Error + DriverState" where
  "validate_fresh V buf d =
     (let window_end = min (length buf) (validated d + 4 + VALIDATE_WINDOW)
      in if window_end \<le> validated d then Inr d
         else (case V (subslice buf (validated d) window_end) of
             Inr n \<Rightarrow> Inr (d\<lparr>validated := validated d + n\<rparr>)
           | Inl rel \<Rightarrow> Inl (Utf8 (at_byte (d_total_consumed d + validated d + rel)))))"

definition driver_ctx :: "'r reader_ops \<Rightarrow> DriverState \<Rightarrow> 'r \<Rightarrow> StepCtx" where
  "driver_ctx R d r =
     \<lparr>ctx_buf = r_buffer R r, scan_start = resume_at d, scan_end = validated d,
      remaining_in_chunk = r_remaining R r, total_consumed = d_total_consumed d\<rparr>"

text \<open>What follows the loop: the check of the unvalidated tail, and the flush of a partial record.\<close>

definition driver_finish ::
    "'r reader_ops \<Rightarrow> ('st, 's, 'u) stepper_ops \<Rightarrow> ('s, 'u) accumulator \<Rightarrow> DriverState \<Rightarrow> nat option
      \<Rightarrow> 'r \<Rightarrow> 'st \<Rightarrow> 's \<Rightarrow> 'u Error + nat option \<times> 's" where
  "driver_finish R T acc d lre r st s =
     (if length (r_buffer R r) > validated d
      then Inl (Utf8 (at_byte (d_total_consumed d + validated d)))
      else try_bind (st_finalize T acc (driver_ctx R d r) s st) (\<lambda>(final_lre, s').
             Inr (case final_lre of Some e \<Rightarrow> Some e | None \<Rightarrow> lre, s')))"

text \<open>The suspension branch: \<open>consume\<close> as much as the stepper allows.\<close>

definition driver_advance :: "nat \<Rightarrow> nat \<Rightarrow> DriverState \<Rightarrow> DriverState" where
  "driver_advance resume consumable d =
     d\<lparr>d_total_consumed := d_total_consumed d + consumable, validated := validated d - consumable,
       resume_at := resume - consumable\<rparr>"

text \<open>The loop of \<open>run\<close>; \<open>None\<close> would be a loop that never ends (lemma \<open>driver_loop_ok\<close>).\<close>

partial_function (option) driver_loop ::
    "'r reader_ops \<Rightarrow> (byte list \<Rightarrow> nat + nat) \<Rightarrow> ('st, 's, 'u) stepper_ops \<Rightarrow> ('s, 'u) accumulator
      \<Rightarrow> DriverState \<Rightarrow> nat option \<Rightarrow> 'r \<Rightarrow> 'st \<Rightarrow> 's
      \<Rightarrow> (('u Error + nat option \<times> 's) \<times> 'r) option" where
  "driver_loop R V T acc d lre r st s =
     (case r_fill R (validated d + 4) r of
        (Inl e, r1) \<Rightarrow> Some (Inl (IO e), r1)
      | (Inr _, r1) \<Rightarrow>
          (case validate_fresh V (r_buffer R r1) d of
             Inl e \<Rightarrow> Some (Inl e, r1)
           | Inr d1 \<Rightarrow>
               if validated d1 \<le> validated d then Some (driver_finish R T acc d1 lre r1 st s, r1)
               else (case st_step T acc (driver_ctx R d1 r1) s st of
                   (Done e, buf, s', st') \<Rightarrow> Some (Inr (Some e, s'), r_set_buffer R buf r1)
                 | (StepError e, buf, s', st') \<Rightarrow> Some (Inl e, r_set_buffer R buf r1)
                 | (Suspended resume consumable lre', buf, s', st') \<Rightarrow>
                     if consumable > 0
                     then driver_loop R V T acc (driver_advance resume consumable d1) lre'
                            (r_consume R consumable (r_set_buffer R buf r1)) (st_consume T consumable st') s'
                     else driver_loop R V T acc (driver_advance resume 0 d1) lre'
                            (r_set_buffer R buf r1) st' s')))"

definition driver_run ::
    "'r reader_ops \<Rightarrow> (byte list \<Rightarrow> nat + nat) \<Rightarrow> ('st, 's, 'u) stepper_ops \<Rightarrow> ('s, 'u) accumulator
      \<Rightarrow> nat \<Rightarrow> 'r \<Rightarrow> 'st \<Rightarrow> 's \<Rightarrow> (('u Error + nat option \<times> 's) \<times> 'r) option" where
  "driver_run R V T acc start_offset r st s =
     driver_loop R V T acc (driver_new start_offset) None r st s"

section \<open>The contract of a stepper\<close>

text \<open>\<open>lrel xs tot lag pos e st m\<close>: over a stream \<open>xs\<close> that starts at offset \<open>tot\<close> of the input, the stepper, last
  run up to \<open>e\<close> and to be resumed at \<open>pos\<close>, has handed over what precedes \<open>lag\<close>, where the reference
  machine is in state \<open>m\<close>; it may hold back what it has scanned since. A step takes the machine on to another such point, rewrites only what
  precedes it, and allows only that to be consumed. An error is the machine's, or a \<open>premature\<close> one,
  raised from what the stepper has scanned ahead. \<open>fits\<close> bounds the stream.\<close>

locale lagging_stepper =
  fixes T :: "('st, 's, 'u) stepper_ops" and c :: Config and acc :: "('s, 'u) accumulator" and L :: nat
    and lrel :: "byte list \<Rightarrow> nat \<Rightarrow> nat \<Rightarrow> nat \<Rightarrow> nat \<Rightarrow> 'st \<Rightarrow> 's machine \<Rightarrow> bool"
    and fits :: "nat \<Rightarrow> bool"
    and premature :: "nat \<Rightarrow> byte list \<Rightarrow> 's machine \<Rightarrow> 'u Error \<Rightarrow> bool"
  assumes lrel_le: "lrel xs tot lag pos e st m \<Longrightarrow> lag \<le> pos \<and> pos \<le> e"
    and fits_less: "fits n \<Longrightarrow> k \<le> n \<Longrightarrow> fits k"
    and premature_back: "spec_run c acc L p xs m = Running m' \<Longrightarrow> premature (p + length xs) ys m' err \<Longrightarrow>
      premature p (xs @ ys) m err"
    and step_lag: "lrel (buf @ rest) tot lag pos e0 st m \<Longrightarrow> e0 \<le> e \<Longrightarrow> e \<le> length buf \<Longrightarrow>
      fits (length (buf @ rest)) \<Longrightarrow>
      st_step T acc \<lparr>ctx_buf = buf, scan_start = pos, scan_end = e, remaining_in_chunk = L - tot,
        total_consumed = tot\<rparr> (m_acc m) st = (res, buf', s', st') \<Longrightarrow>
      length buf' = length buf \<and>
      (case res of
         Suspended r n lre \<Rightarrow> (\<exists>lag' m'. lag \<le> lag' \<and> n \<le> lag' \<and> lag' \<le> r \<and> r \<le> e \<and> drop lag' buf' = drop lag' buf \<and>
           spec_run c acc L (tot + lag) (subslice buf lag lag') m = Running m' \<and> lre = m_last_end m' \<and>
           s' = m_acc m' \<and> (n = 0 \<longrightarrow> lrel (buf' @ rest) tot lag' r e st' m') \<and>
           lrel (drop n buf' @ rest) (tot + n) (lag' - n) (r - n) (e - n) (st_consume T n st') m')
       | Done p \<Rightarrow> (\<exists>k. lag \<le> k \<and> k \<le> e \<and> spec_run c acc L (tot + lag) (subslice buf lag k) m = Finished p s')
       | StepError err \<Rightarrow>
           (\<exists>k. lag \<le> k \<and> k \<le> e \<and> spec_run c acc L (tot + lag) (subslice buf lag k) m = Failed err) \<or>
           premature (tot + lag) (drop lag (buf @ rest)) m err)"
    and finalize_lag: "lrel buf tot lag pos (length buf) st m \<Longrightarrow> fits (length buf) \<Longrightarrow>
      try_bind (st_finalize T acc \<lparr>ctx_buf = buf, scan_start = pos, scan_end = length buf,
        remaining_in_chunk = L - tot, total_consumed = tot\<rparr> (m_acc m) st)
        (\<lambda>(lre, s). Inr (case lre of Some x \<Rightarrow> Some x | None \<Rightarrow> m_last_end m, s)) = out \<Longrightarrow>
      out = spec_rest c acc L (tot + lag) (drop lag buf) m \<or>
      (\<exists>err. out = Inl err \<and> premature (tot + lag) (drop lag buf) m err)"

text \<open>A stepper that holds nothing back: \<open>srel buf tot pos st m\<close> relates it to the machine at the very
  position it is resumed at, and depends on nothing behind that.\<close>

locale chunk_stepper =
  fixes T :: "('st, 's, 'u) stepper_ops" and c :: Config and acc :: "('s, 'u) accumulator" and L :: nat
    and srel :: "byte list \<Rightarrow> nat \<Rightarrow> nat \<Rightarrow> 'st \<Rightarrow> 's machine \<Rightarrow> bool"
  assumes srel_pos: "srel buf tot pos st m \<Longrightarrow> pos \<le> length buf"
    and srel_more: "pos \<le> length buf \<Longrightarrow> srel (buf @ xs) tot pos st m \<longleftrightarrow> srel buf tot pos st m"
    and step_sim: "srel buf tot pos st m \<Longrightarrow> pos \<le> e \<Longrightarrow> e \<le> length buf \<Longrightarrow>
      st_step T acc \<lparr>ctx_buf = buf, scan_start = pos, scan_end = e, remaining_in_chunk = L - tot,
        total_consumed = tot\<rparr> (m_acc m) st = (res, buf', s', st') \<Longrightarrow>
      length buf' = length buf \<and> drop e buf' = drop e buf \<and>
      (case spec_run c acc L (tot + pos) (subslice buf pos e) m of
         Running m' \<Rightarrow> (\<exists>n. res = Suspended e n (m_last_end m') \<and> n \<le> e \<and> s' = m_acc m' \<and>
           (n = 0 \<longrightarrow> srel buf' tot e st' m') \<and>
           srel (drop n buf') (tot + n) (e - n) (st_consume T n st') m')
       | Finished p s \<Rightarrow> res = Done p \<and> s' = s
       | Failed err \<Rightarrow> res = StepError err)"
    and finalize_sim: "srel buf tot (length buf) st m \<Longrightarrow>
      try_bind (st_finalize T acc \<lparr>ctx_buf = buf, scan_start = length buf, scan_end = length buf,
        remaining_in_chunk = rem, total_consumed = tot\<rparr> (m_acc m) st)
        (\<lambda>(lre, s). Inr (case lre of Some x \<Rightarrow> Some x | None \<Rightarrow> m_last_end m, s)) =
      spec_finish c acc (tot + length buf) m"

sublocale chunk_stepper \<subseteq> lag: lagging_stepper T c acc L
  "\<lambda>xs tot lag pos e st m. lag = pos \<and> pos = e \<and> srel xs tot pos st m" "\<lambda>_. True" "\<lambda>_ _ _ _. False"
proof (unfold_locales, goal_cases)
  case (4 buf rest tot lag pos e0 st m e res buf' s' st')
  then have b: "pos \<le> e" "e \<le> length buf" and rel: "srel buf tot pos st m"
    using srel_more[of pos buf] by auto
  note sim = step_sim[OF rel b 4(5)]
  show ?case
  proof (cases "spec_run c acc L (tot + pos) (subslice buf pos e) m")
    case (Running m')
    with sim obtain n where n: "res = Suspended e n (m_last_end m')" "n \<le> e" "s' = m_acc m'"
      "n = 0 \<longrightarrow> srel buf' tot e st' m'" "srel (drop n buf') (tot + n) (e - n) (st_consume T n st') m'"
      and len: "length buf' = length buf" "drop e buf' = drop e buf" by auto
    have "srel (drop n buf' @ rest) (tot + n) (e - n) (st_consume T n st') m'"
      using n(2,5) len(1) b srel_more[of "e - n" "drop n buf'" rest] by simp
    moreover have "n = 0 \<longrightarrow> srel (buf' @ rest) tot e st' m'"
      using n(4) len(1) b srel_more[of e buf' rest] by simp
    ultimately show ?thesis using n Running len 4(1) b by auto
  qed (use sim 4(1) b in auto)
next
  case (5 buf tot lag pos st m out)
  then have "pos = length buf" "lag = pos" "srel buf tot (length buf) st m" by auto
  with finalize_sim[OF this(3), of "L - tot"] 5(3) show ?case by simp
qed auto

text \<open>What a run may return: the reference result, which is settled within the stream's valid part; a
  UTF-8 error at the end of that part, if the stream is not valid; an error of the reader; or a premature one.\<close>

locale lagging_driver = chunk_reader R rinv unread + lagging_stepper T c acc L lrel fits premature + validator V vlen
  for R :: "'r reader_ops" and rinv and unread
    and T :: "('st, 's, 'u) stepper_ops" and c and acc and L and lrel and fits and premature and V and vlen
begin

definition settled :: "nat \<Rightarrow> byte list \<Rightarrow> 's machine \<Rightarrow> bool" where
  "settled p rest m \<longleftrightarrow> vlen rest = length rest \<or> (\<forall>m'. spec_run c acc L p (take (vlen rest) rest) m \<noteq> Running m')"

definition run_ok ::
    "nat \<Rightarrow> byte list \<Rightarrow> 's machine \<Rightarrow> 'u Error + nat option \<times> 's \<Rightarrow> bool" where
  "run_ok p rest m res \<longleftrightarrow>
     res = spec_rest c acc L p rest m \<and> settled p rest m \<or>
     vlen rest < length rest \<and> res = Inl (Utf8 (at_byte (p + vlen rest))) \<or>
     (\<exists>err. res = Inl err \<and> (fill_failed err \<or> premature p rest m err))"

lemma validate_fresh_ok:
  assumes le: "validated d \<le> length buf"
    and full: "validated d + 4 \<le> length buf \<or> rest = []"
    and res: "validate_fresh V buf d = out"
  defines "tail \<equiv> drop (validated d) buf @ rest"
  shows "(\<forall>err. out = Inl err \<longrightarrow> vlen tail < length tail \<and>
      err = Utf8 (at_byte (d_total_consumed d + validated d + vlen tail))) \<and>
    (\<forall>d1. out = Inr d1 \<longrightarrow> (\<exists>n. d1 = d\<lparr>validated := validated d + n\<rparr> \<and>
      validated d + n \<le> length buf \<and> n \<le> vlen tail \<and> vlen (drop n tail) = vlen tail - n \<and>
      (n = 0 \<longrightarrow> rest = [] \<and> vlen tail = 0)))"
proof -
  define w where "w = min (length buf) (validated d + 4 + VALIDATE_WINDOW)"
  define p where "p = subslice buf (validated d) w"
  define q where "q = drop w buf @ rest"
  have tail: "tail = p @ q"
  proof -
    have "drop (validated d) buf = p @ drop w buf"
      using le by (simp add: p_def w_def slice_append_drop)
    then show ?thesis by (simp add: tail_def q_def)
  qed
  show ?thesis
  proof (cases "w \<le> validated d")
    case True
    with le have eq: "length buf = validated d" by (auto simp: w_def)
    with full have "rest = []" by simp
    moreover have "out = Inr d"
      using True eq unfolding res[symmetric] validate_fresh_def w_def Let_def by (simp only: if_True)
    ultimately show ?thesis
      using eq vlen_le[of "[]"] by (auto simp: tail_def intro!: exI[of _ 0])
  next
    case False
    then have lp: "length p = w - validated d" by (simp add: p_def w_def)
    have out: "out = (case V p of
        Inr n \<Rightarrow> Inr (d\<lparr>validated := validated d + n\<rparr>)
      | Inl rel \<Rightarrow> Inl (Utf8 (at_byte (d_total_consumed d + validated d + rel))))"
      using False res unfolding validate_fresh_def p_def w_def Let_def by simp
    show ?thesis
    proof (cases "V p")
      case (Inl n)
      with rejects[OF Inl, of q] out show ?thesis by (auto simp: tail)
    next
      case (Inr n)
      note a = accepts[OF Inr, of q]
      have "n = 0 \<Longrightarrow> rest = [] \<and> vlen tail = 0"
      proof -
        assume "n = 0"
        with a lp have "w < validated d + 4" by auto
        then have wl: "w = length buf" by (auto simp: w_def VALIDATE_WINDOW_def split: if_splits)
        with \<open>w < validated d + 4\<close> full have "rest = []" by auto
        with wl have "q = []" by (simp add: q_def)
        with a \<open>n = 0\<close> \<open>rest = []\<close> show ?thesis by (simp add: tail)
      qed
      with a lp out Inr False show ?thesis
        by (auto simp: tail w_def)
    qed
  qed
qed

text \<open>How a driver stands to the run it began over \<open>xs\<close>, at offset \<open>p\<close> and in state \<open>m0\<close>: \<open>k\<close> bytes of \<open>xs\<close> have
  been handed over, \<open>v\<close> validated, and what follows is still to come as it was.\<close>

definition driver_rel ::
    "nat \<Rightarrow> byte list \<Rightarrow> 's machine \<Rightarrow> DriverState \<Rightarrow> nat \<Rightarrow> byte list \<Rightarrow> 'st \<Rightarrow> 's machine \<Rightarrow> bool" where
  "driver_rel p xs m0 d lag ys st m \<longleftrightarrow>
     lrel ys (d_total_consumed d) lag (resume_at d) (validated d) st m \<and> validated d \<le> length ys \<and>
     p \<le> d_total_consumed d \<and>
     (let k = d_total_consumed d + lag - p; v = d_total_consumed d + validated d - p
      in k \<le> length xs \<and> spec_run c acc L p (take k xs) m0 = Running m \<and> drop lag ys = drop k xs \<and>
         vlen xs = v + vlen (drop (validated d) ys))"

lemma driver_rel_bounds:
  assumes "driver_rel p xs m0 d lag ys st m"
  shows "lag \<le> resume_at d" "resume_at d \<le> validated d" "validated d \<le> length ys" "p \<le> d_total_consumed d"
    "length ys + (d_total_consumed d - p) = length xs"
    "drop (validated d) ys = drop (d_total_consumed d + validated d - p) xs"
    "d_total_consumed d + validated d - p \<le> length xs"
    "d_total_consumed d + validated d - p \<le> vlen xs"
proof -
  note rel = assms[unfolded driver_rel_def Let_def]
  show b: "lag \<le> resume_at d" "resume_at d \<le> validated d" "validated d \<le> length ys" "p \<le> d_total_consumed d"
    using rel lrel_le by blast+
  have ys: "drop lag ys = drop (d_total_consumed d + lag - p) xs" "d_total_consumed d + lag - p \<le> length xs"
    using rel by auto
  from arg_cong[OF ys(1), of length] show len: "length ys + (d_total_consumed d - p) = length xs"
    using b ys(2) by simp
  have "drop (validated d - lag) (drop lag ys) = drop (validated d - lag) (drop (d_total_consumed d + lag - p) xs)"
    by (simp only: ys(1))
  then show "drop (validated d) ys = drop (d_total_consumed d + validated d - p) xs"
    using b by (simp add: add.commute)
  show "d_total_consumed d + validated d - p \<le> length xs" using len b by simp
  show "d_total_consumed d + validated d - p \<le> vlen xs" using rel by simp
qed

text \<open>The run over \<open>k\<close> bytes of \<open>xs\<close>, continued over a slice of what the driver holds.\<close>

lemma driver_rel_run:
  assumes "driver_rel p xs m0 d lag ys st m" and "lag \<le> k" and "k \<le> length ys"
  shows "spec_run c acc L p (take (d_total_consumed d + k - p) xs) m0 =
    spec_run c acc L (d_total_consumed d + lag) (subslice ys lag k) m"
proof -
  note rel = assms(1)[unfolded driver_rel_def Let_def] and b = driver_rel_bounds[OF assms(1)]
  let ?k = "d_total_consumed d + lag - p"
  have "take (d_total_consumed d + k - p) xs = take ?k xs @ take (k - lag) (drop ?k xs)"
    using assms(2) b(4) by (metis Nat.add_diff_assoc2 le_add_diff_inverse add.assoc le_add1 order_trans take_add)
  also have "take (k - lag) (drop ?k xs) = subslice ys lag k"
    using rel by (simp add: subslice_def)
  finally show ?thesis
    using rel b(4) by (simp add: spec_run_append)
qed

lemma driver_rel_rest:
  assumes "driver_rel p xs m0 d lag ys st m"
  shows "spec_rest c acc L p xs m0 = spec_rest c acc L (d_total_consumed d + lag) (drop lag ys) m"
    and "premature (d_total_consumed d + lag) (drop lag ys) m err \<Longrightarrow> premature p xs m0 err"
proof -
  note rel = assms[unfolded driver_rel_def Let_def]
  let ?k = "d_total_consumed d + lag - p"
  have xs: "take ?k xs @ drop lag ys = xs" and len: "p + length (take ?k xs) = d_total_consumed d + lag"
    using rel by auto
  have run: "spec_run c acc L p (take ?k xs) m0 = Running m" using rel by simp
  from spec_rest_append[OF run, of "drop lag ys"] premature_back[OF run, of "drop lag ys" err]
  show "spec_rest c acc L p xs m0 = spec_rest c acc L (d_total_consumed d + lag) (drop lag ys) m"
    and "premature (d_total_consumed d + lag) (drop lag ys) m err \<Longrightarrow> premature p xs m0 err"
    unfolding xs len by auto
qed

text \<open>A result reached within the valid part of the stream.\<close>

lemma stopped:
  assumes "driver_rel p xs m0 d lag ys st m" and "lag \<le> k" and "k \<le> length ys"
    and "d_total_consumed d + k - p \<le> vlen xs"
    and "\<forall>m'. spec_run c acc L (d_total_consumed d + lag) (subslice ys lag k) m \<noteq> Running m'"
  shows "settled p xs m0 \<and>
    spec_run c acc L p xs m0 = spec_run c acc L (d_total_consumed d + lag) (subslice ys lag k) m"
proof -
  let ?n = "d_total_consumed d + k - p"
  note stop = driver_rel_run[OF assms(1-3)]
  have ext: "spec_run c acc L p (take ?n xs @ zs) m0 = spec_run c acc L p (take ?n xs) m0" for zs
    using assms(5) by (auto simp: spec_run_append stop split: outcome.split)
  have "take (vlen xs) xs = take ?n xs @ take (vlen xs - ?n) (drop ?n xs)"
    using assms(4) by (metis le_add_diff_inverse take_add)
  then have "settled p xs m0" unfolding settled_def using ext assms(5) stop by metis
  moreover have "spec_run c acc L p xs m0 = spec_run c acc L p (take ?n xs) m0"
    using ext[of "drop ?n xs"] by simp
  ultimately show ?thesis using stop by simp
qed

lemma driver_loop_ok:
  assumes "rinv r" and "driver_rel p xs m0 d lag (stream r) st m" and "fits (length xs)"
    and "validated d \<le> length (r_buffer R r)" and "r_remaining R r = L - d_total_consumed d"
    and "lre = m_last_end m" and "s = m_acc m"
  shows "\<exists>res r'. driver_loop R V T acc d lre r st s = Some (res, r') \<and> rinv r' \<and> run_ok p xs m0 res"
  using assms
proof (induction "length (stream r) - validated d" arbitrary: r d lag st m lre s rule: less_induct)
  case less
  note loop = driver_loop.simps[of R V T acc d lre r st s]
  note rel = less.prems(2) and b = driver_rel_bounds[OF less.prems(2)]
  let ?tot = "d_total_consumed d" and ?v = "validated d"
  obtain out r1 where f: "r_fill R (?v + 4) r = (out, r1)" by fastforce
  note f_ok = fill[OF less.prems(1) f] and st_eq = fill_stream[OF less.prems(1) f]
  have v_le: "?v \<le> length (r_buffer R r1)" using f_ok less.prems(4) by auto
  have streams: "stream r = r_buffer R r1 @ unread r1" using st_eq by (simp add: stream_def)
  show ?case
  proof (cases out)
    case (Inl e)
    then have "run_ok p xs m0 (Inl (IO e))"
      unfolding run_ok_def using fill_failedI[OF less.prems(1)] f by blast
    with f Inl f_ok loop show ?thesis by auto
  next
    case (Inr u)
    then have f': "r_fill R (?v + 4) r = (Inr (), r1)" using f by simp
    have full: "?v + 4 \<le> length (r_buffer R r1) \<or> unread r1 = []"
      using fill_enough[OF less.prems(1) f'] .
    define tail where "tail = drop ?v (r_buffer R r1) @ unread r1"
    have tail: "tail = drop ?v (stream r)"
      unfolding st_eq[symmetric] using v_le by (simp add: tail_def stream_def)
    have vxs: "vlen xs = (?tot + ?v - p) + vlen tail" "length xs = (?tot + ?v - p) + length tail"
      using rel[unfolded driver_rel_def] b by (simp_all add: tail Let_def)
    obtain out2 where vf: "validate_fresh V (r_buffer R r1) d = (out2 :: 'u Error + DriverState)" by blast
    note vf_ok = validate_fresh_ok[OF v_le full vf, folded tail_def]
    show ?thesis
    proof (cases out2)
      case err: (Inl err)
      with vf_ok vxs b(4) have "run_ok p xs m0 (Inl err)" by (auto simp: run_ok_def)
      with f' vf err f_ok loop show ?thesis by auto
    next
      case ok: (Inr d1)
      with vf_ok obtain n where d1: "d1 = d\<lparr>validated := ?v + n\<rparr>" and n_le: "?v + n \<le> length (r_buffer R r1)"
        "n \<le> vlen tail" "vlen (drop n tail) = vlen tail - n" "n = 0 \<Longrightarrow> unread r1 = [] \<and> vlen tail = 0"
        by auto
      show ?thesis
      proof (cases "n = 0")
        case True
        then have d1_eq: "d1 = d" by (simp add: d1)
        have un: "unread r1 = []" and vl: "vlen tail = 0" using n_le(4)[OF True] by auto
        have res: "driver_loop R V T acc d lre r st s = Some (driver_finish R T acc d lre r1 st s, r1)"
          using f' vf ok True by (simp add: loop d1_eq)
        have "run_ok p xs m0 (driver_finish R T acc d lre r1 st s)"
        proof (cases "length (r_buffer R r1) > ?v")
          case bad: True
          then show ?thesis
            using vl un b(4) vxs by (auto simp: run_ok_def driver_finish_def tail_def)
        next
          case good: False
          with v_le have len: "length (r_buffer R r1) = ?v" by simp
          have buf: "r_buffer R r1 = stream r" using un by (simp add: streams)
          define out3 where "out3 = driver_finish R T acc d lre r1 st s"
          have "lrel (stream r) ?tot lag (resume_at d) (length (stream r)) st m" "fits (length (stream r))"
            using rel[unfolded driver_rel_def] len fits_less[OF less.prems(3), of "length (stream r)"] b(5)
            by (auto simp: buf)
          moreover have "try_bind (st_finalize T acc \<lparr>ctx_buf = stream r, scan_start = resume_at d, scan_end = length (stream r),
                remaining_in_chunk = L - ?tot, total_consumed = ?tot\<rparr> (m_acc m) st)
              (\<lambda>(lre, s). Inr (case lre of Some x \<Rightarrow> Some x | None \<Rightarrow> m_last_end m, s)) = out3"
            using good len f_ok less.prems(5-7) by (simp add: out3_def driver_finish_def driver_ctx_def buf)
          ultimately have "out3 = spec_rest c acc L (?tot + lag) (drop lag (stream r)) m \<or>
              (\<exists>err. out3 = Inl err \<and> premature (?tot + lag) (drop lag (stream r)) m err)"
            by (rule finalize_lag)
          moreover have "settled p xs m0" using vxs len un vl by (simp add: settled_def tail_def)
          ultimately show ?thesis
            unfolding run_ok_def out3_def[symmetric] driver_rel_rest(1)[OF rel] using driver_rel_rest(2)[OF rel] by auto
        qed
        with res f_ok show ?thesis by auto
      next
        case False
        define e where "e = ?v + n"
        define buf where "buf = r_buffer R r1"
        have bounds: "?v \<le> e" "e \<le> length buf" using n_le by (auto simp: e_def buf_def)
        obtain res buf' s' st' where step: "st_step T acc (driver_ctx R d1 r1) s st = (res, buf', s', st')"
          by (cases "st_step T acc (driver_ctx R d1 r1) s st") auto
        have ctx: "driver_ctx R d1 r1 = \<lparr>ctx_buf = buf, scan_start = resume_at d, scan_end = e,
            remaining_in_chunk = L - ?tot, total_consumed = ?tot\<rparr>"
          using f_ok less.prems by (simp add: driver_ctx_def d1 e_def buf_def)
        have lr: "lrel (buf @ unread r1) ?tot lag (resume_at d) ?v st m" "fits (length (buf @ unread r1))"
          using rel[unfolded driver_rel_def] fits_less[OF less.prems(3), of "length (stream r)"] b(5)
          by (auto simp: buf_def simp flip: streams)
        note sim = step_lag[OF lr(1) bounds lr(2), of res buf' s' st', folded ctx]
        define r2 where "r2 = r_set_buffer R buf' r1"
        have go: "\<not> validated d1 \<le> ?v" using False by (simp add: d1)
        have len': "length buf' = length buf" using sim step less.prems(7) by auto
        have r2: "rinv r2" "r_buffer R r2 = buf'" "unread r2 = unread r1" "r_remaining R r2 = r_remaining R r1"
          using set_buffer[of r1 buf'] f_ok len' by (auto simp: r2_def buf_def)
        have slices: "k \<le> e \<Longrightarrow> subslice (stream r) lag k = subslice buf lag k" for k
          using bounds by (simp add: streams buf_def slice_append_left)
        have e_v: "?tot + e - p \<le> vlen xs" using n_le(2) vxs b(4) by (simp add: e_def)
        have stop: "settled p xs m0 \<and> spec_run c acc L p xs m0 = spec_run c acc L (?tot + lag) (subslice buf lag k) m"
          if "lag \<le> k" "k \<le> e" "\<forall>m'. spec_run c acc L (?tot + lag) (subslice buf lag k) m \<noteq> Running m'" for k
          using stopped[OF rel that(1)] that(2,3) slices[OF that(2)] e_v b(4) bounds streams
          by (simp add: buf_def)
        show ?thesis
        proof (cases res)
          case (Done e')
          with sim step less.prems(7) obtain k where k: "lag \<le> k" "k \<le> e"
            "spec_run c acc L (?tot + lag) (subslice buf lag k) m = Finished e' s'" by auto
          have "driver_loop R V T acc d lre r st s = Some (Inr (Some e', s'), r2)"
            using f' vf ok go step Done by (simp add: loop r2_def)
          moreover have "run_ok p xs m0 (Inr (Some e', s'))"
            using stop[OF k(1,2)] k(3) by (simp add: run_ok_def spec_rest_def)
          ultimately show ?thesis using r2(1) by blast
        next
          case (StepError err)
          have "driver_loop R V T acc d lre r st s = Some (Inl err, r2)"
            using f' vf ok go step StepError by (simp add: loop r2_def)
          moreover have "run_ok p xs m0 (Inl err)"
          proof (cases "premature (?tot + lag) (drop lag (buf @ unread r1)) m err")
            case True
            then show ?thesis
              using driver_rel_rest(2)[OF rel, of err] unfolding run_ok_def buf_def streams[symmetric] by blast
          next
            case np: False
            with sim step less.prems(7) StepError obtain k where k: "lag \<le> k" "k \<le> e"
              "spec_run c acc L (?tot + lag) (subslice buf lag k) m = Failed err" by auto
            then show ?thesis using stop[OF k(1,2)] by (simp add: run_ok_def spec_rest_def)
          qed
          ultimately show ?thesis using r2(1) by blast
        next
          case (Suspended rs k lre')
          with sim step less.prems(7) obtain lag' m' where l: "lag \<le> lag'" "k \<le> lag'" "lag' \<le> rs" "rs \<le> e"
            "drop lag' buf' = drop lag' buf"
            "spec_run c acc L (?tot + lag) (subslice buf lag lag') m = Running m'" "lre' = m_last_end m'" "s' = m_acc m'"
            "k = 0 \<longrightarrow> lrel (buf' @ unread r1) ?tot lag' rs e st' m'"
            "lrel (drop k buf' @ unread r1) (?tot + k) (lag' - k) (rs - k) (e - k) (st_consume T k st') m'"
            by auto
          define d2 where "d2 = driver_advance rs k d1"
          define r3 where "r3 = (if k > 0 then r_consume R k r2 else r2)"
          define st3 where "st3 = (if k > 0 then st_consume T k st' else st')"
          have next_iter: "driver_loop R V T acc d lre r st s = driver_loop R V T acc d2 lre' r3 st3 s'"
            using f' vf ok go step Suspended by (simp add: loop r2_def d2_def r3_def st3_def)
          have d2: "d_total_consumed d2 = ?tot + k" "validated d2 = e - k" "resume_at d2 = rs - k"
            by (simp_all add: d2_def driver_advance_def d1 e_def)
          have k_le: "k \<le> length (r_buffer R r2)" using l bounds len' r2(2) by simp
          have r3: "rinv r3" "r_buffer R r3 = drop k buf'" "unread r3 = unread r1"
            "r_remaining R r3 = L - (?tot + k)"
            using consume[OF r2(1) k_le] r2 f_ok less.prems(5) by (auto simp: r3_def)
          have stream3: "stream r3 = drop k buf' @ unread r1" by (simp add: stream_def r3)
          have same: "drop lag' (buf' @ unread r1) = drop lag' (stream r)"
            using l(3-5) bounds len' by (simp add: streams buf_def)
          have drop3: "i \<ge> lag' \<Longrightarrow> drop (i - k) (stream r3) = drop i (stream r)" for i
          proof -
            assume i: "lag' \<le> i"
            have "drop (i - k) (stream r3) = drop (i - k) (drop k (buf' @ unread r1))"
              using k_le r2(2) by (simp add: stream3)
            also have "\<dots> = drop i (buf' @ unread r1)" using i l(2) by (simp del: drop_append)
            finally have "drop (i - k) (stream r3) = drop i (buf' @ unread r1)" .
            also have "\<dots> = drop (i - lag') (drop lag' (buf' @ unread r1))" unfolding drop_drop using i by simp
            also have "\<dots> = drop (i - lag') (drop lag' (stream r))" by (simp only: same)
            also have "\<dots> = drop i (stream r)" using i by simp
            finally show ?thesis .
          qed
          have "driver_rel p xs m0 d2 (lag' - k) (stream r3) st3 m'"
            unfolding driver_rel_def Let_def d2
          proof (intro conjI)
            show "lrel (stream r3) (?tot + k) (lag' - k) (rs - k) (e - k) st3 m'"
              using l(9,10) by (auto simp: st3_def stream3)
            show "e - k \<le> length (stream r3)" using bounds len' by (simp add: stream3)
            show "p \<le> ?tot + k" using b(4) by simp
            have sub: "?tot + k + (lag' - k) - p = ?tot + lag' - p" using l(2) by simp
            have lle: "lag' \<le> length (stream r)" using l(3,4) bounds by (simp add: streams buf_def)
            show "?tot + k + (lag' - k) - p \<le> length xs" unfolding sub using lle b(4,5) by simp
            show "spec_run c acc L p (take (?tot + k + (lag' - k) - p) xs) m0 = Running m'"
              unfolding sub driver_rel_run[OF rel l(1) lle] using slices[of lag'] l by simp
            have "drop (lag' - lag) (drop lag (stream r)) = drop (lag' - lag) (drop (?tot + lag - p) xs)"
              using rel by (simp add: driver_rel_def Let_def)
            then have "drop lag' (stream r) = drop (?tot + lag' - p) xs" using l(1) b(4) by (simp add: add.commute)
            then show "drop (lag' - k) (stream r3) = drop (?tot + k + (lag' - k) - p) xs"
              unfolding sub drop3[OF order_refl] .
            have "drop (e - k) (stream r3) = drop n tail"
              using drop3[of e] l(3,4) by (simp add: tail e_def add.commute)
            then show "vlen xs = ?tot + k + (e - k) - p + vlen (drop (e - k) (stream r3))"
              using n_le vxs b(4) l by (simp add: e_def)
          qed
          moreover have "length (stream r3) - validated d2 < length (stream r) - ?v"
            using False bounds l len' by (simp add: d2 stream3 streams buf_def e_def)
          moreover have "validated d2 \<le> length (r_buffer R r3)" using bounds len' by (simp add: d2 r3)
          ultimately obtain res' r' where "driver_loop R V T acc d2 lre' r3 st3 s' = Some (res', r')"
            "rinv r'" "run_ok p xs m0 res'"
            using less.hyps[of r3 d2 "lag' - k" st3 m' lre' s'] r3 l(7,8) less.prems(3) d2 by auto
          with next_iter show ?thesis by auto
        qed
      qed
    qed
  qed
qed

lemma driver_run_ok:
  assumes "rinv r" and "lrel (stream r) base 0 0 0 st (spec_init base s)" and "fits (length (stream r))"
    and "r_remaining R r = L - base"
  shows "\<exists>res r'. driver_run R V T acc base r st s = Some (res, r') \<and> rinv r' \<and>
    run_ok base (stream r) (spec_init base s) res"
  using driver_loop_ok[OF assms(1), of base "stream r" "spec_init base s" "driver_new base" 0 st "spec_init base s" None s]
    assms
  by (simp add: driver_run_def driver_new_def spec_init_def driver_rel_def)

end

end
