(* ===== verification/Stepper.thy ===== *)
theory Stepper
  imports Driver
begin

text \<open>
  src/src/parser/dfa/stepper.rs: the table-driven stepper. Its pointers are offsets into the buffer it is
  given (\<open>refs\<close> during a step, \<open>pending_spans\<close> across a refill), field bytes are compacted in place
  behind the read position. The simulation lemmas show that every step is a run of the reference machine, that
  \<open>field_start <= write_pos <= pos\<close> and the bounds of every span hold throughout, and that what the
  stepper lets the driver consume is never needed again.
\<close>

section \<open>The stepper\<close>

record DfaStepper =
  s_little_endian :: bool
  s_dfa :: Dfa
  trim_fields :: bool
  dfa_state :: State
  field_start :: nat
  write_pos :: nat
  record_buf_start :: nat
  refs :: "(nat \<times> nat) list"
  pending_spans :: "(nat \<times> nat) list"
  last_record_end :: "nat option"
  record_in_start :: nat
  field_in_start :: nat
  expected_fields :: "nat option"

definition stepper_new :: "bool \<Rightarrow> Dfa \<Rightarrow> Config \<Rightarrow> nat \<Rightarrow> DfaStepper" where
  "stepper_new le dfa c start_offset =
     \<lparr>s_little_endian = le, s_dfa = dfa, trim_fields = trim c, dfa_state = RecordStart,
      field_start = 0, write_pos = 0, record_buf_start = 0, refs = [], pending_spans = [],
      last_record_end = None, record_in_start = start_offset, field_in_start = start_offset,
      expected_fields = field_count c\<rparr>"

definition stepper_resume :: "DfaStepper \<Rightarrow> DfaStepper" where
  "stepper_resume st =
     (if pending_spans st = [] then st
      else st\<lparr>refs := refs st @ pending_spans st, pending_spans := []\<rparr>)"

definition stepper_suspend :: "DfaStepper \<Rightarrow> DfaStepper" where
  "stepper_suspend st =
     (if refs st = [] then st
      else st\<lparr>pending_spans := pending_spans st @ refs st, refs := []\<rparr>)"

definition push_field :: "byte list \<Rightarrow> DfaStepper \<Rightarrow> DfaStepper" where
  "push_field buf st =
     (let off = field_start st; len = write_pos st - field_start st
      in if trim_fields st
         then (let (skip, t) = trim_ascii (subslice buf off (off + len))
               in st\<lparr>refs := refs st @ [(off + skip, length t)]\<rparr>)
         else st\<lparr>refs := refs st @ [(off, len)]\<rparr>)"

definition start_field_at :: "nat \<Rightarrow> nat \<Rightarrow> DfaStepper \<Rightarrow> DfaStepper" where
  "start_field_at tot pos st =
     st\<lparr>field_start := pos, field_in_start := tot + pos, write_pos := pos\<rparr>"

text \<open>The new read position, the buffer and the stepper.\<close>

definition scan_run ::
    "byte list \<Rightarrow> nat \<Rightarrow> nat \<Rightarrow> StructuralNeedles \<Rightarrow> DfaStepper \<Rightarrow> nat \<times> byte list \<times> DfaStepper" where
  "scan_run buf pos e needles st =
     (let next_pos = (case needles_find (s_little_endian st) needles (subslice buf pos e) of
            Some off \<Rightarrow> pos + off | None \<Rightarrow> e);
          run_len = next_pos - pos;
          buf' = (if run_len \<noteq> 0 \<and> write_pos st \<noteq> pos
            then memmove buf pos (write_pos st) run_len else buf)
      in (next_pos, buf', st\<lparr>write_pos := write_pos st + run_len\<rparr>))"

definition check_arity :: "DfaStepper \<Rightarrow> 'u Error + unit" where
  "check_arity st = (case expected_fields st of
       None \<Rightarrow> Inr ()
     | Some expected \<Rightarrow>
         (let found = length (refs st)
          in if found = expected then Inr ()
             else Inl (NumberOfFields expected found (at_byte (record_in_start st)))))"

text \<open>The bytes of a span, as \<open>output::emit_record\<close> hands them out.\<close>

definition span_bytes :: "byte list \<Rightarrow> nat \<times> nat \<Rightarrow> byte list" where
  "span_bytes buf sp = subslice buf (fst sp) (fst sp + snd sp)"

definition emit_record ::
    "('s, 'u) accumulator \<Rightarrow> byte list \<Rightarrow> 's \<Rightarrow> DfaStepper \<Rightarrow> ('u Error + 's) \<times> DfaStepper" where
  "emit_record acc buf s st = (case check_arity st of
       Inl e \<Rightarrow> (Inl e, st)
     | Inr _ \<Rightarrow>
         (map_err from_user (acc s (map (span_bytes buf) (refs st))), st\<lparr>refs := []\<rparr>))"

text \<open>\<open>Inl\<close> is \<open>ControlFlow::Break\<close>.\<close>

definition apply_action ::
    "('s, 'u) accumulator \<Rightarrow> byte \<Rightarrow> byte list \<Rightarrow> nat \<Rightarrow> nat \<Rightarrow> nat \<Rightarrow> 's \<Rightarrow> DfaStepper
      \<Rightarrow> ('u StepResult + unit) \<times> 's \<times> DfaStepper" where
  "apply_action acc act buf pos rem tot s st =
     (if act = ERROR_STATE then (Inl (StepError (InvalidQuote (at_byte (tot + pos - 1)))), s, st)
      else (let st1 = start_field_at tot pos (push_field buf st)
            in if act \<noteq> RECORD_END_STATE then (Inr (), s, st1\<lparr>dfa_state := FieldStart\<rparr>)
               else (case emit_record acc buf s st1 of
                   (Inl e, st2) \<Rightarrow> (Inl (StepError e), s, st2)
                 | (Inr s', st2) \<Rightarrow>
                     (let anchor = pos - 1;
                          end_pos = tot + anchor;
                          st3 = (start_field_at tot pos
                            (st2\<lparr>last_record_end := Some end_pos, record_buf_start := pos\<rparr>))
                              \<lparr>dfa_state := RecordStart\<rparr>
                      in if anchor \<ge> rem then (Inl (Done end_pos), s', st3)
                         else (Inr (), s', st3)))))"

definition consumable :: "DfaStepper \<Rightarrow> nat \<Rightarrow> nat" where
  "consumable st pos =
     (if pending_spans st = [] \<and> field_start st = write_pos st then pos else record_buf_start st)"

text \<open>The empty-line skip of \<open>RecordStart\<close>: the first structural byte from \<open>pos\<close> on.\<close>

definition skip_terminators :: "Dfa \<Rightarrow> byte list \<Rightarrow> nat \<Rightarrow> nat \<Rightarrow> nat" where
  "skip_terminators dfa buf pos e =
     pos + length (takeWhile (\<lambda>b. \<not> record_start_structural dfa b) (subslice buf pos e))"

text \<open>The \<open>match\<close> at the head of the scan loop: \<open>Some\<close> the chunk end it found, the new position, the
  buffer and the stepper.\<close>

definition scan_head ::
    "byte list \<Rightarrow> nat \<Rightarrow> nat \<Rightarrow> nat \<Rightarrow> nat \<Rightarrow> DfaStepper
      \<Rightarrow> nat option \<times> nat \<times> byte list \<times> DfaStepper" where
  "scan_head buf pos e rem tot st = (case dfa_state st of
       InField \<Rightarrow> (None, scan_run buf pos e (in_field_needles (s_dfa st)) st)
     | InQuotedField \<Rightarrow> (None, scan_run buf pos e (in_quoted_needles (s_dfa st)) st)
     | RecordStart \<Rightarrow>
         (let pos' = skip_terminators (s_dfa st) buf pos e;
              anchor = max rem pos
          in if anchor < pos'
             then (Some (tot + anchor), pos', buf, st\<lparr>last_record_end := Some (tot + anchor)\<rparr>)
             else (None, pos', buf,
                   st\<lparr>record_in_start := tot + pos', field_in_start := tot + pos'\<rparr>))
     | _ \<Rightarrow> (None, pos, buf, st))"

text \<open>The byte the table is asked about is copied if it has output.\<close>

definition copy_out :: "Transition \<Rightarrow> byte \<Rightarrow> nat \<Rightarrow> byte list \<Rightarrow> DfaStepper \<Rightarrow> byte list \<times> DfaStepper" where
  "copy_out t b pos buf st =
     (if has_output t
      then (if write_pos st \<noteq> pos then buf[write_pos st := b] else buf,
            st\<lparr>write_pos := write_pos st + 1\<rparr>)
      else (buf, st))"

lemma scan_head_mono: "pos \<le> fst (snd (scan_head buf pos e rem tot st)) \<or> e < pos"
  by (cases "dfa_state st")
    (auto simp: scan_head_def scan_run_def skip_terminators_def Let_def split: option.splits)

lemma scan_head_mono':
  "scan_head buf pos e rem tot st = (brk, pos1, buf1, st1) \<Longrightarrow> pos \<le> pos1 \<or> e < pos"
  using scan_head_mono[of pos buf e rem tot st] by simp

text \<open>The loop of \<open>step\<close>.\<close>

function step_loop ::
    "('s, 'u) accumulator \<Rightarrow> nat \<Rightarrow> nat \<Rightarrow> nat \<Rightarrow> byte list \<Rightarrow> nat \<Rightarrow> 's \<Rightarrow> DfaStepper
      \<Rightarrow> 'u StepResult \<times> byte list \<times> 's \<times> DfaStepper" where
  "step_loop acc e rem tot buf pos s st =
     (if pos < e then
        (case scan_head buf pos e rem tot st of (brk, pos1, buf1, st1) \<Rightarrow>
           (case brk of
              Some end_pos \<Rightarrow> (Done end_pos, buf1, s, st1)
            | None \<Rightarrow>
                if e \<le> pos1
                then (let st' = stepper_suspend st1
                      in (Suspended pos1 (consumable st' pos1) (last_record_end st'), buf1, s, st'))
                else
                  (let b = buf1 ! pos1;
                       t = transition (s_dfa st1) (dfa_state st1) b;
                       buf2 = fst (copy_out t b pos1 buf1 st1);
                       st2 = snd (copy_out t b pos1 buf1 st1)
                   in if next_raw t < FIRST_ACTION
                      then step_loop acc e rem tot buf2 (pos1 + 1) s (st2\<lparr>dfa_state := next_state t\<rparr>)
                      else (case apply_action acc (next_raw t) buf2 (pos1 + 1) rem tot s st2 of
                          (Inl res, s', st3) \<Rightarrow> (res, buf2, s', st3)
                        | (Inr _, s', st3) \<Rightarrow> step_loop acc e rem tot buf2 (pos1 + 1) s' st3))))
      else (let st' = stepper_suspend st
            in (Suspended pos (consumable st' pos) (last_record_end st'), buf, s, st')))"
  by pat_completeness auto
termination
  by (relation "measure (\<lambda>(acc, e, rem, tot, buf, pos, s, st). e - pos)")
    (auto dest!: scan_head_mono' scan_head_mono'[OF sym])

declare step_loop.simps [simp del]

definition dfa_step ::
    "('s, 'u) accumulator \<Rightarrow> StepCtx \<Rightarrow> 's \<Rightarrow> DfaStepper
      \<Rightarrow> 'u StepResult \<times> byte list \<times> 's \<times> DfaStepper" where
  "dfa_step acc ctx s st =
     step_loop acc (scan_end ctx) (remaining_in_chunk ctx) (total_consumed ctx) (ctx_buf ctx)
       (scan_start ctx) s (stepper_resume st)"

definition dfa_consume :: "nat \<Rightarrow> DfaStepper \<Rightarrow> DfaStepper" where
  "dfa_consume n st =
     st\<lparr>field_start := field_start st - n, write_pos := write_pos st - n,
        record_buf_start := record_buf_start st - n,
        pending_spans := map (\<lambda>(off, len). (off - n, len)) (pending_spans st)\<rparr>"

definition dfa_finalize ::
    "('s, 'u) accumulator \<Rightarrow> StepCtx \<Rightarrow> 's \<Rightarrow> DfaStepper \<Rightarrow> 'u Error + nat option \<times> 's" where
  "dfa_finalize acc ctx s st =
     (if dfa_state st \<in> {RecordStart, InComment} then Inr (None, s)
      else if dfa_state st \<in> {InQuotedField, InEscapedQuote}
      then Inl (UnclosedQuote (at_byte (field_in_start st)))
      else if dfa_state st \<in> {FieldStart, InField, AfterClosingQuote}
      then try_bind (fst (emit_record acc (ctx_buf ctx) s
             (push_field (ctx_buf ctx) (stepper_resume st))))
             (\<lambda>s'. Inr (Some (total_consumed ctx + scan_end ctx), s'))
      else Inr (None, s))"

definition dfa_stepper_ops :: "(DfaStepper, 's, 'u) stepper_ops" where
  "dfa_stepper_ops = \<lparr>st_step = dfa_step, st_consume = dfa_consume, st_finalize = dfa_finalize\<rparr>"

section \<open>In-place compaction\<close>

text \<open>\<open>buf'\<close> is \<open>buf\<close> with \<open>xs\<close> written at \<open>w\<close>; nothing before \<open>w\<close> or from \<open>e\<close> on has changed.\<close>

definition compacted :: "nat \<Rightarrow> byte list \<Rightarrow> nat \<Rightarrow> byte list \<Rightarrow> byte list \<Rightarrow> bool" where
  "compacted w xs e buf buf' \<longleftrightarrow> length buf' = length buf \<and> take w buf' = take w buf \<and>
     drop e buf' = drop e buf \<and> subslice buf' w (w + length xs) = xs"

lemma slice_drop_take: "subslice xs a b = drop a (take b xs)"
  by (simp add: subslice_def drop_take)

lemma slice_take_cong: "take w xs = take w ys \<Longrightarrow> b \<le> w \<Longrightarrow> subslice xs a b = subslice ys a b"
  unfolding slice_drop_take by (metis min.absorb1 take_take)

lemma slice_drop_cong: "drop e xs = drop e ys \<Longrightarrow> e \<le> a \<Longrightarrow> subslice xs a b = subslice ys a b"
  unfolding subslice_def by (metis drop_drop le_add_diff_inverse2)

lemma drop_drop_cong: "drop a xs = drop a ys \<Longrightarrow> a \<le> e \<Longrightarrow> drop e xs = drop e ys"
  by (metis drop_drop le_add_diff_inverse2)

lemma compacted_memmove:
  assumes "w \<le> pos" and "pos + n \<le> length buf"
  shows "compacted w (subslice buf pos (pos + n)) (pos + n) buf
    (if n \<noteq> 0 \<and> w \<noteq> pos then memmove buf pos w n else buf)"
proof (cases "n \<noteq> 0 \<and> w \<noteq> pos")
  case True
  have len: "length (subslice buf pos (pos + n)) = n" using assms by simp
  have m: "memmove buf pos w n = take w buf @ subslice buf pos (pos + n) @ drop (w + n) buf"
    by (simp add: memmove_def)
  have "drop (pos + n) (memmove buf pos w n) = drop (pos + n) buf"
    unfolding m using assms len by (simp add: drop_append)
  moreover have "take w (memmove buf pos w n) = take w buf"
    unfolding m using assms by simp
  moreover have "subslice (memmove buf pos w n) w (w + n) = subslice buf pos (pos + n)"
    unfolding m using assms len by (simp add: slice_drop_take)
  moreover have "length (memmove buf pos w n) = length buf"
    using assms by (intro length_memmove)
  ultimately show ?thesis using True len by (simp add: compacted_def)
next
  case False
  with assms show ?thesis by (auto simp: compacted_def)
qed

lemma compacted_update:
  assumes "w \<le> pos" and "pos < length buf"
  shows "compacted w [buf ! pos] (Suc pos) buf (if w \<noteq> pos then buf[w := buf ! pos] else buf)"
  using assms
  by (auto simp: compacted_def slice_drop_take take_Suc_conv_app_nth)

lemma compacted_Nil: "compacted w [] e buf buf"
  by (simp add: compacted_def)

section \<open>The simulation relation\<close>

text \<open>The buffer offsets are in order, the open field and the finished ones are where the stepper says
  they are, and no span reaches past the open field or before the record.\<close>

definition base_rel ::
    "Config \<Rightarrow> byte list \<Rightarrow> nat \<Rightarrow> (nat \<times> nat) list \<Rightarrow> DfaStepper \<Rightarrow> 's machine \<Rightarrow> bool" where
  "base_rel c buf pos spans st m \<longleftrightarrow>
     s_dfa st = dfa_new (s_little_endian st) c \<and> trim_fields st = trim c \<and>
     expected_fields st = field_count c \<and>
     record_buf_start st \<le> field_start st \<and> field_start st \<le> write_pos st \<and>
     write_pos st \<le> pos \<and> pos \<le> length buf \<and>
     m_cur m = subslice buf (field_start st) (write_pos st) \<and>
     map (span_bytes buf) spans = m_fields m \<and>
     (\<forall>sp\<in>set spans. record_buf_start st \<le> fst sp \<and> fst sp + snd sp \<le> field_start st) \<and>
     last_record_end st = m_last_end m"

definition quiet :: "State \<Rightarrow> bool" where
  "quiet s \<longleftrightarrow> s = RecordStart \<or> s = InComment"

definition starts_agree :: "DfaStepper \<Rightarrow> 's machine \<Rightarrow> bool" where
  "starts_agree st m \<longleftrightarrow> record_in_start st = m_rec_start m \<and> field_in_start st = m_fld_start m"

definition state_rel :: "DfaStepper \<Rightarrow> 's machine \<Rightarrow> bool" where
  "state_rel st m \<longleftrightarrow> dfa_state st = m_state m \<and> interior (m_state m) \<and>
     (quiet (m_state m) \<longrightarrow> m_fields m = [] \<and> m_cur m = []) \<and>
     (m_state m \<noteq> RecordStart \<longrightarrow> starts_agree st m)"

text \<open>Inside a step the finished fields are in \<open>refs\<close>, between steps in \<open>pending_spans\<close>.\<close>

definition loop_rel :: "Config \<Rightarrow> byte list \<Rightarrow> nat \<Rightarrow> DfaStepper \<Rightarrow> 's machine \<Rightarrow> bool" where
  "loop_rel c buf pos st m \<longleftrightarrow>
     base_rel c buf pos (refs st) st m \<and> state_rel st m \<and> pending_spans st = []"

definition srel :: "Config \<Rightarrow> byte list \<Rightarrow> nat \<Rightarrow> DfaStepper \<Rightarrow> 's machine \<Rightarrow> bool" where
  "srel c buf pos st m \<longleftrightarrow>
     base_rel c buf pos (pending_spans st) st m \<and> state_rel st m \<and> refs st = []"

lemma loop_of_srel: "srel c buf pos st m \<Longrightarrow> loop_rel c buf pos (stepper_resume st) m"
  by (auto simp: srel_def loop_rel_def base_rel_def state_rel_def starts_agree_def stepper_resume_def)

lemma srel_of_loop: "loop_rel c buf pos st m \<Longrightarrow> srel c buf pos (stepper_suspend st) m"
  by (auto simp: srel_def loop_rel_def base_rel_def state_rel_def starts_agree_def stepper_suspend_def)

text \<open>Copying \<open>xs\<close> to the write cursor appends it to the open field.\<close>

lemma base_rel_compact:
  assumes rel: "base_rel c buf pos spans st m" and cp: "compacted (write_pos st) xs e buf buf'"
    and "pos \<le> e" and "e \<le> length buf" and "write_pos st + length xs \<le> e"
  shows "base_rel c buf' e spans (st\<lparr>write_pos := write_pos st + length xs\<rparr>) (m\<lparr>m_cur := m_cur m @ xs\<rparr>)"
proof -
  let ?w = "write_pos st" and ?f = "field_start st"
  from cp have tk: "take ?w buf' = take ?w buf" and len: "length buf' = length buf"
    and sl: "subslice buf' ?w (?w + length xs) = xs"
    by (auto simp: compacted_def)
  from rel have fw: "?f \<le> ?w" by (simp add: base_rel_def)
  have "subslice buf' ?f (?w + length xs) = subslice buf' ?f ?w @ subslice buf' ?w (?w + length xs)"
    using fw assms(4,5) len by (simp add: slice_append_slice)
  also have "subslice buf' ?f ?w = subslice buf ?f ?w"
    using tk by (rule slice_take_cong) simp
  finally have cur: "subslice buf' ?f (?w + length xs) = subslice buf ?f ?w @ xs" by (simp add: sl)
  have spans: "map (span_bytes buf') spans = map (span_bytes buf) spans"
  proof (rule map_cong[OF refl])
    fix sp assume "sp \<in> set spans"
    then have "fst sp + snd sp \<le> ?w" using rel fw by (force simp: base_rel_def)
    then show "span_bytes buf' sp = span_bytes buf sp"
      unfolding span_bytes_def by (rule slice_take_cong[OF tk])
  qed
  from rel assms(3-5) cur spans len show ?thesis
    by (auto simp: base_rel_def)
qed

lemma base_rel_advance:
  "base_rel c buf pos spans st m \<Longrightarrow> pos \<le> e \<Longrightarrow> e \<le> length buf \<Longrightarrow> base_rel c buf e spans st m"
  by (auto simp: base_rel_def)

lemma base_rel_states:
  "base_rel c buf pos spans (st\<lparr>dfa_state := s\<rparr>) m = base_rel c buf pos spans st m"
  "base_rel c buf pos spans (st\<lparr>record_in_start := a, field_in_start := b\<rparr>) m = base_rel c buf pos spans st m"
  "base_rel c buf pos spans st (m\<lparr>m_state := s'\<rparr>) = base_rel c buf pos spans st m"
  "base_rel c buf pos spans st (m\<lparr>m_rec_start := a, m_fld_start := b\<rparr>) = base_rel c buf pos spans st m"
  by (simp_all add: base_rel_def)

section \<open>The head of the scan loop\<close>

lemma in_slice: "b \<in> set (subslice xs a e) \<Longrightarrow> \<exists>i. a + i < e \<and> a + i < length xs \<and> xs ! (a + i) = b"
proof -
  assume "b \<in> set (subslice xs a e)"
  then obtain i where "i < length (subslice xs a e)" "subslice xs a e ! i = b"
    by (auto simp: in_set_conv_nth)
  then show ?thesis by (intro exI[of _ i]) (auto simp: subslice_def)
qed

lemma scan_run_sim:
  assumes rel: "loop_rel c buf pos st m" and "pos \<le> e" and "e \<le> length buf"
    and sound: "scan_sound P (subslice buf pos e) (needles_find (s_little_endian st) nd (subslice buf pos e))"
    and content: "\<And>bs. \<forall>b\<in>set bs. \<not> P b \<Longrightarrow>
      spec_run c acc L p bs m = Running (m\<lparr>m_cur := m_cur m @ bs\<rparr>)"
    and "\<not> quiet (m_state m)"
    and res: "scan_run buf pos e nd st = (pos1, buf1, st1)"
  shows "pos \<le> pos1 \<and> pos1 \<le> e \<and> length buf1 = length buf \<and> drop pos1 buf1 = drop pos1 buf \<and>
    (\<exists>m1. spec_run c acc L p (subslice buf pos pos1) m = Running m1 \<and> loop_rel c buf1 pos1 st1 m1 \<and>
      m_state m1 = m_state m \<and> m_acc m1 = m_acc m)"
proof -
  let ?hay = "subslice buf pos e"
  have pos1: "pos1 = (case needles_find (s_little_endian st) nd ?hay of Some off \<Rightarrow> pos + off | None \<Rightarrow> e)"
    using res by (simp add: scan_run_def Let_def)
  have bounds: "pos \<le> pos1" "pos1 \<le> e" and before: "\<forall>i<pos1 - pos. \<not> P (?hay ! i)"
    using sound assms(2,3) by (auto simp: pos1 scan_sound_def split: option.splits)
  define n where "n = pos1 - pos"
  have n: "pos1 = pos + n" using bounds by (simp add: n_def)
  have run: "\<forall>b\<in>set (subslice buf pos pos1). \<not> P b"
  proof
    fix b assume "b \<in> set (subslice buf pos pos1)"
    then obtain i where "pos + i < pos1" "buf ! (pos + i) = b" by (auto dest: in_slice)
    with before bounds assms(3) show "\<not> P b"
      by (metis add.commute less_diff_conv order_less_le_trans slice_nth)
  qed
  have w: "write_pos st \<le> pos" using rel by (simp add: loop_rel_def base_rel_def)
  have buf1: "buf1 = (if n \<noteq> 0 \<and> write_pos st \<noteq> pos then memmove buf pos (write_pos st) n else buf)"
    and st1: "st1 = st\<lparr>write_pos := write_pos st + n\<rparr>"
    using res pos1 by (auto simp: scan_run_def Let_def n_def)
  have len_run: "length (subslice buf pos pos1) = n" using bounds assms(3) by (simp add: n)
  have cp: "compacted (write_pos st) (subslice buf pos pos1) pos1 buf buf1"
    unfolding buf1 n using w bounds assms(3) n by (intro compacted_memmove) auto
  let ?m1 = "m\<lparr>m_cur := m_cur m @ subslice buf pos pos1\<rparr>"
  have "base_rel c buf1 pos1 (refs st) (st\<lparr>write_pos := write_pos st + n\<rparr>) ?m1"
    using base_rel_compact[OF _ cp, of c pos "refs st" m] rel bounds assms(3) w n len_run
    by (simp add: loop_rel_def)
  then have "loop_rel c buf1 pos1 st1 ?m1"
    using rel assms(6) by (auto simp: loop_rel_def st1 state_rel_def starts_agree_def)
  with content[OF run] bounds cp show ?thesis
    by (auto simp: compacted_def)
qed

lemma skip_terminators_sim:
  assumes "pos \<le> e" and "e \<le> length buf" and "s_dfa st = dfa_new le c"
  defines "pos1 \<equiv> skip_terminators (s_dfa st) buf pos e"
  shows "pos \<le> pos1 \<and> pos1 \<le> e \<and>
    (\<forall>b\<in>set (subslice buf pos pos1). is_terminator (terminator c) b) \<and>
    (pos1 < e \<longrightarrow> \<not> is_terminator (terminator c) (buf ! pos1))"
proof -
  let ?hay = "subslice buf pos e" and ?P = "\<lambda>b. is_terminator (terminator c) b"
  have p1: "pos1 = pos + length (takeWhile ?P ?hay)"
    unfolding pos1_def skip_terminators_def assms(3) by (simp add: dfa_new_def)
  have le: "length (takeWhile ?P ?hay) \<le> e - pos"
    using length_takeWhile_le[of ?P ?hay] assms(1,2) by simp
  have run: "subslice buf pos pos1 = takeWhile ?P ?hay"
  proof -
    have "takeWhile ?P ?hay = take (pos1 - pos) ?hay"
      unfolding p1 using takeWhile_eq_take[of ?P ?hay] by simp
    also have "\<dots> = subslice buf pos pos1"
      using le by (simp add: subslice_def p1)
    finally show ?thesis by simp
  qed
  then have "\<forall>b\<in>set (subslice buf pos pos1). ?P b"
    by (metis set_takeWhileD)
  moreover have "\<not> ?P (buf ! pos1)" if "pos1 < e"
  proof -
    have "length (takeWhile ?P ?hay) < length ?hay" using that assms(2) by (simp add: p1)
    from nth_length_takeWhile[OF this] show ?thesis
      using that assms(2) by (simp add: p1 slice_nth)
  qed
  ultimately show ?thesis using le assms(1) p1 by simp
qed

text \<open>What the head of the loop leaves: the machine has run over the bytes up to the new position, and is
  ready for the table, or the chunk end was found among the bare terminators.\<close>

lemma scan_head_sim:
  assumes rel: "loop_rel c buf pos st m" and pe: "pos < e" and el: "e \<le> length buf"
    and res: "scan_head buf pos e (L - tot) tot st = (brk, pos1, buf1, st1)"
  shows "length buf1 = length buf \<and> drop e buf1 = drop e buf \<and>
    (case brk of
       Some end_pos \<Rightarrow> pos1 \<le> e \<and> spec_run c acc L (tot + pos) (subslice buf pos pos1) m = Finished end_pos (m_acc m)
     | None \<Rightarrow> pos \<le> pos1 \<and> pos1 \<le> e \<and> drop pos1 buf1 = drop pos1 buf \<and>
         (\<exists>m1. spec_run c acc L (tot + pos) (subslice buf pos pos1) m = Running m1 \<and>
           loop_rel c buf1 pos1 st1 m1 \<and> m_acc m1 = m_acc m \<and>
           (m_state m1 = RecordStart \<longrightarrow> record_in_start st1 = tot + pos1 \<and> field_in_start st1 = tot + pos1 \<and>
             (pos1 < e \<longrightarrow> \<not> is_terminator (terminator c) (buf1 ! pos1)))))"
proof -
  from rel have dfa: "s_dfa st = dfa_new (s_little_endian st) c" and state: "dfa_state st = m_state m"
    by (auto simp: loop_rel_def base_rel_def state_rel_def)
  have pe': "pos \<le> e" using pe by simp
  consider (field) "m_state m = InField" | (quoted) "m_state m = InQuotedField"
    | (start) "m_state m = RecordStart"
    | (other) "m_state m \<noteq> InField" "m_state m \<noteq> InQuotedField" "m_state m \<noteq> RecordStart"
    by blast
  then show ?thesis
  proof cases
    case field
    then have r: "brk = None" "scan_run buf pos e (in_field_needles (s_dfa st)) st = (pos1, buf1, st1)"
      using res state by (auto simp: scan_head_def)
    note sim = scan_run_sim[OF rel pe' el _ _ _ r(2), of _ acc L "tot + pos",
        OF in_field_needles_sound[of c _ "s_little_endian st", folded dfa] spec_run_in_field[OF field]]
    have "\<not> quiet (m_state m)" using field by (simp add: quiet_def)
    from sim[OF _ this] r(1) field show ?thesis
      by (auto dest: drop_drop_cong)
  next
    case quoted
    then have r: "brk = None" "scan_run buf pos e (in_quoted_needles (s_dfa st)) st = (pos1, buf1, st1)"
      using res state by (auto simp: scan_head_def)
    note sim = scan_run_sim[OF rel pe' el _ _ _ r(2), of _ acc L "tot + pos",
        OF in_quoted_needles_sound[of c _ "s_little_endian st", folded dfa] spec_run_in_quoted[OF quoted]]
    have "\<not> quiet (m_state m)" using quoted by (simp add: quiet_def)
    from sim[OF _ this] r(1) quoted show ?thesis
      by (auto dest: drop_drop_cong)
  next
    case start
    note sk = skip_terminators_sim[OF pe' el dfa]
    let ?p = "skip_terminators (s_dfa st) buf pos e"
    have r: "pos1 = ?p" "buf1 = buf"
      "brk = (if max (L - tot) pos < ?p then Some (tot + max (L - tot) pos) else None)"
      "brk = None \<Longrightarrow> st1 = st\<lparr>record_in_start := tot + ?p, field_in_start := tot + ?p\<rparr>"
      using res state start by (auto simp: scan_head_def Let_def split: if_splits)
    have len: "length (subslice buf pos ?p) = ?p - pos" using sk el by (auto simp: min_def)
    note run = spec_run_terminators[OF start, of "subslice buf pos ?p" c acc L "tot + pos"]
    show ?thesis
    proof (cases "max (L - tot) pos < ?p")
      case True
      then have lt: "L - tot < ?p" "pos < ?p" by simp_all
      then have "L < tot + pos + (?p - pos)" by linarith
      moreover have "max L (tot + pos) = tot + max (L - tot) pos" by linarith
      moreover have "subslice buf pos ?p \<noteq> []" using lt(2) len by (metis list.size(3) zero_less_diff less_irrefl)
      ultimately show ?thesis using True r sk run len by simp
    next
      case False
      then have "\<not> (L < tot + pos + (?p - pos) \<and> subslice buf pos ?p \<noteq> [])"
        using sk by (cases "?p = pos") auto
      then have "spec_run c acc L (tot + pos) (subslice buf pos ?p) m = Running m"
        using run sk len by simp
      moreover have "loop_rel c buf ?p (st\<lparr>record_in_start := tot + ?p, field_in_start := tot + ?p\<rparr>) m"
        using rel sk el start base_rel_advance[of c buf pos "refs st" st m ?p]
        by (auto simp: loop_rel_def state_rel_def base_rel_states)
      ultimately show ?thesis
        using False r sk by simp
    qed
  next
    case other
    then have "scan_head buf pos e (L - tot) tot st = (None, pos, buf, st)"
      using state by (cases "m_state m") (auto simp: scan_head_def)
    with res rel other pe' show ?thesis by auto
  qed
qed

section \<open>The table step and the actions\<close>

text \<open>The quiet states are entered only from quiet states and without output.\<close>

lemma quiet_entry:
  assumes "quiet (next_state (transition (dfa_new le c) s b))" and "interior s"
  shows "quiet s \<and> \<not> has_output (transition (dfa_new le c) s b)"
  using assms
  by (cases s) (auto simp: quiet_def interior_def transition_def dfa_new_def field_start_cell_def
      in_field_cell_def in_quoted_cell_def after_closing_cell_def in_comment_cell_def
      record_start_cell_def split: if_splits QuoteHandling.splits)

lemma copy_out_sim:
  assumes rel: "base_rel c buf pos spans st m" and "pos < length buf"
  shows "base_rel c (fst (copy_out t (buf ! pos) pos buf st)) (Suc pos) spans
      (snd (copy_out t (buf ! pos) pos buf st)) (copy_byte t (buf ! pos) m) \<and>
    length (fst (copy_out t (buf ! pos) pos buf st)) = length buf \<and>
    drop (Suc pos) (fst (copy_out t (buf ! pos) pos buf st)) = drop (Suc pos) buf"
proof (cases "has_output t")
  case True
  have w: "write_pos st \<le> pos" using rel by (simp add: base_rel_def)
  note cp = compacted_update[OF w assms(2)]
  from base_rel_compact[OF rel cp] assms(2) w True cp show ?thesis
    by (simp add: copy_out_def copy_byte_def compacted_def)
next
  case False
  with base_rel_advance[OF rel, of "Suc pos"] assms(2) show ?thesis
    by (simp add: copy_out_def copy_byte_def)
qed

lemma copy_out_frame:
  "refs (snd (copy_out t b pos buf st)) = refs st"
  "pending_spans (snd (copy_out t b pos buf st)) = pending_spans st"
  "record_in_start (snd (copy_out t b pos buf st)) = record_in_start st"
  "field_in_start (snd (copy_out t b pos buf st)) = field_in_start st"
  by (simp_all add: copy_out_def)

lemma copy_byte_frame:
  "m_fields (copy_byte t b m) = m_fields m" "m_rec_start (copy_byte t b m) = m_rec_start m"
  "m_fld_start (copy_byte t b m) = m_fld_start m" "m_acc (copy_byte t b m) = m_acc m"
  "m_last_end (copy_byte t b m) = m_last_end m"
  by (simp_all add: copy_byte_def)

lemma push_field_frame:
  "push_field buf st = st\<lparr>refs := refs (push_field buf st)\<rparr>"
  by (simp add: push_field_def Let_def split: prod.splits)

lemma push_field_keeps:
  "record_in_start (push_field buf st) = record_in_start st"
  "expected_fields (push_field buf st) = expected_fields st"
  by (simp_all add: push_field_def Let_def split: prod.splits)

text \<open>Closing the open field adds its bytes, trimmed if asked, to the finished fields.\<close>

lemma push_field_sim:
  assumes rel: "base_rel c buf pos (refs st) st m"
  shows "\<exists>sp. refs (push_field buf st) = refs st @ [sp] \<and> span_bytes buf sp = trimmed c (m_cur m) \<and>
    field_start st \<le> fst sp \<and> fst sp + snd sp \<le> write_pos st"
proof -
  let ?f = "field_start st" and ?w = "write_pos st"
  from rel have fw: "?f \<le> ?w" and cur: "m_cur m = subslice buf ?f ?w" and wl: "?w \<le> length buf"
    and tr: "trim_fields st = trim c"
    by (auto simp: base_rel_def)
  show ?thesis
  proof (cases "trim c")
    case False
    then show ?thesis
      using fw cur tr by (auto simp: push_field_def Let_def span_bytes_def trimmed_def)
  next
    case True
    define s where "s = subslice buf ?f ?w"
    have len: "length s = ?w - ?f" using wl by (simp add: s_def)
    obtain k t where kt: "trim_ascii s = (k, t)" by fastforce
    have b: "k + length t \<le> ?w - ?f" using trim_ascii_bounds[of s] by (simp add: kt len)
    have "take (length t) (drop k s) = t" using trim_ascii_slice[of s] by (simp add: kt)
    moreover have "drop k s = subslice buf (?f + k) ?w"
      by (simp add: s_def subslice_def drop_take add.commute)
    ultimately have "subslice buf (?f + k) (?f + k + length t) = t"
      using b by (simp add: subslice_def min_def split: if_splits)
    with True b kt fw tr show ?thesis
      by (auto simp: push_field_def Let_def span_bytes_def trimmed_def cur s_def)
  qed
qed

lemma closed_spans:
  assumes "base_rel c buf pos (refs st) st m"
  shows "map (span_bytes buf) (refs (push_field buf st)) = closed_fields c m"
  using push_field_sim[OF assms] assms by (auto simp: base_rel_def closed_fields_def)

lemma emit_record_sim:
  assumes rel: "base_rel c buf pos (refs st) st m" and start: "record_in_start st = m_rec_start m"
    and st1: "refs st1 = refs (push_field buf st)" "record_in_start st1 = record_in_start st"
      "expected_fields st1 = expected_fields st"
  shows "fst (emit_record acc buf (m_acc m) st1) = hand_over c acc m \<and>
    (\<forall>s'. fst (emit_record acc buf (m_acc m) st1) = Inr s' \<longrightarrow>
      snd (emit_record acc buf (m_acc m) st1) = st1\<lparr>refs := []\<rparr>)"
proof -
  have "length (refs st1) = length (closed_fields c m)"
    using closed_spans[OF rel] st1(1) by (metis length_map)
  moreover have "expected_fields st1 = field_count c" using rel st1(3) by (simp add: base_rel_def)
  ultimately show ?thesis
    using closed_spans[OF rel] start st1
    by (auto simp: emit_record_def check_arity_def hand_over_def Let_def split: option.splits)
qed

text \<open>One byte through the table: the machine's step on the same byte.\<close>

definition table_step ::
    "('s, 'u) accumulator \<Rightarrow> nat \<Rightarrow> nat \<Rightarrow> byte list \<Rightarrow> nat \<Rightarrow> 's \<Rightarrow> DfaStepper
      \<Rightarrow> byte list \<times> ('u StepResult + unit) \<times> 's \<times> DfaStepper" where
  "table_step acc rem tot buf pos s st =
     (let b = buf ! pos;
          t = transition (s_dfa st) (dfa_state st) b;
          buf' = fst (copy_out t b pos buf st);
          st' = snd (copy_out t b pos buf st)
      in if next_raw t < FIRST_ACTION
         then (buf', Inr (), s, st'\<lparr>dfa_state := next_state t\<rparr>)
         else (buf', apply_action acc (next_raw t) buf' (pos + 1) rem tot s st'))"

lemma step_loop_unfold:
  "step_loop acc e rem tot buf pos s st =
     (if pos < e then
        (case scan_head buf pos e rem tot st of (brk, pos1, buf1, st1) \<Rightarrow>
           (case brk of
              Some end_pos \<Rightarrow> (Done end_pos, buf1, s, st1)
            | None \<Rightarrow>
                if e \<le> pos1
                then (let st' = stepper_suspend st1
                      in (Suspended pos1 (consumable st' pos1) (last_record_end st'), buf1, s, st'))
                else (case table_step acc rem tot buf1 pos1 s st1 of
                    (buf2, Inl res, s', st3) \<Rightarrow> (res, buf2, s', st3)
                  | (buf2, Inr _, s', st3) \<Rightarrow> step_loop acc e rem tot buf2 (pos1 + 1) s' st3)))
      else (let st' = stepper_suspend st
            in (Suspended pos (consumable st' pos) (last_record_end st'), buf, s, st')))"
  by (subst step_loop.simps) (simp add: table_step_def Let_def split: prod.split sum.split option.split)

lemma table_step_sim:
  assumes rel: "loop_rel c buf pos st m" and pl: "pos < length buf"
    and start: "m_state m = RecordStart \<Longrightarrow> record_in_start st = tot + pos \<and> field_in_start st = tot + pos \<and>
      \<not> is_terminator (terminator c) (buf ! pos)"
    and res: "table_step acc (L - tot) tot buf pos (m_acc m) st = (buf', out, s', st')"
  shows "length buf' = length buf \<and> drop (Suc pos) buf' = drop (Suc pos) buf \<and>
    (case spec_byte c acc L (tot + pos) (buf ! pos) m of
       Running m' \<Rightarrow> out = Inr () \<and> s' = m_acc m' \<and> loop_rel c buf' (Suc pos) st' m'
     | Finished p s \<Rightarrow> out = Inl (Done p) \<and> s' = s
     | Failed err \<Rightarrow> out = Inl (StepError err))"
proof -
  let ?b = "buf ! pos"
  define m0 where "m0 = mark_start c (tot + pos) ?b m"
  define t where "t = transition (dfa_new True c) (m_state m) ?b"
  define m1 where "m1 = copy_byte t ?b m0"
  define st1 where "st1 = snd (copy_out t ?b pos buf st)"
  define buf1 where "buf1 = fst (copy_out t ?b pos buf st)"
  from rel have base: "base_rel c buf pos (refs st) st m" and state: "dfa_state st = m_state m"
    and int: "interior (m_state m)" and pend: "pending_spans st = []"
    and quiet0: "quiet (m_state m) \<Longrightarrow> m_fields m = [] \<and> m_cur m = []"
    by (auto simp: loop_rel_def state_rel_def)
  have t: "transition (s_dfa st) (dfa_state st) ?b = t"
    using base transition_le[of "s_little_endian st" c] by (simp add: base_rel_def t_def state)
  have spec: "spec_byte c acc L (tot + pos) ?b m = enter c acc L (tot + pos) (next_state t) m1"
    using start by (auto simp: spec_byte_def t_def m1_def m0_def Let_def)
  have m0: "base_rel c buf pos (refs st) st m0" "starts_agree st m0" "m_acc m0 = m_acc m"
    "m_fields m0 = m_fields m" "m_cur m0 = m_cur m" "m_last_end m0 = m_last_end m"
    using base start rel
    by (auto simp: m0_def mark_start_def base_rel_states starts_agree_def loop_rel_def state_rel_def)
  note co = copy_out_sim[OF m0(1) pl, of t, folded m1_def st1_def buf1_def]
  then have base1: "base_rel c buf1 (Suc pos) (refs st1) st1 m1"
    by (simp add: st1_def copy_out_frame)
  have starts1: "starts_agree st1 m1" and pend1: "pending_spans st1 = []" and acc1: "m_acc m1 = m_acc m"
    using m0 pend by (simp_all add: st1_def m1_def starts_agree_def copy_out_frame copy_byte_frame)
  have raw: "next_raw t = state_u8 (next_state t)" using next_raw_table by (simp add: t_def)
  have raw_iff: "next_raw t = ERROR_STATE \<longleftrightarrow> next_state t = Error"
    "next_raw t = RECORD_END_STATE \<longleftrightarrow> next_state t = RecordEnd"
    unfolding raw by (rule state_u8_eq)+
  have run: "table_step acc (L - tot) tot buf pos (m_acc m) st =
      (if interior (next_state t) then (buf1, Inr (), m_acc m, st1\<lparr>dfa_state := next_state t\<rparr>)
       else (buf1, apply_action acc (next_raw t) buf1 (pos + 1) (L - tot) tot (m_acc m) st1))"
    unfolding table_step_def t Let_def buf1_def[symmetric] st1_def[symmetric]
    by (simp add: raw below_first_action)
  have frame: "length buf1 = length buf \<and> drop (Suc pos) buf1 = drop (Suc pos) buf" using co by simp
  have limit: "L \<le> tot + pos \<longleftrightarrow> L - tot \<le> pos" by linarith
  note bounds = base1[unfolded base_rel_def]
  consider (interior) "interior (next_state t)" | (error) "next_state t = Error"
    | (fend) "next_state t = FieldEnd" | (rend) "next_state t = RecordEnd"
    by (auto simp: interior_def)
  then show ?thesis
  proof cases
    case interior
    have "enter c acc L (tot + pos) (next_state t) m1 = Running (m1\<lparr>m_state := next_state t\<rparr>)"
      using interior by (cases "next_state t") (auto simp: enter_def interior_def)
    moreover have "loop_rel c buf1 (Suc pos) (st1\<lparr>dfa_state := next_state t\<rparr>) (m1\<lparr>m_state := next_state t\<rparr>)"
    proof -
      have "m_fields m1 = [] \<and> m_cur m1 = []" if "quiet (next_state t)"
        using quiet_entry[of True c "m_state m" ?b] that int quiet0 m0
        by (auto simp: t_def m1_def copy_byte_def)
      with base1 starts1 pend1 interior show ?thesis
        by (simp add: loop_rel_def state_rel_def base_rel_states starts_agree_def)
    qed
    ultimately show ?thesis
      using res run interior frame acc1 by (simp add: spec)
  next
    case error
    then have "\<not> interior (next_state t)" by (simp add: interior_def)
    with res run error frame show ?thesis
      by (simp add: spec enter_def apply_action_def raw_iff)
  next
    case fend
    then have ni: "\<not> interior (next_state t)" by (simp add: interior_def)
    let ?st2 = "(start_field_at tot (pos + 1) (push_field buf1 st1))\<lparr>dfa_state := FieldStart\<rparr>"
    let ?m2 = "m1\<lparr>m_fields := closed_fields c m1, m_cur := [], m_fld_start := tot + pos + 1,
      m_state := FieldStart\<rparr>"
    obtain sp where sp: "refs (push_field buf1 st1) = refs st1 @ [sp]"
      "field_start st1 \<le> fst sp" "fst sp + snd sp \<le> write_pos st1"
      using push_field_sim[OF base1] by blast
    have st2: "?st2 = st1\<lparr>refs := refs (push_field buf1 st1), field_start := pos + 1,
        field_in_start := tot + pos + 1, write_pos := pos + 1, dfa_state := FieldStart\<rparr>"
      by (subst push_field_frame) (simp add: start_field_at_def)
    have "loop_rel c buf1 (Suc pos) ?st2 ?m2"
      unfolding loop_rel_def base_rel_def state_rel_def starts_agree_def st2
      using bounds closed_spans[OF base1] sp starts1 pend1
      by (auto simp: interior_def quiet_def starts_agree_def)
    with res run ni fend frame acc1 show ?thesis
      by (auto simp: spec enter_def apply_action_def raw_iff Let_def)
  next
    case rend
    then have ni: "\<not> interior (next_state t)" by (simp add: interior_def)
    let ?st2 = "start_field_at tot (pos + 1) (push_field buf1 st1)"
    have st2: "?st2 = st1\<lparr>refs := refs (push_field buf1 st1), field_start := pos + 1,
        field_in_start := tot + pos + 1, write_pos := pos + 1\<rparr>"
      by (subst push_field_frame) (simp add: start_field_at_def)
    have es: "fst (emit_record acc buf1 (m_acc m1) ?st2) = hand_over c acc m1 \<and>
        (\<forall>s'. fst (emit_record acc buf1 (m_acc m1) ?st2) = Inr s' \<longrightarrow>
          snd (emit_record acc buf1 (m_acc m1) ?st2) = ?st2\<lparr>refs := []\<rparr>)"
      using starts1 unfolding st2
      by (intro emit_record_sim[OF base1]) (simp_all add: starts_agree_def)
    have act: "apply_action acc (next_raw t) buf1 (pos + 1) (L - tot) tot (m_acc m) st1 =
        (case emit_record acc buf1 (m_acc m1) ?st2 of
           (Inl e, st2) \<Rightarrow> (Inl (StepError e), m_acc m, st2)
         | (Inr s', st2) \<Rightarrow>
             (let st3 = (start_field_at tot (pos + 1)
                    (st2\<lparr>last_record_end := Some (tot + pos), record_buf_start := pos + 1\<rparr>))
                    \<lparr>dfa_state := RecordStart\<rparr>
              in if pos \<ge> L - tot then (Inl (Done (tot + pos)), s', st3) else (Inr (), s', st3)))"
      unfolding apply_action_def using rend
      by (cases "emit_record acc buf1 (m_acc m1) ?st2"; cases "fst (emit_record acc buf1 (m_acc m1) ?st2)")
        (simp_all add: raw_iff Let_def acc1)
    show ?thesis
    proof (cases "hand_over c acc m1")
      case (Inl err)
      then have "fst (emit_record acc buf1 (m_acc m1) ?st2) = Inl err" using es by simp
      then obtain st3 where "emit_record acc buf1 (m_acc m1) ?st2 = (Inl err, st3)" by (metis prod.collapse)
      with res run ni act frame Inl rend show ?thesis
        by (simp add: spec enter_def)
    next
      case (Inr sa)
      then have em: "emit_record acc buf1 (m_acc m1) ?st2 = (Inr sa, ?st2\<lparr>refs := []\<rparr>)"
        using es by (metis prod.collapse)
      let ?st3 = "(start_field_at tot (pos + 1) (?st2\<lparr>refs := [], last_record_end := Some (tot + pos),
        record_buf_start := pos + 1\<rparr>))\<lparr>dfa_state := RecordStart\<rparr>"
      let ?m3 = "m1\<lparr>m_fields := [], m_cur := [], m_fld_start := tot + pos + 1,
        m_last_end := Some (tot + pos), m_acc := sa, m_state := RecordStart\<rparr>"
      have "loop_rel c buf1 (Suc pos) ?st3 ?m3"
        unfolding loop_rel_def base_rel_def state_rel_def st2
        using bounds pend1 by (simp add: start_field_at_def interior_def)
      with res run ni act em frame Inr rend limit show ?thesis
        by (auto simp: spec enter_def Let_def split: if_splits)
    qed
  qed
qed

section \<open>The step\<close>

lemma consumable_ok:
  assumes "srel c buf pos st m" and n: "n = consumable st pos"
  shows "n \<le> pos \<and> srel c (drop n buf) (pos - n) (dfa_consume n st) m"
proof (cases "pending_spans st = [] \<and> field_start st = write_pos st")
  case True
  with assms show ?thesis
    by (auto simp: consumable_def srel_def base_rel_def state_rel_def starts_agree_def dfa_consume_def)
next
  case False
  have n': "n = record_buf_start st" unfolding n consumable_def by (rule if_not_P[OF False])
  from assms have b: "base_rel c buf pos (pending_spans st) st m" by (simp add: srel_def)
  then have le: "n \<le> field_start st" "field_start st \<le> write_pos st" "write_pos st \<le> pos" "pos \<le> length buf"
    and sp: "\<forall>sp\<in>set (pending_spans st). n \<le> fst sp \<and> fst sp + snd sp \<le> field_start st"
    by (auto simp: base_rel_def n')
  have "span_bytes (drop n buf) (case sp of (off, len) \<Rightarrow> (off - n, len)) = span_bytes buf sp"
    if "sp \<in> set (pending_spans st)" for sp
  proof -
    from that sp have "n \<le> fst sp" by blast
    then have "fst sp - n + snd sp = fst sp + snd sp - n" by simp
    with slice_drop[OF \<open>n \<le> fst sp\<close>, of buf "fst sp + snd sp"] show ?thesis
      by (cases sp) (simp add: span_bytes_def)
  qed
  then have "map (span_bytes (drop n buf)) (map (\<lambda>(off, len). (off - n, len)) (pending_spans st)) = m_fields m"
    using b by (simp add: base_rel_def cong: map_cong)
  moreover have "subslice (drop n buf) (field_start st - n) (write_pos st - n)
      = subslice buf (field_start st) (write_pos st)"
    using le(1) by (rule slice_drop)
  moreover have "\<forall>sp\<in>set (map (\<lambda>(off, len). (off - n, len)) (pending_spans st)).
      fst sp + snd sp \<le> field_start st - n"
    using sp by fastforce
  ultimately have "base_rel c (drop n buf) (pos - n) (map (\<lambda>(off, len). (off - n, len)) (pending_spans st))
      (dfa_consume n st) m"
    using b le by (simp add: base_rel_def dfa_consume_def n' diff_le_mono)
  moreover have "state_rel (dfa_consume n st) m"
    using assms(1) by (simp add: srel_def state_rel_def starts_agree_def dfa_consume_def)
  ultimately show ?thesis
    using assms(1) le by (simp add: srel_def dfa_consume_def)
qed

definition step_post ::
    "Config \<Rightarrow> ('s, 'u) accumulator \<Rightarrow> nat \<Rightarrow> nat \<Rightarrow> nat \<Rightarrow> byte list \<Rightarrow> nat \<Rightarrow> 's machine
      \<Rightarrow> 'u StepResult \<times> byte list \<times> 's \<times> DfaStepper \<Rightarrow> bool" where
  "step_post c acc L tot e buf pos m out \<longleftrightarrow> (case out of (res, buf', s', st') \<Rightarrow>
     length buf' = length buf \<and> drop e buf' = drop e buf \<and>
     (case spec_run c acc L (tot + pos) (subslice buf pos e) m of
        Running m' \<Rightarrow> res = Suspended e (consumable st' e) (m_last_end m') \<and> s' = m_acc m' \<and>
          srel c buf' e st' m'
      | Finished p s \<Rightarrow> res = Done p \<and> s' = s
      | Failed err \<Rightarrow> res = StepError err))"

text \<open>Extending a run at the front.\<close>

lemma step_post_extend:
  assumes "spec_run c acc L (tot + pos) (subslice buf pos pos1) m = Running m1"
    and "pos \<le> pos1" and "pos1 \<le> e" and "e \<le> length buf"
    and "length buf1 = length buf" and "drop pos1 buf1 = drop pos1 buf"
    and "step_post c acc L tot e buf1 pos1 m1 out"
  shows "step_post c acc L tot e buf pos m out"
proof -
  have "subslice buf pos e = subslice buf pos pos1 @ subslice buf pos1 e"
    using assms(2-4) by (simp add: slice_append_slice)
  moreover have "subslice buf pos1 e = subslice buf1 pos1 e"
    by (rule slice_drop_cong[OF assms(6)[symmetric]]) simp
  moreover have "length (subslice buf pos pos1) = pos1 - pos" using assms(2-4) by simp
  ultimately have "spec_run c acc L (tot + pos) (subslice buf pos e) m =
      spec_run c acc L (tot + pos1) (subslice buf1 pos1 e) m1"
    using assms(1,2) by (simp add: spec_run_append del: length_slice)
  moreover have "drop e buf1 = drop e buf" using assms(3,6) drop_drop_cong by metis
  ultimately show ?thesis using assms(5,7) by (simp add: step_post_def split: prod.splits)
qed

lemma suspended_post:
  assumes "loop_rel c buf pos st m" and "pos = e" and "st' = stepper_suspend st"
  shows "step_post c acc L tot e buf pos m
    (Suspended pos (consumable st' pos) (last_record_end st'), buf, m_acc m, st')"
  using srel_of_loop[OF assms(1)] assms(2,3)
  by (auto simp: step_post_def srel_def base_rel_def)

lemma step_loop_sim:
  assumes "loop_rel c buf pos st m" and "pos \<le> e" and "e \<le> length buf"
  shows "step_post c acc L tot e buf pos m (step_loop acc e (L - tot) tot buf pos (m_acc m) st)"
  using assms
proof (induction "e - pos" arbitrary: buf pos st m rule: less_induct)
  case less
  note unf = step_loop_unfold[of acc e "L - tot" tot buf pos "m_acc m" st]
  show ?case
  proof (cases "pos < e")
    case False
    with less.prems have "pos = e" by simp
    with suspended_post[OF less.prems(1) this refl, of acc L tot] unf show ?thesis by (simp add: Let_def)
  next
    case True
    obtain brk pos1 buf1 st1 where hd: "scan_head buf pos e (L - tot) tot st = (brk, pos1, buf1, st1)"
      by (cases "scan_head buf pos e (L - tot) tot st") auto
    note head = scan_head_sim[OF less.prems(1) True less.prems(3) hd, of acc]
    show ?thesis
    proof (cases brk)
      case (Some end_pos)
      with head have h: "pos1 \<le> e" "length buf1 = length buf" "drop e buf1 = drop e buf"
        "spec_run c acc L (tot + pos) (subslice buf pos pos1) m = Finished end_pos (m_acc m)"
        by auto
      have "pos \<le> pos1" using scan_head_mono'[OF hd] True by simp
      then have "subslice buf pos e = subslice buf pos pos1 @ subslice buf pos1 e"
        using h(1) less.prems(3) by (simp add: slice_append_slice)
      with h True hd Some unf show ?thesis
        by (simp add: step_post_def spec_run_append)
    next
      case None
      with head obtain m1 where h: "pos \<le> pos1" "pos1 \<le> e" "length buf1 = length buf"
        "drop pos1 buf1 = drop pos1 buf"
        "spec_run c acc L (tot + pos) (subslice buf pos pos1) m = Running m1"
        "loop_rel c buf1 pos1 st1 m1" "m_acc m1 = m_acc m"
        "m_state m1 = RecordStart \<Longrightarrow> record_in_start st1 = tot + pos1 \<and> field_in_start st1 = tot + pos1 \<and>
          (pos1 < e \<longrightarrow> \<not> is_terminator (terminator c) (buf1 ! pos1))"
        by auto
      have "step_post c acc L tot e buf1 pos1 m1 (step_loop acc e (L - tot) tot buf pos (m_acc m) st)"
      proof (cases "e \<le> pos1")
        case end_: True
        then have "pos1 = e" using h(2) by simp
        with suspended_post[OF h(6) this refl, of acc L tot] True hd None unf h(7) show ?thesis
          by (simp add: Let_def)
      next
        case False
        obtain buf2 out s2 st2 where ts: "table_step acc (L - tot) tot buf1 pos1 (m_acc m1) st1 = (buf2, out, s2, st2)"
          by (cases "table_step acc (L - tot) tot buf1 pos1 (m_acc m1) st1") auto
        have "pos1 < length buf1" using False h(3) less.prems(3) by simp
        note tsim = table_step_sim[OF h(6) this _ ts]
        have tsim: "length buf2 = length buf1 \<and> drop (Suc pos1) buf2 = drop (Suc pos1) buf1 \<and>
          (case spec_byte c acc L (tot + pos1) (buf1 ! pos1) m1 of
             Running m' \<Rightarrow> out = Inr () \<and> s2 = m_acc m' \<and> loop_rel c buf2 (Suc pos1) st2 m'
           | Finished p s \<Rightarrow> out = Inl (Done p) \<and> s2 = s
           | Failed err \<Rightarrow> out = Inl (StepError err))"
          using tsim h(8) False by simp
        have e_le: "e \<le> length buf1" using h(3) less.prems(3) by simp
        have split: "subslice buf1 pos1 e = buf1 ! pos1 # subslice buf1 (Suc pos1) e"
          using False e_le by (simp add: subslice_def Cons_nth_drop_Suc[symmetric] take_Cons')
        have loop: "step_loop acc e (L - tot) tot buf pos (m_acc m) st = (case out of
            Inl res \<Rightarrow> (res, buf2, s2, st2)
          | Inr _ \<Rightarrow> step_loop acc e (L - tot) tot buf2 (Suc pos1) s2 st2)"
          using True hd None unf False ts h(7) by (cases out) simp_all
        have dropE: "drop e buf2 = drop e buf1" using tsim False drop_drop_cong by (metis not_less_eq_eq)
        show ?thesis
        proof (cases "spec_byte c acc L (tot + pos1) (buf1 ! pos1) m1")
          case (Running m2)
          with tsim have t2: "out = Inr ()" "s2 = m_acc m2" "loop_rel c buf2 (Suc pos1) st2 m2" by auto
          have "step_post c acc L tot e buf2 (Suc pos1) m2
              (step_loop acc e (L - tot) tot buf2 (Suc pos1) (m_acc m2) st2)"
            using less.hyps[OF _ t2(3)] True h(1) False e_le tsim by simp
          then show ?thesis
            using step_post_extend[of c acc L tot pos1 buf1 "Suc pos1" m1 m2 e buf2]
              Running False e_le tsim loop t2
            by (simp add: subslice_def Cons_nth_drop_Suc[symmetric])
        next
          case (Finished p s)
          with tsim loop split dropE show ?thesis by (simp add: step_post_def)
        next
          case (Failed err)
          with tsim loop split dropE show ?thesis by (simp add: step_post_def)
        qed
      qed
      from step_post_extend[OF h(5,1,2) less.prems(3) h(3,4) this] show ?thesis .
    qed
  qed
qed

section \<open>The stepper simulates the reference machine\<close>

text \<open>The relation depends on nothing behind the position.\<close>

lemma srel_append:
  assumes "pos \<le> length buf"
  shows "srel c (buf @ xs) pos st m \<longleftrightarrow> srel c buf pos st m"
proof -
  let ?spans = "pending_spans st"
  have "map (span_bytes (buf @ xs)) ?spans = map (span_bytes buf) ?spans"
    if "\<forall>sp\<in>set ?spans. fst sp + snd sp \<le> field_start st" "field_start st \<le> write_pos st" "write_pos st \<le> pos"
    using that assms by (intro map_cong refl) (auto simp: span_bytes_def slice_append_left)
  then have "map (span_bytes (buf @ xs)) ?spans = m_fields m \<longleftrightarrow> map (span_bytes buf) ?spans = m_fields m"
    if "\<forall>sp\<in>set ?spans. fst sp + snd sp \<le> field_start st" "field_start st \<le> write_pos st" "write_pos st \<le> pos"
    using that by (simp only:)
  moreover have "write_pos st \<le> pos \<Longrightarrow>
      subslice (buf @ xs) (field_start st) (write_pos st) = subslice buf (field_start st) (write_pos st)"
    using assms by (simp add: slice_append_left)
  ultimately show ?thesis
    using assms unfolding srel_def base_rel_def by (smt (verit) length_append trans_le_add1)
qed

interpretation dfa: chunk_stepper dfa_stepper_ops c acc L "\<lambda>buf tot pos st m. srel c buf pos st m" for c acc L
proof unfold_locales
  fix pos st and m :: "'a machine" and buf xs :: "byte list"
  assume "pos \<le> length buf"
  then show "srel c (buf @ xs) pos st m \<longleftrightarrow> srel c buf pos st m" by (rule srel_append)
next
  fix buf buf' :: "byte list" and tot pos e rem :: nat and st st' and m :: "'a machine" and res :: "'b StepResult" and s'
  assume rel: "srel c buf pos st m"
  show "pos \<le> length buf" using rel by (simp add: srel_def base_rel_def)
  assume "pos \<le> e" "e \<le> length buf"
    and step: "st_step dfa_stepper_ops acc \<lparr>ctx_buf = buf, scan_start = pos, scan_end = e,
      remaining_in_chunk = L - tot, total_consumed = tot\<rparr> (m_acc m) st = (res, buf', s', st')"
  then have "step_post c acc L tot e buf pos m (res, buf', s', st')"
    using step_loop_sim[OF loop_of_srel[OF rel], of e acc L tot]
    by (simp add: dfa_stepper_ops_def dfa_step_def)
  then show "length buf' = length buf \<and> drop e buf' = drop e buf \<and>
      (case spec_run c acc L (tot + pos) (subslice buf pos e) m of
         Running m' \<Rightarrow> (\<exists>n. res = Suspended e n (m_last_end m') \<and> n \<le> e \<and> s' = m_acc m' \<and>
           (n = 0 \<longrightarrow> srel c buf' e st' m') \<and>
           srel c (drop n buf') (e - n) (st_consume dfa_stepper_ops n st') m')
       | Finished p s \<Rightarrow> res = Done p \<and> s' = s
       | Failed err \<Rightarrow> res = StepError err)"
    using consumable_ok[of c buf' e st'] by (auto simp: step_post_def dfa_stepper_ops_def split: outcome.splits)
next
  fix buf :: "byte list" and tot rem st and m :: "'a machine"
  assume rel: "srel c buf (length buf) st m"
  note l = loop_of_srel[OF rel]
  let ?st = "stepper_resume st"
  from rel have state: "dfa_state st = m_state m" "interior (m_state m)"
    and lre: "m_state m \<noteq> RecordStart \<Longrightarrow> record_in_start st = m_rec_start m \<and> field_in_start st = m_fld_start m"
    by (auto simp: srel_def state_rel_def starts_agree_def)
  have b: "base_rel c buf (length buf) (refs ?st) ?st m" using l by (simp add: loop_rel_def)
  have r: "record_in_start ?st = record_in_start st" by (simp add: stepper_resume_def)
  have em: "fst (emit_record acc buf (m_acc m) (push_field buf ?st)) = hand_over c acc m"
    if "m_state m \<noteq> RecordStart"
  proof -
    have "fst (emit_record acc buf (m_acc m) (push_field buf ?st)) = hand_over c acc m \<and>
      (\<forall>s'. fst (emit_record acc buf (m_acc m) (push_field buf ?st)) = Inr s' \<longrightarrow>
        snd (emit_record acc buf (m_acc m) (push_field buf ?st)) = (push_field buf ?st)\<lparr>refs := []\<rparr>)"
      using lre[OF that] r by (intro emit_record_sim[OF b]) (simp_all add: push_field_keeps)
    then show ?thesis by blast
  qed
  show "try_bind (st_finalize dfa_stepper_ops acc \<lparr>ctx_buf = buf, scan_start = length buf,
      scan_end = length buf, remaining_in_chunk = rem, total_consumed = tot\<rparr> (m_acc m) st)
      (\<lambda>(lre, s). Inr (case lre of Some x \<Rightarrow> Some x | None \<Rightarrow> m_last_end m, s)) =
    spec_finish c acc (tot + length buf) m"
    using state lre em
    by (cases "m_state m"; cases "hand_over c acc m")
      (simp_all add: dfa_stepper_ops_def dfa_finalize_def spec_finish_def interior_def)
qed

lemma stepper_new_srel:
  "srel c buf 0 (stepper_new le (dfa_new le c) c base) (spec_init base s)"
  by (simp add: srel_def base_rel_def state_rel_def stepper_new_def spec_init_def interior_def subslice_def)

section \<open>Types of a suspended stepper\<close>

text \<open>Between windows the stepper is in an interior state, so that the rows of the action states are never asked, and
  holds no pointer into the buffer.\<close>

lemma scan_head_typed:
  "scan_head buf pos e rem tot st = (brk, pos1, buf1, st1) \<Longrightarrow> s_dfa st1 = s_dfa st \<and> dfa_state st1 = dfa_state st"
  by (cases "dfa_state st") (auto simp: scan_head_def scan_run_def Let_def split: if_splits)

lemma apply_action_typed:
  "apply_action acc act buf pos rem tot s st = (out, s', st') \<Longrightarrow>
    s_dfa st' = s_dfa st \<and> (\<forall>u. out = Inr u \<longrightarrow> interior (dfa_state st'))"
  by (auto simp: apply_action_def emit_record_def start_field_at_def push_field_def interior_def Let_def
    split: if_splits prod.splits sum.splits)

lemma apply_action_stops:
  "apply_action acc act buf pos rem tot s st = (Inl (Suspended r n lre), s', st') \<Longrightarrow> False"
  by (auto simp: apply_action_def emit_record_def Let_def split: if_splits prod.splits sum.splits)

lemma step_loop_typed:
  assumes "s_dfa st = dfa_new le c" and "interior (dfa_state st)" and "step_loop acc e rem tot buf pos s st = (res, buf', s', st')"
  shows "s_dfa st' = dfa_new le c \<and> (\<forall>r n lre. res = Suspended r n lre \<longrightarrow> interior (dfa_state st') \<and> refs st' = [])"
  using assms
proof (induction acc e rem tot buf pos s st rule: step_loop.induct)
  case (1 acc e rem tot buf pos s st)
  have susp: "s_dfa (stepper_suspend x) = s_dfa x" "dfa_state (stepper_suspend x) = dfa_state x" "refs (stepper_suspend x) = []" for x
    by (simp_all add: stepper_suspend_def)
  show ?case
  proof (cases "pos < e")
    case False
    with 1(3-5) show ?thesis by (auto simp: step_loop.simps susp Let_def)
  next
    case True
    obtain brk pos1 buf1 st1 where h: "scan_head buf pos e rem tot st = (brk, pos1, buf1, st1)" by (metis surj_pair)
    note st1 = scan_head_typed[OF h] 1(3,4)
    show ?thesis
    proof (cases "brk = None \<and> pos1 < e")
      case False
      with 1(5) True h st1 show ?thesis by (auto simp: step_loop.simps[of _ _ _ _ buf] susp Let_def split: option.splits if_splits)
    next
      case go: True
      let ?t = "transition (s_dfa st1) (dfa_state st1) (buf1 ! pos1)" and ?st2 = "snd (copy_out (transition (s_dfa st1) (dfa_state st1) (buf1 ! pos1)) (buf1 ! pos1) pos1 buf1 st1)"
      have st2: "s_dfa ?st2 = dfa_new le c" using st1 by (simp add: copy_out_def)
      have e: "\<not> e \<le> pos1" "brk = None" using go by auto
      show ?thesis
      proof (cases "next_raw ?t < FIRST_ACTION")
        case inner: True
        then have "interior (next_state ?t)" using st1 cell_typed(1)[of le c] by (simp add: below_first_action)
        with 1(1)[OF True h[symmetric] refl refl e(2,1) refl refl refl refl inner] 1(5) st2 e True h inner show ?thesis
          by (simp add: step_loop.simps[of _ _ _ _ buf] Let_def)
      next
        case act: False
        obtain out s1 st3 where a: "apply_action acc (next_raw ?t) (fst (copy_out ?t (buf1 ! pos1) pos1 buf1 st1)) (pos1 + 1) rem tot s ?st2 = (out, s1, st3)"
          by (metis surj_pair)
        note a' = apply_action_typed[OF a]
        show ?thesis
        proof (cases out)
          case (Inl r)
          with 1(5) True h e act a a' st2 show ?thesis
            by (auto simp: step_loop.simps[of _ _ _ _ buf] Let_def dest: apply_action_stops)
        next
          case (Inr u)
          with 1(2)[OF True h[symmetric] refl refl e(2,1) refl refl refl refl act a[symmetric] Inr refl] 1(5) a a' st2 e True h act
          show ?thesis by (simp add: step_loop.simps[of _ _ _ _ buf] Let_def)
        qed
      qed
    qed
  qed
qed

end
