(* ===== verification/Chunk.thy ===== *)
theory Chunk
  imports Stepper
begin

text \<open>
  src/src/parser/chunk.rs: the assumptions about a chunk boundary, the result of one pass, the shape
  every chunk parser's \<open>parse\<close> has, and the empty-line skip. The lemmas give the skip's exact
  result on any lawful reader.
\<close>

section \<open>Assumptions and pass results\<close>

datatype Assumption = OutOfQuotes | InQuotes | InQuotesAfterEscape

text \<open>\<open>None\<close> is the \<open>unreachable!\<close>: validation rules out an escape without a quote.\<close>

definition assumptions_for_config :: "byte option \<Rightarrow> byte option \<Rightarrow> Assumption list option" where
  "assumptions_for_config qt esc = (case (qt, esc) of
       (Some q, Some e) \<Rightarrow>
         if q = e then Some [OutOfQuotes, InQuotes] else Some [OutOfQuotes, InQuotes, InQuotesAfterEscape]
     | (Some _, None) \<Rightarrow> Some [OutOfQuotes, InQuotes]
     | (None, Some _) \<Rightarrow> None
     | (None, None) \<Rightarrow> Some [OutOfQuotes])"

record ('s, 'u) PassResult =
  record_start :: "nat option"
  record_end :: "nat option"
  result :: "'u Error + 's"

definition no_record :: "'s \<Rightarrow> ('s, 'u) PassResult" where
  "no_record state = \<lparr>record_start = None, record_end = None, result = Inr state\<rparr>"

definition failed :: "'u Error \<Rightarrow> ('s, 'u) PassResult" where
  "failed e = \<lparr>record_start = None, record_end = None, result = Inl e\<rparr>"

text \<open>The outcome carries the accumulator's state next to the last record end.\<close>

definition started :: "nat \<Rightarrow> 'u Error + nat option \<times> 's \<Rightarrow> ('s, 'u) PassResult" where
  "started start outcome = (case outcome of
       Inr (rend, state) \<Rightarrow> \<lparr>record_start = Some start, record_end = rend, result = Inr state\<rparr>
     | Inl e \<Rightarrow> \<lparr>record_start = Some start, record_end = None, result = Inl e\<rparr>)"

datatype FindRecordStart = FindStrict | FindLenient | FindNo | SkipHeaders

section \<open>Skipping empty lines\<close>

text \<open>The inner \<open>while\<close>: how far the bare terminators go within \<open>cap\<close> bytes.\<close>

definition terminator_run :: "RecordTerminator \<Rightarrow> byte list \<Rightarrow> nat" where
  "terminator_run t bs = length (takeWhile (is_terminator t) bs)"

partial_function (option) skip_loop ::
    "'r reader_ops \<Rightarrow> RecordTerminator \<Rightarrow> nat \<Rightarrow> 'r \<Rightarrow> (('u Error + nat \<times> bool) \<times> 'r) option" where
  "skip_loop R t consumed r =
     (case r_fill R 1 r of
        (Inl e, r1) \<Rightarrow> Some (Inl (IO e), r1)
      | (Inr _, r1) \<Rightarrow>
          (let buf = r_buffer R r1 in
           if buf = [] \<or> \<not> is_terminator t (hd buf) then Some (Inr (consumed, False), r1)
           else if r_remaining R r1 = 0 then Some (Inr (consumed, True), r1)
           else (let i = terminator_run t (take (min (length buf) (r_remaining R r1)) buf)
                 in skip_loop R t (consumed + i) (r_consume R i r1))))"

definition skip_empty_lines ::
    "'r reader_ops \<Rightarrow> Config \<Rightarrow> 'r \<Rightarrow> (('u Error + nat \<times> bool) \<times> 'r) option" where
  "skip_empty_lines R c r = skip_loop R (terminator c) 0 r"

section \<open>Parsing a chunk\<close>

text \<open>The trait \<open>ChunkParser\<close> for one reader and one accumulator.\<close>

record ('r, 's, 'u) chunk_parser =
  cp_config :: Config
  cp_scan_record_start :: "Assumption \<Rightarrow> bool \<Rightarrow> 'r \<Rightarrow> (('u Error + nat option) \<times> 'r) option"
  cp_scan_header_end :: "'r \<Rightarrow> (('u Error + nat option) \<times> 'r) option"
  cp_parse_from :: "nat \<Rightarrow> 's \<Rightarrow> 'r \<Rightarrow> (('u Error + nat option \<times> 's) \<times> 'r) option"

definition cp_scan ::
    "('r, 's, 'u) chunk_parser \<Rightarrow> Assumption \<Rightarrow> FindRecordStart \<Rightarrow> 'r
      \<Rightarrow> (('u Error + nat option) \<times> 'r) option" where
  "cp_scan P a mode r = (case mode of
       FindNo \<Rightarrow> Some (Inr (Some 0), r)
     | SkipHeaders \<Rightarrow> cp_scan_header_end P r
     | FindStrict \<Rightarrow> cp_scan_record_start P a True r
     | FindLenient \<Rightarrow> cp_scan_record_start P a False r)"

definition chunk_parse ::
    "'r reader_ops \<Rightarrow> ('r, 's, 'u) chunk_parser \<Rightarrow> 's \<Rightarrow> Assumption \<Rightarrow> FindRecordStart \<Rightarrow> 'r
      \<Rightarrow> (('s, 'u) PassResult \<times> 'r) option" where
  "chunk_parse R P state a mode r =
     (case cp_scan P a mode r of
        None \<Rightarrow> None
      | Some (Inl e, r1) \<Rightarrow> Some (failed e, r1)
      | Some (Inr None, r1) \<Rightarrow> Some (no_record state, r1)
      | Some (Inr (Some start), r1) \<Rightarrow>
          (case skip_empty_lines R (cp_config P) r1 of
             None \<Rightarrow> None
           | Some (Inl e, r2) \<Rightarrow> Some (started start (Inl e), r2)
           | Some (Inr (skipped, True), r2) \<Rightarrow>
               Some (started start (Inr (Some (start + skipped), state)), r2)
           | Some (Inr (skipped, False), r2) \<Rightarrow>
               (case cp_parse_from P (start + skipped) state r2 of
                  None \<Rightarrow> None
                | Some (outcome, r3) \<Rightarrow> Some (started start outcome, r3))))"

section \<open>What the skip does\<close>

text \<open>On a whole stream with \<open>rem\<close> bytes left in the chunk: the run of bare terminators, cut at the chunk
  end, and whether it was still going there.\<close>

definition skip_spec :: "RecordTerminator \<Rightarrow> nat \<Rightarrow> byte list \<Rightarrow> nat \<times> bool" where
  "skip_spec t rem bs = (let k = terminator_run t bs in (min k rem, k > rem))"

lemma terminator_run_le: "terminator_run t bs \<le> length bs"
  by (simp add: terminator_run_def length_takeWhile_le)

lemma terminator_run_0: "terminator_run t bs = 0 \<longleftrightarrow> bs = [] \<or> \<not> is_terminator t (hd bs)"
  by (cases bs) (auto simp: terminator_run_def)

lemma terminator_run_take:
  "terminator_run t (take n bs) = min n (terminator_run t bs)"
  by (induction bs arbitrary: n) (auto simp: terminator_run_def take_Cons' min_def split: if_splits)

lemma terminator_run_drop:
  "i \<le> terminator_run t bs \<Longrightarrow> terminator_run t (drop i bs) = terminator_run t bs - i"
proof (induction bs arbitrary: i)
  case Nil
  then show ?case by (simp add: terminator_run_def)
next
  case (Cons b bs)
  then show ?case by (cases i) (auto simp: terminator_run_def split: if_splits)
qed

lemma terminator_run_append:
  "terminator_run t bs < length bs \<or> rest = [] \<Longrightarrow> terminator_run t (bs @ rest) = terminator_run t bs"
  by (induction bs) (auto simp: terminator_run_def split: if_splits)

context chunk_reader
begin

text \<open>A reader failure on the way, and nothing else, can replace the result by an \<open>IO\<close> error.\<close>

lemma skip_loop_ok:
  assumes "rinv r" and "skip_spec t (r_remaining R r) (stream r) = (k, still)"
  shows "\<exists>(res :: 'e Error + nat \<times> bool) r'. skip_loop R t consumed r = Some (res, r') \<and> rinv r' \<and>
    (res = Inr (consumed + k, still) \<and> stream r' = drop k (stream r) \<and>
       r_remaining R r' = r_remaining R r - k \<or>
     (\<exists>err. res = Inl err \<and> fill_failed err))"
  using assms
proof (induction "length (stream r)" arbitrary: r consumed k rule: less_induct)
  case less
  obtain out r1 where f: "r_fill R 1 r = (out, r1)" by fastforce
  note f_ok = fill[OF less.prems(1) f] and st = fill_stream[OF less.prems(1) f]
  note loop = skip_loop.simps[of R t consumed r]
  show ?case
  proof (cases out)
    case (Inl e)
    then have "fill_failed (IO e :: 'e Error)" using f less.prems(1) fill_failedI by blast
    with loop f Inl f_ok show ?thesis by auto
  next
    case (Inr u)
    let ?buf = "r_buffer R r1" and ?rem = "r_remaining R r1"
    let ?n = "terminator_run t (stream r)"
    have rem: "?rem = r_remaining R r" using f_ok by simp
    have emp: "?buf = [] \<longleftrightarrow> stream r = []"
      using empty_after_fill[OF less.prems(1), of 1 r1] f Inr by simp
    have hd: "?buf \<noteq> [] \<Longrightarrow> hd ?buf = hd (stream r)"
      using st by (metis hd_append2 stream_def)
    show ?thesis
    proof (cases "?buf = [] \<or> \<not> is_terminator t (hd ?buf)")
      case True
      then have "?n = 0" using emp hd by (auto simp: terminator_run_0)
      then have "k = 0 \<and> \<not> still" using less.prems(2) by (simp add: skip_spec_def)
      with True loop f Inr f_ok st rem show ?thesis by (auto simp: Let_def)
    next
      case False
      then have n: "0 < ?n" using emp hd by (auto simp: neq0_conv[symmetric] terminator_run_0 simp del: neq0_conv)
      show ?thesis
      proof (cases "?rem = 0")
        case True
        then have "k = 0 \<and> still" using less.prems(2) n rem by (simp add: skip_spec_def)
        with True False loop f Inr f_ok st rem show ?thesis by (auto simp: Let_def)
      next
        case go: False
        define i where "i = terminator_run t (take (min (length ?buf) ?rem) ?buf)"
        have i: "i = min (min (length ?buf) ?rem) ?n"
        proof -
          have "take (min (length ?buf) ?rem) ?buf = take (min (length ?buf) ?rem) (stream r)"
            using st by (metis append_take_drop_id diff_is_0_eq min.cobounded1 stream_def take0 take_append
                append_Nil2)
          then show ?thesis by (simp add: i_def terminator_run_take)
        qed
        have i_pos: "0 < i" using False go n by (simp add: i)
        have i_le: "i \<le> length ?buf" "i \<le> ?rem" "i \<le> ?n" by (simp_all add: i)
        let ?r2 = "r_consume R i r1"
        have r2: "rinv ?r2" "stream ?r2 = drop i (stream r)" "r_remaining R ?r2 = r_remaining R r - i"
          using consume[of r1 i] consume_stream[of r1 i] f_ok st i_le(1) rem by auto
        have "length (stream ?r2) < length (stream r)"
          using i_pos i_le(3) terminator_run_le[of t "stream r"] r2(2) by simp
        moreover have "skip_spec t (r_remaining R ?r2) (stream ?r2) = (k - i, still)"
          using less.prems(2) r2(2,3) i_le(2,3) rem
          by (auto simp: skip_spec_def Let_def terminator_run_drop)
        ultimately obtain res :: "'e Error + nat \<times> bool" and r' where ih: "skip_loop R t (consumed + i) ?r2 = Some (res, r')" "rinv r'"
          "res = Inr (consumed + i + (k - i), still) \<and> stream r' = drop (k - i) (stream ?r2) \<and>
            r_remaining R r' = r_remaining R ?r2 - (k - i) \<or> (\<exists>err. res = Inl err \<and> fill_failed err)"
          using less.hyps[of ?r2 "k - i" "consumed + i"] r2(1) by blast
        have ik: "i \<le> k" using less.prems(2) i_le rem by (auto simp: skip_spec_def Let_def)
        have "skip_loop R t consumed r = Some (res, r')"
          using f Inr False go ih(1) by (subst skip_loop.simps) (simp add: Let_def i_def)
        with ih r2 ik show ?thesis by auto
      qed
    qed
  qed
qed

lemma skip_empty_lines_ok:
  assumes "rinv r" and "skip_spec (terminator c) (r_remaining R r) (stream r) = (k, still)"
  shows "\<exists>res r'. skip_empty_lines R c r = Some (res, r') \<and> rinv r' \<and>
    (res = Inr (k, still) \<and> stream r' = drop k (stream r) \<and>
       r_remaining R r' = r_remaining R r - k \<or>
     (\<exists>err. res = Inl err \<and> fill_failed err))"
  using skip_loop_ok[OF assms, of 0] by (simp add: skip_empty_lines_def)

end

end
