(* ===== verification/DfaChunk.thy ===== *)
theory DfaChunk
  imports Chunk
begin

text \<open>
  src/src/parser/dfa/mod.rs: the table-driven chunk parser: the search for the first record boundary of a
  chunk, the header skip, and \<open>parse_from\<close>. The lemmas show that the search is the machine's run over
  the bytes of the chunk, and that a whole pass over a chunk is a function of the bytes from the chunk's
  start on and of the chunk's length.
\<close>

section \<open>The parser\<close>

record DfaChunkParser =
  dc_little_endian :: bool
  dc_dfa :: Dfa
  dc_find_dfa :: Dfa
  dc_config :: Config

definition dfa_chunk_parser_new :: "bool \<Rightarrow> Config \<Rightarrow> DfaChunkParser" where
  "dfa_chunk_parser_new le c =
     \<lparr>dc_little_endian = le, dc_dfa = dfa_new le c,
      dc_find_dfa = dfa_new le (c\<lparr>quote_handling := Toggle\<rparr>), dc_config = c\<rparr>"

definition assumption_to_state :: "Config \<Rightarrow> Assumption \<Rightarrow> State" where
  "assumption_to_state c a = (case a of
       OutOfQuotes \<Rightarrow> FieldStart
     | InQuotes \<Rightarrow> InQuotedField
     | InQuotesAfterEscape \<Rightarrow> if doubled_quotes c then AfterClosingQuote else InEscapedQuote)"

text \<open>What the scan of one window finds: a record end, a rejected byte, or the end of the window.\<close>

datatype window_scan = EndAt nat | RejectedAt nat | RanOut nat State

definition find_skip :: "bool \<Rightarrow> Dfa \<Rightarrow> byte list \<Rightarrow> State \<Rightarrow> nat" where
  "find_skip le dfa tail q =
     (case (case q of
          InField \<Rightarrow> needles_find le (in_field_needles dfa) tail
        | InQuotedField \<Rightarrow> needles_find le (in_quoted_needles dfa) tail
        | RecordStart \<Rightarrow> position (record_start_structural dfa) tail
        | _ \<Rightarrow> Some 0) of
        Some k \<Rightarrow> k | None \<Rightarrow> length tail)"

function find_window ::
    "bool \<Rightarrow> Dfa \<Rightarrow> bool \<Rightarrow> byte list \<Rightarrow> nat \<Rightarrow> nat \<Rightarrow> State \<Rightarrow> window_scan" where
  "find_window le dfa strict_probe buf buf_end pos q =
     (if pos < buf_end then
        (let pos1 = pos + find_skip le dfa (subslice buf pos buf_end) q in
         if buf_end \<le> pos1 then RanOut pos1 q
         else
           (let trans = transition dfa q (buf ! pos1);
                strict_rejected = strict_probe \<and> is_strict_error trans;
                q' = next_state trans;
                s = state_u8 q'
            in if s < FIRST_ACTION \<and> \<not> strict_rejected
               then find_window le dfa strict_probe buf buf_end (pos1 + 1) q'
               else if s = ERROR_STATE \<or> strict_rejected then RejectedAt pos1
               else if s = RECORD_END_STATE then EndAt pos1
               else find_window le dfa strict_probe buf buf_end (pos1 + 1) FieldStart))
      else RanOut pos q)"
  by pat_completeness auto
termination
  by (relation "measure (\<lambda>(le, dfa, strict_probe, buf, buf_end, pos, q). buf_end - pos)") auto

declare find_window.simps [simp del]

partial_function (option) find_record_start_from ::
    "'r reader_ops \<Rightarrow> bool \<Rightarrow> Dfa \<Rightarrow> bool \<Rightarrow> State \<Rightarrow> nat \<Rightarrow> 'r
      \<Rightarrow> (('u Error + nat option) \<times> 'r) option" where
  "find_record_start_from R le dfa strict_probe q consumed r =
     (case r_fill R 1 r of
        (Inl e, r1) \<Rightarrow> Some (Inl (IO e), r1)
      | (Inr _, r1) \<Rightarrow>
          (let buf = r_buffer R r1;
               buf_end = min (length buf) (r_remaining R r1) in
           if buf_end = 0 then Some (Inr None, r1)
           else (case find_window le dfa strict_probe buf buf_end 0 q of
               RejectedAt anchor \<Rightarrow>
                 Some (Inl (InvalidQuote (at_byte (consumed + anchor))), r_consume R (anchor + 1) r1)
             | EndAt anchor \<Rightarrow> Some (Inr (Some (consumed + anchor)), r_consume R anchor r1)
             | RanOut pos q' \<Rightarrow>
                 find_record_start_from R le dfa strict_probe q' (consumed + pos) (r_consume R pos r1))))"

definition dfa_scan_record_start ::
    "'r reader_ops \<Rightarrow> DfaChunkParser \<Rightarrow> Assumption \<Rightarrow> bool \<Rightarrow> 'r
      \<Rightarrow> (('u Error + nat option) \<times> 'r) option" where
  "dfa_scan_record_start R P a strict_probe r =
     find_record_start_from R (dc_little_endian P) (dc_find_dfa P) strict_probe
       (assumption_to_state (dc_config P) a) 0 r"

definition dfa_scan_header_end ::
    "'r reader_ops \<Rightarrow> DfaChunkParser \<Rightarrow> 'r \<Rightarrow> (('u Error + nat option) \<times> 'r) option" where
  "dfa_scan_header_end R P r =
     find_record_start_from R (dc_little_endian P) (dc_dfa P) False RecordStart 0 r"

definition dfa_parse_from ::
    "'r reader_ops \<Rightarrow> (byte list \<Rightarrow> nat + nat) \<Rightarrow> DfaChunkParser \<Rightarrow> ('s, 'u) accumulator \<Rightarrow> nat \<Rightarrow> 's \<Rightarrow> 'r
      \<Rightarrow> (('u Error + nat option \<times> 's) \<times> 'r) option" where
  "dfa_parse_from R V P acc base state r =
     driver_run R V dfa_stepper_ops acc base r
       (stepper_new (dc_little_endian P) (dc_dfa P) (dc_config P) base) state"

definition dfa_parser ::
    "'r reader_ops \<Rightarrow> (byte list \<Rightarrow> nat + nat) \<Rightarrow> DfaChunkParser \<Rightarrow> ('s, 'u) accumulator
      \<Rightarrow> ('r, 's, 'u) chunk_parser" where
  "dfa_parser R V P acc = \<lparr>
     cp_config = dc_config P,
     cp_scan_record_start = dfa_scan_record_start R P,
     cp_scan_header_end = dfa_scan_header_end R P,
     cp_parse_from = dfa_parse_from R V P acc\<rparr>"

section \<open>The search, byte by byte\<close>

datatype search = Searching State | FoundEnd nat | RejectedByte nat

definition search_byte :: "Config \<Rightarrow> bool \<Rightarrow> nat \<Rightarrow> byte \<Rightarrow> State \<Rightarrow> search" where
  "search_byte c strict p b q =
     (let t = transition (dfa_new True c) q b in
      if strict \<and> is_strict_error t \<or> next_state t = Error then RejectedByte p
      else if next_state t = RecordEnd then FoundEnd p
      else Searching (if next_state t = FieldEnd then FieldStart else next_state t))"

fun search_run :: "Config \<Rightarrow> bool \<Rightarrow> nat \<Rightarrow> byte list \<Rightarrow> State \<Rightarrow> search" where
  "search_run c strict p [] q = Searching q"
| "search_run c strict p (b # bs) q = (case search_byte c strict p b q of
       Searching q' \<Rightarrow> search_run c strict (p + 1) bs q'
     | out \<Rightarrow> out)"

text \<open>The result over the bytes \<open>bs\<close> of a chunk.\<close>

definition search_result :: "search \<Rightarrow> 'u Error + nat option" where
  "search_result out = (case out of
       Searching q \<Rightarrow> Inr None
     | FoundEnd p \<Rightarrow> Inr (Some p)
     | RejectedByte p \<Rightarrow> Inl (InvalidQuote (at_byte p)))"

lemma search_run_append:
  "search_run c strict p (xs @ ys) q = (case search_run c strict p xs q of
     Searching q' \<Rightarrow> search_run c strict (p + length xs) ys q' | out \<Rightarrow> out)"
  by (induction xs arbitrary: p q) (auto split: search.splits)

definition shift_search :: "nat \<Rightarrow> search \<Rightarrow> search" where
  "shift_search d out = (case out of
     Searching q \<Rightarrow> Searching q | FoundEnd i \<Rightarrow> FoundEnd (d + i) | RejectedByte i \<Rightarrow> RejectedByte (d + i))"

lemma search_run_shift: "search_run c strict (d + p) bs q = shift_search d (search_run c strict p bs q)"
proof (induction bs arbitrary: p q)
  case Nil
  then show ?case by (simp add: shift_search_def)
next
  case (Cons b bs)
  have "search_byte c strict (d + p) b q = shift_search d (search_byte c strict p b q)"
    by (simp add: search_byte_def shift_search_def Let_def)
  with Cons.IH[of "Suc p"] show ?case
    by (cases "search_byte c strict p b q") (simp_all add: shift_search_def)
qed

lemma search_run_bounds:
  "search_run c strict p bs q = FoundEnd e \<Longrightarrow> p \<le> e \<and> e < p + length bs"
  "search_run c strict p bs q = RejectedByte e \<Longrightarrow> p \<le> e \<and> e < p + length bs"
  by (induction bs arbitrary: p q) (fastforce simp: search_byte_def Let_def split: search.splits if_splits)+

text \<open>The probe needs a dialect whose tags lie on structural bytes; \<open>find_dfa\<close> is such a one, and
  without the probe every dialect is.\<close>

definition probe_ok :: "Config \<Rightarrow> bool \<Rightarrow> bool" where
  "probe_ok c strict \<longleftrightarrow> (strict \<longrightarrow> quote_handling c \<noteq> Literal)"

definition skippable :: "Config \<Rightarrow> State \<Rightarrow> byte \<Rightarrow> bool" where
  "skippable c q b = (case q of
       InField \<Rightarrow> \<not> snd (in_field_cell c b)
     | InQuotedField \<Rightarrow> \<not> snd (in_quoted_cell c b)
     | RecordStart \<Rightarrow> is_terminator (terminator c) b
     | _ \<Rightarrow> False)"

lemma search_byte_skippable:
  assumes "skippable c q b" and "probe_ok c strict"
  shows "search_byte c strict p b q = Searching q"
proof -
  have "next_state (transition (dfa_new True c) q b) = q"
    using assms(1) by (cases q) (auto simp: skippable_def in_field_cell_def in_quoted_cell_def
        record_start_cell_def transition_def dfa_new_def split: if_splits QuoteHandling.splits)
  moreover have "strict \<Longrightarrow> \<not> is_strict_error (transition (dfa_new True c) q b)"
    using assms by (cases q) (auto simp: skippable_def probe_ok_def in_field_cell_def in_quoted_cell_def
        record_start_cell_def transition_def dfa_new_def split: if_splits QuoteHandling.splits)
  moreover have "q \<noteq> Error \<and> q \<noteq> RecordEnd \<and> q \<noteq> FieldEnd"
    using assms(1) by (auto simp: skippable_def)
  ultimately show ?thesis by (auto simp: search_byte_def Let_def)
qed

lemma search_run_skippable:
  assumes "\<forall>b\<in>set bs. skippable c q b" and "probe_ok c strict"
  shows "search_run c strict p bs q = Searching q"
  using assms(1) by (induction bs arbitrary: p) (auto simp: search_byte_skippable[OF _ assms(2)])

lemma find_skip_sound:
  "find_skip le (dfa_new le c) tail q \<le> length tail \<and>
    (\<forall>i<find_skip le (dfa_new le c) tail q. skippable c q (tail ! i))"
proof -
  have f: "scan_sound (\<lambda>b. snd (in_field_cell c b)) tail (needles_find le (in_field_needles (dfa_new le c)) tail)"
    by (rule in_field_needles_sound)
  have g: "scan_sound (\<lambda>b. snd (in_quoted_cell c b)) tail (needles_find le (in_quoted_needles (dfa_new le c)) tail)"
    by (rule in_quoted_needles_sound)
  have h: "record_start_structural (dfa_new le c) b \<longleftrightarrow> \<not> is_terminator (terminator c) b" for b
    by (simp add: dfa_new_def)
  have p: "position (record_start_structural (dfa_new le c)) tail = r \<Longrightarrow>
      scan_sound (\<lambda>b. \<not> is_terminator (terminator c) b) tail r" for r
    using h by (cases r) (auto simp: scan_sound_def position_None_iff position_Some_iff)
  show ?thesis
    using f g p[OF refl]
    by (cases q) (auto simp: find_skip_def skippable_def scan_sound_def split: option.splits)
qed

text \<open>A window is the search over its bytes.\<close>

lemma find_window_ok:
  assumes "probe_ok c strict" and "e \<le> length buf" and "pos \<le> e"
  shows "find_window le (dfa_new le c) strict buf e pos q =
    (case search_run c strict pos (subslice buf pos e) q of
       Searching q' \<Rightarrow> RanOut e q' | FoundEnd p \<Rightarrow> EndAt p | RejectedByte p \<Rightarrow> RejectedAt p)"
  using assms(3)
proof (induction "e - pos" arbitrary: pos q rule: less_induct)
  case less
  note unf = find_window.simps[of le "dfa_new le c" strict buf e pos q]
  show ?case
  proof (cases "pos < e")
    case False
    with unf less.prems show ?thesis by simp
  next
    case True
    let ?tail = "subslice buf pos e"
    define k where "k = find_skip le (dfa_new le c) ?tail q"
    have len: "length ?tail = e - pos" using assms(2) by simp
    have k: "k \<le> e - pos" "\<forall>i<k. skippable c q (?tail ! i)"
      using find_skip_sound[of le c ?tail q] len by (auto simp: k_def)
    have front: "search_run c strict pos (subslice buf pos (pos + k)) q = Searching q"
    proof (rule search_run_skippable[OF _ assms(1)], rule ballI)
      fix b assume "b \<in> set (subslice buf pos (pos + k))"
      then obtain i where "i < k" "buf ! (pos + i) = b" by (auto dest: in_slice)
      with k assms(2) True show "skippable c q b"
        using slice_nth[of pos i e buf] by auto
    qed
    have split: "?tail = subslice buf pos (pos + k) @ subslice buf (pos + k) e"
      using k(1) assms(2) less.prems by (simp add: slice_append_slice)
    have lk: "length (subslice buf pos (pos + k)) = k" using k(1) assms(2) less.prems by simp
    have run: "search_run c strict pos ?tail q = search_run c strict (pos + k) (subslice buf (pos + k) e) q"
      unfolding split search_run_append front search.case lk ..
    show ?thesis
    proof (cases "e \<le> pos + k")
      case end_: True
      then have "pos + k = e" using k(1) less.prems by simp
      with unf True run show ?thesis by (simp add: Let_def k_def[symmetric])
    next
      case False
      let ?p = "pos + k"
      define t where "t = transition (dfa_new True c) q (buf ! ?p)"
      have t: "transition (dfa_new le c) q (buf ! ?p) = t" using transition_le[of le c] by (simp add: t_def)
      have cons: "subslice buf ?p e = buf ! ?p # subslice buf (Suc ?p) e"
        using False assms(2) by (simp add: subslice_def Cons_nth_drop_Suc[symmetric] take_Cons')
      have raw: "state_u8 (next_state t) = ERROR_STATE \<longleftrightarrow> next_state t = Error"
        "state_u8 (next_state t) = RECORD_END_STATE \<longleftrightarrow> next_state t = RecordEnd"
        "state_u8 (next_state t) < FIRST_ACTION \<longleftrightarrow> interior (next_state t)"
        by (rule state_u8_eq below_first_action)+
      have IH: "find_window le (dfa_new le c) strict buf e (Suc ?p) q' =
          (case search_run c strict (Suc ?p) (subslice buf (Suc ?p) e) q' of
             Searching q' \<Rightarrow> RanOut e q' | FoundEnd p \<Rightarrow> EndAt p | RejectedByte p \<Rightarrow> RejectedAt p)" for q'
        using less.hyps[of "Suc ?p" q'] True False by simp
      have step: "find_window le (dfa_new le c) strict buf e pos q =
          (if interior (next_state t) \<and> \<not> (strict \<and> is_strict_error t)
           then find_window le (dfa_new le c) strict buf e (Suc ?p) (next_state t)
           else if next_state t = Error \<or> strict \<and> is_strict_error t then RejectedAt ?p
           else if next_state t = RecordEnd then EndAt ?p
           else find_window le (dfa_new le c) strict buf e (Suc ?p) FieldStart)"
        using True False
        by (simp only: unf Let_def k_def[symmetric] t raw if_True if_False Suc_eq_plus1)
      have byte: "search_byte c strict ?p (buf ! ?p) q =
          (if strict \<and> is_strict_error t \<or> next_state t = Error then RejectedByte ?p
           else if next_state t = RecordEnd then FoundEnd ?p
           else Searching (if next_state t = FieldEnd then FieldStart else next_state t))"
        by (simp add: search_byte_def t_def[symmetric] Let_def)
      show ?thesis
        unfolding run cons step search_run.simps byte IH by (auto simp: interior_def)
    qed
  qed
qed

context chunk_reader
begin

text \<open>The search over a reader is the search over what is left of the chunk.\<close>

lemma find_record_start_ok:
  fixes strict :: bool
  assumes "probe_ok c strict" and "rinv r"
  defines "out \<equiv> \<lambda>p q r. search_run c strict p (take (r_remaining R r) (stream r)) q"
  shows "\<exists>(res :: 'e Error + nat option) r'.
    find_record_start_from R le (dfa_new le c) strict q p r = Some (res, r') \<and> rinv r' \<and>
    (res = search_result (out p q r) \<and>
      (\<forall>e. out p q r = FoundEnd e \<longrightarrow> stream r' = drop (e - p) (stream r) \<and>
         r_remaining R r' = r_remaining R r - (e - p)) \<or>
     (\<exists>err. res = Inl err \<and> fill_failed err))"
  using assms(2)
proof (induction "length (stream r)" arbitrary: r p q rule: less_induct)
  case less
  obtain o1 r1 where f: "r_fill R 1 r = (o1, r1)" by fastforce
  note f_ok = fill[OF less.prems f] and st = fill_stream[OF less.prems f]
  show ?case
  proof (cases o1)
    case (Inl e)
    then have "fill_failed (IO e :: 'e Error)" using f less.prems fill_failedI by blast
    moreover have "find_record_start_from R le (dfa_new le c) strict q p r = Some (Inl (IO e) :: 'e Error + nat option, r1)"
      using f Inl by (subst find_record_start_from.simps) simp
    ultimately show ?thesis using f_ok by blast
  next
    case (Inr u)
    let ?buf = "r_buffer R r1" and ?rem = "r_remaining R r"
    define e where "e = min (length ?buf) ?rem"
    have rem: "r_remaining R r1 = ?rem" using f_ok by simp
    have emp: "?buf = [] \<longleftrightarrow> stream r = []"
      using empty_after_fill[OF less.prems, of 1 r1] f Inr by simp
    show ?thesis
    proof (cases "e = 0")
      case True
      then have none: "take ?rem (stream r) = []" using emp by (auto simp: e_def min_def split: if_splits)
      have "out p q r = Searching q" unfolding out_def none by simp
      moreover have "find_record_start_from R le (dfa_new le c) strict q p r = Some (Inr None :: 'e Error + nat option, r1)"
        using f Inr True rem by (subst find_record_start_from.simps) (simp add: e_def Let_def)
      ultimately show ?thesis using f_ok by (auto simp: search_result_def)
    next
      case False
      let ?w = "find_window le (dfa_new le c) strict ?buf e 0 q"
      have win: "?w = (case search_run c strict 0 (take e ?buf) q of
          Searching q' \<Rightarrow> RanOut e q' | FoundEnd p \<Rightarrow> EndAt p | RejectedByte p \<Rightarrow> RejectedAt p)"
        using find_window_ok[OF assms(1), of e ?buf 0 le q] by (simp add: e_def subslice_def)
      have loop: "find_record_start_from R le (dfa_new le c) strict q p r =
          (case ?w of
             RejectedAt anchor \<Rightarrow> Some (Inl (InvalidQuote (at_byte (p + anchor))) :: 'e Error + nat option, r_consume R (anchor + 1) r1)
           | EndAt anchor \<Rightarrow> Some (Inr (Some (p + anchor)), r_consume R anchor r1)
           | RanOut pos q' \<Rightarrow> find_record_start_from R le (dfa_new le c) strict q' (p + pos) (r_consume R pos r1))"
        using f Inr False unfolding e_def
        by (subst find_record_start_from.simps) (simp only: Let_def prod.case sum.case rem if_False)
      have chunk: "take ?rem (stream r) = take e ?buf @ take (?rem - e) (drop e (stream r))"
      proof -
        have "take e ?buf = take e (stream r)"
          using st by (metis append_Nil2 diff_is_0_eq e_def min.cobounded1 stream_def take0 take_append)
        moreover have "take ?rem (stream r) = take e (stream r) @ take (?rem - e) (drop e (stream r))"
          by (metis add_diff_inverse_nat e_def linorder_not_less min.cobounded2 take_add)
        ultimately show ?thesis by simp
      qed
      have len: "length (take e ?buf) = e" by (simp add: e_def)
      have shift: "search_run c strict p (take e ?buf) q = (case search_run c strict 0 (take e ?buf) q of
          Searching q' \<Rightarrow> Searching q' | FoundEnd i \<Rightarrow> FoundEnd (p + i) | RejectedByte i \<Rightarrow> RejectedByte (p + i))"
        using search_run_shift[of c strict p 0] by (simp add: shift_search_def)
      show ?thesis
      proof (cases "search_run c strict 0 (take e ?buf) q")
        case (FoundEnd i)
        then have i: "i < e" using search_run_bounds(1)[OF FoundEnd] len by simp
        have res: "out p q r = FoundEnd (p + i)"
          unfolding out_def chunk search_run_append shift FoundEnd by simp
        have "i \<le> length ?buf" using i by (simp add: e_def)
        with loop win FoundEnd res f_ok st rem consume[of r1 i] consume_stream[of r1 i] show ?thesis
          by (auto simp: search_result_def)
      next
        case (RejectedByte i)
        then have i: "i < e" using search_run_bounds(2)[OF RejectedByte] len by simp
        have res: "out p q r = RejectedByte (p + i)"
          unfolding out_def chunk search_run_append shift RejectedByte by simp
        have "i + 1 \<le> length ?buf" using i by (simp add: e_def)
        with loop win RejectedByte res f_ok consume[of r1 "i + 1"] show ?thesis
          by (auto simp: search_result_def)
      next
        case (Searching q')
        let ?r2 = "r_consume R e r1"
        have e_le: "e \<le> length ?buf" by (simp add: e_def)
        have r2: "rinv ?r2" "stream ?r2 = drop e (stream r)" "r_remaining R ?r2 = ?rem - e"
          using consume[of r1 e] consume_stream[of r1 e] f_ok st rem e_le by auto
        have out2: "out p q r = out (p + e) q' ?r2"
          unfolding out_def chunk search_run_append shift Searching using r2 len by simp
        have "length (stream ?r2) < length (stream r)"
          using r2(2) False emp by (auto simp: e_def)
        from less.hyps[OF this r2(1), of q' "p + e"]
        obtain res :: "'e Error + nat option" and r' where ih:
          "find_record_start_from R le (dfa_new le c) strict q' (p + e) ?r2 = Some (res, r')" "rinv r'"
          "res = search_result (out (p + e) q' ?r2) \<and>
            (\<forall>x. out (p + e) q' ?r2 = FoundEnd x \<longrightarrow> stream r' = drop (x - (p + e)) (stream ?r2) \<and>
               r_remaining R r' = r_remaining R ?r2 - (x - (p + e))) \<or>
           (\<exists>err. res = Inl err \<and> fill_failed err)"
          by blast
        have "x - (p + e) + e = x - p" if "out p q r = FoundEnd x" for x
          using search_run_bounds(1)[of c strict "p + e" "take (r_remaining R ?r2) (stream ?r2)" q' x]
            that[unfolded out2] by (simp add: out_def)
        with ih(3) r2 have "res = search_result (out p q r) \<and>
            (\<forall>x. out p q r = FoundEnd x \<longrightarrow> stream r' = drop (x - p) (stream r) \<and>
               r_remaining R r' = ?rem - (x - p)) \<or>
           (\<exists>err. res = Inl err \<and> fill_failed err)"
          unfolding out2 by (fastforce simp: add.commute)
        with ih loop win Searching show ?thesis by auto
      qed
    qed
  qed
qed

end

section \<open>A pass as a function of the bytes\<close>

text \<open>The boundary a pass looks for in a chunk of \<open>rem\<close> bytes, \<open>bs\<close> being the input from the chunk's
  start on.\<close>

definition spec_scan ::
    "Config \<Rightarrow> Assumption \<Rightarrow> FindRecordStart \<Rightarrow> nat \<Rightarrow> byte list \<Rightarrow> 'u Error + nat option" where
  "spec_scan c a mode rem bs = (case mode of
       FindNo \<Rightarrow> Inr (Some 0)
     | SkipHeaders \<Rightarrow> search_result (search_run c False 0 (take rem bs) RecordStart)
     | FindStrict \<Rightarrow> search_result
         (search_run (c\<lparr>quote_handling := Toggle\<rparr>) True 0 (take rem bs) (assumption_to_state c a))
     | FindLenient \<Rightarrow> search_result
         (search_run (c\<lparr>quote_handling := Toggle\<rparr>) False 0 (take rem bs) (assumption_to_state c a)))"

text \<open>What is parsed once the boundary at \<open>start\<close> is known: nothing if the bare terminators reach the end
  of the chunk, or the reference parse of what follows them.\<close>

definition spec_body ::
    "Config \<Rightarrow> ('s, 'u) accumulator \<Rightarrow> nat \<Rightarrow> byte list \<Rightarrow> nat \<Rightarrow> 's \<Rightarrow> 'u Error + nat option \<times> 's" where
  "spec_body c acc rem bs start s =
     (let (k, still) = skip_spec (terminator c) (rem - start) (drop start bs)
      in if still then Inr (Some (start + k), s)
         else spec_parse c acc rem (start + k) (drop (start + k) bs) s)"

definition spec_pass ::
    "Config \<Rightarrow> ('s, 'u) accumulator \<Rightarrow> Assumption \<Rightarrow> FindRecordStart \<Rightarrow> nat \<Rightarrow> byte list \<Rightarrow> 's
      \<Rightarrow> ('s, 'u) PassResult" where
  "spec_pass c acc a mode rem bs s = (case spec_scan c a mode rem bs of
       Inl e \<Rightarrow> failed e
     | Inr None \<Rightarrow> no_record s
     | Inr (Some start) \<Rightarrow> started start (spec_body c acc rem bs start s))"

lemma probe_ok_toggle [simp]: "probe_ok (c\<lparr>quote_handling := Toggle\<rparr>) strict" "probe_ok c False"
  by (simp_all add: probe_ok_def)

lemma search_result_Some:
  "search_result out = Inr (Some e) \<longleftrightarrow> out = FoundEnd e"
  by (cases out) (auto simp: search_result_def)

lemma skip_spec_le: "skip_spec t rem bs = (k, still) \<Longrightarrow> k \<le> rem"
  by (auto simp: skip_spec_def Let_def)

text \<open>The offset the parse of a pass begins at: past the record boundary and the bare terminators after it.\<close>

definition parse_starts :: "Config \<Rightarrow> Assumption \<Rightarrow> FindRecordStart \<Rightarrow> nat \<Rightarrow> byte list \<Rightarrow> nat \<Rightarrow> bool" where
  "parse_starts c a mode rem bs p \<longleftrightarrow> (\<exists>start k. spec_scan c a mode rem bs = (Inr (Some start) :: unit Error + nat option) \<and>
     skip_spec (terminator c) (rem - start) (drop start bs) = (k, False) \<and> p = start + k)"

lemma spec_scan_found:
  "spec_scan c a mode rem bs = (Inr x :: 'u Error + nat option) \<Longrightarrow>
     spec_scan c a mode rem bs = (Inr x :: 'v Error + nat option)"
  by (auto simp: spec_scan_def search_result_def split: FindRecordStart.splits search.splits)

locale pass_env = chunk_reader R rinv unread + validator V vlen
  for R :: "'r reader_ops" and rinv and unread and V and vlen
begin

text \<open>The body of the pass is a UTF-8 error at the end of what is valid from where its parse begins.\<close>

definition utf8_failed ::
    "Config \<Rightarrow> Assumption \<Rightarrow> FindRecordStart \<Rightarrow> nat \<Rightarrow> byte list \<Rightarrow> 'u Error \<Rightarrow> bool" where
  "utf8_failed c a mode rem bs err \<longleftrightarrow> (\<exists>p. parse_starts c a mode rem bs p \<and>
     vlen (drop p bs) < length (drop p bs) \<and> err = Utf8 (at_byte (p + vlen (drop p bs))))"

text \<open>Any chunk parser whose scan and whose parse of a chunk's body are right makes a right pass; \<open>fails\<close>
  says which errors its parse may return otherwise.\<close>

lemma chunk_parse_parts:
  fixes acc :: "('s, 'u) accumulator" and P :: "('r, 's, 'u) chunk_parser"
  assumes "rinv r" and conf: "cp_config P = c"
  defines "bs \<equiv> stream r" and "rem \<equiv> r_remaining R r"
  assumes scan: "\<exists>res r'. cp_scan P a mode r = Some (res, r') \<and> rinv r' \<and>
      (res = spec_scan c a mode rem bs \<and>
        (\<forall>start. res = Inr (Some start) \<longrightarrow> stream r' = drop start bs \<and> r_remaining R r' = rem - start) \<or>
       (\<exists>err. res = Inl err \<and> fill_failed err))"
    and parse: "\<And>base r2. rinv r2 \<Longrightarrow> r_remaining R r2 = rem - base \<Longrightarrow> length (stream r2) \<le> length bs \<Longrightarrow>
      stream r2 = [] \<or> \<not> is_terminator (terminator c) (hd (stream r2)) \<Longrightarrow>
      \<exists>res r'. cp_parse_from P base s r2 = Some (res, r') \<and> rinv r' \<and>
        (res = spec_parse c acc rem base (stream r2) s \<or> (\<exists>err. res = Inl err \<and> (fill_failed err \<or> fails base (stream r2) err)))"
  shows "\<exists>res r'. chunk_parse R P s a mode r = Some (res, r') \<and> rinv r' \<and>
    (res = spec_pass c acc a mode rem bs s \<or>
     (\<exists>err. result res = Inl err \<and> (fill_failed err \<or> (\<exists>p. parse_starts c a mode rem bs p \<and> fails p (drop p bs) err))))"
proof -
  from scan obtain sc r1 where sc: "cp_scan P a mode r = Some (sc, r1)" "rinv r1" and
    sc_ok: "sc = spec_scan c a mode rem bs \<and>
      (\<forall>start. sc = Inr (Some start) \<longrightarrow> stream r1 = drop start bs \<and> r_remaining R r1 = rem - start) \<or>
     (\<exists>err. sc = Inl err \<and> fill_failed err)"
    by blast
  show ?thesis
  proof (cases "\<exists>start. sc = Inr (Some start)")
    case False
    then consider (err) e where "sc = Inl e" | (none) "sc = Inr None"
      by (cases sc) (metis not_Some_eq)+
    then show ?thesis
    proof cases
      case err
      then have "chunk_parse R P s a mode r = Some (failed e, r1)"
        using sc by (simp add: chunk_parse_def)
      moreover have "failed e = spec_pass c acc a mode rem bs s \<or> fill_failed e"
      proof -
        from sc_ok err have "spec_scan c a mode rem bs = Inl e \<or> fill_failed e" by auto
        then show ?thesis by (auto simp: spec_pass_def)
      qed
      moreover have "result (failed e :: ('s, 'u) PassResult) = Inl e" by (simp add: failed_def)
      ultimately show ?thesis using sc(2) by blast
    next
      case none
      then have "chunk_parse R P s a mode r = Some (no_record s, r1)"
        using sc by (simp add: chunk_parse_def)
      moreover have "spec_scan c a mode rem bs = (Inr None :: 'u Error + nat option)"
        using sc_ok none by auto
      ultimately show ?thesis using sc(2) by (simp add: spec_pass_def)
    qed
  next
    case True
    then obtain start where start: "sc = Inr (Some start)" ..
    with sc_ok have r1: "spec_scan c a mode rem bs = (Inr (Some start) :: 'u Error + nat option)" "stream r1 = drop start bs"
      "r_remaining R r1 = rem - start"
      by auto
    obtain k still where sk: "skip_spec (terminator c) (rem - start) (drop start bs) = (k, still)"
      by fastforce
    with skip_empty_lines_ok[OF sc(2), of c k still] r1 obtain so :: "'u Error + nat \<times> bool" and r2 where
      so: "skip_empty_lines R c r1 = Some (so, r2)" "rinv r2" and
      so_ok: "so = Inr (k, still) \<and> stream r2 = drop k (drop start bs) \<and> r_remaining R r2 = rem - start - k \<or>
        (\<exists>err. so = Inl err \<and> fill_failed err)"
      by auto
    have spec: "spec_pass c acc a mode rem bs s = started start
        (if still then Inr (Some (start + k), s)
         else spec_parse c acc rem (start + k) (drop (start + k) bs) s)"
      using r1 sk by (simp add: spec_pass_def spec_body_def)
    show ?thesis
    proof (cases so)
      case (Inl err)
      with so_ok have "fill_failed err" by simp
      with sc start so Inl conf show ?thesis
        by (auto simp: chunk_parse_def started_def)
    next
      case (Inr x)
      with so_ok have x: "x = (k, still)" and r2: "stream r2 = drop (start + k) bs"
        "r_remaining R r2 = rem - (start + k)"
        by (auto simp: add.commute)
      show ?thesis
      proof (cases still)
        case True
        with sc start so Inr x conf spec show ?thesis by (auto simp: chunk_parse_def)
      next
        case False
        have "k = terminator_run (terminator c) (drop start bs)" using sk False by (auto simp: skip_spec_def Let_def)
        then have "terminator_run (terminator c) (drop (start + k) bs) = 0"
          using terminator_run_drop[of k "terminator c" "drop start bs"] by (simp add: add.commute)
        then have first: "stream r2 = [] \<or> \<not> is_terminator (terminator c) (hd (stream r2))"
          by (simp add: terminator_run_0 r2(1))
        from parse[OF so(2) r2(2) _ first] obtain po r3 where
          po: "cp_parse_from P (start + k) s r2 = Some (po, r3)" "rinv r3" and
          po_ok: "po = spec_parse c acc rem (start + k) (drop (start + k) bs) s \<or>
            (\<exists>err. po = Inl err \<and> (fill_failed err \<or> fails (start + k) (drop (start + k) bs) err))"
          unfolding r2(1) by auto
        have run: "chunk_parse R P s a mode r = Some (started start po, r3)"
          using sc start so Inr x False conf po by (simp add: chunk_parse_def)
        have begins: "parse_starts c a mode rem bs (start + k)"
          using spec_scan_found[OF r1(1)] sk False by (auto simp: parse_starts_def)
        from po_ok have "started start po = spec_pass c acc a mode rem bs s \<or>
            (\<exists>err. result (started start po) = Inl err \<and>
              (fill_failed err \<or> (\<exists>p. parse_starts c a mode rem bs p \<and> fails p (drop p bs) err)))"
          unfolding spec using False begins by (auto simp: started_def)
        with run po(2) show ?thesis by blast
      qed
    qed
  qed
qed

text \<open>An accumulator that valid inputs cannot tell from another: nor can a parse that settles on the valid part.\<close>

lemma settled_swap:
  fixes acc acc' :: "('s, 'u) accumulator"
  assumes env: "lagging_driver R rinv unread T c acc' L lrel fitting premature V vlen" and same: "interchangeable vlen c acc acc'"
    and settled: "lagging_driver.settled c acc' L vlen base bs (spec_init base s)"
  shows "spec_parse c acc' L base bs s = spec_parse c acc L base bs s"
proof (cases "vlen bs = length bs")
  case True
  with same show ?thesis by (simp add: interchangeable_def)
next
  case False
  let ?v = "take (vlen bs) bs"
  have "vlen ?v = length ?v" using vlen_take[of bs] vlen_le[of bs] by simp
  with same have run: "spec_run c acc L base ?v (spec_init base s) = spec_run c acc' L base ?v (spec_init base s)"
    by (simp add: interchangeable_def)
  show ?thesis
    using settled run False
    unfolding lagging_driver.settled_def[OF env] spec_parse_def spec_rest_def
    using append_take_drop_id[of "vlen bs" bs]
      spec_run_append[of c acc L base ?v "drop (vlen bs) bs" "spec_init base s"]
      spec_run_append[of c acc' L base ?v "drop (vlen bs) bs" "spec_init base s"]
    by (cases "spec_run c acc' L base ?v (spec_init base s)") simp_all
qed

lemma parse_from_ok:
  fixes acc acc' :: "('s, 'u) accumulator"
  assumes "rinv r" and "r_remaining R r = L - base" and "P = dfa_chunk_parser_new le c"
    and same: "interchangeable vlen c acc acc'"
  shows "\<exists>res r'. dfa_parse_from R V P acc' base s r = Some (res, r') \<and> rinv r' \<and>
    (res = spec_parse c acc L base (stream r) s \<or>
     vlen (stream r) < length (stream r) \<and> res = Inl (Utf8 (at_byte (base + vlen (stream r)))) \<or>
     (\<exists>err. res = Inl err \<and> fill_failed err))"
proof -
  have env: "lagging_driver R rinv unread dfa_stepper_ops c acc' L
      (\<lambda>xs tot lag pos e st m. lag = pos \<and> pos = e \<and> srel c xs pos st m) (\<lambda>_. True) (\<lambda>_ _ _ _. False) V vlen"
    by (intro lagging_driver.intro chunk_reader_axioms dfa.lag.lagging_stepper_axioms validator_axioms)
  have "spec_parse c acc' L base (stream r) s = spec_parse c acc L base (stream r) s"
    if "lagging_driver.settled c acc' L vlen base (stream r) (spec_init base s)"
    by (rule settled_swap[OF env same that])
  with lagging_driver.driver_run_ok[OF env assms(1) _ TrueI assms(2), of "stepper_new le (dfa_new le c) c base" s]
    stepper_new_srel[of c "stream r" le base s]
  show ?thesis
    unfolding lagging_driver.run_ok_def[OF env] dfa_parse_from_def assms(3)
    by (simp add: dfa_chunk_parser_new_def flip: spec_parse_def) blast
qed

text \<open>How the scan of a pass leaves the reader.\<close>

lemma scan_ok:
  fixes acc :: "('s, 'u) accumulator"
  assumes "rinv r" and "P = dfa_chunk_parser_new le c"
  defines "bs \<equiv> stream r" and "rem \<equiv> r_remaining R r"
  shows "\<exists>res r'. cp_scan (dfa_parser R V P acc) a mode r = Some (res, r') \<and> rinv r' \<and>
    (res = spec_scan c a mode rem bs \<and>
      (\<forall>start. res = Inr (Some start) \<longrightarrow> stream r' = drop start bs \<and> r_remaining R r' = rem - start) \<or>
     (\<exists>err. res = Inl err \<and> fill_failed err))"
proof -
  have le: "dc_little_endian P = le" "dc_dfa P = dfa_new le c" "dc_config P = c"
    "dc_find_dfa P = dfa_new le (c\<lparr>quote_handling := Toggle\<rparr>)"
    by (simp_all add: assms(2) dfa_chunk_parser_new_def)
  have found: "\<exists>(res :: 'u Error + nat option) r'.
      find_record_start_from R le (dfa_new le c') strict q 0 r = Some (res, r') \<and> rinv r' \<and>
      (res = search_result (search_run c' strict 0 (take rem bs) q) \<and>
        (\<forall>start. res = Inr (Some start) \<longrightarrow> stream r' = drop start bs \<and> r_remaining R r' = rem - start) \<or>
       (\<exists>err. res = Inl err \<and> fill_failed err))"
    if "probe_ok c' strict" for c' strict q
    using find_record_start_ok[OF that assms(1), of le q 0, where 'e = 'u]
    unfolding bs_def rem_def by (fastforce simp: search_result_Some)
  show ?thesis
    using found[of "c\<lparr>quote_handling := Toggle\<rparr>"] found[of c False] assms(1)
    by (cases mode) (simp_all add: cp_scan_def dfa_parser_def dfa_scan_record_start_def
        dfa_scan_header_end_def spec_scan_def le bs_def rem_def)
qed

text \<open>The whole pass, on any reader, with an accumulator that valid inputs cannot tell from the one the
  reference machine is run with.\<close>

lemma pass_swap:
  fixes acc acc' :: "('s, 'u) accumulator"
  assumes inv: "rinv r" and P: "P = dfa_chunk_parser_new le c" and same: "interchangeable vlen c acc acc'"
  defines "bs \<equiv> stream r" and "rem \<equiv> r_remaining R r"
  shows "\<exists>res r'. chunk_parse R (dfa_parser R V P acc') s a mode r = Some (res, r') \<and> rinv r' \<and>
    (res = spec_pass c acc a mode rem bs s \<or>
     (\<exists>err. result res = Inl err \<and> (fill_failed err \<or> utf8_failed c a mode rem bs err)))"
proof -
  have conf: "cp_config (dfa_parser R V P acc') = c" by (simp add: dfa_parser_def P dfa_chunk_parser_new_def)
  have parse: "\<exists>res r'. cp_parse_from (dfa_parser R V P acc') base s r2 = Some (res, r') \<and> rinv r' \<and>
      (res = spec_parse c acc (r_remaining R r) base (stream r2) s \<or> (\<exists>err. res = Inl err \<and> (fill_failed err \<or>
         vlen (stream r2) < length (stream r2) \<and> err = Utf8 (at_byte (base + vlen (stream r2))))))"
    if "rinv r2" "r_remaining R r2 = r_remaining R r - base" for base r2
    using parse_from_ok[OF that P same, of s] by (auto simp: dfa_parser_def)
  have fails: "\<exists>res r'. chunk_parse R (dfa_parser R V P acc') s a mode r = Some (res, r') \<and> rinv r' \<and>
    (res = spec_pass c acc a mode (r_remaining R r) (stream r) s \<or> (\<exists>err. result res = Inl err \<and> (fill_failed err \<or>
       (\<exists>p. parse_starts c a mode (r_remaining R r) (stream r) p \<and> vlen (drop p (stream r)) < length (drop p (stream r)) \<and>
          err = Utf8 (at_byte (p + vlen (drop p (stream r))))))))"
    by (rule chunk_parse_parts[OF inv conf scan_ok[OF inv P] parse])
  then show ?thesis unfolding utf8_failed_def bs_def rem_def .
qed

lemmas pass_ok = pass_swap[OF _ _ interchangeable_refl]

end

end
