(* ===== verification/Segments.thy ===== *)
theory Segments
  imports DfaChunk
begin

text \<open>
  Cutting one parse of the reference machine into segments. A chunk's pass parses from a record boundary to
  the first boundary at or past the chunk's end; the lemmas here show that the offsets of such a
  segment may be counted from anywhere (\<open>spec_parse_shift\<close>), that skipping the empty lines first
  changes nothing (\<open>spec_body_parse\<close>), and that a segment followed by the parse from its end is the
  parse with the larger limit (\<open>spec_parse_compose\<close>).
\<close>

section \<open>Offsets\<close>

definition shift_machine :: "nat \<Rightarrow> 's machine \<Rightarrow> 's machine" where
  "shift_machine d m =
     m\<lparr>m_rec_start := m_rec_start m + d, m_fld_start := m_fld_start m + d,
       m_last_end := map_option (\<lambda>e. e + d) (m_last_end m)\<rparr>"

fun shift_outcome :: "nat \<Rightarrow> ('s, 'u) outcome \<Rightarrow> ('s, 'u) outcome" where
  "shift_outcome d (Running m) = Running (shift_machine d m)"
| "shift_outcome d (Finished e s) = Finished (e + d) s"
| "shift_outcome d (Failed err) = Failed (with_base d err)"

definition shift_result :: "nat \<Rightarrow> 'u Error + nat option \<times> 's \<Rightarrow> 'u Error + nat option \<times> 's" where
  "shift_result d res = (case res of
       Inl err \<Rightarrow> Inl (with_base d err)
     | Inr (rend, s) \<Rightarrow> Inr (map_option (\<lambda>e. e + d) rend, s))"

text \<open>An accumulator whose errors carry no position: a position of its own would be taken for an offset
  into the chunk.\<close>

definition plain_acc :: "('s, 'u) accumulator \<Rightarrow> bool" where
  "plain_acc acc \<longleftrightarrow> (\<forall>s fs e. acc s fs = Inl e \<longrightarrow> error_position (from_user e) = None)"

lemma with_base_None: "error_position e = None \<Longrightarrow> with_base d e = e"
  by (cases e) auto

lemma shift_machine_sel [simp]:
  "m_state (shift_machine d m) = m_state m" "m_fields (shift_machine d m) = m_fields m"
  "m_cur (shift_machine d m) = m_cur m" "m_acc (shift_machine d m) = m_acc m"
  "m_fld_start (shift_machine d m) = m_fld_start m + d"
  "m_last_end (shift_machine d m) = map_option (\<lambda>e. e + d) (m_last_end m)"
  by (simp_all add: shift_machine_def)

lemma hand_over_shift:
  assumes "plain_acc acc"
  shows "hand_over c acc (shift_machine d m) = map_err (with_base d) (hand_over c acc m)"
proof -
  have "map_err from_user (acc s fs) = map_err (with_base d) (map_err from_user (acc s fs))" for s fs
    using assms by (cases "acc s fs") (auto simp: plain_acc_def with_base_None)
  then show ?thesis
    by (auto simp: hand_over_def closed_fields_def shift_machine_def Let_def split: option.splits)
qed

lemma enter_shift:
  assumes "plain_acc acc"
  shows "enter c acc (L + d) (p + d) s (shift_machine d m) = shift_outcome d (enter c acc L p s m)"
  using hand_over_shift[OF assms, of c d m]
  by (cases s; cases "hand_over c acc m")
    (simp_all add: enter_def shift_machine_def closed_fields_def)

lemma spec_byte_shift:
  assumes "plain_acc acc"
  shows "spec_byte c acc (L + d) (p + d) b (shift_machine d m) = shift_outcome d (spec_byte c acc L p b m)"
proof -
  have "copy_byte t b (mark_start c (p + d) b (shift_machine d m)) =
      shift_machine d (copy_byte t b (mark_start c p b m))" for t
    by (simp add: copy_byte_def mark_start_def shift_machine_def)
  with enter_shift[OF assms] show ?thesis
    by (simp add: spec_byte_def Let_def)
qed

lemma spec_run_shift:
  assumes "plain_acc acc"
  shows "spec_run c acc (L + d) (p + d) bs (shift_machine d m) = shift_outcome d (spec_run c acc L p bs m)"
proof (induction bs arbitrary: p m)
  case Nil
  then show ?case by simp
next
  case (Cons b bs)
  show ?case
    using spec_byte_shift[OF assms, of c L d p b m] Cons.IH[of "Suc p"]
    by (cases "spec_byte c acc L p b m") simp_all
qed

lemma spec_parse_shift:
  assumes "plain_acc acc"
  shows "spec_parse c acc (L + d) (base + d) bs s = shift_result d (spec_parse c acc L base bs s)"
proof -
  have init: "spec_init (base + d) s = shift_machine d (spec_init base s)"
    by (simp add: spec_init_def shift_machine_def)
  have fin: "spec_finish c acc (p + d) (shift_machine d m) = shift_result d (spec_finish c acc p m)" for p m
    using hand_over_shift[OF assms, of c d m]
    by (cases "hand_over c acc m") (auto simp: spec_finish_def shift_result_def)
  show ?thesis
    unfolding spec_parse_def spec_rest_def init spec_run_shift[OF assms]
    using fin[of "base + length bs"]
    by (cases "spec_run c acc L base bs (spec_init base s)") (simp_all add: shift_result_def add_ac)
qed

lemma spec_rest_Cons:
  "spec_rest c acc L p (b # bs) m = (case spec_byte c acc L p b m of
     Running m' \<Rightarrow> spec_rest c acc L (p + 1) bs m' | Finished e s \<Rightarrow> Inr (Some e, s) | Failed e \<Rightarrow> Inl e)"
proof (cases "spec_byte c acc L p b m")
  case (Running m')
  then show ?thesis
    by (cases "spec_run c acc L (Suc p) bs m'") (simp_all add: spec_rest_def)
qed (simp_all add: spec_rest_def)

section \<open>The start of a record\<close>

text \<open>At a record start the machine's old start offsets do not matter, and its last record end only shows
  when no record follows.\<close>

definition forget_starts :: "'s machine \<Rightarrow> 's machine" where
  "forget_starts m = (if m_state m = RecordStart then m\<lparr>m_rec_start := 0, m_fld_start := 0\<rparr> else m)"

lemma spec_byte_record_start:
  "m_state m = RecordStart \<Longrightarrow>
    spec_byte c acc L p b (m\<lparr>m_rec_start := x, m_fld_start := y\<rparr>) =
    (if is_terminator (terminator c) b
     then (if L \<le> p then Finished p (m_acc m) else Running (m\<lparr>m_rec_start := x, m_fld_start := y\<rparr>))
     else spec_byte c acc L p b m)"
  by (auto simp: spec_byte_def mark_start_def Let_def transition_def dfa_new_def record_start_cell_def
      enter_def copy_byte_def)

lemma spec_rest_record_start:
  assumes "m_state m = RecordStart"
  shows "spec_rest c acc L p bs (m\<lparr>m_rec_start := x, m_fld_start := y\<rparr>) = spec_rest c acc L p bs m"
  using assms
proof (induction bs arbitrary: p m x y)
  case Nil
  then show ?case by (simp add: spec_finish_def)
next
  case (Cons b bs)
  have m: "m = m\<lparr>m_rec_start := m_rec_start m, m_fld_start := m_fld_start m\<rparr>" by simp
  show ?case
  proof (cases "is_terminator (terminator c) b")
    case False
    then have "spec_byte c acc L p b (m\<lparr>m_rec_start := x, m_fld_start := y\<rparr>) = spec_byte c acc L p b m"
      using spec_byte_record_start[OF Cons.prems, of c acc L p b y x] by simp
    then show ?thesis by (simp add: spec_rest_Cons)
  next
    case True
    have a: "spec_byte c acc L p b (m\<lparr>m_rec_start := x, m_fld_start := y\<rparr>) =
        (if L \<le> p then Finished p (m_acc m) else Running (m\<lparr>m_rec_start := x, m_fld_start := y\<rparr>))"
      using spec_byte_record_start[OF Cons.prems, of c acc L p b y x] True by simp
    have b: "spec_byte c acc L p b m = (if L \<le> p then Finished p (m_acc m) else Running m)"
      using spec_byte_record_start[OF Cons.prems, of c acc L p b "m_fld_start m" "m_rec_start m"] True by simp
    show ?thesis
      using a b Cons.IH[OF Cons.prems, of "p + 1"] by (simp add: spec_rest_Cons)
  qed
qed

text \<open>The empty-line skip of a pass is transparent.\<close>

lemma spec_body_parse:
  assumes "start \<le> rem"
  shows "spec_body c acc rem bs start s = spec_parse c acc rem start (drop start bs) s"
proof -
  let ?bs = "drop start bs" and ?t = "terminator c"
  define n where "n = terminator_run ?t ?bs"
  have n: "n = length (takeWhile (is_terminator ?t) ?bs)" by (simp add: n_def terminator_run_def)
  have split: "?bs = takeWhile (is_terminator ?t) ?bs @ drop n ?bs"
    using n by (metis dropWhile_eq_drop takeWhile_dropWhile_id)
  have run: "spec_run c acc rem start (takeWhile (is_terminator ?t) ?bs) (spec_init start s) =
      (if rem < start + n \<and> n \<noteq> 0 then Finished (max rem start) s else Running (spec_init start s))"
  proof -
    have "\<forall>b\<in>set (takeWhile (is_terminator ?t) ?bs). is_terminator ?t b"
      by (metis set_takeWhileD)
    from spec_run_terminators[OF _ this, of "spec_init start s" acc rem start]
    show ?thesis by (simp add: spec_init_def n)
  qed
  show ?thesis
  proof (cases "rem - start < n")
    case True
    then have "rem < start + n \<and> n \<noteq> 0" using assms by linarith
    then have "spec_parse c acc rem start ?bs s = Inr (Some rem, s)"
      unfolding spec_parse_def spec_rest_def using run assms
      by (subst split) (simp add: spec_run_append max_def)
    with True assms show ?thesis
      by (simp add: spec_body_def skip_spec_def Let_def n_def[symmetric])
  next
    case False
    then have "\<not> (rem < start + n \<and> n \<noteq> 0)" using assms by linarith
    then have "spec_parse c acc rem start ?bs s = spec_rest c acc rem (start + n) (drop n ?bs) (spec_init start s)"
      unfolding spec_parse_def using run n
      by (subst split) (simp add: spec_rest_append)
    also have "\<dots> = spec_parse c acc rem (start + n) (drop n ?bs) s"
      using spec_rest_record_start[of "spec_init (start + n) s" c acc rem "start + n" "drop n ?bs" start start]
      by (simp add: spec_parse_def spec_init_def)
    finally show ?thesis
      using False by (simp add: spec_body_def skip_spec_def Let_def n_def[symmetric] min_def add.commute)
  qed
qed

section \<open>Composition\<close>

text \<open>The records and the error of a parse, without the offset it stopped at.\<close>

definition outcome_of :: "'u Error + nat option \<times> 's \<Rightarrow> 'u Error + 's" where
  "outcome_of res = (case res of Inl e \<Rightarrow> Inl e | Inr (_, s) \<Rightarrow> Inr s)"

lemma terminator_of_RecordEnd:
  "next_state (transition (dfa_new le c) s b) = RecordEnd \<Longrightarrow> is_terminator (terminator c) b"
  by (cases s) (auto simp: transition_def dfa_new_def field_start_cell_def in_field_cell_def
      in_quoted_cell_def after_closing_cell_def in_comment_cell_def record_start_cell_def
      split: if_splits QuoteHandling.splits)

text \<open>The last record end does not influence the records.\<close>

lemma outcome_last_end:
  "outcome_of (spec_rest c acc L p bs (m\<lparr>m_last_end := x\<rparr>)) = outcome_of (spec_rest c acc L p bs m)"
proof (induction bs arbitrary: p m x)
  case Nil
  have "hand_over c acc (m\<lparr>m_last_end := x\<rparr>) = hand_over c acc m"
    by (simp add: hand_over_def closed_fields_def Let_def split: option.split)
  then show ?case
    by (cases "hand_over c acc m") (auto simp: spec_finish_def outcome_of_def)
next
  case (Cons b bs)
  have c1: "copy_byte t b (mark_start c p b (m\<lparr>m_last_end := x\<rparr>)) =
      (copy_byte t b (mark_start c p b m))\<lparr>m_last_end := x\<rparr>" for t
    by (simp add: copy_byte_def mark_start_def)
  have h: "hand_over c acc (m'\<lparr>m_last_end := x\<rparr>) = hand_over c acc m'" for m'
    by (simp add: hand_over_def closed_fields_def Let_def split: option.split)
  have e: "\<exists>y. enter c acc L p s (m'\<lparr>m_last_end := x\<rparr>) = (case enter c acc L p s m' of
      Running m'' \<Rightarrow> Running (m''\<lparr>m_last_end := y\<rparr>) | out \<Rightarrow> out)" for s m'
  proof (cases s)
    case RecordEnd
    then show ?thesis
      by (cases "hand_over c acc m'") (auto simp: enter_def h intro!: exI[of _ "Some p"])
  qed (auto simp: enter_def closed_fields_def intro!: exI[of _ x])
  have "\<exists>y. spec_byte c acc L p b (m\<lparr>m_last_end := x\<rparr>) = (case spec_byte c acc L p b m of
      Running m'' \<Rightarrow> Running (m''\<lparr>m_last_end := y\<rparr>) | out \<Rightarrow> out)"
    using e unfolding spec_byte_def c1 Let_def by simp
  then obtain y where "spec_byte c acc L p b (m\<lparr>m_last_end := x\<rparr>) = (case spec_byte c acc L p b m of
      Running m'' \<Rightarrow> Running (m''\<lparr>m_last_end := y\<rparr>) | out \<Rightarrow> out)" ..
  then show ?case
    using Cons.IH[of "p + 1"] by (cases "spec_byte c acc L p b m") (simp_all add: spec_rest_Cons)
qed

lemma spec_byte_limit:
  assumes "L \<le> L'"
  shows "spec_byte c acc L p b m = Running m' \<Longrightarrow> spec_byte c acc L' p b m = Running m'"
    and "spec_byte c acc L p b m = Failed err \<Longrightarrow> spec_byte c acc L' p b m = Failed err"
proof -
  have "enter c acc L p s m = Running m' \<Longrightarrow> enter c acc L' p s m = Running m'"
    "enter c acc L p s m = Failed err \<Longrightarrow> enter c acc L' p s m = Failed err" for s m
    using assms by (cases s; auto simp: enter_def split: sum.splits if_splits)+
  then show "spec_byte c acc L p b m = Running m' \<Longrightarrow> spec_byte c acc L' p b m = Running m'"
    "spec_byte c acc L p b m = Failed err \<Longrightarrow> spec_byte c acc L' p b m = Failed err"
    using assms by (auto simp: spec_byte_def Let_def split: if_splits)
qed

lemma spec_run_limit:
  assumes "L \<le> L'"
  shows "spec_run c acc L p bs m = Running m' \<Longrightarrow> spec_run c acc L' p bs m = Running m'"
    and "spec_run c acc L p bs m = Failed err \<Longrightarrow> spec_run c acc L' p bs m = Failed err"
  by (induction bs arbitrary: p m)
    (auto dest: spec_byte_limit[OF assms] split: outcome.splits)

text \<open>Where a byte ends the chunk, a parse with a larger limit goes on as if from a fresh record start.\<close>

lemma spec_byte_finished:
  assumes "spec_byte c acc L p b m = Finished e s" and "L \<le> L'" and "p < L'"
  shows "e = p \<and> L \<le> p \<and> is_terminator (terminator c) b \<and>
    (\<exists>m'. spec_byte c acc L' p b m = Running m' \<and> m_state m' = RecordStart \<and> m_acc m' = s \<and>
      (m_state m = RecordStart \<longrightarrow> m_fields m = [] \<and> m_cur m = [] \<longrightarrow> m_fields m' = [] \<and> m_cur m' = []) \<and>
      (m_state m \<noteq> RecordStart \<longrightarrow> m_fields m' = [] \<and> m_cur m' = []))"
proof (cases "m_state m = RecordStart \<and> is_terminator (terminator c) b \<and> L \<le> p")
  case True
  have "transition (dfa_new True c) RecordStart b = transition_new RecordStart False"
    using True by (simp add: transition_def dfa_new_def record_start_cell_def)
  with True assms show ?thesis
    by (auto simp: spec_byte_def Let_def enter_def copy_byte_def mark_start_def)
next
  case False
  let ?t = "transition (dfa_new True c) (m_state m) b"
  let ?m = "copy_byte ?t b (mark_start c p b m)"
  from False assms(1) have en: "enter c acc L p (next_state ?t) ?m = Finished e s"
    by (auto simp: spec_byte_def Let_def split: if_splits)
  then have re: "next_state ?t = RecordEnd"
    by (cases "next_state ?t") (auto simp: enter_def split: sum.splits)
  with en obtain h: "hand_over c acc ?m = Inr s" "L \<le> p" "e = p"
    by (auto simp: enter_def split: sum.splits if_splits)
  have "\<not> (m_state m = RecordStart \<and> is_terminator (terminator c) b \<and> L' \<le> p)" using assms(3) by simp
  then have "spec_byte c acc L' p b m = enter c acc L' p RecordEnd ?m"
    unfolding spec_byte_def Let_def re by (rule if_not_P)
  with h assms(3) terminator_of_RecordEnd[OF re] show ?thesis
    by (simp add: enter_def)
qed

text \<open>The machine at a record start holds nothing.\<close>

definition start_clean :: "'s machine \<Rightarrow> bool" where
  "start_clean m \<longleftrightarrow> (quiet (m_state m) \<longrightarrow> m_fields m = [] \<and> m_cur m = [])"

lemma spec_byte_clean:
  assumes "start_clean m" and "interior (m_state m)" and "spec_byte c acc L p b m = Running m'"
  shows "start_clean m'"
proof -
  let ?t = "transition (dfa_new True c) (m_state m) b"
  let ?m = "copy_byte ?t b (mark_start c p b m)"
  have en: "enter c acc L p (next_state ?t) ?m = Running m'"
    using assms(3) by (auto simp: spec_byte_def Let_def split: if_splits)
  show ?thesis
  proof (cases "interior (next_state ?t)")
    case True
    then have m': "m' = ?m\<lparr>m_state := next_state ?t\<rparr>"
      using en by (cases "next_state ?t") (auto simp: enter_def interior_def)
    show ?thesis
      using quiet_entry[of True c "m_state m" b] assms(1,2)
      by (auto simp: m' start_clean_def copy_byte_def mark_start_def)
  next
    case False
    then show ?thesis
      using en by (cases "next_state ?t")
        (auto simp: enter_def interior_def start_clean_def quiet_def split: sum.splits if_splits)
  qed
qed

lemma spec_run_compose:
  assumes "spec_run c acc L p bs m = Finished e s" and "L \<le> L'" and "p + length bs \<le> L'"
    and "start_clean m" and "interior (m_state m)"
  shows "L \<le> e \<and> p \<le> e \<and> e < p + length bs \<and>
    outcome_of (spec_rest c acc L' p bs m) = outcome_of (spec_parse c acc L' e (drop (e - p) bs) s)"
  using assms
proof (induction bs arbitrary: p m)
  case Nil
  then show ?case by simp
next
  case (Cons b bs)
  show ?case
  proof (cases "spec_byte c acc L p b m")
    case (Running m')
    with Cons.prems have run: "spec_run c acc L (p + 1) bs m' = Finished e s" by simp
    have "spec_byte c acc L' p b m = Running m'" using spec_byte_limit(1)[OF Cons.prems(2) Running] .
    then have "spec_rest c acc L' p (b # bs) m = spec_rest c acc L' (p + 1) bs m'"
      by (simp add: spec_rest_Cons)
    moreover note Cons.IH[OF run Cons.prems(2) _ spec_byte_clean[OF Cons.prems(4,5) Running]
        spec_byte_interior[OF Running]]
    ultimately show ?thesis
      using Cons.prems(3) by (auto simp: drop_Cons' Suc_diff_le)
  next
    case (Finished e' s')
    with Cons.prems have f: "spec_byte c acc L p b m = Finished e s" by simp
    from spec_byte_finished[OF f Cons.prems(2)] Cons.prems(3) obtain m' where
      e: "e = p" "L \<le> p" "is_terminator (terminator c) b" and
      m': "spec_byte c acc L' p b m = Running m'" "m_state m' = RecordStart" "m_acc m' = s"
        "m_fields m' = []" "m_cur m' = []"
      using Cons.prems(4) by (auto simp: start_clean_def quiet_def)
    have "\<not> L' \<le> p" using Cons.prems(3) by simp
    then have b: "spec_byte c acc L' p b (spec_init p s) = Running (spec_init p s)"
      using spec_byte_record_start[of "spec_init p s" c acc L' p b p p] e(3)
      by (simp add: spec_init_def)
    have m'_eq: "m' = (spec_init p s)\<lparr>m_last_end := m_last_end m', m_rec_start := m_rec_start m',
        m_fld_start := m_fld_start m'\<rparr>"
      using m' by (cases m') (simp add: spec_init_def)
    have "outcome_of (spec_rest c acc L' (p + 1) bs m') = outcome_of (spec_rest c acc L' (p + 1) bs (spec_init p s))"
      using outcome_last_end[of c acc L' "p + 1" bs "m_last_end m'" "spec_init p s"]
      by (subst m'_eq, subst spec_rest_record_start) (simp_all add: spec_init_def)
    moreover have "spec_rest c acc L' p (b # bs) m = spec_rest c acc L' (p + 1) bs m'"
      using m'(1) by (simp add: spec_rest_Cons)
    moreover have "spec_parse c acc L' p (b # bs) s = spec_rest c acc L' (p + 1) bs (spec_init p s)"
      using b by (simp add: spec_parse_def spec_rest_Cons)
    ultimately show ?thesis using e by simp
  next
    case (Failed err)
    with Cons.prems show ?thesis by simp
  qed
qed

section \<open>Segments of an input\<close>

text \<open>The parse of \<open>bytes\<close> from the boundary at \<open>B\<close> to the first boundary at or past \<open>L\<close>, in offsets of
  the whole input.\<close>

definition segment ::
    "Config \<Rightarrow> ('s, 'u) accumulator \<Rightarrow> byte list \<Rightarrow> 's \<Rightarrow> nat \<Rightarrow> nat \<Rightarrow> 'u Error + nat option \<times> 's" where
  "segment c acc bytes s B L = spec_parse c acc (min L (length bytes)) B (drop B bytes) s"

text \<open>An accumulator that keeps the records.\<close>

definition collect :: "(byte list list list, 'u) accumulator" where
  "collect s fs = Inr (s @ [fs])"

definition add_front :: "'a list \<Rightarrow> 'e + 'a list \<Rightarrow> 'e + 'a list" where
  "add_front xs r = (case r of Inl e \<Rightarrow> Inl e | Inr s \<Rightarrow> Inr (xs @ s))"

lemma add_front_add [simp]: "add_front xs (add_front ys r) = add_front (xs @ ys) r"
  by (cases r) (simp_all add: add_front_def)

lemma add_front_simps [simp]: "add_front [] r = r" "add_front xs (Inl e) = Inl e"
  "add_front xs (Inr s) = Inr (xs @ s)"
  by (cases r; simp add: add_front_def)+

lemma plain_collect [simp]: "plain_acc collect"
  by (simp add: plain_acc_def collect_def)

definition prepend :: "'a list \<Rightarrow> 'a list machine \<Rightarrow> 'a list machine" where
  "prepend xs m = m\<lparr>m_acc := xs @ m_acc m\<rparr>"

lemma hand_over_prepend:
  "hand_over c collect (prepend xs m) = add_front xs (hand_over c collect m)"
  by (simp add: hand_over_def prepend_def closed_fields_def collect_def Let_def add_front_def
      split: option.split)

lemma prepend_sel [simp]:
  "m_state (prepend xs m) = m_state m" "m_acc (prepend xs m) = xs @ m_acc m"
  "m_fld_start (prepend xs m) = m_fld_start m" "m_last_end (prepend xs m) = m_last_end m"
  by (simp_all add: prepend_def)

lemma spec_byte_prepend:
  "spec_byte c (collect :: (_, 'u) accumulator) L p b (prepend xs m) = (case spec_byte c collect L p b m of
     Running m' \<Rightarrow> Running (prepend xs m') | Finished e s \<Rightarrow> Finished e (xs @ s) | Failed e \<Rightarrow> Failed e)"
proof -
  have "copy_byte t b (mark_start c p b (prepend xs m)) = prepend xs (copy_byte t b (mark_start c p b m))" for t
    by (simp add: copy_byte_def mark_start_def prepend_def)
  moreover have "enter c (collect :: (_, 'u) accumulator) L p s (prepend xs m') = (case enter c collect L p s m' of
     Running m' \<Rightarrow> Running (prepend xs m') | Finished e s \<Rightarrow> Finished e (xs @ s) | Failed e \<Rightarrow> Failed e)" for s m'
  proof (cases s)
    case RecordEnd
    then show ?thesis
      by (cases "hand_over c (collect :: (_, 'u) accumulator) m'")
        (simp_all add: enter_def prepend_def hand_over_prepend[unfolded prepend_def])
  qed (simp_all add: enter_def prepend_def closed_fields_def)
  ultimately show ?thesis
    by (simp add: spec_byte_def Let_def)
qed

lemma spec_rest_prepend:
  "outcome_of (spec_rest c (collect :: (_, 'u) accumulator) L p bs (prepend xs m)) = add_front xs (outcome_of (spec_rest c collect L p bs m))"
proof (induction bs arbitrary: p m)
  case Nil
  show ?case
    by (cases "hand_over c (collect :: (_, 'u) accumulator) m")
      (auto simp: spec_finish_def outcome_of_def hand_over_prepend)
next
  case (Cons b bs)
  have o: "outcome_of (spec_rest c (collect :: (_, 'u) accumulator) L p (b # bs) m) =
      (case spec_byte c collect L p b m of
         Running m' \<Rightarrow> outcome_of (spec_rest c collect L (p + 1) bs m')
       | Finished e s \<Rightarrow> Inr s | Failed e \<Rightarrow> Inl e)" for m
    by (cases "spec_byte c (collect :: (_, 'u) accumulator) L p b m") (simp_all add: spec_rest_Cons, simp_all add: outcome_of_def)
  show ?case
    by (cases "spec_byte c (collect :: (_, 'u) accumulator) L p b m")
      (simp_all add: o spec_byte_prepend Cons.IH)
qed

lemma spec_parse_prepend:
  "outcome_of (spec_parse c (collect :: (_, 'u) accumulator) L p bs s) = add_front s (outcome_of (spec_parse c collect L p bs []))"
  using spec_rest_prepend[of c L p bs s "spec_init p []", where 'u = 'u]
  by (simp add: spec_parse_def prepend_def spec_init_def)

text \<open>Without a comment byte the comment state is never entered, and the input cannot end at a record
  start past the limit.\<close>

lemma no_comment_next:
  assumes "comment c = None" and "interior s" and "s \<noteq> InComment"
  shows "next_state (transition (dfa_new le c) s b) \<noteq> InComment"
  using assms
  by (cases s) (auto simp: interior_def transition_def dfa_new_def field_start_cell_def in_field_cell_def
      in_quoted_cell_def after_closing_cell_def record_start_cell_def split: QuoteHandling.splits)

lemma record_start_next:
  assumes "interior s" and "s \<noteq> InComment" and "next_state (transition (dfa_new le c) s b) = RecordStart"
  shows "s = RecordStart \<and> is_terminator (terminator c) b"
  using assms
  by (cases s) (auto simp: interior_def transition_def dfa_new_def field_start_cell_def in_field_cell_def
      in_quoted_cell_def after_closing_cell_def record_start_cell_def split: if_splits QuoteHandling.splits)

lemma spec_byte_states:
  assumes "comment c = None" and "interior (m_state m)" and "m_state m \<noteq> InComment"
    and "spec_byte c acc L p b m = Running m'"
  shows "m_state m' \<noteq> InComment \<and> (L \<le> p \<longrightarrow> m_state m' \<noteq> RecordStart)"
proof -
  let ?t = "transition (dfa_new True c) (m_state m) b"
  have en: "enter c acc L p (next_state ?t) (copy_byte ?t b (mark_start c p b m)) = Running m'"
    and nf: "\<not> (m_state m = RecordStart \<and> is_terminator (terminator c) b \<and> L \<le> p)"
    using assms(4) by (auto simp: spec_byte_def Let_def split: if_splits)
  show ?thesis
  proof (cases "interior (next_state ?t)")
    case True
    then have "m_state m' = next_state ?t"
      using en by (cases "next_state ?t") (auto simp: enter_def interior_def)
    with no_comment_next[OF assms(1-3)] record_start_next[OF assms(2,3)] nf show ?thesis by metis
  next
    case False
    then show ?thesis
      using en by (cases "next_state ?t") (auto simp: enter_def interior_def split: sum.splits if_splits)
  qed
qed

lemma spec_run_states:
  assumes "comment c = None" and "interior (m_state m)" and "m_state m \<noteq> InComment"
    and "spec_run c acc L p bs m = Running m'"
  shows "interior (m_state m') \<and> m_state m' \<noteq> InComment \<and>
    (bs \<noteq> [] \<and> L < p + length bs \<longrightarrow> m_state m' \<noteq> RecordStart)"
  using assms(4)
proof (induction bs arbitrary: m' rule: rev_induct)
  case Nil
  with assms show ?case by simp
next
  case (snoc b bs)
  from snoc.prems obtain m1 where m1: "spec_run c acc L p bs m = Running m1"
    "spec_byte c acc L (p + length bs) b m1 = Running m'"
    by (auto simp: spec_run_append split: outcome.splits)
  from snoc.IH[OF m1(1)] have "interior (m_state m1)" "m_state m1 \<noteq> InComment" by auto
  from spec_byte_states[OF assms(1) this m1(2)] spec_byte_interior[OF m1(2)] show ?case by auto
qed

text \<open>How a segment that stops short of the end of the input ends.\<close>

lemma segment_end:
  assumes "comment c = None" and "B < length bytes" and "L < length bytes"
    and "segment c acc bytes s B L = Inr (r, s')"
  shows "(\<exists>e. r = Some e \<and> spec_run c acc L B (drop B bytes) (spec_init B s) = Finished e s') \<or>
    r = Some (length bytes) \<and> segment c acc bytes s B (length bytes) = Inr (r, s')"
proof (cases "spec_run c acc L B (drop B bytes) (spec_init B s)")
  case (Running m')
  have "m_state m' \<noteq> RecordStart \<and> m_state m' \<noteq> InComment \<and> interior (m_state m')"
    using spec_run_states[OF assms(1) _ _ Running] assms(2,3)
    by (auto simp: spec_init_def interior_def)
  then have fin: "spec_finish c acc (length bytes) m' = Inr (r, s') \<Longrightarrow> r = Some (length bytes)"
    by (cases "m_state m'") (auto simp: spec_finish_def interior_def result_simps)
  have "spec_run c acc (length bytes) B (drop B bytes) (spec_init B s) = Running m'"
    using spec_run_limit(1)[OF _ Running] assms(3) by simp
  with Running assms(2-4) fin show ?thesis
    by (simp add: segment_def spec_parse_def spec_rest_def)
next
  case (Finished e x)
  with assms show ?thesis by (simp add: segment_def spec_parse_def spec_rest_def)
next
  case (Failed err)
  with assms show ?thesis by (simp add: segment_def spec_parse_def spec_rest_def)
qed

text \<open>An error of a segment is an error of the whole parse.\<close>

lemma segment_error:
  assumes "segment c acc bytes s B L = Inl err" and "L \<le> length bytes"
  shows "segment c acc bytes s B (length bytes) = Inl err"
proof (cases "spec_run c acc L B (drop B bytes) (spec_init B s)")
  case (Running m')
  with spec_run_limit(1)[OF assms(2) Running] assms show ?thesis
    by (simp add: segment_def spec_parse_def spec_rest_def)
next
  case (Finished e x)
  with assms show ?thesis by (simp add: segment_def spec_parse_def spec_rest_def)
next
  case (Failed err')
  with spec_run_limit(2)[OF assms(2) Failed] assms show ?thesis
    by (simp add: segment_def spec_parse_def spec_rest_def)
qed

lemma segment_compose:
  assumes "spec_run c (collect :: (_, 'u) accumulator) L B (drop B bytes) (spec_init B []) = Finished e s" and "L \<le> length bytes"
    and "B \<le> length bytes"
  shows "L \<le> e \<and> B \<le> e \<and> e < length bytes \<and>
    outcome_of (segment c (collect :: (_, 'u) accumulator) bytes [] B (length bytes)) =
      add_front s (outcome_of (segment c collect bytes [] e (length bytes)))"
proof -
  have "B + length (drop B bytes) = length bytes" using assms(3) by simp
  with spec_run_compose[OF assms(1,2)] have
    "L \<le> e \<and> B \<le> e \<and> e < length bytes \<and>
      outcome_of (spec_rest c (collect :: (_, 'u) accumulator) (length bytes) B (drop B bytes) (spec_init B [])) =
      outcome_of (spec_parse c collect (length bytes) e (drop (e - B) (drop B bytes)) s)"
    by (auto simp: spec_init_def start_clean_def interior_def)
  then show ?thesis
    using spec_parse_prepend[of c "length bytes" e "drop e bytes" s, where 'u = 'u]
    by (auto simp: segment_def spec_parse_def add.commute)
qed

lemma segment_at_end: "segment c acc bytes s (length bytes) L = Inr (None, s)"
  by (simp add: segment_def spec_parse_def spec_finish_def spec_init_def)

lemma spec_run_end_ge: "spec_run c acc L p bs m = Finished e s \<Longrightarrow> p \<le> e"
proof (induction bs arbitrary: p m)
  case (Cons b bs)
  have "spec_byte c acc L p b m = Finished e s \<Longrightarrow> e = p"
    by (auto simp: spec_byte_def Let_def enter_def split: if_splits State.splits sum.splits)
  with Cons show ?case by (fastforce split: outcome.splits)
qed simp

definition last_ge :: "nat \<Rightarrow> 's machine \<Rightarrow> bool" where
  "last_ge p m \<longleftrightarrow> (\<forall>e. m_last_end m = Some e \<longrightarrow> p \<le> e)"

lemma spec_run_last_ge:
  "last_ge p0 m \<Longrightarrow> p0 \<le> p \<Longrightarrow> spec_run c acc L p bs m = Running m' \<Longrightarrow> last_ge p0 m'"
proof (induction bs arbitrary: p m)
  case (Cons b bs)
  have "spec_byte c acc L p b m = Running m1 \<Longrightarrow> last_ge p0 m1" for m1
    using Cons.prems(1,2)
    by (auto simp: spec_byte_def Let_def enter_def last_ge_def copy_byte_def mark_start_def
        split: if_splits State.splits sum.splits)
  with Cons.IH Cons.prems show ?case
    by (cases "spec_byte c acc L p b m") (auto dest: le_SucI)
qed simp

lemma segment_end_ge:
  assumes "segment c acc bytes s B L = Inr (Some e, s')" and "B \<le> length bytes"
  shows "B \<le> e"
proof (cases "spec_run c acc (min L (length bytes)) B (drop B bytes) (spec_init B s)")
  case (Running m')
  have "last_ge B m'" using spec_run_last_ge[OF _ _ Running] by (simp add: last_ge_def spec_init_def)
  with Running assms show ?thesis
    by (auto simp: segment_def spec_parse_def spec_rest_def spec_finish_def last_ge_def result_simps
        split: if_splits)
next
  case (Finished x y)
  with assms spec_run_end_ge[OF Finished] show ?thesis
    by (simp add: segment_def spec_parse_def spec_rest_def)
next
  case (Failed err)
  with assms show ?thesis by (simp add: segment_def spec_parse_def spec_rest_def)
qed

end
