(* ===== verification/Merge.thy ===== *)
theory Merge
  imports Segments
begin

text \<open>
  src/src/scheduler/merge.rs and src/src/scheduler/slot.rs: the write-once result slots and the sequential
  merge that aligns record boundaries across chunks. \<open>merge_records\<close> is the correctness of the speculative
  strategy: if the passes are what their chunks' segments are, then whatever boundaries the speculation
  guessed, the merged records and the error are those of one sequential parse.
\<close>

section \<open>Outputs\<close>

record ('s, 'u) ResolvedPass =
  rp_record_start :: nat
  rp_result :: "'u Error + 's"

record ('s, 'u) ChunkOutput =
  co_passes :: "('s, 'u) ResolvedPass list"
  co_record_end :: "nat option"

text \<open>\<open>WriteOnceSlot\<close>: an option that starts out as \<open>None\<close>; \<open>slot_set\<close> is the write of slot
  \<open>i\<close> of the result vector.\<close>

definition slot_new :: "'a option" where
  "slot_new = None"

definition slot_set :: "nat \<Rightarrow> 'a \<Rightarrow> 'a option list \<Rightarrow> 'a option list" where
  "slot_set i v slots = slots[i := Some v]"

section \<open>The merge\<close>

text \<open>The pass whose start is the expected boundary; any pass when none is expected.\<close>

definition select_pass :: "nat option \<Rightarrow> ('s, 'u) ResolvedPass list \<Rightarrow> ('s, 'u) ResolvedPass option" where
  "select_pass nxt ps =
     List.find (\<lambda>p. case nxt of None \<Rightarrow> True | Some expected \<Rightarrow> expected = rp_record_start p) ps"

text \<open>\<open>reparse\<close> takes the known boundary and the chunk's end. \<open>None\<close> is a panic: a slot no one wrote,
  or the \<open>expect\<close> on the first chunk.\<close>

type_synonym ('s, 'u) reparse_fn = "nat \<Rightarrow> nat \<Rightarrow> ('u Error + 's \<times> nat option) option"

fun merge_loop ::
    "nat \<Rightarrow> ('s, 'u) reparse_fn \<Rightarrow> ('s, 'u) ChunkOutput option list \<Rightarrow> nat \<Rightarrow> nat option \<Rightarrow> 's list
      \<Rightarrow> ('u Error + 's list) option" where
  "merge_loop cs reparse [] chunk_end nxt states = Some (Inr states)"
| "merge_loop cs reparse (slot # slots) chunk_end nxt states =
     (case slot of
        None \<Rightarrow> None
      | Some output \<Rightarrow>
          (let chunk_end = chunk_end + cs in
           if (case nxt of Some n \<Rightarrow> n > chunk_end | None \<Rightarrow> False)
           then merge_loop cs reparse slots chunk_end nxt states
           else if co_passes output = []
           then merge_loop cs reparse slots chunk_end nxt states
           else (case select_pass nxt (co_passes output) of
               Some pass \<Rightarrow>
                 (case rp_result pass of
                    Inl e \<Rightarrow> Some (Inl e)
                  | Inr s \<Rightarrow>
                      merge_loop cs reparse slots chunk_end (co_record_end output) (states @ [s]))
             | None \<Rightarrow>
                 (case nxt of
                    None \<Rightarrow> None
                  | Some expected \<Rightarrow>
                      (case reparse expected chunk_end of
                         None \<Rightarrow> None
                       | Some (Inl e) \<Rightarrow> Some (Inl e)
                       | Some (Inr (s, rend)) \<Rightarrow>
                           merge_loop cs reparse slots chunk_end
                             (map_option (\<lambda>x. expected + x) rend) (states @ [s]))))))"

definition collect_and_merge ::
    "nat \<Rightarrow> ('s list \<Rightarrow> 'r) \<Rightarrow> ('s, 'u) reparse_fn \<Rightarrow> ('s, 'u) ChunkOutput option list
      \<Rightarrow> ('u Error + 'r) option" where
  "collect_and_merge cs merge reparse slots =
     map_option (map_sum id merge) (merge_loop cs reparse slots 0 None [])"

section \<open>Faithful outputs\<close>

text \<open>Every pass of a chunk that ends at \<open>L\<close> is the segment from its start to \<open>L\<close>, and the chunk's record end is
  that of its successful pass. A pass from \<open>B\<close> may also fail with an error \<open>e\<close> of its own where \<open>D B e\<close>: the SIMD
  parser looks past the chunk. The DFA parser has no such errors.\<close>

abbreviation no_errors :: "nat \<Rightarrow> 'u Error \<Rightarrow> bool" where
  "no_errors B e \<equiv> False"

definition faithful ::
    "Config \<Rightarrow> ('s, 'u) accumulator \<Rightarrow> byte list \<Rightarrow> 's \<Rightarrow> (nat \<Rightarrow> 'u Error \<Rightarrow> bool) \<Rightarrow> nat \<Rightarrow> ('s, 'u) ChunkOutput \<Rightarrow> bool" where
  "faithful c acc bytes init D L out \<longleftrightarrow>
     (\<forall>p\<in>set (co_passes out). rp_record_start p \<le> length bytes \<and>
        ((\<exists>e. rp_result p = Inl e \<and> D (rp_record_start p) e) \<or>
         rp_result p = outcome_of (segment c acc bytes init (rp_record_start p) L) \<and>
         (\<forall>r s. segment c acc bytes init (rp_record_start p) L = Inr (r, s) \<longrightarrow> co_record_end out = r)))"

text \<open>A reparse is the segment from the boundary it is given, its end relative to that boundary.\<close>

definition faithful_reparse ::
    "Config \<Rightarrow> ('s, 'u) accumulator \<Rightarrow> byte list \<Rightarrow> 's \<Rightarrow> (nat \<Rightarrow> 'u Error \<Rightarrow> bool) \<Rightarrow> ('s, 'u) reparse_fn \<Rightarrow> bool" where
  "faithful_reparse c acc bytes init D reparse \<longleftrightarrow>
     (\<forall>B L. B \<le> L \<longrightarrow> B \<le> length bytes \<longrightarrow>
        (\<exists>e. reparse B L = Some (Inl e) \<and> D B e) \<or>
        reparse B L = Some (case segment c acc bytes init B L of
          Inl e \<Rightarrow> Inl e | Inr (r, s) \<Rightarrow> Inr (s, map_option (\<lambda>e. e - B) r)))"

text \<open>One chunk that is neither skipped nor empty: the merge goes on from the segment's end.\<close>

lemma merge_chunk:
  assumes out: "faithful c acc bytes init D (chunk_end + cs) out" and ne: "co_passes out \<noteq> []"
    and re: "faithful_reparse c acc bytes init D reparse"
    and B: "nxt = Some B \<or> nxt = None \<and> B = rp_record_start (hd (co_passes out))"
    and le: "B \<le> chunk_end + cs" "B \<le> length bytes"
  shows "(\<exists>e. merge_loop cs reparse (Some out # slots) chunk_end nxt states = Some (Inl e) \<and> D B e) \<or>
    merge_loop cs reparse (Some out # slots) chunk_end nxt states =
    (case segment c acc bytes init B (chunk_end + cs) of
       Inl e \<Rightarrow> Some (Inl e)
     | Inr (r, s) \<Rightarrow> merge_loop cs reparse slots (chunk_end + cs) r (states @ [s]))"
proof -
  let ?L = "chunk_end + cs"
  have not_skip: "\<not> (case nxt of Some n \<Rightarrow> n > ?L | None \<Rightarrow> False)" using B le by auto
  show ?thesis
  proof (cases "select_pass nxt (co_passes out)")
    case (Some p)
    have p: "p \<in> set (co_passes out)" "rp_record_start p = B"
      using Some B ne
      by (cases "co_passes out"; auto simp: select_pass_def find_Some_iff split: if_splits)+
    with out consider (early) e where "rp_result p = Inl e" "D B e"
      | (seg) "rp_result p = outcome_of (segment c acc bytes init B ?L)"
        "\<And>r s. segment c acc bytes init B ?L = Inr (r, s) \<Longrightarrow> co_record_end out = r"
      by (auto simp: faithful_def)
    then show ?thesis
    proof cases
      case early
      with not_skip ne Some show ?thesis by (auto simp: Let_def)
    next
      case seg
      with not_skip ne Some show ?thesis
        by (cases "segment c acc bytes init B ?L") (auto simp: Let_def outcome_of_def)
    qed
  next
    case None
    then obtain nxt: "nxt = Some B"
      using B ne by (cases "co_passes out") (auto simp: select_pass_def)
    from re le consider (early) e where "reparse B ?L = Some (Inl e)" "D B e"
      | (seg) "reparse B ?L = Some (case segment c acc bytes init B ?L of
          Inl e \<Rightarrow> Inl e | Inr (r, s) \<Rightarrow> Inr (s, map_option (\<lambda>e. e - B) r))"
      unfolding faithful_reparse_def by blast
    then show ?thesis
    proof cases
      case early
      with not_skip ne None nxt show ?thesis by (auto simp: Let_def)
    next
      case seg
      have "map_option (\<lambda>x. B + x) (map_option (\<lambda>e. e - B) r) = r"
        if "segment c acc bytes init B ?L = Inr (r, s)" for r s
        using segment_end_ge[of c acc bytes init B ?L] that le by (cases r) auto
      with seg not_skip ne None nxt show ?thesis
        by (cases "segment c acc bytes init B ?L") (auto simp: Let_def)
    qed
  qed
qed

section \<open>Speculation is transparent\<close>

lemma append_states: "add_front (concat (states @ [s])) r = add_front (concat states) (add_front s r)"
  by simp

text \<open>A set of boundaries that the parse can be at, every one of which falls before the end of a chunk that
  has a pass: without that, the merge has nothing to resume from and the records from there on are lost.\<close>

definition boundaries_closed ::
    "Config \<Rightarrow> ('s, 'u) accumulator \<Rightarrow> byte list \<Rightarrow> 's \<Rightarrow> nat set \<Rightarrow> bool" where
  "boundaries_closed c acc bytes init G \<longleftrightarrow>
     (\<forall>B\<in>G. \<forall>L e s. segment c acc bytes init B L = Inr (Some e, s) \<longrightarrow> e \<in> G)"

definition covered :: "nat set \<Rightarrow> nat \<Rightarrow> nat \<Rightarrow> nat \<Rightarrow> nat \<Rightarrow> ('s, 'u) ChunkOutput list \<Rightarrow> bool" where
  "covered G n B cs chunk_end outs \<longleftrightarrow>
     (\<forall>B'\<in>G. B \<le> B' \<and> B' < n \<longrightarrow>
        (\<exists>k<length outs. B' < chunk_end + Suc k * cs \<and> co_passes (outs ! k) \<noteq> []))"

lemma covered_tail:
  assumes "covered G n B cs chunk_end (out # outs)" and "B \<le> B'"
    and "chunk_end + cs \<le> B' \<or> co_passes out = []"
  shows "covered G n B' cs (chunk_end + cs) outs"
  unfolding covered_def
proof (intro ballI impI)
  fix x assume x: "x \<in> G" "B' \<le> x \<and> x < n"
  with assms(1,2) obtain k where k: "k < length (out # outs)" "x < chunk_end + Suc k * cs"
    "co_passes ((out # outs) ! k) \<noteq> []"
    unfolding covered_def by (meson le_trans)
  with assms(3) x(2) obtain j where "k = Suc j" by (cases k) auto
  with k show "\<exists>k<length outs. x < chunk_end + cs + Suc k * cs \<and> co_passes (outs ! k) \<noteq> []"
    by (intro exI[of _ j]) (auto simp: add.assoc)
qed

lemma covered_none: "covered G n B cs chunk_end [] \<Longrightarrow> B \<in> G \<Longrightarrow> B \<le> n \<Longrightarrow> B = n"
  unfolding covered_def by auto

text \<open>An error of a pass's own must be one of the rest of the input, though perhaps another.\<close>

definition doomed ::
    "Config \<Rightarrow> ('s, 'u) accumulator \<Rightarrow> byte list \<Rightarrow> 's \<Rightarrow> (nat \<Rightarrow> 'u Error \<Rightarrow> bool) \<Rightarrow> bool" where
  "doomed c acc bytes init D \<longleftrightarrow> (\<forall>B e. D B e \<longrightarrow> (\<exists>e'. segment c acc bytes init B (length bytes) = Inl e'))"

definition same_or_failed :: "(nat \<Rightarrow> 'u Error \<Rightarrow> bool) \<Rightarrow> 'u Error + 'a \<Rightarrow> 'u Error + 'a \<Rightarrow> bool" where
  "same_or_failed D res ref \<longleftrightarrow> res = ref \<or> (\<exists>B e e'. D B e \<and> res = Inl e \<and> ref = Inl e')"

lemma same_or_failed_simps [simp]: "same_or_failed D ref ref" "same_or_failed no_errors res ref \<longleftrightarrow> res = ref"
  by (auto simp: same_or_failed_def)

lemma same_or_failed_front: "same_or_failed D res ref \<Longrightarrow> same_or_failed D (add_front xs res) (add_front xs ref)"
  by (auto simp: same_or_failed_def)

text \<open>The merge from a known boundary \<open>B\<close> on, with every chunk's output faithful: the merged records are
  those of the parse of the rest of the input.\<close>

lemma merge_from_boundary:
  assumes "comment c = None" and "0 < cs"
    and re: "faithful_reparse c (collect :: (_, 'u) accumulator) bytes [] D reparse"
    and D: "doomed c (collect :: (_, 'u) accumulator) bytes [] D"
    and G: "boundaries_closed c (collect :: (_, 'u) accumulator) bytes [] G" "length bytes \<in> G"
    and "\<forall>k<length outs. faithful c (collect :: (_, 'u) accumulator) bytes [] D (chunk_end + Suc k * cs) (outs ! k)"
    and "covered G (length bytes) B cs chunk_end outs"
    and "outs \<noteq> [] \<Longrightarrow> chunk_end + (length outs - 1) * cs < length bytes"
    and "length bytes \<le> chunk_end + length outs * cs"
    and "B \<le> length bytes" and "B \<in> G"
  shows "\<exists>res. merge_loop cs reparse (map Some outs) chunk_end (Some B) states = Some res \<and>
    same_or_failed D (map_sum id concat res)
      (add_front (concat states) (outcome_of (segment c (collect :: (_, 'u) accumulator) bytes [] B (length bytes))))"
  using assms(7-)
proof (induction outs arbitrary: chunk_end B states)
  case Nil
  from covered_none[OF Nil.prems(2,6,5)] show ?case
    by (simp add: segment_at_end outcome_of_def add_front_def)
next
  case (Cons out outs)
  let ?L = "chunk_end + cs" and ?n = "length bytes"
  let ?ref = "\<lambda>B. outcome_of (segment c (collect :: (_, 'u) accumulator) bytes [] B ?n)"
  have f: "faithful c collect bytes [] D ?L out" using Cons.prems(1) by force
  have fs: "\<forall>k<length outs. faithful c collect bytes [] D (?L + Suc k * cs) (outs ! k)"
    using Cons.prems(1) by (auto simp: add.assoc)
  have bounds: "outs \<noteq> [] \<Longrightarrow> ?L + (length outs - 1) * cs < ?n" "?n \<le> ?L + length outs * cs"
    using Cons.prems(3,4) by (cases outs; simp add: add.assoc)+
  have IH: "\<lbrakk>covered G ?n B cs ?L outs; B \<le> ?n; B \<in> G\<rbrakk> \<Longrightarrow>
      \<exists>res. merge_loop cs reparse (map Some outs) ?L (Some B) states = Some res \<and>
      same_or_failed D (map_sum id concat res) (add_front (concat states) (?ref B))" for B states
    using Cons.IH[OF fs _ bounds] by blast
  show ?case
  proof (cases "?L < B \<or> co_passes out = []")
    case True
    then have "merge_loop cs reparse (map Some (out # outs)) chunk_end (Some B) states =
        merge_loop cs reparse (map Some outs) ?L (Some B) states"
      by (auto simp: Let_def)
    moreover have "covered G ?n B cs ?L outs"
      using covered_tail[OF Cons.prems(2)] True by auto
    ultimately show ?thesis using IH[OF _ Cons.prems(5,6), of states] by metis
  next
    case go: False
    then have le: "B \<le> ?L" and ne: "co_passes out \<noteq> []" by auto
    have out: "\<exists>res. merge_loop cs reparse (map Some (out # outs)) chunk_end (Some B) states = Some res \<and>
        same_or_failed D (map_sum id concat res) (add_front (concat states) (?ref B))"
      if "merge_loop cs reparse (map Some (out # outs)) chunk_end (Some B) states =
          merge_loop cs reparse (map Some outs) ?L (Some e) (states @ [s])"
        "?ref B = add_front s (?ref e)" "covered G ?n e cs ?L outs" "e \<le> ?n" "e \<in> G" for e s
      using IH[OF that(3-5), of "states @ [s]"] unfolding that(1,2) append_states by simp
    from merge_chunk[OF f ne re _ le Cons.prems(5), of "Some B" "map Some outs" states]
    consider (early) e where "merge_loop cs reparse (map Some (out # outs)) chunk_end (Some B) states = Some (Inl e)" "D B e"
      | (step) "merge_loop cs reparse (map Some (out # outs)) chunk_end (Some B) states =
          (case segment c collect bytes [] B ?L of Inl e \<Rightarrow> Some (Inl e)
           | Inr (r, s) \<Rightarrow> merge_loop cs reparse (map Some outs) ?L r (states @ [s]))" by auto
    then show ?thesis
    proof cases
      case early
      with D obtain e' where "?ref B = Inl e'" unfolding doomed_def outcome_of_def by fastforce
      with early show ?thesis by (auto simp: same_or_failed_def)
    next
      case step
      show ?thesis
      proof (cases "outs = []")
        case True
        then have "segment c (collect :: (_, 'u) accumulator) bytes [] B ?L = segment c collect bytes [] B ?n"
          using bounds(2) by (simp add: segment_def)
        with step True show ?thesis
          by (cases "segment c (collect :: (_, 'u) accumulator) bytes [] B ?n") (auto simp: outcome_of_def)
      next
        case False
        then have L: "?L < ?n" using bounds(1) by simp
        then have B: "B < ?n" using le by simp
        show ?thesis
        proof (cases "segment c (collect :: (_, 'u) accumulator) bytes [] B ?L")
          case (Inl err)
          with segment_error[OF Inl] L step show ?thesis by (simp add: outcome_of_def)
        next
          case (Inr rs)
          then obtain r s where rs: "segment c (collect :: (_, 'u) accumulator) bytes [] B ?L = Inr (r, s)"
            by (cases rs) auto
          from segment_end[OF assms(1) B L rs] consider
              (fin) e where "r = Some e" "spec_run c collect ?L B (drop B bytes) (spec_init B [] :: _ machine)
                = (Finished e s :: (_, 'u) outcome)"
            | (eof) "r = Some ?n" "segment c (collect :: (_, 'u) accumulator) bytes [] B ?n = Inr (r, s)"
            by blast
          then show ?thesis
          proof cases
            case fin
            note cmp = segment_compose[OF fin(2) _ Cons.prems(5)]
            have e: "e \<le> ?n" "B \<le> e" "?L \<le> e" using cmp L by simp_all
            have "e \<in> G" using G(1) Cons.prems(6) rs fin(1) unfolding boundaries_closed_def by blast
            moreover have "covered G ?n e cs ?L outs" using covered_tail[OF Cons.prems(2) e(2)] e(3) by blast
            moreover have "merge_loop cs reparse (map Some (out # outs)) chunk_end (Some B) states =
                merge_loop cs reparse (map Some outs) ?L (Some e) (states @ [s])" using step rs fin(1) by (simp del: merge_loop.simps)
            moreover have "?ref B = add_front s (?ref e)" using cmp L by simp
            ultimately show ?thesis using out e(1) by blast
          next
            case eof
            have "covered G ?n ?n cs ?L outs" unfolding covered_def by (meson not_le)
            moreover have "?ref B = add_front s (?ref ?n)"
              unfolding eof(2) by (simp add: segment_at_end outcome_of_def add_front_def)
            moreover have "merge_loop cs reparse (map Some (out # outs)) chunk_end (Some B) states =
                merge_loop cs reparse (map Some outs) ?L (Some ?n) (states @ [s])" using step rs eof(1) by (simp del: merge_loop.simps)
            ultimately show ?thesis using out G(2) by blast
          qed
        qed
      qed
    qed
  qed
qed

text \<open>The whole merge: the first chunk's pass fixes the first boundary.\<close>

lemma merge_records:
  assumes "comment c = None" and "0 < cs"
    and re: "faithful_reparse c (collect :: (_, 'u) accumulator) bytes [] D reparse"
    and D: "doomed c (collect :: (_, 'u) accumulator) bytes [] D"
    and fs: "\<forall>k<length outs. faithful c (collect :: (_, 'u) accumulator) bytes [] D (Suc k * cs) (outs ! k)"
    and ne: "outs \<noteq> []" "co_passes (hd outs) \<noteq> []"
    and len: "(length outs - 1) * cs < length bytes" "length bytes \<le> length outs * cs"
    and B: "B = rp_record_start (hd (co_passes (hd outs)))" "B \<le> cs"
    and G: "boundaries_closed c (collect :: (_, 'u) accumulator) bytes [] G" "length bytes \<in> G" "B \<in> G" "covered G (length bytes) B cs 0 outs"
  shows "\<exists>res. collect_and_merge cs concat reparse (map Some outs) = Some res \<and>
    same_or_failed D res (outcome_of (segment c (collect :: (_, 'u) accumulator) bytes [] B (length bytes)))"
proof -
  from ne(1) obtain out outs' where outs: "outs = out # outs'" by (cases outs) auto
  have f: "faithful c (collect :: (_, 'u) accumulator) bytes [] D (0 + cs) out" using fs outs by force
  have B_le: "B \<le> length bytes" and hd: "hd (co_passes out) \<in> set (co_passes out)"
    using f ne(2) B(1) outs by (auto simp: faithful_def)
  have same: "merge_loop cs reparse (map Some outs) 0 None [] = merge_loop cs reparse (map Some outs) 0 (Some B) []"
    using ne(2) B outs by (cases "co_passes out") (auto simp: select_pass_def Let_def)
  from merge_from_boundary[OF assms(1,2) re D G(1,2), of outs 0 B "[]"] fs G(3,4) len B_le
  obtain res where "merge_loop cs reparse (map Some outs) 0 (Some B) [] = Some res"
    "same_or_failed D (map_sum id concat res) (outcome_of (segment c (collect :: (_, 'u) accumulator) bytes [] B (length bytes)))"
    by auto
  then show ?thesis by (simp add: collect_and_merge_def same)
qed

text \<open>If the last chunk has a pass, every boundary is covered.\<close>

lemma covered_last:
  assumes "outs \<noteq> []" and "co_passes (last outs) \<noteq> []" and "n \<le> length outs * cs"
  shows "covered UNIV n B cs 0 outs"
  unfolding covered_def
proof (intro ballI impI)
  fix x assume "B \<le> x \<and> x < n"
  with assms show "\<exists>k<length outs. x < 0 + Suc k * cs \<and> co_passes (outs ! k) \<noteq> []"
    by (intro exI[of _ "length outs - 1"]) (auto simp: last_conv_nth)
qed

end
