(* ===== verification/Isa.thy ===== *)
theory Isa
  imports Bits
begin

text \<open>
  src/src/parser/simd/bitops.rs, isa.rs, lanes.rs and the XOR prefix sum of bitmask.rs: the primitives under the
  bitmask pipeline, with their contract (locale \<open>lawful_isa\<close>, what the trait \<open>Isa\<close> documents) and the
  portable implementations. The vector instructions are any other instance of the contract.
\<close>

unbundle bit_operations_syntax

section \<open>The set bits of a word\<close>

definition set_bits_of :: "u64 \<Rightarrow> nat list" where
  "set_bits_of w = filter (bit w) [0..<64]"

lemma set_set_bits [simp]: "set (set_bits_of w) = {i. bit w i}"
  using bit_u64_bound by (auto simp: set_bits_of_def)

lemma sorted_set_bits [simp]: "sorted_wrt (<) (set_bits_of w)"
  by (simp add: set_bits_of_def sorted_wrt_filter)

lemma distinct_set_bits [simp]: "distinct (set_bits_of w)"
  by (simp add: set_bits_of_def)

lemma length_set_bits: "length (set_bits_of w) = count_ones w"
  by (simp add: set_bits_of_def count_ones_def)

lemma set_bits_Nil [simp]: "set_bits_of w = [] \<longleftrightarrow> w = 0"
  by (auto simp: set_bits_of_def filter_empty_conv u64_eq_0_iff)

text \<open>Clearing the lowest set bit, and isolating it.\<close>

lemma bit_minus_one:
  assumes "(w :: u64) \<noteq> 0"
  defines "k \<equiv> trailing_zeros w"
  shows "bit (w - 1) i \<longleftrightarrow> i < 64 \<and> (i < k \<or> k < i \<and> bit w i)"
proof -
  have k: "bit w k" "\<forall>j<k. \<not> bit w j" and k64: "k < 64"
    using trailing_zeros_eq_iff[OF assms(1), of k] bit_u64_bound[of w k] by (auto simp: k_def)
  let ?q = "w AND NOT (mask (Suc k))"
  have "w = ?q OR 2 ^ k"
    using k k64 by (intro bit_word_eqI) (auto simp: bit_simps not_less_eq less_Suc_eq)
  also have "\<dots> = ?q + 2 ^ k"
    by (rule disjunctive_add[symmetric]) (auto simp: bit_simps)
  finally have "w - 1 = ?q + mask k" by (simp add: mask_eq_exp_minus_1)
  also have "\<dots> = ?q OR mask k"
    by (rule disjunctive_add) (auto simp: bit_simps)
  finally show ?thesis
    using k64 by (auto simp: bit_simps Suc_le_eq)
qed

lemma clear_lowest:
  assumes "(w :: u64) \<noteq> 0"
  shows "set_bits_of w = trailing_zeros w # set_bits_of (w AND (w - 1))"
    and "w AND - w = 2 ^ trailing_zeros w"
proof -
  let ?k = "trailing_zeros w"
  have k: "bit w ?k" "\<forall>j<?k. \<not> bit w j" and k64: "?k < 64"
    using trailing_zeros_eq_iff[OF assms, of ?k] bit_u64_bound[of w ?k] by auto
  have split: "[0..<64] = [0..<?k] @ ?k # [Suc ?k..<64]"
    using k64 upt_add_eq_append[of 0 ?k "64 - ?k"] by (simp add: upt_conv_Cons)
  have "filter (bit w) [0..<?k] = []" using k(2) by (simp add: filter_empty_conv)
  moreover have "filter (bit (w AND (w - 1))) [0..<?k] = []"
    using k(2) by (simp add: filter_empty_conv bit_simps)
  moreover have "\<not> bit (w AND (w - 1)) ?k" by (simp add: bit_and_iff bit_minus_one[OF assms])
  moreover have "filter (bit (w AND (w - 1))) [Suc ?k..<64] = filter (bit w) [Suc ?k..<64]"
    by (rule filter_cong) (auto simp: bit_and_iff bit_minus_one[OF assms])
  ultimately show "set_bits_of w = ?k # set_bits_of (w AND (w - 1))"
    using k(1) by (simp add: set_bits_of_def split)
  have "- w = NOT (w - 1)" by (rule minus_eq_not_minus_1)
  then show "w AND - w = 2 ^ ?k"
    using k k64 by (intro bit_word_eqI) (auto simp: bit_simps bit_minus_one[OF assms])
qed

lemma count_clear_lowest: "(w :: u64) \<noteq> 0 \<Longrightarrow> count_ones (w AND (w - 1)) < count_ones w"
  using clear_lowest(1)[of w] by (metis length_set_bits length_Cons lessI)

section \<open>Bit extract and deposit\<close>

text \<open>\<open>pext_scalar\<close> and the portable \<open>pdep\<close>: one selected bit at a time.\<close>

function pext_loop :: "u64 \<Rightarrow> u64 \<Rightarrow> u64 \<Rightarrow> nat \<Rightarrow> u64" where
  "pext_loop src sel result out_pos =
     (if sel = 0 then result
      else let lo = sel AND - sel
           in pext_loop src (sel AND (sel - 1))
                (if src AND lo \<noteq> 0 then result OR push_bit out_pos 1 else result) (out_pos + 1))"
  by pat_completeness auto
termination
  by (relation "measure (\<lambda>(_, sel, _, _). count_ones sel)") (auto simp: count_clear_lowest)

declare pext_loop.simps [simp del]

definition pext_scalar :: "u64 \<Rightarrow> u64 \<Rightarrow> u64" where
  "pext_scalar src sel = pext_loop src sel 0 0"

function pdep_loop :: "u64 \<Rightarrow> u64 \<Rightarrow> u64 \<Rightarrow> nat \<Rightarrow> u64" where
  "pdep_loop src sel result in_pos =
     (if sel = 0 then result
      else let lo = sel AND - sel
           in pdep_loop src (sel AND (sel - 1))
                (if drop_bit in_pos src AND 1 \<noteq> 0 then result OR lo else result) (in_pos + 1))"
  by pat_completeness auto
termination
  by (relation "measure (\<lambda>(_, sel, _, _). count_ones sel)") (auto simp: count_clear_lowest)

declare pdep_loop.simps [simp del]

definition pdep_scalar :: "u64 \<Rightarrow> u64 \<Rightarrow> u64" where
  "pdep_scalar src sel = pdep_loop src sel 0 0"

lemma and_exp_nonzero: "(src :: u64) AND 2 ^ k \<noteq> 0 \<longleftrightarrow> bit src k"
  using bit_u64_bound[of src k] by (auto simp: and_exp_eq_0_iff_not_bit)

lemma bit_pext_loop:
  assumes "out_pos + count_ones sel \<le> 64" and "\<forall>j\<ge>out_pos. \<not> bit result j"
  shows "bit (pext_loop src sel result out_pos) j \<longleftrightarrow>
    (if j < out_pos then bit result j
     else j - out_pos < count_ones sel \<and> bit src (set_bits_of sel ! (j - out_pos)))"
  using assms
proof (induction src sel result out_pos rule: pext_loop.induct)
  case (1 src sel result out_pos)
  show ?case
  proof (cases "sel = 0")
    case True
    with 1(3) show ?thesis
      by (simp add: pext_loop.simps flip: length_set_bits) (metis list.size(3) not_less not_less_zero set_bits_Nil)
  next
    case False
    let ?rest = "sel AND (sel - 1)"
    let ?result = "if src AND (sel AND - sel) \<noteq> 0 then result OR push_bit out_pos 1 else result"
    note low = clear_lowest[OF False]
    have cnt: "count_ones sel = Suc (count_ones ?rest)" using low(1) by (metis length_Cons length_set_bits)
    have res: "bit ?result i \<longleftrightarrow> bit result i \<or> i = out_pos \<and> bit src (trailing_zeros sel)" for i
      using 1(2) cnt unfolding low(2) and_exp_nonzero by (auto simp: bit_simps)
    have "bit (pext_loop src ?rest ?result (out_pos + 1)) j \<longleftrightarrow>
        (if j < out_pos + 1 then bit ?result j
         else j - (out_pos + 1) < count_ones ?rest \<and> bit src (set_bits_of ?rest ! (j - (out_pos + 1))))"
    proof (rule 1(1)[OF False refl])
      show "out_pos + 1 + count_ones ?rest \<le> 64" using 1(2) cnt by simp
      show "\<forall>j\<ge>out_pos + 1. \<not> bit ?result j" unfolding res using 1(3) by auto
    qed
    also have "\<dots> \<longleftrightarrow> (if j < out_pos then bit result j
        else j - out_pos < count_ones sel \<and> bit src (set_bits_of sel ! (j - out_pos)))"
      unfolding res cnt low(1) using 1(3) by (auto simp: nth_Cons')
    finally show ?thesis
      using False by (simp add: pext_loop.simps[of src sel] Let_def)
  qed
qed

lemma count_ones_le: "count_ones w \<le> 64"
  unfolding count_ones_def by (metis diff_zero length_filter_le length_upt)

text \<open>Bit \<open>j\<close> of an extract is the bit of the source at the \<open>j\<close>-th selected position.\<close>

definition extracts :: "u64 \<Rightarrow> u64 \<Rightarrow> u64 \<Rightarrow> bool" where
  "extracts src sel w \<longleftrightarrow>
     (\<forall>j. bit w j \<longleftrightarrow> j < count_ones sel \<and> bit src (set_bits_of sel ! j))"

lemma pext_scalar_extracts: "extracts src sel (pext_scalar src sel)"
  using bit_pext_loop[of 0 sel 0 src] count_ones_le[of sel] by (simp add: extracts_def pext_scalar_def)

lemma bit_pdep_loop:
  assumes "in_pos + count_ones sel \<le> 64" and "\<forall>k. bit sel k \<longrightarrow> \<not> bit result k"
  shows "bit (pdep_loop src sel result in_pos) k \<longleftrightarrow>
    bit result k \<or> (\<exists>j<count_ones sel. set_bits_of sel ! j = k \<and> bit src (in_pos + j))"
  using assms
proof (induction src sel result in_pos rule: pdep_loop.induct)
  case (1 src sel result in_pos)
  show ?case
  proof (cases "sel = 0")
    case True
    then show ?thesis by (simp add: pdep_loop.simps[of src 0] count_ones_def)
  next
    case False
    let ?rest = "sel AND (sel - 1)"
    let ?result = "if drop_bit in_pos src AND 1 \<noteq> 0 then result OR (sel AND - sel) else result"
    note low = clear_lowest[OF False]
    have cnt: "count_ones sel = Suc (count_ones ?rest)" using low(1) by (metis length_Cons length_set_bits)
    have tz: "bit sel (trailing_zeros sel)" "trailing_zeros sel < 64"
      using trailing_zeros_eq_iff[OF False, of "trailing_zeros sel"] bit_u64_bound by auto
    have one: "drop_bit in_pos src AND 1 \<noteq> 0 \<longleftrightarrow> bit src in_pos"
      using and_exp_nonzero[of "drop_bit in_pos src" 0] by (simp add: bit_drop_bit_eq)
    have res: "bit ?result i \<longleftrightarrow> bit result i \<or> i = trailing_zeros sel \<and> bit src in_pos" for i
      using tz unfolding low(2) one by (auto simp: bit_simps)
    have "bit (pdep_loop src ?rest ?result (in_pos + 1)) k \<longleftrightarrow>
        bit ?result k \<or> (\<exists>j<count_ones ?rest. set_bits_of ?rest ! j = k \<and> bit src (in_pos + 1 + j))"
    proof (rule 1(1)[OF False refl])
      show "in_pos + 1 + count_ones ?rest \<le> 64" using 1(2) cnt by simp
      show "\<forall>k. bit ?rest k \<longrightarrow> \<not> bit ?result k"
        unfolding res using 1(3) by (auto simp: bit_and_iff bit_minus_one[OF False])
    qed
    also have "\<dots> \<longleftrightarrow> bit result k \<or> (\<exists>j<count_ones sel. set_bits_of sel ! j = k \<and> bit src (in_pos + j))"
      unfolding res cnt low(1) by (auto simp: Ex_less_Suc2)
    finally show ?thesis
      using False by (simp add: pdep_loop.simps[of src sel] Let_def)
  qed
qed

text \<open>A deposit puts bit \<open>j\<close> of the source at the \<open>j\<close>-th selected position; extracting it again is the identity on
  as many bits as are selected.\<close>

lemma pdep_scalar_bits:
  "bit (pdep_scalar src sel) k \<longleftrightarrow> (\<exists>j<count_ones sel. set_bits_of sel ! j = k \<and> bit src j)"
  using bit_pdep_loop[of 0 sel 0 src] count_ones_le[of sel] by (simp add: pdep_scalar_def)

lemma pext_pdep:
  "bit (pext_scalar (pdep_scalar src sel) sel) j \<longleftrightarrow> j < count_ones sel \<and> bit src j"
proof -
  have "set_bits_of sel ! j' = set_bits_of sel ! j \<longleftrightarrow> j' = j" if "j' < count_ones sel" "j < count_ones sel" for j'
    using that by (simp add: nth_eq_iff_index_eq length_set_bits)
  then show ?thesis
    using pext_scalar_extracts[of "pdep_scalar src sel" sel] unfolding extracts_def pdep_scalar_bits by blast
qed

section \<open>The XOR prefix sum\<close>

text \<open>The parity of the \<open>n\<close> bits of \<open>q\<close> up to and including bit \<open>i\<close>.\<close>

definition parity_upto :: "u64 \<Rightarrow> nat \<Rightarrow> nat \<Rightarrow> bool" where
  "parity_upto q n i = odd (card {j. j \<le> i \<and> i < j + n \<and> bit q j})"

definition xor_prefix_sum_scalar :: "u64 \<Rightarrow> u64" where
  "xor_prefix_sum_scalar q =
     (let q = q XOR push_bit 1 q; q = q XOR push_bit 2 q; q = q XOR push_bit 4 q;
          q = q XOR push_bit 8 q; q = q XOR push_bit 16 q
      in q XOR push_bit 32 q)"

lemma parity_double:
  "parity_upto q (n + n) i \<longleftrightarrow> (parity_upto q n i \<noteq> (n \<le> i \<and> parity_upto q n (i - n)))"
proof -
  let ?A = "{j. j \<le> i \<and> i < j + n \<and> bit q j}" and ?B = "{j. n \<le> i \<and> j \<le> i - n \<and> i - n < j + n \<and> bit q j}"
  have fin: "finite ?A" "finite ?B" by (auto intro: finite_subset[of _ "{..i}"])
  have "{j. j \<le> i \<and> i < j + (n + n) \<and> bit q j} = ?A \<union> ?B" by auto
  moreover have "?A \<inter> ?B = {}" by auto
  ultimately have "card {j. j \<le> i \<and> i < j + (n + n) \<and> bit q j} = card ?A + card ?B"
    using fin by (simp add: card_Un_disjoint)
  moreover have "n \<le> i \<Longrightarrow> ?B = {j. j \<le> i - n \<and> i - n < j + n \<and> bit q j}" "\<not> n \<le> i \<Longrightarrow> ?B = {}" by auto
  ultimately show ?thesis
    by (cases "n \<le> i") (simp_all add: parity_upto_def)
qed

lemma xor_step:
  fixes w :: u64
  assumes "\<forall>i<64. bit w i \<longleftrightarrow> parity_upto q n i" and "m = n + n"
  shows "\<forall>i<64. bit (w XOR push_bit n w) i \<longleftrightarrow> parity_upto q m i"
  using assms by (auto simp: bit_xor_iff bit_push_bit_iff parity_double)

lemma xor_prefix_sum_scalar_bits:
  "bit (xor_prefix_sum_scalar q) i \<longleftrightarrow> i < 64 \<and> odd (card {j. j \<le> i \<and> bit q j})"
proof -
  have "{j. j \<le> i \<and> i < j + 1 \<and> bit q j} = (if bit q i then {i} else {})" for i
    by (auto simp: less_Suc_eq_le dest: le_antisym)
  then have p0: "\<forall>i<64. bit q i \<longleftrightarrow> parity_upto q 1 i" by (simp add: parity_upto_def)
  define q1 where "q1 = q XOR push_bit 1 q"
  define q2 where "q2 = q1 XOR push_bit 2 q1"
  define q3 where "q3 = q2 XOR push_bit 4 q2"
  define q4 where "q4 = q3 XOR push_bit 8 q3"
  define q5 where "q5 = q4 XOR push_bit 16 q4"
  have p1: "\<forall>i<64. bit q1 i \<longleftrightarrow> parity_upto q 2 i" unfolding q1_def by (rule xor_step[OF p0]) simp
  have p2: "\<forall>i<64. bit q2 i \<longleftrightarrow> parity_upto q 4 i" unfolding q2_def by (rule xor_step[OF p1]) simp
  have p3: "\<forall>i<64. bit q3 i \<longleftrightarrow> parity_upto q 8 i" unfolding q3_def by (rule xor_step[OF p2]) simp
  have p4: "\<forall>i<64. bit q4 i \<longleftrightarrow> parity_upto q 16 i" unfolding q4_def by (rule xor_step[OF p3]) simp
  have p5: "\<forall>i<64. bit q5 i \<longleftrightarrow> parity_upto q 32 i" unfolding q5_def by (rule xor_step[OF p4]) simp
  have "xor_prefix_sum_scalar q = q5 XOR push_bit 32 q5"
    unfolding xor_prefix_sum_scalar_def Let_def q1_def q2_def q3_def q4_def q5_def ..
  moreover have "\<forall>i<64. bit (q5 XOR push_bit 32 q5) i \<longleftrightarrow> parity_upto q 64 i" by (rule xor_step[OF p5]) simp
  ultimately have "\<forall>i<64. bit (xor_prefix_sum_scalar q) i \<longleftrightarrow> parity_upto q 64 i" by (simp only:)
  moreover have "i < 64 \<Longrightarrow> parity_upto q 64 i = odd (card {j. j \<le> i \<and> bit q j})"
    unfolding parity_upto_def by (rule arg_cong[where f = "\<lambda>A. odd (card A)"]) auto
  ultimately show ?thesis using bit_u64_bound[of "xor_prefix_sum_scalar q" i] by auto
qed

section \<open>Byte equality\<close>

definition VECTOR_BYTES :: nat where
  "VECTOR_BYTES = 64"

fun eq_mask_loop :: "byte \<Rightarrow> nat \<Rightarrow> byte list \<Rightarrow> u64 \<Rightarrow> u64" where
  "eq_mask_loop b i [] w = w"
| "eq_mask_loop b i (x # xs) w = eq_mask_loop b (i + 1) xs (w OR push_bit i (of_bool (x = b)))"

definition eq_mask_scalar :: "byte list \<Rightarrow> byte \<Rightarrow> u64" where
  "eq_mask_scalar v b = eq_mask_loop b 0 v 0"

lemma bit_eq_mask_loop:
  "bit (eq_mask_loop b i xs w) k \<longleftrightarrow> bit w k \<or> k < 64 \<and> i \<le> k \<and> k - i < length xs \<and> xs ! (k - i) = b"
proof (induction xs arbitrary: i w)
  case (Cons x xs)
  have "bit (w OR push_bit i (of_bool (x = b))) k \<longleftrightarrow> bit w k \<or> k < 64 \<and> k = i \<and> x = b"
    by (auto simp: bit_simps)
  then show ?case
    by (auto simp: Cons.IH nth_Cons' not_less_eq_eq Suc_le_eq)
qed simp

lemma eq_mask_scalar_bits:
  "length v = 64 \<Longrightarrow> bit (eq_mask_scalar v b) i \<longleftrightarrow> i < 64 \<and> v ! i = b"
  by (simp add: eq_mask_scalar_def bit_eq_mask_loop)

section \<open>The seam\<close>

record isa =
  FAST_PEXT :: bool
  eq_mask :: "byte list \<Rightarrow> byte \<Rightarrow> u64"
  xor_prefix_sum :: "u64 \<Rightarrow> u64"
  pext :: "u64 \<Rightarrow> u64 \<Rightarrow> u64"

text \<open>The portable build of the token \<open>CompileTime\<close>, where nothing better is enabled.\<close>

definition compile_time_isa :: isa where
  "compile_time_isa = \<lparr>FAST_PEXT = False, eq_mask = eq_mask_scalar, xor_prefix_sum = xor_prefix_sum_scalar,
     pext = pext_scalar\<rparr>"

locale lawful_isa =
  fixes I :: isa
  assumes eq_mask_bits: "length v = 64 \<Longrightarrow> bit (eq_mask I v b) i \<longleftrightarrow> i < 64 \<and> v ! i = b"
    and xor_prefix_bits: "bit (xor_prefix_sum I q) i \<longleftrightarrow> i < 64 \<and> odd (card {j. j \<le> i \<and> bit q j})"
    and pext_extracts: "extracts src sel (pext I src sel)"

interpretation portable: lawful_isa compile_time_isa
  by unfold_locales
    (simp_all add: compile_time_isa_def eq_mask_scalar_bits xor_prefix_sum_scalar_bits pext_scalar_extracts)

text \<open>The same primitives behind a single-instruction extract, as on x86-64 with BMI2.\<close>

interpretation fast: lawful_isa "compile_time_isa\<lparr>FAST_PEXT := True\<rparr>"
  by unfold_locales
    (simp_all add: compile_time_isa_def eq_mask_scalar_bits xor_prefix_sum_scalar_bits pext_scalar_extracts)

end
