(* ===== verification/SimdIndex.thy ===== *)
theory SimdIndex
  imports Isa Stepper
begin

text \<open>
  src/src/parser/simd/index.rs: from bitmasks to buffer offsets, and from offsets to records with the removed
  characters compacted away in place. The extraction loops are shown to list the set bits in order.
\<close>

unbundle bit_operations_syntax

section \<open>Index extraction\<close>

definition FIXED_MAX_ARITY :: nat where
  "FIXED_MAX_ARITY = 63"

definition EXTRACT_UNROLL :: nat where
  "EXTRACT_UNROLL = 4"

definition EXTRACT_SPARSE :: nat where
  "EXTRACT_SPARSE = 2"

text \<open>\<open>base.wrapping_add(m.trailing_zeros())\<close>; past the last bit it is \<open>base + 64\<close>.\<close>

definition offset_of :: "u64 \<Rightarrow> nat \<Rightarrow> nat" where
  "offset_of base k = unat (base + of_nat k)"

function extract_sparse :: "u64 \<Rightarrow> u64 \<Rightarrow> nat list" where
  "extract_sparse base m =
     (if m = 0 then [] else offset_of base (trailing_zeros m) # extract_sparse base (m AND (m - 1)))"
  by pat_completeness auto
termination
  by (relation "measure (\<lambda>(_, m). count_ones m)") (auto simp: count_clear_lowest)

declare extract_sparse.simps [simp del]

fun extract_unrolled :: "u64 \<Rightarrow> nat \<Rightarrow> u64 \<Rightarrow> nat list \<times> u64" where
  "extract_unrolled base 0 m = ([], m)"
| "extract_unrolled base (Suc k) m =
     (let (xs, m') = extract_unrolled base k (m AND (m - 1)) in (offset_of base (trailing_zeros m) # xs, m'))"

function extract_dense :: "u64 \<Rightarrow> nat \<Rightarrow> nat \<Rightarrow> u64 \<Rightarrow> nat list" where
  "extract_dense base cnt written m =
     (if written < cnt
      then let (xs, m') = extract_unrolled base EXTRACT_UNROLL m in xs @ extract_dense base cnt (written + EXTRACT_UNROLL) m'
      else [])"
  by pat_completeness auto
termination
  by (relation "measure (\<lambda>(_, cnt, written, _). cnt - written)") (auto simp: EXTRACT_UNROLL_def)

declare extract_dense.simps [simp del]

text \<open>\<open>set_len\<close> publishes as many offsets as bits are set, whatever the loop wrote past them.\<close>

definition extend_offsets :: "nat list \<Rightarrow> u64 \<Rightarrow> u64 \<Rightarrow> nat list" where
  "extend_offsets out m base =
     (if m = 0 then out
      else let cnt = count_ones m
           in out @ take cnt (if cnt \<le> EXTRACT_SPARSE then extract_sparse base m else extract_dense base cnt 0 m))"

section \<open>Record assembly\<close>

text \<open>The moves of one field's runs of kept bytes, between the removed offsets.\<close>

fun compact_runs :: "byte list \<Rightarrow> nat \<Rightarrow> nat \<Rightarrow> nat list \<Rightarrow> byte list \<times> nat \<times> nat" where
  "compact_runs buf write prev_end [] = (buf, write, prev_end)"
| "compact_runs buf write prev_end (r # rs) =
     (let len = r - prev_end;
          buf' = (if len \<noteq> 0 \<and> write \<noteq> prev_end then memmove buf prev_end write len else buf)
      in compact_runs buf' (write + len) (r + 1) rs)"

text \<open>\<open>while r_cursor < r_offs.len() && r_offs[r_cursor] < limit\<close>.\<close>

definition skip_removals :: "nat list \<Rightarrow> nat \<Rightarrow> nat \<Rightarrow> nat" where
  "skip_removals r_offs r_cursor limit = r_cursor + length (takeWhile (\<lambda>r. r < limit) (drop r_cursor r_offs))"

text \<open>One field of a record that has removals: the buffer, the cursor and the field's place.\<close>

definition assemble_field :: "byte list \<Rightarrow> nat list \<Rightarrow> nat \<Rightarrow> nat \<Rightarrow> nat \<Rightarrow> byte list \<times> nat \<times> nat \<times> nat" where
  "assemble_field buf r_offs r_cursor b e =
     (let r_start = skip_removals r_offs r_cursor b;
          r_end = skip_removals r_offs r_start e;
          final_len = e - b - (r_end - r_start);
          buf' = (if r_end \<noteq> r_start
            then (let (buf1, write, prev_end) = compact_runs buf b b (subslice r_offs r_start r_end)
                  in if e \<noteq> prev_end \<and> write \<noteq> prev_end then memmove buf1 prev_end write (e - prev_end) else buf1)
            else buf)
      in (buf', r_end, b, final_len))"

fun assemble_fields ::
    "byte list \<Rightarrow> nat list \<Rightarrow> nat \<Rightarrow> (nat \<times> nat) list \<Rightarrow> byte list \<times> nat \<times> (nat \<times> nat) list" where
  "assemble_fields buf r_offs r_cursor [] = (buf, r_cursor, [])"
| "assemble_fields buf r_offs r_cursor ((b, e) # fs) =
     (let (buf1, r1, sp) = assemble_field buf r_offs r_cursor b e;
          (buf2, r2, sps) = assemble_fields buf1 r_offs r1 fs
      in (buf2, r2, sp # sps))"

text \<open>The fields of one record, by offsets; a record without removals is taken as it is.\<close>

definition assemble_record ::
    "byte list \<Rightarrow> nat list \<Rightarrow> nat \<Rightarrow> (nat \<times> nat) list \<Rightarrow> byte list \<times> nat \<times> (nat \<times> nat) list" where
  "assemble_record buf r_offs r_cursor fs =
     (let rec_first_b = fst (hd fs); rec_last_e = snd (last fs);
          r_cursor = skip_removals r_offs r_cursor rec_first_b;
          record_clean = (length r_offs \<le> r_cursor \<or> rec_last_e \<le> r_offs ! r_cursor)
      in if record_clean then (buf, r_cursor, map (\<lambda>(b, e). (b, e - b)) fs)
         else assemble_fields buf r_offs r_cursor fs)"

fun assemble_loop ::
    "('s, 'u) accumulator \<Rightarrow> nat \<Rightarrow> (nat \<times> nat) list \<Rightarrow> nat list \<Rightarrow> nat \<Rightarrow> byte list \<Rightarrow> nat \<Rightarrow> 's
      \<Rightarrow> ('u boxed_error + 's) \<times> byte list" where
  "assemble_loop acc n fs r_offs 0 buf r_cursor s = (Inr s, buf)"
| "assemble_loop acc n fs r_offs (Suc k) buf r_cursor s =
     (let (buf1, r1, sps) = assemble_record buf r_offs r_cursor (take n fs)
      in case acc s (map (span_bytes buf1) sps) of
           Inl e \<Rightarrow> (Inl e, buf1)
         | Inr s' \<Rightarrow> assemble_loop acc n (drop n fs) r_offs k buf1 r1 s')"

text \<open>\<open>None\<close> is the failed assertion.\<close>

definition assemble_records_fixed ::
    "('s, 'u) accumulator \<Rightarrow> byte list \<Rightarrow> nat \<Rightarrow> nat list \<Rightarrow> nat list \<Rightarrow> nat list \<Rightarrow> nat \<Rightarrow> 's
      \<Rightarrow> (('u boxed_error + 's) \<times> byte list) option" where
  "assemble_records_fixed acc buf n b_offs e_offs r_offs num_records s =
     (let total = num_records * n
      in if 1 \<le> n \<and> n \<le> FIXED_MAX_ARITY \<and> total \<le> length b_offs \<and> total \<le> length e_offs
         then Some (assemble_loop acc n (zip b_offs e_offs) r_offs num_records buf 0 s)
         else None)"

section \<open>Where a stepper stops\<close>

text \<open>simd/mod.rs: the first terminator at or past the chunk end, the run's start or the chunk end in a run across it.\<close>

definition handoff :: "nat \<Rightarrow> nat \<Rightarrow> bool \<Rightarrow> nat" where
  "handoff run_start rem stop = (if stop then max rem run_start else run_start)"

section \<open>What extraction lists\<close>

lemma set_bits_0 [simp]: "set_bits_of 0 = []"
  by simp

lemma extract_sparse_bits: "extract_sparse base m = map (offset_of base) (set_bits_of m)"
proof (induction base m rule: extract_sparse.induct)
  case (1 base m)
  then show ?case
    by (cases "m = 0") (simp_all add: extract_sparse.simps[of base m] extract_sparse.simps[of base 0] clear_lowest(1)[of m])
qed

lemma extract_unrolled_bits:
  "extract_unrolled base k m = (xs, m') \<Longrightarrow>
    length xs = k \<and> (count_ones m \<le> k \<longrightarrow> m' = 0 \<and> take (count_ones m) xs = map (offset_of base) (set_bits_of m)) \<and>
    (k \<le> count_ones m \<longrightarrow> count_ones m' = count_ones m - k \<and>
      map (offset_of base) (set_bits_of m) = xs @ map (offset_of base) (set_bits_of m'))"
proof (induction k arbitrary: m xs m')
  case 0
  then show ?case
    using length_set_bits[of m] by auto
next
  case (Suc k)
  let ?m = "m AND (m - 1)"
  obtain ys where ys: "extract_unrolled base k ?m = (ys, m')" "xs = offset_of base (trailing_zeros m) # ys"
    using Suc.prems by (auto split: prod.splits)
  note IH = Suc.IH[OF ys(1)]
  show ?case
  proof (cases "m = 0")
    case True
    then have "count_ones m = 0" "count_ones ?m = 0" by (simp_all add: count_ones_def)
    with IH ys True show ?thesis by simp
  next
    case False
    note low = clear_lowest(1)[OF False]
    have "count_ones m = Suc (count_ones ?m)" using low by (metis length_Cons length_set_bits)
    with IH ys low show ?thesis by auto
  qed
qed

lemma extract_dense_bits:
  assumes "count_ones m + written = cnt \<or> m = 0 \<and> cnt \<le> written"
  shows "take (count_ones m) (extract_dense base cnt written m) = map (offset_of base) (set_bits_of m)"
  using assms
proof (induction base cnt written m rule: extract_dense.induct)
  case (1 base cnt written m)
  show ?case
  proof (cases "written < cnt")
    case False
    then have "m = 0" using 1(2) length_set_bits[of m] by auto
    then show ?thesis by (simp add: count_ones_def)
  next
    case True
    obtain xs m' where xs: "extract_unrolled base EXTRACT_UNROLL m = (xs, m')" by fastforce
    note unr = extract_unrolled_bits[OF xs]
    have step: "extract_dense base cnt written m = xs @ extract_dense base cnt (written + EXTRACT_UNROLL) m'"
      using True xs by (simp add: extract_dense.simps[of base cnt written])
    have cm: "count_ones m + written = cnt" using 1(2) True by auto
    show ?thesis
    proof (cases "count_ones m \<le> EXTRACT_UNROLL")
      case le: True
      with unr step show ?thesis by simp
    next
      case False
      then have "count_ones m' + (written + EXTRACT_UNROLL) = cnt" using unr cm by simp
      from 1(1)[OF True xs[symmetric] refl] this unr False step show ?thesis by simp
    qed
  qed
qed

lemma extend_offsets_bits: "extend_offsets out m base = out @ map (offset_of base) (set_bits_of m)"
proof -
  have "take (count_ones m) (extract_sparse base m) = map (offset_of base) (set_bits_of m)"
    by (simp add: extract_sparse_bits flip: length_set_bits)
  moreover have "take (count_ones m) (extract_dense base (count_ones m) 0 m) = map (offset_of base) (set_bits_of m)"
    by (rule extract_dense_bits) simp
  moreover have "m = 0 \<Longrightarrow> set_bits_of m = []" by simp
  ultimately show ?thesis by (auto simp: extend_offsets_def Let_def)
qed

end
