(* ===== verification/Resolve.thy ===== *)
theory Resolve
  imports Chunk SimdIndex
begin

text \<open>
  src/src/scheduler/resolve.rs: turning the user's configuration into the resolved one: parser and I/O
  backend, chunk size, chunk and thread counts, ring-buffer sizes. The lemmas bound what comes out:
  between one and \<open>chunk_count\<close> workers, chunks that cover the input, and ring buffers that
  their limit has room for.
\<close>

section \<open>Backends\<close>

definition dfa_supports :: "Config \<Rightarrow> string + unit" where
  "dfa_supports c = Inr ()"

definition simd_supports :: "Config \<Rightarrow> string + unit" where
  "simd_supports c =
     (case field_count c of
        None \<Rightarrow> Inl ''SIMD parser requires a fixed field count (Arity mode)''
      | Some n \<Rightarrow>
          if \<not> (1 \<le> n \<and> n \<le> FIXED_MAX_ARITY) then Inl ''SIMD parser supports at most 63 fields per record''
          else if trim c then Inl ''SIMD parser does not support `trim`''
          else if flexible c then Inl ''SIMD parser does not support `flexible` (variable field count)''
          else if comment c \<noteq> None then Inl ''SIMD parser does not support comment lines''
          else if quote_handling c \<noteq> Toggle then Inl ''SIMD parser only supports `QuoteHandling::Toggle`''
          else (case (quote c, escape c) of
              (Some q, Some e) \<Rightarrow>
                if e \<noteq> q then Inl ''SIMD parser does not yet support escape characters distinct from quote''
                else Inr ()
            | _ \<Rightarrow> Inr ()))"

definition resolve_parser_backend :: "Config \<Rightarrow> 'u Error + ParserBackend" where
  "resolve_parser_backend c = (case parser_backend c of
       ParserAuto \<Rightarrow>
         (if simd_supports c = Inr () then Inr Simd_Backend
          else (case dfa_supports c of Inl e \<Rightarrow> Inl (InvalidConfig e) | Inr _ \<Rightarrow> Inr Dfa_Backend))
     | Dfa_Backend \<Rightarrow> (case dfa_supports c of Inl e \<Rightarrow> Inl (InvalidConfig e) | Inr _ \<Rightarrow> Inr Dfa_Backend)
     | Simd_Backend \<Rightarrow> (case simd_supports c of Inl e \<Rightarrow> Inl (InvalidConfig e) | Inr _ \<Rightarrow> Inr Simd_Backend))"

section \<open>The square root of a chunk count\<close>

text \<open>\<open>(c as f64).sqrt().ceil() as usize\<close> in IEEE 754 binary64: the conversion rounds to 53 significant
  bits, ties to even; the square root is the exact one rounded to nearest. Its value is a 53-bit number of
  units \<open>2 ^ -e\<close>, and a tie cannot occur, since the square of an odd number of half units is no integer.\<close>

fun bit_len :: "nat \<Rightarrow> nat" where
  "bit_len n = (if n = 0 then 0 else Suc (bit_len (n div 2)))"

declare bit_len.simps [simp del]

definition f64_of_nat :: "nat \<Rightarrow> nat" where
  "f64_of_nat c =
     (if bit_len c \<le> 53 then c
      else (let s = bit_len c - 53; q = c div 2 ^ s; r = c mod 2 ^ s; half = 2 ^ (s - 1)
            in (if half < r \<or> r = half \<and> odd q then q + 1 else q) * 2 ^ s))"

fun isqrt :: "nat \<Rightarrow> nat" where
  "isqrt n =
     (if n = 0 then 0
      else (let r = 2 * isqrt (n div 4) in if (r + 1) * (r + 1) \<le> n then r + 1 else r))"

declare isqrt.simps [simp del]

definition f64_sqrt_ceil :: "nat \<Rightarrow> nat" where
  "f64_sqrt_ceil m =
     (let e = 53 - bit_len (isqrt m);
          n = m * 4 ^ e;
          r = isqrt n;
          r' = (if n \<le> r * r + r then r else r + 1)
      in (r' + 2 ^ e - 1) div 2 ^ e)"

section \<open>Sizes and counts\<close>

definition IN_MEMORY_FILE_SIZE_THRESHOLD :: nat where
  "IN_MEMORY_FILE_SIZE_THRESHOLD = 1024 * 1024"

definition RING_BUFFER_SIZE :: nat where
  "RING_BUFFER_SIZE = 64 * 1024"

definition MANY_THREADS_RING_BUFFER_SIZE :: nat where
  "MANY_THREADS_RING_BUFFER_SIZE = 16 * 1024"

definition MANY_THREADS :: nat where
  "MANY_THREADS = 64"

definition APPLE_RING_BUFFER_SIZE :: nat where
  "APPLE_RING_BUFFER_SIZE = 256 * 1024"

definition USIZE_MAX :: nat where
  "USIZE_MAX = 2 ^ 64 - 1"

definition affordable_thread_count :: "Host \<Rightarrow> nat option \<Rightarrow> nat" where
  "affordable_thread_count h lim = (case lim of
       None \<Rightarrow> USIZE_MAX
     | Some budget \<Rightarrow> max (budget div allocation_granularity h) 1)"

definition resolve_thread_count :: "Host \<Rightarrow> Config \<Rightarrow> nat \<Rightarrow> nat option \<Rightarrow> nat" where
  "resolve_thread_count h c chunks lim =
     (let hw = (if concurrency c = 0 then available_parallelism h else concurrency c);
          sqrt_c = f64_sqrt_ceil (f64_of_nat chunks);
          b = affordable_thread_count h lim
      in min (min (min hw chunks) (6 * sqrt_c)) b)"

definition resolve_buffer_size :: "Host \<Rightarrow> nat \<Rightarrow> nat \<Rightarrow> nat option \<Rightarrow> nat" where
  "resolve_buffer_size h own threads lim =
     (if own \<noteq> 0 then own
      else (let sz = (if target_apple h then APPLE_RING_BUFFER_SIZE
                      else if MANY_THREADS \<le> threads then MANY_THREADS_RING_BUFFER_SIZE
                      else RING_BUFFER_SIZE)
            in case lim of
                 Some l \<Rightarrow> if l < sz then 2 ^ (bit_len (max l 1) - 1) else sz
               | None \<Rightarrow> sz))"

definition resolve_buffer_limit :: "nat option \<Rightarrow> nat option \<Rightarrow> nat option" where
  "resolve_buffer_limit own share = (case own of
       None \<Rightarrow> share
     | Some own \<Rightarrow>
         if own = 0 then share
         else (case share of Some share \<Rightarrow> Some (min own share) | None \<Rightarrow> Some own))"

definition resolve_ringbuf_settings :: "Host \<Rightarrow> RingBufSettings \<Rightarrow> nat option \<Rightarrow> nat \<Rightarrow> RingBufSettings" where
  "resolve_ringbuf_settings h ring share threads =
     (let l = resolve_buffer_limit (buffer_limit ring) share
      in \<lparr>buffer_size = resolve_buffer_size h (buffer_size ring) threads l, buffer_limit = l\<rparr>)"

definition unbacked_ring_settings :: "Host \<Rightarrow> nat option \<Rightarrow> nat \<Rightarrow> RingBufSettings" where
  "unbacked_ring_settings h share threads = resolve_ringbuf_settings h default_ring_settings share threads"

definition resolve_io_backend :: "Host \<Rightarrow> Config \<Rightarrow> nat \<Rightarrow> nat option \<Rightarrow> nat \<Rightarrow> IoBackend" where
  "resolve_io_backend h c fsize share threads =
     (let selected = (case io_backend c of
            IoAuto \<Rightarrow> if fsize \<le> IN_MEMORY_FILE_SIZE_THRESHOLD then InMemory else RingBuf default_ring_settings
          | other \<Rightarrow> other)
      in case selected of
           RingBuf ring \<Rightarrow> RingBuf (resolve_ringbuf_settings h ring share threads)
         | other \<Rightarrow> other)"

text \<open>\<open>None\<close> is the \<open>unreachable!\<close>.\<close>

definition resolve_chunk_size :: "Config \<Rightarrow> ParserBackend \<Rightarrow> nat option" where
  "resolve_chunk_size c p =
     (if chunk_size c \<noteq> 0 then Some (chunk_size c)
      else (case p of
          Dfa_Backend \<Rightarrow> Some (256 * 1024)
        | Simd_Backend \<Rightarrow> Some (1024 * 1024)
        | ParserAuto \<Rightarrow> None))"

definition resolve_io_buffer_limit :: "Host \<Rightarrow> Config \<Rightarrow> nat option" where
  "resolve_io_buffer_limit h c = (case io_buffer_limit c of
       Some n \<Rightarrow> if n = 0 then map_option (\<lambda>ram. ram div 2) (total_ram h) else Some n
     | None \<Rightarrow> None)"

definition per_thread_share :: "nat option \<Rightarrow> nat \<Rightarrow> nat option" where
  "per_thread_share lim threads = (case lim of
       None \<Rightarrow> None
     | Some budget \<Rightarrow> if threads = 0 then None else Some (budget div threads))"

definition stream_ring_settings :: "Host \<Rightarrow> Config \<Rightarrow> RingBufSettings" where
  "stream_ring_settings h c =
     unbacked_ring_settings h (per_thread_share (resolve_io_buffer_limit h c) 1) 1"

section \<open>The resolved configuration\<close>

record ResolvedConfig =
  rs_config :: Config
  rs_parser_backend :: ParserBackend
  rs_io_backend :: IoBackend
  rs_thread_count :: nat
  rs_chunk_count :: nat
  rs_file_size :: nat

definition div_ceil :: "nat \<Rightarrow> nat \<Rightarrow> nat" where
  "div_ceil a b = (a + b - 1) div b"

definition for_file :: "Host \<Rightarrow> Config \<Rightarrow> nat \<Rightarrow> ('u Error + ResolvedConfig) option" where
  "for_file h c fsize = (case resolve_parser_backend c of
       Inl e \<Rightarrow> Some (Inl e)
     | Inr p \<Rightarrow>
         (case resolve_chunk_size c p of
            None \<Rightarrow> None
          | Some cs \<Rightarrow>
              (let chunks = div_ceil fsize cs;
                   lim = resolve_io_buffer_limit h c;
                   threads = resolve_thread_count h c chunks lim;
                   share = per_thread_share lim threads
               in Some (Inr \<lparr>
                    rs_config = c\<lparr>chunk_size := cs, io_buffer_limit := lim\<rparr>,
                    rs_parser_backend = p,
                    rs_io_backend = resolve_io_backend h c fsize share threads,
                    rs_thread_count = threads,
                    rs_chunk_count = chunks,
                    rs_file_size = fsize\<rparr>))))"

definition for_slice :: "Host \<Rightarrow> Config \<Rightarrow> nat \<Rightarrow> ('u Error + ResolvedConfig) option" where
  "for_slice h c len = (case resolve_parser_backend c of
       Inl e \<Rightarrow> Some (Inl e)
     | Inr p \<Rightarrow>
         (case resolve_chunk_size c p of
            None \<Rightarrow> None
          | Some cs \<Rightarrow>
              (let chunks = div_ceil len cs;
                   lim = resolve_io_buffer_limit h c;
                   threads = resolve_thread_count h c chunks lim;
                   share = per_thread_share lim threads
               in Some (Inr \<lparr>
                    rs_config = c\<lparr>chunk_size := cs, io_buffer_limit := lim\<rparr>,
                    rs_parser_backend = p,
                    rs_io_backend = RingBuf (unbacked_ring_settings h share threads),
                    rs_thread_count = threads,
                    rs_chunk_count = chunks,
                    rs_file_size = len\<rparr>))))"

definition find_mode :: "ResolvedConfig \<Rightarrow> nat \<Rightarrow> FindRecordStart" where
  "find_mode rs idx =
     (if idx = 0 then (if has_headers (rs_config rs) then SkipHeaders else FindNo) else FindStrict)"

section \<open>The square root, exactly\<close>

lemma bit_len_bounds: "n < 2 ^ bit_len n \<and> (0 < n \<longrightarrow> 2 ^ (bit_len n - 1) \<le> n \<and> 0 < bit_len n)"
proof (induction n rule: bit_len.induct)
  case (1 n)
  show ?case
  proof (cases "n = 0")
    case True
    then show ?thesis by (simp add: bit_len.simps)
  next
    case False
    with 1 have ih: "n div 2 < 2 ^ bit_len (n div 2)"
      "0 < n div 2 \<Longrightarrow> 2 ^ (bit_len (n div 2) - 1) \<le> n div 2 \<and> 0 < bit_len (n div 2)"
      by auto
    have len: "bit_len n = Suc (bit_len (n div 2))" using False by (subst bit_len.simps) simp
    show ?thesis
    proof (cases "n div 2 = 0")
      case True
      with False have "n = 1" by linarith
      then show ?thesis by (simp add: bit_len.simps)
    next
      case half: False
      then obtain k where k: "bit_len (n div 2) = Suc k" using ih(2) by (auto simp: gr0_conv_Suc)
      with ih half have "2 ^ k \<le> n div 2" "n div 2 < 2 * 2 ^ k" by auto
      then show ?thesis unfolding len k by auto
    qed
  qed
qed

lemma bit_len_0 [simp]: "bit_len 0 = 0"
  by (simp add: bit_len.simps)

lemma bit_len_le: "n < 2 ^ k \<Longrightarrow> bit_len n \<le> k"
proof (rule ccontr)
  assume n: "n < 2 ^ k" and k: "\<not> bit_len n \<le> k"
  have "0 < n" using k by (cases "n = 0") simp_all
  have "k \<le> bit_len n - 1" using k by simp
  then have "(2::nat) ^ k \<le> 2 ^ (bit_len n - 1)" "2 ^ (bit_len n - 1) \<le> n"
    using bit_len_bounds[of n] \<open>0 < n\<close> by (auto intro: power_increasing)
  with n show False by linarith
qed

lemma isqrt_bounds: "isqrt n * isqrt n \<le> n \<and> n < (isqrt n + 1) * (isqrt n + 1)"
proof (induction n rule: isqrt.induct)
  case (1 n)
  show ?case
  proof (cases "n = 0")
    case True
    then show ?thesis by (simp add: isqrt.simps)
  next
    case False
    define r where "r = isqrt (n div 4)"
    with 1 False have "r * r \<le> n div 4" "n div 4 < (r + 1) * (r + 1)" by auto
    then have r: "4 * (r * r) \<le> n" "n < 4 * ((r + 1) * (r + 1))" by linarith+
    have "isqrt n = (if (2 * r + 1) * (2 * r + 1) \<le> n then 2 * r + 1 else 2 * r)"
      using False by (subst isqrt.simps) (simp add: r_def Let_def)
    with r show ?thesis by (auto simp: algebra_simps)
  qed
qed

lemma isqrt_unique: "r * r \<le> n \<Longrightarrow> n < (r + 1) * (r + 1) \<Longrightarrow> isqrt n = r"
  using isqrt_bounds[of n]
  by (metis Suc_eq_plus1 le_less_trans less_Suc_eq_le linorder_not_less mult_le_mono nat_less_le
      order_antisym)

lemma isqrt_less: "n < k * k \<Longrightarrow> isqrt n < k"
  using isqrt_bounds[of n] by (meson le_less_trans linorder_not_less mult_le_mono)

text \<open>Up to \<open>2 ^ 52\<close> chunks the floating-point detour is exact.\<close>

lemma f64_sqrt_ceil_exact:
  assumes "m \<le> 2 ^ 52"
  shows "f64_sqrt_ceil (f64_of_nat m) = (if isqrt m * isqrt m = m then isqrt m else isqrt m + 1)"
proof -
  have "m < 2 ^ 53" using assms by simp
  then have conv: "f64_of_nat m = m" by (simp add: f64_of_nat_def bit_len_le)
  define k e where "k = isqrt m" and "e = 53 - bit_len k"
  let ?u = "(2::nat) ^ e"
  define n r where "n = m * 4 ^ e" and "r = isqrt n"
  define r' where "r' = (if n \<le> r * r + r then r else r + 1)"
  have four: "(4::nat) ^ e = ?u * ?u" by (simp add: power_mult_distrib[symmetric])
  have res: "f64_sqrt_ceil m = (r' + ?u - 1) div ?u"
    by (simp add: f64_sqrt_ceil_def Let_def k_def e_def n_def r_def r'_def)
  have k: "k * k \<le> m" "m < (k + 1) * (k + 1)" using isqrt_bounds[of m] by (simp_all add: k_def)
  have pos: "0 < ?u" by simp
  obtain v where v: "?u = Suc v" using pos gr0_implies_Suc by blast
  show ?thesis
  proof (cases "k * k = m")
    case True
    then have "n = (k * ?u) * (k * ?u)" by (simp add: n_def four algebra_simps)
    moreover from this have "r = k * ?u" unfolding r_def by (intro isqrt_unique) simp_all
    ultimately have "r' = k * ?u" by (simp add: r'_def)
    then have "f64_sqrt_ceil m = k"
      unfolding res v by (intro div_nat_eqI) (auto simp: algebra_simps)
    then show ?thesis using True conv by (simp add: k_def)
  next
    case False
    with k have km: "k * k + 1 \<le> m" by linarith
    have "m < 2 ^ 52 \<or> m = 2 ^ 26 * 2 ^ 26" using assms by auto
    moreover have "m \<noteq> 2 ^ 26 * 2 ^ 26"
    proof
      assume "m = 2 ^ 26 * 2 ^ 26"
      moreover from this have "k = 2 ^ 26" unfolding k_def by (intro isqrt_unique) simp_all
      ultimately show False using False by simp
    qed
    ultimately have "m < 2 ^ 26 * 2 ^ 26" by simp
    then have "k < 2 ^ 26" unfolding k_def by (rule isqrt_less)
    then have "bit_len k \<le> 26" by (rule bit_len_le)
    then have "(2::nat) ^ 27 \<le> ?u" unfolding e_def by (intro power_increasing) auto
    with \<open>k < 2 ^ 26\<close> have ku: "k < ?u" by simp
    have r: "r * r \<le> n" "n < (r + 1) * (r + 1)" using isqrt_bounds[of n] by (simp_all add: r_def)
    have lo: "k * ?u < r'"
    proof (cases "k * ?u < r")
      case True
      then show ?thesis by (simp add: r'_def)
    next
      case not_less: False
      have "(k * ?u) * (k * ?u) + ?u * ?u \<le> n"
        using mult_le_mono1[OF km, of "?u * ?u"] by (simp add: n_def four algebra_simps)
      moreover have "r * r + r \<le> (k * ?u) * (k * ?u) + k * ?u"
        using not_less by (intro add_mono mult_le_mono) simp_all
      moreover have "k * ?u < ?u * ?u" using ku pos by simp
      moreover have "k * ?u \<le> r"
      proof (rule ccontr)
        assume "\<not> k * ?u \<le> r"
        then have "(r + 1) * (r + 1) \<le> (k * ?u) * (k * ?u)" by (intro mult_le_mono) simp_all
        with r(2) calculation(1) show False by linarith
      qed
      ultimately have "r * r + r < n" "k * ?u \<le> r" by linarith+
      then show ?thesis by (simp add: r'_def)
    qed
    have hi: "r' \<le> (k + 1) * ?u"
    proof -
      have "n < ((k + 1) * ?u) * ((k + 1) * ?u)"
        using mult_strict_right_mono[OF k(2), of "?u * ?u"] pos by (simp add: n_def four algebra_simps)
      then have "r < (k + 1) * ?u" unfolding r_def by (rule isqrt_less)
      then show ?thesis by (simp add: r'_def)
    qed
    have "f64_sqrt_ceil m = k + 1"
      unfolding res
    proof (rule div_nat_eqI)
      show "?u * (k + 1) \<le> r' + ?u - 1" using lo pos by (simp add: algebra_simps)
      show "r' + ?u - 1 < ?u * Suc (k + 1)" using hi by (simp add: v algebra_simps)
    qed
    with False conv show ?thesis by (simp add: k_def)
  qed
qed

text \<open>The number of workers is positive for any positive number of chunks, whatever their number.\<close>

lemma f64_of_nat_pos: "0 < c \<Longrightarrow> 0 < f64_of_nat c"
proof (cases "bit_len c \<le> 53")
  case False
  assume "0 < c"
  let ?s = "bit_len c - 53"
  have "2 ^ ?s \<le> (2::nat) ^ (bit_len c - 1)" using False by (intro power_increasing) auto
  then have "2 ^ ?s \<le> c" using bit_len_bounds[of c] \<open>0 < c\<close> by linarith
  then have "0 < c div 2 ^ ?s" by (simp add: div_greater_zero_iff)
  with False show ?thesis by (auto simp: f64_of_nat_def Let_def)
qed (simp add: f64_of_nat_def)

lemma f64_sqrt_ceil_pos: "0 < m \<Longrightarrow> 0 < f64_sqrt_ceil m"
proof -
  assume m: "0 < m"
  define e n where "e = 53 - bit_len (isqrt m)" and "n = m * 4 ^ e"
  have "1 * 1 \<le> n" using m by (simp add: n_def)
  then have "0 < isqrt n" using isqrt_bounds[of n] by (cases "isqrt n") auto
  then have "0 < (if n \<le> isqrt n * isqrt n + isqrt n then isqrt n else isqrt n + 1)" (is "0 < ?r") by simp
  then obtain x where x: "?r = Suc x" using gr0_implies_Suc by blast
  have "f64_sqrt_ceil m = (Suc x + 2 ^ e - 1) div 2 ^ e"
    unfolding f64_sqrt_ceil_def Let_def e_def[symmetric] n_def[symmetric] x ..
  then show ?thesis by (simp add: div_greater_zero_iff)
qed

section \<open>What resolution guarantees\<close>

lemma div_ceil_bounds:
  assumes "0 < b"
  shows "a \<le> div_ceil a b * b" and "0 < a \<Longrightarrow> (div_ceil a b - 1) * b < a" and "div_ceil a b = 0 \<longleftrightarrow> a = 0"
proof -
  define q where "q = div_ceil a b"
  have "q * b + (a + b - 1) mod b = a + b - 1" by (simp add: q_def div_ceil_def)
  moreover have "(a + b - 1) mod b < b" using assms by simp
  ultimately have q: "q * b \<le> a + b - 1" "a + b - 1 < q * b + b" by linarith+
  with assms show "a \<le> div_ceil a b * b" unfolding q_def[symmetric] by linarith
  show "0 < a \<Longrightarrow> (div_ceil a b - 1) * b < a"
    unfolding q_def[symmetric] using q assms by (cases q) auto
  show "div_ceil a b = 0 \<longleftrightarrow> a = 0"
    unfolding q_def[symmetric] using q assms by (cases q) auto
qed

lemma resolve_parser_backend_concrete: "resolve_parser_backend c = Inr p \<Longrightarrow> p \<noteq> ParserAuto"
  by (auto simp: resolve_parser_backend_def split: ParserBackend.splits sum.splits if_splits)

lemma resolve_chunk_size_ok:
  assumes "resolve_parser_backend c = Inr p"
  shows "\<exists>cs. resolve_chunk_size c p = Some cs \<and> 0 < cs"
  using resolve_parser_backend_concrete[OF assms] by (cases p) (auto simp: resolve_chunk_size_def)

lemma resolve_thread_count_le: "resolve_thread_count h c chunks lim \<le> chunks"
  by (simp add: resolve_thread_count_def Let_def)

lemma resolve_thread_count_pos:
  assumes "0 < chunks" and "0 < available_parallelism h"
  shows "0 < resolve_thread_count h c chunks lim"
  using assms f64_sqrt_ceil_pos[OF f64_of_nat_pos]
  by (auto simp: resolve_thread_count_def affordable_thread_count_def USIZE_MAX_def Let_def split: option.split)

lemma resolve_thread_count_budget:
  assumes "0 < allocation_granularity h" and "allocation_granularity h \<le> budget"
  shows "resolve_thread_count h c chunks (Some budget) * allocation_granularity h \<le> budget"
proof -
  let ?g = "allocation_granularity h" and ?t = "resolve_thread_count h c chunks (Some budget)"
  have "?t \<le> affordable_thread_count h (Some budget)" by (simp add: resolve_thread_count_def Let_def)
  also have "\<dots> = budget div ?g"
  proof -
    have "1 \<le> budget div ?g" using assms by (simp add: Suc_le_eq div_greater_zero_iff)
    then show ?thesis by (simp add: affordable_thread_count_def max_def)
  qed
  finally have "?t * ?g \<le> budget div ?g * ?g" by (rule mult_le_mono1)
  also have "\<dots> \<le> budget" by simp
  finally show ?thesis .
qed

lemma for_file_shape:
  assumes "for_file h c n = Some (Inr rs)"
  shows "\<exists>p cs. resolve_parser_backend c = (Inr p :: 'u Error + _) \<and> rs_parser_backend rs = p \<and> p \<noteq> ParserAuto \<and>
    0 < cs \<and> chunk_size (rs_config rs) = cs \<and>
    rs_config rs = c\<lparr>chunk_size := cs, io_buffer_limit := resolve_io_buffer_limit h c\<rparr> \<and>
    rs_chunk_count rs = div_ceil n cs \<and> rs_file_size rs = n \<and>
    rs_thread_count rs = resolve_thread_count h c (div_ceil n cs) (resolve_io_buffer_limit h c) \<and>
    rs_io_backend rs = resolve_io_backend h c n
      (per_thread_share (resolve_io_buffer_limit h c) (rs_thread_count rs)) (rs_thread_count rs)"
proof -
  have same: "resolve_parser_backend c = (Inr p :: 'x Error + _) \<Longrightarrow>
      resolve_parser_backend c = (Inr p :: 'u Error + _)" for p
    by (auto simp: resolve_parser_backend_def split: ParserBackend.splits sum.splits if_splits)
  from assms obtain p where p: "resolve_parser_backend c = (Inr p :: 'a Error + _)"
    by (auto simp: for_file_def split: sum.splits)
  with resolve_chunk_size_ok[OF p] resolve_parser_backend_concrete[OF p] assms same[OF p]
  show ?thesis by (auto simp: for_file_def Let_def)
qed

lemma for_file_dialect:
  assumes "for_file h c n = Some (Inr rs)"
  shows "delimiter (rs_config rs) = delimiter c" "terminator (rs_config rs) = terminator c"
    "quote (rs_config rs) = quote c" "escape (rs_config rs) = escape c" "comment (rs_config rs) = comment c"
    "0 < chunk_size (rs_config rs)" "rs_file_size rs = n"
    "rs_chunk_count rs = div_ceil n (chunk_size (rs_config rs))"
    "rs_thread_count rs = resolve_thread_count h c (rs_chunk_count rs) (resolve_io_buffer_limit h c)"
    "has_headers (rs_config rs) = has_headers c" "quote_handling (rs_config rs) = quote_handling c"
    "field_count (rs_config rs) = field_count c" "trim (rs_config rs) = trim c"
proof -
  from for_file_shape[OF assms] obtain cs where
    cs: "rs_config rs = c\<lparr>chunk_size := cs, io_buffer_limit := resolve_io_buffer_limit h c\<rparr>" "0 < cs"
    and n: "rs_chunk_count rs = div_ceil n cs" "rs_file_size rs = n"
    "rs_thread_count rs = resolve_thread_count h c (div_ceil n cs) (resolve_io_buffer_limit h c)"
    by blast
  show "delimiter (rs_config rs) = delimiter c" "terminator (rs_config rs) = terminator c"
    "quote (rs_config rs) = quote c" "escape (rs_config rs) = escape c" "comment (rs_config rs) = comment c"
    "0 < chunk_size (rs_config rs)" "rs_file_size rs = n"
    "rs_chunk_count rs = div_ceil n (chunk_size (rs_config rs))"
    "rs_thread_count rs = resolve_thread_count h c (rs_chunk_count rs) (resolve_io_buffer_limit h c)"
    "has_headers (rs_config rs) = has_headers c" "quote_handling (rs_config rs) = quote_handling c"
    "field_count (rs_config rs) = field_count c" "trim (rs_config rs) = trim c"
    using cs(2) n by (simp_all add: cs(1))
qed

lemma for_file_total:
  assumes "resolve_parser_backend c = (Inr p :: 'u Error + _)"
  shows "\<exists>rs. for_file h c n = (Some (Inr rs) :: ('u Error + _) option)"
  using resolve_chunk_size_ok[OF assms] assms by (auto simp: for_file_def Let_def)

text \<open>The working size \<open>Auto\<close> picks always fits the cap, so the ring buffer can be built.\<close>

lemma resolve_buffer_size_auto:
  assumes "allocation_granularity h = 2 ^ j" and "\<And>l. lim = Some l \<Longrightarrow> 2 ^ j \<le> l"
  shows "\<exists>cap. checked_capacity (allocation_granularity h) (resolve_buffer_size h 0 threads lim) lim = Inr cap"
proof -
  have size: "\<exists>i. resolve_buffer_size h 0 threads None = 2 ^ i"
  proof -
    have "APPLE_RING_BUFFER_SIZE = 2 ^ 18" "MANY_THREADS_RING_BUFFER_SIZE = 2 ^ 14" "RING_BUFFER_SIZE = 2 ^ 16"
      by (simp_all add: APPLE_RING_BUFFER_SIZE_def MANY_THREADS_RING_BUFFER_SIZE_def RING_BUFFER_SIZE_def)
    then have "\<exists>i. APPLE_RING_BUFFER_SIZE = 2 ^ i" "\<exists>i. MANY_THREADS_RING_BUFFER_SIZE = 2 ^ i"
      "\<exists>i. RING_BUFFER_SIZE = 2 ^ i"
      by blast+
    then show ?thesis by (simp add: resolve_buffer_size_def)
  qed
  show ?thesis
  proof (cases lim)
    case None
    then show ?thesis by (simp add: checked_capacity_def over_def)
  next
    case (Some l)
    have "2 ^ j \<le> l" using assms(2) Some by simp
    moreover have "(1::nat) \<le> 2 ^ j" by simp
    ultimately have l: "2 ^ j \<le> l" "0 < l" "max l 1 = l" by linarith+
    have "\<exists>i. resolve_buffer_size h 0 threads lim = 2 ^ i \<and> 2 ^ i \<le> l"
    proof (cases "l < resolve_buffer_size h 0 threads None")
      case True
      then have "resolve_buffer_size h 0 threads lim = 2 ^ (bit_len l - 1)"
        using Some l by (auto simp: resolve_buffer_size_def Let_def)
      then show ?thesis using bit_len_bounds[of l] l(2) by auto
    next
      case False
      then have "resolve_buffer_size h 0 threads lim = resolve_buffer_size h 0 threads None"
        using Some by (auto simp: resolve_buffer_size_def Let_def)
      with False size show ?thesis by (auto simp: not_less)
    qed
    then show ?thesis
      using l assms(1) Some by (auto simp: checked_capacity_def over_def next_power_of_two_exact Let_def)
  qed
qed

end
