(* ===== verification/Scheduler.thy ===== *)
theory Scheduler
  imports Merge Resolve
begin

text \<open>
  src/src/scheduler/mod.rs: speculation. A chunk is parsed under one assumption after the other until a pass
  succeeds; the merge then lines the passes up, and parses again where no assumption was right. The
  lemmas compute a chunk's output as a function of the input alone (\<open>spec_output\<close>), show that its passes
  and a reparse are segments of one sequential parse, and conclude that chunked and sequential
  parsing agree whenever each boundary is covered by a chunk that has a pass.
\<close>

section \<open>Trying assumptions\<close>

datatype ('s, 'u) TryOutcome =
    Resolved "('s, 'u) ResolvedPass list" "nat option"
  | CleanNoBoundary
  | AllFailed

definition try_finish :: "('s, 'u) ResolvedPass list \<Rightarrow> nat option \<Rightarrow> bool \<Rightarrow> ('s, 'u) TryOutcome" where
  "try_finish passes rend saw_clean =
     (if passes \<noteq> [] then Resolved passes rend else if saw_clean then CleanNoBoundary else AllFailed)"

text \<open>The loop over the assumptions. \<open>None\<close> is a panic: the \<open>expect\<close> on the chunk reader.\<close>

fun try_loop ::
    "('c, 'r) io_ops \<Rightarrow> ('r, 's, 'u) chunk_parser \<Rightarrow> 's \<Rightarrow> nat \<Rightarrow> nat \<Rightarrow> FindRecordStart
      \<Rightarrow> Assumption list \<Rightarrow> ('s, 'u) ResolvedPass list \<Rightarrow> nat option \<Rightarrow> bool \<Rightarrow> 'c
      \<Rightarrow> (('s, 'u) TryOutcome \<times> 'c) option" where
  "try_loop X P init chunk_start chunk_end mode [] passes rend saw_clean ctx =
     Some (try_finish passes rend saw_clean, ctx)"
| "try_loop X P init chunk_start chunk_end mode (a # as) passes rend saw_clean ctx =
     (case io_open X chunk_start chunk_end ctx of
        None \<Rightarrow> None
      | Some (Inl e) \<Rightarrow> None
      | Some (Inr r) \<Rightarrow>
          (case chunk_parse (io_reader X) P init a mode r of
             None \<Rightarrow> None
           | Some (pr, r') \<Rightarrow>
               (let ctx' = io_release X ctx r' in
                case (record_start pr, result pr) of
                  (Some start, res) \<Rightarrow>
                    (let success = is_ok res;
                         rend' = (if success then map_option (\<lambda>x. chunk_start + x) (record_end pr) else rend);
                         passes' = passes @ [\<lparr>rp_record_start = chunk_start + start,
                                               rp_result = map_err (with_base chunk_start) res\<rparr>]
                     in if success then Some (try_finish passes' rend' saw_clean, ctx')
                        else try_loop X P init chunk_start chunk_end mode as passes' rend' saw_clean ctx')
                | (None, Inr _) \<Rightarrow> try_loop X P init chunk_start chunk_end mode as passes rend True ctx'
                | (None, Inl _) \<Rightarrow>
                    try_loop X P init chunk_start chunk_end mode as passes rend saw_clean ctx')))"

definition try_assumptions ::
    "('c, 'r) io_ops \<Rightarrow> ('r, 's, 'u) chunk_parser \<Rightarrow> 's \<Rightarrow> nat \<Rightarrow> nat \<Rightarrow> Assumption list \<Rightarrow> FindRecordStart
      \<Rightarrow> 'c \<Rightarrow> (('s, 'u) TryOutcome \<times> 'c) option" where
  "try_assumptions X P init chunk_start chunk_end as mode ctx =
     try_loop X P init chunk_start chunk_end mode as [] None False ctx"

definition empty_output :: "('s, 'u) ChunkOutput" where
  "empty_output = \<lparr>co_passes = [], co_record_end = None\<rparr>"

definition process_chunk ::
    "('c, 'r) io_ops \<Rightarrow> ('r, 's, 'u) chunk_parser \<Rightarrow> 's \<Rightarrow> ResolvedConfig \<Rightarrow> Assumption list \<Rightarrow> nat \<Rightarrow> 'c
      \<Rightarrow> (('s, 'u) ChunkOutput \<times> 'c) option" where
  "process_chunk X P init rs as idx ctx =
     (let cs = chunk_size (rs_config rs);
          chunk_start = idx * cs;
          chunk_end = min (chunk_start + cs) (rs_file_size rs);
          mode = find_mode rs idx
      in case try_assumptions X P init chunk_start chunk_end as mode ctx of
           None \<Rightarrow> None
         | Some (Resolved passes rend, ctx') \<Rightarrow> Some (\<lparr>co_passes = passes, co_record_end = rend\<rparr>, ctx')
         | Some (CleanNoBoundary, ctx') \<Rightarrow> Some (empty_output, ctx')
         | Some (AllFailed, ctx') \<Rightarrow>
             (if mode = FindStrict
              then (case try_assumptions X P init chunk_start chunk_end as FindLenient ctx' of
                  None \<Rightarrow> None
                | Some (Resolved passes rend, ctx'') \<Rightarrow>
                    Some (\<lparr>co_passes = passes, co_record_end = rend\<rparr>, ctx'')
                | Some (_, ctx'') \<Rightarrow> Some (empty_output, ctx''))
              else Some (empty_output, ctx')))"

section \<open>Reparsing\<close>

text \<open>\<open>make_ctx\<close> opens the input anew.\<close>

definition reparse_chunk ::
    "('c, 'r) io_ops \<Rightarrow> io_error + 'c \<Rightarrow> ('r, 's, 'u) chunk_parser \<Rightarrow> 's \<Rightarrow> nat \<Rightarrow> ('s, 'u) reparse_fn" where
  "reparse_chunk X make_ctx P init fsize start chunk_end =
     (let chunk_end = min chunk_end fsize in
      case make_ctx of
        Inl e \<Rightarrow> Some (Inl (IO e))
      | Inr ctx \<Rightarrow>
          (case io_open X start chunk_end ctx of
             None \<Rightarrow> None
           | Some (Inl e) \<Rightarrow> Some (Inl (IO e))
           | Some (Inr r) \<Rightarrow>
               (case chunk_parse (io_reader X) P init OutOfQuotes FindNo r of
                  None \<Rightarrow> None
                | Some (pr, _) \<Rightarrow>
                    (case map_err (with_base start) (result pr) of
                       Inl e \<Rightarrow> Some (Inl e)
                     | Inr s \<Rightarrow> Some (Inr (s, record_end pr))))))"

section \<open>The work loop on one thread\<close>

text \<open>\<open>work_loop\<close> of \<open>run_with\<close>: parse the chunk, fill its slot, fetch the next index. The only other
  reader of the counter is another worker, so on one thread the counter is this loop's own.\<close>

function work_loop ::
    "('c, 'r) io_ops \<Rightarrow> ('r, 's, 'u) chunk_parser \<Rightarrow> 's \<Rightarrow> ResolvedConfig \<Rightarrow> Assumption list \<Rightarrow> nat \<Rightarrow> nat \<Rightarrow> 'c
      \<Rightarrow> ('s, 'u) ChunkOutput option list \<Rightarrow> ('s, 'u) ChunkOutput option list option" where
  "work_loop X P init rs as idx nxt ctx slots =
     (case process_chunk X P init rs as idx ctx of
        None \<Rightarrow> None
      | Some (out, ctx') \<Rightarrow>
          (let slots' = slot_set idx out slots in
           if nxt \<ge> rs_chunk_count rs then Some slots'
           else work_loop X P init rs as nxt (nxt + 1) ctx' slots'))"
  by pat_completeness auto
termination
  by (relation "measure (\<lambda>(X, P, init, rs, as, idx, nxt, ctx, slots). rs_chunk_count rs - nxt)") auto

declare work_loop.simps [simp del]

text \<open>\<open>run_with\<close> with a thread count of one.\<close>

definition run_with_one ::
    "('c, 'r) io_ops \<Rightarrow> io_error + 'c \<Rightarrow> ('r, 's, 'u) chunk_parser \<Rightarrow> 's \<Rightarrow> ResolvedConfig \<Rightarrow> ('s list \<Rightarrow> 'res)
      \<Rightarrow> ('u Error + 'res) option" where
  "run_with_one X make_ctx P init rs merge =
     (case assumptions_for_config (quote (rs_config rs)) (escape (rs_config rs)) of
        None \<Rightarrow> None
      | Some as \<Rightarrow>
          (case make_ctx of
             Inl e \<Rightarrow> Some (Inl (IO e))
           | Inr ctx \<Rightarrow>
               (case work_loop X P init rs as 0 1 ctx (replicate (rs_chunk_count rs) slot_new) of
                  None \<Rightarrow> None
                | Some slots \<Rightarrow>
                    collect_and_merge (chunk_size (rs_config rs)) merge
                      (reparse_chunk X make_ctx P init (rs_file_size rs)) slots)))"

section \<open>Streams\<close>

text \<open>\<open>run_stream_inner\<close>: one chunk without an end, through a fresh ring buffer over the caller's
  reader. \<open>USIZE_MAX\<close> bytes are all a stream can hold.\<close>

definition run_stream_inner ::
    "Host \<Rightarrow> 'b buf_ops \<Rightarrow> 'src read_fn \<Rightarrow> (('b, 'src) RingBufChunkReader, 's, 'u) chunk_parser \<Rightarrow> Config
      \<Rightarrow> 'src \<Rightarrow> 's \<Rightarrow> ('s list \<Rightarrow> 'res) \<Rightarrow> ('u Error + 'res) option" where
  "run_stream_inner h B rd P c src init merge =
     (let settings = stream_ring_settings h c in
      case op_new B (buffer_size settings) (buffer_limit settings) of
        Inl e \<Rightarrow> Some (Inl (IO e))
      | Inr buf \<Rightarrow>
          (let r = ring_reader_new buf src None USIZE_MAX (buffer_size settings);
               mode = (if has_headers c then SkipHeaders else FindNo)
           in case chunk_parse (ring_reader_ops B rd) P init OutOfQuotes mode r of
                None \<Rightarrow> None
              | Some (pr, _) \<Rightarrow>
                  (case result pr of Inl e \<Rightarrow> Some (Inl e) | Inr s \<Rightarrow> Some (Inr (merge [s])))))"

section \<open>A chunk's output as a function of the input\<close>

text \<open>The same loop over passes that are already computed.\<close>

fun try_spec ::
    "('a \<Rightarrow> ('s, 'u) PassResult) \<Rightarrow> nat \<Rightarrow> 'a list \<Rightarrow> ('s, 'u) ResolvedPass list \<Rightarrow> nat option
      \<Rightarrow> bool \<Rightarrow> ('s, 'u) TryOutcome" where
  "try_spec f start [] passes rend saw_clean = try_finish passes rend saw_clean"
| "try_spec f start (a # as) passes rend saw_clean =
     (case (record_start (f a), result (f a)) of
        (Some x, Inr s) \<Rightarrow> try_finish (passes @ [\<lparr>rp_record_start = start + x, rp_result = Inr s\<rparr>])
            (map_option (\<lambda>y. start + y) (record_end (f a))) saw_clean
      | (Some x, Inl e) \<Rightarrow> try_spec f start as
            (passes @ [\<lparr>rp_record_start = start + x, rp_result = Inl (with_base start e)\<rparr>]) rend saw_clean
      | (None, Inr _) \<Rightarrow> try_spec f start as passes rend True
      | (None, Inl _) \<Rightarrow> try_spec f start as passes rend saw_clean)"

definition spec_output ::
    "Config \<Rightarrow> ('s, 'u) accumulator \<Rightarrow> 's \<Rightarrow> nat \<Rightarrow> Assumption list \<Rightarrow> byte list \<Rightarrow> nat \<Rightarrow> ('s, 'u) ChunkOutput" where
  "spec_output c acc init cs as bytes k =
     (let start = k * cs;
          rem = min (start + cs) (length bytes) - start;
          mode = (if k = 0 then (if has_headers c then SkipHeaders else FindNo) else FindStrict);
          try_mode = (\<lambda>mode. try_spec (\<lambda>a. spec_pass c acc a mode rem (drop start bytes) init) start as [] None False)
      in case try_mode mode of
           Resolved passes rend \<Rightarrow> \<lparr>co_passes = passes, co_record_end = rend\<rparr>
         | CleanNoBoundary \<Rightarrow> empty_output
         | AllFailed \<Rightarrow>
             (if mode = FindStrict then (case try_mode FindLenient of
                  Resolved passes rend \<Rightarrow> \<lparr>co_passes = passes, co_record_end = rend\<rparr>
                | _ \<Rightarrow> empty_output)
              else empty_output))"

text \<open>The same with the results of any passes, in the order of the assumptions.\<close>

lemma try_spec_map: "try_spec f d as passes rend clean = try_spec (\<lambda>x. x) d (map f as) passes rend clean"
  by (induction as arbitrary: passes rend clean) (auto split: option.split sum.split)

definition output_of ::
    "(FindRecordStart \<Rightarrow> ('s, 'u) PassResult list) \<Rightarrow> FindRecordStart \<Rightarrow> nat \<Rightarrow> ('s, 'u) ChunkOutput" where
  "output_of prs mode start =
     (case try_spec (\<lambda>x. x) start (prs mode) [] None False of
        Resolved passes rend \<Rightarrow> \<lparr>co_passes = passes, co_record_end = rend\<rparr>
      | CleanNoBoundary \<Rightarrow> empty_output
      | AllFailed \<Rightarrow>
          (if mode = FindStrict then (case try_spec (\<lambda>x. x) start (prs FindLenient) [] None False of
               Resolved passes rend \<Rightarrow> \<lparr>co_passes = passes, co_record_end = rend\<rparr>
             | _ \<Rightarrow> empty_output)
           else empty_output))"

definition chunk_passes ::
    "Config \<Rightarrow> ('s, 'u) accumulator \<Rightarrow> 's \<Rightarrow> nat \<Rightarrow> Assumption list \<Rightarrow> byte list \<Rightarrow> nat \<Rightarrow> FindRecordStart \<Rightarrow> ('s, 'u) PassResult list" where
  "chunk_passes c acc init cs as bytes k mode =
     map (\<lambda>a. spec_pass c acc a mode (min (k * cs + cs) (length bytes) - k * cs) (drop (k * cs) bytes) init) as"

definition first_mode :: "Config \<Rightarrow> nat \<Rightarrow> FindRecordStart" where
  "first_mode c k = (if k = 0 then (if has_headers c then SkipHeaders else FindNo) else FindStrict)"

lemma spec_output_of:
  "spec_output c acc init cs as bytes k = output_of (chunk_passes c acc init cs as bytes k) (first_mode c k) (k * cs)"
  unfolding spec_output_def output_of_def chunk_passes_def first_mode_def Let_def
  by (simp only: try_spec_map[of "\<lambda>a. spec_pass c acc a _ _ _ _"])

text \<open>A pass that is the reference pass, or fails with an error of its own after the same boundary.\<close>

definition near_pass ::
    "(nat \<Rightarrow> 'u Error \<Rightarrow> bool) \<Rightarrow> nat \<Rightarrow> ('s, 'u) PassResult \<Rightarrow> ('s, 'u) PassResult \<Rightarrow> bool" where
  "near_pass D d pr ref \<longleftrightarrow> pr = ref \<or>
     (\<exists>x e. record_start ref = Some x \<and> record_start pr = Some x \<and> result pr = Inl e \<and> D (d + x) (with_base d e))"

lemma near_no_errors: "list_all2 (near_pass no_errors d) prs (rs :: ('s, 'u) PassResult list) \<longleftrightarrow> prs = rs"
proof -
  have "near_pass no_errors d = ((=) :: ('s, 'u) PassResult \<Rightarrow> _)" by (auto simp: near_pass_def fun_eq_iff)
  then show ?thesis by (simp add: list.rel_eq)
qed

definition near_output ::
    "(nat \<Rightarrow> 'u Error \<Rightarrow> bool) \<Rightarrow> Config \<Rightarrow> ('s, 'u) accumulator \<Rightarrow> 's \<Rightarrow> nat \<Rightarrow> Assumption list \<Rightarrow> byte list \<Rightarrow> nat
      \<Rightarrow> ('s, 'u) ChunkOutput \<Rightarrow> bool" where
  "near_output D c acc init cs as bytes k out \<longleftrightarrow>
     (\<exists>prs. (\<forall>mode. list_all2 (near_pass D (k * cs)) (prs mode) (chunk_passes c acc init cs as bytes k mode)) \<and>
        out = output_of prs (first_mode c k) (k * cs))"

lemma near_output_no_errors:
  fixes acc :: "('s, 'u) accumulator"
  shows "near_output no_errors c acc init cs as bytes k out \<longleftrightarrow> out = spec_output c acc init cs as bytes k"
proof -
  have "(\<forall>mode. prs mode = rs mode) \<longleftrightarrow> prs = rs" for prs rs :: "FindRecordStart \<Rightarrow> ('s, 'u) PassResult list"
    by (simp add: fun_eq_iff)
  then show ?thesis unfolding near_output_def near_no_errors spec_output_of by simp
qed

text \<open>Whether there is a pass, and where the first starts, is the same.\<close>

lemma near_start: "near_pass D d pr ref \<Longrightarrow> record_start pr = record_start ref"
  by (auto simp: near_pass_def)

lemma near_none: "near_pass D d pr ref \<Longrightarrow> record_start ref = None \<Longrightarrow> pr = ref"
  by (auto simp: near_pass_def)


text \<open>A pass from offset \<open>start\<close> of the chunk at \<open>d\<close> is the segment from \<open>d + start\<close>.\<close>

lemma body_segment:
  assumes "plain_acc acc" and "start \<le> rem" and "min L (length bytes) = d + rem"
  shows "segment c acc bytes init (d + start) L = shift_result d (spec_body c acc rem (drop d bytes) start init)"
  using spec_parse_shift[OF assms(1), of c rem d start "drop (d + start) bytes" init]
    spec_body_parse[OF assms(2), of c acc "drop d bytes" init] assms(3)
  by (simp add: segment_def add.commute)

lemma started_shift:
  "map_err (with_base d) (result (started x res)) = outcome_of (shift_result d res)"
  by (cases res) (auto simp: started_def outcome_of_def shift_result_def)

lemma spec_scan_le:
  assumes "spec_scan c a mode rem bs = (Inr (Some start) :: 'u Error + nat option)"
  shows "start \<le> rem"
proof -
  have "search_run c' strict 0 (take rem bs) q = FoundEnd start \<Longrightarrow> start \<le> rem" for c' strict q
    using search_run_bounds(1)[of c' strict 0 "take rem bs" q start] by simp
  with assms show ?thesis by (cases mode) (auto simp: spec_scan_def search_result_Some)
qed

text \<open>A resolved pass that came out of a pass over the chunk.\<close>

lemma spec_pass_segment:
  fixes acc :: "('s, 'u) accumulator"
  assumes "plain_acc acc" and "min L (length bytes) = d + rem"
    and p_def: "p = spec_pass c acc a mode rem (drop d bytes) init" and start: "record_start p = Some x"
  shows "map_err (with_base d) (result p) = outcome_of (segment c acc bytes init (d + x) L)"
    and "segment c acc bytes init (d + x) L = Inr (r, s) \<Longrightarrow> map_option (\<lambda>y. d + y) (record_end p) = r"
    and "x \<le> rem"
proof -
  from start have scan: "spec_scan c a mode rem (drop d bytes) = (Inr (Some x) :: 'u Error + nat option)"
    and p: "p = started x (spec_body c acc rem (drop d bytes) x init)"
    by (auto simp: p_def spec_pass_def failed_def no_record_def started_def split: sum.splits option.splits)
  show "x \<le> rem" using spec_scan_le[OF scan] .
  note seg = body_segment[OF assms(1) this assms(2), of c init]
  show "map_err (with_base d) (result p) = outcome_of (segment c acc bytes init (d + x) L)"
    unfolding p started_shift seg ..
  show "segment c acc bytes init (d + x) L = Inr (r, s) \<Longrightarrow> map_option (\<lambda>y. d + y) (record_end p) = r"
    unfolding p seg
    by (cases "spec_body c acc rem (drop d bytes) x init")
      (auto simp: started_def shift_result_def add.commute[of _ d])
qed

definition pass_ok_at ::
    "Config \<Rightarrow> ('s, 'u) accumulator \<Rightarrow> byte list \<Rightarrow> 's \<Rightarrow> (nat \<Rightarrow> 'u Error \<Rightarrow> bool) \<Rightarrow> nat \<Rightarrow> ('s, 'u) ResolvedPass \<Rightarrow> bool" where
  "pass_ok_at c acc bytes init D L p \<longleftrightarrow> rp_record_start p \<le> length bytes \<and>
     ((\<exists>e. rp_result p = Inl e \<and> D (rp_record_start p) e) \<or>
      rp_result p = outcome_of (segment c acc bytes init (rp_record_start p) L))"

lemma try_spec_faithful:
  assumes "plain_acc acc" and "min L (length bytes) = d + rem"
    and "\<forall>p\<in>set passes. pass_ok_at c acc bytes init D L p \<and> \<not> is_ok (rp_result p)"
    and "list_all2 (near_pass D d) prs (map (\<lambda>a. spec_pass c acc a mode rem (drop d bytes) init) as)"
    and "try_spec (\<lambda>x. x) d prs passes rend clean = Resolved ps r"
  shows "faithful c acc bytes init D L \<lparr>co_passes = ps, co_record_end = r\<rparr> \<and> ps \<noteq> []"
  using assms(3-5)
proof (induction as arbitrary: prs passes clean)
  case Nil
  then have "ps = passes" "ps \<noteq> []" by (auto simp: try_finish_def split: if_splits)
  with Nil show ?case by (force simp: faithful_def pass_ok_at_def outcome_of_def)
next
  case (Cons a as)
  let ?p = "spec_pass c acc a mode rem (drop d bytes) init"
  from Cons.prems(2) obtain pr prs' where prs: "prs = pr # prs'" "near_pass D d pr ?p"
    and rest: "list_all2 (near_pass D d) prs' (map (\<lambda>a. spec_pass c acc a mode rem (drop d bytes) init) as)"
    by (auto simp: list_all2_Cons2)
  show ?case
  proof (cases "record_start ?p")
    case None
    with prs near_none have "pr = ?p" by blast
    with Cons.prems Cons.IH[OF Cons.prems(1) rest] None prs(1) show ?thesis by (cases "result ?p") simp_all
  next
    case (Some x)
    note seg = spec_pass_segment[OF assms(1,2) refl Some]
    have at: "d + x \<le> length bytes" using seg(3) assms(2) by linarith
    have start: "record_start pr = Some x" using near_start[OF prs(2)] Some by simp
    show ?thesis
    proof (cases "result pr")
      case (Inl e)
      have "pass_ok_at c acc bytes init D L \<lparr>rp_record_start = d + x, rp_result = Inl (with_base d e)\<rparr>"
      proof (cases "pr = ?p")
        case True
        then have "outcome_of (segment c acc bytes init (d + x) L) = Inl (with_base d e)"
          using seg(1) Inl by simp
        then show ?thesis using at by (simp add: pass_ok_at_def)
      next
        case False
        with prs(2) Inl Some at show ?thesis by (auto simp: near_pass_def pass_ok_at_def)
      qed
      with Cons.prems start Inl rest prs(1) show ?thesis by (intro Cons.IH[of _ prs']) auto
    next
      case (Inr s)
      with prs(2) have "pr = ?p" by (auto simp: near_pass_def)
      then have "outcome_of (segment c acc bytes init (d + x) L) = Inr s" using seg(1) Inr by simp
      then obtain y where y: "segment c acc bytes init (d + x) L = Inr (y, s)" by (auto simp: outcome_of_def split: sum.splits)
      have "\<exists>e. rp_result p = Inl e \<and> D (rp_record_start p) e"
        if "p \<in> set passes" "segment c acc bytes init (rp_record_start p) L = Inr (r', s')" for p r' s'
        using Cons.prems(1) that by (force simp: pass_ok_at_def outcome_of_def)
      then have old: "faithful c acc bytes init D L \<lparr>co_passes = passes, co_record_end = y\<rparr>"
        using Cons.prems(1) by (auto simp: faithful_def pass_ok_at_def)
      have "ps = passes @ [\<lparr>rp_record_start = d + x, rp_result = Inr s\<rparr>]" "r = y"
        using Cons.prems(3) start Inr prs(1) \<open>pr = ?p\<close> seg(2)[OF y] by (simp_all add: try_finish_def)
      with old at y show ?thesis by (simp add: faithful_def outcome_of_def)
    qed
  qed
qed

lemma near_output_faithful:
  assumes "plain_acc acc" and "k * cs \<le> length bytes" and near: "near_output D c acc init cs as bytes k out"
  shows "faithful c acc bytes init D (Suc k * cs) out"
proof -
  define rem where "rem = min (k * cs + cs) (length bytes) - k * cs"
  have L: "min (Suc k * cs) (length bytes) = k * cs + rem"
    using assms(2) by (auto simp: rem_def add.commute)
  have empty: "faithful c acc bytes init D (Suc k * cs) empty_output"
    by (simp add: faithful_def empty_output_def)
  obtain prs where prs: "\<And>mode. list_all2 (near_pass D (k * cs)) (prs mode) (chunk_passes c acc init cs as bytes k mode)"
    "out = output_of prs (first_mode c k) (k * cs)" using near by (auto simp: near_output_def)
  have f: "try_spec (\<lambda>x. x) (k * cs) (prs mode) [] None False = Resolved ps r
      \<Longrightarrow> faithful c acc bytes init D (Suc k * cs) \<lparr>co_passes = ps, co_record_end = r\<rparr>" for mode ps r
    using try_spec_faithful[OF assms(1) L, of "[]" c init D "prs mode" mode as None False ps r]
      prs(1)[of mode, unfolded chunk_passes_def, folded rem_def] by simp
  show ?thesis unfolding prs(2) output_of_def using f empty by (auto split: TryOutcome.split)
qed

text \<open>Whether there is a pass, and where the first one starts, does not depend on the errors.\<close>

lemma try_spec_keeps:
  "passes \<noteq> [] \<Longrightarrow> \<exists>ps r. try_spec f d as passes rend clean = Resolved ps r \<and> ps \<noteq> [] \<and> hd ps = hd passes"
proof (induction as arbitrary: passes rend clean)
  case Nil
  then show ?case by (simp add: try_finish_def)
next
  case (Cons a as)
  from Cons.prems Cons.IH[of "passes @ [x]" for x] Cons.IH[OF Cons.prems] show ?case
    by (cases "record_start (f a)"; cases "result (f a)") (auto simp: try_finish_def)
qed

lemma try_spec_found:
  assumes "record_start (f a) = Some x"
  shows "\<exists>ps r. try_spec f d (a # as) [] rend clean = Resolved ps r \<and> ps \<noteq> [] \<and> rp_record_start (hd ps) = d + x"
  using assms try_spec_keeps[of "[\<lparr>rp_record_start = d + x, rp_result = Inl e\<rparr>]" f d as rend clean for e]
  by (cases "result (f a)") (fastforce simp: try_finish_def)+

lemma try_spec_near:
  assumes "list_all2 (near_pass D d) prs rs"
  shows "(\<exists>ps r ps' r'. try_spec (\<lambda>x. x) d prs [] None clean = Resolved ps r \<and> try_spec (\<lambda>x. x) d rs [] None clean = Resolved ps' r' \<and>
      ps \<noteq> [] \<and> ps' \<noteq> [] \<and> rp_record_start (hd ps) = rp_record_start (hd ps')) \<or>
    try_spec (\<lambda>x. x) d prs [] None clean = try_spec (\<lambda>x. x) d rs [] None clean \<and> (\<forall>ps r. try_spec (\<lambda>x. x) d rs [] None clean \<noteq> Resolved ps r)"
  using assms
proof (induction arbitrary: clean rule: list_all2_induct)
  case Nil
  show ?case by (simp add: try_finish_def)
next
  case (Cons pr prs ref rs)
  show ?case
  proof (cases "record_start ref")
    case None
    with near_none[OF Cons(1)] Cons(3) show ?thesis by (cases "result ref") simp_all
  next
    case (Some x)
    then have "record_start pr = Some x" using near_start[OF Cons(1)] by simp
    with Some show ?thesis
      using try_spec_found[of "\<lambda>x. x" pr x d prs None clean] try_spec_found[of "\<lambda>x. x" ref x d rs None clean] by fastforce
  qed
qed

lemma near_output_passes:
  assumes "near_output D c acc init cs as bytes k out"
  shows "co_passes out = [] \<longleftrightarrow> co_passes (spec_output c acc init cs as bytes k) = []"
    and "co_passes out \<noteq> [] \<Longrightarrow>
      rp_record_start (hd (co_passes out)) = rp_record_start (hd (co_passes (spec_output c acc init cs as bytes k)))"
proof -
  let ?rs = "chunk_passes c acc init cs as bytes k"
  obtain prs where prs: "\<And>mode. list_all2 (near_pass D (k * cs)) (prs mode) (?rs mode)"
    "out = output_of prs (first_mode c k) (k * cs)" using assms by (auto simp: near_output_def)
  let ?m = "first_mode c k" and ?same = "\<lambda>out ref. (co_passes out = [] \<longleftrightarrow> co_passes ref = []) \<and>
    (co_passes out \<noteq> [] \<longrightarrow> rp_record_start (hd (co_passes out)) = rp_record_start (hd (co_passes ref)))"
  note near = try_spec_near[OF prs(1), of _ False]
  from near[of ?m] have "?same out (output_of ?rs ?m (k * cs))"
  proof (elim disjE conjE exE)
    fix ps r ps' r'
    assume "try_spec (\<lambda>x. x) (k * cs) (prs ?m) [] None False = Resolved ps r" "try_spec (\<lambda>x. x) (k * cs) (?rs ?m) [] None False = Resolved ps' r'"
      "ps \<noteq> []" "ps' \<noteq> []" "rp_record_start (hd ps) = rp_record_start (hd ps')"
    then show ?thesis by (simp add: prs(2) output_of_def)
  next
    assume same: "try_spec (\<lambda>x. x) (k * cs) (prs ?m) [] None False = try_spec (\<lambda>x. x) (k * cs) (?rs ?m) [] None False"
      "\<forall>ps r. try_spec (\<lambda>x. x) (k * cs) (?rs ?m) [] None False \<noteq> Resolved ps r"
    show ?thesis
    proof (cases "try_spec (\<lambda>x. x) (k * cs) (?rs ?m) [] None False")
      case AllFailed
      from near[of FindLenient] show ?thesis
      proof (elim disjE conjE exE)
        fix ps r ps' r'
        assume "try_spec (\<lambda>x. x) (k * cs) (prs FindLenient) [] None False = Resolved ps r"
          "try_spec (\<lambda>x. x) (k * cs) (?rs FindLenient) [] None False = Resolved ps' r'"
          "ps \<noteq> []" "ps' \<noteq> []" "rp_record_start (hd ps) = rp_record_start (hd ps')"
        then show ?thesis using AllFailed same(1) by (simp add: prs(2) output_of_def empty_output_def)
      next
        assume "try_spec (\<lambda>x. x) (k * cs) (prs FindLenient) [] None False = try_spec (\<lambda>x. x) (k * cs) (?rs FindLenient) [] None False"
        then show ?thesis using AllFailed same(1) by (simp add: prs(2) output_of_def)
      qed
    qed (use same in \<open>simp_all add: prs(2) output_of_def empty_output_def\<close>)
  qed
  then show "co_passes out = [] \<longleftrightarrow> co_passes (spec_output c acc init cs as bytes k) = []"
    "co_passes out \<noteq> [] \<Longrightarrow>
      rp_record_start (hd (co_passes out)) = rp_record_start (hd (co_passes (spec_output c acc init cs as bytes k)))"
    unfolding spec_output_of by blast+
qed

text \<open>An environment in which nothing fails: the input opens, the reads succeed, every field is valid.\<close>

locale quiet_env = io_context X rinv unread cinv input + validator V vlen
  for X :: "('c, 'r) io_ops" and rinv and unread and cinv and input and V and vlen +
  assumes opens: "cinv ctx \<Longrightarrow> s \<le> e \<Longrightarrow> e \<le> length input \<Longrightarrow> \<exists>r. io_open X s e ctx = Some (Inr r)"
    and reads: "rinv r \<Longrightarrow> fst (r_fill (io_reader X) n r) = Inr ()"
    and valid: "vlen bs = length bs"
begin

lemma pass_env: "pass_env (io_reader X) rinv unread V vlen"
  by (intro pass_env.intro chunk_reader_axioms validator_axioms)

text \<open>One pass over any opened chunk.\<close>

lemma pass_exact:
  assumes "cinv ctx" and "s \<le> e" and "e \<le> length input" and "P = dfa_chunk_parser_new le c"
  shows "\<exists>r r'. io_open X s e ctx = Some (Inr r) \<and>
    chunk_parse (io_reader X) (dfa_parser (io_reader X) V P acc) init a mode r =
      Some (spec_pass c acc a mode (e - s) (drop s input) init, r') \<and> cinv (io_release X ctx r')"
proof -
  from opens[OF assms(1-3)] obtain r where r: "io_open X s e ctx = Some (Inr r)" by blast
  from open_ok[OF assms(1-3) r] have inv: "rinv r" and st: "stream r = drop s input"
    and rem: "r_remaining (io_reader X) r = e - s"
    by (simp_all add: stream_def)
  have no: "\<not> fill_failed err" "\<not> pass_env.utf8_failed vlen c a mode rem bs err" for err :: "'b Error" and rem bs
    using reads by (auto simp: fill_failed_def pass_env.utf8_failed_def[OF pass_env] valid)
  from pass_env.pass_ok[OF pass_env inv assms(4), of acc init a mode] st rem no obtain r' where
    "chunk_parse (io_reader X) (dfa_parser (io_reader X) V P acc) init a mode r =
      Some (spec_pass c acc a mode (e - s) (drop s input) init, r')" "rinv r'"
    by auto
  with r release_ok[OF assms(1)] show ?thesis by blast
qed

end

text \<open>What the scheduler needs of a chunk parser \<open>Q\<close>: over every chunk and under every assumption in \<open>A\<close>, its pass is the
  reference pass, or fails with an error of its own after the same boundary.\<close>

locale speculative = io_context X rinv unread cinv input
  for X :: "('c, 'r) io_ops" and rinv and unread and cinv and input +
  fixes Q :: "('r, 's, 'u) chunk_parser" and c :: Config and acc :: "('s, 'u) accumulator" and init :: 's
    and D :: "nat \<Rightarrow> 'u Error \<Rightarrow> bool" and A :: "Assumption set"
  assumes pass_near: "cinv ctx \<Longrightarrow> s \<le> e \<Longrightarrow> e \<le> length input \<Longrightarrow> a \<in> A \<Longrightarrow>
    \<exists>r pr r'. io_open X s e ctx = Some (Inr r) \<and> chunk_parse (io_reader X) Q init a mode r = Some (pr, r') \<and>
      cinv (io_release X ctx r') \<and> near_pass D s pr (spec_pass c acc a mode (e - s) (drop s input) init)"
begin

lemma try_loop_near:
  assumes "s \<le> e" and "e \<le> length input" and "set as \<subseteq> A" and "cinv ctx"
  shows "\<exists>prs ctx'. list_all2 (near_pass D s) prs (map (\<lambda>a. spec_pass c acc a mode (e - s) (drop s input) init) as) \<and>
    try_loop X Q init s e mode as passes rend clean ctx = Some (try_spec (\<lambda>x. x) s prs passes rend clean, ctx') \<and> cinv ctx'"
  using assms(3,4)
proof (induction as arbitrary: passes rend clean ctx)
  case Nil
  then show ?case by simp
next
  case (Cons a as)
  let ?specs = "map (\<lambda>a. spec_pass c acc a mode (e - s) (drop s input) init) as"
  from Cons.prems(1) have a: "a \<in> A" "set as \<subseteq> A" by auto
  from pass_near[OF Cons.prems(2) assms(1,2) a(1), of mode] obtain r pr r' where
    p: "io_open X s e ctx = Some (Inr r)" "chunk_parse (io_reader X) Q init a mode r = Some (pr, r')"
    "cinv (io_release X ctx r')" and near: "near_pass D s pr (spec_pass c acc a mode (e - s) (drop s input) init)"
    by blast
  have refl: "list_all2 (near_pass D s) ?specs ?specs" by (simp add: list_all2_same near_pass_def)
  show ?case
  proof (cases "\<exists>x y. record_start pr = Some x \<and> result pr = Inr y")
    case True
    then have "try_loop X Q init s e mode (a # as) passes rend clean ctx =
        Some (try_spec (\<lambda>x. x) s (pr # ?specs) passes rend clean, io_release X ctx r')" using p by (auto simp: Let_def)
    with near refl p(3) show ?thesis by (intro exI[of _ "pr # ?specs"]) simp
  next
    case False
    define next' where "next' = (case record_start pr of Some x \<Rightarrow>
        (passes @ [\<lparr>rp_record_start = s + x, rp_result = map_err (with_base s) (result pr)\<rparr>], clean)
      | None \<Rightarrow> (passes, clean \<or> is_ok (result pr)))"
    from Cons.IH[OF a(2) p(3), of "fst next'" rend "snd next'"] obtain prs ctx' where
      ih: "list_all2 (near_pass D s) prs ?specs" "cinv ctx'"
      "try_loop X Q init s e mode as (fst next') rend (snd next') (io_release X ctx r') = Some (try_spec (\<lambda>x. x) s prs (fst next') rend (snd next'), ctx')"
      by blast
    have "try_loop X Q init s e mode (a # as) passes rend clean ctx = Some (try_spec (\<lambda>x. x) s (pr # prs) passes rend clean, ctx')"
      using p(1,2) False ih(3) by (cases "record_start pr"; cases "result pr") (auto simp: next'_def Let_def)
    with near ih(1,2) show ?thesis by (intro exI[of _ "pr # prs"]) simp
  qed
qed

lemma process_chunk_near:
  assumes "cinv ctx" and c: "rs_config rs = c" and "rs_file_size rs = length input" and "idx * chunk_size c \<le> length input"
    and "set as \<subseteq> A"
  shows "\<exists>out ctx'. process_chunk X Q init rs as idx ctx = Some (out, ctx') \<and>
    near_output D c acc init (chunk_size c) as input idx out \<and> cinv ctx'"
proof -
  let ?cs = "chunk_size c" and ?m = "first_mode c idx"
  let ?s = "idx * ?cs"
  let ?e = "min (?s + ?cs) (length input)"
  let ?specs = "chunk_passes c acc init ?cs as input idx"
  have se: "?s \<le> ?e" "?e \<le> length input" using assms(4) by auto
  have t: "\<exists>prs ctx'. list_all2 (near_pass D ?s) prs (?specs mode) \<and>
      try_assumptions X Q init ?s ?e as mode ctx = Some (try_spec (\<lambda>x. x) ?s prs [] None False, ctx') \<and> cinv ctx'"
    if "cinv ctx" for ctx mode
    using try_loop_near[OF se assms(5) that] by (simp add: try_assumptions_def chunk_passes_def)
  from t[OF assms(1), of ?m] obtain prs1 ctx1 where c1: "list_all2 (near_pass D ?s) prs1 (?specs ?m)"
    "try_assumptions X Q init ?s ?e as ?m ctx = Some (try_spec (\<lambda>x. x) ?s prs1 [] None False, ctx1)" "cinv ctx1"
    by blast
  from t[OF c1(3), of FindLenient] obtain prs2 ctx2 where c2: "list_all2 (near_pass D ?s) prs2 (?specs FindLenient)"
    "try_assumptions X Q init ?s ?e as FindLenient ctx1 = Some (try_spec (\<lambda>x. x) ?s prs2 [] None False, ctx2)" "cinv ctx2"
    by blast
  define prs where "prs mode = (if mode = ?m then prs1 else if mode = FindLenient then prs2 else ?specs mode)" for mode
  have "?m \<noteq> FindLenient" by (simp add: first_mode_def)
  then have prs: "prs ?m = prs1" "prs FindLenient = prs2" by (simp_all add: prs_def)
  have near: "list_all2 (near_pass D ?s) (prs mode) (?specs mode)" for mode
    using c1(1) c2(1) by (simp add: prs_def list_all2_same near_pass_def)
  have mode: "find_mode rs idx = ?m" by (simp add: find_mode_def first_mode_def c)
  have "\<exists>ctx'. process_chunk X Q init rs as idx ctx = Some (output_of prs ?m ?s, ctx') \<and> cinv ctx'"
    using c1(2,3) c2(2,3)
    unfolding process_chunk_def output_of_def Let_def assms(3) mode prs c
    by (cases "try_spec (\<lambda>x. x) ?s prs1 [] None False"; cases "try_spec (\<lambda>x. x) ?s prs2 [] None False"; cases "?m = FindStrict") simp_all
  with near show ?thesis unfolding near_output_def by blast
qed

lemma reparse_near:
  assumes "make_ctx = Inr ctx" and "cinv ctx" and "plain_acc acc" and "OutOfQuotes \<in> A"
  shows "faithful_reparse c acc input init D (reparse_chunk X make_ctx Q init (length input))"
  unfolding faithful_reparse_def
proof (intro allI impI)
  fix B L assume BL: "B \<le> L" "B \<le> length input"
  let ?e = "min L (length input)"
  let ?p = "spec_pass c acc OutOfQuotes FindNo (?e - B) (drop B input) init"
  let ?re = "reparse_chunk X make_ctx Q init (length input) B L"
  have rem: "min L (length input) = B + (?e - B)" using BL by simp
  have start: "record_start ?p = Some 0"
    by (auto simp: spec_pass_def spec_scan_def started_def split: sum.splits)
  note seg = spec_pass_segment[OF assms(3) rem refl start]
  have e: "B \<le> ?e" "?e \<le> length input" using BL by auto
  from pass_near[OF assms(2) e assms(4), of FindNo] obtain r pr r' where
    r: "io_open X B ?e ctx = Some (Inr r)" "chunk_parse (io_reader X) Q init OutOfQuotes FindNo r = Some (pr, r')"
    and near: "near_pass D B pr ?p"
    by blast
  from near start consider (early) x where "result pr = Inl x" "D B (with_base B x)" | (same) "pr = ?p"
    by (auto simp: near_pass_def)
  then show "(\<exists>e. ?re = Some (Inl e) \<and> D B e) \<or> ?re =
    Some (case segment c acc input init B L of Inl e \<Rightarrow> Inl e | Inr (r, s) \<Rightarrow> Inr (s, map_option (\<lambda>e. e - B) r))"
  proof cases
    case early
    with r assms(1) show ?thesis by (simp add: reparse_chunk_def)
  next
    case same
    show ?thesis
    proof (cases "segment c acc input init B L")
      case (Inl err)
      with seg(1) r assms(1) same show ?thesis by (simp add: reparse_chunk_def outcome_of_def)
    next
      case (Inr rs)
      then obtain x s where xs: "segment c acc input init B L = Inr (x, s)" by (cases rs) auto
      with seg(2)[of x s] have "map_option (\<lambda>e. e - B) x = record_end ?p" by (auto simp: option.map_comp o_def option.map_ident)
      with seg(1) r assms(1) xs same show ?thesis by (simp add: reparse_chunk_def outcome_of_def)
    qed
  qed
qed

end

context quiet_env
begin

text \<open>The DFA parser has no errors of its own.\<close>

lemma dfa_speculative:
  "speculative X rinv unread cinv input (dfa_parser (io_reader X) V (dfa_chunk_parser_new le c) acc) c acc init no_errors UNIV"
proof (intro speculative.intro io_context_axioms speculative_axioms.intro)
  fix ctx s e a mode
  assume "cinv ctx" "s \<le> e" "e \<le> length input"
  from pass_exact[OF this refl, of le c acc init a mode]
  show "\<exists>r pr r'. io_open X s e ctx = Some (Inr r) \<and>
      chunk_parse (io_reader X) (dfa_parser (io_reader X) V (dfa_chunk_parser_new le c) acc) init a mode r = Some (pr, r') \<and>
      cinv (io_release X ctx r') \<and> near_pass no_errors s pr (spec_pass c acc a mode (e - s) (drop s input) init)"
    by (auto simp: near_pass_def)
qed

lemma process_chunk_exact:
  assumes "cinv ctx" and P: "P = dfa_chunk_parser_new le (rs_config rs)" and "rs_file_size rs = length input"
    and "idx * chunk_size (rs_config rs) \<le> length input"
  shows "\<exists>ctx'. process_chunk X (dfa_parser (io_reader X) V P acc) init rs as idx ctx =
    Some (spec_output (rs_config rs) acc init (chunk_size (rs_config rs)) as input idx, ctx') \<and> cinv ctx'"
  using speculative.process_chunk_near[OF dfa_speculative[of le "rs_config rs" acc init] assms(1) refl assms(3,4) subset_UNIV, of as]
  unfolding P near_output_no_errors by simp

lemma reparse_exact:
  assumes "make_ctx = Inr ctx" and "cinv ctx" and P: "P = dfa_chunk_parser_new le c" and "plain_acc acc"
  shows "faithful_reparse c acc input init no_errors
    (reparse_chunk X make_ctx (dfa_parser (io_reader X) V P acc) init (length input))"
  unfolding P by (rule speculative.reparse_near[OF dfa_speculative assms(1,2,4) UNIV_I])

lemma work_loop_exact:
  assumes P: "P = dfa_chunk_parser_new le (rs_config rs)" and size: "rs_file_size rs = length input"
    and last: "(rs_chunk_count rs - 1) * chunk_size (rs_config rs) \<le> length input"
    and out_def: "out = spec_output (rs_config rs) acc init (chunk_size (rs_config rs)) as input"
    and "cinv ctx" and "idx < rs_chunk_count rs"
  shows "work_loop X (dfa_parser (io_reader X) V P acc) init rs as idx (Suc idx) ctx
      (map (Some \<circ> out) [0..<idx] @ replicate (rs_chunk_count rs - idx) slot_new) =
    Some (map (Some \<circ> out) [0..<rs_chunk_count rs])"
  using assms(5,6)
proof (induction "rs_chunk_count rs - idx" arbitrary: idx ctx)
  case 0
  then show ?case by simp
next
  case (Suc n)
  have "idx * chunk_size (rs_config rs) \<le> (rs_chunk_count rs - 1) * chunk_size (rs_config rs)"
    using Suc.prems(2) by (intro mult_le_mono1) simp
  with last have "idx * chunk_size (rs_config rs) \<le> length input" by (rule order.trans[rotated])
  from process_chunk_exact[OF Suc.prems(1) P size this, of acc init as] obtain ctx' where
    p: "process_chunk X (dfa_parser (io_reader X) V P acc) init rs as idx ctx = Some (out idx, ctx')" "cinv ctx'"
    unfolding out_def by blast
  have slots: "slot_set idx (out idx) (map (Some \<circ> out) [0..<idx] @ replicate (rs_chunk_count rs - idx) slot_new) =
      map (Some \<circ> out) [0..<Suc idx] @ replicate (rs_chunk_count rs - Suc idx) slot_new"
    using Suc.prems(2) by (simp add: slot_set_def list_update_append Suc_diff_Suc[symmetric])
  show ?case
  proof (cases "Suc idx \<ge> rs_chunk_count rs")
    case True
    with Suc.prems(2) have "rs_chunk_count rs = Suc idx" by simp
    with p slots show ?thesis by (subst work_loop.simps) (simp add: Let_def)
  next
    case False
    with Suc.hyps(1)[of "Suc idx" ctx'] Suc.hyps(2) p slots show ?thesis
      by (subst work_loop.simps) (simp add: Let_def)
  qed
qed

end

section \<open>Chunked parsing is sequential parsing\<close>

text \<open>The first boundary: 0, or where the header row ends.\<close>

definition first_boundary :: "Config \<Rightarrow> byte list \<Rightarrow> nat option" where
  "first_boundary c bs =
     (if has_headers c
      then (case search_run c False 0 bs RecordStart of FoundEnd h \<Rightarrow> Some h | _ \<Rightarrow> None)
      else Some 0)"

text \<open>One pass over the whole input, as \<open>run_stream_inner\<close> does it.\<close>

definition sequential :: "Config \<Rightarrow> ('s, 'u) accumulator \<Rightarrow> byte list \<Rightarrow> 's \<Rightarrow> 'u Error + 's" where
  "sequential c acc bytes init =
     result (spec_pass c acc OutOfQuotes (if has_headers c then SkipHeaders else FindNo) (length bytes) bytes init)"

lemma first_chunk:
  fixes acc :: "('s, 'u) accumulator"
  assumes "first_boundary c (take cs bytes) = Some B" and "as \<noteq> []"
  shows "co_passes (spec_output c acc init cs as bytes 0) \<noteq> [] \<and>
    rp_record_start (hd (co_passes (spec_output c acc init cs as bytes 0))) = B \<and> B \<le> cs"
proof -
  define mode where "mode = (if has_headers c then SkipHeaders else FindNo)"
  let ?rem = "min cs (length bytes)"
  have scan: "spec_scan c a mode ?rem bytes = (Inr (Some B) :: 'u Error + nat option)" for a
  proof -
    have "take ?rem bytes = take cs bytes" by (simp add: min_def)
    with assms(1) show ?thesis
      unfolding spec_scan_def mode_def first_boundary_def
      by (auto simp del: take_all_iff simp: search_result_def split: if_splits search.splits)
  qed
  from assms(2) obtain a as' where as: "as = a # as'" by (cases as) auto
  have start: "record_start (spec_pass c acc a mode ?rem bytes init) = Some B"
    by (auto simp: spec_pass_def scan started_def split: sum.splits)
  have "\<exists>ps r. try_spec (\<lambda>a. spec_pass c acc a mode ?rem bytes init) 0 as [] None False = Resolved ps r \<and>
      ps \<noteq> [] \<and> rp_record_start (hd ps) = B"
    unfolding as
    using start try_spec_keeps[of "[\<lparr>rp_record_start = B, rp_result = Inl e\<rparr>]"
        "\<lambda>a. spec_pass c acc a mode ?rem bytes init" 0 as' None False for e]
    by (cases "result (spec_pass c acc a mode ?rem bytes init)") (fastforce simp: try_finish_def)+
  moreover have "B \<le> cs" using spec_scan_le[OF scan] by simp
  ultimately show ?thesis
    by (auto simp: spec_output_def Let_def mode_def[symmetric])
qed

lemma sequential_segment:
  fixes acc :: "('s, 'u) accumulator"
  assumes "plain_acc acc" and "first_boundary c (take cs bytes) = Some B"
  shows "sequential c acc bytes init = outcome_of (segment c acc bytes init B (length bytes))"
proof -
  define mode where "mode = (if has_headers c then SkipHeaders else FindNo)"
  have found: "search_run c False 0 bytes RecordStart = FoundEnd B"
    if "search_run c False 0 (take cs bytes) RecordStart = FoundEnd B"
  proof -
    from that have "search_run c False 0 (take cs bytes @ drop cs bytes) RecordStart = FoundEnd B"
      unfolding search_run_append by simp
    then show ?thesis by simp
  qed
  have scan: "spec_scan c OutOfQuotes mode (length bytes) bytes = (Inr (Some B) :: 'u Error + nat option)"
  proof (cases "has_headers c")
    case True
    with assms(2) have "search_run c False 0 (take cs bytes) RecordStart = FoundEnd B"
      by (auto simp: first_boundary_def split: search.splits)
    from found[OF this] True show ?thesis by (simp add: mode_def spec_scan_def search_result_def)
  next
    case False
    with assms(2) show ?thesis by (simp add: mode_def spec_scan_def first_boundary_def)
  qed
  let ?p = "spec_pass c acc OutOfQuotes mode (length bytes) (drop 0 bytes) init"
  have "record_start ?p = Some B"
    by (auto simp: spec_pass_def scan started_def split: sum.splits)
  from spec_pass_segment(1)[OF assms(1) _ refl this, of "length bytes"] show ?thesis
    by (cases "result ?p") (simp_all add: sequential_def mode_def)
qed

text \<open>The outputs of all chunks, merged.\<close>

lemma doomed_no_errors [simp]: "doomed c acc bytes init no_errors"
  by (simp add: doomed_def)

lemma outputs_merged:
  assumes comment: "comment c = None" and cs: "0 < chunk_size c" and n: "input \<noteq> []"
    and count: "length outs = div_ceil (length input) (chunk_size c)" and "as \<noteq> []"
    and B: "first_boundary c (take (chunk_size c) input) = Some B"
    and G: "boundaries_closed c (collect :: (_, 'u) accumulator) input [] G" "length input \<in> G" "B \<in> G"
    and cov: "covered G (length input) B (chunk_size c) 0
      (map (spec_output c (collect :: (_, 'u) accumulator) [] (chunk_size c) as input) [0..<length outs])"
    and near: "\<And>k. k < length outs \<Longrightarrow> near_output D c (collect :: (_, 'u) accumulator) [] (chunk_size c) as input k (outs ! k)"
    and re: "faithful_reparse c (collect :: (_, 'u) accumulator) input [] D reparse"
    and D: "doomed c (collect :: (_, 'u) accumulator) input [] D"
  shows "\<exists>res. collect_and_merge (chunk_size c) concat reparse (map Some outs) = Some res \<and>
    same_or_failed D res (sequential c collect input [])"
proof -
  let ?n = "length input" and ?cs = "chunk_size c" and ?acc = "collect :: (_, 'u) accumulator"
  have plain: "plain_acc ?acc" by simp
  have n0: "0 < ?n" using n by simp
  note dc = div_ceil_bounds[OF cs, of ?n]
  have k: "?n \<le> length outs * ?cs" "(length outs - 1) * ?cs < ?n" "0 < length outs"
    using dc n0 unfolding count by auto
  have le: "i * ?cs \<le> ?n" if "i < length outs" for i
  proof -
    have "i * ?cs \<le> (length outs - 1) * ?cs" using that by (intro mult_le_mono1) simp
    with k(2) show ?thesis by linarith
  qed
  note first = first_chunk[OF B assms(5), of ?acc "[]"]
  have hd: "hd outs = outs ! 0" using k(3) by (simp add: hd_conv_nth)
  note near0 = near_output_passes[OF near[OF k(3)]]
  show ?thesis unfolding sequential_segment[OF plain B]
  proof (rule merge_records[OF comment cs re D])
    show "\<forall>i<length outs. faithful c ?acc input [] D (Suc i * ?cs) (outs ! i)"
      using near_output_faithful[OF plain le near] by blast
    show "co_passes (hd outs) \<noteq> []" "B \<le> ?cs" "B = rp_record_start (hd (co_passes (hd outs)))"
      unfolding hd using first near0 by simp_all
    show "covered G ?n B ?cs 0 outs"
      using cov near_output_passes(1)[OF near] by (fastforce simp: covered_def)
  qed (use k G in simp_all)
qed

context quiet_env
begin

lemma chunked_sequential:
  assumes c: "c = rs_config rs" and comment: "comment c = None" and cs: "0 < chunk_size c"
    and size: "rs_file_size rs = length input" and n: "input \<noteq> []"
    and count: "rs_chunk_count rs = div_ceil (length input) (chunk_size c)"
    and as: "assumptions_for_config (quote c) (escape c) = Some as"
    and P: "P = dfa_chunk_parser_new le c"
    and ctx: "make_ctx = Inr ctx" "cinv ctx"
    and B: "first_boundary c (take (chunk_size c) input) = Some B"
    and G: "boundaries_closed c (collect :: (_, 'u) accumulator) input [] G" "length input \<in> G" "B \<in> G"
    and cov: "covered G (length input) B (chunk_size c) 0
      (map (spec_output c (collect :: (_, 'u) accumulator) [] (chunk_size c) as input) [0..<rs_chunk_count rs])"
  shows "run_with_one X make_ctx (dfa_parser (io_reader X) V P (collect :: (_, 'u) accumulator)) [] rs concat =
    Some (sequential c collect input [])"
proof -
  let ?cs = "chunk_size c" and ?k = "rs_chunk_count rs"
  let ?acc = "collect :: (_, 'u) accumulator"
  define out where "out = spec_output c ?acc [] ?cs as input"
  have k: "(?k - 1) * ?cs \<le> length input" "0 < ?k"
    using div_ceil_bounds[OF cs, of "length input"] n unfolding count by auto
  have wl: "work_loop X (dfa_parser (io_reader X) V P ?acc) [] rs as 0 1 ctx (replicate ?k slot_new) =
      Some (map Some (map out [0..<?k]))"
    using work_loop_exact[OF P[unfolded c] size k(1)[unfolded c] out_def[unfolded c] ctx(2) k(2)] by (simp add: o_def)
  have "as \<noteq> []" using as by (auto simp: assumptions_for_config_def split: option.splits if_splits)
  from outputs_merged[OF comment cs n _ this B G, of "map out [0..<?k]", OF _ _ _ reparse_exact[OF ctx P] doomed_no_errors]
    cov count have "collect_and_merge ?cs concat (reparse_chunk X make_ctx (dfa_parser (io_reader X) V P ?acc) [] (length input))
      (map Some (map out [0..<?k])) = Some (sequential c ?acc input [])"
    by (simp add: out_def near_output_no_errors)
  with wl as ctx size show ?thesis by (simp add: run_with_one_def c[symmetric])
qed

end

end
