(* ===== verification/Instances.thy ===== *)
theory Instances
  imports Scheduler
begin

text \<open>
  The pass, driver and scheduler contracts on the readers, contexts and output types of the program: the
  DFA parser over the in-memory, mapped and ring-buffer readers, for \<open>Bytes\<close> and \<open>Text\<close>, and the
  two contexts whose reads cannot fail.
\<close>

section \<open>Passes\<close>

interpretation in_memory_bytes: pass_env in_memory_ops im_inv "\<lambda>_. []" validate_bytes length
  by (intro pass_env.intro in_memory.chunk_reader_axioms bytes_out.validator_axioms)

interpretation in_memory_text: pass_env in_memory_ops im_inv "\<lambda>_. []" validate_str utf8_valid_len
  by (intro pass_env.intro in_memory.chunk_reader_axioms text_out.validator_axioms)

interpretation mmap_bytes: pass_env mmap_reader_ops mm_inv "\<lambda>_. []" validate_bytes length
  by (intro pass_env.intro mmap.chunk_reader_axioms bytes_out.validator_axioms)

interpretation mmap_text: pass_env mmap_reader_ops mm_inv "\<lambda>_. []" validate_str utf8_valid_len
  by (intro pass_env.intro mmap.chunk_reader_axioms text_out.validator_axioms)

text \<open>A ring-buffer reader over any lawful buffer and source.\<close>

sublocale ring_reader \<subseteq> ring_bytes: pass_env "ring_reader_ops B rd" "ring_inv binv sinv" "ring_unread content"
    validate_bytes length
  by (intro pass_env.intro reader.chunk_reader_axioms bytes_out.validator_axioms)

sublocale ring_reader \<subseteq> ring_text: pass_env "ring_reader_ops B rd" "ring_inv binv sinv" "ring_unread content"
    validate_str utf8_valid_len
  by (intro pass_env.intro reader.chunk_reader_axioms text_out.validator_axioms)

section \<open>The driver\<close>

interpretation in_memory_driver: lagging_driver in_memory_ops im_inv "\<lambda>_. []" dfa_stepper_ops c acc L
    "\<lambda>xs tot lag pos e st m. lag = pos \<and> pos = e \<and> srel c xs pos st m" "\<lambda>_. True" "\<lambda>_ _ _ _. False"
    validate_str utf8_valid_len for c acc L
  by (intro lagging_driver.intro in_memory.chunk_reader_axioms dfa.lag.lagging_stepper_axioms text_out.validator_axioms)

sublocale ring_reader \<subseteq> ring_driver: lagging_driver "ring_reader_ops B rd" "ring_inv binv sinv"
    "ring_unread content" dfa_stepper_ops c acc L
    "\<lambda>xs tot lag pos e st m. lag = pos \<and> pos = e \<and> srel c xs pos st m" "\<lambda>_. True" "\<lambda>_ _ _ _. False"
    validate_str utf8_valid_len for c acc L
  by (intro lagging_driver.intro reader.chunk_reader_axioms dfa.lag.lagging_stepper_axioms text_out.validator_axioms)

section \<open>Contexts whose reads cannot fail\<close>

lemma cursor_read_to_end: "\<exists>bs. fst (read_to_end cursor_read fuel limit s) = Inr bs"
proof (induction fuel arbitrary: limit s)
  case 0
  then show ?case by simp
next
  case (Suc fuel)
  obtain bs s' where r: "cursor_read limit s = (Inr bs, s')" by (simp add: cursor_read_def Let_def)
  from Suc[of "limit - length bs" s'] obtain rest s'' where
    "read_to_end cursor_read fuel (limit - length bs) s' = (Inr rest, s'')"
    by (metis prod.collapse)
  with r show ?case by simp
qed

interpretation in_memory_run: quiet_env "in_memory_io_ops cursor_read cursor_seek" im_inv "\<lambda>_. []"
    "in_memory_io_inv (\<lambda>c. cur_data c = input) input" input validate_bytes length for input
proof (intro quiet_env.intro quiet_env_axioms.intro cursor_seekable.memory_io.io_context_axioms
    bytes_out.validator_axioms)
  fix ctx :: "Cursor InMemoryIo" and s e :: nat
  obtain bs where "fst (read_to_end cursor_read (mi_file_size ctx - s) (mi_file_size ctx - s)
      ((mi_src ctx)\<lparr>cur_pos := s\<rparr>)) = Inr bs"
    using cursor_read_to_end by blast
  then show "\<exists>r. io_open (in_memory_io_ops cursor_read cursor_seek) s e ctx = Some (Inr r)"
    by (simp add: in_memory_io_ops_def in_memory_io_open_def cursor_seek_def Let_def)
qed (simp_all add: in_memory_io_ops_def im_defs)

interpretation mmap_run: quiet_env "mmap_io_ops (Inr ())" mm_inv "\<lambda>_. []" "mmap_inv input" input
    validate_bytes length for input
proof (intro quiet_env.intro quiet_env_axioms.intro mmap_io.io_context_axioms bytes_out.validator_axioms)
  fix ctx :: MmapFile and s e :: nat
  assume "mmap_inv input ctx" "s \<le> e" "e \<le> length input"
  then show "\<exists>r. io_open (mmap_io_ops (Inr ())) s e ctx = Some (Inr r)"
    by (auto simp: mmap_io_ops_def mmap_io_open_def mmap_reset_def mmap_chunk_reader_def mmap_inv_def)
qed (simp_all add: mmap_io_ops_def mm_defs)

text \<open>The DFA parser under the scheduler, on files in memory and mapped files.\<close>

interpretation memory_dfa: speculative "in_memory_io_ops cursor_read cursor_seek" im_inv "\<lambda>_. []"
    "in_memory_io_inv (\<lambda>c. cur_data c = input) input" input
    "dfa_parser in_memory_ops validate_bytes (dfa_chunk_parser_new le c) acc" c acc init no_errors UNIV for input le c acc init
proof -
  have "io_reader (in_memory_io_ops cursor_read cursor_seek) = in_memory_ops" by (simp add: in_memory_io_ops_def)
  with in_memory_run.dfa_speculative[of input le c acc init]
  show "speculative (in_memory_io_ops cursor_read cursor_seek) im_inv (\<lambda>_. []) (in_memory_io_inv (\<lambda>c. cur_data c = input) input) input
      (dfa_parser in_memory_ops validate_bytes (dfa_chunk_parser_new le c) acc) c acc init no_errors UNIV" by simp
qed

interpretation mapped_dfa: speculative "mmap_io_ops (Inr ())" mm_inv "\<lambda>_. []" "mmap_inv input" input
    "dfa_parser mmap_reader_ops validate_bytes (dfa_chunk_parser_new le c) acc" c acc init no_errors UNIV for input le c acc init
proof -
  have "io_reader (mmap_io_ops (Inr ())) = mmap_reader_ops" by (simp add: mmap_io_ops_def)
  with mmap_run.dfa_speculative[of input le c acc init]
  show "speculative (mmap_io_ops (Inr ())) mm_inv (\<lambda>_. []) (mmap_inv input) input
      (dfa_parser mmap_reader_ops validate_bytes (dfa_chunk_parser_new le c) acc) c acc init no_errors UNIV" by simp
qed

end
