(* ===== verification/Boundaries.thy ===== *)
theory Boundaries
  imports Scheduler
begin

text \<open>
  Where the boundaries of a parse lie and which chunks have a pass at them. Every record boundary is a
  terminator byte or the end of the input (\<open>terminators_closed\<close>); without a quote byte every chunk that
  holds a terminator has a pass (\<open>unquoted_covered\<close>), so that there the speculation can only succeed.
\<close>

section \<open>Boundaries are terminators\<close>

lemma spec_byte_terminator:
  assumes "spec_byte c acc L p b m = Finished e s"
  shows "e = p \<and> is_terminator (terminator c) b"
  using spec_byte_finished[OF assms, of "max L (Suc p)"] by simp

lemma spec_byte_last_end:
  assumes "spec_byte c acc L p b m = Running m'" and "m_last_end m' = Some e"
  shows "m_last_end m = Some e \<or> e = p \<and> is_terminator (terminator c) b"
proof -
  let ?t = "transition (dfa_new True c) (m_state m) b"
  let ?m = "copy_byte ?t b (mark_start c p b m)"
  from assms(1) have en: "enter c acc L p (next_state ?t) ?m = Running m'"
    by (auto simp: spec_byte_def Let_def split: if_splits)
  have "m_last_end ?m = m_last_end m" by (simp add: copy_byte_def mark_start_def)
  then show ?thesis
    using en assms(2) terminator_of_RecordEnd[of True c "m_state m" b]
    by (cases "next_state ?t") (auto simp: enter_def split: sum.splits if_splits)
qed

definition terminator_at :: "Config \<Rightarrow> nat \<Rightarrow> byte list \<Rightarrow> nat \<Rightarrow> bool" where
  "terminator_at c p bs e \<longleftrightarrow> p \<le> e \<and> e < p + length bs \<and> is_terminator (terminator c) (bs ! (e - p))"

lemma terminator_at_Cons:
  "terminator_at c (p + 1) bs e \<Longrightarrow> terminator_at c p (b # bs) e"
  by (auto simp: terminator_at_def nth_Cons' Suc_le_eq)

lemma spec_run_finished_at: "spec_run c acc L p bs m = Finished e s \<Longrightarrow> terminator_at c p bs e"
proof (induction bs arbitrary: p m)
  case (Cons b bs)
  show ?case
  proof (cases "spec_byte c acc L p b m")
    case (Running m')
    with Cons show ?thesis by (auto intro: terminator_at_Cons)
  next
    case (Finished e' s')
    with Cons.prems spec_byte_terminator[OF Finished] show ?thesis by (simp add: terminator_at_def)
  qed (use Cons.prems in simp)
qed simp

lemma spec_run_last_at:
  "spec_run c acc L p bs m = Running m' \<Longrightarrow> m_last_end m' = Some e \<Longrightarrow>
    m_last_end m = Some e \<or> terminator_at c p bs e"
proof (induction bs arbitrary: p m)
  case (Cons b bs)
  then obtain m1 where m1: "spec_byte c acc L p b m = Running m1" "spec_run c acc L (p + 1) bs m1 = Running m'"
    by (auto split: outcome.splits)
  from Cons.IH[OF m1(2) Cons.prems(2)] show ?case
    using spec_byte_last_end[OF m1(1)] terminator_at_Cons[of c p bs e b] by (auto simp: terminator_at_def)
qed simp

text \<open>A segment ends at a terminator byte or at the end of the input.\<close>

lemma segment_end_at:
  assumes "segment c acc bytes s B L = Inr (Some e, s')" and "B \<le> length bytes"
  shows "e = length bytes \<or> B \<le> e \<and> e < length bytes \<and> is_terminator (terminator c) (bytes ! e)"
proof -
  have at: "terminator_at c B (drop B bytes) e \<Longrightarrow>
      B \<le> e \<and> e < length bytes \<and> is_terminator (terminator c) (bytes ! e)"
    using assms(2) by (auto simp: terminator_at_def)
  let ?L = "min L (length bytes)"
  show ?thesis
  proof (cases "spec_run c acc ?L B (drop B bytes) (spec_init B s)")
    case (Running m')
    with assms have fin: "spec_finish c acc (length bytes) m' = Inr (Some e, s')"
      by (simp add: segment_def spec_parse_def spec_rest_def)
    then have "e = length bytes \<or> m_last_end m' = Some e"
      by (auto simp: spec_finish_def result_simps split: if_splits)
    with spec_run_last_at[OF Running] at show ?thesis by (auto simp: spec_init_def)
  next
    case (Finished x y)
    with assms have "x = e" by (simp add: segment_def spec_parse_def spec_rest_def)
    with spec_run_finished_at[OF Finished] at show ?thesis by simp
  next
    case (Failed err)
    with assms show ?thesis by (simp add: segment_def spec_parse_def spec_rest_def)
  qed
qed

text \<open>The first boundary, every terminator byte and the end of the input.\<close>

definition terminators :: "Config \<Rightarrow> byte list \<Rightarrow> nat \<Rightarrow> nat set" where
  "terminators c bytes B = {e. e = B \<or> e = length bytes \<or> e < length bytes \<and> is_terminator (terminator c) (bytes ! e)}"

lemma terminators_closed:
  "B \<le> length bytes \<Longrightarrow> boundaries_closed c acc bytes s (terminators c bytes B)"
  unfolding boundaries_closed_def terminators_def using segment_end_at by fastforce

section \<open>Without a quote byte\<close>

text \<open>The search for a boundary finds the first terminator byte.\<close>

lemma search_byte_unquoted:
  assumes "quote c = None" and "q = FieldStart \<or> q = InField"
  shows "search_byte c strict p b q =
    (if is_terminator (terminator c) b \<and> b \<noteq> delimiter c then FoundEnd p
     else Searching (if b = delimiter c then FieldStart else InField))"
  using assms by (auto simp: search_byte_def transition_def dfa_new_def field_start_cell_def in_field_cell_def)

lemma search_run_unquoted:
  assumes "quote c = None" and "q = FieldStart \<or> q = InField"
    and "i < length bs" and "is_terminator (terminator c) (bs ! i)" and "bs ! i \<noteq> delimiter c"
  shows "\<exists>x. search_run c strict p bs q = FoundEnd x"
  using assms(2-)
proof (induction bs arbitrary: p q i)
  case (Cons b bs)
  show ?case
  proof (cases "is_terminator (terminator c) b \<and> b \<noteq> delimiter c")
    case True
    then show ?thesis using search_byte_unquoted[OF assms(1) Cons.prems(1)] by simp
  next
    case False
    then obtain j where j: "i = Suc j" using Cons.prems(3,4) by (cases i) auto
    define q' where "q' = (if b = delimiter c then FieldStart else InField)"
    have "\<exists>x. search_run c strict (p + 1) bs q' = FoundEnd x"
      using Cons.prems(2-) j by (intro Cons.IH[of q' j]) (auto simp: q'_def)
    then show ?thesis
      using search_byte_unquoted[OF assms(1) Cons.prems(1), of strict p b] False
      by (simp add: q'_def[symmetric])
  qed
qed simp

lemma output_has_pass:
  fixes acc :: "('s, 'u) accumulator"
  assumes "0 < k" and "a = hd as" and "as \<noteq> []"
    and "spec_scan c a FindStrict (min (k * cs + cs) (length bytes) - k * cs) (drop (k * cs) bytes)
      = (Inr (Some x) :: 'u Error + nat option)"
  shows "co_passes (spec_output c acc init cs as bytes k) \<noteq> []"
proof -
  let ?rem = "min (k * cs + cs) (length bytes) - k * cs" and ?bs = "drop (k * cs) bytes"
  from assms obtain as' where as: "as = a # as'" by (cases as) auto
  have start: "record_start (spec_pass c acc a FindStrict ?rem ?bs init) = Some x"
    using assms(4) by (auto simp: spec_pass_def started_def split: sum.splits)
  have "\<exists>ps r. try_spec (\<lambda>a. spec_pass c acc a FindStrict ?rem ?bs init) (k * cs) as [] None False = Resolved ps r \<and>
      ps \<noteq> []"
    unfolding as
    using start try_spec_keeps[of "[\<lparr>rp_record_start = k * cs + x, rp_result = Inl e\<rparr>]"
        "\<lambda>a. spec_pass c acc a FindStrict ?rem ?bs init" "k * cs" as' None False for e]
    by (cases "result (spec_pass c acc a FindStrict ?rem ?bs init)") (fastforce simp: try_finish_def)+
  with assms(1) show ?thesis by (auto simp: spec_output_def Let_def)
qed

lemma unquoted_covered:
  fixes acc :: "('s, 'u) accumulator"
  assumes "quote c = None" and "\<not> is_terminator (terminator c) (delimiter c)" and cs: "0 < cs"
    and as: "as = [OutOfQuotes]" and B: "first_boundary c (take cs bytes) = Some B"
    and outs: "outs = map (spec_output c acc init cs as bytes) [0..<n]" and n: "length bytes \<le> n * cs"
  shows "covered (terminators c bytes B) (length bytes) B cs 0 outs"
  unfolding covered_def
proof (intro ballI impI)
  fix e assume e: "e \<in> terminators c bytes B" "B \<le> e \<and> e < length bytes"
  then have at: "e = B \<or> is_terminator (terminator c) (bytes ! e)" by (auto simp: terminators_def)
  have "0 < n" using e n by (cases n) auto
  show "\<exists>k<length outs. e < 0 + Suc k * cs \<and> co_passes (outs ! k) \<noteq> []"
  proof (cases "e < cs")
    case True
    have "co_passes (outs ! 0) \<noteq> []"
      using first_chunk[OF B, of as acc init] as \<open>0 < n\<close> by (simp add: outs)
    with True \<open>0 < n\<close> show ?thesis by (intro exI[of _ 0]) (simp add: outs)
  next
    case False
    define k where "k = e div cs"
    have k: "0 < k" "k * cs \<le> e" "e < k * cs + cs"
      using cs False by (simp_all add: k_def div_greater_zero_iff dividend_less_div_times add.commute)
    have "k * cs < n * cs" using k(2) e n by linarith
    then have kn: "k < n" by simp
    have "B < cs \<or> B = 0"
      using B search_run_bounds(1)[of c False 0 "take cs bytes" RecordStart B]
      by (auto simp: first_boundary_def split: if_splits search.splits)
    then have trm: "is_terminator (terminator c) (bytes ! e)" using at False cs by auto
    let ?rem = "min (k * cs + cs) (length bytes) - k * cs"
    let ?c = "c\<lparr>quote_handling := Toggle\<rparr>"
    have i: "e - k * cs < ?rem" using k e by auto
    have "take ?rem (drop (k * cs) bytes) ! (e - k * cs) = bytes ! e" using i k(2) e by simp
    moreover have "bytes ! e \<noteq> delimiter c" using trm assms(2) by auto
    ultimately obtain x where
      "search_run ?c True 0 (take ?rem (drop (k * cs) bytes)) FieldStart = FoundEnd x"
      using search_run_unquoted[of ?c FieldStart "e - k * cs" "take ?rem (drop (k * cs) bytes)" True 0]
        assms(1) trm i e k by auto
    then have "spec_scan c OutOfQuotes FindStrict ?rem (drop (k * cs) bytes) = (Inr (Some x) :: 'u Error + nat option)"
      by (simp add: spec_scan_def assumption_to_state_def search_result_def)
    from output_has_pass[OF k(1) _ _ this, of as acc init] as have "co_passes (outs ! k) \<noteq> []"
      using kn by (simp add: outs)
    with k kn show ?thesis by (intro exI[of _ k]) (simp add: outs add.commute)
  qed
qed

end
