(* ===== verification/Evaluation.thy ===== *)
theory Evaluation
  imports Instances Boundaries
begin

text \<open>
  Evaluating the specification on concrete inputs: bundles of the equations that compute the transition
  table, the search and the machine, and a shape lemma for single-threaded runs, whose slots are the
  outputs of the chunks.
\<close>

lemmas eval_cells =
  transition_def dfa_new_def field_start_cell_def in_field_cell_def in_quoted_cell_def
  after_closing_cell_def in_comment_cell_def record_start_cell_def is_terminator_def doubled_quotes_def

lemmas eval_search =
  spec_scan_def search_result_def search_byte_def assumption_to_state_def skip_spec_def terminator_run_def Let_def

lemmas eval_machine =
  spec_parse_def spec_rest_def spec_init_def spec_byte_def enter_def hand_over_def closed_fields_def
  copy_byte_def mark_start_def spec_finish_def collect_def trimmed_def segment_def outcome_of_def

lemmas eval_pass =
  spec_pass_def spec_body_def failed_def no_record_def started_def try_finish_def empty_output_def
  spec_output_def sequential_def

lemmas eval_merge =
  collect_and_merge_def select_pass_def

context quiet_env
begin

text \<open>One worker fills the slots in order.\<close>

lemma run_with_one_outputs:
  assumes "P = dfa_chunk_parser_new le (rs_config rs)" and "rs_file_size rs = length input"
    and "(rs_chunk_count rs - 1) * chunk_size (rs_config rs) \<le> length input" and "0 < rs_chunk_count rs"
    and "assumptions_for_config (quote (rs_config rs)) (escape (rs_config rs)) = Some as"
    and "make_ctx = Inr ctx" and "cinv ctx"
  shows "run_with_one X make_ctx (dfa_parser (io_reader X) V P acc) init rs merge =
    collect_and_merge (chunk_size (rs_config rs)) merge
      (reparse_chunk X make_ctx (dfa_parser (io_reader X) V P acc) init (length input))
      (map (Some \<circ> spec_output (rs_config rs) acc init (chunk_size (rs_config rs)) as input)
        [0..<rs_chunk_count rs])"
  using work_loop_exact[OF assms(1-3) refl assms(7,4), of acc init as] assms(2,5,6)
  by (simp add: run_with_one_def)

end

end
