(* ===== verification/Workers.thy ===== *)
theory Workers
  imports Evaluation
begin

text \<open>
  The worker threads of \<open>Scheduler::run_with\<close> (src/src/scheduler/mod.rs) as a step relation: every
  interleaving of the spawns, the workers' chunks and their claims of the next chunk from the shared
  counter. The lemmas show that a slot is written at most once, by the one worker that holds its index;
  that every run ends; and that a run without failures ends with every slot holding its chunk's output,
  whoever computed it.
\<close>

section \<open>The threads\<close>

text \<open>A worker \<open>t\<close> starts on chunk \<open>t\<close>. \<open>Working i ctx\<close> has the chunk index \<open>i\<close>, \<open>Claiming ctx\<close> is
  about to fetch the next one. Worker 0 is the thread that spawns the others.\<close>

datatype 'c worker = Waiting | Starting | Working nat 'c | Claiming 'c | Ended | Broken io_error | Panicked

datatype main_phase = Spawning nat | Joining

record ('c, 'o) pool =
  next_chunk :: nat
  slots :: "'o option list"
  workers :: "'c worker list"
  main_phase :: main_phase
  spawn_error :: "io_error option"

definition pool_new :: "nat \<Rightarrow> nat \<Rightarrow> ('c, 'o) pool" where
  "pool_new tc cc = \<lparr>next_chunk = tc, slots = replicate cc slot_new, workers = replicate tc Waiting,
     main_phase = Spawning 1, spawn_error = None\<rparr>"

text \<open>\<open>mk t\<close> is worker \<open>t\<close>'s \<open>make_ctx\<close>, \<open>proc\<close> is \<open>process_chunk\<close> with \<open>None\<close> for a panic.\<close>

inductive pool_step ::
    "(nat \<Rightarrow> io_error + 'c) \<Rightarrow> (nat \<Rightarrow> 'c \<Rightarrow> ('o \<times> 'c) option) \<Rightarrow> nat \<Rightarrow> nat \<Rightarrow> ('c, 'o) pool \<Rightarrow> ('c, 'o) pool \<Rightarrow> bool"
  for mk proc tc cc where
  spawned: "main_phase s = Spawning t \<Longrightarrow> t < tc \<Longrightarrow>
    pool_step mk proc tc cc s (s\<lparr>workers := (workers s)[t := Starting], main_phase := Spawning (Suc t)\<rparr>)"
| spawn_failed: "main_phase s = Spawning t \<Longrightarrow> t < tc \<Longrightarrow>
    pool_step mk proc tc cc s
      (s\<lparr>next_chunk := cc, spawn_error := Some (SpawnFailed t tc), main_phase := Joining\<rparr>)"
| main_starts: "main_phase s = Spawning t \<Longrightarrow> tc \<le> t \<Longrightarrow>
    pool_step mk proc tc cc s (s\<lparr>workers := (workers s)[0 := Starting], main_phase := Joining\<rparr>)"
| opened: "t < length (workers s) \<Longrightarrow> workers s ! t = Starting \<Longrightarrow> mk t = Inr ctx \<Longrightarrow>
    pool_step mk proc tc cc s (s\<lparr>workers := (workers s)[t := Working t ctx]\<rparr>)"
| open_failed: "t < length (workers s) \<Longrightarrow> workers s ! t = Starting \<Longrightarrow> mk t = Inl e \<Longrightarrow>
    pool_step mk proc tc cc s (s\<lparr>workers := (workers s)[t := Broken e]\<rparr>)"
| parsed: "t < length (workers s) \<Longrightarrow> workers s ! t = Working i ctx \<Longrightarrow> proc i ctx = Some (out, ctx') \<Longrightarrow>
    i < length (slots s) \<Longrightarrow>
    pool_step mk proc tc cc s
      (s\<lparr>slots := slot_set i out (slots s), workers := (workers s)[t := Claiming ctx']\<rparr>)"
| panicked: "t < length (workers s) \<Longrightarrow> workers s ! t = Working i ctx \<Longrightarrow>
    proc i ctx = None \<or> length (slots s) \<le> i \<Longrightarrow>
    pool_step mk proc tc cc s (s\<lparr>workers := (workers s)[t := Panicked]\<rparr>)"
| claimed: "t < length (workers s) \<Longrightarrow> workers s ! t = Claiming ctx \<Longrightarrow>
    pool_step mk proc tc cc s
      (s\<lparr>next_chunk := next_chunk s + 1,
         workers := (workers s)[t := if next_chunk s \<ge> cc then Ended else Working (next_chunk s) ctx]\<rparr>)"

text \<open>The joins have returned: the main thread waits for no one.\<close>

definition terminal :: "'c worker \<Rightarrow> bool" where
  "terminal w \<longleftrightarrow> (case w of Starting \<Rightarrow> False | Working _ _ \<Rightarrow> False | Claiming _ \<Rightarrow> False | _ \<Rightarrow> True)"

definition joined :: "('c, 'o) pool \<Rightarrow> bool" where
  "joined s \<longleftrightarrow> main_phase s = Joining \<and> list_all terminal (workers s)"

text \<open>The errors in the order \<open>run_with\<close> collects them: the failed spawn, the main thread's own, the
  joined workers'.\<close>

definition pool_errors :: "('c, 'o) pool \<Rightarrow> io_error list" where
  "pool_errors s = (case spawn_error s of Some e \<Rightarrow> [e] | None \<Rightarrow> []) @
     concat (map (\<lambda>w. case w of Broken e \<Rightarrow> [e] | _ \<Rightarrow> []) (workers s))"

text \<open>What \<open>run_with\<close> returns once the threads are joined; a worker's panic is resumed.\<close>

definition run_with_finish ::
    "('c, 'r) io_ops \<Rightarrow> io_error + 'c \<Rightarrow> ('r, 's, 'u) chunk_parser \<Rightarrow> 's \<Rightarrow> ResolvedConfig \<Rightarrow> ('s list \<Rightarrow> 'res)
      \<Rightarrow> ('c, ('s, 'u) ChunkOutput) pool \<Rightarrow> ('u Error + 'res) option" where
  "run_with_finish X make_ctx P init rs merge s =
     (if Panicked \<in> set (workers s) then None
      else (case pool_errors s of
          e # _ \<Rightarrow> Some (Inl (IO e))
        | [] \<Rightarrow> collect_and_merge (chunk_size (rs_config rs)) merge
                 (reparse_chunk X make_ctx P init (rs_file_size rs)) (slots s)))"

text \<open>The outcomes of \<open>run_with\<close> over all interleavings. \<open>mk t\<close> is the context worker \<open>t\<close> opens.\<close>

definition run_with_outcome ::
    "('c, 'r) io_ops \<Rightarrow> (nat \<Rightarrow> io_error + 'c) \<Rightarrow> io_error + 'c \<Rightarrow> ('r, 's, 'u) chunk_parser \<Rightarrow> 's \<Rightarrow> ResolvedConfig
      \<Rightarrow> Assumption list \<Rightarrow> ('s list \<Rightarrow> 'res) \<Rightarrow> ('c, ('s, 'u) ChunkOutput) pool \<Rightarrow> ('u Error + 'res) option \<Rightarrow> bool" where
  "run_with_outcome X mk make_ctx P init rs as merge s res \<longleftrightarrow>
     (pool_step mk (process_chunk X P init rs as) (rs_thread_count rs) (rs_chunk_count rs))\<^sup>*\<^sup>*
       (pool_new (rs_thread_count rs) (rs_chunk_count rs)) s \<and>
     joined s \<and> res = run_with_finish X make_ctx P init rs merge s"

section \<open>Who holds which chunk\<close>

definition holds :: "nat \<Rightarrow> 'c worker \<Rightarrow> nat option" where
  "holds t w = (case w of Waiting \<Rightarrow> Some t | Starting \<Rightarrow> Some t | Working i _ \<Rightarrow> Some i | _ \<Rightarrow> None)"

lemma holds_simps [simp]:
  "holds t Waiting = Some t" "holds t Starting = Some t" "holds t (Working i ctx) = Some i"
  "holds t (Claiming ctx) = None" "holds t Ended = None" "holds t (Broken e) = None" "holds t Panicked = None"
  by (simp_all add: holds_def)

text \<open>The part of the invariant that holds whatever fails: an index below the counter is held by at most
  one worker, and its slot is empty as long as it is held.\<close>

definition held_ok :: "nat \<Rightarrow> nat \<Rightarrow> ('c, 'o) pool \<Rightarrow> bool" where
  "held_ok tc cc s \<longleftrightarrow> length (workers s) = tc \<and> length (slots s) = cc \<and> tc \<le> cc \<and>
     (\<forall>t<tc. \<forall>u<tc. \<forall>i. holds t (workers s ! t) = Some i \<longrightarrow> holds u (workers s ! u) = Some i \<longrightarrow> t = u) \<and>
     (\<forall>t<tc. \<forall>i. holds t (workers s ! t) = Some i \<longrightarrow> i < cc \<and> i < next_chunk s \<and> slots s ! i = None) \<and>
     (\<forall>i<cc. next_chunk s \<le> i \<longrightarrow> slots s ! i = None) \<and>
     (\<forall>t. main_phase s = Spawning t \<longrightarrow> 0 < t \<and> (\<forall>u<tc. u = 0 \<or> t \<le> u \<longrightarrow> workers s ! u = Waiting))"

lemma held_new: "0 < tc \<Longrightarrow> tc \<le> cc \<Longrightarrow> held_ok tc cc (pool_new tc cc)"
  by (simp add: held_ok_def pool_new_def slot_new_def)

lemma held_okD:
  assumes "held_ok tc cc s"
  shows "length (workers s) = tc" and "length (slots s) = cc" and "tc \<le> cc"
    and "t < tc \<Longrightarrow> u < tc \<Longrightarrow> holds t (workers s ! t) = Some i \<Longrightarrow> holds u (workers s ! u) = Some i \<Longrightarrow> t = u"
    and "t < tc \<Longrightarrow> holds t (workers s ! t) = Some i \<Longrightarrow> i < cc \<and> i < next_chunk s \<and> slots s ! i = None"
    and "i < cc \<Longrightarrow> next_chunk s \<le> i \<Longrightarrow> slots s ! i = None"
    and "main_phase s = Spawning p \<Longrightarrow> 0 < p \<and> (\<forall>u<tc. u = 0 \<or> p \<le> u \<longrightarrow> workers s ! u = Waiting)"
  using assms unfolding held_ok_def by blast+

lemma held_okI:
  assumes "length (workers s) = tc" and "length (slots s) = cc" and "tc \<le> cc"
    and "\<And>t u i. t < tc \<Longrightarrow> u < tc \<Longrightarrow> holds t (workers s ! t) = Some i \<Longrightarrow> holds u (workers s ! u) = Some i \<Longrightarrow> t = u"
    and "\<And>t i. t < tc \<Longrightarrow> holds t (workers s ! t) = Some i \<Longrightarrow> i < cc \<and> i < next_chunk s \<and> slots s ! i = None"
    and "\<And>i. i < cc \<Longrightarrow> next_chunk s \<le> i \<Longrightarrow> slots s ! i = None"
    and "\<And>p. main_phase s = Spawning p \<Longrightarrow> 0 < p \<and> (\<forall>u<tc. u = 0 \<or> p \<le> u \<longrightarrow> workers s ! u = Waiting)"
  shows "held_ok tc cc s"
  using assms unfolding held_ok_def by blast

text \<open>Workers that hold the same chunks as before, or none.\<close>

lemma held_workers:
  assumes inv: "held_ok tc cc s" and len: "length ws = tc"
    and sub: "\<And>u i. u < tc \<Longrightarrow> holds u (ws ! u) = Some i \<Longrightarrow> holds u (workers s ! u) = Some i"
    and main: "\<And>p. ph = Spawning p \<Longrightarrow> 0 < p \<and> (\<forall>u<tc. u = 0 \<or> p \<le> u \<longrightarrow> ws ! u = Waiting)"
  shows "held_ok tc cc (s\<lparr>workers := ws, main_phase := ph\<rparr>)"
proof (rule held_okI)
  show "0 < p \<and> (\<forall>u<tc. u = 0 \<or> p \<le> u \<longrightarrow> workers (s\<lparr>workers := ws, main_phase := ph\<rparr>) ! u = Waiting)"
    if "main_phase (s\<lparr>workers := ws, main_phase := ph\<rparr>) = Spawning p" for p
    using main[of p] that by simp
qed (use len held_okD[OF inv] sub in \<open>auto\<close>)

lemma held_update:
  assumes inv: "held_ok tc cc s" and "t < tc" and w: "workers s ! t \<noteq> Waiting"
    and sub: "\<And>i. holds t w = Some i \<Longrightarrow> holds t (workers s ! t) = Some i"
  shows "held_ok tc cc (s\<lparr>workers := (workers s)[t := w]\<rparr>)"
proof -
  have len: "length (workers s) = tc" using inv by (simp add: held_ok_def)
  have "held_ok tc cc (s\<lparr>workers := (workers s)[t := w], main_phase := main_phase s\<rparr>)"
  proof (rule held_workers[OF inv])
    fix u i assume "u < tc" "holds u ((workers s)[t := w] ! u) = Some i"
    with sub len show "holds u (workers s ! u) = Some i" by (cases "u = t") auto
  next
    fix p assume "main_phase s = Spawning p"
    from held_okD(7)[OF inv this] w \<open>t < tc\<close>
    show "0 < p \<and> (\<forall>u<tc. u = 0 \<or> p \<le> u \<longrightarrow> (workers s)[t := w] ! u = Waiting)"
      by (metis nth_list_update_neq)
  qed (simp add: len)
  then show ?thesis by simp
qed

lemma held_step:
  assumes "pool_step mk proc tc cc s s'" and inv: "held_ok tc cc s" and "0 < tc"
  shows "held_ok tc cc s'"
proof -
  have len: "length (workers s) = tc" "length (slots s) = cc" using inv by (simp_all add: held_ok_def)
  from assms(1) show ?thesis
  proof cases
    case (spawned t)
    have p: "0 < t" "\<forall>u<tc. u = 0 \<or> t \<le> u \<longrightarrow> workers s ! u = Waiting"
      using held_okD(7)[OF inv spawned(2)] by blast+
    show ?thesis
      unfolding spawned(1)
    proof (rule held_workers[OF inv])
      fix u i assume "u < tc" "holds u ((workers s)[t := Starting] ! u) = Some i"
      with p spawned(3) len show "holds u (workers s ! u) = Some i" by (cases "u = t") auto
    qed (use p spawned(3) len in \<open>auto simp: nth_list_update\<close>)
  next
    case (spawn_failed t)
    show ?thesis
      unfolding spawn_failed(1) by (rule held_okI) (use held_okD[OF inv] in auto)
  next
    case (main_starts t)
    have p: "\<forall>u<tc. u = 0 \<or> t \<le> u \<longrightarrow> workers s ! u = Waiting"
      using held_okD(7)[OF inv main_starts(2)] by blast
    show ?thesis
      unfolding main_starts(1)
    proof (rule held_workers[OF inv])
      fix u i assume "u < tc" "holds u ((workers s)[0 := Starting] ! u) = Some i"
      with p len show "holds u (workers s ! u) = Some i" by (cases "u = 0") auto
    qed (use len in auto)
  next
    case (opened t ctx)
    with len held_update[OF inv, of t "Working t ctx"] show ?thesis by simp
  next
    case (open_failed t e)
    with len held_update[OF inv, of t "Broken e"] show ?thesis by simp
  next
    case (panicked t i ctx)
    with len held_update[OF inv, of t Panicked] show ?thesis by simp
  next
    case (parsed t i ctx out ctx')
    have t: "t < tc" "holds t (workers s ! t) = Some i" using parsed len by auto
    define ws where "ws = (workers s)[t := Claiming ctx']"
    have sub: "u \<noteq> t \<and> holds u (workers s ! u) = Some j" if "u < tc" "holds u (ws ! u) = Some j" for u j
      using that len t(1) by (cases "u = t") (auto simp: ws_def)
    have other: "j \<noteq> i" if "u < tc" "holds u (ws ! u) = Some j" for u j
      using sub[OF that] held_okD(4)[OF inv that(1) t(1) _ t(2)] by auto
    have nw: "workers s ! t \<noteq> Waiting" using parsed(3) by simp
    let ?s = "s\<lparr>slots := slot_set i out (slots s), workers := ws\<rparr>"
    have "held_ok tc cc ?s"
    proof (rule held_okI)
      show "length (workers ?s) = tc" "length (slots ?s) = cc" "tc \<le> cc"
        using len held_okD(3)[OF inv] by (simp_all add: ws_def slot_set_def)
      show "u = v" if "u < tc" "v < tc" "holds u (workers ?s ! u) = Some j" "holds v (workers ?s ! v) = Some j" for u v j
        using held_okD(4)[OF inv that(1,2)] sub[of u j] sub[of v j] that by simp
      show "j < cc \<and> j < next_chunk ?s \<and> slots ?s ! j = None" if "u < tc" "holds u (workers ?s ! u) = Some j" for u j
        using that sub[of u j] other[of u j] held_okD(5)[OF inv, of u j] by (simp add: slot_set_def)
      show "slots ?s ! j = None" if "j < cc" "next_chunk ?s \<le> j" for j
        using that held_okD(5)[OF inv t] held_okD(6)[OF inv, of j] by (auto simp: slot_set_def)
      have "ws ! u = Waiting" if "workers s ! u = Waiting" for u
        using that nw by (cases "u = t") (simp_all add: ws_def)
      then show "0 < p \<and> (\<forall>u<tc. u = 0 \<or> p \<le> u \<longrightarrow> workers ?s ! u = Waiting)"
        if "main_phase ?s = Spawning p" for p
        using held_okD(7)[OF inv, of p] that by simp
    qed
    then show ?thesis by (simp add: parsed(1) ws_def)
  next
    case (claimed t ctx)
    define w where "w = (if cc \<le> next_chunk s then Ended else Working (next_chunk s) ctx)"
    define ws where "ws = (workers s)[t := w]"
    have t: "t < tc" using claimed len by simp
    have old: "holds u (ws ! u) = holds u (workers s ! u)" if "u \<noteq> t" for u
      using that by (simp add: ws_def)
    have new: "holds t (ws ! t) = (if cc \<le> next_chunk s then None else Some (next_chunk s))"
      using t len by (simp add: ws_def w_def)
    note held = held_okD(5)[OF inv] and inj = held_okD(4)[OF inv] and fresh = held_okD(6)[OF inv]
    have split: "u = t \<and> i = next_chunk s \<and> i < cc \<or> u \<noteq> t \<and> holds u (workers s ! u) = Some i"
      if "holds u (ws ! u) = Some i" for u i
      using that old[of u] new by (cases "u = t") (simp_all split: if_splits)
    have inj': "u = v" if "u < tc" "v < tc" "holds u (ws ! u) = Some i" "holds v (ws ! v) = Some i" for u v i
      using split[OF that(3)] split[OF that(4)] held[OF that(1)] held[OF that(2)] inj[OF that(1,2)]
      by (metis less_irrefl)
    have held': "i < cc \<and> i < next_chunk s + 1 \<and> slots s ! i = None" if "u < tc" "holds u (ws ! u) = Some i" for u i
      using split[OF that(2)]
    proof
      assume "u = t \<and> i = next_chunk s \<and> i < cc"
      with fresh[of i] show ?thesis by simp
    next
      assume "u \<noteq> t \<and> holds u (workers s ! u) = Some i"
      with held[OF that(1), of i] show ?thesis by simp
    qed
    have nw: "workers s ! t \<noteq> Waiting" using claimed(3) by simp
    let ?s = "s\<lparr>next_chunk := next_chunk s + 1, workers := ws\<rparr>"
    have "held_ok tc cc ?s"
    proof (rule held_okI)
      show "length (workers ?s) = tc" "length (slots ?s) = cc" "tc \<le> cc"
        using len held_okD(3)[OF inv] by (simp_all add: ws_def)
      show "u = v" if "u < tc" "v < tc" "holds u (workers ?s ! u) = Some j" "holds v (workers ?s ! v) = Some j" for u v j
        using inj'[of u v j] that by simp
      show "j < cc \<and> j < next_chunk ?s \<and> slots ?s ! j = None" if "u < tc" "holds u (workers ?s ! u) = Some j" for u j
        using held'[of u j] that by simp
      show "slots ?s ! j = None" if "j < cc" "next_chunk ?s \<le> j" for j
        using that fresh[of j] by simp
      have "ws ! u = Waiting" if "workers s ! u = Waiting" for u
        using that nw by (cases "u = t") (simp_all add: ws_def)
      then show "0 < p \<and> (\<forall>u<tc. u = 0 \<or> p \<le> u \<longrightarrow> workers ?s ! u = Waiting)"
        if "main_phase ?s = Spawning p" for p
        using held_okD(7)[OF inv, of p] that by simp
    qed
    then show ?thesis by (simp add: claimed(1) ws_def w_def)
  qed
qed

lemma held_reachable:
  assumes "(pool_step mk proc tc cc)\<^sup>*\<^sup>* (pool_new tc cc) s" and "0 < tc" and "tc \<le> cc"
  shows "held_ok tc cc s"
  using assms(1) by induction (auto intro: held_new held_step assms(2,3))

section \<open>Every index is accounted for\<close>

definition gave_up :: "'c worker \<Rightarrow> bool" where
  "gave_up w \<longleftrightarrow> (case w of Broken _ \<Rightarrow> True | Panicked \<Rightarrow> True | _ \<Rightarrow> False)"

lemma gave_up_simps [simp]:
  "\<not> gave_up Waiting" "\<not> gave_up Starting" "\<not> gave_up (Working i ctx)" "\<not> gave_up (Claiming ctx)"
  "\<not> gave_up Ended" "gave_up (Broken e)" "gave_up Panicked"
  by (simp_all add: gave_up_def)

text \<open>Below the counter every slot is filled or its index is held, unless a worker gave up.\<close>

definition accounted :: "nat \<Rightarrow> nat \<Rightarrow> ('c, 'o) pool \<Rightarrow> bool" where
  "accounted tc cc s \<longleftrightarrow>
     (\<forall>i<cc. i < next_chunk s \<longrightarrow> slots s ! i = None \<longrightarrow> spawn_error s = None \<longrightarrow>
        (\<exists>t<tc. holds t (workers s ! t) = Some i \<or> gave_up (workers s ! t)))"

definition launched :: "nat \<Rightarrow> nat \<Rightarrow> ('c, 'o) pool \<Rightarrow> bool" where
  "launched tc cc s \<longleftrightarrow>
     (\<forall>t<tc. workers s ! t = Ended \<longrightarrow> cc \<le> next_chunk s) \<and>
     (spawn_error s = None \<longrightarrow> (\<forall>t<tc. workers s ! t = Waiting \<longrightarrow>
        (\<exists>p. main_phase s = Spawning p \<and> (t = 0 \<or> p \<le> t))))"

lemma accounted_new: "accounted tc cc (pool_new tc cc)"
  by (auto simp: accounted_def pool_new_def)

lemma launched_new: "launched tc cc (pool_new tc cc)"
  by (auto simp: launched_def pool_new_def)

lemma accounted_step:
  assumes "pool_step mk proc tc cc s s'" and inv: "held_ok tc cc s" and acc: "accounted tc cc s"
  shows "accounted tc cc s'"
proof -
  have len: "length (workers s) = tc" using held_okD(1)[OF inv] .
  have keep: "\<exists>v<tc. holds v ((workers s)[t := w] ! v) = Some i \<or> gave_up ((workers s)[t := w] ! v)"
    if "\<exists>v<tc. holds v (workers s ! v) = Some i \<or> gave_up (workers s ! v)"
      and "t < tc" and "\<not> gave_up (workers s ! t)"
      and "holds t (workers s ! t) = Some i \<Longrightarrow> holds t w = Some i \<or> gave_up w" for t w i
  proof -
    from that(1) obtain v where v: "v < tc" "holds v (workers s ! v) = Some i \<or> gave_up (workers s ! v)" by blast
    with that(2-) len show ?thesis by (intro exI[of _ v]) (cases "v = t"; auto)
  qed
  have old: "\<exists>t<tc. holds t (workers s ! t) = Some i \<or> gave_up (workers s ! t)"
    if "i < cc" "i < next_chunk s" "slots s ! i = None" "spawn_error s = None" for i
    using acc that unfolding accounted_def by blast
  have replace: "accounted tc cc (s\<lparr>workers := (workers s)[t := w]\<rparr>)"
    if "t < tc" "\<not> gave_up (workers s ! t)"
      "\<And>i. holds t (workers s ! t) = Some i \<Longrightarrow> holds t w = Some i \<or> gave_up w" for t w
    unfolding accounted_def using keep[OF old that] by simp
  from assms(1) show ?thesis
  proof cases
    case (spawned t)
    have "workers s ! t = Waiting" using held_okD(7)[OF inv spawned(2)] spawned(3) by simp
    with replace[of t Starting] spawned show ?thesis by (simp add: accounted_def)
  next
    case (spawn_failed t)
    then show ?thesis by (simp add: accounted_def)
  next
    case (main_starts t)
    show ?thesis
    proof (cases "0 < tc")
      case True
      then have "workers s ! 0 = Waiting" using held_okD(7)[OF inv main_starts(2)] by simp
      with replace[of 0 Starting] True main_starts show ?thesis by (simp add: accounted_def)
    next
      case False
      with main_starts old show ?thesis by (auto simp: accounted_def)
    qed
  next
    case (opened t ctx)
    with len replace[of t "Working t ctx"] show ?thesis by simp
  next
    case (open_failed t e)
    with len replace[of t "Broken e"] show ?thesis by simp
  next
    case (parsed t i ctx out ctx')
    have "(\<exists>v<tc. holds v ((workers s)[t := Claiming ctx'] ! v) = Some j \<or> gave_up ((workers s)[t := Claiming ctx'] ! v))"
      if "j < cc" "j < next_chunk s" "slot_set i out (slots s) ! j = None" "spawn_error s = None" for j
    proof -
      have "j \<noteq> i" using that(3) parsed(5) by (auto simp: slot_set_def)
      moreover from this have "slots s ! j = None" using that(3) by (simp add: slot_set_def)
      ultimately show ?thesis
        using that parsed(2,3) len old[of j] by (intro keep) auto
    qed
    with parsed(1) show ?thesis by (simp add: accounted_def)
  next
    case (panicked t i ctx)
    with len replace[of t Panicked] show ?thesis by simp
  next
    case (claimed t ctx)
    let ?w = "if next_chunk s \<ge> cc then Ended else Working (next_chunk s) ctx"
    have "\<exists>v<tc. holds v ((workers s)[t := ?w] ! v) = Some j \<or> gave_up ((workers s)[t := ?w] ! v)"
      if "j < cc" "j < Suc (next_chunk s)" "slots s ! j = None" "spawn_error s = None" for j
    proof (cases "j = next_chunk s")
      case True
      with that(1) claimed(2) len show ?thesis by (intro exI[of _ t]) simp
    next
      case False
      with that claimed(2,3) len old[of j] show ?thesis by (intro keep) auto
    qed
    with claimed(1) show ?thesis by (simp add: accounted_def)
  qed
qed

lemma launched_step:
  assumes "pool_step mk proc tc cc s s'" and inv: "held_ok tc cc s" and la: "launched tc cc s"
  shows "launched tc cc s'"
proof -
  have len: "length (workers s) = tc" using held_okD(1)[OF inv] .
  have e: "u < tc \<Longrightarrow> workers s ! u = Ended \<Longrightarrow> cc \<le> next_chunk s" for u
    using la unfolding launched_def by blast
  have w: "\<exists>p. main_phase s = Spawning p \<and> (u = 0 \<or> p \<le> u)"
    if "spawn_error s = None" "u < tc" "workers s ! u = Waiting" for u
    using la that unfolding launched_def by blast
  have replace: "launched tc cc (s\<lparr>workers := (workers s)[t := x]\<rparr>)"
    if "t < tc" "x \<noteq> Waiting" "x \<noteq> Ended" for t x
    using that e w len by (auto simp: launched_def nth_list_update)
  from assms(1) show ?thesis
  proof cases
    case (spawned t)
    have "cc \<le> next_chunk s" if "u < tc" "(workers s)[t := Starting] ! u = Ended" for u
      using that e[of u] len by (cases "u = t") auto
    moreover have "u = 0 \<or> Suc t \<le> u"
      if "spawn_error s = None" "u < tc" "(workers s)[t := Starting] ! u = Waiting" for u
      using that w[of u] spawned(2) len by (cases "u = t") auto
    ultimately show ?thesis unfolding spawned(1) by (simp add: launched_def)
  next
    case (spawn_failed t)
    then show ?thesis by (simp add: launched_def)
  next
    case (main_starts t)
    have "workers s ! u \<noteq> Waiting" if "spawn_error s = None" "u < tc" "u \<noteq> 0" for u
      using w[OF that(1,2)] that(2,3) main_starts(2,3) by auto
    with main_starts e len show ?thesis by (auto simp: launched_def nth_list_update)
  next
    case (opened t ctx)
    with len replace show ?thesis by simp
  next
    case (open_failed t e)
    with len replace show ?thesis by simp
  next
    case (parsed t i ctx out ctx')
    have "launched tc cc (s\<lparr>slots := slot_set i out (slots s)\<rparr>)" using la by (simp add: launched_def)
    with parsed len e w show ?thesis by (auto simp: launched_def nth_list_update)
  next
    case (panicked t i ctx)
    with len replace show ?thesis by simp
  next
    case (claimed t ctx)
    define x where "x = (if next_chunk s \<ge> cc then Ended else Working (next_chunk s) ctx)"
    have x: "x \<noteq> Waiting" "x = Ended \<Longrightarrow> cc \<le> next_chunk s" by (simp_all add: x_def split: if_splits)
    have "cc \<le> Suc (next_chunk s)" if "u < tc" "(workers s)[t := x] ! u = Ended" for u
      using that e[of u] x len by (cases "u = t") (auto intro: le_SucI)
    moreover have "\<exists>p. main_phase s = Spawning p \<and> (u = 0 \<or> p \<le> u)"
      if "spawn_error s = None" "u < tc" "(workers s)[t := x] ! u = Waiting" for u
      using that w[of u] x len by (cases "u = t") auto
    ultimately show ?thesis unfolding claimed(1) x_def[symmetric] by (simp add: launched_def)
  qed
qed

lemma pool_reachable:
  assumes "(pool_step mk proc tc cc)\<^sup>*\<^sup>* (pool_new tc cc) s" and "0 < tc" and "tc \<le> cc"
  shows "held_ok tc cc s \<and> accounted tc cc s \<and> launched tc cc s"
  using assms(1)
  by induction (auto intro: held_new held_step accounted_new accounted_step launched_new launched_step assms(2,3))

text \<open>A run without a failed spawn, context or chunk leaves no slot empty.\<close>

lemma joined_complete:
  assumes reach: "(pool_step mk proc tc cc)\<^sup>*\<^sup>* (pool_new tc cc) s" and tc: "0 < tc" "tc \<le> cc"
    and fin: "joined s" and ok: "pool_errors s = []" "Panicked \<notin> set (workers s)" and i: "i < cc"
  shows "slots s ! i \<noteq> None"
proof
  assume none: "slots s ! i = None"
  from pool_reachable[OF reach tc] have inv: "held_ok tc cc s" "accounted tc cc s" "launched tc cc s" by auto
  have len: "length (workers s) = tc" using held_okD(1)[OF inv(1)] .
  have se: "spawn_error s = None" using ok(1) by (auto simp: pool_errors_def split: option.splits)
  have ended: "workers s ! t = Ended" if "t < tc" for t
  proof -
    have "workers s ! t \<in> set (workers s)" using that len by simp
    then have "terminal (workers s ! t)" "workers s ! t \<noteq> Panicked" "\<And>e. workers s ! t \<noteq> Broken e"
      using fin ok by (auto simp: joined_def list_all_iff pool_errors_def split: worker.splits)
    moreover have "workers s ! t \<noteq> Waiting"
      using inv(3) se that fin by (auto simp: launched_def joined_def)
    ultimately show ?thesis by (cases "workers s ! t") (auto simp: terminal_def)
  qed
  then have "cc \<le> next_chunk s" using inv(3) tc(1) by (auto simp: launched_def)
  with inv(2) none se i obtain t where "t < tc" "holds t (workers s ! t) = Some i \<or> gave_up (workers s ! t)"
    unfolding accounted_def by (meson less_le_trans)
  with ended show False by simp
qed

section \<open>Slots are written once\<close>

lemma slot_kept:
  assumes "pool_step mk proc tc cc s s'" and inv: "held_ok tc cc s" and "slots s ! i = Some out"
  shows "slots s' ! i = Some out"
  using assms(1)
proof cases
  case (parsed t j ctx out' ctx')
  have "t < tc" "holds t (workers s ! t) = Some j" using parsed held_okD(1)[OF inv] by auto
  then have "slots s ! j = None" using held_okD(5)[OF inv] by blast
  with assms(3) have "i \<noteq> j" by auto
  with parsed assms(3) show ?thesis by (simp add: slot_set_def)
qed (use assms(3) in simp_all)

section \<open>Every run ends\<close>

definition rank :: "'c worker \<Rightarrow> nat" where
  "rank w = (case w of Waiting \<Rightarrow> 4 | Starting \<Rightarrow> 3 | Working _ _ \<Rightarrow> 2 | Claiming _ \<Rightarrow> 1 | _ \<Rightarrow> 0)"

text \<open>What a run has left: the spawns, the chunks nobody has claimed, and each worker's own steps.\<close>

definition pool_measure :: "nat \<Rightarrow> nat \<Rightarrow> ('c, 'o) pool \<Rightarrow> nat" where
  "pool_measure tc cc s = (case main_phase s of Spawning t \<Rightarrow> tc + 1 - t | Joining \<Rightarrow> 0) +
     3 * (cc - next_chunk s) + sum_list (map rank (workers s))"

lemma rank_update:
  assumes "t < length ws"
  shows "sum_list (map rank (ws[t := w])) + rank (ws ! t) = sum_list (map rank ws) + rank w"
proof -
  have "rank (ws ! t) \<le> sum_list (map rank ws)" using assms by (intro member_le_sum_list) auto
  then show ?thesis using assms by (simp add: map_update sum_list_update)
qed

lemma pool_decreases:
  assumes "pool_step mk proc tc cc s s'" and inv: "held_ok tc cc s" and "0 < tc"
  shows "pool_measure tc cc s' < pool_measure tc cc s"
proof -
  have len: "length (workers s) = tc" using held_okD(1)[OF inv] .
  note ru = rank_update[of _ "workers s"]
  from assms(1) show ?thesis
  proof cases
    case (spawned t)
    then have "workers s ! t = Waiting" using held_okD(7)[OF inv spawned(2)] by simp
    with spawned len ru[of t Starting] show ?thesis by (simp add: pool_measure_def rank_def)
  next
    case (spawn_failed t)
    then show ?thesis by (simp add: pool_measure_def)
  next
    case (main_starts t)
    have "workers s ! 0 = Waiting" using held_okD(7)[OF inv main_starts(2)] assms(3) by simp
    with main_starts len ru[of 0 Starting] assms(3) show ?thesis by (simp add: pool_measure_def rank_def)
  next
    case (opened t ctx)
    with ru[of t "Working t ctx"] show ?thesis by (simp add: pool_measure_def rank_def)
  next
    case (open_failed t e)
    with ru[of t "Broken e"] show ?thesis by (simp add: pool_measure_def rank_def)
  next
    case (parsed t i ctx out ctx')
    with ru[of t "Claiming ctx'"] show ?thesis by (simp add: pool_measure_def rank_def)
  next
    case (panicked t i ctx)
    with ru[of t Panicked] show ?thesis by (simp add: pool_measure_def rank_def)
  next
    case (claimed t ctx)
    show ?thesis
    proof (cases "cc \<le> next_chunk s")
      case True
      with claimed ru[of t Ended] show ?thesis by (simp add: pool_measure_def rank_def)
    next
      case False
      with claimed ru[of t "Working (next_chunk s) ctx"] show ?thesis by (simp add: pool_measure_def rank_def)
    qed
  qed
qed

text \<open>Before the threads are joined some step is possible.\<close>

lemma pool_progress:
  assumes inv: "held_ok tc cc s" and "\<not> joined s"
  shows "\<exists>s'. pool_step mk proc tc cc s s'"
proof (cases "main_phase s")
  case (Spawning t)
  show ?thesis
  proof (cases "t < tc")
    case True
    then show ?thesis using pool_step.spawned[of s t tc mk proc cc] Spawning by blast
  next
    case False
    then have "tc \<le> t" by simp
    then show ?thesis using pool_step.main_starts[of s t tc mk proc cc] Spawning by blast
  qed
next
  case Joining
  with assms(2) obtain w where "w \<in> set (workers s)" "\<not> terminal w"
    by (auto simp: joined_def list_all_iff)
  then obtain t where t: "t < length (workers s)" "\<not> terminal (workers s ! t)" by (auto simp: in_set_conv_nth)
  show ?thesis
  proof (cases "workers s ! t")
    case Starting
    show ?thesis
    proof (cases "mk t")
      case (Inl e)
      then show ?thesis using pool_step.open_failed[of t s mk e proc tc cc] t(1) Starting by blast
    next
      case (Inr ctx)
      then show ?thesis using pool_step.opened[of t s mk ctx proc tc cc] t(1) Starting by blast
    qed
  next
    case (Working i ctx)
    show ?thesis
    proof (cases "proc i ctx = None \<or> length (slots s) \<le> i")
      case True
      then show ?thesis using pool_step.panicked[of t s i ctx proc mk tc cc] t(1) Working by blast
    next
      case False
      then obtain out ctx' where p: "proc i ctx = Some (out, ctx')" "i < length (slots s)" by auto
      then show ?thesis using pool_step.parsed[of t s i ctx proc out ctx' mk tc cc] t(1) Working by blast
    qed
  next
    case (Claiming ctx)
    then show ?thesis using pool_step.claimed[of t s ctx mk proc tc cc] t(1) by blast
  qed (use t in \<open>auto simp: terminal_def\<close>)
qed

text \<open>So every run can be completed, within the measure of the start.\<close>

lemma pool_joins:
  assumes "0 < tc" and "held_ok tc cc s"
  shows "\<exists>s'. (pool_step mk proc tc cc)\<^sup>*\<^sup>* s s' \<and> joined s'"
  using assms(2)
proof (induction "pool_measure tc cc s" arbitrary: s rule: less_induct)
  case less
  show ?case
  proof (cases "joined s")
    case False
    with pool_progress[OF less.prems] obtain s1 where s1: "pool_step mk proc tc cc s s1" by blast
    from less.hyps[OF pool_decreases[OF s1 less.prems assms(1)] held_step[OF s1 less.prems assms(1)]] s1
    show ?thesis by (meson converse_rtranclp_into_rtranclp)
  qed blast
qed

lemma pool_bounded:
  assumes "0 < tc" and "(pool_step mk proc tc cc ^^ n) s s'" and "held_ok tc cc s"
  shows "n + pool_measure tc cc s' \<le> pool_measure tc cc s \<and> held_ok tc cc s'"
  using assms(2)
proof (induction n arbitrary: s')
  case 0
  with assms(3) show ?case by simp
next
  case (Suc n)
  then obtain s1 where s1: "(pool_step mk proc tc cc ^^ n) s s1" "pool_step mk proc tc cc s1 s'" by auto
  from Suc.IH[OF s1(1)] pool_decreases[OF s1(2) _ assms(1)] held_step[OF s1(2) _ assms(1)] show ?case by auto
qed

section \<open>The outputs do not depend on the interleaving\<close>

text \<open>Contexts that open and chunks that parse: \<open>good i out\<close> holds of every output of chunk \<open>i\<close> from a lawful context.\<close>

definition pool_ok ::
    "(nat \<Rightarrow> io_error + 'c) \<Rightarrow> (nat \<Rightarrow> 'c \<Rightarrow> ('o \<times> 'c) option) \<Rightarrow> nat \<Rightarrow> nat \<Rightarrow> ('c \<Rightarrow> bool) \<Rightarrow> (nat \<Rightarrow> 'o \<Rightarrow> bool) \<Rightarrow> bool" where
  "pool_ok mk proc tc cc cinv good \<longleftrightarrow>
     (\<forall>t<tc. \<exists>ctx. mk t = Inr ctx \<and> cinv ctx) \<and>
     (\<forall>i<cc. \<forall>ctx. cinv ctx \<longrightarrow> (\<exists>out ctx'. proc i ctx = Some (out, ctx') \<and> good i out \<and> cinv ctx'))"

definition outputs_ok :: "nat \<Rightarrow> nat \<Rightarrow> ('c \<Rightarrow> bool) \<Rightarrow> (nat \<Rightarrow> 'o \<Rightarrow> bool) \<Rightarrow> ('c, 'o) pool \<Rightarrow> bool" where
  "outputs_ok tc cc cinv good s \<longleftrightarrow>
     (\<forall>i<cc. \<forall>out. slots s ! i = Some out \<longrightarrow> good i out) \<and>
     (\<forall>t<tc. \<not> gave_up (workers s ! t) \<and> (\<forall>i ctx. workers s ! t = Working i ctx \<longrightarrow> cinv ctx) \<and>
        (\<forall>ctx. workers s ! t = Claiming ctx \<longrightarrow> cinv ctx))"

lemma outputs_step:
  assumes "pool_step mk proc tc cc s s'" and inv: "held_ok tc cc s" and out: "outputs_ok tc cc cinv good s"
    and ok: "pool_ok mk proc tc cc cinv good"
  shows "outputs_ok tc cc cinv good s'"
proof -
  have len: "length (workers s) = tc" "length (slots s) = cc" using held_okD(1,2)[OF inv] .
  have w: "\<not> gave_up (workers s ! t)" "workers s ! t = Working i ctx \<Longrightarrow> cinv ctx"
    "workers s ! t = Claiming ctx \<Longrightarrow> cinv ctx" if "t < tc" for t i ctx
    using out that unfolding outputs_ok_def by blast+
  have o: "i < cc \<Longrightarrow> slots s ! i = Some x \<Longrightarrow> good i x" for i x
    using out unfolding outputs_ok_def by blast
  define fit where "fit x \<longleftrightarrow> \<not> gave_up x \<and> (\<forall>i ctx. x = Working i ctx \<longrightarrow> cinv ctx) \<and>
      (\<forall>ctx. x = Claiming ctx \<longrightarrow> cinv ctx)" for x :: "'a worker"
  have replace: "\<forall>u<tc. fit ((workers s)[t := x] ! u)" if "fit x" for t x
  proof (intro allI impI)
    fix u assume "u < tc"
    then have "fit (workers s ! u)" using w[of u] by (auto simp: fit_def)
    with that \<open>u < tc\<close> len show "fit ((workers s)[t := x] ! u)" by (cases "u = t") auto
  qed
  have put: "outputs_ok tc cc cinv good s'"
    if "slots s' = slots s" "workers s' = (workers s)[t := x]" "fit x" for t x
    using o replace[OF that(3), of t] that(1,2) by (simp add: outputs_ok_def fit_def)
  from assms(1) show ?thesis
  proof cases
    case (spawned t)
    then show ?thesis by (intro put[of t Starting]) (simp_all add: fit_def)
  next
    case (spawn_failed t)
    with out show ?thesis by (simp add: outputs_ok_def)
  next
    case (main_starts t)
    then show ?thesis by (intro put[of 0 Starting]) (simp_all add: fit_def)
  next
    case (opened t ctx)
    with ok len have "cinv ctx" by (fastforce simp: pool_ok_def)
    with opened show ?thesis by (intro put[of t "Working t ctx"]) (simp_all add: fit_def)
  next
    case (open_failed t e)
    with ok len show ?thesis by (fastforce simp: pool_ok_def)
  next
    case (parsed t i ctx x ctx')
    have "cinv ctx" using w(2)[of t i ctx] parsed len by simp
    with ok parsed len have x: "good i x" "cinv ctx'" by (fastforce simp: pool_ok_def)+
    then have "\<forall>u<tc. fit ((workers s)[t := Claiming ctx'] ! u)" by (intro replace) (simp add: fit_def)
    moreover have "good j y" if "j < cc" "slot_set i x (slots s) ! j = Some y" for j y
      using that o x(1) len by (cases "j = i") (auto simp: slot_set_def)
    ultimately show ?thesis using parsed(1) by (simp add: outputs_ok_def fit_def)
  next
    case (panicked t i ctx)
    have "cinv ctx" using w(2)[of t i ctx] panicked len by simp
    moreover have "i < cc" using held_okD(5)[OF inv, of t i] panicked len by simp
    ultimately show ?thesis using ok panicked len by (fastforce simp: pool_ok_def)
  next
    case (claimed t ctx)
    have "cinv ctx" using w(3)[of t ctx] claimed len by simp
    with claimed show ?thesis
      by (intro put[of t "if cc \<le> next_chunk s then Ended else Working (next_chunk s) ctx"])
        (simp_all add: fit_def)
  qed
qed

lemma outputs_reachable:
  assumes "(pool_step mk proc tc cc)\<^sup>*\<^sup>* (pool_new tc cc) s" and tc: "0 < tc" "tc \<le> cc"
    and ok: "pool_ok mk proc tc cc cinv good"
  shows "held_ok tc cc s \<and> outputs_ok tc cc cinv good s"
  using assms(1)
proof induction
  case base
  show ?case using held_new[OF tc] tc by (auto simp: outputs_ok_def pool_new_def slot_new_def)
next
  case (step s1 s2)
  with held_step[OF step(2) _ tc(1)] outputs_step[OF step(2) _ _ ok] show ?case by blast
qed

lemma joined_outputs:
  assumes reach: "(pool_step mk proc tc cc)\<^sup>*\<^sup>* (pool_new tc cc) s" and tc: "0 < tc" "tc \<le> cc"
    and fin: "joined s" and ok: "pool_ok mk proc tc cc cinv good" and spawn: "spawn_error s = None"
  shows "(\<exists>outs. slots s = map Some outs \<and> length outs = cc \<and> (\<forall>i<cc. good i (outs ! i))) \<and> pool_errors s = [] \<and> Panicked \<notin> set (workers s)"
proof -
  have out: "held_ok tc cc s \<and> outputs_ok tc cc cinv good s" by (rule outputs_reachable[OF reach tc ok])
  then have len: "length (workers s) = tc" "length (slots s) = cc" using held_okD(1,2) by blast+
  have "\<not> gave_up w" if "w \<in> set (workers s)" for w
    using that out len by (auto simp: outputs_ok_def in_set_conv_nth)
  then have np: "Panicked \<notin> set (workers s)" and nb: "\<And>e. Broken e \<notin> set (workers s)"
    using gave_up_simps(6,7) by blast+
  have "(case w of Broken e \<Rightarrow> [e] | _ \<Rightarrow> []) = []" if "w \<in> set (workers s)" for w
    using nb that by (auto split: worker.splits)
  then have err: "pool_errors s = []" using spawn by (simp add: pool_errors_def)
  have written: "\<exists>x. slots s ! i = Some x \<and> good i x" if "i < cc" for i
    using joined_complete[OF reach tc fin err np that] out that by (auto simp: outputs_ok_def)
  let ?outs = "map the (slots s)"
  have "slots s = map Some ?outs" using written len by (intro nth_equalityI) fastforce+
  moreover have "\<forall>i<cc. good i (?outs ! i)" using written len by fastforce
  ultimately show ?thesis using err np len by (metis length_map)
qed

lemma never_panicked:
  assumes reach: "(pool_step mk proc tc cc)\<^sup>*\<^sup>* (pool_new tc cc) s" and tc: "0 < tc" "tc \<le> cc"
    and ok: "pool_ok mk proc tc cc cinv good"
  shows "Panicked \<notin> set (workers s)"
proof -
  have "held_ok tc cc s \<and> outputs_ok tc cc cinv good s" by (rule outputs_reachable[OF reach tc ok])
  then show ?thesis using held_okD(1) by (fastforce simp: outputs_ok_def in_set_conv_nth)
qed

text \<open>With any parser that keeps the scheduler's contract.\<close>

context speculative
begin

lemma pool_near:
  assumes c: "rs_config rs = c" and "rs_file_size rs = length input" and "set as \<subseteq> A"
    and last: "(rs_chunk_count rs - 1) * chunk_size c \<le> length input"
    and mk: "\<And>t. t < rs_thread_count rs \<Longrightarrow> \<exists>ctx. mk t = Inr ctx \<and> cinv ctx"
  shows "pool_ok mk (process_chunk X Q init rs as) (rs_thread_count rs) (rs_chunk_count rs) cinv
    (near_output D c acc init (chunk_size c) as input)"
proof -
  have le: "i * chunk_size c \<le> length input" if "i < rs_chunk_count rs" for i
  proof -
    have "i * chunk_size c \<le> (rs_chunk_count rs - 1) * chunk_size c"
      using that by (intro mult_le_mono1) simp
    with last show ?thesis by linarith
  qed
  show ?thesis unfolding pool_ok_def using mk process_chunk_near[OF _ c assms(2) le assms(3)] by simp
qed

end

context quiet_env
begin

text \<open>However the threads interleave, \<open>run_with\<close> returns what one thread would have returned, unless a
  spawn failed, which it reports.\<close>

lemma run_with_deterministic:
  assumes P: "P = dfa_chunk_parser_new le (rs_config rs)" and size: "rs_file_size rs = length input"
    and last: "(rs_chunk_count rs - 1) * chunk_size (rs_config rs) \<le> length input"
    and tc: "0 < rs_thread_count rs" "rs_thread_count rs \<le> rs_chunk_count rs"
    and as: "assumptions_for_config (quote (rs_config rs)) (escape (rs_config rs)) = Some as"
    and mk: "\<And>t. t < rs_thread_count rs \<Longrightarrow> \<exists>ctx. mk t = Inr ctx \<and> cinv ctx"
    and ctx: "make_ctx = Inr ctx" "cinv ctx"
    and run: "run_with_outcome X mk make_ctx (dfa_parser (io_reader X) V P acc) init rs as merge s res"
  shows "res = (case spawn_error s of
      None \<Rightarrow> run_with_one X make_ctx (dfa_parser (io_reader X) V P acc) init rs merge
    | Some e \<Rightarrow> Some (Inl (IO e)))"
proof -
  note ok = speculative.pool_near[OF dfa_speculative[of le "rs_config rs" acc init] refl size subset_UNIV last mk, where as = as, folded P]
  from run have reach: "(pool_step mk (process_chunk X (dfa_parser (io_reader X) V P acc) init rs as)
      (rs_thread_count rs) (rs_chunk_count rs))\<^sup>*\<^sup>* (pool_new (rs_thread_count rs) (rs_chunk_count rs)) s"
    and fin: "joined s" and res: "res = run_with_finish X make_ctx (dfa_parser (io_reader X) V P acc) init rs merge s"
    by (simp_all add: run_with_outcome_def)
  show ?thesis
  proof (cases "spawn_error s")
    case None
    from joined_outputs[OF reach tc fin ok None] obtain outs where outs: "slots s = map Some outs" "length outs = rs_chunk_count rs"
      "\<forall>i<rs_chunk_count rs. outs ! i = spec_output (rs_config rs) acc init (chunk_size (rs_config rs)) as input i"
      "pool_errors s = []" "Panicked \<notin> set (workers s)" by (auto simp: near_output_no_errors)
    then have "slots s = map (Some \<circ> spec_output (rs_config rs) acc init (chunk_size (rs_config rs)) as input) [0..<rs_chunk_count rs]"
      by (auto intro!: nth_equalityI)
    with outs(4,5) run_with_one_outputs[OF P size last _ as ctx, of acc init merge] tc size None
    show ?thesis by (simp add: res run_with_finish_def)
  next
    case (Some e)
    with never_panicked[OF reach tc ok] show ?thesis by (simp add: res run_with_finish_def pool_errors_def)
  qed
qed

end

text \<open>However the threads interleave, a parser that keeps the contract gives the sequential result, or an error of its
  own where the sequential parse has one too.\<close>

lemma speculative_run:
  assumes sp: "speculative X rinv unread cinv input Q c (collect :: (_, 'u) accumulator) [] D A"
    and D: "doomed c (collect :: (_, 'u) accumulator) input [] D" and A: "set as \<subseteq> A" "OutOfQuotes \<in> A"
    and c: "rs_config rs = c" and comment: "comment c = None" and cs: "0 < chunk_size c"
    and size: "rs_file_size rs = length input" and n: "input \<noteq> []"
    and count: "rs_chunk_count rs = div_ceil (length input) (chunk_size c)"
    and tc: "0 < rs_thread_count rs" "rs_thread_count rs \<le> rs_chunk_count rs" and "as \<noteq> []"
    and mk: "\<And>t. t < rs_thread_count rs \<Longrightarrow> \<exists>ctx. mk t = Inr ctx \<and> cinv ctx" and ctx: "make_ctx = Inr ctx" "cinv ctx"
    and B: "first_boundary c (take (chunk_size c) input) = Some B"
    and G: "boundaries_closed c (collect :: (_, 'u) accumulator) input [] G" "length input \<in> G" "B \<in> G"
    and cov: "covered G (length input) B (chunk_size c) 0
      (map (spec_output c (collect :: (_, 'u) accumulator) [] (chunk_size c) as input) [0..<rs_chunk_count rs])"
    and run: "run_with_outcome X mk make_ctx Q [] rs as concat s res"
  shows "case spawn_error s of
      None \<Rightarrow> \<exists>out. res = Some out \<and> same_or_failed D out (sequential c collect input [])
    | Some e \<Rightarrow> res = Some (Inl (IO e))"
proof -
  have last: "(rs_chunk_count rs - 1) * chunk_size c \<le> length input"
    using div_ceil_bounds(2)[OF cs, of "length input"] n unfolding count by simp
  note ok = speculative.pool_near[OF sp c size A(1) last mk]
  from run have reach: "(pool_step mk (process_chunk X Q [] rs as) (rs_thread_count rs) (rs_chunk_count rs))\<^sup>*\<^sup>*
      (pool_new (rs_thread_count rs) (rs_chunk_count rs)) s"
    and fin: "joined s" and res: "res = run_with_finish X make_ctx Q [] rs concat s"
    by (simp_all add: run_with_outcome_def)
  show ?thesis
  proof (cases "spawn_error s")
    case None
    from joined_outputs[OF reach tc fin ok None] obtain outs where outs: "slots s = map Some outs" "length outs = rs_chunk_count rs"
      "\<And>i. i < length outs \<Longrightarrow> near_output D c collect [] (chunk_size c) as input i (outs ! i)"
      "pool_errors s = []" "Panicked \<notin> set (workers s)" by auto
    have "faithful_reparse c (collect :: (_, 'u) accumulator) input [] D (reparse_chunk X make_ctx Q [] (length input))"
      by (rule speculative.reparse_near[OF sp ctx _ A(2)]) simp
    from outputs_merged[OF comment cs n _ \<open>as \<noteq> []\<close> B G _ outs(3) this D] cov outs(2) count
    show ?thesis using outs(1,4,5) None by (simp add: res run_with_finish_def c size)
  next
    case (Some e)
    with never_panicked[OF reach tc ok] show ?thesis by (simp add: res run_with_finish_def pool_errors_def)
  qed
qed

end
