(* ===== verification/Sessions.thy ===== *)
theory Sessions
  imports Workers
begin

text \<open>
  Whole runs on concrete backends: files read into memory or mapped, parsed by the DFA parser into the list
  of their records, on one thread or on any number; and inputs that show where the program does not do what
  sequential parsing does.
\<close>

section \<open>In-memory runs\<close>

abbreviation mem_ctx :: "byte list \<Rightarrow> io_error + Cursor InMemoryIo" where
  "mem_ctx input \<equiv> Inr (in_memory_io_new \<lparr>cur_data = input, cur_pos = 0\<rparr> (length input))"

abbreviation mem_run :: "bool \<Rightarrow> ResolvedConfig \<Rightarrow> byte list \<Rightarrow> ('u Error + byte list list list) option" where
  "mem_run le rs input \<equiv>
     run_with_one (in_memory_io_ops cursor_read cursor_seek) (mem_ctx input)
       (dfa_parser in_memory_ops validate_bytes (dfa_chunk_parser_new le (rs_config rs)) collect) [] rs concat"

abbreviation mem_run_outcome ::
    "bool \<Rightarrow> ResolvedConfig \<Rightarrow> Assumption list \<Rightarrow> byte list \<Rightarrow> (Cursor InMemoryIo, (byte list list list, 'u) ChunkOutput) pool
      \<Rightarrow> ('u Error + byte list list list) option \<Rightarrow> bool" where
  "mem_run_outcome le rs as input s res \<equiv>
     run_with_outcome (in_memory_io_ops cursor_read cursor_seek) (\<lambda>_. mem_ctx input) (mem_ctx input)
       (dfa_parser in_memory_ops validate_bytes (dfa_chunk_parser_new le (rs_config rs)) collect) [] rs as concat s res"

text \<open>The outputs of a single-threaded run, and the independence of the interleaving.\<close>

lemma mem_run_outputs:
  assumes "rs_file_size rs = length input" 
    and "(rs_chunk_count rs - 1) * chunk_size (rs_config rs) \<le> length input" and "0 < rs_chunk_count rs"
    and "assumptions_for_config (quote (rs_config rs)) (escape (rs_config rs)) = Some as"
  shows "(mem_run le rs input :: ('u Error + _) option) = collect_and_merge (chunk_size (rs_config rs)) concat
      (reparse_chunk (in_memory_io_ops cursor_read cursor_seek) (mem_ctx input)
        (dfa_parser in_memory_ops validate_bytes (dfa_chunk_parser_new le (rs_config rs)) collect) [] (length input))
      (map (Some \<circ> spec_output (rs_config rs) collect [] (chunk_size (rs_config rs)) as input)
        [0..<rs_chunk_count rs])"
proof -
  have X: "io_reader (in_memory_io_ops cursor_read cursor_seek) = in_memory_ops"
    by (simp add: in_memory_io_ops_def)
  have ctx: "in_memory_io_inv (\<lambda>c. cur_data c = input) input (in_memory_io_new \<lparr>cur_data = input, cur_pos = 0\<rparr> (length input))"
    by (simp add: in_memory_io_inv_def in_memory_io_new_def)
  show ?thesis
    using in_memory_run.run_with_one_outputs[OF refl assms(1-4) refl ctx] unfolding X .
qed

lemma mem_run_deterministic:
  assumes rs: "for_file h c (length input) = (Some (Inr rs) :: ('w Error + _) option)" and ne: "input \<noteq> []"
    and host: "0 < available_parallelism h"
    and as: "assumptions_for_config (quote c) (escape c) = Some as"
    and run: "mem_run_outcome le rs as input s (res :: ('u Error + _) option)"
  shows "res = (case spawn_error s of None \<Rightarrow> mem_run le rs input | Some e \<Rightarrow> Some (Inl (IO e)))"
proof -
  note r = for_file_dialect[OF rs]
  have n: "0 < length input" using ne by simp
  note dc = div_ceil_bounds[OF r(6), of "length input"]
  have last: "(rs_chunk_count rs - 1) * chunk_size (rs_config rs) \<le> length input"
    using dc(2)[OF n] r(8) by simp
  have count: "0 < rs_chunk_count rs" using dc(3) n r(8) by simp
  have ctx: "in_memory_io_inv (\<lambda>c. cur_data c = input) input (in_memory_io_new \<lparr>cur_data = input, cur_pos = 0\<rparr> (length input))"
    by (simp add: in_memory_io_inv_def in_memory_io_new_def)
  have X: "io_reader (in_memory_io_ops cursor_read cursor_seek) = in_memory_ops"
    by (simp add: in_memory_io_ops_def)
  show ?thesis
    using in_memory_run.run_with_deterministic[OF refl r(7) last _ _ _ _ refl ctx run[folded X]]
      resolve_thread_count_pos[OF count host] resolve_thread_count_le as r(3,4) ctx r(9)
    unfolding X by simp
qed

text \<open>Runs exist: every pool can be joined.\<close>

lemma for_file_threads:
  assumes rs: "for_file h c n = (Some (Inr rs) :: ('w Error + _) option)" and "0 < n" and "0 < available_parallelism h"
  shows "0 < rs_thread_count rs" and "rs_thread_count rs \<le> rs_chunk_count rs"
proof -
  note r = for_file_dialect[OF rs]
  have "0 < rs_chunk_count rs" using div_ceil_bounds(3)[OF r(6), of n] assms(2) r(8) by simp
  then show "0 < rs_thread_count rs" "rs_thread_count rs \<le> rs_chunk_count rs"
    using resolve_thread_count_pos[OF _ assms(3)] resolve_thread_count_le unfolding r(9) by blast+
qed

lemma for_file_chunk_size:
  assumes rs: "for_file h c n = (Some (Inr rs) :: ('w Error + _) option)" and "0 < chunk_size c"
  shows "chunk_size (rs_config rs) = chunk_size c"
  using assms by (auto simp: for_file_def resolve_chunk_size_def Let_def split: sum.splits)

lemma run_exists:
  assumes "for_file h c n = (Some (Inr rs) :: ('w Error + _) option)" and "0 < n" and "0 < available_parallelism h"
  shows "\<exists>s res. run_with_outcome X mk make_ctx P init rs as merge s res"
  using pool_joins[OF for_file_threads(1)[OF assms] held_new[OF for_file_threads[OF assms]],
      of mk "process_chunk X P init rs as"]
  unfolding run_with_outcome_def by blast

lemma mem_run_exists:
  assumes "for_file h c (length input) = (Some (Inr rs) :: ('w Error + _) option)" and "input \<noteq> []"
    and "0 < available_parallelism h"
  shows "\<exists>s (res :: ('u Error + _) option). mem_run_outcome le rs as input s res"
  by (rule run_exists[OF assms(1) _ assms(3)]) (simp add: assms(2))

lemma first_boundary_le: "first_boundary c (take n bs) = Some B \<Longrightarrow> B \<le> length bs"
  using search_run_bounds(1)[of c False 0 "take n bs" RecordStart B]
  by (auto simp: first_boundary_def split: if_splits search.splits)

text \<open>A host for the examples.\<close>

definition demo_host :: Host where
  "demo_host = \<lparr>little_endian = True, target_apple = False, target_unix = True, allocation_granularity = 4096,
     available_parallelism = 4, total_ram = None\<rparr>"

section \<open>Mapped runs\<close>

abbreviation map_ctx :: "byte list \<Rightarrow> io_error + MmapFile" where
  "map_ctx input \<equiv> mmap_open (\<lambda>_. Inr ()) input"

abbreviation map_run_outcome ::
    "bool \<Rightarrow> ResolvedConfig \<Rightarrow> Assumption list \<Rightarrow> byte list \<Rightarrow> (MmapFile, (byte list list list, 'u) ChunkOutput) pool
      \<Rightarrow> ('u Error + byte list list list) option \<Rightarrow> bool" where
  "map_run_outcome le rs as input s res \<equiv>
     run_with_outcome (mmap_io_ops (Inr ())) (\<lambda>_. map_ctx input) (map_ctx input)
       (dfa_parser mmap_reader_ops validate_bytes (dfa_chunk_parser_new le (rs_config rs)) collect) [] rs as concat s res"

abbreviation map_run :: "bool \<Rightarrow> ResolvedConfig \<Rightarrow> byte list \<Rightarrow> ('u Error + byte list list list) option" where
  "map_run le rs input \<equiv>
     run_with_one (mmap_io_ops (Inr ())) (map_ctx input)
       (dfa_parser mmap_reader_ops validate_bytes (dfa_chunk_parser_new le (rs_config rs)) collect) [] rs concat"

lemma map_ctx_ok: "input \<noteq> [] \<Longrightarrow> map_ctx input = Inr \<lparr>mf_file = input, mf_view = input\<rparr>"
  "input \<noteq> [] \<Longrightarrow> mmap_inv input \<lparr>mf_file = input, mf_view = input\<rparr>"
  by (simp_all add: mmap_open_def mmap_inv_def)

lemma map_run_deterministic:
  assumes rs: "for_file h c (length input) = (Some (Inr rs) :: ('w Error + _) option)" and ne: "input \<noteq> []"
    and host: "0 < available_parallelism h"
    and as: "assumptions_for_config (quote c) (escape c) = Some as"
    and run: "map_run_outcome le rs as input s (res :: ('u Error + _) option)"
  shows "res = (case spawn_error s of None \<Rightarrow> map_run le rs input | Some e \<Rightarrow> Some (Inl (IO e)))"
proof -
  note r = for_file_dialect[OF rs]
  have n: "0 < length input" using ne by simp
  note dc = div_ceil_bounds[OF r(6), of "length input"]
  have last: "(rs_chunk_count rs - 1) * chunk_size (rs_config rs) \<le> length input"
    using dc(2)[OF n] r(8) by simp
  have count: "0 < rs_chunk_count rs" using dc(3) n r(8) by simp
  have X: "io_reader (mmap_io_ops (Inr ())) = mmap_reader_ops" by (simp add: mmap_io_ops_def)
  show ?thesis
    using mmap_run.run_with_deterministic[OF refl r(7) last _ _ _ _ map_ctx_ok[OF ne] run[folded X]]
      resolve_thread_count_pos[OF count host] resolve_thread_count_le as r(3,4) map_ctx_ok[OF ne] r(9)
    unfolding X by simp
qed

section \<open>Failing reads\<close>

text \<open>A source every read of which fails.\<close>

definition broken_read :: "io_error \<Rightarrow> Cursor read_fn" where
  "broken_read e n s = (Inl e, s)"

abbreviation broken_io :: "nat \<Rightarrow> io_error \<Rightarrow> ((LinearBuf, Cursor) RingBufIo, (LinearBuf, Cursor) RingBufChunkReader) io_ops" where
  "broken_io g e \<equiv> ring_io_ops (linear_ops g) (broken_read e) cursor_seek"

definition fresh_ring :: "(LinearBuf, Cursor) RingBufIo \<Rightarrow> bool" where
  "fresh_ring ctx \<longleftrightarrow> 0 < length (l_buf (ri_buf ctx)) \<and> 0 < ri_file_size ctx \<and> 0 < ri_read_cap ctx"

text \<open>The header scan of such a chunk fails with the read's error, under every assumption.\<close>

lemma broken_fill:
  assumes "0 < length (l_buf b)" and "l_head b = 0" and "l_tail b = 0" and "0 < k" and "0 < cap"
  shows "\<exists>b'. r_fill (ring_reader_ops (linear_ops g) (broken_read e)) 1 (ring_reader_new b s (Some k) rem cap) =
      (Inl e, ring_reader_new b' s (Some k) rem cap) \<and> length (l_buf b') = length (l_buf b)"
proof -
  obtain sl b' where u: "linear_unused_mut b = (sl, b')" by fastforce
  then have b': "length sl = length (l_buf b)" "length (l_buf b') = length (l_buf b)"
    using assms(1-3) by (auto simp: linear_unused_mut_def linear_defs Let_def split: if_splits)
  have "read_into_buf (linear_ops g) (broken_read e) (ring_reader_new b s (Some k) rem cap) =
      (Inl e, ring_reader_new b' s (Some k) rem cap)"
    using assms(1,4,5) b' u by (simp add: read_into_buf_def ring_reader_new_def linear_ops_def broken_read_def Let_def)
  moreover have "grow_if_full (linear_ops g) (ring_reader_new b s (Some k) rem cap) =
      (Inr (), ring_reader_new b s (Some k) rem cap)"
    using assms(1-3) by (simp add: grow_if_full_def ring_reader_new_def linear_ops_def linear_defs)
  moreover have "op_readable (linear_ops g) (rb_buf (ring_reader_new b s (Some k) rem cap)) = 0"
    "rb_file_remaining (ring_reader_new b s (Some k) rem cap) = Some k"
    using assms(2,3) by (simp_all add: ring_reader_new_def linear_ops_def linear_defs)
  ultimately have "fill_loop (linear_ops g) (broken_read e) (Suc 0) 1 (ring_reader_new b s (Some k) rem cap) =
      (Inl e, ring_reader_new b' s (Some k) rem cap)"
    using assms(4) by (simp only: fill_loop.simps) simp
  then have "r_fill (ring_reader_ops (linear_ops g) (broken_read e)) 1 (ring_reader_new b s (Some k) rem cap) =
      (Inl e, ring_reader_new b' s (Some k) rem cap)"
    by (simp only: ring_reader_ops_def ring_fill_def reader_ops.simps One_nat_def)
  with b'(2) show ?thesis by blast
qed

lemma broken_header_scan:
  assumes "fresh_ring ctx"
  shows "\<exists>r r'. io_open (broken_io g e) 0 ce ctx = Some (Inr r) \<and>
    chunk_parse (io_reader (broken_io g e))
      (dfa_parser (ring_reader_ops (linear_ops g) (broken_read e)) V P acc) init a SkipHeaders r =
        Some (failed (IO e), r') \<and>
    fresh_ring (io_release (broken_io g e) ctx r')"
proof -
  let ?R = "ring_reader_ops (linear_ops g) (broken_read e)"
  let ?b = "linear_reset (ri_buf ctx)" and ?s = "(ri_src ctx)\<lparr>cur_pos := 0\<rparr>"
  define r where "r = ring_reader_new ?b ?s (Some (ri_file_size ctx)) ce (ri_read_cap ctx)"
  have op: "io_open (broken_io g e) 0 ce ctx = Some (Inr r)"
    by (simp add: ring_io_ops_def ring_io_open_def cursor_seek_def linear_ops_def r_def)
  from broken_fill[of ?b "ri_file_size ctx" "ri_read_cap ctx" g e ?s ce] assms obtain b' where
    b': "r_fill ?R 1 r = (Inl e, ring_reader_new b' ?s (Some (ri_file_size ctx)) ce (ri_read_cap ctx))"
    "length (l_buf b') = length (l_buf ?b)"
    by (auto simp: fresh_ring_def linear_reset_def r_def)
  have "chunk_parse ?R (dfa_parser ?R V P acc) init a SkipHeaders r =
      Some (failed (IO e), ring_reader_new b' ?s (Some (ri_file_size ctx)) ce (ri_read_cap ctx))"
    using b'(1) by (simp add: chunk_parse_def cp_scan_def dfa_parser_def dfa_scan_header_end_def
        find_record_start_from.simps[of ?R _ _ _ _ _ r])
  moreover have "fresh_ring (io_release (broken_io g e) ctx
      (ring_reader_new b' ?s (Some (ri_file_size ctx)) ce (ri_read_cap ctx)))"
    using assms b'(2) by (simp add: fresh_ring_def ring_io_ops_def ring_reader_new_def linear_reset_def)
  moreover have "io_reader (broken_io g e) = ?R" by (simp add: ring_io_ops_def)
  ultimately show ?thesis using op by metis
qed

lemma broken_try:
  assumes "fresh_ring ctx"
  shows "\<exists>ctx'. try_loop (broken_io g e) (dfa_parser (ring_reader_ops (linear_ops g) (broken_read e)) V P acc)
    init 0 ce SkipHeaders as [] None False ctx = Some (AllFailed, ctx') \<and> fresh_ring ctx'"
  using assms
proof (induction as arbitrary: ctx)
  case Nil
  then show ?case by (simp add: try_finish_def)
next
  case (Cons a as)
  from broken_header_scan[OF Cons.prems, of g e ce V P acc init a] obtain r r' where
    r: "io_open (broken_io g e) 0 ce ctx = Some (Inr r)"
    "chunk_parse (io_reader (broken_io g e))
      (dfa_parser (ring_reader_ops (linear_ops g) (broken_read e)) V P acc) init a SkipHeaders r =
        Some (failed (IO e), r')" "fresh_ring (io_release (broken_io g e) ctx r')"
    by blast
  from Cons.IH[OF r(3)] r(1,2) show ?case by (simp add: failed_def Let_def)
qed

text \<open>So the only chunk of a headered file has no pass, and the merge takes that for an empty chunk.\<close>

lemma broken_run:
  assumes "fresh_ring ctx" and "has_headers (rs_config rs)" and "rs_chunk_count rs = 1"
    and as: "assumptions_for_config (quote (rs_config rs)) (escape (rs_config rs)) = Some as"
  shows "run_with_one (broken_io g e) (Inr ctx)
      (dfa_parser (ring_reader_ops (linear_ops g) (broken_read e)) V P acc) init rs merge = Some (Inr (merge []))"
proof -
  from broken_try[OF assms(1), of g e V P acc init "min (chunk_size (rs_config rs)) (rs_file_size rs)" as]
  obtain ctx' where "process_chunk (broken_io g e)
      (dfa_parser (ring_reader_ops (linear_ops g) (broken_read e)) V P acc) init rs as 0 ctx =
        Some (empty_output, ctx')"
    using assms(2) by (auto simp: process_chunk_def try_assumptions_def find_mode_def Let_def)
  then have "work_loop (broken_io g e) (dfa_parser (ring_reader_ops (linear_ops g) (broken_read e)) V P acc)
      init rs as 0 1 ctx [slot_new] = Some [Some empty_output]"
    using assms(3) by (simp add: work_loop.simps slot_set_def)
  with as assms(3) show ?thesis
    by (simp add: run_with_one_def collect_and_merge_def empty_output_def)
qed

end
