(* ===== verification/Queues.thy ===== *)
theory Queues
  imports Mirrored
begin

text \<open>
  Histories of a ring buffer (src/src/io/ringbuf/buf): any sequence of writes, consumptions, growths and
  resets that a caller may issue, run on a buffer and on the byte queue it stands for. Both
  implementations follow the queue, so they can stand in for each other.
\<close>

datatype buf_op = Write "byte list" | Consume nat | Grow | Reset

text \<open>One operation the way the reader issues it: fill part of \<open>unused_mut\<close> and \<open>produce\<close> that much.
  \<open>None\<close> is a caller that breaks an operation's \<open>debug_assert\<close>, or a growth that was refused.\<close>

definition buf_apply :: "'b buf_ops \<Rightarrow> buf_op \<Rightarrow> 'b \<Rightarrow> 'b option" where
  "buf_apply B act b = (case act of
       Write xs \<Rightarrow> (let (sl, b') = op_unused_mut B b
          in if length xs \<le> length sl then Some (op_produce B (length xs) (op_write_unused B xs b')) else None)
     | Consume n \<Rightarrow> if n \<le> op_readable B b then Some (op_consume B n b) else None
     | Grow \<Rightarrow> (case op_grow B b of (Inr _, b') \<Rightarrow> Some b' | (Inl _, b') \<Rightarrow> None)
     | Reset \<Rightarrow> Some (op_reset B b))"

fun buf_run :: "'b buf_ops \<Rightarrow> buf_op list \<Rightarrow> 'b \<Rightarrow> 'b option" where
  "buf_run B [] b = Some b"
| "buf_run B (act # acts) b = Option.bind (buf_apply B act b) (buf_run B acts)"

fun queue_apply :: "buf_op \<Rightarrow> byte list \<Rightarrow> byte list" where
  "queue_apply (Write xs) q = q @ xs"
| "queue_apply (Consume n) q = drop n q"
| "queue_apply Grow q = q"
| "queue_apply Reset q = []"

context byte_buffer
begin

lemma buf_apply_queue:
  assumes "binv b" and "buf_apply B act b = Some b'"
  shows "binv b' \<and> op_data B b' = queue_apply act (op_data B b) \<and> op_readable B b' \<le> op_capacity B b'"
proof -
  have "binv b' \<and> op_data B b' = queue_apply act (op_data B b)"
  proof (cases act)
    case (Write xs)
    obtain sl b1 where u: "op_unused_mut B b = (sl, b1)" by fastforce
    from assms(2) Write u unused_mut[OF assms(1) u] have "length xs \<le> op_writable B b"
      "b' = op_produce B (length xs) (op_write_unused B xs b1)"
      by (auto simp: buf_apply_def split: if_splits)
    with produce[OF assms(1) u] Write show ?thesis by simp
  next
    case (Consume n)
    with assms(2) consume[OF assms(1), of n] show ?thesis by (auto simp: buf_apply_def split: if_splits)
  next
    case Grow
    then obtain r where "op_grow B b = (r, b')"
      using assms(2) by (auto simp: buf_apply_def split: prod.splits sum.splits)
    with grow[OF assms(1)] Grow show ?thesis by simp
  next
    case Reset
    with assms(2) reset[OF assms(1)] show ?thesis by (simp add: buf_apply_def)
  qed
  with room[of b'] show ?thesis by auto
qed

lemma buf_run_queue:
  "binv b \<Longrightarrow> buf_run B acts b = Some b' \<Longrightarrow> binv b' \<and> op_data B b' = fold queue_apply acts (op_data B b)"
proof (induction acts arbitrary: b)
  case (Cons act acts)
  then obtain b1 where b1: "buf_apply B act b = Some b1" "buf_run B acts b1 = Some b'"
    by (auto simp: bind_eq_Some_conv)
  with Cons.IH[of b1] buf_apply_queue[OF Cons.prems(1) b1(1)] show ?case by simp
qed simp

end

end
