(* ===== verification/Streams.thy ===== *)
theory Streams
  imports Sessions
begin

text \<open>
  \<open>run_stream_inner\<close> (src/src/scheduler/mod.rs): the one chunk of a stream has no end, so its pass is the
  sequential parse of everything the source still holds. The lemmas show that a chunk limit past the end
  of the input has no effect, and that the stream path over any lawful buffer and source returns the
  sequential result or an I/O error of the source or the buffer. \<open>Patchy\<close> is a source with short reads and errors,
  a further instance of the contract of \<open>std::io::Read\<close>.
\<close>

section \<open>A limit past the end\<close>

lemma spec_run_unlimited:
  assumes "p + length bs \<le> L" and "L \<le> L'"
  shows "spec_run c acc L' p bs m = spec_run c acc L p bs m"
  using assms(1)
proof (induction bs arbitrary: p m)
  case (Cons b bs)
  show ?case
  proof (cases "spec_byte c acc L p b m")
    case (Running m')
    with Cons spec_byte_limit(1)[OF assms(2) Running] show ?thesis by simp
  next
    case (Finished e s)
    then have "L \<le> p" by (auto simp: spec_byte_def Let_def enter_def split: if_splits State.splits sum.splits)
    with Cons.prems show ?thesis by simp
  next
    case (Failed err)
    with spec_byte_limit(2)[OF assms(2) Failed] show ?thesis by simp
  qed
qed simp

lemma spec_pass_unlimited:
  fixes acc :: "('s, 'u) accumulator"
  assumes "length bs \<le> rem"
  shows "spec_pass c acc a mode rem bs s = spec_pass c acc a mode (length bs) bs s"
proof -
  have scan: "spec_scan c a mode rem bs = (spec_scan c a mode (length bs) bs :: 'u Error + _)"
    using assms by (simp add: spec_scan_def split: FindRecordStart.split)
  have body: "spec_body c acc rem bs start s = spec_body c acc (length bs) bs start s" if "start \<le> length bs" for start
  proof -
    have run: "terminator_run (terminator c) (drop start bs) \<le> length bs - start"
      using terminator_run_le[of "terminator c" "drop start bs"] by simp
    then have sk: "skip_spec (terminator c) (rem - start) (drop start bs) =
        skip_spec (terminator c) (length bs - start) (drop start bs)"
      using assms by (simp add: skip_spec_def Let_def)
    have "spec_parse c acc rem (start + k) (drop (start + k) bs) s =
        spec_parse c acc (length bs) (start + k) (drop (start + k) bs) s" if "start + k \<le> length bs" for k
      using spec_run_unlimited[OF _ assms, of "start + k" "drop (start + k) bs" c acc] that
      by (simp add: spec_parse_def spec_rest_def)
    with run that show ?thesis
      unfolding spec_body_def sk by (auto simp: skip_spec_def Let_def)
  qed
  have "start \<le> length bs" if "spec_scan c a mode (length bs) bs = (Inr (Some start) :: 'u Error + _)" for start
    by (rule spec_scan_le[OF that])
  with body show ?thesis
    by (auto simp: spec_pass_def scan split: sum.splits option.splits)
qed

lemma stream_buffer_size_pos: "0 < buffer_size (stream_ring_settings h c)"
  by (simp add: stream_ring_settings_def unbacked_ring_settings_def resolve_ringbuf_settings_def
      resolve_buffer_size_def default_ring_settings_def RING_BUFFER_SIZE_def APPLE_RING_BUFFER_SIZE_def
      MANY_THREADS_RING_BUFFER_SIZE_def Let_def split: option.split)

section \<open>The stream path\<close>

context ring_reader
begin

lemma run_stream_ok:
  fixes acc :: "('st, 'u) accumulator"
  assumes new: "\<And>cap lim b. op_new B cap lim = Inr b \<Longrightarrow> binv b \<and> op_data B b = []"
    and src: "sinv src" and size: "length (content src) \<le> USIZE_MAX"
  shows "\<exists>res. run_stream_inner h B rd (dfa_parser (ring_reader_ops B rd) validate_bytes (dfa_chunk_parser_new le c) acc)
      c src init merge = Some res \<and>
    (res = (case sequential c acc (content src) init of Inl e \<Rightarrow> Inl e | Inr s \<Rightarrow> Inr (merge [s])) \<or>
     (\<exists>e cap lim. op_new B cap lim = Inl e \<and> res = Inl (IO e)) \<or> read_failed (ring_reader_ops B rd) (ring_inv binv sinv) res)"
proof (cases "op_new B (buffer_size (stream_ring_settings h c)) (buffer_limit (stream_ring_settings h c))")
  case (Inl e)
  moreover from this have "run_stream_inner h B rd P c src init merge = Some (Inl (IO e))" for P :: "(_, 'st, 'u) chunk_parser"
    by (simp add: run_stream_inner_def Let_def)
  ultimately show ?thesis by blast
next
  case (Inr b)
  let ?r = "ring_reader_new b src None USIZE_MAX (buffer_size (stream_ring_settings h c))"
  let ?R = "ring_reader_ops B rd" and ?mode = "if has_headers c then SkipHeaders else FindNo"
  have inv: "ring_inv binv sinv ?r"
    using new[OF Inr] src stream_buffer_size_pos by (simp add: ring_inv_def ring_reader_new_def)
  have st: "reader.stream ?r = content src" and rem: "r_remaining ?R ?r = USIZE_MAX"
    unfolding reader.stream_def using new[OF Inr]
    by (simp_all add: ring_reader_ops_def ring_reader_new_def ring_unread_def)
  from ring_bytes.pass_ok[OF inv refl, of le c acc init OutOfQuotes ?mode] obtain pr r' where
    pr: "chunk_parse ?R (dfa_parser ?R validate_bytes (dfa_chunk_parser_new le c) acc) init OutOfQuotes ?mode ?r = Some (pr, r')"
    and res: "pr = spec_pass c acc OutOfQuotes ?mode USIZE_MAX (content src) init \<or>
      (\<exists>err. result pr = Inl err \<and> (reader.fill_failed err \<or> ring_bytes.utf8_failed c OutOfQuotes ?mode USIZE_MAX (content src) err))"
    unfolding st rem by blast
  have no: "\<not> ring_bytes.utf8_failed c OutOfQuotes ?mode rem bs err" for err :: "'u Error" and rem bs
    by (simp add: ring_bytes.utf8_failed_def)
  have pass: "result (spec_pass c acc OutOfQuotes ?mode USIZE_MAX (content src) init) = sequential c acc (content src) init"
    unfolding sequential_def spec_pass_unlimited[OF size, of c acc OutOfQuotes ?mode init] ..
  have run: "run_stream_inner h B rd (dfa_parser ?R validate_bytes (dfa_chunk_parser_new le c) acc) c src init merge =
      Some (case result pr of Inl e \<Rightarrow> Inl e | Inr s \<Rightarrow> Inr (merge [s]))"
    using pr by (simp add: run_stream_inner_def Inr Let_def split: sum.split)
  from res show ?thesis
  proof
    assume "pr = spec_pass c acc OutOfQuotes ?mode USIZE_MAX (content src) init"
    then show ?thesis unfolding run using pass by simp
  next
    assume "\<exists>err. result pr = Inl err \<and> (reader.fill_failed err \<or> ring_bytes.utf8_failed c OutOfQuotes ?mode USIZE_MAX (content src) err)"
    then have "read_failed ?R (ring_inv binv sinv) (result pr)" using no reader.read_failed_iff by blast
    then show ?thesis unfolding run by (auto simp: read_failed_def)
  qed
qed

end

section \<open>A source with short reads and errors\<close>

text \<open>Every call of \<open>read\<close> follows the next line of a script: an error, after which nothing is read, or at most that
  many bytes and one more. After the script it delivers what is asked for.\<close>

record Patchy =
  pa_rest :: "byte list"
  pa_script :: "(io_error + nat) list"

definition patchy_read :: "Patchy read_fn" where
  "patchy_read n s = (case pa_script s of
       [] \<Rightarrow> (Inr (take n (pa_rest s)), s\<lparr>pa_rest := drop n (pa_rest s)\<rparr>)
     | Inl e # sc \<Rightarrow> (Inl e, s\<lparr>pa_script := sc\<rparr>)
     | Inr k # sc \<Rightarrow> (Inr (take (min n (k + 1)) (pa_rest s)), \<lparr>pa_rest = drop (min n (k + 1)) (pa_rest s), pa_script = sc\<rparr>))"

interpretation patchy: byte_source patchy_read pa_rest "\<lambda>_. True"
  by unfold_locales (auto simp: patchy_read_def split: list.splits sum.splits)

interpretation mirrored_patchy: ring_reader "mirrored_ops g os" "mirrored_inv g" patchy_read pa_rest "\<lambda>_. True" for g os
  by (intro ring_reader.intro mirrored.byte_buffer_axioms patchy.byte_source_axioms)

text \<open>A reader of \<open>n\<close> bytes on such a source, behind a doubly mapped buffer \<open>b\<close> of eight bytes.\<close>

abbreviation patchy_ops :: "(MirroredBuf, Patchy) RingBufChunkReader reader_ops" where
  "patchy_ops \<equiv> ring_reader_ops (mirrored_ops 8 (\<lambda>_. Inr ())) patchy_read"

abbreviation patchy_reader :: "MirroredBuf \<Rightarrow> byte list \<Rightarrow> (io_error + nat) list \<Rightarrow> nat \<Rightarrow> (MirroredBuf, Patchy) RingBufChunkReader" where
  "patchy_reader b bs sc n \<equiv> ring_reader_new b \<lparr>pa_rest = bs, pa_script = sc\<rparr> None n 8"

lemma patchy_start:
  obtains b where "mirrored_new 8 (\<lambda>_. Inr ()) 8 None = Inr b"
    "\<And>bs sc n. ring_inv (mirrored_inv 8) (\<lambda>_. True) (patchy_reader b bs sc n)"
    "\<And>bs sc n. r_buffer patchy_ops (patchy_reader b bs sc n) @ ring_unread pa_rest (patchy_reader b bs sc n) = bs"
    "\<And>bs sc n. r_remaining patchy_ops (patchy_reader b bs sc n) = n"
proof -
  obtain b where b: "mirrored_new 8 (\<lambda>_. Inr ()) 8 None = Inr b"
    by (simp add: mirrored_new_def checked_capacity_def over_def map_double_def next_power_of_two_exact[of 3, simplified] result_simps Let_def)
  from mirrored_new_ok[OF b, of 3] have "mirrored_inv 8 b" "mirrored_data b = []" by simp_all
  with b that show ?thesis
    by (simp add: ring_inv_def ring_reader_new_def ring_reader_ops_def mirrored_ops_def ring_unread_def)
qed

lemma patchy_laws: "chunk_reader patchy_ops (ring_inv (mirrored_inv 8) (\<lambda>_. True)) (ring_unread pa_rest)"
  by (rule mirrored_patchy.reader.chunk_reader_axioms)

end
