(* ===== verification/RoundTrip.thy ===== *)
theory RoundTrip
  imports Streams
begin

text \<open>
  A printer for the dialects of the parser (every field quoted, every quote and escape byte inside a
  field escaped, every line ended by the terminator), and the proof that parsing what it prints gives
  the records back, whatever bytes their fields hold.
\<close>

section \<open>The printer\<close>

definition escaped :: "byte \<Rightarrow> byte \<Rightarrow> byte list \<Rightarrow> byte list" where
  "escaped q e bs = concat (map (\<lambda>b. if b = q \<or> b = e then [e, b] else [b]) bs)"

fun joined_by :: "byte \<Rightarrow> byte list list \<Rightarrow> byte list" where
  "joined_by d [] = []"
| "joined_by d [x] = x"
| "joined_by d (x # xs) = x @ d # joined_by d xs"

definition line_end :: "RecordTerminator \<Rightarrow> byte list" where
  "line_end t = (case t of Byte b \<Rightarrow> [b] | CRLF \<Rightarrow> [CR, LF])"

definition render_record :: "Config \<Rightarrow> byte \<Rightarrow> byte \<Rightarrow> byte list list \<Rightarrow> byte list" where
  "render_record c q e fs = joined_by (delimiter c) (map (\<lambda>f. q # escaped q e f @ [q]) fs) @ line_end (terminator c)"

definition render_records :: "Config \<Rightarrow> byte \<Rightarrow> byte \<Rightarrow> byte list list list \<Rightarrow> byte list" where
  "render_records c q e recs = concat (map (render_record c q e) recs)"

section \<open>Parsing what was printed\<close>

lemma spec_byte_elsewhere:
  "m_state m \<noteq> RecordStart \<Longrightarrow> spec_byte c acc L p b m =
    (let t = transition (dfa_new True c) (m_state m) b in enter c acc L p (next_state t) (copy_byte t b m))"
  by (simp add: spec_byte_def mark_start_def)

text \<open>The dialects that can print any field: a quote and an escape, validated.\<close>

definition printable :: "Config \<Rightarrow> byte \<Rightarrow> byte \<Rightarrow> bool" where
  "printable c q e \<longleftrightarrow> dialect_ok c \<and> quote c = Some q \<and> escape c = Some e"

lemma quoted_cells:
  assumes "printable c q e"
  shows "transition (dfa_new True c) FieldStart q = transition_new InQuotedField False"
    and "transition (dfa_new True c) RecordStart q = transition_new InQuotedField False"
    and "b \<noteq> q \<Longrightarrow> b \<noteq> e \<Longrightarrow> transition (dfa_new True c) InQuotedField b = transition_new InQuotedField True"
    and "e \<noteq> q \<Longrightarrow> transition (dfa_new True c) InQuotedField e = transition_new InEscapedQuote False"
    and "transition (dfa_new True c) InEscapedQuote b = transition_new InQuotedField True"
    and "transition (dfa_new True c) InQuotedField q = transition_new AfterClosingQuote False"
    and "e = q \<Longrightarrow> transition (dfa_new True c) AfterClosingQuote q = transition_new InQuotedField True"
    and "transition (dfa_new True c) AfterClosingQuote (delimiter c) = transition_new FieldEnd False"
    and "is_terminator (terminator c) b \<Longrightarrow> transition (dfa_new True c) AfterClosingQuote b = transition_new RecordEnd False"
  using assms
  by (auto simp: printable_def dialect_ok_def apart_def transition_def dfa_new_def field_start_cell_def
      in_quoted_cell_def after_closing_cell_def record_start_cell_def doubled_quotes_def)

lemma content_run:
  assumes "printable c q e" and "m_state m = InQuotedField"
  shows "spec_run c acc L p (escaped q e bs) m = Running (m\<lparr>m_cur := m_cur m @ bs\<rparr>)"
  using assms(2)
proof (induction bs arbitrary: p m)
  case Nil
  then show ?case by (simp add: escaped_def)
next
  case (Cons b bs)
  note cells = quoted_cells[OF assms(1)]
  define m1 where "m1 = m\<lparr>m_cur := m_cur m @ [b]\<rparr>"
  have m1: "m_state m1 = InQuotedField" "m1\<lparr>m_cur := m_cur m1 @ bs\<rparr> = m\<lparr>m_cur := m_cur m @ b # bs\<rparr>"
    by (simp_all add: m1_def Cons.prems)
  have stay: "m\<lparr>m_state := InQuotedField\<rparr> = m" using Cons.prems by simp
  have plain: "spec_byte c acc L p b m = Running m1" if "b \<noteq> q" "b \<noteq> e"
    using that stay cells(3)[of b]
    by (simp add: spec_byte_elsewhere Cons.prems enter_def copy_byte_def m1_def)
  have pair: "spec_run c acc L p [e, b] m = Running m1" if "b = q \<or> b = e"
  proof (cases "e = q")
    case True
    with that Cons.prems cells(6,7) show ?thesis
      by (simp add: spec_byte_elsewhere enter_def copy_byte_def m1_def)
  next
    case False
    with that Cons.prems cells(4,5) show ?thesis
      by (simp add: spec_byte_elsewhere enter_def copy_byte_def m1_def)
  qed
  have esc: "escaped q e (b # bs) = (if b = q \<or> b = e then [e, b] else [b]) @ escaped q e bs"
    by (simp add: escaped_def)
  show ?case
    unfolding esc spec_run_append m1(2)[symmetric]
    using plain pair Cons.IH[OF m1(1)] by simp
qed

text \<open>A printed field, wherever a field may start.\<close>

lemma field_run:
  assumes "printable c q e" and "m_state m = FieldStart \<or> m_state m = RecordStart" and "m_cur m = []"
  shows "\<exists>m'. spec_run c acc L p (q # escaped q e bs @ [q]) m = Running m' \<and> m_state m' = AfterClosingQuote \<and>
    m_cur m' = bs \<and> m_fields m' = m_fields m \<and> m_acc m' = m_acc m"
proof -
  note cells = quoted_cells[OF assms(1)]
  have q: "\<not> is_terminator (terminator c) q" using assms(1) by (auto simp: printable_def dialect_ok_def)
  obtain m1 where m1: "spec_byte c acc L p q m = Running m1" "m_state m1 = InQuotedField" "m_cur m1 = []"
    "m_fields m1 = m_fields m" "m_acc m1 = m_acc m"
    using assms(2,3) q cells(1,2)
    by (auto simp: spec_byte_def enter_def copy_byte_def mark_start_def)
  have "spec_run c acc L (Suc p) (escaped q e bs) m1 = Running (m1\<lparr>m_cur := bs\<rparr>)"
    using content_run[OF assms(1) m1(2)] m1(3) by simp
  then show ?thesis
    using m1 cells(6)
    by (simp add: spec_run_append spec_byte_elsewhere enter_def copy_byte_def)
qed

lemma spec_run_split:
  "spec_run c acc L p xs m = Running m1 \<Longrightarrow> spec_byte c acc L (p + length xs) b m1 = Running m2 \<Longrightarrow>
    spec_run c acc L p (xs @ b # ys) m = spec_run c acc L (p + length xs + 1) ys m2"
  by (simp add: spec_run_append)

lemma fields_run:
  assumes "printable c q e" and "fs \<noteq> []" and "m_state m = FieldStart \<or> m_state m = RecordStart" and "m_cur m = []"
  shows "\<exists>m'. spec_run c acc L p (joined_by (delimiter c) (map (\<lambda>f. q # escaped q e f @ [q]) fs)) m = Running m' \<and>
    m_state m' = AfterClosingQuote \<and> closed_fields c m' = m_fields m @ map (trimmed c) fs \<and> m_acc m' = m_acc m"
  using assms(2-)
proof (induction fs arbitrary: p m rule: induct_list012)
  case (2 f)
  from field_run[OF assms(1) 2(2,3), of acc L p f] show ?case by (auto simp: closed_fields_def)
next
  case (3 f g fs)
  let ?f = "q # escaped q e f @ [q]" and ?rest = "joined_by (delimiter c) (map (\<lambda>f. q # escaped q e f @ [q]) (g # fs))"
  from field_run[OF assms(1) 3(4,5), of acc L p f] obtain m1 where
    m1: "spec_run c acc L p ?f m = Running m1" "m_state m1 = AfterClosingQuote" "m_cur m1 = f"
    "m_fields m1 = m_fields m" "m_acc m1 = m_acc m"
    by blast
  let ?m2 = "m1\<lparr>m_fields := closed_fields c m1, m_cur := [], m_fld_start := p + length ?f + 1, m_state := FieldStart\<rparr>"
  have m2: "spec_byte c acc L (p + length ?f) (delimiter c) m1 = Running ?m2"
    using quoted_cells(8)[OF assms(1)] m1(2) by (simp add: spec_byte_elsewhere enter_def copy_byte_def)
  from 3(2)[of ?m2 "p + length ?f + 1"] obtain m' where
    m': "spec_run c acc L (p + length ?f + 1) ?rest ?m2 = Running m'" "m_state m' = AfterClosingQuote"
    "closed_fields c m' = closed_fields c m1 @ map (trimmed c) (g # fs)" "m_acc m' = m_acc m1"
    by auto
  have txt_eq: "joined_by (delimiter c) (map (\<lambda>f. q # escaped q e f @ [q]) (f # g # fs)) = ?f @ delimiter c # ?rest"
    by simp
  have "spec_run c acc L p (?f @ delimiter c # ?rest) m = Running m'"
    unfolding spec_run_split[OF m1(1) m2] by (rule m'(1))
  with m' m1 show ?case unfolding txt_eq by (simp add: closed_fields_def)
qed simp

text \<open>A printed line.\<close>

lemma record_run:
  assumes "printable c q e" and "fs \<noteq> []" and "field_count c = None \<or> field_count c = Some (length fs)"
    and "m_state m = RecordStart" and "m_cur m = []" and "m_fields m = []" and "p + length (render_record c q e fs) \<le> L"
  shows "\<exists>m'. spec_run c (collect :: (_, 'u) accumulator) L p (render_record c q e fs) m = Running m' \<and> m_state m' = RecordStart \<and>
    m_cur m' = [] \<and> m_fields m' = [] \<and> m_acc m' = m_acc m @ [map (trimmed c) fs]"
proof -
  let ?fields = "joined_by (delimiter c) (map (\<lambda>f. q # escaped q e f @ [q]) fs)" and ?acc = "collect :: (_, 'u) accumulator"
  from fields_run[OF assms(1,2) _ assms(5), of ?acc L p] assms(4,6) obtain m1 where
    m1: "spec_run c ?acc L p ?fields m = Running m1" "m_state m1 = AfterClosingQuote"
    "closed_fields c m1 = map (trimmed c) fs" "m_acc m1 = m_acc m"
    by auto
  define p1 where "p1 = p + length ?fields"
  have p1: "p1 + length (line_end (terminator c)) \<le> L" using assms(7) by (simp add: render_record_def p1_def)
  have hand: "hand_over c ?acc m1 = Inr (m_acc m @ [map (trimmed c) fs])"
    using assms(3) m1(3,4) by (auto simp: hand_over_def collect_def)
  define m2 where "m2 = m1\<lparr>m_fields := [], m_cur := [], m_fld_start := p1 + 1, m_last_end := Some p1,
    m_acc := m_acc m @ [map (trimmed c) fs], m_state := RecordStart\<rparr>"
  have nl: "spec_byte c ?acc L p1 b m1 = Running m2" if "is_terminator (terminator c) b" "p1 < L" for b
    using quoted_cells(9)[OF assms(1) that(1)] m1(2) hand that(2)
    by (simp add: spec_byte_elsewhere enter_def copy_byte_def m2_def)
  have lf: "spec_byte c ?acc L (Suc p1) LF m2 = Running m2" if "terminator c = CRLF" "Suc p1 < L"
    using that by (simp add: spec_byte_def m2_def enter_def copy_byte_def mark_start_def transition_def dfa_new_def
        record_start_cell_def is_terminator_def)
  have "spec_run c ?acc L p1 (line_end (terminator c)) m1 = Running m2"
    using p1 nl lf by (cases "terminator c") (simp_all add: line_end_def is_terminator_def)
  with m1(1) have "spec_run c ?acc L p (render_record c q e fs) m = Running m2"
    by (simp add: render_record_def spec_run_append p1_def)
  then show ?thesis by (simp add: m2_def)
qed

lemma records_run:
  assumes "printable c q e" and "\<forall>fs\<in>set recs. fs \<noteq> [] \<and> (field_count c = None \<or> field_count c = Some (length fs))"
    and "m_state m = RecordStart" and "m_cur m = []" and "m_fields m = []" and "p + length (render_records c q e recs) \<le> L"
  shows "\<exists>m'. spec_run c (collect :: (_, 'u) accumulator) L p (render_records c q e recs) m = Running m' \<and> m_state m' = RecordStart \<and>
    m_acc m' = m_acc m @ map (map (trimmed c)) recs"
  using assms(2-)
proof (induction recs arbitrary: p m)
  case Nil
  then show ?case by (simp add: render_records_def)
next
  case (Cons fs recs)
  let ?acc = "collect :: (_, 'u) accumulator" and ?line = "render_record c q e fs"
  have txt_eq: "render_records c q e (fs # recs) = ?line @ render_records c q e recs" by (simp add: render_records_def)
  have len: "p + length ?line \<le> L" "p + length ?line + length (render_records c q e recs) \<le> L"
    using Cons.prems(5) unfolding txt_eq by simp_all
  from record_run[OF assms(1) _ _ Cons.prems(2-4) len(1), where 'u = 'u] Cons.prems(1) obtain m1 where
    m1: "spec_run c ?acc L p ?line m = Running m1" "m_state m1 = RecordStart" "m_cur m1 = []" "m_fields m1 = []"
    "m_acc m1 = m_acc m @ [map (trimmed c) fs]"
    by auto
  from Cons.IH[OF _ m1(2-4) len(2)] Cons.prems(1) m1(5) show ?case
    unfolding txt_eq by (simp add: spec_run_append m1(1))
qed

lemma parse_printed:
  assumes "printable c q e" and "\<forall>fs\<in>set recs. fs \<noteq> [] \<and> (field_count c = None \<or> field_count c = Some (length fs))"
    and "\<not> has_headers c"
  shows "sequential c collect (render_records c q e recs) [] = (Inr (map (map (trimmed c)) recs) :: 'u Error + _)"
proof -
  let ?acc = "collect :: (_, 'u) accumulator" and ?bs = "render_records c q e recs"
  have "sequential c ?acc ?bs [] = outcome_of (segment c ?acc ?bs [] 0 (length ?bs))"
    by (rule sequential_segment[where cs = 0]) (simp_all add: first_boundary_def assms(3))
  moreover obtain m' where "spec_run c ?acc (length ?bs) 0 ?bs (spec_init 0 []) = Running m'" "m_state m' = RecordStart"
    "m_acc m' = map (map (trimmed c)) recs"
    using records_run[OF assms(1,2), of "spec_init 0 []" 0 "length ?bs"] by (auto simp: spec_init_def)
  then have "segment c ?acc ?bs [] 0 (length ?bs) = Inr (m_last_end m', map (map (trimmed c)) recs)"
    by (simp add: segment_def spec_parse_def spec_rest_def spec_finish_def)
  ultimately show ?thesis by (simp add: outcome_of_def)
qed

end
