(* ===== verification/Arity.thy ===== *)
theory Arity
  imports DfaChunk
begin

text \<open>
  The arity check of the stepper (src/src/parser/dfa/stepper.rs) comes before the accumulator: with a field
  count \<open>n\<close> in the configuration, two accumulators that agree on records of \<open>n\<close> fields give the same
  step, the same driver run and the same chunk parser, over every reader and however the input is cut.
\<close>

definition agree_on :: "nat \<Rightarrow> ('s, 'u) accumulator \<Rightarrow> ('s, 'u) accumulator \<Rightarrow> bool" where
  "agree_on n acc acc' \<longleftrightarrow> (\<forall>s fs. length fs = n \<longrightarrow> acc s fs = acc' s fs)"

section \<open>The stepper\<close>

lemma emit_record_agree:
  assumes "agree_on n acc acc'" and "expected_fields st = Some n"
  shows "emit_record acc buf s st = emit_record acc' buf s st"
  using assms by (auto simp: emit_record_def check_arity_def agree_on_def Let_def split: sum.splits)

lemma emit_record_expected:
  "emit_record acc buf s st = (r, st') \<Longrightarrow> expected_fields st' = expected_fields st"
  by (auto simp: emit_record_def split: sum.splits)

lemma keep_expected [simp]:
  "expected_fields (stepper_resume st) = expected_fields st"
  "expected_fields (stepper_suspend st) = expected_fields st"
  "expected_fields (push_field buf st) = expected_fields st"
  "expected_fields (start_field_at tot pos st) = expected_fields st"
  "expected_fields (dfa_consume n st) = expected_fields st"
  "expected_fields (snd (copy_out t b pos buf st)) = expected_fields st"
  by (simp_all add: stepper_resume_def stepper_suspend_def push_field_def start_field_at_def dfa_consume_def
      copy_out_def Let_def split: prod.split)

lemma scan_head_expected:
  "scan_head buf pos e rem tot st = (brk, pos', buf', st') \<Longrightarrow> expected_fields st' = expected_fields st"
  by (auto simp: scan_head_def scan_run_def Let_def split: State.splits if_splits)

lemma apply_action_agree:
  assumes "agree_on n acc acc'" and "expected_fields st = Some n"
  shows "apply_action acc act buf pos rem tot s st = apply_action acc' act buf pos rem tot s st"
    and "apply_action acc act buf pos rem tot s st = (r, s', st') \<Longrightarrow> expected_fields st' = Some n"
proof -
  let ?st1 = "start_field_at tot pos (push_field buf st)"
  have e: "expected_fields ?st1 = Some n" using assms(2) by simp
  note eq = emit_record_agree[OF assms(1) e, of buf s]
  show "apply_action acc act buf pos rem tot s st = apply_action acc' act buf pos rem tot s st"
    unfolding apply_action_def Let_def eq ..
  show "apply_action acc act buf pos rem tot s st = (r, s', st') \<Longrightarrow> expected_fields st' = Some n"
    using e emit_record_expected[of acc buf s ?st1]
    by (auto simp: apply_action_def Let_def split: if_splits prod.splits sum.splits)
qed

lemma step_loop_agree:
  assumes "agree_on n acc acc'" and "expected_fields st = Some n"
  shows "step_loop acc e rem tot buf pos s st = step_loop acc' e rem tot buf pos s st \<and>
    (\<forall>res buf' s' st'. step_loop acc e rem tot buf pos s st = (res, buf', s', st') \<longrightarrow> expected_fields st' = Some n)"
  using assms(2)
proof (induction "e - pos" arbitrary: buf pos s st rule: less_induct)
  case less
  note unf = step_loop.simps[of _ e rem tot buf pos s st]
  show ?case
  proof (cases "pos < e")
    case False
    then show ?thesis using less.prems by (simp add: unf Let_def)
  next
    case True
    obtain brk pos1 buf1 st1 where h: "scan_head buf pos e rem tot st = (brk, pos1, buf1, st1)" by (metis prod_cases4)
    have st1: "expected_fields st1 = Some n" using scan_head_expected[OF h] less.prems by simp
    show ?thesis
    proof (cases "brk = None \<and> pos1 < e")
      case False
      then show ?thesis using True h st1 by (auto simp: unf Let_def split: option.split)
    next
      case go: True
      define t where "t = transition (s_dfa st1) (dfa_state st1) (buf1 ! pos1)"
      define buf2 where "buf2 = fst (copy_out t (buf1 ! pos1) pos1 buf1 st1)"
      define st2 where "st2 = snd (copy_out t (buf1 ! pos1) pos1 buf1 st1)"
      have st2: "expected_fields st2 = Some n" by (simp add: st2_def st1)
      have step: "step_loop ac e rem tot buf pos s st =
          (if next_raw t < FIRST_ACTION then step_loop ac e rem tot buf2 (pos1 + 1) s (st2\<lparr>dfa_state := next_state t\<rparr>)
           else (case apply_action ac (next_raw t) buf2 (pos1 + 1) rem tot s st2 of
               (Inl res, s', st3) \<Rightarrow> (res, buf2, s', st3)
             | (Inr _, s', st3) \<Rightarrow> step_loop ac e rem tot buf2 (pos1 + 1) s' st3))" for ac
        unfolding unf t_def buf2_def st2_def using True go h by (simp add: Let_def)
      have smaller: "e - (pos1 + 1) < e - pos" using scan_head_mono'[OF h] True go by auto
      note ap = apply_action_agree[OF assms(1) st2, of "next_raw t" buf2 "pos1 + 1" rem tot s]
      show ?thesis
      proof (cases "next_raw t < FIRST_ACTION")
        case True
        then show ?thesis
          unfolding step using less.hyps[OF smaller, of "st2\<lparr>dfa_state := next_state t\<rparr>" buf2 s] st2 by simp
      next
        case False
        obtain r s' st3 where a: "apply_action acc (next_raw t) buf2 (pos1 + 1) rem tot s st2 = (r, s', st3)"
          by (metis prod_cases3)
        show ?thesis
          unfolding step ap(1)[symmetric] a
          using False ap(2)[OF a] less.hyps[OF smaller ap(2)[OF a], of buf2 s'] by (cases r) simp_all
      qed
    qed
  qed
qed

lemma dfa_step_agree:
  assumes "agree_on n acc acc'" and "expected_fields st = Some n"
  shows "dfa_step acc ctx s st = dfa_step acc' ctx s st"
    and "dfa_step acc ctx s st = (res, buf', s', st') \<Longrightarrow> expected_fields st' = Some n"
  using step_loop_agree[OF assms(1), of "stepper_resume st"] assms(2) by (simp_all add: dfa_step_def)

lemma dfa_finalize_agree:
  assumes "agree_on n acc acc'" and "expected_fields st = Some n"
  shows "dfa_finalize acc ctx s st = dfa_finalize acc' ctx s st"
  using emit_record_agree[OF assms(1), of "push_field (ctx_buf ctx) (stepper_resume st)"] assms(2)
  by (simp add: dfa_finalize_def)

section \<open>The driver\<close>

lemma driver_loop_agree_imp:
  assumes "driver_loop R V T acc d lre r st s = Some y"
  shows "T = dfa_stepper_ops \<longrightarrow> agree_on n acc acc' \<longrightarrow> expected_fields st = Some n \<longrightarrow>
    driver_loop R V T acc' d lre r st s = Some y"
proof (rule driver_loop.raw_induct[OF _ assms, where P = "\<lambda>R V T acc d lre r st s y.
    T = dfa_stepper_ops \<longrightarrow> agree_on n acc acc' \<longrightarrow> expected_fields st = Some n \<longrightarrow>
    driver_loop R V T acc' d lre r st s = Some y"], intro impI)
  fix loop R V T acc d lre r st s y
  assume hyp: "\<And>R V T acc d lre r st s y. loop R V T acc d lre r st s = Some y \<Longrightarrow>
      T = dfa_stepper_ops \<longrightarrow> agree_on n acc acc' \<longrightarrow> expected_fields st = Some n \<longrightarrow>
      driver_loop R V T acc' d lre r st s = Some y"
    and body: "(case r_fill R (validated d + 4) r of
        (Inl e, r1) \<Rightarrow> Some (Inl (IO e), r1)
      | (Inr _, r1) \<Rightarrow>
          (case validate_fresh V (r_buffer R r1) d of
             Inl e \<Rightarrow> Some (Inl e, r1)
           | Inr d1 \<Rightarrow>
               if validated d1 \<le> validated d then Some (driver_finish R T acc d1 lre r1 st s, r1)
               else (case st_step T acc (driver_ctx R d1 r1) s st of
                   (Done e, buf, s', st') \<Rightarrow> Some (Inr (Some e, s'), r_set_buffer R buf r1)
                 | (StepError e, buf, s', st') \<Rightarrow> Some (Inl e, r_set_buffer R buf r1)
                 | (Suspended resume used lre', buf, s', st') \<Rightarrow>
                     if 0 < used
                     then loop R V T acc (driver_advance resume used d1) lre'
                            (r_consume R used (r_set_buffer R buf r1)) (st_consume T used st') s'
                     else loop R V T acc (driver_advance resume 0 d1) lre' (r_set_buffer R buf r1) st' s'))) = Some y"
    and T: "T = dfa_stepper_ops" and agree: "agree_on n acc acc'" and st: "expected_fields st = Some n"
  note IH = hyp[rule_format, OF _ T agree]
  obtain o1 r1 where f: "r_fill R (validated d + 4) r = (o1, r1)" by fastforce
  have unf: "driver_loop R V T acc' d lre r st s = (case validate_fresh V (r_buffer R r1) d of
      Inl e \<Rightarrow> Some (Inl e, r1)
    | Inr d1 \<Rightarrow>
        if validated d1 \<le> validated d then Some (driver_finish R T acc' d1 lre r1 st s, r1)
        else (case st_step T acc' (driver_ctx R d1 r1) s st of
            (Done e, buf, s', st') \<Rightarrow> Some (Inr (Some e, s'), r_set_buffer R buf r1)
          | (StepError e, buf, s', st') \<Rightarrow> Some (Inl e, r_set_buffer R buf r1)
          | (Suspended resume used lre', buf, s', st') \<Rightarrow>
              if used > 0
              then driver_loop R V T acc' (driver_advance resume used d1) lre'
                     (r_consume R used (r_set_buffer R buf r1)) (st_consume T used st') s'
              else driver_loop R V T acc' (driver_advance resume 0 d1) lre' (r_set_buffer R buf r1) st' s'))"
    if "o1 = Inr ()"
    using f that by (subst driver_loop.simps) simp
  have fin: "driver_finish R T acc' d1 lre r1 st s = driver_finish R T acc d1 lre r1 st s" for d1
    using dfa_finalize_agree[OF agree st] T by (simp add: driver_finish_def dfa_stepper_ops_def)
  have step: "st_step T acc' ctx s st = st_step T acc ctx s st" for ctx
    using dfa_step_agree(1)[OF agree st] T by (simp add: dfa_stepper_ops_def)
  have keep: "expected_fields st' = Some n" "expected_fields (st_consume T k st') = Some n"
    if "st_step T acc ctx s st = (res, buf, s', st')" for ctx res buf s' st' k
    using dfa_step_agree(2)[OF agree st] that T by (simp_all add: dfa_stepper_ops_def)
  show "driver_loop R V T acc' d lre r st s = Some y"
  proof (cases o1)
    case (Inl e)
    with f body show ?thesis by (subst driver_loop.simps) simp
  next
    case (Inr u)
    then have o1: "o1 = Inr ()" by simp
    show ?thesis
      unfolding unf[OF o1] fin step using body f o1
      by (auto split: sum.splits if_splits prod.splits StepResult.splits intro: IH keep)
  qed
qed

lemma driver_loop_agree:
  assumes "agree_on n acc acc'" and "expected_fields st = Some n"
  shows "driver_loop R V dfa_stepper_ops acc d lre r st s = driver_loop R V dfa_stepper_ops acc' d lre r st s"
proof -
  have flipped: "agree_on n acc' acc" using assms(1) by (simp add: agree_on_def)
  show ?thesis
    using driver_loop_agree_imp[rule_format, OF _ refl assms] driver_loop_agree_imp[rule_format, OF _ refl flipped assms(2)]
    by (metis option.exhaust)
qed

lemma dfa_parser_agree:
  assumes "agree_on n acc acc'" and "field_count c = Some n"
  shows "dfa_parser R V (dfa_chunk_parser_new le c) acc = dfa_parser R V (dfa_chunk_parser_new le c) acc'"
  using driver_loop_agree[OF assms(1), of _ R V] assms(2)
  by (simp add: dfa_parser_def dfa_parse_from_def fun_eq_iff driver_run_def dfa_chunk_parser_new_def stepper_new_def)

end
