(* ===== verification/Api.thy ===== *)
theory Api
  imports Streams Arity
begin

text \<open>
  src/src/builder.rs, src/src/parser/api.rs and the entry points of src/src/scheduler/mod.rs: the builder, the
  twelve parse methods (fixed arity or variadic, text or bytes, file, stream or slice) and the choice of
  parser and I/O backend. The SIMD parser is an argument, a family of chunk parsers for the three kinds
  of readers, and so are the operating system's answers.
\<close>

section \<open>The builder\<close>

text \<open>The type parameters of \<open>ParserBuilder\<close> are phantoms; what the methods change is the configuration.\<close>

definition builder_new :: Config where
  "builder_new = default_config"
definition builder_variadic :: "Config \<Rightarrow> Config" where
  "builder_variadic c = c"
definition builder_flexible :: "Config \<Rightarrow> Config" where
  "builder_flexible c = c\<lparr>flexible := True\<rparr>"
definition builder_bytes :: "Config \<Rightarrow> Config" where
  "builder_bytes c = c"
definition builder_delimiter :: "byte \<Rightarrow> Config \<Rightarrow> Config" where
  "builder_delimiter d c = c\<lparr>delimiter := d\<rparr>"
definition builder_terminator :: "RecordTerminator \<Rightarrow> Config \<Rightarrow> Config" where
  "builder_terminator t c = c\<lparr>terminator := t\<rparr>"
definition builder_quote :: "byte option \<Rightarrow> Config \<Rightarrow> Config" where
  "builder_quote q c = c\<lparr>quote := q\<rparr>"
definition builder_escape :: "byte option \<Rightarrow> Config \<Rightarrow> Config" where
  "builder_escape e c = c\<lparr>escape := e\<rparr>"
definition builder_quote_handling :: "QuoteHandling \<Rightarrow> Config \<Rightarrow> Config" where
  "builder_quote_handling h c = c\<lparr>quote_handling := h\<rparr>"
definition builder_comment :: "byte option \<Rightarrow> Config \<Rightarrow> Config" where
  "builder_comment k c = c\<lparr>comment := k\<rparr>"
definition builder_has_headers :: "bool \<Rightarrow> Config \<Rightarrow> Config" where
  "builder_has_headers b c = c\<lparr>has_headers := b\<rparr>"
definition builder_trim :: "bool \<Rightarrow> Config \<Rightarrow> Config" where
  "builder_trim b c = c\<lparr>trim := b\<rparr>"
definition builder_parser_backend :: "ParserBackend \<Rightarrow> Config \<Rightarrow> Config" where
  "builder_parser_backend p c = c\<lparr>parser_backend := p\<rparr>"
definition builder_io_backend :: "IoBackend \<Rightarrow> Config \<Rightarrow> Config" where
  "builder_io_backend b c = c\<lparr>io_backend := b\<rparr>"
definition builder_concurrency :: "nat \<Rightarrow> Config \<Rightarrow> Config" where
  "builder_concurrency n c = c\<lparr>concurrency := n\<rparr>"
definition builder_chunk_size :: "nat \<Rightarrow> Config \<Rightarrow> Config" where
  "builder_chunk_size n c = c\<lparr>chunk_size := n\<rparr>"
definition builder_io_buffer_limit :: "nat option \<Rightarrow> Config \<Rightarrow> Config" where
  "builder_io_buffer_limit l c = c\<lparr>io_buffer_limit := l\<rparr>"

text \<open>\<open>field_count\<close> is known at parse time only, so the SIMD check assumes one field.\<close>

definition supports_backend :: "Config \<Rightarrow> ParserBackend \<Rightarrow> string + unit" where
  "supports_backend c p = (case p of
       ParserAuto \<Rightarrow> Inr ()
     | Dfa_Backend \<Rightarrow> dfa_supports c
     | Simd_Backend \<Rightarrow> simd_supports (c\<lparr>field_count := Some (case field_count c of Some n \<Rightarrow> n | None \<Rightarrow> 1)\<rparr>))"

definition try_from_config :: "output_ops \<Rightarrow> Config \<Rightarrow> 'u Error + Config" where
  "try_from_config enc c = try_bind (validate c) (\<lambda>_.
     try_bind (if requires_ascii_control_bytes enc then validate_ascii_control_bytes c else Inr ()) (\<lambda>_. Inr c))"

definition try_build_text :: "Config \<Rightarrow> 'u Error + Config" where
  "try_build_text c = try_from_config text_output c"
definition try_build_bytes :: "Config \<Rightarrow> 'u Error + Config" where
  "try_build_bytes c = try_from_config bytes_output c"

text \<open>\<open>build\<close> and \<open>Parser::new\<close>: \<open>None\<close> is the panic of \<open>expect\<close>.\<close>

definition build_text :: "Config \<Rightarrow> Config option" where
  "build_text c = (case try_build_text c :: unit Error + Config of Inr p \<Rightarrow> Some p | Inl _ \<Rightarrow> None)"
definition build_bytes :: "Config \<Rightarrow> Config option" where
  "build_bytes c = (case try_build_bytes c :: unit Error + Config of Inr p \<Rightarrow> Some p | Inl _ \<Rightarrow> None)"
definition parser_new :: "Config option" where
  "parser_new = (case try_from_config text_output default_config :: unit Error + Config of Inr p \<Rightarrow> Some p | Inl _ \<Rightarrow> None)"

section \<open>Arity\<close>

definition arity_config :: "nat \<Rightarrow> Config \<Rightarrow> Config" where
  "arity_config n c = c\<lparr>field_count := Some n\<rparr>"

text \<open>\<open>None\<close> is the failed \<open>assert_eq!\<close>. An accumulator of arrays is lifted to slices; \<open>panic\<close> stands for
  whatever an unwinding assertion would leave behind.\<close>

definition fields_as_array :: "nat \<Rightarrow> byte list list \<Rightarrow> byte list list option" where
  "fields_as_array n fs = (if length fs = n then Some fs else None)"

definition acc_slice :: "'u boxed_error + 's \<Rightarrow> nat \<Rightarrow> ('s, 'u) accumulator \<Rightarrow> ('s, 'u) accumulator" where
  "acc_slice panic n acc s fs = (case fields_as_array n fs of Some arr \<Rightarrow> acc s arr | None \<Rightarrow> panic)"

section \<open>Entry points of the scheduler\<close>

text \<open>What the code takes from its surroundings: the host, the ring buffer implementation, the file (its
  size, an open handle and how it reads and seeks, its bytes for a mapping, the answers to \<open>mmap\<close>
  and \<open>madvise\<close>).\<close>

record ('b, 'src) file_env =
  fe_host :: Host
  fe_buf :: "'b buf_ops"
  fe_size :: "io_error + nat"
  fe_open :: "io_error + 'src"
  fe_read :: "'src read_fn"
  fe_seek :: "nat \<Rightarrow> 'src \<Rightarrow> io_error + 'src"
  fe_bytes :: "byte list"
  fe_mmap :: "nat \<Rightarrow> io_error + unit"
  fe_madvise :: "io_error + unit"

text \<open>A chunk parser for each kind of reader: \<open>ChunkParser\<close> is generic in the reader.\<close>

record ('b, 'src, 's, 'u) parser_family =
  for_mmap :: "Config \<Rightarrow> (MmapChunkReader, 's, 'u) chunk_parser"
  for_memory :: "Config \<Rightarrow> (InMemoryChunkReader, 's, 'u) chunk_parser"
  for_ring :: "Config \<Rightarrow> (('b, 'src) RingBufChunkReader, 's, 'u) chunk_parser"

definition dfa_family ::
    "Host \<Rightarrow> 'b buf_ops \<Rightarrow> 'src read_fn \<Rightarrow> output_ops \<Rightarrow> ('s, 'u) accumulator \<Rightarrow> ('b, 'src, 's, 'u) parser_family" where
  "dfa_family h B rd enc acc = (let new = dfa_chunk_parser_new (little_endian h); V = validate_chunk enc in \<lparr>
     for_mmap = (\<lambda>c. dfa_parser mmap_reader_ops V (new c) acc),
     for_memory = (\<lambda>c. dfa_parser in_memory_ops V (new c) acc),
     for_ring = (\<lambda>c. dfa_parser (ring_reader_ops B rd) V (new c) acc)\<rparr>)"

text \<open>\<open>run_with\<close> on a context; the panic of \<open>assumptions_for_config\<close> is the outcome \<open>None\<close>.\<close>

definition run_with ::
    "('c, 'r) io_ops \<Rightarrow> io_error + 'c \<Rightarrow> ('r, 's, 'u) chunk_parser \<Rightarrow> 's \<Rightarrow> ResolvedConfig \<Rightarrow> ('s list \<Rightarrow> 'res)
      \<Rightarrow> ('u Error + 'res) option \<Rightarrow> bool" where
  "run_with X make_ctx P init rs merge res \<longleftrightarrow>
     (case assumptions_for_config (quote (rs_config rs)) (escape (rs_config rs)) of
        None \<Rightarrow> res = None
      | Some as \<Rightarrow> \<exists>s. run_with_outcome X (\<lambda>_. make_ctx) make_ctx P init rs as merge s res)"

text \<open>\<open>dispatch\<close>: the family of the resolved parser backend. \<open>None\<close> is the \<open>unreachable!\<close>.\<close>

definition dispatch ::
    "('b, 'src, 's, 'u) parser_family \<Rightarrow> ('b, 'src, 's, 'u) parser_family \<Rightarrow> ResolvedConfig
      \<Rightarrow> ('b, 'src, 's, 'u) parser_family option" where
  "dispatch dfa simd rs = (case rs_parser_backend rs of
       Dfa_Backend \<Rightarrow> Some dfa | Simd_Backend \<Rightarrow> Some simd | ParserAuto \<Rightarrow> None)"

definition dispatch_io ::
    "('b, 'src) file_env \<Rightarrow> ('b, 'src, 's, 'u) parser_family \<Rightarrow> 's \<Rightarrow> ResolvedConfig \<Rightarrow> ('s list \<Rightarrow> 'res)
      \<Rightarrow> ('u Error + 'res) option \<Rightarrow> bool" where
  "dispatch_io env F init rs merge res = (case rs_io_backend rs of
       Mmap \<Rightarrow>
         (if target_unix (fe_host env)
          then run_with (mmap_io_ops (fe_madvise env))
            (try_bind (fe_open env) (\<lambda>_. mmap_open (fe_mmap env) (take (rs_file_size rs) (fe_bytes env))))
            (for_mmap F (rs_config rs)) init rs merge res
          else res = Some (Inl (IO (Unsupported ''IoBackend::Mmap is not supported on this platform''))))
     | RingBuf settings \<Rightarrow> run_with (ring_io_ops (fe_buf env) (fe_read env) (fe_seek env))
         (try_bind (fe_open env) (\<lambda>src. ring_io_new (fe_buf env) src (rs_file_size rs) settings))
         (for_ring F (rs_config rs)) init rs merge res
     | InMemory \<Rightarrow> run_with (in_memory_io_ops (fe_read env) (fe_seek env))
         (map_sum id (\<lambda>src. in_memory_io_new src (rs_file_size rs)) (fe_open env))
         (for_memory F (rs_config rs)) init rs merge res
     | IoAuto \<Rightarrow> res = None)"

definition scheduler_run ::
    "('b, 'src) file_env \<Rightarrow> ('b, 'src, 's, 'u) parser_family \<Rightarrow> ('b, 'src, 's, 'u) parser_family \<Rightarrow> Config \<Rightarrow> 's
      \<Rightarrow> ('s list \<Rightarrow> 'res) \<Rightarrow> ('u Error + 'res) option \<Rightarrow> bool" where
  "scheduler_run env dfa simd c init merge res = (case fe_size env of
       Inl e \<Rightarrow> res = Some (Inl (IO e))
     | Inr file_size \<Rightarrow> (case for_file (fe_host env) c file_size of
           None \<Rightarrow> res = None
         | Some (Inl e) \<Rightarrow> res = Some (Inl e)
         | Some (Inr rs) \<Rightarrow>
             (if rs_chunk_count rs = 0 then res = Some (Inr (merge []))
              else (case dispatch dfa simd rs of
                  None \<Rightarrow> res = None
                | Some F \<Rightarrow> dispatch_io env F init rs merge res))))"

definition scheduler_run_slice ::
    "Host \<Rightarrow> 'b buf_ops \<Rightarrow> ('b, Cursor, 's, 'u) parser_family \<Rightarrow> ('b, Cursor, 's, 'u) parser_family \<Rightarrow> Config
      \<Rightarrow> byte list \<Rightarrow> 's \<Rightarrow> ('s list \<Rightarrow> 'res) \<Rightarrow> ('u Error + 'res) option \<Rightarrow> bool" where
  "scheduler_run_slice h B dfa simd c data init merge res = (case for_slice h c (length data) of
       None \<Rightarrow> res = None
     | Some (Inl e) \<Rightarrow> res = Some (Inl e)
     | Some (Inr rs) \<Rightarrow>
         (if rs_chunk_count rs = 0 then res = Some (Inr (merge []))
          else (case rs_io_backend rs of
              RingBuf settings \<Rightarrow> (case dispatch dfa simd rs of
                  None \<Rightarrow> res = None
                | Some F \<Rightarrow> run_with (slice_io_ops B) (slice_io_new B data settings) (for_ring F (rs_config rs))
                    init rs merge res)
            | _ \<Rightarrow> res = None)))"

definition scheduler_run_stream ::
    "Host \<Rightarrow> 'b buf_ops \<Rightarrow> 'src read_fn \<Rightarrow> ('b, 'src, 's, 'u) parser_family \<Rightarrow> ('b, 'src, 's, 'u) parser_family
      \<Rightarrow> Config \<Rightarrow> 'src \<Rightarrow> 's \<Rightarrow> ('s list \<Rightarrow> 'res) \<Rightarrow> ('u Error + 'res) option" where
  "scheduler_run_stream h B rd dfa simd c src init merge = (case resolve_parser_backend c of
       Inl e \<Rightarrow> Some (Inl e)
     | Inr Dfa_Backend \<Rightarrow> run_stream_inner h B rd (for_ring dfa c) c src init merge
     | Inr Simd_Backend \<Rightarrow> run_stream_inner h B rd (for_ring simd c) c src init merge
     | Inr ParserAuto \<Rightarrow> None)"

section \<open>The parse methods\<close>

text \<open>The private functions the twelve methods end in; \<open>simd\<close> builds the SIMD family for an encoding and an
  accumulator.\<close>

definition api_parse ::
    "('b, 'src) file_env \<Rightarrow> (output_ops \<Rightarrow> ('s, 'u) accumulator \<Rightarrow> ('b, 'src, 's, 'u) parser_family) \<Rightarrow> output_ops
      \<Rightarrow> Config \<Rightarrow> 's \<Rightarrow> ('s, 'u) accumulator \<Rightarrow> ('s list \<Rightarrow> 'res) \<Rightarrow> ('u Error + 'res) option \<Rightarrow> bool" where
  "api_parse env simd enc c init acc merge res =
     scheduler_run env (dfa_family (fe_host env) (fe_buf env) (fe_read env) enc acc) (simd enc acc) c init merge res"

definition api_parse_slice ::
    "Host \<Rightarrow> 'b buf_ops \<Rightarrow> (output_ops \<Rightarrow> ('s, 'u) accumulator \<Rightarrow> ('b, Cursor, 's, 'u) parser_family) \<Rightarrow> output_ops
      \<Rightarrow> Config \<Rightarrow> byte list \<Rightarrow> 's \<Rightarrow> ('s, 'u) accumulator \<Rightarrow> ('s list \<Rightarrow> 'res) \<Rightarrow> ('u Error + 'res) option \<Rightarrow> bool" where
  "api_parse_slice h B simd enc c data init acc merge res =
     scheduler_run_slice h B (dfa_family h B cursor_read enc acc) (simd enc acc) c data init merge res"

definition api_parse_stream ::
    "Host \<Rightarrow> 'b buf_ops \<Rightarrow> 'src read_fn \<Rightarrow> (output_ops \<Rightarrow> ('s, 'u) accumulator \<Rightarrow> ('b, 'src, 's, 'u) parser_family)
      \<Rightarrow> output_ops \<Rightarrow> Config \<Rightarrow> 'src \<Rightarrow> 's \<Rightarrow> ('s, 'u) accumulator \<Rightarrow> ('s list \<Rightarrow> 'res) \<Rightarrow> ('u Error + 'res) option" where
  "api_parse_stream h B rd simd enc c src init acc merge =
     scheduler_run_stream h B rd (dfa_family h B rd enc acc) (simd enc acc) c src init merge"

text \<open>\<open>Parser<Arity, Text>\<close>\<close>

definition parse_arity_text where
  "parse_arity_text panic n env simd c init acc merge res =
     api_parse env simd text_output (arity_config n c) init (acc_slice panic n acc) merge res"
definition parse_stream_arity_text where
  "parse_stream_arity_text panic n h B rd simd c src init acc merge =
     api_parse_stream h B rd simd text_output (arity_config n c) src init (acc_slice panic n acc) merge"
definition parse_slice_arity_text where
  "parse_slice_arity_text panic n h B simd c data init acc merge res =
     api_parse_slice h B simd text_output (arity_config n c) data init (acc_slice panic n acc) merge res"

text \<open>\<open>Parser<Variadic, Text>\<close>\<close>

definition parse_variadic_text where
  "parse_variadic_text env simd c init acc merge res = api_parse env simd text_output c init acc merge res"
definition parse_stream_variadic_text where
  "parse_stream_variadic_text h B rd simd c src init acc merge =
     api_parse_stream h B rd simd text_output c src init acc merge"
definition parse_slice_variadic_text where
  "parse_slice_variadic_text h B simd c data init acc merge res =
     api_parse_slice h B simd text_output c data init acc merge res"

text \<open>\<open>Parser<Arity, Bytes>\<close>\<close>

definition parse_arity_bytes where
  "parse_arity_bytes panic n env simd c init acc merge res =
     api_parse env simd bytes_output (arity_config n c) init (acc_slice panic n acc) merge res"
definition parse_stream_arity_bytes where
  "parse_stream_arity_bytes panic n h B rd simd c src init acc merge =
     api_parse_stream h B rd simd bytes_output (arity_config n c) src init (acc_slice panic n acc) merge"
definition parse_slice_arity_bytes where
  "parse_slice_arity_bytes panic n h B simd c data init acc merge res =
     api_parse_slice h B simd bytes_output (arity_config n c) data init (acc_slice panic n acc) merge res"

text \<open>\<open>Parser<Variadic, Bytes>\<close>\<close>

definition parse_variadic_bytes where
  "parse_variadic_bytes env simd c init acc merge res = api_parse env simd bytes_output c init acc merge res"
definition parse_stream_variadic_bytes where
  "parse_stream_variadic_bytes h B rd simd c src init acc merge =
     api_parse_stream h B rd simd bytes_output c src init acc merge"
definition parse_slice_variadic_bytes where
  "parse_slice_variadic_bytes h B simd c data init acc merge res =
     api_parse_slice h B simd bytes_output c data init acc merge res"

section \<open>Arity checks never fail\<close>

lemma agree_acc_slice: "agree_on n (acc_slice panic n acc) (acc_slice panic' n acc)"
  by (simp add: agree_on_def acc_slice_def fields_as_array_def)

lemma dfa_family_arity:
  assumes "field_count c = Some n"
  shows "for_mmap (dfa_family h B rd enc (acc_slice panic n acc)) c = for_mmap (dfa_family h B rd enc (acc_slice panic' n acc)) c"
    and "for_memory (dfa_family h B rd enc (acc_slice panic n acc)) c = for_memory (dfa_family h B rd enc (acc_slice panic' n acc)) c"
    and "for_ring (dfa_family h B rd enc (acc_slice panic n acc)) c = for_ring (dfa_family h B rd enc (acc_slice panic' n acc)) c"
  using dfa_parser_agree[OF agree_acc_slice assms] by (simp_all add: dfa_family_def Let_def)

lemma for_file_backend:
  "resolve_parser_backend c = (Inr Dfa_Backend :: 'v Error + _) \<Longrightarrow>
     for_file h c n = (Some (Inr rs) :: ('u Error + _) option) \<Longrightarrow> rs_parser_backend rs = Dfa_Backend"
  by (auto simp: for_file_def resolve_parser_backend_def Let_def
      split: sum.splits option.splits ParserBackend.splits if_splits)

lemma for_slice_shape:
  "resolve_parser_backend c = (Inr Dfa_Backend :: 'v Error + _) \<Longrightarrow>
     for_slice h c n = (Some (Inr rs) :: ('u Error + _) option) \<Longrightarrow>
     rs_parser_backend rs = Dfa_Backend \<and> field_count (rs_config rs) = field_count c"
  by (auto simp: for_slice_def resolve_parser_backend_def Let_def
      split: sum.splits option.splits ParserBackend.splits if_splits)

lemma scheduler_run_arity:
  fixes acc :: "('s, 'u) accumulator"
  assumes "resolve_parser_backend c = (Inr Dfa_Backend :: 'v Error + _)" and "field_count c = Some n"
  shows "scheduler_run env (dfa_family h B rd enc (acc_slice panic n acc)) S c init merge res =
    scheduler_run env (dfa_family h B rd enc (acc_slice panic' n acc)) S' c init merge res"
proof -
  { fix fsize and rs :: ResolvedConfig
    assume rs: "for_file (fe_host env) c fsize = (Some (Inr rs) :: ('u Error + _) option)"
    have fc: "field_count (rs_config rs) = Some n" using for_file_dialect(12)[OF rs] assms(2) by simp
    note eq = dfa_family_arity[OF fc, of h B rd enc panic acc panic'] for_file_backend[OF assms(1) rs]
    have "dispatch (dfa_family h B rd enc (acc_slice panic n acc)) S rs = Some (dfa_family h B rd enc (acc_slice panic n acc))"
      "dispatch (dfa_family h B rd enc (acc_slice panic' n acc)) S' rs = Some (dfa_family h B rd enc (acc_slice panic' n acc))"
      "dispatch_io env (dfa_family h B rd enc (acc_slice panic n acc)) init rs merge res =
       dispatch_io env (dfa_family h B rd enc (acc_slice panic' n acc)) init rs merge res"
      by (simp_all add: dispatch_def dispatch_io_def eq split: IoBackend.split) }
  note same = this
  show ?thesis
    unfolding scheduler_run_def by (auto simp: same split: sum.splits option.splits)
qed

lemma scheduler_run_slice_arity:
  fixes acc :: "('s, 'u) accumulator"
  assumes "resolve_parser_backend c = (Inr Dfa_Backend :: 'v Error + _)" and "field_count c = Some n"
  shows "scheduler_run_slice h B (dfa_family h B rd enc (acc_slice panic n acc)) S c data init merge res =
    scheduler_run_slice h B (dfa_family h B rd enc (acc_slice panic' n acc)) S' c data init merge res"
proof -
  { fix rs :: ResolvedConfig
    assume rs: "for_slice h c (length data) = (Some (Inr rs) :: ('u Error + _) option)"
    note sh = for_slice_shape[OF assms(1) rs]
    then have fc: "field_count (rs_config rs) = Some n" using assms(2) by simp
    note eq = dfa_family_arity(3)[OF fc, of h B rd enc panic acc panic']
    have "dispatch (dfa_family h B rd enc (acc_slice panic n acc)) S rs = Some (dfa_family h B rd enc (acc_slice panic n acc))"
      "dispatch (dfa_family h B rd enc (acc_slice panic' n acc)) S' rs = Some (dfa_family h B rd enc (acc_slice panic' n acc))"
      using sh by (simp_all add: dispatch_def)
    note this eq }
  note same = this
  show ?thesis
    unfolding scheduler_run_slice_def by (auto simp: same split: sum.splits option.splits IoBackend.splits)
qed

lemma resolve_backend_poly:
  "resolve_parser_backend c = (Inr p :: 'v Error + _) \<Longrightarrow> resolve_parser_backend c = (Inr p :: 'u Error + _)"
  by (auto simp: resolve_parser_backend_def split: ParserBackend.splits sum.splits if_splits)

lemma scheduler_run_stream_arity:
  fixes acc :: "('s, 'u) accumulator"
  assumes "resolve_parser_backend c = (Inr Dfa_Backend :: 'v Error + _)" and "field_count c = Some n"
  shows "scheduler_run_stream h B rd (dfa_family h B rd enc (acc_slice panic n acc)) S c src init merge =
    scheduler_run_stream h B rd (dfa_family h B rd enc (acc_slice panic' n acc)) S' c src init merge"
  using resolve_backend_poly[OF assms(1), where 'u = 'u] dfa_family_arity(3)[OF assms(2), of h B rd enc panic acc panic']
  by (simp add: scheduler_run_stream_def)

lemma arity_field_count: "field_count (arity_config n c) = Some n"
  by (simp add: arity_config_def)

end
