(* ===== verification/Files.thy ===== *)
theory Files
  imports Api
begin

text \<open>
  Whole parses of a file on disk whose reads succeed (\<open>disk_env\<close>): the entry points of theory \<open>Api\<close>
  end in runs of theory \<open>Workers\<close> on the contexts of theory \<open>Sessions\<close>, and those return what one
  sequential parse of the file returns.
\<close>

section \<open>Settings that are not part of the dialect\<close>

lemma dfa_new_settings: "dfa_new le (c\<lparr>chunk_size := k, io_buffer_limit := l\<rparr>) = dfa_new le c"
proof -
  let ?c = "c\<lparr>chunk_size := k, io_buffer_limit := l\<rparr>"
  have doubled: "doubled_quotes ?c = doubled_quotes c" by (simp add: doubled_quotes_def)
  have cells: "field_start_cell ?c = field_start_cell c" "in_field_cell ?c = in_field_cell c"
    "in_quoted_cell ?c = in_quoted_cell c" "after_closing_cell ?c = after_closing_cell c"
    "in_comment_cell ?c = in_comment_cell c" "record_start_cell ?c = record_start_cell c"
    by (simp_all add: fun_eq_iff field_start_cell_def in_field_cell_def in_quoted_cell_def after_closing_cell_def
        in_comment_cell_def record_start_cell_def doubled)
  show ?thesis unfolding dfa_new_def cells by simp
qed

lemma spec_settings:
  "spec_run (c\<lparr>chunk_size := k, io_buffer_limit := l\<rparr>) acc L p bs m = spec_run c acc L p bs m"
  "spec_finish (c\<lparr>chunk_size := k, io_buffer_limit := l\<rparr>) acc p m = spec_finish c acc p m"
  "search_run (c\<lparr>chunk_size := k, io_buffer_limit := l\<rparr>) strict p bs q = search_run c strict p bs q"
proof -
  let ?c = "c\<lparr>chunk_size := k, io_buffer_limit := l\<rparr>"
  have hand: "closed_fields ?c m = closed_fields c m" "hand_over ?c acc m = hand_over c acc m" for m
    by (simp_all add: hand_over_def closed_fields_def trimmed_def)
  have byte: "spec_byte ?c acc L p b m = spec_byte c acc L p b m" for p b m
  proof -
    have "enter ?c acc L p s m = enter c acc L p s m" for s m
      by (cases s) (simp_all add: enter_def hand)
    then show ?thesis by (simp add: spec_byte_def dfa_new_settings mark_start_def)
  qed
  show "spec_run ?c acc L p bs m = spec_run c acc L p bs m"
    by (induction bs arbitrary: p m) (simp_all add: byte split: outcome.split)
  show "spec_finish ?c acc p m = spec_finish c acc p m" by (simp add: spec_finish_def hand)
  have "search_byte ?c strict p b q = search_byte c strict p b q" for p b q
    by (simp add: search_byte_def dfa_new_settings)
  then show "search_run ?c strict p bs q = search_run c strict p bs q"
    by (induction bs arbitrary: p q) (simp_all split: search.split)
qed

lemma sequential_settings:
  "sequential (c\<lparr>chunk_size := k, io_buffer_limit := l\<rparr>) acc bs init = sequential c acc bs init"
  "first_boundary (c\<lparr>chunk_size := k, io_buffer_limit := l\<rparr>) bs = first_boundary c bs"
proof -
  let ?c = "c\<lparr>chunk_size := k, io_buffer_limit := l\<rparr>"
  have parse: "spec_parse ?c acc L p bs s = spec_parse c acc L p bs s" for L p bs s
    by (simp add: spec_parse_def spec_rest_def spec_settings split: outcome.split)
  have "spec_body ?c acc rem bs start s = spec_body c acc rem bs start s" for rem bs start s
    unfolding spec_body_def parse by simp
  then show "sequential ?c acc bs init = sequential c acc bs init"
    by (simp add: sequential_def spec_pass_def spec_scan_def spec_settings split: sum.split option.split)
  show "first_boundary ?c bs = first_boundary c bs" by (simp add: first_boundary_def spec_settings)
qed

text \<open>The chunk size \<open>resolve_chunk_size\<close> settles on for the DFA parser.\<close>

definition dfa_chunk_size :: "Config \<Rightarrow> nat" where
  "dfa_chunk_size c = (if chunk_size c = 0 then 256 * 1024 else chunk_size c)"

lemma for_file_dfa:
  assumes "resolve_parser_backend c = (Inr Dfa_Backend :: 'u Error + _)"
  shows "\<exists>rs. for_file h c n = (Some (Inr rs) :: ('u Error + _) option) \<and> rs_parser_backend rs = Dfa_Backend \<and>
    rs_config rs = c\<lparr>chunk_size := dfa_chunk_size c, io_buffer_limit := resolve_io_buffer_limit h c\<rparr>"
  using assms by (simp add: for_file_def resolve_chunk_size_def dfa_chunk_size_def Let_def)

section \<open>Files on disk\<close>

definition disk_env :: "Host \<Rightarrow> 'b buf_ops \<Rightarrow> byte list \<Rightarrow> ('b, Cursor) file_env" where
  "disk_env h B input = \<lparr>fe_host = h, fe_buf = B, fe_size = Inr (length input),
     fe_open = Inr \<lparr>cur_data = input, cur_pos = 0\<rparr>, fe_read = cursor_read, fe_seek = cursor_seek,
     fe_bytes = input, fe_mmap = (\<lambda>_. Inr ()), fe_madvise = Inr ()\<rparr>"

text \<open>No worker thread could be spawned.\<close>

definition spawn_refused :: "('u Error + 's) option \<Rightarrow> bool" where
  "spawn_refused res \<longleftrightarrow> (\<exists>e. res = Some (Inl (IO e)))"

lemma sequential_empty: "sequential c collect [] [] = Inr []"
  by (simp add: sequential_def spec_pass_def spec_scan_def spec_body_def skip_spec_def terminator_run_def
      spec_parse_def spec_rest_def spec_finish_def spec_init_def started_def no_record_def search_result_def)

lemma unquoted_mem_run:
  assumes "validate c = (Inr () :: 'v Error + unit)" and "quote c = None" and "comment c = None"
    and rs: "for_file h c (length input) = (Some (Inr rs) :: ('w Error + _) option)" and ne: "input \<noteq> []"
    and B: "first_boundary (rs_config rs) (take (chunk_size (rs_config rs)) input) = Some B"
  shows "(mem_run le rs input :: ('u Error + _) option) = Some (sequential (rs_config rs) collect input [])"
proof -
  note r = for_file_dialect[OF rs]
  let ?c = "rs_config rs" and ?G = "terminators (rs_config rs) input B"
  from assms(1,2) have esc: "escape c = None" and dia: "dialect_ok c" by (auto simp: validate_iff)
  then have as: "assumptions_for_config (quote c) (escape c) = Some [OutOfQuotes]"
    using assms(2) by (simp add: assumptions_for_config_def)
  have G: "boundaries_closed ?c (collect :: (_, 'u) accumulator) input [] ?G" "length input \<in> ?G" "B \<in> ?G"
    using terminators_closed[OF first_boundary_le[OF B]] by (auto simp: terminators_def)
  have "covered ?G (length input) B (chunk_size ?c) 0
      (map (spec_output ?c (collect :: (_, 'u) accumulator) [] (chunk_size ?c) [OutOfQuotes] input) [0..<rs_chunk_count rs])"
    using r assms(2) dia div_ceil_bounds(1)[OF r(6), of "length input"] B
    by (intro unquoted_covered) (auto simp: dialect_ok_def)
  from in_memory_run.chunked_sequential[OF refl _ r(6,7) ne r(8) _ refl refl _ B G this] r assms(3) as
  show ?thesis
    by (simp add: in_memory_io_inv_def in_memory_io_new_def in_memory_io_ops_def)
qed

lemma last_pass_map_run:
  assumes "validate c = (Inr () :: 'v Error + unit)" and comment: "comment c = None"
    and rs: "for_file h c (length input) = (Some (Inr rs) :: ('w Error + _) option)" and ne: "input \<noteq> []"
    and as: "assumptions_for_config (quote c) (escape c) = Some as"
    and B: "first_boundary (rs_config rs) (take (chunk_size (rs_config rs)) input) = Some B"
    and pass: "co_passes (spec_output (rs_config rs) (collect :: (_, 'u) accumulator) []
      (chunk_size (rs_config rs)) as input (rs_chunk_count rs - 1)) \<noteq> []"
  shows "(map_run le rs input :: ('u Error + _) option) = Some (sequential (rs_config rs) collect input [])"
proof -
  note r = for_file_dialect[OF rs]
  let ?c = "rs_config rs"
  let ?outs = "map (spec_output ?c (collect :: (_, 'u) accumulator) [] (chunk_size ?c) as input) [0..<rs_chunk_count rs]"
  have count: "0 < rs_chunk_count rs"
    using div_ceil_bounds(3)[OF r(6), of "length input"] ne r(8) by simp
  have G: "boundaries_closed ?c (collect :: (_, 'u) accumulator) input [] UNIV"
    by (simp add: boundaries_closed_def)
  have "covered UNIV (length input) B (chunk_size ?c) 0 ?outs"
    using pass count div_ceil_bounds(1)[OF r(6), of "length input"] r(8)
    by (intro covered_last) (simp_all add: last_map)
  from mmap_run.chunked_sequential[OF refl _ r(6,7) ne r(8) _ refl _ _ B G _ _ this] r comment as map_ctx_ok[OF ne]
  show ?thesis by (simp add: mmap_io_ops_def)
qed

end
