(* ===== verification/Utf8Fields.thy ===== *)
theory Utf8Fields
  imports DfaChunk
begin

text \<open>
  The obligation behind the reinterpretation of byte ranges as \<open>&mut str\<close> in src/src/parser/output.rs: with
  ASCII control bytes, every field a text parse hands over is valid UTF-8. Control bytes are never part
  of a multi-byte sequence, so cutting valid text at them and taking them out leaves valid text.
\<close>

section \<open>Valid text\<close>

definition utf8 :: "byte list \<Rightarrow> bool" where
  "utf8 bs \<longleftrightarrow> utf8_valid_len bs = length bs"

lemma utf8_Nil [simp]: "utf8 []"
  by (simp add: utf8_def utf8_valid_len_def from_utf8.simps)

lemma utf8_first_ascii: "b < 0x80 \<Longrightarrow> utf8_first (b # bs) = Seq 1"
  by (simp add: utf8_width_def)

text \<open>A sequence cut short by an ASCII byte is no sequence.\<close>

lemma utf8_tail_cut: "utf8_tail k xs n = Truncated \<Longrightarrow> b < 0x80 \<Longrightarrow> utf8_tail k (xs @ b # ys) n = Malformed"
  by (induction k xs n rule: utf8_tail.induct) (auto simp: in_range_def split: if_splits)

lemma utf8_first_cut:
  assumes "utf8_first xs = Truncated" and "xs \<noteq> []" and "b < 0x80"
  shows "utf8_first (xs @ b # ys) = Malformed"
proof (cases xs)
  case (Cons x xs')
  have "\<not> in_range (fst (utf8_second x)) (snd (utf8_second x)) b"
  proof -
    have "0x80 \<le> fst (utf8_second x)" by (simp add: utf8_second_def)
    with assms(3) have "b < fst (utf8_second x)" by (rule order.strict_trans2)
    then show ?thesis by (auto simp: in_range_def)
  qed
  with assms Cons show ?thesis
    by (cases xs') (auto simp: Let_def utf8_tail_cut split: if_splits)
qed (use assms in simp)

lemma utf8_append: "utf8 xs \<Longrightarrow> utf8 (xs @ ys) = utf8 ys"
  using from_utf8_app[OF prod.collapse[symmetric], of xs ys]
  by (simp add: utf8_def utf8_valid_len_def)

lemma utf8_ascii_Cons: "b < 0x80 \<Longrightarrow> utf8 (b # xs) = utf8 xs"
  using utf8_valid_len_step[OF _ utf8_first_ascii, of b xs] by (simp add: utf8_def)

lemma utf8_cut:
  assumes "b < 0x80"
  shows "utf8 (xs @ b # ys) = (utf8 xs \<and> utf8 ys)"
proof (induction xs rule: from_utf8.induct)
  case (1 xs)
  show ?case
  proof (cases "xs = []")
    case True
    with assms show ?thesis by (simp add: utf8_ascii_Cons)
  next
    case ne: False
    show ?thesis
    proof (cases "utf8_first xs")
      case (Seq k)
      from utf8_first_len[OF Seq] have k: "k \<le> length xs" by simp
      have "utf8_first (xs @ b # ys) = Seq k" using utf8_first_app[of xs "b # ys"] Seq by simp
      with k ne have "utf8_valid_len (xs @ b # ys) = k + utf8_valid_len (drop k xs @ b # ys)"
        using utf8_valid_len_step[of "xs @ b # ys" k] by simp
      with k utf8_valid_len_step[OF ne Seq] have "utf8 (xs @ b # ys) = utf8 (drop k xs @ b # ys)" "utf8 xs = utf8 (drop k xs)"
        by (auto simp: utf8_def)
      with 1[OF ne Seq] show ?thesis by simp
    next
      case Malformed
      then have "utf8_first (xs @ b # ys) = Malformed" using utf8_first_app[of xs "b # ys"] by simp
      with Malformed ne show ?thesis
        by (simp add: utf8_def utf8_valid_len_def from_utf8.simps[of xs] from_utf8.simps[of "xs @ b # ys"])
    next
      case Truncated
      with utf8_first_cut[OF Truncated ne assms] ne show ?thesis
        by (simp add: utf8_def utf8_valid_len_def from_utf8.simps[of xs] from_utf8.simps[of "xs @ b # ys"])
    qed
  qed
qed

lemma whitespace_ascii: "is_ascii_whitespace b \<Longrightarrow> b < 0x80"
  by (auto simp: is_ascii_whitespace_def)

lemma utf8_dropWhile: "utf8 bs \<Longrightarrow> utf8 (dropWhile is_ascii_whitespace bs)"
  by (induction bs) (auto simp: utf8_ascii_Cons whitespace_ascii)

lemma utf8_trim_end: "utf8 bs \<Longrightarrow> utf8 (rev (dropWhile is_ascii_whitespace (rev bs)))"
proof (induction bs rule: rev_induct)
  case (snoc b bs)
  then show ?case
    using utf8_cut[OF whitespace_ascii, of b bs "[]"] by auto
qed simp

lemma utf8_trimmed: "utf8 bs \<Longrightarrow> utf8 (trimmed c bs)"
  using utf8_trim_end[OF utf8_dropWhile] by (simp add: trimmed_def trim_ascii_def Let_def)

section \<open>The machine on valid text\<close>

definition ascii_controls :: "Config \<Rightarrow> bool" where
  "ascii_controls c \<longleftrightarrow> delimiter c < 0x80 \<and> (\<forall>b. is_terminator (terminator c) b \<longrightarrow> b < 0x80) \<and>
     (\<forall>b. quote c = Some b \<or> escape c = Some b \<or> comment c = Some b \<longrightarrow> b < 0x80)"

lemma validate_ascii_iff: "validate_ascii_control_bytes c = Inr () \<longleftrightarrow> ascii_controls c"
  by (cases "terminator c"; cases "quote c"; cases "escape c"; cases "comment c")
    (auto simp: validate_ascii_control_bytes_def control_bytes_def ascii_controls_def is_terminator_def is_ascii_def)

text \<open>What is left of the input continues the open field; in a comment it continues what was skipped.\<close>

definition utf8_inv :: "byte list \<Rightarrow> 's machine \<Rightarrow> bool" where
  "utf8_inv rest m \<longleftrightarrow> (\<forall>f\<in>set (m_fields m). utf8 f) \<and>
     (m_state m \<in> {RecordStart, InComment} \<longrightarrow> m_cur m = []) \<and>
     (if m_state m = InComment then \<exists>pre. utf8 (pre @ rest) else utf8 (m_cur m @ rest)) \<and>
     interior (m_state m)"

definition agree_on_text :: "('s, 'u) accumulator \<Rightarrow> ('s, 'u) accumulator \<Rightarrow> bool" where
  "agree_on_text acc acc' \<longleftrightarrow> (\<forall>s fs. (\<forall>f\<in>set fs. utf8 f) \<longrightarrow> acc s fs = acc' s fs)"

text \<open>A byte that is not copied to the open field is ASCII, unless it is part of a comment.\<close>

lemma copied_or_ascii:
  fixes b :: byte
  assumes "ascii_controls c" and "interior s"
  defines "t \<equiv> transition (dfa_new True c) s b"
  shows "has_output t \<Longrightarrow> next_state t \<in> {InField, InQuotedField} \<and> s \<noteq> InComment"
    and "\<not> has_output t \<Longrightarrow> next_state t = Error \<or> b < 0x80 \<or> s = InComment \<and> next_state t = InComment"
    and "next_state t = InComment \<Longrightarrow> s \<in> {RecordStart, InComment} \<and> \<not> has_output t"
    and "next_state t = RecordStart \<Longrightarrow> s \<in> {RecordStart, InComment}"
    and "s = InComment \<Longrightarrow> next_state t \<in> {RecordStart, InComment}"
  using assms(1,2) unfolding t_def ascii_controls_def interior_def
  by (cases s; auto simp: transition_def dfa_new_def field_start_cell_def in_field_cell_def in_quoted_cell_def
      after_closing_cell_def in_comment_cell_def record_start_cell_def is_terminator_def
      split: if_splits QuoteHandling.splits RecordTerminator.splits)+

lemma utf8_closed:
  assumes "utf8_inv (b # rest) m" and "m_state m \<noteq> InComment" and "b < 0x80"
  shows "\<forall>f\<in>set (closed_fields c m). utf8 f" and "utf8 (m_cur m)" and "utf8 rest"
  using assms utf8_cut[OF assms(3), of "m_cur m" rest] by (auto simp: utf8_inv_def closed_fields_def utf8_trimmed)

lemma hand_over_agree:
  assumes "agree_on_text acc acc'" and "\<forall>f\<in>set (closed_fields c m). utf8 f"
  shows "hand_over c acc m = hand_over c acc' m"
  using assms by (auto simp: hand_over_def agree_on_text_def Let_def split: option.split)

lemma spec_byte_text:
  fixes m :: "'s machine"
  assumes c: "ascii_controls c" and agree: "agree_on_text acc acc'" and inv: "utf8_inv (b # rest) m"
  shows "spec_byte c acc L p b m = spec_byte c acc' L p b m"
    and "spec_byte c acc L p b m = Running m' \<Longrightarrow> utf8_inv rest m'"
proof -
  define t where "t = transition (dfa_new True c) (m_state m) b"
  define m1 where "m1 = copy_byte t b (mark_start c p b m)"
  have int: "interior (m_state m)" using inv by (simp add: utf8_inv_def)
  note cell = copied_or_ascii[OF c int, of b, folded t_def]
  have m1: "m_fields m1 = m_fields m" "m_state m1 = m_state m"
    "m_cur m1 = (if has_output t then m_cur m @ [b] else m_cur m)"
    by (simp_all add: m1_def copy_byte_def mark_start_def)
  have ends: "\<not> has_output t" "m_state m \<noteq> InComment" "b < 0x80" if "next_state t \<in> {FieldEnd, RecordEnd}"
    using that cell(1,2,5) by (auto, blast+)
  have closed: "\<forall>f\<in>set (closed_fields c m1). utf8 f" "utf8 rest" if "next_state t \<in> {FieldEnd, RecordEnd}"
    using utf8_closed(1)[OF inv ends(2,3)[OF that], of c] utf8_closed(3)[OF inv ends(2,3)[OF that]] ends(1)[OF that] m1
    by (simp_all add: closed_fields_def)
  have byte: "spec_byte c f L p b m = (if m_state m = RecordStart \<and> is_terminator (terminator c) b \<and> L \<le> p
      then Finished p (m_acc m) else enter c f L p (next_state t) m1)" for f :: "('s, 'a) accumulator"
    by (simp add: spec_byte_def t_def m1_def Let_def)
  have "next_state t = RecordEnd \<Longrightarrow> hand_over c acc m1 = hand_over c acc' m1"
    using hand_over_agree[OF agree closed(1)] by simp
  then show "spec_byte c acc L p b m = spec_byte c acc' L p b m"
    unfolding byte by (cases "next_state t") (simp_all add: enter_def)
  have stay: "utf8_inv rest (m1\<lparr>m_state := next_state t\<rparr>)" if "interior (next_state t)"
  proof (cases "has_output t")
    case True
    with cell(1) inv m1 that show ?thesis by (auto simp: utf8_inv_def)
  next
    case False
    show ?thesis
    proof (cases "m_state m = InComment")
      case True
      with inv obtain pre where pre: "utf8 (pre @ b # rest)" "m_cur m = []" by (auto simp: utf8_inv_def)
      have "next_state t = RecordStart \<Longrightarrow> b < 0x80" using cell(2)[OF False] that by (auto simp: interior_def)
      then have "next_state t = RecordStart \<Longrightarrow> utf8 rest" using pre(1) utf8_cut by blast
      moreover have "\<exists>pre. utf8 (pre @ rest)" using pre(1) by (intro exI[of _ "pre @ [b]"]) simp
      ultimately show ?thesis
        using cell(5)[OF True] pre(2) False inv m1 by (auto simp: utf8_inv_def interior_def)
    next
      case nc: False
      with cell(2)[OF False] that have b: "b < 0x80" by (auto simp: interior_def)
      from utf8_closed[OF inv nc b] have "utf8 (m_cur m @ rest)" "utf8 ([] @ rest)" by (simp_all add: utf8_append)
      with cell(3,4) False inv m1 that nc show ?thesis by (auto simp: utf8_inv_def)
    qed
  qed
  show "spec_byte c acc L p b m = Running m' \<Longrightarrow> utf8_inv rest m'"
    using stay closed unfolding byte
    by (cases "next_state t")
      (auto simp: enter_def interior_def utf8_inv_def split: if_splits sum.splits)
qed

lemma spec_run_text:
  assumes "ascii_controls c" and "agree_on_text acc acc'" and "utf8_inv (bs @ rest) m"
  shows "spec_run c acc L p bs m = spec_run c acc' L p bs m"
    and "spec_run c acc L p bs m = Running m' \<Longrightarrow> utf8_inv rest m'"
proof -
  have "spec_run c acc L p bs m = spec_run c acc' L p bs m \<and>
    (\<forall>m'. spec_run c acc L p bs m = Running m' \<longrightarrow> utf8_inv rest m')"
    using assms(3)
  proof (induction bs arbitrary: p m)
    case (Cons b bs)
    then have inv: "utf8_inv (b # bs @ rest) m" by simp
    note step = spec_byte_text[OF assms(1,2) inv, of L p]
    show ?case
    proof (cases "spec_byte c acc L p b m")
      case (Running m1)
      have "spec_byte c acc' L p b m = Running m1" using step(1) Running by simp
      with Cons.IH[OF step(2)[OF Running], of "p + 1"] Running show ?thesis by simp
    qed (use step(1) in simp_all)
  qed simp
  then show "spec_run c acc L p bs m = spec_run c acc' L p bs m"
    and "spec_run c acc L p bs m = Running m' \<Longrightarrow> utf8_inv rest m'" by blast+
qed

lemma text_interchangeable:
  fixes acc acc' :: "('s, 'u) accumulator"
  assumes "ascii_controls c" and "agree_on_text acc acc'"
  shows "interchangeable utf8_valid_len c acc acc'"
  unfolding interchangeable_def
proof (intro allI impI conjI)
  fix L p bs and s :: 's
  assume "utf8_valid_len bs = length bs"
  then have inv: "utf8_inv (bs @ []) (spec_init p s)" by (simp add: utf8_inv_def spec_init_def utf8_def interior_def)
  note run = spec_run_text[OF assms inv, of L p]
  show "spec_run c acc L p bs (spec_init p s) = spec_run c acc' L p bs (spec_init p s)" by (rule run(1))
  show "spec_parse c acc L p bs s = spec_parse c acc' L p bs s"
  proof (cases "spec_run c acc L p bs (spec_init p s)")
    case (Running m)
    from run(2)[OF this] have "m_state m \<noteq> InComment \<Longrightarrow> \<forall>f\<in>set (closed_fields c m). utf8 f"
      by (auto simp: utf8_inv_def closed_fields_def utf8_trimmed)
    then have "m_state m \<noteq> InComment \<Longrightarrow> hand_over c acc m = hand_over c acc' m"
      using hand_over_agree[OF assms(2)] by blast
    then have "spec_finish c acc (p + length bs) m = spec_finish c acc' (p + length bs) m"
      by (auto simp: spec_finish_def)
    with Running run(1) show ?thesis by (simp add: spec_parse_def spec_rest_def)
  qed (use run(1) in \<open>simp_all add: spec_parse_def spec_rest_def\<close>)
qed

end
