(* ===== verification/Bitmask.thy ===== *)
theory Bitmask
  imports Isa Table
begin

text \<open>
  src/src/parser/simd/bitmask.rs: from a vector of 64 bytes to words of 64 structural bits, and the
  computations on whole words that find runs of terminators, quoted regions, field beginnings and ends. A
  lemma per function says what each bit of its result means.
\<close>

unbundle bit_operations_syntax

section \<open>Structural bytes\<close>

record Structural =
  delim_bits :: u64
  term_bits :: u64
  quote_bits :: u64

definition delim_or_term :: "Structural \<Rightarrow> u64" where
  "delim_or_term s = delim_bits s OR term_bits s"

definition structural_delims :: "Structural \<Rightarrow> u64 \<Rightarrow> u64" where
  "structural_delims s m = delim_or_term s AND NOT m"

definition match_structural :: "isa \<Rightarrow> byte list \<Rightarrow> byte \<Rightarrow> byte \<Rightarrow> byte option \<Rightarrow> byte option \<Rightarrow> Structural" where
  "match_structural I v d t t2 q = \<lparr>
     delim_bits = eq_mask I v d,
     term_bits = (case t2 of Some b \<Rightarrow> eq_mask I v t OR eq_mask I v b | None \<Rightarrow> eq_mask I v t),
     quote_bits = (case q of Some b \<Rightarrow> eq_mask I v b | None \<Rightarrow> 0)\<rparr>"

text \<open>\<open>None\<close> is the \<open>unreachable!\<close>.\<close>

definition neutral_pad :: "byte \<Rightarrow> byte \<Rightarrow> byte option \<Rightarrow> byte option \<Rightarrow> byte option" where
  "neutral_pad d t t2 q =
     List.find (\<lambda>x. x \<noteq> d \<and> x \<noteq> t \<and> t2 \<noteq> Some x \<and> q \<noteq> Some x) all_bytes"

text \<open>The address of the buffer is not part of the model: \<open>misalign\<close> is \<open>buf.as_ptr() % 64\<close>.\<close>

datatype Prologue = Vector "byte list" nat | Aligned | TooShort

definition head_padded_prologue :: "nat \<Rightarrow> byte list \<Rightarrow> nat \<Rightarrow> byte \<Rightarrow> Prologue" where
  "head_padded_prologue misalign buf scan_end pad =
     (if misalign = 0 then Aligned
      else let skip = VECTOR_BYTES - misalign
           in if scan_end < skip + VECTOR_BYTES then TooShort
              else Vector (replicate misalign pad @ take skip buf) misalign)"

section \<open>Runs, quoted regions, beginnings and ends\<close>

definition terminator_run_starts :: "u64 \<Rightarrow> bool \<Rightarrow> u64" where
  "terminator_run_starts t prev_is_term = t AND NOT (push_bit 1 t OR of_bool prev_is_term)"

definition terminator_run_ends :: "u64 \<Rightarrow> bool \<Rightarrow> u64" where
  "terminator_run_ends t next_term_lsb = t AND NOT (drop_bit 1 t OR push_bit 63 (of_bool next_term_lsb))"

definition compute_in_quotes :: "isa \<Rightarrow> u64 \<Rightarrow> bool \<Rightarrow> u64 \<times> bool" where
  "compute_in_quotes I q carry_in =
     (if q = 0 then (- of_bool carry_in, carry_in)
      else let m = xor_prefix_sum I q XOR (- of_bool carry_in) in (m, drop_bit 63 m \<noteq> 0))"

record BeginsCarry =
  d_struct_msb :: bool
  qb_msb :: bool

definition compute_field_begins :: "u64 \<Rightarrow> u64 \<Rightarrow> BeginsCarry \<Rightarrow> u64 \<times> BeginsCarry" where
  "compute_field_begins d_struct q carry_in =
     (let b_init = push_bit 1 d_struct OR of_bool (d_struct_msb carry_in);
          qb = b_init AND q;
          b_final = (b_init AND NOT qb OR push_bit 1 qb) OR of_bool (qb_msb carry_in)
      in (b_final, \<lparr>d_struct_msb = (drop_bit 63 d_struct AND 1 \<noteq> 0), qb_msb = (drop_bit 63 qb AND 1 \<noteq> 0)\<rparr>))"

definition compute_field_ends :: "u64 \<Rightarrow> u64 \<Rightarrow> u64 \<Rightarrow> bool \<Rightarrow> bool \<Rightarrow> u64 \<times> bool" where
  "compute_field_ends d_struct q m next_d_struct_lsb prev_qe_msb =
     (let qr = q AND NOT m;
          d_struct_lookahead = drop_bit 1 d_struct OR push_bit 63 (of_bool next_d_struct_lsb);
          qe = qr AND d_struct_lookahead;
          qe_clear = push_bit 1 qe OR of_bool prev_qe_msb
      in (d_struct AND NOT qe_clear OR qe, drop_bit 63 qe AND 1 \<noteq> 0))"

definition compute_chars_to_remove :: "u64 \<Rightarrow> u64 \<Rightarrow> u64 \<Rightarrow> u64 \<Rightarrow> bool \<Rightarrow> bool \<Rightarrow> bool \<Rightarrow> u64" where
  "compute_chars_to_remove q m b e next_b_lsb next_q_lsb doubled =
     (let ql = q AND m;
          qr = q AND NOT m;
          ql_remove = ql AND NOT (drop_bit 1 b OR push_bit 63 (of_bool next_b_lsb));
          qr_remove = (if doubled then qr AND NOT (drop_bit 1 q OR push_bit 63 (of_bool next_q_lsb)) AND NOT e
                       else qr AND NOT e)
      in ql_remove OR qr_remove)"

section \<open>What the bits mean\<close>

lemma bit_of_bool_u64 [simp]: "bit (of_bool b :: u64) i \<longleftrightarrow> b \<and> i = 0"
  by (cases b) (simp_all add: bit_1_iff)

lemma bit_broadcast [simp]: "bit (- of_bool b :: u64) i \<longleftrightarrow> b \<and> i < 64"
  by (cases b) (simp_all add: bit_minus_1_iff)

text \<open>Shifts by one, in the forms the simplifier leaves them in.\<close>

lemma bit_shl1: "bit ((w :: u64) * 2) i \<longleftrightarrow> 0 < i \<and> i < 64 \<and> bit w (i - 1)"
  using bit_push_bit_iff[of "Suc 0" w i] by (auto simp: Suc_le_eq)

lemma bit_shr1: "bit (drop_bit (Suc 0) (w :: u64)) i \<longleftrightarrow> bit w (Suc i)"
  by (simp add: bit_drop_bit_eq)

lemma bit_msb_in: "bit (push_bit 63 (of_bool b) :: u64) i \<longleftrightarrow> b \<and> i = 63"
  by (auto simp: bit_push_bit_iff)

lemma msb_iff: "drop_bit 63 (w :: u64) AND 1 \<noteq> 0 \<longleftrightarrow> bit w 63" "drop_bit 63 (w :: u64) \<noteq> 0 \<longleftrightarrow> bit w 63"
proof -
  show "drop_bit 63 w AND 1 \<noteq> 0 \<longleftrightarrow> bit w 63"
    using and_exp_nonzero[of "drop_bit 63 w" 0] by (simp add: bit_drop_bit_eq)
  have "bit (drop_bit 63 w) i \<longleftrightarrow> i = 0 \<and> bit w 63" for i
    using bit_u64_bound[of w "63 + i"] by (cases i) (auto simp: bit_drop_bit_eq)
  then show "drop_bit 63 w \<noteq> 0 \<longleftrightarrow> bit w 63"
    using u64_eq_0_iff[of "drop_bit 63 w"] by auto
qed

lemma lsb_iff: "(w :: u64) AND 1 \<noteq> 0 \<longleftrightarrow> bit w 0"
  using and_exp_nonzero[of w 0] by simp

lemmas word_bits = bit_and_iff bit_or_iff bit_xor_iff bit_not_iff bit_shl1 bit_shr1 bit_msb_in

lemma bit_run_starts:
  "bit (terminator_run_starts t prev) i \<longleftrightarrow> bit t i \<and> \<not> (if i = 0 then prev else bit t (i - 1))"
  using bit_u64_bound[of t i] by (auto simp: terminator_run_starts_def word_bits)

lemma bit_run_ends:
  "bit (terminator_run_ends t next) i \<longleftrightarrow> bit t i \<and> \<not> (if i = 63 then next else bit t (i + 1))"
  using bit_u64_bound[of t i] bit_u64_bound[of t "i + 1"] by (auto simp: terminator_run_ends_def word_bits)

lemma bit_field_begins:
  assumes "compute_field_begins d q carry = (b, carry')"
  shows "bit b i \<longleftrightarrow> i < 64 \<and>
      ((if i = 0 then d_struct_msb carry else bit d (i - 1)) \<and> \<not> bit q i \<or>
       (if i = 0 then qb_msb carry
        else bit q (i - 1) \<and> (if i = 1 then d_struct_msb carry else bit d (i - 2))))"
    and "d_struct_msb carry' \<longleftrightarrow> bit d 63"
    and "qb_msb carry' \<longleftrightarrow> bit q 63 \<and> bit d 62"
  using assms by (auto simp: compute_field_begins_def Let_def msb_iff word_bits numeral_2_eq_2)

lemma bit_field_ends:
  assumes "compute_field_ends d q m nxt prev = (e, qe)"
  defines "follows \<equiv> \<lambda>i. if i = 63 then nxt else bit d (i + 1)"
  shows "bit e i \<longleftrightarrow> i < 64 \<and>
      (bit q i \<and> \<not> bit m i \<and> follows i \<or>
       bit d i \<and> \<not> (if i = 0 then prev else bit q (i - 1) \<and> \<not> bit m (i - 1) \<and> follows (i - 1)))"
    and "qe \<longleftrightarrow> bit q 63 \<and> \<not> bit m 63 \<and> nxt"
proof -
  define qe' where "qe' = (q AND NOT m) AND (drop_bit 1 d OR push_bit 63 (of_bool nxt))"
  have e: "e = (d AND NOT (push_bit 1 qe' OR of_bool prev) OR qe')" and qe: "qe \<longleftrightarrow> bit qe' 63"
    using assms(1) unfolding compute_field_ends_def Let_def qe'_def[symmetric] by (simp_all add: msb_iff)
  have bit_qe: "bit qe' i \<longleftrightarrow> bit q i \<and> \<not> bit m i \<and> follows i" for i
    using bit_u64_bound[of q i] bit_u64_bound[of d "i + 1"]
    by (auto simp: qe'_def follows_def word_bits)
  show "qe \<longleftrightarrow> bit q 63 \<and> \<not> bit m 63 \<and> nxt" by (simp add: qe bit_qe follows_def)
  have "bit e i \<longleftrightarrow> i < 64 \<and> (bit qe' i \<or> bit d i \<and> \<not> (if i = 0 then prev else bit qe' (i - 1)))"
    using bit_u64_bound[of d i] bit_u64_bound[of qe' i] by (auto simp: e word_bits)
  then show "bit e i \<longleftrightarrow> i < 64 \<and>
      (bit q i \<and> \<not> bit m i \<and> follows i \<or>
       bit d i \<and> \<not> (if i = 0 then prev else bit q (i - 1) \<and> \<not> bit m (i - 1) \<and> follows (i - 1)))"
    unfolding bit_qe .
qed

lemma bit_chars_to_remove:
  "bit (compute_chars_to_remove q m b e nb nq doubled) i \<longleftrightarrow> bit q i \<and>
     (if bit m i then \<not> (if i = 63 then nb else bit b (i + 1))
      else \<not> bit e i \<and> (doubled \<longrightarrow> \<not> (if i = 63 then nq else bit q (i + 1))))"
  using bit_u64_bound[of q i] bit_u64_bound[of b "i + 1"] bit_u64_bound[of q "i + 1"]
  by (auto simp: compute_chars_to_remove_def Let_def word_bits)

lemma find_pad: "\<exists>x. neutral_pad d t t2 q = Some x \<and> x \<noteq> d \<and> x \<noteq> t \<and> t2 \<noteq> Some x \<and> q \<noteq> Some x"
proof -
  let ?P = "\<lambda>x. x \<noteq> d \<and> x \<noteq> t \<and> t2 \<noteq> Some x \<and> q \<noteq> Some x"
  have univ: "set all_bytes = UNIV" by (rule set_all_bytes)
  have "card {d, t, the t2, the q} \<le> 4" by (simp add: card_insert_if)
  moreover have "card (UNIV :: byte set) = 256" by (simp add: card_word)
  ultimately have "card {d, t, the t2, the q} \<noteq> card (UNIV :: byte set)" by simp
  then have "{d, t, the t2, the q} \<noteq> UNIV" by (rule contrapos_nn) (rule arg_cong)
  then obtain x where "x \<notin> {d, t, the t2, the q}" by blast
  then have "\<exists>x\<in>set all_bytes. ?P x" unfolding univ by (intro bexI[of _ x]) auto
  then obtain x where "List.find ?P all_bytes = Some x" by (cases "List.find ?P all_bytes") (auto simp: find_None_iff)
  then show ?thesis by (auto simp: neutral_pad_def find_Some_iff)
qed

context lawful_isa begin

lemma match_structural_bits:
  fixes d t :: byte and t2 q :: "byte option"
  assumes "length v = 64"
  defines "s \<equiv> match_structural I v d t t2 q"
  shows "bit (delim_bits s) i \<longleftrightarrow> i < 64 \<and> v ! i = d"
    and "bit (term_bits s) i \<longleftrightarrow> i < 64 \<and> (v ! i = t \<or> t2 = Some (v ! i))"
    and "bit (quote_bits s) i \<longleftrightarrow> i < 64 \<and> q = Some (v ! i)"
  by (auto simp: s_def match_structural_def eq_mask_bits[OF assms(1)] bit_or_iff split: option.split)

lemma in_quotes_bits:
  assumes "compute_in_quotes I q carry = (m, carry')"
  shows "bit m i \<longleftrightarrow> i < 64 \<and> (carry \<noteq> odd (card {j. j \<le> i \<and> bit q j}))"
    and "carry' \<longleftrightarrow> bit m 63"
proof -
  have none: "q = 0 \<Longrightarrow> {j. j \<le> i \<and> bit q j} = {}" for i by simp
  show "bit m i \<longleftrightarrow> i < 64 \<and> (carry \<noteq> odd (card {j. j \<le> i \<and> bit q j}))"
    using assms none[of i]
    by (cases carry) (auto simp: compute_in_quotes_def Let_def bit_not_iff xor_prefix_bits split: if_splits)
  show "carry' \<longleftrightarrow> bit m 63"
    using assms by (auto simp: compute_in_quotes_def Let_def msb_iff split: if_splits)
qed

end

end
