(* ===== verification/Scan.thy ===== *)
theory Scan
  imports Bitmask
begin

text \<open>
  src/src/parser/simd/scan.rs: the bitmask pipeline across vectors. A vector's field ends and removals depend on
  bit 0 of the next one, so the scanner lags one vector behind and carries what the next one needs. The lemmas
  give the masks of a whole stream of vectors by position.
\<close>

unbundle bit_operations_syntax

section \<open>The scanner\<close>

definition derive_b_lsb :: "BeginsCarry \<Rightarrow> bool \<Rightarrow> bool" where
  "derive_b_lsb carry next_quote_lsb \<longleftrightarrow> d_struct_msb carry \<and> \<not> next_quote_lsb \<or> qb_msb carry"

record ScannerConfig =
  sc_delim :: byte
  sc_term :: byte
  sc_term_b :: "byte option"
  sc_quote :: "byte option"
  sc_doubled_quotes :: bool

record VectorOutput =
  vo_b :: u64
  vo_e :: u64
  vo_r :: u64
  vo_d_struct :: u64
  vo_term :: u64

record Pending =
  pd_structural :: Structural
  pd_m :: u64

record Lookahead =
  delim_ooq :: u64
  term_ooq :: u64
  la_quote :: u64

record Scanner =
  sn_config :: ScannerConfig
  in_quotes_carry :: bool
  begins_carry :: BeginsCarry
  ends_carry :: bool
  prev_term_msb :: bool
  sn_pending :: "Pending option"

definition scanner_new :: "ScannerConfig \<Rightarrow> Scanner" where
  "scanner_new cfg = \<lparr>sn_config = cfg, in_quotes_carry = False, begins_carry = \<lparr>d_struct_msb = False, qb_msb = False\<rparr>,
     ends_carry = False, prev_term_msb = False, sn_pending = None\<rparr>"

section \<open>Resolving a vector\<close>

definition resolve_unquoted :: "Pending \<Rightarrow> bool \<Rightarrow> Scanner \<Rightarrow> VectorOutput \<times> Scanner" where
  "resolve_unquoted prev next_term_lsb sn =
     (let p_delim_ooq = delim_bits (pd_structural prev);
          p_term_ooq = term_bits (pd_structural prev);
          run_end = terminator_run_ends p_term_ooq next_term_lsb;
          run_start = terminator_run_starts p_term_ooq (prev_term_msb sn);
          d_struct_b = p_delim_ooq OR run_end;
          d_struct_e = p_delim_ooq OR run_start;
          b = (push_bit 1 d_struct_b OR of_bool (d_struct_msb (begins_carry sn))) OR of_bool (qb_msb (begins_carry sn));
          e = d_struct_e AND NOT (of_bool (ends_carry sn))
      in (\<lparr>vo_b = b, vo_e = e, vo_r = 0, vo_d_struct = d_struct_b, vo_term = run_end\<rparr>,
          sn\<lparr>begins_carry := \<lparr>d_struct_msb = (drop_bit 63 d_struct_b AND 1 \<noteq> 0), qb_msb = False\<rparr>,
             ends_carry := False, prev_term_msb := (drop_bit 63 p_term_ooq AND 1 \<noteq> 0)\<rparr>))"

text \<open>The body of \<open>resolve\<close> past its shortcut; \<open>None\<close> is the end of the input.\<close>

definition resolve_general :: "Pending \<Rightarrow> Lookahead option \<Rightarrow> Scanner \<Rightarrow> VectorOutput \<times> Scanner" where
  "resolve_general prev nxt sn =
     (let q = quote_bits (pd_structural prev); m = pd_m prev;
          p_delim_ooq = delim_bits (pd_structural prev) AND NOT m;
          p_term_ooq = term_bits (pd_structural prev) AND NOT m;
          (next_delim_ooq, next_term_ooq, next_quote) =
            (case nxt of None \<Rightarrow> (0, 0, 0) | Some n \<Rightarrow> (delim_ooq n, term_ooq n, la_quote n));
          run_end = terminator_run_ends p_term_ooq (next_term_ooq AND 1 \<noteq> 0);
          run_start = terminator_run_starts p_term_ooq (prev_term_msb sn);
          d_struct_b = p_delim_ooq OR run_end;
          d_struct_e = p_delim_ooq OR run_start;
          (b, carry) = compute_field_begins d_struct_b q (begins_carry sn);
          next_run_start0 = (next_term_ooq AND 1 \<noteq> 0 \<and> drop_bit 63 p_term_ooq AND 1 = 0);
          next_d_lsb = (next_delim_ooq AND 1 \<noteq> 0 \<or> next_run_start0);
          (e, qe_msb) = compute_field_ends d_struct_e q m next_d_lsb (ends_carry sn);
          next_b_lsb = (nxt \<noteq> None \<and> derive_b_lsb carry (next_quote AND 1 \<noteq> 0));
          r = compute_chars_to_remove q m b e next_b_lsb (next_quote AND 1 \<noteq> 0) (sc_doubled_quotes (sn_config sn))
      in (\<lparr>vo_b = b, vo_e = e, vo_r = r, vo_d_struct = d_struct_b, vo_term = run_end\<rparr>,
          sn\<lparr>begins_carry := carry, ends_carry := qe_msb, prev_term_msb := (drop_bit 63 p_term_ooq AND 1 \<noteq> 0)\<rparr>))"

definition scanner_resolve :: "Pending \<Rightarrow> Lookahead option \<Rightarrow> Scanner \<Rightarrow> VectorOutput \<times> Scanner" where
  "scanner_resolve prev nxt sn =
     (if quote_bits (pd_structural prev) = 0 \<and> pd_m prev = 0
      then resolve_unquoted prev (case nxt of None \<Rightarrow> False | Some n \<Rightarrow> term_ooq n AND 1 \<noteq> 0) sn
      else resolve_general prev nxt sn)"

section \<open>The stream\<close>

definition scanner_step :: "isa \<Rightarrow> byte list \<Rightarrow> Scanner \<Rightarrow> VectorOutput option \<times> Scanner" where
  "scanner_step I v sn =
     (let cfg = sn_config sn;
          s = match_structural I v (sc_delim cfg) (sc_term cfg) (sc_term_b cfg) (sc_quote cfg);
          (m, carry) = compute_in_quotes I (quote_bits s) (in_quotes_carry sn);
          nxt = \<lparr>delim_ooq = delim_bits s AND NOT m, term_ooq = term_bits s AND NOT m, la_quote = quote_bits s\<rparr>;
          (out, sn) = (case sn_pending sn of
              None \<Rightarrow> (None, sn)
            | Some prev \<Rightarrow> (let (o', sn) = scanner_resolve prev (Some nxt) (sn\<lparr>sn_pending := None\<rparr>) in (Some o', sn)))
      in (out, sn\<lparr>sn_pending := Some \<lparr>pd_structural = s, pd_m = m\<rparr>, in_quotes_carry := carry\<rparr>))"

definition scanner_in_quotes :: "Scanner \<Rightarrow> bool" where
  "scanner_in_quotes sn = in_quotes_carry sn"

definition scanner_finalize :: "Scanner \<Rightarrow> VectorOutput option \<times> Scanner" where
  "scanner_finalize sn = (case sn_pending sn of
       None \<Rightarrow> (None, sn)
     | Some prev \<Rightarrow> (let (o', sn) = scanner_resolve prev None (sn\<lparr>sn_pending := None\<rparr>) in (Some o', sn)))"

section \<open>The shortcut\<close>

text \<open>Without quotes every quote-dependent term of the general body folds away.\<close>

lemma resolve_shortcut: "scanner_resolve prev nxt sn = resolve_general prev nxt sn"
proof (cases "quote_bits (pd_structural prev) = 0 \<and> pd_m prev = 0")
  case True
  obtain nd nt nq where n: "(case nxt of None \<Rightarrow> (0, 0, 0) | Some n \<Rightarrow> (delim_ooq n, term_ooq n, la_quote n)) = (nd, nt, nq)"
    by (cases "case nxt of None \<Rightarrow> (0, 0, 0) | Some n \<Rightarrow> (delim_ooq n, term_ooq n, la_quote n)") auto
  then have nt: "(case nxt of None \<Rightarrow> False | Some n \<Rightarrow> term_ooq n AND 1 \<noteq> 0) = (nt AND 1 \<noteq> 0)"
    by (cases nxt) auto
  from True show ?thesis
    unfolding scanner_resolve_def resolve_unquoted_def resolve_general_def n nt compute_field_begins_def
      compute_field_ends_def compute_chars_to_remove_def Let_def msb_iff
    by (simp add: bit_or_iff)
qed (auto simp: scanner_resolve_def)

section \<open>The masks by position\<close>

text \<open>The outputs of a whole stream of vectors, the last one drained at the end of the input.\<close>

fun scanner_run :: "isa \<Rightarrow> byte list list \<Rightarrow> Scanner \<Rightarrow> VectorOutput list \<times> Scanner" where
  "scanner_run I [] sn =
     (case scanner_finalize sn of (None, sn') \<Rightarrow> ([], sn') | (Some o', sn') \<Rightarrow> ([o'], sn'))"
| "scanner_run I (v # vs) sn =
     (case scanner_step I v sn of (out, sn1) \<Rightarrow>
        (case scanner_run I vs sn1 of (outs, sn2) \<Rightarrow> ((case out of None \<Rightarrow> outs | Some o' \<Rightarrow> o' # outs), sn2)))"

text \<open>What each mask means of the bytes \<open>xs\<close> of the stream.\<close>

definition quote_at :: "ScannerConfig \<Rightarrow> byte list \<Rightarrow> nat \<Rightarrow> bool" where
  "quote_at cfg xs k \<longleftrightarrow> k < length xs \<and> sc_quote cfg = Some (xs ! k)"

definition quoted_at :: "ScannerConfig \<Rightarrow> byte list \<Rightarrow> nat \<Rightarrow> bool" where
  "quoted_at cfg xs k \<longleftrightarrow> odd (card {j. j \<le> k \<and> quote_at cfg xs j})"

definition delim_at :: "ScannerConfig \<Rightarrow> byte list \<Rightarrow> nat \<Rightarrow> bool" where
  "delim_at cfg xs k \<longleftrightarrow> k < length xs \<and> xs ! k = sc_delim cfg \<and> \<not> quoted_at cfg xs k"

definition term_at :: "ScannerConfig \<Rightarrow> byte list \<Rightarrow> nat \<Rightarrow> bool" where
  "term_at cfg xs k \<longleftrightarrow> k < length xs \<and> (xs ! k = sc_term cfg \<or> sc_term_b cfg = Some (xs ! k)) \<and> \<not> quoted_at cfg xs k"

text \<open>A run of terminators ends a record at its last byte and a field at its first.\<close>

definition run_end_at :: "ScannerConfig \<Rightarrow> byte list \<Rightarrow> nat \<Rightarrow> bool" where
  "run_end_at cfg xs k \<longleftrightarrow> term_at cfg xs k \<and> \<not> term_at cfg xs (k + 1)"

definition struct_at :: "ScannerConfig \<Rightarrow> byte list \<Rightarrow> nat \<Rightarrow> bool" where
  "struct_at cfg xs k \<longleftrightarrow> delim_at cfg xs k \<or> run_end_at cfg xs k"

definition field_close_at :: "ScannerConfig \<Rightarrow> byte list \<Rightarrow> nat \<Rightarrow> bool" where
  "field_close_at cfg xs k \<longleftrightarrow> delim_at cfg xs k \<or> term_at cfg xs k \<and> \<not> (0 < k \<and> term_at cfg xs (k - 1))"

text \<open>A quote right after a boundary opens its field; the field begins behind it.\<close>

definition opener_at :: "ScannerConfig \<Rightarrow> byte list \<Rightarrow> nat \<Rightarrow> bool" where
  "opener_at cfg xs k \<longleftrightarrow> quote_at cfg xs k \<and> 0 < k \<and> struct_at cfg xs (k - 1)"

definition begin_at :: "ScannerConfig \<Rightarrow> byte list \<Rightarrow> nat \<Rightarrow> bool" where
  "begin_at cfg xs k \<longleftrightarrow> k < length xs \<and> 0 < k \<and>
     (struct_at cfg xs (k - 1) \<and> \<not> quote_at cfg xs k \<or> opener_at cfg xs (k - 1))"

text \<open>A closing quote right before the end of its field is where the field ends.\<close>

definition closer_at :: "ScannerConfig \<Rightarrow> byte list \<Rightarrow> nat \<Rightarrow> bool" where
  "closer_at cfg xs k \<longleftrightarrow> quote_at cfg xs k \<and> \<not> quoted_at cfg xs k \<and> field_close_at cfg xs (k + 1)"

definition end_at :: "ScannerConfig \<Rightarrow> byte list \<Rightarrow> nat \<Rightarrow> bool" where
  "end_at cfg xs k \<longleftrightarrow> closer_at cfg xs k \<or> field_close_at cfg xs k \<and> \<not> (0 < k \<and> closer_at cfg xs (k - 1))"

text \<open>Quotes that are no content: not the first of a doubled pair, and not where a field begins behind or ends.\<close>

definition removed_at :: "ScannerConfig \<Rightarrow> byte list \<Rightarrow> nat \<Rightarrow> bool" where
  "removed_at cfg xs k \<longleftrightarrow> quote_at cfg xs k \<and>
     (if quoted_at cfg xs k then \<not> begin_at cfg xs (k + 1)
      else \<not> end_at cfg xs k \<and> (sc_doubled_quotes cfg \<longrightarrow> \<not> quote_at cfg xs (k + 1)))"

definition output_of :: "ScannerConfig \<Rightarrow> byte list \<Rightarrow> nat \<Rightarrow> VectorOutput \<Rightarrow> bool" where
  "output_of cfg xs p out \<longleftrightarrow> (\<forall>j<64.
     bit (vo_d_struct out) j = struct_at cfg xs (p + j) \<and> bit (vo_term out) j = run_end_at cfg xs (p + j) \<and>
     bit (vo_b out) j = begin_at cfg xs (p + j) \<and> bit (vo_e out) j = end_at cfg xs (p + j) \<and>
     bit (vo_r out) j = removed_at cfg xs (p + j))"

text \<open>The masks of the vector at \<open>p\<close>, and the carries once everything before \<open>p\<close> is resolved.\<close>

definition masks_at :: "ScannerConfig \<Rightarrow> byte list \<Rightarrow> nat \<Rightarrow> Pending \<Rightarrow> bool" where
  "masks_at cfg xs p pd \<longleftrightarrow> (\<forall>j<64.
     (bit (delim_bits (pd_structural pd)) j \<and> \<not> bit (pd_m pd) j) = delim_at cfg xs (p + j) \<and>
     (bit (term_bits (pd_structural pd)) j \<and> \<not> bit (pd_m pd) j) = term_at cfg xs (p + j) \<and>
     bit (quote_bits (pd_structural pd)) j = quote_at cfg xs (p + j) \<and>
     bit (pd_m pd) j = quoted_at cfg xs (p + j))"

definition carries_at :: "ScannerConfig \<Rightarrow> byte list \<Rightarrow> nat \<Rightarrow> Scanner \<Rightarrow> bool" where
  "carries_at cfg xs p sn \<longleftrightarrow>
     d_struct_msb (begins_carry sn) = (0 < p \<and> struct_at cfg xs (p - 1)) \<and>
     qb_msb (begins_carry sn) = (0 < p \<and> opener_at cfg xs (p - 1)) \<and>
     ends_carry sn = (0 < p \<and> closer_at cfg xs (p - 1)) \<and>
     prev_term_msb sn = (0 < p \<and> term_at cfg xs (p - 1))"

lemma resolve_at:
  assumes pd: "masks_at cfg xs p pd" and ca: "carries_at cfg xs p sn" and cfg: "sn_config sn = cfg"
    and "p + 64 \<le> length xs"
    and nxt: "case nxt of None \<Rightarrow> p + 64 = length xs | Some n \<Rightarrow> p + 64 < length xs \<and>
      (bit (delim_ooq n) 0 = delim_at cfg xs (p + 64)) \<and> (bit (term_ooq n) 0 = term_at cfg xs (p + 64)) \<and>
      (bit (la_quote n) 0 = quote_at cfg xs (p + 64))"
    and res: "scanner_resolve pd nxt sn = (out, sn')"
  shows "output_of cfg xs p out" and "carries_at cfg xs (p + 64) sn'"
    and "sn' = sn\<lparr>begins_carry := begins_carry sn', ends_carry := ends_carry sn', prev_term_msb := prev_term_msb sn'\<rparr>"
proof -
  define q where "q = quote_bits (pd_structural pd)"
  define m where "m = pd_m pd"
  define pdl where "pdl = delim_bits (pd_structural pd) AND NOT m"
  define pt where "pt = term_bits (pd_structural pd) AND NOT m"
  obtain nd nt nq where n: "(case nxt of None \<Rightarrow> (0, 0, 0) | Some n \<Rightarrow> (delim_ooq n, term_ooq n, la_quote n)) = (nd, nt, nq)"
    by (cases "case nxt of None \<Rightarrow> (0, 0, 0) | Some n \<Rightarrow> (delim_ooq n, term_ooq n, la_quote n)") auto
  have beyond: "\<not> delim_at cfg xs (length xs)" "\<not> term_at cfg xs (length xs)" "\<not> quote_at cfg xs (length xs)"
    by (simp_all add: delim_at_def term_at_def quote_at_def)
  have next_bits: "bit nd 0 = delim_at cfg xs (p + 64)" "bit nt 0 = term_at cfg xs (p + 64)" "bit nq 0 = quote_at cfg xs (p + 64)"
    "(nxt \<noteq> None) = (p + 64 < length xs)"
    using n nxt beyond by (auto split: option.splits)
  define re where "re = terminator_run_ends pt (nt AND 1 \<noteq> 0)"
  define rs where "rs = terminator_run_starts pt (prev_term_msb sn)"
  obtain b carry where b: "compute_field_begins (pdl OR re) q (begins_carry sn) = (b, carry)" by fastforce
  define nxd where "nxd = (nd AND 1 \<noteq> 0 \<or> nt AND 1 \<noteq> 0 \<and> drop_bit 63 pt AND 1 = 0)"
  obtain e qe where e: "compute_field_ends (pdl OR rs) q m nxd (ends_carry sn) = (e, qe)" by fastforce
  define nb where "nb = (nxt \<noteq> None \<and> derive_b_lsb carry (nq AND 1 \<noteq> 0))"
  define r where "r = compute_chars_to_remove q m b e nb (nq AND 1 \<noteq> 0) (sc_doubled_quotes cfg)"
  have out: "out = \<lparr>vo_b = b, vo_e = e, vo_r = r, vo_d_struct = pdl OR re, vo_term = re\<rparr>"
    "sn' = sn\<lparr>begins_carry := carry, ends_carry := qe, prev_term_msb := (drop_bit 63 pt AND 1 \<noteq> 0)\<rparr>"
    using res unfolding resolve_shortcut resolve_general_def Let_def q_def[symmetric] m_def[symmetric] n prod.case cfg
      pdl_def[symmetric] pt_def[symmetric] re_def[symmetric] rs_def[symmetric] b nxd_def[symmetric] e nb_def[symmetric] r_def[symmetric]
    by auto
  have Q: "bit q j = quote_at cfg xs (p + j)" and M: "bit m j = quoted_at cfg xs (p + j)"
    and D: "bit pdl j = delim_at cfg xs (p + j)" and T: "bit pt j = term_at cfg xs (p + j)" if "j < 64" for j
    using pd that by (auto simp: masks_at_def q_def m_def pdl_def pt_def bit_and_iff bit_not_iff)
  have next_pos: "p + 63 + 1 = p + 64" and prev_pos: "p + 64 - 1 = p + 63" by simp_all
  have RE: "bit re j = run_end_at cfg xs (p + j)" if "j < 64" for j
  proof (cases "j = 63")
    case True
    show ?thesis using T[of 63] next_bits(2) unfolding True next_pos re_def bit_run_ends run_end_at_def lsb_iff by simp
  next
    case False
    then have "j + 1 < 64" using that by simp
    then show ?thesis using T[OF that] T[of "j + 1"] False unfolding re_def bit_run_ends run_end_at_def by (simp add: add.assoc)
  qed
  have RS: "bit (pdl OR rs) j = field_close_at cfg xs (p + j)" if "j < 64" for j
  proof (cases "j = 0")
    case True
    then show ?thesis using T[of 0] D[of 0] ca unfolding rs_def bit_or_iff bit_run_starts field_close_at_def carries_at_def by simp
  next
    case False
    then have "j - 1 < 64" "p + j - 1 = p + (j - 1)" "0 < p + j" using that by auto
    then show ?thesis using T[OF that] T[of "j - 1"] D[OF that] False unfolding rs_def bit_or_iff bit_run_starts field_close_at_def by simp
  qed
  have DS: "bit (pdl OR re) j = struct_at cfg xs (p + j)" if "j < 64" for j
    using D[OF that] RE[OF that] by (simp add: bit_or_iff struct_at_def)
  have OP: "opener_at cfg xs (p + j) \<longleftrightarrow> bit q j \<and> (if j = 0 then d_struct_msb (begins_carry sn) else bit (pdl OR re) (j - 1))"
    if "j < 64" for j
  proof (cases "j = 0")
    case True
    then show ?thesis using Q[of 0] ca by (auto simp: opener_at_def carries_at_def)
  next
    case False
    then have "j - 1 < 64" "p + j - 1 = p + (j - 1)" "0 < p + j" using that by auto
    then show ?thesis using Q[OF that] DS[of "j - 1"] False by (auto simp: opener_at_def)
  qed
  have B: "bit b j = begin_at cfg xs (p + j)" if "j < 64" for j
  proof -
    have len: "p + j < length xs" using that assms(4) by simp
    show ?thesis
    proof (cases "j = 0")
      case True
      then show ?thesis using bit_field_begins(1)[OF b, of 0] Q[of 0] ca len by (auto simp: begin_at_def carries_at_def)
    next
      case False
      then have j: "j - 1 < 64" "p + j - 1 = p + (j - 1)" "0 < p + j" using that by auto
      have j2: "j - 1 = 0 \<longleftrightarrow> j = 1" "j - 1 - 1 = j - 2" using False by auto
      show ?thesis
        using bit_field_begins(1)[OF b, of j] Q[OF that] DS[OF j(1)] OP[OF j(1)] False that j len
        unfolding begin_at_def j(2) j2 by auto
    qed
  qed
  have carry: "d_struct_msb carry = struct_at cfg xs (p + 63)" "qb_msb carry = opener_at cfg xs (p + 63)"
    using bit_field_begins(2,3)[OF b] DS[of 63] OP[of 63] by simp_all
  have nxd: "nxd = field_close_at cfg xs (p + 64)"
  proof -
    have "(drop_bit 63 pt AND 1 = 0) = (\<not> term_at cfg xs (p + 63))" using T[of 63] msb_iff(1)[of pt] by auto
    then show ?thesis using next_bits(1,2) unfolding nxd_def lsb_iff field_close_at_def prev_pos by auto
  qed
  have CL: "closer_at cfg xs (p + j) \<longleftrightarrow> bit q j \<and> \<not> bit m j \<and> (if j = 63 then nxd else bit (pdl OR rs) (j + 1))" if "j < 64" for j
  proof (cases "j = 63")
    case True
    show ?thesis using Q[of 63] M[of 63] nxd unfolding True closer_at_def next_pos by simp
  next
    case False
    then have "j + 1 < 64" using that by simp
    from RS[OF this] show ?thesis using Q[OF that] M[OF that] False by (simp add: closer_at_def add.assoc)
  qed
  have E: "bit e j = end_at cfg xs (p + j)" if "j < 64" for j
  proof (cases "j = 0")
    case True
    then show ?thesis using bit_field_ends(1)[OF e, of 0] RS[of 0] CL[of 0] ca by (auto simp: end_at_def carries_at_def)
  next
    case False
    then have j: "j - 1 < 64" "p + j - 1 = p + (j - 1)" "0 < p + j" using that by auto
    show ?thesis
      using bit_field_ends(1)[OF e, of j] RS[OF that] CL[OF that] CL[OF j(1)] False that unfolding end_at_def j(2) using j(3) by auto
  qed
  have qe: "qe = closer_at cfg xs (p + 63)" using bit_field_ends(2)[OF e] CL[of 63] by simp
  have nb: "nb = begin_at cfg xs (p + 64)"
    using next_bits(3,4) carry unfolding nb_def derive_b_lsb_def lsb_iff begin_at_def prev_pos by auto
  have R: "bit r j = removed_at cfg xs (p + j)" if "j < 64" for j
  proof (cases "j = 63")
    case True
    show ?thesis
      using Q[of 63] M[of 63] E[of 63] nb next_bits(3) unfolding True next_pos r_def bit_chars_to_remove removed_at_def lsb_iff
      by simp
  next
    case False
    then have "j + 1 < 64" using that by simp
    then show ?thesis
      using Q[OF that] M[OF that] E[OF that] B[of "j + 1"] Q[of "j + 1"] False unfolding r_def bit_chars_to_remove removed_at_def
      by (simp add: add.assoc)
  qed
  show "output_of cfg xs p out" unfolding output_of_def out(1) using DS RE B E R by simp
  show "carries_at cfg xs (p + 64) sn'"
    unfolding carries_at_def out(2) prev_pos using carry qe T[of 63] by (simp add: msb_iff)
  show "sn' = sn\<lparr>begins_carry := begins_carry sn', ends_carry := ends_carry sn', prev_term_msb := prev_term_msb sn'\<rparr>"
    by (simp add: out(2))
qed

section \<open>The whole stream\<close>

lemma quoted_at_vector:
  "quoted_at cfg xs (p + i) \<longleftrightarrow> (0 < p \<and> quoted_at cfg xs (p - 1)) \<noteq> odd (card {j. j \<le> i \<and> quote_at cfg xs (p + j)})"
proof -
  let ?A = "{j. j < p \<and> quote_at cfg xs j}" and ?B = "{j. j \<le> i \<and> quote_at cfg xs (p + j)}"
  have "{j. j \<le> p + i \<and> quote_at cfg xs j} = ?A \<union> (\<lambda>j. p + j) ` ?B"
  proof (intro equalityI subsetI)
    fix j assume "j \<in> {j. j \<le> p + i \<and> quote_at cfg xs j}"
    then show "j \<in> ?A \<union> (\<lambda>j. p + j) ` ?B" by (cases "j < p") (auto intro!: image_eqI[of _ _ "j - p"])
  qed auto
  moreover have "?A \<inter> (\<lambda>j. p + j) ` ?B = {}" by auto
  ultimately have "card {j. j \<le> p + i \<and> quote_at cfg xs j} = card ?A + card ((\<lambda>j. p + j) ` ?B)"
    by (simp add: card_Un_disjoint)
  moreover have "card ((\<lambda>j. p + j) ` ?B) = card ?B" by (intro card_image) simp
  moreover have "odd (card ?A) \<longleftrightarrow> 0 < p \<and> quoted_at cfg xs (p - 1)"
  proof (cases p)
    case (Suc p')
    then have "?A = {j. j \<le> p - 1 \<and> quote_at cfg xs j}" by auto
    then show ?thesis using Suc by (simp add: quoted_at_def)
  qed simp
  ultimately have "odd (card {j. j \<le> p + i \<and> quote_at cfg xs j}) \<longleftrightarrow> (0 < p \<and> quoted_at cfg xs (p - 1)) \<noteq> odd (card ?B)"
    by (simp add: odd_add) blast
  then show ?thesis by (simp only: quoted_at_def)
qed

definition scanner_at :: "ScannerConfig \<Rightarrow> byte list \<Rightarrow> nat \<Rightarrow> Scanner \<Rightarrow> bool" where
  "scanner_at cfg xs p sn \<longleftrightarrow> sn_config sn = cfg \<and> in_quotes_carry sn = (0 < p \<and> quoted_at cfg xs (p - 1)) \<and>
     (case sn_pending sn of
        None \<Rightarrow> p = 0 \<and> carries_at cfg xs 0 sn
      | Some pd \<Rightarrow> 64 \<le> p \<and> masks_at cfg xs (p - 64) pd \<and> carries_at cfg xs (p - 64) sn)"

text \<open>Where the next output starts.\<close>

definition next_output :: "nat \<Rightarrow> Scanner \<Rightarrow> nat" where
  "next_output p sn = (if sn_pending sn = None then p else p - 64)"

lemma scanner_new_at: "scanner_at cfg xs 0 (scanner_new cfg)"
  by (simp add: scanner_at_def scanner_new_def carries_at_def)

context lawful_isa begin

lemma masks_of_vector:
  assumes v: "v = subslice xs p (p + 64)" and "p + 64 \<le> length xs"
    and s: "match_structural I v (sc_delim cfg) (sc_term cfg) (sc_term_b cfg) (sc_quote cfg) = s"
    and m: "compute_in_quotes I (quote_bits s) (0 < p \<and> quoted_at cfg xs (p - 1)) = (m, carry)"
  shows "masks_at cfg xs p \<lparr>pd_structural = s, pd_m = m\<rparr>" and "carry = quoted_at cfg xs (p + 63)"
proof -
  have len: "length v = 64" using assms(2) by (simp add: v)
  have nth: "v ! j = xs ! (p + j)" if "j < 64" for j using that assms(2) by (simp add: v slice_nth)
  note bits = match_structural_bits[OF len, of "sc_delim cfg" "sc_term cfg" "sc_term_b cfg" "sc_quote cfg", unfolded s]
  have q: "bit (quote_bits s) j \<longleftrightarrow> j < 64 \<and> quote_at cfg xs (p + j)" for j
    using assms(2) nth[of j] unfolding bits(3) by (auto simp: quote_at_def)
  have mq: "bit m j = quoted_at cfg xs (p + j)" if "j < 64" for j
  proof -
    have "{i. i \<le> j \<and> bit (quote_bits s) i} = {i. i \<le> j \<and> quote_at cfg xs (p + i)}" using that by (auto simp: q)
    then show ?thesis using that unfolding in_quotes_bits(1)[OF m] quoted_at_vector[of cfg xs p j] by simp
  qed
  show "carry = quoted_at cfg xs (p + 63)" unfolding in_quotes_bits(2)[OF m] by (rule mq) simp
  show "masks_at cfg xs p \<lparr>pd_structural = s, pd_m = m\<rparr>"
    using assms(2) nth by (auto simp: masks_at_def bits(1,2) q mq delim_at_def term_at_def)
qed

lemma scanner_step_ok:
  assumes at: "scanner_at cfg xs p sn" and v: "v = subslice xs p (p + 64)" and len: "p + 64 \<le> length xs"
    and step: "scanner_step I v sn = (out, sn')"
  shows "scanner_at cfg xs (p + 64) sn'" and "sn_pending sn' \<noteq> None"
    and "case out of None \<Rightarrow> sn_pending sn = None | Some o' \<Rightarrow> sn_pending sn \<noteq> None \<and> output_of cfg xs (p - 64) o'"
proof -
  have cfg: "sn_config sn = cfg" and iq: "in_quotes_carry sn = (0 < p \<and> quoted_at cfg xs (p - 1))"
    using at by (simp_all add: scanner_at_def)
  define s where "s = match_structural I v (sc_delim cfg) (sc_term cfg) (sc_term_b cfg) (sc_quote cfg)"
  obtain m carry where m: "compute_in_quotes I (quote_bits s) (0 < p \<and> quoted_at cfg xs (p - 1)) = (m, carry)" by fastforce
  note mk = masks_of_vector[OF v len s_def[symmetric] m]
  define nxt where "nxt = \<lparr>delim_ooq = delim_bits s AND NOT m, term_ooq = term_bits s AND NOT m, la_quote = quote_bits s\<rparr>"
  have n0: "bit (delim_ooq nxt) 0 = delim_at cfg xs p" "bit (term_ooq nxt) 0 = term_at cfg xs p" "bit (la_quote nxt) 0 = quote_at cfg xs p"
    using mk(1)[unfolded masks_at_def, rule_format, of 0] by (auto simp: nxt_def bit_and_iff bit_not_iff)
  note unf = step[unfolded scanner_step_def Let_def cfg iq, folded s_def, unfolded m prod.case, folded nxt_def]
  have "p + 64 - 1 = p + 63" by simp
  note carry = mk(2)[folded this]
  show "scanner_at cfg xs (p + 64) sn'" "sn_pending sn' \<noteq> None"
    "case out of None \<Rightarrow> sn_pending sn = None | Some o' \<Rightarrow> sn_pending sn \<noteq> None \<and> output_of cfg xs (p - 64) o'"
  proof -
    have "scanner_at cfg xs (p + 64) sn' \<and> sn_pending sn' \<noteq> None \<and>
      (case out of None \<Rightarrow> sn_pending sn = None | Some o' \<Rightarrow> sn_pending sn \<noteq> None \<and> output_of cfg xs (p - 64) o')"
    proof (cases "sn_pending sn")
      case None
      then have "out = None" "sn' = sn\<lparr>sn_pending := Some \<lparr>pd_structural = s, pd_m = m\<rparr>, in_quotes_carry := carry\<rparr>" "p = 0"
        using unf at by (auto simp: scanner_at_def)
      then show ?thesis using at None mk(1) carry cfg by (simp add: scanner_at_def carries_at_def)
    next
      case (Some pd)
      then have p: "64 \<le> p" "masks_at cfg xs (p - 64) pd" "carries_at cfg xs (p - 64) sn" using at by (simp_all add: scanner_at_def)
      obtain o' sn1 where r: "scanner_resolve pd (Some nxt) (sn\<lparr>sn_pending := None\<rparr>) = (o', sn1)" by fastforce
      have pp: "p - 64 + 64 = p" "p - 64 + 64 \<le> length xs" using p(1) len by simp_all
      have ca: "carries_at cfg xs (p - 64) (sn\<lparr>sn_pending := None\<rparr>)" using p(3) by (simp add: carries_at_def)
      have cf: "sn_config (sn\<lparr>sn_pending := None\<rparr>) = cfg" using cfg by simp
      have nx: "case Some nxt of None \<Rightarrow> p - 64 + 64 = length xs | Some n \<Rightarrow> p - 64 + 64 < length xs \<and>
          (bit (delim_ooq n) 0 = delim_at cfg xs (p - 64 + 64)) \<and> (bit (term_ooq n) 0 = term_at cfg xs (p - 64 + 64)) \<and>
          (bit (la_quote n) 0 = quote_at cfg xs (p - 64 + 64))"
        unfolding pp(1) using n0 len by simp
      note ra = resolve_at[OF p(2) ca cf pp(2) nx r, unfolded pp(1)]
      have out: "out = Some o'" "sn' = sn1\<lparr>sn_pending := Some \<lparr>pd_structural = s, pd_m = m\<rparr>, in_quotes_carry := carry\<rparr>"
        using unf Some r by auto
      have "sn_config sn1 = cfg" by (subst ra(3)) (simp add: cfg)
      then have "scanner_at cfg xs (p + 64) sn'"
        unfolding scanner_at_def out(2) using mk(1) carry ra(2) by (simp add: carries_at_def)
      then show ?thesis using out ra(1) Some by simp
    qed
    then show "scanner_at cfg xs (p + 64) sn'" "sn_pending sn' \<noteq> None"
      "case out of None \<Rightarrow> sn_pending sn = None | Some o' \<Rightarrow> sn_pending sn \<noteq> None \<and> output_of cfg xs (p - 64) o'"
      by simp_all
  qed
qed

lemma scanner_run_ok:
  assumes "scanner_at cfg xs p sn" and "drop p xs = concat vs" and "\<forall>v\<in>set vs. length v = 64" and "p \<le> length xs"
    and "scanner_run I vs sn = (outs, sn')"
  shows "length outs * 64 = length xs - next_output p sn \<and>
    (\<forall>i<length outs. output_of cfg xs (next_output p sn + 64 * i) (outs ! i)) \<and>
    (scanner_in_quotes sn' \<longleftrightarrow> xs \<noteq> [] \<and> quoted_at cfg xs (length xs - 1))"
  using assms
proof (induction vs arbitrary: p sn outs sn')
  case Nil
  then have p: "p = length xs" by simp
  show ?case
  proof (cases "sn_pending sn")
    case None
    then show ?thesis using Nil p by (auto simp: scanner_at_def next_output_def scanner_finalize_def scanner_in_quotes_def)
  next
    case (Some pd)
    then have at: "64 \<le> p" "masks_at cfg xs (p - 64) pd" "carries_at cfg xs (p - 64) sn" "sn_config sn = cfg"
      using Nil.prems(1) by (simp_all add: scanner_at_def)
    obtain o' sn1 where r: "scanner_resolve pd None (sn\<lparr>sn_pending := None\<rparr>) = (o', sn1)" by fastforce
    have pp: "p - 64 + 64 \<le> length xs" using at(1) p by simp
    have ca: "carries_at cfg xs (p - 64) (sn\<lparr>sn_pending := None\<rparr>)" using at(3) by (simp add: carries_at_def)
    have cf: "sn_config (sn\<lparr>sn_pending := None\<rparr>) = cfg" using at(4) by simp
    note ra = resolve_at[OF at(2) ca cf pp _ r]
    have "outs = [o']" "sn' = sn1" using Nil.prems(5) Some r by (simp_all add: scanner_finalize_def)
    moreover have "output_of cfg xs (p - 64) o'" using ra(1) at(1) p by simp
    moreover have "in_quotes_carry sn1 = in_quotes_carry sn"
    proof -
      have "sn1 = sn\<lparr>sn_pending := None, begins_carry := begins_carry sn1, ends_carry := ends_carry sn1,
          prev_term_msb := prev_term_msb sn1\<rparr>" using ra(3) at(1) p by simp
      then show ?thesis by (rule ssubst) simp
    qed
    ultimately show ?thesis
      using Nil.prems(1) Some p at(1) by (auto simp: next_output_def scanner_in_quotes_def scanner_at_def)
  qed
next
  case (Cons v vs)
  have lv: "length v = 64" using Cons.prems(3) by simp
  have len: "p + 64 \<le> length xs" using arg_cong[OF Cons.prems(2), of length] lv Cons.prems(4) by simp
  have v: "v = subslice xs p (p + 64)" using Cons.prems(2) lv by (simp add: subslice_def)
  obtain out sn1 where step: "scanner_step I v sn = (out, sn1)" by fastforce
  obtain outs1 sn2 where run: "scanner_run I vs sn1 = (outs1, sn2)" by fastforce
  note st = scanner_step_ok[OF Cons.prems(1) v len step]
  have dr: "drop (p + 64) xs = concat vs"
    using arg_cong[OF Cons.prems(2), of "drop 64"] lv by (simp add: add.commute)
  have "\<forall>v\<in>set vs. length v = 64" using Cons.prems(3) by simp
  note IH = Cons.IH[OF st(1) dr this len run]
  have no: "next_output (p + 64) sn1 = p" using st(2) by (simp add: next_output_def)
  have sn': "sn' = sn2" and outs: "outs = (case out of None \<Rightarrow> outs1 | Some o' \<Rightarrow> o' # outs1)"
    using Cons.prems(5) step run by simp_all
  show ?case
  proof (cases out)
    case None
    then have "next_output p sn = p" using st(3) by (simp add: next_output_def)
    then show ?thesis using IH None outs sn' no by simp
  next
    case (Some o')
    then have no': "next_output p sn = p - 64" "output_of cfg xs (p - 64) o'" "64 \<le> p"
      using st(3) Cons.prems(1) by (auto simp: next_output_def scanner_at_def)
    have "output_of cfg xs (p - 64 + 64 * i) ((o' # outs1) ! i)" if "i < Suc (length outs1)" for i
    proof (cases i)
      case (Suc j)
      have "p - 64 + 64 * Suc j = p + 64 * j" using no'(3) by simp
      then show ?thesis using IH that Suc unfolding no by simp
    qed (use no' in simp)
    then show ?thesis using IH Some outs sn' no'(1,3) len unfolding no by (simp add: mult.commute)
  qed
qed

lemma scanner_masks:
  assumes "\<forall>v\<in>set vs. length v = 64" and "scanner_run I vs (scanner_new cfg) = (outs, sn)"
  defines "xs \<equiv> concat vs"
  shows "length outs = length vs \<and> (\<forall>i<length vs. output_of cfg xs (64 * i) (outs ! i)) \<and>
    (scanner_in_quotes sn \<longleftrightarrow> xs \<noteq> [] \<and> quoted_at cfg xs (length xs - 1))"
proof -
  have "length (concat vs) = 64 * length vs"
    using assms(1) by (induction vs) auto
  moreover have "sn_pending (scanner_new cfg) = None" by (simp add: scanner_new_def)
  ultimately show ?thesis
    using scanner_run_ok[OF scanner_new_at _ assms(1) _ assms(2), of xs] unfolding xs_def
    by (auto simp: next_output_def)
qed

end

end
