(* ===== verification/FieldCount.thy ===== *)
theory FieldCount
  imports Bitmask
begin

text \<open>
  src/src/parser/simd/fieldcount.rs: the field-count check on the boundary bits of one vector, by bit extract and a
  table of rotations, or by walking the terminators. Both are shown to be the boundary-by-boundary check
  \<open>count_fields\<close>. Counts are \<open>u32\<close> in the code; they stay below 128.
\<close>

unbundle bit_operations_syntax

section \<open>The verifier\<close>

record FieldCounter =
  fc_n :: nat
  rotations :: "u64 list"
  phase :: nat

definition expected_pattern :: "nat \<Rightarrow> nat \<Rightarrow> u64" where
  "expected_pattern n ph =
     fold (\<lambda>i out. if (i + ph) mod n = n - 1 then out OR push_bit i 1 else out) [0..<64] 0"

text \<open>\<open>None\<close> is the failed assertion.\<close>

definition field_counter_new :: "nat \<Rightarrow> FieldCounter option" where
  "field_counter_new n =
     (if 1 \<le> n \<and> n < 64
      then Some \<lparr>fc_n = n,
             rotations = fold (\<lambda>p rs. rs[p := expected_pattern n p]) [0..<n] (replicate 64 0), phase = 0\<rparr>
      else None)"

function verify_walk :: "u64 \<Rightarrow> nat \<Rightarrow> nat \<Rightarrow> u64 \<Rightarrow> nat \<Rightarrow> nat \<Rightarrow> nat option" where
  "verify_walk d_struct n cnt t expect ph =
     (if t = 0 then Some ph
      else let below = (t AND - t) - 1; idx = count_ones (d_struct AND below)
           in if idx \<noteq> expect then None
              else verify_walk d_struct n cnt (t AND (t - 1)) (expect + n) (cnt - idx - 1))"
  by pat_completeness auto
termination
  by (relation "measure (\<lambda>(_, _, _, t, _, _). count_ones t)") (auto simp: count_clear_lowest)

declare verify_walk.simps [simp del]

definition verify_by_terminators :: "u64 \<Rightarrow> u64 \<Rightarrow> FieldCounter \<Rightarrow> bool \<times> FieldCounter" where
  "verify_by_terminators d_struct t fc =
     (let cnt = count_ones d_struct
      in case verify_walk d_struct (fc_n fc) cnt (t AND d_struct) (fc_n fc - 1 - phase fc) (phase fc + cnt) of
           None \<Rightarrow> (False, fc)
         | Some ph \<Rightarrow> if fc_n fc \<le> ph then (False, fc) else (True, fc\<lparr>phase := ph\<rparr>))"

definition verify_pext :: "isa \<Rightarrow> u64 \<Rightarrow> u64 \<Rightarrow> FieldCounter \<Rightarrow> bool \<times> FieldCounter" where
  "verify_pext I d_struct t fc =
     (let cnt = count_ones d_struct
      in if cnt = 0 then (True, fc)
         else let p = pext I t d_struct;
                  expected = rotations fc ! (phase fc mod 64);
                  low = (if cnt = 64 then - 1 else push_bit cnt 1 - 1)
              in if (p XOR expected) AND low \<noteq> 0 then (False, fc)
                 else let carry = (if p = 0 then phase fc else 0)
                      in (True, fc\<lparr>phase := cnt + leading_zeros p - 64 + carry\<rparr>))"

definition verify :: "isa \<Rightarrow> u64 \<Rightarrow> u64 \<Rightarrow> FieldCounter \<Rightarrow> bool \<times> FieldCounter" where
  "verify I d_struct t fc =
     (if FAST_PEXT I then verify_pext I d_struct t fc else verify_by_terminators d_struct t fc)"

text \<open>\<open>locate_bad_record\<close>: a walk over the bytes from \<open>i\<close> on.\<close>

function locate_loop ::
    "byte list \<Rightarrow> nat \<Rightarrow> byte \<Rightarrow> (byte \<Rightarrow> bool) \<Rightarrow> byte option \<Rightarrow> nat \<Rightarrow> nat \<Rightarrow> nat \<Rightarrow> bool \<Rightarrow> nat \<times> nat" where
  "locate_loop buf n d is_term q i start found in_quotes =
     (if i < length buf then
        (let b = buf ! i in
         if q = Some b then locate_loop buf n d is_term q (i + 1) start found (\<not> in_quotes)
         else if \<not> in_quotes \<and> b = d then locate_loop buf n d is_term q (i + 1) start (found + 1) in_quotes
         else if \<not> in_quotes \<and> is_term b then
           (if found \<noteq> n then (start, found)
            else let i' = i + 1 + length (takeWhile is_term (drop (i + 1) buf))
                 in locate_loop buf n d is_term q i' i' 1 in_quotes)
         else locate_loop buf n d is_term q (i + 1) start found in_quotes)
      else (start, found))"
  by pat_completeness auto
termination
  by (relation "measure (\<lambda>(buf, _, _, _, _, i, _). length buf - i)") auto

declare locate_loop.simps [simp del]

definition locate_bad_record ::
    "byte list \<Rightarrow> nat \<Rightarrow> nat \<Rightarrow> byte \<Rightarrow> byte \<Rightarrow> byte option \<Rightarrow> byte option \<Rightarrow> nat \<times> nat" where
  "locate_bad_record buf from n d t t2 q =
     (let i = min from (length buf)
      in locate_loop buf n d (\<lambda>b. b = t \<or> t2 = Some b) q i i 1 False)"

text \<open>The vectors of a parse, as long as they are accepted.\<close>

fun verify_vectors :: "isa \<Rightarrow> (u64 \<times> u64) list \<Rightarrow> FieldCounter \<Rightarrow> FieldCounter option" where
  "verify_vectors I [] fc = Some fc"
| "verify_vectors I ((d, t) # vs) fc =
     (case verify I d t fc of (True, fc') \<Rightarrow> verify_vectors I vs fc' | (False, _) \<Rightarrow> None)"

section \<open>Boundary by boundary\<close>

text \<open>\<open>kinds\<close> says of each boundary whether it is a terminator; the \<open>n\<close>-th of a record must be one, no other.\<close>

fun count_fields :: "nat \<Rightarrow> nat \<Rightarrow> bool list \<Rightarrow> nat option" where
  "count_fields n ph [] = Some ph"
| "count_fields n ph (k # ks) =
     (if k = (ph = n - 1) then count_fields n (if k then 0 else ph + 1) ks else None)"

lemma count_fields_append:
  "count_fields n ph (ks @ ls) = (case count_fields n ph ks of Some ph' \<Rightarrow> count_fields n ph' ls | None \<Rightarrow> None)"
  by (induction ks arbitrary: ph) auto

lemma count_fields_iff:
  assumes "ph < n"
  shows "count_fields n ph ks =
    (if \<forall>j<length ks. ks ! j = ((j + ph) mod n = n - 1) then Some ((length ks + ph) mod n) else None)"
  using assms
proof (induction ks arbitrary: ph)
  case (Cons k ks)
  have at: "(Suc j + ph) mod n = (j + (if ph = n - 1 then 0 else ph + 1)) mod n" for j
  proof (cases "ph = n - 1")
    case True
    with Cons.prems have "Suc j + ph = j + n" by simp
    with True show ?thesis by simp
  qed simp
  have "(0 + ph) mod n = n - 1 \<longleftrightarrow> ph = n - 1" using Cons.prems by simp
  moreover have "(\<forall>j<length (k # ks). (k # ks) ! j = ((j + ph) mod n = n - 1)) \<longleftrightarrow>
      k = ((0 + ph) mod n = n - 1) \<and> (\<forall>j<length ks. ks ! j = ((Suc j + ph) mod n = n - 1))"
    by (simp only: list.size(4) Nat.add_0_right add_Suc_right All_less_Suc2 nth_Cons_0 nth_Cons_Suc)
  moreover have "(length (k # ks) + ph) mod n = (length ks + (if ph = n - 1 then 0 else ph + 1)) mod n"
    using at[of "length ks"] by simp
  moreover have "(if ph = n - 1 then 0 else ph + 1) < n" using Cons.prems by auto
  ultimately show ?case
    unfolding at using Cons.IH[of "if ph = n - 1 then 0 else ph + 1"] by (cases k; cases "ph = n - 1") simp_all
qed simp


section \<open>The walk over the terminators\<close>

text \<open>\<open>idx\<close> in the code is the number of boundaries below the terminator: its index among the boundaries.\<close>

fun index_walk :: "nat \<Rightarrow> nat \<Rightarrow> nat list \<Rightarrow> nat \<Rightarrow> nat \<Rightarrow> nat option" where
  "index_walk n cnt [] expect ph = Some ph"
| "index_walk n cnt (j # js) expect ph =
     (if j \<noteq> expect then None else index_walk n cnt js (expect + n) (cnt - j - 1))"

definition boundary_index :: "u64 \<Rightarrow> nat \<Rightarrow> nat" where
  "boundary_index d i = card {j. j < i \<and> bit d j}"

lemma count_ones_card: "count_ones w = card {j. bit w j}"
proof -
  have "card (set (set_bits_of w)) = length (set_bits_of w)" by (rule distinct_card) simp
  then show ?thesis by (simp only: set_set_bits length_set_bits)
qed

lemma count_below:
  assumes "(w :: u64) \<noteq> 0"
  shows "count_ones (d AND ((w AND - w) - 1)) = boundary_index d (trailing_zeros w)"
proof -
  have "trailing_zeros w < 64" using trailing_zeros_eq_iff[OF assms, of "trailing_zeros w"] bit_u64_bound by blast
  then have "bit (d AND ((w AND - w) - 1)) j \<longleftrightarrow> j < trailing_zeros w \<and> bit d j" for j
    unfolding clear_lowest(2)[OF assms] by (auto simp: bit_simps simp flip: mask_eq_exp_minus_1)
  then show ?thesis by (simp add: count_ones_card boundary_index_def)
qed

lemma verify_walk_index:
  "verify_walk d n cnt t expect ph = index_walk n cnt (map (boundary_index d) (set_bits_of t)) expect ph"
proof (induction d n cnt t expect ph rule: verify_walk.induct)
  case (1 d n cnt t expect ph)
  show ?case
  proof (cases "t = 0")
    case True
    moreover have "set_bits_of 0 = []" by simp
    ultimately show ?thesis by (simp only: verify_walk.simps[of d n cnt 0] list.map index_walk.simps if_True simp_thms)
  next
    case False
    show ?thesis
      unfolding verify_walk.simps[of d n cnt t] clear_lowest(1)[OF False]
      using 1[OF False refl refl] False by (simp add: Let_def count_below)
  qed
qed

lemma boundary_index_nth:
  assumes "j < count_ones d"
  shows "boundary_index d (set_bits_of d ! j) = j"
proof -
  let ?L = "set_bits_of d"
  have j: "j < length ?L" using assms by (simp add: length_set_bits)
  have "{i. i < ?L ! j \<and> bit d i} = (\<lambda>k. ?L ! k) ` {..<j}"
  proof (intro equalityI subsetI)
    fix i assume "i \<in> {i. i < ?L ! j \<and> bit d i}"
    then have i: "i < ?L ! j" "i \<in> set ?L" by auto
    from i(2) obtain k where k: "k < length ?L" "i = ?L ! k" unfolding in_set_conv_nth by blast
    have "k < j"
    proof (rule ccontr)
      assume "\<not> k < j"
      then have "?L ! j \<le> ?L ! k"
        using sorted_wrt_nth_less[OF sorted_set_bits[of d], of j k] k(1) by (cases "j = k") (auto intro: less_imp_le)
      with i(1) k(2) show False by simp
    qed
    with k(2) show "i \<in> (\<lambda>k. ?L ! k) ` {..<j}" by blast
  next
    fix i assume "i \<in> (\<lambda>k. ?L ! k) ` {..<j}"
    then obtain k where k: "k < j" "i = ?L ! k" by blast
    then have "i < ?L ! j" using sorted_wrt_nth_less[OF sorted_set_bits[of d] k(1) j] by simp
    moreover have "i \<in> set ?L" using k j by (auto simp del: set_set_bits)
    ultimately show "i \<in> {i. i < ?L ! j \<and> bit d i}" by simp
  qed
  moreover have "inj_on (\<lambda>k. ?L ! k) {..<j}" using j by (auto intro!: inj_onI simp: nth_eq_iff_index_eq)
  ultimately show ?thesis by (simp add: boundary_index_def card_image)
qed

lemma terminator_indices:
  "map (boundary_index d) (set_bits_of (t AND d)) =
     filter (\<lambda>j. bit t (set_bits_of d ! j)) [0..<count_ones d]"
proof -
  let ?L = "set_bits_of d"
  have "set_bits_of (t AND d) = filter (bit t) ?L"
    by (auto simp: set_bits_of_def bit_and_iff intro!: filter_cong)
  also have "\<dots> = filter (bit t) (map (\<lambda>j. ?L ! j) [0..<count_ones d])"
    by (simp add: map_nth flip: length_set_bits)
  finally have "set_bits_of (t AND d) = map (\<lambda>j. ?L ! j) (filter (\<lambda>j. bit t (?L ! j)) [0..<count_ones d])"
    by (simp add: filter_map comp_def)
  then have "map (boundary_index d) (set_bits_of (t AND d)) =
      map (\<lambda>j. boundary_index d (?L ! j)) (filter (\<lambda>j. bit t (?L ! j)) [0..<count_ones d])"
    by simp
  also have "\<dots> = filter (\<lambda>j. bit t (?L ! j)) [0..<count_ones d]"
    by (rule map_idI) (simp add: boundary_index_nth)
  finally show ?thesis .
qed

lemma index_walk_counts:
  assumes "ph < n" and "a \<le> cnt"
  shows "(case index_walk n cnt (filter P [a..<cnt]) (a + (n - 1 - ph)) (ph + cnt - a) of
      None \<Rightarrow> None | Some ph' \<Rightarrow> if n \<le> ph' then None else Some ph') = count_fields n ph (map P [a..<cnt])"
  using assms
proof (induction "cnt - a" arbitrary: a ph)
  case 0
  then show ?case by simp
next
  case (Suc m)
  then have a: "a < cnt" and rest: "[a..<cnt] = a # [a + 1..<cnt]" by (simp_all add: upt_conv_Cons)
  note IH = Suc.hyps(1)[of "a + 1"]
  show ?case
  proof (cases "ph = n - 1")
    case False
    have "index_walk n cnt (filter P [a + 1..<cnt]) (a + 1 + (n - 1 - (ph + 1))) (ph + 1 + cnt - (a + 1)) =
        index_walk n cnt (filter P [a + 1..<cnt]) (a + (n - 1 - ph)) (ph + cnt - a)"
      using False Suc.prems by (intro arg_cong2[where f = "index_walk n cnt (filter P [a + 1..<cnt])"]) auto
    then show ?thesis using False Suc.prems a Suc.hyps(2) IH[of "ph + 1"] by (auto simp: rest)
  next
    case True
    show ?thesis
    proof (cases "P a")
      case True
      with \<open>ph = n - 1\<close> show ?thesis using Suc.prems a Suc.hyps(2) IH[of 0] by (simp add: rest)
    next
      case miss: False
      have "index_walk n cnt (filter P [a + 1..<cnt]) a (ph + cnt - a) = None \<or>
          index_walk n cnt (filter P [a + 1..<cnt]) a (ph + cnt - a) = Some (ph + cnt - a)"
      proof (cases "filter P [a + 1..<cnt]")
        case (Cons j js)
        then have "j \<in> set (filter P [a + 1..<cnt])" by simp
        then have "j \<noteq> a" by simp
        then show ?thesis unfolding Cons by simp
      qed simp
      then show ?thesis using True miss a by (auto simp: rest)
    qed
  qed
qed

lemma boundary_kinds: "map f (set_bits_of d) = map (\<lambda>j. f (set_bits_of d ! j)) [0..<count_ones d]"
  using map_nth[of "set_bits_of d"] by (metis (no_types, lifting) length_set_bits map_map map_eq_conv comp_apply)

lemma verify_by_terminators_ok:
  assumes "phase fc < fc_n fc"
  shows "verify_by_terminators d t fc =
    (case count_fields (fc_n fc) (phase fc) (map (bit t) (set_bits_of d)) of
       None \<Rightarrow> (False, fc) | Some ph \<Rightarrow> (True, fc\<lparr>phase := ph\<rparr>))"
proof -
  have "map (bit t) (set_bits_of d) = map (\<lambda>j. bit t (set_bits_of d ! j)) [0..<count_ones d]"
    by (rule boundary_kinds)
  then have "count_fields (fc_n fc) (phase fc) (map (bit t) (set_bits_of d)) =
      (case verify_walk d (fc_n fc) (count_ones d) (t AND d) (fc_n fc - 1 - phase fc) (phase fc + count_ones d) of
         None \<Rightarrow> None | Some ph' \<Rightarrow> if fc_n fc \<le> ph' then None else Some ph')"
    using index_walk_counts[OF assms, of 0 "count_ones d" "\<lambda>j. bit t (set_bits_of d ! j)"]
    by (simp add: verify_walk_index terminator_indices)
  then show ?thesis by (simp add: verify_by_terminators_def split: option.split)
qed

section \<open>The table of rotations\<close>

lemma bit_expected_pattern: "bit (expected_pattern n ph) i \<longleftrightarrow> i < 64 \<and> (i + ph) mod n = n - 1"
proof -
  have "bit (fold (\<lambda>i out. if Q i then out OR push_bit i 1 else out) is w) k \<longleftrightarrow>
      bit w k \<or> k < 64 \<and> k \<in> set is \<and> Q k" for "is" and w :: u64 and Q k
    by (induction "is" arbitrary: w) (auto simp: bit_simps)
  from this[of "\<lambda>i. (i + ph) mod n = n - 1" "[0..<64]" 0 i] show ?thesis by (auto simp: expected_pattern_def)
qed

lemma fold_table:
  "length (fold (\<lambda>p rs. rs[p := g p]) [0..<m] rs) = length rs"
  "m \<le> length rs \<Longrightarrow> p < m \<Longrightarrow> fold (\<lambda>p rs. rs[p := g p]) [0..<m] rs ! p = g p"
proof -
  show len: "length (fold (\<lambda>p rs. rs[p := g p]) [0..<m] rs) = length rs" for m
    by (induction m) auto
  show "m \<le> length rs \<Longrightarrow> p < m \<Longrightarrow> fold (\<lambda>p rs. rs[p := g p]) [0..<m] rs ! p = g p"
    by (induction m) (auto simp: nth_list_update len less_Suc_eq)
qed

lemma field_counter_rotations:
  assumes "field_counter_new n = Some fc"
  shows "fc_n fc = n" "phase fc = 0" "1 \<le> n" "n < 64"
    and "p < n \<Longrightarrow> rotations fc ! p = expected_pattern n p"
  using assms fold_table(2)[of n "replicate 64 0" p "expected_pattern n"]
  by (auto simp: field_counter_new_def split: if_splits)

lemma leading_zeros_0: "leading_zeros 0 = 64"
  using position_None_iff[of "\<lambda>i. bit (0 :: u64) (63 - i)" "[0..<64]"] by (simp add: leading_zeros_def del: upt_rec_numeral)

text \<open>What stays true of a verifier while it runs.\<close>

definition counter_ok :: "FieldCounter \<Rightarrow> bool" where
  "counter_ok fc \<longleftrightarrow> fc_n fc < 64 \<and> phase fc < fc_n fc \<and>
     (\<forall>p<fc_n fc. rotations fc ! p = expected_pattern (fc_n fc) p)"

lemma field_counter_new_ok: "field_counter_new n = Some fc \<Longrightarrow> counter_ok fc"
  using field_counter_rotations[of n fc] by (simp add: counter_ok_def)

text \<open>Past the last terminator at boundary \<open>h\<close>, fewer than \<open>n\<close> boundaries are left.\<close>

lemma phase_after_last:
  fixes h ph n cnt :: nat
  assumes "(h + ph) mod n = n - 1" "h < cnt" "0 < n"
    and last: "\<And>j. h < j \<Longrightarrow> j < cnt \<Longrightarrow> (j + ph) mod n \<noteq> n - 1"
  shows "(cnt + ph) mod n = cnt - h - 1"
proof -
  have "cnt - h - 1 < n"
  proof (rule ccontr)
    assume "\<not> cnt - h - 1 < n"
    then have "h + n < cnt" using \<open>h < cnt\<close> by linarith
    moreover have "(h + n + ph) mod n = (h + ph) mod n"
      by (metis add.assoc add.commute mod_add_self2)
    ultimately show False using last[of "h + n"] assms(1,3) by simp
  qed
  moreover have "(h + 1 + ph) mod n = 0"
    using assms(1,3) by (metis Suc_eq_plus1 Suc_pred' add.commute add.left_commute mod_Suc)
  moreover have "cnt + ph = (h + 1 + ph) + (cnt - h - 1)" using \<open>h < cnt\<close> by simp
  ultimately show ?thesis by (metis add_0 mod_add_left_eq mod_less)
qed


context lawful_isa begin

lemma verify_pext_ok:
  assumes "counter_ok fc"
  shows "verify_pext I d t fc =
    (case count_fields (fc_n fc) (phase fc) (map (bit t) (set_bits_of d)) of
       None \<Rightarrow> (False, fc) | Some ph \<Rightarrow> (True, fc\<lparr>phase := ph\<rparr>))"
proof -
  let ?n = "fc_n fc" and ?ph = "phase fc" and ?cnt = "count_ones d" and ?p = "pext I t d"
  have n: "?n < 64" "?ph < ?n" and rot: "rotations fc ! ?ph = expected_pattern ?n ?ph"
    using assms by (auto simp: counter_ok_def)
  have cnt: "?cnt \<le> 64" by (rule count_ones_le)
  have p: "bit ?p j \<longleftrightarrow> j < ?cnt \<and> bit t (set_bits_of d ! j)" for j
    using pext_extracts[of t d] by (simp add: extracts_def)
  define low :: u64 where "low = (if ?cnt = 64 then - 1 else push_bit ?cnt 1 - 1)"
  have low: "bit low j \<longleftrightarrow> j < ?cnt" for j
    using cnt by (auto simp: low_def bit_mask_iff simp flip: mask_eq_exp_minus_1)
  have less: "j < ?cnt \<Longrightarrow> j < 64" for j using cnt by simp
  have agree: "(?p XOR expected_pattern ?n ?ph) AND low = 0 \<longleftrightarrow>
      (\<forall>j<?cnt. bit t (set_bits_of d ! j) = ((j + ?ph) mod ?n = ?n - 1))"
    unfolding u64_eq_0_iff by (auto simp: bit_and_iff bit_xor_iff low p bit_expected_pattern dest: less)
  have counted: "count_fields ?n ?ph (map (bit t) (set_bits_of d)) =
      (if \<forall>j<?cnt. bit t (set_bits_of d ! j) = ((j + ?ph) mod ?n = ?n - 1) then Some ((?cnt + ?ph) mod ?n) else None)"
    unfolding count_fields_iff[OF n(2)] by (simp add: length_set_bits)
  show ?thesis
  proof (cases "?cnt = 0")
    case True
    then show ?thesis using n(2) by (simp add: verify_pext_def counted Let_def)
  next
    case False
    have "(if ?p = 0 then ?ph else 0) + (?cnt + leading_zeros ?p - 64) = (?cnt + ?ph) mod ?n"
      if ok: "\<forall>j<?cnt. bit t (set_bits_of d ! j) = ((j + ?ph) mod ?n = ?n - 1)"
    proof (cases "?p = 0")
      case True
      have "?cnt + ?ph < ?n"
      proof (rule ccontr)
        assume "\<not> ?cnt + ?ph < ?n"
        then have "?n - 1 - ?ph < ?cnt" and "(?n - 1 - ?ph + ?ph) mod ?n = ?n - 1" using n(2) by auto
        then have "bit ?p (?n - 1 - ?ph)" unfolding p using ok by blast
        with True show False by simp
      qed
      moreover have "leading_zeros ?p = 64" unfolding True by (rule leading_zeros_0)
      ultimately show ?thesis using True by simp
    next
      case nz: False
      let ?z = "leading_zeros ?p"
      have z: "?z < 64" "bit ?p (63 - ?z)" "\<forall>j<?z. \<not> bit ?p (63 - j)"
        using leading_zeros_eq_iff[OF nz, of ?z] by auto
      have top: "\<not> bit ?p j" if "63 - ?z < j" for j
      proof
        assume b: "bit ?p j"
        then have "j < 64" by (rule bit_u64_bound)
        then have "63 - j < ?z" "63 - (63 - j) = j" using that by linarith+
        with z(3) b show False by metis
      qed
      from z(2) have h: "63 - ?z < ?cnt" "bit t (set_bits_of d ! (63 - ?z))" by (simp_all add: p)
      have "(?cnt + ?ph) mod ?n = ?cnt - (63 - ?z) - 1"
      proof (rule phase_after_last)
        show "(63 - ?z + ?ph) mod ?n = ?n - 1" using ok h by blast
        show "(j + ?ph) mod ?n \<noteq> ?n - 1" if "63 - ?z < j" "j < ?cnt" for j
          using top[OF that(1)] ok that(2) unfolding p by blast
      qed (use h n in auto)
      then show ?thesis using nz z(1) h(1) by simp
    qed
    then show ?thesis
      using n False by (auto simp: verify_pext_def counted Let_def rot agree low_def[symmetric])
  qed
qed

theorem verify_ok:
  assumes "counter_ok fc"
  shows "verify I d t fc =
    (case count_fields (fc_n fc) (phase fc) (map (bit t) (set_bits_of d)) of
       None \<Rightarrow> (False, fc) | Some ph \<Rightarrow> (True, fc\<lparr>phase := ph\<rparr>))"
  using assms by (simp add: verify_def verify_pext_ok verify_by_terminators_ok counter_ok_def)

lemma count_fields_less: "ph < n \<Longrightarrow> count_fields n ph ks = Some ph' \<Longrightarrow> ph' < n"
  by (simp add: count_fields_iff split: if_splits) force

lemma verify_vectors_ok:
  assumes "counter_ok fc"
  shows "verify_vectors I vs fc = map_option (\<lambda>ph. fc\<lparr>phase := ph\<rparr>)
    (count_fields (fc_n fc) (phase fc) (concat (map (\<lambda>(d, t). map (bit t) (set_bits_of d)) vs)))"
  using assms
proof (induction vs arbitrary: fc)
  case (Cons v vs)
  obtain d t where v: "v = (d, t)" by fastforce
  show ?case
  proof (cases "count_fields (fc_n fc) (phase fc) (map (bit t) (set_bits_of d))")
    case None
    with Cons.prems show ?thesis by (simp add: v verify_ok count_fields_append)
  next
    case (Some ph)
    then have "counter_ok (fc\<lparr>phase := ph\<rparr>)"
      using Cons.prems count_fields_less[of "phase fc" "fc_n fc"] by (auto simp: counter_ok_def)
    from Cons.IH[OF this] Some Cons.prems show ?thesis
      by (simp add: v verify_ok count_fields_append)
  qed
qed simp

end

end
