(* ===== verification/CursorStepper.thy ===== *)
theory CursorStepper
  imports SimdIndex FieldCount
begin

text \<open>
  src/src/parser/simd/cursor_stepper.rs: the stepper for dialects without a quote. Every vector is held back until
  the next one shows whether its last terminator goes on; offsets of boundaries are collected and records
  handed over in batches. Its parts are the step and the flush at the end of the input.
\<close>

unbundle bit_operations_syntax

section \<open>The stepper\<close>

record CursorStepper =
  delim :: byte
  term_a :: byte
  term_b :: "byte option"
  field_counter :: FieldCounter
  needs_align_prologue :: bool
  pending :: "(u64 \<times> u64 \<times> u64) option"
  bounds :: "nat list"
  cell_start :: nat
  has_runs :: bool
  cs_last_record_end :: "nat option"

text \<open>\<open>None\<close> is the panic without a fixed field count, or outside 1 to 63.\<close>

definition cursor_stepper_new :: "Config \<Rightarrow> CursorStepper option" where
  "cursor_stepper_new c =
     (case field_count c of
        None \<Rightarrow> None
      | Some n \<Rightarrow> map_option (\<lambda>fc.
          \<lparr>delim = delimiter c, term_a = fst (terminator_bytes (terminator c)),
           term_b = snd (terminator_bytes (terminator c)), field_counter = fc, needs_align_prologue = True,
           pending = None, bounds = [], cell_start = 0, has_runs = False, cs_last_record_end = None\<rparr>)
          (field_counter_new n))"

definition is_term :: "CursorStepper \<Rightarrow> byte \<Rightarrow> bool" where
  "is_term st b \<longleftrightarrow> b = term_a st \<or> term_b st = Some b"

definition arity_error :: "CursorStepper \<Rightarrow> byte list \<Rightarrow> nat \<Rightarrow> 'u Error" where
  "arity_error st buf tot =
     (let n = fc_n (field_counter st);
          (start, found) = locate_bad_record buf (cell_start st) n (delim st) (term_a st) (term_b st) None
      in NumberOfFields n found (at_byte (tot + start)))"

definition verify_tail ::
    "isa \<Rightarrow> u64 \<Rightarrow> u64 \<Rightarrow> byte list \<Rightarrow> nat \<Rightarrow> CursorStepper \<Rightarrow> 'u Error + CursorStepper" where
  "verify_tail I d_struct run_end buf tot st =
     (case verify I d_struct run_end (field_counter st) of
        (True, fc) \<Rightarrow> Inr (st\<lparr>field_counter := fc\<rparr>)
      | (False, fc) \<Rightarrow> Inl (arity_error (st\<lparr>field_counter := fc\<rparr>) buf tot))"

section \<open>Handing records over\<close>

text \<open>The fields up to each boundary, and where the next one starts.\<close>

fun cut_fields :: "nat \<Rightarrow> nat list \<Rightarrow> (nat \<times> nat) list \<times> nat" where
  "cut_fields cs [] = ([], cs)"
| "cut_fields cs (b # bs) = (let (sps, cs') = cut_fields (b + 1) bs in ((cs, b - cs) # sps, cs'))"

text \<open>Without runs every boundary is a field end.\<close>

fun emit_plain ::
    "('s, 'u) accumulator \<Rightarrow> byte list \<Rightarrow> nat list \<Rightarrow> nat \<Rightarrow> nat \<Rightarrow> nat \<Rightarrow> nat \<Rightarrow> 's \<Rightarrow> 'u Error + nat \<times> 's" where
  "emit_plain acc buf bs n base 0 cs s = Inr (cs, s)"
| "emit_plain acc buf bs n base (Suc k) cs s =
     (let (sps, cs') = cut_fields cs (subslice bs base (base + n))
      in case acc s (map (span_bytes buf) sps) of
           Inl e \<Rightarrow> Inl (from_user e)
         | Inr s' \<Rightarrow> emit_plain acc buf bs n (base + n) k cs' s')"

text \<open>Strip the run of terminators before the last boundary of a record.\<close>

fun strip_run :: "byte list \<Rightarrow> byte \<Rightarrow> byte \<Rightarrow> nat \<Rightarrow> nat \<Rightarrow> nat" where
  "strip_run buf ta tb cs 0 = 0"
| "strip_run buf ta tb cs (Suc e) =
     (if cs < Suc e \<and> (buf ! e = ta \<or> buf ! e = tb) then strip_run buf ta tb cs e else Suc e)"

fun emit_runs ::
    "('s, 'u) accumulator \<Rightarrow> byte list \<Rightarrow> byte \<Rightarrow> byte \<Rightarrow> nat list \<Rightarrow> nat \<Rightarrow> nat \<Rightarrow> nat \<Rightarrow> nat \<Rightarrow> nat \<Rightarrow> 's
      \<Rightarrow> 'u Error + nat \<times> nat \<times> 's" where
  "emit_runs acc buf ta tb bs n base 0 cs last_run_start s = Inr (cs, last_run_start, s)"
| "emit_runs acc buf ta tb bs n base (Suc k) cs last_run_start s =
     (let (sps, cs1) = cut_fields cs (subslice bs base (base + (n - 1)));
          bound = bs ! (base + n - 1);
          fin = strip_run buf ta tb cs1 bound
      in case acc s (map (span_bytes buf) (sps @ [(cs1, fin - cs1)])) of
           Inl e \<Rightarrow> Inl (from_user e)
         | Inr s' \<Rightarrow> emit_runs acc buf ta tb bs n (base + n) k (bound + 1) fin s')"

definition emit_records ::
    "('s, 'u) accumulator \<Rightarrow> byte list \<Rightarrow> nat \<Rightarrow> nat \<Rightarrow> nat \<Rightarrow> nat \<Rightarrow> 's \<Rightarrow> CursorStepper
      \<Rightarrow> 'u Error + nat \<times> nat \<times> 's" where
  "emit_records acc buf base0 cnt n cs s st =
     (if \<not> has_runs st
      then try_bind (emit_plain acc buf (bounds st) n base0 cnt cs s) (\<lambda>(cs', s'). Inr (cs', cs' - 1, s'))
      else emit_runs acc buf (term_a st) (case term_b st of Some b \<Rightarrow> b | None \<Rightarrow> term_a st) (bounds st) n base0 cnt cs cs s)"

text \<open>The first record, counted from one, whose terminator is not before the chunk end; at \<open>avail\<close> the search is
  known to stop.\<close>

function crossing :: "nat list \<Rightarrow> nat \<Rightarrow> nat \<Rightarrow> nat \<Rightarrow> nat \<Rightarrow> nat \<Rightarrow> nat" where
  "crossing bs head n rem avail k =
     (if k < avail \<and> bs ! (head + k * n - 1) < rem then crossing bs head n rem avail (k + 1) else k)"
  by pat_completeness auto
termination
  by (relation "measure (\<lambda>(_, _, _, _, avail, k). avail - k)") auto

declare crossing.simps [simp del]

text \<open>The result, the new head, the accumulator's state and the stepper.\<close>

definition cursor_flush ::
    "('s, 'u) accumulator \<Rightarrow> byte list \<Rightarrow> nat \<Rightarrow> nat \<Rightarrow> nat \<Rightarrow> nat \<Rightarrow> 's \<Rightarrow> CursorStepper
      \<Rightarrow> ('u Error + nat option) \<times> nat \<times> 's \<times> CursorStepper" where
  "cursor_flush acc buf head rem tot n s st =
     (let avail = (length (bounds st) - head) div n
      in if avail = 0 then (Inr None, head, s, st)
         else (let (cnt, stop) =
                   (if rem = 0 then (1, True)
                    else if bounds st ! (head + avail * n - 1) < rem then (avail, False)
                    else (crossing (bounds st) head n rem avail 1, True))
               in case emit_records acc buf head cnt n (cell_start st) s st of
                    Inl e \<Rightarrow> (Inl e, head, s, st)
                  | Inr (cs, last_run_start, s') \<Rightarrow>
                      (let fin = tot + handoff last_run_start rem stop
                       in (Inr (if stop then Some fin else None), head + cnt * n, s',
                           st\<lparr>cell_start := cs, cs_last_record_end := Some fin\<rparr>))))"

section \<open>A step\<close>

definition scan_vector :: "isa \<Rightarrow> byte list \<Rightarrow> nat \<Rightarrow> CursorStepper \<Rightarrow> u64 \<times> u64" where
  "scan_vector I buf pos st =
     (let s = match_structural I (subslice buf pos (pos + VECTOR_BYTES)) (delim st) (term_a st) (term_b st) None
      in (delim_bits s, term_bits s))"

definition COMPACT_THRESHOLD :: nat where
  "COMPACT_THRESHOLD = 2048"

definition EMIT_BATCH_FIELDS :: nat where
  "EMIT_BATCH_FIELDS = 128"

text \<open>The alignment prologue; \<open>addr\<close> is the address of a buffer. A neutral byte exists (lemma \<open>find_pad\<close>).\<close>

definition cursor_prologue ::
    "isa \<Rightarrow> (byte list \<Rightarrow> nat) \<Rightarrow> byte list \<Rightarrow> nat \<Rightarrow> nat \<Rightarrow> CursorStepper \<Rightarrow> nat \<times> CursorStepper" where
  "cursor_prologue I addr buf from_pos e st =
     (if needs_align_prologue st \<and> from_pos = 0 \<and> pending st = None
      then (let pad = the (neutral_pad (delim st) (term_a st) (term_b st) None)
            in case head_padded_prologue (addr buf mod VECTOR_BYTES) buf e pad of
                 Vector v misalign \<Rightarrow>
                   (let s = match_structural I v (delim st) (term_a st) (term_b st) None
                    in (VECTOR_BYTES - misalign,
                        st\<lparr>pending := Some (delim_bits s, term_bits s, - of_nat misalign), needs_align_prologue := False\<rparr>))
               | Aligned \<Rightarrow> (from_pos, st\<lparr>needs_align_prologue := False\<rparr>)
               | TooShort \<Rightarrow> (from_pos, st\<lparr>needs_align_prologue := (e < VECTOR_BYTES)\<rparr>))
      else (from_pos, st))"

text \<open>The held vector against the terminator bit that follows it: collapse, verify, publish.\<close>

definition cursor_publish :: "isa \<Rightarrow> u64 \<times> u64 \<times> u64 \<Rightarrow> bool \<Rightarrow> CursorStepper \<Rightarrow> bool \<times> CursorStepper" where
  "cursor_publish I p next_lsb st =
     (let (p_delim, p_term, pbase) = p;
          run_end = terminator_run_ends p_term next_lsb;
          st = st\<lparr>has_runs := has_runs st \<or> run_end \<noteq> p_term\<rparr>;
          d_struct = p_delim OR run_end;
          (ok, fc) = verify I d_struct run_end (field_counter st);
          st = st\<lparr>field_counter := fc\<rparr>
      in if ok then (True, st\<lparr>bounds := extend_offsets (bounds st) d_struct pbase\<rparr>) else (False, st))"

text \<open>The vector loop: \<open>Inl\<close> an early return, \<open>Inr\<close> the cursor and the head it ends with.\<close>

function cursor_loop ::
    "isa \<Rightarrow> ('s, 'u) accumulator \<Rightarrow> byte list \<Rightarrow> nat \<Rightarrow> nat \<Rightarrow> nat \<Rightarrow> nat \<Rightarrow> nat \<Rightarrow> (u64 \<times> u64 \<times> u64) option \<Rightarrow> nat \<Rightarrow> 's
      \<Rightarrow> CursorStepper \<Rightarrow> ('u StepResult + nat \<times> nat) \<times> 's \<times> CursorStepper" where
  "cursor_loop I acc buf e rem tot n cursor held head s st =
     (if cursor + VECTOR_BYTES \<le> e
      then (let (delim_mask, term_mask) = scan_vector I buf cursor st;
                base = of_nat cursor;
                cursor = cursor + VECTOR_BYTES;
                (ok, st) = (case held of Some p \<Rightarrow> cursor_publish I p (term_mask AND 1 \<noteq> 0) st | None \<Rightarrow> (True, st))
            in if \<not> ok then (Inl (StepError (arity_error st (take e buf) tot)), s, st)
               else (let held = Some (delim_mask, term_mask, base)
                     in if length (bounds st) - head < EMIT_BATCH_FIELDS
                        then cursor_loop I acc buf e rem tot n cursor held head s st
                        else (case cursor_flush acc buf head rem tot n s st of
                            (Inr None, head, s, st) \<Rightarrow>
                              if COMPACT_THRESHOLD \<le> head
                              then cursor_loop I acc buf e rem tot n cursor held 0 s (st\<lparr>bounds := drop head (bounds st)\<rparr>)
                              else cursor_loop I acc buf e rem tot n cursor held head s st
                          | (Inr (Some fin), head, s, st) \<Rightarrow> (Inl (Done fin), s, st\<lparr>pending := held\<rparr>)
                          | (Inl e, head, s, st) \<Rightarrow> (Inl (StepError e), s, st\<lparr>pending := held\<rparr>))))
      else (Inr (cursor, head), s, st\<lparr>pending := held\<rparr>))"
  by pat_completeness auto
termination
  by (relation "measure (\<lambda>(_, _, _, e, _, _, _, cursor, _). e - cursor)") (auto simp: VECTOR_BYTES_def)

declare cursor_loop.simps [simp del]

definition cursor_step ::
    "isa \<Rightarrow> (byte list \<Rightarrow> nat) \<Rightarrow> ('s, 'u) accumulator \<Rightarrow> StepCtx \<Rightarrow> 's \<Rightarrow> CursorStepper
      \<Rightarrow> 'u StepResult \<times> byte list \<times> 's \<times> CursorStepper" where
  "cursor_step I addr acc ctx s st =
     (let buf = ctx_buf ctx; rem = remaining_in_chunk ctx; tot = total_consumed ctx; n = fc_n (field_counter st);
          (cursor, st) = cursor_prologue I addr buf (scan_start ctx) (scan_end ctx) st
      in case cursor_loop I acc buf (scan_end ctx) rem tot n cursor (pending st) 0 s (st\<lparr>pending := None\<rparr>) of
           (Inl res, s, st) \<Rightarrow> (res, buf, s, st)
         | (Inr (cursor, head), s, st) \<Rightarrow>
             (let (res, head, s, st) = (if n \<le> length (bounds st) - head then cursor_flush acc buf head rem tot n s st
                                        else (Inr None, head, s, st))
              in case res of
                   Inl e \<Rightarrow> (StepError e, buf, s, st)
                 | Inr (Some fin) \<Rightarrow> (Done fin, buf, s, st)
                 | Inr None \<Rightarrow>
                     (let st = (if head \<noteq> 0 then st\<lparr>bounds := drop head (bounds st)\<rparr> else st)
                      in (Suspended cursor (cell_start st) (cs_last_record_end st), buf, s, st))))"

text \<open>Offsets are kept from going below zero, as \<open>saturating_sub\<close> does.\<close>

definition saturating_sub :: "u64 \<Rightarrow> nat \<Rightarrow> u64" where
  "saturating_sub b n = (if n \<le> unat b then b - of_nat n else 0)"

definition cursor_consume :: "nat \<Rightarrow> CursorStepper \<Rightarrow> CursorStepper" where
  "cursor_consume n st =
     st\<lparr>cell_start := cell_start st - n,
        pending := map_option (\<lambda>(d, t, pbase). (d, t, saturating_sub pbase n)) (pending st),
        bounds := map (\<lambda>x. x - n) (bounds st)\<rparr>"

section \<open>The end of the input\<close>

text \<open>The tail vector, with a synthetic terminator unless the last byte is one.\<close>

definition cursor_tail :: "isa \<Rightarrow> byte list \<Rightarrow> nat \<Rightarrow> nat \<Rightarrow> CursorStepper \<Rightarrow> (u64 \<times> u64 \<times> u64) option" where
  "cursor_tail I buf cursor e st =
     (let real_tail_len = e - cursor;
          needs_virtual_term = (0 < e \<and> \<not> is_term st (buf ! (e - 1)))
      in if 0 < real_tail_len \<or> needs_virtual_term
         then (let pad = the (neutral_pad (delim st) (term_a st) (term_b st) None);
                   v = subslice buf cursor e @ replicate (VECTOR_BYTES - real_tail_len) pad;
                   v = (if needs_virtual_term then v[real_tail_len := term_a st] else v);
                   s = match_structural I v (delim st) (term_a st) (term_b st) None
               in Some (delim_bits s, term_bits s, of_nat cursor))
         else None)"

definition cursor_resolve ::
    "isa \<Rightarrow> byte list \<Rightarrow> nat \<Rightarrow> (u64 \<times> u64 \<times> u64) option \<Rightarrow> bool \<Rightarrow> CursorStepper \<Rightarrow> 'u Error + CursorStepper" where
  "cursor_resolve I buf tot held next_lsb st =
     (case held of
        None \<Rightarrow> Inr st
      | Some (d, t, base) \<Rightarrow>
          (let run_end = terminator_run_ends t next_lsb;
               st = st\<lparr>has_runs := has_runs st \<or> run_end \<noteq> t\<rparr>
           in try_bind (verify_tail I (d OR run_end) run_end buf tot st) (\<lambda>st.
                Inr (st\<lparr>bounds := extend_offsets (bounds st) (d OR run_end) base\<rparr>))))"

text \<open>One record at a time, up to the first that crosses the chunk end.\<close>

function cursor_drain ::
    "('s, 'u) accumulator \<Rightarrow> byte list \<Rightarrow> nat \<Rightarrow> nat \<Rightarrow> nat \<Rightarrow> nat \<Rightarrow> 's \<Rightarrow> CursorStepper \<Rightarrow> 'u Error + nat option \<times> 's" where
  "cursor_drain acc buf rem tot n head s st =
     (if 0 < n \<and> n \<le> length (bounds st) - head
      then (case emit_records acc buf head 1 n (cell_start st) s st of
          Inl e \<Rightarrow> Inl e
        | Inr (cs, last_run_start, s') \<Rightarrow>
            (let stop = (rem < cs);
                 st' = st\<lparr>cell_start := cs, cs_last_record_end := Some (tot + handoff last_run_start rem stop)\<rparr>
             in if stop then Inr (cs_last_record_end st', s')
                else cursor_drain acc buf rem tot n (head + n) s' st'))
      else Inr (cs_last_record_end st, s))"
  by pat_completeness auto
termination
  by (relation "measure (\<lambda>(_, _, _, _, _, head, _, st). length (bounds st) - head)") auto

declare cursor_drain.simps [simp del]

definition cursor_finalize ::
    "isa \<Rightarrow> ('s, 'u) accumulator \<Rightarrow> StepCtx \<Rightarrow> 's \<Rightarrow> CursorStepper \<Rightarrow> 'u Error + nat option \<times> 's" where
  "cursor_finalize I acc ctx s st =
     (let buf = ctx_buf ctx; cursor = scan_start ctx; e = scan_end ctx; tot = total_consumed ctx
      in if e = 0 \<and> cursor = 0 \<and> pending st = None then Inr (cs_last_record_end st, s)
         else (let tail = cursor_tail I buf cursor e st;
                   next_lsb = (case tail of Some (_, t, _) \<Rightarrow> t AND 1 \<noteq> 0 | None \<Rightarrow> False);
                   zs = take e buf
               in try_bind (cursor_resolve I zs tot (pending st) next_lsb (st\<lparr>pending := None\<rparr>)) (\<lambda>st.
                  try_bind (cursor_resolve I zs tot tail False st) (\<lambda>st.
                  cursor_drain acc buf (remaining_in_chunk ctx) tot (fc_n (field_counter st)) 0 s st))))"

definition cursor_stepper_ops ::
    "isa \<Rightarrow> (byte list \<Rightarrow> nat) \<Rightarrow> (CursorStepper, 's, 'u) stepper_ops" where
  "cursor_stepper_ops I addr = \<lparr>st_step = cursor_step I addr, st_consume = cursor_consume, st_finalize = cursor_finalize I\<rparr>"

end
