(* ===== verification/ArityAhead.thy ===== *)
theory ArityAhead
  imports Reference
begin

text \<open>
  Errors raised ahead of the records they follow. A stepper that checks field counts on whatever it has scanned
  may report a wrong record before it has handed over the ones before it, and past the end of its
  chunk. \<open>arity_ahead\<close> says that the error is still about the first wrong record of what follows:
  the one the reference machine would stop at if the chunk had no end and the accumulator no objection.
\<close>

section \<open>Reading on\<close>

definition accept_all :: "('s, 'u) accumulator" where
  "accept_all s fs = Inr s"

definition arity_ahead :: "Config \<Rightarrow> nat \<Rightarrow> byte list \<Rightarrow> 's machine \<Rightarrow> 'u Error \<Rightarrow> bool" where
  "arity_ahead c p xs m err \<longleftrightarrow> (\<exists>n found f pos. err = NumberOfFields n found (at_byte pos) \<and> found \<le> f \<and>
     spec_rest c accept_all (p + length xs) p xs m = Inl (NumberOfFields n f (at_byte pos) :: 'u Error))"

text \<open>The accumulator's state plays no part in it.\<close>

fun with_acc :: "'s \<Rightarrow> ('s, 'u) outcome \<Rightarrow> ('s, 'u) outcome" where
  "with_acc a (Running m) = Running (m\<lparr>m_acc := a\<rparr>)"
| "with_acc a (Finished p s) = Finished p a"
| "with_acc a (Failed e) = Failed e"

lemma hand_over_accept:
  "hand_over c accept_all m = Inr s \<Longrightarrow> s = m_acc m"
  "hand_over c accept_all (m\<lparr>m_acc := a\<rparr>) = (case hand_over c accept_all m of Inl e \<Rightarrow> Inl e | Inr _ \<Rightarrow> Inr a)"
  by (auto simp: hand_over_def accept_all_def closed_fields_def Let_def split: option.splits if_splits)

lemma enter_accept:
  fixes m :: "'s machine"
  shows "(enter c accept_all L p s (m\<lparr>m_acc := a\<rparr>) :: ('s, 'u) outcome) = with_acc a (enter c accept_all L p s m)"
  by (cases s; cases "hand_over c accept_all m :: 'u Error + 's")
    (auto simp: enter_def hand_over_accept(2) closed_fields_def)

lemma spec_byte_accept:
  fixes m :: "'s machine"
  shows "(spec_byte c accept_all L p b (m\<lparr>m_acc := a\<rparr>) :: ('s, 'u) outcome) = with_acc a (spec_byte c accept_all L p b m)"
proof -
  have "copy_byte t b (mark_start c p b (m\<lparr>m_acc := a\<rparr>)) = (copy_byte t b (mark_start c p b m))\<lparr>m_acc := a\<rparr>" for t
    by (simp add: copy_byte_def mark_start_def)
  then show ?thesis by (simp add: spec_byte_def Let_def enter_accept)
qed

lemma spec_run_accept:
  fixes m :: "'s machine"
  shows "(spec_run c accept_all L p bs (m\<lparr>m_acc := a\<rparr>) :: ('s, 'u) outcome) = with_acc a (spec_run c accept_all L p bs m)"
proof (induction bs arbitrary: p m)
  case (Cons b bs)
  then show ?case
    by (cases "spec_byte c accept_all L p b m :: ('s, 'u) outcome") (simp_all add: spec_byte_accept)
qed simp

lemma spec_rest_accept:
  fixes m :: "'s machine" and e :: "'u Error"
  shows "spec_rest c accept_all L p bs (m\<lparr>m_acc := a\<rparr>) = Inl e \<longleftrightarrow> spec_rest c accept_all L p bs m = Inl e"
proof -
  have "spec_finish c accept_all q (m'\<lparr>m_acc := a\<rparr>) = Inl e \<longleftrightarrow> spec_finish c accept_all q m' = Inl e"
    for q and m' :: "'s machine"
    by (cases "hand_over c accept_all m' :: 'u Error + 's") (auto simp: spec_finish_def hand_over_accept(2))
  then show ?thesis
    by (cases "spec_run c accept_all L p bs m :: ('s, 'u) outcome") (auto simp: spec_rest_def spec_run_accept)
qed

text \<open>Where a run goes on, reading on goes the same way.\<close>

lemma hand_over_ok:
  fixes acc :: "('s, 'u) accumulator"
  shows "hand_over c acc m = Inr s \<Longrightarrow> hand_over c accept_all m = (Inr (m_acc m) :: 'u Error + 's)"
  by (auto simp: hand_over_def accept_all_def Let_def split: option.splits if_splits)

lemma spec_byte_read_on:
  fixes acc :: "('s, 'u) accumulator"
  assumes "spec_byte c acc L p b m = Running m'" and "p < L'"
  shows "(spec_byte c accept_all L' p b m :: ('s, 'u) outcome) = Running (m'\<lparr>m_acc := m_acc m\<rparr>)"
proof -
  have "(enter c accept_all L' p s m1 :: ('s, 'u) outcome) = Running (m2\<lparr>m_acc := m_acc m1\<rparr>)" if "enter c acc L p s m1 = Running m2" for s m1 m2
    using that assms(2) hand_over_ok[of c acc m1]
    by (cases s) (auto simp: enter_def split: sum.splits if_splits)
  moreover have "m_acc (copy_byte t b (mark_start c p b m)) = m_acc m" for t
    by (simp add: copy_byte_def mark_start_def)
  ultimately show ?thesis
    using assms by (auto simp: spec_byte_def Let_def split: if_splits)
qed

lemma spec_run_read_on:
  fixes acc :: "('s, 'u) accumulator"
  assumes "spec_run c acc L p bs m = Running m'" and "p + length bs \<le> L'"
  shows "(spec_run c accept_all L' p bs m :: ('s, 'u) outcome) = Running (m'\<lparr>m_acc := m_acc m\<rparr>)"
  using assms
proof (induction bs arbitrary: p m)
  case (Cons b bs)
  then obtain m1 where m1: "spec_byte c acc L p b m = Running m1" "spec_run c acc L (p + 1) bs m1 = Running m'"
    by (auto split: outcome.splits)
  have "(spec_run c accept_all L' (p + 1) bs (m1\<lparr>m_acc := m_acc m\<rparr>) :: ('s, 'u) outcome) = Running (m'\<lparr>m_acc := m_acc m\<rparr>)"
    using Cons.IH[OF m1(2)] Cons.prems(2) by (simp add: spec_run_accept)
  with spec_byte_read_on[OF m1(1), of L'] Cons.prems(2) show ?case by simp
qed simp

lemma arity_ahead_back:
  fixes acc :: "('s, 'u) accumulator" and err :: "'u Error"
  assumes "spec_run c acc L p xs m = Running m'" and "arity_ahead c (p + length xs) ys m' err"
  shows "arity_ahead c p (xs @ ys) m err"
proof -
  have "(spec_run c accept_all (p + length (xs @ ys)) p xs m :: ('s, 'u) outcome) = Running (m'\<lparr>m_acc := m_acc m\<rparr>)"
    using spec_run_read_on[OF assms(1), of "p + length (xs @ ys)"] by simp
  note run = spec_rest_append[OF this, of ys]
  show ?thesis
    using assms(2) unfolding arity_ahead_def run spec_rest_accept by (simp add: add.assoc)
qed

text \<open>In a dialect with a quote the input may end within one. A stepper that looks for that first reports it before the
  records in front, and a wrong record may be reported that the reference machine, reading on, takes for part of the
  unclosed field or of a record it never completes.\<close>

definition error_ahead :: "Config \<Rightarrow> nat \<Rightarrow> byte list \<Rightarrow> 's machine \<Rightarrow> 'u Error \<Rightarrow> bool" where
  "error_ahead c p xs m err \<longleftrightarrow> arity_ahead c p xs m err \<or>
     (\<exists>q. spec_rest c accept_all (p + length xs) p xs m = Inl (UnclosedQuote (at_byte q) :: 'u Error) \<and>
        (err = UnclosedQuote (at_byte q) \<or> (\<exists>n found pos. err = NumberOfFields n found (at_byte pos) \<and> pos \<le> q)))"

lemma arity_is_ahead: "arity_ahead c p xs m err \<Longrightarrow> error_ahead c p xs m err"
  by (simp add: error_ahead_def)

lemma error_ahead_back:
  fixes acc :: "('s, 'u) accumulator" and err :: "'u Error"
  assumes run: "spec_run c acc L p xs m = Running m'" and err: "error_ahead c (p + length xs) ys m' err"
  shows "error_ahead c p (xs @ ys) m err"
proof -
  have "(spec_run c accept_all (p + length (xs @ ys)) p xs m :: ('s, 'u) outcome) = Running (m'\<lparr>m_acc := m_acc m\<rparr>)"
    using spec_run_read_on[OF run, of "p + length (xs @ ys)"] by simp
  note on = spec_rest_append[OF this, of ys]
  show ?thesis
    using err arity_ahead_back[OF run, of ys err] unfolding error_ahead_def on spec_rest_accept by (auto simp: add.assoc)
qed

text \<open>When the chunk is all of the input, whatever a stepper reports ahead stops the reference machine too, there or before.\<close>

lemma spec_byte_not_finished: "p < L \<Longrightarrow> spec_byte c acc L p b m \<noteq> Finished e s"
  by (auto simp: spec_byte_def enter_def Let_def split: State.splits sum.splits)

lemma spec_run_not_finished: "p + length xs \<le> L \<Longrightarrow> spec_run c acc L p xs m \<noteq> Finished e s"
  by (induction xs arbitrary: p m) (auto simp: spec_byte_not_finished split: outcome.splits)

lemma error_ahead_fails:
  fixes acc :: "('s, 'u) accumulator" and err :: "'u Error"
  assumes "error_ahead c p xs m err" and "p + length xs \<le> L"
  shows "\<exists>e. spec_rest c acc L p xs m = Inl e"
proof (cases "spec_run c acc L p xs m")
  case (Running m')
  from spec_run_read_on[OF this order_refl]
  have "spec_rest c accept_all (p + length xs) p xs m =
      (spec_finish c accept_all (p + length xs) (m'\<lparr>m_acc := m_acc m\<rparr>) :: 'u Error + nat option \<times> 's)"
    by (simp add: spec_rest_def)
  moreover have "\<exists>e. spec_finish c acc q m' = Inl e"
    if "spec_finish c accept_all q (m'\<lparr>m_acc := m_acc m\<rparr>) = (Inl e :: 'u Error + nat option \<times> 's)" for q e
    using that hand_over_ok[of c acc m']
    by (cases "hand_over c acc m'") (auto simp: spec_finish_def hand_over_accept(2) split: if_splits)
  ultimately show ?thesis
    using assms(1) Running by (auto simp: error_ahead_def arity_ahead_def spec_rest_def)
next
  case (Finished e s)
  then show ?thesis using spec_run_not_finished[OF assms(2), of c acc m e s] by simp
qed (simp add: spec_rest_def)

end
