(* ===== verification/Unquoted.thy ===== *)
theory Unquoted
  imports CursorStepper ArityAhead
begin

text \<open>
  The reference machine in a dialect without quotes and comments, told by boundaries: positions of
  delimiters and of last terminators of a run. A record is what lies between a boundary that ends a record and the
  next one; the lemmas give the machine's run over it, field by field.
\<close>

section \<open>The dialect\<close>

definition plain :: "Config \<Rightarrow> nat \<Rightarrow> bool" where
  "plain c n \<longleftrightarrow> dialect_ok c \<and> quote c = None \<and> comment c = None \<and> \<not> trim c \<and> field_count c = Some n \<and>
     1 \<le> n \<and> n < 64"

abbreviation terminates :: "Config \<Rightarrow> byte \<Rightarrow> bool" where
  "terminates c \<equiv> is_terminator (terminator c)"

definition content :: "Config \<Rightarrow> byte \<Rightarrow> bool" where
  "content c b \<longleftrightarrow> b \<noteq> delimiter c \<and> \<not> terminates c b"

definition in_record :: "'s machine \<Rightarrow> bool" where
  "in_record m \<longleftrightarrow> m_state m = FieldStart \<or> m_state m = InField"

lemma plain_cells:
  assumes "plain c n" and "in_record m"
  shows "content c b \<Longrightarrow> spec_byte c acc L p b m = Running (m\<lparr>m_cur := m_cur m @ [b], m_state := InField\<rparr>)"
    and "b = delimiter c \<Longrightarrow> spec_byte c acc L p b m =
      Running (m\<lparr>m_fields := m_fields m @ [m_cur m], m_cur := [], m_fld_start := p + 1, m_state := FieldStart\<rparr>)"
    and "terminates c b \<Longrightarrow> spec_byte c acc L p b m = enter c acc L p RecordEnd m"
  using assms
  by (auto simp: plain_def content_def in_record_def dialect_ok_def spec_byte_def dfa_new_def transition_def
      field_start_cell_def in_field_cell_def mark_start_def copy_byte_def enter_def closed_fields_def trimmed_def)

definition opened :: "nat \<Rightarrow> 's machine \<Rightarrow> 's machine" where
  "opened p m = m\<lparr>m_rec_start := p, m_fld_start := p, m_state := FieldStart\<rparr>"

lemma opened_sel [simp]:
  "in_record (opened p m)" "m_fields (opened p m) = m_fields m" "m_cur (opened p m) = m_cur m"
  "m_state (opened p m) = FieldStart" "m_rec_start (opened p m) = p" "m_acc (opened p m) = m_acc m"
  "m_last_end (opened p m) = m_last_end m"
  by (simp_all add: opened_def in_record_def)

lemma spec_byte_first:
  assumes "plain c n" and "m_state m = RecordStart" and "\<not> terminates c b"
  shows "spec_byte c acc L p b m = spec_byte c acc L p b (opened p m)"
  using assms
  by (auto simp: plain_def opened_def spec_byte_def dfa_new_def transition_def record_start_cell_def mark_start_def copy_byte_def
      enter_def closed_fields_def field_start_cell_def split: State.split)

lemma spec_run_first:
  assumes "plain c n" and "m_state m = RecordStart" and "bs \<noteq> []" and "\<not> terminates c (hd bs)"
  shows "spec_run c acc L p bs m = spec_run c acc L p bs (opened p m)"
  using assms spec_byte_first[OF assms(1,2), of "hd bs" acc L p] by (cases bs) simp_all

lemma spec_run_content:
  assumes "plain c n" and "in_record m" and "\<forall>b\<in>set bs. content c b"
  shows "spec_run c acc L p bs m =
    Running (m\<lparr>m_cur := m_cur m @ bs, m_state := (if bs = [] then m_state m else InField)\<rparr>)"
  using assms(2,3)
proof (induction bs arbitrary: p m)
  case (Cons b bs)
  have "in_record (m\<lparr>m_cur := m_cur m @ [b], m_state := InField\<rparr>)" by (simp add: in_record_def)
  from Cons.IH[OF this] Cons.prems show ?case by (simp add: plain_cells(1)[OF assms(1)])
qed simp

section \<open>Boundaries\<close>

definition is_bound :: "Config \<Rightarrow> byte list \<Rightarrow> nat \<Rightarrow> bool" where
  "is_bound c xs i \<longleftrightarrow> i < length xs \<and>
     (xs ! i = delimiter c \<or> terminates c (xs ! i) \<and> \<not> (i + 1 < length xs \<and> terminates c (xs ! (i + 1))))"

definition bounds_in :: "Config \<Rightarrow> byte list \<Rightarrow> nat \<Rightarrow> nat \<Rightarrow> nat list" where
  "bounds_in c xs a b = filter (is_bound c xs) [a..<b]"

lemma filter_upt_Cons:
  assumes "filter P [a..<b] = d # ds"
  shows "a \<le> d" "d < b" "P d" "\<forall>k. a \<le> k \<and> k < d \<longrightarrow> \<not> P k" "filter P [d + 1..<b] = ds"
proof -
  from assms obtain us vs where split: "[a..<b] = us @ d # vs" "\<forall>u\<in>set us. \<not> P u" "P d" "ds = filter P vs"
    by (auto simp: filter_eq_Cons_iff)
  have len: "length us < b - a" using arg_cong[OF split(1), of length] by simp
  have nth: "j < b - a \<Longrightarrow> (us @ d # vs) ! j = a + j" for j using split(1) by (metis nth_upt less_diff_conv add.commute)
  have d: "d = a + length us" using nth[OF len] by simp
  show "a \<le> d" "d < b" "P d" using d len split(3) by auto
  have us: "us = [a..<d]"
  proof (rule nth_equalityI)
    show "length us = length [a..<d]" by (simp add: d)
    fix j assume j: "j < length us"
    then have "us ! j = a + j" using nth[of j] len by (simp add: nth_append)
    then show "us ! j = [a..<d] ! j" using j by (simp add: d)
  qed
  show "\<forall>k. a \<le> k \<and> k < d \<longrightarrow> \<not> P k" using split(2) unfolding us by simp
  have "[a..<b] = [a..<d] @ d # [d + 1..<b]"
    using \<open>a \<le> d\<close> \<open>d < b\<close> by (metis Suc_eq_plus1 le_add_diff_inverse less_imp_le upt_add_eq_append upt_conv_Cons)
  with split(1) us have "vs = [d + 1..<b]" by simp
  with split(4) show "filter P [d + 1..<b] = ds" by simp
qed

text \<open>What lies before a boundary: content, then, before the end of a run, the rest of the run.\<close>

lemma before_bound:
  assumes "i \<le> d" and "is_bound c xs d" and "\<forall>k. i \<le> k \<and> k < d \<longrightarrow> \<not> is_bound c xs k"
  shows "\<exists>r. i \<le> r \<and> r \<le> d \<and> (\<forall>k. i \<le> k \<and> k < r \<longrightarrow> content c (xs ! k)) \<and>
    (\<forall>k. r \<le> k \<and> k < d \<longrightarrow> terminates c (xs ! k)) \<and> (r < d \<longrightarrow> terminates c (xs ! d))"
  using assms
proof (induction "d - i" arbitrary: i)
  case 0
  then show ?case by (intro exI[of _ i]) auto
next
  case (Suc x)
  then have id: "i < d" and d: "d < length xs" by (auto simp: is_bound_def)
  have not: "\<not> is_bound c xs i" using Suc.prems(3) id by simp
  show ?case
  proof (cases "terminates c (xs ! i)")
    case False
    with not d id have "content c (xs ! i)" by (auto simp: is_bound_def content_def)
    moreover obtain r where "i + 1 \<le> r" "r \<le> d" "\<forall>k. i + 1 \<le> k \<and> k < r \<longrightarrow> content c (xs ! k)"
      "\<forall>k. r \<le> k \<and> k < d \<longrightarrow> terminates c (xs ! k)" "r < d \<longrightarrow> terminates c (xs ! d)"
      using Suc.hyps(1)[of "i + 1"] Suc.hyps(2) Suc.prems id by fastforce
    ultimately show ?thesis
      by (intro exI[of _ r]) (metis Suc_eq_plus1 Suc_leI Suc_leD le_neq_implies_less)
  next
    case True
    have nb: "\<forall>k. i \<le> k \<and> k < d \<longrightarrow> \<not> is_bound c xs k" by (rule Suc.prems(3))
    have run: "terminates c (xs ! k)" if "i \<le> k" "k \<le> d" for k
      using that
    proof (induction "k - i" arbitrary: k)
      case 0
      then show ?case using True by simp
    next
      case (Suc y)
      then have "terminates c (xs ! (k - 1))" "i \<le> k - 1" "k - 1 < d" by auto
      moreover have "\<not> is_bound c xs (k - 1)" using nb \<open>i \<le> k - 1\<close> \<open>k - 1 < d\<close> by blast
      moreover have "k - 1 + 1 = k" using Suc.hyps(2) by simp
      ultimately show ?case using d Suc.prems(2) unfolding is_bound_def by auto
    qed
    then show ?thesis using id by (intro exI[of _ i]) auto
  qed
qed


text \<open>A delimiter ends its field where it stands: no terminator lies between two boundaries without ending a record.\<close>

lemma before_delim:
  assumes "plain c n" and "i \<le> d" and "is_bound c xs d" and "xs ! d = delimiter c"
    and "\<forall>k. i \<le> k \<and> k < d \<longrightarrow> \<not> is_bound c xs k"
  shows "\<forall>k. i \<le> k \<and> k < d \<longrightarrow> content c (xs ! k)"
proof -
  have "\<not> terminates c (xs ! d)" using assms(1,4) by (simp add: plain_def dialect_ok_def)
  with before_bound[OF assms(2,3,5)] show ?thesis by (metis le_neq_implies_less)
qed

lemma slice_set: "b \<in> set (subslice xs i j) \<Longrightarrow> j \<le> length xs \<Longrightarrow> \<exists>k. i \<le> k \<and> k < j \<and> xs ! k = b"
proof -
  assume b: "b \<in> set (subslice xs i j)" and j: "j \<le> length xs"
  then obtain k where k: "k < length (subslice xs i j)" "subslice xs i j ! k = b" by (auto simp: in_set_conv_nth)
  then have "i + k < j" using j by simp
  with k(2) j show ?thesis by (intro exI[of _ "i + k"]) (simp add: slice_nth)
qed

lemma spec_run_cut:
  assumes "i \<le> j" "j \<le> k" "k \<le> length xs"
  shows "spec_run c acc L (tot + i) (subslice xs i k) m = (case spec_run c acc L (tot + i) (subslice xs i j) m of
     Running m' \<Rightarrow> spec_run c acc L (tot + j) (subslice xs j k) m' | out \<Rightarrow> out)"
proof -
  have "length (subslice xs i j) = j - i" using assms by simp
  then have len: "tot + i + length (subslice xs i j) = tot + j" using assms(1) by simp
  show ?thesis
    using spec_run_append[of c acc L "tot + i" "subslice xs i j" "subslice xs j k" m]
    unfolding len slice_append_slice[OF assms] .
qed

lemma spec_run_one: "j < length xs \<Longrightarrow> spec_run c acc L p (subslice xs j (Suc j)) m = spec_byte c acc L p (xs ! j) m"
  by (simp add: slice_snoc[of j j] split: outcome.split)

definition with_fields :: "byte list list \<Rightarrow> 's machine \<Rightarrow> 's machine \<Rightarrow> bool" where
  "with_fields fs m m' \<longleftrightarrow> m_state m' = FieldStart \<and> m_cur m' = [] \<and> m_fields m' = m_fields m @ fs \<and>
     m_rec_start m' = m_rec_start m \<and> m_last_end m' = m_last_end m \<and> m_acc m' = m_acc m"

text \<open>The fields that delimiters end.\<close>

lemma delims_run:
  assumes "plain c n" and "m_state m = FieldStart" and "m_cur m = []"
    and "bounds_in c xs i e = ds @ rest" and "\<forall>d\<in>set ds. xs ! d = delimiter c" and "i \<le> length xs"
    and "cut_fields i ds = (sps, i')"
  shows "i \<le> i' \<and> i' \<le> length xs \<and> bounds_in c xs i' e = rest \<and>
    (\<exists>m'. spec_run c acc L (tot + i) (subslice xs i i') m = Running m' \<and> with_fields (map (span_bytes xs) sps) m m')"
  using assms(2-)
proof (induction ds arbitrary: i m sps i')
  case Nil
  then show ?case by (auto simp: with_fields_def intro!: exI[of _ m])
next
  case (Cons d ds)
  note f = filter_upt_Cons[OF Cons.prems(3)[unfolded bounds_in_def append_Cons]]
  obtain sps' where cut: "cut_fields (d + 1) ds = (sps', i')" "sps = (i, d - i) # sps'"
    using Cons.prems(6) by (auto split: prod.splits)
  have d: "d < length xs" "xs ! d = delimiter c" using f(3) Cons.prems(4) by (auto simp: is_bound_def)
  have "\<forall>b\<in>set (subslice xs i d). content c b"
    using before_delim[OF assms(1) f(1,3) d(2) f(4)] slice_set[of _ xs i d] d(1) by fastforce
  then have run: "spec_run c acc L (tot + i) (subslice xs i d) m =
      Running (m\<lparr>m_cur := subslice xs i d, m_state := (if subslice xs i d = [] then m_state m else InField)\<rparr>)"
    using spec_run_content[OF assms(1), of m "subslice xs i d" acc L "tot + i"] Cons.prems(1,2) by (simp add: in_record_def)
  define m1 where "m1 = m\<lparr>m_cur := subslice xs i d, m_state := (if subslice xs i d = [] then m_state m else InField)\<rparr>"
  define m2 where "m2 = m1\<lparr>m_fields := m_fields m1 @ [m_cur m1], m_cur := [], m_fld_start := tot + d + 1, m_state := FieldStart\<rparr>"
  have "in_record m1" using Cons.prems(1) by (simp add: m1_def in_record_def)
  then have "spec_run c acc L (tot + d) (subslice xs d (d + 1)) m1 = Running m2"
    using plain_cells(2)[OF assms(1), of m1 "xs ! d"] d by (simp add: spec_run_one m2_def)
  with run have run2: "spec_run c acc L (tot + i) (subslice xs i (d + 1)) m = Running m2"
    using spec_run_cut[of i d "d + 1" xs c acc L tot m] f(1) d(1) by (simp flip: m1_def)
  have m2: "m_state m2 = FieldStart" "m_cur m2 = []" by (simp_all add: m2_def)
  from Cons.IH[OF m2 _ _ _ cut(1)] f(5) Cons.prems(4) d(1) obtain m' where
    IH: "d + 1 \<le> i'" "i' \<le> length xs" "bounds_in c xs i' e = rest"
      "spec_run c acc L (tot + (d + 1)) (subslice xs (d + 1) i') m2 = Running m'"
      "with_fields (map (span_bytes xs) sps') m2 m'"
    by (auto simp: bounds_in_def)
  have "spec_run c acc L (tot + i) (subslice xs i i') m = Running m'"
    using spec_run_cut[of i "d + 1" i' xs c acc L tot m] run2 IH f(1) by simp
  moreover have "with_fields (map (span_bytes xs) sps) m m'"
    using IH(5) f(1) by (simp add: cut(2) with_fields_def m2_def m1_def span_bytes_def)
  ultimately show ?case using IH f(1) by auto
qed

text \<open>Stripping stops where the run begins.\<close>

lemma strip_run_eq:
  assumes "i \<le> r" and "r \<le> d" and "r = i \<or> \<not> terminates c (xs ! (r - 1))"
    and "\<forall>k. r \<le> k \<and> k < d \<longrightarrow> terminates c (xs ! k)"
    and "\<And>b. b = ta \<or> b = tb \<longleftrightarrow> terminates c b"
  shows "strip_run xs ta tb i d = r"
  using assms(2,4)
proof (induction d)
  case 0
  then show ?case by simp
next
  case (Suc d)
  show ?case
  proof (cases "r = Suc d")
    case True
    then show ?thesis using assms(1,3,5) by auto
  next
    case False
    then have "r \<le> d" using Suc.prems(1) by simp
    then show ?thesis using Suc assms(1,5) by auto
  qed
qed

definition ended :: "nat \<Rightarrow> 's \<Rightarrow> 's machine \<Rightarrow> bool" where
  "ended end_pos s m \<longleftrightarrow> m_state m = RecordStart \<and> m_fields m = [] \<and> m_cur m = [] \<and>
     m_last_end m = Some end_pos \<and> m_acc m = s"

text \<open>The end of a record: it is handed over at the start of a run of terminators, and the run is skipped.\<close>

lemma record_closed:
  fixes acc :: "('s, 'u) accumulator"
  assumes run: "spec_run c acc L p (subslice xs i r) m = Running m2"
    and byte: "spec_byte c acc L (p + (r - i)) (xs ! r) m2 = enter c acc L (p + (r - i)) RecordEnd m2"
    and hand: "hand_over c acc m2 = map_err from_user (acc s fs)"
    and terms: "\<forall>k. r \<le> k \<and> k \<le> b \<longrightarrow> terminates c (xs ! k)" and le: "i \<le> r" "r \<le> b" "b < length xs"
  shows "case acc s fs of
      Inl err \<Rightarrow> spec_run c acc L p (subslice xs i (b + 1)) m = Failed (from_user err)
    | Inr s' \<Rightarrow> if L \<le> p + (b - i) then spec_run c acc L p (subslice xs i (b + 1)) m = Finished (max L (p + (r - i))) s'
        else \<exists>m'. spec_run c acc L p (subslice xs i (b + 1)) m = Running m' \<and> ended (p + (r - i)) s' m'"
proof -
  let ?q = "p + (r - i)"
  have cut: "subslice xs i (b + 1) = subslice xs i r @ xs ! r # subslice xs (r + 1) (b + 1)"
    using slice_append_slice[of i r "b + 1" xs] slice_append_slice[of r "r + 1" "b + 1" xs] slice_snoc[of r r xs] le by simp
  have len: "length (subslice xs i r) = r - i" "length (subslice xs (r + 1) (b + 1)) = b - r" using le by simp_all
  have "spec_run c acc L p (subslice xs i (b + 1)) m =
      (case enter c acc L ?q RecordEnd m2 of Running m' \<Rightarrow> spec_run c acc L (?q + 1) (subslice xs (r + 1) (b + 1)) m' | out \<Rightarrow> out)"
    unfolding cut spec_run_append run outcome.case len(1) spec_run.simps(2) byte by simp
  moreover have "\<forall>x\<in>set (subslice xs (r + 1) (b + 1)). terminates c x"
    using terms slice_set[of _ xs "r + 1" "b + 1"] le(3) by fastforce
  note skip = spec_run_terminators[OF _ this, of _ acc L "?q + 1"]
  have nil: "subslice xs (r + 1) (b + 1) \<noteq> [] \<longleftrightarrow> r < b"
    unfolding length_greater_0_conv[symmetric] len using le(2) by auto
  have last: "?q + 1 + (b - r) = p + (b - i) + 1" using le by simp
  show ?thesis
  proof (cases "acc s fs")
    case (Inl err)
    then show ?thesis using calculation hand by (simp add: enter_def)
  next
    case (Inr s')
    define m3 where "m3 = m2\<lparr>m_fields := [], m_cur := [], m_fld_start := ?q + 1, m_last_end := Some ?q, m_acc := s', m_state := RecordStart\<rparr>"
    have "enter c acc L ?q RecordEnd m2 = (if L \<le> ?q then Finished ?q s' else Running m3)"
      using hand Inr by (simp add: enter_def m3_def)
    moreover have "ended ?q s' m3" "m_state m3 = RecordStart" "m_acc m3 = s'" by (simp_all add: ended_def m3_def)
    ultimately show ?thesis
      using \<open>spec_run c acc L p (subslice xs i (b + 1)) m = _\<close> skip[of m3] le unfolding Inr sum.case nil len last
      by (auto simp: max_def)
  qed
qed

text \<open>One record: the fields up to its \<open>n\<close>-th boundary, which ends a run of terminators, and the run.\<close>

lemma unquoted_record:
  fixes acc :: "('s, 'u) accumulator"
  assumes "plain c n" and "m_state m = RecordStart" and "m_fields m = []" and "m_cur m = []"
    and "bounds_in c xs i e = ds @ b # rest" and "\<forall>d\<in>set ds. xs ! d = delimiter c" and "length ds + 1 = n"
    and "terminates c (xs ! b)" and "i < length xs" and "\<not> terminates c (xs ! i)"
    and "cut_fields i ds = (sps, i')" and "\<And>b. b = ta \<or> b = tb \<longleftrightarrow> terminates c b"
  defines "r \<equiv> strip_run xs ta tb i' b"
  shows "i' \<le> r \<and> r \<le> b \<and> b < length xs \<and> bounds_in c xs (b + 1) e = rest \<and>
    (\<forall>k. r \<le> k \<and> k \<le> b \<longrightarrow> terminates c (xs ! k)) \<and>
    (case acc (m_acc m) (map (span_bytes xs) (sps @ [(i', r - i')])) of
       Inl err \<Rightarrow> spec_run c acc L (tot + i) (subslice xs i (b + 1)) m = Failed (from_user err)
     | Inr s' \<Rightarrow> if L \<le> tot + b then spec_run c acc L (tot + i) (subslice xs i (b + 1)) m = Finished (max L (tot + r)) s'
         else \<exists>m'. spec_run c acc L (tot + i) (subslice xs i (b + 1)) m = Running m' \<and> ended (tot + r) s' m')"
proof -
  have op: "m_state (opened (tot + i) m) = FieldStart" "m_cur (opened (tot + i) m) = []" using assms(4) by simp_all
  from delims_run[OF assms(1) op assms(5,6) less_imp_le[OF assms(9)] assms(11), of acc L tot] obtain m1 where
    i': "i \<le> i'" "i' \<le> length xs" "bounds_in c xs i' e = b # rest"
    and run1: "spec_run c acc L (tot + i) (subslice xs i i') (opened (tot + i) m) = Running m1"
    and m1: "with_fields (map (span_bytes xs) sps) (opened (tot + i) m) m1"
    by auto
  note f = filter_upt_Cons[OF i'(3)[unfolded bounds_in_def]]
  have b: "b < length xs" using f(3) by (simp add: is_bound_def)
  from before_bound[OF f(1,3,4)] obtain r0 where
    r0: "i' \<le> r0" "r0 \<le> b" "\<forall>k. i' \<le> k \<and> k < r0 \<longrightarrow> content c (xs ! k)" "\<forall>k. r0 \<le> k \<and> k < b \<longrightarrow> terminates c (xs ! k)"
    by auto
  have "r0 = i' \<or> \<not> terminates c (xs ! (r0 - 1))" using r0(1,3) by (auto simp: content_def)
  from strip_run_eq[OF r0(1,2) this r0(4) assms(12)] have r: "r = r0" by (simp add: r_def)
  have terms: "\<forall>k. r \<le> k \<and> k \<le> b \<longrightarrow> terminates c (xs ! k)" using r0(4) assms(8) unfolding r by (metis le_neq_implies_less)
  define m2 where "m2 = m1\<lparr>m_cur := subslice xs i' r, m_state := (if subslice xs i' r = [] then m_state m1 else InField)\<rparr>"
  have st1: "in_record m1" "m_cur m1 = []" using m1 by (auto simp: with_fields_def in_record_def)
  have "\<forall>x\<in>set (subslice xs i' r). content c x" using slice_set[of _ xs i' r] r0(2,3) b unfolding r by fastforce
  from spec_run_content[OF assms(1) st1(1) this, of acc L "tot + i'"] st1(2)
  have run2: "spec_run c acc L (tot + i') (subslice xs i' r) m1 = Running m2" by (simp add: m2_def)
  have run: "spec_run c acc L (tot + i) (subslice xs i r) (opened (tot + i) m) = Running m2"
    using spec_run_cut[of i i' r xs c acc L tot] run1 run2 i'(1) r0(1,2) b unfolding r by simp
  have "in_record m2" using st1(1) by (auto simp: m2_def in_record_def)
  moreover have "terminates c (xs ! r)" using terms r0(2) by (simp add: r)
  ultimately have byte: "spec_byte c acc L (tot + i + (r - i)) (xs ! r) m2 = enter c acc L (tot + i + (r - i)) RecordEnd m2"
    by (rule plain_cells(3)[OF assms(1)])
  have hand: "hand_over c acc m2 = map_err from_user (acc (m_acc m) (map (span_bytes xs) (sps @ [(i', r - i')])))"
  proof -
    have "length sps = length ds"
      using assms(11) by (induction ds arbitrary: i sps i') (auto split: prod.splits)
    moreover have "subslice xs i' r = span_bytes xs (i', r - i')" using r0(1) by (simp add: span_bytes_def r)
    ultimately have "closed_fields c m2 = map (span_bytes xs) (sps @ [(i', r - i')])" "length (closed_fields c m2) = n"
      "m_acc m2 = m_acc m"
      using m1 assms(1,3,7) by (auto simp: closed_fields_def m2_def with_fields_def trimmed_def plain_def)
    then show ?thesis using assms(1) by (simp add: hand_over_def plain_def)
  qed
  have first: "spec_run c acc L (tot + i) (subslice xs i (b + 1)) m =
      spec_run c acc L (tot + i) (subslice xs i (b + 1)) (opened (tot + i) m)"
  proof (rule spec_run_first[OF assms(1,2)])
    have "i < b + 1" using i'(1) f(1) by simp
    then have sl: "subslice xs i (b + 1) = xs ! i # subslice xs (i + 1) (b + 1)"
      using slice_append_slice[of i "i + 1" "b + 1" xs] b slice_snoc[of i i xs] assms(9) by simp
    show "subslice xs i (b + 1) \<noteq> []" "\<not> terminates c (hd (subslice xs i (b + 1)))"
      using assms(10) unfolding sl by simp_all
  qed
  have ir: "i \<le> r" "r \<le> b" using i'(1) r0(1,2) by (simp_all add: r)
  have "tot + i + (r - i) = tot + r" "tot + i + (b - i) = tot + b" using ir by simp_all
  note closed = record_closed[OF run byte hand terms ir b, folded first, unfolded this]
  have "i' \<le> r" "r \<le> b" using r0 by (simp_all add: r)
  moreover have "bounds_in c xs (b + 1) e = rest" using f(5) by (simp add: bounds_in_def)
  moreover note closed
  ultimately show ?thesis using b terms by blast
qed

end
