(* ===== verification/Assembly.thy ===== *)
theory Assembly
  imports SimdIndex
begin

text \<open>
  What src/src/parser/simd/index.rs assembles: every field is its bytes without the removed ones, whatever the
  fields before it moved, and nothing outside the fields is written.
\<close>

section \<open>The bytes that are kept\<close>

definition kept :: "nat list \<Rightarrow> byte list \<Rightarrow> nat \<Rightarrow> nat \<Rightarrow> byte list" where
  "kept rs buf b e = map ((!) buf) (filter (\<lambda>k. k \<notin> set rs) [b..<e])"

lemma kept_none:
  assumes "\<And>r. r \<in> set rs \<Longrightarrow> r < b \<or> e \<le> r" and "e \<le> length buf"
  shows "kept rs buf b e = subslice buf b e"
proof -
  have "filter (\<lambda>k. k \<notin> set rs) [b..<e] = [b..<e]" using assms(1) by (fastforce simp: filter_id_conv)
  then show ?thesis using assms(2) by (auto simp: kept_def intro!: nth_equalityI simp: slice_nth)
qed

lemma kept_append: "b \<le> m \<Longrightarrow> m \<le> e \<Longrightarrow> kept rs buf b e = kept rs buf b m @ kept rs buf m e"
  by (simp add: kept_def flip: map_append filter_append) (metis le_Suc_ex upt_add_eq_append)

lemma kept_cong: "(\<And>k. b \<le> k \<Longrightarrow> k < e \<Longrightarrow> buf ! k = buf' ! k) \<Longrightarrow> kept rs buf b e = kept rs buf' b e"
  by (auto simp: kept_def)

lemma kept_removals:
  "(\<And>k. b \<le> k \<Longrightarrow> k < e \<Longrightarrow> k \<in> set rs \<longleftrightarrow> k \<in> set rs') \<Longrightarrow> kept rs buf b e = kept rs' buf b e"
  by (auto simp: kept_def intro!: arg_cong[where f = "map _"] filter_cong)

lemma kept_removed: "r \<in> set rs \<Longrightarrow> kept rs buf r (Suc r) = []"
  by (simp add: kept_def)

text \<open>The bytes before \<open>a\<close> and from \<open>z\<close> on are as they were.\<close>

definition same_outside :: "byte list \<Rightarrow> byte list \<Rightarrow> nat \<Rightarrow> nat \<Rightarrow> bool" where
  "same_outside buf buf' a z \<longleftrightarrow> length buf' = length buf \<and> (\<forall>k<length buf. k < a \<or> z \<le> k \<longrightarrow> buf' ! k = buf ! k)"

lemma same_outside_refl: "same_outside buf buf a z"
  by (simp add: same_outside_def)

lemma same_outside_trans:
  "same_outside buf buf1 a z \<Longrightarrow> same_outside buf1 buf2 a' z' \<Longrightarrow> a0 \<le> a \<Longrightarrow> a0 \<le> a' \<Longrightarrow> z \<le> z0 \<Longrightarrow> z' \<le> z0 \<Longrightarrow>
    same_outside buf buf2 a0 z0"
  by (simp add: same_outside_def)

lemma same_outside_kept:
  "same_outside buf buf' a z \<Longrightarrow> e \<le> length buf \<Longrightarrow> e \<le> a \<or> z \<le> b \<Longrightarrow> kept rs buf' b e = kept rs buf b e"
  by (rule kept_cong) (auto simp: same_outside_def)

section \<open>One field\<close>

text \<open>One run of kept bytes moved left over the gap the removals left.\<close>

lemma move_run:
  assumes "w \<le> p" and "p + len \<le> length buf"
  defines "buf' \<equiv> (if len \<noteq> 0 \<and> w \<noteq> p then memmove buf p w len else buf)"
  shows "same_outside buf buf' w (p + len)" and "subslice buf' w (w + len) = subslice buf p (p + len)"
proof -
  show "same_outside buf buf' w (p + len)"
    using assms(1,2) by (auto simp: buf'_def same_outside_def nth_memmove)
  show "subslice buf' w (w + len) = subslice buf p (p + len)"
    using assms(1,2) by (auto simp: buf'_def slice_nth nth_memmove intro!: nth_equalityI)
qed

lemma compact_runs_ok:
  assumes "w \<le> p" and "sorted rs" and "distinct rs" and "\<forall>r\<in>set rs. p \<le> r \<and> r < e" and "e \<le> length buf"
    and "compact_runs buf w p rs = (buf', w', p')"
  shows "same_outside buf buf' w p' \<and> p \<le> p' \<and> p' \<le> max p e \<and> w' \<le> p' \<and> p' - w' = p - w + length rs \<and>
    w \<le> w' \<and> subslice buf' w w' = kept rs buf p p' \<and> (\<forall>r\<in>set rs. r < p')"
  using assms
proof (induction rs arbitrary: buf w p)
  case Nil
  then show ?case by (simp add: same_outside_refl kept_def)
next
  case (Cons r rs)
  define buf1 where "buf1 = (if r - p \<noteq> 0 \<and> w \<noteq> p then memmove buf p w (r - p) else buf)"
  have r: "p \<le> r" "r < e" "p + (r - p) = r" "p + (r - p) \<le> length buf" using Cons.prems(4,5) by auto
  note mv = move_run[OF Cons.prems(1) r(4), folded buf1_def, unfolded r(3)]
  have rec: "compact_runs buf1 (w + (r - p)) (r + 1) rs = (buf', w', p')"
    using Cons.prems(6) unfolding compact_runs.simps Let_def buf1_def .
  have later: "\<forall>x\<in>set rs. r + 1 \<le> x \<and> x < e" using Cons.prems(2-4) by (fastforce simp: Suc_le_eq order_le_less)
  have len1: "length buf1 = length buf" using mv(1) by (simp add: same_outside_def)
  have "w + (r - p) \<le> r + 1" "sorted rs" "distinct rs" "e \<le> length buf1"
    using Cons.prems r len1 by auto
  note IH = Cons.IH[OF this(1-3) later this(4) rec]
  have bounds: "w \<le> w + (r - p)" "r + 1 \<le> p'" "w + (r - p) \<le> w'" "p' \<le> e" using IH r by auto
  have out: "same_outside buf buf' w p'"
    using same_outside_trans[OF mv(1) conjunct1[OF IH], of w p'] bounds by simp
  have head: "subslice buf' w (w + (r - p)) = subslice buf p r"
  proof -
    have "subslice buf' w (w + (r - p)) = subslice buf1 w (w + (r - p))"
      using IH r len1 Cons.prems(1) by (intro slice_cong) (auto simp: same_outside_def)
    then show ?thesis using mv(2) by simp
  qed
  have tail: "subslice buf' (w + (r - p)) w' = kept rs buf (r + 1) p'"
  proof -
    have "kept rs buf1 (r + 1) p' = kept rs buf (r + 1) p'"
      using same_outside_kept[OF mv(1), of p' "r + 1" rs] bounds Cons.prems(5) by simp
    then show ?thesis using IH by simp
  qed
  have "kept (r # rs) buf p p' = subslice buf p r @ kept rs buf (r + 1) p'"
  proof -
    have "kept (r # rs) buf p p' = kept (r # rs) buf p r @ kept (r # rs) buf r (r + 1) @ kept (r # rs) buf (r + 1) p'"
      using r bounds by (simp add: kept_append[of p r p'] kept_append[of r "r + 1" p'])
    moreover have "kept (r # rs) buf p r = subslice buf p r"
      using later r Cons.prems(5) by (intro kept_none) auto
    moreover have "kept (r # rs) buf (r + 1) p' = kept rs buf (r + 1) p'" by (rule kept_removals) auto
    ultimately show ?thesis by (simp add: kept_removed)
  qed
  moreover have "subslice buf' w w' = subslice buf' w (w + (r - p)) @ subslice buf' (w + (r - p)) w'"
    using bounds IH out Cons.prems(1,5) by (intro slice_append_slice[symmetric]) (auto simp: same_outside_def)
  ultimately show ?case using IH out head tail bounds r Cons.prems(1) by auto
qed

text \<open>The cursor into the removed offsets.\<close>

lemma skip_removals_ok:
  assumes "sorted rs" and "\<forall>r\<in>set (take k rs). r < lim"
  defines "k' \<equiv> skip_removals rs k lim"
  shows "k \<le> k' \<and> (\<forall>r\<in>set (take k' rs). r < lim) \<and> (\<forall>r\<in>set (drop k' rs). lim \<le> r)"
proof -
  let ?t = "takeWhile (\<lambda>r. r < lim) (drop k rs)"
  have tk: "take k' rs = take k rs @ ?t"
    unfolding k'_def skip_removals_def take_add by (simp flip: takeWhile_eq_take)
  have dr: "drop k' rs = dropWhile (\<lambda>r. r < lim) (drop k rs)"
    unfolding k'_def skip_removals_def by (simp add: dropWhile_eq_drop add.commute)
  have "lim \<le> r" if "r \<in> set (drop k' rs)" for r
  proof -
    have "drop k' rs \<noteq> []" using that by (metis empty_iff empty_set)
    then obtain y ys where eq: "drop k' rs = y # ys" by (meson neq_Nil_conv)
    have "\<not> y < lim" using hd_dropWhile[of "\<lambda>r. r < lim" "drop k rs"] eq unfolding dr by simp
    moreover have "sorted (y # ys)" unfolding eq[symmetric] using assms(1) by (rule sorted_wrt_drop)
    moreover have "r \<in> set (y # ys)" using that unfolding eq .
    ultimately show ?thesis by auto
  qed
  moreover have "r < lim" if "r \<in> set (take k' rs)" for r
    using that assms(2) unfolding tk by (auto dest: set_takeWhileD)
  moreover have "k \<le> k'" unfolding k'_def skip_removals_def by simp
  ultimately show ?thesis by blast
qed

lemma assemble_field_ok:
  assumes rs: "sorted rs" "distinct rs" and before: "\<forall>r\<in>set (take k rs). r < b" and "b \<le> e" and len: "e \<le> length buf"
    and asm: "assemble_field buf rs k b e = (buf', k', sp)"
  shows "same_outside buf buf' b e \<and> span_bytes buf' sp = kept rs buf b e \<and> (\<forall>r\<in>set (take k' rs). r < e) \<and>
    b \<le> fst sp \<and> fst sp + snd sp \<le> e"
proof -
  define i where "i = skip_removals rs k b"
  define j where "j = skip_removals rs i e"
  note i = skip_removals_ok[OF rs(1) before, folded i_def]
  have "\<forall>r\<in>set (take i rs). r < e" using i \<open>b \<le> e\<close> by fastforce
  note j = skip_removals_ok[OF rs(1) this, folded j_def]
  define mid where "mid = subslice rs i j"
  have slice: "mid = drop i (take j rs)" "mid = take (j - i) (drop i rs)" unfolding mid_def subslice_def by (simp_all add: drop_take)
  have mid_set: "\<forall>r\<in>set mid. b \<le> r \<and> r < e"
    using i j set_drop_subset[of i "take j rs"] set_take_subset[of "j - i" "drop i rs"] slice by (metis subsetD)
  have mid_ok: "sorted mid" "distinct mid" using rs by (simp_all add: slice(1) sorted_wrt_take sorted_wrt_drop)
  have between: "k \<in> set rs \<longleftrightarrow> k \<in> set mid" if "b \<le> k" "k < e" for k
  proof -
    have "set rs = set (take i rs) \<union> set mid \<union> set (drop j rs)"
      using i j by (simp add: slice(1) flip: set_append) (metis append_assoc append_take_drop_id drop_drop le_add_diff_inverse2 min.absorb1 take_take)
    then show ?thesis using i j that by fastforce
  qed
  have cnt: "length mid = j - i"
    unfolding slice(2) by (simp add: j_def skip_removals_def length_takeWhile_le flip: length_drop)
  have out: "buf' = (if j \<noteq> i then (let (buf1, w, p) = compact_runs buf b b mid
        in if e \<noteq> p \<and> w \<noteq> p then memmove buf1 p w (e - p) else buf1) else buf)"
      "k' = j" "sp = (b, e - b - (j - i))"
    using asm by (auto simp: assemble_field_def Let_def i_def j_def mid_def)
  show ?thesis
  proof (cases "j = i")
    case True
    then have "mid = []" by (simp add: slice(2))
    then have "r < b \<or> e \<le> r" if "r \<in> set rs" for r using between[of r] that by (cases "b \<le> r \<and> r < e") auto
    then have "kept rs buf b e = subslice buf b e" using len by (intro kept_none)
    then show ?thesis using True out j \<open>b \<le> e\<close> by (simp add: same_outside_refl span_bytes_def)
  next
    case False
    obtain buf1 w p where run: "compact_runs buf b b mid = (buf1, w, p)" by (metis surj_pair)
    note ok = compact_runs_ok[OF order_refl mid_ok mid_set len run]
    have p: "p \<le> e" "w \<le> p" "p - w = j - i" "b \<le> w" using ok cnt \<open>b \<le> e\<close> by auto
    have len1: "length buf1 = length buf" using ok by (simp add: same_outside_def)
    then have "p + (e - p) \<le> length buf1" using p(1) len by simp
    note mv = move_run[OF p(2) this]
    have buf': "buf' = (if e - p \<noteq> 0 \<and> w \<noteq> p then memmove buf1 p w (e - p) else buf1)"
      using out(1) False p(1) by (auto simp: run)
    have p': "p + (e - p) = e" using p(1) by simp
    note mv = mv[folded buf', unfolded p']
    have all: "same_outside buf buf' b e"
      using same_outside_trans[OF conjunct1[OF ok] mv(1), of b e] p by simp
    have head: "subslice buf' b w = kept mid buf b p"
    proof -
      have "subslice buf' b w = subslice buf1 b w"
        using mv(1) p len1 len by (intro slice_cong) (auto simp: same_outside_def)
      then show ?thesis using ok by simp
    qed
    have "subslice buf' w (w + (e - p)) = subslice buf1 p e" using mv(2) by simp
    also have "\<dots> = subslice buf p e" using ok len len1 by (intro slice_cong) (auto simp: same_outside_def)
    also have "\<dots> = kept mid buf p e" using ok len by (intro kept_none[symmetric]) auto
    finally have tail: "subslice buf' w (w + (e - p)) = kept mid buf p e" .
    have "subslice buf' b (w + (e - p)) = subslice buf' b w @ subslice buf' w (w + (e - p))"
      using p len all by (intro slice_append_slice[symmetric]) (auto simp: same_outside_def)
    moreover have "kept rs buf b e = kept mid buf b e" by (rule kept_removals) (use between in blast)
    moreover have "kept mid buf b e = kept mid buf b p @ kept mid buf p e" using p by (intro kept_append) auto
    moreover have "b + (e - b - (j - i)) = w + (e - p)" using p by simp
    ultimately show ?thesis using out(2,3) all head tail j p by (simp add: span_bytes_def)
  qed
qed

section \<open>The fields of a record\<close>

text \<open>Ascending spans between \<open>lo\<close> and \<open>hi\<close> that do not overlap.\<close>

fun spans_in :: "nat \<Rightarrow> (nat \<times> nat) list \<Rightarrow> nat \<Rightarrow> bool" where
  "spans_in lo [] hi = (lo \<le> hi)"
| "spans_in lo ((b, e) # fs) hi = (lo \<le> b \<and> b \<le> e \<and> spans_in e fs hi)"

lemma spans_in_le: "spans_in lo fs hi \<Longrightarrow> lo \<le> hi"
  by (induction lo fs hi rule: spans_in.induct) auto

lemma spans_in_append: "spans_in lo (fs @ gs) hi \<longleftrightarrow> (\<exists>mid. spans_in lo fs mid \<and> spans_in mid gs hi \<and>
    (fs \<noteq> [] \<longrightarrow> mid = snd (last fs)) \<and> (fs = [] \<longrightarrow> mid = lo))"
  by (induction lo fs hi rule: spans_in.induct) (auto dest: spans_in_le)

lemma spans_in_mem: "spans_in lo fs hi \<Longrightarrow> (b, e) \<in> set fs \<Longrightarrow> lo \<le> b \<and> b \<le> e \<and> e \<le> hi"
  by (induction lo fs hi rule: spans_in.induct) (auto dest: spans_in_le)

lemma spans_in_hi: "spans_in lo fs hi \<Longrightarrow> hi \<le> hi' \<Longrightarrow> spans_in lo fs hi'"
  by (induction lo fs hi rule: spans_in.induct) auto

lemma spans_in_lo: "spans_in lo fs hi \<Longrightarrow> fs \<noteq> [] \<Longrightarrow> spans_in (fst (hd fs)) fs hi"
  by (cases fs) auto

lemma spans_in_last: "spans_in lo fs hi \<Longrightarrow> fs \<noteq> [] \<Longrightarrow> spans_in lo fs (snd (last fs)) \<and> snd (last fs) \<le> hi"
  using spans_in_append[of lo fs "[]" hi] by auto

lemma same_outside_span:
  "same_outside buf buf' a z \<Longrightarrow> fst sp + snd sp \<le> length buf \<Longrightarrow> fst sp + snd sp \<le> a \<or> z \<le> fst sp \<Longrightarrow>
    span_bytes buf' sp = span_bytes buf sp"
  unfolding span_bytes_def by (intro slice_cong) (auto simp: same_outside_def)

lemma assemble_fields_ok:
  assumes "sorted rs" and "distinct rs" and "\<forall>r\<in>set (take k rs). r < lo" and "spans_in lo fs hi" and "hi \<le> length buf"
    and "assemble_fields buf rs k fs = (buf', k', sps)"
  shows "same_outside buf buf' lo hi \<and> map (span_bytes buf') sps = map (\<lambda>(b, e). kept rs buf b e) fs \<and>
    (\<forall>r\<in>set (take k' rs). r < hi)"
  using assms
proof (induction fs arbitrary: buf k lo sps)
  case Nil
  then show ?case by (fastforce simp: same_outside_refl)
next
  case (Cons f fs)
  obtain b e where f: "f = (b, e)" by fastforce
  have sp: "lo \<le> b" "b \<le> e" "spans_in e fs hi" and "e \<le> hi" using Cons.prems(4) spans_in_le[of e fs hi] by (auto simp: f)
  obtain buf1 k1 sp1 where one: "assemble_field buf rs k b e = (buf1, k1, sp1)" by (metis surj_pair)
  obtain sps' where rest: "assemble_fields buf1 rs k1 fs = (buf', k', sps')" "sps = sp1 # sps'"
    using Cons.prems(6) one by (auto simp: f Let_def split: prod.splits)
  have "\<forall>r\<in>set (take k rs). r < b" using Cons.prems(3) sp(1) by fastforce
  from assemble_field_ok[OF Cons.prems(1,2) this sp(2) _ one] \<open>e \<le> hi\<close> Cons.prems(5)
  have F: "same_outside buf buf1 b e" "span_bytes buf1 sp1 = kept rs buf b e" "\<forall>r\<in>set (take k1 rs). r < e"
    "fst sp1 + snd sp1 \<le> e" by auto
  have len1: "hi \<le> length buf1" using F(1) Cons.prems(5) by (simp add: same_outside_def)
  note IH = Cons.IH[OF Cons.prems(1,2) F(3) sp(3) len1 rest(1)]
  have "same_outside buf buf' lo hi"
    using same_outside_trans[OF F(1) conjunct1[OF IH], of lo hi] sp(1,2) \<open>e \<le> hi\<close> by simp
  moreover have "span_bytes buf' sp1 = kept rs buf b e"
    using same_outside_span[OF conjunct1[OF IH], of sp1] F(2,4) len1 \<open>e \<le> hi\<close> by simp
  moreover have "(case x of (b, e) \<Rightarrow> kept rs buf1 b e) = (case x of (b, e) \<Rightarrow> kept rs buf b e)" if "x \<in> set fs" for x
    using spans_in_mem[OF sp(3)] same_outside_kept[OF F(1)] that Cons.prems(5) by (fastforce split: prod.splits)
  ultimately show ?case using IH rest(2) by (simp add: f)
qed

lemma assemble_record_ok:
  assumes rs: "sorted rs" "distinct rs" and before: "\<forall>r\<in>set (take k rs). r < lo" and spans: "spans_in lo fs hi" "fs \<noteq> []"
    and len: "hi \<le> length buf" and asm: "assemble_record buf rs k fs = (buf', k', sps)"
  shows "same_outside buf buf' lo hi \<and> map (span_bytes buf') sps = map (\<lambda>(b, e). kept rs buf b e) fs \<and>
    (\<forall>r\<in>set (take k' rs). r < hi)"
proof -
  define k1 where "k1 = skip_removals rs k (fst (hd fs))"
  have lo: "lo \<le> fst (hd fs)" "fst (hd fs) \<le> hi" using spans_in_mem[OF spans(1), of "fst (hd fs)" "snd (hd fs)"] spans(2) by auto
  then have "\<forall>r\<in>set (take k rs). r < fst (hd fs)" using before by fastforce
  note k1 = skip_removals_ok[OF rs(1) this, folded k1_def]
  show ?thesis
  proof (cases "length rs \<le> k1 \<or> snd (last fs) \<le> rs ! k1")
    case True
    have out: "buf' = buf" "k' = k1" "sps = map (\<lambda>(b, e). (b, e - b)) fs"
      using asm True by (auto simp: assemble_record_def Let_def k1_def)
    have clean: "r < fst (hd fs) \<or> snd (last fs) \<le> r" if "r \<in> set rs" for r
    proof -
      have "r \<in> set (take k1 rs) \<or> r \<in> set (drop k1 rs)" using that by (metis Un_iff append_take_drop_id set_append)
      moreover have "snd (last fs) \<le> r" if r: "r \<in> set (drop k1 rs)"
      proof -
        have lt: "k1 < length rs" using r by (cases "k1 < length rs") auto
        then have "drop k1 rs = rs ! k1 # drop (Suc k1) rs" by (simp add: Cons_nth_drop_Suc)
        moreover have "sorted (drop k1 rs)" using rs(1) by (rule sorted_wrt_drop)
        ultimately have "rs ! k1 \<le> r" using r by auto
        then show ?thesis using True lt by simp
      qed
      ultimately show ?thesis using k1 by blast
    qed
    have "span_bytes buf (b, e - b) = kept rs buf b e" if "(b, e) \<in> set fs" for b e
    proof -
      have "fst (hd fs) \<le> b" "b \<le> e" "e \<le> snd (last fs)"
        using spans_in_mem[OF spans_in_lo[OF spans] that] spans_in_mem[OF conjunct1[OF spans_in_last[OF spans]] that] by auto
      moreover have "snd (last fs) \<le> length buf" using spans_in_last[OF spans] len by simp
      ultimately show ?thesis using clean by (subst kept_none) (fastforce simp: span_bytes_def)+
    qed
    then show ?thesis using k1 lo by (fastforce simp: out same_outside_refl)
  next
    case False
    then have "assemble_fields buf rs k1 fs = (buf', k', sps)" using asm by (simp add: assemble_record_def Let_def k1_def)
    from assemble_fields_ok[OF rs conjunct1[OF conjunct2[OF k1]] spans_in_lo[OF spans] len this] lo
    show ?thesis by (auto simp: same_outside_def)
  qed
qed

section \<open>Records\<close>

primrec strided :: "nat \<Rightarrow> nat \<Rightarrow> 'a list \<Rightarrow> 'a list list" where
  "strided n 0 xs = []"
| "strided n (Suc k) xs = take n xs # strided n k (drop n xs)"

lemma strided_set: "r \<in> set (strided n k xs) \<Longrightarrow> x \<in> set r \<Longrightarrow> x \<in> set (take (k * n) xs)"
  by (induction k arbitrary: xs) (auto simp: take_add)

text \<open>One call of the accumulator per record, up to the first that fails.\<close>

fun hand_records :: "('s, 'u) accumulator \<Rightarrow> 's \<Rightarrow> byte list list list \<Rightarrow> 'u boxed_error + 's" where
  "hand_records acc s [] = Inr s"
| "hand_records acc s (r # rs) = (case acc s r of Inl e \<Rightarrow> Inl e | Inr s' \<Rightarrow> hand_records acc s' rs)"

lemma assemble_loop_ok:
  assumes "sorted rs" and "distinct rs" and "\<forall>r\<in>set (take k rs). r < lo" and "spans_in lo (take (num * n) fs) hi"
    and "hi \<le> length buf" and "0 < n" and "num * n \<le> length fs" and "assemble_loop acc n fs rs num buf k s = (res, buf')"
  shows "same_outside buf buf' lo hi \<and>
    res = hand_records acc s (map (map (\<lambda>(b, e). kept rs buf b e)) (strided n num fs))"
  using assms
proof (induction num arbitrary: buf k lo s fs)
  case 0
  then show ?case by (simp add: same_outside_refl)
next
  case (Suc num)
  have split: "take (Suc num * n) fs = take n fs @ take (num * n) (drop n fs)" by (simp add: take_add)
  have ne: "take n fs \<noteq> []" using Suc.prems(6,7) by auto
  obtain mid where mid: "spans_in lo (take n fs) mid" "spans_in mid (take (num * n) (drop n fs)) hi"
    using Suc.prems(4) unfolding split spans_in_append by blast
  have le: "mid \<le> hi" using spans_in_le[OF mid(2)] .
  obtain buf1 k1 sps where one: "assemble_record buf rs k (take n fs) = (buf1, k1, sps)" by (metis surj_pair)
  have "mid \<le> length buf" using le Suc.prems(5) by simp
  note R = assemble_record_ok[OF Suc.prems(1-3) mid(1) ne this one]
  have lo: "lo \<le> mid" using spans_in_le[OF mid(1)] .
  show ?case
  proof (cases "acc s (map (span_bytes buf1) sps)")
    case (Inl e)
    then have err: "acc s (map (\<lambda>(b, e). kept rs buf b e) (take n fs)) = Inl e" using R by simp
    have "res = Inl e" "buf' = buf1" using Inl Suc.prems(8) one by auto
    then show ?thesis using R le by (simp add: err same_outside_def)
  next
    case (Inr s')
    then have rest: "assemble_loop acc n (drop n fs) rs num buf1 k1 s' = (res, buf')" using Suc.prems(8) one by simp
    have len1: "hi \<le> length buf1" "num * n \<le> length (drop n fs)" using R Suc.prems(5,7) by (simp_all add: same_outside_def)
    note IH = Suc.IH[OF Suc.prems(1,2) conjunct2[OF conjunct2[OF R]] mid(2) len1(1) Suc.prems(6) len1(2) rest]
    have same: "map (map (\<lambda>(b, e). kept rs buf1 b e)) (strided n num (drop n fs)) =
        map (map (\<lambda>(b, e). kept rs buf b e)) (strided n num (drop n fs))"
    proof (intro map_cong refl)
      fix r x assume "r \<in> set (strided n num (drop n fs))" "x \<in> set r"
      then have x: "x \<in> set (take (num * n) (drop n fs))" by (rule strided_set)
      obtain b e where be: "x = (b, e)" by fastforce
      have "mid \<le> b" "e \<le> length buf" using spans_in_mem[OF mid(2) x[unfolded be]] Suc.prems(5) by auto
      then show "(case x of (b, e) \<Rightarrow> kept rs buf1 b e) = (case x of (b, e) \<Rightarrow> kept rs buf b e)"
        using same_outside_kept[OF conjunct1[OF R]] by (simp add: be)
    qed
    show ?thesis
      using IH[unfolded same] R Inr same_outside_trans[OF conjunct1[OF R] conjunct1[OF IH], of lo hi] lo le by simp
  qed
qed

theorem assemble_records_ok:
  assumes "sorted rs" and "distinct rs" and "spans_in lo (take (num * n) (zip bs es)) hi" and "hi \<le> length buf"
    and "1 \<le> n" and "n \<le> FIXED_MAX_ARITY" and "num * n \<le> length bs" and "num * n \<le> length es"
  shows "\<exists>buf'. assemble_records_fixed acc buf n bs es rs num s =
      Some (hand_records acc s (map (map (\<lambda>(b, e). kept rs buf b e)) (strided n num (zip bs es))), buf') \<and>
    same_outside buf buf' lo hi"
proof -
  obtain res buf' where loop: "assemble_loop acc n (zip bs es) rs num buf 0 s = (res, buf')" by fastforce
  have "assemble_records_fixed acc buf n bs es rs num s = Some (res, buf')"
    using assms(5-8) loop by (simp add: assemble_records_fixed_def)
  moreover have "num * n \<le> length (zip bs es)" "\<forall>r\<in>set (take 0 rs). r < lo" "0 < n" using assms(5,7,8) by simp_all
  note assemble_loop_ok[OF assms(1,2) this(2) assms(3,4) this(3,1) loop]
  ultimately show ?thesis by blast
qed

section \<open>What is left alone\<close>

text \<open>The bytes that lie in none of the spans, delimiters and terminators between them included, are not written.\<close>

definition same_between :: "byte list \<Rightarrow> byte list \<Rightarrow> (nat \<times> nat) list \<Rightarrow> bool" where
  "same_between buf buf' fs \<longleftrightarrow> length buf' = length buf \<and>
     (\<forall>k<length buf. (\<forall>(b, e)\<in>set fs. k < b \<or> e \<le> k) \<longrightarrow> buf' ! k = buf ! k)"

lemma same_between_refl: "same_between buf buf fs"
  by (simp add: same_between_def)

lemma same_between_span: "same_outside buf buf' b e \<Longrightarrow> same_between buf buf' [(b, e)]"
  by (auto simp: same_between_def same_outside_def)

lemma same_between_trans: "same_between buf buf1 fs \<Longrightarrow> same_between buf1 buf' gs \<Longrightarrow> same_between buf buf' (fs @ gs)"
  by (auto simp: same_between_def)

lemma assemble_fields_between:
  assumes "sorted rs" and "distinct rs" and "\<forall>r\<in>set (take k rs). r < lo" and "spans_in lo fs hi" and "hi \<le> length buf"
    and "assemble_fields buf rs k fs = (buf', k', sps)"
  shows "same_between buf buf' fs"
  using assms
proof (induction fs arbitrary: buf k lo sps)
  case Nil
  then show ?case by (simp add: same_between_refl)
next
  case (Cons f fs)
  obtain b e where f: "f = (b, e)" by fastforce
  have sp: "lo \<le> b" "b \<le> e" "spans_in e fs hi" "e \<le> hi" using Cons.prems(4) spans_in_le[of e fs hi] by (auto simp: f)
  obtain buf1 k1 sp1 where one: "assemble_field buf rs k b e = (buf1, k1, sp1)" by (metis surj_pair)
  obtain sps' where rest: "assemble_fields buf1 rs k1 fs = (buf', k', sps')"
    using Cons.prems(6) one by (auto simp: f Let_def split: prod.splits)
  have "\<forall>r\<in>set (take k rs). r < b" using Cons.prems(3) sp(1) by fastforce
  from assemble_field_ok[OF Cons.prems(1,2) this sp(2) _ one] sp(4) Cons.prems(5)
  have F: "same_outside buf buf1 b e" "\<forall>r\<in>set (take k1 rs). r < e" by auto
  then have "hi \<le> length buf1" using Cons.prems(5) by (simp add: same_outside_def)
  from same_between_trans[OF same_between_span[OF F(1)] Cons.IH[OF Cons.prems(1,2) F(2) sp(3) this rest]]
  show ?case by (simp add: f)
qed

lemma assemble_record_between:
  assumes "sorted rs" and "distinct rs" and "\<forall>r\<in>set (take k rs). r < lo" and "spans_in lo fs hi" "fs \<noteq> []"
    and "hi \<le> length buf" and "assemble_record buf rs k fs = (buf', k', sps)"
  shows "same_between buf buf' fs"
proof -
  let ?k1 = "skip_removals rs k (fst (hd fs))"
  have "lo \<le> fst (hd fs)" using spans_in_mem[OF assms(4), of "fst (hd fs)" "snd (hd fs)"] assms(5) by auto
  then have "\<forall>r\<in>set (take k rs). r < fst (hd fs)" using assms(3) by fastforce
  note k1 = skip_removals_ok[OF assms(1) this]
  show ?thesis
    using assms(7) same_between_refl
      assemble_fields_between[OF assms(1,2) conjunct1[OF conjunct2[OF k1]] spans_in_lo[OF assms(4,5)] assms(6)]
    by (auto simp: assemble_record_def Let_def split: if_splits)
qed

lemma assemble_loop_between:
  assumes "sorted rs" and "distinct rs" and "\<forall>r\<in>set (take k rs). r < lo" and "spans_in lo (take (num * n) fs) hi"
    and "hi \<le> length buf" and "0 < n" and "num * n \<le> length fs" and "assemble_loop acc n fs rs num buf k s = (res, buf')"
  shows "same_between buf buf' (take (num * n) fs)"
  using assms
proof (induction num arbitrary: buf k lo s fs)
  case 0
  then show ?case by (simp add: same_between_refl)
next
  case (Suc num)
  have split: "take (Suc num * n) fs = take n fs @ take (num * n) (drop n fs)" by (simp add: take_add)
  have ne: "take n fs \<noteq> []" using Suc.prems(6,7) by auto
  obtain mid where mid: "spans_in lo (take n fs) mid" "spans_in mid (take (num * n) (drop n fs)) hi"
    using Suc.prems(4) unfolding split spans_in_append by blast
  obtain buf1 k1 sps where one: "assemble_record buf rs k (take n fs) = (buf1, k1, sps)" by (metis surj_pair)
  have "mid \<le> length buf" using spans_in_le[OF mid(2)] Suc.prems(5) by simp
  note R = assemble_record_ok[OF Suc.prems(1-3) mid(1) ne this one]
  note between = assemble_record_between[OF Suc.prems(1-3) mid(1) ne \<open>mid \<le> length buf\<close> one]
  show ?case
  proof (cases "acc s (map (span_bytes buf1) sps)")
    case (Inl e)
    then have "buf' = buf1" using Suc.prems(8) one by auto
    then show ?thesis unfolding split using same_between_trans[OF between same_between_refl] by simp
  next
    case (Inr s')
    then have rest: "assemble_loop acc n (drop n fs) rs num buf1 k1 s' = (res, buf')" using Suc.prems(8) one by simp
    have len: "hi \<le> length buf1" "num * n \<le> length (drop n fs)" using R Suc.prems(5,7) by (simp_all add: same_outside_def)
    show ?thesis unfolding split
      by (rule same_between_trans[OF between Suc.IH[OF Suc.prems(1,2) conjunct2[OF conjunct2[OF R]] mid(2) len(1) Suc.prems(6) len(2) rest]])
  qed
qed

lemma assemble_records_between:
  assumes "sorted rs" and "distinct rs" and "spans_in lo (take (num * n) (zip bs es)) hi" and "hi \<le> length buf"
    and "1 \<le> n" and "num * n \<le> length bs" and "num * n \<le> length es"
    and "assemble_records_fixed acc buf n bs es rs num s = Some (res, buf')"
  shows "same_between buf buf' (take (num * n) (zip bs es))"
proof -
  have "assemble_loop acc n (zip bs es) rs num buf 0 s = (res, buf')"
    using assms(8) by (auto simp: assemble_records_fixed_def Let_def split: if_splits)
  with assms show ?thesis by (intro assemble_loop_between[where k = 0]) simp_all
qed

end
