(* ===== verification/Quoted.thy ===== *)
theory Quoted
  imports Scan Unquoted Assembly
begin

text \<open>
  The reference machine in a dialect with quotes, told by the positions the scanner's masks mark: the state and
  the bytes of a field, the fields between two ends of records, and a record up to its run of terminators.
\<close>

section \<open>The dialect\<close>

definition scan_config :: "Config \<Rightarrow> ScannerConfig" where
  "scan_config c = \<lparr>sc_delim = delimiter c, sc_term = fst (terminator_bytes (terminator c)),
     sc_term_b = snd (terminator_bytes (terminator c)), sc_quote = quote c, sc_doubled_quotes = doubled_quotes c\<rparr>"

definition quoting :: "Config \<Rightarrow> nat \<Rightarrow> ScannerConfig \<Rightarrow> bool" where
  "quoting c n cfg \<longleftrightarrow> dialect_ok c \<and> quote c \<noteq> None \<and> (escape c = None \<or> escape c = quote c) \<and> quote_handling c = Toggle \<and>
     comment c = None \<and> \<not> trim c \<and> field_count c = Some n \<and> 1 \<le> n \<and> n < 64 \<and> cfg = scan_config c"

lemma quoting_sel:
  assumes "quoting c n cfg"
  shows "sc_delim cfg = delimiter c" "sc_quote cfg = quote c" "sc_doubled_quotes cfg = doubled_quotes c"
    "b = sc_term cfg \<or> sc_term_b cfg = Some b \<longleftrightarrow> terminates c b"
    "\<not> terminates c (delimiter c)" "quote c \<noteq> Some (delimiter c)" "quote c = Some q \<Longrightarrow> \<not> terminates c q"
    "1 \<le> n" "n < 64"
  using assms
  by (auto simp: quoting_def scan_config_def terminator_bytes_iff dialect_ok_def apart_def split: option.splits)

text \<open>The masks, by the bytes they stand for.\<close>

lemma quoting_at:
  assumes "quoting c n cfg"
  shows "quote_at cfg ws k \<longleftrightarrow> k < length ws \<and> quote c = Some (ws ! k)"
    "delim_at cfg ws k \<longleftrightarrow> k < length ws \<and> ws ! k = delimiter c \<and> \<not> quoted_at cfg ws k"
    "term_at cfg ws k \<longleftrightarrow> k < length ws \<and> terminates c (ws ! k) \<and> \<not> quoted_at cfg ws k"
  using quoting_sel[OF assms] by (auto simp: quote_at_def delim_at_def term_at_def)

lemma quoted_step: "quoted_at cfg ws k \<longleftrightarrow> (0 < k \<and> quoted_at cfg ws (k - 1)) \<noteq> quote_at cfg ws k"
proof -
  have "{j. j \<le> 0 \<and> quote_at cfg ws (k + j)} = (if quote_at cfg ws k then {0} else {})" by auto
  then show ?thesis using quoted_at_vector[of cfg ws k 0] by (auto split: if_splits)
qed

lemma quoted_Suc: "quoted_at cfg ws (Suc k) \<longleftrightarrow> quoted_at cfg ws k \<noteq> quote_at cfg ws (Suc k)"
  using quoted_step[of cfg ws "Suc k"] by simp

text \<open>Whether the bytes before \<open>k\<close> leave a quote open.\<close>

definition open_before :: "ScannerConfig \<Rightarrow> byte list \<Rightarrow> nat \<Rightarrow> bool" where
  "open_before cfg ws k \<longleftrightarrow> 0 < k \<and> quoted_at cfg ws (k - 1)"

lemma open_before_Suc [simp]: "open_before cfg ws (Suc k) \<longleftrightarrow> quoted_at cfg ws k"
  by (simp add: open_before_def)

lemma quoted_at_open: "quoted_at cfg ws k \<longleftrightarrow> open_before cfg ws k \<noteq> quote_at cfg ws k"
  using quoted_step[of cfg ws k] by (simp add: open_before_def)

section \<open>The machine in a field\<close>

definition state_at :: "ScannerConfig \<Rightarrow> byte list \<Rightarrow> nat \<Rightarrow> nat \<Rightarrow> State" where
  "state_at cfg ws i k = (if k = i then FieldStart else if open_before cfg ws k then InQuotedField
     else if quote_at cfg ws (k - 1) then AfterClosingQuote else InField)"

text \<open>The bytes the machine copies: everything but quotes, and of two doubled ones the second.\<close>

definition copied_at :: "ScannerConfig \<Rightarrow> byte list \<Rightarrow> nat \<Rightarrow> nat \<Rightarrow> bool" where
  "copied_at cfg ws i k \<longleftrightarrow> \<not> quote_at cfg ws k \<or>
     sc_doubled_quotes cfg \<and> i < k \<and> quote_at cfg ws (k - 1) \<and> \<not> open_before cfg ws k"

definition copied :: "ScannerConfig \<Rightarrow> byte list \<Rightarrow> nat \<Rightarrow> nat \<Rightarrow> byte list" where
  "copied cfg ws i x = map ((!) ws) (filter (copied_at cfg ws i) [i..<x])"

lemma quoted_delta:
  assumes "quoting c n cfg"
  defines "d \<equiv> transition (dfa_new True c)"
  shows "quote c = Some b \<Longrightarrow> s \<in> {FieldStart, InField, AfterClosingQuote} \<Longrightarrow> next_state (d s b) = InQuotedField"
    "quote c = Some b \<Longrightarrow> next_state (d InQuotedField b) = AfterClosingQuote"
    "quote c = Some b \<Longrightarrow> s \<in> {FieldStart, InField, InQuotedField} \<Longrightarrow> \<not> has_output (d s b)"
    "quote c = Some b \<Longrightarrow> has_output (d AfterClosingQuote b) \<longleftrightarrow> doubled_quotes c"
    "quote c \<noteq> Some b \<Longrightarrow> next_state (d InQuotedField b) = InQuotedField"
    "quote c \<noteq> Some b \<Longrightarrow> has_output (d InQuotedField b)"
    "content c b \<Longrightarrow> quote c \<noteq> Some b \<Longrightarrow> s \<in> {FieldStart, InField, AfterClosingQuote} \<Longrightarrow> next_state (d s b) = InField"
    "content c b \<Longrightarrow> quote c \<noteq> Some b \<Longrightarrow> s \<in> {FieldStart, InField, AfterClosingQuote} \<Longrightarrow> has_output (d s b)"
    "b = delimiter c \<Longrightarrow> s \<in> {FieldStart, InField, AfterClosingQuote} \<Longrightarrow> next_state (d s b) = FieldEnd \<and> \<not> has_output (d s b)"
    "terminates c b \<Longrightarrow> s \<in> {FieldStart, InField, AfterClosingQuote} \<Longrightarrow> next_state (d s b) = RecordEnd \<and> \<not> has_output (d s b)"
proof -
  obtain q where q: "quote c = Some q" using assms(1) by (auto simp: quoting_def)
  have f: "quote_handling c = Toggle" "q \<noteq> delimiter c" "\<not> terminates c q" "\<not> terminates c (delimiter c)"
    using assms(1) quoting_sel[OF assms(1)] q by (auto simp: quoting_def)
  have esc: "\<not> (escape c = Some b \<and> \<not> doubled_quotes c)" for b
    using assms(1) q by (auto simp: quoting_def doubled_quotes_def)
  note defs = d_def dfa_new_def transition_def field_start_cell_def in_field_cell_def in_quoted_cell_def after_closing_cell_def
    content_def
  show "quote c = Some b \<Longrightarrow> s \<in> {FieldStart, InField, AfterClosingQuote} \<Longrightarrow> next_state (d s b) = InQuotedField"
    using q f by (elim insertE emptyE) (simp_all add: defs)
  show "quote c = Some b \<Longrightarrow> next_state (d InQuotedField b) = AfterClosingQuote"
    using q f esc by (simp add: defs)
  show "quote c = Some b \<Longrightarrow> s \<in> {FieldStart, InField, InQuotedField} \<Longrightarrow> \<not> has_output (d s b)"
    using q f esc by (elim insertE emptyE) (simp_all add: defs)
  show "quote c = Some b \<Longrightarrow> has_output (d AfterClosingQuote b) \<longleftrightarrow> doubled_quotes c"
    using q f by (simp add: defs)
  show "quote c \<noteq> Some b \<Longrightarrow> next_state (d InQuotedField b) = InQuotedField" "quote c \<noteq> Some b \<Longrightarrow> has_output (d InQuotedField b)"
    using esc by (simp_all add: defs)
  show "content c b \<Longrightarrow> quote c \<noteq> Some b \<Longrightarrow> s \<in> {FieldStart, InField, AfterClosingQuote} \<Longrightarrow> next_state (d s b) = InField"
    "content c b \<Longrightarrow> quote c \<noteq> Some b \<Longrightarrow> s \<in> {FieldStart, InField, AfterClosingQuote} \<Longrightarrow> has_output (d s b)"
    using f by (elim insertE emptyE; simp add: defs)+
  show "b = delimiter c \<Longrightarrow> s \<in> {FieldStart, InField, AfterClosingQuote} \<Longrightarrow> next_state (d s b) = FieldEnd \<and> \<not> has_output (d s b)"
    using q f by (elim insertE emptyE; simp add: defs)+
  show "terminates c b \<Longrightarrow> s \<in> {FieldStart, InField, AfterClosingQuote} \<Longrightarrow> next_state (d s b) = RecordEnd \<and> \<not> has_output (d s b)"
    using q f by (elim insertE emptyE; cases "b = q"; cases "b = delimiter c"; simp add: defs)+
qed

abbreviation in_field_state :: "State \<Rightarrow> bool" where
  "in_field_state s \<equiv> s \<in> {FieldStart, InField, AfterClosingQuote}"

lemma spec_byte_in:
  assumes "in_field_state (m_state m) \<or> m_state m = InQuotedField"
  shows "spec_byte c acc L p b m = (let t = transition (dfa_new True c) (m_state m) b
    in enter c acc L p (next_state t) (if has_output t then m\<lparr>m_cur := m_cur m @ [b]\<rparr> else m))"
  using assms by (auto simp: spec_byte_def mark_start_def copy_byte_def Let_def)

lemma quoting_cells:
  assumes "quoting c n cfg"
  shows "quote c = Some b \<Longrightarrow> in_field_state (m_state m) \<Longrightarrow> spec_byte c acc L p b m = Running (m\<lparr>
      m_cur := (if m_state m = AfterClosingQuote \<and> doubled_quotes c then m_cur m @ [b] else m_cur m), m_state := InQuotedField\<rparr>)"
    and "quote c = Some b \<Longrightarrow> m_state m = InQuotedField \<Longrightarrow> spec_byte c acc L p b m = Running (m\<lparr>m_state := AfterClosingQuote\<rparr>)"
    and "quote c \<noteq> Some b \<Longrightarrow> m_state m = InQuotedField \<Longrightarrow>
      spec_byte c acc L p b m = Running (m\<lparr>m_cur := m_cur m @ [b], m_state := InQuotedField\<rparr>)"
    and "quote c \<noteq> Some b \<Longrightarrow> in_field_state (m_state m) \<Longrightarrow> content c b \<Longrightarrow>
      spec_byte c acc L p b m = Running (m\<lparr>m_cur := m_cur m @ [b], m_state := InField\<rparr>)"
    and "in_field_state (m_state m) \<Longrightarrow> b = delimiter c \<Longrightarrow> spec_byte c acc L p b m =
      Running (m\<lparr>m_fields := m_fields m @ [m_cur m], m_cur := [], m_fld_start := p + 1, m_state := FieldStart\<rparr>)"
    and "in_field_state (m_state m) \<Longrightarrow> terminates c b \<Longrightarrow> spec_byte c acc L p b m = enter c acc L p RecordEnd m"
proof -
  note d = quoted_delta[OF assms]
  have nt: "\<not> trim c" using assms by (simp add: quoting_def)
  show "quote c = Some b \<Longrightarrow> in_field_state (m_state m) \<Longrightarrow> spec_byte c acc L p b m = Running (m\<lparr>
      m_cur := (if m_state m = AfterClosingQuote \<and> doubled_quotes c then m_cur m @ [b] else m_cur m), m_state := InQuotedField\<rparr>)"
    using d(1)[of b "m_state m"] d(3)[of b "m_state m"] d(4)[of b]
    by (subst spec_byte_in) (auto simp: enter_def Let_def)
  show "quote c = Some b \<Longrightarrow> m_state m = InQuotedField \<Longrightarrow> spec_byte c acc L p b m = Running (m\<lparr>m_state := AfterClosingQuote\<rparr>)"
    using d(2)[of b] d(3)[of b "InQuotedField"] by (subst spec_byte_in) (auto simp: enter_def Let_def)
  show "quote c \<noteq> Some b \<Longrightarrow> m_state m = InQuotedField \<Longrightarrow>
      spec_byte c acc L p b m = Running (m\<lparr>m_cur := m_cur m @ [b], m_state := InQuotedField\<rparr>)"
    using d(5)[of b] d(6)[of b] by (subst spec_byte_in) (auto simp: enter_def Let_def)
  show "quote c \<noteq> Some b \<Longrightarrow> in_field_state (m_state m) \<Longrightarrow> content c b \<Longrightarrow>
      spec_byte c acc L p b m = Running (m\<lparr>m_cur := m_cur m @ [b], m_state := InField\<rparr>)"
    using d(7)[of b "m_state m"] d(8)[of b "m_state m"] by (subst spec_byte_in) (auto simp: enter_def Let_def)
  show "in_field_state (m_state m) \<Longrightarrow> b = delimiter c \<Longrightarrow> spec_byte c acc L p b m =
      Running (m\<lparr>m_fields := m_fields m @ [m_cur m], m_cur := [], m_fld_start := p + 1, m_state := FieldStart\<rparr>)"
    using d(9)[of b "m_state m"] nt by (subst spec_byte_in) (auto simp: enter_def Let_def closed_fields_def trimmed_def)
  show "in_field_state (m_state m) \<Longrightarrow> terminates c b \<Longrightarrow> spec_byte c acc L p b m = enter c acc L p RecordEnd m"
    using d(10)[of b "m_state m"] by (subst spec_byte_in) (auto simp: Let_def)
qed

text \<open>A position that ends a field in the raw sense: an unquoted delimiter or terminator.\<close>

definition close_at :: "ScannerConfig \<Rightarrow> byte list \<Rightarrow> nat \<Rightarrow> bool" where
  "close_at cfg ws k \<longleftrightarrow> delim_at cfg ws k \<or> term_at cfg ws k"

lemma quoting_field_run:
  assumes "quoting c n cfg" and "m_state m = FieldStart" and "m_cur m = []" and "\<not> open_before cfg ws i" and "i \<le> x"
    and "x \<le> length ws" and "\<forall>k. i \<le> k \<and> k < x \<longrightarrow> \<not> close_at cfg ws k"
  shows "spec_run c acc L p (subslice ws i x) m = Running (m\<lparr>m_cur := copied cfg ws i x, m_state := state_at cfg ws i x\<rparr>)"
  using assms(5-)
proof (induction x rule: dec_induct)
  case base
  have "m\<lparr>m_cur := [], m_state := FieldStart\<rparr> = m" using assms(2,3) by simp
  then show ?case by (simp add: copied_def state_at_def)
next
  case (step k)
  let ?b = "ws ! k"
  define m1 where "m1 = m\<lparr>m_cur := copied cfg ws i k, m_state := state_at cfg ws i k\<rparr>"
  have run: "spec_run c acc L p (subslice ws i k) m = Running m1" using step unfolding m1_def by simp
  have k: "k < length ws" "\<not> close_at cfg ws k" using step by auto
  have out: "copied cfg ws i (Suc k) = copied cfg ws i k @ (if copied_at cfg ws i k then [?b] else [])"
    using step(1) by (simp add: copied_def)
  note at = quoting_at[OF assms(1), of ws k] and cells = quoting_cells(1-4)[OF assms(1), of ?b m1 acc L "p + (k - i)"]
  have st1: "m_state m1 = state_at cfg ws i k" "m_cur m1 = copied cfg ws i k" by (simp_all add: m1_def)
  have dq: "sc_doubled_quotes cfg = doubled_quotes c" using quoting_sel[OF assms(1)] by simp
  have "spec_byte c acc L (p + (k - i)) ?b m1 = Running (m\<lparr>m_cur := copied cfg ws i (Suc k), m_state := state_at cfg ws i (Suc k)\<rparr>)"
  proof (cases "open_before cfg ws k")
    case True
    then have "k \<noteq> i" using assms(4) by auto
    then have st: "m_state m1 = InQuotedField" using True by (simp add: st1 state_at_def)
    show ?thesis
    proof (cases "quote c = Some ?b")
      case q: True
      then have "\<not> quoted_at cfg ws k" "quote_at cfg ws k" using True k(1) at(1) by (simp_all add: quoted_at_open)
      then have "state_at cfg ws i (Suc k) = AfterClosingQuote" "\<not> copied_at cfg ws i k"
        using step(1) True by (auto simp: state_at_def copied_at_def)
      then show ?thesis using cells(2)[OF q st] by (simp add: m1_def out)
    next
      case nq: False
      then have "quoted_at cfg ws k" "\<not> quote_at cfg ws k" using True at(1) by (simp_all add: quoted_at_open)
      then have "state_at cfg ws i (Suc k) = InQuotedField" "copied_at cfg ws i k" using step(1) by (auto simp: state_at_def copied_at_def)
      then show ?thesis using cells(3)[OF nq st] by (simp add: m1_def out)
    qed
  next
    case False
    then have st: "in_field_state (m_state m1)" by (simp add: st1 state_at_def)
    show ?thesis
    proof (cases "quote c = Some ?b")
      case q: True
      then have qa: "quoted_at cfg ws k" "quote_at cfg ws k" using False k(1) at(1) by (simp_all add: quoted_at_open)
      then have "state_at cfg ws i (Suc k) = InQuotedField" using step(1) by (simp add: state_at_def)
      moreover have "m_state m1 = AfterClosingQuote \<and> doubled_quotes c \<longleftrightarrow> copied_at cfg ws i k"
        using qa False step(1) by (auto simp: st1 state_at_def copied_at_def dq)
      ultimately show ?thesis using cells(1)[OF q st] by (simp add: m1_def out)
    next
      case nq: False
      then have qa: "\<not> quoted_at cfg ws k" "\<not> quote_at cfg ws k" using False at(1) by (simp_all add: quoted_at_open)
      then have "content c ?b" using k at by (auto simp: content_def close_at_def)
      moreover have "state_at cfg ws i (Suc k) = InField" "copied_at cfg ws i k" using qa step(1) by (auto simp: state_at_def copied_at_def)
      ultimately show ?thesis using cells(4)[OF nq st] by (simp add: m1_def out)
    qed
  qed
  moreover have "subslice ws i (Suc k) = subslice ws i k @ [?b]" using step(1) k(1) by (rule slice_snoc)
  moreover have "length (subslice ws i k) = k - i" using k(1) by simp
  ultimately show ?case using run by (simp add: spec_run_append del: length_slice)
qed

section \<open>The span of a field\<close>

text \<open>A field that starts at \<open>i\<close> and is closed at \<open>x\<close> begins behind its opening quote and ends before its closing one.\<close>

definition field_begin :: "ScannerConfig \<Rightarrow> byte list \<Rightarrow> nat \<Rightarrow> nat" where
  "field_begin cfg ws i = (if opener_at cfg ws i then i + 1 else i)"

definition field_fin :: "ScannerConfig \<Rightarrow> byte list \<Rightarrow> nat \<Rightarrow> nat" where
  "field_fin cfg ws x = (if 0 < x \<and> closer_at cfg ws (x - 1) then x - 1 else x)"

definition field_at :: "ScannerConfig \<Rightarrow> byte list \<Rightarrow> nat \<Rightarrow> nat \<Rightarrow> bool" where
  "field_at cfg ws i x \<longleftrightarrow> i \<le> x \<and> field_close_at cfg ws x \<and> \<not> open_before cfg ws i \<and> \<not> (0 < i \<and> quote_at cfg ws (i - 1)) \<and>
     (\<forall>k. i \<le> k \<and> k < x \<longrightarrow> \<not> close_at cfg ws k)"

lemma field_close_closes: "field_close_at cfg ws x \<Longrightarrow> close_at cfg ws x"
  by (auto simp: field_close_at_def close_at_def)

lemma struct_closes: "struct_at cfg ws x \<Longrightarrow> close_at cfg ws x"
  by (auto simp: struct_at_def run_end_at_def close_at_def)

lemma close_at_sel:
  assumes "close_at cfg ws x"
  shows "x < length ws" "\<not> quoted_at cfg ws x"
  using assms by (auto simp: close_at_def delim_at_def term_at_def)

lemma close_no_quote:
  assumes "quoting c n cfg" and "close_at cfg ws x"
  shows "\<not> quote_at cfg ws x" "\<not> open_before cfg ws x"
proof -
  show q: "\<not> quote_at cfg ws x"
    using assms(2) quoting_at[OF assms(1)] quoting_sel(5-7)[OF assms(1)] by (auto simp: close_at_def)
  show "\<not> open_before cfg ws x" using close_at_sel(2)[OF assms(2)] q by (simp add: quoted_at_open)
qed

text \<open>A doubled quote is open at \<open>k\<close> when its first is kept and its second still to be copied.\<close>

definition pair_at :: "ScannerConfig \<Rightarrow> byte list \<Rightarrow> nat \<Rightarrow> nat \<Rightarrow> bool" where
  "pair_at cfg ws i k \<longleftrightarrow> sc_doubled_quotes cfg \<and> i < k \<and> quote_at cfg ws (k - 1) \<and> \<not> quoted_at cfg ws (k - 1) \<and> quote_at cfg ws k"

lemma field_marks:
  assumes "quoting c n cfg" and f: "field_at cfg ws i x" and "i \<le> j" and "j < field_fin cfg ws x"
  shows "\<not> end_at cfg ws j" and "quote_at cfg ws j \<Longrightarrow> begin_at cfg ws (j + 1) \<longleftrightarrow> j = i \<and> opener_at cfg ws i"
proof -
  have jx: "j < x" using assms(4) by (auto simp: field_fin_def split: if_splits)
  have none: "k < x \<Longrightarrow> i \<le> k \<Longrightarrow> \<not> close_at cfg ws k" for k using f by (simp add: field_at_def)
  have x: "x < length ws" using f close_at_sel(1)[OF field_close_closes] by (auto simp: field_at_def)
  have "\<not> closer_at cfg ws j"
  proof
    assume c: "closer_at cfg ws j"
    then have "close_at cfg ws (j + 1)" by (auto simp: closer_at_def intro: field_close_closes)
    then have "j + 1 = x" using none[of "j + 1"] jx assms(3) by (cases "j + 1 = x") auto
    then have "j = x - 1" "0 < x" by simp_all
    then show False using c assms(4) by (simp add: field_fin_def)
  qed
  moreover have "\<not> field_close_at cfg ws j" using none[OF jx assms(3)] field_close_closes by blast
  ultimately show "\<not> end_at cfg ws j" by (simp add: end_at_def)
  assume q: "quote_at cfg ws j"
  have "\<not> struct_at cfg ws j" using none[OF jx assms(3)] struct_closes by blast
  moreover have "opener_at cfg ws j \<longleftrightarrow> j = i \<and> opener_at cfg ws i"
  proof (cases "j = i")
    case False
    then have "\<not> struct_at cfg ws (j - 1)" using none[of "j - 1"] jx assms(3) struct_closes by fastforce
    then show ?thesis using False by (simp add: opener_at_def)
  qed simp
  moreover have "j + 1 < length ws" using jx x by simp
  ultimately show "begin_at cfg ws (j + 1) \<longleftrightarrow> j = i \<and> opener_at cfg ws i" by (simp add: begin_at_def)
qed

lemma kept_prefix:
  assumes "quoting c n cfg" and f: "field_at cfg ws i x" and "i \<le> k" and "k \<le> field_fin cfg ws x"
  shows "map ((!) ws) (filter (\<lambda>j. field_begin cfg ws i \<le> j \<and> \<not> removed_at cfg ws j) [i..<k]) =
    copied cfg ws i k @ (if pair_at cfg ws i k then [ws ! (k - 1)] else [])"
  using assms(3,4)
proof (induction k rule: dec_induct)
  case base
  then show ?case by (simp add: copied_def pair_at_def)
next
  case (step k)
  have kf: "k < field_fin cfg ws x" using step by simp
  note marks = field_marks[OF assms(1) f step(1) kf]
  have ob: "\<not> open_before cfg ws i" using f by (simp add: field_at_def)
  have IH: "map ((!) ws) (filter (\<lambda>j. field_begin cfg ws i \<le> j \<and> \<not> removed_at cfg ws j) [i..<k]) =
    copied cfg ws i k @ (if pair_at cfg ws i k then [ws ! (k - 1)] else [])" using step by simp
  have out: "copied cfg ws i (Suc k) = copied cfg ws i k @ (if copied_at cfg ws i k then [ws ! k] else [])"
    using step(1) by (simp add: copied_def)
  have keep: "map ((!) ws) (filter (\<lambda>j. field_begin cfg ws i \<le> j \<and> \<not> removed_at cfg ws j) [i..<Suc k]) =
    map ((!) ws) (filter (\<lambda>j. field_begin cfg ws i \<le> j \<and> \<not> removed_at cfg ws j) [i..<k]) @
      (if field_begin cfg ws i \<le> k \<and> \<not> removed_at cfg ws k then [ws ! k] else [])" using step(1) by simp
  consider (plain) "\<not> quote_at cfg ws k" | (opens) "quote_at cfg ws k" "\<not> open_before cfg ws k"
    | (closes) "quote_at cfg ws k" "open_before cfg ws k" by blast
  then show ?case
  proof cases
    case plain
    then have "field_begin cfg ws i \<le> k" using step(1) by (cases "k = i") (auto simp: field_begin_def opener_at_def)
    then show ?thesis unfolding keep out IH using plain by (simp add: removed_at_def copied_at_def pair_at_def)
  next
    case opens
    then have qd: "quoted_at cfg ws k" by (simp add: quoted_at_open)
    show ?thesis
    proof (cases "k = i")
      case True
      then have nk: "\<not> (field_begin cfg ws i \<le> k \<and> \<not> removed_at cfg ws k)"
        using marks(2)[OF opens(1)] opens(1) qd by (auto simp: field_begin_def removed_at_def)
      show ?thesis unfolding keep out IH if_not_P[OF nk] using True qd opens by (simp add: copied_at_def pair_at_def)
    next
      case False
      then have ik: "i < k" using step(1) by simp
      have "removed_at cfg ws k" using marks(2)[OF opens(1)] opens(1) qd False by (simp add: removed_at_def)
      moreover have "copied_at cfg ws i k \<longleftrightarrow> pair_at cfg ws i k"
        using opens ik by (auto simp: copied_at_def pair_at_def open_before_def)
      moreover have "pair_at cfg ws i k \<Longrightarrow> ws ! (k - 1) = ws ! k"
        by (auto simp: pair_at_def quote_at_def)
      moreover have "\<not> pair_at cfg ws i (Suc k)" using qd by (simp add: pair_at_def)
      ultimately show ?thesis unfolding keep out IH by simp
    qed
  next
    case closes
    then have qd: "\<not> quoted_at cfg ws k" by (simp add: quoted_at_open)
    have ik: "i < k" using closes(2) ob step(1) by (cases "k = i") auto
    then have "field_begin cfg ws i \<le> k" by (simp add: field_begin_def)
    moreover have "\<not> removed_at cfg ws k \<longleftrightarrow> pair_at cfg ws i (Suc k)"
      using closes(1) qd marks(1) step(1) by (auto simp: removed_at_def pair_at_def)
    moreover have "\<not> copied_at cfg ws i k" using closes by (simp add: copied_at_def)
    moreover have "\<not> pair_at cfg ws i k" using closes(2) ik by (auto simp: pair_at_def open_before_def)
    ultimately show ?thesis unfolding keep out IH by simp
  qed
qed

lemma field_begin_le:
  assumes "quoting c n cfg" and f: "field_at cfg ws i x"
  shows "i \<le> field_begin cfg ws i" "field_begin cfg ws i \<le> field_fin cfg ws x" "field_fin cfg ws x \<le> x"
proof -
  show "i \<le> field_begin cfg ws i" "field_fin cfg ws x \<le> x" by (simp_all add: field_begin_def field_fin_def)
  have x: "i \<le> x" "\<not> open_before cfg ws i" "close_at cfg ws x" using f by (auto simp: field_at_def intro: field_close_closes)
  have nq: "\<not> quote_at cfg ws x" by (rule close_no_quote(1)[OF assms(1) x(3)])
  show "field_begin cfg ws i \<le> field_fin cfg ws x"
  proof (cases "0 < x \<and> closer_at cfg ws (x - 1)")
    case True
    then have c: "quote_at cfg ws (x - 1)" "\<not> quoted_at cfg ws (x - 1)" by (simp_all add: closer_at_def)
    have "i \<noteq> x" using c(1) f True by (auto simp: field_at_def)
    moreover have "i \<noteq> x - 1" using c x(2) by (auto simp: quoted_at_open)
    ultimately show ?thesis using True x(1) by (auto simp: field_begin_def field_fin_def)
  next
    case False
    moreover have "opener_at cfg ws i \<Longrightarrow> i \<noteq> x" using nq by (auto simp: opener_at_def)
    ultimately show ?thesis using x(1) by (auto simp: field_begin_def field_fin_def)
  qed
qed

text \<open>The kept bytes of the span are those the machine copies.\<close>

lemma kept_field:
  assumes "quoting c n cfg" and f: "field_at cfg ws i x"
    and rs: "\<And>k. field_begin cfg ws i \<le> k \<Longrightarrow> k < field_fin cfg ws x \<Longrightarrow> k \<in> set rs \<longleftrightarrow> removed_at cfg ws k"
  shows "kept rs ws (field_begin cfg ws i) (field_fin cfg ws x) = copied cfg ws i x"
proof -
  let ?b = "field_begin cfg ws i" and ?e = "field_fin cfg ws x"
  note le = field_begin_le[OF assms(1) f]
  have x: "close_at cfg ws x" "i \<le> x" using f by (auto simp: field_at_def intro: field_close_closes)
  have "kept rs ws ?b ?e = map ((!) ws) (filter (\<lambda>j. \<not> removed_at cfg ws j) [?b..<?e])"
    unfolding kept_def using rs by (intro arg_cong[where f = "map _"] filter_cong) auto
  also have "filter (\<lambda>j. \<not> removed_at cfg ws j) [?b..<?e] = filter (\<lambda>j. ?b \<le> j \<and> \<not> removed_at cfg ws j) [i..<?e]"
  proof -
    have "[i..<?e] = [i..<?b] @ [?b..<?e]" using le by (metis le_Suc_ex upt_add_eq_append)
    then show ?thesis by (auto intro!: filter_cong simp: filter_empty_conv)
  qed
  also have "map ((!) ws) \<dots> = copied cfg ws i ?e @ (if pair_at cfg ws i ?e then [ws ! (?e - 1)] else [])"
    using le by (intro kept_prefix[OF assms(1) f]) auto
  also have "\<dots> = copied cfg ws i x"
  proof (cases "0 < x \<and> closer_at cfg ws (x - 1)")
    case True
    have e: "?e = x - 1" using True by (simp add: field_fin_def)
    have c: "quote_at cfg ws (x - 1)" "\<not> quoted_at cfg ws (x - 1)" using True by (simp_all add: closer_at_def)
    then have ob: "open_before cfg ws (x - 1)" by (simp add: quoted_at_open)
    then have "i < x - 1" using f le e by (cases "x - 1 = i") (auto simp: field_at_def)
    then have "i \<le> x - 1" "[i..<x] = [i..<x - 1] @ [x - 1]" by (simp_all add: upt_Suc_append[symmetric])
    moreover have "\<not> copied_at cfg ws i (x - 1)" using c(1) ob by (simp add: copied_at_def)
    moreover have "\<not> pair_at cfg ws i (x - 1)" using ob by (auto simp: pair_at_def open_before_def)
    ultimately show ?thesis by (simp add: e copied_def)
  next
    case False
    then have "?e = x" by (auto simp: field_fin_def)
    moreover have "\<not> pair_at cfg ws i x" using close_no_quote(1)[OF assms(1) x(1)] by (simp add: pair_at_def)
    ultimately show ?thesis by simp
  qed
  finally show ?thesis .
qed

end
