(* ===== verification/CursorEmit.thy ===== *)
theory CursorEmit
  imports Unquoted
begin

text \<open>
  The records a batch of boundaries stands for. Handing over \<open>k\<close> records from the collected offsets, with or
  without stripping runs of terminators, is the reference machine's run up to the end of the \<open>k\<close>-th one.
\<close>

section \<open>The first record of a list of boundaries\<close>

lemma count_fields_first:
  assumes "count_fields n 0 ks = Some ph" and "n \<le> length ks" and "1 \<le> n"
  shows "\<forall>j<n - 1. \<not> ks ! j" "ks ! (n - 1)" "count_fields n 0 (drop n ks) = Some ph"
proof -
  have all: "\<forall>j<length ks. ks ! j = ((j + 0) mod n = n - 1)"
    using assms(1,3) count_fields_iff[of 0 n ks] by (auto split: if_splits)
  then show "\<forall>j<n - 1. \<not> ks ! j" "ks ! (n - 1)" using assms(2,3) by auto
  have "count_fields n 0 (take n ks) = Some 0"
    using count_fields_iff[of 0 n "take n ks"] all assms(2,3) by (auto simp: min_def)
  then show "count_fields n 0 (drop n ks) = Some ph"
    using assms(1) count_fields_append[of n 0 "take n ks" "drop n ks"] by simp
qed

lemma cut_fields_snoc:
  "cut_fields i (ds @ [b]) = (let (sps, i') = cut_fields i ds in (sps @ [(i', b - i')], b + 1))"
  by (induction ds arbitrary: i) (auto split: prod.splits)

text \<open>Both ways of handing over, in one form.\<close>

definition emit_any ::
    "('s, 'u) accumulator \<Rightarrow> byte list \<Rightarrow> bool \<Rightarrow> byte \<Rightarrow> byte \<Rightarrow> nat list \<Rightarrow> nat \<Rightarrow> nat \<Rightarrow> nat \<Rightarrow> nat \<Rightarrow> nat \<Rightarrow> 's
      \<Rightarrow> 'u Error + nat \<times> nat \<times> 's" where
  "emit_any acc buf runs ta tb bs n base k cs lrs s =
     (if \<not> runs
      then try_bind (emit_plain acc buf bs n base k cs s) (\<lambda>(cs', s'). Inr (cs', if k = 0 then lrs else cs' - 1, s'))
      else emit_runs acc buf ta tb bs n base k cs lrs s)"

lemma emit_any_Suc:
  assumes "subslice bs base (base + n) = ds @ [b]" and "length ds + 1 = n" and "cut_fields cs ds = (sps, i')"
    and "\<not> runs \<longrightarrow> strip_run buf ta tb i' b = b"
  defines "r \<equiv> strip_run buf ta tb i' b"
  shows "emit_any acc buf runs ta tb bs n base (Suc k) cs lrs s =
    (case acc s (map (span_bytes buf) (sps @ [(i', r - i')])) of
       Inl e \<Rightarrow> Inl (from_user e)
     | Inr s' \<Rightarrow> emit_any acc buf runs ta tb bs n (base + n) k (b + 1) r s')"
proof -
  have len: "base + n \<le> length bs"
    using arg_cong[OF assms(1), of length] assms(2) by (auto simp: min_def split: if_splits)
  have "subslice bs base (base + (n - 1)) = take (n - 1) (subslice bs base (base + n))"
    by (simp add: subslice_def)
  then have ds: "subslice bs base (base + (n - 1)) = ds" using assms(1,2) by auto
  have "subslice bs base (base + n) ! (n - 1) = bs ! (base + (n - 1))"
    using len assms(2) by (intro slice_nth) auto
  then have b: "bs ! (base + n - 1) = b" using assms(1,2) by (auto simp: nth_append)
  show ?thesis
    using ds b assms(1,3,4) by (cases k) (auto simp: emit_any_def cut_fields_snoc r_def split: sum.split)
qed

section \<open>A batch of records\<close>

text \<open>The buffer has the bytes before \<open>e\<close>, but for a last terminator that may be virtual.\<close>

definition agree_but_last :: "nat \<Rightarrow> byte list \<Rightarrow> byte list \<Rightarrow> bool" where
  "agree_but_last e xs buf \<longleftrightarrow> e \<le> length xs \<and> e \<le> length buf + 1 \<and> (\<forall>k. k + 1 < e \<longrightarrow> buf ! k = xs ! k)"

lemma agree_slice:
  assumes "agree_but_last e xs buf" and "j < e"
  shows "subslice buf i j = subslice xs i j"
  using assms by (intro slice_cong) (auto simp: agree_but_last_def)

lemma agree_strip:
  assumes "agree_but_last e xs buf" and "j < e"
  shows "strip_run buf ta tb i j = strip_run xs ta tb i j"
  using assms(2)
proof (induction j)
  case (Suc j)
  then have "buf ! j = xs ! j" using assms(1) by (simp add: agree_but_last_def)
  with Suc show ?case by auto
qed simp

lemma cut_fields_bounds:
  "cut_fields i ds = (sps, i') \<Longrightarrow> sorted_wrt (<) ds \<Longrightarrow> \<forall>d\<in>set ds. i \<le> d \<and> d < e \<Longrightarrow> \<forall>sp\<in>set sps. fst sp + snd sp < e"
  by (induction ds arbitrary: i sps i') (auto split: prod.splits, fastforce+)

definition kinds :: "Config \<Rightarrow> byte list \<Rightarrow> nat list \<Rightarrow> bool list" where
  "kinds c xs bs = map (\<lambda>b. terminates c (xs ! b)) bs"

text \<open>What the collected offsets say about the bytes from \<open>cs\<close> on, up to \<open>e\<close>.\<close>

definition collected :: "Config \<Rightarrow> nat \<Rightarrow> byte list \<Rightarrow> nat \<Rightarrow> nat \<Rightarrow> nat list \<Rightarrow> bool \<Rightarrow> bool" where
  "collected c n xs cs e bs runs \<longleftrightarrow> cs \<le> e \<and> e \<le> length xs \<and> bounds_in c xs cs e = bs \<and>
     count_fields n 0 (kinds c xs bs) \<noteq> None \<and> (cs < length xs \<longrightarrow> \<not> terminates c (xs ! cs)) \<and>
     (\<not> runs \<longrightarrow> (\<forall>k. cs \<le> k \<and> k < e \<and> terminates c (xs ! k) \<longrightarrow> is_bound c xs k))"

definition at_record :: "'s machine \<Rightarrow> bool" where
  "at_record m \<longleftrightarrow> m_state m = RecordStart \<and> m_fields m = [] \<and> m_cur m = []"

text \<open>The record in front: its delimiters, its last boundary, the run before it and what the machine does.\<close>

lemma collected_record:
  fixes acc :: "('s, 'u) accumulator"
  assumes "plain c n" and col: "collected c n xs cs e bs runs" and "n \<le> length bs" and "at_record m"
    and tb: "\<And>b. b = ta \<or> b = tb \<longleftrightarrow> terminates c b"
  obtains ds b sps i' r where "take n bs = ds @ [b]" "length ds + 1 = n" "cut_fields cs ds = (sps, i')" "b = bs ! (n - 1)"
    "r = strip_run xs ta tb i' b" "\<not> runs \<longrightarrow> r = b" "cs \<le> i'" "i' \<le> r" "r \<le> b" "b < e"
    "\<forall>sp\<in>set (sps @ [(i', r - i')]). fst sp + snd sp < e"
    "collected c n xs (b + 1) e (drop n bs) runs"
    "(case acc (m_acc m) (map (span_bytes xs) (sps @ [(i', r - i')])) of
       Inl err \<Rightarrow> spec_run c acc L (tot + cs) (subslice xs cs (b + 1)) m = Failed (from_user err)
     | Inr s' \<Rightarrow> if L \<le> tot + b then spec_run c acc L (tot + cs) (subslice xs cs (b + 1)) m = Finished (max L (tot + r)) s'
         else \<exists>m'. spec_run c acc L (tot + cs) (subslice xs cs (b + 1)) m = Running m' \<and> ended (tot + r) s' m')"
proof -
  have n: "1 \<le> n" using assms(1) by (simp add: plain_def)
  note col' = col[unfolded collected_def]
  from col' obtain ph where ph: "count_fields n 0 (kinds c xs bs) = Some ph" by auto
  have "n \<le> length (kinds c xs bs)" using assms(3) by (simp add: kinds_def)
  note cf = count_fields_first[OF ph this n]
  define ds where "ds = take (n - 1) bs"
  define b where "b = bs ! (n - 1)"
  have tk: "take n bs = ds @ [b]"
    using assms(3) n take_Suc_conv_app_nth[of "n - 1" bs] by (simp add: ds_def b_def)
  have len: "length ds + 1 = n" using assms(3) n by (simp add: ds_def)
  have split: "bs = ds @ b # drop n bs" using tk by (metis append.assoc append_Cons append_Nil append_take_drop_id)
  have bnds: "bounds_in c xs cs e = ds @ b # drop n bs" using col' split by simp
  have inb: "d \<in> set bs \<Longrightarrow> is_bound c xs d \<and> cs \<le> d \<and> d < e" for d using col' by (auto simp: bounds_in_def)
  have delims: "\<forall>d\<in>set ds. xs ! d = delimiter c"
  proof
    fix d assume "d \<in> set ds"
    then obtain j where j: "j < n - 1" "d = bs ! j" using assms(3) by (auto simp: ds_def in_set_conv_nth)
    then have "\<not> terminates c (xs ! d)" "d \<in> set bs" using cf(1) assms(3) by (auto simp: kinds_def)
    with inb show "xs ! d = delimiter c" by (auto simp: is_bound_def)
  qed
  have b: "terminates c (xs ! b)" "b \<in> set bs" using cf(2) assms(3) n by (auto simp: kinds_def b_def)
  have csl: "cs < length xs" using inb[OF b(2)] by (auto simp: is_bound_def)
  with col' have first: "\<not> terminates c (xs ! cs)" by simp
  obtain sps i' where cut: "cut_fields cs ds = (sps, i')" by fastforce
  define r where "r = strip_run xs ta tb i' b"
  have m: "m_state m = RecordStart" "m_fields m = []" "m_cur m = []" using assms(4) by (simp_all add: at_record_def)
  note rec = unquoted_record[OF assms(1) m bnds delims len b(1) csl first cut tb, of acc L tot, folded r_def]
  have op: "m_state (opened (tot + cs) m) = FieldStart" "m_cur (opened (tot + cs) m) = []" using m by simp_all
  from delims_run[OF assms(1) op bnds delims less_imp_le[OF csl] cut, of acc L tot]
  have i': "cs \<le> i'" "bounds_in c xs i' e = b # drop n bs" by auto
  have nr: "r = b" if "\<not> runs"
  proof (rule ccontr)
    assume "r \<noteq> b"
    with rec have "r < b" "i' \<le> r" "terminates c (xs ! r)" by auto
    then have "is_bound c xs r" using col' that i'(1) inb[OF b(2)] by simp
    moreover have "\<not> is_bound c xs r" using filter_upt_Cons(4)[OF i'(2)[unfolded bounds_in_def]] \<open>r < b\<close> \<open>i' \<le> r\<close> by simp
    ultimately show False by simp
  qed
  have "sorted_wrt (<) bs"
    using col' sorted_wrt_filter[of "(<)" "[cs..<e]" "is_bound c xs"] by (simp add: bounds_in_def sorted_wrt_upt)
  then have "sorted_wrt (<) ds" by (simp add: ds_def sorted_wrt_take)
  moreover have "\<forall>d\<in>set ds. cs \<le> d \<and> d < e" using inb by (auto simp: ds_def is_bound_def dest: in_set_takeD)
  ultimately have spans: "\<forall>sp\<in>set (sps @ [(i', r - i')]). fst sp + snd sp < e"
    using cut_fields_bounds[OF cut] rec inb[OF b(2)] by auto
  have next_first: "\<not> terminates c (xs ! (b + 1))" if "b + 1 < length xs"
    using inb[OF b(2)] that b(1) assms(1) by (auto simp: is_bound_def plain_def dialect_ok_def)
  have "collected c n xs (b + 1) e (drop n bs) runs"
    unfolding collected_def
  proof (intro conjI impI allI)
    show "b + 1 \<le> e" "e \<le> length xs" using inb[OF b(2)] col' by auto
    show "bounds_in c xs (b + 1) e = drop n bs" using rec by simp
    show "count_fields n 0 (kinds c xs (drop n bs)) \<noteq> None" using cf(3) by (simp add: kinds_def drop_map)
    show "b + 1 < length xs \<Longrightarrow> \<not> terminates c (xs ! (b + 1))" by (rule next_first)
    show "\<not> runs \<Longrightarrow> b + 1 \<le> k \<and> k < e \<and> terminates c (xs ! k) \<Longrightarrow> is_bound c xs k" for k
      using col' inb[OF b(2)] by auto
  qed
  moreover have "\<not> runs \<longrightarrow> r = b" using nr by blast
  ultimately show ?thesis
    using that[OF tk len cut b_def r_def] i'(1) rec inb[OF b(2)] spans by blast
qed

lemma spec_run_stop:
  assumes "spec_run c acc L (tot + i) (subslice xs i j) m = Running m'" "i \<le> j" "j \<le> k" "k \<le> length xs"
  shows "spec_run c acc L (tot + i) (subslice xs i k) m = spec_run c acc L (tot + j) (subslice xs j k) m'"
  using spec_run_cut[OF assms(2-4), of c acc L tot m] assms(1) by simp

lemma emit_ok:
  fixes acc :: "('s, 'u) accumulator"
  assumes "plain c n" and "collected c n xs cs e (drop base bs) runs" and "at_record m" and "m_acc m = s"
    and "k * n \<le> length (drop base bs)" and "agree_but_last e xs buf"
    and tb: "\<And>b. b = ta \<or> b = tb \<longleftrightarrow> terminates c b"
    and before: "\<And>j. 0 < j \<Longrightarrow> j < k \<Longrightarrow> tot + bs ! (base + j * n - 1) < L"
  shows "case emit_any acc buf runs ta tb bs n base k cs lrs s of
      Inl err \<Rightarrow> \<exists>q. cs \<le> q \<and> q \<le> e \<and> spec_run c acc L (tot + cs) (subslice xs cs q) m = Failed err
    | Inr (cs', lrs', s') \<Rightarrow>
        if k = 0 then cs' = cs \<and> lrs' = lrs \<and> s' = s
        else cs < cs' \<and> cs' \<le> e \<and> cs' = bs ! (base + k * n - 1) + 1 \<and>
          collected c n xs cs' e (drop (base + k * n) bs) runs \<and>
          (if L < tot + cs' then spec_run c acc L (tot + cs) (subslice xs cs cs') m = Finished (max L (tot + lrs')) s'
           else \<exists>m'. spec_run c acc L (tot + cs) (subslice xs cs cs') m = Running m' \<and> ended (tot + lrs') s' m')"
  using assms(2-5) before
proof (induction k arbitrary: base cs lrs m s)
  case 0
  then show ?case by (simp add: emit_any_def)
next
  case (Suc k)
  have n: "1 \<le> n" using assms(1) by (simp add: plain_def)
  have nle: "n \<le> length (drop base bs)" using Suc.prems(4) by simp
  obtain ds b sps i' r where
    rec: "take n (drop base bs) = ds @ [b]" "length ds + 1 = n" "cut_fields cs ds = (sps, i')" "b = drop base bs ! (n - 1)"
    "r = strip_run xs ta tb i' b" "\<not> runs \<longrightarrow> r = b" "cs \<le> i'" "i' \<le> r" "r \<le> b" "b < e"
    "\<forall>sp\<in>set (sps @ [(i', r - i')]). fst sp + snd sp < e"
    "collected c n xs (b + 1) e (drop n (drop base bs)) runs"
    "(case acc (m_acc m) (map (span_bytes xs) (sps @ [(i', r - i')])) of
       Inl err \<Rightarrow> spec_run c acc L (tot + cs) (subslice xs cs (b + 1)) m = Failed (from_user err)
     | Inr s' \<Rightarrow> if L \<le> tot + b then spec_run c acc L (tot + cs) (subslice xs cs (b + 1)) m = Finished (max L (tot + r)) s'
         else \<exists>m'. spec_run c acc L (tot + cs) (subslice xs cs (b + 1)) m = Running m' \<and> ended (tot + r) s' m')"
    by (rule collected_record[OF assms(1) Suc.prems(1) nle Suc.prems(2) tb, of acc L tot])
  have exs: "e \<le> length xs" using Suc.prems(1) by (simp add: collected_def)
  then have bx: "b < length xs" using rec(10) by simp
  have strip: "strip_run buf ta tb i' b = r" using agree_strip[OF assms(6) rec(10)] rec(5) by simp
  have sub: "subslice bs base (base + n) = ds @ [b]" using rec(1) by (simp add: subslice_def)
  have b_eq: "b = bs ! (base + n - 1)" using rec(4) n nle by simp
  have "\<not> runs \<longrightarrow> strip_run buf ta tb i' b = b" using rec(6) strip by simp
  note unf = emit_any_Suc[OF sub rec(2,3) this, of acc k lrs s, unfolded strip]
  have spans: "map (span_bytes buf) (sps @ [(i', r - i')]) = map (span_bytes xs) (sps @ [(i', r - i')])"
    using rec(11) by (intro map_cong) (auto simp: span_bytes_def agree_slice[OF assms(6)])
  show ?case
  proof (cases "acc s (map (span_bytes xs) (sps @ [(i', r - i')]))")
    case (Inl err)
    then have "spec_run c acc L (tot + cs) (subslice xs cs (b + 1)) m = Failed (from_user err)"
      using rec(13) Suc.prems(3) by simp
    moreover have "cs \<le> b + 1" "b + 1 \<le> e" using rec(7-10) by simp_all
    ultimately show ?thesis using unf Inl unfolding spans by auto
  next
    case (Inr s1)
    have go: "emit_any acc buf runs ta tb bs n base (Suc k) cs lrs s = emit_any acc buf runs ta tb bs n (base + n) k (b + 1) r s1"
      using unf Inr unfolding spans by simp
    have col1: "collected c n xs (b + 1) e (drop (base + n) bs) runs" using rec(12) by (simp add: add.commute)
    show ?thesis
    proof (cases "k = 0")
      case True
      have "if L \<le> tot + b then spec_run c acc L (tot + cs) (subslice xs cs (b + 1)) m = Finished (max L (tot + r)) s1
         else \<exists>m'. spec_run c acc L (tot + cs) (subslice xs cs (b + 1)) m = Running m' \<and> ended (tot + r) s1 m'"
        using rec(13) Inr Suc.prems(3) by simp
      then show ?thesis
        unfolding go using True rec(7-10) col1 b_eq by (auto simp: emit_any_def less_Suc_eq_le)
    next
      case False
      have "tot + b < L" using Suc.prems(5)[of 1] False b_eq by simp
      then obtain m1 where m1: "spec_run c acc L (tot + cs) (subslice xs cs (b + 1)) m = Running m1" "ended (tot + r) s1 m1"
        using rec(13) Inr Suc.prems(3) by auto
      have at1: "at_record m1" "m_acc m1 = s1" using m1(2) by (simp_all add: at_record_def ended_def)
      have idx: "base + n + j * n - 1 = base + (j + 1) * n - 1" for j by simp
      have "k * n \<le> length (drop (base + n) bs)" using Suc.prems(4) by simp
      moreover have "\<And>j. 0 < j \<Longrightarrow> j < k \<Longrightarrow> tot + bs ! (base + n + j * n - 1) < L"
        unfolding idx by (rule Suc.prems(5)) auto
      ultimately have IH: "case emit_any acc buf runs ta tb bs n (base + n) k (b + 1) r s1 of
          Inl err \<Rightarrow> \<exists>q. b + 1 \<le> q \<and> q \<le> e \<and> spec_run c acc L (tot + (b + 1)) (subslice xs (b + 1) q) m1 = Failed err
        | Inr (cs', lrs', s') \<Rightarrow>
            if k = 0 then cs' = b + 1 \<and> lrs' = r \<and> s' = s1
            else b + 1 < cs' \<and> cs' \<le> e \<and> cs' = bs ! (base + n + k * n - 1) + 1 \<and>
              collected c n xs cs' e (drop (base + n + k * n) bs) runs \<and>
              (if L < tot + cs' then spec_run c acc L (tot + (b + 1)) (subslice xs (b + 1) cs') m1 = Finished (max L (tot + lrs')) s'
               else \<exists>m'. spec_run c acc L (tot + (b + 1)) (subslice xs (b + 1) cs') m1 = Running m' \<and> ended (tot + lrs') s' m')"
        by (rule Suc.IH[OF col1 at1])
      have csb: "cs \<le> b + 1" using rec(7-9) by simp
      have ext: "b + 1 \<le> q \<Longrightarrow> q \<le> e \<Longrightarrow> spec_run c acc L (tot + cs) (subslice xs cs q) m =
          spec_run c acc L (tot + (b + 1)) (subslice xs (b + 1) q) m1" for q
        using spec_run_stop[OF m1(1) csb] exs by simp
      show ?thesis
      proof (cases "emit_any acc buf runs ta tb bs n (base + n) k (b + 1) r s1")
        case (Inl err)
        with IH obtain q where q: "b + 1 \<le> q" "q \<le> e" "spec_run c acc L (tot + (b + 1)) (subslice xs (b + 1) q) m1 = Failed err"
          by auto
        then have "spec_run c acc L (tot + cs) (subslice xs cs q) m = Failed err" using ext by simp
        moreover have "cs \<le> q" using csb q(1) by simp
        ultimately show ?thesis unfolding go Inl using q(2) by auto
      next
        case (Inr t)
        obtain cs' lrs' s' where t: "t = (cs', lrs', s')" by (cases t) auto
        have eq: "base + n + k * n = base + Suc k * n" by simp
        note ih = IH[unfolded Inr t sum.case prod.case if_not_P[OF False] eq]
        have "cs < cs'" "spec_run c acc L (tot + cs) (subslice xs cs cs') m =
            spec_run c acc L (tot + (b + 1)) (subslice xs (b + 1) cs') m1"
          using ih ext[of cs'] csb by auto
        with ih show ?thesis unfolding go Inr t sum.case prod.case if_not_P[OF nat.distinct(2)] by metis
      qed
    qed
  qed
qed

section \<open>A flush\<close>

text \<open>The fields of the stepper that never change, and its verifier's table.\<close>

definition set_up :: "Config \<Rightarrow> nat \<Rightarrow> CursorStepper \<Rightarrow> bool" where
  "set_up c n st \<longleftrightarrow> delim st = delimiter c \<and> (term_a st, term_b st) = terminator_bytes (terminator c) \<and>
     fc_n (field_counter st) = n \<and> counter_ok (field_counter st)"

lemma set_up_terminates:
  assumes "set_up c n st"
  shows "is_term st b \<longleftrightarrow> terminates c b"
    and "b = term_a st \<or> b = (case term_b st of Some b \<Rightarrow> b | None \<Rightarrow> term_a st) \<longleftrightarrow> terminates c b"
proof -
  have "term_a st = fst (terminator_bytes (terminator c))" "term_b st = snd (terminator_bytes (terminator c))"
    using assms by (metis fst_conv set_up_def, metis snd_conv set_up_def)
  then show "is_term st b \<longleftrightarrow> terminates c b"
    "b = term_a st \<or> b = (case term_b st of Some b \<Rightarrow> b | None \<Rightarrow> term_a st) \<longleftrightarrow> terminates c b"
    unfolding is_term_def terminator_bytes_iff by (auto split: option.split)
qed

lemma emit_records_any:
  "0 < cnt \<Longrightarrow> emit_records acc buf base cnt n cs s st =
    emit_any acc buf (has_runs st) (term_a st) (case term_b st of Some b \<Rightarrow> b | None \<Rightarrow> term_a st) (bounds st) n base cnt cs cs s"
  by (simp add: emit_records_def emit_any_def)

lemma crossing_spec:
  assumes "k \<le> avail" and "rem \<le> bs ! (head + avail * n - 1)" and "crossing bs head n rem avail k = k'"
  shows "k \<le> k' \<and> k' \<le> avail \<and> rem \<le> bs ! (head + k' * n - 1) \<and> (\<forall>j. k \<le> j \<and> j < k' \<longrightarrow> bs ! (head + j * n - 1) < rem)"
  using assms
proof (induction bs head n rem avail k rule: crossing.induct)
  case (1 bs head n rem avail k)
  show ?case
  proof (cases "k < avail \<and> bs ! (head + k * n - 1) < rem")
    case True
    then have "crossing bs head n rem avail (k + 1) = k'" using 1(4) by (subst (asm) crossing.simps) simp
    with 1(1)[OF True] 1(3) True have "k + 1 \<le> k' \<and> k' \<le> avail \<and> rem \<le> bs ! (head + k' * n - 1) \<and>
        (\<forall>j. k + 1 \<le> j \<and> j < k' \<longrightarrow> bs ! (head + j * n - 1) < rem)" by simp
    with True show ?thesis by (metis Suc_eq_plus1 Suc_leD le_neq_implies_less Suc_leI)
  next
    case False
    then have "k' = k" using 1(4) unfolding crossing.simps[of bs head n rem avail k] if_not_P[OF False] by simp
    moreover have "rem \<le> bs ! (head + k * n - 1)" using False 1(2,3) by (cases "k = avail") auto
    ultimately show ?thesis using 1(2) by simp
  qed
qed

lemma collected_ascending:
  assumes "collected c n xs cs e (drop head bs) runs" and "head \<le> i" "i < j" "j < length bs"
  shows "bs ! i < bs ! j"
proof -
  have "sorted_wrt (<) (drop head bs)"
    using assms(1) sorted_wrt_filter[of "(<)" "[cs..<e]" "is_bound c xs"]
    by (auto simp: collected_def bounds_in_def)
  from sorted_wrt_nth_less[OF this, of "i - head" "j - head"] assms(2-4) show ?thesis by simp
qed

lemma handoff_end: "L \<le> tot + b \<Longrightarrow> tot + handoff r (L - tot) True = max L (tot + r)" "handoff r rem False = r"
  by (auto simp: handoff_def)

text \<open>The stepper after some records: only where it stands has moved.\<close>

definition moved :: "nat \<Rightarrow> 's machine \<Rightarrow> CursorStepper \<Rightarrow> CursorStepper \<Rightarrow> bool" where
  "moved tot m st st' \<longleftrightarrow> at_record m \<and> cs_last_record_end st' = m_last_end m \<and>
     st' = st\<lparr>cell_start := cell_start st', cs_last_record_end := cs_last_record_end st'\<rparr>"

lemma cursor_flush_ok:
  fixes acc :: "('s, 'u) accumulator"
  assumes "plain c n" and "set_up c n st" and col: "collected c n xs (cell_start st) e (drop head (bounds st)) (has_runs st)"
    and at: "at_record m" "cs_last_record_end st = m_last_end m" and "agree_but_last e xs buf"
    and flush: "cursor_flush acc buf head (L - tot) tot n (m_acc m) st = (res, head', s', st')"
  shows "case res of
      Inl err \<Rightarrow> \<exists>q. cell_start st \<le> q \<and> q \<le> e \<and> spec_run c acc L (tot + cell_start st) (subslice xs (cell_start st) q) m = Failed err
    | Inr (Some fin) \<Rightarrow> \<exists>q. cell_start st \<le> q \<and> q \<le> e \<and>
        spec_run c acc L (tot + cell_start st) (subslice xs (cell_start st) q) m = Finished fin s'
    | Inr None \<Rightarrow> \<exists>m'. cell_start st \<le> cell_start st' \<and> cell_start st' \<le> e \<and>
        spec_run c acc L (tot + cell_start st) (subslice xs (cell_start st) (cell_start st')) m = Running m' \<and>
        s' = m_acc m' \<and> moved tot m' st st' \<and> head \<le> head' \<and> collected c n xs (cell_start st') e (drop head' (bounds st)) (has_runs st)"
proof -
  let ?cs = "cell_start st" and ?bs = "bounds st" and ?rem = "L - tot"
  define avail where "avail = (length ?bs - head) div n"
  have n: "1 \<le> n" using assms(1) by (simp add: plain_def)
  show ?thesis
  proof (cases "avail = 0")
    case True
    then have "res = Inr None" "head' = head" "s' = m_acc m" "st' = st"
      using flush by (auto simp: cursor_flush_def avail_def)
    then show ?thesis using at col by (auto simp: moved_def collected_def intro!: exI[of _ m])
  next
    case False
    have avail: "avail * n \<le> length ?bs - head" by (simp add: avail_def)
    obtain cnt stop where cnt: "(if ?rem = 0 then (1, True)
        else if ?bs ! (head + avail * n - 1) < ?rem then (avail, False)
        else (crossing ?bs head n ?rem avail 1, True)) = (cnt, stop)" by fastforce
    have facts: "0 < cnt \<and> cnt \<le> avail \<and> (\<forall>j. 0 < j \<and> j < cnt \<longrightarrow> tot + ?bs ! (head + j * n - 1) < L) \<and>
        (stop \<longleftrightarrow> L \<le> tot + ?bs ! (head + cnt * n - 1))"
    proof -
      consider (none) "?rem = 0" "cnt = 1" "stop"
        | (all) "?rem \<noteq> 0" "?bs ! (head + avail * n - 1) < ?rem" "cnt = avail" "\<not> stop"
        | (some) "?rem \<noteq> 0" "?rem \<le> ?bs ! (head + avail * n - 1)" "cnt = crossing ?bs head n ?rem avail 1" "stop"
        using cnt by (auto split: if_splits)
      then show ?thesis
      proof cases
        case none
        with False show ?thesis by auto
      next
        case all
        have asc: "?bs ! (head + j * n - 1) < ?bs ! (head + avail * n - 1)" if "0 < j" "j < avail" for j
        proof (rule collected_ascending[OF col])
          have "0 < avail * n" using False n by simp
          then have "0 < j * n" "j * n < avail * n" "avail * n + head \<le> length ?bs"
            using that n avail by (simp, simp, linarith)
          then show "head \<le> head + j * n - 1" "head + j * n - 1 < head + avail * n - 1" "head + avail * n - 1 < length ?bs"
            by linarith+
        qed
        have "tot + ?bs ! (head + j * n - 1) < L" if "0 < j" "j < avail" for j
          using asc[OF that] all(2) by linarith
        moreover have "\<not> L \<le> tot + ?bs ! (head + avail * n - 1)" using all(2) by linarith
        ultimately show ?thesis using all(3,4) False by simp
      next
        case some
        note cr = crossing_spec[OF _ some(2) some(3)[symmetric]]
        have "tot + ?bs ! (head + j * n - 1) < L" if "0 < j" "j < cnt" for j
        proof -
          have "?bs ! (head + j * n - 1) < ?rem" using cr False that by simp
          then show ?thesis by linarith
        qed
        moreover have "1 \<le> cnt" "cnt \<le> avail" "?rem \<le> ?bs ! (head + cnt * n - 1)" using cr False by simp_all
        moreover from this(3) have "L \<le> tot + ?bs ! (head + cnt * n - 1)" by linarith
        ultimately show ?thesis using some(4) by simp
      qed
    qed
    have "cnt * n \<le> avail * n" using facts by (intro mult_le_mono1) simp
    from order_trans[OF this avail] have fits: "cnt * n \<le> length (drop head ?bs)" by simp
    define em where "em = emit_records acc buf head cnt n ?cs (m_acc m) st"
    have fl: "(res, head', s', st') = (case em of
          Inl e \<Rightarrow> (Inl e, head, m_acc m, st)
        | Inr (cs, last_run_start, s') \<Rightarrow>
            (let fin = tot + handoff last_run_start ?rem stop
             in (Inr (if stop then Some fin else None), head + cnt * n, s',
                 st\<lparr>cell_start := cs, cs_last_record_end := Some fin\<rparr>)))"
      using flush False cnt unfolding cursor_flush_def avail_def[symmetric] Let_def em_def by simp
    have pos: "0 < cnt" and before: "0 < j \<Longrightarrow> j < cnt \<Longrightarrow> tot + ?bs ! (head + j * n - 1) < L" for j
      using facts by auto
    note em = emit_ok[OF assms(1) col at(1) refl fits assms(6) set_up_terminates(2)[OF assms(2)] before,
        where lrs = ?cs and acc = acc, folded emit_records_any[OF pos], folded em_def]
    show ?thesis
    proof (cases em)
      case (Inl err)
      with em fl show ?thesis by auto
    next
      case (Inr t)
      obtain cs' lrs' s1 where t: "t = (cs', lrs', s1)" by (cases t) auto
      have nz: "cnt \<noteq> 0" using pos by simp
      note e = em[unfolded Inr t sum.case prod.case if_not_P[OF nz]]
      have stop: "L < tot + cs' \<longleftrightarrow> stop" using e facts by auto
      have out: "head' = head + cnt * n" "s' = s1"
        "st' = st\<lparr>cell_start := cs', cs_last_record_end := Some (tot + handoff lrs' ?rem stop)\<rparr>"
        "res = Inr (if stop then Some (tot + handoff lrs' ?rem stop) else None)"
        using fl Inr t by (simp_all add: Let_def)
      show ?thesis
      proof (cases stop)
        case True
        then have "tot + handoff lrs' ?rem stop = max L (tot + lrs')" using stop handoff_end(1)[of L tot cs' lrs'] by (simp add: handoff_def)
        then show ?thesis using e out True stop by (auto intro!: exI[of _ cs'])
      next
        case False
        then obtain m' where m': "spec_run c acc L (tot + ?cs) (subslice xs ?cs cs') m = Running m'" "ended (tot + lrs') s1 m'"
          using e stop by auto
        have "moved tot m' st st'"
          using m'(2) out(3) False by (simp add: moved_def at_record_def ended_def handoff_def)
        then show ?thesis using e out False m' by (auto simp: ended_def intro!: exI[of _ m'])
      qed
    qed
  qed
qed

end
