(* ===== verification/IndexFields.thy ===== *)
theory IndexFields
  imports Quoted FieldCount CursorEmit
begin

text \<open>
  Lists of field ends, field beginnings and boundaries, and the fields and records they stand for.
\<close>

section \<open>The first field\<close>

definition ends_in :: "ScannerConfig \<Rightarrow> byte list \<Rightarrow> nat \<Rightarrow> nat \<Rightarrow> nat list" where
  "ends_in cfg ws a b = filter (end_at cfg ws) [a..<b]"

definition begins_in :: "ScannerConfig \<Rightarrow> byte list \<Rightarrow> nat \<Rightarrow> nat \<Rightarrow> nat list" where
  "begins_in cfg ws a b = filter (begin_at cfg ws) [a..<b]"

definition structs_in :: "ScannerConfig \<Rightarrow> byte list \<Rightarrow> nat \<Rightarrow> nat \<Rightarrow> nat list" where
  "structs_in cfg ws a b = filter (struct_at cfg ws) [a..<b]"

text \<open>Where a field may start: in no quote, and not within a run of terminators.\<close>

definition start_at :: "ScannerConfig \<Rightarrow> byte list \<Rightarrow> nat \<Rightarrow> bool" where
  "start_at cfg ws i \<longleftrightarrow> \<not> open_before cfg ws i \<and> (0 < i \<longrightarrow> \<not> quote_at cfg ws (i - 1) \<and> \<not> (term_at cfg ws i \<and> term_at cfg ws (i - 1)))"

lemma start_after_struct:
  assumes "quoting c n cfg" and "struct_at cfg ws x"
  shows "start_at cfg ws (x + 1)"
  using close_no_quote[OF assms(1) struct_closes[OF assms(2)]] close_at_sel(2)[OF struct_closes[OF assms(2)]] assms(2)
    quoting_at[OF assms(1)] quoting_sel(5)[OF assms(1)]
  by (auto simp: start_at_def struct_at_def run_end_at_def)

text \<open>Two cuts of a range: before a position none satisfies the predicate, or exactly one does.\<close>

lemma filter_from:
  assumes "i \<le> x" and "\<And>k. i \<le> k \<Longrightarrow> k < x \<Longrightarrow> \<not> P k"
  shows "filter P [i..<b] = filter P [x..<b]"
proof (cases "x \<le> b")
  case True
  then have "[i..<b] = [i..<x] @ [x..<b]" using assms(1) by (metis le_Suc_ex upt_add_eq_append)
  then show ?thesis using assms(2) by (auto simp: filter_empty_conv)
next
  case False
  then show ?thesis using assms(2) by (auto simp: filter_empty_conv)
qed

lemma filter_at: "x < b \<Longrightarrow> filter P [x..<b] = (if P x then [x] else []) @ filter P [x + 1..<b]"
  by (simp add: upt_conv_Cons)

lemma ends_first:
  assumes "quoting c n cfg" and "start_at cfg ws i" and "ends_in cfg ws i b = e # es"
  obtains x where "field_at cfg ws i x" "e = field_fin cfg ws x" "x \<le> b" "es = ends_in cfg ws (x + 1) b"
proof -
  note fu = filter_upt_Cons[OF assms(3)[unfolded ends_in_def]]
  have ex: "\<exists>x\<ge>i. close_at cfg ws x"
    using fu(1,3) by (auto simp: end_at_def closer_at_def intro: field_close_closes le_SucI)
  define x where "x = (LEAST x. i \<le> x \<and> close_at cfg ws x)"
  have x: "i \<le> x" "close_at cfg ws x" using LeastI_ex[OF ex[unfolded Bex_def]] ex
    unfolding x_def by (metis (mono_tags, lifting) LeastI)+
  have before: "\<not> close_at cfg ws k" if "i \<le> k" "k < x" for k
    using not_less_Least[of k "\<lambda>x. i \<le> x \<and> close_at cfg ws x"] that unfolding x_def by blast
  have fc: "field_close_at cfg ws x"
  proof (cases "delim_at cfg ws x")
    case False
    then have t: "term_at cfg ws x" using x(2) by (simp add: close_at_def)
    have "\<not> (0 < x \<and> term_at cfg ws (x - 1))"
    proof (cases "x = i")
      case True
      then show ?thesis using assms(2) t by (auto simp: start_at_def)
    next
      case False
      then have "\<not> close_at cfg ws (x - 1)" using before[of "x - 1"] x(1) by simp
      then show ?thesis by (simp add: close_at_def)
    qed
    then show ?thesis using t by (simp add: field_close_at_def)
  qed (simp add: field_close_at_def)
  have f: "field_at cfg ws i x" using x(1) fc before assms(2) by (auto simp: field_at_def start_at_def)
  note le = field_begin_le[OF assms(1) f]
  let ?e = "field_fin cfg ws x"
  have end_e: "end_at cfg ws ?e" using fc by (auto simp: field_fin_def end_at_def)
  have first: "\<not> end_at cfg ws k" if "i \<le> k" "k < ?e" for k using field_marks(1)[OF assms(1) f that] .
  have "?e \<le> e" using first[of e] fu(1,3) by (metis not_le)
  moreover have "e \<le> ?e" using fu(4) end_e le by (metis not_le le_trans)
  ultimately have e: "e = ?e" by simp
  have "x \<le> e + 1" by (simp add: e field_fin_def)
  then have xb: "x \<le> b" using fu(2) by simp
  have "es = filter (end_at cfg ws) [x + 1..<b]"
  proof (cases "e = x")
    case True
    then show ?thesis using fu(5) by simp
  next
    case False
    then have c: "e + 1 = x" "closer_at cfg ws (x - 1)" "0 < x" by (auto simp: e field_fin_def split: if_splits)
    then have "\<not> end_at cfg ws x" using close_no_quote(1)[OF assms(1) x(2)] by (simp add: end_at_def closer_at_def)
    then show ?thesis using fu(5) c(1) filter_from[of x "x + 1" "end_at cfg ws" b] by (simp add: le_less_Suc_eq)
  qed
  then show ?thesis using that[OF f e xb] by (simp add: ends_in_def)
qed

text \<open>The beginnings of a field: one, unless it is the first of the chunk, whose beginning the masks do not show.\<close>

lemma begins_field:
  assumes "quoting c n cfg" and f: "field_at cfg ws i x" and "i \<le> k" and "k \<le> x"
  shows "begin_at cfg ws k \<longleftrightarrow> k = field_begin cfg ws i \<and> 0 < i \<and> struct_at cfg ws (i - 1)"
proof -
  have none: "\<not> struct_at cfg ws k" if "i \<le> k" "k < x" for k using f that struct_closes by (auto simp: field_at_def)
  have x: "close_at cfg ws x" using f by (auto simp: field_at_def intro: field_close_closes)
  have kl: "k < length ws" using close_at_sel(1)[OF x] assms(4) by simp
  have nq: "\<not> (0 < i \<and> quote_at cfg ws (i - 1))" using f by (simp add: field_at_def)
  consider "k = i" | "k = i + 1" | "i + 1 < k" using assms(3) by linarith
  then show ?thesis
  proof cases
    case 1
    then show ?thesis using kl nq by (auto simp: begin_at_def field_begin_def opener_at_def)
  next
    case 2
    then show ?thesis using kl none[of i] assms(4) by (auto simp: begin_at_def field_begin_def opener_at_def)
  next
    case 3
    then have "\<not> struct_at cfg ws (k - 1)" "\<not> struct_at cfg ws (k - 1 - 1)" using none[of "k - 1"] none[of "k - 1 - 1"] assms(4) by simp_all
    then show ?thesis using 3 by (auto simp: begin_at_def field_begin_def opener_at_def)
  qed
qed

definition begins_from :: "bool \<Rightarrow> ScannerConfig \<Rightarrow> byte list \<Rightarrow> nat \<Rightarrow> nat \<Rightarrow> nat list" where
  "begins_from first cfg ws i b = (if first then [i] else []) @ begins_in cfg ws i b"

text \<open>The start of a record's or chunk's field list: in its place after a boundary, or the chunk's first.\<close>

definition placed :: "bool \<Rightarrow> ScannerConfig \<Rightarrow> byte list \<Rightarrow> nat \<Rightarrow> bool" where
  "placed first cfg ws i \<longleftrightarrow> start_at cfg ws i \<and> (first \<longleftrightarrow> \<not> (0 < i \<and> struct_at cfg ws (i - 1)))"

lemma begins_first:
  assumes "quoting c n cfg" and f: "field_at cfg ws i x" and "placed first cfg ws i" and "field_fin cfg ws x < b"
  shows "begins_from first cfg ws i b = field_begin cfg ws i # begins_in cfg ws (x + 1) b"
proof -
  note le = field_begin_le[OF assms(1) f]
  have ix: "i \<le> x" using f by (simp add: field_at_def)
  note bf = begins_field[OF assms(1) f]
  show ?thesis
  proof (cases first)
    case True
    then have ns: "\<not> (0 < i \<and> struct_at cfg ws (i - 1))" using assms(3) by (simp add: placed_def)
    then have "field_begin cfg ws i = i" by (auto simp: field_begin_def opener_at_def)
    moreover have "begins_in cfg ws i b = begins_in cfg ws (x + 1) b"
      unfolding begins_in_def using ix bf ns by (intro filter_from) auto
    ultimately show ?thesis using True by (simp add: begins_from_def)
  next
    case False
    then have s: "0 < i" "struct_at cfg ws (i - 1)" using assms(3) by (simp_all add: placed_def)
    let ?b = "field_begin cfg ws i"
    have bx: "?b \<le> x" using le by simp
    have "begins_in cfg ws i b = begins_in cfg ws ?b b"
      unfolding begins_in_def using le bf bx by (intro filter_from) auto
    also have "\<dots> = ?b # begins_in cfg ws (?b + 1) b"
      unfolding begins_in_def using filter_at[of ?b b "begin_at cfg ws"] bf[of ?b] le bx s assms(4) by simp
    also have "begins_in cfg ws (?b + 1) b = begins_in cfg ws (x + 1) b"
      unfolding begins_in_def using le bf bx by (intro filter_from) auto
    finally show ?thesis using False by (simp add: begins_from_def)
  qed
qed

section \<open>The fields up to the last\<close>

lemma term_chain:
  assumes "term_at cfg ws x" and "\<And>k. x \<le> k \<Longrightarrow> k < d \<Longrightarrow> \<not> struct_at cfg ws k" and "x \<le> k" and "k \<le> d"
  shows "term_at cfg ws k"
  using assms(3,4)
proof (induction k rule: dec_induct)
  case (step k)
  then have "term_at cfg ws k" "\<not> struct_at cfg ws k" using assms(2) by simp_all
  then show ?case by (simp add: struct_at_def run_end_at_def)
qed (rule assms(1))

lemma term_not_delim:
  assumes "quoting c n cfg"
  shows "term_at cfg ws k \<Longrightarrow> \<not> delim_at cfg ws k"
  using quoting_at[OF assms] quoting_sel(5)[OF assms] by auto

text \<open>A field end after the start of a run lies past the run's end.\<close>

lemma end_after_run:
  assumes q: "quoting c n cfg" and "term_at cfg ws x" and "end_at cfg ws e" and "x < e"
  obtains d where "x \<le> d" "d < e" "struct_at cfg ws d" "term_at cfg ws d" "\<And>k. x \<le> k \<Longrightarrow> k < d \<Longrightarrow> \<not> struct_at cfg ws k"
proof -
  have "\<exists>d. x \<le> d \<and> d < e \<and> struct_at cfg ws d"
  proof (rule ccontr)
    assume "\<not> ?thesis"
    then have none: "\<And>k. x \<le> k \<Longrightarrow> k < e \<Longrightarrow> \<not> struct_at cfg ws k" by blast
    have t: "term_at cfg ws e" "term_at cfg ws (e - 1)" using term_chain[OF assms(2) none, where d = e and k = e]
        term_chain[OF assms(2) none, where d = e and k = "e - 1"] assms(4) by simp_all
    have "\<not> quote_at cfg ws e" using close_no_quote(1)[OF q] t(1) by (simp add: close_at_def)
    then show False using assms(3,4) t term_not_delim[OF q t(1)] by (auto simp: end_at_def closer_at_def field_close_at_def)
  qed
  then have ex: "\<exists>d. x \<le> d \<and> d < e \<and> struct_at cfg ws d" .
  define d where "d = (LEAST d. x \<le> d \<and> d < e \<and> struct_at cfg ws d)"
  have d: "x \<le> d" "d < e" "struct_at cfg ws d" using LeastI_ex[OF ex] unfolding d_def by blast+
  have none: "\<not> struct_at cfg ws k" if "x \<le> k" "k < d" for k
    using not_less_Least[of k "\<lambda>d. x \<le> d \<and> d < e \<and> struct_at cfg ws d"] that d(2) unfolding d_def[symmetric] by auto
  show ?thesis using that[OF d] term_chain[OF assms(2) none, where k = d] d(1) none by simp
qed

definition kinds_in :: "ScannerConfig \<Rightarrow> byte list \<Rightarrow> nat \<Rightarrow> nat \<Rightarrow> bool list" where
  "kinds_in cfg ws a b = map (term_at cfg ws) (structs_in cfg ws a b)"

lemma kinds_struct:
  assumes "i \<le> d" and "d < b" and "struct_at cfg ws d" and "\<And>k. i \<le> k \<Longrightarrow> k < d \<Longrightarrow> \<not> struct_at cfg ws k"
  shows "kinds_in cfg ws i b = term_at cfg ws d # kinds_in cfg ws (d + 1) b"
  using filter_from[OF assms(1,4)] filter_at[OF assms(2), of "struct_at cfg ws"] assms(3)
  by (simp add: kinds_in_def structs_in_def)

lemma field_no_struct: "field_at cfg ws i x \<Longrightarrow> i \<le> k \<Longrightarrow> k < x \<Longrightarrow> \<not> struct_at cfg ws k"
  using struct_closes by (auto simp: field_at_def)

lemma state_at_in_field: "\<not> open_before cfg ws x \<Longrightarrow> in_field_state (state_at cfg ws i x)"
  by (simp add: state_at_def)

text \<open>One field that a delimiter ends: its span, its kept bytes and the machine behind the delimiter.\<close>

lemma quoted_field:
  fixes acc :: "('s, 'u) accumulator"
  assumes q: "quoting c n cfg" and f: "field_at cfg ws i x" and d: "delim_at cfg ws x" and m: "m_state m = FieldStart" "m_cur m = []"
    and rs: "\<And>k. field_begin cfg ws i \<le> k \<Longrightarrow> k < field_fin cfg ws x \<Longrightarrow> k \<in> set rs \<longleftrightarrow> removed_at cfg ws k"
  obtains m' where "spec_run c acc L p (subslice ws i (x + 1)) m = Running m'"
    "with_fields [kept rs ws (field_begin cfg ws i) (field_fin cfg ws x)] m m'"
proof -
  have x: "i \<le> x" "x < length ws" "\<not> open_before cfg ws i" "ws ! x = delimiter c" "close_at cfg ws x" "\<forall>k. i \<le> k \<and> k < x \<longrightarrow> \<not> close_at cfg ws k"
    using f d quoting_at(2)[OF q] by (auto simp: field_at_def close_at_def)
  define m1 where "m1 = m\<lparr>m_cur := copied cfg ws i x, m_state := state_at cfg ws i x\<rparr>"
  have run: "spec_run c acc L p (subslice ws i x) m = Running m1"
    unfolding m1_def by (rule quoting_field_run[OF q m x(3,1) less_imp_le[OF x(2)] x(6)])
  have "in_field_state (m_state m1)"
    unfolding m1_def using state_at_in_field[OF close_no_quote(2)[OF q x(5)]] by simp
  from quoting_cells(5)[OF q this x(4), of acc L "p + (x - i)"] run
  have "spec_run c acc L p (subslice ws i (x + 1)) m =
      Running (m1\<lparr>m_fields := m_fields m1 @ [m_cur m1], m_cur := [], m_fld_start := p + (x - i) + 1, m_state := FieldStart\<rparr>)"
    using x(1,2) by (simp add: slice_snoc spec_run_append)
  then show ?thesis
    by (rule that) (simp add: with_fields_def m1_def kept_field[OF q f rs])
qed

lemma end_at_length: "end_at cfg ws k \<Longrightarrow> k < length ws"
  by (auto simp: end_at_def closer_at_def quote_at_def field_close_at_def delim_at_def term_at_def)

lemma ends_in_bound: "ends_in cfg ws i P = e # es \<Longrightarrow> i \<le> e \<and> e < P \<and> e < length ws"
  using filter_upt_Cons(1-3)[of "end_at cfg ws" i P e es] end_at_length by (simp add: ends_in_def)

lemma quoted_fields:
  fixes acc :: "('s, 'u) accumulator"
  assumes q: "quoting c n cfg" and "placed first cfg ws i" and "ends_in cfg ws i P = es @ e' # rest"
    and "count_fields n j (kinds_in cfg ws i P) = Some ph" and "j + length es \<le> n - 1" and "m_state m = FieldStart" and "m_cur m = []"
    and rs: "\<And>k. i \<le> k \<Longrightarrow> k < P \<Longrightarrow> k \<in> set rs \<longleftrightarrow> removed_at cfg ws k"
  shows "\<exists>i' bs m'. i \<le> i' \<and> length bs = length es \<and> placed (first \<and> es = []) cfg ws i' \<and>
    ends_in cfg ws i' P = e' # rest \<and> begins_from first cfg ws i P = bs @ begins_from (first \<and> es = []) cfg ws i' P \<and>
    count_fields n (j + length es) (kinds_in cfg ws i' P) = Some ph \<and> spans_in i (zip bs es) i' \<and>
    spec_run c acc L p (subslice ws i i') m = Running m' \<and> with_fields (map (\<lambda>(b, e). kept rs ws b e) (zip bs es)) m m'"
  using assms(2-)
proof (induction es arbitrary: i j m p first)
  case Nil
  then show ?case by (intro exI[of _ i] exI[of _ "[]"] exI[of _ m]) (simp add: with_fields_def subslice_def)
next
  case (Cons e es)
  note st = Cons.prems(1)[unfolded placed_def]
  from ends_first[OF q conjunct1[OF st] Cons.prems(2)[unfolded append_Cons]] obtain x where
    f: "field_at cfg ws i x" and x: "e = field_fin cfg ws x" "x \<le> P" "es @ e' # rest = ends_in cfg ws (x + 1) P" by blast
  have ix: "i \<le> x" using f by (simp add: field_at_def)
  note le = field_begin_le[OF q f]
  obtain E where E: "x < E" "E < P" "end_at cfg ws E"
  proof -
    have "e' \<in> set (ends_in cfg ws (x + 1) P)" unfolding x(3)[symmetric] by simp
    then show ?thesis using that[of e'] by (simp add: ends_in_def)
  qed
  note none = field_no_struct[OF f]
  have d: "delim_at cfg ws x"
  proof (rule ccontr)
    assume "\<not> delim_at cfg ws x"
    then have t: "term_at cfg ws x" using f by (auto simp: field_at_def field_close_at_def)
    from end_after_run[OF q t E(3,1)] obtain r where
      r: "x \<le> r" "r < E" "struct_at cfg ws r" "term_at cfg ws r" "\<And>k. x \<le> k \<Longrightarrow> k < r \<Longrightarrow> \<not> struct_at cfg ws k" by blast
    have "i \<le> r" "r < P" "\<And>k. i \<le> k \<Longrightarrow> k < r \<Longrightarrow> \<not> struct_at cfg ws k" using ix r E(2) none by (auto simp: not_less[symmetric])
    from kinds_struct[OF this(1,2) r(3) this(3)] r(4) Cons.prems(3,4) show False by (auto split: if_splits)
  qed
  have s: "struct_at cfg ws x" using d by (simp add: struct_at_def)
  have nt: "\<not> term_at cfg ws x" using d term_not_delim[OF q] by blast
  have xP: "x < P" using E by simp
  have kd: "kinds_in cfg ws i P = False # kinds_in cfg ws (x + 1) P" using kinds_struct[OF ix xP s none] nt by simp
  have count: "count_fields n (j + 1) (kinds_in cfg ws (x + 1) P) = Some ph" using Cons.prems(3) by (simp add: kd split: if_splits)
  have pl: "placed False cfg ws (x + 1)" using start_after_struct[OF q s] s by (simp add: placed_def)
  have bg: "begins_from first cfg ws i P = field_begin cfg ws i # begins_from False cfg ws (x + 1) P"
    using begins_first[OF q f Cons.prems(1), of P] le(3) xP by (simp add: begins_from_def)
  have rs1: "k \<in> set rs \<longleftrightarrow> removed_at cfg ws k" if "field_begin cfg ws i \<le> k" "k < field_fin cfg ws x" for k
    using that le xP by (intro Cons.prems(7)) auto
  obtain m1 where m1: "spec_run c acc L p (subslice ws i (x + 1)) m = Running m1"
    "with_fields [kept rs ws (field_begin cfg ws i) (field_fin cfg ws x)] m m1"
    by (rule quoted_field[OF q f d Cons.prems(5,6) rs1])
  have m1s: "m_state m1 = FieldStart" "m_cur m1 = []" using m1(2) by (simp_all add: with_fields_def)
  have "j + 1 + length es \<le> n - 1" using Cons.prems(4) by simp
  from Cons.IH[OF pl x(3)[symmetric] count this m1s, of "p + (x + 1 - i)"] Cons.prems(7) ix obtain i' bs m' where
    i': "x + 1 \<le> i'" "length bs = length es" "placed False cfg ws i'" "ends_in cfg ws i' P = e' # rest"
    "begins_from False cfg ws (x + 1) P = bs @ begins_from False cfg ws i' P"
    "count_fields n (j + 1 + length es) (kinds_in cfg ws i' P) = Some ph" "spans_in (x + 1) (zip bs es) i'"
    "spec_run c acc L (p + (x + 1 - i)) (subslice ws (x + 1) i') m1 = Running m'"
    "with_fields (map (\<lambda>(b, e). kept rs ws b e) (zip bs es)) m1 m'"
    by auto
  have xl: "x < length ws" using d by (simp add: delim_at_def)
  have "i' \<le> length ws" using ends_in_bound[OF i'(4)] by simp
  then have "subslice ws i i' = subslice ws i (x + 1) @ subslice ws (x + 1) i'"
    using slice_append_slice[of i "x + 1" i' ws] ix i'(1) by simp
  moreover have "length (subslice ws i (x + 1)) = x + 1 - i" using xl by simp
  ultimately have "spec_run c acc L p (subslice ws i i') m = Running m'"
    using m1(1) i'(8) by (simp add: spec_run_append)
  moreover have "with_fields (map (\<lambda>(b, e). kept rs ws b e) (zip (field_begin cfg ws i # bs) (e # es))) m m'"
    using m1(2) i'(9) x(1) by (auto simp: with_fields_def)
  moreover have "spans_in (x + 1) (zip bs es) i' \<Longrightarrow> spans_in e (zip bs es) i'"
    using le(3) x(1) by (cases "zip bs es") auto
  ultimately show ?case using i' le x(1) ix bg
    by (intro exI[of _ i'] exI[of _ "field_begin cfg ws i # bs"] exI[of _ m']) simp
qed

end
