(* ===== verification/IndexRecord.thy ===== *)
theory IndexRecord
  imports IndexFields
begin

text \<open>
  A record of a dialect with a quote, told by the lists of field beginnings and field ends, and the reference
  machine's run over it.
\<close>

section \<open>The last field\<close>

lemma quoted_first:
  assumes "comment c = None" and "m_state m = RecordStart" and "\<not> terminates c b"
  shows "spec_byte c acc L p b m = spec_byte c acc L p b (opened p m)"
  using assms
  by (auto simp: opened_def spec_byte_def dfa_new_def transition_def record_start_cell_def mark_start_def copy_byte_def
      enter_def closed_fields_def field_start_cell_def split: State.split)

lemma quoted_run_first:
  assumes "comment c = None" and "m_state m = RecordStart" and "i < length ws" and "i < k" and "\<not> terminates c (ws ! i)"
  shows "spec_run c acc L p (subslice ws i k) m = spec_run c acc L p (subslice ws i k) (opened p m)"
proof -
  have "subslice ws i k = ws ! i # subslice ws (i + 1) k"
    using assms(3,4) by (simp add: subslice_def Cons_nth_drop_Suc[symmetric] take_Cons')
  then show ?thesis by (simp add: quoted_first[OF assms(1,2,5)])
qed

text \<open>Terminators that follow an unquoted one are unquoted.\<close>

lemma term_run:
  assumes q: "quoting c n cfg" and "term_at cfg ws r" and "\<forall>k. r \<le> k \<and> k \<le> b \<longrightarrow> terminates c (ws ! k)" and "b < length ws"
    and "r \<le> k" and "k \<le> b"
  shows "term_at cfg ws k"
  using assms(5,6)
proof (induction k rule: dec_induct)
  case (step k)
  then have "terminates c (ws ! Suc k)" "Suc k < length ws" "\<not> quoted_at cfg ws k" using assms(3,4) quoting_at(3)[OF q] by auto
  moreover from this have "\<not> quote_at cfg ws (Suc k)" using quoting_at(1)[OF q] quoting_sel(7)[OF q] by auto
  ultimately show ?case using quoting_at(3)[OF q] by (simp add: quoted_Suc)
qed (rule assms(2))

text \<open>Nothing begins, ends or bounds a field within a run but at its two ends.\<close>

lemma in_run:
  assumes q: "quoting c n cfg" and t: "\<And>k. r \<le> k \<Longrightarrow> k \<le> b \<Longrightarrow> term_at cfg ws k"
  shows "r \<le> k \<Longrightarrow> k < b \<Longrightarrow> \<not> struct_at cfg ws k"
    and "r < k \<Longrightarrow> k \<le> b \<Longrightarrow> \<not> end_at cfg ws k"
    and "r < k \<Longrightarrow> k \<le> b \<Longrightarrow> \<not> begin_at cfg ws k"
proof -
  have nq: "r \<le> k \<Longrightarrow> k \<le> b \<Longrightarrow> \<not> quote_at cfg ws k \<and> \<not> delim_at cfg ws k" for k
    using close_no_quote(1)[OF q, of ws k] term_not_delim[OF q t] t by (auto simp: close_at_def)
  show ns: "\<not> struct_at cfg ws k" if "r \<le> k" "k < b" for k
    using nq[of k] t[of "k + 1"] that by (simp add: struct_at_def run_end_at_def)
  show "r < k \<Longrightarrow> k \<le> b \<Longrightarrow> \<not> end_at cfg ws k"
    using nq[of k] t[of "k - 1"] by (auto simp: end_at_def closer_at_def field_close_at_def)
  show "r < k \<Longrightarrow> k \<le> b \<Longrightarrow> \<not> begin_at cfg ws k"
    using ns[of "k - 1"] nq[of "k - 1"] by (auto simp: begin_at_def opener_at_def)
qed

text \<open>The first terminator past the last field's end is where the field is closed.\<close>

lemma last_field:
  assumes q: "quoting c n cfg" and pl: "placed first cfg ws i" and ends: "ends_in cfg ws i P = e # rest"
    and count: "count_fields n (n - 1) (kinds_in cfg ws i P) = Some ph"
    and r: "e \<le> r" "r < P" "r < length ws" "terminates c (ws ! r)" "\<forall>k. e \<le> k \<and> k < r \<longrightarrow> \<not> terminates c (ws ! k)"
  shows "field_at cfg ws i r" "e = field_fin cfg ws r" "term_at cfg ws r" "ends_in cfg ws (r + 1) P = rest"
proof -
  note st = pl[unfolded placed_def]
  from ends_first[OF q conjunct1[OF st] ends] obtain x where
    x: "field_at cfg ws i x" "e = field_fin cfg ws x" "x \<le> P" "rest = ends_in cfg ws (x + 1) P" by blast
  have ix: "i \<le> x" "close_at cfg ws x" using x(1) by (auto simp: field_at_def intro: field_close_closes)
  have ex: "e = x \<or> e + 1 = x \<and> \<not> terminates c (ws ! e)"
    using x(2) quoting_at(1)[OF q] quoting_sel(7)[OF q] by (auto simp: field_fin_def closer_at_def)
  have "\<not> delim_at cfg ws x"
  proof
    assume d: "delim_at cfg ws x"
    then have nt: "\<not> terminates c (ws ! x)" using quoting_at(2)[OF q] quoting_sel(5)[OF q] by simp
    have "x < P"
    proof (rule ccontr)
      assume "\<not> x < P"
      then have "r = e" using r(1,2) x(3) ex by auto
      then show False using ex nt r(4) by auto
    qed
    moreover have "struct_at cfg ws x" using d by (simp add: struct_at_def)
    ultimately have "kinds_in cfg ws i P = term_at cfg ws x # kinds_in cfg ws (x + 1) P"
      using kinds_struct[OF ix(1)] field_no_struct[OF x(1)] by blast
    then show False using count d term_not_delim[OF q, of ws x] by (auto split: if_splits)
  qed
  then have t: "term_at cfg ws x" using ix(2) by (simp add: close_at_def)
  then have tx: "terminates c (ws ! x)" using quoting_at(3)[OF q] by simp
  have "e \<le> x" using ex by auto
  then have "r \<le> x" using r(5) tx by (metis not_le)
  moreover have "\<not> r < x" using ex r(1,4) by (metis Suc_eq_plus1 less_antisym not_le)
  ultimately have "r = x" by simp
  then show "field_at cfg ws i r" "e = field_fin cfg ws r" "term_at cfg ws r" "ends_in cfg ws (r + 1) P = rest" using x t by simp_all
qed

section \<open>The record\<close>

lemma quoted_record:
  fixes acc :: "('s, 'u) accumulator"
  assumes q: "quoting c n cfg" and pl: "placed first cfg ws i" and ends: "ends_in cfg ws i P = es @ e # rest" and n: "length es + 1 = n"
    and count: "count_fields n 0 (kinds_in cfg ws i P) = Some ph" and m: "at_record m" and first: "\<not> terminates c (ws ! i)"
    and rs: "\<And>k. i \<le> k \<Longrightarrow> k < P \<Longrightarrow> k \<in> set rs \<longleftrightarrow> removed_at cfg ws k"
    and r: "e \<le> r" "r < P" "terminates c (ws ! r)" "\<forall>k. e \<le> k \<and> k < r \<longrightarrow> \<not> terminates c (ws ! k)"
    and b: "r \<le> b" "b < length ws" "\<forall>k. r \<le> k \<and> k \<le> b \<longrightarrow> terminates c (ws ! k)"
  obtains bs more where "begins_from first cfg ws i P = bs @ more" "length bs = n" "spans_in i (zip bs (es @ [e])) r" "i \<le> r" "r \<le> e + 1"
    "(case acc (m_acc m) (map (\<lambda>(b, e). kept rs ws b e) (zip bs (es @ [e]))) of
       Inl err \<Rightarrow> spec_run c acc L p (subslice ws i (b + 1)) m = Failed (from_user err)
     | Inr s' \<Rightarrow> if L \<le> p + (b - i) then spec_run c acc L p (subslice ws i (b + 1)) m = Finished (max L (p + (r - i))) s'
         else \<exists>m'. spec_run c acc L p (subslice ws i (b + 1)) m = Running m' \<and> ended (p + (r - i)) s' m')"
    "b < P \<Longrightarrow> b + 1 < length ws \<longrightarrow> \<not> terminates c (ws ! (b + 1)) \<Longrightarrow> placed False cfg ws (b + 1) \<and>
      ends_in cfg ws (b + 1) P = rest \<and> begins_from False cfg ws (b + 1) P = more \<and> count_fields n 0 (kinds_in cfg ws (b + 1) P) = Some ph"
proof -
  have n1: "1 \<le> n" using quoting_sel(8)[OF q] .
  let ?m = "opened p m"
  have op: "m_state ?m = FieldStart" "m_cur ?m = []" using m by (simp_all add: at_record_def)
  have le: "0 + length es \<le> n - 1" using n by simp
  from quoted_fields[OF q pl ends count le op rs, of acc L p] obtain i' bs m1 where
    i': "i \<le> i'" "length bs = length es" "placed (first \<and> es = []) cfg ws i'" "ends_in cfg ws i' P = e # rest"
    "begins_from first cfg ws i P = bs @ begins_from (first \<and> es = []) cfg ws i' P"
    "count_fields n (0 + length es) (kinds_in cfg ws i' P) = Some ph" "spans_in i (zip bs es) i'"
    "spec_run c acc L p (subslice ws i i') ?m = Running m1"
    "with_fields (map (\<lambda>(b, e). kept rs ws b e) (zip bs es)) ?m m1"
    by auto
  have len: "length es = n - 1" using n by simp
  have rl: "r < length ws" using b by simp
  note lf = last_field[OF q i'(3,4) i'(6)[unfolded add_0 len] r(1,2) rl r(3,4)]
  have ir: "i' \<le> r" using lf(1) by (simp add: field_at_def)
  note fle = field_begin_le[OF q lf(1)]
  have eP: "field_fin cfg ws r < P" using lf(2) r(1,2) by simp
  let ?fb = "field_begin cfg ws i'"
  note bf = begins_first[OF q lf(1) i'(3) eP]
  define m2 where "m2 = m1\<lparr>m_cur := copied cfg ws i' r, m_state := state_at cfg ws i' r\<rparr>"
  have m1: "m_state m1 = FieldStart" "m_cur m1 = []" using i'(9) by (simp_all add: with_fields_def)
  have fa: "\<not> open_before cfg ws i'" "\<forall>k. i' \<le> k \<and> k < r \<longrightarrow> \<not> close_at cfg ws k" using lf(1) by (simp_all add: field_at_def)
  have close: "close_at cfg ws r" using lf(3) by (simp add: close_at_def)
  have run2: "spec_run c acc L (p + (i' - i)) (subslice ws i' r) m1 = Running m2"
    unfolding m2_def using quoting_field_run[OF q m1 fa(1) ir less_imp_le[OF rl] fa(2)] .
  have cut: "subslice ws i r = subslice ws i i' @ subslice ws i' r" "length (subslice ws i i') = i' - i"
    using slice_append_slice[of i i' r ws] i'(1) ir rl by simp_all
  have run: "spec_run c acc L p (subslice ws i r) ?m = Running m2"
    unfolding cut(1) spec_run_append i'(8) outcome.case cut(2) by (rule run2)
  have rs1: "k \<in> set rs \<longleftrightarrow> removed_at cfg ws k" if "?fb \<le> k" "k < field_fin cfg ws r" for k
    using that fle i'(1) r(2) by (intro rs) auto
  have kept: "kept rs ws ?fb e = copied cfg ws i' r" using kept_field[OF q lf(1) rs1] lf(2) by simp
  let ?sps = "zip (bs @ [?fb]) (es @ [e])"
  have hand: "hand_over c acc m2 = map_err from_user (acc (m_acc m) (map (\<lambda>(b, e). kept rs ws b e) ?sps))"
  proof -
    have "closed_fields c m2 = map (\<lambda>(b, e). kept rs ws b e) ?sps" "m_acc m2 = m_acc m"
      using i'(9,2) m q kept by (auto simp: closed_fields_def m2_def with_fields_def trimmed_def quoting_def at_record_def)
    moreover have "length ?sps = n" using i'(2) n by simp
    ultimately show ?thesis using q by (simp add: hand_over_def quoting_def)
  qed
  have "in_field_state (m_state m2)" unfolding m2_def using state_at_in_field[OF close_no_quote(2)[OF q close]] by simp
  from quoting_cells(6)[OF q this r(3)] have byte:
    "spec_byte c acc L (p + (r - i)) (ws ! r) m2 = enter c acc L (p + (r - i)) RecordEnd m2" .
  have ir': "i \<le> r" using i'(1) ir by simp
  have ib: "i < length ws" "i < b + 1" using ir' b(1,2) by simp_all
  have qc: "comment c = None" "m_state m = RecordStart" using q m by (simp_all add: quoting_def at_record_def)
  note closed = record_closed[OF run byte hand b(3) ir' b(1,2), folded quoted_run_first[OF qc ib first]]
  have "zip bs es @ [(?fb, e)] = ?sps" using i'(2) by simp
  moreover have "spans_in i (zip bs es @ [(?fb, e)]) r"
    using i'(7) fle lf(2) unfolding spans_in_append
    by (cases "zip bs es = []") (auto intro!: exI[of _ "snd (last (zip bs es))"] dest: spans_in_last)
  ultimately have spans: "spans_in i ?sps r" by simp
  have bg: "begins_from first cfg ws i P = (bs @ [?fb]) @ begins_in cfg ws (r + 1) P" using i'(5) bf by simp
  have after: "placed False cfg ws (b + 1) \<and> ends_in cfg ws (b + 1) P = rest \<and>
      begins_from False cfg ws (b + 1) P = begins_in cfg ws (r + 1) P \<and> count_fields n 0 (kinds_in cfg ws (b + 1) P) = Some ph"
    if bP: "b < P" and nx: "b + 1 < length ws \<longrightarrow> \<not> terminates c (ws ! (b + 1))"
  proof -
    have t: "term_at cfg ws k" if "r \<le> k" "k \<le> b" for k using term_run[OF q lf(3) b(3,2) that] .
    note ins = in_run[OF q t]
    have "struct_at cfg ws b"
      using t[OF b(1)] nx quoting_at(3)[OF q] by (auto simp: struct_at_def run_end_at_def)
    moreover have "i' \<le> b" "\<And>k. i' \<le> k \<Longrightarrow> k < b \<Longrightarrow> \<not> struct_at cfg ws k"
      using ir b(1) field_no_struct[OF lf(1)] ins(1) by (simp, metis not_le)
    ultimately have "kinds_in cfg ws i' P = True # kinds_in cfg ws (b + 1) P"
      using kinds_struct[of i' b P cfg ws] bP t[OF b(1)] by simp
    then have "count_fields n 0 (kinds_in cfg ws (b + 1) P) = Some ph" using i'(6) len by simp
    moreover have "placed False cfg ws (b + 1)"
      using start_after_struct[OF q \<open>struct_at cfg ws b\<close>] \<open>struct_at cfg ws b\<close> by (simp add: placed_def)
    moreover have "ends_in cfg ws (r + 1) P = ends_in cfg ws (b + 1) P" "begins_in cfg ws (r + 1) P = begins_in cfg ws (b + 1) P"
      unfolding ends_in_def begins_in_def using ins(2,3) b(1) by (intro filter_from; simp)+
    ultimately show ?thesis using lf(4) by (simp add: begins_from_def)
  qed
  show ?thesis
    by (rule that[OF bg _ spans ir' _ closed after]) (use i'(2) n lf(2) in \<open>simp_all add: field_fin_def\<close>)
qed

end
