(* ===== verification/Marks.thy ===== *)
theory Marks
  imports IndexFields
begin

text \<open>
  The marks of a stream depend on its bytes locally: on those up to the next one, for a prefix; and only on those from
  a position on where no quote is open.
\<close>

section \<open>A prefix\<close>

lemma at_prefix:
  assumes "k < length zs"
  shows "quote_at cfg (zs @ ys) k = quote_at cfg zs k" "quoted_at cfg (zs @ ys) k = quoted_at cfg zs k"
    "delim_at cfg (zs @ ys) k = delim_at cfg zs k" "term_at cfg (zs @ ys) k = term_at cfg zs k"
    "open_before cfg (zs @ ys) k = open_before cfg zs k"
proof -
  show q: "quote_at cfg (zs @ ys) k = quote_at cfg zs k" using assms by (simp add: quote_at_def nth_append)
  have "quote_at cfg (zs @ ys) j = quote_at cfg zs j" if "j \<le> k" for j using assms that by (simp add: quote_at_def nth_append)
  then have "{j. j \<le> i \<and> quote_at cfg (zs @ ys) j} = {j. j \<le> i \<and> quote_at cfg zs j}" if "i \<le> k" for i using that by auto
  then have qd: "quoted_at cfg (zs @ ys) i = quoted_at cfg zs i" if "i \<le> k" for i using that by (simp add: quoted_at_def)
  show "quoted_at cfg (zs @ ys) k = quoted_at cfg zs k" "open_before cfg (zs @ ys) k = open_before cfg zs k"
    using qd[of k] qd[of "k - 1"] by (simp_all add: open_before_def)
  show "delim_at cfg (zs @ ys) k = delim_at cfg zs k" "term_at cfg (zs @ ys) k = term_at cfg zs k"
    using assms qd[of k] by (simp_all add: delim_at_def term_at_def nth_append)
qed

lemma marks_prefix:
  assumes "k + 1 < length zs"
  shows "struct_at cfg (zs @ ys) k = struct_at cfg zs k" "field_close_at cfg (zs @ ys) k = field_close_at cfg zs k"
    "begin_at cfg (zs @ ys) k = begin_at cfg zs k" "end_at cfg (zs @ ys) k = end_at cfg zs k"
    "removed_at cfg (zs @ ys) k = removed_at cfg zs k"
    "opener_at cfg (zs @ ys) k = opener_at cfg zs k" "closer_at cfg (zs @ ys) k = closer_at cfg zs k"
proof -
  have s: "struct_at cfg (zs @ ys) j = struct_at cfg zs j" if "j \<le> k" for j
    using at_prefix[of j zs cfg ys] at_prefix[of "j + 1" zs cfg ys] assms that by (simp add: struct_at_def run_end_at_def)
  have f: "field_close_at cfg (zs @ ys) j = field_close_at cfg zs j" if "j \<le> k + 1" for j
    using at_prefix[of j zs cfg ys] at_prefix[of "j - 1" zs cfg ys] assms that by (simp add: field_close_at_def)
  have o: "opener_at cfg (zs @ ys) j = opener_at cfg zs j" if "j \<le> k + 1" for j
    using at_prefix[of j zs cfg ys] s[of "j - 1"] assms that by (simp add: opener_at_def)
  have b: "begin_at cfg (zs @ ys) j = begin_at cfg zs j" if "j \<le> k + 1" for j
    using at_prefix[of j zs cfg ys] s[of "j - 1"] o[of "j - 1"] assms that by (auto simp: begin_at_def)
  have c: "closer_at cfg (zs @ ys) j = closer_at cfg zs j" if "j \<le> k" for j
    using at_prefix[of j zs cfg ys] f[of "j + 1"] assms that by (simp add: closer_at_def)
  have e: "end_at cfg (zs @ ys) k = end_at cfg zs k"
    using c[of k] c[of "k - 1"] f[of k] by (simp add: end_at_def)
  show "opener_at cfg (zs @ ys) k = opener_at cfg zs k" "closer_at cfg (zs @ ys) k = closer_at cfg zs k"
    using o c by simp_all
  show "struct_at cfg (zs @ ys) k = struct_at cfg zs k" "field_close_at cfg (zs @ ys) k = field_close_at cfg zs k"
    "begin_at cfg (zs @ ys) k = begin_at cfg zs k" "end_at cfg (zs @ ys) k = end_at cfg zs k"
    using s f b e by simp_all
  show "removed_at cfg (zs @ ys) k = removed_at cfg zs k"
    using at_prefix[of k zs cfg ys] at_prefix[of "k + 1" zs cfg ys] b[of "k + 1"] e assms by (simp add: removed_at_def)
qed

lemma lists_prefix:
  assumes "b < length zs"
  shows "kinds_in cfg (zs @ ys) a b = kinds_in cfg zs a b" "ends_in cfg (zs @ ys) a b = ends_in cfg zs a b"
    "begins_in cfg (zs @ ys) a b = begins_in cfg zs a b"
    "filter (removed_at cfg (zs @ ys)) [a..<b] = filter (removed_at cfg zs) [a..<b]"
proof -
  have m: "k + 1 < length zs" "k < length zs" if "k \<in> set [a..<b]" for k using that assms by auto
  show "ends_in cfg (zs @ ys) a b = ends_in cfg zs a b" "begins_in cfg (zs @ ys) a b = begins_in cfg zs a b"
    "filter (removed_at cfg (zs @ ys)) [a..<b] = filter (removed_at cfg zs) [a..<b]"
    unfolding ends_in_def begins_in_def using marks_prefix[OF m(1)] by (auto intro!: filter_cong)
  have "structs_in cfg (zs @ ys) a b = structs_in cfg zs a b"
    unfolding structs_in_def using marks_prefix(1)[OF m(1)] by (auto intro!: filter_cong)
  then show "kinds_in cfg (zs @ ys) a b = kinds_in cfg zs a b"
    unfolding kinds_in_def using at_prefix(4)[of _ zs cfg ys] assms by (auto simp: structs_in_def)
qed

section \<open>A suffix\<close>

lemma quoted_at_drop:
  assumes "\<not> open_before cfg ws k"
  shows "quoted_at cfg (drop k ws) j = quoted_at cfg ws (k + j)"
proof -
  have "quote_at cfg (drop k ws) i = quote_at cfg ws (k + i)" for i by (auto simp: quote_at_def)
  then have "quoted_at cfg (drop k ws) j = odd (card {i. i \<le> j \<and> quote_at cfg ws (k + i)})" by (simp add: quoted_at_def)
  moreover have "\<not> (0 < k \<and> quoted_at cfg ws (k - 1))" using assms by (simp add: open_before_def)
  ultimately show ?thesis using quoted_at_vector[of cfg ws k j] by blast
qed

lemma at_drop:
  assumes "\<not> open_before cfg ws k"
  shows "delim_at cfg (drop k ws) j = delim_at cfg ws (k + j)" "term_at cfg (drop k ws) j = term_at cfg ws (k + j)"
    "struct_at cfg (drop k ws) j = struct_at cfg ws (k + j)" "close_at cfg (drop k ws) j = close_at cfg ws (k + j)"
proof -
  have at: "delim_at cfg (drop k ws) j = delim_at cfg ws (k + j)" "term_at cfg (drop k ws) j = term_at cfg ws (k + j)" for j
    using quoted_at_drop[OF assms, of j] by (auto simp: delim_at_def term_at_def)
  then show "delim_at cfg (drop k ws) j = delim_at cfg ws (k + j)" "term_at cfg (drop k ws) j = term_at cfg ws (k + j)"
    "struct_at cfg (drop k ws) j = struct_at cfg ws (k + j)" "close_at cfg (drop k ws) j = close_at cfg ws (k + j)"
    by (simp_all add: struct_at_def run_end_at_def close_at_def add.assoc)
qed

lemma kinds_in_drop:
  assumes "\<not> open_before cfg ws k"
  shows "kinds_in cfg (drop k ws) 0 b = kinds_in cfg ws k (k + b)"
proof -
  have fs: "struct_at cfg (drop k ws) = (\<lambda>j. struct_at cfg ws (k + j))" "term_at cfg (drop k ws) = (\<lambda>j. term_at cfg ws (k + j))"
    by (rule ext, rule at_drop(3)[OF assms], rule ext, rule at_drop(2)[OF assms])
  have "[k..<k + b] = map ((+) k) [0..<b]" by (rule nth_equalityI) simp_all
  then show ?thesis by (simp add: kinds_in_def structs_in_def filter_map o_def fs)
qed

end
