(* ===== verification/IndexLocate.thy ===== *)
theory IndexLocate
  imports IndexRecord Marks
begin

text \<open>
  The position and count of an arity error in a dialect with a quote: the walk of \<open>locate_bad_record\<close> goes along with
  the reference machine. What follows the scanned part may leave a quote unclosed, which the machine then reports.
\<close>

section \<open>The walk from the start of the buffer\<close>

lemma locate_loop_drop:
  assumes "locate_loop (drop k buf) n d tm q i start found iq = (s, f)" and "k \<le> length buf"
  shows "locate_loop buf n d tm q (k + i) (k + start) found iq = (k + s, f)"
  using assms
proof (induction "drop k buf" n d tm q i start found iq arbitrary: s f rule: locate_loop.induct)
  case (1 n d tm q i start found iq)
  note loop = 1(5)[unfolded locate_loop.simps[of "drop k buf" n d tm q i start found iq]]
  note goal = locate_loop.simps[of buf n d tm q "k + i" "k + start" found iq]
  show ?case
  proof (cases "i < length (drop k buf)")
    case False
    then show ?thesis using loop 1(6) unfolding goal by auto
  next
    case True
    have b: "drop k buf ! i = buf ! (k + i)" "k + i < length buf" using True by simp_all
    have dd: "drop (i + 1) (drop k buf) = drop (k + i + 1) buf" by (simp add: add.commute add.left_commute)
    consider (quote) "q = Some (buf ! (k + i))" | (delim) "q \<noteq> Some (buf ! (k + i))" "\<not> iq" "buf ! (k + i) = d"
      | (trm) "q \<noteq> Some (buf ! (k + i))" "\<not> iq" "buf ! (k + i) \<noteq> d" "tm (buf ! (k + i))"
      | (other) "q \<noteq> Some (buf ! (k + i))" "iq \<or> buf ! (k + i) \<noteq> d \<and> \<not> tm (buf ! (k + i))" by blast
    then show ?thesis
    proof cases
      case quote
      then show ?thesis using 1(1)[OF True refl, of s f] loop 1(6) True b unfolding goal by (simp add: Let_def)
    next
      case delim
      then show ?thesis using 1(2)[OF True refl, of s f] loop 1(6) True b unfolding goal by (auto simp: Let_def)
    next
      case trm
      show ?thesis
      proof (cases "found = n")
        case False
        then show ?thesis using trm loop True b unfolding goal by (auto simp: Let_def)
      next
        case fn: True
        define i' where "i' = i + 1 + length (takeWhile tm (drop (i + 1) (drop k buf)))"
        have e: "k + i + 1 + length (takeWhile tm (drop (k + i + 1) buf)) = k + i'" unfolding i'_def dd by simp
        then have e': "Suc (k + i + length (takeWhile tm (drop (Suc (k + i)) buf))) = k + i'" by simp
        have "locate_loop (drop k buf) n d tm q i' i' 1 iq = (s, f)"
          using loop True b trm fn by (simp add: Let_def i'_def)
        moreover have "\<not> (q = Some (drop k buf ! i))" "\<not> (\<not> iq \<and> drop k buf ! i = d)" "\<not> iq \<and> tm (drop k buf ! i)"
          using trm b by simp_all
        ultimately have "locate_loop buf n d tm q (k + i') (k + i') 1 iq = (k + s, f)"
          using 1(3)[OF True refl _ _ _ _ i'_def] fn 1(6) by blast
        then show ?thesis using True b trm fn unfolding goal by (simp add: Let_def e')
      qed
    next
      case other
      then show ?thesis using 1(4)[OF True refl, of s f] loop 1(6) True b unfolding goal by (auto simp: Let_def)
    qed
  qed
qed

lemma locate_loop_start:
  "locate_loop buf n d tm q i start found iq = (s, f) \<Longrightarrow> start \<le> i \<Longrightarrow> i \<le> length buf \<Longrightarrow> s \<le> length buf"
proof (induction buf n d tm q i start found iq rule: locate_loop.induct)
  case (1 buf n d tm q i start found iq)
  note loop = 1(5)[unfolded locate_loop.simps[of buf n d tm q i start found iq]]
  show ?case
  proof (cases "i < length buf")
    case False
    then show ?thesis using loop 1(6,7) by simp
  next
    case True
    have run: "i + 1 + length (takeWhile tm (drop (i + 1) buf)) \<le> length buf"
      using length_takeWhile_le[of tm "drop (i + 1) buf"] True by simp
    have lt: "start \<le> i + 1" "i + 1 \<le> length buf" using True 1(6) by simp_all
    consider (quote) "q = Some (buf ! i)" | (delim) "q \<noteq> Some (buf ! i)" "\<not> iq \<and> buf ! i = d"
      | (trm) "q \<noteq> Some (buf ! i)" "\<not> (\<not> iq \<and> buf ! i = d)" "\<not> iq \<and> tm (buf ! i)"
      | (other) "q \<noteq> Some (buf ! i)" "\<not> (\<not> iq \<and> buf ! i = d)" "\<not> (\<not> iq \<and> tm (buf ! i))" by blast
    then show ?thesis
    proof cases
      case quote
      then show ?thesis using 1(1)[OF True refl quote _ lt] loop True by (simp add: Let_def)
    next
      case delim
      then show ?thesis using 1(2)[OF True refl delim _ lt] loop True by (simp add: Let_def)
    next
      case trm
      show ?thesis
      proof (cases "found = n")
        case False
        then show ?thesis using loop trm True 1(6) by (auto simp: Let_def)
      next
        case fn: True
        have "\<not> found \<noteq> n" using fn by simp
        then show ?thesis using 1(3)[OF True refl trm _ refl _ le_refl run] loop trm True fn by (simp add: Let_def)
      qed
    next
      case other
      then show ?thesis using 1(4)[OF True refl other _ lt] loop True by (auto simp: Let_def)
    qed
  qed
qed

section \<open>The walk and the machine\<close>

definition in_rec :: "'s machine \<Rightarrow> bool" where
  "in_rec m \<longleftrightarrow> in_field_state (m_state m) \<or> m_state m = InQuotedField"

definition walks :: "nat \<Rightarrow> nat \<Rightarrow> nat \<Rightarrow> nat \<Rightarrow> bool \<Rightarrow> 's machine \<Rightarrow> bool" where
  "walks tot i start found iq m \<longleftrightarrow> at_record m \<and> found = 1 \<and> start = i \<and> \<not> iq \<or>
     in_rec m \<and> (m_state m = InQuotedField \<longleftrightarrow> iq) \<and> length (m_fields m) + 1 = found \<and> m_rec_start m = tot + start \<and>
       tot + start \<le> m_fld_start m"

text \<open>A byte that is no terminator between records opens a record; the rest of it is as within one.\<close>

lemma walks_first:
  fixes m :: "'s machine"
  assumes q: "quoting c n cfg" and "walks tot i start found iq m" and "at_record m \<longrightarrow> \<not> terminates c b" and "start \<le> i"
  obtains m1 :: "'s machine" where "in_rec m1" "m_state m1 = InQuotedField \<longleftrightarrow> iq" "length (m_fields m1) + 1 = found"
    "m_rec_start m1 = tot + start" "tot + start \<le> m_fld_start m1"
    "\<And>acc L. (spec_byte c acc L (tot + i) b m :: ('s, 'u) outcome) = spec_byte c acc L (tot + i) b m1"
proof (cases "at_record m")
  case True
  then have st: "m_state m = RecordStart" "\<not> terminates c b" using assms(3) by (auto simp: at_record_def)
  have qc: "comment c = None" using q by (simp add: quoting_def)
  have "start = i" "found = 1" "\<not> iq" using True assms(2) by (auto simp: walks_def at_record_def in_rec_def)
  moreover have "m_fld_start (opened (tot + i) m) = tot + i" by (simp add: opened_def)
  moreover have "(spec_byte c acc L (tot + i) b m :: ('s, 'u) outcome) = spec_byte c acc L (tot + i) b (opened (tot + i) m)" for acc L
    by (rule quoted_first[OF qc st])
  ultimately show ?thesis using that[of "opened (tot + i) m"] True
    by (simp add: at_record_def in_rec_def)
next
  case False
  with assms(2) show ?thesis using that[of m] by (auto simp: walks_def)
qed

lemma kinds_in_Cons:
  assumes "i < b"
  shows "kinds_in cfg ws i b = (if struct_at cfg ws i then [term_at cfg ws i] else []) @ kinds_in cfg ws (i + 1) b"
  using filter_at[OF assms, of "struct_at cfg ws"] by (simp add: kinds_in_def structs_in_def)

text \<open>One byte that ends no record.\<close>

lemma walks_byte:
  fixes m1 :: "'s machine"
  assumes q: "quoting c n cfg" and m1: "in_rec m1" "m_state m1 = InQuotedField \<longleftrightarrow> iq" "length (m_fields m1) + 1 = found"
    "m_rec_start m1 = tot + start" "tot + start \<le> m_fld_start m1" and "start \<le> i" and "iq \<or> \<not> terminates c b"
  defines "d \<equiv> \<not> iq \<and> b = delimiter c"
  shows "\<exists>m2. (spec_byte c acc L (tot + i) b m1 :: ('s, 'u) outcome) = Running m2 \<and>
    walks tot (i + 1) start (if d then found + 1 else found) (if quote c = Some b then \<not> iq else iq) m2 \<and> in_rec m2"
proof -
  have qd: "quote c = Some b \<Longrightarrow> b \<noteq> delimiter c" using quoting_sel(6)[OF q] by auto
  consider (quote) "quote c = Some b" "iq" | (open_q) "quote c = Some b" "\<not> iq" | (quoted) "quote c \<noteq> Some b" "iq"
    | (delim) "quote c \<noteq> Some b" "\<not> iq" "b = delimiter c" | (content) "quote c \<noteq> Some b" "\<not> iq" "b \<noteq> delimiter c" "content c b"
    using assms(8) by (auto simp: content_def)
  then show ?thesis
  proof cases
    case quote
    have "(spec_byte c acc L (tot + i) b m1 :: ('s, 'u) outcome) = Running (m1\<lparr>m_state := AfterClosingQuote\<rparr>)"
      using quote m1(2) by (intro quoting_cells(2)[OF q]) simp_all
    then show ?thesis using quote m1 qd by (auto simp: walks_def in_rec_def d_def)
  next
    case open_q
    then have "in_field_state (m_state m1)" using m1 by (auto simp: in_rec_def)
    then have "(spec_byte c acc L (tot + i) b m1 :: ('s, 'u) outcome) = Running (m1\<lparr>
      m_cur := (if m_state m1 = AfterClosingQuote \<and> doubled_quotes c then m_cur m1 @ [b] else m_cur m1), m_state := InQuotedField\<rparr>)"
      using open_q by (intro quoting_cells(1)[OF q])
    then show ?thesis using open_q m1 qd by (auto simp: walks_def in_rec_def d_def)
  next
    case quoted
    have "(spec_byte c acc L (tot + i) b m1 :: ('s, 'u) outcome) = Running (m1\<lparr>m_cur := m_cur m1 @ [b], m_state := InQuotedField\<rparr>)"
      using quoted m1(2) by (intro quoting_cells(3)[OF q]) simp_all
    then show ?thesis using quoted m1 by (auto simp: walks_def in_rec_def d_def)
  next
    case delim
    then have "in_field_state (m_state m1)" using m1 by (auto simp: in_rec_def)
    then have "(spec_byte c acc L (tot + i) b m1 :: ('s, 'u) outcome) =
        Running (m1\<lparr>m_fields := m_fields m1 @ [m_cur m1], m_cur := [], m_fld_start := tot + i + 1, m_state := FieldStart\<rparr>)"
      using delim by (intro quoting_cells(5)[OF q])
    then show ?thesis using delim m1 assms(7) by (auto simp: walks_def in_rec_def d_def)
  next
    case content
    then have "in_field_state (m_state m1)" using m1 by (auto simp: in_rec_def)
    then have "(spec_byte c acc L (tot + i) b m1 :: ('s, 'u) outcome) = Running (m1\<lparr>m_cur := m_cur m1 @ [b], m_state := InField\<rparr>)"
      using content by (intro quoting_cells(4)[OF q])
    then show ?thesis using content m1 by (auto simp: walks_def in_rec_def d_def)
  qed
qed

lemma n_pos: "quoting c n cfg \<Longrightarrow> 0 < n"
  by (simp add: quoting_def)

text \<open>The bytes of a run, as the walk skips them.\<close>

lemma takeWhile_run:
  fixes zs :: "byte list" and P :: "byte \<Rightarrow> bool"
  assumes "i \<le> length zs"
  defines "j \<equiv> i + length (takeWhile P (drop i zs))"
  shows "j \<le> length zs" "\<And>k. i \<le> k \<Longrightarrow> k < j \<Longrightarrow> P (zs ! k)" "j < length zs \<Longrightarrow> \<not> P (zs ! j)" "take (j - i) (drop i zs) = takeWhile P (drop i zs)"
proof -
  let ?t = "takeWhile P (drop i zs)"
  have len: "length ?t \<le> length zs - i" using length_takeWhile_le[of P "drop i zs"] by simp
  then show "j \<le> length zs" using assms(1) by (simp add: j_def)
  show "P (zs ! k)" if "i \<le> k" "k < j" for k
  proof -
    have k: "k - i < length ?t" using that by (simp add: j_def less_diff_conv2)
    from takeWhile_nth[OF k] nth_mem[OF k] have "P (drop i zs ! (k - i))" by (metis set_takeWhileD)
    then show ?thesis using that(1) assms(1) by simp
  qed
  show "j < length zs \<Longrightarrow> \<not> P (zs ! j)"
    using nth_length_takeWhile[of P "drop i zs"] assms(1) by (simp add: j_def less_diff_conv2 add.commute)
  show "take (j - i) (drop i zs) = ?t" by (simp add: j_def flip: takeWhile_eq_take)
qed

lemma quoted_locate_sim:
  fixes m :: "'s machine"
  assumes q: "quoting c n cfg" and "walks tot i start found (open_before cfg zs i) m" and "start \<le> i" and "i \<le> length zs"
    and "i < length zs \<and> at_record m \<longrightarrow> \<not> terminates c (zs ! i)" and L: "tot + length zs \<le> L"
    and "locate_loop zs n (delimiter c) (terminates c) (quote c) i start found (open_before cfg zs i) = (start', found')"
  shows "(spec_run c accept_all L (tot + i) (drop i zs) m :: ('s, 'u) outcome) = Failed (NumberOfFields n found' (at_byte (tot + start'))) \<and>
      count_fields n (found - 1) (kinds_in cfg zs i (length zs)) = None \<or>
    (\<exists>m'. (spec_run c accept_all L (tot + i) (drop i zs) m :: ('s, 'u) outcome) = Running m' \<and>
       walks tot (length zs) start' found' (open_before cfg zs (length zs)) m' \<and> (i < length zs \<and> \<not> terminates c (last zs) \<longrightarrow> in_rec m') \<and>
       (n < found \<longrightarrow> n < found') \<and>
       (found \<le> n \<and> found' \<le> n \<longrightarrow> count_fields n (found - 1) (kinds_in cfg zs i (length zs)) = Some (found' - 1)))"
  using assms(2-5,7)
proof (induction "length zs - i" arbitrary: i start found m rule: less_induct)
  case less
  let ?iq = "open_before cfg zs i"
  note loop = less.prems(5)[unfolded locate_loop.simps[of zs n "delimiter c" "terminates c" "quote c" i start found ?iq]]
  have found1: "1 \<le> found" using less.prems(1) by (auto simp: walks_def)
  show ?case
  proof (cases "i < length zs")
    case False
    then have i: "i = length zs" "start' = start" "found' = found" using loop less.prems(3) by simp_all
    have "kinds_in cfg zs (length zs) (length zs) = []" by (simp add: kinds_in_def structs_in_def)
    then show ?thesis using less.prems(1) found1 by (auto simp: i)
  next
    case True
    let ?b = "zs ! i"
    have sb: "at_record m \<longrightarrow> \<not> terminates c ?b" using less.prems(4) True by simp
    obtain m1 where m1: "in_rec m1" "m_state m1 = InQuotedField \<longleftrightarrow> ?iq" "length (m_fields m1) + 1 = found"
      "m_rec_start m1 = tot + start" "tot + start \<le> m_fld_start m1"
      "\<And>acc L. (spec_byte c acc L (tot + i) ?b m :: ('s, 'u) outcome) = spec_byte c acc L (tot + i) ?b m1"
      by (rule walks_first[OF q less.prems(1) sb less.prems(2)]) blast
    have head: "drop i zs = ?b # drop (i + 1) zs" using True by (simp add: Cons_nth_drop_Suc)
    have run: "(spec_run c accept_all L (tot + i) (drop i zs) m :: ('s, 'u) outcome) =
        (case spec_byte c accept_all L (tot + i) ?b m1 of Running m2 \<Rightarrow> spec_run c accept_all L (tot + (i + 1)) (drop (i + 1) zs) m2
         | out \<Rightarrow> out)"
      unfolding head by (simp add: m1(6) split: outcome.split)
    have qb: "quote_at cfg zs i \<longleftrightarrow> quote c = Some ?b" using quoting_at(1)[OF q] True by simp
    have qd: "quote c = Some ?b \<Longrightarrow> ?b \<noteq> delimiter c \<and> \<not> terminates c ?b" using quoting_sel(6,7)[OF q] by auto
    have dt: "?b = delimiter c \<Longrightarrow> \<not> terminates c ?b" using quoting_sel(5)[OF q] by auto
    have at: "quoted_at cfg zs i \<longleftrightarrow> ?iq \<noteq> (quote c = Some ?b)" by (simp add: quoted_at_open qb)
    show ?thesis
    proof (cases "\<not> ?iq \<and> terminates c ?b")
      case False
      define d where "d \<longleftrightarrow> \<not> ?iq \<and> ?b = delimiter c"
      let ?found = "if d then found + 1 else found"
      have oq: "open_before cfg zs (i + 1) = (if quote c = Some ?b then \<not> ?iq else ?iq)" using at by simp
      have "?iq \<or> \<not> terminates c ?b" using False by blast
      from walks_byte[OF q m1(1-5) less.prems(2) this, where L = L and 'u = 'u, folded d_def] obtain m2 where
        m2: "(spec_byte c accept_all L (tot + i) ?b m1 :: ('s, 'u) outcome) = Running m2"
        "walks tot (i + 1) start ?found (open_before cfg zs (i + 1)) m2" "in_rec m2"
        unfolding oq by blast
      have go: "locate_loop zs n (delimiter c) (terminates c) (quote c) (i + 1) start ?found (open_before cfg zs (i + 1)) = (start', found')"
        using loop True False qd unfolding oq d_def by (auto simp: Let_def split: if_splits)
      have struct: "struct_at cfg zs i \<longleftrightarrow> d" "d \<Longrightarrow> \<not> term_at cfg zs i"
        using quoting_at(2,3)[OF q, of zs i] True at False qd dt by (auto simp: struct_at_def run_end_at_def d_def)
      have kd: "kinds_in cfg zs i (length zs) = (if d then [False] else []) @ kinds_in cfg zs (i + 1) (length zs)"
        using kinds_in_Cons[OF True] struct by simp
      have "\<not> at_record m2" using m2(3) by (auto simp: in_rec_def at_record_def)
      then have pre: "length zs - (i + 1) < length zs - i" "start \<le> i + 1" "i + 1 \<le> length zs"
        "i + 1 < length zs \<and> at_record m2 \<longrightarrow> \<not> terminates c (zs ! (i + 1))" using True less.prems(2) by auto
      have run': "(spec_run c accept_all L (tot + i) (drop i zs) m :: ('s, 'u) outcome) = spec_run c accept_all L (tot + (i + 1)) (drop (i + 1) zs) m2"
        unfolding run m2(1) by simp
      have counted: "count_fields n (found - 1) (kinds_in cfg zs i (length zs)) = Some (found' - 1)"
        if "?found \<le> n \<and> found' \<le> n \<longrightarrow> count_fields n (?found - 1) (kinds_in cfg zs (i + 1) (length zs)) = Some (found' - 1)"
          "n < ?found \<longrightarrow> n < found'" "found \<le> n" "found' \<le> n"
        using that found1 by (auto simp: kd split: if_splits)
      from less.hyps[OF pre(1) m2(2) pre(2-4) go] show ?thesis
      proof (elim disjE exE conjE)
        fix m' assume r: "(spec_run c accept_all L (tot + (i + 1)) (drop (i + 1) zs) m2 :: ('s, 'u) outcome) = Running m'"
          "walks tot (length zs) start' found' (open_before cfg zs (length zs)) m'"
          "i + 1 < length zs \<and> \<not> terminates c (last zs) \<longrightarrow> in_rec m'" "n < ?found \<longrightarrow> n < found'"
          "?found \<le> n \<and> found' \<le> n \<longrightarrow> count_fields n (?found - 1) (kinds_in cfg zs (i + 1) (length zs)) = Some (found' - 1)"
        have "in_rec m'" if "\<not> terminates c (last zs)"
        proof (cases "i + 1 < length zs")
          case False
          then have "drop (i + 1) zs = []" by simp
          then show ?thesis using r(1) m2(3) by simp
        qed (use r(3) that in blast)
        then show ?thesis unfolding run' using r counted by auto
      next
        assume r: "(spec_run c accept_all L (tot + (i + 1)) (drop (i + 1) zs) m2 :: ('s, 'u) outcome) =
            Failed (NumberOfFields n found' (at_byte (tot + start')))"
          "count_fields n (?found - 1) (kinds_in cfg zs (i + 1) (length zs)) = None"
        then have "count_fields n (found - 1) (kinds_in cfg zs i (length zs)) = None" using found1 by (auto simp: kd split: if_splits)
        then show ?thesis unfolding run' using r(1) by simp
      qed
    next
      case True': True
      then have nq: "quote c \<noteq> Some ?b" "?b \<noteq> delimiter c" using qd dt by blast+
      have fs: "in_field_state (m_state m1)" using m1(1,2) True' by (auto simp: in_rec_def)
      have byte: "(spec_byte c accept_all L (tot + i) ?b m1 :: ('s, 'u) outcome) = enter c accept_all L (tot + i) RecordEnd m1"
        using True' by (intro quoting_cells(6)[OF q fs]) simp
      have fc: "field_count c = Some n" "\<not> trim c" using q by (simp_all add: quoting_def)
      have hand: "hand_over c accept_all m1 = (if found \<noteq> n then Inl (NumberOfFields n found (at_byte (tot + start))) else Inr (m_acc m1) :: 'u Error + 's)"
        using m1(3,4) fc by (auto simp: hand_over_def closed_fields_def accept_all_def Let_def)
      define j where "j = i + 1 + length (takeWhile (terminates c) (drop (i + 1) zs))"
      have i1: "i + 1 \<le> length zs" using True by simp
      note tw = takeWhile_run[OF i1, where P = "terminates c", folded j_def]
      have ij: "i + 1 \<le> j" by (simp add: j_def)
      have ti: "term_at cfg zs i" using quoting_at(3)[OF q] True True' at nq by simp
      have terms: "\<forall>k. i \<le> k \<and> k \<le> j - 1 \<longrightarrow> terminates c (zs ! k)"
      proof (intro allI impI)
        fix k assume "i \<le> k \<and> k \<le> j - 1"
        then show "terminates c (zs ! k)" using tw(2)[of k] True' ij by (cases "k = i") auto
      qed
      have jl: "j - 1 < length zs" using tw(1) ij by simp
      have t: "term_at cfg zs k" if "i \<le> k" "k \<le> j - 1" for k by (rule term_run[OF q ti terms jl that])
      have tj: "term_at cfg zs (j - 1)" using ij by (intro t) simp_all
      have "struct_at cfg zs (j - 1)" using tj tw(3) quoting_at(3)[OF q, of zs j] ij by (auto simp: struct_at_def run_end_at_def)
      moreover have "i \<le> j - 1" "\<And>k. i \<le> k \<Longrightarrow> k < j - 1 \<Longrightarrow> \<not> struct_at cfg zs k" using ij in_run(1)[OF q t] by auto
      ultimately have kd: "kinds_in cfg zs i (length zs) = True # kinds_in cfg zs j (length zs)"
        using kinds_struct[of i "j - 1" "length zs" cfg zs] jl tj ij by simp
      show ?thesis
      proof (cases "found = n")
        case False
        then have "start' = start" "found' = found" using loop True True' nq by (auto simp: Let_def)
        moreover have "count_fields n (found - 1) (kinds_in cfg zs i (length zs)) = None"
          unfolding kd using False found1 n_pos[OF q] by auto
        ultimately show ?thesis using False unfolding run byte by (simp add: enter_def hand)
      next
        case fn: True
        have go0: "locate_loop zs n (delimiter c) (terminates c) (quote c) j j 1 ?iq = (start', found')"
          using loop True True' nq fn by (simp add: Let_def j_def)
        have oj: "open_before cfg zs j = False" using tj quoting_at(3)[OF q, of zs "j - 1"] by (simp add: open_before_def)
        have go: "locate_loop zs n (delimiter c) (terminates c) (quote c) j j 1 (open_before cfg zs j) = (start', found')"
          using go0 True' oj by simp
        define m2 where "m2 = m1\<lparr>m_fields := [], m_cur := [], m_fld_start := tot + i + 1, m_last_end := Some (tot + i), m_state := RecordStart\<rparr>"
        have m2: "at_record m2" "m_state m2 = RecordStart" by (simp_all add: m2_def at_record_def)
        have "\<not> L \<le> tot + i" using L True by simp
        then have e2: "(spec_byte c accept_all L (tot + i) ?b m1 :: ('s, 'u) outcome) = Running m2"
          unfolding byte using fn by (simp add: enter_def hand m2_def)
        let ?t = "takeWhile (terminates c) (drop (i + 1) zs)"
        have split: "drop (i + 1) zs = ?t @ drop j zs"
          using append_take_drop_id[of "j - (i + 1)" "drop (i + 1) zs"] tw(4) ij by simp
        have skip: "(spec_run c accept_all L (tot + (i + 1)) ?t m2 :: ('s, 'u) outcome) = Running m2"
        proof -
          have "\<forall>b\<in>set (takeWhile (terminates c) (drop (i + 1) zs)). terminates c b" by (auto dest: set_takeWhileD)
          moreover have "length (takeWhile (terminates c) (drop (i + 1) zs)) = j - (i + 1)" by (simp add: j_def)
          moreover from this have "\<not> L < tot + (i + 1) + length (takeWhile (terminates c) (drop (i + 1) zs))" using L tw(1) ij by linarith
          ultimately show ?thesis by (subst spec_run_terminators[OF m2(2)]) simp_all
        qed
        have len: "tot + (i + 1) + length ?t = tot + j" by (simp add: j_def)
        have "(spec_run c accept_all L (tot + (i + 1)) (?t @ drop j zs) m2 :: ('s, 'u) outcome) = spec_run c accept_all L (tot + j) (drop j zs) m2"
          unfolding spec_run_append skip outcome.case len ..
        then have "(spec_run c accept_all L (tot + (i + 1)) (drop (i + 1) zs) m2 :: ('s, 'u) outcome) = spec_run c accept_all L (tot + j) (drop j zs) m2"
          unfolding split[symmetric] .
        then have run': "(spec_run c accept_all L (tot + i) (drop i zs) m :: ('s, 'u) outcome) = spec_run c accept_all L (tot + j) (drop j zs) m2"
          unfolding run e2 by simp
        have wj: "walks tot j j 1 (open_before cfg zs j) m2" using m2(1) oj by (simp add: walks_def)
        have pre: "length zs - j < length zs - i" "j < length zs \<and> at_record m2 \<longrightarrow> \<not> terminates c (zs ! j)"
          using True ij tw(1,3) by auto
        have lastz: "terminates c (last zs)" if "j = length zs"
        proof -
          have "zs \<noteq> []" using True by auto
          then have "last zs = zs ! (j - 1)" using that by (simp add: last_conv_nth)
          then show ?thesis using terms ij by simp
        qed
        from less.hyps[OF pre(1) wj le_refl tw(1) pre(2) go] show ?thesis
        proof (elim disjE exE conjE)
          fix m' assume r: "(spec_run c accept_all L (tot + j) (drop j zs) m2 :: ('s, 'u) outcome) = Running m'"
            "walks tot (length zs) start' found' (open_before cfg zs (length zs)) m'"
            "j < length zs \<and> \<not> terminates c (last zs) \<longrightarrow> in_rec m'"
            "1 \<le> n \<and> found' \<le> n \<longrightarrow> count_fields n (1 - 1) (kinds_in cfg zs j (length zs)) = Some (found' - 1)"
          have "in_rec m'" if "\<not> terminates c (last zs)" using r(3) lastz that tw(1) by (metis le_neq_implies_less)
          moreover have "count_fields n (found - 1) (kinds_in cfg zs i (length zs)) = Some (found' - 1)" if "found' \<le> n"
            using r(4) that n_pos[OF q] fn by (simp add: kd)
          ultimately show ?thesis unfolding run' using r(1,2) fn by auto
        next
          assume "(spec_run c accept_all L (tot + j) (drop j zs) m2 :: ('s, 'u) outcome) = Failed (NumberOfFields n found' (at_byte (tot + start')))"
            "count_fields n (1 - 1) (kinds_in cfg zs j (length zs)) = None"
          then show ?thesis unfolding run' kd using fn n_pos[OF q] by simp
        qed
      qed
    qed
  qed
qed

section \<open>The error\<close>

lemma quoted_too_many:
  fixes m :: "'s machine"
  assumes q: "quoting c n cfg" and "in_rec m" and "n < length (m_fields m) + 1" and "m_rec_start m \<le> p" and "m_rec_start m \<le> m_fld_start m"
    and "p + length xs \<le> L"
  shows "(\<exists>f. length (m_fields m) + 1 \<le> f \<and>
      spec_rest c accept_all L p xs m = (Inl (NumberOfFields n f (at_byte (m_rec_start m))) :: 'u Error + nat option \<times> 's)) \<or>
    (\<exists>k. m_rec_start m \<le> k \<and> spec_rest c accept_all L p xs m = (Inl (UnclosedQuote (at_byte k)) :: 'u Error + nat option \<times> 's))"
  using assms(2-)
proof (induction xs arbitrary: p m)
  case Nil
  have fc: "field_count c = Some n" using q by (simp add: quoting_def)
  show ?case
  proof (cases "m_state m = InQuotedField")
    case True
    then show ?thesis using Nil by (auto simp: spec_finish_def)
  next
    case False
    then have "in_field_state (m_state m)" using Nil by (auto simp: in_rec_def)
    moreover have "hand_over c accept_all m = (Inl (NumberOfFields n (length (m_fields m) + 1) (at_byte (m_rec_start m))) :: 'u Error + 's)"
      using Nil fc by (simp add: hand_over_def closed_fields_def)
    ultimately show ?thesis by (auto simp: spec_finish_def)
  qed
next
  case (Cons b bs)
  have fc: "field_count c = Some n" using q by (simp add: quoting_def)
  show ?case
  proof (cases "m_state m \<noteq> InQuotedField \<and> terminates c b")
    case True
    then have fs: "in_field_state (m_state m)" using Cons.prems by (auto simp: in_rec_def)
    have "hand_over c accept_all m = (Inl (NumberOfFields n (length (m_fields m) + 1) (at_byte (m_rec_start m))) :: 'u Error + 's)"
      using Cons.prems fc by (simp add: hand_over_def closed_fields_def)
    then have "(spec_byte c accept_all L p b m :: ('s, 'u) outcome) = Failed (NumberOfFields n (length (m_fields m) + 1) (at_byte (m_rec_start m)))"
      using True by (subst quoting_cells(6)[OF q fs]) (simp_all add: enter_def)
    then show ?thesis by (auto simp: spec_rest_def)
  next
    case False
    have "m_state m = InQuotedField \<or> \<not> terminates c b" using False by blast
    moreover have "m_rec_start m = 0 + m_rec_start m" "0 + m_rec_start m \<le> m_fld_start m" using Cons.prems(4) by simp_all
    ultimately obtain m2 where m2: "(spec_byte c accept_all L (0 + p) b m :: ('s, 'u) outcome) = Running m2"
      "walks 0 (p + 1) (m_rec_start m) (if m_state m \<noteq> InQuotedField \<and> b = delimiter c then length (m_fields m) + 1 + 1 else length (m_fields m) + 1)
        (if quote c = Some b then \<not> m_state m = InQuotedField else m_state m = InQuotedField) m2" "in_rec m2"
      using walks_byte[OF q Cons.prems(1) refl refl _ _ Cons.prems(3), where 'u = 'u] by blast
    have w: "length (m_fields m) + 1 \<le> length (m_fields m2) + 1" "m_rec_start m2 = m_rec_start m" "m_rec_start m \<le> m_fld_start m2"
      using m2(2,3) by (auto simp: walks_def at_record_def in_rec_def split: if_splits)
    have rest: "(spec_rest c accept_all L p (b # bs) m :: 'u Error + nat option \<times> 's) = spec_rest c accept_all L (p + 1) bs m2"
      using m2(1) by (simp add: spec_rest_def split: outcome.split)
    have "n < length (m_fields m2) + 1" "m_rec_start m2 \<le> p + 1" "m_rec_start m2 \<le> m_fld_start m2" "p + 1 + length bs \<le> L"
      using w Cons.prems by simp_all
    from Cons.IH[OF m2(3) this, unfolded w(2)] show ?thesis unfolding rest
    proof (elim disjE exE conjE)
      fix f assume "length (m_fields m2) + 1 \<le> f"
        "(spec_rest c accept_all L (p + 1) bs m2 :: 'u Error + nat option \<times> 's) = Inl (NumberOfFields n f (at_byte (m_rec_start m)))"
      then show "(\<exists>f. length (m_fields m) + 1 \<le> f \<and>
          spec_rest c accept_all L (p + 1) bs m2 = (Inl (NumberOfFields n f (at_byte (m_rec_start m))) :: 'u Error + nat option \<times> 's)) \<or>
        (\<exists>k. m_rec_start m \<le> k \<and> spec_rest c accept_all L (p + 1) bs m2 = (Inl (UnclosedQuote (at_byte k)) :: 'u Error + nat option \<times> 's))"
        using w(1) by (intro disjI1 exI[of _ f]) simp
    qed blast
  qed
qed

text \<open>A boundary of the wrong kind among those scanned, whatever follows.\<close>

lemma quoted_error_scanned:
  fixes m :: "'s machine" and err :: "'u Error"
  assumes q: "quoting c n cfg" and at: "at_record m" and first: "zs \<noteq> [] \<longrightarrow> \<not> terminates c (zs ! 0)"
    and none: "count_fields n 0 (kinds_in cfg zs 0 (length zs)) = None"
    and loop: "locate_loop zs n (delimiter c) (terminates c) (quote c) 0 0 1 False = (start, found)"
  shows "error_ahead c p (zs @ ys) m (NumberOfFields n found (at_byte (p + start)) :: 'u Error)"
proof -
  let ?L = "p + length (zs @ ys)"
  have w: "walks p 0 0 1 (open_before cfg zs 0) m" using at by (simp add: walks_def open_before_def)
  have L: "p + length zs \<le> ?L" by simp
  have fst: "0 < length zs \<and> at_record m \<longrightarrow> \<not> terminates c (zs ! 0)" using first by simp
  have loop': "locate_loop zs n (delimiter c) (terminates c) (quote c) 0 0 1 (open_before cfg zs 0) = (start, found)"
    using loop by (simp add: open_before_def)
  show ?thesis
    using quoted_locate_sim[OF q w le_refl le0 fst L loop', where 'u = 'u]
  proof (elim disjE exE conjE)
    assume "(spec_run c accept_all ?L (p + 0) (drop 0 zs) m :: ('s, 'u) outcome) = Failed (NumberOfFields n found (at_byte (p + start)))"
    then show ?thesis by (auto simp: error_ahead_def arity_ahead_def spec_rest_def spec_run_append)
  next
    fix m'
    assume run: "(spec_run c accept_all ?L (p + 0) (drop 0 zs) m :: ('s, 'u) outcome) = Running m'"
      and w': "walks p (length zs) start found (open_before cfg zs (length zs)) m'"
      and cf: "1 \<le> n \<and> found \<le> n \<longrightarrow> count_fields n (1 - 1) (kinds_in cfg zs 0 (length zs)) = Some (found - 1)"
    have n: "0 < n" by (rule n_pos[OF q])
    have "n < found" using cf none n by fastforce
    then have m': "in_rec m'" "length (m_fields m') + 1 = found" "m_rec_start m' = p + start" "p + start \<le> m_fld_start m'"
      using w' n by (auto simp: walks_def)
    have le: "m_rec_start m' \<le> p + length zs" using locate_loop_start[OF loop] by (simp add: m'(3))
    have many: "n < length (m_fields m') + 1" "m_rec_start m' \<le> m_fld_start m'" "p + length zs + length ys \<le> ?L"
      using m'(2-4) \<open>n < found\<close> by simp_all
    have rest: "(spec_rest c accept_all ?L p (zs @ ys) m :: 'u Error + nat option \<times> 's) = spec_rest c accept_all ?L (p + length zs) ys m'"
      using spec_rest_append[of c accept_all ?L p zs m m' ys] run by simp
    from quoted_too_many[OF q m'(1) many(1) le many(2,3), where 'u = 'u] show ?thesis
      unfolding error_ahead_def arity_ahead_def rest[symmetric] m'(2,3) by auto
  qed
qed

text \<open>An error found while scanning: a boundary of the wrong kind, with another scanned byte behind it.\<close>

lemma quoted_error_ahead:
  fixes m :: "'s machine" and err :: "'u Error"
  assumes q: "quoting c n cfg" and at: "at_record m" and first: "zs \<noteq> [] \<longrightarrow> \<not> terminates c (zs ! 0)"
    and none: "count_fields n 0 (kinds_in cfg (zs @ ys) 0 k) = None" and "k < length zs"
    and loop: "locate_loop zs n (delimiter c) (terminates c) (quote c) 0 0 1 False = (start, found)"
  shows "error_ahead c p (zs @ ys) m (NumberOfFields n found (at_byte (p + start)) :: 'u Error)"
proof -
  have "kinds_in cfg zs 0 k = kinds_in cfg (zs @ ys) 0 k" using lists_prefix(1)[OF assms(5)] by simp
  moreover have "[0..<length zs] = [0..<k] @ [k..<length zs]" using assms(5) upt_add_eq_append[of 0 k "length zs - k"] by simp
  ultimately have "count_fields n 0 (kinds_in cfg zs 0 (length zs)) = None"
    using none by (simp add: kinds_in_def structs_in_def count_fields_append)
  from quoted_error_scanned[OF q at first this loop] show ?thesis .
qed

section \<open>Where the open field starts\<close>

text \<open>The last boundary before the end, with nothing behind it that closes a field.\<close>

definition open_field :: "ScannerConfig \<Rightarrow> byte list \<Rightarrow> nat \<Rightarrow> bool" where
  "open_field cfg zs f \<longleftrightarrow> f \<le> length zs \<and> (0 < f \<longrightarrow> struct_at cfg zs (f - 1)) \<and> (\<forall>k. f \<le> k \<and> k < length zs \<longrightarrow> \<not> close_at cfg zs k)"

lemma open_field_snoc:
  assumes "open_field cfg zs f" and "\<not> close_at cfg (zs @ [b]) (length zs)" and "f < length zs \<or> f = 0 \<or> delim_at cfg zs (f - 1)"
  shows "open_field cfg (zs @ [b]) f"
proof -
  have len: "f \<le> length zs" using assms(1) by (simp add: open_field_def)
  have "struct_at cfg (zs @ [b]) (f - 1)" if "0 < f"
    using that assms(1,3) at_prefix(3,4)[of "f - 1" zs cfg "[b]"] at_prefix(4)[of f zs cfg "[b]"] len
    by (auto simp: open_field_def struct_at_def run_end_at_def)
  moreover have "close_at cfg (zs @ [b]) k = close_at cfg zs k" if "k < length zs" for k
    using at_prefix(3,4)[OF that] by (simp add: close_at_def)
  ultimately show ?thesis using assms(1,2) len unfolding open_field_def by (auto simp: less_Suc_eq)
qed

lemma quoted_field_start:
  fixes m :: "'s machine" and acc :: "('s, 'u) accumulator"
  assumes q: "quoting c n cfg" and at: "at_record m" and "zs \<noteq> [] \<longrightarrow> \<not> terminates c (zs ! 0)"
    and "spec_run c acc L p zs m = Running m'"
  shows "at_record m' \<and> (zs = [] \<or> term_at cfg zs (length zs - 1)) \<or>
    in_rec m' \<and> (m_state m' = InQuotedField \<longleftrightarrow> open_before cfg zs (length zs)) \<and>
      (\<exists>f. open_field cfg zs f \<and> m_fld_start m' = p + f \<and> (f < length zs \<or> delim_at cfg zs (f - 1)))"
  using assms(3,4)
proof (induction zs arbitrary: m' rule: rev_induct)
  case Nil
  then show ?case using at by simp
next
  case (snoc b zs)
  obtain m1 where m1: "spec_run c acc L p zs m = Running m1" "spec_byte c acc L (p + length zs) b m1 = Running m'"
    using snoc.prems(2) by (auto simp: spec_run_append split: outcome.splits)
  have "zs \<noteq> [] \<longrightarrow> \<not> terminates c (zs ! 0)" using snoc.prems(1) by (auto simp: nth_append)
  note IH = snoc.IH[OF this m1(1)]
  let ?ws = "zs @ [b]"
  have pre: "term_at cfg ?ws (length zs - 1) = term_at cfg zs (length zs - 1)" "delim_at cfg ?ws (length zs - 1) = delim_at cfg zs (length zs - 1)"
    if "zs \<noteq> []" using at_prefix(3,4)[of "length zs - 1" zs cfg "[b]"] that by simp_all
  have ob: "open_before cfg ?ws (length zs) = open_before cfg zs (length zs)"
    using at_prefix(2)[of "length zs - 1" zs cfg "[b]"] by (cases "zs = []") (auto simp: open_before_def)
  have at_b: "quote_at cfg ?ws (length zs) \<longleftrightarrow> quote c = Some b" using quoting_at(1)[OF q] by simp
  have qb: "quoted_at cfg ?ws (length zs) \<longleftrightarrow> open_before cfg zs (length zs) \<noteq> (quote c = Some b)"
    by (simp add: quoted_at_open ob at_b)
  have delim: "delim_at cfg ?ws (length zs) \<longleftrightarrow> b = delimiter c \<and> \<not> open_before cfg zs (length zs)"
    using quoting_at(2)[OF q] qb quoting_sel(6)[OF q] by auto
  have trm: "term_at cfg ?ws (length zs) \<longleftrightarrow> terminates c b \<and> \<not> open_before cfg zs (length zs)"
    using quoting_at(3)[OF q] qb quoting_sel(7)[OF q] by auto
  have last: "open_before cfg ?ws (length ?ws) \<longleftrightarrow> open_before cfg zs (length zs) \<noteq> (quote c = Some b)" using qb by simp
  show ?case
  proof (cases "at_record m1 \<and> terminates c b")
    case True
    have ob0: "\<not> open_before cfg zs (length zs)"
      using IH True quoting_at(3)[OF q] by (auto simp: open_before_def at_record_def in_rec_def)
    have "m_state m1 = RecordStart" using True by (simp add: at_record_def)
    then have "spec_run c acc L (p + length zs) [b] m1 = (if L < p + length zs + 1 then Finished (max L (p + length zs)) (m_acc m1) else Running m1)"
      using spec_run_terminators[of m1 "[b]" c acc L "p + length zs"] True by simp
    then have "m' = m1" using m1(2) by (simp split: if_splits)
    then show ?thesis using True ob0 trm by simp
  next
    case False
    text \<open>Within a record, after its first byte at the latest.\<close>
    obtain m2 f where m2: "in_rec m2" "m_state m2 = InQuotedField \<longleftrightarrow> open_before cfg zs (length zs)"
      "spec_byte c acc L (p + length zs) b m2 = Running m'" "m_fld_start m2 = p + f" "f \<le> length zs"
      "\<not> close_at cfg ?ws (length zs) \<Longrightarrow> open_field cfg ?ws f"
    proof (cases "at_record m1")
      case r: True
      then have st: "m_state m1 = RecordStart" "\<not> terminates c b" using False by (auto simp: at_record_def)
      have qc: "comment c = None" using q by (simp add: quoting_def)
      have tz: "zs = [] \<or> term_at cfg zs (length zs - 1)" using IH r by (auto simp: at_record_def in_rec_def)
      have nt: "\<not> term_at cfg ?ws (length zs)" using trm st(2) by simp
      have ob0: "\<not> open_before cfg zs (length zs)" using tz quoting_at(3)[OF q] by (auto simp: open_before_def)
      have "open_field cfg ?ws (length zs)" if nc: "\<not> close_at cfg ?ws (length zs)"
      proof -
        have "struct_at cfg ?ws (length zs - 1)" if "0 < length zs"
          using that tz pre(1) nt by (auto simp: struct_at_def run_end_at_def)
        moreover have "\<not> close_at cfg ?ws k" if "length zs \<le> k \<and> k < length ?ws" for k
        proof -
          have "k = length zs" using that by simp
          then show ?thesis using nc by simp
        qed
        ultimately show ?thesis by (simp add: open_field_def)
      qed
      then show ?thesis
        using that[of "opened (p + length zs) m1" "length zs"] m1(2) ob0 unfolding quoted_first[OF qc st]
        by (simp add: in_rec_def opened_def)
    next
      case r: False
      then obtain f where f: "in_rec m1" "m_state m1 = InQuotedField \<longleftrightarrow> open_before cfg zs (length zs)" "open_field cfg zs f"
        "m_fld_start m1 = p + f" "f < length zs \<or> delim_at cfg zs (f - 1)" using IH by blast
      then show ?thesis using that[OF f(1,2) m1(2) f(4)] open_field_snoc[OF f(3)] by (auto simp: open_field_def)
    qed
    show ?thesis
    proof (cases "open_before cfg zs (length zs) \<or> \<not> terminates c b")
      case True
      define found where "found = length (m_fields m2) + 1"
      consider (dlm) "\<not> open_before cfg zs (length zs)" "b = delimiter c" | (content) "\<not> close_at cfg ?ws (length zs)"
        using True trm delim unfolding close_at_def by blast
      then show ?thesis
      proof cases
        case delim': dlm
        then have fs: "in_field_state (m_state m2)" using m2(1,2) by (auto simp: in_rec_def)
        have "spec_byte c acc L (p + length zs) b m2 =
            Running (m2\<lparr>m_fields := m_fields m2 @ [m_cur m2], m_cur := [], m_fld_start := p + length zs + 1, m_state := FieldStart\<rparr>)"
          by (rule quoting_cells(5)[OF q fs delim'(2)])
        then have m': "m_state m' = FieldStart" "m_fld_start m' = p + (length zs + 1)" using m2(3) by auto
        have "quote c \<noteq> Some b" using quoting_sel(6)[OF q] delim'(2) by simp
        moreover have d: "delim_at cfg ?ws (length zs)" using delim delim' by simp
        moreover have "open_field cfg ?ws (length zs + 1)" using d by (auto simp: open_field_def struct_at_def)
        ultimately show ?thesis using m' delim' last by (auto simp: in_rec_def intro!: exI[of _ "length zs + 1"])
      next
        case content
        have stay: "m_fld_start m' = m_fld_start m2 \<and> in_rec m' \<and> (m_state m' = InQuotedField \<longleftrightarrow> (if quote c = Some b then m_state m2 \<noteq> InQuotedField else m_state m2 = InQuotedField))"
        proof -
          have nd: "m_state m2 = InQuotedField \<or> b \<noteq> delimiter c" using content delim m2(2) by (auto simp: close_at_def)
          have nt: "m_state m2 = InQuotedField \<or> \<not> terminates c b" using True m2(2) by simp
          consider (a) "quote c = Some b" "m_state m2 = InQuotedField" | (b) "quote c = Some b" "in_field_state (m_state m2)"
            | (c) "quote c \<noteq> Some b" "m_state m2 = InQuotedField" | (d) "quote c \<noteq> Some b" "in_field_state (m_state m2)" "content c b"
            using m2(1) nd nt by (auto simp: in_rec_def content_def)
          then show ?thesis
            using m2(3) quoting_cells(1-4)[OF q, of b m2 acc L "p + length zs"] by cases (auto simp: in_rec_def)
        qed
        have of: "open_field cfg ?ws f" by (rule m2(6)[OF content])
        have "open_before cfg ?ws (length ?ws) \<longleftrightarrow> m_state m' = InQuotedField" using stay m2(2) last by auto
        moreover have "f < length ?ws" "m_fld_start m' = p + f" using m2(4,5) stay by simp_all
        ultimately show ?thesis using stay of by blast
      qed
    next
      case False
      then have b: "\<not> open_before cfg zs (length zs)" "terminates c b" by simp_all
      then have fs: "in_field_state (m_state m2)" using m2(1,2) by (auto simp: in_rec_def)
      have "spec_byte c acc L (p + length zs) b m2 = enter c acc L (p + length zs) RecordEnd m2" by (rule quoting_cells(6)[OF q fs b(2)])
      then have "at_record m'" using m2(3) by (auto simp: enter_def at_record_def split: sum.splits if_splits)
      then show ?thesis using trm b by simp
    qed
  qed
qed

end
