(* ===== verification/IndexEmit.thy ===== *)
theory IndexEmit
  imports IndexRecord
begin

text \<open>
  A batch of records handed over by striding the offsets is the reference machine's run up to the end of the last.
\<close>

section \<open>A batch of records\<close>

text \<open>What the offsets from \<open>i\<close> on, resolved up to \<open>P\<close>, are taken from.\<close>

definition listed :: "nat \<Rightarrow> nat \<Rightarrow> ScannerConfig \<Rightarrow> byte list \<Rightarrow> nat \<Rightarrow> bool \<Rightarrow> nat \<Rightarrow> nat list \<Rightarrow> nat list \<Rightarrow> bool" where
  "listed n ph cfg ws P first i bs es \<longleftrightarrow> placed first cfg ws i \<and> begins_from first cfg ws i P = bs \<and> ends_in cfg ws i P = es \<and>
     count_fields n 0 (kinds_in cfg ws i P) = Some ph"

text \<open>The run of terminators behind a field end, from \<open>r\<close> to at least \<open>b\<close>.\<close>

definition run_at :: "Config \<Rightarrow> byte list \<Rightarrow> nat \<Rightarrow> nat \<Rightarrow> nat \<Rightarrow> bool" where
  "run_at c ws e r b \<longleftrightarrow> e \<le> r \<and> r \<le> b \<and> b < length ws \<and> (\<forall>k. e \<le> k \<and> k < r \<longrightarrow> \<not> terminates c (ws ! k)) \<and>
     (\<forall>k. r \<le> k \<and> k \<le> b \<longrightarrow> terminates c (ws ! k))"

definition run_over :: "Config \<Rightarrow> byte list \<Rightarrow> nat \<Rightarrow> nat \<Rightarrow> bool" where
  "run_over c ws P b \<longleftrightarrow> b < P \<and> (b + 1 < length ws \<longrightarrow> \<not> terminates c (ws ! (b + 1)))"

definition handed ::
    "Config \<Rightarrow> ('s, 'u) accumulator \<Rightarrow> nat \<Rightarrow> nat \<Rightarrow> byte list \<Rightarrow> nat \<Rightarrow> 's machine \<Rightarrow> nat \<Rightarrow> nat \<Rightarrow> 'u boxed_error + 's \<Rightarrow> bool" where
  "handed c acc L p ws i m r b res = (case res of
     Inl err \<Rightarrow> \<exists>q. i \<le> q \<and> q \<le> b + 1 \<and> spec_run c acc L p (subslice ws i q) m = Failed (from_user err)
   | Inr s' \<Rightarrow> if L \<le> p + (b - i) then spec_run c acc L p (subslice ws i (b + 1)) m = Finished (max L (p + (r - i))) s'
       else \<exists>m'. spec_run c acc L p (subslice ws i (b + 1)) m = Running m' \<and> ended (p + (r - i)) s' m')"

definition marks_removed :: "ScannerConfig \<Rightarrow> byte list \<Rightarrow> nat list \<Rightarrow> nat \<Rightarrow> nat \<Rightarrow> bool" where
  "marks_removed cfg ws rs i P \<longleftrightarrow> (\<forall>k. i \<le> k \<and> k < P \<longrightarrow> (k \<in> set rs \<longleftrightarrow> removed_at cfg ws k))"

lemma listed_record:
  fixes acc :: "('s, 'u) accumulator"
  assumes q: "quoting c n cfg" and li: "listed n ph cfg ws P first i bs es" and n: "n \<le> length es" and m: "at_record m"
    and first: "\<not> terminates c (ws ! i)" and rs: "marks_removed cfg ws rs i P"
    and run: "run_at c ws (es ! (n - 1)) r b" "r < P"
  shows "n \<le> length bs" "spans_in i (take n (zip bs es)) r" "i \<le> r" "r \<le> es ! (n - 1) + 1"
    "handed c acc L p ws i m r b (acc (m_acc m) (map (\<lambda>(b, e). kept rs ws b e) (take n (zip bs es))))"
    "run_over c ws P b \<Longrightarrow> listed n ph cfg ws P False (b + 1) (drop n bs) (drop n es)"
proof -
  have n1: "1 \<le> n" using quoting_sel(8)[OF q] .
  define ds where "ds = take (n - 1) es"
  define e where "e = es ! (n - 1)"
  have split: "es = ds @ e # drop n es" "length ds + 1 = n"
    using n n1 id_take_nth_drop[of "n - 1" es] by (simp_all add: ds_def e_def)
  note L = li[unfolded listed_def]
  have ends: "ends_in cfg ws i P = ds @ e # drop n es" using L split(1) by simp
  note run' = run[unfolded run_at_def, folded e_def]
  have r: "e \<le> r" "terminates c (ws ! r)" "\<forall>k. e \<le> k \<and> k < r \<longrightarrow> \<not> terminates c (ws ! k)" and
    b: "r \<le> b" "b < length ws" "\<forall>k. r \<le> k \<and> k \<le> b \<longrightarrow> terminates c (ws ! k)" using run' by auto
  have pl: "placed first cfg ws i" and count: "count_fields n 0 (kinds_in cfg ws i P) = Some ph" using L by simp_all
  have rs': "\<And>k. i \<le> k \<Longrightarrow> k < P \<Longrightarrow> k \<in> set rs \<longleftrightarrow> removed_at cfg ws k" using rs by (simp add: marks_removed_def)
  from quoted_record[OF q pl ends split(2) count m first rs' r(1) run(2) r(2,3) b, of acc L p]
  obtain bs1 more where rec: "begins_from first cfg ws i P = bs1 @ more" "length bs1 = n" "spans_in i (zip bs1 (ds @ [e])) r" "i \<le> r" "r \<le> e + 1"
    "(case acc (m_acc m) (map (\<lambda>(b, e). kept rs ws b e) (zip bs1 (ds @ [e]))) of
       Inl err \<Rightarrow> spec_run c acc L p (subslice ws i (b + 1)) m = Failed (from_user err)
     | Inr s' \<Rightarrow> if L \<le> p + (b - i) then spec_run c acc L p (subslice ws i (b + 1)) m = Finished (max L (p + (r - i))) s'
         else \<exists>m'. spec_run c acc L p (subslice ws i (b + 1)) m = Running m' \<and> ended (p + (r - i)) s' m')"
    "b < P \<Longrightarrow> b + 1 < length ws \<longrightarrow> \<not> terminates c (ws ! (b + 1)) \<Longrightarrow> placed False cfg ws (b + 1) \<and>
      ends_in cfg ws (b + 1) P = drop n es \<and> begins_from False cfg ws (b + 1) P = more \<and> count_fields n 0 (kinds_in cfg ws (b + 1) P) = Some ph"
    by blast
  have bs: "bs = bs1 @ more" using L rec(1) by simp
  then show "n \<le> length bs" using rec(2) by simp
  have "take n es = ds @ [e]" using split by (metis append.assoc append_Cons append_Nil append_eq_conv_conj length_append_singleton Suc_eq_plus1)
  then have zip: "take n (zip bs es) = zip bs1 (ds @ [e])" using bs rec(2) by (simp add: take_zip)
  then show "spans_in i (take n (zip bs es)) r" "i \<le> r" "r \<le> es ! (n - 1) + 1" using rec(3,4,5) by (simp_all add: e_def)
  show "handed c acc L p ws i m r b (acc (m_acc m) (map (\<lambda>(b, e). kept rs ws b e) (take n (zip bs es))))"
    using rec(4,6) b(1) unfolding zip handed_def by (auto split: sum.splits intro!: exI[of _ "b + 1"])
  show "run_over c ws P b \<Longrightarrow> listed n ph cfg ws P False (b + 1) (drop n bs) (drop n es)"
    using rec(7) bs rec(2) by (simp add: run_over_def listed_def)
qed

lemma handed_next:
  fixes acc :: "('s, 'u) accumulator"
  assumes "handed c acc L p ws i m r b (Inr s)" and "p + (b - i) < L" and "i \<le> b" and "b + 1 \<le> r'" "r' \<le> b'" and "b' < length ws"
    and next_ok: "\<And>m'. at_record m' \<Longrightarrow> m_acc m' = s \<Longrightarrow> handed c acc L (p + (b + 1 - i)) ws (b + 1) m' r' b' res"
  shows "handed c acc L p ws i m r' b' res"
proof -
  obtain m1 where m1: "spec_run c acc L p (subslice ws i (b + 1)) m = Running m1" "ended (p + (r - i)) s m1"
    using assms(1,2) by (auto simp: handed_def)
  have at: "at_record m1" "m_acc m1 = s" using m1(2) by (simp_all add: ended_def at_record_def)
  have cut: "spec_run c acc L p (subslice ws i k) m = spec_run c acc L (p + (b + 1 - i)) (subslice ws (b + 1) k) m1"
    if "b + 1 \<le> k" "k \<le> length ws" for k
  proof -
    have "subslice ws i k = subslice ws i (b + 1) @ subslice ws (b + 1) k" using assms(3) that by (simp add: slice_append_slice)
    moreover have "length (subslice ws i (b + 1)) = b + 1 - i" using assms(4-6) by simp
    ultimately show ?thesis using m1(1) by (simp add: spec_run_append)
  qed
  have pos: "p + (b + 1 - i) + (x - (b + 1)) = p + (x - i)" if "b + 1 \<le> x" for x using assms(3) that by simp
  have le: "b + 1 \<le> b'" using assms(4,5) by simp
  note nx = next_ok[OF at, unfolded handed_def pos[OF le] pos[OF assms(4)]]
  show ?thesis
  proof (cases res)
    case (Inl err)
    then obtain q where "b + 1 \<le> q" "q \<le> b' + 1"
      "spec_run c acc L (p + (b + 1 - i)) (subslice ws (b + 1) q) m1 = Failed (from_user err)" using nx by auto
    then show ?thesis using cut[of q] assms(3,6) Inl by (auto simp: handed_def intro!: exI[of _ q])
  next
    case (Inr s')
    have "b + 1 \<le> b' + 1" "b' + 1 \<le> length ws" using le assms(6) by simp_all
    show ?thesis unfolding Inr handed_def sum.case cut[OF \<open>b + 1 \<le> b' + 1\<close> \<open>b' + 1 \<le> length ws\<close>]
      using nx unfolding Inr sum.case .
  qed
qed

lemma hand_records_one: "hand_records acc s [r] = acc s r"
  by (simp split: sum.split)

lemma spans_in_from: "spans_in lo fs hi \<Longrightarrow> lo' \<le> lo \<Longrightarrow> spans_in lo' fs hi"
  by (cases fs) auto

lemma spans_in_joined: "spans_in lo fs mid \<Longrightarrow> mid = snd (last fs) \<Longrightarrow> fs \<noteq> [] \<Longrightarrow> spans_in mid gs hi \<Longrightarrow> spans_in lo (fs @ gs) hi"
  by (auto simp: spans_in_append)

lemma listed_records:
  fixes acc :: "('s, 'u) accumulator"
  assumes q: "quoting c n cfg" and "listed n ph cfg ws P first i bs es" and "Suc k * n \<le> length es" and "at_record m"
    and "\<not> terminates c (ws ! i)" and rs: "marks_removed cfg ws rs i P"
    and "\<And>j. j \<le> k \<Longrightarrow> run_at c ws (es ! (Suc j * n - 1)) (r j) (b j) \<and> r j < P"
    and "\<And>j. j < k \<Longrightarrow> run_over c ws P (b j) \<and> p + (b j - i) < L"
  shows "Suc k * n \<le> length bs" "spans_in i (take (Suc k * n) (zip bs es)) (r k)" "i \<le> r k" "r k \<le> es ! (Suc k * n - 1) + 1"
    "handed c acc L p ws i m (r k) (b k) (hand_records acc (m_acc m) (map (map (\<lambda>(b, e). kept rs ws b e)) (strided n (Suc k) (zip bs es))))"
    "run_over c ws P (b k) \<Longrightarrow> listed n ph cfg ws P False (b k + 1) (drop (Suc k * n) bs) (drop (Suc k * n) es)"
proof -
  have n1: "1 \<le> n" using quoting_sel(8)[OF q] .
  have "Suc k * n \<le> length bs \<and> spans_in i (take (Suc k * n) (zip bs es)) (r k) \<and> i \<le> r k \<and> r k \<le> es ! (Suc k * n - 1) + 1 \<and>
    handed c acc L p ws i m (r k) (b k) (hand_records acc (m_acc m) (map (map (\<lambda>(b, e). kept rs ws b e)) (strided n (Suc k) (zip bs es)))) \<and>
    (run_over c ws P (b k) \<longrightarrow> listed n ph cfg ws P False (b k + 1) (drop (Suc k * n) bs) (drop (Suc k * n) es))"
    using assms(2-)
  proof (induction k arbitrary: first i bs es m p r b)
    case 0
    have "run_at c ws (es ! (n - 1)) (r 0) (b 0)" "r 0 < P" using 0(6)[of 0] by simp_all
    moreover have "n \<le> length es" using 0(2) by simp
    note rec = listed_record[OF q 0(1) this 0(3,4,5) \<open>run_at c ws (es ! (n - 1)) (r 0) (b 0)\<close> \<open>r 0 < P\<close>]
    moreover have "handed c acc L p ws i m (r 0) (b 0) (acc (m_acc m) (map (\<lambda>(b, e). kept rs ws b e) (take n (zip bs es))))"
      by (rule rec(5))
    then have "handed c acc L p ws i m (r 0) (b 0) (hand_records acc (m_acc m) (map (map (\<lambda>(b, e). kept rs ws b e)) (strided n (Suc 0) (zip bs es))))"
      by (simp add: hand_records_one del: hand_records.simps)
    ultimately show ?case using rec(1,2,3,4,6) by simp
  next
    case (Suc k)
    have fits: "n \<le> length es" "Suc k * n \<le> length (drop n es)" using Suc.prems(2) by simp_all
    have ra: "run_at c ws (es ! (n - 1)) (r 0) (b 0)" "r 0 < P" using Suc.prems(6)[of 0] by simp_all
    have ro: "run_over c ws P (b 0)" "p + (b 0 - i) < L" using Suc.prems(7)[of 0] by simp_all
    note rec = listed_record[OF q Suc.prems(1) fits(1) Suc.prems(3,4,5) ra]
    note li = rec(6)[OF ro(1)]
    have h: "handed c acc L p ws i m (r 0) (b 0) (acc (m_acc m) (map (\<lambda>(b, e). kept rs ws b e) (take n (zip bs es))))"
      by (rule rec(5))
    have ib: "i \<le> b 0" using rec(3) ra(1) by (simp add: run_at_def)
    have rs': "marks_removed cfg ws rs (b 0 + 1) P" using Suc.prems(5) ib by (simp add: marks_removed_def)
    have runs: "run_at c ws (drop n es ! (Suc j * n - 1)) (r (Suc j)) (b (Suc j)) \<and> r (Suc j) < P" if "j \<le> k" for j
    proof -
      have "n + (Suc j * n - 1) = Suc (Suc j) * n - 1" using n1 by simp
      moreover have "Suc (Suc j) \<le> Suc (Suc k)" using that by simp
      ultimately show ?thesis using Suc.prems(6)[of "Suc j"] that fits(1) by simp
    qed
    have endpos: "b 0 + 1 \<le> es ! (Suc (Suc j) * n - 1)" if "j \<le> k" for j
    proof -
      have "Suc j * n \<le> length (drop n es)" using that fits(2) by (meson Suc_le_mono le_trans mult_le_mono1)
      then have lt: "Suc j * n - 1 < length (drop n es)" using n1 by (cases "Suc j * n") auto
      have "drop n es ! (Suc j * n - 1) \<in> set (drop n es)" using lt by (rule nth_mem)
      moreover have "drop n es ! (Suc j * n - 1) = es ! (Suc (Suc j) * n - 1)" using n1 fits(1) by simp
      moreover have "drop n es = ends_in cfg ws (b 0 + 1) P" using li by (simp add: listed_def)
      then have "set (drop n es) \<subseteq> {b 0 + 1..}" by (auto simp: ends_in_def)
      ultimately show ?thesis by auto
    qed
    have over: "run_over c ws P (b (Suc j)) \<and> p + (b 0 + 1 - i) + (b (Suc j) - (b 0 + 1)) < L" if "j < k" for j
    proof -
      have "b 0 + 1 \<le> b (Suc j)" using endpos[of j] runs[of j] that n1 fits(1) by (fastforce simp: run_at_def)
      then show ?thesis using Suc.prems(7)[of "Suc j"] that ib by simp
    qed
    have "b 0 + 1 < length ws"
    proof -
      have "run_at c ws (es ! (Suc (Suc 0) * n - 1)) (r 1) (b 1)" using Suc.prems(6)[of 1] by simp
      then show ?thesis using endpos[of 0] by (simp add: run_at_def)
    qed
    then have first: "\<not> terminates c (ws ! (b 0 + 1))" using ro(1) by (simp add: run_over_def)
    have IH: "Suc k * n \<le> length (drop n bs) \<and> spans_in (b 0 + 1) (take (Suc k * n) (zip (drop n bs) (drop n es))) (r (Suc k)) \<and>
        b 0 + 1 \<le> r (Suc k) \<and> r (Suc k) \<le> drop n es ! (Suc k * n - 1) + 1 \<and>
        handed c acc L (p + (b 0 + 1 - i)) ws (b 0 + 1) m' (r (Suc k)) (b (Suc k))
          (hand_records acc (m_acc m') (map (map (\<lambda>(b, e). kept rs ws b e)) (strided n (Suc k) (zip (drop n bs) (drop n es))))) \<and>
        (run_over c ws P (b (Suc k)) \<longrightarrow>
          listed n ph cfg ws P False (b (Suc k) + 1) (drop (Suc k * n) (drop n bs)) (drop (Suc k * n) (drop n es)))"
      if "at_record m'" for m' :: "'s machine"
      using Suc.IH[OF li fits(2) that first rs' runs over] .
    obtain m0 :: "'s machine" where "at_record m0" using Suc.prems(3) by blast
    note ih = IH[OF this]
    let ?fs = "map (\<lambda>(b, e). kept rs ws b e) (take n (zip bs es))"
    let ?rest = "map (map (\<lambda>(b, e). kept rs ws b e)) (strided n (Suc k) (zip (drop n bs) (drop n es)))"
    have str: "map (map (\<lambda>(b, e). kept rs ws b e)) (strided n (Suc (Suc k)) (zip bs es)) = ?fs # ?rest"
      by (simp add: drop_zip)
    have bl: "r (Suc k) \<le> b (Suc k)" "b (Suc k) < length ws" using Suc.prems(6)[of "Suc k"] by (simp_all add: run_at_def)
    have "handed c acc L p ws i m (r (Suc k)) (b (Suc k)) (hand_records acc (m_acc m) (?fs # ?rest))"
    proof (cases "acc (m_acc m) ?fs")
      case (Inl err)
      then obtain q where "i \<le> q" "q \<le> b 0 + 1" "spec_run c acc L p (subslice ws i q) m = Failed (from_user err)"
        using h by (auto simp: handed_def)
      then show ?thesis using Inl ih bl by (auto simp: handed_def intro!: exI[of _ q])
    next
      case (Inr s1)
      show ?thesis unfolding hand_records.simps Inr sum.case
      proof (rule handed_next[OF h[unfolded Inr] ro(2) ib _ bl])
        show "b 0 + 1 \<le> r (Suc k)" using ih by simp
      qed (use IH in auto)
    qed
    moreover have "spans_in i (take (Suc (Suc k) * n) (zip bs es)) (r (Suc k))"
    proof -
      have eq: "take (Suc (Suc k) * n) (zip bs es) = take n (zip bs es) @ take (Suc k * n) (zip (drop n bs) (drop n es))"
        by (simp add: take_add drop_zip)
      have ne: "take n (zip bs es) \<noteq> []" using fits(1) rec(1) n1 by auto
      note last = spans_in_last[OF rec(2) ne]
      have "snd (last (take n (zip bs es))) \<le> b 0 + 1" using last ra(1) by (auto simp: run_at_def)
      from spans_in_from[OF _ this] ih
      have "spans_in (snd (last (take n (zip bs es)))) (take (Suc k * n) (zip (drop n bs) (drop n es))) (r (Suc k))" by blast
      from spans_in_joined[OF conjunct1[OF last] refl ne this] show ?thesis unfolding eq .
    qed
    moreover have "Suc (Suc k) * n \<le> length bs"
    proof -
      have "Suc k * n \<le> length bs - n" using ih by simp
      then show ?thesis using rec(1) by simp
    qed
    moreover have "i \<le> r (Suc k)" using ih ib by simp
    moreover have "r (Suc k) \<le> es ! (Suc (Suc k) * n - 1) + 1"
    proof -
      have "drop n es ! (Suc k * n - 1) = es ! (n + (Suc k * n - 1))" using fits(1) by simp
      moreover have "n + (Suc k * n - 1) = Suc (Suc k) * n - 1" using n1 by simp
      ultimately show ?thesis using ih by simp
    qed
    moreover have "drop (Suc k * n) (drop n xs) = drop (Suc (Suc k) * n) xs" for xs :: "nat list" by (simp add: add.commute)
    ultimately show ?case using ih unfolding str by metis
  qed
  then show "Suc k * n \<le> length bs" "spans_in i (take (Suc k * n) (zip bs es)) (r k)" "i \<le> r k" "r k \<le> es ! (Suc k * n - 1) + 1"
    "handed c acc L p ws i m (r k) (b k) (hand_records acc (m_acc m) (map (map (\<lambda>(b, e). kept rs ws b e)) (strided n (Suc k) (zip bs es))))"
    "run_over c ws P (b k) \<Longrightarrow> listed n ph cfg ws P False (b k + 1) (drop (Suc k * n) bs) (drop (Suc k * n) es)" by blast+
qed

end
