(* ===== verification/IndexStepper.thy ===== *)
theory IndexStepper
  imports Scan SimdIndex FieldCount
begin

text \<open>
  src/src/parser/simd/index_stepper.rs: the stepper for dialects with a quote. It drives the scanner over the input in
  vectors, keeps the offsets of field beginnings, field ends and removed characters, and hands records over by
  striding them. \<open>Isa::vectorize\<close> only selects how the bodies are compiled and is left out.
\<close>

unbundle bit_operations_syntax

section \<open>The stepper\<close>

record SimdIndexStepper =
  ix_config :: ScannerConfig
  ix_scanner :: Scanner
  ix_counter :: FieldCounter
  ix_needs_align_prologue :: bool
  needs_chunk_start_b :: bool
  b_offs :: "nat list"
  e_offs :: "nat list"
  r_offs :: "nat list"
  ix_record_start :: nat
  ix_last_record_end :: "nat option"

text \<open>\<open>None\<close> is the panic without a fixed field count, or outside 1 to 63.\<close>

definition index_stepper_new :: "Config \<Rightarrow> SimdIndexStepper option" where
  "index_stepper_new c =
     (let (t, t2) = terminator_bytes (terminator c);
          doubled = (case (quote c, escape c) of (Some q, Some e) \<Rightarrow> q = e | _ \<Rightarrow> False);
          cfg = \<lparr>sc_delim = delimiter c, sc_term = t, sc_term_b = t2, sc_quote = quote c, sc_doubled_quotes = doubled\<rparr>
      in case field_count c of
           None \<Rightarrow> None
         | Some n \<Rightarrow> map_option (\<lambda>fc.
             \<lparr>ix_config = cfg, ix_scanner = scanner_new cfg, ix_counter = fc, ix_needs_align_prologue = True,
              needs_chunk_start_b = True, b_offs = [], e_offs = [], r_offs = [], ix_record_start = 0,
              ix_last_record_end = None\<rparr>) (field_counter_new n))"

definition ix_is_term :: "SimdIndexStepper \<Rightarrow> byte \<Rightarrow> bool" where
  "ix_is_term st b \<longleftrightarrow> b = sc_term (ix_config st) \<or> sc_term_b (ix_config st) = Some b"

definition ix_arity_error :: "SimdIndexStepper \<Rightarrow> byte list \<Rightarrow> nat \<Rightarrow> 'u Error" where
  "ix_arity_error st buf tot =
     (let cfg = ix_config st; n = fc_n (ix_counter st);
          (start, found) = locate_bad_record buf (ix_record_start st) n (sc_delim cfg) (sc_term cfg) (sc_term_b cfg) (sc_quote cfg)
      in NumberOfFields n found (at_byte (tot + start)))"

text \<open>The verifier on one output, in \<open>verify_tail\<close> and in the loop.\<close>

definition ix_verify :: "isa \<Rightarrow> VectorOutput \<Rightarrow> SimdIndexStepper \<Rightarrow> bool \<times> SimdIndexStepper" where
  "ix_verify I out st =
     (let (ok, fc) = verify I (vo_d_struct out) (vo_term out) (ix_counter st) in (ok, st\<lparr>ix_counter := fc\<rparr>))"

definition ix_extend :: "VectorOutput \<Rightarrow> u64 \<Rightarrow> SimdIndexStepper \<Rightarrow> SimdIndexStepper" where
  "ix_extend out base st =
     st\<lparr>b_offs := extend_offsets (b_offs st) (vo_b out) base, e_offs := extend_offsets (e_offs st) (vo_e out) base,
        r_offs := extend_offsets (r_offs st) (vo_r out) base\<rparr>"

definition drop_emitted_prefix :: "nat \<Rightarrow> nat \<Rightarrow> SimdIndexStepper \<Rightarrow> SimdIndexStepper" where
  "drop_emitted_prefix n_fields removals st =
     st\<lparr>b_offs := drop n_fields (b_offs st), e_offs := drop n_fields (e_offs st), r_offs := drop removals (r_offs st)\<rparr>"

section \<open>Handing records over\<close>

text \<open>\<open>while p < lim && go(p) { p += 1 }\<close>.\<close>

function walk_while :: "(nat \<Rightarrow> bool) \<Rightarrow> nat \<Rightarrow> nat \<Rightarrow> nat" where
  "walk_while go lim p = (if p < lim \<and> go p then walk_while go lim (p + 1) else p)"
  by pat_completeness auto
termination
  by (relation "measure (\<lambda>(_, lim, p). lim - p)") auto

declare walk_while.simps [simp del]

text \<open>The terminator run after a record's last field: unresolved, or its start with its end, if that lies before
  the cap.\<close>

definition term_of :: "SimdIndexStepper \<Rightarrow> byte list \<Rightarrow> nat \<Rightarrow> nat \<Rightarrow> nat \<Rightarrow> (nat \<times> nat option) option" where
  "term_of st buf resolved_end walk_cap e_idx =
     (let p = walk_while (\<lambda>p. \<not> ix_is_term st (buf ! p)) resolved_end (e_offs st ! e_idx)
      in if resolved_end \<le> p then None
         else let run_start = p; p = walk_while (\<lambda>p. ix_is_term st (buf ! (p + 1))) (walk_cap - 1) p
              in if p + 1 < walk_cap then Some (run_start, Some p)
                 else if walk_cap < resolved_end then Some (run_start, None)
                 else None)"

text \<open>How many of the \<open>avail\<close> records are resolved, with the run of the last one.\<close>

fun last_resolved :: "(nat \<Rightarrow> (nat \<times> nat option) option) \<Rightarrow> nat \<Rightarrow> nat \<Rightarrow> nat \<Rightarrow> (nat \<times> nat \<times> nat option) option" where
  "last_resolved tm head n 0 = None"
| "last_resolved tm head n (Suc a) =
     (case tm (head + Suc a * n - 1) of Some t \<Rightarrow> Some (Suc a, t) | None \<Rightarrow> last_resolved tm head n a)"

text \<open>The records that end before the chunk does; the last one is known not to.\<close>

function ends_before :: "(nat \<Rightarrow> (nat \<times> nat option) option) \<Rightarrow> nat \<Rightarrow> nat \<Rightarrow> nat \<Rightarrow> nat \<Rightarrow> nat \<Rightarrow> nat" where
  "ends_before tm head n rem avail k =
     (if k + 1 < avail \<and> (case tm (head + (k + 1) * n - 1) of Some (_, Some fin) \<Rightarrow> fin < rem | _ \<Rightarrow> False)
      then ends_before tm head n rem avail (k + 1) else k)"
  by pat_completeness auto
termination
  by (relation "measure (\<lambda>(_, _, _, _, avail, k). avail - k)") auto

declare ends_before.simps [simp del]

definition skip_removed :: "nat list \<Rightarrow> nat \<Rightarrow> nat \<Rightarrow> nat" where
  "skip_removed rs r_head last_e = r_head + length (takeWhile (\<lambda>r. r \<le> last_e) (drop r_head rs))"

text \<open>The result, the buffer, the new heads, the accumulator's state and the stepper. The assertion of
  \<open>assemble_records_fixed\<close> is not in the model: \<open>the\<close> stands for it.\<close>

definition ix_flush ::
    "('s, 'u) accumulator \<Rightarrow> byte list \<Rightarrow> nat \<Rightarrow> nat \<Rightarrow> nat \<Rightarrow> nat \<Rightarrow> nat \<Rightarrow> nat \<Rightarrow> 's \<Rightarrow> SimdIndexStepper
      \<Rightarrow> ('u Error + nat option) \<times> byte list \<times> nat \<times> nat \<times> 's \<times> SimdIndexStepper" where
  "ix_flush acc buf head r_head resolved_end rem tot n s st =
     (let walk_cap = min resolved_end (rem + 1);
          tm = term_of st buf resolved_end walk_cap
      in case last_resolved tm head n ((length (e_offs st) - head) div n) of
           None \<Rightarrow> (Inr None, buf, head, r_head, s, st)
         | Some (avail, lst) \<Rightarrow>
             (let (cnt, stop) = (if rem = 0 then (1, True)
                    else (case snd lst of
                        Some fin \<Rightarrow> if fin < rem then (avail, False) else (ends_before tm head n rem avail 0 + 1, True)
                      | None \<Rightarrow> (ends_before tm head n rem avail 0 + 1, True)));
                  (last_run_start, last_run_end) = (if cnt \<noteq> avail then the (tm (head + cnt * n - 1)) else lst)
              in case the (assemble_records_fixed acc buf n (drop head (b_offs st)) (drop head (e_offs st))
                        (drop r_head (r_offs st)) cnt s) of
                   (Inl e, buf') \<Rightarrow> (Inl (from_user e), buf', head, r_head, s, st)
                 | (Inr s', buf') \<Rightarrow>
                     (let st = (case last_run_end of Some fin \<Rightarrow> st\<lparr>ix_record_start := fin + 1\<rparr> | None \<Rightarrow> st);
                          fin = tot + handoff last_run_start rem stop;
                          st = st\<lparr>ix_last_record_end := Some fin\<rparr>;
                          r_head' = skip_removed (r_offs st) r_head (e_offs st ! (head + cnt * n - 1))
                      in (Inr (if stop then Some fin else None), buf', head + cnt * n, r_head', s', st))))"

section \<open>A step\<close>

definition ix_prologue ::
    "isa \<Rightarrow> (byte list \<Rightarrow> nat) \<Rightarrow> byte list \<Rightarrow> nat \<Rightarrow> nat \<Rightarrow> SimdIndexStepper \<Rightarrow> nat \<times> SimdIndexStepper" where
  "ix_prologue I addr buf cursor e st =
     (if ix_needs_align_prologue st \<and> cursor = 0
      then (let cfg = ix_config st; pad = the (neutral_pad (sc_delim cfg) (sc_term cfg) (sc_term_b cfg) (sc_quote cfg))
            in case head_padded_prologue (addr buf mod VECTOR_BYTES) buf e pad of
                 Vector v misalign \<Rightarrow>
                   (let (_, sn) = scanner_step I v (ix_scanner st)
                    in (VECTOR_BYTES - misalign, st\<lparr>ix_scanner := sn, ix_needs_align_prologue := False\<rparr>))
               | Aligned \<Rightarrow> (cursor, st\<lparr>ix_needs_align_prologue := False\<rparr>)
               | TooShort \<Rightarrow> (cursor, st\<lparr>ix_needs_align_prologue := (e < VECTOR_BYTES)\<rparr>))
      else (cursor, st))"

text \<open>One vector through the scanner; its output, one vector behind, is verified and its offsets kept.\<close>

definition ix_vector :: "isa \<Rightarrow> byte list \<Rightarrow> u64 \<Rightarrow> SimdIndexStepper \<Rightarrow> bool \<times> SimdIndexStepper" where
  "ix_vector I v pending_base st =
     (let (out, sn) = scanner_step I v (ix_scanner st); st = st\<lparr>ix_scanner := sn\<rparr>
      in case out of
           None \<Rightarrow> (True, st)
         | Some o' \<Rightarrow> (case ix_verify I o' st of
               (True, st) \<Rightarrow> (True, ix_extend o' pending_base st) | (False, st) \<Rightarrow> (False, st)))"

definition IX_COMPACT_THRESHOLD :: nat where
  "IX_COMPACT_THRESHOLD = 2048"

definition IX_EMIT_BATCH_FIELDS :: nat where
  "IX_EMIT_BATCH_FIELDS = 128"

text \<open>The vector loop: \<open>Inl\<close> an early return, \<open>Inr\<close> the cursor and the heads it ends with.\<close>

function ix_loop ::
    "isa \<Rightarrow> ('s, 'u) accumulator \<Rightarrow> byte list \<Rightarrow> nat \<Rightarrow> nat \<Rightarrow> nat \<Rightarrow> nat \<Rightarrow> nat \<Rightarrow> nat \<Rightarrow> nat \<Rightarrow> 's \<Rightarrow> SimdIndexStepper
      \<Rightarrow> ('u StepResult + nat \<times> nat \<times> nat) \<times> byte list \<times> 's \<times> SimdIndexStepper" where
  "ix_loop I acc buf e rem tot n cursor head r_head s st =
     (if cursor + VECTOR_BYTES \<le> e
      then (let (ok, st) = ix_vector I (subslice buf cursor (cursor + VECTOR_BYTES)) (of_nat cursor - of_nat VECTOR_BYTES) st;
                cursor = cursor + VECTOR_BYTES
            in if \<not> ok then (Inl (StepError (ix_arity_error st (take e buf) tot)), buf, s, st)
               else if length (e_offs st) - head < IX_EMIT_BATCH_FIELDS
               then ix_loop I acc buf e rem tot n cursor head r_head s st
               else (case ix_flush acc buf head r_head (cursor - VECTOR_BYTES) rem tot n s st of
                   (Inr None, buf, head, r_head, s, st) \<Rightarrow>
                     if IX_COMPACT_THRESHOLD \<le> head
                     then ix_loop I acc buf e rem tot n cursor 0 0 s (drop_emitted_prefix head r_head st)
                     else ix_loop I acc buf e rem tot n cursor head r_head s st
                 | (Inr (Some fin), buf, head, r_head, s, st) \<Rightarrow> (Inl (Done fin), buf, s, st)
                 | (Inl err, buf, head, r_head, s, st) \<Rightarrow> (Inl (StepError err), buf, s, st)))
      else (Inr (cursor, head, r_head), buf, s, st))"
  by pat_completeness auto
termination
  by (relation "measure (\<lambda>(_, _, _, e, _, _, _, cursor, _). e - cursor)") (auto simp: VECTOR_BYTES_def)

declare ix_loop.simps [simp del]

definition ix_step ::
    "isa \<Rightarrow> (byte list \<Rightarrow> nat) \<Rightarrow> ('s, 'u) accumulator \<Rightarrow> StepCtx \<Rightarrow> 's \<Rightarrow> SimdIndexStepper
      \<Rightarrow> 'u StepResult \<times> byte list \<times> 's \<times> SimdIndexStepper" where
  "ix_step I addr acc ctx s st =
     (let buf = ctx_buf ctx; rem = remaining_in_chunk ctx; tot = total_consumed ctx; n = fc_n (ix_counter st);
          st = (if needs_chunk_start_b st then st\<lparr>b_offs := b_offs st @ [0], needs_chunk_start_b := False\<rparr> else st);
          (cursor, st) = ix_prologue I addr buf (scan_start ctx) (scan_end ctx) st
      in case ix_loop I acc buf (scan_end ctx) rem tot n cursor 0 0 s st of
           (Inl res, buf, s, st) \<Rightarrow> (res, buf, s, st)
         | (Inr (cursor, head, r_head), buf, s, st) \<Rightarrow>
             (let (res, buf, head, r_head, s, st) =
                (if n \<le> length (e_offs st) - head \<and> VECTOR_BYTES \<le> cursor
                 then ix_flush acc buf head r_head (cursor - VECTOR_BYTES) rem tot n s st
                 else (Inr None, buf, head, r_head, s, st))
              in case res of
                   Inl e \<Rightarrow> (StepError e, buf, s, st)
                 | Inr (Some fin) \<Rightarrow> (Done fin, buf, s, st)
                 | Inr None \<Rightarrow>
                     (let st = (if head \<noteq> 0 then drop_emitted_prefix head r_head st else st)
                      in (Suspended cursor (ix_record_start st) (ix_last_record_end st), buf, s, st))))"

definition ix_consume :: "nat \<Rightarrow> SimdIndexStepper \<Rightarrow> SimdIndexStepper" where
  "ix_consume n st =
     st\<lparr>ix_record_start := ix_record_start st - n, b_offs := map (\<lambda>x. x - n) (b_offs st),
        e_offs := map (\<lambda>x. x - n) (e_offs st), r_offs := map (\<lambda>x. x - n) (r_offs st)\<rparr>"

section \<open>The end of the input\<close>

text \<open>Feed the tail as a padded vector, with a synthetic terminator unless the last byte is one.\<close>

definition ix_tail ::
    "isa \<Rightarrow> byte list \<Rightarrow> nat \<Rightarrow> nat \<Rightarrow> nat \<Rightarrow> SimdIndexStepper \<Rightarrow> 'u Error + nat \<times> SimdIndexStepper" where
  "ix_tail I buf cursor e tot st =
     (let cfg = ix_config st; real_tail_len = e - cursor;
          needs_virtual_term = (0 < e \<and> \<not> ix_is_term st (buf ! (e - 1)))
      in if 0 < real_tail_len \<or> needs_virtual_term
         then (let pad = the (neutral_pad (sc_delim cfg) (sc_term cfg) (sc_term_b cfg) (sc_quote cfg));
                   v = subslice buf cursor e @ replicate (VECTOR_BYTES - real_tail_len) pad;
                   v = (if needs_virtual_term then v[real_tail_len := sc_term cfg] else v)
               in case ix_vector I v (of_nat cursor - of_nat VECTOR_BYTES) st of
                    (True, st) \<Rightarrow> Inr (cursor + VECTOR_BYTES, st)
                  | (False, st) \<Rightarrow> Inl (ix_arity_error st (take e buf) tot))
         else Inr (cursor, st))"

definition ix_drain_scanner ::
    "isa \<Rightarrow> byte list \<Rightarrow> nat \<Rightarrow> nat \<Rightarrow> SimdIndexStepper \<Rightarrow> 'u Error + SimdIndexStepper" where
  "ix_drain_scanner I zs cursor tot st =
     (let (out, sn) = scanner_finalize (ix_scanner st); st = st\<lparr>ix_scanner := sn\<rparr>
      in case out of
           None \<Rightarrow> Inr st
         | Some o' \<Rightarrow> (case ix_verify I o' st of
               (True, st) \<Rightarrow> Inr (ix_extend o' (of_nat cursor - of_nat VECTOR_BYTES) st)
             | (False, st) \<Rightarrow> Inl (ix_arity_error st zs tot)))"

text \<open>Where a quote was opened and never closed.\<close>

definition ix_unclosed :: "byte list \<Rightarrow> nat \<Rightarrow> SimdIndexStepper \<Rightarrow> nat" where
  "ix_unclosed buf e st =
     (let b = (if b_offs st = [] then e else last (b_offs st))
      in if 0 < b \<and> b \<le> e \<and> sc_quote (ix_config st) = Some (buf ! (b - 1)) then b - 1 else b)"

definition ix_trim :: "nat \<Rightarrow> SimdIndexStepper \<Rightarrow> SimdIndexStepper" where
  "ix_trim e st =
     st\<lparr>b_offs := filter (\<lambda>x. x \<le> e) (b_offs st), e_offs := filter (\<lambda>x. x \<le> e) (e_offs st),
        r_offs := filter (\<lambda>x. x < e) (r_offs st)\<rparr>"

text \<open>One record at a time, up to the first that crosses the chunk end.\<close>

function ix_drain ::
    "('s, 'u) accumulator \<Rightarrow> byte list \<Rightarrow> nat \<Rightarrow> nat \<Rightarrow> nat \<Rightarrow> nat \<Rightarrow> nat \<Rightarrow> nat \<Rightarrow> 's \<Rightarrow> SimdIndexStepper
      \<Rightarrow> 'u Error + nat option \<times> 's" where
  "ix_drain acc buf e rem tot n head r_head s st =
     (if 0 < n \<and> n \<le> length (e_offs st) - head
      then (let last_e = e_offs st ! (head + n - 1);
                run_start = walk_while (\<lambda>p. \<not> ix_is_term st (buf ! p)) e last_e;
                rec_end = walk_while (\<lambda>p. ix_is_term st (buf ! (p + 1))) (e - 1) run_start
            in case the (assemble_records_fixed acc buf n (drop head (b_offs st)) (drop head (e_offs st))
                      (drop r_head (r_offs st)) 1 s) of
                 (Inl err, _) \<Rightarrow> Inl (from_user err)
               | (Inr s', buf') \<Rightarrow>
                   (let stop = (rem < rec_end + 1);
                        st' = st\<lparr>ix_record_start := rec_end + 1,
                                 ix_last_record_end := Some (tot + handoff run_start rem stop)\<rparr>
                    in if stop then Inr (ix_last_record_end st', s')
                       else ix_drain acc buf' e rem tot n (head + n) (skip_removed (r_offs st) r_head last_e) s' st'))
      else Inr (ix_last_record_end st, s))"
  by pat_completeness auto
termination
  by (relation "measure (\<lambda>(_, _, _, _, _, _, head, _, _, st). length (e_offs st) - head)") auto

declare ix_drain.simps [simp del]

definition ix_finalize ::
    "isa \<Rightarrow> ('s, 'u) accumulator \<Rightarrow> StepCtx \<Rightarrow> 's \<Rightarrow> SimdIndexStepper \<Rightarrow> 'u Error + nat option \<times> 's" where
  "ix_finalize I acc ctx s st =
     (let buf = ctx_buf ctx; e = scan_end ctx; tot = total_consumed ctx
      in if e = 0 \<and> scan_start ctx = 0 then Inr (ix_last_record_end st, s)
         else try_bind (ix_tail I buf (scan_start ctx) e tot st) (\<lambda>(cursor, st).
              try_bind (ix_drain_scanner I (take e buf) cursor tot st) (\<lambda>st.
                if scanner_in_quotes (ix_scanner st) then Inl (UnclosedQuote (at_byte (tot + ix_unclosed buf e st)))
                else ix_drain acc buf e (remaining_in_chunk ctx) tot (fc_n (ix_counter st)) 0 0 s (ix_trim e st))))"

definition index_stepper_ops ::
    "isa \<Rightarrow> (byte list \<Rightarrow> nat) \<Rightarrow> (SimdIndexStepper, 's, 'u) stepper_ops" where
  "index_stepper_ops I addr = \<lparr>st_step = ix_step I addr, st_consume = ix_consume, st_finalize = ix_finalize I\<rparr>"

end
