(* ===== verification/IndexFlush.thy ===== *)
theory IndexFlush
  imports IndexEmit IndexStepper
begin

text \<open>
  Handing over from the index stepper: the terminator runs behind the records, how many records are resolved and
  which of them the chunk still covers. Offsets of the stepper are positions of the stream of vectors less \<open>g\<close>, the
  bytes of that stream before the buffer.
\<close>

section \<open>Terminator runs\<close>

lemma walk_while_spec:
  assumes "walk_while go lim p = p'"
  shows "p \<le> p' \<and> p' \<le> max p lim \<and> (\<forall>k. p \<le> k \<and> k < p' \<longrightarrow> go k) \<and> (p' < lim \<longrightarrow> \<not> go p')"
  using assms
proof (induction go lim p rule: walk_while.induct)
  case (1 go lim p)
  show ?case
  proof (cases "p < lim \<and> go p")
    case True
    then have "walk_while go lim (p + 1) = p'" using 1(2) by (subst (asm) walk_while.simps) simp
    note IH = 1(1)[OF True this]
    have "go k" if "p \<le> k" "k < p'" for k using IH True that by (cases "k = p") auto
    then show ?thesis using IH True by auto
  next
    case False
    then show ?thesis using 1(2) unfolding walk_while.simps[of go lim p] if_not_P[OF False] by auto
  qed
qed

text \<open>The buffer from \<open>R\<close> on holds the stream from \<open>g + R\<close> on.\<close>

definition agrees :: "nat \<Rightarrow> nat \<Rightarrow> byte list \<Rightarrow> byte list \<Rightarrow> bool" where
  "agrees g R ws buf \<longleftrightarrow> g + length buf \<le> length ws \<and> (\<forall>k. R \<le> k \<and> k < length buf \<longrightarrow> buf ! k = ws ! (g + k))"

lemma term_of_Some:
  assumes tm: "term_of st buf res cap idx = Some (r, fin)" and is_term: "\<And>b. ix_is_term st b \<longleftrightarrow> terminates c b"
    and ag: "agrees g R ws buf" and "res \<le> length buf" and "R \<le> e" and e: "e = e_offs st ! idx" and "cap \<le> res"
  obtains b where "run_at c ws (g + e) (g + r) (g + b)" "r < res" "b < res"
    "case fin of Some f \<Rightarrow> f = b \<and> b + 1 < cap \<and> \<not> terminates c (ws ! (g + b + 1)) | None \<Rightarrow> cap < res \<and> cap \<le> b + 1"
proof -
  have at: "terminates c (buf ! k) \<longleftrightarrow> terminates c (ws ! (g + k))" if "R \<le> k" "k < res" for k
    using ag that assms(4) by (simp add: agrees_def)
  define p where "p = walk_while (\<lambda>p. \<not> ix_is_term st (buf ! p)) res e"
  define b where "b = walk_while (\<lambda>p. ix_is_term st (buf ! (p + 1))) (cap - 1) p"
  note w1 = walk_while_spec[OF p_def[symmetric], unfolded is_term]
  note w2 = walk_while_spec[OF b_def[symmetric], unfolded is_term]
  have out: "p < res" "r = p" "b + 1 < cap \<and> fin = Some b \<or> \<not> b + 1 < cap \<and> cap < res \<and> fin = None"
    using tm unfolding term_of_def Let_def e[symmetric] p_def[symmetric] b_def[symmetric] by (auto split: if_splits)
  have bres: "b < res" using w2 out(1) assms(7) by (auto simp: max_def split: if_splits)
  have before: "\<not> terminates c (ws ! k)" if k: "g + e \<le> k" "k < g + r" for k
  proof -
    have "e \<le> k - g" "k - g < p" using k out(2) by simp_all
    then have "\<not> terminates c (buf ! (k - g))" using w1 by blast
    moreover have "R \<le> k - g" "k - g < res" using k out assms(5) by auto
    ultimately show ?thesis using at[of "k - g"] k(1) by simp
  qed
  have in_run: "terminates c (ws ! k)" if k: "g + r \<le> k" "k \<le> g + b" for k
  proof -
    have "terminates c (buf ! (k - g))"
    proof (cases "k - g = r")
      case True
      then show ?thesis using w1 out(1,2) by simp
    next
      case False
      then have "r \<le> k - g - 1" "k - g - 1 < b" "k - g - 1 + 1 = k - g" using k by auto
      then show ?thesis using w2 out(2) by metis
    qed
    moreover have "R \<le> k - g" "k - g < res" using k bres out(2) w1 assms(5) by auto
    ultimately show ?thesis using at[of "k - g"] k by simp
  qed
  have "run_at c ws (g + e) (g + r) (g + b)"
    unfolding run_at_def using w1 w2 out(2) bres assms(4) ag before in_run by (auto simp: agrees_def)
  moreover have "\<not> terminates c (ws ! (g + b + 1))" if "b + 1 < cap"
  proof -
    have "\<not> terminates c (buf ! (b + 1))" using w2 that by auto
    moreover have "R \<le> b + 1" "b + 1 < res" using that assms(5,7) w1 w2 by auto
    ultimately show ?thesis using at[of "b + 1"] by (simp add: add.assoc)
  qed
  ultimately show ?thesis using that[of b] out bres by auto
qed

text \<open>Two runs behind the same field end.\<close>

lemma run_at_unique:
  assumes "run_at c ws e r b" and "run_at c ws e r' b'" and "\<not> terminates c (ws ! (b' + 1))"
  shows "r = r'" "b \<le> b'"
proof -
  have r: "e \<le> r" "e \<le> r'" "terminates c (ws ! r)" "terminates c (ws ! r')" "\<forall>k. e \<le> k \<and> k < r \<longrightarrow> \<not> terminates c (ws ! k)"
    "\<forall>k. e \<le> k \<and> k < r' \<longrightarrow> \<not> terminates c (ws ! k)"
    using assms(1,2) by (auto simp: run_at_def)
  show eq: "r = r'" using r by (metis linorder_neqE_nat)
  show "b \<le> b'"
  proof (rule ccontr)
    assume "\<not> b \<le> b'"
    then have "r \<le> b' + 1" "b' + 1 \<le> b" using assms(2) eq by (auto simp: run_at_def)
    then show False using assms(1,3) by (simp add: run_at_def)
  qed
qed

lemma term_of_resolved:
  assumes is_term: "\<And>b. ix_is_term st b \<longleftrightarrow> terminates c b"
    and ag: "agrees g R ws buf" and "res \<le> length buf" and "R \<le> e" and e: "e = e_offs st ! idx" and "cap \<le> res"
    and run: "run_at c ws (g + e) (g + r) (g + b)" and "b + 1 < res" and "\<not> terminates c (ws ! (g + b + 1))"
  shows "term_of st buf res cap idx \<noteq> None"
proof
  assume none: "term_of st buf res cap idx = None"
  have at: "terminates c (buf ! k) \<longleftrightarrow> terminates c (ws ! (g + k))" if "R \<le> k" "k < res" for k
    using ag that assms(3) by (simp add: agrees_def)
  have rb: "e \<le> r" "r \<le> b" "\<And>k. r \<le> k \<Longrightarrow> k \<le> b \<Longrightarrow> terminates c (ws ! (g + k))"
    "\<And>k. e \<le> k \<Longrightarrow> k < r \<Longrightarrow> \<not> terminates c (ws ! (g + k))"
    using run by (auto simp: run_at_def)
  define p where "p = walk_while (\<lambda>p. \<not> ix_is_term st (buf ! p)) res e"
  define p2 where "p2 = walk_while (\<lambda>p. ix_is_term st (buf ! (p + 1))) (cap - 1) p"
  note w1 = walk_while_spec[OF p_def[symmetric], unfolded is_term]
  note w2 = walk_while_spec[OF p2_def[symmetric], unfolded is_term]
  have "terminates c (buf ! r)" using at[of r] rb assms(4,8) by simp
  then have "p \<le> r" using w1 rb(1) by (metis not_le)
  then have pr: "p < res" using rb(2) assms(8) by simp
  have "r \<le> p"
  proof (rule ccontr)
    assume "\<not> r \<le> p"
    then have "\<not> terminates c (buf ! p)" using at[of p] rb(4)[of p] w1 assms(4) pr by simp
    then show False using w1 pr by simp
  qed
  then have p: "p = r" using \<open>p \<le> r\<close> by simp
  have "\<not> p2 + 1 < cap" "\<not> cap < res"
    using none pr unfolding term_of_def Let_def e[symmetric] p_def[symmetric] p2_def[symmetric] by (auto split: if_splits)
  then have "res \<le> p2 + 1" using assms(6) by simp
  then have "b < p2" using assms(8) by simp
  then have "terminates c (buf ! (b + 1))" using w2 p rb(2) by auto
  then show False using at[of "b + 1"] assms(4,8,9) rb(1,2) by (simp add: add.assoc)
qed

section \<open>Resolved records\<close>

text \<open>A record with a field end behind it is resolved: its run ends before that field does.\<close>

lemma listed_resolved:
  assumes q: "quoting c n cfg" and li: "listed n ph cfg ws P first i bs es" and len: "n < length es"
  obtains r b where "run_at c ws (es ! (n - 1)) r b" "run_over c ws P b" "b < es ! n" "\<not> terminates c (ws ! (b + 1))" "es ! n < P"
proof -
  have n1: "1 \<le> n" using quoting_sel(8)[OF q] .
  define ds where "ds = take (n - 1) es"
  define e where "e = es ! (n - 1)"
  have split: "es = ds @ e # drop n es" "length ds = n - 1"
    using len n1 id_take_nth_drop[of "n - 1" es] by (simp_all add: ds_def e_def)
  have pl: "placed first cfg ws i" and ends: "ends_in cfg ws i P = ds @ e # drop n es"
    and count: "count_fields n 0 (kinds_in cfg ws i P) = Some ph" using li split(1) by (simp_all add: listed_def)
  define m where "m = (spec_init 0 ())\<lparr>m_state := FieldStart\<rparr>"
  have m: "m_state m = FieldStart" "m_cur m = []" by (simp_all add: m_def spec_init_def)
  have "0 + length ds \<le> n - 1" by (simp add: split(2))
  from quoted_fields[OF q pl ends count this m, of "filter (removed_at cfg ws) [i..<P]" accept_all 0 0] obtain i' where
    i': "placed (first \<and> ds = []) cfg ws i'" "ends_in cfg ws i' P = e # drop n es"
    "count_fields n (n - 1) (kinds_in cfg ws i' P) = Some ph"
    unfolding split(2) by auto
  obtain x where x: "field_at cfg ws i' x" "e = field_fin cfg ws x" "drop n es = ends_in cfg ws (x + 1) P"
    using ends_first[OF q conjunct1[OF i'(1)[unfolded placed_def]] i'(2)] by blast
  have "drop n es = es ! n # drop (n + 1) es" using len by (simp add: Cons_nth_drop_Suc)
  then have E: "x < es ! n" "es ! n < P" "end_at cfg ws (es ! n)"
    using filter_upt_Cons(1-3)[of "end_at cfg ws" "x + 1" P "es ! n"] x(3) by (auto simp: ends_in_def)
  have ix: "i' \<le> x" "close_at cfg ws x" using x(1) by (auto simp: field_at_def intro: field_close_closes)
  have "\<not> delim_at cfg ws x"
  proof
    assume d: "delim_at cfg ws x"
    then have "struct_at cfg ws x" by (simp add: struct_at_def)
    moreover have "x < P" using E by simp
    ultimately have "kinds_in cfg ws i' P = term_at cfg ws x # kinds_in cfg ws (x + 1) P"
      using kinds_struct[OF ix(1)] field_no_struct[OF x(1)] by blast
    then show False using i'(3) d term_not_delim[OF q, of ws x] by (auto split: if_splits)
  qed
  then have t: "term_at cfg ws x" using ix(2) by (simp add: close_at_def)
  from end_after_run[OF q t E(3,1)] obtain d where
    d: "x \<le> d" "d < es ! n" "struct_at cfg ws d" "term_at cfg ws d" "\<And>k. x \<le> k \<Longrightarrow> k < d \<Longrightarrow> \<not> struct_at cfg ws k" by blast
  have terms: "terminates c (ws ! k) \<and> k < length ws" if "x \<le> k" "k \<le> d" for k
    using term_chain[OF t d(5) that] quoting_at(3)[OF q] by simp
  have before: "\<not> terminates c (ws ! k)" if "e \<le> k" "k < x" for k
  proof -
    have "k = x - 1" "closer_at cfg ws (x - 1)" using that x(2) by (auto simp: field_fin_def split: if_splits)
    then have "quote_at cfg ws k" by (simp add: closer_at_def)
    then show ?thesis using quoting_at(1)[OF q] quoting_sel(7)[OF q] by auto
  qed
  have "\<not> term_at cfg ws (d + 1)" using d(3,4) term_not_delim[OF q, of ws d] by (auto simp: struct_at_def run_end_at_def)
  moreover have dl: "d + 1 < length ws" using d(2) end_at_length[OF E(3)] by simp
  ultimately have nt: "\<not> terminates c (ws ! (d + 1))"
    using quoting_at(1,3)[OF q, of ws "d + 1"] quoting_sel(7)[OF q] d(4) quoting_at(3)[OF q, of ws d] by (auto simp: quoted_Suc)
  have "e \<le> x" by (simp add: x(2) field_fin_def)
  then have "run_at c ws e x d" using terms before d(1) by (auto simp: run_at_def)
  moreover have "run_over c ws P d" using d(2) E(2) nt by (simp add: run_over_def)
  ultimately show ?thesis using that[of x d] d(2) nt E(2) by (simp add: e_def)
qed

lemma listed_next:
  assumes q: "quoting c n cfg" and li: "listed n ph cfg ws P first i bs es" and "n \<le> length es" and "\<not> terminates c (ws ! i)"
    and "run_at c ws (es ! (n - 1)) r b" "r < P" "run_over c ws P b"
  shows "n \<le> length bs" "listed n ph cfg ws P False (b + 1) (drop n bs) (drop n es)"
proof -
  have "at_record (spec_init 0 ())" by (simp add: at_record_def spec_init_def)
  moreover have "marks_removed cfg ws (filter (removed_at cfg ws) [i..<P]) i P" by (auto simp: marks_removed_def)
  ultimately show "n \<le> length bs" "listed n ph cfg ws P False (b + 1) (drop n bs) (drop n es)"
    using listed_record[OF q li assms(3) _ assms(4) _ assms(5,6)] assms(7) by blast+
qed

lemma listed_resolved_all:
  assumes q: "quoting c n cfg" and "listed n ph cfg ws P first i bs es" and "\<not> terminates c (ws ! i)" and "Suc j * n < length es"
  shows "\<exists>r b. run_at c ws (es ! (Suc j * n - 1)) r b \<and> run_over c ws P b \<and> b < es ! (Suc j * n) \<and> \<not> terminates c (ws ! (b + 1)) \<and>
    es ! (Suc j * n) < P"
  using assms(2-)
proof (induction j arbitrary: first i bs es)
  case 0
  then show ?case using listed_resolved[OF q 0(1)] by (metis One_nat_def nat_mult_1)
next
  case (Suc j)
  have n1: "1 \<le> n" using quoting_sel(8)[OF q] .
  have "n < length es" using Suc.prems(3) n1 by simp
  from listed_resolved[OF q Suc.prems(1) this] obtain r b where
    rb: "run_at c ws (es ! (n - 1)) r b" "run_over c ws P b" "\<not> terminates c (ws ! (b + 1))" by blast
  have "r < P" using rb(1,2) by (simp add: run_at_def run_over_def)
  note nx = listed_next[OF q Suc.prems(1) less_imp_le[OF \<open>n < length es\<close>] Suc.prems(2) rb(1) this rb(2)]
  have "Suc j * n < length (drop n es)" using Suc.prems(3) by simp
  from Suc.IH[OF nx(2) rb(3) this]
  obtain r' b' where "run_at c ws (drop n es ! (Suc j * n - 1)) r' b'" "run_over c ws P b'" "b' < drop n es ! (Suc j * n)"
    "\<not> terminates c (ws ! (b' + 1))" "drop n es ! (Suc j * n) < P" by blast
  moreover have "drop n es ! (Suc j * n - 1) = es ! (Suc (Suc j) * n - 1)" "drop n es ! (Suc j * n) = es ! (Suc (Suc j) * n)"
    using n1 \<open>n < length es\<close> by simp_all
  ultimately show ?case by metis
qed

section \<open>How many records to hand over\<close>

lemma last_resolved_spec:
  "last_resolved tm head n A = Some (a, t) \<Longrightarrow> 1 \<le> a \<and> a \<le> A \<and> tm (head + a * n - 1) = Some t"
  by (induction tm head n A rule: last_resolved.induct) (auto split: option.splits)

abbreviation ends_in_chunk :: "(nat \<Rightarrow> (nat \<times> nat option) option) \<Rightarrow> nat \<Rightarrow> nat \<Rightarrow> bool" where
  "ends_in_chunk tm rem idx \<equiv> (case tm idx of Some (_, Some fin) \<Rightarrow> fin < rem | _ \<Rightarrow> False)"

lemma ends_before_spec:
  assumes "ends_before tm head n rem avail k = k'"
  shows "k \<le> k' \<and> (k < avail \<longrightarrow> k' < avail) \<and> (\<forall>j. k \<le> j \<and> j < k' \<longrightarrow> ends_in_chunk tm rem (head + (j + 1) * n - 1)) \<and>
    (k' + 1 < avail \<longrightarrow> \<not> ends_in_chunk tm rem (head + (k' + 1) * n - 1))"
  using assms
proof (induction tm head n rem avail k rule: ends_before.induct)
  case (1 tm head n rem avail k)
  show ?case
  proof (cases "k + 1 < avail \<and> ends_in_chunk tm rem (head + (k + 1) * n - 1)")
    case True
    then have "ends_before tm head n rem avail (k + 1) = k'" using 1(2) by (subst (asm) ends_before.simps) simp
    note IH = 1(1)[OF True this]
    have "ends_in_chunk tm rem (head + (j + 1) * n - 1)" if "k \<le> j" "j < k'" for j
      using IH True that by (cases "j = k") auto
    then show ?thesis using IH True by auto
  next
    case False
    then have "k' = k" using 1(2) unfolding ends_before.simps[of tm head n rem avail k] if_not_P[OF False] by simp
    then show ?thesis using False by auto
  qed
qed

text \<open>The decision of a flush: the number of records, whether the last one ends the chunk, and its run.\<close>

definition flush_plan :: "(nat \<Rightarrow> (nat \<times> nat option) option) \<Rightarrow> nat \<Rightarrow> nat \<Rightarrow> nat \<Rightarrow> nat \<Rightarrow> nat \<times> nat option \<Rightarrow> nat \<times> bool \<times> nat \<times> nat option" where
  "flush_plan tm head n rem avail lst =
     (let (cnt, stop) = (if rem = 0 then (1, True)
            else (case snd lst of
                Some fin \<Rightarrow> if fin < rem then (avail, False) else (ends_before tm head n rem avail 0 + 1, True)
              | None \<Rightarrow> (ends_before tm head n rem avail 0 + 1, True)))
      in (cnt, stop, if cnt \<noteq> avail then the (tm (head + cnt * n - 1)) else lst))"

lemma flush_plan_ok:
  assumes q: "quoting c n cfg" and is_term: "\<And>b. ix_is_term st b \<longleftrightarrow> terminates c b"
    and ag: "agrees g R ws buf" and res: "res \<le> length buf"
    and li: "listed n ph cfg ws (g + res) first (g + R) bs (map ((+) g) (drop head (e_offs st)))" and first: "\<not> terminates c (ws ! (g + R))"
    and lr: "last_resolved tm head n ((length (e_offs st) - head) div n) = Some (avail, lst)"
    and tm: "tm = term_of st buf res (min res (rem + 1))"
    and plan: "flush_plan tm head n rem avail lst = (cnt, stop, lrs, lre)"
  obtains r b where "1 \<le> cnt" "cnt * n \<le> length (drop head (e_offs st))"
    "\<And>j. j < cnt \<Longrightarrow> run_at c ws (g + drop head (e_offs st) ! (Suc j * n - 1)) (g + r j) (g + b j) \<and> r j < res \<and> b j < res"
    "\<And>j. j + 1 < cnt \<Longrightarrow> run_over c ws (g + res) (g + b j) \<and> b j < rem"
    "r (cnt - 1) = lrs" "stop \<Longrightarrow> rem \<le> b (cnt - 1)"
    "\<not> stop \<Longrightarrow> lre = Some (b (cnt - 1)) \<and> b (cnt - 1) < rem \<and> run_over c ws (g + res) (g + b (cnt - 1))"
proof -
  let ?es = "drop head (e_offs st)"
  let ?ges = "map ((+) g) ?es"
  let ?cap = "min res (rem + 1)"
  define idx where "idx j = head + Suc j * n - 1" for j
  have n1: "1 \<le> n" using quoting_sel(8)[OF q] .
  note lr' = last_resolved_spec[OF lr]
  have "avail * n \<le> (length (e_offs st) - head) div n * n" using lr' by (intro mult_le_mono1) simp
  from le_trans[OF this div_times_less_eq_dividend] have alen: "avail * n \<le> length ?es" by simp
  have jlt: "Suc j * n - 1 < length ?es" if "j < avail" for j
  proof -
    have "Suc j * n \<le> avail * n" using that by (intro mult_le_mono1) simp
    moreover have "0 < Suc j * n" using n1 by simp
    ultimately show ?thesis using alen by linarith
  qed
  have e_idx: "e_offs st ! idx j = ?es ! (Suc j * n - 1)" if "j < avail" for j
  proof -
    have "head + (Suc j * n - 1) = idx j" using n1 by (simp add: idx_def)
    then show ?thesis using jlt[OF that] by simp
  qed
  have Re: "R \<le> ?es ! (Suc j * n - 1)" if "j < avail" for j
  proof -
    have "?ges ! (Suc j * n - 1) \<in> set ?ges" using jlt[OF that] by (intro nth_mem) simp
    moreover have "?ges = ends_in cfg ws (g + R) (g + res)" using li by (simp add: listed_def)
    moreover have "x \<in> set (ends_in cfg ws (g + R) (g + res)) \<Longrightarrow> g + R \<le> x" for x by (simp add: ends_in_def)
    ultimately have "g + R \<le> ?ges ! (Suc j * n - 1)" by metis
    then show ?thesis using jlt[OF that] by simp
  qed
  have resolved: "\<exists>r0 b0. run_at c ws (g + ?es ! (Suc j * n - 1)) (g + r0) (g + b0) \<and> g + b0 < ?ges ! (Suc j * n) \<and> b0 + 1 < res \<and>
      \<not> terminates c (ws ! (g + b0 + 1)) \<and> run_over c ws (g + res) (g + b0)" if j: "j + 1 < avail" for j
  proof -
    have "Suc j * n < avail * n" using mult_less_mono1[OF j, of n] n1 by simp
    then have lt: "Suc j * n < length ?ges" using alen by simp
    from listed_resolved_all[OF q li first lt] obtain r0 b0 where
      rb: "run_at c ws (?ges ! (Suc j * n - 1)) r0 b0" "run_over c ws (g + res) b0" "b0 < ?ges ! (Suc j * n)"
        "\<not> terminates c (ws ! (b0 + 1))" "?ges ! (Suc j * n) < g + res" by blast
    have ge: "?ges ! (Suc j * n - 1) = g + ?es ! (Suc j * n - 1)" using jlt[of j] j by simp
    have "g \<le> r0" "r0 \<le> b0" using rb(1) ge by (auto simp: run_at_def)
    then have "r0 = g + (r0 - g)" "b0 = g + (b0 - g)" "b0 - g + 1 < res" using rb(3,5) by simp_all
    then show ?thesis using rb ge by (intro exI[of _ "r0 - g"] exI[of _ "b0 - g"]) simp
  qed
  have some: "tm (idx j) \<noteq> None" if "j < avail" for j
  proof (cases "j + 1 < avail")
    case True
    from resolved[OF this] show ?thesis
      unfolding tm using term_of_resolved[OF is_term ag res Re[OF that] e_idx[OF that, symmetric], of ?cap] by auto
  next
    case False
    then have "avail = Suc j" using that by simp
    then show ?thesis using lr' by (simp add: idx_def)
  qed
  define r where "r j = fst (the (tm (idx j)))" for j
  define fin where "fin j = snd (the (tm (idx j)))" for j
  have tm_j: "tm (idx j) = Some (r j, fin j)" if "j < avail" for j
    using some[OF that] by (auto simp: r_def fin_def)
  have "\<forall>j. \<exists>b. j < avail \<longrightarrow> run_at c ws (g + ?es ! (Suc j * n - 1)) (g + r j) (g + b) \<and> r j < res \<and> b < res \<and>
      (case fin j of Some f \<Rightarrow> f = b \<and> b + 1 < ?cap \<and> \<not> terminates c (ws ! (g + b + 1)) | None \<Rightarrow> ?cap < res \<and> ?cap \<le> b + 1)"
  proof
    fix j
    show "\<exists>b. j < avail \<longrightarrow> run_at c ws (g + ?es ! (Suc j * n - 1)) (g + r j) (g + b) \<and> r j < res \<and> b < res \<and>
      (case fin j of Some f \<Rightarrow> f = b \<and> b + 1 < ?cap \<and> \<not> terminates c (ws ! (g + b + 1)) | None \<Rightarrow> ?cap < res \<and> ?cap \<le> b + 1)"
    proof (cases "j < avail")
      case True
      from term_of_Some[OF tm_j[OF True, unfolded tm] is_term ag res Re[OF True] e_idx[OF True, symmetric] min.cobounded1]
      show ?thesis by metis
    qed simp
  qed
  from choice[OF this] obtain b where b: "\<And>j. j < avail \<Longrightarrow> run_at c ws (g + ?es ! (Suc j * n - 1)) (g + r j) (g + b j) \<and> r j < res \<and> b j < res \<and>
      (case fin j of Some f \<Rightarrow> f = b j \<and> b j + 1 < ?cap \<and> \<not> terminates c (ws ! (g + b j + 1)) | None \<Rightarrow> ?cap < res \<and> ?cap \<le> b j + 1)"
    by blast
  have over: "run_over c ws (g + res) (g + b j)" if "j < avail" "fin j = Some f" for j f
    using b[OF that(1)] that(2) by (simp add: run_over_def)
  have crossing: "rem \<le> b j" if "j < avail" "\<not> (\<exists>f. fin j = Some f \<and> f < rem)" for j
    using b[OF that(1)] that(2) by (cases "fin j") auto
  have "lst = (r (avail - 1), fin (avail - 1))" "0 < avail"
    using lr' tm_j[of "avail - 1"] by (simp_all add: idx_def)
  have in_chunk: "ends_in_chunk tm rem (idx j) \<longleftrightarrow> (\<exists>f. fin j = Some f \<and> f < rem)" if "j < avail" for j
    using tm_j[OF that] by (auto split: option.split)
  have rl: "(if cnt \<noteq> avail then the (tm (head + cnt * n - 1)) else lst) = (r (cnt - 1), fin (cnt - 1))" if "1 \<le> cnt" "cnt \<le> avail"
    using that tm_j[of "cnt - 1"] \<open>lst = _\<close> by (auto simp: idx_def)
  consider (zero) "rem = 0" "cnt = 1" "stop"
    | (all) "rem \<noteq> 0" "\<exists>f. fin (avail - 1) = Some f \<and> f < rem" "cnt = avail" "\<not> stop"
    | (some) "rem \<noteq> 0" "\<not> (\<exists>f. fin (avail - 1) = Some f \<and> f < rem)" "cnt = ends_before tm head n rem avail 0 + 1" "stop"
    using plan \<open>lst = _\<close> by (auto simp: flush_plan_def Let_def split: if_splits option.splits)
  then have "1 \<le> cnt \<and> cnt \<le> avail \<and> (\<forall>j. j + 1 < cnt \<longrightarrow> run_over c ws (g + res) (g + b j) \<and> b j < rem) \<and>
      (stop \<longrightarrow> rem \<le> b (cnt - 1)) \<and> (\<not> stop \<longrightarrow> fin (cnt - 1) = Some (b (cnt - 1)) \<and> b (cnt - 1) < rem)"
  proof cases
    case zero
    then show ?thesis using \<open>0 < avail\<close> by simp
  next
    case all
    then obtain f where f: "fin (avail - 1) = Some f" "f < rem" by blast
    have fb: "f = b (avail - 1)" using b[of "avail - 1"] f \<open>0 < avail\<close> by simp
    have "run_over c ws (g + res) (g + b j) \<and> b j < rem" if j: "j + 1 < avail" for j
    proof -
      from resolved[OF j] obtain r0 b0 where rb: "run_at c ws (g + ?es ! (Suc j * n - 1)) (g + r0) (g + b0)"
        "g + b0 < ?ges ! (Suc j * n)" "\<not> terminates c (ws ! (g + b0 + 1))" "b0 + 1 < res" by blast
      have ja: "j < avail" using j by simp
      have "b j \<le> b0" using run_at_unique(2)[OF conjunct1[OF b[OF ja]] rb(1,3)] by simp
      moreover have "b0 < f"
      proof -
        have idxs: "Suc j * n \<le> avail * n - 1"
        proof -
          have "Suc j * n < avail * n" using mult_less_mono1[OF j, of n] n1 by simp
          then show ?thesis by linarith
        qed
        have last: "avail * n - 1 < length ?ges" using jlt[of "avail - 1"] \<open>0 < avail\<close> by simp
        have "?ges = ends_in cfg ws (g + R) (g + res)" using li by (simp add: listed_def)
        then have "sorted ?ges" by (simp add: ends_in_def sorted_wrt_filter)
        from sorted_nth_mono[OF this idxs last] have "?ges ! (Suc j * n) \<le> g + ?es ! (avail * n - 1)" using last by simp
        moreover have "g + ?es ! (avail * n - 1) \<le> g + r (avail - 1)" "r (avail - 1) \<le> b (avail - 1)"
          using b[of "avail - 1"] \<open>0 < avail\<close> by (simp_all add: run_at_def)
        ultimately show ?thesis using rb(2) fb by simp
      qed
      ultimately have lt: "b j < rem" using f(2) by simp
      then have "\<exists>f. fin j = Some f \<and> f < rem" using crossing[OF ja] by (metis not_le)
      then show ?thesis using over[OF ja] lt by blast
    qed
    then show ?thesis using all f fb \<open>0 < avail\<close> by auto
  next
    case some
    note eb = ends_before_spec[of tm head n rem avail 0, OF refl]
    define k where "k = ends_before tm head n rem avail 0"
    have k: "k < avail" "cnt = k + 1" using eb \<open>0 < avail\<close> some(3) by (simp_all add: k_def)
    have "run_over c ws (g + res) (g + b j) \<and> b j < rem" if "j < k" for j
    proof -
      have ja: "j < avail" using that k(1) by simp
      have "ends_in_chunk tm rem (idx j)" using eb that by (simp add: k_def idx_def)
      then obtain f where "fin j = Some f" "f < rem" using in_chunk[OF ja] by blast
      then show ?thesis using over[OF ja] b[OF ja] by simp
    qed
    moreover have "\<not> (\<exists>f. fin k = Some f \<and> f < rem)"
    proof (cases "k + 1 < avail")
      case True
      then have "\<not> ends_in_chunk tm rem (idx k)" using eb by (simp add: k_def idx_def)
      then show ?thesis using in_chunk[OF k(1)] by blast
    next
      case False
      then have "k = avail - 1" using k(1) by simp
      then show ?thesis using some(2) by simp
    qed
    ultimately show ?thesis using crossing[OF k(1)] k some(4) by simp
  qed
  then have cnt: "1 \<le> cnt" "cnt \<le> avail" "\<And>j. j + 1 < cnt \<Longrightarrow> run_over c ws (g + res) (g + b j) \<and> b j < rem"
    "stop \<Longrightarrow> rem \<le> b (cnt - 1)" "\<not> stop \<Longrightarrow> fin (cnt - 1) = Some (b (cnt - 1)) \<and> b (cnt - 1) < rem" by blast+
  have lrs: "r (cnt - 1) = lrs" "fin (cnt - 1) = lre"
    using plan rl[OF cnt(1,2)] by (auto simp: flush_plan_def Let_def split: prod.splits)
  have last: "cnt - 1 < avail" using cnt(1,2) by simp
  show ?thesis
  proof (rule that[of r b])
    show "cnt * n \<le> length ?es" using alen cnt(2) by (meson le_trans mult_le_mono1)
    show "run_at c ws (g + ?es ! (Suc j * n - 1)) (g + r j) (g + b j) \<and> r j < res \<and> b j < res" if "j < cnt" for j
      using b[of j] that cnt(2) by simp
    show "\<not> stop \<Longrightarrow> lre = Some (b (cnt - 1)) \<and> b (cnt - 1) < rem \<and> run_over c ws (g + res) (g + b (cnt - 1))"
      using cnt(5) over[OF last] lrs by simp
  qed (use cnt lrs in simp_all)
qed

section \<open>A flush\<close>

lemma ix_flush_plan:
  assumes "last_resolved (term_of st buf res (min res (rem + 1))) head n ((length (e_offs st) - head) div n) = Some (avail, lst)"
    and "flush_plan (term_of st buf res (min res (rem + 1))) head n rem avail lst = (cnt, stop, lrs, lre)"
    and "assemble_records_fixed acc buf n (drop head (b_offs st)) (drop head (e_offs st)) (drop r_head (r_offs st)) cnt s = Some (ares, buf1)"
  shows "ix_flush acc buf head r_head res rem tot n s st = (case ares of
      Inl e \<Rightarrow> (Inl (from_user e), buf1, head, r_head, s, st)
    | Inr s' \<Rightarrow> (Inr (if stop then Some (tot + handoff lrs rem stop) else None), buf1, head + cnt * n,
        skip_removed (r_offs st) r_head (e_offs st ! (head + cnt * n - 1)), s',
        st\<lparr>ix_record_start := (case lre of Some fin \<Rightarrow> fin + 1 | None \<Rightarrow> ix_record_start st),
           ix_last_record_end := Some (tot + handoff lrs rem stop)\<rparr>))"
proof -
  define tm where "tm = term_of st buf res (min res (rem + 1))"
  obtain cnt0 stop0 where p1: "(if rem = 0 then (1, True)
            else (case snd lst of
                Some fin \<Rightarrow> if fin < rem then (avail, False) else (ends_before tm head n rem avail 0 + 1, True)
              | None \<Rightarrow> (ends_before tm head n rem avail 0 + 1, True))) = (cnt0, stop0)" by fastforce
  obtain lrs0 lre0 where p2: "(if cnt0 \<noteq> avail then the (tm (head + cnt0 * n - 1)) else lst) = (lrs0, lre0)" by fastforce
  have eqs: "cnt0 = cnt" "stop0 = stop" "lrs0 = lrs" "lre0 = lre"
    using assms(2) unfolding flush_plan_def Let_def tm_def[symmetric] p1 prod.case p2 by simp_all
  show ?thesis
    unfolding ix_flush_def Let_def tm_def[symmetric] assms(1)[folded tm_def] option.case prod.case p1 eqs p2[unfolded eqs] assms(3) option.sel
    by (auto split: sum.split option.split)
qed

definition indexed :: "Config \<Rightarrow> nat \<Rightarrow> nat \<Rightarrow> byte list \<Rightarrow> nat \<Rightarrow> nat \<Rightarrow> bool \<Rightarrow> nat \<Rightarrow> nat \<Rightarrow> SimdIndexStepper \<Rightarrow> bool" where
  "indexed c n ph ws g P first head r_head st \<longleftrightarrow>
     listed n ph (scan_config c) ws P first (g + ix_record_start st) (map ((+) g) (drop head (b_offs st))) (map ((+) g) (drop head (e_offs st))) \<and>
     map ((+) g) (drop r_head (r_offs st)) = filter (removed_at (scan_config c) ws) [g + ix_record_start st..<P] \<and>
     head \<le> length (b_offs st) \<and> head \<le> length (e_offs st) \<and> r_head \<le> length (r_offs st) \<and>
     (g + ix_record_start st < length ws \<longrightarrow> \<not> terminates c (ws ! (g + ix_record_start st)))"

lemma spans_in_shift: "spans_in (g + lo) (map (\<lambda>(b, e). (g + b, g + e)) fs) (g + hi) \<longleftrightarrow> spans_in lo fs (hi :: nat)"
  by (induction fs arbitrary: lo) auto

lemma strided_map: "strided n k (map f xs) = map (map f) (strided n k xs)"
  by (induction k arbitrary: xs) (simp_all add: take_map drop_map)

lemma kept_shift:
  assumes "\<And>k. b \<le> k \<Longrightarrow> k < e \<Longrightarrow> buf ! k = ws ! (g + k)"
  shows "kept (map ((+) g) rs) ws (g + b) (g + e) = kept rs buf b e"
proof -
  have "[g + b..<g + e] = map ((+) g) [b..<e]" by (rule nth_equalityI) simp_all
  moreover have "g + k \<in> (+) g ` set rs \<longleftrightarrow> k \<in> set rs" for k by auto
  ultimately show ?thesis using assms by (auto simp: kept_def filter_map o_def)
qed

lemma skip_removed_drop: "drop (skip_removed rs r_head e) rs = dropWhile (\<lambda>r. r \<le> e) (drop r_head rs)"
  by (simp add: skip_removed_def dropWhile_eq_drop add.commute)

lemma dropWhile_filter_upt:
  assumes "\<And>k. e < k \<Longrightarrow> k \<le> b \<Longrightarrow> \<not> P k" and "e \<le> b" and "i \<le> b + 1"
  shows "dropWhile (\<lambda>r. r \<le> e) (filter P [i..<z]) = filter P [b + 1..<z]"
proof -
  have "filter P [i..<z] = filter P [i..<min (b + 1) z] @ filter P [b + 1..<z]"
  proof (cases "b + 1 \<le> z")
    case True
    then have "[i..<z] = [i..<b + 1] @ [b + 1..<z]" using assms(3) by (metis le_Suc_ex upt_add_eq_append)
    then show ?thesis using True by (simp add: min_def)
  qed (use assms(3) in \<open>simp add: min_def\<close>)
  moreover have "\<forall>r\<in>set (filter P [i..<min (b + 1) z]). r \<le> e"
  proof
    fix r assume "r \<in> set (filter P [i..<min (b + 1) z])"
    then have "r \<le> b" "P r" by auto
    then show "r \<le> e" using assms(1) by (metis not_le)
  qed
  moreover have "dropWhile (\<lambda>r. r \<le> e) (filter P [b + 1..<z]) = filter P [b + 1..<z]"
    using assms(2) by (cases "filter P [b + 1..<z]") (auto dest!: filter_upt_Cons(1))
  ultimately show ?thesis by (metis (mono_tags, lifting) dropWhile_append2)
qed

text \<open>What a flush leaves: the machine at the new start of the record in flight, everything before it handed over.\<close>

definition flushed ::
    "Config \<Rightarrow> nat \<Rightarrow> nat \<Rightarrow> ('s, 'u) accumulator \<Rightarrow> nat \<Rightarrow> nat \<Rightarrow> byte list \<Rightarrow> nat \<Rightarrow> nat \<Rightarrow> byte list \<Rightarrow> 's machine \<Rightarrow> SimdIndexStepper
      \<Rightarrow> byte list \<Rightarrow> nat \<Rightarrow> nat \<Rightarrow> 's \<Rightarrow> SimdIndexStepper \<Rightarrow> bool" where
  "flushed c n ph acc L tot ws g res buf m st buf' head' r_head' s' st' \<longleftrightarrow>
     (\<exists>m' first'. ix_record_start st \<le> ix_record_start st' \<and> (ix_record_start st' = ix_record_start st \<or> ix_record_start st' \<le> res) \<and>
       spec_run c acc L (tot + ix_record_start st) (subslice ws (g + ix_record_start st) (g + ix_record_start st')) m = Running m' \<and>
       s' = m_acc m' \<and> at_record m' \<and> ix_last_record_end st' = m_last_end m' \<and>
       indexed c n ph ws g (g + res) first' head' r_head' st' \<and>
       st' = st\<lparr>ix_record_start := ix_record_start st', ix_last_record_end := ix_last_record_end st'\<rparr> \<and>
       drop (ix_record_start st') buf' = drop (ix_record_start st') buf)"

lemma drop_agrees:
  assumes "agrees g R ws buf" and "drop R' buf' = drop R' buf" and "length buf' = length buf" and "R \<le> R'"
  shows "agrees g R' ws buf'"
proof -
  have "buf' ! k = buf ! k" if "R' \<le> k" "k < length buf" for k
    using nth_drop[of R' buf' "k - R'"] nth_drop[of R' buf "k - R'"] that assms(2,3) by simp
  then show ?thesis using assms(1,3,4) by (simp add: agrees_def)
qed

lemma records_shift:
  assumes "\<And>b e j. (b, e) \<in> set (take (k * n) fs) \<Longrightarrow> b \<le> j \<Longrightarrow> j < e \<Longrightarrow> buf ! j = ws ! (g + j)"
  shows "map (map (\<lambda>(b, e). kept (map ((+) g) rs) ws b e)) (strided n k (map (\<lambda>(b, e). (g + b, g + e)) fs)) =
    map (map (\<lambda>(b, e). kept rs buf b e)) (strided n k fs)"
  using assms
proof (induction k arbitrary: fs)
  case (Suc k)
  have cut: "take (Suc k * n) fs = take n fs @ take (k * n) (drop n fs)" by (simp add: take_add)
  have "kept (map ((+) g) rs) ws (g + b) (g + e) = kept rs buf b e" if "(b, e) \<in> set (take n fs)" for b e
    using Suc.prems[of b e] that unfolding cut by (intro kept_shift) simp
  moreover have "map (map (\<lambda>(b, e). kept (map ((+) g) rs) ws b e)) (strided n k (map (\<lambda>(b, e). (g + b, g + e)) (drop n fs))) =
      map (map (\<lambda>(b, e). kept rs buf b e)) (strided n k (drop n fs))"
    using Suc.prems unfolding cut by (intro Suc.IH) auto
  ultimately show ?case by (auto simp: take_map drop_map)
qed simp

lemma same_outside_drop: "same_outside buf buf' a z \<Longrightarrow> z \<le> k \<Longrightarrow> drop k buf' = drop k buf"
  by (rule nth_equalityI) (auto simp: same_outside_def)

text \<open>Assembling records whose bytes the buffer still holds.\<close>

lemma indexed_assemble:
  fixes acc :: "('s, 'u) accumulator"
  assumes q: "quoting c n (scan_config c)" and ix: "indexed c n ph ws g P first head r_head st"
  defines "R \<equiv> ix_record_start st" and "bs \<equiv> drop head (b_offs st)" and "es \<equiv> drop head (e_offs st)" and "rs \<equiv> drop r_head (r_offs st)"
  assumes spans: "spans_in (g + R) (take (cnt * n) (zip (map ((+) g) bs) (map ((+) g) es))) (g + r)" and r: "r \<le> length buf"
    and same: "\<And>j. R \<le> j \<Longrightarrow> j < r \<Longrightarrow> buf ! j = ws ! (g + j)" and fits: "cnt * n \<le> length bs" "cnt * n \<le> length es"
  obtains buf1 where "assemble_records_fixed acc buf n bs es rs cnt s = Some (hand_records acc s
      (map (map (\<lambda>(b, e). kept (map ((+) g) rs) ws b e)) (strided n cnt (zip (map ((+) g) bs) (map ((+) g) es)))), buf1)"
    "same_outside buf buf1 R r"
proof -
  have n: "1 \<le> n" "n \<le> FIXED_MAX_ARITY" using q by (simp_all add: quoting_def FIXED_MAX_ARITY_def)
  have zipg: "zip (map ((+) g) bs) (map ((+) g) es) = map (\<lambda>(b, e). (g + b, g + e)) (zip bs es)" by (simp add: zip_map_map)
  have spans': "spans_in R (take (cnt * n) (zip bs es)) r" using spans unfolding zipg take_map spans_in_shift .
  have eq: "map ((+) g) rs = filter (removed_at (scan_config c) ws) [g + R..<P]" using ix by (simp add: indexed_def rs_def R_def)
  have "sorted (map ((+) g) rs)" "distinct (map ((+) g) rs)" unfolding eq by (simp_all add: sorted_wrt_filter)
  then have srt: "sorted rs" "distinct rs" by (auto simp: sorted_map distinct_map elim: sorted_wrt_mono_rel[rotated])
  from assemble_records_ok[OF srt spans' r n fits, of acc s] obtain buf1 where
    asm: "assemble_records_fixed acc buf n bs es rs cnt s =
      Some (hand_records acc s (map (map (\<lambda>(b, e). kept rs buf b e)) (strided n cnt (zip bs es))), buf1)"
    and out: "same_outside buf buf1 R r" by blast
  have "map (map (\<lambda>(b, e). kept (map ((+) g) rs) ws b e)) (strided n cnt (zip (map ((+) g) bs) (map ((+) g) es))) =
      map (map (\<lambda>(b, e). kept rs buf b e)) (strided n cnt (zip bs es))"
    unfolding zipg
  proof (rule records_shift)
    fix b e j assume mem: "(b, e) \<in> set (take (cnt * n) (zip bs es))" and j: "b \<le> j" "j < e"
    from spans_in_mem[OF spans' mem] have "R \<le> j" "j < r" using j by linarith+
    then show "buf ! j = ws ! (g + j)" by (rule same)
  qed
  then show ?thesis using that asm out by simp
qed

text \<open>Behind a handed record: its offsets are dropped, and the removals up to its last field's end.\<close>

lemma indexed_next:
  assumes q: "quoting c n (scan_config c)" and ix: "indexed c n ph ws g P first head r_head st"
    and li: "listed n ph (scan_config c) ws P False (g + (b + 1)) (map ((+) g) (drop head' (b_offs st))) (map ((+) g) (drop head' (e_offs st)))"
    and hl: "head' \<le> length (b_offs st)" "head' \<le> length (e_offs st)"
    and e: "ix_record_start st \<le> e" "r \<le> e + 1" and run: "run_at c ws (g + e) (g + r) (g + b)" and over: "run_over c ws P (g + b)"
    and st': "ix_record_start st' = b + 1" "b_offs st' = b_offs st" "e_offs st' = e_offs st" "r_offs st' = r_offs st"
  shows "indexed c n ph ws g P False head' (skip_removed (r_offs st) r_head e) st'"
proof -
  let ?cfg = "scan_config c" and ?rs = "drop r_head (r_offs st)" and ?R = "ix_record_start st"
  have er: "e \<le> r" "r \<le> b" using run by (simp_all add: run_at_def)
  have no: "\<not> removed_at ?cfg ws j" if "g + e < j" "j \<le> g + b" for j
  proof -
    have "terminates c (ws ! j)" using that e(2) run by (simp add: run_at_def)
    then show ?thesis using quoting_at(1)[OF q] quoting_sel(7)[OF q] by (auto simp: removed_at_def)
  qed
  have "map ((+) g) (drop (skip_removed (r_offs st) r_head e) (r_offs st)) = dropWhile (\<lambda>x. x \<le> g + e) (map ((+) g) ?rs)"
    unfolding skip_removed_drop dropWhile_map by (simp add: o_def)
  also have "\<dots> = dropWhile (\<lambda>x. x \<le> g + e) (filter (removed_at ?cfg ws) [g + ?R..<P])" using ix by (simp add: indexed_def)
  also have "\<dots> = filter (removed_at ?cfg ws) [g + b + 1..<P]"
    using e er by (intro dropWhile_filter_upt[OF no]) auto
  finally have rem: "map ((+) g) (drop (skip_removed (r_offs st) r_head e) (r_offs st)) = filter (removed_at ?cfg ws) [g + (b + 1)..<P]"
    by simp
  have "length (takeWhile (\<lambda>r. r \<le> e) ?rs) \<le> length ?rs" by (rule length_takeWhile_le)
  moreover have "r_head \<le> length (r_offs st)" using ix by (simp add: indexed_def)
  ultimately have "skip_removed (r_offs st) r_head e \<le> length (r_offs st)" unfolding skip_removed_def length_drop by linarith
  moreover have "g + (b + 1) < length ws \<longrightarrow> \<not> terminates c (ws ! (g + (b + 1)))"
    using over by (simp add: run_over_def add.assoc)
  ultimately show ?thesis using li rem hl unfolding indexed_def st' by simp
qed

lemma ix_flush_ok:
  fixes acc :: "('s, 'u) accumulator"
  assumes q: "quoting c n (scan_config c)" and is_term: "\<And>b. ix_is_term st b \<longleftrightarrow> terminates c b"
    and ag: "agrees g (ix_record_start st) ws buf" and res: "res \<le> length buf"
    and ix: "indexed c n ph ws g (g + res) first head r_head st" and at: "at_record m" "ix_last_record_end st = m_last_end m"
    and flush: "ix_flush acc buf head r_head res (L - tot) tot n (m_acc m) st = (fres, buf', head', r_head', s', st')"
  defines "R \<equiv> ix_record_start st"
  shows "length buf' = length buf \<and> (case fres of
      Inl err \<Rightarrow> \<exists>q. R \<le> q \<and> q \<le> res \<and> spec_run c acc L (tot + R) (subslice ws (g + R) (g + q)) m = Failed err
    | Inr (Some fin) \<Rightarrow> \<exists>q. R \<le> q \<and> q \<le> res \<and> spec_run c acc L (tot + R) (subslice ws (g + R) (g + q)) m = Finished fin s'
    | Inr None \<Rightarrow> flushed c n ph acc L tot ws g res buf m st buf' head' r_head' s' st')"
proof -
  let ?rem = "L - tot" and ?cfg = "scan_config c"
  define tm where "tm = term_of st buf res (min res (?rem + 1))"
  define lr where "lr = last_resolved tm head n ((length (e_offs st) - head) div n)"
  show ?thesis
  proof (cases lr)
    case None
    then have out: "fres = Inr None" "buf' = buf" "head' = head" "r_head' = r_head" "s' = m_acc m" "st' = st"
      using flush by (simp_all add: ix_flush_def Let_def tm_def lr_def)
    have "subslice ws (g + R) (g + R) = []" by (simp add: subslice_def)
    then show ?thesis using at ix by (auto simp: out flushed_def R_def intro!: exI[of _ m])
  next
    case (Some al)
    obtain avail lst where al: "al = (avail, lst)" by (metis surj_pair)
    obtain cnt stop lrs lre where plan: "flush_plan tm head n ?rem avail lst = (cnt, stop, lrs, lre)" by (metis surj_pair)
    have n: "1 \<le> n" "n < 64" using q by (simp_all add: quoting_def)
    have lr': "last_resolved tm head n ((length (e_offs st) - head) div n) = Some (avail, lst)" using Some al by (simp add: lr_def)
    let ?bs = "drop head (b_offs st)" and ?es = "drop head (e_offs st)" and ?rs = "drop r_head (r_offs st)"
    note ix' = ix[unfolded indexed_def, folded R_def]
    have li: "listed n ph ?cfg ws (g + res) first (g + R) (map ((+) g) ?bs) (map ((+) g) ?es)" using ix' by blast
    have eeq: "map ((+) g) ?es = ends_in ?cfg ws (g + R) (g + res)" using li by (simp add: listed_def)
    have ne: "?es \<noteq> []"
    proof
      assume "?es = []"
      then have "(length (e_offs st) - head) div n = 0" by simp
      then show False using last_resolved_spec[OF lr'] by simp
    qed
    obtain E Es where E: "ends_in ?cfg ws (g + R) (g + res) = E # Es" using ne eeq by (cases "ends_in ?cfg ws (g + R) (g + res)") auto
    note eb = ends_in_bound[OF E]
    have first: "\<not> terminates c (ws ! (g + R))" using ix' eb by auto
    obtain r b where rb: "1 \<le> cnt" "cnt * n \<le> length ?es"
      "\<And>j. j < cnt \<Longrightarrow> run_at c ws (g + ?es ! (Suc j * n - 1)) (g + r j) (g + b j) \<and> r j < res \<and> b j < res"
      "\<And>j. j + 1 < cnt \<Longrightarrow> run_over c ws (g + res) (g + b j) \<and> b j < ?rem"
      "r (cnt - 1) = lrs" "stop \<Longrightarrow> ?rem \<le> b (cnt - 1)"
      "\<not> stop \<Longrightarrow> lre = Some (b (cnt - 1)) \<and> b (cnt - 1) < ?rem \<and> run_over c ws (g + res) (g + b (cnt - 1))"
      by (rule flush_plan_ok[OF q is_term ag[folded R_def] res li first lr' tm_def plan]) blast
    define k where "k = cnt - 1"
    have cnt: "cnt = Suc k" using rb(1) by (simp add: k_def)
    have jlt: "Suc j * n - 1 < length ?es" if "j \<le> k" for j
    proof -
      have "Suc j * n \<le> cnt * n" using that cnt by (intro mult_le_mono1) simp
      moreover have "0 < Suc j * n" using n by simp
      ultimately show ?thesis using rb(2) by linarith
    qed
    have ge: "map ((+) g) ?es ! (Suc j * n - 1) = g + ?es ! (Suc j * n - 1)" if "j \<le> k" for j using jlt[OF that] by simp
    have Rb: "R \<le> ?es ! (Suc j * n - 1)" if "j \<le> k" for j
    proof -
      have "map ((+) g) ?es ! (Suc j * n - 1) \<in> set (map ((+) g) ?es)" using jlt[OF that] by (intro nth_mem) simp
      moreover have "x \<in> set (ends_in ?cfg ws (g + R) (g + res)) \<Longrightarrow> g + R \<le> x" for x by (simp add: ends_in_def)
      ultimately have "g + R \<le> map ((+) g) ?es ! (Suc j * n - 1)" unfolding eeq by blast
      then show ?thesis unfolding ge[OF that] by simp
    qed
    have Rrb: "R \<le> r j" "r j \<le> b j" if "j \<le> k" for j using rb(3)[of j] Rb[OF that] that cnt by (simp_all add: run_at_def)
    have mr: "marks_removed ?cfg ws (map ((+) g) ?rs) (g + R) (g + res)"
      using ix' by (auto simp: marks_removed_def)
    have fits: "Suc k * n \<le> length (map ((+) g) ?es)" using rb(2) by (simp add: cnt)
    have runs: "run_at c ws (map ((+) g) ?es ! (Suc j * n - 1)) (g + r j) (g + b j) \<and> g + r j < g + res" if "j \<le> k" for j
      unfolding ge[OF that] using rb(3)[of j] that cnt by simp
    have over: "run_over c ws (g + res) (g + b j) \<and> tot + R + (g + b j - (g + R)) < L" if "j < k" for j
      using rb(4)[of j] that cnt Rrb[of j] by auto
    note lrec = listed_records[OF q li fits at(1) first mr runs over]
    have rk: "r k < res" "b k < res" using rb(3)[of k] cnt by simp_all
    have rk_le: "r k \<le> length buf" using rk res by simp
    have same_bytes: "\<And>j. R \<le> j \<Longrightarrow> j < r k \<Longrightarrow> buf ! j = ws ! (g + j)" using ag rk_le by (simp add: agrees_def R_def)
    have bfit: "cnt * n \<le> length ?bs" using lrec(1) by (simp add: cnt)
    have efit: "cnt * n \<le> length ?es" by (rule rb(2))
    let ?recs = "map (map (\<lambda>(b, e). kept (map ((+) g) ?rs) ws b e)) (strided n cnt (zip (map ((+) g) ?bs) (map ((+) g) ?es)))"
    obtain buf1 where asm: "assemble_records_fixed acc buf n ?bs ?es ?rs cnt (m_acc m) = Some (hand_records acc (m_acc m) ?recs, buf1)"
      and same: "same_outside buf buf1 R (r k)"
      using indexed_assemble[OF q ix lrec(2)[folded cnt R_def, unfolded R_def] rk_le same_bytes[unfolded R_def] bfit efit, of acc "m_acc m"]
      unfolding R_def by blast
    define ares where "ares = hand_records acc (m_acc m) ?recs"
    have ho: "handed c acc L (tot + R) ws (g + R) m (g + r k) (g + b k) ares"
      using lrec(5)[where acc = acc] unfolding ares_def cnt .
    note fl = ix_flush_plan[OF lr'[unfolded tm_def] plan[unfolded tm_def] asm[folded ares_def], of tot, unfolded flush]
    have buf1: "length buf1 = length buf" "drop (b k + 1) buf1 = drop (b k + 1) buf"
      using same_outside_drop[OF same, of "b k + 1"] same Rrb[of k] by (simp_all add: same_outside_def)
    have pos: "tot + R + (g + b k - (g + R)) = tot + b k" "tot + R + (g + r k - (g + R)) = tot + r k" using Rrb[of k] by simp_all
    note ho' = ho[unfolded handed_def pos]
    show ?thesis
    proof (cases ares)
      case (Inl err)
      then have out: "fres = Inl (from_user err)" "buf' = buf1" using fl by simp_all
      obtain q where q: "g + R \<le> q" "q \<le> g + b k + 1" "spec_run c acc L (tot + R) (subslice ws (g + R) q) m = Failed (from_user err)"
        using ho' Inl by auto
      then have "q = g + (q - g)" "R \<le> q - g" "q - g \<le> res" using rk by simp_all
      then show ?thesis using q(3) unfolding out buf1(1) by (auto intro!: exI[of _ "q - g"])
    next
      case (Inr s1)
      have out: "fres = Inr (if stop then Some (tot + handoff lrs ?rem stop) else None)" "buf' = buf1" "head' = head + cnt * n"
        "r_head' = skip_removed (r_offs st) r_head (e_offs st ! (head + cnt * n - 1))" "s' = s1"
        "st' = st\<lparr>ix_record_start := (case lre of Some fin \<Rightarrow> fin + 1 | None \<Rightarrow> ix_record_start st),
           ix_last_record_end := Some (tot + handoff lrs ?rem stop)\<rparr>"
        using fl Inr by simp_all
      have lrs: "lrs = r k" using rb(5) by (simp add: k_def)
      show ?thesis
      proof (cases stop)
        case True
        then have "?rem \<le> b k" using rb(6) by (simp add: k_def)
        then have Lb: "L \<le> tot + b k" by simp
        have "spec_run c acc L (tot + R) (subslice ws (g + R) (g + b k + 1)) m = Finished (tot + handoff lrs ?rem True) s1"
          using ho' Inr Lb handoff_end(1)[OF Lb, of "r k"] by (simp add: lrs)
        then show ?thesis using Rrb[of k] rk True unfolding out(1,2,5) buf1(1) by (auto intro!: exI[of _ "b k + 1"])
      next
        case False
        have nb: "lre = Some (b k)" "b k < ?rem" "run_over c ws (g + res) (g + b k)" using rb(7)[OF False] by (simp_all add: k_def)
        have Lb: "\<not> L \<le> tot + b k" using nb(2) by simp
        obtain m' where m': "spec_run c acc L (tot + R) (subslice ws (g + R) (g + b k + 1)) m = Running m'" "ended (tot + r k) s1 m'"
          using ho' Inr Lb by auto
        have st': "ix_record_start st' = b k + 1" "ix_last_record_end st' = Some (tot + r k)"
          "b_offs st' = b_offs st" "e_offs st' = e_offs st" "r_offs st' = r_offs st"
          "st' = st\<lparr>ix_record_start := ix_record_start st', ix_last_record_end := ix_last_record_end st'\<rparr>"
          unfolding out(6) using nb(1) False by (simp_all add: handoff_def lrs)
        have rest: "drop head' (b_offs st) = drop (cnt * n) ?bs" "drop head' (e_offs st) = drop (cnt * n) ?es"
          by (simp_all add: out(3) add.commute)
        have li': "listed n ph ?cfg ws (g + res) False (g + (b k + 1)) (map ((+) g) (drop head' (b_offs st))) (map ((+) g) (drop head' (e_offs st)))"
          using lrec(6)[OF _ _ nb(3)] unfolding rest drop_map cnt by (simp add: add.assoc)
        let ?e = "?es ! (Suc k * n - 1)"
        have last_e: "e_offs st ! (head + cnt * n - 1) = ?e"
        proof -
          have "head + (Suc k * n - 1) = head + cnt * n - 1" using n by (simp add: cnt)
          then show ?thesis using jlt[of k] by simp
        qed
        have hl: "head' \<le> length (b_offs st)" "head' \<le> length (e_offs st)"
        proof -
          have "head \<le> length (b_offs st)" "head \<le> length (e_offs st)" using ix' by simp_all
          then show "head' \<le> length (b_offs st)" "head' \<le> length (e_offs st)" using bfit efit unfolding out(3) length_drop by linarith+
        qed
        have "r k \<le> ?e + 1" using lrec(4) ge[of k] by simp
        moreover have "run_at c ws (g + ?e) (g + r k) (g + b k)" using rb(3)[of k] cnt by simp
        ultimately have "indexed c n ph ws g (g + res) False head' r_head' st'"
          using indexed_next[OF q ix li' hl Rb[of k, unfolded R_def] _ _ nb(3) st'(1,3-5)] unfolding out(4) last_e by simp
        moreover have "spec_run c acc L (tot + R) (subslice ws (g + R) (g + ix_record_start st')) m = Running m'"
          using m'(1) by (simp add: st'(1))
        moreover have "s' = m_acc m'" "at_record m'" "ix_last_record_end st' = m_last_end m'"
          using m'(2) by (simp_all add: out(5) ended_def at_record_def st'(2))
        moreover have "R \<le> b k + 1" "b k + 1 \<le> res" using Rrb[of k] rk by simp_all
        ultimately show ?thesis
          using False st'(6) buf1 unfolding out(1,2) flushed_def R_def[symmetric] by (auto simp: st'(1) intro!: exI[of _ m'])
      qed
    qed
  qed
qed

end
