(* ===== verification/IndexVector.thy ===== *)
theory IndexVector
  imports IndexFlush IndexLocate
begin

text \<open>
  One vector through the index stepper: the scanner's output for the vector before it is verified, and the offsets
  of its marks are appended. Positions are those of the stream of vectors, the buffer starting at \<open>g\<close>.
\<close>

unbundle bit_operations_syntax

section \<open>The state between vectors\<close>

definition index_config :: "Config \<Rightarrow> nat \<Rightarrow> SimdIndexStepper \<Rightarrow> bool" where
  "index_config c n st \<longleftrightarrow> quoting c n (scan_config c) \<and> ix_config st = scan_config c \<and> fc_n (ix_counter st) = n \<and>
     counter_ok (ix_counter st)"

lemma index_config_term: "index_config c n st \<Longrightarrow> ix_is_term st b \<longleftrightarrow> terminates c b"
  using quoting_sel(4)[of c n "scan_config c" b] by (auto simp: index_config_def ix_is_term_def)

text \<open>Bytes without a meaning, as those a vector is padded with.\<close>

definition inert :: "Config \<Rightarrow> byte \<Rightarrow> bool" where
  "inert c b \<longleftrightarrow> content c b \<and> quote c \<noteq> Some b"

lemma pad_neutral:
  assumes "quoting c n (scan_config c)"
  defines "cfg \<equiv> scan_config c"
  shows "inert c (the (neutral_pad (sc_delim cfg) (sc_term cfg) (sc_term_b cfg) (sc_quote cfg)))"
proof -
  obtain x where "neutral_pad (sc_delim cfg) (sc_term cfg) (sc_term_b cfg) (sc_quote cfg) = Some x" "x \<noteq> sc_delim cfg" "x \<noteq> sc_term cfg"
    "sc_term_b cfg \<noteq> Some x" "sc_quote cfg \<noteq> Some x"
    using find_pad by blast
  then show ?thesis using quoting_sel(1,2,4)[OF assms(1)] by (auto simp: inert_def content_def cfg_def)
qed

lemma neutral_marks:
  assumes q: "quoting c n cfg" and "k < length ws" "inert c (ws ! k)"
  shows "\<not> quote_at cfg ws k" "\<not> delim_at cfg ws k" "\<not> term_at cfg ws k" "\<not> struct_at cfg ws k" "\<not> end_at cfg ws k"
    "\<not> removed_at cfg ws k" "\<not> opener_at cfg ws k"
proof -
  show m: "\<not> quote_at cfg ws k" "\<not> delim_at cfg ws k" "\<not> term_at cfg ws k"
    using assms quoting_at[OF q] by (auto simp: inert_def content_def)
  then show "\<not> struct_at cfg ws k" "\<not> end_at cfg ws k" "\<not> removed_at cfg ws k" "\<not> opener_at cfg ws k"
    by (auto simp: struct_at_def run_end_at_def end_at_def closer_at_def field_close_at_def removed_at_def opener_at_def)
qed

text \<open>Resolved up to \<open>P\<close>, past the start of the record in flight or with only padding before that.\<close>

definition scanned :: "Config \<Rightarrow> nat \<Rightarrow> byte list \<Rightarrow> nat \<Rightarrow> nat \<Rightarrow> nat \<Rightarrow> nat \<Rightarrow> SimdIndexStepper \<Rightarrow> bool" where
  "scanned c n ws g P head r_head st \<longleftrightarrow> index_config c n st \<and> g + ix_record_start st \<le> length ws \<and>
     (\<exists>first. indexed c n (phase (ix_counter st)) ws g P first head r_head st) \<and>
     (g + ix_record_start st \<le> P \<or> P = 0 \<and> g + ix_record_start st \<le> 64 \<and> (\<forall>k < g + ix_record_start st. inert c (ws ! k)))"

text \<open>More positions resolved: a list of marks grows by those of the vector.\<close>

lemma marks_more:
  assumes "G \<le> P \<or> P = 0 \<and> G \<le> 64 \<and> (\<forall>k < G. \<not> Q k)"
  shows "filter Q [G..<P + 64] = filter Q [G..<P] @ map ((+) P) (filter (\<lambda>j. Q (P + j)) [0..<64])"
proof -
  have sh: "[P..<P + 64] = map ((+) P) [0..<64]" by (rule nth_equalityI) simp_all
  from assms show ?thesis
  proof
    assume "G \<le> P"
    then have "[G..<P + 64] = [G..<P] @ [P..<P + 64]" by (rule upt_add_eq_append)
    then show ?thesis by (simp add: sh filter_map o_def)
  next
    assume a: "P = 0 \<and> G \<le> 64 \<and> (\<forall>k < G. \<not> Q k)"
    then have "[0..<64] = [0..<G] @ [G..<64]" using upt_add_eq_append[of 0 G "64 - G"] by simp
    moreover have "filter Q [0..<G] = []" using a by (simp add: filter_empty_conv)
    moreover have "map ((+) 0) xs = xs" for xs :: "nat list" by (induction xs) simp_all
    ultimately show ?thesis using a by simp
  qed
qed

lemma offsets_of:
  assumes "P + 64 = g + pos" and "pos < 2 ^ 63 + 64" and "\<And>j. bit m j \<Longrightarrow> g \<le> P + j"
  shows "map ((+) g) (map (offset_of (of_nat pos - of_nat VECTOR_BYTES)) (set_bits_of m)) = map ((+) P) (set_bits_of m)"
proof -
  have "g + offset_of (of_nat pos - of_nat VECTOR_BYTES) j = P + j" if b: "bit m j" for j
  proof -
    have j: "j < 64" using bit_imp_le_length[OF b] by simp
    have p: "64 \<le> pos + j" "pos + j - 64 < 2 ^ 64" using assms(1) assms(3)[OF b] j less_trans[OF assms(2), of "2 ^ 64 - 64"] by auto
    have "(of_nat pos :: u64) - of_nat VECTOR_BYTES + of_nat j = of_nat (pos + j - 64)"
      using p(1) by (simp add: VECTOR_BYTES_def of_nat_diff)
    moreover have "unat (of_nat x :: u64) = x" if "x < 2 ^ 64" for x using that by (simp add: unat_of_nat)
    from this[OF p(2)] have "unat (of_nat (pos + j - 64) :: u64) = pos + j - 64" .
    ultimately have "offset_of (of_nat pos - of_nat VECTOR_BYTES) j = pos + j - 64" by (simp add: offset_of_def)
    then show ?thesis using assms(1) p(1) by linarith
  qed
  then show ?thesis by (simp add: set_bits_of_def)
qed

lemma set_bits_filter: "(\<And>j. j < 64 \<Longrightarrow> bit (m :: u64) j = Q j) \<Longrightarrow> filter Q [0..<64] = set_bits_of m"
  by (auto simp: set_bits_of_def intro!: filter_cong)

text \<open>One list of offsets: of the marks \<open>Q\<close>, none of them before the start of the record.\<close>

lemma extended:
  assumes "map ((+) g) xs = filter Q [G..<P]" and "G \<le> P \<or> P = 0 \<and> G \<le> 64 \<and> (\<forall>k < G. \<not> Q k)" and "g \<le> G"
    and m: "\<And>j. j < 64 \<Longrightarrow> bit (m :: u64) j = Q (P + j)" and "P + 64 = g + pos" and "pos < 2 ^ 63 + 64"
  shows "map ((+) g) (xs @ map (offset_of (of_nat pos - of_nat VECTOR_BYTES)) (set_bits_of m)) = filter Q [G..<P + 64]"
proof -
  have "g \<le> P + j" if b: "bit m j" for j
  proof -
    have "j < 64" using bit_imp_le_length[OF b] by simp
    then have "Q (P + j)" using m b by blast
    moreover have "G \<le> P \<or> P = 0 \<and> (\<forall>k < G. \<not> Q k)" using assms(2) by blast
    ultimately have "G \<le> P + j" by (metis not_less add_0 le_add1 le_trans)
    then show ?thesis using assms(3) by simp
  qed
  from offsets_of[OF assms(5,6) this] have "map ((+) g) (map (offset_of (of_nat pos - of_nat VECTOR_BYTES)) (set_bits_of m)) =
    map ((+) P) (filter (\<lambda>j. Q (P + j)) [0..<64])"
    using set_bits_filter[of m "\<lambda>j. Q (P + j)"] m by simp
  then show ?thesis using marks_more[OF assms(2)] assms(1) by (simp only: map_append)
qed

section \<open>An output\<close>

lemma struct_kind:
  assumes "quoting c n cfg" and "struct_at cfg ws k"
  shows "term_at cfg ws k \<longleftrightarrow> run_end_at cfg ws k"
  using assms(2) term_not_delim[OF assms(1)] by (auto simp: struct_at_def run_end_at_def)

context lawful_isa begin

lemma ix_resolved_ok:
  assumes sc: "scanned c n ws g P head r_head st" and out: "output_of (scan_config c) ws P o'"
    and pos: "P + 64 = g + pos" "pos < 2 ^ 63 + 64" and v: "ix_verify I o' st = (ok, st1)"
  shows "st1 = st\<lparr>ix_counter := ix_counter st1\<rparr>" "index_config c n st1"
    "ok \<Longrightarrow> scanned c n ws g (P + 64) head r_head (ix_extend o' (of_nat pos - of_nat VECTOR_BYTES) st1)"
    "\<not> ok \<Longrightarrow> count_fields n 0 (kinds_in (scan_config c) ws (g + ix_record_start st) (P + 64)) = None"
proof -
  let ?cfg = "scan_config c" and ?R = "ix_record_start st" and ?base = "of_nat pos - of_nat VECTOR_BYTES :: u64"
  let ?G = "g + ?R"
  have co: "index_config c n st" and q: "quoting c n ?cfg" and fc: "fc_n (ix_counter st) = n" "counter_ok (ix_counter st)" and lenG: "?G \<le> length ws"
    using sc by (simp_all add: scanned_def index_config_def)
  obtain first where ix: "indexed c n (phase (ix_counter st)) ws g P first head r_head st" using sc by (auto simp: scanned_def)
  have qt: "?G \<le> P \<or> P = 0 \<and> ?G \<le> 64 \<and> (\<forall>k < ?G. inert c (ws ! k))" using sc by (simp add: scanned_def)
  have quiet: "?G \<le> P \<or> P = 0 \<and> ?G \<le> 64 \<and> (\<forall>k < ?G. \<not> Q k)" if "\<And>k. k < ?G \<Longrightarrow> \<forall>j\<le>k. inert c (ws ! j) \<Longrightarrow> \<not> Q k" for Q
    using qt that by (metis le_less_trans)
  note nm = neutral_marks[OF q]
  have qs: "?G \<le> P \<or> P = 0 \<and> ?G \<le> 64 \<and> (\<forall>k < ?G. \<not> struct_at ?cfg ws k)"
    "?G \<le> P \<or> P = 0 \<and> ?G \<le> 64 \<and> (\<forall>k < ?G. \<not> end_at ?cfg ws k)"
    "?G \<le> P \<or> P = 0 \<and> ?G \<le> 64 \<and> (\<forall>k < ?G. \<not> removed_at ?cfg ws k)"
    using nm(4-6) lenG by (intro quiet; auto)+
  have qb: "?G \<le> P \<or> P = 0 \<and> ?G \<le> 64 \<and> (\<forall>k < ?G. \<not> begin_at ?cfg ws k)"
  proof (rule quiet)
    fix k assume k: "k < ?G" "\<forall>j\<le>k. inert c (ws ! j)"
    then have "k - 1 < length ws" "inert c (ws ! (k - 1))" using lenG by auto
    then show "\<not> begin_at ?cfg ws k" using nm(4,7)[of "k - 1"] by (auto simp: begin_at_def)
  qed
  note o' = out[unfolded output_of_def, rule_format]
  have kinds: "kinds_in ?cfg ws ?G (P + 64) = kinds_in ?cfg ws ?G P @ map (bit (vo_term o')) (set_bits_of (vo_d_struct o'))"
  proof -
    have "map (term_at ?cfg ws) (map ((+) P) (filter (\<lambda>j. struct_at ?cfg ws (P + j)) [0..<64])) =
        map (bit (vo_term o')) (set_bits_of (vo_d_struct o'))"
      using o' set_bits_filter[of "vo_d_struct o'" "\<lambda>j. struct_at ?cfg ws (P + j)"] struct_kind[OF q] by (auto simp: set_bits_of_def)
    then show ?thesis using marks_more[OF qs(1)] by (simp add: kinds_in_def structs_in_def)
  qed
  have ph: "count_fields n 0 (kinds_in ?cfg ws ?G P) = Some (phase (ix_counter st))" using ix by (simp add: indexed_def listed_def)
  let ?cf = "count_fields n (phase (ix_counter st)) (map (bit (vo_term o')) (set_bits_of (vo_d_struct o')))"
  have cf: "count_fields n 0 (kinds_in ?cfg ws ?G (P + 64)) = ?cf" by (simp add: kinds count_fields_append ph)
  note vr = v[unfolded ix_verify_def verify_ok[OF fc(2)] fc(1)]
  have st1: "st1 = st\<lparr>ix_counter := ix_counter st1\<rparr>" "ok \<longleftrightarrow> ?cf \<noteq> None"
    "ix_counter st1 = (case ?cf of None \<Rightarrow> ix_counter st | Some ph \<Rightarrow> (ix_counter st)\<lparr>phase := ph\<rparr>)"
    using vr by (auto split: option.splits)
  then show "st1 = st\<lparr>ix_counter := ix_counter st1\<rparr>" by blast
  have sel: "ix_config st1 = ix_config st" "ix_record_start st1 = ?R" "b_offs st1 = b_offs st" "e_offs st1 = e_offs st" "r_offs st1 = r_offs st"
    by (subst st1(1); simp)+
  have "counter_ok (ix_counter st1)" "fc_n (ix_counter st1) = n"
    using fc count_fields_less[of "phase (ix_counter st)" n] by (auto simp: st1(3) counter_ok_def split: option.splits)
  then show co1: "index_config c n st1" using co by (simp add: index_config_def sel)
  show "\<not> ok \<Longrightarrow> count_fields n 0 (kinds_in ?cfg ws ?G (P + 64)) = None" using st1(2) cf by simp
  assume ok
  then obtain ph' where ph': "?cf = Some ph'" using st1(2) by auto
  define st2 where "st2 = ix_extend o' ?base st1"
  have sel2: "ix_record_start st2 = ?R" "ix_config st2 = ix_config st1" "ix_counter st2 = ix_counter st1"
    "b_offs st2 = b_offs st @ map (offset_of ?base) (set_bits_of (vo_b o'))"
    "e_offs st2 = e_offs st @ map (offset_of ?base) (set_bits_of (vo_e o'))"
    "r_offs st2 = r_offs st @ map (offset_of ?base) (set_bits_of (vo_r o'))"
    by (simp_all add: st2_def ix_extend_def sel extend_offsets_bits)
  have hd: "head \<le> length (b_offs st)" "head \<le> length (e_offs st)" "r_head \<le> length (r_offs st)" using ix by (simp_all add: indexed_def)
  note ix' = ix[unfolded indexed_def listed_def]
  have g: "g \<le> ?G" by simp
  have es: "map ((+) g) (drop head (e_offs st2)) = ends_in ?cfg ws ?G (P + 64)"
    unfolding ends_in_def sel2(5) drop_append using hd(2)
    by (simp only: diff_is_0_eq[THEN iffD2, OF hd(2)] drop_0) (rule extended[OF _ qs(2) g _ pos]; use ix' o' in \<open>auto simp: ends_in_def\<close>)
  have rs: "map ((+) g) (drop r_head (r_offs st2)) = filter (removed_at ?cfg ws) [?G..<P + 64]"
    unfolding sel2(6) drop_append using hd(3)
    by (simp only: diff_is_0_eq[THEN iffD2, OF hd(3)] drop_0) (rule extended[OF _ qs(3) g _ pos]; use ix' o' in \<open>auto\<close>)
  have bs: "map ((+) g) (drop head (b_offs st2)) = begins_from first ?cfg ws ?G (P + 64)"
  proof -
    have "map ((+) g) (map (offset_of ?base) (set_bits_of (vo_b o'))) = map ((+) P) (filter (\<lambda>j. begin_at ?cfg ws (P + j)) [0..<64])"
    proof -
      have "g \<le> P + j" if b: "bit (vo_b o') j" for j
      proof -
        have "j < 64" using bit_imp_le_length[OF b] by simp
        then have "begin_at ?cfg ws (P + j)" using o' b by blast
        then have "?G \<le> P + j" using qb by (metis not_less add_0 le_add1 le_trans)
        then show ?thesis by simp
      qed
      from offsets_of[OF pos this] show ?thesis using o' set_bits_filter[of "vo_b o'" "\<lambda>j. begin_at ?cfg ws (P + j)"] by simp
    qed
    then have "map ((+) g) (drop head (b_offs st2)) = map ((+) g) (drop head (b_offs st)) @ map ((+) P) (filter (\<lambda>j. begin_at ?cfg ws (P + j)) [0..<64])"
      using hd(1) by (simp add: sel2(4))
    moreover have "map ((+) g) (drop head (b_offs st)) = begins_from first ?cfg ws ?G P" using ix' by simp
    ultimately show ?thesis using marks_more[OF qb] by (simp add: begins_from_def begins_in_def)
  qed
  have "indexed c n (phase (ix_counter st2)) ws g (P + 64) first head r_head st2"
    unfolding indexed_def listed_def sel2(1) using ix' es rs bs cf ph' hd
    by (simp add: sel2(3-6) st1(3))
  moreover have "index_config c n st2" using co1 by (simp add: index_config_def sel2)
  moreover have "?G \<le> P + 64" using qt by auto
  ultimately show "scanned c n ws g (P + 64) head r_head (ix_extend o' ?base st1)"
    unfolding st2_def[symmetric] scanned_def sel2(1) using lenG by blast
qed

section \<open>A vector\<close>

lemma ix_vector_ok:
  assumes sc: "scanned c n ws g (g + pos - 64) head r_head st" and at: "scanner_at (scan_config c) ws (g + pos) (ix_scanner st)"
    and v: "v = subslice ws (g + pos) (g + pos + 64)" and len: "g + pos + 64 \<le> length ws" and "pos < 2 ^ 63 + 64"
    and step: "ix_vector I v (of_nat pos - of_nat VECTOR_BYTES) st = (ok, st')"
  shows "ix_record_start st' = ix_record_start st" "ix_last_record_end st' = ix_last_record_end st"
    "ix_needs_align_prologue st' = ix_needs_align_prologue st" "needs_chunk_start_b st' = needs_chunk_start_b st" "index_config c n st'"
    "scanner_at (scan_config c) ws (g + pos + 64) (ix_scanner st')" "sn_pending (ix_scanner st') \<noteq> None"
    "ok \<Longrightarrow> scanned c n ws g (g + pos) head r_head st'"
    "\<not> ok \<Longrightarrow> count_fields n 0 (kinds_in (scan_config c) ws (g + ix_record_start st) (g + pos)) = None"
proof -
  obtain out sn where ss: "scanner_step I v (ix_scanner st) = (out, sn)" by fastforce
  note so = scanner_step_ok[OF at v len ss]
  define st1 where "st1 = st\<lparr>ix_scanner := sn\<rparr>"
  have sc1: "scanned c n ws g (g + pos - 64) head r_head st1"
    using sc by (simp add: st1_def scanned_def indexed_def index_config_def)
  have sel1: "ix_record_start st1 = ix_record_start st" "ix_last_record_end st1 = ix_last_record_end st" "ix_scanner st1 = sn"
    "ix_needs_align_prologue st1 = ix_needs_align_prologue st" "needs_chunk_start_b st1 = needs_chunk_start_b st"
    by (simp_all add: st1_def)
  note unf = step[unfolded ix_vector_def ss Let_def prod.case st1_def[symmetric]]
  have "ix_record_start st' = ix_record_start st \<and> ix_last_record_end st' = ix_last_record_end st \<and> ix_scanner st' = sn \<and>
    ix_needs_align_prologue st' = ix_needs_align_prologue st \<and> needs_chunk_start_b st' = needs_chunk_start_b st \<and> index_config c n st' \<and>
    (ok \<longrightarrow> scanned c n ws g (g + pos) head r_head st') \<and>
    (\<not> ok \<longrightarrow> count_fields n 0 (kinds_in (scan_config c) ws (g + ix_record_start st) (g + pos)) = None)"
  proof (cases out)
    case None
    then have "sn_pending (ix_scanner st) = None" using so(3) by simp
    then have "g + pos = 0" using at by (simp add: scanner_at_def)
    moreover have "ok" "st' = st1" using unf None by simp_all
    ultimately show ?thesis using sc1 sel1 by (simp add: scanned_def)
  next
    case (Some o')
    then have "sn_pending (ix_scanner st) \<noteq> None" and o': "output_of (scan_config c) ws (g + pos - 64) o'" using so(3) by simp_all
    then have p: "64 \<le> g + pos" using at by (auto simp: scanner_at_def)
    then have P: "g + pos - 64 + 64 = g + pos" by simp
    obtain ok1 st2 where vr: "ix_verify I o' st1 = (ok1, st2)" by fastforce
    note r = ix_resolved_ok[OF sc1 o' P assms(5) vr, unfolded P]
    have sel2: "ix_record_start st2 = ix_record_start st" "ix_last_record_end st2 = ix_last_record_end st" "ix_scanner st2 = sn"
      "ix_needs_align_prologue st2 = ix_needs_align_prologue st" "needs_chunk_start_b st2 = needs_chunk_start_b st"
      by (subst r(1); simp add: sel1)+
    show ?thesis
    proof (cases ok1)
      case True
      then have "ok" "st' = ix_extend o' (of_nat pos - of_nat VECTOR_BYTES) st2" using unf Some vr by simp_all
      then show ?thesis using r(3)[OF True] sel2 by (simp add: ix_extend_def scanned_def)
    next
      case False
      then have "\<not> ok" "st' = st2" using unf Some vr by simp_all
      then show ?thesis using r(2,4) False sel2 sel1 by simp
    qed
  qed
  then show "ix_record_start st' = ix_record_start st" "ix_last_record_end st' = ix_last_record_end st"
    "ix_needs_align_prologue st' = ix_needs_align_prologue st" "needs_chunk_start_b st' = needs_chunk_start_b st" "index_config c n st'"
    "scanner_at (scan_config c) ws (g + pos + 64) (ix_scanner st')" "sn_pending (ix_scanner st') \<noteq> None"
    "ok \<Longrightarrow> scanned c n ws g (g + pos) head r_head st'"
    "\<not> ok \<Longrightarrow> count_fields n 0 (kinds_in (scan_config c) ws (g + ix_record_start st) (g + pos)) = None"
    using so(1,2) by simp_all
qed

end

end
