(* ===== verification/IndexClose.thy ===== *)
theory IndexClose
  imports IndexLocate IndexVector
begin

text \<open>
  The end of the input in a dialect with a quote: the last vector closes an unterminated record with a virtual
  terminator and is padded with bytes without a meaning. What the boundaries of the closed input say of the input.
\<close>

section \<open>The closed input\<close>

definition closing :: "Config \<Rightarrow> byte list \<Rightarrow> byte list \<Rightarrow> byte list \<Rightarrow> bool" where
  "closing c buf virt pads \<longleftrightarrow> (\<forall>b\<in>set pads. inert c b) \<and>
     (if buf \<noteq> [] \<and> \<not> terminates c (last buf) then \<exists>t. virt = [t] \<and> terminates c t else virt = [])"

lemma open_no_quote:
  assumes "a \<le> b" and "\<And>k. a \<le> k \<Longrightarrow> k < b \<Longrightarrow> \<not> quote_at cfg ws k"
  shows "open_before cfg ws b = open_before cfg ws a"
  using assms(1,2)
proof (induction b rule: dec_induct)
  case (step k)
  then have "open_before cfg ws k = open_before cfg ws a" "\<not> quote_at cfg ws k" by simp_all
  then show ?case by (simp add: quoted_at_open)
qed simp

lemma open_prefix: "open_before cfg (zs @ ys) (length zs) = open_before cfg zs (length zs)"
  using at_prefix(2)[of "length zs - 1" zs cfg ys] by (cases "zs = []") (auto simp: open_before_def)

lemma closing_no_quote:
  assumes q: "quoting c n cfg" and cl: "closing c buf virt pads" and "length buf \<le> k"
  shows "\<not> quote_at cfg (buf @ virt @ pads) k"
proof
  assume "quote_at cfg (buf @ virt @ pads) k"
  then have "quote c = Some ((virt @ pads) ! (k - length buf))" "k - length buf < length (virt @ pads)"
    using quoting_at(1)[OF q] assms(3) by (auto simp: nth_append)
  then have "\<exists>b \<in> set (virt @ pads). quote c = Some b" by (metis nth_mem)
  then show False using cl quoting_sel(7)[OF q] by (auto simp: closing_def inert_def split: if_splits)
qed

lemma closing_open:
  assumes "quoting c n cfg" and "closing c buf virt pads" and "length buf \<le> k"
  shows "open_before cfg (buf @ virt @ pads) k = open_before cfg buf (length buf)"
  using open_no_quote[OF assms(3) closing_no_quote[OF assms(1,2)]] open_prefix[of cfg buf "virt @ pads"] by simp

text \<open>Past the virtual terminator no byte has a meaning.\<close>

lemma closing_pads:
  assumes q: "quoting c n cfg" and cl: "closing c buf virt pads" and "length (buf @ virt) \<le> k"
  shows "\<not> delim_at cfg (buf @ virt @ pads) k" "\<not> term_at cfg (buf @ virt @ pads) k"
proof -
  have "inert c ((buf @ virt @ pads) ! k)" if "k < length (buf @ virt @ pads)"
  proof -
    have eq: "buf @ virt @ pads = (buf @ virt) @ pads" by simp
    have "(buf @ virt @ pads) ! k = pads ! (k - length (buf @ virt))" unfolding eq nth_append using assms(3) by simp
    then show ?thesis using that assms(3) cl by (simp add: closing_def)
  qed
  then show "\<not> delim_at cfg (buf @ virt @ pads) k" "\<not> term_at cfg (buf @ virt @ pads) k"
    using neutral_marks(2,3)[OF q, of k "buf @ virt @ pads"] by (auto simp: delim_at_def term_at_def)
qed

text \<open>The boundaries of the closed input are those of the input and the virtual terminator, unless a quote is open.\<close>

lemma closing_kinds:
  assumes q: "quoting c n cfg" and cl: "closing c buf virt pads"
  shows "kinds_in cfg (buf @ virt @ pads) 0 (length (buf @ virt @ pads)) =
    kinds_in cfg buf 0 (length buf) @ (if virt \<noteq> [] \<and> \<not> open_before cfg buf (length buf) then [True] else [])"
proof -
  let ?ws = "buf @ virt @ pads" and ?L = "length buf"
  note pads = closing_pads[OF q cl]
  have bl: "virt \<noteq> [] \<Longrightarrow> buf \<noteq> [] \<and> \<not> terminates c (last buf)" using cl by (auto simp: closing_def split: if_splits)
  have s: "struct_at cfg ?ws k = struct_at cfg buf k" "term_at cfg ?ws k = term_at cfg buf k" if k: "k < ?L" for k
  proof -
    show t: "term_at cfg ?ws k = term_at cfg buf k" using at_prefix(4)[OF k] by simp
    show "struct_at cfg ?ws k = struct_at cfg buf k"
    proof (cases "k + 1 < ?L")
      case True
      then show ?thesis using marks_prefix(1)[of k buf cfg "virt @ pads"] by simp
    next
      case False
      then have last: "k + 1 = ?L" using k by simp
      have "\<not> term_at cfg buf (k + 1)" using last by (simp add: term_at_def)
      moreover have "\<not> (term_at cfg ?ws k \<and> term_at cfg ?ws (k + 1))"
      proof (cases "virt = []")
        case True
        then show ?thesis using pads(2)[of "k + 1"] last by simp
      next
        case False
        have "last buf = buf ! k" using last k by (metis add_diff_cancel_right' last_conv_nth list.size(3) not_less_zero)
        then have "\<not> terminates c (?ws ! k)" using bl[OF False] k by (simp add: nth_append)
        then show ?thesis using quoting_at(3)[OF q] by blast
      qed
      ultimately show ?thesis using t at_prefix(3)[OF k, of cfg "virt @ pads"] by (auto simp: struct_at_def run_end_at_def)
    qed
  qed
  have split: "[0..<length ?ws] = [0..<?L] @ [?L..<length ?ws]" using upt_add_eq_append[of 0 ?L "length (virt @ pads)"] by simp
  have "structs_in cfg ?ws 0 ?L = structs_in cfg buf 0 ?L" unfolding structs_in_def using s(1) by (auto intro!: filter_cong)
  then have first: "kinds_in cfg ?ws 0 ?L = kinds_in cfg buf 0 ?L" unfolding kinds_in_def using s(2) by (auto simp: structs_in_def)
  have rest: "kinds_in cfg ?ws ?L (length ?ws) = (if virt \<noteq> [] \<and> \<not> open_before cfg buf ?L then [True] else [])"
  proof (cases "virt = []")
    case True
    then have "\<not> struct_at cfg ?ws k" if "?L \<le> k" for k using pads[of k] that by (simp add: struct_at_def run_end_at_def)
    then show ?thesis using True by (simp add: kinds_in_def structs_in_def filter_empty_conv)
  next
    case False
    then obtain t where t: "virt = [t]" "terminates c t" using cl by (auto simp: closing_def split: if_splits)
    have none: "\<not> struct_at cfg ?ws k" if "?L < k" for k using pads[of k] that t by (simp add: struct_at_def run_end_at_def)
    have at_t: "term_at cfg ?ws ?L \<longleftrightarrow> \<not> open_before cfg buf ?L"
    proof -
      have "quoted_at cfg ?ws ?L = open_before cfg buf ?L"
        using closing_open[OF q cl, of "Suc ?L"] by simp
      then show ?thesis using quoting_at(3)[OF q, of ?ws ?L] t by simp
    qed
    have "\<not> term_at cfg ?ws (?L + 1)" using pads(2)[of "?L + 1"] t by simp
    moreover have "\<not> delim_at cfg ?ws ?L" using quoting_at(2)[OF q, of ?ws ?L] quoting_sel(5)[OF q] t by auto
    ultimately have st: "struct_at cfg ?ws ?L \<longleftrightarrow> \<not> open_before cfg buf ?L" using at_t by (simp add: struct_at_def run_end_at_def)
    have "[?L..<length ?ws] = ?L # [?L + 1..<length ?ws]" using t upt_conv_Cons[of ?L "length ?ws"] by simp
    moreover have "filter (struct_at cfg ?ws) [?L + 1..<length ?ws] = []" using none by (simp add: filter_empty_conv)
    ultimately show ?thesis using False st at_t by (simp add: kinds_in_def structs_in_def)
  qed
  have "kinds_in cfg ?ws 0 (length ?ws) = kinds_in cfg ?ws 0 ?L @ kinds_in cfg ?ws ?L (length ?ws)"
    unfolding kinds_in_def structs_in_def split by simp
  then show ?thesis using first rest by simp
qed

text \<open>A wrong prefix stays wrong.\<close>

lemma kinds_wrong_on:
  assumes "count_fields n 0 (kinds_in cfg ws 0 k) = None"
  shows "count_fields n 0 (kinds_in cfg ws 0 (length ws)) = None"
proof -
  have none: "\<not> struct_at cfg ws j" if "length ws \<le> j" for j using that by (simp add: struct_at_def run_end_at_def delim_at_def term_at_def)
  show ?thesis
  proof (cases "k \<le> length ws")
    case True
    then have "[0..<length ws] = [0..<k] @ [k..<length ws]" using upt_add_eq_append[of 0 k "length ws - k"] by simp
    then show ?thesis using assms by (simp add: kinds_in_def structs_in_def count_fields_append)
  next
    case False
    then have "[0..<k] = [0..<length ws] @ [length ws..<k]" using upt_add_eq_append[of 0 "length ws" "k - length ws"] by simp
    moreover have "filter (struct_at cfg ws) [length ws..<k] = []" using none by (simp add: filter_empty_conv)
    ultimately have "kinds_in cfg ws 0 k = kinds_in cfg ws 0 (length ws)" by (simp add: kinds_in_def structs_in_def)
    then show ?thesis using assms by simp
  qed
qed

section \<open>Errors at the end\<close>

lemma closing_arity_error:
  fixes m :: "'s machine"
  assumes q: "quoting c n cfg" and at: "at_record m" and first: "buf \<noteq> [] \<longrightarrow> \<not> terminates c (buf ! 0)"
    and cl: "closing c buf virt pads" and none: "count_fields n 0 (kinds_in cfg (buf @ virt @ pads) 0 k) = None"
    and loop: "locate_loop buf n (delimiter c) (terminates c) (quote c) 0 0 1 False = (start, found)"
  shows "error_ahead c p buf m (NumberOfFields n found (at_byte (p + start)) :: 'u Error)"
proof (cases "count_fields n 0 (kinds_in cfg buf 0 (length buf)) = None")
  case True
  from quoted_error_scanned[OF q at first this loop, where ys = "[]"] show ?thesis by simp
next
  case False
  let ?L = "p + length buf"
  obtain ph where ph: "count_fields n 0 (kinds_in cfg buf 0 (length buf)) = Some ph" using False by blast
  have "count_fields n 0 (kinds_in cfg (buf @ virt @ pads) 0 (length (buf @ virt @ pads))) = None"
    by (rule kinds_wrong_on[OF none])
  then have v: "virt \<noteq> []" "\<not> open_before cfg buf (length buf)" "ph \<noteq> n - 1"
    unfolding closing_kinds[OF q cl] using ph by (auto simp: count_fields_append split: if_splits)
  then have b: "buf \<noteq> []" "\<not> terminates c (last buf)" using cl by (auto simp: closing_def split: if_splits)
  have w: "walks p 0 0 1 (open_before cfg buf 0) m" using at by (simp add: walks_def open_before_def)
  have loop': "locate_loop buf n (delimiter c) (terminates c) (quote c) 0 0 1 (open_before cfg buf 0) = (start, found)"
    using loop by (simp add: open_before_def)
  have fst: "0 < length buf \<and> at_record m \<longrightarrow> \<not> terminates c (buf ! 0)" using first by simp
  from quoted_locate_sim[OF q w le_refl le0 fst order_refl loop', where 'u = 'u] ph obtain m' where
    run: "(spec_run c accept_all ?L p buf m :: ('s, 'u) outcome) = Running m'" and
    w': "walks p (length buf) start found (open_before cfg buf (length buf)) m'" "in_rec m'" and
    cf: "found \<le> n \<longrightarrow> ph = found - 1"
    using b n_pos[OF q] by fastforce
  have "found \<noteq> n" using cf v(3) by auto
  moreover have m': "length (m_fields m') + 1 = found" "m_rec_start m' = p + start" "m_state m' \<noteq> InQuotedField"
    using w' v(2) by (auto simp: walks_def in_rec_def at_record_def)
  moreover have "field_count c = Some n" "\<not> trim c" using q by (simp_all add: quoting_def)
  ultimately have "(hand_over c accept_all m' :: 'u Error + 's) = Inl (NumberOfFields n found (at_byte (p + start)))"
    by (simp add: hand_over_def closed_fields_def trimmed_def)
  then have "(spec_finish c accept_all ?L m' :: 'u Error + nat option \<times> 's) = Inl (NumberOfFields n found (at_byte (p + start)))"
    using w'(2) m'(3) by (auto simp: spec_finish_def in_rec_def)
  then have "(spec_rest c accept_all ?L p buf m :: 'u Error + nat option \<times> 's) = Inl (NumberOfFields n found (at_byte (p + start)))"
    using run by (simp add: spec_rest_def)
  then show ?thesis by (auto simp: error_ahead_def arity_ahead_def)
qed

text \<open>A quote left open: the reference machine reports the start of its field.\<close>

lemma closing_unclosed:
  fixes m :: "'s machine"
  assumes q: "quoting c n cfg" and at: "at_record m" and first: "buf \<noteq> [] \<longrightarrow> \<not> terminates c (buf ! 0)"
    and ph: "count_fields n 0 (kinds_in cfg buf 0 (length buf)) = Some ph" and op: "open_before cfg buf (length buf)"
  obtains f where "open_field cfg buf f" "error_ahead c p buf m (UnclosedQuote (at_byte (p + f)) :: 'u Error)"
proof -
  let ?L = "p + length buf"
  obtain start found where loop: "locate_loop buf n (delimiter c) (terminates c) (quote c) 0 0 1 (open_before cfg buf 0) = (start, found)"
    by fastforce
  have w: "walks p 0 0 1 (open_before cfg buf 0) m" using at by (simp add: walks_def open_before_def)
  have fst: "0 < length buf \<and> at_record m \<longrightarrow> \<not> terminates c (buf ! 0)" using first by simp
  from quoted_locate_sim[OF q w le_refl le0 fst order_refl loop, where 'u = 'u] ph obtain m' where
    run: "(spec_run c accept_all ?L p buf m :: ('s, 'u) outcome) = Running m'"
    by fastforce
  have "buf \<noteq> []" using op by (auto simp: open_before_def)
  have "\<not> term_at cfg buf (length buf - 1)" using op by (auto simp: open_before_def term_at_def)
  with quoted_field_start[OF q at first run] \<open>buf \<noteq> []\<close> op obtain f where
    f: "m_state m' = InQuotedField" "open_field cfg buf f" "m_fld_start m' = p + f" by blast
  have "(spec_rest c accept_all ?L p buf m :: 'u Error + nat option \<times> 's) = Inl (UnclosedQuote (at_byte (p + f)))"
    using run f(1,3) by (simp add: spec_rest_def spec_finish_def)
  then have "error_ahead c p buf m (UnclosedQuote (at_byte (p + f)) :: 'u Error)" by (auto simp: error_ahead_def)
  with f(2) show ?thesis by (rule that)
qed

section \<open>The virtual terminator\<close>

lemma closing_spec_rest:
  fixes acc :: "('s, 'u) accumulator"
  assumes q: "quoting c n cfg" and at: "at_record m" and first: "buf \<noteq> [] \<longrightarrow> \<not> terminates c (buf ! 0)"
    and cl: "closing c buf virt pads" and op: "\<not> open_before cfg buf (length buf)"
  shows "spec_rest c acc L p (buf @ virt) m = spec_rest c acc L p buf m"
proof (cases "virt = []")
  case False
  then obtain t where t: "virt = [t]" "terminates c t" "buf \<noteq> []" "\<not> terminates c (last buf)"
    using cl by (auto simp: closing_def split: if_splits)
  show ?thesis
  proof (cases "spec_run c acc L p buf m")
    case (Running m')
    have "\<not> term_at cfg buf (length buf - 1)" using t(3,4) quoting_at(3)[OF q] by (simp add: last_conv_nth)
    with quoted_field_start[OF q at first Running] t(3) op have fs: "in_field_state (m_state m')" by (auto simp: in_rec_def)
    have "spec_rest c acc L p (buf @ virt) m = spec_rest c acc L (p + length buf) [t] m'"
      unfolding t(1) by (rule spec_rest_append[OF Running])
    also have "\<dots> = spec_finish c acc (p + length buf) m'"
      using fs by (auto simp: spec_rest_def quoting_cells(6)[OF q fs t(2)] enter_def spec_finish_def split: sum.split)
    finally show ?thesis using Running by (simp add: spec_rest_def)
  qed (simp_all add: spec_rest_def spec_run_append)
qed simp

end
