(* ===== verification/CursorLocate.thy ===== *)
theory CursorLocate
  imports CursorEmit
begin

text \<open>
  The position and count of an arity error. The walk of \<open>locate_bad_record\<close> goes along with the reference machine,
  and stops where it fails; past the end of what is scanned the count is a lower bound.
\<close>

section \<open>The walk and the machine\<close>

definition walking :: "nat \<Rightarrow> nat \<Rightarrow> nat \<Rightarrow> nat \<Rightarrow> 's machine \<Rightarrow> bool" where
  "walking tot i start found m \<longleftrightarrow> at_record m \<and> found = 1 \<and> start = i \<or>
     in_record m \<and> length (m_fields m) + 1 = found \<and> m_rec_start m = tot + start"

lemma plain_first_cells:
  fixes m :: "'s machine"
  assumes "plain c n" and "walking tot i start found m" and "at_record m \<longrightarrow> \<not> terminates c b"
  obtains m1 :: "'s machine" where "in_record m1" "length (m_fields m1) + 1 = found" "m_rec_start m1 = tot + start"
    "\<And>acc L. (spec_byte c acc L (tot + i) b m :: ('s, 'u) outcome) = spec_byte c acc L (tot + i) b m1"
proof (cases "at_record m")
  case True
  have st: "m_state m = RecordStart" "\<not> terminates c b" using True assms(3) by (auto simp: at_record_def)
  have "(spec_byte c acc L (tot + i) b m :: ('s, 'u) outcome) = spec_byte c acc L (tot + i) b (opened (tot + i) m)" for acc L
    by (rule spec_byte_first[OF assms(1) st])
  moreover have "start = i" "found = 1" using True assms(2) by (auto simp: walking_def at_record_def in_record_def)
  ultimately show ?thesis using that[of "opened (tot + i) m"] True by (simp add: at_record_def)
next
  case False
  with assms(2) show ?thesis using that[of m] by (auto simp: walking_def)
qed

lemma bounds_in_Cons:
  assumes "i < e"
  shows "bounds_in c xs i e = (if is_bound c xs i then [i] else []) @ bounds_in c xs (i + 1) e"
  using assms by (simp add: bounds_in_def upt_conv_Cons)

lemma bounds_in_run:
  assumes "i < j" and "j \<le> e" and "\<forall>k. i \<le> k \<and> k < j - 1 \<longrightarrow> \<not> is_bound c xs k" and "is_bound c xs (j - 1)"
  shows "bounds_in c xs i e = (j - 1) # bounds_in c xs j e"
  using assms
proof (induction "j - i" arbitrary: i)
  case (Suc x)
  show ?case
  proof (cases "i = j - 1")
    case True
    with Suc.prems show ?thesis using bounds_in_Cons[of i e c xs] by simp
  next
    case False
    with Suc.prems have "i + 1 < j" "\<not> is_bound c xs i" by auto
    with Suc.hyps(1)[of "i + 1"] Suc.hyps(2) Suc.prems show ?thesis using bounds_in_Cons[of i e c xs] by simp
  qed
qed simp

text \<open>A run of terminators from \<open>i\<close> on, as the walk skips it.\<close>

definition run_end_from :: "Config \<Rightarrow> byte list \<Rightarrow> nat \<Rightarrow> nat" where
  "run_end_from c zs i = i + length (takeWhile (terminates c) (drop i zs))"

lemma run_end_from_facts:
  fixes c :: Config and zs :: "byte list" and i :: nat
  assumes "i \<le> length zs"
  defines "j \<equiv> run_end_from c zs i"
  shows "i \<le> j" "j \<le> length zs" "\<forall>k. i \<le> k \<and> k < j \<longrightarrow> terminates c (zs ! k)" "j < length zs \<Longrightarrow> \<not> terminates c (zs ! j)"
proof -
  let ?t = "takeWhile (terminates c) (drop i zs)"
  show "i \<le> j" by (simp add: j_def run_end_from_def)
  show "j \<le> length zs"
    using length_takeWhile_le[of "terminates c" "drop i zs"] assms(1) by (simp add: j_def run_end_from_def)
  show "\<forall>k. i \<le> k \<and> k < j \<longrightarrow> terminates c (zs ! k)"
  proof (intro allI impI)
    fix k assume k: "i \<le> k \<and> k < j"
    then have "?t ! (k - i) \<in> set ?t" by (intro nth_mem) (simp add: j_def run_end_from_def less_diff_conv2)
    then have "terminates c (?t ! (k - i))" by (auto dest: set_takeWhileD)
    moreover have "?t ! (k - i) = zs ! k"
      using k takeWhile_nth[of "k - i" "terminates c" "drop i zs"] assms(1) by (simp add: j_def run_end_from_def less_diff_conv2)
    ultimately show "terminates c (zs ! k)" by simp
  qed
  show "j < length zs \<Longrightarrow> \<not> terminates c (zs ! j)"
    using nth_length_takeWhile[of "terminates c" "drop i zs"] assms(1) by (simp add: j_def run_end_from_def less_diff_conv2 add.commute)
qed

lemma locate_sim:
  fixes m :: "'s machine"
  assumes "plain c n" and "walking tot i start found m" and "i \<le> length zs" and "i < length zs \<and> at_record m \<longrightarrow> \<not> terminates c (zs ! i)"
    and "tot + length zs \<le> L" and "locate_loop zs n (delimiter c) (terminates c) None i start found False = (start', found')"
  shows "(spec_run c accept_all L (tot + i) (drop i zs) m :: ('s, 'u) outcome) = Failed (NumberOfFields n found' (at_byte (tot + start'))) \<or>
    (\<exists>m'. (spec_run c accept_all L (tot + i) (drop i zs) m :: ('s, 'u) outcome) = Running m' \<and>
       walking tot (length zs) start' found' m' \<and> (i < length zs \<and> \<not> terminates c (last zs) \<longrightarrow> in_record m') \<and>
       (n < found \<longrightarrow> n < found') \<and>
       (found \<le> n \<and> found' \<le> n \<longrightarrow> count_fields n (found - 1) (kinds c zs (bounds_in c zs i (length zs))) = Some (found' - 1)))"
  using assms(2-4,6)
proof (induction "length zs - i" arbitrary: i start found m rule: less_induct)
  case less
  note loop = less.prems(4)[unfolded locate_loop.simps[of zs n "delimiter c" "terminates c" None i start found False]]
  show ?case
  proof (cases "i < length zs")
    case False
    with loop have "start' = start" "found' = found" by simp_all
    with False less.prems show ?thesis by (auto simp: bounds_in_def kinds_def)
  next
    case True
    let ?b = "zs ! i"
    have sb: "at_record m \<longrightarrow> \<not> terminates c ?b" using less.prems(3) True by simp
    obtain m1 where m1: "in_record m1" "length (m_fields m1) + 1 = found" "m_rec_start m1 = tot + start"
      "\<And>acc L. (spec_byte c acc L (tot + i) ?b m :: ('s, 'u) outcome) = spec_byte c acc L (tot + i) ?b m1"
      by (rule plain_first_cells[OF assms(1) less.prems(1) sb]) blast
    have head: "drop i zs = ?b # drop (i + 1) zs" using True by (simp add: Cons_nth_drop_Suc)
    have run: "(spec_run c accept_all L (tot + i) (drop i zs) m :: ('s, 'u) outcome) =
        (case spec_byte c accept_all L (tot + i) ?b m1 of Running m2 \<Rightarrow> spec_run c accept_all L (tot + (i + 1)) (drop (i + 1) zs) m2
         | out \<Rightarrow> out)"
      unfolding head by (simp add: m1(4) split: outcome.split)
    have last: "i + 1 < length zs \<or> i + 1 = length zs" using True by auto
    have lastz: "i + 1 = length zs \<Longrightarrow> last zs = ?b" using True by (metis add_diff_cancel_right' last_conv_nth list.size(3) not_less_zero)
    consider (delim) "?b = delimiter c" | (trm) "terminates c ?b" "?b \<noteq> delimiter c" | (content) "content c ?b"
      by (auto simp: content_def)
    then show ?thesis
    proof cases
      case content
      define m2 where "m2 = m1\<lparr>m_cur := m_cur m1 @ [?b], m_state := InField\<rparr>"
      have b: "(spec_byte c accept_all L (tot + i) ?b m1 :: ('s, 'u) outcome) = Running m2"
        unfolding m2_def by (rule plain_cells(1)[OF assms(1) m1(1) content])
      have w: "walking tot (i + 1) start found m2" using m1(1-3) by (auto simp: walking_def m2_def in_record_def)
      have nr: "\<not> at_record m2" by (simp add: m2_def at_record_def)
      have go: "locate_loop zs n (delimiter c) (terminates c) None (i + 1) start found False = (start', found')"
        using loop content True by (simp add: content_def Let_def)
      have nb: "bounds_in c zs i (length zs) = bounds_in c zs (i + 1) (length zs)"
        using content bounds_in_Cons[OF True, of c zs] by (auto simp: is_bound_def content_def)
      have fin: "i + 1 = length zs \<Longrightarrow> in_record m2" by (simp add: m2_def in_record_def)
      have pre: "length zs - (i + 1) < length zs - i" "i + 1 \<le> length zs" "i + 1 < length zs \<and> at_record m2 \<longrightarrow> \<not> terminates c (zs ! (i + 1))"
        using True nr by auto
      from less.hyps[OF pre(1) w pre(2,3) go] show ?thesis unfolding run b nb outcome.case using last fin by auto
    next
      case delim
      define m2 where "m2 = m1\<lparr>m_fields := m_fields m1 @ [m_cur m1], m_cur := [], m_fld_start := tot + i + 1, m_state := FieldStart\<rparr>"
      have b: "(spec_byte c accept_all L (tot + i) ?b m1 :: ('s, 'u) outcome) = Running m2"
        unfolding m2_def by (rule plain_cells(2)[OF assms(1) m1(1) delim])
      have w: "walking tot (i + 1) start (found + 1) m2" using m1(2,3) by (auto simp: walking_def m2_def in_record_def)
      have nr: "\<not> at_record m2" by (simp add: m2_def at_record_def)
      have go: "locate_loop zs n (delimiter c) (terminates c) None (i + 1) start (found + 1) False = (start', found')"
        using loop delim True by (simp add: Let_def)
      have nt: "\<not> terminates c ?b" using delim assms(1) by (simp add: plain_def dialect_ok_def)
      have nb: "kinds c zs (bounds_in c zs i (length zs)) = False # kinds c zs (bounds_in c zs (i + 1) (length zs))"
        using delim nt True bounds_in_Cons[OF True, of c zs] by (simp add: is_bound_def kinds_def)
      have fin: "i + 1 = length zs \<Longrightarrow> in_record m2" by (simp add: m2_def in_record_def)
      have pre: "length zs - (i + 1) < length zs - i" "i + 1 \<le> length zs" "i + 1 < length zs \<and> at_record m2 \<longrightarrow> \<not> terminates c (zs ! (i + 1))"
        using True nr by auto
      from less.hyps[OF pre(1) w pre(2,3) go] show ?thesis
      proof (elim disjE exE conjE)
        fix m'
        assume r: "(spec_run c accept_all L (tot + (i + 1)) (drop (i + 1) zs) m2 :: ('s, 'u) outcome) = Running m'"
          and w': "walking tot (length zs) start' found' m'"
          and t: "i + 1 < length zs \<and> \<not> terminates c (last zs) \<longrightarrow> in_record m'"
          and gt: "n < found + 1 \<longrightarrow> n < found'"
          and cf: "found + 1 \<le> n \<and> found' \<le> n \<longrightarrow>
            count_fields n (found + 1 - 1) (kinds c zs (bounds_in c zs (i + 1) (length zs))) = Some (found' - 1)"
        have "in_record m'" if "\<not> terminates c (last zs)"
        proof (cases "i + 1 < length zs")
          case False
          then have "m' = m2" using r by simp
          then show ?thesis using fin False True by simp
        qed (use t that in simp)
        moreover have "count_fields n (found - 1) (kinds c zs (bounds_in c zs i (length zs))) = Some (found' - 1)" if "found \<le> n" "found' \<le> n"
        proof -
          have "found + 1 \<le> n" using gt that by linarith
          moreover have "0 < found" using m1(2) by linarith
          ultimately show ?thesis using cf that(2) unfolding nb by simp
        qed
        ultimately show ?thesis unfolding run b outcome.case using r w' gt by auto
      qed (simp add: run b)
    next
      case trm
      have byte: "(spec_byte c accept_all L (tot + i) ?b m1 :: ('s, 'u) outcome) = enter c accept_all L (tot + i) RecordEnd m1"
        by (rule plain_cells(3)[OF assms(1) m1(1) trm(1)])
      have closed: "length (closed_fields c m1) = found" using m1(2) by (simp add: closed_fields_def)
      show ?thesis
      proof (cases "found = n")
        case False
        then have "hand_over c accept_all m1 = (Inl (NumberOfFields n found (at_byte (tot + start))) :: 'u Error + 's)"
          using closed assms(1) m1(3) by (simp add: hand_over_def plain_def)
        moreover have "start' = start" "found' = found" using loop trm True False by (simp_all add: Let_def)
        ultimately show ?thesis unfolding run byte by (simp add: enter_def)
      next
        case eq: True
        define j where "j = run_end_from c zs (i + 1)"
        have j: "i + 1 \<le> j" "j \<le> length zs" "\<forall>k. i \<le> k \<and> k < j \<longrightarrow> terminates c (zs ! k)" "j < length zs \<Longrightarrow> \<not> terminates c (zs ! j)"
          using run_end_from_facts[of "i + 1" zs c] True trm(1) unfolding j_def[symmetric]
          by (auto simp: Suc_le_eq) (metis Suc_leI le_neq_implies_less)
        define m2 where "m2 = m1\<lparr>m_fields := [], m_cur := [], m_fld_start := tot + i + 1, m_last_end := Some (tot + i),
          m_acc := m_acc m1, m_state := RecordStart\<rparr>"
        have "hand_over c accept_all m1 = (Inr (m_acc m1) :: 'u Error + 's)"
          using closed assms(1) eq by (simp add: hand_over_def plain_def accept_all_def)
        then have b: "(spec_byte c accept_all L (tot + i) ?b m1 :: ('s, 'u) outcome) = Running m2"
          unfolding byte using True assms(5) by (simp add: enter_def m2_def)
        have at2: "at_record m2" by (simp add: m2_def at_record_def)
        have go: "locate_loop zs n (delimiter c) (terminates c) None j j 1 False = (start', found')"
          using loop trm True eq unfolding j_def run_end_from_def by (simp add: Let_def)
        have w: "walking tot j j 1 m2" using at2 by (simp add: walking_def)
        have "drop (i + 1) zs = subslice zs (i + 1) j @ drop j zs" by (rule slice_append_drop[OF j(1), symmetric])
        moreover have "(spec_run c accept_all L (tot + (i + 1)) (subslice zs (i + 1) j) m2 :: ('s, 'u) outcome) = Running m2"
        proof -
          have "\<forall>x\<in>set (subslice zs (i + 1) j). terminates c x" using slice_set[of _ zs "i + 1" j] j by fastforce
          from spec_run_terminators[OF _ this, of m2 accept_all L "tot + (i + 1)"] show ?thesis
            using assms(5) j(1,2) by (simp add: m2_def)
        qed
        moreover have "tot + (i + 1) + length (subslice zs (i + 1) j) = tot + j" using j(1,2) by simp
        ultimately have run2: "(spec_run c accept_all L (tot + (i + 1)) (drop (i + 1) zs) m2 :: ('s, 'u) outcome) =
            spec_run c accept_all L (tot + j) (drop j zs) m2"
          by (simp add: spec_run_append)
        have "is_bound c zs (j - 1)" using j True by (auto simp: is_bound_def)
        moreover have "\<forall>k. i \<le> k \<and> k < j - 1 \<longrightarrow> \<not> is_bound c zs k"
        proof (intro allI impI)
          fix k assume k: "i \<le> k \<and> k < j - 1"
          then have "terminates c (zs ! k)" "terminates c (zs ! (k + 1))" "k + 1 < length zs" using j by auto
          then show "\<not> is_bound c zs k" using assms(1) by (auto simp: is_bound_def plain_def dialect_ok_def)
        qed
        ultimately have bi: "bounds_in c zs i (length zs) = (j - 1) # bounds_in c zs j (length zs)"
          using j(1,2) by (intro bounds_in_run) auto
        have "terminates c (zs ! (j - 1))" using j True by simp
        then have nb: "kinds c zs (bounds_in c zs i (length zs)) = True # kinds c zs (bounds_in c zs j (length zs))"
          by (simp add: bi kinds_def)
        have n: "1 \<le> n" using assms(1) by (simp add: plain_def)
        have lastj: "j = length zs \<Longrightarrow> terminates c (last zs)"
        proof -
          assume "j = length zs"
          then have "i \<le> length zs - 1" "length zs - 1 < j" using j(1) by simp_all
          then have "terminates c (zs ! (length zs - 1))" using j(3) by blast
          moreover have "zs \<noteq> []" using True by auto
          ultimately show ?thesis by (simp add: last_conv_nth)
        qed
        have pre: "length zs - j < length zs - i" "j < length zs \<and> at_record m2 \<longrightarrow> \<not> terminates c (zs ! j)" using j True by auto
        from less.hyps[OF pre(1) w j(2) pre(2) go] show ?thesis
        proof (elim disjE exE conjE)
          fix m'
          assume r: "(spec_run c accept_all L (tot + j) (drop j zs) m2 :: ('s, 'u) outcome) = Running m'"
            and w': "walking tot (length zs) start' found' m'"
            and t: "j < length zs \<and> \<not> terminates c (last zs) \<longrightarrow> in_record m'"
            and cf: "1 \<le> n \<and> found' \<le> n \<longrightarrow>
              count_fields n (1 - 1) (kinds c zs (bounds_in c zs j (length zs))) = Some (found' - 1)"
          have "in_record m'" if "\<not> terminates c (last zs)" using t that lastj j(2) by (cases "j = length zs") auto
          moreover have "count_fields n (found - 1) (kinds c zs (bounds_in c zs i (length zs))) = Some (found' - 1)" if "found' \<le> n"
            using cf that n eq unfolding nb by simp
          ultimately show ?thesis unfolding run b run2 outcome.case using r w' eq by auto
        qed (use run2 in \<open>simp add: run b\<close>)
      qed
    qed
  qed
qed

section \<open>The error\<close>

text \<open>A record with too many fields already ends in an error, wherever it ends.\<close>

lemma too_many:
  fixes m :: "'s machine"
  assumes "plain c n" and "in_record m" and "n < length (m_fields m) + 1" and "p + length xs \<le> L"
  shows "\<exists>f. length (m_fields m) + 1 \<le> f \<and>
    spec_rest c accept_all L p xs m = (Inl (NumberOfFields n f (at_byte (m_rec_start m))) :: 'u Error + nat option \<times> 's)"
  using assms(2-4)
proof (induction xs arbitrary: p m)
  case Nil
  then have "hand_over c accept_all m = (Inl (NumberOfFields n (length (m_fields m) + 1) (at_byte (m_rec_start m))) :: 'u Error + 's)"
    using assms(1) by (simp add: hand_over_def closed_fields_def plain_def)
  with Nil show ?case by (auto simp: spec_finish_def in_record_def)
next
  case (Cons b bs)
  consider (delim) "b = delimiter c" | (stop) "terminates c b" | (content) "content c b" by (auto simp: content_def)
  then show ?case
  proof cases
    case stop
    have "hand_over c accept_all m = (Inl (NumberOfFields n (length (m_fields m) + 1) (at_byte (m_rec_start m))) :: 'u Error + 's)"
      using assms(1) Cons.prems(2) by (simp add: hand_over_def closed_fields_def plain_def)
    then have "(spec_byte c accept_all L p b m :: ('s, 'u) outcome) = Failed (NumberOfFields n (length (m_fields m) + 1) (at_byte (m_rec_start m)))"
      unfolding plain_cells(3)[OF assms(1) Cons.prems(1) stop] by (simp add: enter_def)
    then show ?thesis by (auto simp: spec_rest_def)
  next
    case delim
    let ?m = "m\<lparr>m_fields := m_fields m @ [m_cur m], m_cur := [], m_fld_start := p + 1, m_state := FieldStart\<rparr>"
    have "(spec_byte c accept_all L p b m :: ('s, 'u) outcome) = Running ?m"
      by (rule plain_cells(2)[OF assms(1) Cons.prems(1) delim])
    then have "(spec_rest c accept_all L p (b # bs) m :: 'u Error + nat option \<times> 's) = spec_rest c accept_all L (p + 1) bs ?m"
      by (simp add: spec_rest_def split: outcome.split)
    moreover have "in_record ?m" "n < length (m_fields ?m) + 1" "p + 1 + length bs \<le> L" using Cons.prems by (simp_all add: in_record_def)
    note Cons.IH[OF this]
    ultimately show ?thesis by (auto intro: Suc_leD)
  next
    case content
    let ?m = "m\<lparr>m_cur := m_cur m @ [b], m_state := InField\<rparr>"
    have "(spec_byte c accept_all L p b m :: ('s, 'u) outcome) = Running ?m"
      by (rule plain_cells(1)[OF assms(1) Cons.prems(1) content])
    then have "(spec_rest c accept_all L p (b # bs) m :: 'u Error + nat option \<times> 's) = spec_rest c accept_all L (p + 1) bs ?m"
      by (simp add: spec_rest_def split: outcome.split)
    moreover have "in_record ?m" "n < length (m_fields ?m) + 1" "p + 1 + length bs \<le> L" using Cons.prems by (simp_all add: in_record_def)
    note Cons.IH[OF this]
    ultimately show ?thesis by auto
  qed
qed

lemma count_fields_cut:
  assumes "count_fields n ph (kinds c xs (bounds_in c xs a b)) = None" and "b \<le> e"
  shows "count_fields n ph (kinds c xs (bounds_in c xs a e)) = None"
proof (cases "a \<le> b")
  case True
  then have "bounds_in c xs a e = bounds_in c xs a b @ bounds_in c xs b e"
    using assms(2) upt_add_eq_append[of a b "e - b"] by (simp add: bounds_in_def)
  then show ?thesis using assms(1) by (simp add: kinds_def count_fields_append)
qed (use assms in \<open>simp add: bounds_in_def kinds_def\<close>)

text \<open>Boundaries do not depend on what comes two bytes later.\<close>

lemma bounds_in_prefix:
  assumes "b < length zs"
  shows "bounds_in c (zs @ ys) a b = bounds_in c zs a b" "kinds c (zs @ ys) (bounds_in c zs a b) = kinds c zs (bounds_in c zs a b)"
  using assms
  by (auto simp: bounds_in_def kinds_def is_bound_def nth_append intro!: filter_cong)

lemma locate_bad_record_walk:
  assumes "set_up c n st" and "cell_start st \<le> length zs"
  shows "locate_bad_record zs (cell_start st) n (delim st) (term_a st) (term_b st) None =
    locate_loop zs n (delimiter c) (terminates c) None (cell_start st) (cell_start st) 1 False"
proof -
  have "(\<lambda>b. b = term_a st \<or> term_b st = Some b) = terminates c"
    using set_up_terminates(1)[OF assms(1)] by (auto simp: is_term_def)
  moreover have "delim st = delimiter c" using assms(1) by (simp add: set_up_def)
  ultimately show ?thesis using assms(2) by (simp add: locate_bad_record_def min_def Let_def)
qed

text \<open>An error found while scanning, at a boundary followed by another scanned byte.\<close>

lemma arity_error_ahead:
  fixes m :: "'s machine" and err :: "'u Error"
  assumes "plain c n" and "set_up c n st" and "at_record m" and "cell_start st \<le> length zs"
    and "cell_start st < length zs \<longrightarrow> \<not> terminates c (zs ! cell_start st)"
    and "count_fields n 0 (kinds c (zs @ ys) (bounds_in c (zs @ ys) (cell_start st) k)) = None" and "k < length zs"
    and "arity_error st zs tot = err"
  shows "arity_ahead c (tot + cell_start st) (drop (cell_start st) zs @ ys) m err"
proof -
  let ?cs = "cell_start st"
  let ?L = "tot + ?cs + length (drop ?cs zs @ ys)"
  obtain start found where walk: "locate_loop zs n (delimiter c) (terminates c) None ?cs ?cs 1 False = (start, found)" by fastforce
  have fc: "fc_n (field_counter st) = n" using assms(2) by (simp add: set_up_def)
  have err: "err = NumberOfFields n found (at_byte (tot + start))"
    using assms(8) locate_bad_record_walk[OF assms(2,4)] walk fc by (simp add: arity_error_def)
  have w: "walking tot ?cs ?cs 1 m" using assms(3) by (simp add: walking_def)
  have L: "tot + length zs \<le> ?L" using assms(4) by simp
  have none: "count_fields n 0 (kinds c zs (bounds_in c zs ?cs (length zs))) = None"
    using count_fields_cut[of n 0 c zs ?cs k "length zs"] assms(6,7) by (simp add: bounds_in_prefix)
  have n: "1 \<le> n" using assms(1) by (simp add: plain_def)
  have first: "?cs < length zs \<and> at_record m \<longrightarrow> \<not> terminates c (zs ! ?cs)" using assms(5) by simp
  have "\<exists>f. found \<le> f \<and> (spec_rest c accept_all ?L (tot + ?cs) (drop ?cs zs @ ys) m :: 'u Error + nat option \<times> 's) =
      Inl (NumberOfFields n f (at_byte (tot + start)))"
    using locate_sim[OF assms(1) w assms(4) first L walk, where 'u = 'u]
  proof (elim disjE exE conjE)
    assume "(spec_run c accept_all ?L (tot + ?cs) (drop ?cs zs) m :: ('s, 'u) outcome) =
      Failed (NumberOfFields n found (at_byte (tot + start)))"
    then show ?thesis by (auto simp: spec_rest_def spec_run_append)
  next
    fix m'
    assume run: "(spec_run c accept_all ?L (tot + ?cs) (drop ?cs zs) m :: ('s, 'u) outcome) = Running m'"
      and w': "walking tot (length zs) start found m'"
      and cf: "1 \<le> n \<and> found \<le> n \<longrightarrow> count_fields n (1 - 1) (kinds c zs (bounds_in c zs ?cs (length zs))) = Some (found - 1)"
    have "n < found" using cf none n by fastforce
    then have m': "in_record m'" "length (m_fields m') + 1 = found" "m_rec_start m' = tot + start"
      using w' n by (auto simp: walking_def)
    have "n < length (m_fields m') + 1" using m'(2) \<open>n < found\<close> by simp
    from too_many[OF assms(1) m'(1) this, of "tot + length zs" ys ?L, where 'u = 'u] assms(4) m'
    obtain f where "found \<le> f" "(spec_rest c accept_all ?L (tot + length zs) ys m' :: 'u Error + nat option \<times> 's) =
        Inl (NumberOfFields n f (at_byte (tot + start)))" by auto
    then show ?thesis using spec_rest_append[OF run, of ys] assms(4) by auto
  qed
  then show ?thesis unfolding arity_ahead_def err by blast
qed

text \<open>Nor on what is put after a byte that is no terminator.\<close>

lemma is_bound_snoc:
  assumes "k < length zs" and "\<not> terminates c (last zs)"
  shows "is_bound c (zs @ ys) k \<longleftrightarrow> is_bound c zs k"
proof (cases "k + 1 < length zs")
  case True
  then show ?thesis using assms(1) by (simp add: is_bound_def nth_append)
next
  case False
  then have k: "k = length zs - 1" "zs \<noteq> []" using assms(1) by auto
  then have "last zs = zs ! k" by (simp add: last_conv_nth)
  then show ?thesis using assms by (auto simp: is_bound_def nth_append)
qed

text \<open>An error at the end of the input, where a record without terminator ends as well.\<close>

lemma arity_error_at_end:
  fixes m :: "'s machine" and err :: "'u Error"
  assumes "plain c n" and "set_up c n st" and "at_record m" and "cell_start st < length zs"
    and "\<not> terminates c (zs ! cell_start st)"
    and "xs = zs \<and> terminates c (last zs) \<or> xs = zs @ [t] \<and> terminates c t \<and> \<not> terminates c (last zs)"
    and "count_fields n 0 (kinds c xs (bounds_in c xs (cell_start st) (length xs))) = None"
    and "arity_error st zs tot = err"
  shows "arity_ahead c (tot + cell_start st) (drop (cell_start st) zs) m err"
proof -
  let ?cs = "cell_start st"
  let ?L = "tot + ?cs + length (drop ?cs zs)"
  have le: "?cs \<le> length zs" using assms(4) by simp
  obtain start found where walk: "locate_loop zs n (delimiter c) (terminates c) None ?cs ?cs 1 False = (start, found)" by fastforce
  have fc: "fc_n (field_counter st) = n" using assms(2) by (simp add: set_up_def)
  have err: "err = NumberOfFields n found (at_byte (tot + start))"
    using assms(8) locate_bad_record_walk[OF assms(2) le] walk fc by (simp add: arity_error_def)
  have w: "walking tot ?cs ?cs 1 m" using assms(3) by (simp add: walking_def)
  have L: "tot + length zs \<le> ?L" using assms(4) by simp
  have n: "1 \<le> n" using assms(1) by (simp add: plain_def)
  have first: "?cs < length zs \<and> at_record m \<longrightarrow> \<not> terminates c (zs ! ?cs)" using assms(5) by simp
  have "(spec_rest c accept_all ?L (tot + ?cs) (drop ?cs zs) m :: 'u Error + nat option \<times> 's) =
      Inl (NumberOfFields n found (at_byte (tot + start)))"
    using locate_sim[OF assms(1) w le first L walk, where 'u = 'u]
  proof (elim disjE exE conjE)
    assume "(spec_run c accept_all ?L (tot + ?cs) (drop ?cs zs) m :: ('s, 'u) outcome) =
      Failed (NumberOfFields n found (at_byte (tot + start)))"
    then show ?thesis by (simp add: spec_rest_def)
  next
    fix m'
    assume run: "(spec_run c accept_all ?L (tot + ?cs) (drop ?cs zs) m :: ('s, 'u) outcome) = Running m'"
      and w': "walking tot (length zs) start found m'"
      and inr: "?cs < length zs \<and> \<not> terminates c (last zs) \<longrightarrow> in_record m'"
      and cf: "1 \<le> n \<and> found \<le> n \<longrightarrow> count_fields n (1 - 1) (kinds c zs (bounds_in c zs ?cs (length zs))) = Some (found - 1)"
    have m': "in_record m' \<and> found \<noteq> n"
    proof (cases "xs = zs")
      case True
      then have "n < found" using cf assms(7) n by fastforce
      then show ?thesis using w' n by (auto simp: walking_def)
    next
      case False
      then have xs: "xs = zs @ [t]" "terminates c t" "\<not> terminates c (last zs)" using assms(6) by auto
      have bound: "is_bound c xs k \<longleftrightarrow> is_bound c zs k" if "k < length zs" for k
        unfolding xs(1) by (rule is_bound_snoc[OF that xs(3)])
      have "bounds_in c xs ?cs (length zs) = bounds_in c zs ?cs (length zs)"
        using bound by (auto simp: bounds_in_def intro!: filter_cong)
      then have "bounds_in c xs ?cs (length xs) = bounds_in c zs ?cs (length zs) @ [length zs]"
        using le xs(2) by (simp add: bounds_in_def xs(1) is_bound_def)
      moreover have "kinds c xs (bounds_in c zs ?cs (length zs)) = kinds c zs (bounds_in c zs ?cs (length zs))"
        by (simp add: kinds_def bounds_in_def xs(1) nth_append)
      moreover have "kinds c xs [length zs] = [True]" using xs(2) by (simp add: kinds_def xs(1))
      ultimately have "kinds c xs (bounds_in c xs ?cs (length xs)) = kinds c zs (bounds_in c zs ?cs (length zs)) @ [True]"
        by (simp add: kinds_def)
      then have "found \<noteq> n" using assms(7) cf n by (auto simp: count_fields_append)
      then show ?thesis using inr assms(4) xs(3) by simp
    qed
    then have "length (m_fields m') + 1 = found" "m_rec_start m' = tot + start"
      using w' by (auto simp: walking_def at_record_def in_record_def)
    then have "hand_over c accept_all m' = (Inl (NumberOfFields n found (at_byte (tot + start))) :: 'u Error + 's)"
      using m' assms(1) by (simp add: hand_over_def closed_fields_def plain_def)
    then show ?thesis using run m' by (auto simp: spec_rest_def spec_finish_def in_record_def)
  qed
  then show ?thesis unfolding arity_ahead_def err by blast
qed

end
