(* ===== verification/CursorScan.thy ===== *)
theory CursorScan
  imports CursorLocate
begin

text \<open>
  From vectors to boundaries. A held vector stands for a region of the input; published against the byte
  that follows it, it adds the boundaries of the region, and the verifier counts on through them.
\<close>

unbundle bit_operations_syntax

section \<open>A held vector\<close>

text \<open>Lanes from \<open>off\<close> on are the bytes \<open>lo\<close> to \<open>hi\<close>; all others are neutral. The base may have wrapped.\<close>

definition lanes_of :: "(byte \<Rightarrow> bool) \<Rightarrow> byte list \<Rightarrow> nat \<Rightarrow> nat \<Rightarrow> nat \<Rightarrow> u64 \<Rightarrow> bool" where
  "lanes_of P xs off lo hi w \<longleftrightarrow> (\<forall>i. bit w i \<longleftrightarrow> off \<le> i \<and> i < off + (hi - lo) \<and> P (xs ! (lo + (i - off))))"

definition held_vector :: "Config \<Rightarrow> byte list \<Rightarrow> nat \<Rightarrow> nat \<Rightarrow> nat \<Rightarrow> u64 \<times> u64 \<times> u64 \<Rightarrow> bool" where
  "held_vector c xs off lo hi p = (case p of (d, t, base) \<Rightarrow>
     lo \<le> hi \<and> hi \<le> length xs \<and> off + (hi - lo) \<le> 64 \<and> base + of_nat off = of_nat lo \<and>
     lanes_of (\<lambda>b. b = delimiter c) xs off lo hi d \<and> lanes_of (terminates c) xs off lo hi t)"

text \<open>The byte after the region: in the last lane's place if the vector is full, else the padding.\<close>

definition follows :: "Config \<Rightarrow> byte list \<Rightarrow> nat \<Rightarrow> nat \<Rightarrow> nat \<Rightarrow> bool \<Rightarrow> bool" where
  "follows c xs off lo hi nxt \<longleftrightarrow>
     (if off + (hi - lo) = 64 then nxt = (hi < length xs \<and> terminates c (xs ! hi)) else hi = length xs)"

lemma held_run_ends:
  assumes "plain c n" and "held_vector c xs off lo hi (d, t, base)" and "follows c xs off lo hi nxt"
  defines "run_end \<equiv> terminator_run_ends t nxt"
  shows "bit run_end i \<longleftrightarrow> off \<le> i \<and> i < off + (hi - lo) \<and>
      terminates c (xs ! (lo + (i - off))) \<and> is_bound c xs (lo + (i - off))"
    and "bit (d OR run_end) i \<longleftrightarrow> off \<le> i \<and> i < off + (hi - lo) \<and> is_bound c xs (lo + (i - off))"
proof -
  have disj: "\<not> terminates c (delimiter c)" using assms(1) by (simp add: plain_def dialect_ok_def)
  note held = assms(2)[unfolded held_vector_def prod.case lanes_of_def]
  have h: "lo \<le> hi" "hi \<le> length xs" "off + (hi - lo) \<le> 64" using held by blast+
  have d: "bit d i \<longleftrightarrow> off \<le> i \<and> i < off + (hi - lo) \<and> xs ! (lo + (i - off)) = delimiter c" for i using held by blast
  have t: "bit t i \<longleftrightarrow> off \<le> i \<and> i < off + (hi - lo) \<and> terminates c (xs ! (lo + (i - off)))" for i using held by blast
  show r: "bit run_end i \<longleftrightarrow> off \<le> i \<and> i < off + (hi - lo) \<and>
      terminates c (xs ! (lo + (i - off))) \<and> is_bound c xs (lo + (i - off))" for i
  proof (cases "off \<le> i \<and> i < off + (hi - lo) \<and> terminates c (xs ! (lo + (i - off)))")
    case False
    then have "\<not> bit t i" unfolding t .
    then have "\<not> bit run_end i" unfolding run_end_def bit_run_ends by simp
    then show ?thesis using False by blast
  next
    case True
    let ?k = "lo + (i - off)"
    have ti: "bit t i" unfolding t by (rule True)
    have k: "?k < hi" "?k < length xs" using True h by auto
    have nd: "xs ! ?k \<noteq> delimiter c" using True disj by auto
    have "(if i = 63 then nxt else bit t (i + 1)) \<longleftrightarrow> ?k + 1 < length xs \<and> terminates c (xs ! (?k + 1))"
    proof (cases "i + 1 < off + (hi - lo)")
      case inside: True
      then have "i \<noteq> 63" "lo + (i + 1 - off) = ?k + 1" "?k + 1 < length xs" using True h by auto
      with inside show ?thesis by (auto simp: t)
    next
      case False
      then have i: "i + 1 = off + (hi - lo)" "?k + 1 = hi" using True h by auto
      then have "\<not> bit t (i + 1)" by (simp add: t)
      with i assms(3) h show ?thesis by (auto simp: follows_def)
    qed
    then show ?thesis unfolding run_end_def bit_run_ends is_bound_def using ti True k nd by auto
  qed
  show "bit (d OR run_end) i \<longleftrightarrow> off \<le> i \<and> i < off + (hi - lo) \<and> is_bound c xs (lo + (i - off))"
  proof (cases "off \<le> i \<and> i < off + (hi - lo)")
    case False
    then show ?thesis unfolding bit_or_iff d r by blast
  next
    case True
    then have "lo + (i - off) < length xs" using h by auto
    then show ?thesis unfolding bit_or_iff d r using True by (auto simp: is_bound_def)
  qed
qed

lemma held_bounds:
  assumes "plain c n" and "held_vector c xs off lo hi (d, t, base)" and "follows c xs off lo hi nxt" and "length xs < 2 ^ 64"
  defines "run_end \<equiv> terminator_run_ends t nxt"
  shows "map (offset_of base) (set_bits_of (d OR run_end)) = bounds_in c xs lo hi"
    and "map (bit run_end) (set_bits_of (d OR run_end)) = kinds c xs (bounds_in c xs lo hi)"
    and "run_end = t \<longleftrightarrow> (\<forall>k. lo \<le> k \<and> k < hi \<and> terminates c (xs ! k) \<longrightarrow> is_bound c xs k)"
proof -
  note r = held_run_ends[OF assms(1-3), folded run_end_def]
  have h: "lo \<le> hi" "hi < 2 ^ 64" "off + (hi - lo) \<le> 64" "base + of_nat off = of_nat lo"
    using assms(2,4) by (auto simp: held_vector_def)
  have sb: "set_bits_of (d OR run_end) = map (\<lambda>k. off + (k - lo)) (bounds_in c xs lo hi)"
  proof -
    have rest: "[0..<64] = [0..<off] @ [off..<off + (hi - lo)] @ [off + (hi - lo)..<64]"
      using h(3) by (metis append.assoc le_add1 le_add_diff_inverse upt_add_eq_append zero_le add_0)
    have "set_bits_of (d OR run_end) = filter (bit (d OR run_end)) [off..<off + (hi - lo)]"
      unfolding set_bits_of_def rest by (auto simp: r filter_empty_conv)
    also have "[off..<off + (hi - lo)] = map (\<lambda>k. off + (k - lo)) [lo..<hi]"
      using h(1) by (intro nth_equalityI) auto
    also have "filter (bit (d OR run_end)) (map (\<lambda>k. off + (k - lo)) [lo..<hi]) = map (\<lambda>k. off + (k - lo)) (bounds_in c xs lo hi)"
      unfolding bounds_in_def by (auto simp: filter_map r o_def intro!: filter_cong arg_cong[of _ _ "map _"])
    finally show ?thesis .
  qed
  have place: "offset_of base (off + (k - lo)) = k" if "lo \<le> k" "k < hi" for k
  proof -
    have "base + of_nat (off + (k - lo)) = base + of_nat off + of_nat (k - lo)" by simp
    also have "\<dots> = of_nat (lo + (k - lo))" by (simp only: h(4) of_nat_add)
    finally have "base + of_nat (off + (k - lo)) = of_nat k" using that by simp
    then show ?thesis unfolding offset_of_def using that h(2) by (simp only: unat_of_nat) simp
  qed
  show "map (offset_of base) (set_bits_of (d OR run_end)) = bounds_in c xs lo hi"
    unfolding sb map_map o_def by (rule map_idI, rule place) (simp_all add: bounds_in_def)
  show "map (bit run_end) (set_bits_of (d OR run_end)) = kinds c xs (bounds_in c xs lo hi)"
    unfolding sb kinds_def by (auto simp: r bounds_in_def)
  have t: "bit t i \<longleftrightarrow> off \<le> i \<and> i < off + (hi - lo) \<and> terminates c (xs ! (lo + (i - off)))" for i
    using assms(2)[unfolded held_vector_def prod.case lanes_of_def] by blast
  show "run_end = t \<longleftrightarrow> (\<forall>k. lo \<le> k \<and> k < hi \<and> terminates c (xs ! k) \<longrightarrow> is_bound c xs k)"
  proof
    assume eq: "run_end = t"
    show "\<forall>k. lo \<le> k \<and> k < hi \<and> terminates c (xs ! k) \<longrightarrow> is_bound c xs k"
    proof (intro allI impI)
      fix k assume k: "lo \<le> k \<and> k < hi \<and> terminates c (xs ! k)"
      then have "bit t (off + (k - lo))" unfolding t by auto
      then show "is_bound c xs k" using r(1)[of "off + (k - lo)"] k unfolding eq by auto
    qed
  next
    assume "\<forall>k. lo \<le> k \<and> k < hi \<and> terminates c (xs ! k) \<longrightarrow> is_bound c xs k"
    then have all: "\<And>k. lo \<le> k \<Longrightarrow> k < hi \<Longrightarrow> terminates c (xs ! k) \<Longrightarrow> is_bound c xs k" by blast
    have "bit run_end i \<longleftrightarrow> bit t i" for i
      using all[of "lo + (i - off)"] unfolding r t by (cases "off \<le> i \<and> i < off + (hi - lo)") auto
    then show "run_end = t" by (intro bit_eqI)
  qed
qed

section \<open>Publishing\<close>

text \<open>What holds of the offsets past \<open>head\<close> once everything up to \<open>pub\<close> has been published.\<close>

definition published :: "Config \<Rightarrow> nat \<Rightarrow> byte list \<Rightarrow> nat \<Rightarrow> nat \<Rightarrow> CursorStepper \<Rightarrow> bool" where
  "published c n xs head pub st \<longleftrightarrow> head \<le> length (bounds st) \<and>
     collected c n xs (cell_start st) pub (drop head (bounds st)) (has_runs st) \<and>
     count_fields n 0 (kinds c xs (drop head (bounds st))) = Some (phase (field_counter st))"

definition stays :: "CursorStepper \<Rightarrow> CursorStepper \<Rightarrow> bool" where
  "stays st st' \<longleftrightarrow> cell_start st' = cell_start st \<and> cs_last_record_end st' = cs_last_record_end st \<and>
     needs_align_prologue st' = needs_align_prologue st"

lemma bounds_in_append: "a \<le> b \<Longrightarrow> b \<le> e \<Longrightarrow> bounds_in c xs a e = bounds_in c xs a b @ bounds_in c xs b e"
  using upt_add_eq_append[of a b "e - b"] by (simp add: bounds_in_def)

context lawful_isa begin

lemma publish_ok:
  assumes "plain c n" and su: "set_up c n st" and pub: "published c n xs head pub st"
    and held: "held_vector c xs off pub hi p" and "follows c xs off pub hi nxt" and "length xs < 2 ^ 64"
    and publish: "cursor_publish I p nxt st = (ok, st')"
  shows "set_up c n st' \<and> stays st st' \<and> (if ok then published c n xs head hi st' else
    count_fields n 0 (kinds c xs (bounds_in c xs (cell_start st) hi)) = None)"
proof -
  obtain d t base where p: "p = (d, t, base)" by (cases p) auto
  define run_end where "run_end = terminator_run_ends t nxt"
  define st1 where "st1 = st\<lparr>has_runs := has_runs st \<or> run_end \<noteq> t\<rparr>"
  let ?fc = "field_counter st"
  note hb = held_bounds[OF assms(1) held[unfolded p] assms(5,6), folded run_end_def]
  have fc: "counter_ok ?fc" "fc_n ?fc = n" using su by (simp_all add: set_up_def)
  have col: "collected c n xs (cell_start st) pub (drop head (bounds st)) (has_runs st)" "head \<le> length (bounds st)"
    and ph: "count_fields n 0 (kinds c xs (drop head (bounds st))) = Some (phase ?fc)"
    using pub by (simp_all add: published_def)
  have lohi: "cell_start st \<le> pub" "pub \<le> hi" "hi \<le> length xs"
    using col held by (simp_all add: collected_def held_vector_def p)
  have bs: "bounds_in c xs (cell_start st) hi = drop head (bounds st) @ bounds_in c xs pub hi"
    using bounds_in_append[OF lohi(1,2), of c xs] col(1) by (simp add: collected_def)
  let ?ver = "count_fields n (phase ?fc) (kinds c xs (bounds_in c xs pub hi))"
  have all: "count_fields n 0 (kinds c xs (bounds_in c xs (cell_start st) hi)) = ?ver"
    using ph unfolding bs by (simp add: kinds_def count_fields_append)
  have verify: "verify I (d OR run_end) run_end ?fc =
      (case ?ver of None \<Rightarrow> (False, ?fc) | Some ph \<Rightarrow> (True, ?fc\<lparr>phase := ph\<rparr>))"
    using verify_ok[OF fc(1), of "d OR run_end" run_end] fc(2) hb(2) by simp
  have pubf: "(ok, st') = (case ?ver of
        None \<Rightarrow> (False, st1)
      | Some ph \<Rightarrow> (True, st1\<lparr>field_counter := ?fc\<lparr>phase := ph\<rparr>, bounds := bounds st @ bounds_in c xs pub hi\<rparr>))"
    using publish[unfolded p cursor_publish_def prod.case Let_def, folded run_end_def]
    by (cases ?ver) (simp_all add: verify hb(1) st1_def extend_offsets_bits)
  show ?thesis
  proof (cases ?ver)
    case None
    then have "ok = False" "st' = st1" using pubf by simp_all
    then show ?thesis using None all su by (simp add: st1_def stays_def set_up_def)
  next
    case (Some ph')
    then have out: "ok" "st' = st1\<lparr>field_counter := ?fc\<lparr>phase := ph'\<rparr>, bounds := bounds st @ bounds_in c xs pub hi\<rparr>"
      using pubf by simp_all
    have "ph' < n" using count_fields_less[OF _ Some] fc by (simp add: counter_ok_def)
    then have "set_up c n st'" using su by (simp add: out(2) st1_def set_up_def counter_ok_def)
    moreover have "published c n xs head hi st'"
      unfolding published_def
    proof (intro conjI)
      have dr: "drop head (bounds st') = bounds_in c xs (cell_start st) hi" using col(2) bs by (simp add: out(2))
      have cs: "cell_start st' = cell_start st" "has_runs st' = (has_runs st \<or> run_end \<noteq> t)" "phase (field_counter st') = ph'"
        by (simp_all add: out(2) st1_def)
      show "head \<le> length (bounds st')" using col(2) by (simp add: out(2))
      show "count_fields n 0 (kinds c xs (drop head (bounds st'))) = Some (phase (field_counter st'))"
        unfolding dr cs using all Some by simp
      show "collected c n xs (cell_start st') hi (drop head (bounds st')) (has_runs st')"
        unfolding dr cs collected_def
      proof (intro conjI impI allI)
        fix k assume "\<not> (has_runs st \<or> run_end \<noteq> t)" "cell_start st \<le> k \<and> k < hi \<and> terminates c (xs ! k)"
        then show "is_bound c xs k" using hb(3) col(1) by (cases "k < pub") (auto simp: collected_def)
      qed (use lohi col(1) all Some in \<open>auto simp: collected_def\<close>)
    qed
    ultimately show ?thesis using out by (simp add: stays_def st1_def)
  qed
qed

end

lemma cursor_resolve_publish:
  "(cursor_resolve I buf tot (Some p) nxt st :: 'u Error + CursorStepper) =
    (case cursor_publish I p nxt st of (True, st') \<Rightarrow> Inr st' | (False, st') \<Rightarrow> Inl (arity_error st' buf tot))"
  by (cases p) (auto simp: cursor_resolve_def cursor_publish_def verify_tail_def Let_def split: prod.splits bool.splits)

end
