(* ===== verification/CursorPass.thy ===== *)
theory CursorPass
  imports CursorScan
begin

text \<open>
  The vector loop of the cursor stepper: it walks over the input in vectors, publishes them one behind, and hands
  records over in batches, along a run of the reference machine.
\<close>

unbundle bit_operations_syntax

section \<open>Vectors of the input\<close>

context lawful_isa begin

lemma vector_held:
  assumes su: "set_up c n st" and "length v = 64" and "lo \<le> hi" "hi \<le> length xs" "off + (hi - lo) \<le> 64"
    and "base + of_nat off = of_nat lo"
    and v: "\<And>i. i < 64 \<Longrightarrow> if off \<le> i \<and> i < off + (hi - lo) then v ! i = xs ! (lo + (i - off)) else content c (v ! i)"
    and s: "match_structural I v (delim st) (term_a st) (term_b st) None = s"
  shows "held_vector c xs off lo hi (delim_bits s, term_bits s, base)"
    and "term_bits s AND 1 \<noteq> 0 \<longleftrightarrow> terminates c (v ! 0)"
proof -
  have trm: "v ! i = term_a st \<or> term_b st = Some (v ! i) \<longleftrightarrow> terminates c (v ! i)" for i
    using set_up_terminates(1)[OF su] by (simp add: is_term_def)
  have bits: "bit (delim_bits s) i \<longleftrightarrow> i < 64 \<and> v ! i = delimiter c" "bit (term_bits s) i \<longleftrightarrow> i < 64 \<and> terminates c (v ! i)" for i
    using match_structural_bits(1,2)[OF assms(2), of "delim st" "term_a st" "term_b st" None] su
    unfolding s trm by (simp_all add: set_up_def)
  have "lanes_of P xs off lo hi w" if "\<And>i. bit w i \<longleftrightarrow> i < 64 \<and> P (v ! i)" "\<And>b. content c b \<Longrightarrow> \<not> P b" for P and w :: u64
    unfolding lanes_of_def that(1)
  proof
    fix i
    show "(i < 64 \<and> P (v ! i)) = (off \<le> i \<and> i < off + (hi - lo) \<and> P (xs ! (lo + (i - off))))"
    proof (cases "off \<le> i \<and> i < off + (hi - lo)")
      case True
      moreover have "i < 64" using True assms(5) by linarith
      ultimately show ?thesis using v[of i] by simp
    next
      case False
      then show ?thesis using v[of i] that(2) by (cases "i < 64") auto
    qed
  qed
  from this[OF bits(1)] this[OF bits(2)] show "held_vector c xs off lo hi (delim_bits s, term_bits s, base)"
    using assms(3-6) by (simp add: held_vector_def content_def)
  show "term_bits s AND 1 \<noteq> 0 \<longleftrightarrow> terminates c (v ! 0)"
    unfolding lsb_iff bits by simp
qed

lemma scan_vector_held:
  assumes "set_up c n st" and "pos + 64 \<le> length buf" and "scan_vector I buf pos st = (d, t)" and xs: "xs = buf @ ys"
  shows "held_vector c xs 0 pos (pos + 64) (d, t, of_nat pos)" and "t AND 1 \<noteq> 0 \<longleftrightarrow> terminates c (xs ! pos)"
proof -
  define v where "v = subslice buf pos (pos + 64)"
  define s where "s = match_structural I v (delim st) (term_a st) (term_b st) None"
  have len: "length v = 64" using assms(2) by (simp add: v_def)
  have nth: "i < 64 \<Longrightarrow> v ! i = xs ! (pos + i)" for i using assms(2) by (simp add: v_def xs slice_nth nth_append)
  have dt: "d = delim_bits s" "t = term_bits s"
    using assms(3) by (auto simp: scan_vector_def Let_def VECTOR_BYTES_def v_def s_def)
  have le: "pos \<le> pos + 64" "pos + 64 \<le> length xs" "0 + (pos + 64 - pos) \<le> 64" using assms(2) by (simp_all add: xs)
  have lanes: "if 0 \<le> i \<and> i < 0 + (pos + 64 - pos) then v ! i = xs ! (pos + (i - 0)) else content c (v ! i)" if "i < 64" for i
    using nth[OF that] that by simp
  have base: "(of_nat pos :: u64) + of_nat 0 = of_nat pos" by simp
  show "held_vector c xs 0 pos (pos + 64) (d, t, of_nat pos)"
    unfolding dt by (rule vector_held(1)[OF assms(1) len le base lanes s_def[symmetric]])
  show "t AND 1 \<noteq> 0 \<longleftrightarrow> terminates c (xs ! pos)"
    using vector_held(2)[OF assms(1) len le base lanes s_def[symmetric]] nth[of 0] unfolding dt by simp
qed

end

lemma pad_content:
  assumes "set_up c n st"
  shows "content c (the (neutral_pad (delim st) (term_a st) (term_b st) None))"
proof -
  obtain x where x: "neutral_pad (delim st) (term_a st) (term_b st) None = Some x" "x \<noteq> delim st" "x \<noteq> term_a st"
    "term_b st \<noteq> Some x"
    using find_pad by blast
  then have "\<not> is_term st x" by (simp add: is_term_def)
  then show ?thesis using x(1,2) assms by (simp add: content_def set_up_terminates(1)[OF assms] set_up_def)
qed

section \<open>The state between vectors\<close>

text \<open>\<open>pub\<close> is published, the vector up to \<open>cursor\<close> is held.\<close>

definition holds_from :: "Config \<Rightarrow> byte list \<Rightarrow> nat \<Rightarrow> nat \<Rightarrow> (u64 \<times> u64 \<times> u64) option \<Rightarrow> bool" where
  "holds_from c xs pub cursor held \<longleftrightarrow> (case held of
     None \<Rightarrow> pub = cursor
   | Some p \<Rightarrow> \<exists>off. held_vector c xs off pub cursor p \<and> off + (cursor - pub) = 64 \<and> (off = 0 \<or> pub = 0))"

definition in_pass :: "Config \<Rightarrow> nat \<Rightarrow> byte list \<Rightarrow> nat \<Rightarrow> nat \<Rightarrow> (u64 \<times> u64 \<times> u64) option \<Rightarrow> 's machine \<Rightarrow> CursorStepper \<Rightarrow> bool" where
  "in_pass c n xs head cursor held m st \<longleftrightarrow> set_up c n st \<and> at_record m \<and> cs_last_record_end st = m_last_end m \<and>
     (\<exists>pub \<le> cursor. published c n xs head pub st \<and> holds_from c xs pub cursor held)"

text \<open>How a pass may stop early: where the machine does, or at an error ahead of it.\<close>

definition stops ::
    "Config \<Rightarrow> ('s, 'u) accumulator \<Rightarrow> nat \<Rightarrow> nat \<Rightarrow> byte list \<Rightarrow> nat \<Rightarrow> nat \<Rightarrow> 's machine \<Rightarrow> ('s, 'u) outcome \<Rightarrow> bool" where
  "stops c acc L tot xs e cs m out \<longleftrightarrow>
     (\<exists>q. cs \<le> q \<and> q \<le> e \<and> spec_run c acc L (tot + cs) (subslice xs cs q) m = out) \<or>
     (\<exists>err. out = Failed err \<and> error_ahead c (tot + cs) (drop cs xs) m err)"

definition moves ::
    "Config \<Rightarrow> ('s, 'u) accumulator \<Rightarrow> nat \<Rightarrow> nat \<Rightarrow> byte list \<Rightarrow> nat \<Rightarrow> nat \<Rightarrow> nat \<Rightarrow> 's machine \<Rightarrow> 's machine \<Rightarrow> bool" where
  "moves c acc L tot xs e cs cs' m m' \<longleftrightarrow> cs \<le> cs' \<and> cs' \<le> e \<and>
     spec_run c acc L (tot + cs) (subslice xs cs cs') m = Running m'"

lemma moves_refl: "cs \<le> e \<Longrightarrow> moves c acc L tot xs e cs cs m m"
  by (simp add: moves_def)

lemma moves_trans:
  "moves c acc L tot xs e cs cs1 m m1 \<Longrightarrow> moves c acc L tot xs e cs1 cs2 m1 m2 \<Longrightarrow> e \<le> length xs \<Longrightarrow>
    moves c acc L tot xs e cs cs2 m m2"
  using spec_run_stop[of c acc L tot cs xs cs1 m m1 cs2] by (auto simp: moves_def)

lemma stops_back:
  assumes "moves c acc L tot xs e cs cs1 m m1" and "stops c acc L tot xs e cs1 m1 out" and "e \<le> length xs"
  shows "stops c acc L tot xs e cs m out"
proof -
  note mv = assms(1)[unfolded moves_def]
  have run: "spec_run c acc L (tot + cs) (subslice xs cs cs1) m = Running m1" using mv by simp
  have ext: "cs1 \<le> q \<Longrightarrow> q \<le> e \<Longrightarrow> spec_run c acc L (tot + cs) (subslice xs cs q) m =
      spec_run c acc L (tot + cs1) (subslice xs cs1 q) m1" for q
    using spec_run_stop[OF run, of q] mv assms(3) by simp
  from assms(2) show ?thesis unfolding stops_def
  proof (elim disjE exE conjE)
    fix q assume "cs1 \<le> q" "q \<le> e" "spec_run c acc L (tot + cs1) (subslice xs cs1 q) m1 = out"
    then show "(\<exists>q. cs \<le> q \<and> q \<le> e \<and> spec_run c acc L (tot + cs) (subslice xs cs q) m = out) \<or>
        (\<exists>err. out = Failed err \<and> error_ahead c (tot + cs) (drop cs xs) m err)"
      using ext[of q] mv by (intro disjI1 exI[of _ q]) auto
  next
    fix err assume err: "out = Failed err" "error_ahead c (tot + cs1) (drop cs1 xs) m1 err"
    have "tot + cs + length (subslice xs cs cs1) = tot + cs1" using mv assms(3) by (auto simp: min_def)
    then have "error_ahead c (tot + cs) (subslice xs cs cs1 @ drop cs1 xs) m err"
      using error_ahead_back[OF run, of "drop cs1 xs" err] err(2) by simp
    moreover have "subslice xs cs cs1 @ drop cs1 xs = drop cs xs" using mv by (intro slice_append_drop) simp
    ultimately show "(\<exists>q. cs \<le> q \<and> q \<le> e \<and> spec_run c acc L (tot + cs) (subslice xs cs q) m = out) \<or>
        (\<exists>err. out = Failed err \<and> error_ahead c (tot + cs) (drop cs xs) m err)"
      using err(1) by auto
  qed
qed

section \<open>A flush in the pass\<close>

lemma cursor_flush_head:
  assumes "cursor_flush acc buf head rem tot n s st = (Inr None, head', s', st')" and "head \<le> length (bounds st)"
  shows "head' = head + (length (bounds st) - head) div n * n \<and> head' \<le> length (bounds st)"
proof -
  let ?a = "(length (bounds st) - head) div n"
  have "?a * n \<le> length (bounds st) - head" by simp
  then have "head + ?a * n \<le> length (bounds st)" using assms(2) by linarith
  then show ?thesis
    using assms by (auto simp: cursor_flush_def Let_def split: if_splits sum.splits prod.splits)
qed

lemma count_fields_phase:
  assumes "count_fields n 0 ks = Some ph" and "0 < n" and "k * n \<le> length ks"
  shows "count_fields n 0 (drop (k * n) ks) = Some ph"
proof -
  have all: "\<forall>j<length ks. ks ! j = ((j + 0) mod n = n - 1)" and ph: "ph = length ks mod n"
    using assms(1,2) count_fields_iff[of 0 n ks] by (auto split: if_splits)
  have "count_fields n 0 (take (k * n) ks) = Some 0"
    using count_fields_iff[of 0 n "take (k * n) ks"] all assms(2,3) by (auto simp: min_def)
  then show ?thesis
    using assms(1) count_fields_append[of n 0 "take (k * n) ks" "drop (k * n) ks"] by simp
qed

lemma flush_in_pass:
  fixes acc :: "('s, 'u) accumulator"
  assumes "plain c n" and ip: "in_pass c n xs head cursor held m st" and "cursor \<le> e" and "e \<le> length buf" and xs: "xs = buf @ ys"
    and flush: "cursor_flush acc buf head (L - tot) tot n (m_acc m) st = (res, head', s', st')"
  shows "case res of
      Inl err \<Rightarrow> stops c acc L tot xs e (cell_start st) m (Failed err)
    | Inr (Some fin) \<Rightarrow> stops c acc L tot xs e (cell_start st) m (Finished fin s')
    | Inr None \<Rightarrow> \<exists>m'. moves c acc L tot xs e (cell_start st) (cell_start st') m m' \<and> s' = m_acc m' \<and>
        in_pass c n xs head' cursor held m' st' \<and> needs_align_prologue st' = needs_align_prologue st \<and> bounds st' = bounds st"
proof -
  obtain pub where pub: "pub \<le> cursor" "published c n xs head pub st" "holds_from c xs pub cursor held"
    using ip by (auto simp: in_pass_def)
  have su: "set_up c n st" and at: "at_record m" "cs_last_record_end st = m_last_end m" using ip by (simp_all add: in_pass_def)
  have col: "collected c n xs (cell_start st) pub (drop head (bounds st)) (has_runs st)" "head \<le> length (bounds st)"
    and ph: "count_fields n 0 (kinds c xs (drop head (bounds st))) = Some (phase (field_counter st))"
    using pub(2) by (simp_all add: published_def)
  have pe: "pub \<le> e" using pub(1) assms(3) by simp
  have "agree_but_last pub xs buf"
    using pe assms(4) by (auto simp: agree_but_last_def xs nth_append)
  note fl = cursor_flush_ok[OF assms(1) su col(1) at this flush]
  have n: "0 < n" using assms(1) by (simp add: plain_def)
  show ?thesis
  proof (cases res)
    case (Inl err)
    with fl show ?thesis using pe by (auto simp: stops_def intro: order_trans)
  next
    case (Inr r)
    show ?thesis
    proof (cases r)
      case (Some fin)
      with fl Inr show ?thesis using pe by (auto simp: stops_def intro: order_trans)
    next
      case None
      obtain m' where m': "cell_start st \<le> cell_start st'" "cell_start st' \<le> pub"
        "spec_run c acc L (tot + cell_start st) (subslice xs (cell_start st) (cell_start st')) m = Running m'"
        "s' = m_acc m'" "moved tot m' st st'" "collected c n xs (cell_start st') pub (drop head' (bounds st)) (has_runs st)"
        using fl unfolding Inr None sum.case option.case by blast
      have st': "st' = st\<lparr>cell_start := cell_start st', cs_last_record_end := cs_last_record_end st'\<rparr>" "at_record m'"
        "cs_last_record_end st' = m_last_end m'"
        using m'(5) by (auto simp: moved_def)
      have sel: "bounds st' = bounds st" "has_runs st' = has_runs st" "field_counter st' = field_counter st"
        "needs_align_prologue st' = needs_align_prologue st" "delim st' = delim st" "term_a st' = term_a st" "term_b st' = term_b st"
        by (subst st'(1); simp)+
      obtain k where k: "head' = head + k * n" "head' \<le> length (bounds st)"
        using cursor_flush_head[OF flush[unfolded Inr None] col(2)] by blast
      have "k * n \<le> length (kinds c xs (drop head (bounds st)))" using k by (simp add: kinds_def)
      from count_fields_phase[OF ph n this]
      have "count_fields n 0 (kinds c xs (drop head' (bounds st))) = Some (phase (field_counter st))"
        by (simp add: kinds_def drop_map k(1) add.commute)
      then have "published c n xs head' pub st'" using k(2) m'(6) by (simp add: published_def sel)
      moreover have "set_up c n st'" using su by (simp add: set_up_def sel)
      ultimately have "in_pass c n xs head' cursor held m' st'" using st'(2,3) pub by (auto simp: in_pass_def)
      moreover have "moves c acc L tot xs e (cell_start st) (cell_start st') m m'" using m'(1-3) pe by (simp add: moves_def)
      ultimately show ?thesis using m'(4) sel unfolding Inr None by auto
    qed
  qed
qed

section \<open>One vector\<close>

definition publish_held :: "isa \<Rightarrow> (u64 \<times> u64 \<times> u64) option \<Rightarrow> bool \<Rightarrow> CursorStepper \<Rightarrow> bool \<times> CursorStepper" where
  "publish_held I held nxt st = (case held of Some p \<Rightarrow> cursor_publish I p nxt st | None \<Rightarrow> (True, st))"

context lawful_isa begin

lemma publish_held_ok:
  assumes "plain c n" and ip: "in_pass c n xs head cursor held m st" and "length xs < 2 ^ 64"
    and nxt: "nxt \<longleftrightarrow> cursor < length xs \<and> terminates c (xs ! cursor)"
    and publish: "publish_held I held nxt st = (ok, st')"
  shows "stays st st' \<and> set_up c n st' \<and> (if ok then published c n xs head cursor st'
    else count_fields n 0 (kinds c xs (bounds_in c xs (cell_start st) cursor)) = None)"
proof -
  obtain pub where pub: "pub \<le> cursor" "published c n xs head pub st" "holds_from c xs pub cursor held"
    using ip by (auto simp: in_pass_def)
  have su: "set_up c n st" using ip by (simp add: in_pass_def)
  show ?thesis
  proof (cases held)
    case None
    then show ?thesis using publish pub su by (auto simp: publish_held_def holds_from_def stays_def)
  next
    case (Some p)
    then obtain off where off: "held_vector c xs off pub cursor p" "off + (cursor - pub) = 64" using pub(3) by (auto simp: holds_from_def)
    have "follows c xs off pub cursor nxt" using off(2) nxt by (simp add: follows_def)
    from publish_ok[OF assms(1) su pub(2) off(1) this assms(3)] publish Some
    show ?thesis by (simp add: publish_held_def)
  qed
qed

lemma publish_error:
  fixes m :: "'s machine" and acc :: "('s, 'u) accumulator"
  assumes "plain c n" and ip: "in_pass c n xs head cursor held m st" and "cursor < e" and "e \<le> length buf" and xs: "xs = buf @ ys"
    and "stays st st'" and "set_up c n st'"
    and "count_fields n 0 (kinds c xs (bounds_in c xs (cell_start st) cursor)) = None"
  shows "stops c acc L tot xs e (cell_start st) m (Failed (arity_error st' (take e buf) tot))"
proof -
  obtain pub where pub: "pub \<le> cursor" "published c n xs head pub st" using ip by (auto simp: in_pass_def)
  have cs: "cell_start st' = cell_start st" using assms(6) by (simp add: stays_def)
  have le: "cell_start st \<le> cursor" "cell_start st < length xs \<longrightarrow> \<not> terminates c (xs ! cell_start st)"
    using pub by (auto simp: published_def collected_def)
  have split: "take e buf @ drop e buf @ ys = xs" by (simp add: xs)
  have len: "cell_start st' \<le> length (take e buf)" "cursor < length (take e buf)" using le(1) assms(3,4) cs by simp_all
  have first: "cell_start st' < length (take e buf) \<longrightarrow> \<not> terminates c (take e buf ! cell_start st')"
    using le(2) assms(4) cs by (auto simp: xs nth_append)
  have none: "count_fields n 0 (kinds c (take e buf @ drop e buf @ ys)
      (bounds_in c (take e buf @ drop e buf @ ys) (cell_start st') cursor)) = None"
    unfolding split cs by (rule assms(8))
  have at: "at_record m" using ip by (simp add: in_pass_def)
  from arity_error_ahead[OF assms(1,7) at len(1) first none len(2) refl, of tot]
  have "arity_ahead c (tot + cell_start st) (drop (cell_start st) (take e buf) @ drop e buf @ ys) m
      (arity_error st' (take e buf) tot :: 'u Error)" unfolding cs .
  moreover have "drop (cell_start st) (take e buf) @ drop e buf @ ys = drop (cell_start st) xs"
    unfolding split[symmetric] using len(1) cs by simp
  ultimately show ?thesis by (auto simp: stops_def dest: arity_is_ahead)
qed

end

section \<open>The loop\<close>

definition loop_out ::
    "Config \<Rightarrow> ('s, 'u) accumulator \<Rightarrow> nat \<Rightarrow> nat \<Rightarrow> byte list \<Rightarrow> nat \<Rightarrow> nat \<Rightarrow> nat \<Rightarrow> 's machine \<Rightarrow> CursorStepper
      \<Rightarrow> 'u StepResult + nat \<times> nat \<Rightarrow> 's \<Rightarrow> CursorStepper \<Rightarrow> bool" where
  "loop_out c acc L tot xs e n cursor m st res s' st' = (case res of
     Inl (StepError err) \<Rightarrow> stops c acc L tot xs e (cell_start st) m (Failed err)
   | Inl (Done fin) \<Rightarrow> stops c acc L tot xs e (cell_start st) m (Finished fin s')
   | Inl (Suspended _ _ _) \<Rightarrow> False
   | Inr (cursor', head') \<Rightarrow> \<exists>m'. moves c acc L tot xs e (cell_start st) (cell_start st') m m' \<and> s' = m_acc m' \<and>
       in_pass c n xs head' cursor' (pending st') m' st' \<and> needs_align_prologue st' = needs_align_prologue st \<and>
       cursor \<le> cursor' \<and> cursor' \<le> e \<and> e - cursor' < 64)"

lemma loop_out_back:
  assumes "loop_out c acc L tot xs e n cursor1 m1 st1 res s' st'" and "moves c acc L tot xs e (cell_start st) (cell_start st1) m m1"
    and "e \<le> length xs" and "cursor \<le> cursor1" and "needs_align_prologue st1 = needs_align_prologue st"
  shows "loop_out c acc L tot xs e n cursor m st res s' st'"
proof (cases res)
  case (Inl r)
  then show ?thesis
    using assms(1) stops_back[OF assms(2) _ assms(3)] by (cases r) (auto simp: loop_out_def)
next
  case (Inr r)
  then obtain cursor' head' m' where r: "r = (cursor', head')" and m': "moves c acc L tot xs e (cell_start st1) (cell_start st') m1 m'"
    "s' = m_acc m'" "in_pass c n xs head' cursor' (pending st') m' st'" "needs_align_prologue st' = needs_align_prologue st1"
    "cursor1 \<le> cursor'" "cursor' \<le> e" "e - cursor' < 64"
    using assms(1) by (cases r) (auto simp: loop_out_def)
  have "cursor \<le> cursor'" using m'(5) assms(4) by simp
  then show ?thesis
    unfolding loop_out_def Inr r sum.case prod.case
    using moves_trans[OF assms(2) m'(1) assms(3)] m' assms(5) by (intro exI[of _ m']) simp
qed

lemma in_pass_cong:
  assumes "in_pass c n xs head cursor held m st" and "delim st' = delim st" "term_a st' = term_a st" "term_b st' = term_b st"
    "field_counter st' = field_counter st" "cell_start st' = cell_start st" "has_runs st' = has_runs st"
    "cs_last_record_end st' = cs_last_record_end st" "drop head' (bounds st') = drop head (bounds st)" "head' \<le> length (bounds st')"
  shows "in_pass c n xs head' cursor held m st'"
  using assms by (auto simp: in_pass_def set_up_def published_def)

context lawful_isa begin

lemma cursor_loop_ok:
  fixes acc :: "('s, 'u) accumulator"
  assumes "plain c n" and "e \<le> length buf" and xs: "xs = buf @ ys" and "length xs < 2 ^ 64"
    and "in_pass c n xs head cursor held m st" and "cursor \<le> e"
    and "cursor_loop I acc buf e (L - tot) tot n cursor held head (m_acc m) st = (res, s', st')"
  shows "loop_out c acc L tot xs e n cursor m st res s' st'"
  using assms(5-)
proof (induction "e - cursor" arbitrary: cursor held head m st rule: less_induct)
  case less
  note ip = less.prems(1)
  have exs: "e \<le> length xs" using assms(2) by (simp add: xs)
  have cse: "cell_start st \<le> e" using ip less.prems(2) by (auto simp: in_pass_def published_def collected_def)
  note loop = less.prems(3)[unfolded cursor_loop.simps[of I acc buf e "L - tot" tot n cursor held head]]
  show ?case
  proof (cases "cursor + 64 \<le> e")
    case False
    then have "res = Inr (cursor, head)" "s' = m_acc m" "st' = st\<lparr>pending := held\<rparr>" using loop by (simp_all add: VECTOR_BYTES_def)
    moreover have "in_pass c n xs head cursor held m (st\<lparr>pending := held\<rparr>)"
      by (rule in_pass_cong[OF ip]) (use ip in \<open>auto simp: in_pass_def published_def\<close>)
    ultimately show ?thesis using False less.prems(2) cse by (auto simp: loop_out_def moves_refl intro!: exI[of _ m])
  next
    case True
    obtain d t where dt: "scan_vector I buf cursor st = (d, t)" by fastforce
    have su: "set_up c n st" using ip by (simp add: in_pass_def)
    have "cursor + 64 \<le> length buf" using True assms(2) by simp
    note sv = scan_vector_held[OF su this dt xs]
    obtain ok st1 where pub: "publish_held I held (t AND 1 \<noteq> 0) st = (ok, st1)" by fastforce
    have nxt: "(t AND 1 \<noteq> 0) \<longleftrightarrow> cursor < length xs \<and> terminates c (xs ! cursor)" using sv(2) True exs by simp
    note po = publish_held_ok[OF assms(1) ip assms(4) nxt pub]
    let ?held = "Some (d, t, of_nat cursor)"
    note loop1 = loop[unfolded VECTOR_BYTES_def if_P[OF True] dt Let_def prod.case publish_held_def[symmetric] pub]
    show ?thesis
    proof (cases ok)
      case False
      then have out: "res = Inl (StepError (arity_error st1 (take e buf) tot))" using loop1 by auto
      have "stops c acc L tot xs e (cell_start st) m (Failed (arity_error st1 (take e buf) tot))"
        using po False True by (intro publish_error[OF assms(1) ip _ assms(2) xs]) auto
      then show ?thesis unfolding out by (simp add: loop_out_def)
    next
      case ok: True
      have st1: "cell_start st1 = cell_start st" "needs_align_prologue st1 = needs_align_prologue st"
        using po by (simp_all add: stays_def)
      have ip1: "in_pass c n xs head (cursor + 64) ?held m st1"
      proof -
        have "holds_from c xs cursor (cursor + 64) ?held" using sv(1) by (auto simp: holds_from_def intro!: exI[of _ "0::nat"])
        moreover have "set_up c n st1" "published c n xs head cursor st1" "cs_last_record_end st1 = cs_last_record_end st"
          using po ok by (simp_all add: stays_def)
        ultimately show ?thesis using ip by (auto simp: in_pass_def intro!: exI[of _ cursor])
      qed
      have mv1: "moves c acc L tot xs e (cell_start st) (cell_start st1) m m" using cse by (simp add: st1 moves_refl)
      have dec: "e - (cursor + 64) < e - cursor" using True by simp
      show ?thesis
      proof (cases "length (bounds st1) - head < EMIT_BATCH_FIELDS")
        case few: True
        have "cursor_loop I acc buf e (L - tot) tot n (cursor + 64) ?held head (m_acc m) st1 = (res, s', st')"
          using loop1 ok few by simp
        from loop_out_back[OF less.hyps[OF dec ip1 True this] mv1 exs _ st1(2)] show ?thesis by simp
      next
        case False
        obtain fres head1 s1 st2 where flush: "cursor_flush acc buf head (L - tot) tot n (m_acc m) st1 = (fres, head1, s1, st2)"
          by (cases "cursor_flush acc buf head (L - tot) tot n (m_acc m) st1") auto
        note fl = flush_in_pass[OF assms(1) ip1 True assms(2) xs flush]
        show ?thesis
        proof (cases fres)
          case (Inl err)
          then have "res = Inl (StepError err)" using loop1 ok False flush by simp
          moreover have "stops c acc L tot xs e (cell_start st1) m (Failed err)" using fl Inl by simp
          ultimately show ?thesis by (simp add: loop_out_def st1)
        next
          case (Inr r)
          show ?thesis
          proof (cases r)
            case (Some fin)
            then have "res = Inl (Done fin)" "s' = s1" using loop1 ok False flush Inr by simp_all
            moreover have "stops c acc L tot xs e (cell_start st1) m (Finished fin s1)" using fl Inr Some by simp
            ultimately show ?thesis by (simp add: loop_out_def st1)
          next
            case None
            obtain m1 where m1: "moves c acc L tot xs e (cell_start st1) (cell_start st2) m m1" "s1 = m_acc m1"
              "in_pass c n xs head1 (cursor + 64) ?held m1 st2" "needs_align_prologue st2 = needs_align_prologue st1"
              using fl unfolding Inr None sum.case option.case by blast
            define st3 where "st3 = (if COMPACT_THRESHOLD \<le> head1 then st2\<lparr>bounds := drop head1 (bounds st2)\<rparr> else st2)"
            define head3 where "head3 = (if COMPACT_THRESHOLD \<le> head1 then 0 else head1)"
            have go: "cursor_loop I acc buf e (L - tot) tot n (cursor + 64) ?held head3 (m_acc m1) st3 = (res, s', st')"
              using loop1 ok False flush Inr None m1(2) by (simp add: st3_def head3_def split: if_splits)
            have "head1 \<le> length (bounds st2)" using m1(3) by (auto simp: in_pass_def published_def)
            then have ip3: "in_pass c n xs head3 (cursor + 64) ?held m1 st3"
              by (intro in_pass_cong[OF m1(3)]) (auto simp: st3_def head3_def)
            have sel: "cell_start st3 = cell_start st2" "needs_align_prologue st3 = needs_align_prologue st"
              using m1(4) st1(2) by (simp_all add: st3_def)
            have mv: "moves c acc L tot xs e (cell_start st) (cell_start st3) m m1"
              using m1(1) by (simp add: sel st1)
            from loop_out_back[OF less.hyps[OF dec ip3 True go] mv exs _ sel(2)] show ?thesis by simp
          qed
        qed
      qed
    qed
  qed
qed

end

end
