(* ===== verification/IndexPass.thy ===== *)
theory IndexPass
  imports IndexVector CursorPass
begin

text \<open>
  The vector loop of the index stepper goes along with a run of the reference machine: what a flush hands over, the
  error of a rejected vector, and the loop that feeds the vectors.
\<close>

unbundle bit_operations_syntax

section \<open>The state in a pass\<close>

definition ix_pass :: "Config \<Rightarrow> nat \<Rightarrow> byte list \<Rightarrow> nat \<Rightarrow> nat \<Rightarrow> nat \<Rightarrow> nat \<Rightarrow> 's machine \<Rightarrow> SimdIndexStepper \<Rightarrow> bool" where
  "ix_pass c n ws g pos head r_head m st \<longleftrightarrow> scanned c n ws g (g + pos - 64) head r_head st \<and>
     scanner_at (scan_config c) ws (g + pos) (ix_scanner st) \<and> ix_record_start st \<le> pos \<and>
     (head = 0 \<longrightarrow> r_head = 0) \<and> at_record m \<and> ix_last_record_end st = m_last_end m"

lemma ix_pass_cong:
  assumes "ix_pass c n ws g pos head r_head m st" and "ix_config st' = ix_config st" "ix_counter st' = ix_counter st"
    "ix_scanner st' = ix_scanner st" "ix_record_start st' = ix_record_start st" "ix_last_record_end st' = ix_last_record_end st"
    "drop head' (b_offs st') = drop head (b_offs st)" "drop head' (e_offs st') = drop head (e_offs st)"
    "drop r_head' (r_offs st') = drop r_head (r_offs st)"
    "head' \<le> length (b_offs st')" "head' \<le> length (e_offs st')" "r_head' \<le> length (r_offs st')" "head' = 0 \<longrightarrow> r_head' = 0"
  shows "ix_pass c n ws g pos head' r_head' m st'"
proof -
  have "index_config c n st' = index_config c n st" using assms(2,3) by (simp add: index_config_def)
  moreover have "indexed c n ph ws g P first head' r_head' st' \<longleftrightarrow> indexed c n ph ws g P first head r_head st"
    if "indexed c n ph ws g P first head r_head st" for ph P first
    using that assms by (simp add: indexed_def)
  ultimately show ?thesis using assms(1-6,13) by (auto simp: ix_pass_def scanned_def)
qed

section \<open>The error of a wrong record\<close>

lemma ix_arity_error_loop:
  assumes "index_config c n st" and "ix_record_start st \<le> length zs"
    and "locate_loop (drop (ix_record_start st) zs) n (delimiter c) (terminates c) (quote c) 0 0 1 False = (start, found)"
  shows "ix_arity_error st zs tot = NumberOfFields n found (at_byte (tot + ix_record_start st + start))"
proof -
  let ?R = "ix_record_start st" and ?cfg = "scan_config c"
  have cfg: "ix_config st = ?cfg" "fc_n (ix_counter st) = n" and q: "quoting c n ?cfg" using assms(1) by (simp_all add: index_config_def)
  have tm: "(\<lambda>b. b = sc_term ?cfg \<or> sc_term_b ?cfg = Some b) = terminates c" using quoting_sel(4)[OF q] by (intro ext) simp
  have "locate_loop zs n (delimiter c) (terminates c) (quote c) ?R ?R 1 False = (?R + start, found)"
    using locate_loop_drop[OF assms(3,2)] by simp
  then show ?thesis
    using assms(2) by (simp add: ix_arity_error_def Let_def cfg locate_bad_record_def tm quoting_sel(1,2)[OF q] add.assoc)
qed

lemma ix_error_ahead:
  fixes m :: "'s machine" and acc :: "('s, 'u) accumulator"
  assumes sc: "scanned c n (pre @ xs) (length pre) P head r_head st" and at: "at_record m"
    and co: "index_config c n st'" "ix_record_start st' = ix_record_start st"
    and none: "count_fields n 0 (kinds_in (scan_config c) (pre @ xs) (length pre + ix_record_start st) (length pre + pos)) = None"
    and "ix_record_start st \<le> pos" and "pos < e" and "e \<le> length buf" and ag: "agrees (length pre) (ix_record_start st) (pre @ xs) buf"
  shows "stops c acc L tot xs e (ix_record_start st) m (Failed (ix_arity_error st' (take e buf) tot))"
proof -
  let ?cfg = "scan_config c" and ?R = "ix_record_start st" and ?ws = "pre @ xs"
  have q: "quoting c n ?cfg" using co(1) by (simp add: index_config_def)
  have lb: "length buf \<le> length xs" "\<And>k. ?R \<le> k \<Longrightarrow> k < length buf \<Longrightarrow> buf ! k = xs ! k"
    using ag by (auto simp: agrees_def)
  obtain first where ix: "indexed c n (phase (ix_counter st)) ?ws (length pre) P first head r_head st" using sc by (auto simp: scanned_def)
  then have op: "\<not> open_before ?cfg ?ws (length pre + ?R)" and nt: "?R < length xs \<longrightarrow> \<not> terminates c (xs ! ?R)"
    by (auto simp: indexed_def listed_def placed_def start_at_def)
  define zs where "zs = drop ?R (take e buf)"
  have zs: "zs @ drop e xs = drop ?R xs"
  proof (rule nth_equalityI)
    show "length (zs @ drop e xs) = length (drop ?R xs)" using assms(6-8) lb(1) by (simp add: zs_def)
    fix i assume "i < length (zs @ drop e xs)"
    then show "(zs @ drop e xs) ! i = drop ?R xs ! i" using assms(6-8) lb by (auto simp: zs_def nth_append add.commute)
  qed
  have "kinds_in ?cfg (drop (length pre + ?R) ?ws) 0 (pos - ?R) = kinds_in ?cfg ?ws (length pre + ?R) (length pre + ?R + (pos - ?R))"
    by (rule kinds_in_drop[OF op])
  then have "count_fields n 0 (kinds_in ?cfg (zs @ drop e xs) 0 (pos - ?R)) = None" using none assms(6) by (simp add: zs)
  moreover have len: "pos - ?R < length zs" using assms(6-8) by (simp add: zs_def)
  moreover have "zs \<noteq> [] \<longrightarrow> \<not> terminates c (zs ! 0)" using nt lb assms(6-8) by (auto simp: zs_def)
  moreover obtain start found where loop: "locate_loop zs n (delimiter c) (terminates c) (quote c) 0 0 1 False = (start, found)"
    by fastforce
  ultimately have "error_ahead c (tot + ?R) (zs @ drop e xs) m (NumberOfFields n found (at_byte (tot + ?R + start)) :: 'u Error)"
    by (intro quoted_error_ahead[OF q at])
  moreover have "?R \<le> length (take e buf)" using assms(6-8) by simp
  then have "ix_arity_error st' (take e buf) tot = (NumberOfFields n found (at_byte (tot + ?R + start)) :: 'u Error)"
    using ix_arity_error_loop[OF co(1), of "take e buf" start found tot] loop by (simp add: co(2) zs_def del: One_nat_def)
  ultimately show ?thesis by (auto simp: stops_def zs)
qed

section \<open>A flush\<close>

lemma slice_behind: "subslice (pre @ xs) (length pre + a) (length pre + b) = subslice xs a b"
  using slice_drop[of "length pre" "length pre + a" "pre @ xs" "length pre + b"] by simp

text \<open>Handing over moves the head, removals or not.\<close>

lemma ix_flush_heads:
  assumes "ix_flush acc buf head r_head res rem tot n s st = (Inr None, buf', head', r_head', s', st')" and "0 < n"
  shows "head' = 0 \<longrightarrow> head = 0 \<and> r_head' = r_head"
proof (cases "last_resolved (term_of st buf res (min res (rem + 1))) head n ((length (e_offs st) - head) div n)")
  case None
  then show ?thesis using assms(1) by (simp add: ix_flush_def Let_def)
next
  case (Some al)
  obtain avail lst where al: "al = (avail, lst)" by (metis surj_pair)
  obtain cnt stop lrs lre where plan: "flush_plan (term_of st buf res (min res (rem + 1))) head n rem avail lst = (cnt, stop, lrs, lre)"
    by (metis surj_pair)
  have "1 \<le> avail" using last_resolved_spec[OF Some[unfolded al]] by simp
  then have cnt: "1 \<le> cnt" using plan by (auto simp: flush_plan_def Let_def split: if_splits option.splits prod.splits)
  obtain ares buf1 where asm: "the (assemble_records_fixed acc buf n (drop head (b_offs st)) (drop head (e_offs st)) (drop r_head (r_offs st)) cnt s) =
    (ares, buf1)" by fastforce
  have "head' = head + cnt * n"
    using assms(1) Some plan asm by (auto simp: ix_flush_def al Let_def flush_plan_def split: if_splits option.splits prod.splits sum.splits)
  then show ?thesis using cnt assms(2) by simp
qed

lemma ix_flush_pass:
  fixes acc :: "('s, 'u) accumulator"
  assumes pass: "ix_pass c n (pre @ xs) (length pre) pos head r_head m st" and "64 \<le> pos" and "pos \<le> e" and "e \<le> length buf"
    and ag: "agrees (length pre) (ix_record_start st) (pre @ xs) buf"
    and flush: "ix_flush acc buf head r_head (pos - VECTOR_BYTES) (L - tot) tot n (m_acc m) st = (fres, buf', head', r_head', s', st')"
  shows "length buf' = length buf \<and> (case fres of
      Inl err \<Rightarrow> stops c acc L tot xs e (ix_record_start st) m (Failed err)
    | Inr (Some fin) \<Rightarrow> stops c acc L tot xs e (ix_record_start st) m (Finished fin s')
    | Inr None \<Rightarrow> \<exists>m'. moves c acc L tot xs e (ix_record_start st) (ix_record_start st') m m' \<and> s' = m_acc m' \<and>
        ix_pass c n (pre @ xs) (length pre) pos head' r_head' m' st' \<and> drop (ix_record_start st') buf' = drop (ix_record_start st') buf \<and>
        ix_needs_align_prologue st' = ix_needs_align_prologue st \<and> needs_chunk_start_b st' = needs_chunk_start_b st)"
proof -
  let ?g = "length pre" and ?R = "ix_record_start st" and ?ws = "pre @ xs" and ?res = "pos - VECTOR_BYTES"
  have P: "?g + pos - 64 = ?g + ?res" using assms(2) by (simp add: VECTOR_BYTES_def)
  have sc: "scanned c n ?ws ?g (?g + ?res) head r_head st" and Rp: "?R \<le> pos" and at: "at_record m" "ix_last_record_end st = m_last_end m"
    using pass by (simp_all add: ix_pass_def P)
  have co: "index_config c n st" and q: "quoting c n (scan_config c)" using sc by (simp_all add: scanned_def index_config_def)
  obtain first where ix: "indexed c n (phase (ix_counter st)) ?ws ?g (?g + ?res) first head r_head st" using sc by (auto simp: scanned_def)
  have res: "?res \<le> e" "?res \<le> length buf" using assms(3,4) by simp_all
  note fo = ix_flush_ok[OF q index_config_term[OF co] ag res(2) ix at flush]
  show ?thesis
  proof (cases fres)
    case (Inl err)
    obtain k where "?R \<le> k" "k \<le> ?res" "spec_run c acc L (tot + ?R) (subslice xs ?R k) m = Failed err"
      using fo Inl by (auto simp: slice_behind)
    then show ?thesis using fo Inl res by (auto simp: stops_def intro!: exI[of _ k])
  next
    case (Inr r)
    show ?thesis
    proof (cases r)
      case (Some fin)
      obtain k where "?R \<le> k" "k \<le> ?res" "spec_run c acc L (tot + ?R) (subslice xs ?R k) m = Finished fin s'"
        using fo Inr Some by (auto simp: slice_behind)
      then show ?thesis using fo Inr Some res by (auto simp: stops_def intro!: exI[of _ k])
    next
      case None
      let ?R' = "ix_record_start st'"
      obtain m' first' where m': "?R \<le> ?R'" "?R' = ?R \<or> ?R' \<le> ?res" "spec_run c acc L (tot + ?R) (subslice xs ?R ?R') m = Running m'"
        "s' = m_acc m'" "at_record m'" "ix_last_record_end st' = m_last_end m'"
        "indexed c n (phase (ix_counter st)) ?ws ?g (?g + ?res) first' head' r_head' st'"
        "st' = st\<lparr>ix_record_start := ix_record_start st', ix_last_record_end := ix_last_record_end st'\<rparr>"
        "drop ?R' buf' = drop ?R' buf"
        using fo Inr None by (auto simp: flushed_def slice_behind)
      have sel: "ix_config st' = ix_config st" "ix_counter st' = ix_counter st" "ix_scanner st' = ix_scanner st"
        "ix_needs_align_prologue st' = ix_needs_align_prologue st" "needs_chunk_start_b st' = needs_chunk_start_b st"
        by (subst m'(8); simp)+
      have le: "?R' \<le> pos" using m'(2) Rp by auto
      have "scanned c n ?ws ?g (?g + ?res) head' r_head' st'"
      proof -
        have "index_config c n st'" using co by (simp add: index_config_def sel)
        moreover have "?g + ?R' \<le> length ?ws"
          using le assms(3,4) ag by (simp add: agrees_def)
        moreover have "?g + ?R' \<le> ?g + ?res \<or> ?g + ?res = 0 \<and> ?g + ?R' \<le> 64 \<and> (\<forall>k < ?g + ?R'. inert c (?ws ! k))"
          using m'(2) sc by (auto simp: scanned_def)
        ultimately show ?thesis using m'(7) unfolding scanned_def sel by blast
      qed
      moreover have "head' = 0 \<longrightarrow> r_head' = 0"
        using ix_flush_heads[OF flush[unfolded Inr None] n_pos[OF q]] pass by (auto simp: ix_pass_def)
      ultimately have "ix_pass c n ?ws ?g pos head' r_head' m' st'"
        using pass m'(5,6) le by (simp add: ix_pass_def P sel)
      moreover have "moves c acc L tot xs e ?R ?R' m m'" using m'(1,3) le assms(3) by (simp add: moves_def)
      ultimately show ?thesis using fo m'(4,9) sel unfolding Inr None by auto
    qed
  qed
qed

section \<open>The loop\<close>

definition ix_loop_out ::
    "Config \<Rightarrow> ('s, 'u) accumulator \<Rightarrow> nat \<Rightarrow> nat \<Rightarrow> byte list \<Rightarrow> byte list \<Rightarrow> nat \<Rightarrow> nat \<Rightarrow> nat \<Rightarrow> 's machine \<Rightarrow> SimdIndexStepper
      \<Rightarrow> 'u StepResult + nat \<times> nat \<times> nat \<Rightarrow> byte list \<Rightarrow> byte list \<Rightarrow> 's \<Rightarrow> SimdIndexStepper \<Rightarrow> bool" where
  "ix_loop_out c acc L tot pre xs e n cursor m st res buf buf' s' st' \<longleftrightarrow> length buf' = length buf \<and> (case res of
     Inl (StepError err) \<Rightarrow> stops c acc L tot xs e (ix_record_start st) m (Failed err)
   | Inl (Done fin) \<Rightarrow> stops c acc L tot xs e (ix_record_start st) m (Finished fin s')
   | Inl (Suspended _ _ _) \<Rightarrow> False
   | Inr (cursor', head', r_head') \<Rightarrow> \<exists>m'. moves c acc L tot xs e (ix_record_start st) (ix_record_start st') m m' \<and> s' = m_acc m' \<and>
       ix_pass c n (pre @ xs) (length pre) cursor' head' r_head' m' st' \<and>
       drop (ix_record_start st') buf' = drop (ix_record_start st') buf \<and>
       ix_needs_align_prologue st' = ix_needs_align_prologue st \<and> needs_chunk_start_b st' = needs_chunk_start_b st \<and>
       cursor \<le> cursor' \<and> cursor' \<le> e \<and> e - cursor' < 64)"

lemma drop_further: "drop a xs = drop a ys \<Longrightarrow> a \<le> b \<Longrightarrow> drop b xs = drop b ys"
  by (metis drop_drop le_add_diff_inverse2)

lemma ix_loop_out_back:
  assumes "ix_loop_out c acc L tot pre xs e n cursor1 m1 st1 res buf1 buf' s' st'"
    and "moves c acc L tot xs e (ix_record_start st) (ix_record_start st1) m m1" and "e \<le> length xs" and "cursor \<le> cursor1"
    and "ix_needs_align_prologue st1 = ix_needs_align_prologue st" "needs_chunk_start_b st1 = needs_chunk_start_b st"
    and "length buf1 = length buf" and "drop (ix_record_start st1) buf1 = drop (ix_record_start st1) buf"
  shows "ix_loop_out c acc L tot pre xs e n cursor m st res buf buf' s' st'"
proof (cases res)
  case (Inl r)
  then show ?thesis
    using assms(1,7) stops_back[OF assms(2) _ assms(3)] by (cases r) (auto simp: ix_loop_out_def)
next
  case (Inr r)
  then obtain cursor' head' r_head' m' where r: "r = (cursor', head', r_head')" and
    m': "moves c acc L tot xs e (ix_record_start st1) (ix_record_start st') m1 m'" "s' = m_acc m'"
    "ix_pass c n (pre @ xs) (length pre) cursor' head' r_head' m' st'" "drop (ix_record_start st') buf' = drop (ix_record_start st') buf1"
    "ix_needs_align_prologue st' = ix_needs_align_prologue st1" "needs_chunk_start_b st' = needs_chunk_start_b st1"
    "cursor1 \<le> cursor'" "cursor' \<le> e" "e - cursor' < 64" "length buf' = length buf1"
    using assms(1) by (cases r) (auto simp: ix_loop_out_def)
  have "drop (ix_record_start st') buf1 = drop (ix_record_start st') buf"
    using drop_further[OF assms(8)] m'(1) by (simp add: moves_def)
  moreover have "cursor \<le> cursor'" using m'(7) assms(4) by simp
  ultimately show ?thesis
    unfolding ix_loop_out_def Inr r sum.case prod.case
    using moves_trans[OF assms(2) m'(1) assms(3)] m' assms(5-7) by (intro conjI exI[of _ m']) simp_all
qed

context lawful_isa begin

lemma ix_loop_ok:
  fixes acc :: "('s, 'u) accumulator"
  assumes "length xs < 2 ^ 63" and "e \<le> length buf" and "agrees (length pre) (ix_record_start st) (pre @ xs) buf"
    and "ix_pass c n (pre @ xs) (length pre) cursor head r_head m st" and "cursor \<le> e"
    and "ix_loop I acc buf e (L - tot) tot n cursor head r_head (m_acc m) st = (res, buf', s', st')"
  shows "ix_loop_out c acc L tot pre xs e n cursor m st res buf buf' s' st'"
  using assms(2-)
proof (induction "e - cursor" arbitrary: buf cursor head r_head m st rule: less_induct)
  case less
  let ?g = "length pre" and ?R = "ix_record_start st" and ?ws = "pre @ xs" and ?cfg = "scan_config c"
  note ip = less.prems(3) and ag = less.prems(2)
  have exs: "e \<le> length xs" using less.prems(1) ag by (simp add: agrees_def)
  have Re: "?R \<le> cursor" "?R \<le> e" using ip less.prems(4) by (simp_all add: ix_pass_def)
  note loop = less.prems(5)[unfolded ix_loop.simps[of I acc buf e "L - tot" tot n cursor head r_head]]
  show ?case
  proof (cases "cursor + VECTOR_BYTES \<le> e")
    case False
    then have "res = Inr (cursor, head, r_head)" "s' = m_acc m" "st' = st" "buf' = buf" using loop by simp_all
    then show ?thesis using False less.prems(4) ip moves_refl[OF Re(2)] by (auto simp: ix_loop_out_def VECTOR_BYTES_def intro!: exI[of _ m])
  next
    case True
    define v where "v = subslice buf cursor (cursor + VECTOR_BYTES)"
    obtain ok st1 where vec: "ix_vector I v (of_nat cursor - of_nat VECTOR_BYTES) st = (ok, st1)" by fastforce
    have v: "v = subslice ?ws (?g + cursor) (?g + cursor + 64)"
    proof -
      have "subslice ?ws (?g + cursor) (?g + cursor + 64) = subslice xs cursor (cursor + 64)"
        using slice_behind[of pre xs cursor "cursor + 64"] by (simp add: add.assoc)
      moreover have "v = subslice xs cursor (cursor + 64)"
      proof (rule nth_equalityI)
        show "length v = length (subslice xs cursor (cursor + 64))"
          using True less.prems(1) exs by (simp add: v_def VECTOR_BYTES_def)
        fix i assume "i < length v"
        then have i: "i < 64" using True less.prems(1) by (simp add: v_def VECTOR_BYTES_def)
        have "v ! i = buf ! (cursor + i)" "subslice xs cursor (cursor + 64) ! i = xs ! (cursor + i)"
          using i True less.prems(1) exs by (simp_all add: v_def VECTOR_BYTES_def slice_nth)
        moreover have "buf ! (cursor + i) = xs ! (cursor + i)"
          using ag Re(1) True less.prems(1) i by (simp add: agrees_def VECTOR_BYTES_def)
        ultimately show "v ! i = subslice xs cursor (cursor + 64) ! i" by simp
      qed
      ultimately show ?thesis by simp
    qed
    have len: "?g + cursor + 64 \<le> length ?ws" using True exs by (simp add: VECTOR_BYTES_def)
    have small: "cursor < 2 ^ 63 + 64" using True exs assms(1) by (simp add: VECTOR_BYTES_def)
    have sc: "scanned c n ?ws ?g (?g + cursor - 64) head r_head st" and sat: "scanner_at ?cfg ?ws (?g + cursor) (ix_scanner st)"
      and at: "at_record m" "ix_last_record_end st = m_last_end m" using ip by (simp_all add: ix_pass_def)
    note vo = ix_vector_ok[OF sc sat v len small vec]
    note loop1 = loop[unfolded if_P[OF True] Let_def v_def[symmetric] vec prod.case]
    show ?thesis
    proof (cases ok)
      case False
      then have out: "res = Inl (StepError (ix_arity_error st1 (take e buf) tot))" "buf' = buf" using loop1 by auto
      have "cursor < e" using True by (simp add: VECTOR_BYTES_def)
      from ix_error_ahead[OF sc at(1) vo(5,1) vo(9)[OF False] Re(1) this less.prems(1) ag]
      show ?thesis unfolding out by (simp add: ix_loop_out_def)
    next
      case ok: True
      let ?cursor = "cursor + VECTOR_BYTES"
      have ip1: "ix_pass c n ?ws ?g ?cursor head r_head m st1"
        using vo(1,2,6,8) ok at Re(1) ip by (simp add: ix_pass_def VECTOR_BYTES_def add.assoc)
      have mv1: "moves c acc L tot xs e ?R (ix_record_start st1) m m" using Re(2) by (simp add: vo(1) moves_refl)
      have dec: "e - ?cursor < e - cursor" using True by (simp add: VECTOR_BYTES_def)
      have ag1: "agrees ?g (ix_record_start st1) ?ws buf" using ag by (simp add: vo(1))
      show ?thesis
      proof (cases "length (e_offs st1) - head < IX_EMIT_BATCH_FIELDS")
        case few: True
        have go: "ix_loop I acc buf e (L - tot) tot n ?cursor head r_head (m_acc m) st1 = (res, buf', s', st')"
          using loop1 ok few by simp
        from ix_loop_out_back[OF less.hyps[OF dec less.prems(1) ag1 ip1 True go] mv1 exs _ vo(3,4)] show ?thesis by simp
      next
        case False
        obtain fres buf1 head1 r_head1 s1 st2 where
          flush: "ix_flush acc buf head r_head (?cursor - VECTOR_BYTES) (L - tot) tot n (m_acc m) st1 = (fres, buf1, head1, r_head1, s1, st2)"
          by (cases "ix_flush acc buf head r_head (?cursor - VECTOR_BYTES) (L - tot) tot n (m_acc m) st1") auto
        have "64 \<le> ?cursor" by (simp add: VECTOR_BYTES_def)
        note fl = ix_flush_pass[OF ip1 this True less.prems(1) ag1 flush]
        show ?thesis
        proof (cases fres)
          case (Inl err)
          then have "res = Inl (StepError err)" "buf' = buf1" using loop1 ok False flush by simp_all
          then show ?thesis using fl Inl by (simp add: ix_loop_out_def vo(1))
        next
          case (Inr r)
          show ?thesis
          proof (cases r)
            case (Some fin)
            then have "res = Inl (Done fin)" "buf' = buf1" "s' = s1" using loop1 ok False flush Inr by simp_all
            then show ?thesis using fl Inr Some by (simp add: ix_loop_out_def vo(1))
          next
            case None
            obtain m1 where m1: "moves c acc L tot xs e (ix_record_start st1) (ix_record_start st2) m m1" "s1 = m_acc m1"
              "ix_pass c n ?ws ?g ?cursor head1 r_head1 m1 st2" "drop (ix_record_start st2) buf1 = drop (ix_record_start st2) buf"
              "ix_needs_align_prologue st2 = ix_needs_align_prologue st1" "needs_chunk_start_b st2 = needs_chunk_start_b st1"
              "length buf1 = length buf"
              using fl unfolding Inr None sum.case option.case by blast
            define st3 where "st3 = (if IX_COMPACT_THRESHOLD \<le> head1 then drop_emitted_prefix head1 r_head1 st2 else st2)"
            define head3 where "head3 = (if IX_COMPACT_THRESHOLD \<le> head1 then 0 else head1)"
            define r_head3 where "r_head3 = (if IX_COMPACT_THRESHOLD \<le> head1 then 0 else r_head1)"
            have go: "ix_loop I acc buf1 e (L - tot) tot n ?cursor head3 r_head3 (m_acc m1) st3 = (res, buf', s', st')"
              using loop1 ok False flush Inr None m1(2) by (simp add: st3_def head3_def r_head3_def split: if_splits)
            have hl: "head1 \<le> length (b_offs st2)" "head1 \<le> length (e_offs st2)" "r_head1 \<le> length (r_offs st2)"
              using m1(3) by (auto simp: ix_pass_def scanned_def indexed_def)
            have "head1 = 0 \<longrightarrow> r_head1 = 0" using m1(3) by (simp add: ix_pass_def)
            with hl have ip3: "ix_pass c n ?ws ?g ?cursor head3 r_head3 m1 st3"
              by (intro ix_pass_cong[OF m1(3)]) (auto simp: st3_def head3_def r_head3_def drop_emitted_prefix_def)
            have sel: "ix_record_start st3 = ix_record_start st2" "ix_needs_align_prologue st3 = ix_needs_align_prologue st"
              "needs_chunk_start_b st3 = needs_chunk_start_b st"
              using m1(5,6) vo(3,4) by (simp_all add: st3_def drop_emitted_prefix_def)
            have mv: "moves c acc L tot xs e ?R (ix_record_start st3) m m1" using m1(1) by (simp add: sel vo(1))
            have "ix_record_start st1 \<le> ix_record_start st2" using m1(1) by (simp add: moves_def)
            from drop_agrees[OF ag1 m1(4,7) this] have ag3: "agrees ?g (ix_record_start st3) ?ws buf1" by (simp add: sel)
            have e1: "e \<le> length buf1" using less.prems(1) m1(7) by simp
            from ix_loop_out_back[OF less.hyps[OF dec e1 ag3 ip3 True go] mv exs _ sel(2,3) m1(7)] m1(4) show ?thesis by (simp add: sel)
          qed
        qed
      qed
    qed
  qed
qed

end

end
