(* ===== verification/CursorSteps.thy ===== *)
theory CursorSteps
  imports CursorPass
begin

text \<open>
  The step of the cursor stepper as the driver sees it: the alignment prologue, the loop, the last flush of what
  is published, and the shift of all offsets when the driver drops what has been handed over.
\<close>

section \<open>Before the loop\<close>

context lawful_isa begin

lemma prologue_ok:
  assumes ip: "in_pass c n xs 0 pos (pending st) m st" and "pos \<le> e" and "e \<le> length buf" and xs: "xs = buf @ ys"
    and "cursor_prologue I addr buf pos e st = (cursor, st')"
  shows "in_pass c n xs 0 cursor (pending st') m st'" and "pos \<le> cursor" "cursor \<le> e"
    and "cell_start st' = cell_start st"
proof -
  have "in_pass c n xs 0 cursor (pending st') m st' \<and> pos \<le> cursor \<and> cursor \<le> e \<and> cell_start st' = cell_start st"
  proof (cases "needs_align_prologue st \<and> pos = 0 \<and> pending st = None")
    case False
    then have "cursor = pos" "st' = st" using assms(5)[unfolded cursor_prologue_def if_not_P[OF False]] by simp_all
    then show ?thesis using assms(1,2) by simp
  next
    case True
    have flag: "in_pass c n xs 0 pos (pending st) m (st\<lparr>needs_align_prologue := b\<rparr>)" for b
      by (rule in_pass_cong[OF ip]) simp_all
    have su: "set_up c n st" using ip by (simp add: in_pass_def)
    define pad where "pad = the (neutral_pad (delim st) (term_a st) (term_b st) None)"
    note unf = assms(5)[unfolded cursor_prologue_def if_P[OF True] Let_def, folded pad_def]
    show ?thesis
    proof (cases "head_padded_prologue (addr buf mod VECTOR_BYTES) buf e pad")
      case (Vector v misalign)
      define s where "s = match_structural I v (delim st) (term_a st) (term_b st) None"
      define skip where "skip = 64 - misalign"
      have v: "misalign = addr buf mod 64" "misalign \<noteq> 0" "skip + 64 \<le> e" "v = replicate misalign pad @ take skip buf"
        using Vector by (auto simp: head_padded_prologue_def VECTOR_BYTES_def Let_def skip_def split: if_splits)
      have mis: "misalign < 64" using v(1) by simp
      have out: "cursor = skip" "st' = st\<lparr>pending := Some (delim_bits s, term_bits s, - of_nat misalign), needs_align_prologue := False\<rparr>"
        using unf Vector by (simp_all add: s_def VECTOR_BYTES_def skip_def)
      have len: "length v = 64" using v(3,4) assms(3) mis by (simp add: skip_def)
      have le: "0 \<le> skip" "skip \<le> length xs" "misalign + (skip - 0) \<le> 64" using v(3) assms(3) mis by (simp_all add: xs skip_def)
      have base: "(- of_nat misalign :: u64) + of_nat misalign = of_nat 0" by simp
      have lanes: "if misalign \<le> i \<and> i < misalign + (skip - 0) then v ! i = xs ! (0 + (i - misalign)) else content c (v ! i)" if "i < 64" for i
        using that v(3,4) assms(3) mis pad_content[OF su, folded pad_def] by (auto simp: xs nth_append skip_def)
      have held: "held_vector c xs misalign 0 skip (delim_bits s, term_bits s, - of_nat misalign)"
        by (rule vector_held(1)[OF su len le base lanes s_def[symmetric]])
      have "published c n xs 0 0 st" using ip True by (auto simp: in_pass_def)
      then have "published c n xs 0 0 st'" by (simp add: published_def out(2))
      moreover have "holds_from c xs 0 skip (pending st')"
        using held mis by (auto simp: holds_from_def out(2) skip_def)
      moreover have "set_up c n st'" using su by (simp add: set_up_def out(2))
      ultimately have "in_pass c n xs 0 skip (pending st') m st'"
        using ip by (auto simp: in_pass_def out(2))
      then show ?thesis using v(3) True out by simp
    next
      case Aligned
      then have "cursor = pos" "st' = st\<lparr>needs_align_prologue := False\<rparr>" using unf by simp_all
      then show ?thesis using flag[of False] assms(2) by simp
    next
      case TooShort
      then have "cursor = pos" "st' = st\<lparr>needs_align_prologue := (e < VECTOR_BYTES)\<rparr>" using unf by simp_all
      then show ?thesis using flag[of "e < VECTOR_BYTES"] assms(2) by simp
    qed
  qed
  then show "in_pass c n xs 0 cursor (pending st') m st'" "pos \<le> cursor" "cursor \<le> e" "cell_start st' = cell_start st"
    by simp_all
qed

end

section \<open>Dropping what is handed over\<close>

lemma is_bound_drop: "k \<le> i \<Longrightarrow> is_bound c (drop k xs) (i - k) \<longleftrightarrow> is_bound c xs i"
  by (cases "i < length xs") (auto simp: is_bound_def)

lemma bounds_in_drop:
  assumes "k \<le> a"
  shows "bounds_in c (drop k xs) (a - k) (b - k) = map (\<lambda>x. x - k) (bounds_in c xs a b)"
proof -
  have "[a - k..<b - k] = map (\<lambda>x. x - k) [a..<b]" using assms by (intro nth_equalityI) auto
  then show ?thesis
    using is_bound_drop[of k _ c xs] assms
    by (auto simp: bounds_in_def filter_map o_def intro!: arg_cong[of _ _ "map _"] filter_cong)
qed

lemma kinds_drop:
  assumes "k \<le> a" and "b \<le> length xs"
  shows "kinds c (drop k xs) (map (\<lambda>x. x - k) (bounds_in c xs a b)) = kinds c xs (bounds_in c xs a b)"
  using assms by (auto simp: kinds_def bounds_in_def)

lemma saturating_sub_word:
  assumes "base + of_nat off = of_nat lo" and "off = 0 \<or> lo = 0" and "k \<le> lo" and "lo < 2 ^ 64"
  shows "saturating_sub base k + of_nat off = of_nat (lo - k)"
proof (cases "off = 0")
  case True
  then have base: "base = of_nat lo" using assms(1) by simp
  have "unat base = lo" unfolding base using assms(4) by (simp add: unat_of_nat)
  then show ?thesis using assms(3) True base by (simp add: saturating_sub_def of_nat_diff)
next
  case False
  then show ?thesis using assms by (simp add: saturating_sub_def)
qed

lemma held_vector_drop:
  assumes "held_vector c xs off lo hi (d, t, base)" and "off = 0 \<or> lo = 0" and "k \<le> lo" and "length xs < 2 ^ 64"
  shows "held_vector c (drop k xs) off (lo - k) (hi - k) (d, t, saturating_sub base k)"
proof -
  have h: "lo \<le> hi" "hi \<le> length xs" "base + of_nat off = of_nat lo" using assms(1) by (simp_all add: held_vector_def)
  have "lanes_of P (drop k xs) off (lo - k) (hi - k) w \<longleftrightarrow> lanes_of P xs off lo hi w" for P w
  proof -
    have eq: "hi - k - (lo - k) = hi - lo" using assms(3) h(1) by simp
    have "drop k xs ! (lo - k + (i - off)) = xs ! (lo + (i - off))" if "i < off + (hi - lo)" "off \<le> i" for i
      using that assms(3) h by simp
    then show ?thesis unfolding lanes_of_def eq by auto
  qed
  moreover have "saturating_sub base k + of_nat off = of_nat (lo - k)"
    using saturating_sub_word[OF h(3) assms(2,3)] h assms(4) by simp
  ultimately show ?thesis using assms(1,3) h by (simp add: held_vector_def diff_le_mono)
qed

lemma consume_in_pass:
  assumes ip: "in_pass c n xs 0 pos (pending st) m st" and "length xs < 2 ^ 64"
  defines "k \<equiv> cell_start st"
  shows "in_pass c n (drop k xs) 0 (pos - k) (pending (cursor_consume k st)) m (cursor_consume k st)"
proof -
  obtain pub where pub: "pub \<le> pos" "published c n xs 0 pub st" "holds_from c xs pub pos (pending st)"
    using ip by (auto simp: in_pass_def)
  have col: "collected c n xs k pub (bounds st) (has_runs st)" using pub(2) by (simp add: published_def k_def)
  have le: "k \<le> pub" "pub \<le> length xs" "bounds st = bounds_in c xs k pub" using col by (auto simp: collected_def)
  have bd: "map (\<lambda>x. x - k) (bounds st) = bounds_in c (drop k xs) 0 (pub - k)"
    using bounds_in_drop[of k k c xs pub] le(3) by simp
  have kd: "kinds c (drop k xs) (map (\<lambda>x. x - k) (bounds st)) = kinds c xs (bounds st)"
    using kinds_drop[of k k pub xs c] le by simp
  have "collected c n (drop k xs) 0 (pub - k) (map (\<lambda>x. x - k) (bounds st)) (has_runs st)"
    unfolding collected_def kd
  proof (intro conjI impI allI)
    show "bounds_in c (drop k xs) 0 (pub - k) = map (\<lambda>x. x - k) (bounds st)" by (rule bd[symmetric])
    fix j assume "\<not> has_runs st" "0 \<le> j \<and> j < pub - k \<and> terminates c (drop k xs ! j)"
    moreover from this have "terminates c (xs ! (k + j))" using le by simp
    ultimately have "is_bound c xs (k + j)" using col by (auto simp: collected_def)
    then show "is_bound c (drop k xs) j" using is_bound_drop[of k "k + j" c xs] by simp
  qed (use col in \<open>auto simp: collected_def\<close>)
  then have "published c n (drop k xs) 0 (pub - k) (cursor_consume k st)"
    using pub(2) kd by (simp add: published_def cursor_consume_def k_def)
  moreover have "holds_from c (drop k xs) (pub - k) (pos - k) (pending (cursor_consume k st))"
  proof (cases "pending st")
    case None
    then show ?thesis using pub(3) by (simp add: holds_from_def cursor_consume_def)
  next
    case (Some p)
    then obtain off d t base where p: "p = (d, t, base)" "held_vector c xs off pub pos (d, t, base)" "off + (pos - pub) = 64" "off = 0 \<or> pub = 0"
      using pub(3) by (cases p) (auto simp: holds_from_def)
    have "pos - k - (pub - k) = pos - pub" using le(1) pub(1) by simp
    with held_vector_drop[OF p(2,4) le(1) assms(2)] p Some show ?thesis
      by (auto simp: holds_from_def cursor_consume_def intro!: exI[of _ off])
  qed
  moreover have "set_up c n (cursor_consume k st)" using ip by (simp add: in_pass_def set_up_def cursor_consume_def)
  moreover have "cs_last_record_end (cursor_consume k st) = m_last_end m" using ip by (simp add: in_pass_def cursor_consume_def)
  moreover have "pub - k \<le> pos - k" using pub(1) by simp
  ultimately show ?thesis using ip unfolding in_pass_def by blast
qed

section \<open>The step\<close>

definition cursor_rel :: "Config \<Rightarrow> nat \<Rightarrow> byte list \<Rightarrow> nat \<Rightarrow> nat \<Rightarrow> nat \<Rightarrow> nat \<Rightarrow> CursorStepper \<Rightarrow> 's machine \<Rightarrow> bool" where
  "cursor_rel c n xs tot lag pos e st m \<longleftrightarrow> lag = 0 \<and> cell_start st = 0 \<and> pos \<le> e \<and> e - pos < 64 \<and>
     in_pass c n xs 0 pos (pending st) m st"

text \<open>What the driver is told: a suspension with the machine where the stepper stands, or a stop.\<close>

definition step_out ::
    "Config \<Rightarrow> ('s, 'u) accumulator \<Rightarrow> nat \<Rightarrow> nat \<Rightarrow> byte list \<Rightarrow> nat \<Rightarrow> nat \<Rightarrow> 's machine \<Rightarrow> 'u StepResult \<Rightarrow> 's \<Rightarrow> CursorStepper \<Rightarrow> bool" where
  "step_out c acc L tot xs n e m res s' st' = (case res of
     StepError err \<Rightarrow> stops c acc L tot xs e 0 m (Failed err)
   | Done fin \<Rightarrow> stops c acc L tot xs e 0 m (Finished fin s')
   | Suspended r k lre \<Rightarrow> \<exists>m'. k = cell_start st' \<and> k \<le> r \<and> r \<le> e \<and> e - r < 64 \<and> moves c acc L tot xs e 0 k m m' \<and>
       lre = m_last_end m' \<and> s' = m_acc m' \<and> in_pass c n xs 0 r (pending st') m' st')"

context lawful_isa begin

lemma cursor_step_ok:
  fixes acc :: "('s, 'u) accumulator"
  assumes "plain c n" and rel: "cursor_rel c n xs tot 0 pos e0 st m" and "e0 \<le> e" and "e \<le> length buf"
    and xs: "xs = buf @ ys" and "length xs < 2 ^ 64"
    and step: "cursor_step I addr acc \<lparr>ctx_buf = buf, scan_start = pos, scan_end = e, remaining_in_chunk = L - tot,
      total_consumed = tot\<rparr> (m_acc m) st = (res, buf', s', st')"
  shows "buf' = buf \<and> step_out c acc L tot xs n e m res s' st'"
proof -
  have pe: "pos \<le> e" and cs: "cell_start st = 0" and ip: "in_pass c n xs 0 pos (pending st) m st"
    using rel assms(3) by (simp_all add: cursor_rel_def)
  have fc: "fc_n (field_counter st) = n" using ip by (simp add: in_pass_def set_up_def)
  have exs: "e \<le> length xs" using assms(4) by (simp add: xs)
  obtain cursor st1 where pro: "cursor_prologue I addr buf pos e st = (cursor, st1)" by fastforce
  note p = prologue_ok[OF ip pe assms(4) xs pro]
  have ip1: "in_pass c n xs 0 cursor (pending st1) m (st1\<lparr>pending := None\<rparr>)"
    by (rule in_pass_cong[OF p(1)]) simp_all
  obtain lres s1 st2 where loop: "cursor_loop I acc buf e (L - tot) tot n cursor (pending st1) 0 (m_acc m) (st1\<lparr>pending := None\<rparr>) = (lres, s1, st2)"
    by (cases "cursor_loop I acc buf e (L - tot) tot n cursor (pending st1) 0 (m_acc m) (st1\<lparr>pending := None\<rparr>)") auto
  note lo = cursor_loop_ok[OF assms(1,4) xs assms(6) ip1 p(3) loop, unfolded loop_out_def]
  note unf = step[unfolded cursor_step_def StepCtx.select_convs Let_def fc pro prod.case loop]
  show ?thesis
  proof (cases lres)
    case (Inl r)
    then have "res = r" "buf' = buf" "s' = s1" using unf by simp_all
    then show ?thesis using lo Inl p(4) cs by (cases r) (simp_all add: step_out_def)
  next
    case (Inr r)
    then obtain cursor' head' m1 where r: "r = (cursor', head')" and
      m1: "moves c acc L tot xs e 0 (cell_start st2) m m1" "s1 = m_acc m1"
        "in_pass c n xs head' cursor' (pending st2) m1 st2" "cursor' \<le> e" "e - cursor' < 64"
      using lo p(4) cs by (cases r) auto
    obtain fres head2 s2 st3 where fl: "(if n \<le> length (bounds st2) - head' then cursor_flush acc buf head' (L - tot) tot n s1 st2
        else (Inr None, head', s1, st2)) = (fres, head2, s2, st3)"
      by (cases "if n \<le> length (bounds st2) - head' then cursor_flush acc buf head' (L - tot) tot n s1 st2
        else (Inr None, head', s1, st2)") auto
    have cse: "cell_start st2 \<le> e" using m1(1) by (simp add: moves_def)
    have fok: "case fres of
        Inl err \<Rightarrow> stops c acc L tot xs e (cell_start st2) m1 (Failed err)
      | Inr (Some fin) \<Rightarrow> stops c acc L tot xs e (cell_start st2) m1 (Finished fin s2)
      | Inr None \<Rightarrow> \<exists>m'. moves c acc L tot xs e (cell_start st2) (cell_start st3) m1 m' \<and> s2 = m_acc m' \<and>
          in_pass c n xs head2 cursor' (pending st2) m' st3"
    proof (cases "n \<le> length (bounds st2) - head'")
      case True
      then have "cursor_flush acc buf head' (L - tot) tot n (m_acc m1) st2 = (fres, head2, s2, st3)" using fl m1(2) by simp
      from flush_in_pass[OF assms(1) m1(3,4) assms(4) xs this] show ?thesis
        by (auto split: sum.splits option.splits)
    next
      case False
      then have "fres = Inr None" "head2 = head'" "s2 = m_acc m1" "st3 = st2" using fl m1(2) by simp_all
      then show ?thesis using m1(3) moves_refl[OF cse] by (auto intro!: exI[of _ m1])
    qed
    have pend: "fres = Inr None \<Longrightarrow> pending st3 = pending st2"
    proof (cases "n \<le> length (bounds st2) - head'")
      case True
      assume "fres = Inr None"
      then have "cursor_flush acc buf head' (L - tot) tot n s1 st2 = (Inr None, head2, s2, st3)" using True fl by simp
      then show ?thesis by (auto simp: cursor_flush_def Let_def split: if_splits sum.splits prod.splits)
    qed (use fl in simp)
    show ?thesis
    proof (cases fres)
      case (Inl err)
      then have "res = StepError err" "buf' = buf" using unf fl unfolding \<open>lres = Inr r\<close> r by simp_all
      moreover have "stops c acc L tot xs e 0 m (Failed err)" using stops_back[OF m1(1) _ exs] fok Inl by simp
      ultimately show ?thesis by (simp add: step_out_def)
    next
      case fr: (Inr o')
      show ?thesis
      proof (cases o')
        case (Some fin)
        then have "res = Done fin" "buf' = buf" "s' = s2" using unf fl fr unfolding \<open>lres = Inr r\<close> r by simp_all
        moreover have "stops c acc L tot xs e 0 m (Finished fin s2)" using stops_back[OF m1(1) _ exs] fok fr Some by simp
        ultimately show ?thesis by (simp add: step_out_def)
      next
        case None
        obtain m2 where m2: "moves c acc L tot xs e (cell_start st2) (cell_start st3) m1 m2" "s2 = m_acc m2"
          "in_pass c n xs head2 cursor' (pending st2) m2 st3"
          using fok unfolding fr None sum.case option.case by blast
        define st4 where "st4 = (if head2 \<noteq> 0 then st3\<lparr>bounds := drop head2 (bounds st3)\<rparr> else st3)"
        have out: "res = Suspended cursor' (cell_start st3) (cs_last_record_end st3)" "buf' = buf" "s' = s2" "st' = st4"
          using unf fl fr None unfolding \<open>lres = Inr r\<close> r by (auto simp: st4_def split: if_splits)
        have sel: "cell_start st4 = cell_start st3" "pending st4 = pending st2" "cs_last_record_end st4 = cs_last_record_end st3"
          using pend fr None by (simp_all add: st4_def)
        have "in_pass c n xs 0 cursor' (pending st2) m2 st4"
          using m2(3) by (intro in_pass_cong[OF m2(3)]) (auto simp: st4_def in_pass_def published_def)
        moreover have "cell_start st3 \<le> cursor'" using m2(3) by (auto simp: in_pass_def published_def collected_def)
        moreover have "cs_last_record_end st3 = m_last_end m2" using m2(3) by (simp add: in_pass_def)
        ultimately show ?thesis
          using moves_trans[OF m1(1) m2(1) exs] m1(4,5) m2(2) unfolding step_out_def out(1) StepResult.case
          by (auto simp: out sel)
      qed
    qed
  qed
qed

end

end
