(* ===== verification/CursorEnd.thy ===== *)
theory CursorEnd
  imports CursorSteps
begin

text \<open>
  The end of the input for the cursor stepper: an unterminated last record is closed by a virtual
  terminator, what is held is published, and the records left are handed over one at a time.
\<close>

unbundle bit_operations_syntax

section \<open>The virtual terminator\<close>

lemma content_in_record:
  fixes acc :: "('s, 'u) accumulator"
  assumes "plain c n" and "at_record m \<or> in_record m" and "\<not> terminates c b" and "spec_byte c acc L p b m = Running m'"
  shows "in_record m'"
proof -
  obtain m1 where m1: "in_record m1" "spec_byte c acc L p b m1 = Running m'"
  proof (cases "at_record m")
    case True
    then have "m_state m = RecordStart" by (simp add: at_record_def)
    then have "spec_byte c acc L p b m = spec_byte c acc L p b (opened p m)"
      by (rule spec_byte_first[OF assms(1) _ assms(3)])
    then show ?thesis using that[of "opened p m"] assms(4) by simp
  next
    case False
    then show ?thesis using that[of m] assms(2,4) by simp
  qed
  consider "content c b" | "b = delimiter c" using assms(3) by (auto simp: content_def)
  then show ?thesis
    using plain_cells(1,2)[OF assms(1) m1(1), of b acc L p] m1(2) by cases (auto simp: in_record_def)
qed

lemma spec_run_plain_state:
  fixes acc :: "('s, 'u) accumulator"
  assumes "plain c n" and "m_state m = RecordStart \<and> m_fields m = [] \<and> m_cur m = [] \<or> in_record m" and "spec_run c acc L p bs m = Running m'"
  shows "at_record m' \<or> in_record m'"
  using assms(2,3)
proof (induction bs arbitrary: p m)
  case Nil
  then show ?case by (auto simp: at_record_def)
next
  case (Cons b bs)
  then obtain m1 where m1: "spec_byte c acc L p b m = Running m1" "spec_run c acc L (p + 1) bs m1 = Running m'"
    by (auto split: outcome.splits)
  have pre: "at_record m \<or> in_record m" using Cons.prems(1) by (simp add: at_record_def)
  have "at_record m1 \<or> in_record m1"
  proof (cases "terminates c b")
    case False
    from content_in_record[OF assms(1) pre this m1(1)] show ?thesis ..
  next
    case True
    show ?thesis
    proof (cases "in_record m")
      case inr: True
      from m1(1)[unfolded plain_cells(3)[OF assms(1) inr True]] show ?thesis
        by (auto simp: enter_def at_record_def split: sum.splits if_splits)
    next
      case False
      then have "m_state m = RecordStart" "at_record m" using pre by (auto simp: at_record_def)
      have "spec_run c acc L p [b] m = (if L \<le> p then Finished (max L p) (m_acc m) else Running m)"
        using spec_run_terminators[of m "[b]" c acc L p] \<open>m_state m = RecordStart\<close> True by simp
      then have "m1 = m" using m1(1) by (auto split: if_splits)
      then show ?thesis using \<open>at_record m\<close> by simp
    qed
  qed
  then show ?case using Cons.IH[OF _ m1(2)] by (simp add: at_record_def)
qed

lemma virtual_terminator:
  fixes acc :: "('s, 'u) accumulator"
  assumes "plain c n" and "at_record m" and "bs \<noteq> []" and "\<not> terminates c (last bs)" and "terminates c t"
  shows "spec_rest c acc L p (bs @ [t]) m = spec_rest c acc L p bs m"
proof (cases "spec_run c acc L p bs m")
  case (Running m')
  obtain cs b where bs: "bs = cs @ [b]" using assms(3) by (metis rev_exhaust)
  then obtain m1 where m1: "spec_run c acc L p cs m = Running m1" "spec_byte c acc L (p + length cs) b m1 = Running m'"
    using Running by (auto simp: spec_run_append split: outcome.splits)
  have "at_record m1 \<or> in_record m1"
    using spec_run_plain_state[OF assms(1) _ m1(1)] assms(2) by (simp add: at_record_def)
  from content_in_record[OF assms(1) this _ m1(2)] have inr: "in_record m'" using assms(4) bs by simp
  have "spec_rest c acc L p (bs @ [t]) m = spec_rest c acc L (p + length bs) [t] m'"
    by (rule spec_rest_append[OF Running])
  also have "\<dots> = spec_finish c acc (p + length bs) m'"
    using inr
    by (auto simp: spec_rest_def plain_cells(3)[OF assms(1) inr assms(5)] enter_def spec_finish_def in_record_def
        split: sum.split)
  finally show ?thesis using Running by (simp add: spec_rest_def)
qed (simp_all add: spec_rest_def spec_run_append)

section \<open>The drain\<close>

lemma spec_rest_stops:
  fixes acc :: "('s, 'u) accumulator"
  assumes "spec_run c acc L (tot + cs) (subslice xs cs q) m = out" and "cs \<le> q" and "q \<le> length xs"
  shows "out = Failed err \<Longrightarrow> spec_rest c acc L (tot + cs) (drop cs xs) m = Inl err"
    and "out = Finished p s \<Longrightarrow> spec_rest c acc L (tot + cs) (drop cs xs) m = Inr (Some p, s)"
    and "out = Running m' \<Longrightarrow> spec_rest c acc L (tot + cs) (drop cs xs) m = spec_rest c acc L (tot + q) (drop q xs) m'"
proof -
  have split: "drop cs xs = subslice xs cs q @ drop q xs" by (rule slice_append_drop[OF assms(2), symmetric])
  show "out = Failed err \<Longrightarrow> spec_rest c acc L (tot + cs) (drop cs xs) m = Inl err"
    "out = Finished p s \<Longrightarrow> spec_rest c acc L (tot + cs) (drop cs xs) m = Inr (Some p, s)"
    using assms(1) by (simp_all add: split spec_rest_def spec_run_append)
  assume "out = Running m'"
  then have run: "spec_run c acc L (tot + cs) (subslice xs cs q) m = Running m'" using assms(1) by simp
  have len: "tot + cs + length (subslice xs cs q) = tot + q" using assms(2,3) by simp
  show "spec_rest c acc L (tot + cs) (drop cs xs) m = spec_rest c acc L (tot + q) (drop q xs) m'"
    unfolding split spec_rest_append[OF run] len by simp
qed

lemma cursor_drain_ok:
  fixes acc :: "('s, 'u) accumulator"
  assumes "plain c n" and agree: "agree_but_last (length xs) xs buf" and ends: "xs = [] \<or> terminates c (last xs)"
    and su: "set_up c n st" and col: "collected c n xs (cell_start st) (length xs) (drop head (bounds st)) (has_runs st)"
    and at: "at_record m" "cs_last_record_end st = m_last_end m"
  shows "cursor_drain acc buf (L - tot) tot n head (m_acc m) st = spec_rest c acc L (tot + cell_start st) (drop (cell_start st) xs) m"
  using su col at
proof (induction "length (bounds st) - head" arbitrary: head m st rule: less_induct)
  case less
  let ?cs = "cell_start st" and ?bs = "bounds st"
  have n: "0 < n" using assms(1) by (simp add: plain_def)
  note col = less.prems(2)
  show ?case
  proof (cases "n \<le> length ?bs - head")
    case False
    have drain: "cursor_drain acc buf (L - tot) tot n head (m_acc m) st = Inr (cs_last_record_end st, m_acc m)"
      using False by (simp add: cursor_drain.simps[of acc buf _ _ n head])
    have "?cs = length xs"
    proof (rule ccontr)
      assume "?cs \<noteq> length xs"
      then have lt: "?cs < length xs" using col by (auto simp: collected_def)
      then have nz: "xs \<noteq> []" by auto
      then have lt': "terminates c (xs ! (length xs - 1))" using ends by (simp add: last_conv_nth)
      moreover have "length xs - 1 < length xs" "\<not> length xs - 1 + 1 < length xs" using lt by simp_all
      ultimately have "is_bound c xs (length xs - 1)" by (simp only: is_bound_def) blast
      moreover have "[?cs..<length xs] = [?cs..<length xs - 1] @ [length xs - 1]"
        using lt by (metis Suc_pred' gr_implies_not0 gr0I less_Suc_eq_le upt_Suc_append)
      ultimately have "drop head ?bs = bounds_in c xs ?cs (length xs - 1) @ [length xs - 1]"
        using col by (auto simp: collected_def bounds_in_def)
      then have ks: "kinds c xs (drop head ?bs) = kinds c xs (bounds_in c xs ?cs (length xs - 1)) @ [True]"
        using lt' by (simp add: kinds_def)
      have "length (kinds c xs (drop head ?bs)) = length ?bs - head" by (simp add: kinds_def)
      then have len: "length (kinds c xs (drop head ?bs)) < n" using False by linarith
      let ?ks = "kinds c xs (drop head ?bs)"
      have all: "\<forall>j<length ?ks. ?ks ! j = ((j + 0) mod n = n - 1)"
        using col n count_fields_iff[of 0 n ?ks] by (auto simp: collected_def split: if_splits)
      have "?ks ! (length ?ks - 1)" "0 < length ?ks" unfolding ks by (simp_all add: nth_append)
      then have "(length ?ks - 1) mod n = n - 1" using all by (metis add.right_neutral diff_less zero_less_one)
      then have "length ?ks - 1 = n - 1" using len by simp
      then show False using len \<open>0 < length ?ks\<close> by linarith
    qed
    then show ?thesis unfolding drain using less.prems(3,4) by (simp add: spec_finish_def at_record_def)
  next
    case True
    let ?tb = "case term_b st of Some b \<Rightarrow> b | None \<Rightarrow> term_a st"
    have fits: "1 * n \<le> length (drop head ?bs)" using True by simp
    note em = emit_ok[OF assms(1) col less.prems(3) refl fits agree set_up_terminates(2)[OF less.prems(1)], of tot L acc ?cs]
    define r where "r = emit_records acc buf head 1 n ?cs (m_acc m) st"
    have r_any: "emit_any acc buf (has_runs st) (term_a st) ?tb ?bs n head 1 ?cs ?cs (m_acc m) = r"
      by (simp add: r_def emit_records_any)
    have em': "case r of
      Inl err \<Rightarrow> \<exists>q. ?cs \<le> q \<and> q \<le> length xs \<and> spec_run c acc L (tot + ?cs) (subslice xs ?cs q) m = Failed err
    | Inr (cs', lrs', s') \<Rightarrow> ?cs < cs' \<and> cs' \<le> length xs \<and> collected c n xs cs' (length xs) (drop (head + n) ?bs) (has_runs st) \<and>
          (if L < tot + cs' then spec_run c acc L (tot + ?cs) (subslice xs ?cs cs') m = Finished (max L (tot + lrs')) s'
           else \<exists>m'. spec_run c acc L (tot + ?cs) (subslice xs ?cs cs') m = Running m' \<and> ended (tot + lrs') s' m')"
      using em unfolding r_any by (auto split: sum.splits)
    have pos: "0 < n \<and> n \<le> length ?bs - head" using n True by simp
    note unf = cursor_drain.simps[of acc buf "L - tot" tot n head "m_acc m" st, unfolded if_P[OF pos], folded r_def]
    show ?thesis
    proof (cases r)
      case (Inl err)
      then obtain q where "?cs \<le> q" "q \<le> length xs" "spec_run c acc L (tot + ?cs) (subslice xs ?cs q) m = Failed err"
        using em' by auto
      from spec_rest_stops(1)[OF this(3,1,2) refl] show ?thesis unfolding unf Inl by simp
    next
      case (Inr t)
      obtain cs' lrs' s' where t: "t = (cs', lrs', s')" by (cases t) auto
      note e = em'[unfolded Inr t sum.case prod.case]
      have le: "?cs \<le> cs'" using e by simp
      show ?thesis
      proof (cases "L < tot + cs'")
        case stop: True
        then have rem: "L - tot < cs'" using e by linarith
        have "tot + handoff lrs' (L - tot) True = max L (tot + lrs') \<or> L < tot" by (auto simp: handoff_def)
        moreover have "max (L - tot) lrs' + tot = max L (tot + lrs')" if "L < tot" using that by auto
        ultimately have fin: "tot + handoff lrs' (L - tot) True = max L (tot + lrs')" by (auto simp: handoff_def)
        have "spec_run c acc L (tot + ?cs) (subslice xs ?cs cs') m = Finished (max L (tot + lrs')) s'" using e stop by simp
        from spec_rest_stops(2)[OF this le _ refl] e show ?thesis unfolding unf Inr t using rem fin by simp
      next
        case False
        then have rem: "\<not> L - tot < cs'" by linarith
        obtain m' where m': "spec_run c acc L (tot + ?cs) (subslice xs ?cs cs') m = Running m'" "ended (tot + lrs') s' m'"
          using e False by auto
        define st1 where "st1 = st\<lparr>cell_start := cs', cs_last_record_end := Some (tot + lrs')\<rparr>"
        have acc: "m_acc m' = s'" using m'(2) by (simp add: ended_def)
        have "cursor_drain acc buf (L - tot) tot n head (m_acc m) st = cursor_drain acc buf (L - tot) tot n (head + n) (m_acc m') st1"
          unfolding unf Inr t using rem by (simp add: st1_def handoff_def acc)
        also have "\<dots> = spec_rest c acc L (tot + cell_start st1) (drop (cell_start st1) xs) m'"
        proof (rule less.hyps)
          show "length (bounds st1) - (head + n) < length (bounds st) - head" using True n by (simp add: st1_def)
          show "set_up c n st1" using less.prems(1) by (simp add: st1_def set_up_def)
          show "collected c n xs (cell_start st1) (length xs) (drop (head + n) (bounds st1)) (has_runs st1)"
            using e by (simp add: st1_def)
          show "at_record m'" "cs_last_record_end st1 = m_last_end m'"
            using m'(2) by (simp_all add: st1_def ended_def at_record_def)
        qed
        finally show ?thesis using spec_rest_stops(3)[OF m'(1) le _ refl] e by (simp add: st1_def)
      qed
    qed
  qed
qed

section \<open>The last vectors\<close>

lemma drain_end_kept:
  "cursor_drain acc buf rem tot n head s st = Inr (lre, s') \<Longrightarrow> cs_last_record_end st \<noteq> None \<Longrightarrow> lre \<noteq> None"
proof (induction acc buf rem tot n head s st rule: cursor_drain.induct)
  case (1 acc buf rem tot n head s st)
  show ?case
  proof (cases "0 < n \<and> n \<le> length (bounds st) - head")
    case False
    from 1(2)[unfolded cursor_drain.simps[of acc buf rem tot n head s st] if_not_P[OF False]] 1(3) show ?thesis by simp
  next
    case True
    note run = 1(2)[unfolded cursor_drain.simps[of acc buf rem tot n head s st] if_P[OF True]]
    obtain cs lrs s1 where em: "emit_records acc buf head 1 n (cell_start st) s st = Inr (cs, lrs, s1)"
      using run by (auto split: sum.splits)
    show ?thesis
    proof (cases "rem < cs")
      case stop: True
      then show ?thesis using run unfolding em by auto
    next
      case go: False
      show ?thesis
        by (rule 1(1)[OF True em refl refl refl refl go]) (use run go in \<open>simp_all add: em[simplified]\<close>)
    qed
  qed
qed

text \<open>The input as the machine would see it with its last record closed.\<close>

definition closed_input :: "Config \<Rightarrow> CursorStepper \<Rightarrow> byte list \<Rightarrow> byte list" where
  "closed_input c st buf = (if buf \<noteq> [] \<and> \<not> terminates c (last buf) then buf @ [term_a st] else buf)"

lemma closed_input_facts:
  assumes "set_up c n st"
  shows "closed_input c st buf = [] \<or> terminates c (last (closed_input c st buf))"
    and "length buf \<le> length (closed_input c st buf)" "length (closed_input c st buf) \<le> length buf + 1"
    and "k < length buf \<Longrightarrow> closed_input c st buf ! k = buf ! k"
    and "agree_but_last (length (closed_input c st buf)) (closed_input c st buf) buf"
    and "k < length buf \<Longrightarrow> is_bound c (closed_input c st buf) k = is_bound c buf k"
  using set_up_terminates(1)[OF assms, of "term_a st"]
  by (auto simp: closed_input_def agree_but_last_def nth_append is_term_def is_bound_snoc)

lemma in_pass_closed:
  assumes ip: "in_pass c n buf 0 pos held m st" and "cell_start st = 0" and "pos \<le> length buf"
  shows "in_pass c n (closed_input c st buf) 0 pos held m st"
proof -
  let ?xs = "closed_input c st buf"
  have su: "set_up c n st" using ip by (simp add: in_pass_def)
  note cl = closed_input_facts[OF su, where buf = buf]
  obtain pub where pub: "pub \<le> pos" "published c n buf 0 pub st" "holds_from c buf pub pos held"
    using ip by (auto simp: in_pass_def)
  have le: "pub \<le> length buf" using pub(1) assms(3) by simp
  have bd: "bounds_in c ?xs 0 pub = bounds_in c buf 0 pub"
    using cl(6) le by (auto simp: bounds_in_def intro!: filter_cong)
  have bs: "bounds st = bounds_in c buf 0 pub" using pub(2) assms(2) by (simp add: published_def collected_def)
  have kd: "kinds c ?xs (bounds st) = kinds c buf (bounds st)"
    unfolding bs using cl(4) le by (auto simp: kinds_def bounds_in_def)
  have "collected c n ?xs 0 pub (bounds st) (has_runs st)"
    unfolding collected_def kd
  proof (intro conjI impI allI)
    assume "0 < length ?xs"
    then have "0 < length buf" by (auto simp: closed_input_def split: if_splits)
    then show "\<not> terminates c (?xs ! 0)" using pub(2) assms(2) cl(4) by (simp add: published_def collected_def)
  next
    fix k assume "\<not> has_runs st" "0 \<le> k \<and> k < pub \<and> terminates c (?xs ! k)"
    then show "is_bound c ?xs k" using pub(2) assms(2) cl(4,6) le by (auto simp: published_def collected_def)
  qed (use pub(2) assms(2) le cl(2) bd in \<open>auto simp: published_def collected_def\<close>)
  then have "published c n ?xs 0 pub st" using pub(2) assms(2) by (simp add: published_def kd)
  moreover have "holds_from c ?xs pub pos held"
  proof -
    have "lanes_of P ?xs off pub pos w \<longleftrightarrow> lanes_of P buf off pub pos w" for P off w
    proof -
      have nth: "?xs ! (pub + (i - off)) = buf ! (pub + (i - off))" if "off \<le> i" "i < off + (pos - pub)" for i
        using that assms(3) pub(1) by (intro cl(4)) linarith
      have "(off \<le> i \<and> i < off + (pos - pub) \<and> P (?xs ! (pub + (i - off)))) =
          (off \<le> i \<and> i < off + (pos - pub) \<and> P (buf ! (pub + (i - off))))" for i
        by (intro conj_cong refl) (simp only: nth)
      then show ?thesis unfolding lanes_of_def by simp
    qed
    then have "held_vector c ?xs off pub pos p" if "held_vector c buf off pub pos p" for off p
      using that cl(2) unfolding held_vector_def by (cases p) auto
    then show ?thesis using pub(3) unfolding holds_from_def by (cases held) (simp_all, blast)
  qed
  ultimately show ?thesis using ip pub(1) by (auto simp: in_pass_def)
qed

lemma spec_rest_closed:
  fixes acc :: "('s, 'u) accumulator"
  assumes "plain c n" and "set_up c n st" and "at_record m"
  shows "spec_rest c acc L p (closed_input c st buf) m = spec_rest c acc L p buf m"
  using virtual_terminator[OF assms(1,3), of buf "term_a st" acc L p] set_up_terminates(1)[OF assms(2), of "term_a st"]
  by (auto simp: closed_input_def is_term_def)

lemma cursor_resolve_held:
  "(cursor_resolve I buf tot held nxt st :: 'u Error + CursorStepper) =
    (case publish_held I held nxt st of (True, st') \<Rightarrow> Inr st' | (False, st') \<Rightarrow> Inl (arity_error st' buf tot))"
  by (cases held) (simp_all add: publish_held_def cursor_resolve_publish, simp add: cursor_resolve_def)

context lawful_isa begin

lemma cursor_tail_ok:
  assumes su: "set_up c n st" and "pos \<le> length buf" and "length buf - pos < 64"
  defines "xs \<equiv> closed_input c st buf"
  shows "case cursor_tail I buf pos (length buf) st of
      None \<Rightarrow> pos = length xs
    | Some (d, t, base) \<Rightarrow> held_vector c xs 0 pos (length xs) (d, t, base) \<and>
        (t AND 1 \<noteq> 0 \<longleftrightarrow> pos < length xs \<and> terminates c (xs ! pos))"
proof -
  define virt where "virt = (0 < length buf \<and> \<not> is_term st (buf ! (length buf - 1)))"
  have virt: "virt \<longleftrightarrow> buf \<noteq> [] \<and> \<not> terminates c (last buf)"
    by (auto simp: virt_def set_up_terminates(1)[OF su] last_conv_nth)
  have xs: "xs = (if virt then buf @ [term_a st] else buf)" by (simp add: xs_def closed_input_def virt)
  define pad where "pad = the (neutral_pad (delim st) (term_a st) (term_b st) None)"
  define real where "real = length buf - pos"
  note unf = cursor_tail_def[of I buf pos "length buf" st, folded virt_def pad_def real_def, unfolded Let_def, folded virt_def pad_def real_def]
  show ?thesis
  proof (cases "0 < real \<or> virt")
    case False
    then have "cursor_tail I buf pos (length buf) st = None" using unf by simp
    then show ?thesis using False assms(2) by (simp add: xs real_def)
  next
    case True
    define v0 where "v0 = subslice buf pos (length buf) @ replicate (VECTOR_BYTES - real) pad"
    define v where "v = (if virt then v0[real := term_a st] else v0)"
    define s where "s = match_structural I v (delim st) (term_a st) (term_b st) None"
    have tail: "cursor_tail I buf pos (length buf) st = Some (delim_bits s, term_bits s, of_nat pos)"
      using unf True by (simp add: v0_def v_def s_def)
    have lr: "length (subslice buf pos (length buf)) = real" by (simp add: real_def)
    have real: "real < 64" using assms(3) by (simp add: real_def)
    have len0: "length v0 = 64" using real lr by (simp add: v0_def VECTOR_BYTES_def)
    have len: "length v = 64" using len0 by (simp add: v_def)
    have v0: "v0 ! i = (if i < real then buf ! (pos + i) else pad)" if "i < 64" for i
      using that real lr slice_nth[of pos i "length buf" buf] by (auto simp: v0_def VECTOR_BYTES_def nth_append real_def)
    have xlen: "length xs - pos = (if virt then real + 1 else real)" using assms(2) by (simp add: xs real_def Suc_diff_le)
    have le: "pos \<le> length xs" "length xs \<le> length xs" "0 + (length xs - pos) \<le> 64"
      using assms(2) real unfolding xlen by (simp_all add: xs)
    have lanes: "if 0 \<le> i \<and> i < 0 + (length xs - pos) then v ! i = xs ! (pos + (i - 0)) else content c (v ! i)" if i: "i < 64" for i
    proof -
      have pad: "content c pad" using pad_content[OF su] by (simp add: pad_def)
      consider "i < real" | "i = real" | "real < i" by linarith
      then show ?thesis
      proof cases
        case 1
        then have "v ! i = buf ! (pos + i)" "xs ! (pos + i) = buf ! (pos + i)"
          using v0[OF i] by (auto simp: v_def xs nth_append real_def)
        then show ?thesis using 1 unfolding xlen by simp
      next
        case 2
        then show ?thesis
          using v0[OF i] pad len0 real assms(2) unfolding xlen by (auto simp: v_def xs nth_append real_def)
      next
        case 3
        then show ?thesis using v0[OF i] pad unfolding xlen by (auto simp: v_def)
      qed
    qed
    have base: "(of_nat pos :: u64) + of_nat 0 = of_nat pos" by simp
    note vh = vector_held[OF su len le base lanes s_def[symmetric]]
    have pl: "pos < length xs" using True xlen by (cases virt) auto
    then have "v ! 0 = xs ! pos" using lanes[of 0] by simp
    then show ?thesis using vh pl unfolding tail by simp
  qed
qed

lemma cursor_finalize_ok:
  fixes acc :: "('s, 'u) accumulator"
  assumes "plain c n" and rel: "cursor_rel c n buf tot 0 pos (length buf) st m" and "length buf < 2 ^ 63"
    and "try_bind (cursor_finalize I acc \<lparr>ctx_buf = buf, scan_start = pos, scan_end = length buf,
        remaining_in_chunk = L - tot, total_consumed = tot\<rparr> (m_acc m) st)
        (\<lambda>(lre, s). Inr (case lre of Some x \<Rightarrow> Some x | None \<Rightarrow> m_last_end m, s)) = out"
  shows "out = spec_rest c acc L tot buf m \<or> (\<exists>err. out = Inl err \<and> arity_ahead c tot buf m err)"
proof -
  have pos: "pos \<le> length buf" "length buf - pos < 64" and cs: "cell_start st = 0" and ip: "in_pass c n buf 0 pos (pending st) m st"
    using rel by (simp_all add: cursor_rel_def)
  have su: "set_up c n st" and at: "at_record m" "cs_last_record_end st = m_last_end m" using ip by (simp_all add: in_pass_def)
  let ?ctx = "\<lparr>ctx_buf = buf, scan_start = pos, scan_end = length buf, remaining_in_chunk = L - tot, total_consumed = tot\<rparr>"
  show ?thesis
  proof (cases "length buf = 0 \<and> pos = 0 \<and> pending st = None")
    case True
    then have "cursor_finalize I acc ?ctx (m_acc m) st = Inr (cs_last_record_end st, m_acc m)"
      by (simp add: cursor_finalize_def Let_def)
    then have "out = Inr (m_last_end m, m_acc m)" using assms(4) at(2) by (auto split: option.splits)
    then show ?thesis using True at(1) by (simp add: spec_finish_def at_record_def)
  next
    case False
    define xs where "xs = closed_input c st buf"
    note cl = closed_input_facts[OF su, where buf = buf, folded xs_def]
    have len: "length xs < 2 ^ 64" using cl(3) assms(3) by simp
    define st0 where "st0 = st\<lparr>pending := None\<rparr>"
    have ip0: "in_pass c n xs 0 pos (pending st) m st0"
      using in_pass_closed[OF ip cs pos(1)] unfolding xs_def st0_def by (rule in_pass_cong) (auto simp: in_pass_def published_def)
    have cs0: "cell_start st0 = 0" using cs by (simp add: st0_def)
    define tl where "tl = cursor_tail I buf pos (length buf) st"
    define nxt where "nxt = (case tl of Some (_, t, _) \<Rightarrow> t AND 1 \<noteq> 0 | None \<Rightarrow> False)"
    note tok = cursor_tail_ok[OF su pos, folded tl_def xs_def]
    have nxt: "nxt \<longleftrightarrow> pos < length xs \<and> terminates c (xs ! pos)"
      using tok by (auto simp: nxt_def split: option.splits)
    have ends: "xs \<noteq> [] \<Longrightarrow> buf \<noteq> [] \<and> \<not> terminates c (buf ! 0) \<and>
        (xs = buf \<and> terminates c (last buf) \<or> xs = buf @ [term_a st] \<and> terminates c (term_a st) \<and> \<not> terminates c (last buf))"
      using ip cs set_up_terminates(1)[OF su, of "term_a st"]
      by (auto simp: xs_def closed_input_def in_pass_def published_def collected_def is_term_def split: if_splits)
    have bad: "arity_ahead c tot buf m (arity_error st' buf tot :: 'u Error)"
      if "count_fields n 0 (kinds c xs (bounds_in c xs 0 k)) = None" "k \<le> length xs" "set_up c n st'" "cell_start st' = 0" for k st'
    proof -
      have none: "count_fields n 0 (kinds c xs (bounds_in c xs (cell_start st') (length xs))) = None"
        using count_fields_cut[OF that(1,2)] that(4) by simp
      then have "xs \<noteq> []" by (auto simp: bounds_in_def kinds_def)
      note en = ends[OF this]
      have "cell_start st' < length buf" "\<not> terminates c (buf ! cell_start st')" using en that(4) by auto
      from arity_error_at_end[OF assms(1) that(3) at(1) this _ none refl, of "term_a st" tot] en
      show ?thesis by (simp add: that(4))
    qed
    note unf = assms(4)[unfolded cursor_finalize_def StepCtx.select_convs Let_def if_not_P[OF False], folded tl_def st0_def, folded nxt_def]
    obtain ok1 st1 where p1: "publish_held I (pending st) nxt st0 = (ok1, st1)" by fastforce
    note po1 = publish_held_ok[OF assms(1) ip0 len nxt p1]
    have st1: "cell_start st1 = 0" "cs_last_record_end st1 = m_last_end m" "set_up c n st1"
      using po1 cs0 at(2) by (simp_all add: stays_def st0_def)
    show ?thesis
    proof (cases ok1)
      case False
      then have "out = Inl (arity_error st1 buf tot)" using unf p1 by (simp add: cursor_resolve_held)
      moreover have "count_fields n 0 (kinds c xs (bounds_in c xs 0 pos)) = None" using po1 False cs0 by simp
      ultimately show ?thesis using bad[OF _ _ st1(3,1)] pos(1) cl(2) by auto
    next
      case True
      have pub1: "published c n xs 0 pos st1" using po1 True by simp
      obtain ok2 st2 where p2: "publish_held I tl False st1 = (ok2, st2)" by fastforce
      have po2: "set_up c n st2 \<and> stays st1 st2 \<and> (if ok2 then published c n xs 0 (length xs) st2 else
          count_fields n 0 (kinds c xs (bounds_in c xs (cell_start st1) (length xs))) = None)"
      proof (cases tl)
        case None
        then have "pos = length xs" using tok by simp
        then show ?thesis using p2 None pub1 st1 by (auto simp: publish_held_def stays_def)
      next
        case (Some p)
        then have held: "held_vector c xs 0 pos (length xs) p" using tok by (cases p) auto
        have "follows c xs 0 pos (length xs) False" by (simp add: follows_def)
        from publish_ok[OF assms(1) st1(3) pub1 held this len] p2 Some show ?thesis by (simp add: publish_held_def)
      qed
      have st2: "cell_start st2 = 0" "cs_last_record_end st2 = m_last_end m" "set_up c n st2"
        using po2 st1 by (simp_all add: stays_def)
      show ?thesis
      proof (cases ok2)
        case False
        then have "out = Inl (arity_error st2 buf tot)" using unf p1 p2 True by (simp add: cursor_resolve_held)
        moreover have "count_fields n 0 (kinds c xs (bounds_in c xs 0 (length xs))) = None" using po2 False st1 by simp
        ultimately show ?thesis using bad[OF _ _ st2(3,1)] by auto
      next
        case ok2: True
        have fc: "fc_n (field_counter st2) = n" using st2(3) by (simp add: set_up_def)
        have "collected c n xs (cell_start st2) (length xs) (drop 0 (bounds st2)) (has_runs st2)"
          using po2 ok2 by (simp add: published_def)
        from cursor_drain_ok[OF assms(1) cl(5,1) st2(3) this at(1) st2(2), of acc L tot]
        have drain: "cursor_drain acc buf (L - tot) tot n 0 (m_acc m) st2 = spec_rest c acc L tot xs m"
          by (simp add: st2(1))
        have out: "out = try_bind (spec_rest c acc L tot xs m) (\<lambda>(lre, s). Inr (case lre of Some x \<Rightarrow> Some x | None \<Rightarrow> m_last_end m, s))"
          using unf p1 p2 True ok2 by (simp add: cursor_resolve_held fc drain)
        have "out = spec_rest c acc L tot xs m"
        proof (cases "spec_rest c acc L tot xs m")
          case (Inr r)
          obtain lre s where r: "r = (lre, s)" by fastforce
          have "lre = None \<Longrightarrow> m_last_end m = None"
            using drain_end_kept[OF drain[unfolded Inr r]] st2(2) by (cases "m_last_end m") auto
          then show ?thesis unfolding out Inr r by (auto split: option.splits)
        qed (simp add: out)
        then show ?thesis using spec_rest_closed[OF assms(1) su at(1), of acc L tot buf] by (simp add: xs_def)
      qed
    qed
  qed
qed

end

end
