(* ===== verification/IndexDrain.thy ===== *)
theory IndexDrain
  imports IndexClose IndexPass CursorEnd
begin

text \<open>
  The records left at the end of the input, handed over one at a time: the reference machine's run over the closed
  input. Once all boundaries are verified, no record is left incomplete.
\<close>

section \<open>No record left over\<close>

lemma end_exists:
  assumes q: "quoting c n cfg" and st: "start_at cfg ws i" and d: "i \<le> d" "close_at cfg ws d" "d < b"
  shows "ends_in cfg ws i b \<noteq> []"
proof -
  define x where "x = (LEAST x. i \<le> x \<and> close_at cfg ws x)"
  have ex: "\<exists>x. i \<le> x \<and> close_at cfg ws x" using d by blast
  have x: "i \<le> x" "close_at cfg ws x" using LeastI_ex[OF ex] unfolding x_def by blast+
  have xd: "x \<le> d" unfolding x_def using d by (intro Least_le) simp
  have before: "\<not> close_at cfg ws k" if "i \<le> k" "k < x" for k
    using not_less_Least[of k "\<lambda>x. i \<le> x \<and> close_at cfg ws x"] that unfolding x_def by blast
  have "\<not> (term_at cfg ws x \<and> 0 < x \<and> term_at cfg ws (x - 1))"
  proof (cases "x = i")
    case True
    then show ?thesis using st by (auto simp: start_at_def)
  next
    case False
    then show ?thesis using before[of "x - 1"] x(1) by (auto simp: close_at_def)
  qed
  then have fc: "field_close_at cfg ws x" using x(2) by (auto simp: close_at_def field_close_at_def)
  have f: "field_at cfg ws i x" using x(1) fc before st by (auto simp: field_at_def start_at_def)
  have "end_at cfg ws (field_fin cfg ws x)" using fc by (auto simp: field_fin_def end_at_def)
  moreover have "i \<le> field_fin cfg ws x" "field_fin cfg ws x < b" using field_begin_le[OF q f] xd d(3) by simp_all
  ultimately show ?thesis by (auto simp: ends_in_def filter_empty_conv)
qed

lemma listed_rest:
  assumes q: "quoting c n cfg" and li: "listed n 0 cfg ws P first i bs es" and few: "length es < n"
    and none: "\<And>k. P \<le> k \<Longrightarrow> \<not> close_at cfg ws k"
  shows "\<not> (i \<le> d \<and> close_at cfg ws d)"
proof
  assume d: "i \<le> d \<and> close_at cfg ws d"
  then have dP: "d < P" using none by (meson not_le)
  have pl: "placed first cfg ws i" and ends: "ends_in cfg ws i P = es" and count: "count_fields n 0 (kinds_in cfg ws i P) = Some 0"
    using li by (simp_all add: listed_def)
  have "es \<noteq> []" using end_exists[OF q conjunct1[OF pl[unfolded placed_def]]] d dP ends by blast
  then obtain ds e where es: "es = ds @ [e]" by (metis rev_exhaust)
  define m where "m = (spec_init 0 ())\<lparr>m_state := FieldStart\<rparr>"
  have m: "m_state m = FieldStart" "m_cur m = []" by (simp_all add: m_def spec_init_def)
  have short: "0 + length ds \<le> n - 1" "length ds + 1 < n" using few es by simp_all
  from quoted_fields[OF q pl ends[unfolded es] count short(1) m, of "filter (removed_at cfg ws) [i..<P]" accept_all 0 0] obtain i' where
    i': "placed (first \<and> ds = []) cfg ws i'" "ends_in cfg ws i' P = [e]" "count_fields n (length ds) (kinds_in cfg ws i' P) = Some 0"
    by auto
  obtain x where x: "field_at cfg ws i' x" "[] = ends_in cfg ws (x + 1) P"
    using ends_first[OF q conjunct1[OF i'(1)[unfolded placed_def]] i'(2)] by blast
  have ix: "i' \<le> x" "close_at cfg ws x" using x(1) by (auto simp: field_at_def intro: field_close_closes)
  have xP: "x < P" using none ix(2) by (meson not_le)
  show False
  proof (cases "delim_at cfg ws x")
    case True
    then have s: "struct_at cfg ws x" "\<not> term_at cfg ws x" using term_not_delim[OF q] by (auto simp: struct_at_def)
    have "kinds_in cfg ws i' P = False # kinds_in cfg ws (x + 1) P"
      using kinds_struct[OF ix(1) xP s(1) field_no_struct[OF x(1)]] s(2) by simp
    then have "count_fields n (length ds + 1) (kinds_in cfg ws (x + 1) P) = Some 0" using i'(3) by (auto split: if_splits)
    then have "kinds_in cfg ws (x + 1) P \<noteq> []" by auto
    then obtain y where y: "x + 1 \<le> y" "y < P" "struct_at cfg ws y" by (auto simp: kinds_in_def structs_in_def filter_empty_conv)
    from end_exists[OF q start_after_struct[OF q s(1)] y(1) struct_closes[OF y(3)] y(2)] x(2) show False by simp
  next
    case False
    then have t: "term_at cfg ws x" using ix(2) by (simp add: close_at_def)
    have "\<exists>y. x \<le> y \<and> y < P \<and> struct_at cfg ws y"
    proof (rule ccontr)
      assume "\<not> ?thesis"
      then have ns: "\<And>k. x \<le> k \<Longrightarrow> k < P \<Longrightarrow> \<not> struct_at cfg ws k" by blast
      have "term_at cfg ws P" using term_chain[OF t ns, where k = P] xP by simp
      then show False using none[of P] by (simp add: close_at_def)
    qed
    then have ex: "\<exists>y. x \<le> y \<and> y < P \<and> struct_at cfg ws y" .
    define y where "y = (LEAST y. x \<le> y \<and> y < P \<and> struct_at cfg ws y)"
    have y: "x \<le> y" "y < P" "struct_at cfg ws y" using LeastI_ex[OF ex] unfolding y_def by blast+
    have ns: "\<not> struct_at cfg ws k" if "x \<le> k" "k < y" for k
      using not_less_Least[of k "\<lambda>y. x \<le> y \<and> y < P \<and> struct_at cfg ws y"] that y(2) unfolding y_def[symmetric] by auto
    have ns': "\<not> struct_at cfg ws k" if "i' \<le> k" "k < y" for k
      using ns[of k] field_no_struct[OF x(1), of k] that by (cases "k < x") auto
    have "term_at cfg ws y" using term_chain[OF t ns, where k = y] y(1) by simp
    moreover have "i' \<le> y" using ix(1) y(1) by simp
    from kinds_struct[OF this y(2,3) ns'] have "kinds_in cfg ws i' P = term_at cfg ws y # kinds_in cfg ws (y + 1) P" .
    ultimately show False using i'(3) short(2) by (auto split: if_splits)
  qed
qed

section \<open>The drain\<close>

text \<open>The closed input \<open>zs\<close>: the buffer, and the virtual terminator if its last record has none.\<close>

definition closed_as :: "Config \<Rightarrow> byte list \<Rightarrow> byte list \<Rightarrow> nat \<Rightarrow> byte list \<Rightarrow> bool" where
  "closed_as c pre zs e ws \<longleftrightarrow> (\<exists>pads. ws = pre @ zs @ pads \<and> (\<forall>b\<in>set pads. inert c b)) \<and> e \<le> length zs \<and> length zs \<le> e + 1 \<and>
     (length zs = e + 1 \<longrightarrow> 0 < e \<and> \<not> terminates c (zs ! (e - 1))) \<and>
     (zs \<noteq> [] \<longrightarrow> term_at (scan_config c) ws (length pre + length zs - 1)) \<and>
     (\<forall>k. length pre + length zs \<le> k \<longrightarrow> \<not> close_at (scan_config c) ws k)"

lemma closed_as_at:
  assumes "closed_as c pre zs e ws" and "k < length zs"
  shows "ws ! (length pre + k) = zs ! k"
  using assms by (auto simp: closed_as_def nth_append)

lemma closed_as_behind:
  assumes "closed_as c pre zs e ws" and "length pre + length zs < length ws"
  shows "\<not> terminates c (ws ! (length pre + length zs))"
proof -
  obtain pads where p: "ws = pre @ zs @ pads" "\<forall>b\<in>set pads. inert c b" using assms(1) by (auto simp: closed_as_def)
  then have "pads \<noteq> []" using assms(2) by auto
  then obtain b ps where "pads = b # ps" by (cases pads) auto
  then show ?thesis using p by (auto simp: nth_append inert_def content_def)
qed

text \<open>The run of terminators the drain walks to behind the last field's end at \<open>x\<close>.\<close>

lemma drain_run:
  assumes q: "quoting c n (scan_config c)" and is_term: "\<And>b. ix_is_term st b \<longleftrightarrow> terminates c b"
    and cl: "closed_as c pre zs e ws" and len: "length buf = e" and same: "\<forall>k. x \<le> k \<and> k < e \<longrightarrow> buf ! k = zs ! k"
    and x: "end_at (scan_config c) ws (length pre + x)"
  defines "r \<equiv> walk_while (\<lambda>p. \<not> ix_is_term st (buf ! p)) e x"
  defines "b \<equiv> walk_while (\<lambda>p. ix_is_term st (buf ! (p + 1))) (e - 1) r"
  shows "run_at c ws (length pre + x) (length pre + r) (length pre + b)" "r \<le> e" "b < length zs" "run_over c ws (length pre + (e + 1)) (length pre + b)"
proof -
  let ?cfg = "scan_config c" and ?g = "length pre"
  obtain pads where ws: "ws = pre @ zs @ pads" using cl by (auto simp: closed_as_def)
  have zl: "e \<le> length zs" "length zs \<le> e + 1" using cl by (simp_all add: closed_as_def)
  have xz: "x < length zs"
  proof -
    have "\<exists>k. ?g + x \<le> k \<and> k \<le> ?g + x + 1 \<and> close_at ?cfg ws k" using x
      by (auto simp: end_at_def closer_at_def intro: field_close_closes le_SucI)
    then obtain k where "?g + x \<le> k" "close_at ?cfg ws k" by blast
    moreover have "\<not> ?g + length zs \<le> k" using calculation(2) cl unfolding closed_as_def by blast
    ultimately show ?thesis by simp
  qed
  then have ne: "zs \<noteq> []" by auto
  have last: "terminates c (zs ! (length zs - 1))"
  proof -
    have "term_at ?cfg ws (?g + length zs - 1)" using cl ne unfolding closed_as_def by blast
    then have "terminates c (ws ! (?g + length zs - 1))" using quoting_at(3)[OF q] by blast
    moreover have "?g + length zs - 1 = ?g + (length zs - 1)" using xz by simp
    moreover have "ws ! (?g + (length zs - 1)) = zs ! (length zs - 1)" using xz by (intro closed_as_at[OF cl]) simp
    ultimately show ?thesis by simp
  qed
  note w1 = walk_while_spec[OF meta_eq_to_obj_eq[OF r_def[symmetric]], unfolded is_term]
  note w2 = walk_while_spec[OF meta_eq_to_obj_eq[OF b_def[symmetric]], unfolded is_term]
  have re: "r \<le> e" using w1 xz zl by (auto simp: max_def split: if_splits)
  have notz: "\<not> terminates c (zs ! k)" if "x \<le> k" "k < r" for k
  proof -
    have "\<not> terminates c (buf ! k)" using w1 that by blast
    moreover have "k < e" using that re by simp
    ultimately show ?thesis using same that(1) by simp
  qed
  have rz: "r < length zs \<and> terminates c (zs ! r)"
  proof (cases "r < e")
    case True
    then show ?thesis using w1 same zl by auto
  next
    case False
    then have r: "r = e" using re by simp
    have "\<not> length zs - 1 < e"
    proof
      assume "length zs - 1 < e"
      moreover have "x \<le> length zs - 1" using xz by simp
      ultimately show False using notz[of "length zs - 1"] last r by simp
    qed
    then have "length zs - 1 = e" using zl by linarith
    then show ?thesis using r last xz by simp
  qed
  have be: "r \<le> b" "b \<le> max r (e - 1)" using w2 by auto
  have run: "terminates c (zs ! k) \<and> k < length zs" if "r \<le> k" "k \<le> b" for k
  proof (cases "k = r")
    case True
    then show ?thesis using rz by simp
  next
    case False
    then have k: "r \<le> k - 1" "k - 1 < b" "k - 1 + 1 = k" using that by simp_all
    then have "terminates c (buf ! k)" using w2 by metis
    moreover have "k < e" using k be re that by (auto simp: max_def split: if_splits)
    ultimately show ?thesis using same w1 that(1) zl by auto
  qed
  have bz: "b < length zs" using run[of b] be by simp
  have at: "ws ! k = zs ! (k - ?g)" if "?g \<le> k" "k - ?g < length zs" for k
    using closed_as_at[OF cl that(2)] that(1) by simp
  show "run_at c ws (?g + x) (?g + r) (?g + b)"
    unfolding run_at_def
  proof (intro conjI allI impI)
    fix k assume k: "?g + x \<le> k \<and> k < ?g + r"
    then have "x \<le> k - ?g" "k - ?g < r" by linarith+
    then show "\<not> terminates c (ws ! k)" using notz at[of k] k rz by auto
  next
    fix k assume k: "?g + r \<le> k \<and> k \<le> ?g + b"
    then have "r \<le> k - ?g" "k - ?g \<le> b" by linarith+
    then show "terminates c (ws ! k)" using run[of "k - ?g"] at[of k] k by auto
  qed (use w1 be bz ws in auto)
  show "r \<le> e" "b < length zs" by (rule re, rule bz)
  have "\<not> terminates c (ws ! (?g + b + 1))" if nx: "?g + b + 1 < length ws"
  proof (cases "b + 1 < length zs")
    case True
    have "b + 1 < e"
    proof (rule ccontr)
      assume "\<not> b + 1 < e"
      then have l: "length zs = e + 1" "b = e - 1" using True zl by simp_all
      then have "\<not> terminates c (zs ! b)" using cl by (simp add: closed_as_def)
      then show False using run[of b] be by simp
    qed
    then have "b < e - 1" by simp
    then have "\<not> terminates c (buf ! (b + 1))" using w2 by simp
    then have "\<not> terminates c (zs ! (b + 1))" using same \<open>b + 1 < e\<close> be w1 by simp
    then show ?thesis using closed_as_at[OF cl True] by (simp add: add.assoc)
  next
    case False
    then have eq: "?g + b + 1 = ?g + length zs" using bz by simp
    show ?thesis using closed_as_behind[OF cl] nx unfolding eq by simp
  qed
  then show "run_over c ws (?g + (e + 1)) (?g + b)" using bz zl by (simp add: run_over_def)
qed

lemma ix_drain_ok:
  fixes acc :: "('s, 'u) accumulator"
  assumes q: "quoting c n (scan_config c)" and cl: "closed_as c pre zs e ws" and is_term: "\<And>b. ix_is_term st b \<longleftrightarrow> terminates c b"
    and "length buf = e" and "\<And>k. ix_record_start st \<le> k \<Longrightarrow> k < e \<Longrightarrow> buf ! k = zs ! k" and "ix_record_start st \<le> length zs"
    and "indexed c n 0 ws (length pre) (length pre + (e + 1)) first head r_head st"
    and "at_record m" "ix_last_record_end st = m_last_end m"
  shows "ix_drain acc buf e (L - tot) tot n head r_head (m_acc m) st =
    spec_rest c acc L (tot + ix_record_start st) (drop (ix_record_start st) zs) m"
  using assms(3-)
proof (induction "length (e_offs st) - head" arbitrary: buf head r_head first m st rule: less_induct)
  case less
  let ?cfg = "scan_config c" and ?g = "length pre" and ?R = "ix_record_start st" and ?P = "length pre + (e + 1)"
  note is_term = less.prems(1) and len = less.prems(2) and same = less.prems(3) and ix = less.prems(5) and at = less.prems(6,7)
  note ix' = ix[unfolded indexed_def]
  have n: "0 < n" by (rule n_pos[OF q])
  obtain pads where ws: "ws = pre @ zs @ pads" using cl by (auto simp: closed_as_def)
  have zl: "e \<le> length zs" "length zs \<le> e + 1" using cl by (simp_all add: closed_as_def)
  have none: "\<not> close_at ?cfg ws k" if "?P \<le> k" for k
  proof -
    have "?g + length zs \<le> k" using that zl by simp
    then show ?thesis using cl unfolding closed_as_def by blast
  qed
  let ?bs = "drop head (b_offs st)" and ?es = "drop head (e_offs st)" and ?rs = "drop r_head (r_offs st)"
  have li: "listed n 0 ?cfg ws ?P first (?g + ?R) (map ((+) ?g) ?bs) (map ((+) ?g) ?es)" using ix' by blast
  show ?case
  proof (cases "n \<le> length (e_offs st) - head")
    case False
    then have drain: "ix_drain acc buf e (L - tot) tot n head r_head (m_acc m) st = Inr (ix_last_record_end st, m_acc m)"
      by (simp add: ix_drain.simps[of acc buf e "L - tot" tot n head])
    have "?R = length zs"
    proof (rule ccontr)
      assume "?R \<noteq> length zs"
      then have lt: "?R < length zs" using less.prems(4) by simp
      then have "zs \<noteq> []" by auto
      then have "term_at ?cfg ws (?g + length zs - 1)" using cl unfolding closed_as_def by blast
      then have "close_at ?cfg ws (?g + length zs - 1)" by (simp add: close_at_def)
      moreover have "?g + ?R \<le> ?g + length zs - 1" using lt by simp
      moreover have "length (map ((+) ?g) ?es) < n" using False by simp
      ultimately show False using listed_rest[OF q li _ none] by blast
    qed
    then show ?thesis unfolding drain using at by (simp add: spec_finish_def at_record_def)
  next
    case True
    have go: "0 < n \<and> n \<le> length (e_offs st) - head" using n True by simp
    define x where "x = e_offs st ! (head + n - 1)"
    define r where "r = walk_while (\<lambda>p. \<not> ix_is_term st (buf ! p)) e x"
    define b where "b = walk_while (\<lambda>p. ix_is_term st (buf ! (p + 1))) (e - 1) r"
    have x_nth: "map ((+) ?g) ?es ! (n - 1) = ?g + x"
    proof -
      have "?es ! (n - 1) = e_offs st ! (head + (n - 1))" using True n by (intro nth_drop) linarith
      moreover have "head + (n - 1) = head + n - 1" using n by simp
      moreover have "n - 1 < length ?es" using go by (simp only: length_drop) linarith
      ultimately show ?thesis unfolding x_def by (simp only: nth_map)
    qed
    have efit: "n \<le> length (map ((+) ?g) ?es)" using True by simp
    have "map ((+) ?g) ?es ! (n - 1) \<in> set (map ((+) ?g) ?es)" using efit n by (intro nth_mem) simp
    then have "?g + x \<in> set (ends_in ?cfg ws (?g + ?R) ?P)" using li unfolding x_nth listed_def by metis
    then have x: "?R \<le> x" "end_at ?cfg ws (?g + x)" by (auto simp: ends_in_def)
    have same_x: "\<forall>k. x \<le> k \<and> k < e \<longrightarrow> buf ! k = zs ! k" using same x(1) by simp
    note run = drain_run[OF q is_term cl len same_x x(2), folded r_def, folded b_def]
    have xr: "x \<le> r" "r \<le> b" using run(1) by (simp_all add: run_at_def)
    have rP: "?g + r < ?P" using run(2) by simp
    have first: "\<not> terminates c (ws ! (?g + ?R))"
    proof -
      have "?g + ?R < length ws" using x(1) end_at_length[OF x(2)] by simp
      then show ?thesis using ix' by blast
    qed
    have mr: "marks_removed ?cfg ws (map ((+) ?g) ?rs) (?g + ?R) ?P"
    proof -
      have eq: "map ((+) ?g) ?rs = filter (removed_at ?cfg ws) [?g + ?R..<?P]" using ix' by blast
      show ?thesis unfolding marks_removed_def eq set_filter set_upt by (simp only: mem_Collect_eq atLeastLessThan_iff) blast
    qed
    note rec = listed_record[OF q li efit at(1) first mr run(1)[folded x_nth] rP]
    let ?fs = "zip (map ((+) ?g) ?bs) (map ((+) ?g) ?es)"
    let ?rec = "map (\<lambda>(b, e). kept (map ((+) ?g) ?rs) ws b e) (take n ?fs)"
    have bfit: "n \<le> length ?bs" "n \<le> length ?es" using rec(1) True by simp_all
    have bytes: "buf ! j = ws ! (?g + j)" if "?R \<le> j" "j < r" for j
      using same[OF that(1)] closed_as_at[OF cl, of j] that(2) run(2) zl by simp
    have r_le: "r \<le> length buf" using run(2) len by simp
    have one: "1 * n \<le> length ?bs" "1 * n \<le> length ?es" using bfit by simp_all
    have "spans_in (?g + ?R) (take (1 * n) ?fs) (?g + r)" using rec(2) by simp
    from indexed_assemble[OF q ix this r_le bytes one, of acc "m_acc m"] obtain buf1 where
      asm: "assemble_records_fixed acc buf n ?bs ?es ?rs 1 (m_acc m) = Some (acc (m_acc m) ?rec, buf1)"
      and out: "same_outside buf buf1 ?R r"
      by (auto simp: hand_records_one simp del: hand_records.simps)
    have h: "handed c acc L (tot + ?R) ws (?g + ?R) m (?g + r) (?g + b) (acc (m_acc m) ?rec)" by (rule rec(5))
    have pos: "tot + ?R + (?g + b - (?g + ?R)) = tot + b" "tot + ?R + (?g + r - (?g + ?R)) = tot + r" using x(1) xr by simp_all
    note h' = h[unfolded handed_def pos]
    have slice: "subslice ws (?g + ?R) (?g + k) = subslice zs ?R k" if "k \<le> length zs" for k
      using slice_behind[of pre "zs @ pads" ?R k] that by (simp add: ws slice_append_left)
    note unf = ix_drain.simps[of acc buf e "L - tot" tot n head r_head "m_acc m" st, unfolded if_P[OF go] x_def[symmetric] Let_def
      r_def[symmetric] b_def[symmetric] asm option.sel]
    have bz: "b + 1 \<le> length zs" "?R \<le> b + 1" using run(3) x(1) xr by simp_all
    show ?thesis
    proof (cases "acc (m_acc m) ?rec")
      case (Inl err)
      then obtain k where k: "?g + ?R \<le> k" "k \<le> ?g + b + 1" "spec_run c acc L (tot + ?R) (subslice ws (?g + ?R) k) m = Failed (from_user err)"
        using h' by auto
      then have "k = ?g + (k - ?g)" "k - ?g \<le> length zs" "?R \<le> k - ?g" using bz(1) by simp_all
      then have "spec_run c acc L (tot + ?R) (subslice zs ?R (k - ?g)) m = Failed (from_user err)" using k(3) slice[of "k - ?g"] by simp
      from spec_rest_stops(1)[OF this \<open>?R \<le> k - ?g\<close> \<open>k - ?g \<le> length zs\<close> refl] show ?thesis unfolding unf Inl by simp
    next
      case (Inr s1)
      have sl: "subslice ws (?g + ?R) (?g + b + 1) = subslice zs ?R (b + 1)" using slice[OF bz(1)] by (simp add: add.assoc)
      show ?thesis
      proof (cases "L \<le> tot + b")
        case stop: True
        then have "spec_run c acc L (tot + ?R) (subslice zs ?R (b + 1)) m = Finished (max L (tot + r)) s1"
          using h' Inr sl by simp
        from spec_rest_stops(2)[OF this bz(2,1) refl]
        have "spec_rest c acc L (tot + ?R) (drop ?R zs) m = Inr (Some (max L (tot + r)), s1)" .
        moreover have "L - tot < b + 1" using stop by linarith
        ultimately show ?thesis unfolding unf Inr using handoff_end(1)[OF stop, of r] by simp
      next
        case False
        then obtain m' where m': "spec_run c acc L (tot + ?R) (subslice zs ?R (b + 1)) m = Running m'" "ended (tot + r) s1 m'"
          using h' Inr sl by auto
        have rem: "\<not> L - tot < b + 1" using False by linarith
        define st1 where "st1 = st\<lparr>ix_record_start := b + 1, ix_last_record_end := Some (tot + r)\<rparr>"
        have acc: "m_acc m' = s1" using m'(2) by (simp add: ended_def)
        have buf1: "length buf1 = length buf" "drop (b + 1) buf1 = drop (b + 1) buf"
          using same_outside_drop[OF out, of "b + 1"] out xr by (simp_all add: same_outside_def)
        have drain: "ix_drain acc buf e (L - tot) tot n head r_head (m_acc m) st =
            ix_drain acc buf1 e (L - tot) tot n (head + n) (skip_removed (r_offs st) r_head x) (m_acc m') st1"
          unfolding unf Inr using rem by (simp add: st1_def handoff_def acc)
        have rest: "drop (head + n) (b_offs st) = drop n ?bs" "drop (head + n) (e_offs st) = drop n ?es" by (simp_all add: add.commute)
        have li': "listed n 0 ?cfg ws ?P False (?g + (b + 1)) (map ((+) ?g) (drop (head + n) (b_offs st))) (map ((+) ?g) (drop (head + n) (e_offs st)))"
          using rec(6)[OF run(4)] unfolding rest drop_map by (simp add: add.assoc)
        have hl: "head + n \<le> length (b_offs st)" "head + n \<le> length (e_offs st)" using bfit n by simp_all
        have "r \<le> x + 1" using rec(4) unfolding x_nth by simp
        from indexed_next[OF q ix li' hl x(1) this run(1) run(4), of st1]
        have ix1: "indexed c n 0 ws ?g ?P False (head + n) (skip_removed (r_offs st) r_head x) st1" by (simp add: st1_def)
        have "ix_drain acc buf1 e (L - tot) tot n (head + n) (skip_removed (r_offs st) r_head x) (m_acc m') st1 =
            spec_rest c acc L (tot + ix_record_start st1) (drop (ix_record_start st1) zs) m'"
        proof (rule less.hyps[OF _ _ _ _ _ ix1])
          show "length (e_offs st1) - (head + n) < length (e_offs st) - head" using True n by (simp add: st1_def)
          show "\<And>b. ix_is_term st1 b \<longleftrightarrow> terminates c b" using is_term by (simp add: st1_def ix_is_term_def)
          show "length buf1 = e" using buf1(1) len by simp
          show "ix_record_start st1 \<le> length zs" using bz(1) by (simp add: st1_def)
          show "at_record m'" "ix_last_record_end st1 = m_last_end m'" using m'(2) by (simp_all add: st1_def ended_def at_record_def)
          fix k assume k: "ix_record_start st1 \<le> k" "k < e"
          then have bk: "b + 1 \<le> k" by (simp add: st1_def)
          have "buf1 ! k = drop (b + 1) buf1 ! (k - (b + 1))" using bk k(2) buf1(1) len by simp
          also have "\<dots> = buf ! k" unfolding buf1(2) using bk k(2) len by simp
          finally show "buf1 ! k = zs ! k" using same[of k] k(2) bk x(1) xr by simp
        qed
        then show ?thesis unfolding drain using spec_rest_stops(3)[OF m'(1) bz(2,1) refl] by (simp add: st1_def)
      qed
    qed
  qed
qed

end
