(* ===== verification/IndexSteps.thy ===== *)
theory IndexSteps
  imports IndexPass
begin

text \<open>
  The step of the index stepper as the driver sees it: the alignment prologue, the loop, the last flush of what is
  resolved, and the shift of all offsets when the driver drops what has been handed over.
\<close>

section \<open>Before the loop\<close>

text \<open>The first step adds the beginning of the chunk's first field, which no mask shows.\<close>

definition chunk_started :: "SimdIndexStepper \<Rightarrow> SimdIndexStepper" where
  "chunk_started st = (if needs_chunk_start_b st then st\<lparr>b_offs := b_offs st @ [0], needs_chunk_start_b := False\<rparr> else st)"

lemma padded_start:
  assumes q: "quoting c n cfg" and pre: "\<And>b. b \<in> set pre \<Longrightarrow> inert c b"
  shows "placed True cfg (pre @ xs) (length pre)"
proof (cases "pre = []")
  case True
  then show ?thesis by (simp add: placed_def start_at_def open_before_def)
next
  case False
  have at: "inert c ((pre @ xs) ! k)" "k < length (pre @ xs)" if "k < length pre" for k
    using that pre by (simp_all add: nth_append)
  note nm = neutral_marks[OF q at(2,1)]
  have "\<not> quote_at cfg (pre @ xs) j" if "j \<le> length pre - 1" for j
  proof -
    have "0 < length pre" using False by simp
    then have "j < length pre" using that by linarith
    then show ?thesis using nm(1) by blast
  qed
  then have none: "{j. j \<le> length pre - 1 \<and> quote_at cfg (pre @ xs) j} = {}" by blast
  have "\<not> quoted_at cfg (pre @ xs) (length pre - 1)" unfolding quoted_at_def none by simp
  moreover have "length pre - 1 < length pre" using False by simp
  ultimately show ?thesis
    using nm(1,3,4)[of "length pre - 1"] by (simp add: placed_def start_at_def open_before_def)
qed

text \<open>Nothing scanned yet: no offsets but the first beginning. Padding before the buffer changes none of that.\<close>

lemma ix_pass_unscanned:
  assumes pass: "ix_pass c n xs 0 0 0 0 m st" and "ix_record_start st = 0"
  shows "b_offs st = [0]" "e_offs st = []" "r_offs st = []" "phase (ix_counter st) = 0" "index_config c n st"
    "0 < length xs \<longrightarrow> \<not> terminates c (xs ! 0)"
proof -
  obtain first where ix: "indexed c n (phase (ix_counter st)) xs 0 0 first 0 0 st" and co: "index_config c n st"
    using pass by (auto simp: ix_pass_def scanned_def)
  then have "first" by (simp add: indexed_def listed_def placed_def assms(2))
  then show "b_offs st = [0]" "e_offs st = []" "r_offs st = []" "phase (ix_counter st) = 0" "index_config c n st"
    "0 < length xs \<longrightarrow> \<not> terminates c (xs ! 0)"
    using ix co map_idI[of _ "(+) (0 :: nat)"]
    by (auto simp: indexed_def listed_def begins_from_def begins_in_def ends_in_def kinds_in_def structs_in_def assms(2))
qed

lemma scanned_unscanned:
  assumes "index_config c n st" and "ix_record_start st = 0" "b_offs st = [0]" "e_offs st = []" "r_offs st = []" "phase (ix_counter st) = 0"
    and "0 < length xs \<longrightarrow> \<not> terminates c (xs ! 0)" and pre: "\<And>b. b \<in> set pre \<Longrightarrow> inert c b" "length pre \<le> 64"
  shows "scanned c n (pre @ xs) (length pre) 0 0 0 st"
proof -
  have q: "quoting c n (scan_config c)" using assms(1) by (simp add: index_config_def)
  have "placed True (scan_config c) (pre @ xs) (length pre)" by (rule padded_start[OF q pre(1)])
  then have "indexed c n (phase (ix_counter st)) (pre @ xs) (length pre) 0 True 0 0 st"
    using assms(2-7) by (simp add: indexed_def listed_def begins_from_def begins_in_def ends_in_def kinds_in_def structs_in_def nth_append)
  moreover have "\<forall>k < length pre. inert c ((pre @ xs) ! k)" using pre(1) by (simp add: nth_append)
  ultimately show ?thesis using assms(1,2) pre(2) unfolding scanned_def by auto
qed

context lawful_isa begin

lemma ix_prologue_ok:
  assumes pass: "ix_pass c n (pre @ xs) (length pre) pos 0 0 m st" and "ix_record_start st = 0" and "pos \<le> e" and "e \<le> length buf"
    and xs: "xs = buf @ ys" and flag: "ix_needs_align_prologue st \<Longrightarrow> sn_pending (ix_scanner st) = None"
    and pro: "ix_prologue I addr buf pos e st = (cursor, st')"
  shows "\<exists>pre'. ix_pass c n (pre' @ xs) (length pre') cursor 0 0 m st' \<and> pos \<le> cursor \<and> cursor \<le> e \<and> ix_record_start st' = 0 \<and>
    needs_chunk_start_b st' = needs_chunk_start_b st \<and> (ix_needs_align_prologue st' \<longrightarrow> pre' = [] \<and> e < 64)"
proof (cases "ix_needs_align_prologue st \<and> pos = 0")
  case False
  then have "cursor = pos" "st' = st" using pro[unfolded ix_prologue_def if_not_P[OF False]] by simp_all
  moreover have "\<not> ix_needs_align_prologue st"
    using flag pass False by (auto simp: ix_pass_def scanner_at_def split: option.splits)
  ultimately show ?thesis using pass assms(2,3) by auto
next
  case True
  then have pend: "sn_pending (ix_scanner st) = None" using flag by simp
  then have zero: "pre = []" "pos = 0" using pass by (simp_all add: ix_pass_def scanner_at_def)
  have pass0: "ix_pass c n xs 0 0 0 0 m st" using pass zero by simp
  note un = ix_pass_unscanned[OF pass0 assms(2)]
  have q: "quoting c n (scan_config c)" and cfg: "ix_config st = scan_config c" using un(5) by (simp_all add: index_config_def)
  define pad where "pad = the (neutral_pad (sc_delim (ix_config st)) (sc_term (ix_config st)) (sc_term_b (ix_config st)) (sc_quote (ix_config st)))"
  have pad: "inert c pad" using pad_neutral[OF q] by (simp add: pad_def cfg)
  have flagged: "ix_pass c n xs 0 0 0 0 m (st\<lparr>ix_needs_align_prologue := b\<rparr>)" for b
    by (rule ix_pass_cong[OF pass0]) simp_all
  note unf = pro[unfolded ix_prologue_def if_P[OF True] Let_def, folded pad_def]
  show ?thesis
  proof (cases "head_padded_prologue (addr buf mod VECTOR_BYTES) buf e pad")
    case Aligned
    then have "cursor = 0" "st' = st\<lparr>ix_needs_align_prologue := False\<rparr>" using unf zero by simp_all
    then show ?thesis using flagged[of False] zero assms(2) by (auto intro!: exI[of _ "[]"])
  next
    case TooShort
    then have "cursor = 0" "st' = st\<lparr>ix_needs_align_prologue := (e < VECTOR_BYTES)\<rparr>" using unf zero by simp_all
    then show ?thesis using flagged[of "e < VECTOR_BYTES"] zero assms(2) by (auto simp: VECTOR_BYTES_def intro!: exI[of _ "[]"])
  next
    case (Vector v misalign)
    define skip where "skip = 64 - misalign"
    have v: "misalign = addr buf mod 64" "skip + 64 \<le> e" "v = replicate misalign pad @ take skip buf"
      using Vector by (auto simp: head_padded_prologue_def VECTOR_BYTES_def Let_def skip_def split: if_splits)
    have mis: "misalign < 64" "misalign + skip = 64" using v(1) by (simp_all add: skip_def)
    obtain out sn where ss: "scanner_step I v (ix_scanner st) = (out, sn)" by fastforce
    have out: "cursor = skip" "st' = st\<lparr>ix_scanner := sn, ix_needs_align_prologue := False\<rparr>"
      using unf Vector ss by (simp_all add: VECTOR_BYTES_def skip_def)
    define p where "p = replicate misalign pad"
    have p: "length p = misalign" "\<And>b. b \<in> set p \<Longrightarrow> inert c b" using pad by (auto simp: p_def)
    have sat: "scanner_at (scan_config c) (p @ xs) 0 (ix_scanner st)"
      using pass0 pend by (simp add: ix_pass_def scanner_at_def carries_at_def)
    have vs: "v = subslice (p @ xs) 0 (0 + 64)"
      using v(2,3) mis(1) assms(4) by (simp add: subslice_def p_def xs skip_def)
    have "0 + 64 \<le> length (p @ xs)" using v(2) mis assms(4) by (simp add: p_def xs)
    note so = scanner_step_ok[OF sat vs this ss]
    have "scanned c n (p @ xs) (length p) 0 0 0 st'"
    proof (rule scanned_unscanned)
      show "index_config c n st'" using un(5) by (simp add: out(2) index_config_def)
      show "length p \<le> 64" using p(1) mis by simp
    qed (use un p assms(2) in \<open>simp_all add: out(2)\<close>)
    moreover have "length p + skip = 64" using p(1) mis by simp
    ultimately have "ix_pass c n (p @ xs) (length p) skip 0 0 m st'"
      using so(1) pass0 assms(2) by (simp add: ix_pass_def out(2))
    then show ?thesis using v(2) zero assms(2) unfolding out(1) by (auto simp: out(2) intro!: exI[of _ p])
  qed
qed

end

section \<open>Dropping what is handed over\<close>

lemma ix_consume_pass:
  assumes pass: "ix_pass c n (pre @ xs) (length pre) pos 0 0 m st" and "ix_record_start st \<le> length xs"
  defines "k \<equiv> ix_record_start st"
  shows "ix_pass c n ((pre @ take k xs) @ drop k xs) (length (pre @ take k xs)) (pos - k) 0 0 m (ix_consume k st)"
proof -
  let ?ws = "pre @ xs" and ?g = "length pre" and ?cfg = "scan_config c"
  have ws: "(pre @ take k xs) @ drop k xs = ?ws" by simp
  have g: "length (pre @ take k xs) = ?g + k" using assms(2) by (simp add: k_def)
  have kp: "k \<le> pos" using pass by (simp add: ix_pass_def k_def)
  obtain first where ix: "indexed c n (phase (ix_counter st)) ?ws ?g (?g + pos - 64) first 0 0 st" using pass by (auto simp: ix_pass_def scanned_def)
  note ix' = ix[unfolded indexed_def listed_def drop_0, folded k_def]
  have shift: "map ((+) (?g + k)) (map (\<lambda>x. x - k) xs) = map ((+) ?g) xs" if "\<forall>x\<in>set (map ((+) ?g) xs). ?g + k \<le> x" for xs
    using that by auto
  have from_k: "\<forall>x\<in>set (begins_from first ?cfg ?ws (?g + k) P). ?g + k \<le> x" "\<forall>x\<in>set (ends_in ?cfg ?ws (?g + k) P). ?g + k \<le> x"
    "\<forall>x\<in>set (filter Q [?g + k..<P]). ?g + k \<le> x" for P Q
    by (auto simp: begins_from_def begins_in_def ends_in_def)
  have marks: "map ((+) ?g) (b_offs st) = begins_from first ?cfg ?ws (?g + k) (?g + pos - 64)"
    "map ((+) ?g) (e_offs st) = ends_in ?cfg ?ws (?g + k) (?g + pos - 64)"
    "map ((+) ?g) (r_offs st) = filter (removed_at ?cfg ?ws) [?g + k..<?g + pos - 64]"
    by (simp_all add: ix')
  have lists: "map ((+) (?g + k)) (map (\<lambda>x. x - k) (b_offs st)) = begins_from first ?cfg ?ws (?g + k) (?g + pos - 64)"
    "map ((+) (?g + k)) (map (\<lambda>x. x - k) (e_offs st)) = ends_in ?cfg ?ws (?g + k) (?g + pos - 64)"
    "map ((+) (?g + k)) (map (\<lambda>x. x - k) (r_offs st)) = filter (removed_at ?cfg ?ws) [?g + k..<?g + pos - 64]"
    using shift[of "b_offs st"] shift[of "e_offs st"] shift[of "r_offs st"] from_k unfolding marks by blast+
  have P: "?g + k + (pos - k) = ?g + pos" using kp by simp
  have "indexed c n (phase (ix_counter st)) ?ws (?g + k) (?g + pos - 64) first 0 0 (ix_consume k st)"
    unfolding indexed_def listed_def using ix' lists by (simp add: ix_consume_def k_def)
  moreover have "index_config c n (ix_consume k st)" using pass by (simp add: ix_pass_def scanned_def index_config_def ix_consume_def)
  moreover have "ix_record_start (ix_consume k st) = 0" "ix_scanner (ix_consume k st) = ix_scanner st"
    "ix_last_record_end (ix_consume k st) = ix_last_record_end st" "ix_counter (ix_consume k st) = ix_counter st"
    by (simp_all add: ix_consume_def k_def)
  ultimately have "ix_pass c n ?ws (?g + k) (pos - k) 0 0 m (ix_consume k st)"
    using pass unfolding ix_pass_def scanned_def P k_def[symmetric] by auto
  then show ?thesis unfolding ws g .
qed

section \<open>The step\<close>

definition index_rel :: "Config \<Rightarrow> nat \<Rightarrow> byte list \<Rightarrow> nat \<Rightarrow> nat \<Rightarrow> nat \<Rightarrow> nat \<Rightarrow> SimdIndexStepper \<Rightarrow> 's machine \<Rightarrow> bool" where
  "index_rel c n xs tot lag pos e st m \<longleftrightarrow> lag = 0 \<and> ix_record_start st = 0 \<and> pos \<le> e \<and> e - pos < 64 \<and>
     (needs_chunk_start_b st \<longrightarrow> e = 0) \<and> (ix_needs_align_prologue st \<longrightarrow> sn_pending (ix_scanner st) = None) \<and>
     (\<exists>pre. ix_pass c n (pre @ xs) (length pre) pos 0 0 m (chunk_started st))"

definition ix_step_out ::
    "Config \<Rightarrow> ('s, 'u) accumulator \<Rightarrow> nat \<Rightarrow> nat \<Rightarrow> byte list \<Rightarrow> nat \<Rightarrow> nat \<Rightarrow> 's machine \<Rightarrow> 'u StepResult \<Rightarrow> byte list \<Rightarrow> byte list \<Rightarrow> 's
      \<Rightarrow> SimdIndexStepper \<Rightarrow> bool" where
  "ix_step_out c acc L tot xs n e m res buf buf' s' st' \<longleftrightarrow> length buf' = length buf \<and> (case res of
     StepError err \<Rightarrow> stops c acc L tot xs e 0 m (Failed err)
   | Done fin \<Rightarrow> stops c acc L tot xs e 0 m (Finished fin s')
   | Suspended r k lre \<Rightarrow> \<exists>m' pre. k = ix_record_start st' \<and> k \<le> r \<and> r \<le> e \<and> e - r < 64 \<and> moves c acc L tot xs e 0 k m m' \<and>
       lre = m_last_end m' \<and> s' = m_acc m' \<and> ix_pass c n (pre @ xs) (length pre) r 0 0 m' st' \<and> drop k buf' = drop k buf \<and>
       \<not> needs_chunk_start_b st' \<and> (ix_needs_align_prologue st' \<longrightarrow> sn_pending (ix_scanner st') = None))"

context lawful_isa begin

lemma ix_step_ok:
  fixes acc :: "('s, 'u) accumulator"
  assumes rel: "index_rel c n xs tot 0 pos e0 st m" and "e0 \<le> e" and "e \<le> length buf"
    and xs: "xs = buf @ ys" and "length xs < 2 ^ 63"
    and step: "ix_step I addr acc \<lparr>ctx_buf = buf, scan_start = pos, scan_end = e, remaining_in_chunk = L - tot,
      total_consumed = tot\<rparr> (m_acc m) st = (res, buf', s', st')"
  shows "ix_step_out c acc L tot xs n e m res buf buf' s' st'"
proof -
  obtain pre0 where pass0: "ix_pass c n (pre0 @ xs) (length pre0) pos 0 0 m (chunk_started st)" using rel by (auto simp: index_rel_def)
  have pe: "pos \<le> e" using rel assms(2) by (simp add: index_rel_def)
  have cst: "ix_record_start (chunk_started st) = 0" "\<not> needs_chunk_start_b (chunk_started st)" "ix_counter (chunk_started st) = ix_counter st"
    "ix_needs_align_prologue (chunk_started st) \<Longrightarrow> sn_pending (ix_scanner (chunk_started st)) = None"
    using rel by (simp_all add: index_rel_def chunk_started_def split: if_splits)
  have fc: "fc_n (ix_counter st) = n" using pass0 cst(3) by (simp add: ix_pass_def scanned_def index_config_def)
  obtain cursor st1 where pro: "ix_prologue I addr buf pos e (chunk_started st) = (cursor, st1)" by fastforce
  obtain pre where p: "ix_pass c n (pre @ xs) (length pre) cursor 0 0 m st1" "pos \<le> cursor" "cursor \<le> e" "ix_record_start st1 = 0"
    "\<not> needs_chunk_start_b st1" "ix_needs_align_prologue st1 \<longrightarrow> pre = [] \<and> e < 64"
    using ix_prologue_ok[OF pass0 cst(1) pe assms(3) xs cst(4) pro] cst(2) by auto
  obtain lres buf1 s1 st2 where loop: "ix_loop I acc buf e (L - tot) tot n cursor 0 0 (m_acc m) st1 = (lres, buf1, s1, st2)"
    by (cases "ix_loop I acc buf e (L - tot) tot n cursor 0 0 (m_acc m) st1") auto
  have ag: "agrees (length pre) (ix_record_start st1) (pre @ xs) buf" by (simp add: agrees_def xs nth_append)
  note lo = ix_loop_ok[OF assms(5,3) ag p(1,3) loop, unfolded ix_loop_out_def p(4)]
  have exs: "e \<le> length xs" using assms(3) by (simp add: xs)
  note unf = step[unfolded ix_step_def StepCtx.select_convs Let_def fc chunk_started_def[symmetric] pro prod.case loop]
  show ?thesis
  proof (cases lres)
    case (Inl r)
    then have "res = r" "buf' = buf1" "s' = s1" using unf by simp_all
    then show ?thesis using lo Inl by (cases r) (simp_all add: ix_step_out_def)
  next
    case (Inr r)
    then obtain cursor' head' r_head' m1 where r: "r = (cursor', head', r_head')" and
      m1: "moves c acc L tot xs e 0 (ix_record_start st2) m m1" "s1 = m_acc m1"
        "ix_pass c n (pre @ xs) (length pre) cursor' head' r_head' m1 st2" "drop (ix_record_start st2) buf1 = drop (ix_record_start st2) buf"
        "ix_needs_align_prologue st2 = ix_needs_align_prologue st1" "\<not> needs_chunk_start_b st2" "cursor' \<le> e" "e - cursor' < 64"
        "length buf1 = length buf"
      using lo p(5) by (cases r) auto
    define fl where "fl = (if n \<le> length (e_offs st2) - head' \<and> VECTOR_BYTES \<le> cursor'
      then ix_flush acc buf1 head' r_head' (cursor' - VECTOR_BYTES) (L - tot) tot n s1 st2
      else (Inr None, buf1, head', r_head', s1, st2))"
    obtain fres buf2 head2 r_head2 s2 st3 where fl': "fl = (fres, buf2, head2, r_head2, s2, st3)" by (cases fl) auto
    have R2: "ix_record_start st2 \<le> e" using m1(1) by (simp add: moves_def)
    have ag2: "agrees (length pre) (ix_record_start st2) (pre @ xs) buf1" using drop_agrees[OF ag m1(4,9)] p(4) by simp
    have e1: "e \<le> length buf1" using assms(3) m1(9) by simp
    have fok: "length buf2 = length buf1 \<and> (case fres of
        Inl err \<Rightarrow> stops c acc L tot xs e (ix_record_start st2) m1 (Failed err)
      | Inr (Some fin) \<Rightarrow> stops c acc L tot xs e (ix_record_start st2) m1 (Finished fin s2)
      | Inr None \<Rightarrow> \<exists>m'. moves c acc L tot xs e (ix_record_start st2) (ix_record_start st3) m1 m' \<and> s2 = m_acc m' \<and>
          ix_pass c n (pre @ xs) (length pre) cursor' head2 r_head2 m' st3 \<and> drop (ix_record_start st3) buf2 = drop (ix_record_start st3) buf1 \<and>
          ix_needs_align_prologue st3 = ix_needs_align_prologue st2 \<and> needs_chunk_start_b st3 = needs_chunk_start_b st2)"
    proof (cases "n \<le> length (e_offs st2) - head' \<and> VECTOR_BYTES \<le> cursor'")
      case True
      then have "ix_flush acc buf1 head' r_head' (cursor' - VECTOR_BYTES) (L - tot) tot n (m_acc m1) st2 = (fres, buf2, head2, r_head2, s2, st3)"
        using fl' m1(2) by (simp add: fl_def)
      moreover have "64 \<le> cursor'" using True by (simp add: VECTOR_BYTES_def)
      ultimately show ?thesis using ix_flush_pass[OF m1(3) _ m1(7) e1 ag2] by blast
    next
      case False
      then have "fres = Inr None" "buf2 = buf1" "head2 = head'" "r_head2 = r_head'" "s2 = m_acc m1" "st3 = st2"
        using fl' m1(2) unfolding fl_def if_not_P[OF False] by simp_all
      then show ?thesis using m1(3) moves_refl[OF R2] by (auto intro!: exI[of _ m1])
    qed
    note unf2 = unf[unfolded Inr r sum.case prod.case fl_def[symmetric] fl']
    have len: "length buf2 = length buf" using fok m1(9) by simp
    show ?thesis
    proof (cases fres)
      case (Inl err)
      then have "res = StepError err" "buf' = buf2" using unf2 by simp_all
      moreover have "stops c acc L tot xs e 0 m (Failed err)" using stops_back[OF m1(1) _ exs] fok Inl by simp
      ultimately show ?thesis using len by (simp add: ix_step_out_def)
    next
      case fr: (Inr o')
      show ?thesis
      proof (cases o')
        case (Some fin)
        then have "res = Done fin" "buf' = buf2" "s' = s2" using unf2 fr by simp_all
        moreover have "stops c acc L tot xs e 0 m (Finished fin s2)" using stops_back[OF m1(1) _ exs] fok fr Some by simp
        ultimately show ?thesis using len by (simp add: ix_step_out_def)
      next
        case None
        obtain m2 where m2: "moves c acc L tot xs e (ix_record_start st2) (ix_record_start st3) m1 m2" "s2 = m_acc m2"
          "ix_pass c n (pre @ xs) (length pre) cursor' head2 r_head2 m2 st3" "drop (ix_record_start st3) buf2 = drop (ix_record_start st3) buf1"
          "ix_needs_align_prologue st3 = ix_needs_align_prologue st2" "\<not> needs_chunk_start_b st3"
          using fok m1(6) unfolding fr None sum.case option.case by blast
        define st4 where "st4 = (if head2 \<noteq> 0 then drop_emitted_prefix head2 r_head2 st3 else st3)"
        have out: "res = Suspended cursor' (ix_record_start st4) (ix_last_record_end st4)" "buf' = buf2" "s' = s2" "st' = st4"
          using unf2 fr None by (auto simp: st4_def split: if_splits)
        have sel: "ix_record_start st4 = ix_record_start st3" "ix_last_record_end st4 = ix_last_record_end st3" "ix_scanner st4 = ix_scanner st3"
          "ix_needs_align_prologue st4 = ix_needs_align_prologue st3" "needs_chunk_start_b st4 = needs_chunk_start_b st3"
          by (simp_all add: st4_def drop_emitted_prefix_def)
        have heads: "head2 = 0 \<longrightarrow> r_head2 = 0" using m2(3) by (simp add: ix_pass_def)
        have pass4: "ix_pass c n (pre @ xs) (length pre) cursor' 0 0 m2 st4"
          using heads by (intro ix_pass_cong[OF m2(3)]) (auto simp: st4_def drop_emitted_prefix_def)
        have "ix_needs_align_prologue st4 \<longrightarrow> sn_pending (ix_scanner st4) = None"
        proof
          assume "ix_needs_align_prologue st4"
          then have "pre = []" "e < 64" using p(6) m1(5) m2(5) sel(4) by simp_all
          then show "sn_pending (ix_scanner st4) = None" using pass4 m1(7) by (auto simp: ix_pass_def scanner_at_def split: option.splits)
        qed
        moreover have "drop (ix_record_start st3) buf2 = drop (ix_record_start st3) buf"
          using m2(4) drop_further[OF m1(4)] m2(1) by (simp add: moves_def)
        moreover have "ix_record_start st3 \<le> cursor'" "ix_last_record_end st3 = m_last_end m2" using m2(3) by (simp_all add: ix_pass_def)
        ultimately show ?thesis
          using moves_trans[OF m1(1) m2(1) exs] m1(7,8) m2(2,6) pass4 len unfolding ix_step_out_def out(1) StepResult.case
          by (auto simp: out(2-4) sel)
      qed
    qed
  qed
qed

end

end
