(* ===== verification/IndexEnd.thy ===== *)
theory IndexEnd
  imports IndexDrain IndexSteps
begin

text \<open>
  The end of the input for the index stepper: the tail as a padded vector, the scanner drained, a quote left open
  reported, the offsets trimmed to the input, and the records left handed over.
\<close>

unbundle bit_operations_syntax

section \<open>The same state over the closed input\<close>

lemma scanner_at_prefix:
  assumes "scanner_at cfg zs p sn" and "p \<le> length zs"
  shows "scanner_at cfg (zs @ ys) p sn"
proof (cases "sn_pending sn")
  case None
  then show ?thesis using assms(1) by (simp add: scanner_at_def carries_at_def)
next
  case (Some pd)
  then have at: "64 \<le> p" "masks_at cfg zs (p - 64) pd" "carries_at cfg zs (p - 64) sn" "sn_config sn = cfg"
    "in_quotes_carry sn = (0 < p \<and> quoted_at cfg zs (p - 1))"
    using assms(1) by (simp_all add: scanner_at_def)
  have m: "masks_at cfg (zs @ ys) (p - 64) pd"
  proof -
    have "p - 64 + j < length zs" if "j < 64" for j using that at(1) assms(2) by linarith
    note pre = at_prefix(1-4)[OF this, where cfg = cfg and ys = ys]
    show ?thesis
      unfolding masks_at_def
    proof (intro allI impI)
      fix j :: nat assume "j < 64"
      from at(2)[unfolded masks_at_def, rule_format, OF this]
      show "(bit (delim_bits (pd_structural pd)) j \<and> \<not> bit (pd_m pd) j) = delim_at cfg (zs @ ys) (p - 64 + j) \<and>
          (bit (term_bits (pd_structural pd)) j \<and> \<not> bit (pd_m pd) j) = term_at cfg (zs @ ys) (p - 64 + j) \<and>
          bit (quote_bits (pd_structural pd)) j = quote_at cfg (zs @ ys) (p - 64 + j) \<and>
          bit (pd_m pd) j = quoted_at cfg (zs @ ys) (p - 64 + j)"
        unfolding pre[OF \<open>j < 64\<close>] .
    qed
  qed
  have c: "carries_at cfg (zs @ ys) (p - 64) sn"
  proof (cases "p = 64")
    case True
    then show ?thesis using at(3) by (simp add: carries_at_def)
  next
    case False
    then have "p - 64 - 1 + 1 < length zs" using at(1) assms(2) by linarith
    then show ?thesis
      using at(3) marks_prefix(1,6,7)[of "p - 64 - 1" zs cfg ys] at_prefix(4)[of "p - 64 - 1" zs cfg ys] by (simp add: carries_at_def)
  qed
  have "quoted_at cfg (zs @ ys) (p - 1) = quoted_at cfg zs (p - 1)" using at(1) assms(2) by (intro at_prefix(2)) linarith
  then show ?thesis using at m c Some by (simp add: scanner_at_def)
qed

lemma ix_pass_closed:
  assumes pass: "ix_pass c n (pre @ buf) (length pre) pos 0 0 m st" and R: "ix_record_start st = 0"
    and "pos \<le> length buf" and "buf \<noteq> []"
  shows "ix_pass c n (pre @ buf @ ys) (length pre) pos 0 0 m st"
proof -
  let ?cfg = "scan_config c" and ?g = "length pre" and ?ws = "pre @ buf" and ?P = "length pre + pos - 64"
  have eq: "pre @ buf @ ys = ?ws @ ys" by simp
  have len: "?P < length ?ws" "?g < length ?ws" using assms(3,4) by (auto simp: neq_Nil_conv)
  obtain first where ix: "indexed c n (phase (ix_counter st)) ?ws ?g ?P first 0 0 st" using pass by (auto simp: ix_pass_def scanned_def)
  note ix' = ix[unfolded indexed_def listed_def R add_0_right]
  note pr = lists_prefix[OF len(1), of ?cfg ys ?g]
  have "placed first ?cfg (?ws @ ys) ?g"
  proof -
    have "open_before ?cfg (?ws @ ys) ?g = open_before ?cfg ?ws ?g" "term_at ?cfg (?ws @ ys) ?g = term_at ?cfg ?ws ?g"
      using at_prefix(4,5)[OF len(2)] by simp_all
    moreover have "quote_at ?cfg (?ws @ ys) (?g - 1) = quote_at ?cfg ?ws (?g - 1)" "term_at ?cfg (?ws @ ys) (?g - 1) = term_at ?cfg ?ws (?g - 1)"
      using len(2) by (intro at_prefix(1,4); linarith)+
    moreover have "struct_at ?cfg (?ws @ ys) (?g - 1) = struct_at ?cfg ?ws (?g - 1)" if "0 < ?g"
      using len(2) that by (intro marks_prefix(1)) linarith
    ultimately show ?thesis using ix' by (auto simp: placed_def start_at_def)
  qed
  then have "indexed c n (phase (ix_counter st)) (?ws @ ys) ?g ?P first 0 0 st"
    unfolding indexed_def listed_def R add_0_right begins_from_def pr
    using ix' len(2) assms(4) by (auto simp: begins_from_def nth_append)
  moreover have "\<forall>k < ?g. inert c (?ws ! k) \<Longrightarrow> \<forall>k < ?g. inert c ((?ws @ ys) ! k)" by (simp add: nth_append)
  ultimately have "scanned c n (?ws @ ys) ?g ?P 0 0 st"
    using pass unfolding ix_pass_def scanned_def R by auto
  moreover have "scanner_at ?cfg (?ws @ ys) (?g + pos) (ix_scanner st)"
    by (rule scanner_at_prefix) (use pass assms(3) in \<open>simp_all add: ix_pass_def\<close>)
  ultimately show ?thesis using pass unfolding ix_pass_def eq by blast
qed

section \<open>The tail\<close>

definition tail_virt :: "SimdIndexStepper \<Rightarrow> byte list \<Rightarrow> byte list" where
  "tail_virt st buf = (if buf \<noteq> [] \<and> \<not> ix_is_term st (last buf) then [sc_term (ix_config st)] else [])"

definition tail_pads :: "SimdIndexStepper \<Rightarrow> byte list \<Rightarrow> nat \<Rightarrow> byte list" where
  "tail_pads st buf pos = (let cfg = ix_config st; k = length (drop pos buf @ tail_virt st buf)
     in if k = 0 then [] else replicate (64 - k) (the (neutral_pad (sc_delim cfg) (sc_term cfg) (sc_term_b cfg) (sc_quote cfg))))"

lemma tail_closing:
  assumes "index_config c n st"
  shows "closing c buf (tail_virt st buf) (tail_pads st buf pos)"
proof -
  have q: "quoting c n (scan_config c)" "ix_config st = scan_config c" using assms by (simp_all add: index_config_def)
  have "terminates c (sc_term (scan_config c))" using quoting_sel(4)[OF q(1), of "sc_term (scan_config c)"] by simp
  moreover have "inert c b" if "b \<in> set (tail_pads st buf pos)" for b
    using that pad_neutral[OF q(1)] q(2) by (auto simp: tail_pads_def Let_def split: if_splits)
  ultimately show ?thesis using index_config_term[OF assms] q(2) by (auto simp: closing_def tail_virt_def)
qed

lemma ix_tail_vector:
  fixes st :: SimdIndexStepper and tot :: nat
  assumes "pos \<le> length buf" and "length buf - pos < 64"
  defines "ws \<equiv> buf @ tail_virt st buf @ tail_pads st buf pos"
  shows "(ix_tail I buf pos (length buf) tot st :: 'u Error + nat \<times> SimdIndexStepper) =
      (if length ws = pos then Inr (pos, st)
       else case ix_vector I (drop pos ws) (of_nat pos - of_nat VECTOR_BYTES) st of
           (True, st') \<Rightarrow> Inr (pos + VECTOR_BYTES, st') | (False, st') \<Rightarrow> Inl (ix_arity_error st' buf tot))"
    and "length ws = pos \<or> length ws = pos + 64"
proof -
  let ?cfg = "ix_config st" and ?real = "length buf - pos" and ?v = "tail_virt st buf"
  define pad where "pad = the (neutral_pad (sc_delim ?cfg) (sc_term ?cfg) (sc_term_b ?cfg) (sc_quote ?cfg))"
  define needs where "needs = (0 < length buf \<and> \<not> ix_is_term st (buf ! (length buf - 1)))"
  have needs: "needs \<longleftrightarrow> ?v \<noteq> []" by (cases "buf = []") (simp_all add: needs_def tail_virt_def last_conv_nth)
  have vl: "length ?v \<le> 1" by (simp add: tail_virt_def)
  have k: "length (drop pos buf @ ?v) = ?real + length ?v" by simp
  have pads: "tail_pads st buf pos = (if ?real + length ?v = 0 then [] else replicate (64 - (?real + length ?v)) pad)"
    unfolding tail_pads_def Let_def k pad_def ..
  have wl: "length ws = (if ?real + length ?v = 0 then pos else pos + 64)"
    using assms(1,2) vl by (auto simp: ws_def pads)
  then show "length ws = pos \<or> length ws = pos + 64" by simp
  have cond: "0 < ?real \<or> needs \<longleftrightarrow> length ws \<noteq> pos" using wl needs by (cases ?v) auto
  note unf = ix_tail_def[of I buf pos "length buf" tot st, folded needs_def pad_def, unfolded Let_def, folded needs_def pad_def]
  show "(ix_tail I buf pos (length buf) tot st :: 'u Error + nat \<times> SimdIndexStepper) =
      (if length ws = pos then Inr (pos, st)
       else case ix_vector I (drop pos ws) (of_nat pos - of_nat VECTOR_BYTES) st of
           (True, st') \<Rightarrow> Inr (pos + VECTOR_BYTES, st') | (False, st') \<Rightarrow> Inl (ix_arity_error st' buf tot))"
  proof (cases "length ws = pos")
    case True
    then show ?thesis using cond unfolding unf by simp
  next
    case False
    define v0 where "v0 = subslice buf pos (length buf) @ replicate (VECTOR_BYTES - ?real) pad"
    have "(if needs then v0[?real := sc_term ?cfg] else v0) = drop pos ws"
    proof (cases needs)
      case n: True
      then have v: "?v = [sc_term ?cfg]" using needs by (auto simp: tail_virt_def split: if_splits)
      have "64 - ?real = Suc (64 - (?real + 1))" using assms(2) by simp
      then have "v0 = drop pos buf @ pad # replicate (64 - (?real + 1)) pad"
        by (simp only: v0_def VECTOR_BYTES_def replicate_Suc) (simp add: subslice_def)
      then have "v0[?real := sc_term ?cfg] = drop pos buf @ sc_term ?cfg # replicate (64 - (?real + 1)) pad"
        by (simp add: list_update_append)
      then show ?thesis using n v assms(1) by (simp add: ws_def pads)
    next
      case n: False
      then have v: "?v = []" using needs by simp
      then have "?real \<noteq> 0" using False wl by (auto split: if_splits)
      then show ?thesis using n v assms(1) by (simp add: ws_def pads v0_def VECTOR_BYTES_def subslice_def)
    qed
    moreover have "0 < ?real \<or> needs" using cond False by simp
    ultimately show ?thesis unfolding unf v0_def[symmetric] using False by (simp split: prod.split bool.split)
  qed
qed

section \<open>The last output\<close>

context lawful_isa begin

lemma ix_drain_scanner_ok:
  fixes tot :: nat
  assumes sc: "scanned c n ws g (g + pos - 64) 0 0 st" and at: "scanner_at (scan_config c) ws (g + pos) (ix_scanner st)"
    and len: "length ws = g + pos" "ws \<noteq> []" and "pos < 2 ^ 63 + 64"
  obtains st' where "ix_record_start st' = ix_record_start st" "ix_last_record_end st' = ix_last_record_end st" "index_config c n st'"
    "(ix_drain_scanner I zs pos tot st :: 'u Error + SimdIndexStepper) = Inr st' \<and> scanned c n ws g (length ws) 0 0 st' \<and>
       (scanner_in_quotes (ix_scanner st') \<longleftrightarrow> open_before (scan_config c) ws (length ws)) \<or>
     (ix_drain_scanner I zs pos tot st :: 'u Error + SimdIndexStepper) = Inl (ix_arity_error st' zs tot) \<and>
       count_fields n 0 (kinds_in (scan_config c) ws (g + ix_record_start st) (length ws)) = None"
proof -
  let ?cfg = "scan_config c"
  obtain pd where pd: "sn_pending (ix_scanner st) = Some pd" using at len by (auto simp: scanner_at_def split: option.splits)
  then have p: "64 \<le> g + pos" "masks_at ?cfg ws (g + pos - 64) pd" "carries_at ?cfg ws (g + pos - 64) (ix_scanner st)"
    "sn_config (ix_scanner st) = ?cfg" "in_quotes_carry (ix_scanner st) = (0 < g + pos \<and> quoted_at ?cfg ws (g + pos - 1))"
    using at by (simp_all add: scanner_at_def)
  let ?sn0 = "(ix_scanner st)\<lparr>sn_pending := None\<rparr>"
  obtain o' sn1 where r: "scanner_resolve pd None ?sn0 = (o', sn1)" by fastforce
  have pp: "g + pos - 64 + 64 \<le> length ws" using p(1) len by simp
  have ca: "carries_at ?cfg ws (g + pos - 64) ?sn0" using p(3) by (simp add: carries_at_def)
  have cf: "sn_config ?sn0 = ?cfg" using p(4) by simp
  have nx: "case None of None \<Rightarrow> g + pos - 64 + 64 = length ws | Some nl \<Rightarrow> g + pos - 64 + 64 < length ws \<and>
      (bit (delim_ooq nl) 0 = delim_at ?cfg ws (g + pos - 64 + 64)) \<and> (bit (term_ooq nl) 0 = term_at ?cfg ws (g + pos - 64 + 64)) \<and>
      (bit (la_quote nl) 0 = quote_at ?cfg ws (g + pos - 64 + 64))"
    using p(1) len by simp
  note ra = resolve_at[OF p(2) ca cf pp nx r]
  have iq: "in_quotes_carry sn1 = in_quotes_carry (ix_scanner st)" by (subst ra(3)) simp
  define st1 where "st1 = st\<lparr>ix_scanner := sn1\<rparr>"
  have sc1: "scanned c n ws g (g + pos - 64) 0 0 st1"
    using sc by (simp add: st1_def scanned_def indexed_def index_config_def)
  obtain ok st2 where vr: "ix_verify I o' st1 = (ok, st2)" by fastforce
  have P: "g + pos - 64 + 64 = g + pos" using p(1) by simp
  note v = ix_resolved_ok[OF sc1 ra(1) P assms(5) vr, unfolded P]
  have sel: "ix_record_start st2 = ix_record_start st" "ix_last_record_end st2 = ix_last_record_end st" "ix_scanner st2 = sn1"
    by (subst v(1); simp add: st1_def)+
  have drain: "(ix_drain_scanner I zs pos tot st :: 'u Error + SimdIndexStepper) =
      (if ok then Inr (ix_extend o' (of_nat pos - of_nat VECTOR_BYTES) st2) else Inl (ix_arity_error st2 zs tot))"
    by (simp add: ix_drain_scanner_def scanner_finalize_def pd r st1_def[symmetric] vr)
  show ?thesis
  proof (cases ok)
    case True
    let ?st = "ix_extend o' (of_nat pos - of_nat VECTOR_BYTES) st2"
    have "scanner_in_quotes (ix_scanner ?st) \<longleftrightarrow> open_before ?cfg ws (length ws)"
      using iq p(5) len by (simp add: ix_extend_def sel scanner_in_quotes_def open_before_def)
    moreover have "scanned c n ws g (length ws) 0 0 ?st" using v(3)[OF True] len by simp
    moreover have "ix_record_start ?st = ix_record_start st" "ix_last_record_end ?st = ix_last_record_end st" "index_config c n ?st"
      using sel v(2) by (simp_all add: ix_extend_def index_config_def)
    ultimately show ?thesis using that[of ?st] drain True by simp
  next
    case False
    then show ?thesis using that[of st2] drain sel v(2,4) len by (simp add: st1_def)
  qed
qed

end

end
