(* ===== verification/IndexFinish.thy ===== *)
theory IndexFinish
  imports IndexEnd
begin

text \<open>
  The index stepper's last call: the reference machine's result over the rest of the input, or an error ahead of
  the records before it.
\<close>

section \<open>The closed input behind the padding\<close>

lemma closed_as_closing:
  assumes q: "quoting c n (scan_config c)" and cl: "closing c buf virt pads"
    and st: "\<not> open_before (scan_config c) (pre @ buf @ virt @ pads) (length pre)" and op: "\<not> open_before (scan_config c) buf (length buf)"
  shows "closed_as c pre (buf @ virt) (length buf) (pre @ buf @ virt @ pads)"
proof -
  let ?cfg = "scan_config c" and ?zs = "buf @ virt" and ?ws = "pre @ buf @ virt @ pads"
  have dr: "drop (length pre) ?ws = buf @ virt @ pads" by simp
  note at = at_drop[OF st, unfolded dr]
  have v: "length virt \<le> 1" "virt \<noteq> [] \<longrightarrow> buf \<noteq> [] \<and> \<not> terminates c (last buf)" "virt = [] \<and> buf \<noteq> [] \<longrightarrow> terminates c (last buf)"
    "\<forall>t\<in>set virt. terminates c t"
    using cl by (auto simp: closing_def split: if_splits)
  have "term_at ?cfg ?ws (length pre + length ?zs - 1)" if ne: "?zs \<noteq> []"
  proof -
    have l: "length ?zs - 1 < length ?zs" "length pre + length ?zs - 1 = length pre + (length ?zs - 1)" "Suc (length ?zs - 1) = length ?zs"
      using ne by (cases "?zs"; simp)+
    have "open_before ?cfg (buf @ virt @ pads) (length ?zs) = open_before ?cfg buf (length buf)"
      by (rule closing_open[OF q cl]) simp
    then have "\<not> quoted_at ?cfg (buf @ virt @ pads) (length ?zs - 1)"
      using op open_before_Suc[of ?cfg "buf @ virt @ pads" "length ?zs - 1"] unfolding l(3) by simp
    moreover have "(buf @ virt @ pads) ! (length ?zs - 1) = last ?zs"
      using l(1) nth_append[of ?zs pads "length ?zs - 1"] last_conv_nth[OF ne] by simp
    moreover have "terminates c (last ?zs)" using v ne by (cases "virt = []") auto
    moreover have "length ?zs - 1 < length (buf @ virt @ pads)" using l(1) by simp
    ultimately have "term_at ?cfg (buf @ virt @ pads) (length ?zs - 1)" using quoting_at(3)[OF q] by simp
    then show ?thesis unfolding l(2) at(2) .
  qed
  moreover have "\<not> close_at ?cfg ?ws k" if "length pre + length ?zs \<le> k" for k
  proof -
    have "\<not> close_at ?cfg (buf @ virt @ pads) (k - length pre)"
      using closing_pads[OF q cl, of "k - length pre"] that by (auto simp: close_at_def)
    then show ?thesis using at(4)[of "k - length pre"] that by simp
  qed
  moreover have "length ?zs = length buf + 1 \<longrightarrow> 0 < length buf \<and> \<not> terminates c (?zs ! (length buf - 1))"
    using v(2) by (auto simp: last_conv_nth nth_append)
  moreover have "\<exists>ps. ?ws = pre @ ?zs @ ps \<and> (\<forall>b\<in>set ps. inert c b)" using cl by (auto simp: closing_def intro!: exI[of _ pads])
  ultimately show ?thesis unfolding closed_as_def using v(1) by simp
qed

lemma filter_upto:
  assumes "\<And>k. b \<le> k \<Longrightarrow> \<not> Q k"
  shows "filter (\<lambda>x. x < z) (filter Q [a..<b]) = filter Q [a..<z :: nat]"
proof (cases "z \<le> b")
  case True
  have "[a..<b] = [a..<z] @ [max a z..<b]"
  proof (cases "a \<le> z")
    case az: True
    then show ?thesis using True upt_add_eq_append[of a z "b - z"] by (simp add: max_def)
  next
    case False
    then show ?thesis by (simp add: max_def)
  qed
  moreover have "filter (\<lambda>x. x < z) (filter Q [max a z..<b]) = []" by (auto simp: filter_empty_conv)
  moreover have "filter (\<lambda>x. x < z) (filter Q [a..<z]) = filter Q [a..<z]" by (rule filter_True) simp
  ultimately show ?thesis by (simp only: filter_append append_Nil2)
next
  case False
  have "filter Q [a..<z] = filter Q [a..<b]"
  proof (cases "a \<le> b")
    case True
    then have "[a..<z] = [a..<b] @ [b..<z]" using False upt_add_eq_append[of a b "z - b"] by simp
    moreover have "filter Q [b..<z] = []" using assms by (auto simp: filter_empty_conv)
    ultimately show ?thesis by simp
  next
    case ab: False
    then have "filter Q [a..<z] = []" using assms by (auto simp: filter_empty_conv)
    then show ?thesis using ab by simp
  qed
  moreover have "filter (\<lambda>x. x < z) (filter Q [a..<b]) = filter Q [a..<b]" by (rule filter_True) (use False in auto)
  ultimately show ?thesis by simp
qed

section \<open>Trimming\<close>

lemma no_marks_behind:
  assumes "length ws \<le> k"
  shows "\<not> struct_at cfg ws k" "\<not> end_at cfg ws k" "\<not> begin_at cfg ws k" "\<not> removed_at cfg ws k"
  using assms end_at_length[of cfg ws k]
  by (auto simp: struct_at_def run_end_at_def delim_at_def term_at_def begin_at_def removed_at_def quote_at_def)

lemma kinds_closed:
  assumes cl: "closed_as c pre zs e ws" and "length pre + length zs \<le> b"
  shows "kinds_in (scan_config c) ws a b = kinds_in (scan_config c) ws a (length pre + length zs)"
proof -
  have none: "\<not> struct_at (scan_config c) ws k" if "length pre + length zs \<le> k" for k
    using cl that struct_closes unfolding closed_as_def by blast
  let ?z = "length pre + length zs" and ?Q = "struct_at (scan_config c) ws"
  have "filter (\<lambda>x. x < b) (filter ?Q [a..<?z]) = filter ?Q [a..<b]" by (rule filter_upto[OF none])
  moreover have "filter (\<lambda>x. x < b) (filter ?Q [a..<?z]) = filter ?Q [a..<?z]" using assms(2) by (intro filter_True) auto
  ultimately have "filter ?Q [a..<b] = filter ?Q [a..<?z]" by simp
  then show ?thesis by (simp add: kinds_in_def structs_in_def)
qed

lemma last_kind:
  assumes cl: "closed_as c pre zs e ws" and "zs \<noteq> []"
  shows "kinds_in (scan_config c) ws (length pre) (length pre + length zs) =
    kinds_in (scan_config c) ws (length pre) (length pre + length zs - 1) @ [True]"
proof -
  let ?z = "length pre + length zs - 1"
  have z: "Suc ?z = length pre + length zs" "length pre \<le> ?z" using assms(2) by (cases zs; simp)+
  have t: "term_at (scan_config c) ws ?z" using cl assms(2) unfolding closed_as_def by blast
  moreover have "\<not> close_at (scan_config c) ws (?z + 1)" using cl z(1) unfolding closed_as_def by simp
  ultimately have "struct_at (scan_config c) ws ?z" by (simp add: struct_at_def run_end_at_def close_at_def)
  then show ?thesis using t upt_Suc_append[OF z(2)] unfolding z(1) by (simp add: kinds_in_def structs_in_def)
qed

lemma ix_trim_ok:
  assumes cl: "closed_as c pre zs e ws" and "zs \<noteq> []" and q: "quoting c n (scan_config c)"
    and ix: "indexed c n ph ws (length pre) (length ws) first 0 0 st" and R: "ix_record_start st = 0"
  shows "indexed c n 0 ws (length pre) (length pre + (e + 1)) first 0 0 (ix_trim e st)"
proof -
  let ?cfg = "scan_config c" and ?g = "length pre" and ?P = "length pre + (e + 1)"
  note ix' = ix[unfolded indexed_def listed_def R drop_0 add_0_right]
  note nb = no_marks_behind
  have fl: "map ((+) ?g) (filter (\<lambda>x. x \<le> e) xs) = filter (\<lambda>x. x < ?P) (map ((+) ?g) xs)" for xs by (simp add: filter_map o_def less_Suc_eq_le)
  have fu: "filter (\<lambda>x. x < ?P) (filter Q [?g..<length ws]) = filter Q [?g..<?P]" if "\<And>k. length ws \<le> k \<Longrightarrow> \<not> Q k" for Q
    by (rule filter_upto[OF that])
  have es: "map ((+) ?g) (filter (\<lambda>x. x \<le> e) (e_offs st)) = ends_in ?cfg ws ?g ?P"
  proof -
    have "map ((+) ?g) (e_offs st) = ends_in ?cfg ws ?g (length ws)" using ix' by simp
    then show ?thesis unfolding fl using fu[OF nb(2)] by (simp only: ends_in_def)
  qed
  have bs: "map ((+) ?g) (filter (\<lambda>x. x \<le> e) (b_offs st)) = begins_from first ?cfg ws ?g ?P"
  proof -
    have "map ((+) ?g) (b_offs st) = begins_from first ?cfg ws ?g (length ws)" using ix' by simp
    then show ?thesis unfolding fl using fu[OF nb(3)] by (simp only: begins_from_def begins_in_def filter_append) simp
  qed
  have rs: "map ((+) ?g) (filter (\<lambda>x. x < e) (r_offs st)) = filter (removed_at ?cfg ws) [?g..<?P]"
  proof -
    have "map ((+) ?g) (filter (\<lambda>x. x < e) (r_offs st)) = filter (\<lambda>x. x < ?g + e) (map ((+) ?g) (r_offs st))"
      by (simp add: filter_map o_def)
    also have "\<dots> = filter (\<lambda>x. x < ?g + e) (filter (removed_at ?cfg ws) [?g..<length ws])" using ix' by simp
    also have "\<dots> = filter (removed_at ?cfg ws) [?g..<?g + e]" by (rule filter_upto[OF nb(4)])
    also have "\<dots> = filter (removed_at ?cfg ws) [?g..<?P]"
    proof -
      have "\<not> removed_at ?cfg ws (?g + e)"
      proof
        assume "removed_at ?cfg ws (?g + e)"
        then have "quote_at ?cfg ws (?g + e)" by (simp add: removed_at_def)
        then have b: "quote c = Some (ws ! (?g + e))" "?g + e < length ws" using quoting_at(1)[OF q] by simp_all
        obtain pads where p: "ws = pre @ zs @ pads" "\<forall>b\<in>set pads. inert c b" using cl by (auto simp: closed_as_def)
        have zl: "e \<le> length zs" "length zs \<le> e + 1" using cl by (simp_all add: closed_as_def)
        show False
        proof (cases "length zs = e + 1")
          case True
          then have "term_at ?cfg ws (?g + e)" using cl assms(2) by (auto simp: closed_as_def)
          then show False using quoting_at(3)[OF q] quoting_sel(7)[OF q b(1)] by blast
        next
          case False
          then have "ws ! (?g + e) = pads ! 0" "0 < length pads" using zl b(2) by (auto simp: p(1) nth_append)
          then have "ws ! (?g + e) \<in> set pads" by simp
          then show False using p(2) b(1) by (auto simp: inert_def)
        qed
      qed
      then show ?thesis by (simp add: upt_Suc_append)
    qed
    finally show ?thesis .
  qed
  have len: "?g + length zs \<le> length ws" "?g + length zs \<le> ?P" using cl by (auto simp: closed_as_def)
  have ks: "kinds_in ?cfg ws ?g ?P = kinds_in ?cfg ws ?g (length ws)" using kinds_closed[OF cl len(1)] kinds_closed[OF cl len(2)] by simp
  have count: "count_fields n 0 (kinds_in ?cfg ws ?g (length ws)) = Some ph" using ix' by simp
  have "ph = 0"
    using count unfolding kinds_closed[OF cl len(1)] last_kind[OF cl assms(2)]
    by (auto simp: count_fields_append split: option.splits if_splits)
  then show ?thesis
    unfolding indexed_def listed_def using ix' es bs rs count ks by (simp add: ix_trim_def R)
qed

section \<open>A quote left open\<close>

lemma last_filter_upt:
  assumes "Q k" and "a \<le> k" and "k < b" and "\<And>j. k < j \<Longrightarrow> \<not> Q j"
  shows "filter Q [a..<b] \<noteq> []" "last (filter Q [a..<b]) = k"
proof -
  have "[a..<b] = [a..<k] @ k # [k + 1..<b]"
    using assms(2,3) upt_add_eq_append[of a k "b - k"] by (simp add: upt_conv_Cons)
  moreover have "filter Q [k + 1..<b] = []" using assms(4) by (simp add: filter_empty_conv)
  ultimately have "filter Q [a..<b] = filter Q [a..<k] @ [k]" using assms(1) by simp
  then show "filter Q [a..<b] \<noteq> []" "last (filter Q [a..<b]) = k" by simp_all
qed

lemma ix_unclosed_ok:
  fixes pre buf virt pads :: "byte list"
  defines "ws \<equiv> pre @ buf @ virt @ pads"
  assumes q: "quoting c n (scan_config c)" and cl: "closing c buf virt pads" and cfg: "ix_config st = scan_config c"
    and ix: "indexed c n ph ws (length pre) (length ws) first 0 0 st" and R: "ix_record_start st = 0"
    and op: "open_before (scan_config c) buf (length buf)" and of: "open_field (scan_config c) buf f"
  shows "ix_unclosed buf (length buf) st = f"
proof -
  let ?cfg = "scan_config c" and ?g = "length pre" and ?L = "length buf" and ?F = "length pre + f"
  note ix' = ix[unfolded indexed_def listed_def R drop_0 add_0_right]
  have pl: "placed first ?cfg ws ?g" and bs: "map ((+) ?g) (b_offs st) = begins_from first ?cfg ws ?g (length ws)" using ix' by simp_all
  have st: "\<not> open_before ?cfg ws ?g" using pl by (simp add: placed_def start_at_def)
  have dr: "drop ?g ws = buf @ virt @ pads" by (simp add: ws_def)
  note at = at_drop[OF st, unfolded dr]
  have fL: "f < ?L"
  proof -
    have L: "0 < ?L" "quoted_at ?cfg buf (?L - 1)" using op by (auto simp: open_before_def)
    have "f \<noteq> ?L"
    proof
      assume "f = ?L"
      then have "close_at ?cfg buf (?L - 1)" using of L(1) struct_closes by (simp add: open_field_def)
      then show False using close_at_sel(2) L(2) by blast
    qed
    then show ?thesis using of by (simp add: open_field_def)
  qed
  have wsf: "ws ! ?F = buf ! f" "?F < length ws" using fL by (simp_all add: ws_def nth_append)
  have none: "\<not> struct_at ?cfg ws k" if "?F \<le> k" for k
  proof
    assume s: "struct_at ?cfg ws k"
    define j where "j = k - ?g"
    have k: "k = ?g + j" "f \<le> j" using that by (simp_all add: j_def)
    have c: "close_at ?cfg (buf @ virt @ pads) j" using struct_closes[OF s] at(4)[of j] by (simp add: k(1))
    show False
    proof (cases "j < ?L")
      case True
      then have "close_at ?cfg buf j" using c at_prefix(3,4)[OF True] by (simp add: close_at_def)
      then show False using of k(2) True by (simp add: open_field_def)
    next
      case False
      then have "open_before ?cfg (buf @ virt @ pads) (Suc j)" using closing_open[OF q cl, of "Suc j"] op by simp
      then show False using close_at_sel(2)[OF c] by simp
    qed
  qed
  have sf: "struct_at ?cfg ws (?F - 1)" if "0 < f"
  proof -
    have "struct_at ?cfg buf (f - 1)" using of that by (simp add: open_field_def)
    then have "struct_at ?cfg (buf @ virt @ pads) (f - 1)" using marks_prefix(1)[of "f - 1" buf ?cfg "virt @ pads"] fL that by simp
    then have "struct_at ?cfg ws (?g + (f - 1))" using at(3) by simp
    moreover have "?g + (f - 1) = ?F - 1" using that by simp
    ultimately show ?thesis by simp
  qed
  let ?k = "field_begin ?cfg ws ?F"
  have later: "\<not> begin_at ?cfg ws k" if "?k < k" for k
  proof
    assume b: "begin_at ?cfg ws k"
    have Fk: "?F \<le> k - 1" using that by (auto simp: field_begin_def split: if_splits)
    then have o: "opener_at ?cfg ws (k - 1)" using b none[of "k - 1"] by (auto simp: begin_at_def)
    then have "\<not> ?F \<le> k - 1 - 1" using none[of "k - 1 - 1"] by (auto simp: opener_at_def)
    then have "k - 1 = ?F" using Fk by simp
    then show False using that o Fk by (auto simp: field_begin_def)
  qed
  show ?thesis
  proof (cases "0 < ?F \<and> struct_at ?cfg ws (?F - 1)")
    case True
    have k: "begin_at ?cfg ws ?k" "?g \<le> ?k" "?k < length ws"
    proof -
      have "?F + 1 < length ws" if o: "opener_at ?cfg ws ?F"
      proof (cases "f + 1 < ?L")
        case t: True
        then show ?thesis by (simp add: ws_def)
      next
        case False
        then have "f = ?L - 1" using fL by simp
        moreover have "buf \<noteq> []" using fL by auto
        ultimately have l: "last buf = buf ! f" by (simp add: last_conv_nth)
        have "quote c = Some (buf ! f)" using o quoting_at(1)[OF q, of ws ?F] wsf by (simp add: opener_at_def)
        then have "\<not> terminates c (last buf)" using quoting_sel(7)[OF q] l by simp
        then have "virt \<noteq> []" using cl \<open>buf \<noteq> []\<close> by (auto simp: closing_def)
        then show ?thesis using fL by (cases virt) (simp_all add: ws_def)
      qed
      then have "begin_at ?cfg ws ?k \<and> ?g \<le> ?k \<and> ?k < length ws"
      proof (cases "opener_at ?cfg ws ?F")
        case o: True
        moreover from \<open>opener_at ?cfg ws ?F \<Longrightarrow> ?F + 1 < length ws\<close>[OF this] have "begin_at ?cfg ws (?F + 1)" by (simp add: begin_at_def o)
        ultimately show ?thesis by (simp add: field_begin_def begin_at_def)
      next
        case o: False
        then have "\<not> quote_at ?cfg ws ?F" using True unfolding opener_at_def by blast
        then have "begin_at ?cfg ws ?F" using True wsf(2) by (simp add: begin_at_def)
        then show ?thesis using o wsf(2) by (simp add: field_begin_def)
      qed
      then show "begin_at ?cfg ws ?k" "?g \<le> ?k" "?k < length ws" by simp_all
    qed
    note lf = last_filter_upt[of "begin_at ?cfg ws", OF k later]
    have ne: "begins_from first ?cfg ws ?g (length ws) \<noteq> []" "last (begins_from first ?cfg ws ?g (length ws)) = ?k"
      using lf by (simp_all add: begins_from_def begins_in_def)
    then have "b_offs st \<noteq> []" using bs by auto
    then have "?g + last (b_offs st) = ?k" using ne(2) bs last_map[of "b_offs st" "(+) ?g"] by simp
    then have b: "b_offs st \<noteq> []" "last (b_offs st) = (if opener_at ?cfg ws ?F then f + 1 else f)"
      using \<open>b_offs st \<noteq> []\<close> by (auto simp: field_begin_def split: if_splits)
    show ?thesis
    proof (cases "opener_at ?cfg ws ?F")
      case o: True
      then have "quote c = Some (buf ! f)" using quoting_at(1)[OF q, of ws ?F] wsf by (simp add: opener_at_def)
      then show ?thesis using b o fL by (simp add: ix_unclosed_def cfg quoting_sel(2)[OF q])
    next
      case False
      have "quote c \<noteq> Some (buf ! (f - 1))" if "0 < f"
      proof -
        have "\<not> quote_at ?cfg ws (?F - 1)" using close_no_quote(1)[OF q struct_closes] True by blast
        moreover have "ws ! (?F - 1) = buf ! (f - 1)" "?F - 1 < length ws" using fL that by (auto simp: ws_def nth_append)
        ultimately show ?thesis using quoting_at(1)[OF q, of ws "?F - 1"] by simp
      qed
      then show ?thesis using b False by (auto simp: ix_unclosed_def cfg quoting_sel(2)[OF q])
    qed
  next
    case False
    have f0: "f = 0"
    proof (rule ccontr)
      assume "f \<noteq> 0"
      then have "0 < f" by simp
      from sf[OF this] this show False using False by simp
    qed
    then have fst: "first" using pl False by (auto simp: placed_def)
    have "\<not> begin_at ?cfg ws k" if "?g \<le> k" for k
    proof (cases "k = ?g")
      case True
      have "\<not> (0 < ?g \<and> quote_at ?cfg ws (?g - 1))" using pl by (auto simp: placed_def start_at_def)
      then show ?thesis using False f0 True by (auto simp: begin_at_def opener_at_def)
    next
      case k: False
      have "?k = ?g" using False f0 by (auto simp: field_begin_def opener_at_def)
      then show ?thesis using later[of k] k that by simp
    qed
    then have "begins_in ?cfg ws ?g (length ws) = []" by (simp add: begins_in_def filter_empty_conv)
    then have "map ((+) ?g) (b_offs st) = [?g]" using bs fst by (simp add: begins_from_def)
    then have "b_offs st = [0]" by auto
    then show ?thesis by (simp add: ix_unclosed_def f0)
  qed
qed

section \<open>The last call\<close>

lemma ix_drain_end_kept:
  "ix_drain acc buf e rem tot n head r_head s st = Inr (lre, s') \<Longrightarrow> ix_last_record_end st \<noteq> None \<Longrightarrow> lre \<noteq> None"
proof (induction acc buf e rem tot n head r_head s st rule: ix_drain.induct)
  case (1 acc buf e rem tot n head r_head s st)
  show ?case
  proof (cases "0 < n \<and> n \<le> length (e_offs st) - head")
    case False
    from 1(2)[unfolded ix_drain.simps[of acc buf e rem tot n head r_head s st] if_not_P[OF False]] 1(3) show ?thesis by simp
  next
    case True
    note run = 1(2)[unfolded ix_drain.simps[of acc buf e rem tot n head r_head s st] if_P[OF True]]
    show ?thesis using run 1(1)[OF True] by (auto simp: Let_def split: sum.splits prod.splits if_splits)
  qed
qed

context lawful_isa begin

lemma ix_finalize_ok:
  fixes acc :: "('s, 'u) accumulator"
  assumes rel: "index_rel c n buf tot 0 pos (length buf) st m" and "length buf < 2 ^ 63"
    and fin: "try_bind (ix_finalize I acc \<lparr>ctx_buf = buf, scan_start = pos, scan_end = length buf,
        remaining_in_chunk = L - tot, total_consumed = tot\<rparr> (m_acc m) st)
        (\<lambda>(lre, s). Inr (case lre of Some x \<Rightarrow> Some x | None \<Rightarrow> m_last_end m, s)) = out"
  shows "out = spec_rest c acc L tot buf m \<or> (\<exists>err. out = Inl err \<and> error_ahead c tot buf m err)"
proof -
  let ?cfg = "scan_config c"
  have pos: "pos \<le> length buf" "length buf - pos < 64" and R: "ix_record_start st = 0" using rel by (simp_all add: index_rel_def)
  obtain pre where pass0: "ix_pass c n (pre @ buf) (length pre) pos 0 0 m (chunk_started st)" using rel by (auto simp: index_rel_def)
  let ?g = "length pre"
  show ?thesis
  proof (cases "length buf = 0")
    case True
    then have "ix_finalize I acc \<lparr>ctx_buf = buf, scan_start = pos, scan_end = length buf, remaining_in_chunk = L - tot,
        total_consumed = tot\<rparr> (m_acc m) st = Inr (ix_last_record_end st, m_acc m)" using pos by (simp add: ix_finalize_def Let_def)
    moreover have "ix_last_record_end st = m_last_end m" "at_record m" using pass0 by (simp_all add: ix_pass_def chunk_started_def split: if_splits)
    ultimately have "out = Inr (m_last_end m, m_acc m)" using fin by (auto split: option.splits)
    then show ?thesis using True \<open>at_record m\<close> by (simp add: spec_finish_def at_record_def)
  next
    case False
    then have ne: "buf \<noteq> []" "chunk_started st = st" using rel by (auto simp: index_rel_def chunk_started_def)
    have co: "index_config c n st" and q: "quoting c n ?cfg" and at: "at_record m" "ix_last_record_end st = m_last_end m"
      using pass0 ne(2) by (simp_all add: ix_pass_def scanned_def index_config_def)
    define virt where "virt = tail_virt st buf"
    define pads where "pads = tail_pads st buf pos"
    define ws where "ws = pre @ buf @ virt @ pads"
    have cl: "closing c buf virt pads" unfolding virt_def pads_def by (rule tail_closing[OF co])
    have pass: "ix_pass c n ws ?g pos 0 0 m st" using ix_pass_closed[OF pass0[unfolded ne(2)] R pos(1) ne(1)] by (simp add: ws_def)
    then have sc: "scanned c n ws ?g (?g + pos - 64) 0 0 st" and sat: "scanner_at ?cfg ws (?g + pos) (ix_scanner st)"
      by (simp_all add: ix_pass_def)
    obtain first0 where ix0: "indexed c n (phase (ix_counter st)) ws ?g (?g + pos - 64) first0 0 0 st" using sc by (auto simp: scanned_def)
    have start: "\<not> open_before ?cfg ws ?g" "buf \<noteq> [] \<longrightarrow> \<not> terminates c (buf ! 0)"
      using ix0 ne(1) R by (auto simp: indexed_def listed_def placed_def start_at_def ws_def nth_append)
    have dr: "drop ?g ws = buf @ virt @ pads" by (simp add: ws_def)
    have kinds: "kinds_in ?cfg ws ?g (?g + k) = kinds_in ?cfg (buf @ virt @ pads) 0 k" for k
      using kinds_in_drop[OF start(1), of k] dr by simp
    have bad: "error_ahead c tot buf m (ix_arity_error st' buf tot :: 'u Error)"
      if none: "count_fields n 0 (kinds_in ?cfg ws ?g k) = None" and st': "index_config c n st'" "ix_record_start st' = 0" for k st'
    proof -
      have "?g \<le> k"
      proof (rule ccontr)
        assume "\<not> ?g \<le> k"
        then show False using none by (simp add: kinds_in_def structs_in_def)
      qed
      then have none': "count_fields n 0 (kinds_in ?cfg (buf @ virt @ pads) 0 (k - ?g)) = None" using none kinds[of "k - ?g"] by simp
      obtain s f where loop: "locate_loop buf n (delimiter c) (terminates c) (quote c) 0 0 1 False = (s, f)" by fastforce
      have "ix_arity_error st' buf tot = (NumberOfFields n f (at_byte (tot + s)) :: 'u Error)"
        using ix_arity_error_loop[OF st'(1), of buf s f tot] loop st'(2) by simp
      then show ?thesis using closing_arity_error[OF q at(1) start(2) cl none' loop, of tot, where 'u = 'u] by simp
    qed
    obtain st1 cursor where tl: "(ix_tail I buf pos (length buf) tot st :: 'u Error + nat \<times> SimdIndexStepper) = Inr (cursor, st1) \<and>
        length ws = ?g + cursor \<and> cursor < 2 ^ 63 + 64 \<and> scanned c n ws ?g (?g + cursor - 64) 0 0 st1 \<and>
        scanner_at ?cfg ws (?g + cursor) (ix_scanner st1) \<and> ix_last_record_end st1 = ix_last_record_end st \<or>
      (ix_tail I buf pos (length buf) tot st :: 'u Error + nat \<times> SimdIndexStepper) = Inl (ix_arity_error st1 buf tot) \<and>
        count_fields n 0 (kinds_in ?cfg ws ?g (?g + pos)) = None"
      and st1: "index_config c n st1" "ix_record_start st1 = 0"
    proof -
      note tv = ix_tail_vector(1)[OF pos, where 'u = 'u and st = st and tot = tot, folded virt_def pads_def]
        ix_tail_vector(2)[OF pos, where st = st, folded virt_def pads_def]
      have wl: "length ws = ?g + length (buf @ virt @ pads)" by (simp add: ws_def)
      show ?thesis
      proof (cases "length (buf @ virt @ pads) = pos")
        case True
        have "pos < 2 ^ 63 + 64" using pos(1) assms(2) by simp
        then show ?thesis using that[of pos st] tv(1) True wl sc sat co R by simp
      next
        case False
        then have l: "length ws = ?g + pos + 64" using tv(2) wl by simp
        have v: "drop pos (buf @ virt @ pads) = subslice ws (?g + pos) (?g + pos + 64)"
          using l by (simp add: subslice_def ws_def)
        have "pos < 2 ^ 63 + 64" using pos(1) assms(2) by simp
        obtain ok st2 where vec: "ix_vector I (drop pos (buf @ virt @ pads)) (of_nat pos - of_nat VECTOR_BYTES) st = (ok, st2)" by fastforce
        note vo = ix_vector_ok[OF sc sat v eq_refl[OF l[symmetric]] \<open>pos < 2 ^ 63 + 64\<close> vec]
        have small: "pos + VECTOR_BYTES < 2 ^ 63 + 64" using pos(1) assms(2) by (simp add: VECTOR_BYTES_def)
        show ?thesis
        proof (cases ok)
          case True
          then show ?thesis
            using that[of "pos + VECTOR_BYTES" st2] tv(1) False l vec vo(1,2,5,6) vo(8)[OF True] R small by (simp add: VECTOR_BYTES_def add.assoc)
        next
          case nok: False
          then show ?thesis using that[of pos st2] tv(1) False vec vo(1,5) vo(9)[OF nok] R by simp
        qed
      qed
    qed
    note unf = fin[unfolded ix_finalize_def StepCtx.select_convs Let_def]
    from tl show ?thesis
    proof (elim disjE conjE)
      assume t: "(ix_tail I buf pos (length buf) tot st :: 'u Error + nat \<times> SimdIndexStepper) = Inl (ix_arity_error st1 buf tot)"
        and none: "count_fields n 0 (kinds_in ?cfg ws ?g (?g + pos)) = None"
      have "out = Inl (ix_arity_error st1 buf tot)" using unf ne(1) t by simp
      then show ?thesis using bad[OF none st1] by blast
    next
      assume t: "(ix_tail I buf pos (length buf) tot st :: 'u Error + nat \<times> SimdIndexStepper) = Inr (cursor, st1)"
        and l: "length ws = ?g + cursor" "cursor < 2 ^ 63 + 64" and sc1: "scanned c n ws ?g (?g + cursor - 64) 0 0 st1"
        and sat1: "scanner_at ?cfg ws (?g + cursor) (ix_scanner st1)" and le1: "ix_last_record_end st1 = ix_last_record_end st"
      have "ws \<noteq> []" using ne(1) by (simp add: ws_def)
      from ix_drain_scanner_ok[OF sc1 sat1 l(1) this l(2), of "take (length buf) buf" tot, where 'u = 'u] obtain st2 where
        s2: "ix_record_start st2 = 0" "ix_last_record_end st2 = m_last_end m" "index_config c n st2"
        "(ix_drain_scanner I (take (length buf) buf) cursor tot st1 :: 'u Error + SimdIndexStepper) = Inr st2 \<and> scanned c n ws ?g (length ws) 0 0 st2 \<and>
           (scanner_in_quotes (ix_scanner st2) \<longleftrightarrow> open_before ?cfg ws (length ws)) \<or>
         (ix_drain_scanner I (take (length buf) buf) cursor tot st1 :: 'u Error + SimdIndexStepper) = Inl (ix_arity_error st2 (take (length buf) buf) tot) \<and>
           count_fields n 0 (kinds_in ?cfg ws (?g + ix_record_start st1) (length ws)) = None"
        using st1(2) le1 at(2) by metis
      from s2(4) show ?thesis
      proof (elim disjE conjE)
        assume d: "(ix_drain_scanner I (take (length buf) buf) cursor tot st1 :: 'u Error + SimdIndexStepper) = Inl (ix_arity_error st2 (take (length buf) buf) tot)"
          and none: "count_fields n 0 (kinds_in ?cfg ws (?g + ix_record_start st1) (length ws)) = None"
        have "out = Inl (ix_arity_error st2 buf tot)" using unf ne(1) t d by simp
        moreover have "count_fields n 0 (kinds_in ?cfg ws ?g (length ws)) = None" using none st1(2) by simp
        ultimately show ?thesis using bad[OF _ s2(3,1)] by blast
      next
        assume d: "(ix_drain_scanner I (take (length buf) buf) cursor tot st1 :: 'u Error + SimdIndexStepper) = Inr st2"
          and sc2: "scanned c n ws ?g (length ws) 0 0 st2" and iq: "scanner_in_quotes (ix_scanner st2) \<longleftrightarrow> open_before ?cfg ws (length ws)"
        obtain first where ix2: "indexed c n (phase (ix_counter st2)) ws ?g (length ws) first 0 0 st2" using sc2 by (auto simp: scanned_def)
        have opn: "open_before ?cfg ws (length ws) \<longleftrightarrow> open_before ?cfg buf (length buf)"
        proof -
          have len: "0 < length (buf @ virt @ pads)" "length ws = ?g + length (buf @ virt @ pads)" using ne(1) by (simp_all add: ws_def)
          then have "length ws - 1 = ?g + (length (buf @ virt @ pads) - 1)" "0 < length ws" by linarith+
          then have "open_before ?cfg ws (length ws) = open_before ?cfg (buf @ virt @ pads) (length (buf @ virt @ pads))"
            using quoted_at_drop[OF start(1), of "length (buf @ virt @ pads) - 1"] len(1) unfolding dr open_before_def by metis
          then show ?thesis using closing_open[OF q cl] by simp
        qed
        have wl: "length ws = ?g + length (buf @ virt @ pads)" by (simp add: ws_def)
        have count: "count_fields n 0 (kinds_in ?cfg (buf @ virt @ pads) 0 (length (buf @ virt @ pads))) = Some (phase (ix_counter st2))"
        proof -
          have "count_fields n 0 (kinds_in ?cfg ws ?g (length ws)) = Some (phase (ix_counter st2))"
            using ix2 s2(1) by (simp add: indexed_def listed_def)
          then show ?thesis unfolding wl kinds .
        qed
        show ?thesis
        proof (cases "open_before ?cfg buf (length buf)")
          case op: True
          have ph: "count_fields n 0 (kinds_in ?cfg buf 0 (length buf)) = Some (phase (ix_counter st2))"
            using count op unfolding closing_kinds[OF q cl] by simp
          obtain f where f: "open_field ?cfg buf f" "error_ahead c tot buf m (UnclosedQuote (at_byte (tot + f)) :: 'u Error)"
            by (rule closing_unclosed[OF q at(1) start(2) ph op])
          have "ix_config st2 = ?cfg" using s2(3) by (simp add: index_config_def)
          from ix_unclosed_ok[OF q cl this ix2[unfolded ws_def] s2(1) op f(1)]
          have "out = Inl (UnclosedQuote (at_byte (tot + f)))" using unf ne(1) t d iq opn op by simp
          then show ?thesis using f(2) by blast
        next
          case op: False
          have ca: "closed_as c pre (buf @ virt) (length buf) ws"
            unfolding ws_def by (rule closed_as_closing[OF q cl start(1)[unfolded ws_def] op])
          have zne: "buf @ virt \<noteq> []" using ne(1) by simp
          from ix_trim_ok[OF ca zne q ix2 s2(1)]
          have ix3: "indexed c n 0 ws ?g (?g + (length buf + 1)) first 0 0 (ix_trim (length buf) st2)" .
          have s3: "ix_record_start (ix_trim (length buf) st2) = 0" "ix_last_record_end (ix_trim (length buf) st2) = m_last_end m"
            "\<And>b. ix_is_term (ix_trim (length buf) st2) b \<longleftrightarrow> terminates c b" "ix_counter (ix_trim (length buf) st2) = ix_counter st2"
            using s2(1,2) index_config_term[OF s2(3)] by (simp_all add: ix_trim_def ix_is_term_def)
          have fc: "fc_n (ix_counter st2) = n" using s2(3) by (simp add: index_config_def)
          have drain: "ix_drain acc buf (length buf) (L - tot) tot n 0 0 (m_acc m) (ix_trim (length buf) st2) = spec_rest c acc L tot buf m"
          proof -
            have "ix_drain acc buf (length buf) (L - tot) tot n 0 0 (m_acc m) (ix_trim (length buf) st2) =
                spec_rest c acc L (tot + ix_record_start (ix_trim (length buf) st2)) (drop (ix_record_start (ix_trim (length buf) st2)) (buf @ virt)) m"
              by (rule ix_drain_ok[OF q ca s3(3) refl _ _ ix3 at(1) s3(2)]) (simp_all add: nth_append s3(1))
            then show ?thesis using closing_spec_rest[OF q at(1) start(2) cl op, of acc L tot] by (simp add: s3(1))
          qed
          have out: "out = try_bind (spec_rest c acc L tot buf m) (\<lambda>(lre, s). Inr (case lre of Some x \<Rightarrow> Some x | None \<Rightarrow> m_last_end m, s))"
            using unf ne(1) t d iq opn op by (simp add: fc drain)
          have "out = spec_rest c acc L tot buf m"
          proof (cases "spec_rest c acc L tot buf m")
            case (Inr r)
            obtain lre s where r: "r = (lre, s)" by fastforce
            have "lre = None \<Longrightarrow> m_last_end m = None"
              using ix_drain_end_kept[OF drain[unfolded Inr r]] s3(2) by (cases "m_last_end m") auto
            then show ?thesis unfolding out Inr r by (auto split: option.splits)
          qed (simp add: out)
          then show ?thesis ..
        qed
      qed
    qed
  qed
qed

end

end
