(* ===== verification/FindStart.thy ===== *)
theory FindStart
  imports Bitmask DfaChunk
begin

text \<open>
  src/src/parser/simd/findstart.rs: the search for a record boundary 64 bytes at a time, under a strict probe that
  rejects quotes which contradict the assumption. It is shown to be the byte-by-byte search of theory
  \<open>DfaChunk\<close>, which the DFA parser implements too.
\<close>

unbundle bit_operations_syntax

section \<open>The search\<close>

definition initial_carry :: "Config \<Rightarrow> Assumption \<Rightarrow> bool" where
  "initial_carry c a = (case a of
       OutOfQuotes \<Rightarrow> False | InQuotes \<Rightarrow> True | InQuotesAfterEscape \<Rightarrow> quote c \<noteq> escape c)"

definition strict_err :: "nat \<Rightarrow> 'u Error" where
  "strict_err off = InvalidQuote (at_byte off)"

record StrictProbe =
  prev_last_bnd :: bool
  pending_closer_msb :: "nat option"

definition strict_probe_new :: StrictProbe where
  "strict_probe_new = \<lparr>prev_last_bnd = True, pending_closer_msb = None\<rparr>"

text \<open>The lowest set bit, if there is one.\<close>

definition first_bit :: "u64 \<Rightarrow> nat option" where
  "first_bit w = (if w \<noteq> 0 then Some (trailing_zeros w) else None)"

text \<open>\<open>check\<close> past the deferred closer: the misplaced quotes of one vector.\<close>

definition probe_quotes ::
    "StrictProbe \<Rightarrow> Structural \<Rightarrow> u64 \<Rightarrow> nat \<Rightarrow> nat option \<Rightarrow> nat \<Rightarrow> u64 \<Rightarrow> 'u Error option \<times> StrictProbe" where
  "probe_quotes pr s m avail term_bit tot bnd =
     (let openers = quote_bits s AND m;
          closers = quote_bits s AND NOT m;
          left_bnd = push_bit 1 bnd OR of_bool (prev_last_bnd pr);
          right_bnd = drop_bit 1 bnd;
          bad_openers = openers AND NOT left_bnd;
          bad_closers = closers AND NOT right_bnd;
          MSB = push_bit 63 1;
          (bad_closers, pr) = (if avail = VECTOR_BYTES \<and> bad_closers AND MSB \<noteq> 0
            then (bad_closers AND NOT MSB, pr\<lparr>pending_closer_msb := Some (tot + VECTOR_BYTES)\<rparr>)
            else (bad_closers, pr));
          bad_closers = (if avail < VECTOR_BYTES \<and> 0 < avail then bad_closers AND NOT (push_bit (avail - 1) 1)
            else bad_closers);
          cutoff = (case term_bit of Some b \<Rightarrow> b | None \<Rightarrow> avail);
          mask_below = (if 64 \<le> cutoff then - 1 else push_bit cutoff 1 - 1);
          opener = first_bit (bad_openers AND mask_below);
          closer = map_option (\<lambda>k. k + 1) (first_bit (bad_closers AND mask_below))
      in (case (opener, closer) of
            (None, None) \<Rightarrow> None
          | (Some i, None) \<Rightarrow> Some (strict_err (tot + i))
          | (None, Some j) \<Rightarrow> Some (strict_err (tot + j))
          | (Some i, Some j) \<Rightarrow> Some (strict_err (tot + min i j)), pr))"

definition probe_check ::
    "StrictProbe \<Rightarrow> Structural \<Rightarrow> u64 \<Rightarrow> nat \<Rightarrow> nat option \<Rightarrow> nat \<Rightarrow> 'u Error option \<times> StrictProbe" where
  "probe_check pr s m avail term_bit tot =
     (let bnd = delim_bits s OR term_bits s OR quote_bits s;
          pr1 = pr\<lparr>pending_closer_msb := None\<rparr>
      in case pending_closer_msb pr of
           Some pos \<Rightarrow> if bnd AND 1 = 0 then (Some (strict_err pos), pr1)
             else probe_quotes pr1 s m avail term_bit tot bnd
         | None \<Rightarrow> probe_quotes pr1 s m avail term_bit tot bnd)"

definition probe_advance :: "StrictProbe \<Rightarrow> Structural \<Rightarrow> StrictProbe" where
  "probe_advance pr s =
     pr\<lparr>prev_last_bnd := drop_bit 63 (delim_bits s OR term_bits s OR quote_bits s) \<noteq> 0\<rparr>"

text \<open>One vector: its masks, the first out-of-quotes terminator within the real bytes and the carry out.\<close>

definition find_vector :: "isa \<Rightarrow> Config \<Rightarrow> byte \<Rightarrow> bool \<Rightarrow> byte list \<Rightarrow> nat \<Rightarrow> Structural \<times> u64 \<times> bool \<times> nat option" where
  "find_vector I c pad carry buf avail =
     (let v = (if avail = VECTOR_BYTES then take VECTOR_BYTES buf
               else take avail buf @ replicate (VECTOR_BYTES - avail) pad);
          (t, t2) = terminator_bytes (terminator c);
          s = match_structural I v (delimiter c) t t2 (quote c);
          (m, new_carry) = compute_in_quotes I (quote_bits s) carry;
          structural_term = term_bits s AND structural_delims s m;
          term_bit = (case first_bit structural_term of Some b \<Rightarrow> if b < avail then Some b else None | None \<Rightarrow> None)
      in (s, m, new_carry, term_bit))"

partial_function (option) simd_find_loop ::
    "'r reader_ops \<Rightarrow> isa \<Rightarrow> Config \<Rightarrow> byte \<Rightarrow> bool \<Rightarrow> bool \<Rightarrow> nat \<Rightarrow> StrictProbe \<Rightarrow> 'r
      \<Rightarrow> (('u Error + nat option) \<times> 'r) option" where
  "simd_find_loop R I c pad strict carry tot probe r =
     (case r_fill R VECTOR_BYTES r of
        (Inl e, r1) \<Rightarrow> Some (Inl (IO e), r1)
      | (Inr _, r1) \<Rightarrow>
          (let buf = r_buffer R r1; chunk_end = r_remaining R r1 in
           if buf = [] \<or> chunk_end = 0 then Some (Inr None, r1)
           else (let scan_end = min chunk_end (length buf);
                     avail = min scan_end VECTOR_BYTES;
                     (s, m, new_carry, term_bit) = find_vector I c pad carry buf avail;
                     (err, probe1) = (if strict then probe_check probe s m avail term_bit tot else (None, probe))
                 in case err of
                      Some e \<Rightarrow> Some (Inl e, r1)
                    | None \<Rightarrow> (case term_bit of
                          Some b \<Rightarrow> Some (Inr (Some (tot + b)), r_consume R b r1)
                        | None \<Rightarrow>
                            if avail < VECTOR_BYTES then Some (Inr None, r1)
                            else simd_find_loop R I c pad strict new_carry (tot + VECTOR_BYTES)
                                   (if strict then probe_advance probe1 s else probe1)
                                   (r_consume R VECTOR_BYTES r1)))))"

definition simd_find_record_start ::
    "'r reader_ops \<Rightarrow> isa \<Rightarrow> Config \<Rightarrow> Assumption \<Rightarrow> bool \<Rightarrow> 'r \<Rightarrow> (('u Error + nat option) \<times> 'r) option" where
  "simd_find_record_start R I c a strict r =
     (case terminator_bytes (terminator c) of (t, t2) \<Rightarrow>
        (case neutral_pad (delimiter c) t t2 (quote c) of
           None \<Rightarrow> None
         | Some pad \<Rightarrow> simd_find_loop R I c pad strict (initial_carry c a) 0 strict_probe_new r))"

section \<open>The reference search on bytes, by position\<close>

text \<open>The dialects in which the two searches agree: no escape byte of its own.\<close>

definition toggles :: "Config \<Rightarrow> bool \<Rightarrow> bool" where
  "toggles c strict \<longleftrightarrow> dialect_ok c \<and> comment c = None \<and> (escape c = quote c \<or> escape c = None \<and> \<not> strict)"

definition quote_step :: "Config \<Rightarrow> byte \<Rightarrow> State \<Rightarrow> State" where
  "quote_step c b q =
     (if q = InQuotedField then (if quote c = Some b then AfterClosingQuote else InQuotedField)
      else if quote c = Some b then InQuotedField
      else if b = delimiter c then FieldStart else InField)"

definition misplaced :: "Config \<Rightarrow> byte \<Rightarrow> State \<Rightarrow> bool" where
  "misplaced c b q \<longleftrightarrow> q = InField \<and> quote c = Some b \<or>
     q = AfterClosingQuote \<and> quote c \<noteq> Some b \<and> b \<noteq> delimiter c \<and> \<not> is_terminator (terminator c) b"

definition tracking :: "State \<Rightarrow> bool" where
  "tracking q \<longleftrightarrow> q \<in> {FieldStart, InField, InQuotedField, AfterClosingQuote}"

lemma tracking_step [simp]: "tracking (quote_step c b q)"
  by (simp add: tracking_def quote_step_def)

lemma search_byte_toggle:
  assumes "toggles c strict" and "tracking q"
  shows "search_byte (c\<lparr>quote_handling := Toggle\<rparr>) strict p b q =
    (if q \<noteq> InQuotedField \<and> is_terminator (terminator c) b then FoundEnd p
     else if strict \<and> misplaced c b q then RejectedByte p
     else Searching (quote_step c b q))"
proof -
  have d: "\<not> is_terminator (terminator c) (delimiter c)" "quote c \<noteq> Some (delimiter c)"
    "\<And>b. quote c = Some b \<Longrightarrow> \<not> is_terminator (terminator c) b"
    "escape c = quote c \<or> escape c = None \<and> \<not> strict"
    using assms(1) by (auto simp: toggles_def dialect_ok_def apart_def)
  have dq: "doubled_quotes c' \<longleftrightarrow> quote c \<noteq> None \<and> escape c = quote c" if "quote c' = quote c" "escape c' = escape c" for c'
    using that by (auto simp: doubled_quotes_def split: option.splits)
  note cells = search_byte_def transition_def dfa_new_def quote_step_def misplaced_def Let_def
  from assms(2) consider "q = FieldStart" | "q = InField" | "q = InQuotedField" | "q = AfterClosingQuote"
    by (auto simp: tracking_def)
  then show ?thesis
  proof cases
    case 1
    with d show ?thesis by (auto simp: cells field_start_cell_def)
  next
    case 2
    with d show ?thesis by (auto simp: cells in_field_cell_def)
  next
    case 3
    with d show ?thesis by (auto simp: cells in_quoted_cell_def dq)
  next
    case 4
    with d show ?thesis by (auto simp: cells after_closing_cell_def dq)
  qed
qed

text \<open>The state before byte \<open>k\<close>, stops ignored, and the byte a search stops at.\<close>

definition track :: "Config \<Rightarrow> State \<Rightarrow> byte list \<Rightarrow> nat \<Rightarrow> State" where
  "track c q v k = fold (quote_step c) (take k v) q"

definition ends_at :: "Config \<Rightarrow> State \<Rightarrow> byte list \<Rightarrow> nat \<Rightarrow> bool" where
  "ends_at c q v i \<longleftrightarrow> track c q v i \<noteq> InQuotedField \<and> is_terminator (terminator c) (v ! i)"

definition clashes_at :: "Config \<Rightarrow> State \<Rightarrow> byte list \<Rightarrow> nat \<Rightarrow> bool" where
  "clashes_at c q v i \<longleftrightarrow> misplaced c (v ! i) (track c q v i)"

lemma track_0 [simp]: "track c q v 0 = q"
  by (simp add: track_def)

lemma track_Suc: "k < length v \<Longrightarrow> track c q v (Suc k) = quote_step c (v ! k) (track c q v k)"
  by (simp add: track_def take_Suc_conv_app_nth)

lemma track_Cons: "track c q (b # v) (Suc k) = track c (quote_step c b q) v k"
  by (simp add: track_def)

lemma tracking_track: "tracking q \<Longrightarrow> tracking (track c q v k)"
proof (induction v arbitrary: q k)
  case (Cons b v)
  then show ?case by (cases k) (simp_all add: track_def)
qed (simp add: track_def)

lemma search_run_positions:
  fixes v :: "byte list" and p :: nat
  assumes "toggles c strict" and "tracking q"
  defines "run \<equiv> search_run (c\<lparr>quote_handling := Toggle\<rparr>) strict p v q"
  shows "\<forall>i<length v. \<not> ends_at c q v i \<and> \<not> (strict \<and> clashes_at c q v i) \<Longrightarrow> run = Searching (track c q v (length v))"
    and "x < length v \<Longrightarrow> \<forall>i<x. \<not> ends_at c q v i \<and> \<not> (strict \<and> clashes_at c q v i) \<Longrightarrow>
      ends_at c q v x \<Longrightarrow> run = FoundEnd (p + x)"
    and "x < length v \<Longrightarrow> \<forall>i<x. \<not> ends_at c q v i \<and> \<not> (strict \<and> clashes_at c q v i) \<Longrightarrow>
      strict \<Longrightarrow> clashes_at c q v x \<Longrightarrow> \<not> ends_at c q v x \<Longrightarrow> run = RejectedByte (p + x)"
proof -
  have "((\<forall>i<length v. \<not> ends_at c q v i \<and> \<not> (strict \<and> clashes_at c q v i)) \<longrightarrow>
       search_run (c\<lparr>quote_handling := Toggle\<rparr>) strict p v q = Searching (track c q v (length v))) \<and>
    (\<forall>x<length v. (\<forall>i<x. \<not> ends_at c q v i \<and> \<not> (strict \<and> clashes_at c q v i)) \<longrightarrow>
      (ends_at c q v x \<longrightarrow> search_run (c\<lparr>quote_handling := Toggle\<rparr>) strict p v q = FoundEnd (p + x)) \<and>
      (strict \<and> clashes_at c q v x \<and> \<not> ends_at c q v x \<longrightarrow>
        search_run (c\<lparr>quote_handling := Toggle\<rparr>) strict p v q = RejectedByte (p + x)))"
    using assms(2)
  proof (induction v arbitrary: q p)
    case (Cons b v)
    note byte = search_byte_toggle[OF assms(1) Cons.prems, of p b]
    have at: "ends_at c q (b # v) (Suc i) = ends_at c (quote_step c b q) v i"
      "clashes_at c q (b # v) (Suc i) = clashes_at c (quote_step c b q) v i" for i
      by (simp_all add: ends_at_def clashes_at_def track_Cons)
    have at0: "ends_at c q (b # v) 0 \<longleftrightarrow> q \<noteq> InQuotedField \<and> is_terminator (terminator c) b"
      "clashes_at c q (b # v) 0 \<longleftrightarrow> misplaced c b q"
      by (simp_all add: ends_at_def clashes_at_def)
    note IH = Cons.IH[of "quote_step c b q" "p + 1", OF tracking_step]
    show ?case
    proof (cases "ends_at c q (b # v) 0 \<or> strict \<and> clashes_at c q (b # v) 0")
      case True
      have first: "x = 0" if "\<forall>i<x. \<not> ends_at c q (b # v) i \<and> \<not> (strict \<and> clashes_at c q (b # v) i)" for x
        using True that by (cases x) auto
      have "\<not> (\<forall>i<length (b # v). \<not> ends_at c q (b # v) i \<and> \<not> (strict \<and> clashes_at c q (b # v) i))"
        using first[of "length (b # v)"] by blast
      moreover have "ends_at c q (b # v) 0 \<Longrightarrow> search_run (c\<lparr>quote_handling := Toggle\<rparr>) strict p (b # v) q = FoundEnd (p + 0)"
        "strict \<and> clashes_at c q (b # v) 0 \<and> \<not> ends_at c q (b # v) 0 \<Longrightarrow>
          search_run (c\<lparr>quote_handling := Toggle\<rparr>) strict p (b # v) q = RejectedByte (p + 0)"
        using byte unfolding at0 by auto
      ultimately show ?thesis using first by blast
    next
      case False
      then have "search_byte (c\<lparr>quote_handling := Toggle\<rparr>) strict p b q = Searching (quote_step c b q)"
        unfolding byte at0 by auto
      then have run: "search_run (c\<lparr>quote_handling := Toggle\<rparr>) strict p (b # v) q =
          search_run (c\<lparr>quote_handling := Toggle\<rparr>) strict (p + 1) v (quote_step c b q)"
        by simp
      show ?thesis
        using IH False unfolding run by (auto simp: All_less_Suc2 track_Cons at)
    qed
  qed simp
  then show "\<forall>i<length v. \<not> ends_at c q v i \<and> \<not> (strict \<and> clashes_at c q v i) \<Longrightarrow> run = Searching (track c q v (length v))"
    and "x < length v \<Longrightarrow> \<forall>i<x. \<not> ends_at c q v i \<and> \<not> (strict \<and> clashes_at c q v i) \<Longrightarrow>
      ends_at c q v x \<Longrightarrow> run = FoundEnd (p + x)"
    and "x < length v \<Longrightarrow> \<forall>i<x. \<not> ends_at c q v i \<and> \<not> (strict \<and> clashes_at c q v i) \<Longrightarrow>
      strict \<Longrightarrow> clashes_at c q v x \<Longrightarrow> \<not> ends_at c q v x \<Longrightarrow> run = RejectedByte (p + x)"
    unfolding run_def by blast+
qed

lemma track_in_quotes:
  "k \<le> length v \<Longrightarrow> track c q v k = InQuotedField \<longleftrightarrow>
     ((q = InQuotedField) \<noteq> odd (card {j. j < k \<and> quote c = Some (v ! j)}))"
proof (induction k)
  case (Suc k)
  have "{j. j < Suc k \<and> quote c = Some (v ! j)} =
      (if quote c = Some (v ! k) then insert k {j. j < k \<and> quote c = Some (v ! j)} else {j. j < k \<and> quote c = Some (v ! j)})"
    by (auto simp: less_Suc_eq)
  then have "card {j. j < Suc k \<and> quote c = Some (v ! j)} =
      (if quote c = Some (v ! k) then Suc (card {j. j < k \<and> quote c = Some (v ! j)}) else card {j. j < k \<and> quote c = Some (v ! j)})"
    by simp
  with Suc show ?case by (auto simp: track_Suc quote_step_def)
qed simp

text \<open>The class of the byte before decides the state outside quotes.\<close>

definition boundary_byte :: "Config \<Rightarrow> byte \<Rightarrow> bool" where
  "boundary_byte c b \<longleftrightarrow> b = delimiter c \<or> is_terminator (terminator c) b \<or> quote c = Some b"

lemma track_after:
  assumes "k < length v"
  shows "track c q v (Suc k) = AfterClosingQuote \<longleftrightarrow> track c q v k = InQuotedField \<and> quote c = Some (v ! k)"
    and "\<not> ends_at c q v k \<Longrightarrow> track c q v (Suc k) \<noteq> InQuotedField \<Longrightarrow>
      track c q v (Suc k) = InField \<longleftrightarrow> \<not> boundary_byte c (v ! k)"
  using assms by (auto simp: track_Suc quote_step_def ends_at_def boundary_byte_def)

section \<open>One vector\<close>

lemma first_bit_Some: "first_bit w = Some i \<longleftrightarrow> bit w i \<and> (\<forall>j<i. \<not> bit w j)"
  using trailing_zeros_eq_iff[of w i] by (auto simp: first_bit_def)

lemma first_bit_None: "first_bit w = None \<longleftrightarrow> (\<forall>i. \<not> bit w i)"
  using u64_eq_0_iff[of w] bit_u64_bound[of w] by (auto simp: first_bit_def)

definition neutral :: "Config \<Rightarrow> byte \<Rightarrow> bool" where
  "neutral c pad \<longleftrightarrow> \<not> boundary_byte c pad"

lemma neutral_padI:
  assumes "terminator_bytes (terminator c) = (t, t2)" and "neutral_pad (delimiter c) t t2 (quote c) = Some pad"
  shows "neutral c pad"
  using assms find_pad[of "delimiter c" t t2 "quote c"] terminator_bytes_iff[of "terminator c" pad]
  by (auto simp: neutral_def boundary_byte_def)

context lawful_isa begin

lemma find_vector_bits:
  assumes vec: "find_vector I c pad (q = InQuotedField) buf avail = (s, m, carry', tb)"
    and avail: "avail \<le> 64" "avail \<le> length buf" and pad: "neutral c pad" and tog: "toggles c strict"
  defines "v \<equiv> take avail buf"
  shows "bit (delim_bits s) i \<longleftrightarrow> i < avail \<and> v ! i = delimiter c"
    and "bit (term_bits s) i \<longleftrightarrow> i < avail \<and> is_terminator (terminator c) (v ! i)"
    and "bit (quote_bits s) i \<longleftrightarrow> i < avail \<and> quote c = Some (v ! i)"
    and "bit m i \<longleftrightarrow> i < 64 \<and> track c q v (min (Suc i) avail) = InQuotedField"
    and "avail = 64 \<Longrightarrow> carry' \<longleftrightarrow> track c q v 64 = InQuotedField"
    and "tb = Some b \<longleftrightarrow> b < avail \<and> ends_at c q v b \<and> (\<forall>j<b. \<not> ends_at c q v j)"
    and "tb = None \<longleftrightarrow> (\<forall>j<avail. \<not> ends_at c q v j)"
proof -
  obtain t t2 where tt: "terminator_bytes (terminator c) = (t, t2)" by fastforce
  define w where "w = (if avail = VECTOR_BYTES then take VECTOR_BYTES buf
      else take avail buf @ replicate (VECTOR_BYTES - avail) pad)"
  define st where "st = term_bits s AND structural_delims s m"
  have w: "length w = 64" "i < avail \<Longrightarrow> w ! i = v ! i" "avail \<le> i \<Longrightarrow> i < 64 \<Longrightarrow> w ! i = pad" for i
    using avail by (auto simp: w_def v_def VECTOR_BYTES_def nth_append)
  have s: "s = match_structural I w (delimiter c) t t2 (quote c)"
    and m: "compute_in_quotes I (quote_bits s) (q = InQuotedField) = (m, carry')"
    and tb: "tb = (case first_bit st of Some b \<Rightarrow> if b < avail then Some b else None | None \<Rightarrow> None)"
    using vec by (auto simp: find_vector_def tt w_def st_def Let_def split: prod.splits)
  have bits: "bit (delim_bits s) i \<longleftrightarrow> i < 64 \<and> w ! i = delimiter c"
    "bit (term_bits s) i \<longleftrightarrow> i < 64 \<and> (w ! i = t \<or> t2 = Some (w ! i))"
    "bit (quote_bits s) i \<longleftrightarrow> i < 64 \<and> quote c = Some (w ! i)" for i
    unfolding s by (rule match_structural_bits[OF w(1)])+
  have pads: "pad \<noteq> delimiter c" "\<not> is_terminator (terminator c) pad" "quote c \<noteq> Some pad"
    using pad by (auto simp: neutral_def boundary_byte_def)
  have term_at: "(b = t \<or> t2 = Some b) = is_terminator (terminator c) b" for b
    using terminator_bytes_iff[of "terminator c" b] tt by simp
  show D: "bit (delim_bits s) i \<longleftrightarrow> i < avail \<and> v ! i = delimiter c" for i
    using bits(1)[of i] w pads avail by (cases "i < avail") auto
  show T: "bit (term_bits s) i \<longleftrightarrow> i < avail \<and> is_terminator (terminator c) (v ! i)" for i
    using bits(2)[of i] w pads avail unfolding term_at by (cases "i < avail") auto
  show Q: "bit (quote_bits s) i \<longleftrightarrow> i < avail \<and> quote c = Some (v ! i)" for i
    using bits(3)[of i] w pads avail by (cases "i < avail") auto
  have lv: "length v = avail" using avail by (simp add: v_def)
  show M: "bit m i \<longleftrightarrow> i < 64 \<and> track c q v (min (Suc i) avail) = InQuotedField" for i
  proof -
    have "{j. j \<le> i \<and> bit (quote_bits s) j} = {j. j < min (Suc i) avail \<and> quote c = Some (v ! j)}"
      by (auto simp: Q)
    with in_quotes_bits(1)[OF m, of i] track_in_quotes[of "min (Suc i) avail" v c q] show ?thesis
      by (simp add: lv)
  qed
  show "avail = 64 \<Longrightarrow> carry' \<longleftrightarrow> track c q v 64 = InQuotedField"
    using in_quotes_bits(2)[OF m] M[of 63] by simp
  have stb: "bit st i \<longleftrightarrow> i < avail \<and> ends_at c q v i" for i
  proof (cases "i < avail \<and> is_terminator (terminator c) (v ! i)")
    case True
    then have "quote c \<noteq> Some (v ! i)" using tog by (auto simp: toggles_def dialect_ok_def)
    with True have "track c q v (Suc i) = InQuotedField \<longleftrightarrow> track c q v i = InQuotedField"
      by (auto simp: track_Suc lv quote_step_def)
    with True M[of i] T[of i] avail show ?thesis
      by (auto simp: st_def structural_delims_def delim_or_term_def word_bits ends_at_def Suc_le_eq)
  next
    case False
    with T[of i] show ?thesis by (auto simp: st_def bit_and_iff ends_at_def)
  qed
  show "tb = Some b \<longleftrightarrow> b < avail \<and> ends_at c q v b \<and> (\<forall>j<b. \<not> ends_at c q v j)"
    using first_bit_Some[of st] first_bit_None[of st] unfolding tb stb
    by (auto split: option.splits) (metis linorder_neqE_nat order.strict_trans)+
  show "tb = None \<longleftrightarrow> (\<forall>j<avail. \<not> ends_at c q v j)"
    using first_bit_Some[of st] first_bit_None[of st] unfolding tb stb
    by (auto split: option.splits)
qed

lemma bit_clear: "bit (w AND NOT (push_bit k 1) :: u64) i \<longleftrightarrow> bit w i \<and> i \<noteq> k"
  using bit_u64_bound[of w i] by (auto simp: bit_and_iff bit_not_iff push_bit_of_1 bit_exp_iff)

text \<open>What the probe carries from one vector to the next.\<close>

definition probe_state :: "State \<Rightarrow> nat \<Rightarrow> StrictProbe \<Rightarrow> bool" where
  "probe_state q p pr \<longleftrightarrow> (q \<noteq> InQuotedField \<longrightarrow> prev_last_bnd pr = (q \<noteq> InField)) \<and>
     pending_closer_msb pr = (if q = AfterClosingQuote then Some p else None)"

lemma bit_mask_below: "bit (if 64 \<le> n then - 1 else push_bit n 1 - 1 :: u64) i \<longleftrightarrow> i < 64 \<and> i < n"
  using mask_eq_exp_minus_1[of n, where 'a = "64 word"]
  by (auto simp: push_bit_of_1 bit_mask_iff simp flip: mask_eq_exp_minus_1)

lemma first_of_two:
  fixes w1 w2 :: u64
  defines "a \<equiv> first_bit w1" and "b \<equiv> map_option (\<lambda>k. k + 1) (first_bit w2)"
  assumes "\<And>i. bit w1 i \<longleftrightarrow> X i" "\<And>i. bit w2 i \<longleftrightarrow> Y i"
  shows "(case (a, b) of (None, None) \<Rightarrow> None | (Some i, None) \<Rightarrow> Some (f i) | (None, Some j) \<Rightarrow> Some (f j)
      | (Some i, Some j) \<Rightarrow> Some (f (min i j))) = r \<Longrightarrow>
    (case r of None \<Rightarrow> \<forall>i. \<not> X i \<and> \<not> Y i
     | Some e \<Rightarrow> \<exists>x. e = f x \<and> (X x \<or> (\<exists>k. x = Suc k \<and> Y k)) \<and> (\<forall>j<x. \<not> X j \<and> (\<forall>k. j = Suc k \<longrightarrow> \<not> Y k)))"
proof -
  have A: "a = Some i \<longleftrightarrow> X i \<and> (\<forall>j<i. \<not> X j)" "a = None \<longleftrightarrow> (\<forall>i. \<not> X i)" for i
    unfolding a_def first_bit_Some first_bit_None using assms(3) by auto
  have B: "b = Some i \<longleftrightarrow> (\<exists>k. i = Suc k \<and> Y k \<and> (\<forall>j<k. \<not> Y j))" "b = None \<longleftrightarrow> (\<forall>i. \<not> Y i)" for i
    unfolding b_def using first_bit_Some[of w2] first_bit_None[of w2] assms(4) by auto
  assume r: "(case (a, b) of (None, None) \<Rightarrow> None | (Some i, None) \<Rightarrow> Some (f i) | (None, Some j) \<Rightarrow> Some (f j)
      | (Some i, Some j) \<Rightarrow> Some (f (min i j))) = r"
  show ?thesis
  proof (cases a)
    case None
    show ?thesis
    proof (cases b)
      case (Some j)
      with B(1)[of j] obtain k where k: "j = Suc k" "Y k" "\<forall>i<k. \<not> Y i" by auto
      have "r = Some (f (Suc k))" using None Some r k(1) by simp
      moreover have "(X (Suc k) \<or> (\<exists>l. Suc k = Suc l \<and> Y l)) \<and> (\<forall>j<Suc k. \<not> X j \<and> (\<forall>l. j = Suc l \<longrightarrow> \<not> Y l))"
        using k A(2) None by auto
      ultimately show ?thesis by (simp only: option.case) (rule exI[of _ "Suc k"], elim conjE, intro conjI refl, assumption+)
    qed (use None r A(2) B(2) in auto)
  next
    case (Some i)
    show ?thesis
    proof (cases b)
      case (Some j)
      with B(1)[of j] obtain k where k: "j = Suc k" "Y k" "\<forall>i<k. \<not> Y i" by auto
      have "r = Some (f (min i (Suc k)))" using \<open>a = Some i\<close> Some r k(1) by simp
      moreover have "X i" "\<forall>j<i. \<not> X j" using A(1)[of i] \<open>a = Some i\<close> by auto
      moreover define x where "x = min i (Suc k)"
      ultimately have "r = Some (f x)" "(X x \<or> (\<exists>l. x = Suc l \<and> Y l)) \<and> (\<forall>j<x. \<not> X j \<and> (\<forall>l. j = Suc l \<longrightarrow> \<not> Y l))"
        using k by (auto simp: min_def)
      then show ?thesis by (simp only: option.case) (rule exI[of _ x], elim conjE, intro conjI refl, assumption+)
    qed (use Some r A(1)[of i] B(2) in \<open>auto intro!: exI[of _ i]\<close>)
  qed
qed

text \<open>A misplaced byte before any record end is an opener without a boundary before it, or follows a closer.\<close>

lemma clash_cases:
  assumes "i < length v" and "\<forall>j<i. \<not> ends_at c q v j" and "q \<noteq> InQuotedField \<longrightarrow> bnd0 = (q \<noteq> InField)"
  defines "left \<equiv> \<lambda>i. if i = 0 then bnd0 else boundary_byte c (v ! (i - 1))"
  shows "clashes_at c q v i \<longleftrightarrow>
    quote c = Some (v ! i) \<and> track c q v (Suc i) = InQuotedField \<and> \<not> left i \<or>
    (\<exists>k. i = Suc k \<and> quote c = Some (v ! k) \<and> track c q v i \<noteq> InQuotedField \<and> \<not> boundary_byte c (v ! i)) \<or>
    i = 0 \<and> q = AfterClosingQuote \<and> \<not> boundary_byte c (v ! 0)"
proof -
  let ?s = "track c q v i"
  have op: "quote c = Some (v ! i) \<Longrightarrow> track c q v (Suc i) = InQuotedField \<longleftrightarrow> ?s \<noteq> InQuotedField"
    using assms(1) by (auto simp: track_Suc quote_step_def)
  have field: "?s \<noteq> InQuotedField \<Longrightarrow> ?s = InField \<longleftrightarrow> \<not> left i"
  proof (cases i)
    case (Suc k)
    then show "?s \<noteq> InQuotedField \<Longrightarrow> ?s = InField \<longleftrightarrow> \<not> left i"
      using track_after(2)[of k v c q] assms(1,2) by (simp add: left_def)
  qed (use assms(3) in \<open>simp add: left_def\<close>)
  have closed: "?s = AfterClosingQuote \<longleftrightarrow>
      (\<exists>k. i = Suc k \<and> quote c = Some (v ! k) \<and> ?s \<noteq> InQuotedField) \<or> i = 0 \<and> q = AfterClosingQuote"
  proof (cases i)
    case (Suc k)
    then show ?thesis
      using assms(1) by (auto simp: track_Suc quote_step_def)
  qed simp
  show ?thesis
    unfolding clashes_at_def misplaced_def using op field closed by (auto simp: boundary_byte_def)
qed

lemma case_if_pair: "(case if P then (a, b) else (a', b') of (x, y) \<Rightarrow> f x y) = f (if P then a else a') (if P then b else b')"
  by simp

lemma probe_quotes_ok:
  assumes vec: "find_vector I c pad (q = InQuotedField) buf avail = (s, m, carry', tb)"
    and avail: "avail \<le> 64" "avail \<le> length buf" "0 < avail" and pad: "neutral c pad" and tog: "toggles c True"
    and bnd0: "q \<noteq> InQuotedField \<longrightarrow> prev_last_bnd pr = (q \<noteq> InField)"
    and noclash: "\<not> (q = AfterClosingQuote \<and> \<not> boundary_byte c (buf ! 0))" and none: "pending_closer_msb pr = None"
    and bnd: "bnd = (delim_bits s OR term_bits s OR quote_bits s)"
    and res: "probe_quotes pr s m avail tb p bnd = (err, pr1)"
  defines "v \<equiv> take avail buf"
  shows "err = Some (e :: 'u Error) \<Longrightarrow> \<exists>x<avail. clashes_at c q v x \<and> (\<forall>j\<le>x. \<not> ends_at c q v j) \<and>
      (\<forall>j<x. \<not> clashes_at c q v j) \<and> e = strict_err (p + x)"
    and "err = None \<Longrightarrow> j < avail \<Longrightarrow> \<forall>k\<le>j. \<not> ends_at c q v k \<Longrightarrow> \<not> clashes_at c q v j"
    and "pending_closer_msb pr1 = (if avail = 64 \<and> track c q v 64 = AfterClosingQuote then Some (p + 64) else None)"
proof -
  note b = find_vector_bits[OF vec avail(1,2) pad tog, folded v_def]
  have lv: "length v = avail" using avail by (simp add: v_def)
  define Q where "Q = (\<lambda>i. i < avail \<and> quote c = Some (v ! i))"
  define inq where "inq = (\<lambda>i. track c q v (Suc i) = InQuotedField)"
  have bndb: "bit bnd i \<longleftrightarrow> i < avail \<and> boundary_byte c (v ! i)" for i
    unfolding bnd by (auto simp: bit_or_iff b(1-3) boundary_byte_def)
  have mb: "i < avail \<Longrightarrow> bit m i \<longleftrightarrow> inq i" for i using b(4)[of i] avail by (simp add: inq_def min_def Suc_le_eq)
  define openers where "openers = (quote_bits s AND m) AND NOT (push_bit 1 bnd OR of_bool (prev_last_bnd pr))"
  define closers where "closers = (quote_bits s AND NOT m) AND NOT (drop_bit 1 bnd)"
  define late where "late \<longleftrightarrow> avail = VECTOR_BYTES \<and> closers AND push_bit 63 1 \<noteq> 0"
  define closers1 where "closers1 = (if late then closers AND NOT (push_bit 63 1) else closers)"
  define closers2 where "closers2 = (if avail < VECTOR_BYTES \<and> 0 < avail then closers1 AND NOT (push_bit (avail - 1) 1) else closers1)"
  define cutoff where "cutoff = (case tb of Some b \<Rightarrow> b | None \<Rightarrow> avail)"
  define below where "below = (if 64 \<le> cutoff then - 1 else push_bit cutoff 1 - 1 :: u64)"
  define left where "left = (\<lambda>i. if i = 0 then prev_last_bnd pr else boundary_byte c (v ! (i - 1)))"
  have cut: "cutoff \<le> avail" "\<forall>j<cutoff. \<not> ends_at c q v j" "cutoff < avail \<Longrightarrow> ends_at c q v cutoff"
    using b(6)[of cutoff] b(7) by (auto simp: cutoff_def split: option.splits)
  have opb: "bit openers i \<longleftrightarrow> Q i \<and> inq i \<and> \<not> left i" for i
    using b(3)[of i] mb[of i] bndb[of "i - 1"] avail(1)
    by (auto simp: openers_def word_bits Q_def left_def)
  have clb: "bit closers i \<longleftrightarrow> Q i \<and> \<not> inq i \<and> \<not> (Suc i < avail \<and> boundary_byte c (v ! Suc i))" for i
    using b(3)[of i] mb[of i] bndb[of "Suc i"] avail(1)
    by (auto simp: closers_def word_bits Q_def)
  have late: "late \<longleftrightarrow> avail = 64 \<and> Q 63 \<and> \<not> inq 63"
  proof -
    have "closers AND push_bit 63 1 \<noteq> 0 \<longleftrightarrow> bit closers 63"
      using and_exp_nonzero[of closers 63] by (simp add: push_bit_of_1)
    then show ?thesis using avail(1) by (simp add: late_def VECTOR_BYTES_def clb)
  qed
  have cl2: "bit closers2 i \<longleftrightarrow> Suc i < avail \<and> Q i \<and> \<not> inq i \<and> \<not> boundary_byte c (v ! Suc i)" for i
  proof -
    have "bit closers1 i \<longleftrightarrow> bit closers i \<and> \<not> (late \<and> i = 63)"
      by (auto simp: closers1_def bit_clear simp del: push_bit_of_1)
    then have "bit closers2 i \<longleftrightarrow> bit closers i \<and> \<not> (late \<and> i = 63) \<and> \<not> (avail < 64 \<and> i = avail - 1)"
      using avail(3) by (auto simp: closers2_def bit_clear VECTOR_BYTES_def simp del: push_bit_of_1)
    moreover have "bit closers i \<Longrightarrow> i < avail" using clb[of i] by (simp add: Q_def)
    ultimately show ?thesis
      using clb[of i] late avail(1,3) by (cases "i = avail - 1"; cases "avail = 64") auto
  qed
  have bel: "bit below i \<longleftrightarrow> i < 64 \<and> i < cutoff" for i
    unfolding below_def by (rule bit_mask_below)
  have X: "bit (openers AND below) i \<longleftrightarrow> i < cutoff \<and> Q i \<and> inq i \<and> \<not> left i" for i
    using cut(1) avail(1) by (auto simp: bit_and_iff opb bel)
  have Y: "bit (closers2 AND below) i \<longleftrightarrow> i < cutoff \<and> Suc i < avail \<and> Q i \<and> \<not> inq i \<and> \<not> boundary_byte c (v ! Suc i)" for i
    using cut(1) avail(1) by (auto simp: bit_and_iff cl2 bel)
  have pq: "err = (case (first_bit (openers AND below), map_option (\<lambda>k. k + 1) (first_bit (closers2 AND below))) of
        (None, None) \<Rightarrow> None | (Some i, None) \<Rightarrow> Some (strict_err (p + i)) | (None, Some j) \<Rightarrow> Some (strict_err (p + j))
      | (Some i, Some j) \<Rightarrow> Some (strict_err (p + min i j)))"
    and pr1: "pr1 = (if late then pr\<lparr>pending_closer_msb := Some (p + VECTOR_BYTES)\<rparr> else pr)"
  proof -
    have "(probe_quotes pr s m avail tb p bnd :: 'u Error option \<times> StrictProbe) =
       (case (first_bit (openers AND below), map_option (\<lambda>k. k + 1) (first_bit (closers2 AND below))) of
          (None, None) \<Rightarrow> None | (Some i, None) \<Rightarrow> Some (strict_err (p + i)) | (None, Some j) \<Rightarrow> Some (strict_err (p + j))
        | (Some i, Some j) \<Rightarrow> Some (strict_err (p + min i j)),
        if late then pr\<lparr>pending_closer_msb := Some (p + VECTOR_BYTES)\<rparr> else pr)"
      unfolding probe_quotes_def Let_def case_if_pair closers2_def closers1_def late_def openers_def closers_def cutoff_def below_def ..
    with res show "err = (case (first_bit (openers AND below), map_option (\<lambda>k. k + 1) (first_bit (closers2 AND below))) of
        (None, None) \<Rightarrow> None | (Some i, None) \<Rightarrow> Some (strict_err (p + i)) | (None, Some j) \<Rightarrow> Some (strict_err (p + j))
      | (Some i, Some j) \<Rightarrow> Some (strict_err (p + min i j)))"
      and "pr1 = (if late then pr\<lparr>pending_closer_msb := Some (p + VECTOR_BYTES)\<rparr> else pr)"
      by (simp_all only: prod.inject)
  qed
  have clash: "i < avail \<Longrightarrow> \<forall>j<i. \<not> ends_at c q v j \<Longrightarrow> clashes_at c q v i \<longleftrightarrow>
      Q i \<and> inq i \<and> \<not> left i \<or> (\<exists>k. i = Suc k \<and> Q k \<and> \<not> inq k \<and> \<not> boundary_byte c (v ! i))" for i
    using clash_cases[of i v c q "prev_last_bnd pr"] lv bnd0 noclash avail(3)
    by (auto simp: Q_def inq_def left_def v_def)
  have not_end: "clashes_at c q v i \<Longrightarrow> \<not> ends_at c q v i" for i
    using tog by (auto simp: clashes_at_def ends_at_def misplaced_def toggles_def dialect_ok_def)
  note first = first_of_two[of "openers AND below" "\<lambda>i. i < cutoff \<and> Q i \<and> inq i \<and> \<not> left i" "closers2 AND below"
      "\<lambda>i. i < cutoff \<and> Suc i < avail \<and> Q i \<and> \<not> inq i \<and> \<not> boundary_byte c (v ! Suc i)" "\<lambda>i. strict_err (p + i) :: 'u Error",
      OF X Y pq[symmetric]]
  show "\<exists>x<avail. clashes_at c q v x \<and> (\<forall>j\<le>x. \<not> ends_at c q v j) \<and>
      (\<forall>j<x. \<not> clashes_at c q v j) \<and> e = strict_err (p + x)" if "err = Some e"
  proof -
    from first that obtain x where e: "e = strict_err (p + x)"
      and x: "x < cutoff \<and> Q x \<and> inq x \<and> \<not> left x \<or>
        (\<exists>k. x = Suc k \<and> k < cutoff \<and> Suc k < avail \<and> Q k \<and> \<not> inq k \<and> \<not> boundary_byte c (v ! Suc k))"
      and least: "\<forall>j<x. \<not> (j < cutoff \<and> Q j \<and> inq j \<and> \<not> left j) \<and>
        (\<forall>k. j = Suc k \<longrightarrow> \<not> (k < cutoff \<and> Suc k < avail \<and> Q k \<and> \<not> inq k \<and> \<not> boundary_byte c (v ! Suc k)))"
      by auto
    have lt: "x < avail" using x cut(1) by auto
    have "x \<le> cutoff" using x by auto
    then have before: "\<forall>j<x. \<not> ends_at c q v j" using cut(2) by simp
    with clash[OF lt] x have "clashes_at c q v x" by auto
    moreover have "\<not> clashes_at c q v j" if "j < x" for j
      using clash[of j] least that before lt \<open>x \<le> cutoff\<close> by auto
    moreover have "\<forall>j\<le>x. \<not> ends_at c q v j" using before not_end[OF calculation(1)] by (auto simp: le_less)
    ultimately show ?thesis using e lt by blast
  qed
  show "\<not> clashes_at c q v j" if "err = None" "j < avail" "\<forall>k\<le>j. \<not> ends_at c q v k"
  proof -
    from first that(1) have no: "\<And>i. \<not> (i < cutoff \<and> Q i \<and> inq i \<and> \<not> left i)"
      "\<And>i. \<not> (i < cutoff \<and> Suc i < avail \<and> Q i \<and> \<not> inq i \<and> \<not> boundary_byte c (v ! Suc i))" by auto
    have "j < cutoff" using that(2,3) cut by (metis le_less_trans not_le le_refl linorder_not_less)
    with no clash[OF that(2)] that(2,3) show ?thesis by auto
  qed
  show "pending_closer_msb pr1 = (if avail = 64 \<and> track c q v 64 = AfterClosingQuote then Some (p + 64) else None)"
    using late none track_after(1)[of 63 v c q] track_Suc[of 63 v c q] lv
    by (auto simp: pr1 VECTOR_BYTES_def Q_def inq_def quote_step_def)
qed

lemma probe_check_ok:
  assumes vec: "find_vector I c pad (q = InQuotedField) buf avail = (s, m, carry', tb)"
    and avail: "avail \<le> 64" "avail \<le> length buf" "0 < avail" and pad: "neutral c pad" and tog: "toggles c True"
    and st: "probe_state q p pr" and res: "probe_check pr s m avail tb p = (err, pr1)"
  defines "v \<equiv> take avail buf"
  shows "err = Some (e :: 'u Error) \<Longrightarrow> \<exists>x<avail. clashes_at c q v x \<and> (\<forall>j\<le>x. \<not> ends_at c q v j) \<and>
      (\<forall>j<x. \<not> clashes_at c q v j) \<and> e = strict_err (p + x)"
    and "err = None \<Longrightarrow> j < avail \<Longrightarrow> \<forall>k\<le>j. \<not> ends_at c q v k \<Longrightarrow> \<not> clashes_at c q v j"
    and "err = None \<Longrightarrow> avail = 64 \<Longrightarrow> tb = None \<Longrightarrow> probe_state (track c q v 64) (p + 64) (probe_advance pr1 s)"
proof -
  note b = find_vector_bits[OF vec avail(1,2) pad tog, folded v_def]
  have lv: "length v = avail" "v ! 0 = buf ! 0" using avail by (simp_all add: v_def)
  define bnd where "bnd = (delim_bits s OR term_bits s OR quote_bits s)"
  define pr0 where "pr0 = pr\<lparr>pending_closer_msb := None\<rparr>"
  have bndb: "bit bnd i \<longleftrightarrow> i < avail \<and> boundary_byte c (v ! i)" for i
    unfolding bnd_def by (auto simp: bit_or_iff b(1-3) boundary_byte_def)
  have lsb: "bnd AND 1 = 0 \<longleftrightarrow> \<not> boundary_byte c (buf ! 0)"
    using lsb_iff[of bnd] bndb[of 0] avail(3) lv by auto
  show "err = Some e \<Longrightarrow> \<exists>x<avail. clashes_at c q v x \<and> (\<forall>j\<le>x. \<not> ends_at c q v j) \<and>
      (\<forall>j<x. \<not> clashes_at c q v j) \<and> e = strict_err (p + x)"
    and "err = None \<Longrightarrow> j < avail \<Longrightarrow> \<forall>k\<le>j. \<not> ends_at c q v k \<Longrightarrow> \<not> clashes_at c q v j"
    and "err = None \<Longrightarrow> avail = 64 \<Longrightarrow> tb = None \<Longrightarrow> probe_state (track c q v 64) (p + 64) (probe_advance pr1 s)"
  proof (atomize (full), cases "q = AfterClosingQuote \<and> \<not> boundary_byte c (buf ! 0)")
    case True
    then have "err = Some (strict_err p)"
      using res st lsb by (auto simp: probe_check_def probe_state_def Let_def bnd_def[symmetric])
    moreover have "clashes_at c q v 0" "\<not> ends_at c q v 0"
      using True lv by (auto simp: clashes_at_def ends_at_def misplaced_def boundary_byte_def)
    ultimately show "(err = Some e \<longrightarrow> (\<exists>x<avail. clashes_at c q v x \<and> (\<forall>j\<le>x. \<not> ends_at c q v j) \<and>
        (\<forall>j<x. \<not> clashes_at c q v j) \<and> e = strict_err (p + x))) \<and>
      (err = None \<longrightarrow> j < avail \<longrightarrow> (\<forall>k\<le>j. \<not> ends_at c q v k) \<longrightarrow> \<not> clashes_at c q v j) \<and>
      (err = None \<longrightarrow> avail = 64 \<longrightarrow> tb = None \<longrightarrow> probe_state (track c q v 64) (p + 64) (probe_advance pr1 s))"
      using avail(3) by auto
  next
    case False
    have pq: "probe_quotes pr0 s m avail tb p bnd = (err, pr1)"
      using res st lsb False
      by (auto simp: probe_check_def probe_state_def Let_def bnd_def[symmetric] pr0_def[symmetric] split: if_splits)
    have bnd0: "q \<noteq> InQuotedField \<longrightarrow> prev_last_bnd pr0 = (q \<noteq> InField)" "pending_closer_msb pr0 = None"
      using st by (simp_all add: pr0_def probe_state_def)
    note ok = probe_quotes_ok[OF vec avail pad tog bnd0(1) False bnd0(2) bnd_def pq, folded v_def]
    have "probe_state (track c q v 64) (p + 64) (probe_advance pr1 s)" if "avail = 64" "tb = None"
    proof -
      have "bit bnd 63 \<longleftrightarrow> boundary_byte c (v ! 63)" using bndb[of 63] that by simp
      moreover have "\<not> ends_at c q v 63" using b(7) that by simp
      ultimately show ?thesis
        using track_after(2)[of 63 v c q] ok(3) that lv
        by (simp add: probe_state_def probe_advance_def bnd_def[symmetric] msb_iff)
    qed
    with ok(1,2) show "(err = Some e \<longrightarrow> (\<exists>x<avail. clashes_at c q v x \<and> (\<forall>j\<le>x. \<not> ends_at c q v j) \<and>
        (\<forall>j<x. \<not> clashes_at c q v j) \<and> e = strict_err (p + x))) \<and>
      (err = None \<longrightarrow> j < avail \<longrightarrow> (\<forall>k\<le>j. \<not> ends_at c q v k) \<longrightarrow> \<not> clashes_at c q v j) \<and>
      (err = None \<longrightarrow> avail = 64 \<longrightarrow> tb = None \<longrightarrow> probe_state (track c q v 64) (p + 64) (probe_advance pr1 s))"
      by blast
  qed
qed

end

section \<open>The whole search\<close>

locale simd_search = chunk_reader R rinv unread + lawful_isa I
  for R :: "'r reader_ops" and rinv and unread and I
begin

lemma simd_find_loop_ok:
  assumes "rinv r" and tog: "toggles c strict" and pad: "neutral c pad" and "tracking q"
    and "strict \<Longrightarrow> probe_state q p pr"
  defines "out \<equiv> \<lambda>p q r. search_run (c\<lparr>quote_handling := Toggle\<rparr>) strict p (take (r_remaining R r) (stream r)) q"
  shows "\<exists>(res :: 'u Error + nat option) r'.
    simd_find_loop R I c pad strict (q = InQuotedField) p pr r = Some (res, r') \<and> rinv r' \<and>
    (res = search_result (out p q r) \<and>
      (\<forall>e. out p q r = FoundEnd e \<longrightarrow> stream r' = drop (e - p) (stream r) \<and>
         r_remaining R r' = r_remaining R r - (e - p)) \<or>
     (\<exists>err. res = Inl err \<and> fill_failed err))"
  using assms(1,4,5)
proof (induction "length (stream r)" arbitrary: r p q pr rule: less_induct)
  case less
  obtain o1 r1 where f: "r_fill R VECTOR_BYTES r = (o1, r1)" by fastforce
  note f_ok = fill[OF less.prems(1) f] and st = fill_stream[OF less.prems(1) f]
  note loop = simd_find_loop.simps[of R I c pad strict "q = InQuotedField" p pr r]
  show ?case
  proof (cases o1)
    case (Inl e)
    then have "fill_failed (IO e :: 'u Error)" using f less.prems(1) fill_failedI by blast
    with f Inl f_ok show ?thesis unfolding loop by auto
  next
    case (Inr u)
    then have f': "r_fill R VECTOR_BYTES r = (Inr (), r1)" using f by simp
    define buf where "buf = r_buffer R r1"
    define rem where "rem = r_remaining R r"
    have rem1: "r_remaining R r1 = rem" using f_ok by (simp add: rem_def)
    have stream: "stream r = buf @ unread r1" unfolding st[symmetric] by (simp add: stream_def buf_def)
    define w where "w = take rem (stream r)"
    have out_w: "out p q r = search_run (c\<lparr>quote_handling := Toggle\<rparr>) strict p w q"
      unfolding out_def w_def rem_def ..
    show ?thesis
    proof (cases "buf = [] \<or> rem = 0")
      case True
      have "buf = [] \<longleftrightarrow> stream r = []"
        using empty_after_fill[OF less.prems(1) f'] by (simp add: buf_def VECTOR_BYTES_def)
      with True have "w = []" by (auto simp only: w_def take_Nil take_0)
      then have "out p q r = Searching q" by (simp add: out_w)
      moreover have "simd_find_loop R I c pad strict (q = InQuotedField) p pr r = Some (Inr None, r1)"
        using True f' rem1 unfolding loop by (simp add: buf_def)
      ultimately show ?thesis using f_ok by (auto simp: search_result_def)
    next
      case False
      define avail where "avail = min (min rem (length buf)) VECTOR_BYTES"
      have avail: "avail \<le> 64" "avail \<le> length buf" "0 < avail" "avail \<le> rem"
        using False by (auto simp: avail_def VECTOR_BYTES_def)
      obtain s m carry' tb where vec: "find_vector I c pad (q = InQuotedField) buf avail = (s, m, carry', tb)"
        by (cases "find_vector I c pad (q = InQuotedField) buf avail") auto
      define chk where "chk = (if strict then probe_check pr s m avail tb p else (None :: 'u Error option, pr))"
      obtain err pr1 where chk: "chk = (err, pr1)" by fastforce
      define v where "v = take avail buf"
      have lv: "length v = avail" using avail by (simp add: v_def)
      note b = find_vector_bits[OF vec avail(1,2) pad tog, folded v_def]
      note run = search_run_positions[OF tog less.prems(2), where v = v and p = p]
      have split: "w = v @ take (rem - avail) (drop avail (stream r))"
      proof -
        have "take rem (stream r) = take avail (stream r) @ take (rem - avail) (drop avail (stream r))"
          by (metis avail(4) le_add_diff_inverse take_add)
        then show ?thesis using avail(2) by (simp add: w_def v_def stream)
      qed
      have body: "simd_find_loop R I c pad strict (q = InQuotedField) p pr r =
        (case err of Some e \<Rightarrow> Some (Inl e, r1)
         | None \<Rightarrow> (case tb of Some b \<Rightarrow> Some (Inr (Some (p + b)), r_consume R b r1)
            | None \<Rightarrow> if avail < VECTOR_BYTES then Some (Inr None, r1)
                else simd_find_loop R I c pad strict carry' (p + VECTOR_BYTES)
                  (if strict then probe_advance pr1 s else pr1) (r_consume R VECTOR_BYTES r1)))"
        using f' False rem1 vec chk unfolding loop chk_def
        by (cases strict) (simp_all add: buf_def[symmetric] avail_def[symmetric] Let_def)
      have pc: "toggles c True" "probe_check pr s m avail tb p = (err, pr1)" "probe_state q p pr" if strict
        using that tog chk less.prems(3) by (simp_all add: chk_def)
      have clash_free: "err = None \<Longrightarrow> strict \<Longrightarrow> j < avail \<Longrightarrow> \<forall>k\<le>j. \<not> ends_at c q v k \<Longrightarrow> \<not> clashes_at c q v j" for j
        using probe_check_ok(2)[OF vec avail(1-3) pad pc(1,3,2)] by (simp add: v_def)
      have not_end: "clashes_at c q v i \<Longrightarrow> \<not> ends_at c q v i" for i
        using tog by (auto simp: clashes_at_def ends_at_def misplaced_def toggles_def dialect_ok_def)
      show ?thesis
      proof (cases err)
        case (Some e)
        then have strict: "strict" using chk by (auto simp: chk_def split: if_splits)
        from probe_check_ok(1)[OF vec avail(1-3) pad pc(1,3,2)[OF strict] Some] obtain x where x: "x < avail" "clashes_at c q v x" "\<forall>j\<le>x. \<not> ends_at c q v j"
          "\<forall>j<x. \<not> clashes_at c q v j" "e = strict_err (p + x)"
          unfolding v_def by blast
        then have "search_run (c\<lparr>quote_handling := Toggle\<rparr>) strict p v q = RejectedByte (p + x)"
          by (intro run(3)) (auto simp: lv strict)
        then have "out p q r = RejectedByte (p + x)" unfolding out_w by (subst split) (simp add: search_run_append)
        with Some body x(5) f_ok show ?thesis by (auto simp: search_result_def strict_err_def)
      next
        case None
        show ?thesis
        proof (cases tb)
          case (Some k)
          with b(6)[of k] have k: "k < avail" "ends_at c q v k" "\<forall>j<k. \<not> ends_at c q v j" by auto
          have "\<forall>i<k. \<not> ends_at c q v i \<and> \<not> (strict \<and> clashes_at c q v i)"
            using k clash_free[OF None] by auto
          then have "search_run (c\<lparr>quote_handling := Toggle\<rparr>) strict p v q = FoundEnd (p + k)"
            using k lv by (intro run(2)) auto
          then have "out p q r = FoundEnd (p + k)" unfolding out_w by (subst split) (simp add: search_run_append)
          moreover have "k \<le> length (r_buffer R r1)" using k(1) avail(2) by (simp add: buf_def)
          ultimately show ?thesis
            using None Some body f_ok consume[of r1 k] consume_stream[of r1 k] st rem1
            by (auto simp: search_result_def rem_def)
        next
          case none: None
          have free: "\<forall>i<avail. \<not> ends_at c q v i \<and> \<not> (strict \<and> clashes_at c q v i)"
            using b(7) none clash_free[OF None] by auto
          then have run1: "search_run (c\<lparr>quote_handling := Toggle\<rparr>) strict p v q = Searching (track c q v avail)"
            using run(1) lv by simp
          show ?thesis
          proof (cases "avail < VECTOR_BYTES")
            case True
            have "take (rem - avail) (drop avail (stream r)) = []"
            proof (cases "rem < 64")
              case True
              have "length buf < rem \<Longrightarrow> unread r1 = []"
                using fill_enough[OF less.prems(1) f'] True by (auto simp: buf_def VECTOR_BYTES_def)
              with True stream show ?thesis
                by (cases "length buf < rem") (simp_all add: avail_def VECTOR_BYTES_def)
            next
              case False
              with \<open>avail < VECTOR_BYTES\<close> have "length buf < 64" by (auto simp: avail_def VECTOR_BYTES_def)
              then have "unread r1 = []" using fill_enough[OF less.prems(1) f'] by (auto simp: buf_def VECTOR_BYTES_def)
              with stream \<open>length buf < 64\<close> False show ?thesis by (auto simp: avail_def VECTOR_BYTES_def)
            qed
            then have "w = v" using split by (simp only: append_Nil2)
            then have "out p q r = Searching (track c q v avail)" using run1 by (simp add: out_w)
            with None none True body f_ok show ?thesis by (auto simp: search_result_def)
          next
            case False
            then have a64: "avail = 64" using avail(1) by (simp add: VECTOR_BYTES_def)
            define r2 where "r2 = r_consume R 64 r1"
            have le: "64 \<le> length (r_buffer R r1)" using avail(2) a64 by (simp add: buf_def)
            have r2: "rinv r2" "stream r2 = drop 64 (stream r)" "r_remaining R r2 = rem - 64"
              using consume[of r1 64] consume_stream[of r1 64] f_ok le st rem1 by (auto simp: r2_def)
            have short: "length (stream r2) < length (stream r)"
              using r2(2) le stream by (simp add: buf_def)
            let ?q = "track c q v 64" and ?pr = "if strict then probe_advance pr1 s else pr1"
            have carry: "carry' = (?q = InQuotedField)" using b(5)[OF a64] by blast
            have pst: "strict \<Longrightarrow> probe_state ?q (p + 64) ?pr"
              using probe_check_ok(3)[OF vec avail(1-3) pad pc(1,3,2)] None a64 none by (simp add: v_def)
            note IH = less.hyps[OF short r2(1) tracking_track[OF less.prems(2)] pst]
            have body2: "(simd_find_loop R I c pad strict (q = InQuotedField) p pr r :: (('u Error + _) \<times> _) option) =
                simd_find_loop R I c pad strict (?q = InQuotedField) (p + 64) ?pr r2"
              by (rule body[unfolded None none option.case carry if_not_P[OF False], unfolded VECTOR_BYTES_def, folded r2_def])
            have "out p q r = out (p + 64) ?q r2"
            proof -
              have "out (p + 64) ?q r2 = search_run (c\<lparr>quote_handling := Toggle\<rparr>) strict (p + 64) (take (rem - 64) (drop 64 (stream r))) ?q"
                unfolding out_def r2 ..
              then show ?thesis
                using run1 a64 lv unfolding out_w by (subst split) (simp add: search_run_append)
            qed
            moreover have "\<And>e. out (p + 64) ?q r2 = FoundEnd e \<Longrightarrow> p + 64 \<le> e"
              unfolding out_def using search_run_bounds by (metis (no_types))
            ultimately show ?thesis
              using IH unfolding body2 r2 by (fastforce simp: rem_def)
          qed
        qed
      qed
    qed
  qed
qed

lemma simd_find_record_start_ok:
  assumes "rinv r" and tog: "toggles c strict" and a: "a = OutOfQuotes \<or> a = InQuotes"
  defines "found \<equiv> search_run (c\<lparr>quote_handling := Toggle\<rparr>) strict 0 (take (r_remaining R r) (stream r)) (assumption_to_state c a)"
  shows "\<exists>(res :: 'u Error + nat option) r'. simd_find_record_start R I c a strict r = Some (res, r') \<and> rinv r' \<and>
    (res = search_result found \<and>
      (\<forall>e. found = FoundEnd e \<longrightarrow> stream r' = drop e (stream r) \<and> r_remaining R r' = r_remaining R r - e) \<or>
     (\<exists>err. res = Inl err \<and> fill_failed err))"
proof -
  obtain t t2 where tb: "terminator_bytes (terminator c) = (t, t2)" by fastforce
  obtain pad where pad: "neutral_pad (delimiter c) t t2 (quote c) = Some pad" "neutral c pad"
    using find_pad[of "delimiter c" t t2 "quote c"] neutral_padI[of c] tb by auto
  let ?q = "assumption_to_state c a"
  have q: "tracking ?q" "initial_carry c a = (?q = InQuotedField)"
    using a by (auto simp: tracking_def assumption_to_state_def initial_carry_def)
  have "probe_state ?q 0 strict_probe_new" using a by (auto simp: probe_state_def strict_probe_new_def assumption_to_state_def)
  from simd_find_loop_ok[OF assms(1) tog pad(2) q(1) this] show ?thesis
    unfolding simd_find_record_start_def found_def by (simp add: tb pad(1) q(2))
qed

end

section \<open>On the program's readers\<close>

interpretation simd_in_memory: simd_search in_memory_ops im_inv "\<lambda>_. []" compile_time_isa
  by (intro simd_search.intro in_memory.chunk_reader_axioms portable.lawful_isa_axioms)

sublocale ring_reader \<subseteq> simd_ring: simd_search "ring_reader_ops B rd" "ring_inv binv sinv" "ring_unread content" compile_time_isa
  by (intro simd_search.intro reader.chunk_reader_axioms portable.lawful_isa_axioms)

end
