(* ===== verification/SimdParser.thy ===== *)
theory SimdParser
  imports IndexFinish FindStart Resolve Instances
begin

text \<open>
  src/src/parser/simd/mod.rs: the SIMD chunk parser. The level detected at run time picks the token \<open>I\<close> the
  steppers run at; the boundary search always uses the compile-time one. In the dialects it supports the pass
  is shown to be the reference pass, but for errors that may come ahead of the records before them.
\<close>

section \<open>The parser\<close>

definition simd_run_steppers ::
    "'r reader_ops \<Rightarrow> (byte list \<Rightarrow> nat + nat) \<Rightarrow> isa \<Rightarrow> (byte list \<Rightarrow> nat) \<Rightarrow> Config \<Rightarrow> ('s, 'u) accumulator \<Rightarrow> nat \<Rightarrow> 's \<Rightarrow> 'r
      \<Rightarrow> (('u Error + nat option \<times> 's) \<times> 'r) option" where
  "simd_run_steppers R V I addr c acc base s r =
     (if quote c = None
      then (case cursor_stepper_new c of
          None \<Rightarrow> None
        | Some st \<Rightarrow> driver_run R V (cursor_stepper_ops I addr) acc base r st s)
      else (case index_stepper_new c of
          None \<Rightarrow> None
        | Some st \<Rightarrow> driver_run R V (index_stepper_ops I addr) acc base r st s))"

definition simd_scan_record_start ::
    "'r reader_ops \<Rightarrow> Config \<Rightarrow> Assumption \<Rightarrow> bool \<Rightarrow> 'r \<Rightarrow> (('u Error + nat option) \<times> 'r) option" where
  "simd_scan_record_start R c a strict r = simd_find_record_start R compile_time_isa c a strict r"

definition simd_scan_header_end :: "'r reader_ops \<Rightarrow> Config \<Rightarrow> 'r \<Rightarrow> (('u Error + nat option) \<times> 'r) option" where
  "simd_scan_header_end R c r =
     (case skip_empty_lines R c r of
        None \<Rightarrow> None
      | Some (Inl e, r1) \<Rightarrow> Some (Inl e, r1)
      | Some (Inr (leading, _), r1) \<Rightarrow>
          (case simd_find_record_start R compile_time_isa c OutOfQuotes False r1 of
             None \<Rightarrow> None
           | Some (Inl e, r2) \<Rightarrow> Some (Inl e, r2)
           | Some (Inr fin, r2) \<Rightarrow> Some (Inr (map_option (\<lambda>off. leading + off) fin), r2)))"

definition simd_parser ::
    "'r reader_ops \<Rightarrow> (byte list \<Rightarrow> nat + nat) \<Rightarrow> isa \<Rightarrow> (byte list \<Rightarrow> nat) \<Rightarrow> Config \<Rightarrow> ('s, 'u) accumulator
      \<Rightarrow> ('r, 's, 'u) chunk_parser" where
  "simd_parser R V I addr c acc = \<lparr>
     cp_config = c,
     cp_scan_record_start = simd_scan_record_start R c,
     cp_scan_header_end = simd_scan_header_end R c,
     cp_parse_from = simd_run_steppers R V I addr c acc\<rparr>"

section \<open>The cursor stepper keeps the driver's contract\<close>

context lawful_isa begin

lemma cursor_lagging:
  fixes acc :: "('s, 'u) accumulator"
  assumes "plain c n"
  shows "lagging_stepper (cursor_stepper_ops I addr) c acc L (cursor_rel c n) (\<lambda>k. k < 2 ^ 63) (error_ahead c)"
proof
  fix xs tot lag pos e st and m :: "'s machine"
  assume "cursor_rel c n xs tot lag pos e st m"
  then show "lag \<le> pos \<and> pos \<le> e" by (simp add: cursor_rel_def)
next
  fix n' k :: nat
  assume "n' < 2 ^ 63" "k \<le> n'"
  then show "k < 2 ^ 63" by simp
next
  fix p xs and m m' :: "'s machine" and ys and err :: "'u Error"
  assume "spec_run c acc L p xs m = Running m'" "error_ahead c (p + length xs) ys m' err"
  then show "error_ahead c p (xs @ ys) m err" by (rule error_ahead_back)
next
  fix buf rest tot lag pos e0 st and m :: "'s machine" and e and res :: "'u StepResult" and buf' s' st'
  assume rel: "cursor_rel c n (buf @ rest) tot lag pos e0 st m" and "e0 \<le> e" "e \<le> length buf"
    and len: "length (buf @ rest) < 2 ^ 63"
    and step: "st_step (cursor_stepper_ops I addr) acc \<lparr>ctx_buf = buf, scan_start = pos, scan_end = e,
      remaining_in_chunk = L - tot, total_consumed = tot\<rparr> (m_acc m) st = (res, buf', s', st')"
  let ?xs = "buf @ rest"
  have lag: "lag = 0" using rel by (simp add: cursor_rel_def)
  have "cursor_step I addr acc \<lparr>ctx_buf = buf, scan_start = pos, scan_end = e, remaining_in_chunk = L - tot,
      total_consumed = tot\<rparr> (m_acc m) st = (res, buf', s', st')" using step by (simp add: cursor_stepper_ops_def)
  note ok = cursor_step_ok[OF assms(1) rel[unfolded lag] \<open>e0 \<le> e\<close> \<open>e \<le> length buf\<close> refl _ this]
  have big: "length ?xs < 2 ^ 64" using len by simp
  note out = ok[OF big]
  have sl: "k \<le> e \<Longrightarrow> subslice ?xs 0 k = subslice buf 0 k" for k
    using \<open>e \<le> length buf\<close> by (simp add: slice_append_left)
  show "length buf' = length buf \<and>
      (case res of
         Suspended r n' lre \<Rightarrow> (\<exists>lag' m'. lag \<le> lag' \<and> n' \<le> lag' \<and> lag' \<le> r \<and> r \<le> e \<and> drop lag' buf' = drop lag' buf \<and>
           spec_run c acc L (tot + lag) (subslice buf lag lag') m = Running m' \<and> lre = m_last_end m' \<and>
           s' = m_acc m' \<and> (n' = 0 \<longrightarrow> cursor_rel c n (buf' @ rest) tot lag' r e st' m') \<and>
           cursor_rel c n (drop n' buf' @ rest) (tot + n') (lag' - n') (r - n') (e - n') (st_consume (cursor_stepper_ops I addr) n' st') m')
       | Done p \<Rightarrow> (\<exists>k. lag \<le> k \<and> k \<le> e \<and> spec_run c acc L (tot + lag) (subslice buf lag k) m = Finished p s')
       | StepError err \<Rightarrow>
           (\<exists>k. lag \<le> k \<and> k \<le> e \<and> spec_run c acc L (tot + lag) (subslice buf lag k) m = Failed err) \<or>
           error_ahead c (tot + lag) (drop lag (buf @ rest)) m err)"
  proof (cases res)
    case (Suspended r k lre)
    obtain m' where m': "k = cell_start st'" "k \<le> r" "r \<le> e" "e - r < 64" "moves c acc L tot ?xs e 0 k m m'"
      "lre = m_last_end m'" "s' = m_acc m'" "in_pass c n ?xs 0 r (pending st') m' st'"
      using out Suspended by (auto simp: step_out_def)
    have ke: "k \<le> e" using m'(2,3) by simp
    have "spec_run c acc L tot (subslice buf 0 k) m = Running m'" using m'(5) sl[OF ke] by (simp add: moves_def)
    moreover have "cursor_rel c n ?xs tot 0 r e st' m'" if "k = 0"
      using that m' by (simp add: cursor_rel_def)
    moreover have "cursor_rel c n (drop k ?xs) (tot + k) 0 (r - k) (e - k) (cursor_consume k st') m'"
      using consume_in_pass[OF m'(8) big] m'(1-4) by (simp add: cursor_rel_def cursor_consume_def diff_le_mono)
    moreover have "drop k ?xs = drop k buf @ rest" using ke \<open>e \<le> length buf\<close> by simp
    ultimately show ?thesis
      using out m' Suspended lag by (auto simp: cursor_stepper_ops_def intro!: exI[of _ k] exI[of _ m'])
  next
    case (Done p)
    then show ?thesis using out lag sl by (auto simp: step_out_def stops_def)
  next
    case (StepError err)
    then show ?thesis using out lag sl by (auto simp: step_out_def stops_def)
  qed
next
  fix buf tot lag pos st and m :: "'s machine" and out :: "'u Error + nat option \<times> 's"
  assume rel: "cursor_rel c n buf tot lag pos (length buf) st m" and len: "length buf < 2 ^ 63"
    and fin: "try_bind (st_finalize (cursor_stepper_ops I addr) acc \<lparr>ctx_buf = buf, scan_start = pos, scan_end = length buf,
        remaining_in_chunk = L - tot, total_consumed = tot\<rparr> (m_acc m) st)
        (\<lambda>(lre, s). Inr (case lre of Some x \<Rightarrow> Some x | None \<Rightarrow> m_last_end m, s)) = out"
  have lag: "lag = 0" using rel by (simp add: cursor_rel_def)
  show "out = spec_rest c acc L (tot + lag) (drop lag buf) m \<or>
      (\<exists>err. out = Inl err \<and> error_ahead c (tot + lag) (drop lag buf) m err)"
    using cursor_finalize_ok[OF assms(1) rel[unfolded lag] len, of acc L out] fin lag
    by (auto simp: cursor_stepper_ops_def dest: arity_is_ahead)
qed

section \<open>So does the index stepper\<close>

lemma index_lagging:
  fixes acc :: "('s, 'u) accumulator"
  shows "lagging_stepper (index_stepper_ops I addr) c acc L (index_rel c n) (\<lambda>k. k < 2 ^ 63) (error_ahead c)"
proof
  fix xs tot lag pos e st and m :: "'s machine"
  assume "index_rel c n xs tot lag pos e st m"
  then show "lag \<le> pos \<and> pos \<le> e" by (simp add: index_rel_def)
next
  fix n' k :: nat
  assume "n' < 2 ^ 63" "k \<le> n'"
  then show "k < 2 ^ 63" by simp
next
  fix p xs and m m' :: "'s machine" and ys and err :: "'u Error"
  assume "spec_run c acc L p xs m = Running m'" "error_ahead c (p + length xs) ys m' err"
  then show "error_ahead c p (xs @ ys) m err" by (rule error_ahead_back)
next
  fix buf rest tot lag pos e0 st and m :: "'s machine" and e and res :: "'u StepResult" and buf' s' st'
  assume rel: "index_rel c n (buf @ rest) tot lag pos e0 st m" and "e0 \<le> e" "e \<le> length buf"
    and len: "length (buf @ rest) < 2 ^ 63"
    and step: "st_step (index_stepper_ops I addr) acc \<lparr>ctx_buf = buf, scan_start = pos, scan_end = e,
      remaining_in_chunk = L - tot, total_consumed = tot\<rparr> (m_acc m) st = (res, buf', s', st')"
  let ?xs = "buf @ rest"
  have lag: "lag = 0" using rel by (simp add: index_rel_def)
  have "ix_step I addr acc \<lparr>ctx_buf = buf, scan_start = pos, scan_end = e, remaining_in_chunk = L - tot,
      total_consumed = tot\<rparr> (m_acc m) st = (res, buf', s', st')" using step by (simp add: index_stepper_ops_def)
  note out = ix_step_ok[OF rel[unfolded lag] \<open>e0 \<le> e\<close> \<open>e \<le> length buf\<close> refl len this]
  have sl: "k \<le> e \<Longrightarrow> subslice ?xs 0 k = subslice buf 0 k" for k
    using \<open>e \<le> length buf\<close> by (simp add: slice_append_left)
  show "length buf' = length buf \<and>
      (case res of
         Suspended r n' lre \<Rightarrow> (\<exists>lag' m'. lag \<le> lag' \<and> n' \<le> lag' \<and> lag' \<le> r \<and> r \<le> e \<and> drop lag' buf' = drop lag' buf \<and>
           spec_run c acc L (tot + lag) (subslice buf lag lag') m = Running m' \<and> lre = m_last_end m' \<and>
           s' = m_acc m' \<and> (n' = 0 \<longrightarrow> index_rel c n (buf' @ rest) tot lag' r e st' m') \<and>
           index_rel c n (drop n' buf' @ rest) (tot + n') (lag' - n') (r - n') (e - n') (st_consume (index_stepper_ops I addr) n' st') m')
       | Done p \<Rightarrow> (\<exists>k. lag \<le> k \<and> k \<le> e \<and> spec_run c acc L (tot + lag) (subslice buf lag k) m = Finished p s')
       | StepError err \<Rightarrow>
           (\<exists>k. lag \<le> k \<and> k \<le> e \<and> spec_run c acc L (tot + lag) (subslice buf lag k) m = Failed err) \<or>
           error_ahead c (tot + lag) (drop lag (buf @ rest)) m err)"
  proof (cases res)
    case (Suspended r k lre)
    obtain m' pre where m': "k = ix_record_start st'" "k \<le> r" "r \<le> e" "e - r < 64" "moves c acc L tot ?xs e 0 k m m'"
      "lre = m_last_end m'" "s' = m_acc m'" "ix_pass c n (pre @ ?xs) (length pre) r 0 0 m' st'" "drop k buf' = drop k buf"
      "\<not> needs_chunk_start_b st'" "ix_needs_align_prologue st' \<longrightarrow> sn_pending (ix_scanner st') = None"
      using out Suspended by (auto simp: ix_step_out_def)
    have ke: "k \<le> e" using m'(2,3) by simp
    have run: "spec_run c acc L tot (subslice buf 0 k) m = Running m'" using m'(5) sl[OF ke] by (simp add: moves_def)
    have cs: "chunk_started st' = st'" "chunk_started (ix_consume k st') = ix_consume k st'"
      using m'(10) by (simp_all add: chunk_started_def ix_consume_def)
    have same: "index_rel c n (buf' @ rest) tot 0 r e st' m'" if "k = 0"
      using that m' cs by (auto simp: index_rel_def)
    have kx: "k \<le> length ?xs" using ke \<open>e \<le> length buf\<close> by simp
    have dk: "drop k ?xs = drop k buf' @ rest" using ke \<open>e \<le> length buf\<close> m'(9) by simp
    have "ix_pass c n ((pre @ take k ?xs) @ drop k ?xs) (length (pre @ take k ?xs)) (r - k) 0 0 m' (ix_consume k st')"
      using ix_consume_pass[OF m'(8) kx[unfolded m'(1)], folded m'(1)] .
    then have "\<exists>pre. ix_pass c n (pre @ drop k buf' @ rest) (length pre) (r - k) 0 0 m' (chunk_started (ix_consume k st'))"
      unfolding dk cs(2) by (rule exI[of _ "pre @ take k ?xs"])
    moreover have "ix_record_start (ix_consume k st') = 0" "ix_scanner (ix_consume k st') = ix_scanner st'"
      "needs_chunk_start_b (ix_consume k st') = needs_chunk_start_b st'" "ix_needs_align_prologue (ix_consume k st') = ix_needs_align_prologue st'"
      using m'(1) by (simp_all add: ix_consume_def)
    ultimately have "index_rel c n (drop k buf' @ rest) (tot + k) 0 (r - k) (e - k) (ix_consume k st') m'"
      using m'(2-4,10,11) unfolding index_rel_def by (simp add: diff_le_mono)
    then show ?thesis
      using out m' Suspended lag run same by (auto simp: index_stepper_ops_def ix_step_out_def intro!: exI[of _ k] exI[of _ m'])
  next
    case (Done p)
    then show ?thesis using out lag sl by (auto simp: ix_step_out_def stops_def)
  next
    case (StepError err)
    then show ?thesis using out lag sl by (auto simp: ix_step_out_def stops_def)
  qed
next
  fix buf tot lag pos st and m :: "'s machine" and out :: "'u Error + nat option \<times> 's"
  assume rel: "index_rel c n buf tot lag pos (length buf) st m" and len: "length buf < 2 ^ 63"
    and fin: "try_bind (st_finalize (index_stepper_ops I addr) acc \<lparr>ctx_buf = buf, scan_start = pos, scan_end = length buf,
        remaining_in_chunk = L - tot, total_consumed = tot\<rparr> (m_acc m) st)
        (\<lambda>(lre, s). Inr (case lre of Some x \<Rightarrow> Some x | None \<Rightarrow> m_last_end m, s)) = out"
  have lag: "lag = 0" using rel by (simp add: index_rel_def)
  show "out = spec_rest c acc L (tot + lag) (drop lag buf) m \<or>
      (\<exists>err. out = Inl err \<and> error_ahead c (tot + lag) (drop lag buf) m err)"
    using ix_finalize_ok[OF rel[unfolded lag] len, of acc L out] fin lag by (simp add: index_stepper_ops_def)
qed

end

text \<open>A new stepper at the first byte of a record.\<close>

lemma cursor_stepper_start:
  assumes "plain c n" and "xs = [] \<or> \<not> terminates c (hd xs)"
  obtains st where "cursor_stepper_new c = Some st" "cursor_rel c n xs base 0 0 0 st (spec_init base s)"
proof -
  have n: "field_count c = Some n" "1 \<le> n" "n < 64" using assms(1) by (simp_all add: plain_def)
  obtain fc where fc: "field_counter_new n = Some fc" using n by (simp add: field_counter_new_def)
  have fco: "counter_ok fc" "fc_n fc = n" "phase fc = 0"
    using field_counter_new_ok[OF fc] fc n by (auto simp: field_counter_new_def Let_def split: if_splits)
  define st where "st = \<lparr>delim = delimiter c, term_a = fst (terminator_bytes (terminator c)),
      term_b = snd (terminator_bytes (terminator c)), field_counter = fc, needs_align_prologue = True,
      pending = None, bounds = [], cell_start = 0, has_runs = False, cs_last_record_end = None\<rparr>"
  have new: "cursor_stepper_new c = Some st" by (simp add: cursor_stepper_new_def n fc st_def)
  have "0 < length xs \<longrightarrow> \<not> terminates c (xs ! 0)" using assms(2) by (auto simp: hd_conv_nth)
  then have "published c n xs 0 0 st"
    using fco by (simp add: published_def collected_def st_def bounds_in_def kinds_def)
  moreover have "set_up c n st" using fco by (simp add: set_up_def st_def)
  ultimately have "cursor_rel c n xs base 0 0 0 st (spec_init base s)"
    by (simp add: cursor_rel_def in_pass_def holds_from_def st_def at_record_def spec_init_def)
  with new show ?thesis by (rule that)
qed

lemma index_stepper_start:
  assumes q: "quoting c n (scan_config c)" and "xs = [] \<or> \<not> terminates c (hd xs)"
  obtains st where "index_stepper_new c = Some st" "index_rel c n xs base 0 0 0 st (spec_init base s)"
proof -
  have n: "field_count c = Some n" "1 \<le> n" "n < 64" using q by (simp_all add: quoting_def)
  obtain fc where fc: "field_counter_new n = Some fc" using n by (simp add: field_counter_new_def)
  note fco = field_counter_new_ok[OF fc] field_counter_rotations(1,2)[OF fc]
  define st where "st = \<lparr>ix_config = scan_config c, ix_scanner = scanner_new (scan_config c), ix_counter = fc,
      ix_needs_align_prologue = True, needs_chunk_start_b = True, b_offs = [], e_offs = [], r_offs = [], ix_record_start = 0,
      ix_last_record_end = None\<rparr>"
  have "scan_config c = (let (t, t2) = terminator_bytes (terminator c);
      doubled = (case (quote c, escape c) of (Some q, Some e) \<Rightarrow> q = e | _ \<Rightarrow> False)
    in \<lparr>sc_delim = delimiter c, sc_term = t, sc_term_b = t2, sc_quote = quote c, sc_doubled_quotes = doubled\<rparr>)"
    by (simp add: scan_config_def doubled_quotes_def Let_def split: prod.split)
  then have new: "index_stepper_new c = Some st" by (simp add: index_stepper_new_def n fc st_def Let_def split: prod.splits)
  let ?st = "chunk_started st"
  have sel: "ix_config ?st = scan_config c" "ix_counter ?st = fc" "ix_scanner ?st = scanner_new (scan_config c)" "b_offs ?st = [0]"
    "e_offs ?st = []" "r_offs ?st = []" "ix_record_start ?st = 0" "ix_last_record_end ?st = None"
    by (simp_all add: chunk_started_def st_def)
  have "index_config c n ?st" using q fco by (simp add: index_config_def sel)
  moreover have "0 < length xs \<longrightarrow> \<not> terminates c (xs ! 0)" using assms(2) by (auto simp: hd_conv_nth)
  ultimately have "scanned c n ([] @ xs) (length ([] :: byte list)) 0 0 0 ?st"
    by (intro scanned_unscanned) (simp_all add: sel fco)
  then have "ix_pass c n ([] @ xs) (length ([] :: byte list)) 0 0 0 (spec_init base s) ?st"
    using scanner_new_at by (simp add: ix_pass_def sel at_record_def spec_init_def)
  then have "index_rel c n xs base 0 0 0 st (spec_init base s)"
    unfolding index_rel_def by (auto simp: st_def scanner_new_def intro!: exI[of _ "[]"])
  with new show ?thesis by (rule that)
qed

section \<open>The header row\<close>

lemma search_run_terminators:
  assumes "\<forall>b\<in>set bs. terminates c b"
  shows "search_run c strict p bs RecordStart = Searching RecordStart"
  using assms
proof (induction bs arbitrary: p)
  case (Cons b bs)
  have "search_byte c strict p b RecordStart = Searching RecordStart"
    using Cons.prems by (auto simp: search_byte_def transition_def dfa_new_def record_start_cell_def)
  with Cons show ?case by simp
qed simp

lemma search_byte_first:
  assumes "comment c = None" and "\<not> terminates c b"
  shows "search_byte c False p b RecordStart = search_byte c False p b FieldStart"
  using assms by (auto simp: search_byte_def transition_def dfa_new_def record_start_cell_def)

text \<open>The DFA skips leading blank lines in its start state, the SIMD parser beforehand.\<close>

lemma header_search:
  assumes "comment c = None" and "skip_spec (terminator c) rem bs = (k, still)"
  shows "(search_result (search_run c False 0 (take rem bs) RecordStart) :: 'u Error + nat option) =
    (case search_run c False 0 (take (rem - k) (drop k bs)) FieldStart of
       FoundEnd e \<Rightarrow> Inr (Some (k + e)) | RejectedByte e \<Rightarrow> Inl (InvalidQuote (at_byte (k + e))) | Searching q \<Rightarrow> Inr None)"
proof -
  have k: "k = min (terminator_run (terminator c) bs) rem" using assms(2) by (auto simp: skip_spec_def Let_def)
  let ?rest = "take (rem - k) (drop k bs)"
  have split: "take rem bs = take k bs @ ?rest" by (metis k le_add_diff_inverse min.cobounded2 take_add)
  have "\<forall>b\<in>set (take k bs). terminates c b"
  proof
    fix b assume "b \<in> set (take k bs)"
    moreover have "take k bs = take k (takeWhile (terminates c) bs)"
    proof -
      have "k \<le> length (takeWhile (terminates c) bs)" using k by (simp add: terminator_run_def)
      then show ?thesis by (subst takeWhile_eq_take) (simp add: min_def)
    qed
    ultimately show "terminates c b" by (metis in_set_takeD set_takeWhileD)
  qed
  note skip = search_run_terminators[OF this, of False 0]
  have len: "length (take k bs) = k" using k terminator_run_le[of "terminator c" bs] by simp
  have "search_run c False 0 (take rem bs) RecordStart = search_run c False k ?rest RecordStart"
    unfolding split search_run_append skip search.case len by simp
  moreover have "(case search_run c False k ?rest RecordStart of Searching q \<Rightarrow> Searching FieldStart | out \<Rightarrow> out) =
      (case search_run c False k ?rest FieldStart of Searching q \<Rightarrow> Searching FieldStart | out \<Rightarrow> out)"
  proof (cases ?rest)
    case (Cons b rest)
    then have "k < rem" "drop k bs \<noteq> []" "hd (drop k bs) = b"
      by (cases "rem - k"; cases "drop k bs"; simp)+
    then have "k = terminator_run (terminator c) bs" using k by simp
    then have "terminator_run (terminator c) (drop k bs) = 0" using terminator_run_drop[of k "terminator c" bs] by simp
    then have "\<not> terminates c b" using \<open>drop k bs \<noteq> []\<close> \<open>hd (drop k bs) = b\<close> by (simp add: terminator_run_0)
    then show ?thesis unfolding Cons by (simp add: search_byte_first[OF assms(1)])
  next
    case Nil
    show ?thesis unfolding Nil by simp
  qed
  moreover have "search_run c False k ?rest FieldStart = shift_search k (search_run c False 0 ?rest FieldStart)"
    using search_run_shift[of c False k 0] by simp
  ultimately show ?thesis
    by (cases "search_run c False 0 ?rest FieldStart"; cases "search_run c False k ?rest RecordStart")
      (simp_all add: search_result_def shift_search_def)
qed

lemma lenient_never_rejects:
  assumes "toggles c False" and "tracking q"
  shows "search_run (c\<lparr>quote_handling := Toggle\<rparr>) False p bs q \<noteq> RejectedByte e"
  using assms(2)
proof (induction bs arbitrary: p q)
  case (Cons b bs)
  then show ?case by (simp add: search_byte_toggle[OF assms(1)])
qed simp

section \<open>The pass\<close>

text \<open>The dialects the SIMD parser supports. Without an escape character the strict search for a boundary is
  not the one of the reference machine, so that such a pass may not start in the middle of a file.\<close>

definition simd_dialect :: "Config \<Rightarrow> FindRecordStart \<Rightarrow> bool" where
  "simd_dialect c mode \<longleftrightarrow> dialect_ok c \<and> simd_supports c = Inr () \<and>
     (escape c = quote c \<or> escape c = None \<and> mode \<noteq> FindStrict)"

lemma simd_dialect_sel:
  assumes "simd_dialect c mode"
  obtains n where "if quote c = None then plain c n else quoting c n (scan_config c)" "comment c = None"
    "c\<lparr>quote_handling := Toggle\<rparr> = c" "toggles c False" "mode = FindStrict \<Longrightarrow> toggles c True"
proof -
  have s: "simd_supports c = Inr ()" "dialect_ok c" "escape c = quote c \<or> escape c = None \<and> mode \<noteq> FindStrict"
    using assms by (simp_all add: simd_dialect_def)
  from s(1) obtain n where n: "field_count c = Some n" "1 \<le> n" "n \<le> 63" "\<not> trim c" "comment c = None" "quote_handling c = Toggle"
    by (auto simp: simd_supports_def FIXED_MAX_ARITY_def split: option.splits if_splits)
  have "if quote c = None then plain c n else quoting c n (scan_config c)" using n s by (auto simp: plain_def quoting_def)
  moreover have "c\<lparr>quote_handling := Toggle\<rparr> = c" using n(6) by (cases c) simp
  moreover have "toggles c False" "mode = FindStrict \<Longrightarrow> toggles c True" using s n by (auto simp: toggles_def)
  ultimately show ?thesis using n(5) that by blast
qed

text \<open>Over a chunk that is all of the input, an error that comes ahead comes where the reference pass fails too.\<close>

lemma simd_failed_fails:
  fixes acc :: "('s, 'u) accumulator" and err :: "'u Error"
  assumes "parse_starts c a mode rem bs p" and "error_ahead c p (drop p bs) (spec_init p s) err" and "length bs \<le> rem"
  shows "\<exists>e. result (spec_pass c acc a mode rem bs s) = Inl e"
proof -
  from assms(1) obtain start k where p: "spec_scan c a mode rem bs = (Inr (Some start) :: unit Error + nat option)"
    "skip_spec (terminator c) (rem - start) (drop start bs) = (k, False)" "p = start + k"
    by (auto simp: parse_starts_def)
  have "start \<le> rem" using spec_scan_le[OF p(1)] .
  then have "p \<le> rem" using skip_spec_le[OF p(2)] p(3) by simp
  then have "p + length (drop p bs) \<le> rem" using assms(3) by simp
  from error_ahead_fails[OF assms(2) this, of acc] show ?thesis
    using spec_scan_found[OF p(1), where 'v = 'u] p(2,3)
    by (auto simp: spec_pass_def spec_body_def spec_parse_def started_def)
qed

locale simd_pass = pass_env R rinv unread V vlen + lawful_isa I
  for R :: "'r reader_ops" and rinv and unread and V and vlen and I
begin

lemma simd_scan_ok:
  fixes acc :: "('s, 'u) accumulator"
  assumes "rinv r" and dia: "simd_dialect c mode" and a: "a = OutOfQuotes \<or> a = InQuotes"
  defines "bs \<equiv> stream r" and "rem \<equiv> r_remaining R r"
  shows "\<exists>res r'. cp_scan (simd_parser R V I addr c acc) a mode r = Some (res, r') \<and> rinv r' \<and>
    (res = spec_scan c a mode rem bs \<and>
      (\<forall>start. res = Inr (Some start) \<longrightarrow> stream r' = drop start bs \<and> r_remaining R r' = rem - start) \<or>
     (\<exists>err. res = Inl err \<and> fill_failed err))"
proof -
  obtain n where c: "comment c = None" "c\<lparr>quote_handling := Toggle\<rparr> = c" "toggles c False" "mode = FindStrict \<Longrightarrow> toggles c True"
    using simd_dialect_sel[OF dia] by metis
  have env: "simd_search R rinv unread compile_time_isa"
    by (intro simd_search.intro chunk_reader_axioms portable.lawful_isa_axioms)
  have st: "assumption_to_state c OutOfQuotes = FieldStart" by (simp add: assumption_to_state_def)
  have found: "\<exists>(res :: 'u Error + nat option) r'. simd_find_record_start R compile_time_isa c a' strict r1 = Some (res, r') \<and> rinv r' \<and>
      (res = search_result (search_run c strict 0 (take (r_remaining R r1) (stream r1)) (assumption_to_state c a')) \<and>
        (\<forall>start. search_run c strict 0 (take (r_remaining R r1) (stream r1)) (assumption_to_state c a') = FoundEnd start \<longrightarrow>
          stream r' = drop start (stream r1) \<and> r_remaining R r' = r_remaining R r1 - start) \<or>
       (\<exists>err. res = Inl err \<and> fill_failed err))"
    if "rinv r1" "toggles c strict" "a' = OutOfQuotes \<or> a' = InQuotes" for strict r1 a'
    using simd_search.simd_find_record_start_ok[OF env that, where 'u = 'u] c(2) by simp
  show ?thesis
  proof (cases mode)
    case FindNo
    then show ?thesis using assms(1) by (auto simp: cp_scan_def spec_scan_def bs_def rem_def)
  next
    case FindStrict
    then show ?thesis using found[OF assms(1) c(4) a] c(2)
      by (fastforce simp: cp_scan_def spec_scan_def simd_parser_def simd_scan_record_start_def bs_def rem_def search_result_Some)
  next
    case FindLenient
    then show ?thesis using found[OF assms(1) c(3) a] c(2)
      by (fastforce simp: cp_scan_def spec_scan_def simd_parser_def simd_scan_record_start_def bs_def rem_def search_result_Some)
  next
    case SkipHeaders
    obtain k still where sk: "skip_spec (terminator c) rem bs = (k, still)" by fastforce
    from skip_empty_lines_ok[OF assms(1) sk[unfolded bs_def rem_def]] obtain so :: "'u Error + nat \<times> bool" and r1 where
      so: "skip_empty_lines R c r = Some (so, r1)" "rinv r1" and
      so_ok: "so = Inr (k, still) \<and> stream r1 = drop k bs \<and> r_remaining R r1 = rem - k \<or> (\<exists>err. so = Inl err \<and> fill_failed err)"
      unfolding bs_def rem_def by blast
    have scan: "cp_scan (simd_parser R V I addr c acc) a mode r = simd_scan_header_end R c r"
      by (simp add: cp_scan_def simd_parser_def SkipHeaders)
    show ?thesis
    proof (cases so)
      case (Inl err)
      then show ?thesis using so so_ok unfolding scan simd_scan_header_end_def by auto
    next
      case (Inr x)
      then have x: "so = Inr (k, still)" "stream r1 = drop k bs" "r_remaining R r1 = rem - k" using so_ok by auto
      let ?out = "search_run c False 0 (take (rem - k) (drop k bs)) FieldStart"
      obtain res :: "'u Error + nat option" and r2 where
        f: "simd_find_record_start R compile_time_isa c OutOfQuotes False r1 = Some (res, r2)" "rinv r2" and
        f_ok: "res = search_result ?out \<and> (\<forall>start. ?out = FoundEnd start \<longrightarrow>
            stream r2 = drop start (drop k bs) \<and> r_remaining R r2 = rem - k - start) \<or>
          (\<exists>err. res = Inl err \<and> fill_failed err)"
        using found[OF so(2) c(3) disjI1[OF refl]] unfolding x(2,3) st by blast
      have rejected: "?out \<noteq> RejectedByte e" for e
        using lenient_never_rejects[OF c(3), of FieldStart 0 "take (rem - k) (drop k bs)" e] c(2) by (simp add: tracking_def)
      have spec: "(spec_scan c a mode rem bs :: 'u Error + nat option) =
          (case ?out of FoundEnd e \<Rightarrow> Inr (Some (k + e)) | RejectedByte e \<Rightarrow> Inl (InvalidQuote (at_byte (k + e))) | Searching q \<Rightarrow> Inr None)"
        using header_search[OF c(1) sk] by (simp add: spec_scan_def SkipHeaders)
      have res: "cp_scan (simd_parser R V I addr c acc) a mode r =
          Some (case res of Inl e \<Rightarrow> Inl e | Inr fin \<Rightarrow> Inr (map_option (\<lambda>off. k + off) fin), r2)"
        unfolding scan simd_scan_header_end_def so(1) x(1) by (simp add: f(1) split: sum.split)
      show ?thesis
        unfolding res spec using f(2) f_ok rejected
        by (cases ?out) (auto simp: search_result_def add.commute)
    qed
  qed
qed

text \<open>The body of a pass: the reference parse, a UTF-8 error at the end of what is valid, or an arity error ahead.\<close>

lemma simd_parse_ok:
  fixes acc acc' :: "('s, 'u) accumulator"
  assumes "rinv r" and "r_remaining R r = L - base" and dia: "simd_dialect c mode" and len: "length (stream r) < 2 ^ 63"
    and first: "stream r = [] \<or> \<not> terminates c (hd (stream r))" and same: "interchangeable vlen c acc acc'"
  shows "\<exists>res r'. simd_run_steppers R V I addr c acc' base s r = Some (res, r') \<and> rinv r' \<and>
    (res = spec_parse c acc L base (stream r) s \<or> (\<exists>err. res = Inl err \<and> (fill_failed err \<or>
       vlen (stream r) < length (stream r) \<and> err = Utf8 (at_byte (base + vlen (stream r))) \<or>
       error_ahead c base (stream r) (spec_init base s) err)))"
proof -
  obtain n where c: "if quote c = None then plain c n else quoting c n (scan_config c)" using simd_dialect_sel[OF dia] by metis
  show ?thesis
  proof (cases "quote c = None")
    case True
    then have p: "plain c n" using c by simp
    from cursor_stepper_start[OF p first, of base s] obtain st where
      st: "cursor_stepper_new c = Some st" "cursor_rel c n (stream r) base 0 0 0 st (spec_init base s)" by blast
    have env: "lagging_driver R rinv unread (cursor_stepper_ops I addr) c acc' L (cursor_rel c n) (\<lambda>k. k < 2 ^ 63) (error_ahead c) V vlen"
      by (intro lagging_driver.intro chunk_reader_axioms cursor_lagging[OF p] validator_axioms)
    from lagging_driver.driver_run_ok[OF env assms(1) st(2) len assms(2)] settled_swap[OF env same, of base "stream r" s]
    show ?thesis
      unfolding lagging_driver.run_ok_def[OF env] simd_run_steppers_def
      by (simp add: True st(1) flip: spec_parse_def) blast
  next
    case False
    then have q: "quoting c n (scan_config c)" using c by simp
    from index_stepper_start[OF q first, of base s] obtain st where
      st: "index_stepper_new c = Some st" "index_rel c n (stream r) base 0 0 0 st (spec_init base s)" by blast
    have env: "lagging_driver R rinv unread (index_stepper_ops I addr) c acc' L (index_rel c n) (\<lambda>k. k < 2 ^ 63) (error_ahead c) V vlen"
      by (intro lagging_driver.intro chunk_reader_axioms index_lagging validator_axioms)
    from lagging_driver.driver_run_ok[OF env assms(1) st(2) len assms(2)] settled_swap[OF env same, of base "stream r" s]
    show ?thesis
      unfolding lagging_driver.run_ok_def[OF env] simd_run_steppers_def
      by (simp add: False st(1) flip: spec_parse_def) blast
  qed
qed

text \<open>The errors a pass may return in place of the reference result, over the bytes from where its parse begins.\<close>

definition simd_failed ::
    "Config \<Rightarrow> Assumption \<Rightarrow> FindRecordStart \<Rightarrow> nat \<Rightarrow> byte list \<Rightarrow> 's \<Rightarrow> 'u Error \<Rightarrow> bool" where
  "simd_failed c a mode rem bs s err \<longleftrightarrow> (\<exists>p. parse_starts c a mode rem bs p \<and>
     (vlen (drop p bs) < length (drop p bs) \<and> err = Utf8 (at_byte (p + vlen (drop p bs))) \<or>
      error_ahead c p (drop p bs) (spec_init p s) err))"

lemma simd_pass_swap:
  fixes acc acc' :: "('s, 'u) accumulator"
  assumes inv: "rinv r" and dia: "simd_dialect c mode" and a: "a = OutOfQuotes \<or> a = InQuotes" and len: "length (stream r) < 2 ^ 63"
    and same: "interchangeable vlen c acc acc'"
  defines "bs \<equiv> stream r" and "rem \<equiv> r_remaining R r"
  shows "\<exists>res r'. chunk_parse R (simd_parser R V I addr c acc') s a mode r = Some (res, r') \<and> rinv r' \<and>
    (res = spec_pass c acc a mode rem bs s \<or>
     (\<exists>err. result res = Inl err \<and> (fill_failed err \<or> simd_failed c a mode rem bs s err)))"
proof -
  have conf: "cp_config (simd_parser R V I addr c acc') = c" by (simp add: simd_parser_def)
  have parse: "\<exists>res r'. cp_parse_from (simd_parser R V I addr c acc') base s r2 = Some (res, r') \<and> rinv r' \<and>
      (res = spec_parse c acc (r_remaining R r) base (stream r2) s \<or> (\<exists>err. res = Inl err \<and> (fill_failed err \<or>
         vlen (stream r2) < length (stream r2) \<and> err = Utf8 (at_byte (base + vlen (stream r2))) \<or>
         error_ahead c base (stream r2) (spec_init base s) err)))"
    if "rinv r2" "r_remaining R r2 = r_remaining R r - base" "length (stream r2) \<le> length (stream r)"
      "stream r2 = [] \<or> \<not> terminates c (hd (stream r2))" for base r2
  proof -
    have "length (stream r2) < 2 ^ 63" using that(3) len by simp
    from simd_parse_ok[OF that(1,2) dia this that(4) same, of addr s] show ?thesis by (simp add: simd_parser_def)
  qed
  show ?thesis unfolding simd_failed_def bs_def rem_def
    by (rule chunk_parse_parts[OF inv conf simd_scan_ok[OF inv dia a] parse])
qed

lemmas simd_pass_ok = simd_pass_swap[OF _ _ _ _ interchangeable_refl]

end

section \<open>On the program's readers\<close>

interpretation simd_memory_bytes: simd_pass in_memory_ops im_inv "\<lambda>_. []" validate_bytes length compile_time_isa
  by (intro simd_pass.intro in_memory_bytes.pass_env_axioms portable.lawful_isa_axioms)

interpretation simd_memory_text: simd_pass in_memory_ops im_inv "\<lambda>_. []" validate_str utf8_valid_len compile_time_isa
  by (intro simd_pass.intro in_memory_text.pass_env_axioms portable.lawful_isa_axioms)

interpretation simd_mmap_text: simd_pass mmap_reader_ops mm_inv "\<lambda>_. []" validate_str utf8_valid_len compile_time_isa
  by (intro simd_pass.intro mmap_text.pass_env_axioms portable.lawful_isa_axioms)

sublocale ring_reader \<subseteq> simd_ring_text: simd_pass "ring_reader_ops B rd" "ring_inv binv sinv" "ring_unread content"
    validate_str utf8_valid_len compile_time_isa
  by (intro simd_pass.intro ring_text.pass_env_axioms portable.lawful_isa_axioms)

end
