(* ===== verification/SimdParallel.thy ===== *)
theory SimdParallel
  imports SimdParser Files
begin

text \<open>
  The SIMD parser under the scheduler. Its passes may fail where the reference pass of the chunk does not, for what
  lies behind the chunk; but only where the parse of the rest of the file fails too, so that a parallel parse
  returns the sequential result, or both return an error.
\<close>

section \<open>A pass over a chunk\<close>

lemma chunk_parse_record_start:
  assumes "chunk_parse R P s a mode r = Some (pr, r')" and "cp_scan P a mode r = Some (sc, r1)"
  shows "record_start pr = (case sc of Inr (Some x) \<Rightarrow> Some x | _ \<Rightarrow> None)"
  using assms
  by (auto simp: chunk_parse_def started_def failed_def no_record_def split: sum.splits option.splits prod.splits bool.splits)

lemma spec_pass_record_start:
  "record_start (spec_pass c acc a mode rem bs s) =
    (case spec_scan c a mode rem bs :: 'u Error + nat option of Inr (Some x) \<Rightarrow> Some x | _ \<Rightarrow> None)"
  for acc :: "('s, 'u) accumulator"
  by (auto simp: spec_pass_def started_def failed_def no_record_def split: sum.splits option.splits)

text \<open>The parse of the rest of the input fails.\<close>

definition rest_fails :: "Config \<Rightarrow> ('s, 'u) accumulator \<Rightarrow> byte list \<Rightarrow> 's \<Rightarrow> nat \<Rightarrow> 'u Error \<Rightarrow> bool" where
  "rest_fails c acc bytes init B e \<longleftrightarrow> (\<exists>e'. segment c acc bytes init B (length bytes) = Inl e')"

lemma doomed_rest_fails: "doomed c acc bytes init (rest_fails c acc bytes init)"
  by (simp add: doomed_def rest_fails_def)

lemma ahead_rest_fails:
  fixes acc :: "('s, 'u) accumulator" and err :: "'u Error"
  assumes "plain_acc acc" and start: "parse_starts c a mode rem (drop d bytes) p"
    and err: "error_ahead c p (drop p (drop d bytes)) (spec_init p init) err" and d: "d \<le> length bytes" "d + rem \<le> length bytes"
  shows "\<exists>x. record_start (spec_pass c acc a mode rem (drop d bytes) init) = Some x \<and> rest_fails c acc bytes init (d + x) e"
proof -
  let ?bs = "drop d bytes" and ?n = "length bytes - d"
  from start obtain x k where x: "spec_scan c a mode rem ?bs = (Inr (Some x) :: unit Error + nat option)"
    "skip_spec (terminator c) (rem - x) (drop x ?bs) = (k, False)" "p = x + k"
    by (auto simp: parse_starts_def)
  have k: "k = terminator_run (terminator c) (drop x ?bs)" using x(2) by (auto simp: skip_spec_def Let_def)
  have le: "x \<le> ?n" using spec_scan_le[OF x(1)] d by simp
  have run: "k \<le> ?n - x" using terminator_run_le[of "terminator c" "drop x ?bs"] k by simp
  have "p + length (drop p ?bs) \<le> ?n" using le run x(3) by simp
  from error_ahead_fails[OF err this, of acc] obtain e' where "spec_parse c acc ?n p (drop p ?bs) init = Inl e'"
    by (auto simp: spec_parse_def)
  moreover have "skip_spec (terminator c) (?n - x) (drop x ?bs) = (k, False)" using k run by (simp add: skip_spec_def Let_def)
  ultimately have "spec_body c acc ?n ?bs x init = Inl e'" by (simp add: spec_body_def x(3))
  then have "\<exists>e'. segment c acc bytes init (d + x) (length bytes) = Inl e'"
    using body_segment[OF assms(1) le, of "length bytes" bytes d c init] d(1) by (simp add: shift_result_def)
  moreover have "record_start (spec_pass c acc a mode rem ?bs init) = Some x"
    using spec_scan_found[OF x(1), where 'v = 'u] by (simp add: spec_pass_record_start)
  ultimately show ?thesis by (simp add: rest_fails_def)
qed

section \<open>The scheduler's contract\<close>

context quiet_env
begin

lemma simd_speculative:
  fixes acc :: "('s, 'u) accumulator"
  assumes isa: "lawful_isa I" and dia: "simd_dialect c FindStrict" and len: "length input < 2 ^ 63" and plain: "plain_acc acc"
  shows "speculative X rinv unread cinv input (simd_parser (io_reader X) V I addr c acc) c acc init
    (rest_fails c acc input init) {OutOfQuotes, InQuotes}"
proof (intro speculative.intro io_context_axioms speculative_axioms.intro)
  fix ctx s e a mode
  assume ctx: "cinv ctx" and se: "s \<le> e" "e \<le> length input" and "a \<in> {OutOfQuotes, InQuotes}"
  then have a: "a = OutOfQuotes \<or> a = InQuotes" by simp
  let ?Q = "simd_parser (io_reader X) V I addr c acc" and ?spec = "spec_pass c acc a mode (e - s) (drop s input) init"
  have dia': "simd_dialect c mode" using dia by (auto simp: simd_dialect_def)
  from opens[OF ctx se] obtain r where r: "io_open X s e ctx = Some (Inr r)" by blast
  from open_ok[OF ctx se r] have inv: "rinv r" and st: "stream r = drop s input" and rem: "r_remaining (io_reader X) r = e - s"
    by (simp_all add: stream_def)
  have len': "length (stream r) < 2 ^ 63" using len by (simp add: st)
  have env: "simd_pass (io_reader X) rinv unread V vlen I" by (rule simd_pass.intro[OF pass_env isa])
  have no: "\<not> fill_failed err" for err :: "'u Error" using reads by (auto simp: fill_failed_def)
  from simd_pass.simd_pass_ok[OF env inv dia' a len', of addr acc init] obtain pr r' where
    p: "chunk_parse (io_reader X) ?Q init a mode r = Some (pr, r')" "rinv r'"
    "pr = ?spec \<or> (\<exists>err. result pr = Inl err \<and> simd_pass.simd_failed vlen c a mode (e - s) (drop s input) init err)"
    unfolding st rem using no by blast
  from simd_pass.simd_scan_ok[OF env inv dia' a, of addr acc] obtain sc r1 where
    sc: "cp_scan ?Q a mode r = Some (sc, r1)" "sc = spec_scan c a mode (e - s) (drop s input)"
    unfolding st rem using no by blast
  have start: "record_start pr = record_start ?spec"
    unfolding chunk_parse_record_start[OF p(1) sc(1)] sc(2) spec_pass_record_start ..
  have "near_pass (rest_fails c acc input init) s pr ?spec"
  proof (cases "pr = ?spec")
    case False
    with p(3) obtain err q where err: "result pr = Inl err" "parse_starts c a mode (e - s) (drop s input) q"
      "error_ahead c q (drop q (drop s input)) (spec_init q init) err"
      by (auto simp: simd_pass.simd_failed_def[OF env] valid)
    from ahead_rest_fails[OF plain err(2,3), of "with_base s err"] se start err(1) show ?thesis by (auto simp: near_pass_def)
  qed (simp add: near_pass_def)
  with r p(1) release_ok[OF ctx p(2)] show "\<exists>r pr r'. io_open X s e ctx = Some (Inr r) \<and>
      chunk_parse (io_reader X) ?Q init a mode r = Some (pr, r') \<and> cinv (io_release X ctx r') \<and>
      near_pass (rest_fails c acc input init) s pr ?spec"
    by blast
qed

end

section \<open>Parallel runs on mapped files\<close>

lemma simd_supports_resolved:
  assumes "for_file h c n = (Some (Inr rs) :: ('w Error + _) option)" and "simd_dialect c mode"
  shows "simd_dialect (rs_config rs) mode"
proof -
  obtain cs where "rs_config rs = c\<lparr>chunk_size := cs, io_buffer_limit := resolve_io_buffer_limit h c\<rparr>"
    using for_file_shape[OF assms(1)] by blast
  moreover have "simd_supports (c\<lparr>chunk_size := x, io_buffer_limit := y\<rparr>) = simd_supports c" for x y
    by (cases c) (simp add: simd_supports_def cong: option.case_cong if_cong)
  ultimately show ?thesis using assms(2) by (simp add: simd_dialect_def dialect_ok_def)
qed

lemma simd_parallel_run:
  fixes res :: "('u Error + byte list list list) option"
  assumes isa: "lawful_isa I" and dia: "simd_dialect c FindStrict"
    and rs: "for_file h c (length input) = (Some (Inr rs) :: ('w Error + _) option)" and ne: "input \<noteq> []"
    and len: "length input < 2 ^ 63" and host: "0 < available_parallelism h"
    and as: "assumptions_for_config (quote c) (escape c) = Some as"
    and B: "first_boundary (rs_config rs) (take (chunk_size (rs_config rs)) input) = Some B"
    and pass: "quote c = None \<or> co_passes (spec_output (rs_config rs) (collect :: (_, 'u) accumulator) []
      (chunk_size (rs_config rs)) as input (rs_chunk_count rs - 1)) \<noteq> []"
    and run: "run_with_outcome (mmap_io_ops (Inr ())) (\<lambda>_. map_ctx input) (map_ctx input)
      (simd_parser mmap_reader_ops validate_bytes I addr (rs_config rs) collect) [] rs as concat s res"
  shows "case spawn_error s of
      None \<Rightarrow> \<exists>out. res = Some out \<and> same_or_failed (rest_fails (rs_config rs) collect input []) out (sequential (rs_config rs) collect input [])
    | Some e \<Rightarrow> res = Some (Inl (IO e))"
proof -
  note r = for_file_dialect[OF rs]
  let ?c = "rs_config rs" and ?acc = "collect :: (_, 'u) accumulator"
  note dia' = simd_supports_resolved[OF rs dia]
  have X: "io_reader (mmap_io_ops (Inr ())) = mmap_reader_ops" by (simp add: mmap_io_ops_def)
  note sp = mmap_run.simd_speculative[OF isa dia' len, of ?acc addr "[]", unfolded X]
  have comment: "comment ?c = None" and esc: "escape ?c = quote ?c"
    using simd_dialect_sel[OF dia'] dia' by (metis, simp add: simd_dialect_def)
  then have A: "set as \<subseteq> {OutOfQuotes, InQuotes}" "as \<noteq> []"
    using as r(3,4) by (auto simp: assumptions_for_config_def split: option.splits)
  have count: "0 < rs_chunk_count rs"
    using div_ceil_bounds(3)[OF r(6), of "length input"] ne r(8) by simp
  obtain G where G: "boundaries_closed ?c ?acc input [] G" "length input \<in> G" "B \<in> G"
    "covered G (length input) B (chunk_size ?c) 0 (map (spec_output ?c ?acc [] (chunk_size ?c) as input) [0..<rs_chunk_count rs])"
  proof (cases "quote c = None")
    case True
    let ?G = "terminators ?c input B"
    have "as = [OutOfQuotes]" using as esc True r(3,4) by (simp add: assumptions_for_config_def)
    moreover have "\<not> is_terminator (terminator ?c) (delimiter ?c)" using dia' by (simp add: simd_dialect_def dialect_ok_def)
    ultimately have "covered ?G (length input) B (chunk_size ?c) 0
        (map (spec_output ?c ?acc [] (chunk_size ?c) as input) [0..<rs_chunk_count rs])"
      using r True div_ceil_bounds(1)[OF r(6), of "length input"] B by (intro unquoted_covered) auto
    moreover have "boundaries_closed ?c ?acc input [] ?G" "length input \<in> ?G" "B \<in> ?G"
      using terminators_closed[OF first_boundary_le[OF B]] by (auto simp: terminators_def)
    ultimately show ?thesis by (rule that[rotated 3])
  next
    case False
    have "covered UNIV (length input) B (chunk_size ?c) 0 (map (spec_output ?c ?acc [] (chunk_size ?c) as input) [0..<rs_chunk_count rs])"
      using pass False count div_ceil_bounds(1)[OF r(6), of "length input"] r(8)
      by (intro covered_last) (simp_all add: last_map)
    then show ?thesis by (intro that[of UNIV]) (simp_all add: boundaries_closed_def)
  qed
  show ?thesis
    using speculative_run[OF sp doomed_rest_fails A(1) _ refl comment r(6,7) ne r(8) for_file_threads[OF rs _ host] A(2) _ _ _ B G run]
      map_ctx_ok[OF ne] ne by simp
qed

end
