(* ===== verification/Spec2Isabelle.thy ===== *)
theory Spec2Isabelle
  imports Sessions Queues Streams RoundTrip Files Utf8Fields SimdParallel Assembly
begin

text \<open>
A model of csveee, a parallel CSV parser, with the theorems that make it correct.

  The program. \<open>builder.rs\<close> collects a configuration; \<open>parser/api.rs\<close> offers twelve parse methods (fixed
  arity or variadic, text or bytes, file, slice or stream); \<open>scheduler/mod.rs\<close> resolves the automatic settings
  (\<open>scheduler/resolve.rs\<close>), splits the input into chunks, lets worker threads parse each chunk under every
  assumption about its first byte (inside quotes or not), writes the outcomes into slots (\<open>scheduler/slot.rs\<close>)
  and merges them in order (\<open>scheduler/merge.rs\<close>), parsing a chunk again where no pass starts at the expected
  offset. A pass (\<open>parser/chunk.rs\<close>) finds the first record boundary, skips empty lines and runs a
  stepper under the driver (\<open>parser/driver.rs\<close>), which refills the reader, validates fresh bytes
  (\<open>parser/output.rs\<close>) and consumes what the stepper lets go. The DFA stepper (\<open>parser/dfa/\<close>) goes byte by byte
  through a table and compacts fields in place; the SIMD parser (\<open>parser/simd/\<close>) turns 64 bytes at a time into
  bitmasks of delimiters, terminators and quotes, and has one stepper for dialects with a quote and one for
  those without. Readers and contexts (\<open>io/\<close>) are in memory, memory-mapped, or a ring buffer over a file, a
  slice or a stream.

  The theories.
  \<open>Prelude\<close>: results, slices, moves within a buffer, \<open>Bits\<close>: words and bytes; \<open>Errors\<close>, \<open>Config\<close>: error.rs
  and config.rs. \<open>Table\<close>: parser/dfa/table.rs, the packed transitions, the eight-byte needle search and the
  construction of the tables. \<open>Output\<close>: parser/output.rs with the standard library's UTF-8 check, and the
  contract of an incremental validator (locale \<open>validator\<close>). \<open>Buffers\<close>, \<open>Mirrored\<close>: io/ringbuf/buf, as
  instances of a byte queue (locale \<open>byte_buffer\<close>); \<open>Queues\<close>: whole sequences of buffer operations. \<open>Readers\<close>:
  the three chunk readers, as instances of a reader with a stream (locale \<open>chunk_reader\<close>). \<open>IoContexts\<close>: the
  contexts that open chunks. \<open>Reference\<close>: the abstract specification of a parse, a machine that reads one byte at
  a time. \<open>Driver\<close>: parser/driver.rs and the contract of a stepper (locale \<open>chunk_stepper\<close>), proved enough for the
  driver loop to implement the machine on every reader. \<open>Stepper\<close>: parser/dfa/stepper.rs, an instance of that contract.
  \<open>Chunk\<close>, \<open>DfaChunk\<close>: parser/chunk.rs and parser/dfa/mod.rs, and the whole pass. \<open>Utf8Fields\<close>: fields of text
  parses are valid UTF-8. \<open>Arity\<close>: records of another width never reach the accumulator. \<open>Segments\<close>: the machine
  cut at record boundaries and moved to other offsets. \<open>Merge\<close>, \<open>Resolve\<close>, \<open>Scheduler\<close>, \<open>Workers\<close>: the scheduler; \<open>Workers\<close>
  has the threads as a step relation over all interleavings. What the scheduler relies on in a chunk parser is the locale
  \<open>speculative\<close> of \<open>Scheduler\<close>: a pass is the reference pass of its chunk, or it fails, where the parse of the rest of the input is known to
  fail too. \<open>Instances\<close>: the interpretations on the program's own
  readers, contexts and encodings. \<open>Boundaries\<close>: which chunk boundaries are safe; \<open>Sessions\<close>, \<open>Streams\<close>, \<open>Files\<close>: whole runs;
  \<open>RoundTrip\<close>: printing and parsing back; the SIMD parser: \<open>Isa\<close> (isa.rs, bitops.rs, lanes.rs: the primitives, their contract
  as the locale \<open>lawful_isa\<close> and the portable instance), \<open>Bitmask\<close> (bitmask.rs), \<open>FindStart\<close> (findstart.rs), \<open>FieldCount\<close>
  (fieldcount.rs), \<open>SimdIndex\<close> (index.rs), \<open>Scan\<close> (scan.rs), \<open>IndexStepper\<close> (index_stepper.rs), \<open>CursorStepper\<close> (cursor_stepper.rs);
  \<open>ArityAhead\<close> (the errors a stepper may report before it hands over the records before them: a wrong field count, or what
  a quote left open at the end of the input leads to), \<open>Unquoted\<close> (the reference
  machine on dialects without a quote, by boundaries), \<open>CursorEmit\<close>, \<open>CursorLocate\<close>, \<open>CursorScan\<close>, \<open>CursorPass\<close>, \<open>CursorSteps\<close>,
  \<open>CursorEnd\<close> (the cursor stepper against that machine: handing over, error positions, held vectors, the vector loop,
  a step, the end of the input), \<open>Quoted\<close>, \<open>IndexFields\<close>, \<open>IndexRecord\<close> (the reference machine on dialects with a quote: a
  field, a record as the quote and boundary marks cut it), \<open>Marks\<close> (the marks of a whole input and what the scanner reports of
  them, one vector behind), \<open>IndexEmit\<close>, \<open>IndexFlush\<close>, \<open>IndexLocate\<close>, \<open>IndexVector\<close>, \<open>IndexPass\<close>, \<open>IndexSteps\<close>, \<open>IndexClose\<close>,
  \<open>IndexDrain\<close>, \<open>IndexEnd\<close>, \<open>IndexFinish\<close> (the index stepper against that machine: assembly, flushing, error positions, a vector, the
  vector loop, a step, the virtual terminator and the padding at the end, the last records, an unclosed quote, finalize); its
  invariant speaks of the bytes it was fed with the padding of the alignment prologue in front, \<open>SimdParser\<close> (simd/mod.rs and its pass),
  \<open>SimdParallel\<close> (the SIMD parser meets \<open>speculative\<close>; its runs on mapped files),
  \<open>Assembly\<close> (what the record assembly of index.rs hands over); \<open>Api\<close>: builder.rs, parser/api.rs and the entry points of
  scheduler/mod.rs; \<open>Evaluation\<close>: simplification sets for concrete inputs.

  Conventions. A function that returns \<open>Result\<close> returns a sum whose left side is the error; \<open>None\<close> is a panic
  (a failed assertion, \<open>unreachable!\<close>, a slice out of range) or, for \<open>partial_function\<close>, a loop that does not end, and the
  theorems about passes and runs show that it does not occur. Pointers into a buffer are offsets; \<open>buffer_mut\<close>
  is a pair of a reading and a writing operation; a buffer's own moves (compaction, mirrored mapping,
  wrapping 64-bit cursors) are written out. \<open>usize\<close> quantities that cannot wrap within an address space are natural
  numbers; cursors and SWAR words are machine words. Where the code calls the system (files, \<open>mmap\<close>, \<open>madvise\<close>,
  \<open>memfd\<close>, threads, the facts of sys.rs) the answer is an argument. Fuel occurs in one place: \<open>fill_loop\<close> of \<open>Readers\<close>
  runs at most as many rounds as bytes were requested, since every round that goes on has read a byte.

  The address of a buffer, on which the SIMD alignment prologue depends, is an argument \<open>addr\<close> of which nothing is assumed.

  What is shown. Passes: on every reader a pass returns, with the reference machine's records, offsets and
  errors, a refill error or a UTF-8 error at the first invalid byte. So does a pass of the SIMD parser in the dialects
  it supports, but that an error may come ahead of the records before it; on a chunk that reaches the end of
  the input both parsers return the same or both fail. The strict search of the SIMD parser in a dialect with a quote and no
  escape is outside these theorems (\<open>simd_dialect\<close>), since its probe accepts what the DFA's rejects (\<open>strict_probe_diverges\<close>). Types: every table cell holds a state, a suspended stepper no pointer. Runs: results do not depend on the
  interleaving; if the header row ends in the first chunk, and there are no quotes and no comments, or the last chunk has a
  pass, a parallel parse is the sequential parse, and a parallel parse with the SIMD parser returns the same or both fail; streams are
  sequential parses, whatever short reads the source makes. Threads: slots are written once, the pool joins, errors are kept. Structures:
  buffers are queues, reopened contexts are fresh, refills lose nothing. Searches: the SWAR search, the strict
  probe and the boundary search are exact. Configuration: what \<open>validate\<close> and \<open>try_build\<close> accept, what resolution
  guarantees. And the places where the program does not do what it means to: a lost last record, a header row
  past the first chunk, also where blank lines fill it, strict probes that differ, a lost read error, the big-endian search, comments and trimming against the documentation.

  Bounds. The SIMD theorems hold for less than \<open>2 ^ 63\<close> bytes of input, more than an allocation can have: offsets of vectors are
  64-bit words there, wrapped below zero by the prologue.

  Not modelled. The vector instructions and their run-time detection: any implementation of the trait \<open>Isa\<close> that meets
  its documentation. \<open>Isa::vectorize\<close>, which only selects how a function is compiled. Tracing and \<open>Display\<close>, which only print. Sizes beyond the
  address space, where \<open>next_power_of_two\<close> or an addition of \<open>usize\<close> values would overflow. That a file changes while it is
  parsed. Callbacks that panic.
\<close>

section \<open>Parallel parsing is sequential parsing\<close>

text \<open>C1. A file in a dialect without quotes and comments, whose header row, if the dialect has one, begins
  and ends in the first chunk; it is read into memory, split into any number of chunks, and parsed in \<open>Bytes\<close> by the DFA parser
  on any number of workers in any interleaving. The result is that of one sequential parse of the whole file, records, order
  and error, unless a worker thread could not be spawned, which is reported. Where the header row is not in the first chunk
  the two can differ (\<open>blank_lines_hide_header\<close>).\<close>

theorem unquoted_parallel_parse:
  assumes "validate c = (Inr () :: 'v Error + unit)" and "quote c = None" and "comment c = None"
    and rs: "for_file h c (length input) = (Some (Inr rs) :: ('w Error + _) option)" and ne: "input \<noteq> []"
    and host: "0 < available_parallelism h"
    and B: "first_boundary (rs_config rs) (take (chunk_size (rs_config rs)) input) = Some B"
    and run: "mem_run_outcome le rs [OutOfQuotes] input s (res :: ('u Error + _) option)"
  shows "res = (case spawn_error s of
      None \<Rightarrow> Some (sequential (rs_config rs) collect input [])
    | Some e \<Rightarrow> Some (Inl (IO e)))"
proof -
  have "assumptions_for_config (quote c) (escape c) = Some [OutOfQuotes]"
    using assms(1,2) by (auto simp: assumptions_for_config_def validate_iff)
  from mem_run_deterministic[OF rs ne host this run] show ?thesis
    unfolding unquoted_mem_run[OF assms(1-3) rs ne B] .
qed

theorem unquoted_parallel_parse_witness:
  "\<exists>rs s (res :: (unit Error + _) option). mem_run_outcome True rs [OutOfQuotes] [97, 10, 98, 10] s res \<and>
     chunk_size (rs_config rs) = 3 \<and>
     res = (case spawn_error s of None \<Rightarrow> Some (sequential (rs_config rs) collect [97, 10, 98, 10] [])
       | Some e \<Rightarrow> Some (Inl (IO e)))"
proof -
  let ?c = "default_config\<lparr>quote := None, escape := None, has_headers := False, chunk_size := 3\<rparr>"
  let ?in = "[97, 10, 98, 10] :: byte list"
  have v: "validate ?c = (Inr () :: unit Error + unit)"
    by (simp add: validate_iff ring_ok_def dialect_ok_def default_config_def is_terminator_def)
  have "resolve_parser_backend ?c = (Inr Dfa_Backend :: unit Error + _)"
    by (simp add: resolve_parser_backend_def simd_supports_def dfa_supports_def default_config_def)
  from for_file_total[OF this] obtain rs where
    rs: "for_file demo_host ?c (length ?in) = (Some (Inr rs) :: (unit Error + _) option)" by blast
  note r = for_file_dialect[OF rs]
  have cs: "chunk_size (rs_config rs) = 3" using for_file_chunk_size[OF rs] by simp
  have "\<exists>s (res :: (unit Error + _) option). mem_run_outcome True rs [OutOfQuotes] ?in s res"
    by (rule mem_run_exists[OF rs]) (simp_all add: demo_host_def)
  then obtain s and res :: "(unit Error + _) option" where run: "mem_run_outcome True rs [OutOfQuotes] ?in s res"
    by blast
  have B: "first_boundary (rs_config rs) (take (chunk_size (rs_config rs)) ?in) = Some 0"
    using r(10) by (simp add: first_boundary_def)
  have "res = (case spawn_error s of None \<Rightarrow> Some (sequential (rs_config rs) collect ?in [])
       | Some e \<Rightarrow> Some (Inl (IO e)))"
    by (rule unquoted_parallel_parse[OF v _ _ rs _ _ B run]) (simp_all add: default_config_def demo_host_def)
  with run cs show ?thesis by blast
qed

text \<open>C2. A mapped file in any dialect without comments, quoted fields included, parsed in \<open>Bytes\<close> by the
  DFA parser: if the header row, where the dialect has one, ends in the first chunk, and the last chunk has a pass, the parallel
  parse returns the records, in order, or the error, of one sequential parse of the whole file, whatever the chunk boundaries
  cut through and whatever the speculation guessed for the other chunks. The section on where parallel parsing
  differs has a file for each condition that shows it is needed.\<close>

theorem last_pass_parallel_parse:
  assumes "validate c = (Inr () :: 'v Error + unit)" and comment: "comment c = None"
    and rs: "for_file h c (length input) = (Some (Inr rs) :: ('w Error + _) option)" and ne: "input \<noteq> []"
    and host: "0 < available_parallelism h"
    and as: "assumptions_for_config (quote c) (escape c) = Some as"
    and B: "first_boundary (rs_config rs) (take (chunk_size (rs_config rs)) input) = Some B"
    and pass: "co_passes (spec_output (rs_config rs) (collect :: (_, 'u) accumulator) []
      (chunk_size (rs_config rs)) as input (rs_chunk_count rs - 1)) \<noteq> []"
    and run: "map_run_outcome le rs as input s (res :: ('u Error + _) option)"
  shows "res = (case spawn_error s of
      None \<Rightarrow> Some (sequential (rs_config rs) collect input [])
    | Some e \<Rightarrow> Some (Inl (IO e)))"
  using map_run_deterministic[OF rs ne host as run] unfolding last_pass_map_run[OF assms(1,2) rs ne as B pass] .

theorem last_pass_parallel_parse_witness:
  "\<exists>rs s (res :: (unit Error + _) option).
     map_run_outcome True rs [OutOfQuotes, InQuotes] [97, 10, 34, 98, 34, 10, 99, 10] s res \<and>
     chunk_size (rs_config rs) = 4 \<and>
     res = (case spawn_error s of
         None \<Rightarrow> Some (sequential (rs_config rs) collect [97, 10, 34, 98, 34, 10, 99, 10] [])
       | Some e \<Rightarrow> Some (Inl (IO e)))"
proof -
  let ?c = "default_config\<lparr>has_headers := False, chunk_size := 4\<rparr>"
  let ?in = "[97, 10, 34, 98, 34, 10, 99, 10] :: byte list" and ?as = "[OutOfQuotes, InQuotes]"
  have v: "validate ?c = (Inr () :: unit Error + unit)"
    by (simp add: validate_iff ring_ok_def dialect_ok_def default_config_def is_terminator_def)
  have "resolve_parser_backend ?c = (Inr Dfa_Backend :: unit Error + _)"
    by (simp add: resolve_parser_backend_def simd_supports_def dfa_supports_def default_config_def)
  from for_file_total[OF this] obtain rs where
    rs: "for_file demo_host ?c (length ?in) = (Some (Inr rs) :: (unit Error + _) option)" by blast
  note r = for_file_dialect[OF rs]
  have cs: "chunk_size (rs_config rs) = 4" using for_file_chunk_size[OF rs] by simp
  have count: "rs_chunk_count rs = 2" using r(8) cs by (simp add: div_ceil_def)
  have as: "assumptions_for_config (quote ?c) (escape ?c) = Some ?as"
    by (simp add: assumptions_for_config_def default_config_def)
  have "\<exists>s (res :: (unit Error + _) option). map_run_outcome True rs ?as ?in s res"
    by (rule run_exists[OF rs]) (simp_all add: demo_host_def)
  then obtain s and res :: "(unit Error + _) option" where run: "map_run_outcome True rs ?as ?in s res"
    by blast
  have B: "first_boundary (rs_config rs) (take (chunk_size (rs_config rs)) ?in) = Some 0"
    using r(10) by (simp add: first_boundary_def)
  have pass: "co_passes (spec_output (rs_config rs) (collect :: (_, unit) accumulator) []
      (chunk_size (rs_config rs)) ?as ?in (rs_chunk_count rs - 1)) \<noteq> []"
    using r by (simp add: eval_cells eval_search eval_machine eval_pass cs count default_config_def)
  have "res = (case spawn_error s of None \<Rightarrow> Some (sequential (rs_config rs) collect ?in [])
       | Some e \<Rightarrow> Some (Inl (IO e)))"
    by (rule last_pass_parallel_parse[OF v _ rs _ _ as B pass run]) (simp_all add: default_config_def demo_host_def)
  with run cs show ?thesis by blast
qed

section \<open>Where parallel parsing differs\<close>

text \<open>The inputs. \<open>lost_input\<close> is \<open>aaaaaa,b\<close>, \<open>x",\<close> and a quoted line break, \<open>y,z\<close>, cut after
  nine bytes; \<open>hdr_input\<close> has a header row of 9 bytes with quoted line breaks and chunks of 3, \<open>blank_input\<close> four blank lines before
  the header row, in a dialect without a quote, and chunks of 3.\<close>

definition lost_input :: "byte list" where "lost_input = [97,97,97,97,97,97,44,98,10, 120,34,44,34,10,121,44,122]"
definition lost_rs :: ResolvedConfig where
  "lost_rs = \<lparr>rs_config = default_config\<lparr>has_headers := False, chunk_size := 9\<rparr>, rs_parser_backend = Dfa_Backend,
     rs_io_backend = InMemory, rs_thread_count = 1, rs_chunk_count = 2, rs_file_size = 17\<rparr>"

lemma lost_sel: "delimiter (rs_config lost_rs) = 44" "terminator (rs_config lost_rs) = CRLF" "quote (rs_config lost_rs) = Some 34" "escape (rs_config lost_rs) = Some 34"
  "comment (rs_config lost_rs) = None" "has_headers (rs_config lost_rs) = False"
  "quote_handling (rs_config lost_rs) = Toggle" "field_count (rs_config lost_rs) = None" "trim (rs_config lost_rs) = False"
  "chunk_size (rs_config lost_rs) = 9" "rs_chunk_count lost_rs = 2" "rs_file_size lost_rs = 17"
  by (simp_all add: lost_rs_def default_config_def)

definition hdr_input :: "byte list" where "hdr_input = [34,120,10, 97,44,98, 10,34,44, 121,10,49, 44,50,10]"
definition hdr_rs :: ResolvedConfig where
  "hdr_rs = \<lparr>rs_config = default_config\<lparr>chunk_size := 3\<rparr>, rs_parser_backend = Dfa_Backend,
     rs_io_backend = InMemory, rs_thread_count = 1, rs_chunk_count = 5, rs_file_size = 15\<rparr>"

lemma hdr_sel: "delimiter (rs_config hdr_rs) = 44" "terminator (rs_config hdr_rs) = CRLF" "quote (rs_config hdr_rs) = Some 34" "escape (rs_config hdr_rs) = Some 34"
  "comment (rs_config hdr_rs) = None" "has_headers (rs_config hdr_rs) = True"
  "quote_handling (rs_config hdr_rs) = Toggle" "field_count (rs_config hdr_rs) = None" "trim (rs_config hdr_rs) = False"
  "chunk_size (rs_config hdr_rs) = 3" "rs_chunk_count hdr_rs = 5" "rs_file_size hdr_rs = 15"
  by (simp_all add: hdr_rs_def default_config_def)

definition blank_input :: "byte list" where "blank_input = [10,10,10, 10,97,10, 98,10]"
definition blank_rs :: ResolvedConfig where
  "blank_rs = \<lparr>rs_config = default_config\<lparr>quote := None, escape := None, chunk_size := 3\<rparr>, rs_parser_backend = Dfa_Backend,
     rs_io_backend = InMemory, rs_thread_count = 1, rs_chunk_count = 3, rs_file_size = 8\<rparr>"

lemma blank_sel: "delimiter (rs_config blank_rs) = 44" "terminator (rs_config blank_rs) = CRLF" "quote (rs_config blank_rs) = None"
  "escape (rs_config blank_rs) = None" "comment (rs_config blank_rs) = None" "has_headers (rs_config blank_rs) = True"
  "quote_handling (rs_config blank_rs) = Toggle" "field_count (rs_config blank_rs) = None" "trim (rs_config blank_rs) = False"
  "chunk_size (rs_config blank_rs) = 3" "rs_chunk_count blank_rs = 3" "rs_file_size blank_rs = 8"
  by (simp_all add: blank_rs_def default_config_def)

text \<open>C4. A record is lost without an error: in the second and last chunk the strict probe rejects the
  assumption that is right, the other scans cleanly, the chunk is taken to have no record start, and the
  merge skips it. The file is well formed under the dialect, and sequentially it has three records.\<close>

theorem tail_lost:
  "mem_run le lost_rs lost_input =
     (Some (Inr [[[97,97,97,97,97,97],[98]], [[120,44]]]) :: ('u Error + _) option) \<and>
   sequential (rs_config lost_rs) collect lost_input [] =
     (Inr [[[97,97,97,97,97,97],[98]], [[120,44]], [[121],[122]]] :: 'u Error + _)"
proof
  have as: "assumptions_for_config (quote (rs_config lost_rs)) (escape (rs_config lost_rs)) = Some [OutOfQuotes, InQuotes]"
    by (simp add: lost_sel assumptions_for_config_def)
  have o0: "spec_output (rs_config lost_rs) (collect :: (_, 'u) accumulator) [] 9 [OutOfQuotes, InQuotes] lost_input 0 =
     \<lparr>co_passes = [\<lparr>rp_record_start = 0, rp_result = Inr [[[97,97,97,97,97,97],[98]], [[120,44]]]\<rparr>], co_record_end = Some 13\<rparr>"
    by (simp add: eval_cells eval_search eval_machine eval_pass lost_sel lost_input_def)
  have o1: "spec_output (rs_config lost_rs) (collect :: (_, 'u) accumulator) [] 9 [OutOfQuotes, InQuotes] lost_input 1 = empty_output"
    by (simp add: eval_cells eval_search eval_machine eval_pass lost_sel lost_input_def)
  show "mem_run le lost_rs lost_input =
     (Some (Inr [[[97,97,97,97,97,97],[98]], [[120,44]]]) :: ('u Error + _) option)"
    using mem_run_outputs[OF _ _ _ as, of lost_input le, where 'u = 'u] o0 o1
    by (simp add: lost_sel lost_input_def eval_merge empty_output_def upt_rec)
next
  show "sequential (rs_config lost_rs) collect lost_input [] =
     (Inr [[[97,97,97,97,97,97],[98]], [[120,44]], [[121],[122]]] :: 'u Error + _)"
    by (simp add: eval_cells eval_search eval_machine eval_pass lost_sel lost_input_def)
qed

text \<open>C5. A header row that reaches past the first chunk: the merge accepts any pass of the first
  chunk that has one, here a pass that starts inside the header row's quotes, and a good file is
  reported as broken.\<close>

theorem header_past_first_chunk:
  "mem_run le hdr_rs hdr_input = (Some (Inl (UnclosedQuote (at_byte 7))) :: ('u Error + _) option) \<and>
   sequential (rs_config hdr_rs) collect hdr_input [] = (Inr [[[49],[50]]] :: 'u Error + _)"
proof
  have as: "assumptions_for_config (quote (rs_config hdr_rs)) (escape (rs_config hdr_rs)) = Some [OutOfQuotes, InQuotes]"
    by (simp add: hdr_sel assumptions_for_config_def)
  note ev = eval_cells eval_search eval_machine eval_pass hdr_sel hdr_input_def
  let ?o = "spec_output (rs_config hdr_rs) (collect :: (_, 'u) accumulator) [] 3 [OutOfQuotes, InQuotes] hdr_input"
  have o0: "?o 0 = empty_output" by (simp add: ev)
  have o1: "?o 1 = empty_output" by (simp add: ev)
  have o2: "?o 2 = \<lparr>co_passes = [\<lparr>rp_record_start = 6, rp_result = Inl (UnclosedQuote (at_byte 7))\<rparr>], co_record_end = None\<rparr>"
    by (simp add: ev)
  show "mem_run le hdr_rs hdr_input = (Some (Inl (UnclosedQuote (at_byte 7))) :: ('u Error + _) option)"
  proof -
    have idx: "[0..<5] = [0, 1, 2, 3, 4::nat]" by (simp add: upt_rec)
    have len: "length hdr_input = 15" by (simp add: hdr_input_def)
    from mem_run_outputs[OF _ _ _ as, of hdr_input le, where 'u = 'u] show ?thesis
      unfolding hdr_sel len idx
      by (simp add: o0 o1[unfolded One_nat_def] o2 eval_merge empty_output_def)
  qed
next
  show "sequential (rs_config hdr_rs) collect hdr_input [] = (Inr [[[49],[50]]] :: 'u Error + _)"
    by (simp add: eval_cells eval_search eval_machine eval_pass hdr_sel hdr_input_def)
qed

text \<open>Blank lines that fill the first chunk have the same effect, without a quote in sight: the header row is read as a record.\<close>

lemma blank_lines_hide_header:
  "mem_run le blank_rs blank_input = (Some (Inr [[[97]], [[98]]]) :: ('u Error + _) option) \<and>
   sequential (rs_config blank_rs) collect blank_input [] = (Inr [[[98]]] :: 'u Error + _)"
proof
  have as: "assumptions_for_config (quote (rs_config blank_rs)) (escape (rs_config blank_rs)) = Some [OutOfQuotes]"
    by (simp add: blank_sel assumptions_for_config_def)
  note ev = eval_cells eval_search eval_machine eval_pass blank_sel blank_input_def
  let ?o = "spec_output (rs_config blank_rs) (collect :: (_, 'u) accumulator) [] 3 [OutOfQuotes] blank_input"
  have o0: "?o 0 = empty_output" by (simp add: ev)
  have o1: "?o 1 = \<lparr>co_passes = [\<lparr>rp_record_start = 3, rp_result = Inr [[[97]], [[98]]]\<rparr>], co_record_end = Some 7\<rparr>" by (simp add: ev)
  have o2: "?o 2 = \<lparr>co_passes = [\<lparr>rp_record_start = 7, rp_result = Inr []\<rparr>], co_record_end = None\<rparr>" by (simp add: ev)
  have idx: "[0..<3] = [0, 1, 2::nat]" and len: "length blank_input = 8" by (simp_all add: upt_rec blank_input_def)
  from mem_run_outputs[OF _ _ _ as, of blank_input le, where 'u = 'u]
  show "mem_run le blank_rs blank_input = (Some (Inr [[[97]], [[98]]]) :: ('u Error + _) option)"
    unfolding blank_sel len idx by (simp add: o0 o1[unfolded One_nat_def] o2 eval_merge empty_output_def)
  show "sequential (rs_config blank_rs) collect blank_input [] = (Inr [[[98]]] :: 'u Error + _)"
    by (simp add: ev)
qed

text \<open>C6. A read error in the header scan of a one-chunk file is not reported: the scan's error counts as a
  failed assumption, the chunk has no pass, and the run returns success with no record at all.\<close>

theorem read_error_lost:
  assumes "fresh_ring ctx" and "has_headers (rs_config rs)" and "rs_chunk_count rs = 1"
    and "validate (rs_config rs) = (Inr () :: 'v Error + unit)"
  shows "run_with_one (broken_io g e) (Inr ctx)
      (dfa_parser (ring_reader_ops (linear_ops g) (broken_read e)) V P acc) init rs merge = Some (Inr (merge []))"
proof -
  have "\<exists>as. assumptions_for_config (quote (rs_config rs)) (escape (rs_config rs)) = Some as"
    using assms(4) by (auto simp: assumptions_for_config_def validate_iff split: option.splits)
  then obtain as where "assumptions_for_config (quote (rs_config rs)) (escape (rs_config rs)) = Some as" ..
  from broken_run[OF assms(1-3) this] show ?thesis .
qed

theorem read_error_lost_witness:
  "run_with_one (broken_io 8 (OsError ''EIO''))
      (Inr \<lparr>ri_buf = \<lparr>l_buf = replicate 8 0, l_head = 0, l_tail = 0, l_limit = None\<rparr>,
         ri_src = \<lparr>cur_data = [97, 10, 98, 10], cur_pos = 0\<rparr>, ri_file_size = 4, ri_read_cap = 8\<rparr>)
      (dfa_parser (ring_reader_ops (linear_ops 8) (broken_read (OsError ''EIO''))) validate_bytes
        (dfa_chunk_parser_new True default_config) (collect :: (_, unit) accumulator)) []
      \<lparr>rs_config = default_config, rs_parser_backend = Dfa_Backend,
        rs_io_backend = RingBuf \<lparr>buffer_size = 8, buffer_limit = None\<rparr>, rs_thread_count = 1,
        rs_chunk_count = 1, rs_file_size = 4\<rparr> concat = Some (Inr [])"
proof -
  have v: "validate default_config = (Inr () :: unit Error + unit)" by (rule default_config_valid)
  have h: "has_headers default_config" by (simp add: default_config_def)
  let ?rs = "\<lparr>rs_config = default_config, rs_parser_backend = Dfa_Backend,
      rs_io_backend = RingBuf \<lparr>buffer_size = 8, buffer_limit = None\<rparr>, rs_thread_count = 1,
      rs_chunk_count = 1, rs_file_size = 4\<rparr>"
  have "validate (rs_config ?rs) = (Inr () :: unit Error + unit)" using v by simp
  note lost = read_error_lost[OF _ _ _ this, where merge = concat, unfolded concat.simps]
  show ?thesis by (rule lost) (simp_all add: fresh_ring_def h)
qed

section \<open>The worker threads\<close>

text \<open>C7. The obligation of \<open>WriteOnceSlot::set\<close>: in every interleaving, with whatever failures, no two
  workers ever hold the same chunk, the chunk a worker is about to write has an empty slot, and what
  a slot holds no later step changes.\<close>

theorem slots_written_once:
  assumes "(pool_step mk proc tc cc)\<^sup>*\<^sup>* (pool_new tc cc) s" and "0 < tc" and "tc \<le> cc"
    and "pool_step mk proc tc cc s s'"
  shows "(\<forall>t<tc. \<forall>u<tc. \<forall>i. holds t (workers s ! t) = Some i \<and> holds u (workers s ! u) = Some i \<longrightarrow> t = u) \<and>
    (\<forall>t<tc. \<forall>i ctx. workers s ! t = Working i ctx \<longrightarrow> i < cc \<and> slots s ! i = None) \<and>
    (\<forall>i out. slots s ! i = Some out \<longrightarrow> slots s' ! i = Some out)"
proof (intro conjI allI impI)
  have inv: "held_ok tc cc s" by (rule held_reachable[OF assms(1-3)])
  show "t = u" if "t < tc" "u < tc" "holds t (workers s ! t) = Some i \<and> holds u (workers s ! u) = Some i" for t u i
    using held_okD(4)[OF inv] that by blast
  show "i < cc" "slots s ! i = None" if "t < tc" "workers s ! t = Working i ctx" for t i ctx
    using held_okD(5)[OF inv that(1)] that(2) by simp_all
  show "slots s' ! i = Some out" if "slots s ! i = Some out" for i out
    by (rule slot_kept[OF assms(4) inv that])
qed

theorem slots_written_once_witness:
  "\<exists>s'. (pool_step (\<lambda>_. Inr ()) (\<lambda>i ctx. Some (i, ctx)) 2 3) (pool_new 2 3) s' \<and>
     (\<forall>i out. slots (pool_new 2 3 :: (unit, nat) pool) ! i = Some out \<longrightarrow> slots s' ! i = Some out)"
proof -
  let ?s = "pool_new 2 3 :: (unit, nat) pool"
  let ?step = "pool_step (\<lambda>_. Inr ()) (\<lambda>i ctx. Some (i, ctx)) 2 3"
  let ?s' = "?s\<lparr>workers := (workers ?s)[1 := Starting], main_phase := Spawning (Suc 1)\<rparr>"
  have "?step ?s ?s'" by (rule pool_step.spawned) (simp_all add: pool_new_def)
  with slots_written_once[of "\<lambda>_. Inr ()" "\<lambda>i ctx. Some (i, ctx)" 2 3 ?s ?s'] show ?thesis
    by (intro exI[of _ ?s'] conjI) simp_all
qed

text \<open>C8. The thread scheme neither deadlocks nor runs forever: from every reachable state the threads
  can be joined, and no run, in any interleaving, is longer than three steps per chunk and six per
  thread.\<close>

theorem pool_always_joins:
  assumes "(pool_step mk proc tc cc ^^ n) (pool_new tc cc) s" and "0 < tc" and "tc \<le> cc"
  shows "(\<exists>s'. (pool_step mk proc tc cc)\<^sup>*\<^sup>* s s' \<and> joined s') \<and> n \<le> 3 * cc + 6 * tc"
proof -
  note b = pool_bounded[OF assms(2,1) held_new[OF assms(2,3)]]
  note n = conjunct1[OF b] and inv = conjunct2[OF b]
  have "pool_measure tc cc (pool_new tc cc :: ('a, 'b) pool) \<le> 3 * cc + 6 * tc"
    by (simp add: pool_measure_def pool_new_def rank_def sum_list_replicate)
  with n pool_joins[OF assms(2) inv] show ?thesis by auto
qed

theorem pool_always_joins_witness:
  "\<exists>s'. (pool_step (\<lambda>_. Inr ()) (\<lambda>i ctx. Some (i, ctx)) 2 3)\<^sup>*\<^sup>* (pool_new 2 3 :: (unit, nat) pool) s' \<and> joined s'"
  using pool_always_joins[of 0 "\<lambda>_. Inr ()" "\<lambda>i ctx. Some (i, ctx)" 2 3 "pool_new 2 3 :: (unit, nat) pool"]
  by simp

text \<open>C9. When the threads are joined and none reported an error or panicked, no slot is empty: the
  merge's \<open>expect("chunk was not parsed")\<close> cannot fail. An error or a failed spawn is always returned.\<close>

theorem joined_without_errors:
  assumes "(pool_step mk proc tc cc)\<^sup>*\<^sup>* (pool_new tc cc) s" and "0 < tc" and "tc \<le> cc" and "joined s"
  shows "(pool_errors s = [] \<and> Panicked \<notin> set (workers s) \<longrightarrow> None \<notin> set (slots s)) \<and>
    (Panicked \<notin> set (workers s) \<and> pool_errors s \<noteq> [] \<longrightarrow>
      run_with_finish X make_ctx P init rs merge s = Some (Inl (IO (hd (pool_errors s)))))"
proof (intro conjI impI)
  assume ok: "pool_errors s = [] \<and> Panicked \<notin> set (workers s)"
  have "length (slots s) = cc" by (rule held_okD(2)[OF held_reachable[OF assms(1-3)]])
  with joined_complete[OF assms] ok show "None \<notin> set (slots s)" by (auto simp: in_set_conv_nth)
next
  assume "Panicked \<notin> set (workers s) \<and> pool_errors s \<noteq> []"
  then show "run_with_finish X make_ctx P init rs merge s = Some (Inl (IO (hd (pool_errors s))))"
    by (cases "pool_errors s") (simp_all add: run_with_finish_def)
qed

theorem joined_without_errors_witness:
  "\<exists>s :: (unit, (nat, unit) ChunkOutput) pool. joined s \<and> pool_errors s = [] \<and> slots s = [Some empty_output, Some empty_output] \<and>
     None \<notin> set (slots s)"
proof -
  let ?mk = "\<lambda>_. Inr () :: io_error + unit" and ?proc = "\<lambda>(i::nat) (ctx::unit). Some (empty_output :: (nat, unit) ChunkOutput, ctx)"
  let ?step = "pool_step ?mk ?proc 1 2"
  let ?s0 = "pool_new 1 2 :: (unit, (nat, unit) ChunkOutput) pool"
  define s where "s = \<lparr>next_chunk = 3, slots = [Some empty_output, Some empty_output :: (nat, unit) ChunkOutput option],
    workers = [Ended :: unit worker], main_phase = Joining, spawn_error = None\<rparr>"
  let ?p = "\<lambda>n sl w. \<lparr>next_chunk = n, slots = sl, workers = [w :: unit worker], main_phase = Joining, spawn_error = None\<rparr>"
  have steps: "?step ?s0 (?p 1 [None, None] Starting)" "?step (?p 1 [None, None] Starting) (?p 1 [None, None] (Working 0 ()))"
    "?step (?p 1 [None, None] (Working 0 ())) (?p 1 [Some empty_output, None] (Claiming ()))"
    "?step (?p 1 [Some empty_output, None] (Claiming ())) (?p 2 [Some empty_output, None] (Working 1 ()))"
    "?step (?p 2 [Some empty_output, None] (Working 1 ())) (?p 2 [Some empty_output, Some empty_output] (Claiming ()))"
    "?step (?p 2 [Some empty_output, Some empty_output] (Claiming ())) s"
    using pool_step.main_starts[of ?s0 1 1 ?mk ?proc 2] pool_step.opened[of 0 "?p 1 [None, None] Starting" ?mk "()" ?proc 1 2]
      pool_step.parsed[of 0 "?p 1 [None, None] (Working 0 ())" 0 "()" ?proc empty_output "()" ?mk 1 2]
      pool_step.claimed[of 0 "?p 1 [Some empty_output, None] (Claiming ())" "()" ?mk ?proc 1 2]
      pool_step.parsed[of 0 "?p 2 [Some empty_output, None] (Working 1 ())" 1 "()" ?proc empty_output "()" ?mk 1 2]
      pool_step.claimed[of 0 "?p 2 [Some empty_output, Some empty_output] (Claiming ())" "()" ?mk ?proc 1 2]
    by (simp_all add: pool_new_def slot_new_def slot_set_def s_def numeral_2_eq_2 numeral_3_eq_3)
  then have reach: "?step\<^sup>*\<^sup>* ?s0 s" by (meson converse_rtranclp_into_rtranclp rtranclp.rtrancl_refl)
  have fin: "joined s" "pool_errors s = []" "Panicked \<notin> set (workers s)"
    by (simp_all add: s_def joined_def terminal_def pool_errors_def)
  from joined_without_errors[OF reach _ _ fin(1)] fin have "None \<notin> set (slots s)" by simp
  with fin show ?thesis by (intro exI[of _ s]) (simp add: s_def)
qed

section \<open>One pass over one chunk\<close>

text \<open>C10. Over an in-memory reader, in \<open>Bytes\<close>, a pass of the DFA parser with its windows, its
  needle scans and its in-place compaction always returns, and returns exactly what the reference
  machine makes of the bytes: record start, record end, accumulated state and error.\<close>

theorem pass_in_memory:
  assumes "im_inv r"
  shows "\<exists>r'. chunk_parse in_memory_ops (dfa_parser in_memory_ops validate_bytes (dfa_chunk_parser_new le c) acc)
      s a mode r = Some (spec_pass c acc a mode (im_remaining r) (im_buffer r) s, r') \<and> im_inv r'"
proof -
  have st: "in_memory.stream r = im_buffer r" and rem: "r_remaining in_memory_ops r = im_remaining r"
    unfolding in_memory.stream_def by (simp_all add: in_memory_ops_def)
  have no: "\<not> in_memory.fill_failed err" "\<not> in_memory_bytes.utf8_failed c a mode rem bs err" for err :: "'b Error" and rem bs
    using in_memory.never_fails by (simp_all add: in_memory_bytes.utf8_failed_def)
  from in_memory_bytes.pass_ok[OF assms refl, of le c acc s a mode] show ?thesis
    unfolding st rem using no by blast
qed

theorem pass_in_memory_witness:
  "\<exists>r'. chunk_parse in_memory_ops (dfa_parser in_memory_ops validate_bytes (dfa_chunk_parser_new True default_config) collect)
      [] OutOfQuotes FindNo (in_memory_new [97, 10, 98] 3) =
     Some (spec_pass default_config collect OutOfQuotes FindNo 3 [97, 10, 98] [] :: (_, unit) PassResult, r')"
proof -
  let ?r = "in_memory_new [97, 10, 98] 3"
  have "im_inv ?r" "im_remaining ?r = 3" "im_buffer ?r = [97, 10, 98]"
    by (simp_all add: im_inv_def in_memory_new_def im_buffer_def im_remaining_def)
  with pass_in_memory[of ?r True default_config "collect :: (_, unit) accumulator" "[]" OutOfQuotes FindNo]
  show ?thesis by (simp only: simp_thms) blast
qed

text \<open>C11. Over a slice read through the doubly mapped ring buffer, in \<open>Text\<close>, a pass always returns,
  with what the reference machine makes of the rest of the slice, or with the I/O error of a
  failed refill, or with a UTF-8 error at the first byte that is not valid from where the parse began.\<close>

theorem pass_on_slices:
  fixes os :: "u64 \<Rightarrow> io_error + unit"
  assumes "mirrored_inv g (rb_buf r)" and "0 < rb_read_cap r"
  defines "R \<equiv> ring_reader_ops (mirrored_ops g os) cursor_read"
    and "bs \<equiv> mirrored_data (rb_buf r) @ ring_unread cursor_content r"
  shows "\<exists>res r'. chunk_parse R (dfa_parser R validate_str (dfa_chunk_parser_new le c) acc) s a mode r = Some (res, r') \<and>
    (res = spec_pass c acc a mode (rb_chunk_remaining r) bs s \<or>
     (\<exists>e. result res = Inl (IO e)) \<or>
     (\<exists>p. parse_starts c a mode (rb_chunk_remaining r) bs p \<and> \<not> utf8 (drop p bs) \<and>
        result res = Inl (Utf8 (at_byte (p + utf8_valid_len (drop p bs))))))"
proof -
  have inv: "ring_inv (mirrored_inv g) (\<lambda>k. cur_data k = cur_data (rb_src r)) r"
    using assms(1,2) by (simp add: ring_inv_def)
  have st: "mirrored_slice.reader.stream g os r = bs" and rem: "r_remaining R r = rb_chunk_remaining r"
    unfolding mirrored_slice.reader.stream_def bs_def R_def by (simp_all add: ring_reader_ops_def mirrored_ops_def)
  from mirrored_slice.ring_text.pass_ok[OF inv refl, of os le c acc s a mode]
  show ?thesis
    unfolding st rem[unfolded R_def] R_def mirrored_slice.reader.fill_failed_def mirrored_slice.ring_text.utf8_failed_def
    using text_out.vlen_le by (fastforce simp: utf8_def)
qed

theorem pass_on_slices_witness:
  "\<exists>b res r'. mirrored_new 8 (\<lambda>_. Inr ()) 8 None = Inr b \<and>
     chunk_parse (ring_reader_ops (mirrored_ops 8 (\<lambda>_. Inr ())) cursor_read)
       (dfa_parser (ring_reader_ops (mirrored_ops 8 (\<lambda>_. Inr ())) cursor_read) validate_str
         (dfa_chunk_parser_new True default_config) (collect :: (_, unit) accumulator))
       [] OutOfQuotes FindNo (ring_reader_new b \<lparr>cur_data = [97, 10], cur_pos = 0\<rparr> (Some 2) 2 8) = Some (res, r')"
proof -
  obtain b where b: "mirrored_new 8 (\<lambda>_. Inr ()) 8 None = Inr b"
    by (simp add: mirrored_new_def checked_capacity_def over_def map_double_def next_power_of_two_exact[of 3, simplified] result_simps Let_def)
  have "mirrored_inv 8 b" using mirrored_new_ok[OF b, of 3] by simp
  with pass_on_slices[of 8 "ring_reader_new b \<lparr>cur_data = [97, 10], cur_pos = 0\<rparr> (Some 2) 2 8"
      "\<lambda>_. Inr ()" True default_config "collect :: (_, unit) accumulator" "[]" OutOfQuotes FindNo] b
  show ?thesis by (auto simp: ring_reader_new_def)
qed

text \<open>C14. With ASCII control bytes a text parse hands over nothing but valid UTF-8, with either parser and on whatever
  reader, multi-byte sequences split by its refills included: an accumulator \<open>acc'\<close> that agrees with \<open>acc\<close> on such fields and
  does anything else on others cannot be told from \<open>acc\<close>. The pass with \<open>acc'\<close> gives what the reference machine gives with
  \<open>acc\<close>, the error of a \<open>fill\<close>, or a UTF-8 error where the input stops being valid; with the SIMD parser, in the dialects of
  \<open>simd_dialect\<close>, also an arity or quote error ahead of the records before it. So the reinterpretation of the ranges as
  \<open>&mut str\<close> is sound.\<close>

theorem text_fields_are_utf8:
  fixes R :: "'r reader_ops" and acc acc' :: "('s, 'u) accumulator" and s :: 's and mode :: FindRecordStart and a :: Assumption
  assumes "validate_ascii_control_bytes c = (Inr () :: 'v Error + unit)" and "chunk_reader R rinv unread" and "rinv r"
    and "\<forall>s fs. (\<forall>f\<in>set fs. utf8 f) \<longrightarrow> acc s fs = acc' s fs"
  defines "bs \<equiv> r_buffer R r @ unread r" and "rem \<equiv> r_remaining R r"
  defines "right \<equiv> \<lambda>res. res = spec_pass c acc a mode rem bs s \<or> read_failed R rinv (result res) \<or>
      (\<exists>p. parse_starts c a mode rem bs p \<and> \<not> utf8 (drop p bs) \<and>
         result res = Inl (Utf8 (at_byte (p + utf8_valid_len (drop p bs)))))"
  shows "(\<exists>res r'. chunk_parse R (dfa_parser R validate_str (dfa_chunk_parser_new le c) acc') s a mode r = Some (res, r') \<and> right res) \<and>
    (lawful_isa I \<and> simd_dialect c mode \<and> (a = OutOfQuotes \<or> a = InQuotes) \<and> length bs < 2 ^ 63 \<longrightarrow>
      (\<exists>res r'. chunk_parse R (simd_parser R validate_str I addr c acc') s a mode r = Some (res, r') \<and>
        (right res \<or> (\<exists>p err. parse_starts c a mode rem bs p \<and> error_ahead c p (drop p bs) (spec_init p s) err \<and> result res = Inl err))))"
proof (intro conjI impI)
  have "ascii_controls c" using assms(1) validate_ascii_iff by blast
  note same = text_interchangeable[OF this, of acc acc']
  have agree: "agree_on_text acc acc'" using assms(4) by (simp add: agree_on_text_def)
  have env: "pass_env R rinv unread validate_str utf8_valid_len"
    by (intro pass_env.intro assms(2) text_out.validator_axioms)
  note d = chunk_reader.stream_def[OF assms(2)] chunk_reader.fill_failed_def[OF assms(2)]
  have bad: "\<not> utf8 xs \<longleftrightarrow> utf8_valid_len xs < length xs" for xs using text_out.vlen_le[of xs] by (auto simp: utf8_def)
  from pass_env.pass_swap[OF env assms(3) refl same[OF agree], of le s a mode]
  show "\<exists>res r'. chunk_parse R (dfa_parser R validate_str (dfa_chunk_parser_new le c) acc') s a mode r = Some (res, r') \<and> right res"
    unfolding d pass_env.utf8_failed_def[OF env] right_def bad read_failed_def bs_def rem_def by blast
  assume S: "lawful_isa I \<and> simd_dialect c mode \<and> (a = OutOfQuotes \<or> a = InQuotes) \<and> length bs < 2 ^ 63"
  then have simd: "simd_pass R rinv unread validate_str utf8_valid_len I" by (intro simd_pass.intro env) simp
  from S have "length (chunk_reader.stream R unread r) < 2 ^ 63" by (simp add: d bs_def)
  from simd_pass.simd_pass_swap[OF simd assms(3) _ _ this same[OF agree], of mode a addr s] S
  show "\<exists>res r'. chunk_parse R (simd_parser R validate_str I addr c acc') s a mode r = Some (res, r') \<and>
      (right res \<or> (\<exists>p err. parse_starts c a mode rem bs p \<and> error_ahead c p (drop p bs) (spec_init p s) err \<and> result res = Inl err))"
    unfolding d simd_pass.simd_failed_def[OF simd] right_def bad read_failed_def bs_def rem_def by blast
qed

theorem text_fields_are_utf8_witness:
  "\<exists>b. mirrored_new 8 (\<lambda>_. Inr ()) 8 None = Inr b \<and>
    (let acc = (\<lambda>s fs. if \<forall>f\<in>set fs. utf8 f then collect s fs else Inl (Other True));
         r = patchy_reader b [97, 44, 0xC3, 0xA4, 10, 0xC3] [Inr 2, Inr 0, Inr 0] 6
     in (\<exists>res r'. chunk_parse patchy_ops (dfa_parser patchy_ops validate_str (dfa_chunk_parser_new True default_config) acc)
          [] OutOfQuotes FindNo r = Some (res, r')) \<and>
        (\<exists>res r'. chunk_parse patchy_ops (simd_parser patchy_ops validate_str compile_time_isa (\<lambda>_. 3) (default_config\<lparr>field_count := Some 2\<rparr>) acc)
          [] OutOfQuotes FindNo r = Some (res, r')))"
proof -
  let ?c = "default_config\<lparr>field_count := Some 2\<rparr>"
  let ?acc = "\<lambda>s fs. if \<forall>f\<in>set fs. utf8 f then collect s fs else (Inl (Other True) :: bool boxed_error + _)"
  have ascii: "validate_ascii_control_bytes default_config = (Inr () :: unit Error + unit)"
    "validate_ascii_control_bytes ?c = (Inr () :: unit Error + unit)"
    by (simp_all add: validate_ascii_iff ascii_controls_def default_config_def is_terminator_def)
  have dia: "simd_dialect ?c FindNo"
    by (simp add: simd_dialect_def dialect_ok_def default_config_def is_terminator_def simd_supports_def FIXED_MAX_ARITY_def apart_def)
  obtain b where b: "mirrored_new 8 (\<lambda>_. Inr ()) 8 None = Inr b"
    and r: "\<And>bs sc n. ring_inv (mirrored_inv 8) (\<lambda>_. True) (patchy_reader b bs sc n)"
      "\<And>bs sc n. r_buffer patchy_ops (patchy_reader b bs sc n) @ ring_unread pa_rest (patchy_reader b bs sc n) = bs"
      "\<And>bs sc n. r_remaining patchy_ops (patchy_reader b bs sc n) = n" using patchy_start by blast
  let ?r = "patchy_reader b [97, 44, 0xC3, 0xA4, 10, 0xC3] [Inr 2, Inr 0, Inr 0] 6"
  note r' = r(1)[of "[97, 44, 0xC3, 0xA4, 10, 0xC3]" "[Inr 2, Inr 0, Inr 0]" 6]
  have same: "\<forall>s fs. (\<forall>f\<in>set fs. utf8 f) \<longrightarrow> collect s fs = ?acc s fs" by simp
  note dfa = text_fields_are_utf8[OF ascii(1) patchy_laws r' same, where a = OutOfQuotes and mode = FindNo and s = "[]" and le = True]
  note simd = text_fields_are_utf8[OF ascii(2) patchy_laws r' same, where a = OutOfQuotes and mode = FindNo and s = "[]"
    and I = compile_time_isa and addr = "\<lambda>_. 3"]
  have "lawful_isa compile_time_isa \<and> simd_dialect ?c FindNo \<and> (OutOfQuotes = OutOfQuotes \<or> OutOfQuotes = InQuotes) \<and>
      length (r_buffer patchy_ops ?r @ ring_unread pa_rest ?r) < 2 ^ 63"
    using portable.lawful_isa_axioms dia unfolding r(2) by simp
  from conjunct1[OF dfa] mp[OF conjunct2[OF simd] this] b show ?thesis unfolding Let_def by blast
qed

text \<open>C15. One step of the table-driven stepper over a window that ends at \<open>e\<close>, however the
  buffer was compacted before: it stops for the same reason, at the same offset and with the same state
  as the byte-by-byte machine, writes nothing past the window, and after the driver has consumed what
  it allows still stands for the machine.\<close>

theorem step_simulates:
  assumes "srel c buf pos st m" and "pos \<le> e" and "e \<le> length buf"
    and "dfa_step acc \<lparr>ctx_buf = buf, scan_start = pos, scan_end = e, remaining_in_chunk = L - tot,
      total_consumed = tot\<rparr> (m_acc m) st = (res, buf', s', st')"
  shows "length buf' = length buf \<and> drop e buf' = drop e buf \<and>
    (case spec_run c acc L (tot + pos) (subslice buf pos e) m of
       Running m' \<Rightarrow> (\<exists>n. res = Suspended e n (m_last_end m') \<and> n \<le> e \<and> s' = m_acc m' \<and>
         srel c (drop n buf') (e - n) (dfa_consume n st') m')
     | Finished p s \<Rightarrow> res = Done p \<and> s' = s
     | Failed err \<Rightarrow> res = StepError err)"
  using dfa.step_sim[OF assms(1-3), of acc L tot res buf' s' st'] assms(4)
  by (auto simp: dfa_stepper_ops_def split: outcome.splits)

theorem step_simulates_witness:
  "\<exists>res buf' s' st'. dfa_step collect \<lparr>ctx_buf = [97, 44], scan_start = 0, scan_end = 2, remaining_in_chunk = 2,
       total_consumed = 0\<rparr> [] (stepper_new True (dfa_new True default_config) default_config 0) =
     (res :: unit StepResult, buf', s', st') \<and> length buf' = 2"
proof -
  let ?st = "stepper_new True (dfa_new True default_config) default_config 0"
  obtain res :: "unit StepResult" and buf' s' st' where
    step: "dfa_step collect \<lparr>ctx_buf = [97, 44], scan_start = 0, scan_end = 2, remaining_in_chunk = 2 - 0,
       total_consumed = 0\<rparr> (m_acc (spec_init 0 [])) ?st = (res, buf', s', st')" by (metis surj_pair)
  have "srel default_config ([] @ [97, 44]) 0 ?st (spec_init 0 ([] :: byte list list list))"
    by (rule stepper_new_srel)
  from step_simulates[OF this _ _, of 2 collect 2 0 res buf' s' st'] step show ?thesis
    by (simp add: spec_init_def)
qed

text \<open>C22. Types. The low byte of every cell of the table is the discriminant of a \<open>State\<close>, so reading it as one is sound, and only
  cells that stay in content have output; the four places of the needle arrays hold every structural byte of the two content
  states and nothing else. A stepper over that table, started in an interior state, is suspended in an interior state and with
  no pointer into the buffer: no row of an action state is ever asked, and no pointer outlives the window it was made in.\<close>

theorem stepper_well_typed:
  assumes "s_dfa st = dfa_new le c" and "interior (dfa_state st)" and "dfa_step acc ctx s st = (res, buf', s', st')"
  shows "(\<forall>q b. next_raw (transition (dfa_new le c) q b) \<in> range state_u8 \<and>
      (has_output (transition (dfa_new le c) q b) \<longrightarrow> next_state (transition (dfa_new le c) q b) \<in> {InField, InQuotedField})) \<and>
    (let nd = in_field_needles (dfa_new le c) in
      set (take (count nd) (needle_bytes nd)) = {b. snd (in_field_cell c b)}) \<and>
    (let nd = in_quoted_needles (dfa_new le c) in
      set (take (count nd) (needle_bytes nd)) = {b. snd (in_quoted_cell c b)}) \<and>
    s_dfa st' = dfa_new le c \<and> (\<forall>r n lre. res = Suspended r n lre \<longrightarrow> interior (dfa_state st') \<and> refs st' = [])"
proof -
  have "interior (dfa_state (stepper_resume st))" "s_dfa (stepper_resume st) = dfa_new le c"
    using assms(1,2) by (simp_all add: stepper_resume_def)
  note step = step_loop_typed[OF this(2,1) assms(3)[unfolded dfa_step_def]]
  have "next_raw (transition (dfa_new le c) q b) \<in> range state_u8" for q b using cell_typed(1) by (metis rangeI)
  with step cell_typed(2)[of le c] needle_bytes_exact[of le c] show ?thesis unfolding Let_def by blast
qed

theorem stepper_well_typed_witness:
  "\<exists>res buf' s' st'. dfa_step collect \<lparr>ctx_buf = [97, 44], scan_start = 0, scan_end = 2, remaining_in_chunk = 2,
       total_consumed = 0\<rparr> [] (stepper_new True (dfa_new True default_config) default_config 0) =
     (res :: unit StepResult, buf', s', st') \<and> s_dfa st' = dfa_new True default_config"
proof -
  let ?st = "stepper_new True (dfa_new True default_config) default_config 0"
  obtain res :: "unit StepResult" and buf' s' st' where
    step: "dfa_step collect \<lparr>ctx_buf = [97, 44], scan_start = 0, scan_end = 2, remaining_in_chunk = 2,
       total_consumed = 0\<rparr> [] ?st = (res, buf', s', st')" by (metis surj_pair)
  have "s_dfa ?st = dfa_new True default_config" "interior (dfa_state ?st)" by (simp_all add: stepper_new_def interior_def)
  from stepper_well_typed[OF this step] step show ?thesis by simp
qed

section \<open>The DFA's tables and searches\<close>

text \<open>C20. The eight-byte search of a content run: for the delimiter, terminators and quote of any
  configuration, on either byte order, no structural byte is ever skipped and \<open>None\<close> means there is none;
  on a little-endian target the result is the first structural byte itself.\<close>

theorem needle_search:
  fixes c :: Config and hay :: "byte list"
  defines "m \<equiv> \<lambda>b. snd (in_field_cell c b)" and "r \<equiv> \<lambda>le. needles_find le (in_field_needles (dfa_new le c)) hay"
  shows "(case r le of None \<Rightarrow> \<forall>b\<in>set hay. \<not> m b | Some i \<Rightarrow> i < length hay \<and> (\<forall>j<i. \<not> m (hay ! j))) \<and>
    r True = position m hay"
proof
  have r: "r x = needles_find x (from_mask x m) hay" for x by (simp add: r_def m_def dfa_new_def)
  have fit: "fits m" unfolding m_def by (rule in_field_fits)
  show "case r le of None \<Rightarrow> \<forall>b\<in>set hay. \<not> m b | Some i \<Rightarrow> i < length hay \<and> (\<forall>j<i. \<not> m (hay ! j))"
    using needles_find_spec[OF fit, of hay le] unfolding r
    by (cases "needles_find le (from_mask le m) hay") (auto simp: scan_sound_def in_set_conv_nth)
  show "r True = position m hay"
    using needles_find_spec[OF fit, of hay True] unfolding r by simp
qed

theorem needle_search_witness:
  "needles_find True (in_field_needles (dfa_new True default_config)) [97, 98, 44] = Some 2"
proof -
  have "position (\<lambda>b. snd (in_field_cell default_config b)) [97, 98, 44] = Some (Suc (Suc 0))"
    by (simp add: in_field_cell_def default_config_def is_terminator_def)
  with needle_search[where le = True and c = default_config and hay = "[97, 98, 44]"] show ?thesis
    by (simp only: numeral_2_eq_2)
qed

text \<open>C37. On a big-endian target the borrow of the zero-byte test travels towards the lower address: a
  byte that differs from the needle in its lowest bit, followed by the needle, is reported as a match.\<close>

theorem big_endian_needle:
  "needles_find False (from_mask False (\<lambda>b. b = 44)) [45, 44, 0, 0, 0, 0, 0, 0] = Some 0 \<and>
   position (\<lambda>b. b = 44) [45, 44, 0, 0, 0, 0, 0, 0 :: byte] = Some 1"
proof
  let ?m = "\<lambda>b :: byte. b = 44" and ?hay = "[45, 44, 0, 0, 0, 0, 0, 0] :: byte list"
  let ?nd = "from_mask False ?m"
  have one: "filter ?m all_bytes = [44]"
    by (rule distinct_singleton_filter) (simp_all add: distinct_all_bytes set_all_bytes)
  then have "fits ?m" by (simp add: fits_def)
  note nd = from_mask_fits[OF this, of False, unfolded one]
  have cnt: "StructuralNeedles.count ?nd = 1" and lane: "take 1 (lanes ?nd) = [broadcast False 44]"
    using nd(1,3) by simp_all
  have eight: "replicate 8 x = [x, x, x, x, x, x, x, x]" for x :: byte by (simp add: numeral_eq_Suc)
  have word: "from_ne_bytes False ?hay = 0x2D2C000000000000" "broadcast False 44 = 0x2C2C2C2C2C2C2C2C"
    "SWAR_LO False = 0x0101010101010101" "SWAR_HI False = 0x8080808080808080"
    by (simp_all add: from_ne_bytes_def broadcast_def SWAR_LO_def SWAR_HI_def eight)
  have "zero_tags False (0x2D2C000000000000 XOR 0x2C2C2C2C2C2C2C2C) = 0x8080000000000000"
    unfolding zero_tags_def word by simp
  then have "match_lanes False ?nd 1 (from_ne_bytes False ?hay) = Some (leading_zeros 0x8080000000000000 div 8)"
    by (simp add: match_lanes_def lane[unfolded One_nat_def] word)
  moreover have "leading_zeros 0x8080000000000000 = 0"
    unfolding leading_zeros_def upt_conv_Cons[OF zero_less_numeral] by simp
  ultimately show "needles_find False ?nd ?hay = Some 0"
    using find_n.simps[of False ?nd 1 ?hay 0] by (simp add: needles_find_def cnt subslice_def)
qed simp

text \<open>C21. The strict probe of the record-start search reads the lenient table's flag: a cell carries it
  exactly when the \<open>Strict\<close> dialect's table has \<open>Error\<close> there, and the two tables agree elsewhere.\<close>

theorem probe_is_strict_table:
  assumes "interior s" and "quote_handling c \<noteq> Strict"
  shows "is_strict_error (transition (dfa_new le c) s b) =
      (next_state (transition (dfa_new le (c\<lparr>quote_handling := Strict\<rparr>)) s b) = Error) \<and>
    (\<not> is_strict_error (transition (dfa_new le c) s b) \<longrightarrow>
      transition (dfa_new le c) s b = transition (dfa_new le (c\<lparr>quote_handling := Strict\<rparr>)) s b)"
  using strict_flag_exact[OF assms] by auto

theorem probe_is_strict_table_witness:
  "is_strict_error (transition (dfa_new True default_config) InField 34)"
proof -
  have "next_state (transition (dfa_new True (default_config\<lparr>quote_handling := Strict\<rparr>)) InField 34) = Error"
    by (simp add: transition_def dfa_new_def in_field_cell_def default_config_def is_terminator_def)
  with probe_is_strict_table[of InField default_config True 34] show ?thesis
    by (simp add: interior_def default_config_def)
qed

text \<open>C19. The search for a record boundary in the rest of a chunk, on whatever reader: window by window, as the
  reader fills them, and with the needle scans, it is the byte-by-byte search over all that the reader still holds, cut at the end of
  the chunk. It returns, it finds the same first boundary, stops before its terminator, and rejects at the same byte; or
  it returns the error of a \<open>fill\<close>.\<close>

theorem boundary_search:
  fixes c :: Config and a :: Assumption and strict :: bool and R :: "'r reader_ops"
  assumes "chunk_reader R rinv unread" and "rinv r"
  defines "bs \<equiv> \<lambda>r. r_buffer R r @ unread r"
    and "out \<equiv> search_run (c\<lparr>quote_handling := Toggle\<rparr>) strict 0
      (take (r_remaining R r) (r_buffer R r @ unread r)) (assumption_to_state c a)"
  shows "\<exists>res r'. dfa_scan_record_start R (dfa_chunk_parser_new le c) a strict r = Some (res :: 'u Error + _, r') \<and> rinv r' \<and>
    (res = search_result out \<and> (\<forall>p. out = FoundEnd p \<longrightarrow> bs r' = drop p (bs r) \<and> r_remaining R r' = r_remaining R r - p) \<or>
     read_failed R rinv res)"
  using chunk_reader.find_record_start_ok[OF assms(1) probe_ok_toggle(1) assms(2), where 'e = 'u
      and le = le and q = "assumption_to_state c a" and p = 0]
  unfolding chunk_reader.stream_def[OF assms(1)] chunk_reader.read_failed_iff[OF assms(1)] out_def bs_def
    dfa_scan_record_start_def dfa_chunk_parser_new_def
  by simp

theorem boundary_search_witness:
  "\<exists>b (res :: unit Error + _) r'. mirrored_new 8 (\<lambda>_. Inr ()) 8 None = Inr b \<and>
     dfa_scan_record_start patchy_ops (dfa_chunk_parser_new True default_config) OutOfQuotes True
       (patchy_reader b [97, 10, 98] [Inr 0, Inr 0] 3) = Some (res, r') \<and>
     (res = Inr (Some 1) \<and> r_buffer patchy_ops r' @ ring_unread pa_rest r' = [10, 98] \<or> (\<exists>e. res = Inl (IO e)))"
proof -
  obtain b where b: "mirrored_new 8 (\<lambda>_. Inr ()) 8 None = Inr b"
    and r: "\<And>bs sc n. ring_inv (mirrored_inv 8) (\<lambda>_. True) (patchy_reader b bs sc n)"
      "\<And>bs sc n. r_buffer patchy_ops (patchy_reader b bs sc n) @ ring_unread pa_rest (patchy_reader b bs sc n) = bs"
      "\<And>bs sc n. r_remaining patchy_ops (patchy_reader b bs sc n) = n" using patchy_start by blast
  have out: "search_run (default_config\<lparr>quote_handling := Toggle\<rparr>) True 0 (take 3 [97, 10, 98])
      (assumption_to_state default_config OutOfQuotes) = FoundEnd 1"
    by (simp add: eval_cells eval_search default_config_def)
  from boundary_search[OF patchy_laws r(1)[of "[97, 10, 98]" "[Inr 0, Inr 0]" 3], where c = default_config and le = True
      and a = OutOfQuotes and strict = True and 'u = unit,
      unfolded r(2,3) out] b
  show ?thesis by (auto simp: search_result_def dest: read_failed_IO)
qed

text \<open>C30. \<open>Config::validate\<close> accepts exactly the configurations whose delimiter, terminator bytes,
  quote and comment are pairwise distinct, whose escape has a quote and differs from all but the quote, and
  whose named ring buffer fits both limits; everything else is an \<open>InvalidConfig\<close>.\<close>

theorem validate_accepts:
  "(case validate c of
      Inr _ \<Rightarrow> True
    | Inl e \<Rightarrow> \<exists>msg. e = (InvalidConfig msg :: 'u Error)) \<and>
   (validate c = (Inr () :: 'u Error + unit) \<longleftrightarrow>
     (let ts = (case terminator c of Byte t \<Rightarrow> [t] | CRLF \<Rightarrow> [CR, LF]);
          opt = (\<lambda>ob. case ob of Some b \<Rightarrow> [b] | None \<Rightarrow> []);
          ctl = delimiter c # ts @ opt (comment c)
      in distinct (ctl @ opt (quote c)) \<and>
         (case escape c of None \<Rightarrow> True | Some e \<Rightarrow> quote c \<noteq> None \<and> e \<notin> set ctl) \<and>
         (case io_backend c of
            RingBuf ring \<Rightarrow> (\<forall>l. l \<noteq> 0 \<and> (buffer_limit ring = Some l \<or> io_buffer_limit c = Some l) \<longrightarrow> buffer_size ring \<le> l)
          | _ \<Rightarrow> True)))"
proof
  show "case validate c of Inr _ \<Rightarrow> True | Inl e \<Rightarrow> \<exists>msg. e = (InvalidConfig msg :: 'u Error)"
    by (auto simp: validate_def validate_ring_def try_bind_Inl_iff split: sum.split IoBackend.splits if_splits)
next
  have ring: "ring_ok c \<longleftrightarrow> (case io_backend c of
      RingBuf ring \<Rightarrow> (\<forall>l. l \<noteq> 0 \<and> (buffer_limit ring = Some l \<or> io_buffer_limit c = Some l) \<longrightarrow> buffer_size ring \<le> l)
    | _ \<Rightarrow> True)"
    by (cases "io_backend c") (auto simp: ring_ok_def over_limit_def not_less split: option.splits)
  show "validate c = (Inr () :: 'u Error + unit) \<longleftrightarrow>
     (let ts = (case terminator c of Byte t \<Rightarrow> [t] | CRLF \<Rightarrow> [CR, LF]);
          opt = (\<lambda>ob. case ob of Some b \<Rightarrow> [b] | None \<Rightarrow> []);
          ctl = delimiter c # ts @ opt (comment c)
      in distinct (ctl @ opt (quote c)) \<and>
         (case escape c of None \<Rightarrow> True | Some e \<Rightarrow> quote c \<noteq> None \<and> e \<notin> set ctl) \<and>
         (case io_backend c of
            RingBuf ring \<Rightarrow> (\<forall>l. l \<noteq> 0 \<and> (buffer_limit ring = Some l \<or> io_buffer_limit c = Some l) \<longrightarrow> buffer_size ring \<le> l)
          | _ \<Rightarrow> True))"
    unfolding validate_iff ring[symmetric] Let_def
    by (cases "terminator c"; cases "quote c"; cases "escape c"; cases "comment c")
      (auto simp: dialect_ok_def is_terminator_def)
qed

theorem validate_accepts_witness:
  "validate (default_config\<lparr>comment := Some 44\<rparr>) \<noteq> (Inr () :: unit Error + unit)"
  using validate_accepts[of "default_config\<lparr>comment := Some 44\<rparr>", where 'u = unit]
  by (simp add: default_config_def)

section \<open>Buffers, readers and contexts\<close>

text \<open>C28. Whatever sequence of writes, consumptions, growths and resets both ring buffers
  accept, the moving buffer and the doubly mapped one with its wrapping 64-bit cursors hold the same bytes:
  those of a plain queue.\<close>

theorem buffers_are_queues:
  assumes "linear_new (2 ^ j) cap lim = Inr l" and "mirrored_new (2 ^ j) os cap lim = Inr m"
    and "buf_run (linear_ops (2 ^ j)) acts l = Some l'"
    and "buf_run (mirrored_ops (2 ^ j) os) acts m = Some m'"
  shows "linear_data l' = fold queue_apply acts [] \<and> mirrored_data m' = fold queue_apply acts []"
  using linear.buf_run_queue[OF _ assms(3)] linear_new_ok[OF assms(1)]
    mirrored.buf_run_queue[OF _ assms(4)] mirrored_new_ok[OF assms(2) refl]
  by (simp add: linear_ops_def mirrored_ops_def)

theorem buffers_are_queues_witness:
  "\<exists>l m l' m'. linear_new 8 4 None = Inr l \<and> mirrored_new 8 (\<lambda>_. Inr ()) 4 None = Inr m \<and>
     buf_run (linear_ops 8) [Write [1, 2], Consume 1] l = Some l' \<and>
     buf_run (mirrored_ops 8 (\<lambda>_. Inr ())) [Write [1, 2], Consume 1] m = Some m' \<and>
     linear_data l' = [2] \<and> mirrored_data m' = [2]"
proof -
  let ?acts = "[Write [1, 2], Consume 1]"
  have four: "next_power_of_two 4 = 4" "next_power_of_two 8 = 8"
    using next_power_of_two_exact[of 2] next_power_of_two_exact[of 3] by simp_all
  have l: "linear_new 8 4 None = Inr \<lparr>l_buf = replicate 8 0, l_head = 0, l_tail = 0, l_limit = None\<rparr>"
    by (simp add: linear_new_def checked_capacity_def over_def four result_simps Let_def)
  let ?m = "\<lparr>m_mem = replicate 8 0, m_capacity = 8, m_limit = None, producer = 0, consumer = 0\<rparr>"
  have m: "mirrored_new 8 (\<lambda>_. Inr ()) 4 None = Inr ?m"
    by (simp add: mirrored_new_def checked_capacity_def over_def map_double_def four result_simps Let_def)
  obtain l' where l': "buf_run (linear_ops 8) ?acts \<lparr>l_buf = replicate 8 0, l_head = 0, l_tail = 0, l_limit = None\<rparr> = Some l'"
    by (simp add: buf_apply_def linear_ops_def linear_unused_mut_def linear_write_unused_def linear_produce_def
        linear_consume_def linear_readable_def Let_def)
  obtain m' where m': "buf_run (mirrored_ops 8 (\<lambda>_. Inr ())) ?acts ?m = Some m'"
    by (simp add: buf_apply_def mirrored_ops_def mirrored_unused_mut_def mirrored_write_unused_def mirrored_produce_def
        mirrored_consume_def mirrored_readable_def mirrored_writable_def store_mapped_def masked_def four result_simps Let_def)
  from buffers_are_queues[of 3 4 None, where acts = ?acts] l m l' m' show ?thesis by simp
qed

text \<open>C23. However a pass used its reader, compacting fields in place and consuming as it liked, the
  next reader the context opens sees the file's own bytes from the start of its chunk to the end of the
  file: the remapping of the private pages, and the reset and seek of the ring buffer, undo everything.\<close>

theorem contexts_reopen_fresh:
  assumes "s \<le> e" and "e \<le> length input"
    and "mmap_inv input m" and "mm_inv mr"
    and "io_open (mmap_io_ops madvise) s e (io_release (mmap_io_ops madvise) m mr) = Some (Inr mr')"
    and "ring_io_inv (mirrored_inv g) (\<lambda>k. cur_data k = input) input x"
    and "ring_inv (mirrored_inv g) (\<lambda>k. cur_data k = input) xr"
    and "io_open (slice_io_ops (mirrored_ops g os)) s e (io_release (slice_io_ops (mirrored_ops g os)) x xr) = Some (Inr xr')"
  shows "mm_buffer mr' = drop s input \<and> mm_remaining mr' = e - s \<and>
    mirrored_data (rb_buf xr') @ ring_unread cursor_content xr' = drop s input \<and> rb_chunk_remaining xr' = e - s"
proof -
  have "mmap_io.stream madvise mr' = mm_buffer mr'" "r_remaining (io_reader (mmap_io_ops madvise)) mr' = mm_remaining mr'"
    unfolding mmap_io.stream_def by (simp_all add: mmap_io_ops_def mmap_reader_ops_def)
  moreover have "mirrored_slice.reader.stream g os xr' = mirrored_data (rb_buf xr') @ ring_unread cursor_content xr'"
    "r_remaining (ring_reader_ops (mirrored_ops g os) cursor_read) xr' = rb_chunk_remaining xr'"
    unfolding mirrored_slice.reader.stream_def by (simp_all add: ring_reader_ops_def mirrored_ops_def)
  ultimately show ?thesis
    using mmap_io.reopen_fresh[OF assms(3,4,1,2,5)]
      mirrored_slice_io.io.reopen_fresh[OF assms(6,7,1,2) assms(8)[unfolded slice_io_ops_def]]
    by (simp add: ring_io_ops_def mirrored_slice.reader.stream_def)
qed

theorem contexts_reopen_fresh_witness:
  "\<exists>b mr' xr'. mirrored_new 8 (\<lambda>_. Inr ()) 8 None = Inr b \<and>
     io_open (mmap_io_ops (Inr ())) 1 2 (io_release (mmap_io_ops (Inr ())) \<lparr>mf_file = [97, 10], mf_view = [97, 10]\<rparr>
       (mmap_reader_new [98, 98] 2 2)) = Some (Inr mr') \<and> mm_buffer mr' = [10] \<and>
     io_open (slice_io_ops (mirrored_ops 8 (\<lambda>_. Inr ()))) 1 2
       (io_release (slice_io_ops (mirrored_ops 8 (\<lambda>_. Inr ())))
         \<lparr>ri_buf = b, ri_src = \<lparr>cur_data = [97, 10], cur_pos = 2\<rparr>, ri_file_size = 2, ri_read_cap = 8\<rparr>
         (ring_reader_new b \<lparr>cur_data = [97, 10], cur_pos = 2\<rparr> (Some 0) 0 8)) = Some (Inr xr') \<and>
     mirrored_data (rb_buf xr') @ ring_unread cursor_content xr' = [10]"
proof -
  let ?in = "[97, 10] :: byte list" and ?os = "\<lambda>_. Inr () :: io_error + unit"
  let ?c = "\<lparr>cur_data = ?in, cur_pos = 2\<rparr>" and ?m = "\<lparr>mf_file = ?in, mf_view = ?in\<rparr>" and ?mr = "mmap_reader_new [98, 98] 2 2"
  have eight: "next_power_of_two 8 = 8" using next_power_of_two_exact[of 3] by simp
  obtain b where b: "mirrored_new 8 ?os 8 None = Inr b"
    by (simp add: mirrored_new_def checked_capacity_def over_def map_double_def eight result_simps Let_def)
  let ?x = "\<lparr>ri_buf = b, ri_src = ?c, ri_file_size = 2, ri_read_cap = 8\<rparr>" and ?xr = "ring_reader_new b ?c (Some 0) 0 8"
  obtain mr' where mr': "io_open (mmap_io_ops (Inr ())) 1 2 (io_release (mmap_io_ops (Inr ())) ?m ?mr) = Some (Inr mr')"
    by (simp add: mmap_io_ops_def mmap_io_open_def mmap_reset_def mmap_chunk_reader_def result_simps)
  obtain xr' where xr': "io_open (slice_io_ops (mirrored_ops 8 ?os)) 1 2 (io_release (slice_io_ops (mirrored_ops 8 ?os)) ?x ?xr) = Some (Inr xr')"
    by (simp add: slice_io_ops_def ring_io_ops_def ring_io_open_def cursor_seek_def result_simps)
  have inv: "mmap_inv ?in ?m" "mm_inv ?mr" "ring_io_inv (mirrored_inv 8) (\<lambda>k. cur_data k = ?in) ?in ?x"
    "ring_inv (mirrored_inv 8) (\<lambda>k. cur_data k = ?in) ?xr"
    using mirrored_new_ok[OF b, of 3]
    by (simp_all add: mmap_inv_def mm_inv_def mmap_reader_new_def ring_io_inv_def ring_inv_def ring_reader_new_def)
  from contexts_reopen_fresh[OF _ _ inv(1,2) mr' inv(3,4) xr'] b mr' xr' show ?thesis by simp
qed

text \<open>C27. A refill of the doubly mapped buffer keeps what is unread, appends the next bytes of the
  source in order and loses none; if it succeeds, the request is met or the input is exhausted.\<close>

theorem refill:
  assumes "mirrored_inv g (rb_buf r)" and "0 < rb_read_cap r"
    and "ring_fill (mirrored_ops g os) cursor_read n r = (out, r')"
  shows "\<exists>new. mirrored_data (rb_buf r') = mirrored_data (rb_buf r) @ new \<and>
      ring_unread cursor_content r = new @ ring_unread cursor_content r' \<and>
      (out = Inr () \<longrightarrow> n \<le> length (mirrored_data (rb_buf r')) \<or> ring_unread cursor_content r' = []) \<and>
      mirrored_inv g (rb_buf r') \<and> rb_chunk_remaining r' = rb_chunk_remaining r"
proof -
  have inv: "ring_inv (mirrored_inv g) (\<lambda>k. cur_data k = cur_data (rb_src r)) r"
    using assms(1,2) by (simp add: ring_inv_def)
  from mirrored_slice.ring_fill_ok[OF inv assms(3)] show ?thesis
    by (auto simp: mirrored_ops_def ring_inv_def)
qed

theorem refill_witness:
  "\<exists>b out r'. mirrored_new 8 (\<lambda>_. Inr ()) 8 None = Inr b \<and>
     ring_fill (mirrored_ops 8 (\<lambda>_. Inr ())) cursor_read 4 (ring_reader_new b \<lparr>cur_data = [97, 10], cur_pos = 0\<rparr> (Some 2) 2 8) = (out, r') \<and>
     mirrored_inv 8 (rb_buf r')"
proof -
  have eight: "next_power_of_two 8 = 8" using next_power_of_two_exact[of 3] by simp
  obtain b where b: "mirrored_new 8 (\<lambda>_. Inr ()) 8 None = Inr b"
    by (simp add: mirrored_new_def checked_capacity_def over_def map_double_def eight result_simps Let_def)
  let ?r = "ring_reader_new b \<lparr>cur_data = [97, 10], cur_pos = 0\<rparr> (Some 2) 2 8"
  obtain out r' where f: "ring_fill (mirrored_ops 8 (\<lambda>_. Inr ())) cursor_read 4 ?r = (out, r')" by fastforce
  from refill[OF _ _ f] mirrored_new_ok[OF b, of 3] b f show ?thesis by (auto simp: ring_reader_new_def)
qed

text \<open>C36. \<open>skip_empty_lines\<close> on whatever reader, refilled as often as the run needs: it always returns, drops exactly
  the run of bare terminators at the front of all that is left, cut at the end of the chunk, and says whether the run goes on
  there; or it returns the error of a \<open>fill\<close>.\<close>

theorem empty_lines_skipped:
  fixes c :: Config and R :: "'r reader_ops"
  assumes "chunk_reader R rinv unread" and "rinv r"
  defines "bs \<equiv> \<lambda>r. r_buffer R r @ unread r"
    and "n \<equiv> length (takeWhile (is_terminator (terminator c)) (r_buffer R r @ unread r))" and "rem \<equiv> r_remaining R r"
  shows "\<exists>res r'. skip_empty_lines R c r = Some (res :: 'u Error + _, r') \<and> rinv r' \<and>
    (res = Inr (min n rem, rem < n) \<and> bs r' = drop (min n rem) (bs r) \<and> r_remaining R r' = rem - min n rem \<or>
     read_failed R rinv res)"
proof -
  note d = chunk_reader.stream_def[OF assms(1)] chunk_reader.read_failed_iff[OF assms(1)]
  have sk: "skip_spec (terminator c) (r_remaining R r) (chunk_reader.stream R unread r) = (min n rem, rem < n)"
    by (simp add: d n_def rem_def skip_spec_def terminator_run_def Let_def)
  from chunk_reader.skip_empty_lines_ok[OF assms(1,2) sk, where 'a = 'u] show ?thesis
    unfolding d bs_def rem_def[symmetric] by simp
qed

theorem empty_lines_skipped_witness:
  "\<exists>b (res :: unit Error + _) r'. mirrored_new 8 (\<lambda>_. Inr ()) 8 None = Inr b \<and>
     skip_empty_lines patchy_ops default_config (patchy_reader b [10, 13, 10, 97] [Inr 0, Inr 0, Inl (OsError ''x'')] 2) = Some (res, r') \<and>
     (res = Inr (2, True) \<and> r_buffer patchy_ops r' @ ring_unread pa_rest r' = [10, 97] \<or> (\<exists>e. res = Inl (IO e)))"
proof -
  obtain b where b: "mirrored_new 8 (\<lambda>_. Inr ()) 8 None = Inr b"
    and r: "\<And>bs sc n. ring_inv (mirrored_inv 8) (\<lambda>_. True) (patchy_reader b bs sc n)"
      "\<And>bs sc n. r_buffer patchy_ops (patchy_reader b bs sc n) @ ring_unread pa_rest (patchy_reader b bs sc n) = bs"
      "\<And>bs sc n. r_remaining patchy_ops (patchy_reader b bs sc n) = n" using patchy_start by blast
  have run: "takeWhile (is_terminator (terminator default_config)) [10, 13, 10, 97] = [10, 13, 10]"
    by (simp add: default_config_def is_terminator_def)
  from empty_lines_skipped[OF patchy_laws r(1)[of "[10, 13, 10, 97]"
      "[Inr 0, Inr 0, Inl (OsError ''x'')]" 2], where c = default_config and 'u = unit, unfolded r(2,3) run] b
  show ?thesis by (auto dest: read_failed_IO)
qed

text \<open>C29. UTF-8 validation of a buffer's fresh bytes, of which the rest of the input is not yet
  known: what it accepts can be cut off without changing how far the whole is valid, at least one byte is
  accepted of any four, and what it rejects no continuation can repair.\<close>

theorem text_validates_in_pieces:
  "(case validate_str p of
     Inr n \<Rightarrow> n \<le> length p \<and> utf8_valid_len (p @ rest) = n + utf8_valid_len (drop n (p @ rest)) \<and>
       (n = 0 \<longrightarrow> length p < 4) \<and> (rest = [] \<longrightarrow> n = utf8_valid_len p)
   | Inl n \<Rightarrow> n < length p \<and> utf8_valid_len (p @ rest) = n)"
proof (cases "validate_str p")
  case (Inl n)
  with text_out.rejects[OF Inl, of rest] show ?thesis by simp
next
  case (Inr n)
  with text_out.accepts[OF Inr, of rest] show ?thesis by auto
qed

theorem text_validates_in_pieces_witness: "utf8_valid_len [97, 195] = 1 \<and> validate_str [97, 195] = Inr 1"
proof -
  have "validate_str [97, 195] = Inr 1"
    by (simp add: validate_str_def from_utf8.simps utf8_width_def in_range_def utf8_second_def)
  with text_validates_in_pieces[of "[97, 195]" "[]"] show ?thesis by simp
qed

section \<open>Streams and round trips\<close>

text \<open>C18. \<open>run_stream_inner\<close>, on which the stream methods end, with the DFA parser in \<open>Bytes\<close>, over any source that
  meets the contract of \<open>Read\<close>, short reads and errors included, and any ring buffer: it always returns, with the sequential parse
  of everything the source holds, merged, with the I/O error of the buffer it could not build, or with that of a \<open>fill\<close>, a failed read or
  a buffer that could not grow. The one chunk without an end never cuts a record.\<close>

theorem stream_is_sequential:
  fixes B :: "'b buf_ops" and rd :: "'s read_fn" and src :: 's
  assumes "ring_reader B binv rd unread sinv" and "\<forall>cap lim b. op_new B cap lim = Inr b \<longrightarrow> binv b \<and> op_data B b = []"
    and "sinv src" and "length (unread src) \<le> USIZE_MAX"
  defines "R \<equiv> ring_reader_ops B rd"
  shows "\<exists>res. run_stream_inner h B rd (dfa_parser R validate_bytes (dfa_chunk_parser_new le c) acc) c src init merge = Some res \<and>
    (res = (case sequential c acc (unread src) init of Inl e \<Rightarrow> Inl e | Inr s \<Rightarrow> Inr (merge [s])) \<or>
     (\<exists>e cap lim. op_new B cap lim = Inl e \<and> res = Inl (IO e)) \<or> read_failed R (ring_inv binv sinv) res)"
  unfolding R_def
proof (rule ring_reader.run_stream_ok[OF assms(1) _ assms(3,4)])
  show "binv b \<and> op_data B b = []" if "op_new B cap lim = Inr b" for cap lim b using assms(2) that by blast
qed

theorem stream_is_sequential_witness:
  "\<exists>res. run_stream_inner demo_host (mirrored_ops 4096 (\<lambda>_. Inr ())) patchy_read
      (dfa_parser (ring_reader_ops (mirrored_ops 4096 (\<lambda>_. Inr ())) patchy_read) validate_bytes (dfa_chunk_parser_new True default_config)
        (collect :: (_, unit) accumulator)) default_config \<lparr>pa_rest = [97, 10], pa_script = [Inr 0, Inl (OsError ''x'')]\<rparr> [] concat = Some res"
proof -
  have "\<forall>cap lim b. op_new (mirrored_ops 4096 (\<lambda>_. Inr ())) cap lim = Inr b \<longrightarrow>
      mirrored_inv 4096 b \<and> op_data (mirrored_ops 4096 (\<lambda>_. Inr ())) b = []"
  proof (intro allI impI)
    fix cap lim b assume "op_new (mirrored_ops 4096 (\<lambda>_. Inr ())) cap lim = Inr b"
    then have "mirrored_new 4096 (\<lambda>_. Inr ()) cap lim = Inr b" by (simp add: mirrored_ops_def)
    from mirrored_new_ok[OF this, of 12] show "mirrored_inv 4096 b \<and> op_data (mirrored_ops 4096 (\<lambda>_. Inr ())) b = []"
      by (simp add: mirrored_ops_def)
  qed
  from stream_is_sequential[OF mirrored_patchy.ring_reader_axioms this, of "\<lparr>pa_rest = [97, 10], pa_script = [Inr 0, Inl (OsError ''x'')]\<rparr>"
      demo_host True default_config "collect :: (_, unit) accumulator" "[]" concat]
  show ?thesis by (auto simp: USIZE_MAX_def)
qed

text \<open>C17. Whatever bytes the fields hold, quotes, delimiters, line breaks and escapes included: printing
  records with every field quoted and parsing the text back with the DFA parser, in \<open>Bytes\<close> and from memory, gives the same records,
  each field trimmed if the dialect trims. The dialect is any validated one with a quote and an escape that reads no header row;
  every record has a field, and as many as the dialect fixes, where it does.\<close>

theorem round_trip:
  fixes c :: Config and q e :: byte
  assumes "validate c = (Inr () :: 'v Error + unit)" and "quote c = Some q" and "escape c = Some e"
    and "\<not> has_headers c"
    and "\<forall>fs\<in>set recs. fs \<noteq> [] \<and> (field_count c = None \<or> field_count c = Some (length fs))"
  defines "bytes \<equiv> render_records c q e recs"
  shows "\<exists>pr r'. chunk_parse in_memory_ops
      (dfa_parser in_memory_ops validate_bytes (dfa_chunk_parser_new le c) (collect :: (_, 'u) accumulator)) [] OutOfQuotes FindNo
      (in_memory_new bytes (length bytes)) = Some (pr, r') \<and>
    result pr = Inr (map (map (trimmed c)) recs)"
proof -
  let ?r = "in_memory_new bytes (length bytes)"
  have print: "printable c q e" using assms(1-3) by (simp add: printable_def validate_iff)
  have inv: "im_inv ?r" by (simp add: in_memory_new_def im_inv_def)
  have no: "\<not> in_memory.fill_failed err" "\<not> in_memory_bytes.utf8_failed c OutOfQuotes FindNo rem bs err" for err :: "'u Error" and rem bs
    using in_memory.never_fails by (simp_all add: in_memory_bytes.utf8_failed_def)
  have st: "in_memory.stream ?r = bytes" "r_remaining in_memory_ops ?r = length bytes"
    unfolding in_memory.stream_def
    by (simp_all add: in_memory_ops_def im_buffer_def im_remaining_def in_memory_new_def)
  have seq: "result (spec_pass c (collect :: (_, 'u) accumulator) OutOfQuotes FindNo (length bytes) bytes []) =
      Inr (map (map (trimmed c)) recs)"
    using parse_printed[OF print assms(5,4), where 'u = 'u] assms(4) by (simp add: sequential_def bytes_def)
  from in_memory_bytes.pass_ok[OF inv refl, of le c "collect :: (_, 'u) accumulator" "[]" OutOfQuotes FindNo] seq no
  show ?thesis unfolding st by blast
qed

theorem round_trip_witness:
  "\<exists>pr r'. let c = default_config\<lparr>has_headers := False\<rparr>; bytes = render_records c 34 34 [[[97, 34, 44, 10], []]] in
     chunk_parse in_memory_ops (dfa_parser in_memory_ops validate_bytes (dfa_chunk_parser_new True c) (collect :: (_, unit) accumulator))
       [] OutOfQuotes FindNo (in_memory_new bytes (length bytes)) = Some (pr, r') \<and> result pr = Inr [[[97, 34, 44, 10], []]]"
proof -
  let ?c = "default_config\<lparr>has_headers := False\<rparr>"
  have v: "validate ?c = (Inr () :: unit Error + unit)"
    by (simp add: validate_iff ring_ok_def dialect_ok_def default_config_def is_terminator_def)
  have sel: "quote ?c = Some 34" "escape ?c = Some 34" "\<not> has_headers ?c" "trimmed ?c = (\<lambda>b. b)"
    "field_count ?c = None"
    by (simp_all add: default_config_def trimmed_def fun_eq_iff)
  from round_trip[OF v sel(1-3), of "[[[97, 34, 44, 10], []]]" True, where 'u = unit] sel(4,5) show ?thesis
    by (simp add: Let_def)
qed

section \<open>Where documentation and code differ\<close>

text \<open>C38. Trimming strips space, tab, line feed, form feed and carriage return, and nothing else: the
  vertical tab the documentation of \<open>ParserBuilder::trim\<close> lists stays, for every field.\<close>

theorem trim_keeps_vertical_tab:
  assumes "trim_fields st" and "subslice buf (field_start st) (write_pos st) = [11] @ bs @ [11]"
    and "field_start st \<le> write_pos st"
  shows "map (span_bytes buf) (refs (push_field buf st)) = map (span_bytes buf) (refs st) @ [[11] @ bs @ [11]]"
proof -
  have vt: "\<not> is_ascii_whitespace 11" by (simp add: is_ascii_whitespace_def)
  then have "trim_ascii ([11] @ bs @ [11]) = (0, [11] @ bs @ [11])"
    by (simp add: trim_ascii_def)
  moreover have "take (length ([11] @ bs @ [11])) (drop (field_start st) buf) = [11] @ bs @ [11]"
    using assms(2) unfolding subslice_def by (metis append_eq_conv_conj append_take_drop_id)
  ultimately show ?thesis
    using assms by (auto simp: push_field_def span_bytes_def subslice_def Let_def)
qed

theorem trim_keeps_vertical_tab_witness:
  "map (span_bytes [11, 97, 11]) (refs (push_field [11, 97, 11]
     ((stepper_new True (dfa_new True default_config) (default_config\<lparr>trim := True\<rparr>) 0)\<lparr>write_pos := 3\<rparr>))) = [[11, 97, 11]]"
proof -
  let ?st = "(stepper_new True (dfa_new True default_config) (default_config\<lparr>trim := True\<rparr>) 0)\<lparr>write_pos := 3\<rparr>"
  have "trim_fields ?st" "field_start ?st = 0" "write_pos ?st = 3" "refs ?st = []" by (simp_all add: stepper_new_def)
  with trim_keeps_vertical_tab[of ?st "[11, 97, 11]" "[97]"] show ?thesis by (simp add: subslice_def)
qed

text \<open>C39. In a dialect whose terminator is a byte other than the line feed, a comment does not end at the
  record terminator: without a line feed the rest of the input belongs to the comment, however many
  records follow.\<close>

theorem comment_swallows_records:
  fixes acc :: "('s, 'u) accumulator"
  assumes "comment c = Some k" and "terminator c = Byte t" and "t \<noteq> LF" and "k \<noteq> t" and "\<not> has_headers c"
    and "LF \<notin> set bs"
  shows "sequential c acc (k # bs) init = Inr init"
proof -
  have stay: "spec_run c acc L p bs m = Running m" if "m_state m = InComment" for L p m
    using assms(6)
  proof (induction bs arbitrary: p)
    case (Cons b bs)
    have "m\<lparr>m_state := InComment\<rparr> = m" using that by simp
    then have "spec_byte c acc L p b m = Running m"
      using Cons.prems assms(2) that
      by (simp add: spec_byte_elsewhere transition_def dfa_new_def in_comment_cell_def enter_def copy_byte_def)
    with Cons show ?case by simp
  qed simp
  obtain m where m: "spec_byte c acc L 0 k (spec_init 0 init) = Running m" "m_state m = InComment" "m_acc m = init" for L
    using assms(1,2,4)
    by (simp add: spec_byte_def transition_def dfa_new_def record_start_cell_def is_terminator_def enter_def
        copy_byte_def mark_start_def spec_init_def)
  have "terminator_run (terminator c) (k # bs) = 0"
    using assms(2,4) by (simp add: terminator_run_def is_terminator_def)
  with assms(5) m stay[OF m(2)] show ?thesis
    by (simp add: sequential_def spec_pass_def spec_scan_def spec_body_def skip_spec_def started_def spec_parse_def
        spec_rest_def spec_finish_def)
qed

theorem comment_swallows_records_witness:
  "sequential (default_config\<lparr>comment := Some 35, terminator := Byte 59, has_headers := False\<rparr>)
     (collect :: (_, unit) accumulator) [35, 97, 59, 98, 44, 99, 59] [] = Inr []"
  by (rule comment_swallows_records[where t = 59]) (simp_all add: default_config_def)

section \<open>Automatic settings\<close>

text \<open>C31. Whatever the settings, the chunks of a non-empty file or slice cover it exactly, none is empty, and
  between one and as many threads as chunks are started, no more than asked for, and no more than the
  I/O budget can give a page each.\<close>

theorem resolved_bounds:
  assumes "for_file h c n = (Some (Inr rs) :: ('u Error + _) option) \<or> for_slice h c n = (Some (Inr rs) :: ('u Error + _) option)"
    and "0 < n" and "0 < available_parallelism h" and "0 < allocation_granularity h"
  defines "cs \<equiv> chunk_size (rs_config rs)"
  shows "0 < cs \<and> (rs_chunk_count rs - 1) * cs < n \<and> n \<le> rs_chunk_count rs * cs \<and>
    1 \<le> rs_thread_count rs \<and> rs_thread_count rs \<le> rs_chunk_count rs \<and>
    rs_thread_count rs \<le> (if concurrency c = 0 then available_parallelism h else concurrency c) \<and>
    (case resolve_io_buffer_limit h c of
       Some budget \<Rightarrow> rs_thread_count rs = 1 \<or> rs_thread_count rs * allocation_granularity h \<le> budget
     | None \<Rightarrow> True)"
proof -
  let ?hw = "if concurrency c = 0 then available_parallelism h else concurrency c" and ?lim = "resolve_io_buffer_limit h c"
  from assms(1) obtain p where p: "resolve_parser_backend c = (Inr p :: 'u Error + _)"
    by (auto simp: for_file_def for_slice_def split: sum.splits)
  with resolve_chunk_size_ok[OF p] assms(1) have cs: "0 < cs"
    and count: "rs_chunk_count rs = div_ceil n cs"
    and threads: "rs_thread_count rs = resolve_thread_count h c (rs_chunk_count rs) ?lim"
    by (auto simp: for_file_def for_slice_def Let_def cs_def)
  note dc = div_ceil_bounds[OF cs, of n, folded count]
  have pos: "0 < rs_thread_count rs"
    unfolding threads using resolve_thread_count_pos[OF _ assms(3)] dc(3) assms(2) by simp
  have hw: "rs_thread_count rs \<le> ?hw" unfolding threads by (simp add: resolve_thread_count_def Let_def)
  have "rs_thread_count rs = 1 \<or> rs_thread_count rs * allocation_granularity h \<le> budget" if "?lim = Some budget" for budget
  proof (cases "allocation_granularity h \<le> budget")
    case True
    then show ?thesis unfolding threads that by (intro disjI2 resolve_thread_count_budget assms(4))
  next
    case False
    then have "affordable_thread_count h (Some budget) = 1" by (simp add: affordable_thread_count_def)
    then have "rs_thread_count rs \<le> 1" unfolding threads that by (simp add: resolve_thread_count_def Let_def)
    with pos show ?thesis by linarith
  qed
  with cs dc assms(2) pos hw resolve_thread_count_le[of h c "rs_chunk_count rs" ?lim, folded threads]
  show ?thesis by (simp add: Suc_le_eq split: option.split)
qed

theorem resolved_bounds_witness:
  "\<exists>rs. for_slice demo_host (default_config\<lparr>chunk_size := 4\<rparr>) 9 = (Some (Inr rs) :: (unit Error + _) option) \<and>
     9 \<le> rs_chunk_count rs * chunk_size (rs_config rs) \<and> rs_thread_count rs \<le> 4"
proof -
  let ?c = "default_config\<lparr>chunk_size := 4\<rparr>"
  have "resolve_parser_backend ?c = (Inr Dfa_Backend :: unit Error + _)"
    by (simp add: resolve_parser_backend_def simd_supports_def dfa_supports_def default_config_def)
  then obtain rs where rs: "for_slice demo_host ?c 9 = (Some (Inr rs) :: (unit Error + _) option)"
    by (simp add: for_slice_def resolve_chunk_size_def Let_def)
  with resolved_bounds[OF disjI2[OF rs]] show ?thesis by (auto simp: demo_host_def default_config_def split: if_splits)
qed

text \<open>C34. Up to \<open>2 ^ 52\<close> chunks the floating-point square root of the thread cap is exact: rounded up, it
  is the least integer whose square is not below the chunk count.\<close>

theorem sqrt_thread_cap:
  assumes "0 < m" and "m \<le> 2 ^ 52"
  defines "r \<equiv> f64_sqrt_ceil (f64_of_nat m)"
  shows "m \<le> r * r \<and> (r - 1) * (r - 1) < m \<and>
    resolve_thread_count h c m None = min (min (if concurrency c = 0 then available_parallelism h else concurrency c) m) (6 * r)"
proof -
  have r: "r = (if isqrt m * isqrt m = m then isqrt m else isqrt m + 1)"
    unfolding r_def by (rule f64_sqrt_ceil_exact[OF assms(2)])
  have b: "isqrt m * isqrt m \<le> m" "m < (isqrt m + 1) * (isqrt m + 1)" using isqrt_bounds[of m] by auto
  have sq: "m \<le> r * r" using b unfolding r by (auto simp: algebra_simps)
  have below: "(r - 1) * (r - 1) < m"
  proof (cases "isqrt m * isqrt m = m")
    case True
    then have rr: "r * r = m" unfolding r by simp
    then obtain k where k: "r = Suc k" using assms(1) by (cases r) auto
    have "k * k < Suc k * Suc k" by simp
    then show ?thesis using rr k by simp
  next
    case False
    with b show ?thesis unfolding r by simp
  qed
  have "isqrt m < 2 ^ 27" by (rule isqrt_less) (use assms(2) in simp)
  then have "6 * r \<le> USIZE_MAX" unfolding r by (simp add: USIZE_MAX_def)
  then have "resolve_thread_count h c m None = min (min (if concurrency c = 0 then available_parallelism h else concurrency c) m) (6 * r)"
    unfolding resolve_thread_count_def affordable_thread_count_def Let_def r_def[symmetric] by simp
  with sq below show ?thesis by blast
qed

theorem sqrt_thread_cap_witness:
  "(10 :: nat) \<le> f64_sqrt_ceil (f64_of_nat 10) * f64_sqrt_ceil (f64_of_nat 10)"
  using sqrt_thread_cap[of 10 demo_host default_config] by auto

text \<open>With the automatic I/O backend, or a ring buffer with the default settings, and a total budget of at least one page, the ring
  buffer every worker builds from the resolved settings fits its share: its rounded capacity never exceeds the
  limit that came out of the division of the budget.\<close>

lemma auto_ring_buildable:
  assumes "for_file h c n = (Some (Inr rs) :: ('u Error + _) option)" and "0 < n" and "0 < available_parallelism h"
    and "rs_io_backend rs = RingBuf s" and "io_backend c = IoAuto \<or> io_backend c = RingBuf default_ring_settings"
    and "allocation_granularity h = 2 ^ j" and "\<forall>l. resolve_io_buffer_limit h c = Some l \<longrightarrow> 2 ^ j \<le> l"
  shows "\<exists>cap. checked_capacity (allocation_granularity h) (buffer_size s) (buffer_limit s) = Inr cap"
proof -
  let ?lim = "resolve_io_buffer_limit h c" and ?t = "rs_thread_count rs"
  note t = for_file_threads[OF assms(1-3)] and r = for_file_dialect[OF assms(1)]
  let ?share = "per_thread_share ?lim ?t"
  from assms(4) for_file_shape[OF assms(1)] have "RingBuf s = resolve_io_backend h c n ?share ?t" by auto
  then have s: "s = resolve_ringbuf_settings h default_ring_settings ?share ?t"
    using assms(5) by (auto simp: resolve_io_backend_def Let_def split: if_splits)
  have share: "2 ^ j \<le> l" if "resolve_buffer_limit (buffer_limit default_ring_settings) ?share = Some l" for l
  proof -
    from that obtain budget where b: "?lim = Some budget" and l: "l = budget div ?t"
      using t(1) by (auto simp: resolve_buffer_limit_def default_ring_settings_def per_thread_share_def split: option.splits if_splits)
    have "2 ^ j \<le> budget" using assms(7) b by simp
    then have "?t * 2 ^ j \<le> budget"
      using resolve_thread_count_budget[of h budget c "rs_chunk_count rs"] r(9) b assms(6) by simp
    then show ?thesis unfolding l using t(1) by (simp add: less_eq_div_iff_mult_less_eq mult.commute)
  qed
  have "buffer_size default_ring_settings = 0" by (simp add: default_ring_settings_def)
  with resolve_buffer_size_auto[OF assms(6) share] show ?thesis
    unfolding s by (simp add: resolve_ringbuf_settings_def Let_def)
qed

section \<open>The public interface\<close>



text \<open>C32. The \<open>assert_eq!\<close> of \<open>fields_as_array\<close> never fails with the DFA parser: what the six
  fixed-arity methods return does not depend on what a failed assertion would do. The parse itself rejects
  records of another width before the closure sees them.\<close>

theorem arity_never_panics:
  fixes acc :: "('s, 'u) accumulator"
  assumes "resolve_parser_backend (arity_config n c) = (Inr Dfa_Backend :: 'v Error + _)"
  shows "(parse_arity_text panic n env simd c init acc merge res = parse_arity_text panic' n env simd c init acc merge res) \<and>
    (parse_arity_bytes panic n env simd c init acc merge res = parse_arity_bytes panic' n env simd c init acc merge res) \<and>
    (parse_slice_arity_text panic n h B simd_s c data init acc merge res =
       parse_slice_arity_text panic' n h B simd_s c data init acc merge res) \<and>
    (parse_slice_arity_bytes panic n h B simd_s c data init acc merge res =
       parse_slice_arity_bytes panic' n h B simd_s c data init acc merge res) \<and>
    parse_stream_arity_text panic n h B rd simd_r c src init acc merge =
      parse_stream_arity_text panic' n h B rd simd_r c src init acc merge \<and>
    parse_stream_arity_bytes panic n h B rd simd_r c src init acc merge =
      parse_stream_arity_bytes panic' n h B rd simd_r c src init acc merge"
  unfolding parse_arity_text_def parse_arity_bytes_def parse_slice_arity_text_def parse_slice_arity_bytes_def
    parse_stream_arity_text_def parse_stream_arity_bytes_def api_parse_def api_parse_slice_def api_parse_stream_def
  by (intro conjI scheduler_run_arity[OF assms arity_field_count] scheduler_run_slice_arity[OF assms arity_field_count]
      scheduler_run_stream_arity[OF assms arity_field_count])

theorem arity_never_panics_witness:
  "let c = default_config\<lparr>parser_backend := Dfa_Backend\<rparr>; simd = dfa_family demo_host (linear_ops 8) cursor_read;
       run = (\<lambda>panic. parse_stream_arity_bytes panic 2 demo_host (linear_ops 8) cursor_read simd c
         \<lparr>cur_data = [97, 44, 98, 10], cur_pos = 0\<rparr> [] collect concat :: (nat Error + _) option)
   in run (Inl (Other 0)) = run (Inl (Other 1))"
proof -
  let ?c = "default_config\<lparr>parser_backend := Dfa_Backend\<rparr>"
  have "resolve_parser_backend (arity_config 2 ?c) = (Inr Dfa_Backend :: unit Error + _)"
    by (simp add: resolve_parser_backend_def dfa_supports_def arity_config_def)
  note arity_never_panics[OF this, THEN conjunct2, THEN conjunct2, THEN conjunct2, THEN conjunct2, THEN conjunct2]
  then show ?thesis unfolding Let_def by (rule allI[THEN spec])
qed

text \<open>C33. What the builder accepts: a bytes parser is built exactly for a valid configuration, a text
  parser only if all control bytes are ASCII too, and \<open>build\<close> panics exactly where \<open>try_build\<close> fails. The
  default configuration of \<open>Parser::new\<close> is accepted, and everything a text parser accepts keeps fields
  valid UTF-8.\<close>

theorem try_build_accepts:
  "(try_build_bytes b = (Inr c :: 'u Error + Config) \<longleftrightarrow> c = b \<and> validate b = (Inr () :: 'u Error + unit)) \<and>
   (try_build_text b = (Inr c :: 'u Error + Config) \<longleftrightarrow> c = b \<and> validate b = (Inr () :: 'u Error + unit) \<and> ascii_controls b) \<and>
   build_bytes b = (if is_ok (validate b :: unit Error + unit) then Some b else None) \<and>
   build_text b = (if is_ok (validate b :: unit Error + unit) \<and> ascii_controls b then Some b else None) \<and>
   parser_new = Some default_config"
proof -
  have a1: "validate_ascii_control_bytes b = (Inr () :: 'u Error + unit) \<longleftrightarrow> ascii_controls b"
    and a2: "\<And>b. validate_ascii_control_bytes b = (Inr () :: unit Error + unit) \<longleftrightarrow> ascii_controls b"
    by (rule validate_ascii_iff)+
  note defs = try_build_bytes_def try_build_text_def try_from_config_def bytes_output_def text_output_def
    build_bytes_def build_text_def parser_new_def
  have ok: "validate default_config = (Inr () :: unit Error + unit)" "ascii_controls default_config"
    by (rule default_config_valid) (simp add: ascii_controls_def default_config_def is_terminator_def)
  have 1: "try_build_bytes b = (Inr c :: 'u Error + Config) \<longleftrightarrow> c = b \<and> validate b = (Inr () :: 'u Error + unit)"
    by (cases "validate b :: 'u Error + unit") (auto simp: defs)
  have 2: "try_build_text b = (Inr c :: 'u Error + Config) \<longleftrightarrow>
      c = b \<and> validate b = (Inr () :: 'u Error + unit) \<and> ascii_controls b"
    by (cases "validate b :: 'u Error + unit"; cases "validate_ascii_control_bytes b :: 'u Error + unit")
      (auto simp: defs simp flip: a1)
  have 3: "build_bytes b = (if is_ok (validate b :: unit Error + unit) then Some b else None)"
    by (cases "validate b :: unit Error + unit") (auto simp: defs)
  have 4: "build_text b = (if is_ok (validate b :: unit Error + unit) \<and> ascii_controls b then Some b else None)"
    by (cases "validate b :: unit Error + unit"; cases "validate_ascii_control_bytes b :: unit Error + unit")
      (auto simp: defs simp flip: a2)
  have 5: "parser_new = Some default_config"
    using ok a2[of default_config] by (simp add: defs)
  from 1 2 3 4 5 show ?thesis by blast
qed

text \<open>C40. The documentation of the builder says that a configuration the SIMD backend cannot run
  fails at \<open>try_build\<close>. It does not: the parser is built, \<open>supports_backend\<close> reports the reason, and the
  error comes only from the parse.\<close>

theorem simd_rejected_at_parse:
  assumes "validate c = (Inr () :: 'v Error + unit)" and "parser_backend c = Simd_Backend" and "field_count c = None"
    and "supports_backend c Simd_Backend = Inl reason" and "fe_size env = Inr k"
    and "parse_arity_bytes panic n env simd c init acc merge res"
  shows "try_build_bytes c = (Inr c :: 'v Error + Config) \<and> (\<exists>why. res = Some (Inl (InvalidConfig why)))"
proof
  show "try_build_bytes c = (Inr c :: 'v Error + Config)"
    using assms(1) by (simp add: try_build_bytes_def try_from_config_def bytes_output_def)
  have "\<exists>why. simd_supports (arity_config n c) = Inl why"
    using assms(3,4) by (auto simp: supports_backend_def simd_supports_def arity_config_def split: if_splits option.splits)
  then obtain why where "simd_supports (arity_config n c) = Inl why" ..
  with assms(2,5,6) show "\<exists>why. res = Some (Inl (InvalidConfig why))"
    by (auto simp: parse_arity_bytes_def api_parse_def scheduler_run_def for_file_def resolve_parser_backend_def
        arity_config_def)
qed

theorem simd_rejected_at_parse_witness:
  "let c = default_config\<lparr>trim := True, parser_backend := Simd_Backend\<rparr>; F = dfa_family demo_host (linear_ops 8) cursor_read
   in \<exists>res :: (unit Error + _) option. parse_arity_bytes (Inr []) 2 (disk_env demo_host (linear_ops 8) [97]) F c [] collect concat res \<and>
     try_build_bytes c = (Inr c :: unit Error + Config) \<and> (\<exists>why. res = Some (Inl (InvalidConfig why)))"
proof -
  let ?c = "default_config\<lparr>trim := True, parser_backend := Simd_Backend\<rparr>"
  let ?F = "dfa_family demo_host (linear_ops 8) cursor_read :: _ \<Rightarrow> (_, unit) accumulator \<Rightarrow> _"
  let ?env = "disk_env demo_host (linear_ops 8) [97]"
  have v: "validate ?c = (Inr () :: unit Error + unit)"
    by (simp add: validate_iff ring_ok_def dialect_ok_def default_config_def is_terminator_def)
  have sup: "supports_backend ?c Simd_Backend = Inl ''SIMD parser does not support `trim`''"
    by (simp add: supports_backend_def simd_supports_def default_config_def FIXED_MAX_ARITY_def)
  have "\<exists>res :: (unit Error + _) option. parse_arity_bytes (Inr []) 2 ?env ?F ?c [] collect concat res"
    by (auto simp: parse_arity_bytes_def api_parse_def scheduler_run_def for_file_def resolve_parser_backend_def
        arity_config_def simd_supports_def default_config_def FIXED_MAX_ARITY_def disk_env_def)
  then obtain res :: "(unit Error + _) option" where
    res: "parse_arity_bytes (Inr []) 2 ?env ?F ?c [] collect concat res" ..
  from simd_rejected_at_parse[OF v _ _ sup _ res, of 1] res show ?thesis
    by (auto simp: default_config_def disk_env_def Let_def)
qed

section \<open>The SIMD parser\<close>

text \<open>The two backends' strict probes part where the dialect has a quote and no escape: two quotes in a row are an escaped
  pair for the SIMD probe, and the end of a quoted field followed by a misplaced quote for the DFA's table.\<close>

lemma strict_probe_diverges:
  defines "c \<equiv> default_config\<lparr>escape := None, field_count := Some 2\<rparr>"
    and "r \<equiv> mmap_reader_new [34, 97, 34, 34, 98, 34, 44, 99, 10] 0 9"
  shows "validate c = (Inr () :: unit Error + unit)" and "simd_supports c = Inr ()"
    and "\<exists>r'. simd_find_record_start mmap_reader_ops compile_time_isa c OutOfQuotes True r = Some (Inr (Some 8) :: unit Error + _, r')"
    and "\<exists>r'. dfa_scan_record_start mmap_reader_ops (dfa_chunk_parser_new True c) OutOfQuotes True r =
      Some (Inl (InvalidQuote (at_byte 3)) :: unit Error + _, r')"
proof -
  let ?d = "default_config\<lparr>field_count := Some 2\<rparr>" and ?bs = "[34, 97, 34, 34, 98, 34, 44, 99, 10] :: byte list"
  show "validate c = (Inr () :: unit Error + unit)"
    by (simp add: c_def validate_iff ring_ok_def dialect_ok_def default_config_def is_terminator_def)
  show "simd_supports c = Inr ()" by (simp add: c_def simd_supports_def default_config_def FIXED_MAX_ARITY_def)
  have r: "mm_inv r" "mm_remaining r = 9" "mm_buffer r = ?bs"
    by (simp_all add: r_def mm_inv_def mmap_reader_new_def mm_buffer_def mm_remaining_def)
  have st: "mmap.stream x = mm_buffer x" and rem: "r_remaining mmap_reader_ops x = mm_remaining x" for x
    unfolding mmap.stream_def by (simp_all add: mmap_reader_ops_def)
  have no: "\<not> mmap.fill_failed err" for err :: "unit Error" by (rule mmap.never_fails)
  have fill: "r_fill mmap_reader_ops n r = (Inr (), r)" "length (r_buffer mmap_reader_ops r) = 9" "r_buffer mmap_reader_ops r \<noteq> []" for n
    using r by (simp_all add: mmap_reader_ops_def mm_fill_def)
  have one: "simd_find_loop mmap_reader_ops I x pad True ca 0 pr r = (case find_vector I x pad ca (r_buffer mmap_reader_ops r) 9 of (s, m, nc, tb) \<Rightarrow>
      case fst (probe_check pr s m 9 tb 0) of Some e \<Rightarrow> Some (Inl e :: unit Error + _, r)
      | None \<Rightarrow> (case tb of Some b \<Rightarrow> Some (Inr (Some b), r_consume mmap_reader_ops b r) | None \<Rightarrow> Some (Inr None, r)))"
    for I x pad ca pr
    by (subst simd_find_loop.simps) (simp add: fill rem r(2) VECTOR_BYTES_def Let_def case_prod_beta cong: option.case_cong)
  have vec: "find_vector I c = find_vector I ?d" for I by (simp add: c_def find_vector_def fun_eq_iff default_config_def)
  have sel: "terminator c = terminator ?d" "delimiter c = delimiter ?d" "quote c = quote ?d" "initial_carry c OutOfQuotes = initial_carry ?d OutOfQuotes"
    by (simp_all add: c_def default_config_def initial_carry_def fun_eq_iff)
  have same: "simd_find_record_start mmap_reader_ops I c OutOfQuotes True r = (simd_find_record_start mmap_reader_ops I ?d OutOfQuotes True r ::
      ((unit Error + _) \<times> _) option)" for I
    unfolding simd_find_record_start_def one vec sel ..
  have "toggles ?d True" by (simp add: toggles_def dialect_ok_def default_config_def is_terminator_def)
  note search = simd_search.simd_find_record_start_ok[OF simd_search.intro[OF mmap.chunk_reader_axioms portable.lawful_isa_axioms]
      r(1) this disjI1[OF refl], where 'u = unit]
  have "search_run (?d\<lparr>quote_handling := Toggle\<rparr>) True 0 (take 9 ?bs) (assumption_to_state ?d OutOfQuotes) = FoundEnd 8"
    by (simp add: eval_cells eval_search default_config_def)
  with search no show "\<exists>r'. simd_find_record_start mmap_reader_ops compile_time_isa c OutOfQuotes True r = Some (Inr (Some 8) :: unit Error + _, r')"
    unfolding same st rem r by (fastforce simp: search_result_def)
  have "search_run (c\<lparr>quote_handling := Toggle\<rparr>) True 0 (take 9 ?bs) (assumption_to_state c OutOfQuotes) = RejectedByte 3"
    by (simp add: eval_cells eval_search c_def default_config_def)
  with no mmap.find_record_start_ok[OF probe_ok_toggle(1)[of c] r(1), where 'e = unit and le = True and strict = True
      and q = "assumption_to_state c OutOfQuotes" and p = 0]
  show "\<exists>r'. dfa_scan_record_start mmap_reader_ops (dfa_chunk_parser_new True c) OutOfQuotes True r =
      Some (Inl (InvalidQuote (at_byte 3)) :: unit Error + _, r')"
    unfolding st rem r by (fastforce simp: dfa_scan_record_start_def dfa_chunk_parser_new_def search_result_def)
qed

text \<open>C24. The SIMD search for a record boundary, 64 bytes at a time with whole-word masks, and the
  DFA parser's byte table give the same answer, on whatever reader and in every dialect without comments whose escape is the quote, or,
  without the strict probe, that has no escape: the same first boundary, the same rejected byte, the reader stopped before
  the same terminator; or one of them returns the error of a \<open>fill\<close>. It holds for every implementation of the vector
  primitives that meets their contract. With a quote, no escape and the strict probe they differ (\<open>strict_probe_diverges\<close>).\<close>

theorem simd_boundary_search:
  fixes I :: isa and R :: "'r reader_ops"
  assumes "lawful_isa I" and "chunk_reader R rinv unread" and "rinv r" and "toggles c strict" and "a = OutOfQuotes \<or> a = InQuotes"
  defines "bs \<equiv> \<lambda>r. r_buffer R r @ unread r"
  shows "\<exists>(x :: 'u Error + nat option) r1 d r2.
    simd_find_record_start R I c a strict r = Some (x, r1) \<and>
    dfa_scan_record_start R (dfa_chunk_parser_new le c) a strict r = Some (d, r2) \<and>
    (read_failed R rinv x \<or> read_failed R rinv d \<or>
     x = d \<and> (\<forall>p. x = Inr (Some p) \<longrightarrow> bs r1 = drop p (bs r) \<and> bs r2 = bs r1 \<and>
       r_remaining R r1 = r_remaining R r - p \<and> r_remaining R r2 = r_remaining R r1))"
proof -
  have env: "simd_search R rinv unread I" by (intro simd_search.intro assms(1,2))
  let ?out = "search_run (c\<lparr>quote_handling := Toggle\<rparr>) strict 0 (take (r_remaining R r) (r_buffer R r @ unread r)) (assumption_to_state c a)"
  note d = chunk_reader.stream_def[OF assms(2)] chunk_reader.read_failed_iff[OF assms(2)]
  from simd_search.simd_find_record_start_ok[OF env assms(3-5), where 'u = 'u] obtain x r1 where
    x: "simd_find_record_start R I c a strict r = Some (x :: 'u Error + _, r1)"
      "read_failed R rinv x \<or> x = search_result ?out \<and> (\<forall>p. ?out = FoundEnd p \<longrightarrow> bs r1 = drop p (bs r) \<and> r_remaining R r1 = r_remaining R r - p)"
    unfolding d bs_def by blast
  from chunk_reader.find_record_start_ok[OF assms(2) probe_ok_toggle(1) assms(3), where 'e = 'u
      and le = le and q = "assumption_to_state c a" and p = 0] obtain y r2 where
    y: "dfa_scan_record_start R (dfa_chunk_parser_new le c) a strict r = Some (y :: 'u Error + _, r2)"
      "read_failed R rinv y \<or> y = search_result ?out \<and> (\<forall>p. ?out = FoundEnd p \<longrightarrow> bs r2 = drop p (bs r) \<and> r_remaining R r2 = r_remaining R r - p)"
    unfolding d bs_def dfa_scan_record_start_def dfa_chunk_parser_new_def by simp blast
  show ?thesis
  proof (intro exI conjI)
    show "read_failed R rinv x \<or> read_failed R rinv y \<or> x = y \<and> (\<forall>p. x = Inr (Some p) \<longrightarrow> bs r1 = drop p (bs r) \<and> bs r2 = bs r1 \<and>
       r_remaining R r1 = r_remaining R r - p \<and> r_remaining R r2 = r_remaining R r1)"
    proof (cases "read_failed R rinv x \<or> read_failed R rinv y")
      case False
      then have eq: "x = search_result ?out" "y = search_result ?out"
        and at: "?out = FoundEnd p \<Longrightarrow> bs r1 = drop p (bs r) \<and> bs r2 = drop p (bs r) \<and>
          r_remaining R r1 = r_remaining R r - p \<and> r_remaining R r2 = r_remaining R r - p" for p
        using x(2) y(2) by blast+
      have "?out = FoundEnd p" if "x = Inr (Some p)" for p using that unfolding eq(1) search_result_Some .
      then have "bs r1 = drop p (bs r) \<and> bs r2 = bs r1 \<and> r_remaining R r1 = r_remaining R r - p \<and>
          r_remaining R r2 = r_remaining R r1" if "x = Inr (Some p)" for p using at that by simp
      moreover have "x = y" unfolding eq ..
      ultimately show ?thesis by blast
    qed blast
  qed (use x(1) y(1) in simp_all)
qed

theorem simd_boundary_search_witness:
  "\<exists>b (x :: unit Error + nat option) r1 d r2. mirrored_new 8 (\<lambda>_. Inr ()) 8 None = Inr b \<and>
     simd_find_record_start patchy_ops compile_time_isa default_config OutOfQuotes True
       (patchy_reader b [34, 10, 34, 44, 97, 10, 98] [Inr 2, Inr 0, Inr 4] 7) = Some (x, r1) \<and>
     dfa_scan_record_start patchy_ops (dfa_chunk_parser_new True default_config) OutOfQuotes True
       (patchy_reader b [34, 10, 34, 44, 97, 10, 98] [Inr 2, Inr 0, Inr 4] 7) = Some (d, r2) \<and>
     (x = d \<or> (\<exists>e. x = Inl (IO e) \<or> d = Inl (IO e)))"
proof -
  obtain b where b: "mirrored_new 8 (\<lambda>_. Inr ()) 8 None = Inr b"
    and r: "ring_inv (mirrored_inv 8) (\<lambda>_. True) (patchy_reader b [34, 10, 34, 44, 97, 10, 98] [Inr 2, Inr 0, Inr 4] 7)"
    by (rule patchy_start) simp
  have c: "toggles default_config True"
    by (simp add: toggles_def dialect_ok_def default_config_def is_terminator_def)
  let ?r = "patchy_reader b [34, 10, 34, 44, 97, 10, 98] [Inr 2, Inr 0, Inr 4] 7"
  let ?inv = "ring_inv (mirrored_inv 8) (\<lambda>_. True)"
  note res = simd_boundary_search[OF portable.lawful_isa_axioms patchy_laws r c
    disjI1[OF refl], of True, where 'u = unit]
  have agree: "x = d \<or> (\<exists>e. x = Inl (IO e) \<or> d = Inl (IO e))"
    if "read_failed patchy_ops ?inv x \<or> read_failed patchy_ops ?inv d \<or> x = d \<and> P" for x d :: "unit Error + nat option" and P
    using that by (auto dest: read_failed_IO)
  show ?thesis by (insert res, elim exE conjE, intro exI conjI, rule b, assumption, assumption, rule agree, assumption)
qed

text \<open>C25. The field-count check on boundary bits, 64 at a time, by bit extract against a table of
  rotations or by a walk over the terminators, accepts a sequence of vectors exactly when, boundary by
  boundary, every \<open>n\<close>-th and no other is a terminator, and ends in the phase that counting gives. The
  constructor's assertion holds exactly for 1 to 63 fields.\<close>

theorem field_count_verified:
  fixes I :: isa
  assumes "lawful_isa I"
  shows "(field_counter_new n \<noteq> None \<longleftrightarrow> 1 \<le> n \<and> n < 64) \<and>
    (\<forall>fc. field_counter_new n = Some fc \<longrightarrow>
      verify_vectors I vs fc = map_option (\<lambda>ph. fc\<lparr>phase := ph\<rparr>)
        (count_fields n 0 (concat (map (\<lambda>(d, t). map (bit t) (set_bits_of d)) vs))))"
proof (intro conjI allI impI)
  show "field_counter_new n \<noteq> None \<longleftrightarrow> 1 \<le> n \<and> n < 64" by (auto simp: field_counter_new_def)
  fix fc assume fc: "field_counter_new n = Some fc"
  from lawful_isa.verify_vectors_ok[OF assms field_counter_new_ok[OF fc], of vs]
  show "verify_vectors I vs fc = map_option (\<lambda>ph. fc\<lparr>phase := ph\<rparr>)
      (count_fields n 0 (concat (map (\<lambda>(d, t). map (bit t) (set_bits_of d)) vs)))"
    unfolding field_counter_rotations(1,2)[OF fc] .
qed

theorem field_count_verified_witness:
  "(case field_counter_new 2 of Some fc \<Rightarrow>
      verify_vectors compile_time_isa [(6, 4), (1, 0), (1, 1)] fc = Some (fc\<lparr>phase := 0\<rparr>) \<and>
      verify_vectors compile_time_isa [(6, 2)] fc = None
    | None \<Rightarrow> False)"
proof -
  have bits: "set_bits_of 6 = [1, 2]" "set_bits_of 1 = [0]" by code_simp+
  note v = field_count_verified[OF portable.lawful_isa_axioms, of 2]
  from conjunct1[OF v] obtain fc where fc: "field_counter_new 2 = Some fc" by auto
  have k: "bit (4 :: u64) (Suc 0) = False" "bit (4 :: u64) 2 = True" "bit (2 :: u64) (Suc 0) = True" by code_simp+
  show ?thesis
    using conjunct2[OF v[of "[(6, 4), (1, 0), (1, 1)]"], rule_format, OF fc]
      conjunct2[OF v[of "[(6, 2)]"], rule_format, OF fc] fc
    by (simp add: bits k)
qed

text \<open>C12. In every dialect the SIMD parser supports, quoted fields included, over a slice behind the
  doubly mapped ring buffer, in \<open>Text\<close>: whatever the refills, the alignment of the buffer and the implementation of the
  vector primitives, a pass of the SIMD parser always returns, with what the reference machine makes of the bytes, or with
  the I/O error of a failed refill, a UTF-8 error where the input stops being valid, or an error that comes ahead of the
  records in front of it: the arity error of the first wrong record, or, where the input ends within a quote, that error or
  an arity error before it. One combination is left out (\<open>simd_dialect\<close>): a dialect with a quote and no escape under the strict
  search, where the SIMD probe accepts what the reference rejects (\<open>strict_probe_diverges\<close>).\<close>

theorem simd_pass_on_slices:
  fixes os :: "u64 \<Rightarrow> io_error + unit"
  assumes "lawful_isa I" and "simd_dialect c mode" and "a = OutOfQuotes \<or> a = InQuotes"
    and "mirrored_inv g (rb_buf r)" and "0 < rb_read_cap r"
    and "length (mirrored_data (rb_buf r) @ ring_unread cursor_content r) < 2 ^ 63"
  defines "R \<equiv> ring_reader_ops (mirrored_ops g os) cursor_read"
    and "bs \<equiv> mirrored_data (rb_buf r) @ ring_unread cursor_content r"
  shows "\<exists>res r'. chunk_parse R (simd_parser R validate_str I addr c acc) s a mode r = Some (res, r') \<and>
    (res = spec_pass c acc a mode (rb_chunk_remaining r) bs s \<or>
     (\<exists>e. result res = Inl (IO e)) \<or>
     (\<exists>p err. parse_starts c a mode (rb_chunk_remaining r) bs p \<and> result res = Inl err \<and>
        (\<not> utf8 (drop p bs) \<and> err = Utf8 (at_byte (p + utf8_valid_len (drop p bs))) \<or>
         error_ahead c p (drop p bs) (spec_init p s) err)))"
proof -
  have inv: "ring_inv (mirrored_inv g) (\<lambda>k. cur_data k = cur_data (rb_src r)) r"
    using assms(4,5) by (simp add: ring_inv_def)
  have st: "mirrored_slice.reader.stream g os r = bs" and rem: "r_remaining R r = rb_chunk_remaining r"
    unfolding mirrored_slice.reader.stream_def bs_def R_def by (simp_all add: ring_reader_ops_def mirrored_ops_def)
  have len: "length (mirrored_slice.reader.stream g os r) < 2 ^ 63" using assms(6) by (simp add: st bs_def)
  from simd_pass.simd_pass_ok[OF simd_pass.intro[OF mirrored_slice.ring_text.pass_env_axioms assms(1)] inv assms(2,3) len,
      of addr acc s]
  show ?thesis
    unfolding st rem[unfolded R_def] R_def mirrored_slice.reader.fill_failed_def
      simd_pass.simd_failed_def[OF simd_pass.intro[OF mirrored_slice.ring_text.pass_env_axioms assms(1)]]
    using text_out.vlen_le by (fastforce simp: utf8_def)
qed

theorem simd_pass_on_slices_witness:
  "\<exists>b res r'. mirrored_new 8 (\<lambda>_. Inr ()) 8 None = Inr b \<and>
     chunk_parse (ring_reader_ops (mirrored_ops 8 (\<lambda>_. Inr ())) cursor_read)
       (simd_parser (ring_reader_ops (mirrored_ops 8 (\<lambda>_. Inr ())) cursor_read) validate_str compile_time_isa (\<lambda>_. 3)
         (default_config\<lparr>field_count := Some 2\<rparr>) (collect :: (_, unit) accumulator))
       [] InQuotes FindStrict (ring_reader_new b \<lparr>cur_data = [97, 34, 10, 34, 98, 34, 44, 98, 10], cur_pos = 0\<rparr> (Some 9) 9 8) = Some (res, r')"
proof -
  let ?c = "default_config\<lparr>field_count := Some 2\<rparr>"
  obtain b where b: "mirrored_new 8 (\<lambda>_. Inr ()) 8 None = Inr b" "mirrored_data b = []"
    by (simp add: mirrored_new_def checked_capacity_def over_def map_double_def next_power_of_two_exact[of 3, simplified] result_simps Let_def
        mirrored_data_def mirrored_readable_def mapped_def)
  have "mirrored_inv 8 b" using mirrored_new_ok[OF b(1), of 3] by simp
  moreover have "simd_dialect ?c FindStrict"
    by (simp add: simd_dialect_def dialect_ok_def default_config_def is_terminator_def simd_supports_def FIXED_MAX_ARITY_def apart_def)
  ultimately show ?thesis
    using simd_pass_on_slices[OF portable.lawful_isa_axioms, of ?c FindStrict InQuotes 8
        "ring_reader_new b \<lparr>cur_data = [97, 34, 10, 34, 98, 34, 44, 98, 10], cur_pos = 0\<rparr> (Some 9) 9 8"
        "\<lambda>_. Inr ()" "\<lambda>_. 3" "collect :: (_, unit) accumulator" "[]"] b
    by (auto simp: ring_reader_new_def ring_unread_def cursor_content_def)
qed

text \<open>C13. The two backends on the same input, in \<open>Bytes\<close>: in every dialect the SIMD parser supports, over bytes in
  memory and a chunk that reaches the end of the input, the pass of the SIMD parser and the pass of the DFA parser return the
  same, or both return an error. Left out is the strict search in a dialect with a quote and no escape, where they do not agree
  (\<open>strict_probe_diverges\<close>).\<close>

theorem backends_agree:
  fixes acc :: "('s, 'u) accumulator"
  assumes "lawful_isa I" and "simd_dialect c mode" and "a = OutOfQuotes \<or> a = InQuotes" and "im_inv r"
    and "length (im_buffer r) < 2 ^ 63" and "length (im_buffer r) \<le> im_remaining r"
  defines "R \<equiv> in_memory_ops" and "V \<equiv> validate_bytes"
  shows "\<exists>d r1 x r2. chunk_parse R (dfa_parser R V (dfa_chunk_parser_new le c) acc) s a mode r = Some (d, r1) \<and>
    chunk_parse R (simd_parser R V I addr c acc) s a mode r = Some (x, r2) \<and>
    (x = d \<or> (\<exists>e e'. result x = Inl e \<and> result d = Inl e'))"
proof -
  have st: "in_memory.stream r = im_buffer r" and rem: "r_remaining in_memory_ops r = im_remaining r"
    unfolding in_memory.stream_def by (simp_all add: in_memory_ops_def)
  have no: "\<not> in_memory.fill_failed err" "\<not> in_memory_bytes.utf8_failed c a mode rem bs err" for err :: "'u Error" and rem bs
    using in_memory.never_fails by (simp_all add: in_memory_bytes.utf8_failed_def)
  from in_memory_bytes.pass_ok[OF assms(4) refl, of le c acc s a mode]
  obtain r1 where d: "chunk_parse R (dfa_parser R V (dfa_chunk_parser_new le c) acc) s a mode r =
      Some (spec_pass c acc a mode (im_remaining r) (im_buffer r) s, r1)"
    unfolding st rem R_def V_def using no by blast
  have env: "simd_pass in_memory_ops im_inv (\<lambda>_. []) validate_bytes length I"
    by (rule simd_pass.intro[OF in_memory_bytes.pass_env_axioms assms(1)])
  from simd_pass.simd_pass_ok[OF env assms(4,2,3), of addr acc s]
  obtain x r2 where x: "chunk_parse R (simd_parser R V I addr c acc) s a mode r = Some (x, r2)"
    "x = spec_pass c acc a mode (im_remaining r) (im_buffer r) s \<or>
      (\<exists>err. result x = Inl err \<and> simd_pass.simd_failed length c a mode (im_remaining r) (im_buffer r) s err)"
    unfolding st rem R_def V_def using no(1) assms(5) by blast
  have "\<exists>e. result (spec_pass c acc a mode (im_remaining r) (im_buffer r) s) = Inl e"
    if "simd_pass.simd_failed length c a mode (im_remaining r) (im_buffer r) s (err :: 'u Error)" for err
    using that unfolding simd_pass.simd_failed_def[OF env] using simd_failed_fails[OF _ _ assms(6)] by auto
  with d x show ?thesis by blast
qed

theorem backends_agree_witness:
  "\<exists>d r1 x r2. chunk_parse in_memory_ops (dfa_parser in_memory_ops validate_bytes (dfa_chunk_parser_new True (default_config\<lparr>field_count := Some 2\<rparr>)) collect)
      [] OutOfQuotes FindNo (in_memory_new [34, 97, 10, 34, 44, 98, 10] 7) = Some (d :: (_, unit) PassResult, r1) \<and>
    chunk_parse in_memory_ops (simd_parser in_memory_ops validate_bytes compile_time_isa (\<lambda>_. 3) (default_config\<lparr>field_count := Some 2\<rparr>) collect)
      [] OutOfQuotes FindNo (in_memory_new [34, 97, 10, 34, 44, 98, 10] 7) = Some (x, r2) \<and>
    (x = d \<or> (\<exists>e e'. result x = Inl e \<and> result d = Inl e'))"
proof -
  let ?r = "in_memory_new [34, 97, 10, 34, 44, 98, 10] 7" and ?c = "default_config\<lparr>field_count := Some 2\<rparr>"
  have r: "im_inv ?r" "im_remaining ?r = 7" "im_buffer ?r = [34, 97, 10, 34, 44, 98, 10]"
    by (simp_all add: im_inv_def in_memory_new_def im_buffer_def im_remaining_def)
  have "simd_dialect ?c FindNo"
    by (simp add: simd_dialect_def dialect_ok_def default_config_def is_terminator_def simd_supports_def FIXED_MAX_ARITY_def apart_def)
  from backends_agree[OF portable.lawful_isa_axioms this _ r(1), of OutOfQuotes True "collect :: (_, unit) accumulator" "[]" "\<lambda>_. 3"] r(2,3)
  show ?thesis by simp
qed

text \<open>C16. One step of the stepper for dialects with a quote, over a window of whatever alignment: it suspends at a
  record boundary the reference machine runs to, having handed over what the machine has, and with the bytes after the
  boundary untouched; after the consume it still stands for the machine; or it ends the chunk or fails where the machine
  does, or reports an error ahead of the records in front of it.\<close>

theorem index_step_simulates:
  fixes acc :: "('s, 'u) accumulator"
  assumes "lawful_isa I" and rel: "index_rel c n (buf @ rest) tot 0 pos e0 st m" and "e0 \<le> e" and "e \<le> length buf"
    and "length (buf @ rest) < 2 ^ 63"
    and step: "ix_step I addr acc \<lparr>ctx_buf = buf, scan_start = pos, scan_end = e, remaining_in_chunk = L - tot,
      total_consumed = tot\<rparr> (m_acc m) st = (res, buf', s', st')"
  shows "length buf' = length buf \<and>
    (case res of
       Suspended r k lre \<Rightarrow> (\<exists>m'. k \<le> r \<and> r \<le> e \<and> drop k buf' = drop k buf \<and> spec_run c acc L tot (take k buf) m = Running m' \<and>
         lre = m_last_end m' \<and> s' = m_acc m' \<and> index_rel c n (drop k buf' @ rest) (tot + k) 0 (r - k) (e - k) (ix_consume k st') m')
     | Done p \<Rightarrow> (\<exists>k \<le> e. spec_run c acc L tot (take k buf) m = Finished p s')
     | StepError err \<Rightarrow> (\<exists>k \<le> e. spec_run c acc L tot (take k buf) m = Failed err) \<or> error_ahead c tot (buf @ rest) m err)"
proof -
  have len: "length (buf @ rest) < 2 ^ 63" using assms(5) .
  have step': "st_step (index_stepper_ops I addr) acc \<lparr>ctx_buf = buf, scan_start = pos, scan_end = e, remaining_in_chunk = L - tot,
      total_consumed = tot\<rparr> (m_acc m) st = (res, buf', s', st')" using step by (simp add: index_stepper_ops_def)
  note out = lagging_stepper.step_lag[OF lawful_isa.index_lagging[OF assms(1)] rel assms(3,4) len step']
  have lag: "index_rel c n xs tot lag pos e st m \<Longrightarrow> lag = 0" for xs tot lag pos e st m by (simp add: index_rel_def)
  show ?thesis
  proof (cases res)
    case (Suspended r k lre)
    then obtain k' m' where m': "k \<le> k'" "k' \<le> r" "r \<le> e" "drop k' buf' = drop k' buf" "spec_run c acc L tot (subslice buf 0 k') m = Running m'"
      "lre = m_last_end m'" "s' = m_acc m'"
      "index_rel c n (drop k buf' @ rest) (tot + k) (k' - k) (r - k) (e - k) (ix_consume k st') m'"
      using out by (auto simp: index_stepper_ops_def)
    with lag[OF m'(8)] have "k' = k" by simp
    with m' show ?thesis using out Suspended by (auto simp: subslice_def)
  next
    case (Done p)
    then show ?thesis using out by (auto simp: subslice_def)
  next
    case (StepError err)
    then show ?thesis using out by (auto simp: subslice_def)
  qed
qed

theorem index_step_simulates_witness:
  "\<exists>st res buf' s' st'. index_stepper_new (default_config\<lparr>field_count := Some 2\<rparr>) = Some st \<and>
     ix_step compile_time_isa (\<lambda>_. 3) collect \<lparr>ctx_buf = [34, 97, 34, 44, 98, 10], scan_start = 0, scan_end = 6, remaining_in_chunk = 6 - 0,
       total_consumed = 0\<rparr> [] st = (res :: unit StepResult, buf', s', st') \<and> length buf' = 6"
proof -
  let ?c = "default_config\<lparr>field_count := Some 2\<rparr>" and ?buf = "[34, 97, 34, 44, 98, 10] :: byte list"
  have "simd_dialect ?c FindNo"
    by (simp add: simd_dialect_def dialect_ok_def default_config_def is_terminator_def simd_supports_def FIXED_MAX_ARITY_def apart_def)
  from simd_dialect_sel[OF this] obtain n where q: "quoting ?c n (scan_config ?c)" by (auto simp: default_config_def)
  from index_stepper_start[OF q, of "?buf @ []" 0 "[] :: byte list list list"] obtain st where
    st: "index_stepper_new ?c = Some st" "index_rel ?c n (?buf @ []) 0 0 0 0 st (spec_init 0 ([] :: byte list list list))"
    by (auto simp: default_config_def is_terminator_def)
  obtain res :: "unit StepResult" and buf' s' st' where
    step: "ix_step compile_time_isa (\<lambda>_. 3) collect \<lparr>ctx_buf = ?buf, scan_start = 0, scan_end = 6, remaining_in_chunk = 6 - 0,
       total_consumed = 0\<rparr> (m_acc (spec_init 0 [])) st = (res, buf', s', st')" by (metis surj_pair)
  from index_step_simulates[OF portable.lawful_isa_axioms st(2) _ _ _ step] have "length buf' = 6" by simp
  with st(1) step show ?thesis by (simp add: spec_init_def)
qed

text \<open>C26. The SIMD record assembly, which moves bytes within the buffer over the removed ones: with ascending
  spans and removed offsets its assertion holds and every record reaches the accumulator in order, each field as its
  span's bytes without the removed ones, whatever fields before it were compacted; every byte that lies in none of the spans,
  the delimiters and terminators between them included, stays as it was.\<close>

theorem record_assembly:
  assumes "sorted rs" and "distinct rs" and "spans_in lo (take (num * n) (zip bs es)) hi" and "hi \<le> length buf"
    and "1 \<le> n" and "n \<le> FIXED_MAX_ARITY" and "num * n \<le> length bs" and "num * n \<le> length es"
  shows "\<exists>buf'. assemble_records_fixed acc buf n bs es rs num s =
      Some (hand_records acc s (map (map (\<lambda>(b, e). kept rs buf b e)) (strided n num (zip bs es))), buf') \<and>
    length buf' = length buf \<and>
    (\<forall>k<length buf. (\<forall>(b, e)\<in>set (take (num * n) (zip bs es)). k < b \<or> e \<le> k) \<longrightarrow> buf' ! k = buf ! k)"
proof -
  from assemble_records_ok[OF assms, of acc s] obtain buf' where
    b: "assemble_records_fixed acc buf n bs es rs num s =
      Some (hand_records acc s (map (map (\<lambda>(b, e). kept rs buf b e)) (strided n num (zip bs es))), buf')" by blast
  from assemble_records_between[OF assms(1-5,7,8) b] b show ?thesis
    unfolding same_between_def by (intro exI[of _ buf'] conjI) simp_all
qed

theorem record_assembly_witness:
  "\<exists>buf'. assemble_records_fixed collect [34, 97, 34, 34, 98, 34, 44, 99, 10] 2 [1, 7] [5, 8] [2] 1 [] =
    Some (Inr [[[97, 34, 98], [99]]] :: unit boxed_error + _, buf') \<and> length buf' = 9"
proof -
  have nine: "Suc (Suc (Suc (Suc (Suc (Suc (Suc (Suc (Suc 0)))))))) = 9" by simp
  have k: "kept [2] [34, 97, 34, 34, 98, 34, 44, 99, 10] (Suc 0) 5 = [97, 34, 98]" "kept [2] [34, 97, 34, 34, 98, 34, 44, 99, 10] 7 8 = [99]"
    by (simp_all add: kept_def upt_rec numeral_eq_Suc)
  show ?thesis
    using record_assembly[of "[2]" 0 1 2 "[1, 7]" "[5, 8]" 9 "[34, 97, 34, 34, 98, 34, 44, 99, 10]" "collect :: (_, unit) accumulator" "[]"]
    by (auto simp: k nine FIXED_MAX_ARITY_def collect_def)
qed

text \<open>C35. A mapped file parsed in \<open>Bytes\<close> by the SIMD parser on any number of threads, in any interleaving: in
  a dialect it supports whose escape, where it has a quote, is the quote; if the header row, where the dialect has one, ends in the
  first chunk, and the dialect has no quote or the last chunk has a pass, then the run returns what one sequential parse of the
  whole file returns, records, order and error, or both fail; a worker thread that could not be spawned is reported. A pass
  of the SIMD parser may fail for what lies behind its chunk, so the error need not be the same.\<close>

theorem simd_parallel_parse:
  fixes res :: "('u Error + byte list list list) option"
  assumes isa: "lawful_isa I" and dia: "simd_dialect c FindStrict"
    and rs: "for_file h c (length input) = (Some (Inr rs) :: ('w Error + _) option)" and ne: "input \<noteq> []"
    and len: "length input < 2 ^ 63" and host: "0 < available_parallelism h"
    and as: "assumptions_for_config (quote c) (escape c) = Some as"
    and B: "first_boundary (rs_config rs) (take (chunk_size (rs_config rs)) input) = Some B"
    and pass: "quote c = None \<or> co_passes (spec_output (rs_config rs) (collect :: (_, 'u) accumulator) []
      (chunk_size (rs_config rs)) as input (rs_chunk_count rs - 1)) \<noteq> []"
    and run: "run_with_outcome (mmap_io_ops (Inr ())) (\<lambda>_. map_ctx input) (map_ctx input)
      (simd_parser mmap_reader_ops validate_bytes I addr (rs_config rs) collect) [] rs as concat s res"
  shows "case spawn_error s of
      None \<Rightarrow> (\<exists>out. res = Some out \<and> (out = sequential (rs_config rs) collect input [] \<or>
        (\<exists>e e'. out = Inl e \<and> sequential (rs_config rs) (collect :: (_, 'u) accumulator) input [] = Inl e')))
    | Some e \<Rightarrow> res = Some (Inl (IO e))"
  using simd_parallel_run[OF assms] by (auto simp: same_or_failed_def split: option.splits)

theorem simd_parallel_parse_witness:
  "\<exists>rs s (res :: (unit Error + _) option).
     run_with_outcome (mmap_io_ops (Inr ())) (\<lambda>_. map_ctx [97, 10, 34, 98, 34, 10, 99, 10]) (map_ctx [97, 10, 34, 98, 34, 10, 99, 10])
       (simd_parser mmap_reader_ops validate_bytes compile_time_isa (\<lambda>_. 3) (rs_config rs) collect) [] rs [OutOfQuotes, InQuotes] concat s res \<and>
     chunk_size (rs_config rs) = 4 \<and>
     (case spawn_error s of None \<Rightarrow> \<exists>out. res = Some out | Some e \<Rightarrow> res = Some (Inl (IO e)))"
proof -
  let ?c = "default_config\<lparr>has_headers := False, chunk_size := 4, field_count := Some 1\<rparr>"
  let ?in = "[97, 10, 34, 98, 34, 10, 99, 10] :: byte list" and ?as = "[OutOfQuotes, InQuotes]"
  have dia: "simd_dialect ?c FindStrict"
    by (simp add: simd_dialect_def dialect_ok_def default_config_def is_terminator_def simd_supports_def FIXED_MAX_ARITY_def apart_def)
  have "\<exists>b. resolve_parser_backend ?c = (Inr b :: unit Error + _)"
    by (simp add: resolve_parser_backend_def simd_supports_def dfa_supports_def default_config_def FIXED_MAX_ARITY_def)
  then obtain b where "resolve_parser_backend ?c = (Inr b :: unit Error + _)" ..
  from for_file_total[OF this] obtain rs where
    rs: "for_file demo_host ?c (length ?in) = (Some (Inr rs) :: (unit Error + _) option)" by blast
  note r = for_file_dialect[OF rs]
  have cs: "chunk_size (rs_config rs) = 4" using for_file_chunk_size[OF rs] by simp
  have count: "rs_chunk_count rs = 2" using r(8) cs by (simp add: div_ceil_def)
  have as: "assumptions_for_config (quote ?c) (escape ?c) = Some ?as"
    by (simp add: assumptions_for_config_def default_config_def)
  have "\<exists>s (res :: (unit Error + _) option). run_with_outcome (mmap_io_ops (Inr ())) (\<lambda>_. map_ctx ?in) (map_ctx ?in)
       (simd_parser mmap_reader_ops validate_bytes compile_time_isa (\<lambda>_. 3) (rs_config rs) collect) [] rs ?as concat s res"
    by (rule run_exists[OF rs]) (simp_all add: demo_host_def)
  then obtain s and res :: "(unit Error + _) option" where
    run: "run_with_outcome (mmap_io_ops (Inr ())) (\<lambda>_. map_ctx ?in) (map_ctx ?in)
       (simd_parser mmap_reader_ops validate_bytes compile_time_isa (\<lambda>_. 3) (rs_config rs) collect) [] rs ?as concat s res" by blast
  have B: "first_boundary (rs_config rs) (take (chunk_size (rs_config rs)) ?in) = Some 0"
    using r(10) by (simp add: first_boundary_def)
  have pass: "quote ?c = None \<or> co_passes (spec_output (rs_config rs) (collect :: (_, unit) accumulator) []
      (chunk_size (rs_config rs)) ?as ?in (rs_chunk_count rs - 1)) \<noteq> []"
    using r by (simp add: eval_cells eval_search eval_machine eval_pass cs count default_config_def)
  have "case spawn_error s of None \<Rightarrow> \<exists>out. res = Some out | Some e \<Rightarrow> res = Some (Inl (IO e))"
    using simd_parallel_parse[OF portable.lawful_isa_axioms dia rs _ _ _ as B pass run]
    by (auto simp: demo_host_def split: option.splits)
  with run cs show ?thesis by blast
qed

end
